(* ===== verification/Prelude.thy ===== *)
theory Prelude
  imports Main "HOL-Library.Word" "HOL-Library.List_Lexorder" "HOL-Library.Multiset"
begin

unbundle bit_operations_syntax

text \<open>
  Shared vocabulary of the development: Go's machine types, byte slices, the failure type
  (an \<^verbatim>\<open>error\<close> return or a run-time panic), slice primitives that can panic, and the
  generic lemmas on lists, orders and words that the component theories use.

  Go's \<^verbatim>\<open>[]byte\<close> and \<^verbatim>\<open>string\<close> are lists of 8-bit words; \<^verbatim>\<open>bytes.Compare\<close> and the
  string operators \<^verbatim>\<open><\<close>, \<^verbatim>\<open>>=\<close> are the lexicographic order of such lists.
  \<^verbatim>\<open>uint64\<close> is \<^typ>\<open>64 word\<close>; \<^verbatim>\<open>int64\<close> is the same word read with \<^const>\<open>sint\<close>.
\<close>

section \<open>Types\<close>

type_synonym byte = "8 word"
type_synonym bytes = "byte list"
type_synonym u16 = "16 word"
type_synonym u32 = "32 word"
type_synonym u64 = "64 word"
type_synonym i64 = "64 word"

text \<open>A call that does not return normally either returns an \<^verbatim>\<open>error\<close> or panics.\<close>

datatype failure = Error string | Panic string

type_synonym 'a result = "failure + 'a"

abbreviation Ok :: "'a \<Rightarrow> 'a result" where
  "Ok \<equiv> Inr"

definition bind_r :: "'a result \<Rightarrow> ('a \<Rightarrow> 'b result) \<Rightarrow> 'b result" where
  "bind_r r f = (case r of Inl e \<Rightarrow> Inl e | Inr x \<Rightarrow> f x)"

lemma bind_r_simps [simp]:
  "bind_r (Inl e) f = Inl e"
  "bind_r (Inr x) f = f x"
  by (simp_all add: bind_r_def)

lemma bind_r_eq_Inr [simp]: "bind_r r f = Inr y \<longleftrightarrow> (\<exists>x. r = Inr x \<and> f x = Inr y)"
  by (cases r) auto

lemma bind_r_cong [fundef_cong]:
  "r = r' \<Longrightarrow> (\<And>x. r' = Inr x \<Longrightarrow> f x = g x) \<Longrightarrow> bind_r r f = bind_r r' g"
  by (cases r') auto

section \<open>Operations on a state\<close>

text \<open>
  A Go method that mutates its receiver and may fail is a function from the state to a result and
  a state: what was changed before an error was returned stays changed.
\<close>

type_synonym ('s, 'a) op = "'s \<Rightarrow> 'a result \<times> 's"

definition bind_s :: "('s, 'a) op \<Rightarrow> ('a \<Rightarrow> ('s, 'b) op) \<Rightarrow> ('s, 'b) op" where
  "bind_s m f s = (case m s of (Inl e, s') \<Rightarrow> (Inl e, s') | (Inr x, s') \<Rightarrow> f x s')"

definition ret_s :: "'a \<Rightarrow> ('s, 'a) op" where
  "ret_s x s = (Ok x, s)"

definition fail_s :: "failure \<Rightarrow> ('s, 'a) op" where
  "fail_s e s = (Inl e, s)"

definition lift_s :: "'a result \<Rightarrow> ('s, 'a) op" where
  "lift_s r s = (r, s)"

lemma op_simps [simp]:
  "ret_s x s = (Ok x, s)" "fail_s e s = (Inl e, s)" "lift_s r s = (r, s)"
  by (simp_all add: ret_s_def fail_s_def lift_s_def)

lemma bind_s_Inr [simp]: "m s = (Inr x, s') \<Longrightarrow> bind_s m f s = f x s'"
  by (simp add: bind_s_def)

lemma bind_s_Inl [simp]: "m s = (Inl e, s') \<Longrightarrow> bind_s m f s = (Inl e, s')"
  by (simp add: bind_s_def)

lemma bind_s_eq_Inr: "bind_s m f s = (Inr y, t) \<longleftrightarrow> (\<exists>x s'. m s = (Inr x, s') \<and> f x s' = (Inr y, t))"
  by (auto simp: bind_s_def split: prod.split sum.split)

lemma bind_s_eq_Inl: "bind_s m f s = (Inl e, t) \<longleftrightarrow>
    m s = (Inl e, t) \<or> (\<exists>x s'. m s = (Inr x, s') \<and> f x s' = (Inl e, t))"
  by (auto simp: bind_s_def split: prod.split sum.split)

lemma bind_s_cong [fundef_cong]:
  "s = t \<Longrightarrow> m t = m' t \<Longrightarrow> (\<And>x s'. m' t = (Inr x, s') \<Longrightarrow> f x s' = g x s') \<Longrightarrow> bind_s m f s = bind_s m' g t"
  by (auto simp: bind_s_def split: prod.split sum.split)

section \<open>Operation types\<close>

text \<open>
  \<^verbatim>\<open>enums.OpType\<close> is a byte; a value read from disk may be any byte, so the model keeps the byte
  and names the four constants.
\<close>

type_synonym OpType = byte

abbreviation OpTypePut :: OpType where "OpTypePut \<equiv> 0"
abbreviation OpTypeDel :: OpType where "OpTypeDel \<equiv> 1"
abbreviation OpTypeMerge :: OpType where "OpTypeMerge \<equiv> 2"
abbreviation OpTypeRangeDel :: OpType where "OpTypeRangeDel \<equiv> 3"

section \<open>Go slices\<close>

text \<open>
  The largest allocation of the Go run time on 64-bit platforms: \<^verbatim>\<open>make\<close> panics above it,
  so no live slice is longer.
\<close>

definition max_alloc :: nat where
  "max_alloc = 2 ^ 48"

definition slice_ok :: "'a list \<Rightarrow> bool" where
  "slice_ok xs \<longleftrightarrow> length xs < max_alloc"

text \<open>
  A Go \<^verbatim>\<open>int\<close> is 64 bits wide; \<open>go_int\<close> wraps a mathematical integer to it, and
  \<open>u64_int\<close> is the conversion \<^verbatim>\<open>int(x)\<close> of a \<^verbatim>\<open>uint64\<close>.
\<close>

definition go_int :: "int \<Rightarrow> int" where
  "go_int x = signed_take_bit 63 x"

definition u64_int :: "u64 \<Rightarrow> int" where
  "u64_int x = sint x"

lemma go_int_small: "- (2 ^ 63) \<le> x \<Longrightarrow> x < 2 ^ 63 \<Longrightarrow> go_int x = x"
  unfolding go_int_def by (simp add: signed_take_bit_int_eq_self)

lemma u64_int_of_nat: "n < 2 ^ 63 \<Longrightarrow> u64_int (of_nat n) = int n"
  unfolding u64_int_def
  by (simp add: sint_uint unsigned_of_nat take_bit_int_eq_self signed_take_bit_int_eq_self take_bit_nat_eq_self)

text \<open>\<^verbatim>\<open>make([]byte, n)\<close> and writes into a buffer at an offset.\<close>

definition make_bytes :: "nat \<Rightarrow> bytes" where
  "make_bytes n = replicate n 0"

definition make_len :: "u64 \<Rightarrow> bytes result" where
  "make_len n = (if unat n < max_alloc then Ok (make_bytes (unat n))
     else Inl (Panic ''makeslice: len out of range''))"

text \<open>\<^verbatim>\<open>copy(buf[pos:], src)\<close>: as many bytes as fit; slicing past the end panics.\<close>

definition overlay :: "bytes \<Rightarrow> nat \<Rightarrow> bytes \<Rightarrow> bytes" where
  "overlay buf pos src = take pos buf @ take (length buf - pos) src @ drop (pos + length src) buf"

definition copy_at :: "bytes \<Rightarrow> nat \<Rightarrow> bytes \<Rightarrow> bytes result" where
  "copy_at buf pos src =
     (if pos \<le> length buf then Ok (overlay buf pos src)
      else Inl (Panic ''slice bounds out of range''))"

text \<open>A write that must fit (\<^verbatim>\<open>PutUvarint\<close>, \<^verbatim>\<open>PutUint32\<close>, \<^verbatim>\<open>PutUint64\<close>).\<close>

definition put_at :: "bytes \<Rightarrow> nat \<Rightarrow> bytes \<Rightarrow> bytes result" where
  "put_at buf pos src =
     (if pos + length src \<le> length buf then Ok (overlay buf pos src)
      else Inl (Panic ''index out of range''))"

text \<open>
  \<^verbatim>\<open>buf[lo:hi]\<close> of a slice. The buffers of the engine come from \<^verbatim>\<open>make\<close> or are tails of such
  buffers, so their capacity ends where their length does.
\<close>

definition go_slice :: "'a list \<Rightarrow> int \<Rightarrow> int \<Rightarrow> 'a list result" where
  "go_slice buf lo hi =
     (if 0 \<le> lo \<and> lo \<le> hi \<and> hi \<le> int (length buf)
      then Ok (take (nat hi - nat lo) (drop (nat lo) buf))
      else Inl (Panic ''slice bounds out of range''))"

lemma length_make_bytes [simp]: "length (make_bytes n) = n"
  by (simp add: make_bytes_def)

lemma length_overlay [simp]: "pos \<le> length buf \<Longrightarrow> length (overlay buf pos src) = length buf"
  by (auto simp: overlay_def)

text \<open>Writing behind a prefix of known length into a fresh tail.\<close>

lemma overlay_append:
  "length src \<le> n \<Longrightarrow>
   overlay (pre @ make_bytes n) (length pre) src = (pre @ src) @ make_bytes (n - length src)"
  by (simp add: overlay_def make_bytes_def)

lemma put_at_append:
  "length src \<le> n \<Longrightarrow> p = length pre \<Longrightarrow>
   put_at (pre @ make_bytes n) p src = Ok ((pre @ src) @ make_bytes (n - length src))"
  by (simp add: put_at_def overlay_append)

lemma copy_at_append:
  "length src \<le> n \<Longrightarrow> p = length pre \<Longrightarrow>
   copy_at (pre @ make_bytes n) p src = Ok ((pre @ src) @ make_bytes (n - length src))"
  by (simp add: copy_at_def overlay_append)

lemma make_bytes_0 [simp]: "make_bytes 0 = []"
  by (simp add: make_bytes_def)

lemma go_slice_middle:
  "lo = int (length pre) \<Longrightarrow> hi = lo + int (length mid) \<Longrightarrow> go_slice (pre @ mid @ post) lo hi = Ok mid"
  by (auto simp: go_slice_def nat_add_distrib)

section \<open>Comparators\<close>

text \<open>
  \<^verbatim>\<open>bytes.Compare\<close>. A comparator in the sense of \<^verbatim>\<open>structures.Comparator\<close> returns a
  negative, zero or positive \<^verbatim>\<open>int\<close>.
\<close>

type_synonym 'a comparator = "'a \<Rightarrow> 'a \<Rightarrow> int"

definition bytes_Compare :: "bytes comparator" where
  "bytes_Compare a b = (if a < b then -1 else if a = b then 0 else 1)"

lemma bytes_Compare_simps [simp]:
  "bytes_Compare a b < 0 \<longleftrightarrow> a < b"
  "bytes_Compare a b \<le> 0 \<longleftrightarrow> a \<le> b"
  "bytes_Compare a b = 0 \<longleftrightarrow> a = b"
  "0 < bytes_Compare a b \<longleftrightarrow> b < a"
  "0 \<le> bytes_Compare a b \<longleftrightarrow> b \<le> a"
  by (auto simp: bytes_Compare_def)

text \<open>
  The contract every structure of \<^verbatim>\<open>internal/structures\<close> relies on: a comparator is a
  total preorder, antisymmetric in its sign.
\<close>

locale cmp_order =
  fixes cmp :: "'a comparator"
  assumes cmp_sym: "cmp a b < 0 \<longleftrightarrow> 0 < cmp b a"
    and cmp_trans: "cmp a b \<le> 0 \<Longrightarrow> cmp b c \<le> 0 \<Longrightarrow> cmp a c \<le> 0"
begin

lemma cmp_refl: "cmp a a = 0"
  using cmp_sym [of a a] by linarith

lemma cmp_flip_le: "0 \<le> cmp a b \<longleftrightarrow> cmp b a \<le> 0"
  using cmp_sym [of a b] cmp_sym [of b a] by linarith

lemma cmp_flip_eq: "cmp a b = 0 \<longleftrightarrow> cmp b a = 0"
  using cmp_flip_le [of a b] cmp_flip_le [of b a] by linarith

lemma cmp_less_trans: "cmp a b < 0 \<Longrightarrow> cmp b c \<le> 0 \<Longrightarrow> cmp a c < 0"
  using cmp_trans [of b c a] cmp_trans [of a b c] cmp_flip_le [of b a] cmp_flip_le [of c a]
    cmp_flip_le [of a c] cmp_sym [of a b] by linarith

lemma cmp_le_less_trans: "cmp a b \<le> 0 \<Longrightarrow> cmp b c < 0 \<Longrightarrow> cmp a c < 0"
  using cmp_trans [of c a b] cmp_trans [of a b c] cmp_flip_le [of a c] cmp_flip_le [of c b]
    cmp_sym [of b c] by (smt (verit, ccfv_SIG))

lemma cmp_less_imp_le: "cmp a b < 0 \<Longrightarrow> cmp a b \<le> 0"
  by simp

lemma cmp_not_less: "\<not> cmp a b < 0 \<longleftrightarrow> cmp b a \<le> 0"
  using cmp_flip_le [of a b] by linarith

lemma cmp_not_le: "\<not> cmp a b \<le> 0 \<longleftrightarrow> cmp b a < 0"
  using cmp_sym [of b a] by linarith

end

interpretation bytes_order: cmp_order bytes_Compare
  by unfold_locales auto

section \<open>Binary search\<close>

text \<open>
  The engine has several hand-written binary searches that differ in which loop variable they
  return. All of them find the partition point of a predicate that holds on a prefix of the
  indices; \<open>partition_search\<close> is that search, and each loop is shown to compute it.
\<close>

function partition_search :: "(nat \<Rightarrow> bool) \<Rightarrow> int \<Rightarrow> int \<Rightarrow> int" where
  "partition_search P lo hi =
     (if lo \<le> hi then
        let mid = lo + (hi - lo) div 2 in
        if P (nat mid) then partition_search P (mid + 1) hi else partition_search P lo (mid - 1)
      else lo)"
  by pat_completeness auto
termination
  by (relation "measure (\<lambda>(P, lo, hi). nat (hi + 1 - lo))") auto

declare partition_search.simps [simp del]

definition down_closed :: "(nat \<Rightarrow> bool) \<Rightarrow> nat \<Rightarrow> bool" where
  "down_closed P n \<longleftrightarrow> (\<forall>i j. i \<le> j \<longrightarrow> j < n \<longrightarrow> P j \<longrightarrow> P i)"

lemma partition_search_from:
  assumes "down_closed P n" "0 \<le> lo" "hi < int n" "lo \<le> hi + 1"
    and "\<forall>i < n. int i < lo \<longrightarrow> P i" and "\<forall>i < n. hi < int i \<longrightarrow> \<not> P i"
  shows "0 \<le> partition_search P lo hi \<and> partition_search P lo hi \<le> int n \<and>
    (\<forall>i < n. P i \<longleftrightarrow> int i < partition_search P lo hi)"
  using assms
proof (induction P lo hi rule: partition_search.induct)
  case (1 P lo hi)
  define mid where "mid = lo + (hi - lo) div 2"
  have mono: "i \<le> j \<Longrightarrow> j < n \<Longrightarrow> P j \<Longrightarrow> P i" for i j
    using "1.prems"(1) unfolding down_closed_def by blast
  show ?case
  proof (cases "lo \<le> hi")
    case True
    then have mid: "lo \<le> mid" "mid \<le> hi" by (auto simp: mid_def)
    with "1.prems" have nm: "nat mid < n" by auto
    show ?thesis
    proof (cases "P (nat mid)")
      case yes: True
      have "\<forall>i < n. int i < mid + 1 \<longrightarrow> P i"
        using yes mono [of _ "nat mid"] nm mid "1.prems"(2) by (simp add: le_nat_iff)
      moreover have "partition_search P lo hi = partition_search P (mid + 1) hi"
        using True yes by (simp add: partition_search.simps [of P lo hi] mid_def [symmetric])
      ultimately show ?thesis
        by (simp only:) (rule "1.IH"(1) [OF True mid_def], use "1.prems" mid yes in simp_all)
    next
      case no: False
      have "\<forall>i < n. mid - 1 < int i \<longrightarrow> \<not> P i"
        using no mono [of "nat mid"] by (metis nat_le_iff zle_diff1_eq linorder_not_less order.strict_iff_not int_one_le_iff_zero_less zless_imp_add1_zle diff_add_cancel)
      moreover have "partition_search P lo hi = partition_search P lo (mid - 1)"
        using True no by (simp add: partition_search.simps [of P lo hi] mid_def [symmetric])
      ultimately show ?thesis
        by (simp only:) (rule "1.IH"(2) [OF True mid_def], use "1.prems" mid no in simp_all)
    qed
  next
    case False
    then have "partition_search P lo hi = lo"
      by (subst partition_search.simps) simp
    moreover have "hi = lo - 1" using False "1.prems"(4) by simp
    ultimately show ?thesis
      using "1.prems" by (simp, meson linorder_not_less zle_diff1_eq)
  qed
qed

lemma partition_search_all:
  assumes "down_closed P n"
  shows "0 \<le> partition_search P 0 (int n - 1)" "partition_search P 0 (int n - 1) \<le> int n"
    "i < n \<Longrightarrow> P i \<longleftrightarrow> int i < partition_search P 0 (int n - 1)"
  using partition_search_from [OF assms, of 0 "int n - 1"] by auto

text \<open>The partition point is determined by what it separates.\<close>

lemma partition_search_eqI:
  assumes "down_closed P n" "p \<le> n" "\<And>i. i < n \<Longrightarrow> P i \<longleftrightarrow> i < p"
  shows "partition_search P 0 (int n - 1) = int p"
proof (rule ccontr)
  assume ne: "partition_search P 0 (int n - 1) \<noteq> int p"
  note q = partition_search_all [OF assms(1)]
  show False
  proof (cases "partition_search P 0 (int n - 1) < int p")
    case True
    then have "nat (partition_search P 0 (int n - 1)) < p" using q(1) by linarith
    with q(3) [of "nat (partition_search P 0 (int n - 1))"] assms(3) [of "nat (partition_search P 0 (int n - 1))"]
    show False using assms(2) q(1) by simp
  next
    case False
    with ne have "p < n" "int p < partition_search P 0 (int n - 1)" using q(2) by linarith+
    with q(3) [of p] assms(3) [of p] show False by simp
  qed
qed

lemma down_closed_sorted:
  "sorted xs \<Longrightarrow> down_closed (\<lambda>i. xs ! i \<le> x) (length xs)"
  "sorted xs \<Longrightarrow> down_closed (\<lambda>i. xs ! i < x) (length xs)"
  unfolding down_closed_def
  by (meson order_trans sorted_nth_mono le_less_trans)+

lemma down_closed_cong: "down_closed P n \<Longrightarrow> (\<And>i. i < n \<Longrightarrow> P i = Q i) \<Longrightarrow> down_closed Q n"
  unfolding down_closed_def by (meson le_less_trans)

section \<open>Lists\<close>

lemma find_append: "find P (xs @ ys) = (case find P xs of None \<Rightarrow> find P ys | Some x \<Rightarrow> Some x)"
  by (induction xs) auto

lemma find_dropWhile: "find (\<lambda>x. \<not> P x) xs = (case dropWhile P xs of [] \<Rightarrow> None | x # _ \<Rightarrow> Some x)"
  by (induction xs) auto

lemma find_filter: "find P (filter Q xs) = find (\<lambda>x. Q x \<and> P x) xs"
  by (induction xs) auto

end
