(* ===== verification/Go_Binary.thy ===== *)
theory Go_Binary
  imports Prelude
begin

unbundle bit_operations_syntax

text \<open>
  The part of Go's standard package \<^verbatim>\<open>encoding/binary\<close> that the engine uses: unsigned and
  zig-zag signed varints and little-endian fixed-width integers, with their round trips.
  Every on-disk format of the engine (index entries, WAL records, encoders, merge operands)
  is built from these.
\<close>

section \<open>Varints\<close>

function put_uvarint :: "u64 \<Rightarrow> bytes" where
  "put_uvarint x =
     (if x < 0x80 then [ucast x] else (ucast x OR 0x80) # put_uvarint (drop_bit 7 x))"
  by pat_completeness auto
termination
proof (relation "measure unat")
  fix x :: u64
  assume "\<not> x < 0x80"
  then have "128 \<le> unat x"
    by (simp add: word_less_nat_alt)
  then show "(drop_bit 7 x, x) \<in> measure unat"
    by (simp only: in_measure unat_drop_bit_eq) (simp add: drop_bit_eq_div)
qed simp

declare put_uvarint.simps [simp del]

text \<open>
  \<^verbatim>\<open>binary.Uvarint\<close>: value and number of bytes read; 0 bytes if the buffer is too small,
  a negative count on overflow.
\<close>

fun uvarint_loop :: "nat \<Rightarrow> u64 \<Rightarrow> nat \<Rightarrow> bytes \<Rightarrow> u64 \<times> int" where
  "uvarint_loop i x s [] = (0, 0)"
| "uvarint_loop i x s (b # bs) =
     (if i = 10 then (0, - (int i + 1))
      else if b < 0x80 then
        (if i = 9 \<and> 1 < b then (0, - (int i + 1))
         else (x OR push_bit s (ucast b), int i + 1))
      else uvarint_loop (Suc i) (x OR push_bit s (ucast (b AND 0x7F))) (s + 7) bs)"

definition uvarint :: "bytes \<Rightarrow> u64 \<times> int" where
  "uvarint bs = uvarint_loop 0 0 0 bs"

text \<open>\<^verbatim>\<open>PutVarint\<close> and \<^verbatim>\<open>Varint\<close> map a signed value to an unsigned one and back.\<close>

definition zigzag :: "i64 \<Rightarrow> u64" where
  "zigzag x = (if sint x < 0 then NOT (push_bit 1 x) else push_bit 1 x)"

definition unzigzag :: "u64 \<Rightarrow> i64" where
  "unzigzag ux = (let x = drop_bit 1 ux in if ux AND 1 \<noteq> 0 then NOT x else x)"

definition put_varint :: "i64 \<Rightarrow> bytes" where
  "put_varint x = put_uvarint (zigzag x)"

definition varint :: "bytes \<Rightarrow> i64 \<times> int" where
  "varint bs = (let (ux, n) = uvarint bs in (unzigzag ux, n))"

lemma put_uvarint_nonempty [simp]: "put_uvarint x \<noteq> []"
  by (subst put_uvarint.simps) simp

lemma unat_drop7: "unat (drop_bit 7 (y :: u64)) = unat y div 128"
  by (simp only: unat_drop_bit_eq) (simp add: drop_bit_eq_div)

lemma bit_0x80: "bit (0x80 :: byte) n \<longleftrightarrow> n = 7"
proof (cases "n < 8")
  case True
  then have "n \<in> {0, 1, 2, 3, 4, 5, 6, 7}" by auto
  then show ?thesis by auto
next
  case False
  then show ?thesis by (auto dest: bit_imp_le_length)
qed

lemma not_lt_0x80:
  assumes "bit (b :: byte) 7"
  shows "\<not> b < 0x80"
proof
  assume "b < 0x80"
  then have "unat b < 128" by (simp add: word_less_nat_alt)
  then have "\<not> bit (unat b) 7" by (simp add: bit_iff_odd)
  with assms show False by (simp add: bit_unsigned_iff)
qed

lemma unat_byte: "unat (ucast (y::u64) :: byte) = unat y mod 256"
  by (simp add: unsigned_ucast_eq take_bit_eq_mod)

lemma low7_bits:
  "(ucast ((ucast (y::u64) OR 0x80 :: byte) AND 0x7F) :: u64) = take_bit 7 y"
proof (rule bit_word_eqI)
  fix n
  have m: "(0x7F :: byte) = mask 7"
    by (simp add: mask_eq_exp_minus_1)
  show "bit (ucast ((ucast y OR 0x80 :: byte) AND 0x7F) :: u64) n = bit (take_bit 7 y) n"
    unfolding m
    by (simp only: bit_ucast_iff bit_and_iff bit_or_iff bit_mask_iff bit_0x80 bit_take_bit_iff)
      (auto dest: bit_imp_le_length)
qed

lemma ucast_byte_back:
  assumes "unat (y::u64) < 256"
  shows "(ucast (ucast y :: byte) :: u64) = y"
  using assms by (simp only: word_unat_eq_iff unsigned_ucast_eq) (simp add: take_bit_nat_eq_self unsigned_take_bit_eq)

lemma uvarint_byte_step:
  "(x OR push_bit s (take_bit 7 (y::u64))) OR push_bit (7 + s) (drop_bit 7 y) = x OR push_bit s y"
proof (rule bit_word_eqI)
  fix n :: nat
  assume "n < LENGTH(64)"
  show "bit ((x OR push_bit s (take_bit 7 y)) OR push_bit (7 + s) (drop_bit 7 y)) n
    = bit (x OR push_bit s y) n"
  proof (cases "7 + s \<le> n")
    case True
    then have "7 + (n - (7 + s)) = n - s" by simp
    with True show ?thesis by (auto simp: bit_simps)
  next
    case False
    then show ?thesis by (auto simp: bit_simps)
  qed
qed

lemma uvarint_loop_put:
  "i \<le> 9 \<Longrightarrow> unat y < 2 ^ (64 - 7 * i) \<Longrightarrow>
   uvarint_loop i x (7 * i) (put_uvarint y @ rest) =
     (x OR push_bit (7 * i) y, int (i + length (put_uvarint y)))"
proof (induction y arbitrary: i x rule: put_uvarint.induct)
  case (1 y)
  show ?case
  proof (cases "y < 0x80")
    case True
    then have "unat y < 128" by (simp add: word_less_nat_alt)
    then have b: "(ucast y :: byte) < 0x80" "(ucast (ucast y :: byte) :: u64) = y"
      by (simp add: word_less_nat_alt unat_byte, intro ucast_byte_back, simp)
    moreover have "i = 9 \<Longrightarrow> \<not> 1 < (ucast y :: byte)"
      using "1.prems" by (simp add: word_less_nat_alt unat_byte)
    ultimately show ?thesis
      using True "1.prems" by (simp add: put_uvarint.simps [of y])
  next
    case False
    then have big: "128 \<le> unat y" by (simp add: word_less_nat_alt)
    with "1.prems" have i: "i \<le> 8"
      by (cases "i = 9") auto
    have "(2::nat) ^ (64 - 7 * i) = 2 ^ (64 - 7 * Suc i) * 128"
    proof -
      have "64 - 7 * i = (64 - 7 * Suc i) + 7" using i by simp
      then show ?thesis by (simp only: power_add) simp
    qed
    with "1.prems" have "unat (drop_bit 7 y) < 2 ^ (64 - 7 * Suc i)"
      by (simp add: unat_drop7 less_mult_imp_div_less)
    moreover have "\<not> (ucast y OR 0x80 :: byte) < 0x80"
      by (rule not_lt_0x80) (simp add: bit_simps bit_0x80)
    ultimately show ?thesis
      using False i "1.IH" [of "Suc i" "x OR push_bit (7 * i) (take_bit 7 y)"]
      by (simp add: put_uvarint.simps [of y] low7_bits uvarint_byte_step add.commute)
  qed
qed

theorem uvarint_put_uvarint:
  "uvarint (put_uvarint x @ rest) = (x, int (length (put_uvarint x)))"
  using uvarint_loop_put [of 0 x 0 rest] unsigned_less [of x]
  by (simp add: uvarint_def)

lemma put_uvarint_length: "length (put_uvarint x) \<le> 10"
proof -
  have "i \<le> 9 \<Longrightarrow> unat y < 2 ^ (64 - 7 * i) \<Longrightarrow> i + length (put_uvarint y) \<le> 10" for i and y :: u64
  proof (induction y arbitrary: i rule: put_uvarint.induct)
    case (1 y)
    show ?case
    proof (cases "y < 0x80")
      case True
      with "1.prems" show ?thesis by (simp add: put_uvarint.simps [of y])
    next
      case False
      then have big: "128 \<le> unat y" by (simp add: word_less_nat_alt)
      with "1.prems" have i: "i \<le> 8"
        by (cases "i = 9") auto
      then have "64 - 7 * i = (64 - 7 * Suc i) + 7" by simp
      then have "(2::nat) ^ (64 - 7 * i) = 2 ^ (64 - 7 * Suc i) * 128"
        by (simp only: power_add) simp
      with "1.prems" have "unat (drop_bit 7 y) < 2 ^ (64 - 7 * Suc i)"
        by (simp add: unat_drop7 less_mult_imp_div_less)
      with False i "1.IH" [of "Suc i"] show ?thesis
        by (simp add: put_uvarint.simps [of y])
    qed
  qed
  from this [of 0 x] unsigned_less [of x] show ?thesis by simp
qed

text \<open>A varint cut short is reported as "buffer too small" (0 bytes read).\<close>

lemma uvarint_truncated:
  assumes "m < length (put_uvarint x)"
  shows "uvarint (take m (put_uvarint x)) = (0, 0)"
proof -
  have "m < length (put_uvarint y) \<Longrightarrow> i + length (put_uvarint y) \<le> 10 \<Longrightarrow>
      uvarint_loop i a s (take m (put_uvarint y)) = (0, 0)" for i a s and y :: u64 and m
  proof (induction y arbitrary: i a s m rule: put_uvarint.induct)
    case (1 y)
    show ?case
    proof (cases "y < 0x80")
      case True
      with "1.prems" show ?thesis by (simp add: put_uvarint.simps [of y])
    next
      case False
      have b: "\<not> (ucast y OR 0x80 :: byte) < 0x80"
        by (rule not_lt_0x80) (simp add: bit_simps bit_0x80)
      show ?thesis
      proof (cases m)
        case 0
        then show ?thesis by simp
      next
        case (Suc k)
        with False b "1.prems" show ?thesis
          using "1.IH" [of k "Suc i"] by (simp add: put_uvarint.simps [of y])
      qed
    qed
  qed
  from this [of m x 0] assms put_uvarint_length [of x] show ?thesis
    by (simp add: uvarint_def)
qed

text \<open>The zig-zag coding of signed values.\<close>

lemma sint_neg_bit: "sint (x::i64) < 0 \<longleftrightarrow> bit x 63"
  by (simp flip: bit_last_iff)

lemma bit_shift1: "bit (push_bit 1 (x::i64)) n \<longleftrightarrow> 1 \<le> n \<and> n < 64 \<and> bit x (n - 1)"
  by (simp only: bit_push_bit_iff) simp

lemma unzigzag_zigzag: "unzigzag (zigzag x) = x"
proof (cases "sint x < 0")
  case True
  have low: "NOT (push_bit 1 x) AND 1 \<noteq> 0"
    by (simp only: and_one_eq odd_iff_mod_2_eq_one [symmetric] even_iff_mod_2_eq_zero [symmetric]
        bit_0 [symmetric] bit_not_iff bit_shift1) simp
  have "NOT (drop_bit 1 (NOT (push_bit 1 x))) = x"
  proof (rule bit_word_eqI)
    fix n :: nat
    assume "n < LENGTH(64)"
    then show "bit (NOT (drop_bit 1 (NOT (push_bit 1 x)))) n = bit x n"
      using True unfolding sint_neg_bit
      by (cases "n = 63") (simp_all only: bit_not_iff bit_drop_bit_eq o_def bit_shift1, auto)
  qed
  with True low show ?thesis by (simp only: zigzag_def unzigzag_def Let_def if_True simp_thms)
next
  case False
  have low: "push_bit 1 x AND 1 = 0"
    by (simp only: and_one_eq odd_iff_mod_2_eq_one [symmetric] even_iff_mod_2_eq_zero [symmetric]
        bit_0 [symmetric] bit_shift1) simp
  have "drop_bit 1 (push_bit 1 x) = x"
  proof (rule bit_word_eqI)
    fix n :: nat
    assume "n < LENGTH(64)"
    then show "bit (drop_bit 1 (push_bit 1 x)) n = bit x n"
      using False unfolding sint_neg_bit
      by (cases "n = 63") (simp_all only: bit_drop_bit_eq o_def bit_shift1, auto)
  qed
  with False low show ?thesis by (simp only: zigzag_def unzigzag_def Let_def if_False simp_thms)
qed

theorem varint_put_varint:
  "varint (put_varint x @ rest) = (x, int (length (put_varint x)))"
  by (simp add: varint_def put_varint_def uvarint_put_uvarint unzigzag_zigzag)

section \<open>Little-endian integers\<close>

fun put_le :: "nat \<Rightarrow> 'a::len word \<Rightarrow> bytes" where
  "put_le 0 w = []"
| "put_le (Suc n) w = ucast w # put_le n (drop_bit 8 w)"

fun get_le :: "bytes \<Rightarrow> 'a::len word" where
  "get_le [] = 0"
| "get_le (b # bs) = ucast b OR push_bit 8 (get_le bs)"

lemma length_put_le [simp]: "length (put_le n w) = n"
  by (induction n arbitrary: w) auto

lemma get_le_put_le: "get_le (put_le n w) = take_bit (8 * n) w"
proof (induction n arbitrary: w)
  case 0
  then show ?case by simp
next
  case (Suc n)
  have "ucast (ucast w :: byte) OR push_bit 8 (take_bit (8 * n) (drop_bit 8 w)) = take_bit (8 * Suc n) w"
    by (rule bit_word_eqI) (auto simp: bit_simps dest: bit_imp_le_length)
  with Suc show ?case by simp
qed

text \<open>Conversely, bytes are determined by the number they encode if the word is wide enough.\<close>

lemma get_le_bound: "bit (get_le bs :: 'a::len word) n \<Longrightarrow> n < 8 * length bs"
proof (induction bs arbitrary: n)
  case (Cons b bs)
  show ?case
  proof (cases "n < 8")
    case False
    then have "\<not> bit b n" by (auto dest: bit_imp_le_length)
    with Cons.prems False have "bit (get_le bs :: 'a word) (n - 8)"
      by (auto simp: bit_or_iff bit_push_bit_iff bit_ucast_iff)
    with Cons.IH have "n - 8 < 8 * length bs" by blast
    with False show ?thesis by simp
  qed simp
qed simp

lemma put_le_get_le: "8 * length bs \<le> LENGTH('a) \<Longrightarrow> put_le (length bs) (get_le bs :: 'a::len word) = bs"
proof (induction bs)
  case (Cons b bs)
  have "(ucast (get_le (b # bs) :: 'a word) :: byte) = b"
  proof (rule bit_word_eqI)
    fix n assume "n < LENGTH(8)"
    then show "bit (ucast (get_le (b # bs) :: 'a word) :: byte) n = bit b n"
      using Cons.prems by (auto simp: bit_ucast_iff bit_or_iff bit_push_bit_iff)
  qed
  moreover have "drop_bit 8 (get_le (b # bs) :: 'a word) = get_le bs"
  proof (rule bit_word_eqI)
    fix n assume "n < LENGTH('a)"
    show "bit (drop_bit 8 (get_le (b # bs) :: 'a word)) n = bit (get_le bs :: 'a word) n"
      using Cons.prems get_le_bound [of bs n, where 'a = 'a] bit_imp_le_length [of b "8 + n"]
      by (auto simp: bit_drop_bit_eq bit_ucast_iff bit_or_iff bit_push_bit_iff)
  qed
  ultimately show ?case using Cons by simp
qed simp

definition put_u16 :: "u16 \<Rightarrow> bytes" where "put_u16 = put_le 2"
definition put_u32 :: "u32 \<Rightarrow> bytes" where "put_u32 = put_le 4"
definition put_u64 :: "u64 \<Rightarrow> bytes" where "put_u64 = put_le 8"

text \<open>
  \<^verbatim>\<open>binary.LittleEndian.Uint32(buf[pos:])\<close> and its kin read a fixed number of bytes and panic
  when fewer are left.
\<close>

definition read_le :: "nat \<Rightarrow> bytes \<Rightarrow> nat \<Rightarrow> 'a::len word result" where
  "read_le n buf pos =
     (if pos + n \<le> length buf then Ok (get_le (take n (drop pos buf)))
      else Inl (Panic ''index out of range''))"

abbreviation read_u16 :: "bytes \<Rightarrow> nat \<Rightarrow> u16 result" where "read_u16 \<equiv> read_le 2"
abbreviation read_u32 :: "bytes \<Rightarrow> nat \<Rightarrow> u32 result" where "read_u32 \<equiv> read_le 4"
abbreviation read_u64 :: "bytes \<Rightarrow> nat \<Rightarrow> u64 result" where "read_u64 \<equiv> read_le 8"

lemma length_put_u [simp]:
  "length (put_u16 a) = 2" "length (put_u32 b) = 4" "length (put_u64 c) = 8"
  by (simp_all add: put_u16_def put_u32_def put_u64_def)

lemma put_u32_get_le: "length bs = 4 \<Longrightarrow> get_le bs = (w :: u32) \<Longrightarrow> bs = put_u32 w"
  using put_le_get_le [of bs, where 'a = 32] by (auto simp: put_u32_def)

lemma read_put_u16: "p = length pre \<Longrightarrow> read_u16 (pre @ put_u16 x @ post) p = Ok x"
  by (simp add: read_le_def put_u16_def get_le_put_le take_bit_word_eq_self)

lemma read_put_u32: "p = length pre \<Longrightarrow> read_u32 (pre @ put_u32 x @ post) p = Ok x"
  by (simp add: read_le_def put_u32_def get_le_put_le take_bit_word_eq_self)

lemma read_put_u64: "p = length pre \<Longrightarrow> read_u64 (pre @ put_u64 x @ post) p = Ok x"
  by (simp add: read_le_def put_u64_def get_le_put_le take_bit_word_eq_self)

section \<open>CRC-32\<close>

text \<open>
  \<^verbatim>\<open>hash/crc32.ChecksumIEEE\<close>: the reflected CRC-32 with polynomial \<^verbatim>\<open>0xEDB88320\<close>, one byte at a
  time.
\<close>

fun crc_bits :: "nat \<Rightarrow> u32 \<Rightarrow> u32" where
  "crc_bits 0 c = c"
| "crc_bits (Suc n) c =
     crc_bits n (if c AND 1 = 1 then drop_bit 1 c XOR 0xEDB88320 else drop_bit 1 c)"

definition crc_update :: "u32 \<Rightarrow> byte \<Rightarrow> u32" where
  "crc_update c b = crc_bits 8 (c XOR ucast b)"

definition crc32_ChecksumIEEE :: "bytes \<Rightarrow> u32" where
  "crc32_ChecksumIEEE data = NOT (foldl crc_update 0xFFFFFFFF data)"

text \<open>Evaluation rules, and the checksum of a run of zero bytes.\<close>

lemma crc_bits_numeral:
  "crc_bits (numeral k) c = crc_bits (pred_numeral k)
     (if c AND 1 = 1 then drop_bit 1 c XOR 0xEDB88320 else drop_bit 1 c)"
  "crc_bits (Suc 0) c = (if c AND 1 = 1 then drop_bit 1 c XOR 0xEDB88320 else drop_bit 1 c)"
  by (simp_all add: numeral_eq_Suc)

lemmas crc_eval = crc32_ChecksumIEEE_def crc_update_def crc_bits_numeral

lemma crc_bits_add: "crc_bits (m + n) c = crc_bits n (crc_bits m c)"
  by (induction m arbitrary: c) auto

lemma crc_update_zeros: "foldl crc_update c (make_bytes n) = crc_bits (8 * n) c"
  unfolding make_bytes_def by (induction n arbitrary: c) (auto simp: crc_update_def crc_bits_add)

text \<open>
  Error detection: one step of the shift register is injective, so changing a single byte of a
  message changes its checksum.
\<close>

definition crc_step :: "u32 \<Rightarrow> u32" where
  "crc_step c = (if c AND 1 = 1 then drop_bit 1 c XOR 0xEDB88320 else drop_bit 1 c)"

lemma crc_step_bits:
  "bit (crc_step c) 31 = bit c 0"
  "n < 31 \<Longrightarrow> bit c (Suc n) = (bit (crc_step c) n \<noteq> (bit c 0 \<and> bit (0xEDB88320 :: u32) n))"
proof -
  have low: "c AND 1 = 1 \<longleftrightarrow> bit c 0"
    by (simp add: bit_0 and_one_eq odd_iff_mod_2_eq_one)
  have top: "\<not> bit c 32"
    by (auto dest: bit_imp_le_length)
  have "bit (0xEDB88320 :: u32) 31" by simp
  then show "bit (crc_step c) 31 = bit c 0"
    using top by (simp add: crc_step_def low bit_xor_iff bit_drop_bit_eq del: bit_numeral_simps)
  show "n < 31 \<Longrightarrow> bit c (Suc n) = (bit (crc_step c) n \<noteq> (bit c 0 \<and> bit (0xEDB88320 :: u32) n))"
    by (auto simp: crc_step_def low bit_xor_iff bit_drop_bit_eq)
qed

lemma crc_step_inj: "crc_step c = crc_step d \<Longrightarrow> c = d"
proof (rule bit_word_eqI)
  fix n assume eq: "crc_step c = crc_step d" and n: "n < LENGTH(32)"
  have z: "bit c 0 = bit d 0" using crc_step_bits(1) [of c] crc_step_bits(1) [of d] eq by simp
  show "bit c n = bit d n"
  proof (cases n)
    case (Suc m)
    then show ?thesis using crc_step_bits(2) [of m c] crc_step_bits(2) [of m d] eq z n by simp
  qed (simp add: z)
qed

lemma crc_bits_inj: "crc_bits n c = crc_bits n d \<Longrightarrow> c = d"
  by (induction n arbitrary: c d) (auto simp flip: crc_step_def dest: crc_step_inj)

lemma crc_update_inj:
  "crc_update c b = crc_update d b \<Longrightarrow> c = d" "crc_update c a = crc_update c b \<Longrightarrow> a = b"
proof -
  have x: "u XOR v = w XOR v \<Longrightarrow> u = w" "v XOR u = v XOR w \<Longrightarrow> u = w" for u v w :: u32
    by (metis xor.left_neutral xor.assoc xor_self_eq xor.commute)+
  show "crc_update c b = crc_update d b \<Longrightarrow> c = d"
    using x(1) crc_bits_inj unfolding crc_update_def by blast
  assume "crc_update c a = crc_update c b"
  then have "(ucast a :: u32) = ucast b"
    using x(2) crc_bits_inj unfolding crc_update_def by blast
  then have eq: "bit (ucast a :: u32) n = bit (ucast b :: u32) n" for n by simp
  show "a = b"
  proof (rule bit_word_eqI)
    fix n assume "n < LENGTH(8)"
    then show "bit a n = bit b n" using eq [of n] by (simp add: bit_ucast_iff)
  qed
qed

theorem crc_single_byte:
  assumes "a \<noteq> b"
  shows "crc32_ChecksumIEEE (pre @ a # post) \<noteq> crc32_ChecksumIEEE (pre @ b # post)"
proof
  have run: "foldl crc_update c xs = foldl crc_update d xs \<Longrightarrow> c = d" for c d xs
    by (induction xs arbitrary: c d) (auto dest: crc_update_inj(1))
  assume "crc32_ChecksumIEEE (pre @ a # post) = crc32_ChecksumIEEE (pre @ b # post)"
  then have "foldl crc_update 0xFFFFFFFF (pre @ a # post) = foldl crc_update 0xFFFFFFFF (pre @ b # post)"
    by (simp add: crc32_ChecksumIEEE_def)
  then have "crc_update (foldl crc_update 0xFFFFFFFF pre) a = crc_update (foldl crc_update 0xFFFFFFFF pre) b"
    by (simp add: run)
  with assms show False using crc_update_inj(2) by blast
qed

text \<open>A block that ends in the checksum of what precedes it: no change of one byte goes unnoticed.\<close>

theorem crc_trailer_detects:
  assumes "buf = body @ put_u32 (crc32_ChecksumIEEE body)" "i < length buf" "b \<noteq> buf ! i"
  shows "get_le (drop (length body) (buf[i := b])) \<noteq> crc32_ChecksumIEEE (take (length body) (buf[i := b]))"
proof
  let ?crc = "crc32_ChecksumIEEE body" and ?n = "length body"
  assume eq: "get_le (drop ?n (buf[i := b])) = crc32_ChecksumIEEE (take ?n (buf[i := b]))"
  show False
  proof (cases "i < ?n")
    case True
    then have "take ?n (buf[i := b]) = body[i := b]"
      by (simp add: assms(1) list_update_append)
    then have "take ?n (buf[i := b]) = take i body @ b # drop (Suc i) body"
      using True by (simp add: upd_conv_take_nth_drop)
    moreover have "body = take i body @ buf ! i # drop (Suc i) body"
      using True by (simp add: assms(1) nth_append id_take_nth_drop [of i])
    moreover have "get_le (drop ?n (buf[i := b])) = ?crc"
      using True by (simp add: assms(1) list_update_append get_le_put_le put_u32_def take_bit_word_eq_self)
    ultimately show False
      using eq crc_single_byte [OF assms(3), of "take i body" "drop (Suc i) body"] by metis
  next
    case False
    then have "take ?n (buf[i := b]) = body"
      by (simp add: assms(1) list_update_append)
    with eq have "get_le ((put_u32 ?crc)[i - ?n := b]) = ?crc"
      using False by (simp add: assms(1) list_update_append)
    moreover have lt: "i - ?n < 4" using False assms(1,2) by simp
    ultimately have "(put_u32 ?crc)[i - ?n := b] = put_u32 ?crc" by (intro put_u32_get_le) simp_all
    then have "b = put_u32 ?crc ! (i - ?n)"
      by (metis lt length_put_u(2) nth_list_update_eq)
    with assms(3) False show False by (simp add: assms(1) nth_append)
  qed
qed

end
