(* ===== verification/Wal_Record.thy ===== *)
theory Wal_Record
  imports Go_Binary
begin

text \<open>
  \<^verbatim>\<open>internal/wal/record.go\<close> and the block scanners of \<^verbatim>\<open>internal/wal/segment.go\<close>: the 47-byte
  record header with a CRC-32 over everything behind it, \<^verbatim>\<open>Encode\<close> and \<^verbatim>\<open>Decode\<close>, and the
  loops that walk the records of one block.
\<close>

section \<open>Records\<close>

abbreviation CRC_SIZE :: nat where "CRC_SIZE \<equiv> 4"
abbreviation EXPIRES_AT_START :: nat where "EXPIRES_AT_START \<equiv> 4"
abbreviation FRAGTYPE_START :: nat where "FRAGTYPE_START \<equiv> 12"
abbreviation OPTYPE_START :: nat where "OPTYPE_START \<equiv> 13"
abbreviation RECTYPE_START :: nat where "RECTYPE_START \<equiv> 14"
abbreviation TXNID_START :: nat where "TXNID_START \<equiv> 15"
abbreviation SEQUENCEID_START :: nat where "SEQUENCEID_START \<equiv> 23"
abbreviation KEY_SIZE_START :: nat where "KEY_SIZE_START \<equiv> 31"
abbreviation VALUE_SIZE_START :: nat where "VALUE_SIZE_START \<equiv> 39"
abbreviation KEY_START :: nat where "KEY_START \<equiv> 47"

text \<open>\<^verbatim>\<open>FragmentType\<close> and \<^verbatim>\<open>RecordType\<close> are \<^verbatim>\<open>uint8\<close> with four named constants each.\<close>

abbreviation FULL :: byte where "FULL \<equiv> 0"
abbreviation FIRST :: byte where "FIRST \<equiv> 1"
abbreviation MIDDLE :: byte where "MIDDLE \<equiv> 2"
abbreviation LAST :: byte where "LAST \<equiv> 3"

abbreviation SINGLE :: byte where "SINGLE \<equiv> 0"
abbreviation START :: byte where "START \<equiv> 1"
abbreviation TRANSACTION :: byte where "TRANSACTION \<equiv> 2"
abbreviation COMMIT :: byte where "COMMIT \<equiv> 3"

record Record =
  r_ExpiresAt :: i64
  r_SeqId :: u64
  r_OpType :: OpType
  r_Key :: bytes
  r_Value :: bytes

record WALRecord =
  w_FragType :: byte
  w_RecType :: byte
  w_TxnID :: u64
  w_KeySize :: u64
  w_ValueSize :: u64
  w_Record :: Record

text \<open>
  \<^verbatim>\<open>Encode\<close> fills a buffer of exactly the record's size at the fixed offsets and puts the
  checksum of everything behind it in front.
\<close>

definition Encode :: "WALRecord \<Rightarrow> bytes result" where
  "Encode r =
     (let key = r_Key (w_Record r); val = r_Value (w_Record r);
          totalSize = KEY_START + length key + length val in
      bind_r (put_at (make_bytes totalSize) EXPIRES_AT_START (put_u64 (r_ExpiresAt (w_Record r)))) (\<lambda>buf.
      bind_r (put_at buf FRAGTYPE_START [w_FragType r]) (\<lambda>buf.
      bind_r (put_at buf OPTYPE_START [r_OpType (w_Record r)]) (\<lambda>buf.
      bind_r (put_at buf RECTYPE_START [w_RecType r]) (\<lambda>buf.
      bind_r (put_at buf TXNID_START (put_u64 (w_TxnID r))) (\<lambda>buf.
      bind_r (put_at buf SEQUENCEID_START (put_u64 (r_SeqId (w_Record r)))) (\<lambda>buf.
      bind_r (put_at buf KEY_SIZE_START (put_u64 (of_nat (length key)))) (\<lambda>buf.
      bind_r (put_at buf VALUE_SIZE_START (put_u64 (of_nat (length val)))) (\<lambda>buf.
      bind_r (copy_at buf KEY_START key) (\<lambda>buf.
      bind_r (copy_at buf (KEY_START + length key) val) (\<lambda>buf.
      put_at buf 0 (put_u32 (crc32_ChecksumIEEE (drop EXPIRES_AT_START buf))))))))))))))"

text \<open>
  \<^verbatim>\<open>Decode\<close>: the checksum first; a fragment or record type outside the four constants leaves
  the field at its zero value (\<^const>\<open>FULL\<close>, \<^const>\<open>SINGLE\<close>).
\<close>

definition read_byte :: "bytes \<Rightarrow> nat \<Rightarrow> byte result" where
  "read_byte buf i = (if i < length buf then Ok (buf ! i) else Inl (Panic ''index out of range''))"

definition known_type :: "byte \<Rightarrow> byte" where
  "known_type b = (if b = 0 then 0 else if b = 1 then 1 else if b = 2 then 2 else if b = 3 then 3 else 0)"

definition Decode :: "bytes \<Rightarrow> WALRecord result" where
  "Decode buf =
     bind_r (read_u32 buf 0) (\<lambda>crc.
     if crc \<noteq> crc32_ChecksumIEEE (drop EXPIRES_AT_START buf) then Inl (Error ''crc mismatch'')
     else
       bind_r (read_u64 buf EXPIRES_AT_START) (\<lambda>expiresAt.
       bind_r (read_byte buf FRAGTYPE_START) (\<lambda>fragType.
       bind_r (read_byte buf OPTYPE_START) (\<lambda>opType.
       bind_r (read_byte buf RECTYPE_START) (\<lambda>recType.
       bind_r (read_u64 buf TXNID_START) (\<lambda>txnID.
       bind_r (read_u64 buf SEQUENCEID_START) (\<lambda>seqId.
       bind_r (read_u64 buf KEY_SIZE_START) (\<lambda>keySize.
       bind_r (read_u64 buf VALUE_SIZE_START) (\<lambda>valueSize.
       let valueStart = of_nat KEY_START + keySize in
       bind_r (go_slice buf (int KEY_START) (uint valueStart)) (\<lambda>key.
       bind_r (go_slice buf (uint valueStart) (uint (valueStart + valueSize))) (\<lambda>val.
       Ok \<lparr>w_FragType = known_type fragType, w_RecType = known_type recType, w_TxnID = txnID,
           w_KeySize = keySize, w_ValueSize = valueSize,
           w_Record = \<lparr>r_ExpiresAt = expiresAt, r_SeqId = seqId, r_OpType = opType,
             r_Key = key, r_Value = val\<rparr>\<rparr>)))))))))))"

section \<open>Walking a block\<close>

text \<open>\<^verbatim>\<open>RecordSizeAt\<close>: Go \<^verbatim>\<open>int\<close> arithmetic on two lengths taken from the block unchecked.\<close>

definition RecordSizeAt :: "bytes \<Rightarrow> nat \<Rightarrow> int result" where
  "RecordSizeAt data offset =
     (let remainingSize = int (length data) - int offset in
      if remainingSize \<le> int KEY_START then Inl (Error ''Not enough space for record'')
      else
        bind_r (read_u64 data (offset + KEY_SIZE_START)) (\<lambda>keySize.
        bind_r (read_u64 data (offset + VALUE_SIZE_START)) (\<lambda>valueSize.
        let total = go_int (go_int (int KEY_START + u64_int keySize) + u64_int valueSize) in
        if int (length data) < go_int (int offset + total)
        then Inl (Error ''record exceedes block bounds'')
        else Ok total)))"

text \<open>
  One step of the two scanners: \<open>None\<close> when the loop returns at this offset, otherwise the
  record and the offset behind it. An error of \<^verbatim>\<open>RecordSizeAt\<close> or \<^verbatim>\<open>Decode\<close> ends the scan
  normally; a panic does not.
\<close>

definition scan_step :: "bytes \<Rightarrow> nat \<Rightarrow> (WALRecord \<times> nat) option result" where
  "scan_step data offset =
     (if length data < offset + KEY_START then Ok None
      else case RecordSizeAt data offset of
        Inl (Error e) \<Rightarrow> Ok None
      | Inl (Panic e) \<Rightarrow> Inl (Panic e)
      | Inr recSize \<Rightarrow>
          bind_r (go_slice data (int offset) (int offset + recSize)) (\<lambda>recBytes.
          case Decode recBytes of
            Inl (Error e) \<Rightarrow> Ok None
          | Inl (Panic e) \<Rightarrow> Inl (Panic e)
          | Inr rec \<Rightarrow> Ok (Some (rec, offset + nat recSize))))"

lemma read_le_Inr: "read_le n buf pos = Inr x \<Longrightarrow> pos + n \<le> length buf"
  by (simp add: read_le_def split: if_splits)

lemma Decode_length: "Decode buf = Inr r \<Longrightarrow> KEY_START \<le> length buf"
  by (auto simp: Decode_def split: if_splits dest!: read_le_Inr)

lemma scan_step_progress:
  assumes "scan_step data offset = Inr (Some (r, offset'))"
  shows "offset + KEY_START \<le> offset' \<and> offset' \<le> length data"
proof -
  from assms obtain n where "RecordSizeAt data offset = Inr n"
    by (auto simp: scan_step_def split: if_split_asm sum.split_asm failure.split_asm)
  with assms obtain b where n: "go_slice data (int offset) (int offset + n) = Inr b"
    and eq: "(case Decode b of Inl (Error e) \<Rightarrow> Ok None | Inl (Panic e) \<Rightarrow> Inl (Panic e)
      | Inr rec \<Rightarrow> Ok (Some (rec, offset + nat n))) = Inr (Some (r, offset'))"
    by (auto simp: scan_step_def split: if_split_asm)
  from eq have d: "Decode b = Inr r" and o: "offset' = offset + nat n"
    by (auto split: sum.split_asm failure.split_asm)
  from n have "0 \<le> n" "int offset + n \<le> int (length data)" "length b = nat n"
    by (auto simp: go_slice_def split: if_splits)
  with Decode_length [OF d] o show ?thesis by auto
qed

function read_records_loop :: "bytes \<Rightarrow> nat \<Rightarrow> WALRecord list result" where
  "read_records_loop data offset =
     bind_r (scan_step data offset) (\<lambda>st. case st of
        None \<Rightarrow> Ok []
      | Some (rec, offset') \<Rightarrow>
          if offset' = length data then Ok [rec]
          else bind_r (read_records_loop data offset') (\<lambda>recs. Ok (rec # recs)))"
  by pat_completeness auto
termination
  by (relation "measure (\<lambda>(data, offset). length data - offset)")
    (auto dest: scan_step_progress)

declare read_records_loop.simps [simp del]

definition ReadBlockRecords :: "bytes \<Rightarrow> WALRecord list result" where
  "ReadBlockRecords data = read_records_loop data 0"

function scan_block_loop :: "bytes \<Rightarrow> nat \<Rightarrow> bool \<Rightarrow> (nat \<times> bool) result" where
  "scan_block_loop data offset foundAny =
     bind_r (scan_step data offset) (\<lambda>st. case st of
        None \<Rightarrow> Ok (offset, foundAny)
      | Some (rec, offset') \<Rightarrow>
          if offset' = length data then Ok (offset', True)
          else scan_block_loop data offset' True)"
  by pat_completeness auto
termination
  by (relation "measure (\<lambda>(data, offset, foundAny). length data - offset)")
    (auto dest: scan_step_progress)

declare scan_block_loop.simps [simp del]

definition ScanBlock :: "bytes \<Rightarrow> (nat \<times> bool) result" where
  "ScanBlock data = scan_block_loop data 0 False"

section \<open>The wire format\<close>

definition wal_body :: "WALRecord \<Rightarrow> bytes" where
  "wal_body r = put_u64 (r_ExpiresAt (w_Record r)) @ [w_FragType r] @ [r_OpType (w_Record r)] @
     [w_RecType r] @ put_u64 (w_TxnID r) @ put_u64 (r_SeqId (w_Record r)) @
     put_u64 (of_nat (length (r_Key (w_Record r)))) @ put_u64 (of_nat (length (r_Value (w_Record r)))) @
     r_Key (w_Record r) @ r_Value (w_Record r)"

definition wal_wire :: "WALRecord \<Rightarrow> bytes" where
  "wal_wire r = put_u32 (crc32_ChecksumIEEE (wal_body r)) @ wal_body r"

definition payload_len :: "WALRecord \<Rightarrow> nat" where
  "payload_len r = length (r_Key (w_Record r)) + length (r_Value (w_Record r))"

text \<open>A record as the writers build it: known types, sizes that match the data.\<close>

definition wal_wf :: "WALRecord \<Rightarrow> bool" where
  "wal_wf r \<longleftrightarrow> w_FragType r \<in> {FULL, FIRST, MIDDLE, LAST} \<and>
     w_RecType r \<in> {SINGLE, START, TRANSACTION, COMMIT} \<and>
     w_KeySize r = of_nat (length (r_Key (w_Record r))) \<and>
     w_ValueSize r = of_nat (length (r_Value (w_Record r))) \<and>
     payload_len r < max_alloc"

lemma length_wal_wire: "length (wal_wire r) = KEY_START + payload_len r"
  by (simp add: wal_wire_def wal_body_def payload_len_def)

lemma Encode_wire: "Encode r = Ok (wal_wire r)"
proof -
  let ?key = "r_Key (w_Record r)" and ?val = "r_Value (w_Record r)"
  let ?n = "KEY_START + length ?key + length ?val"
  have split: "make_bytes ?n = make_bytes 4 @ make_bytes (?n - 4)"
    by (simp add: make_bytes_def flip: replicate_add)
  have final: "put_at (make_bytes 4 @ b) 0 c = Ok (c @ b)" if "length c = 4" for b c
    using that by (simp add: put_at_def overlay_def make_bytes_def)
  show ?thesis
    unfolding Encode_def Let_def split
    by (simp add: put_at_append copy_at_append final wal_wire_def wal_body_def del: append_assoc)
      (simp add: final)
qed

lemma read_byte_at: "p = length pre \<Longrightarrow> read_byte (pre @ b # post) p = Ok b"
  by (simp add: read_byte_def)

lemma known_type_id: "b \<in> {0, 1, 2, 3} \<Longrightarrow> known_type b = b"
  by (auto simp: known_type_def)

lemma len_u64: "n < max_alloc \<Longrightarrow> unat (of_nat n :: u64) = n"
  by (simp add: unsigned_of_nat take_bit_nat_eq_self max_alloc_def)

lemma Decode_wire:
  assumes "wal_wf r"
  shows "Decode (wal_wire r) = Ok r"
proof -
  define key where "key = r_Key (w_Record r)"
  define val where "val = r_Value (w_Record r)"
  define c where "c = put_u32 (crc32_ChecksumIEEE (wal_body r))"
  define e where "e = put_u64 (r_ExpiresAt (w_Record r))"
  define t where "t = put_u64 (w_TxnID r)"
  define q where "q = put_u64 (r_SeqId (w_Record r))"
  define k where "k = put_u64 (of_nat (length key))"
  define v where "v = put_u64 (of_nat (length val))"
  note defs = c_def e_def t_def q_def k_def v_def
  have len [simp]: "length c = 4" "length e = 8" "length t = 8" "length q = 8" "length k = 8" "length v = 8"
    by (simp_all add: defs)
  define b where "b = c @ e @ [w_FragType r] @ [r_OpType (w_Record r)] @ [w_RecType r] @ t @ q @ k @ v @ key @ val"
  have w: "wal_wire r = b" and body: "drop 4 b = wal_body r"
    by (simp_all add: wal_wire_def wal_body_def b_def defs key_def val_def)
  have sz: "length key + length val < max_alloc"
    using assms by (simp add: wal_wf_def payload_len_def key_def val_def)
  have r0: "read_u32 b 0 = Ok (crc32_ChecksumIEEE (wal_body r))"
    unfolding b_def c_def using read_put_u32 [of 0 "[]"] by simp
  have r1: "read_u64 b 4 = Ok (r_ExpiresAt (w_Record r))"
    unfolding b_def e_def by (rule read_put_u64) simp
  have r2: "read_byte b 12 = Ok (w_FragType r)"
    unfolding b_def using read_byte_at [of 12 "c @ e"] by simp
  have r3: "read_byte b 13 = Ok (r_OpType (w_Record r))"
    unfolding b_def using read_byte_at [of 13 "c @ e @ [w_FragType r]"] by simp
  have r4: "read_byte b 14 = Ok (w_RecType r)"
    unfolding b_def using read_byte_at [of 14 "c @ e @ [w_FragType r] @ [r_OpType (w_Record r)]"] by simp
  let ?h = "c @ e @ [w_FragType r] @ [r_OpType (w_Record r)] @ [w_RecType r]"
  have r5: "read_u64 b 15 = Ok (w_TxnID r)"
    unfolding b_def t_def using read_put_u64 [of 15 ?h] by simp
  have r6: "read_u64 b 23 = Ok (r_SeqId (w_Record r))"
    unfolding b_def q_def using read_put_u64 [of 23 "?h @ t"] by simp
  have r7: "read_u64 b 31 = Ok (of_nat (length key))"
    unfolding b_def k_def using read_put_u64 [of 31 "?h @ t @ q"] by simp
  have r8: "read_u64 b 39 = Ok (of_nat (length val))"
    unfolding b_def v_def using read_put_u64 [of 39 "?h @ t @ q @ k"] by simp
  have u1: "uint (47 + of_nat (length key) :: u64) = 47 + int (length key)"
    and u2: "uint (47 + of_nat (length key) + of_nat (length val) :: u64) = 47 + int (length key) + int (length val)"
    using sz by (simp_all add: max_alloc_def uint_word_ariths unsigned_of_nat take_bit_nat_eq_self)
  have s1: "go_slice b 47 (47 + int (length key)) = Ok key"
    unfolding b_def using go_slice_middle [where pre = "?h @ t @ q @ k @ v" and mid = key and post = val] by simp
  have s2: "go_slice b (47 + int (length key)) (47 + int (length key) + int (length val)) = Ok val"
    unfolding b_def using go_slice_middle [where pre = "?h @ t @ q @ k @ v @ key" and mid = val and post = "[]"] by simp
  show ?thesis
    unfolding w Decode_def
    using assms
    by (simp add: r0 r1 r2 r3 r4 r5 r6 r7 r8 body u1 u2 s1 s2 known_type_id wal_wf_def
        key_def [symmetric] val_def [symmetric] insert_iff Let_def)
qed

section \<open>What the scanners read\<close>

text \<open>
  \<open>RecordSizeAt\<close> asks for more than a bare header, so a record is only seen when something
  (its payload or at least one more byte of the block) follows its header.
\<close>

lemma RecordSizeAt_wire:
  assumes "wal_wf r" "length (pre @ wal_wire r @ post) < max_alloc" and "0 < payload_len r + length post"
  shows "RecordSizeAt (pre @ wal_wire r @ post) (length pre) = Ok (int (KEY_START + payload_len r))"
proof -
  let ?k = "r_Key (w_Record r)" and ?v = "r_Value (w_Record r)"
  have len: "length ?k < max_alloc" "length ?v < max_alloc" "payload_len r < max_alloc"
    using assms(1) by (auto simp: wal_wf_def payload_len_def)
  let ?h = "put_u32 (crc32_ChecksumIEEE (wal_body r)) @ put_u64 (r_ExpiresAt (w_Record r)) @
    [w_FragType r] @ [r_OpType (w_Record r)] @ [w_RecType r] @ put_u64 (w_TxnID r) @ put_u64 (r_SeqId (w_Record r))"
  have k: "read_u64 (pre @ wal_wire r @ post) (length pre + 31) = Ok (of_nat (length ?k))"
    using read_put_u64 [of "length pre + 31" "pre @ ?h" "of_nat (length ?k)"
        "put_u64 (of_nat (length ?v)) @ ?k @ ?v @ post"]
    by (simp add: wal_wire_def wal_body_def)
  have v: "read_u64 (pre @ wal_wire r @ post) (length pre + 39) = Ok (of_nat (length ?v))"
    using read_put_u64 [of "length pre + 39" "pre @ ?h @ put_u64 (of_nat (length ?k))" "of_nat (length ?v)"
        "?k @ ?v @ post"]
    by (simp add: wal_wire_def wal_body_def)
  have i: "u64_int (of_nat (length ?k)) = int (length ?k)" "u64_int (of_nat (length ?v)) = int (length ?v)"
    using len by (simp_all add: u64_int_of_nat max_alloc_def)
  have "go_int (go_int (47 + int (length ?k)) + int (length ?v)) = 47 + int (length ?k) + int (length ?v)"
    using len by (simp add: go_int_small max_alloc_def)
  moreover have "go_int (int (length pre) + (47 + int (length ?k) + int (length ?v))) = int (length pre) + (47 + int (length ?k) + int (length ?v))"
    using assms(2) by (simp add: go_int_small max_alloc_def length_wal_wire payload_len_def)
  moreover have rem: "\<not> int (length (pre @ wal_wire r @ post)) - int (length pre) \<le> int KEY_START"
    using assms(3) unfolding length_append length_wal_wire by linarith
  ultimately show ?thesis
    by (simp only: RecordSizeAt_def Let_def rem if_False k v i bind_r_simps)
      (simp add: length_wal_wire payload_len_def)
qed

lemma scan_step_wire:
  assumes "wal_wf r" "length (pre @ wal_wire r @ post) < max_alloc" and "0 < payload_len r + length post"
  shows "scan_step (pre @ wal_wire r @ post) (length pre) = Ok (Some (r, length pre + length (wal_wire r)))"
proof -
  have "go_slice (pre @ wal_wire r @ post) (int (length pre)) (int (length pre) + int (KEY_START + payload_len r)) = Ok (wal_wire r)"
    by (intro go_slice_middle) (simp_all add: length_wal_wire)
  then show ?thesis
    by (simp add: scan_step_def RecordSizeAt_wire [OF assms] Decode_wire [OF assms(1)] length_wal_wire)
qed

lemma get_le_zeros: "get_le (make_bytes n) = 0"
  unfolding make_bytes_def by (induction n) auto

lemma crc_zero_header: "crc32_ChecksumIEEE (make_bytes 43) \<noteq> 0"
  by (simp add: crc32_ChecksumIEEE_def crc_update_zeros crc_bits_numeral del: crc_bits.simps(2))

lemma scan_step_zeros:
  assumes "length pre + z < max_alloc"
  shows "scan_step (pre @ make_bytes z) (length pre) = Ok None"
proof (cases "z \<le> 47")
  case True
  then show ?thesis by (auto simp: scan_step_def RecordSizeAt_def)
next
  case False
  then have z: "48 \<le> z" by simp
  have tk: "take n (make_bytes z) = make_bytes n" if "n \<le> z" for n
    using that by (simp add: make_bytes_def)
  have dr: "drop n (make_bytes z) = make_bytes (z - n)" for n
    by (simp add: make_bytes_def)
  have tk8: "take 8 (drop n (make_bytes z)) = make_bytes 8" if "n + 8 \<le> z" for n
    using that by (simp add: make_bytes_def)
  have "read_u64 (pre @ make_bytes z) (length pre + n) = Ok 0" if "n + 8 \<le> z" for n
    using that by (simp add: read_le_def tk8 get_le_zeros)
  then have "RecordSizeAt (pre @ make_bytes z) (length pre) = Ok 47"
    using z assms by (simp add: RecordSizeAt_def u64_int_def go_int_small max_alloc_def)
  moreover have "go_slice (pre @ make_bytes z) (int (length pre)) (int (length pre) + 47) = Ok (make_bytes 47)"
    using z by (simp add: go_slice_def nat_add_distrib tk)
  moreover have "Decode (make_bytes 47) = Inl (Error ''crc mismatch'')"
    using crc_zero_header by (simp add: Decode_def read_le_def make_bytes_def get_le_zeros [unfolded make_bytes_def])
  ultimately show ?thesis using z by (simp add: scan_step_def)
qed

definition wal_wires :: "WALRecord list \<Rightarrow> bytes" where
  "wal_wires rs = concat (map wal_wire rs)"

lemma wal_wires_simps [simp]:
  "wal_wires [] = []" "wal_wires (r # rs) = wal_wire r @ wal_wires rs"
  "wal_wires (rs @ rs') = wal_wires rs @ wal_wires rs'"
  by (simp_all add: wal_wires_def)

text \<open>
  A list of records that the scanners see entirely in a block of \<open>n\<close> bytes: the last one must
  have a payload or be followed by at least one more byte.
\<close>

definition readable :: "nat \<Rightarrow> WALRecord list \<Rightarrow> bool" where
  "readable n rs \<longleftrightarrow> list_all wal_wf rs \<and> length (wal_wires rs) \<le> n \<and>
     (rs = [] \<or> length (wal_wires rs) < n \<or> 0 < payload_len (last rs))"

lemma readable_Nil [simp]: "readable n []"
  by (simp add: readable_def)

lemma readable_Cons:
  "readable n (r # rs) \<Longrightarrow> wal_wf r \<and> readable (n - length (wal_wire r)) rs \<and>
     0 < payload_len r + length (wal_wires rs) + (n - length (wal_wire r) - length (wal_wires rs))"
  by (cases rs) (auto simp: readable_def length_wal_wire)

lemma read_records_loop_wires:
  "readable (length (wal_wires rs) + z) rs \<Longrightarrow> length (pre @ wal_wires rs @ make_bytes z) < max_alloc \<Longrightarrow> p = length pre \<Longrightarrow>
   read_records_loop (pre @ wal_wires rs @ make_bytes z) p = Ok rs"
proof (induction rs arbitrary: pre p)
  case Nil
  then show ?case by (subst read_records_loop.simps) (simp add: scan_step_zeros)
next
  case (Cons r rs)
  note hd = readable_Cons [OF Cons.prems(1)]
  have step: "scan_step (pre @ wal_wires (r # rs) @ make_bytes z) p = Ok (Some (r, p + length (wal_wire r)))"
    using Cons.prems hd scan_step_wire [of r pre "wal_wires rs @ make_bytes z"] by simp
  have IH: "read_records_loop (pre @ wal_wires (r # rs) @ make_bytes z) (p + length (wal_wire r)) = Ok rs"
    using Cons.IH [of "pre @ wal_wire r" "p + length (wal_wire r)"] Cons.prems hd by simp
  have "rs = []" if "p + length (wal_wire r) = length (pre @ wal_wires (r # rs) @ make_bytes z)"
    using that Cons.prems by (cases rs) (simp_all add: length_wal_wire)
  then show ?case
    by (subst read_records_loop.simps) (simp only: step IH bind_r_simps option.case prod.case, auto)
qed

lemma ReadBlockRecords_wires:
  "readable (length (wal_wires rs) + z) rs \<Longrightarrow> length (wal_wires rs) + z < max_alloc \<Longrightarrow>
   ReadBlockRecords (wal_wires rs @ make_bytes z) = Ok rs"
  using read_records_loop_wires [where rs = rs and pre = "[]" and z = z and p = 0] by (simp add: ReadBlockRecords_def)

section \<open>Records at the end of a block\<close>

lemma read_records_loop_stop:
  assumes "list_all wal_wf rs" "post \<noteq> []" "length (pre @ wal_wires rs @ post) < max_alloc" "p = length pre"
    and "scan_step (pre @ wal_wires rs @ post) (length (pre @ wal_wires rs)) = Ok None"
  shows "read_records_loop (pre @ wal_wires rs @ post) p = Ok rs"
  using assms
proof (induction rs arbitrary: pre p)
  case Nil
  then show ?case by (subst read_records_loop.simps) simp
next
  case (Cons r rs)
  have step: "scan_step (pre @ wal_wires (r # rs) @ post) p = Ok (Some (r, p + length (wal_wire r)))"
    using Cons.prems scan_step_wire [of r pre "wal_wires rs @ post"] by simp
  have IH: "read_records_loop (pre @ wal_wires (r # rs) @ post) (p + length (wal_wire r)) = Ok rs"
    using Cons.IH [of "pre @ wal_wire r" "p + length (wal_wire r)"] Cons.prems by simp
  show ?case
    by (subst read_records_loop.simps)
      (simp only: step IH bind_r_simps option.case prod.case, use Cons.prems in simp)
qed

section \<open>Properties\<close>

text \<open>A log record survives its encoding: decoding what \<^verbatim>\<open>Encode\<close> wrote passes the checksum and gives back every field.\<close>

theorem wal_record_roundtrip:
  assumes "wal_wf r"
  shows "bind_r (Encode r) Decode = Ok r"
  by (simp add: Encode_wire Decode_wire [OF assms])

theorem wal_record_roundtrip_witness:
  "bind_r (Encode \<lparr>w_FragType = FIRST, w_RecType = TRANSACTION, w_TxnID = 9, w_KeySize = 1, w_ValueSize = 2,
       w_Record = \<lparr>r_ExpiresAt = -1, r_SeqId = 12, r_OpType = OpTypePut, r_Key = [107], r_Value = [1, 255]\<rparr>\<rparr>) Decode
   = Ok \<lparr>w_FragType = FIRST, w_RecType = TRANSACTION, w_TxnID = 9, w_KeySize = 1, w_ValueSize = 2,
       w_Record = \<lparr>r_ExpiresAt = -1, r_SeqId = 12, r_OpType = OpTypePut, r_Key = [107], r_Value = [1, 255]\<rparr>\<rparr>"
  by (rule wal_record_roundtrip) (simp add: wal_wf_def payload_len_def max_alloc_def)

text \<open>A record without payload (the START and COMMIT markers of a batch) that occupies exactly the last 47 bytes of a
  block is never read back: the block scanner returns only the records in front of it.\<close>

theorem marker_at_block_end_unread:
  assumes "list_all wal_wf rs" "payload_len m = 0" "length (wal_wires (rs @ [m])) < max_alloc"
  shows "length (wal_wire m) = KEY_START \<and> ReadBlockRecords (wal_wires (rs @ [m])) = Ok rs"
proof -
  have len: "length (wal_wire m) = KEY_START" using assms(2) by (simp add: length_wal_wire)
  have "scan_step (wal_wires rs @ wal_wire m) (length (wal_wires rs)) = Ok None"
    using len by (simp add: scan_step_def RecordSizeAt_def)
  moreover have "wal_wire m \<noteq> []" using len by auto
  ultimately show ?thesis
    using read_records_loop_stop [of rs "wal_wire m" "[]" 0] assms(1,3) len by (simp add: ReadBlockRecords_def)
qed

theorem marker_at_block_end_unread_witness:
  "ReadBlockRecords (wal_wires ([] @ [\<lparr>w_FragType = FULL, w_RecType = COMMIT, w_TxnID = 1, w_KeySize = 0, w_ValueSize = 0,
     w_Record = \<lparr>r_ExpiresAt = 0, r_SeqId = 3, r_OpType = OpTypePut, r_Key = [], r_Value = []\<rparr>\<rparr>])) = Ok []"
  by (rule marker_at_block_end_unread [THEN conjunct2]) (simp_all add: payload_len_def length_wal_wire max_alloc_def)

end
