(* ===== verification/Lru_Cache.thy ===== *)
theory Lru_Cache
  imports Prelude
begin

text \<open>
  \<^verbatim>\<open>internal/cache/lru.go\<close>: an LRU cache made of a doubly linked list (Go's \<^verbatim>\<open>container/list\<close>, most
  recent element in front) and a map from keys to list elements. List elements are pointers, so
  the model gives each element an identity: the list holds \<open>(id, key, value)\<close> triples, the map
  sends a key to an identity, and \<open>lru_fresh\<close> is the next identity an allocation returns. The
  mutex makes every operation atomic, so operations are functions on the state.
\<close>

section \<open>Model\<close>

record ('k, 'v) lru =
  lru_maxElements :: int
  lru_list :: "(nat \<times> 'k \<times> 'v) list"
  lru_cache :: "'k \<rightharpoonup> nat"
  lru_fresh :: nat

text \<open>\<^verbatim>\<open>container/list\<close> operations on an element.\<close>

definition el_id :: "nat \<times> 'k \<times> 'v \<Rightarrow> nat" where "el_id e = fst e"
definition el_key :: "nat \<times> 'k \<times> 'v \<Rightarrow> 'k" where "el_key e = fst (snd e)"
definition el_val :: "nat \<times> 'k \<times> 'v \<Rightarrow> 'v" where "el_val e = snd (snd e)"

definition list_remove :: "nat \<Rightarrow> (nat \<times> 'k \<times> 'v) list \<Rightarrow> (nat \<times> 'k \<times> 'v) list" where
  "list_remove i l = filter (\<lambda>e. el_id e \<noteq> i) l"

definition list_move_to_front :: "nat \<Rightarrow> (nat \<times> 'k \<times> 'v) list \<Rightarrow> (nat \<times> 'k \<times> 'v) list" where
  "list_move_to_front i l = filter (\<lambda>e. el_id e = i) l @ list_remove i l"

definition list_set_value :: "nat \<Rightarrow> 'v \<Rightarrow> (nat \<times> 'k \<times> 'v) list \<Rightarrow> (nat \<times> 'k \<times> 'v) list" where
  "list_set_value i v l = map (\<lambda>e. if el_id e = i then (i, el_key e, v) else e) l"

definition list_value :: "nat \<Rightarrow> (nat \<times> 'k \<times> 'v) list \<Rightarrow> 'v option" where
  "list_value i l = map_option el_val (find (\<lambda>e. el_id e = i) l)"

definition NewLRU :: "int \<Rightarrow> ('k, 'v) lru" where
  "NewLRU maxElements =
     \<lparr>lru_maxElements = maxElements, lru_list = [], lru_cache = Map.empty, lru_fresh = 0\<rparr>"

text \<open>\<^verbatim>\<open>Get\<close> returns the value (\<open>None\<close> for a miss) and the cache with the element moved to the front.\<close>

definition LRU_Get :: "('k, 'v) lru \<Rightarrow> 'k \<Rightarrow> 'v option \<times> ('k, 'v) lru" where
  "LRU_Get c key =
     (case lru_cache c key of
        None \<Rightarrow> (None, c)
      | Some node \<Rightarrow>
          let l = list_move_to_front node (lru_list c) in
          (list_value node l, c\<lparr>lru_list := l\<rparr>))"

definition LRU_removeLast :: "('k, 'v) lru \<Rightarrow> ('k, 'v) lru" where
  "LRU_removeLast c =
     (if lru_list c = [] then c
      else let element = last (lru_list c) in
        c\<lparr>lru_list := list_remove (el_id element) (lru_list c),
          lru_cache := (lru_cache c)(el_key element := None)\<rparr>)"

definition LRU_Put :: "('k, 'v) lru \<Rightarrow> 'k \<Rightarrow> 'v \<Rightarrow> ('k, 'v) lru" where
  "LRU_Put c key val =
     (case lru_cache c key of
        Some e \<Rightarrow> c\<lparr>lru_list := list_move_to_front e (list_set_value e val (lru_list c))\<rparr>
      | None \<Rightarrow>
          let c = c\<lparr>lru_list := (lru_fresh c, key, val) # lru_list c,
                    lru_cache := (lru_cache c)(key \<mapsto> lru_fresh c),
                    lru_fresh := Suc (lru_fresh c)\<rparr>
          in if lru_maxElements c < int (length (lru_list c)) then LRU_removeLast c else c)"

definition LRU_Clear :: "('k, 'v) lru \<Rightarrow> ('k, 'v) lru" where
  "LRU_Clear c = c\<lparr>lru_list := [], lru_cache := Map.empty\<rparr>"

text \<open>
  \<^verbatim>\<open>InvalidateWhere\<close> ranges over the map and removes every element whose key satisfies the
  predicate; the iteration order does not matter, so it is written as one simultaneous removal.
\<close>

definition LRU_InvalidateWhere :: "('k, 'v) lru \<Rightarrow> ('k \<Rightarrow> bool) \<Rightarrow> ('k, 'v) lru" where
  "LRU_InvalidateWhere c predicate =
     c\<lparr>lru_list := filter (\<lambda>e. \<not> (predicate (el_key e) \<and> lru_cache c (el_key e) = Some (el_id e))) (lru_list c),
       lru_cache := (\<lambda>k. if predicate k then None else lru_cache c k)\<rparr>"

definition LRU_Delete :: "('k, 'v) lru \<Rightarrow> 'k \<Rightarrow> ('k, 'v) lru" where
  "LRU_Delete c key =
     (case lru_cache c key of
        None \<Rightarrow> c
      | Some elem \<Rightarrow> c\<lparr>lru_list := list_remove elem (lru_list c), lru_cache := (lru_cache c)(key := None)\<rparr>)"

section \<open>Invariant and abstraction\<close>

text \<open>
  Map and list agree: identities are distinct and older than the next one, and the map sends
  exactly the listed keys to their elements. The abstraction is the list of key-value pairs,
  most recently used first.
\<close>

definition lru_inv :: "('k, 'v) lru \<Rightarrow> bool" where
  "lru_inv c \<longleftrightarrow> distinct (map el_id (lru_list c)) \<and> distinct (map el_key (lru_list c)) \<and>
     (\<forall>e \<in> set (lru_list c). el_id e < lru_fresh c \<and> lru_cache c (el_key e) = Some (el_id e)) \<and>
     dom (lru_cache c) = el_key ` set (lru_list c)"

definition lru_abs :: "('k, 'v) lru \<Rightarrow> ('k \<times> 'v) list" where
  "lru_abs c = map (\<lambda>e. (el_key e, el_val e)) (lru_list c)"

text \<open>The abstract cache: an association list in recency order.\<close>

definition spec_remove :: "'k \<Rightarrow> ('k \<times> 'v) list \<Rightarrow> ('k \<times> 'v) list" where
  "spec_remove k l = filter (\<lambda>p. fst p \<noteq> k) l"

definition spec_get :: "'k \<Rightarrow> ('k \<times> 'v) list \<Rightarrow> 'v option \<times> ('k \<times> 'v) list" where
  "spec_get k l = (case map_of l k of None \<Rightarrow> (None, l) | Some v \<Rightarrow> (Some v, (k, v) # spec_remove k l))"

definition spec_put :: "int \<Rightarrow> 'k \<Rightarrow> 'v \<Rightarrow> ('k \<times> 'v) list \<Rightarrow> ('k \<times> 'v) list" where
  "spec_put cap k v l =
     (let l' = (k, v) # spec_remove k l in
      if map_of l k = None \<and> cap < int (length l') then butlast l' else l')"

section \<open>Refinement\<close>

lemmas el_defs = el_id_def el_key_def el_val_def

lemma lru_inv_element:
  assumes "lru_inv c" "lru_cache c k = Some i"
  obtains v where "(i, k, v) \<in> set (lru_list c)"
proof -
  from assms have "k \<in> el_key ` set (lru_list c)" by (auto simp: lru_inv_def)
  then obtain e where e: "e \<in> set (lru_list c)" "el_key e = k" by auto
  with assms have "el_id e = i" by (auto simp: lru_inv_def)
  with e that [of "el_val e"] show ?thesis by (cases e) (auto simp: el_defs)
qed

lemma lru_id_iff_key:
  assumes "lru_inv c" "lru_cache c k = Some i" "e \<in> set (lru_list c)"
  shows "el_id e = i \<longleftrightarrow> el_key e = k"
proof
  assume i: "el_id e = i"
  from assms(1,2) obtain v where v: "(i, k, v) \<in> set (lru_list c)" by (rule lru_inv_element)
  from assms(1) have "inj_on el_id (set (lru_list c))" by (auto simp: lru_inv_def distinct_map)
  with i v assms(3) have "e = (i, k, v)" by (auto simp: inj_on_def el_defs)
  then show "el_key e = k" by (simp add: el_defs)
next
  assume "el_key e = k"
  with assms show "el_id e = i" by (auto simp: lru_inv_def)
qed

lemma lru_none: "lru_inv c \<Longrightarrow> lru_cache c k = None \<Longrightarrow> e \<in> set (lru_list c) \<Longrightarrow> el_key e \<noteq> k"
  by (auto simp: lru_inv_def)

lemma map_of_lru_abs:
  "map_of (lru_abs c) k = map_option el_val (find (\<lambda>e. el_key e = k) (lru_list c))"
proof -
  have "map_of (map (\<lambda>e. (el_key e, el_val e)) l) k = map_option el_val (find (\<lambda>e. el_key e = k) l)" for l
    by (induction l) auto
  then show ?thesis by (simp add: lru_abs_def)
qed

lemma filter_unique: "distinct (map f l) \<Longrightarrow> e \<in> set l \<Longrightarrow> filter (\<lambda>x. f x = f e) l = [e]"
  by (induction l) (auto simp: filter_empty_conv image_iff)

lemma find_unique_filter: "find P l = (case filter P l of [] \<Rightarrow> None | x # _ \<Rightarrow> Some x)"
  by (induction l) auto

lemma lru_split:
  assumes "lru_inv c" "(i, k, v) \<in> set (lru_list c)"
  shows "filter (\<lambda>e. el_id e = i) (lru_list c) = [(i, k, v)]"
    and "filter (\<lambda>e. el_key e = k) (lru_list c) = [(i, k, v)]"
    and "map_of (lru_abs c) k = Some v"
    and "list_remove i (lru_list c) = filter (\<lambda>e. el_key e \<noteq> k) (lru_list c)"
    and "lru_cache c k = Some i"
proof -
  show c: "lru_cache c k = Some i" using assms by (force simp: lru_inv_def el_defs)
  show "filter (\<lambda>e. el_id e = i) (lru_list c) = [(i, k, v)]"
    using filter_unique [of el_id "lru_list c" "(i, k, v)"] assms by (simp add: lru_inv_def el_defs)
  show f: "filter (\<lambda>e. el_key e = k) (lru_list c) = [(i, k, v)]"
    using filter_unique [of el_key "lru_list c" "(i, k, v)"] assms by (simp add: lru_inv_def el_defs)
  then show "map_of (lru_abs c) k = Some v"
    by (simp add: map_of_lru_abs find_unique_filter el_defs)
  show "list_remove i (lru_list c) = filter (\<lambda>e. el_key e \<noteq> k) (lru_list c)"
    unfolding list_remove_def using lru_id_iff_key [OF assms(1) c] by (intro filter_cong) auto
qed

lemma lru_abs_remove:
  "map (\<lambda>e. (el_key e, el_val e)) (filter (\<lambda>e. el_key e \<noteq> k) l) =
   spec_remove k (map (\<lambda>e. (el_key e, el_val e)) l)"
  by (induction l) (auto simp: spec_remove_def)

lemma map_of_lru_none: "lru_inv c \<Longrightarrow> lru_cache c k = None \<Longrightarrow> map_of (lru_abs c) k = None"
  using lru_none [of c k] by (auto simp: map_of_lru_abs find_None_iff)

lemma LRU_Get_refines:
  assumes "lru_inv c"
  shows "(fst (LRU_Get c k), lru_abs (snd (LRU_Get c k))) = spec_get k (lru_abs c)"
proof (cases "lru_cache c k")
  case None
  then show ?thesis using map_of_lru_none [OF assms None] by (simp add: LRU_Get_def spec_get_def)
next
  case (Some i)
  with assms obtain v where "(i, k, v) \<in> set (lru_list c)" by (rule lru_inv_element)
  note sp = lru_split [OF assms this]
  show ?thesis
    by (simp add: LRU_Get_def Some list_move_to_front_def list_value_def sp find_unique_filter spec_get_def
        lru_abs_def lru_abs_remove sp(3) [unfolded lru_abs_def])
      (simp add: el_defs)
qed

lemma lru_invI:
  assumes "distinct (map el_id (lru_list c))" "distinct (map el_key (lru_list c))"
    and "\<And>e. e \<in> set (lru_list c) \<Longrightarrow> el_id e < lru_fresh c \<and> lru_cache c (el_key e) = Some (el_id e)"
    and "dom (lru_cache c) = el_key ` set (lru_list c)"
  shows "lru_inv c"
  using assms by (simp add: lru_inv_def)

lemma lru_invD:
  assumes "lru_inv c"
  shows "distinct (map el_id (lru_list c))" "distinct (map el_key (lru_list c))"
    and "e \<in> set (lru_list c) \<Longrightarrow> el_id e < lru_fresh c"
    and "e \<in> set (lru_list c) \<Longrightarrow> lru_cache c (el_key e) = Some (el_id e)"
    and "dom (lru_cache c) = el_key ` set (lru_list c)"
  using assms by (auto simp: lru_inv_def)

lemma distinct_map_filter_el: "distinct (map f l) \<Longrightarrow> distinct (map f (filter P l))"
  by (simp add: distinct_map inj_on_def)

lemma lru_inv_reorder:
  assumes "lru_inv c" "(i, k, v) \<in> set (lru_list c)"
  shows "lru_inv (c\<lparr>lru_list := (i, k, w) # filter (\<lambda>e. el_key e \<noteq> k) (lru_list c)\<rparr>)"
proof (rule lru_invI, goal_cases)
  case 1
  have "el_id e \<noteq> i" if "e \<in> set (lru_list c)" "el_key e \<noteq> k" for e
    using lru_id_iff_key [OF assms(1) lru_split(5) [OF assms] that(1)] that by simp
  then show ?case using distinct_map_filter_el [OF lru_invD(1) [OF assms(1)]]
    by (auto simp: el_id_def [of "(i, k, w)"])
next
  case 2
  then show ?case using distinct_map_filter_el [OF lru_invD(2) [OF assms(1)]]
    by (auto simp: el_key_def [of "(i, k, w)"])
next
  case (3 e)
  then show ?case using lru_invD(3,4) [OF assms(1)] assms(2) lru_split(5) [OF assms]
    by (cases e) (auto simp: el_defs)
next
  case 4
  have "k \<in> el_key ` set (lru_list c)" using assms(2) by (force simp: el_defs)
  then show ?case using lru_invD(5) [OF assms(1)] by (auto simp: el_key_def [of "(i, k, w)"])
qed

lemma LRU_Get_inv: "lru_inv c \<Longrightarrow> lru_inv (snd (LRU_Get c k))"
proof (cases "lru_cache c k")
  case (Some i)
  assume inv: "lru_inv c"
  with Some obtain v where "(i, k, v) \<in> set (lru_list c)" by (blast elim: lru_inv_element)
  with inv Some lru_split [OF inv this] lru_inv_reorder [OF inv this, of v] show ?thesis
    by (simp add: LRU_Get_def list_move_to_front_def Let_def)
qed (simp add: LRU_Get_def)

lemma list_set_value_split:
  assumes "lru_inv c" "(i, k, v) \<in> set (lru_list c)"
  shows "list_move_to_front i (list_set_value i w (lru_list c))
    = (i, k, w) # filter (\<lambda>e. el_key e \<noteq> k) (lru_list c)"
proof -
  have "filter (\<lambda>e. el_id e = i) (list_set_value i w l) = map (\<lambda>e. (i, el_key e, w)) (filter (\<lambda>e. el_id e = i) l)" for l :: "(nat \<times> 'a \<times> 'b) list"
    by (induction l) (auto simp: list_set_value_def el_defs)
  moreover have "list_remove i (list_set_value i w l) = list_remove i l" for l :: "(nat \<times> 'a \<times> 'b) list"
    by (induction l) (auto simp: list_set_value_def list_remove_def el_defs)
  ultimately show ?thesis
    using lru_split [OF assms] by (simp add: list_move_to_front_def el_defs)
qed

lemma lru_inv_push:
  assumes "lru_inv c" "lru_cache c k = None"
  shows "lru_inv (c\<lparr>lru_list := (lru_fresh c, k, v) # lru_list c,
    lru_cache := (lru_cache c)(k \<mapsto> lru_fresh c), lru_fresh := Suc (lru_fresh c)\<rparr>)" (is "lru_inv ?c")
proof -
  have n: "el_key e \<noteq> k" "el_id e < lru_fresh c" if "e \<in> set (lru_list c)" for e
    using lru_none [OF assms that] lru_invD(3) [OF assms(1) that] by auto
  show ?thesis
  proof (rule lru_invI, goal_cases)
    case 1 then show ?case using lru_invD(1) [OF assms(1)] n(2) by (force simp: el_id_def [of "(_, k, v)"])
  next
    case 2 then show ?case using lru_invD(2) [OF assms(1)] n(1) by (force simp: el_key_def [of "(_, k, v)"])
  next
    case (3 e)
    then consider "e = (lru_fresh c, k, v)" | "e \<in> set (lru_list c)" by auto
    then show ?case
    proof cases
      case 2 with n [OF 2] lru_invD(4) [OF assms(1) 2] show ?thesis by simp
    qed (simp add: el_defs)
  next
    case 4 then show ?case using lru_invD(5) [OF assms(1)] by (auto simp: el_key_def [of "(_, k, v)"])
  qed
qed

text \<open>Dropping every element with a key in a set keeps the invariant; all removals are of this form.\<close>

lemma lru_inv_drop:
  assumes "lru_inv c"
  shows "lru_inv (c\<lparr>lru_list := filter (\<lambda>e. \<not> P (el_key e)) (lru_list c),
    lru_cache := (\<lambda>k. if P k then None else lru_cache c k)\<rparr>)"
proof (rule lru_invI, goal_cases)
  case 4
  have "dom (\<lambda>k. if P k then None else lru_cache c k) = {k \<in> dom (lru_cache c). \<not> P k}"
    by (auto split: if_splits)
  then show ?case using lru_invD(5) [OF assms] by auto
qed (use lru_invD [OF assms] in \<open>auto simp: distinct_map_filter_el\<close>)

lemma lru_drop_one:
  "(\<lambda>k. if k = x then None else m k) = m(x := None)"
  by (auto simp: fun_upd_def)

lemma list_remove_last:
  assumes "distinct (map el_id l)" "l \<noteq> []"
  shows "list_remove (el_id (last l)) l = butlast l"
proof -
  have l: "l = butlast l @ [last l]" using assms(2) by simp
  have "distinct (map el_id (butlast l) @ [el_id (last l)])"
    using assms(1) by (subst (asm) l) (simp del: append_butlast_last_id)
  then have "el_id (last l) \<notin> el_id ` set (butlast l)" by simp
  then have "\<forall>e \<in> set (butlast l). el_id e \<noteq> el_id (last l)" by (metis image_eqI)
  moreover have "list_remove (el_id (last l)) (butlast l @ [last l]) = list_remove (el_id (last l)) (butlast l)"
    by (simp add: list_remove_def)
  ultimately show ?thesis using l by (simp add: list_remove_def)
qed

lemma LRU_removeLast_inv:
  assumes "lru_inv c"
  shows "lru_inv (LRU_removeLast c)" "lru_list (LRU_removeLast c) = butlast (lru_list c)"
    "lru_maxElements (LRU_removeLast c) = lru_maxElements c"
proof -
  show "lru_list (LRU_removeLast c) = butlast (lru_list c)"
    using list_remove_last lru_invD(1) [OF assms] by (auto simp: LRU_removeLast_def Let_def)
  show "lru_maxElements (LRU_removeLast c) = lru_maxElements c" by (simp add: LRU_removeLast_def Let_def)
  show "lru_inv (LRU_removeLast c)"
  proof (cases "lru_list c = []")
    case False
    then have "last (lru_list c) \<in> set (lru_list c)" by simp
    then have "(el_id (last (lru_list c)), el_key (last (lru_list c)), el_val (last (lru_list c))) \<in> set (lru_list c)"
      by (simp add: el_defs)
    from lru_split(4) [OF assms this] False lru_inv_drop [OF assms, of "\<lambda>k. k = el_key (last (lru_list c))"]
    show ?thesis by (simp add: LRU_removeLast_def Let_def lru_drop_one)
  qed (simp add: LRU_removeLast_def assms)
qed

lemma LRU_Put_inv: "lru_inv c \<Longrightarrow> lru_inv (LRU_Put c k v)"
proof (cases "lru_cache c k")
  case None
  assume "lru_inv c"
  note push = lru_inv_push [OF this None, of v]
  from push LRU_removeLast_inv(1) [OF push] None show ?thesis by (simp add: LRU_Put_def Let_def)
next
  case (Some i)
  assume inv: "lru_inv c"
  with Some obtain v' where "(i, k, v') \<in> set (lru_list c)" by (blast elim: lru_inv_element)
  with lru_inv_reorder [OF inv this, of v] list_set_value_split [OF inv this, of v] Some show ?thesis
    by (simp add: LRU_Put_def)
qed

lemma LRU_Put_refines:
  assumes "lru_inv c"
  shows "lru_abs (LRU_Put c k v) = spec_put (lru_maxElements c) k v (lru_abs c)"
proof (cases "lru_cache c k")
  case None
  have "k \<notin> fst ` set (lru_abs c)" using map_of_lru_none [OF assms None] by (simp add: map_of_eq_None_iff)
  then have "spec_remove k (lru_abs c) = lru_abs c"
    by (force simp: spec_remove_def intro!: filter_True)
  with None map_of_lru_none [OF assms None] LRU_removeLast_inv(2) [OF lru_inv_push [OF assms None, of v]]
  show ?thesis
    by (simp add: LRU_Put_def spec_put_def Let_def lru_abs_def map_butlast el_defs)
next
  case (Some i)
  with assms obtain v' where m: "(i, k, v') \<in> set (lru_list c)" by (rule lru_inv_element)
  from Some list_set_value_split [OF assms m, of v] lru_split(3) [OF assms m]
  have "lru_abs (LRU_Put c k v) = (k, v) # spec_remove k (lru_abs c)"
    by (simp add: LRU_Put_def lru_abs_def lru_abs_remove [symmetric]) (simp add: el_defs)
  then show ?thesis using lru_split(3) [OF assms m] by (simp add: spec_put_def)
qed

lemma LRU_Delete_refines:
  assumes "lru_inv c"
  shows "lru_abs (LRU_Delete c k) = spec_remove k (lru_abs c) \<and> lru_inv (LRU_Delete c k)"
proof (cases "lru_cache c k")
  case None
  have "k \<notin> fst ` set (lru_abs c)" using map_of_lru_none [OF assms None] by (simp add: map_of_eq_None_iff)
  then have "spec_remove k (lru_abs c) = lru_abs c"
    by (force simp: spec_remove_def intro!: filter_True)
  then show ?thesis using None assms by (simp add: LRU_Delete_def)
next
  case (Some i)
  with assms obtain v where m: "(i, k, v) \<in> set (lru_list c)" by (rule lru_inv_element)
  from lru_inv_drop [OF assms, of "\<lambda>x. x = k"] Some lru_split(4) [OF assms m] show ?thesis
    by (simp add: LRU_Delete_def lru_abs_def lru_abs_remove lru_drop_one)
qed

lemma LRU_InvalidateWhere_refines:
  assumes "lru_inv c"
  shows "lru_abs (LRU_InvalidateWhere c P) = filter (\<lambda>p. \<not> P (fst p)) (lru_abs c) \<and>
    lru_inv (LRU_InvalidateWhere c P)"
proof -
  have f: "filter (\<lambda>e. \<not> (P (el_key e) \<and> lru_cache c (el_key e) = Some (el_id e))) (lru_list c)
      = filter (\<lambda>e. \<not> P (el_key e)) (lru_list c)"
    by (rule filter_cong) (use lru_invD(4) [OF assms] in auto)
  have "map (\<lambda>e. (el_key e, el_val e)) (filter (\<lambda>e. \<not> P (el_key e)) l)
      = filter (\<lambda>p. \<not> P (fst p)) (map (\<lambda>e. (el_key e, el_val e)) l)" for l :: "(nat \<times> 'a \<times> 'b) list"
    by (induction l) auto
  then show ?thesis
    using lru_inv_drop [OF assms, of P] by (simp only: LRU_InvalidateWhere_def f lru_abs_def) simp
qed

lemma LRU_Clear_inv: "lru_inv (LRU_Clear c)" "lru_abs (LRU_Clear c) = []"
  by (auto simp: LRU_Clear_def lru_inv_def lru_abs_def)

lemma NewLRU_inv: "lru_inv (NewLRU n)" "lru_abs (NewLRU n) = []"
  by (auto simp: NewLRU_def lru_inv_def lru_abs_def)

section \<open>Sequences of operations\<close>

datatype ('k, 'v) lru_op = OpGet 'k | OpPut 'k 'v | OpDelete 'k | OpInvalidate "'k \<Rightarrow> bool" | OpClear

primrec lru_step :: "('k, 'v) lru_op \<Rightarrow> ('k, 'v) lru \<Rightarrow> 'v option \<times> ('k, 'v) lru" where
  "lru_step (OpGet k) c = LRU_Get c k"
| "lru_step (OpPut k v) c = (None, LRU_Put c k v)"
| "lru_step (OpDelete k) c = (None, LRU_Delete c k)"
| "lru_step (OpInvalidate P) c = (None, LRU_InvalidateWhere c P)"
| "lru_step OpClear c = (None, LRU_Clear c)"

primrec spec_step :: "int \<Rightarrow> ('k, 'v) lru_op \<Rightarrow> ('k \<times> 'v) list \<Rightarrow> 'v option \<times> ('k \<times> 'v) list" where
  "spec_step cap (OpGet k) l = spec_get k l"
| "spec_step cap (OpPut k v) l = (None, spec_put cap k v l)"
| "spec_step cap (OpDelete k) l = (None, spec_remove k l)"
| "spec_step cap (OpInvalidate P) l = (None, filter (\<lambda>p. \<not> P (fst p)) l)"
| "spec_step cap OpClear l = (None, [])"

fun run :: "('op \<Rightarrow> 's \<Rightarrow> 'out \<times> 's) \<Rightarrow> 'op list \<Rightarrow> 's \<Rightarrow> 'out list \<times> 's" where
  "run step [] s = ([], s)"
| "run step (x # xs) s = (case step x s of (r, s') \<Rightarrow> case run step xs s' of (rs, s'') \<Rightarrow> (r # rs, s''))"

lemma lru_max_step: "lru_maxElements (snd (lru_step x c)) = lru_maxElements c"
  by (cases x) (auto simp: LRU_Get_def LRU_Put_def LRU_removeLast_def LRU_Delete_def LRU_InvalidateWhere_def
      LRU_Clear_def Let_def split: option.split)

lemma lru_step_refines:
  assumes "lru_inv c"
  shows "lru_inv (snd (lru_step x c))"
    "(fst (lru_step x c), lru_abs (snd (lru_step x c))) = spec_step (lru_maxElements c) x (lru_abs c)"
  using assms LRU_Get_inv [OF assms] LRU_Put_inv [OF assms] LRU_Get_refines [OF assms] LRU_Put_refines [OF assms]
    LRU_Delete_refines [OF assms] LRU_InvalidateWhere_refines [OF assms]
  by (cases x; simp add: LRU_Clear_inv)+

lemma lru_run_refines:
  "lru_inv c \<Longrightarrow> lru_inv (snd (run lru_step xs c)) \<and>
   (fst (run lru_step xs c), lru_abs (snd (run lru_step xs c))) = run (spec_step (lru_maxElements c)) xs (lru_abs c)"
proof (induction xs arbitrary: c)
  case (Cons x xs)
  obtain r c' where s: "lru_step x c = (r, c')" by fastforce
  from lru_step_refines [OF Cons.prems, of x] lru_max_step [of x c] s Cons.IH [of c']
  show ?case by (auto simp: split_beta prod_eq_iff)
qed simp

lemma spec_remove_length: "map_of l k = Some v \<Longrightarrow> length (spec_remove k l) < length l"
  unfolding spec_remove_def by (drule map_of_SomeD, erule length_filter_less) simp

lemma spec_remove_le: "length (spec_remove k l) \<le> length l"
  by (simp add: spec_remove_def)

lemma spec_step_capacity: "int (length l) \<le> cap \<Longrightarrow> int (length (snd (spec_step cap x l))) \<le> cap"
proof (cases x)
  case (OpGet k)
  assume "int (length l) \<le> cap"
  with OpGet show ?thesis by (auto simp: spec_get_def split: option.split dest: spec_remove_length)
next
  case (OpPut k v)
  assume "int (length l) \<le> cap"
  with OpPut spec_remove_le [of k l] show ?thesis
    by (cases "map_of l k") (auto simp: spec_put_def Let_def not_less dest: spec_remove_length)
next
  case (OpDelete k)
  assume "int (length l) \<le> cap"
  with OpDelete spec_remove_le [of k l] show ?thesis by simp
next
  case (OpInvalidate P)
  assume "int (length l) \<le> cap"
  moreover have "length (filter (\<lambda>p. \<not> P (fst p)) l) \<le> length l" by (rule length_filter_le)
  ultimately show ?thesis using OpInvalidate by (simp del: length_filter_le)
qed simp

lemma spec_run_capacity: "int (length l) \<le> cap \<Longrightarrow> int (length (snd (run (spec_step cap) xs l))) \<le> cap"
proof (induction xs arbitrary: l)
  case (Cons x xs)
  from spec_step_capacity [OF Cons.prems, of x] Cons.IH [of "snd (spec_step cap x l)"] show ?case
    by (simp add: split_beta)
qed simp

section \<open>Properties\<close>

text \<open>C24: Every sequence of cache operations from a fresh cache returns what an association list kept
  in recency order returns (a hit gives the value of the last put, the least recently used key is
  evicted), and list and map stay consistent.\<close>

theorem lru_refines_recency_list:
  "lru_inv (snd (run lru_step xs (NewLRU n))) \<and>
   (fst (run lru_step xs (NewLRU n)), lru_abs (snd (run lru_step xs (NewLRU n)))) = run (spec_step n) xs []"
  using lru_run_refines [OF NewLRU_inv(1) [of n], of xs] by (simp add: NewLRU_inv(2)) (simp add: NewLRU_def)

text \<open>A cache made with a capacity that is not negative never holds more elements than that, whatever
  operations are run on it.\<close>

theorem lru_capacity:
  assumes "0 \<le> n"
  shows "int (length (lru_list (snd (run lru_step xs (NewLRU n))))) \<le> n"
proof -
  have "int (length (lru_abs (snd (run lru_step xs (NewLRU n))))) \<le> n"
    using lru_run_refines [OF NewLRU_inv(1) [of n], of xs] spec_run_capacity [of "[]" n xs] assms
    by (simp add: NewLRU_inv(2) prod_eq_iff) (simp add: NewLRU_def)
  then show ?thesis by (simp add: lru_abs_def)
qed

theorem lru_capacity_witness:
  "int (length (lru_list (snd (run lru_step
     [OpPut ''a'' (1::nat), OpPut ''b'' 2, OpPut ''a'' 3, OpPut ''c'' 4] (NewLRU 2))))) \<le> 2"
  by (rule lru_capacity) simp

end
