(* ===== verification/Block_Manager.thy ===== *)
theory Block_Manager
  imports Prelude Lru_Cache
begin

text \<open>
  \<^verbatim>\<open>internal/block/block_manager.go\<close> and \<^verbatim>\<open>block_cache.go\<close>: reads and writes of fixed-size blocks of
  files behind an LRU cache.

  The file system is a map from paths to file contents. Of the failures of \<^verbatim>\<open>os\<close> the model has the
  one the code distinguishes, opening a file that does not exist; a read at or past the end of a
  file fills the rest of the buffer with zeros (\<^verbatim>\<open>io.EOF\<close> is ignored by \<^verbatim>\<open>ReadNoCache\<close>), a write
  past the end leaves a gap of zeros. Byte offsets are exact: \<^verbatim>\<open>int64(blockSize) * int64(Offset)\<close>
  does not wrap for the block sizes the configuration allows (kilobytes) and 32-bit block numbers.
  Buffers handed to or returned from the cache are values: no caller writes to a block it read.
\<close>

section \<open>Files\<close>

type_synonym path = string
type_synonym disk = "path \<rightharpoonup> bytes"

text \<open>\<^verbatim>\<open>ReadAt\<close> into a zeroed buffer of \<open>n\<close> bytes, and \<^verbatim>\<open>WriteAt\<close>.\<close>

definition file_read :: "bytes \<Rightarrow> nat \<Rightarrow> nat \<Rightarrow> bytes" where
  "file_read content off n =
     (let got = take n (drop off content) in got @ make_bytes (n - length got))"

definition file_write :: "bytes \<Rightarrow> nat \<Rightarrow> bytes \<Rightarrow> bytes" where
  "file_write content off data =
     take off content @ make_bytes (off - length content) @ data @ drop (off + length data) content"

definition file_truncate :: "bytes \<Rightarrow> nat \<Rightarrow> bytes" where
  "file_truncate content n = take n content @ make_bytes (n - length content)"

text \<open>Files are described by the byte at every position: what lies past the end reads as zero.\<close>

definition byte_at :: "bytes \<Rightarrow> nat \<Rightarrow> byte" where
  "byte_at content i = (if i < length content then content ! i else 0)"

definition open_create :: "path \<Rightarrow> disk \<Rightarrow> bytes" where
  "open_create p d = (case d p of Some c \<Rightarrow> c | None \<Rightarrow> [])"

lemma file_read_bytes: "file_read c off n = map (byte_at c) [off ..< off + n]"
proof (rule nth_equalityI)
  fix i assume "i < length (file_read c off n)"
  then have "i < n" by (auto simp: file_read_def Let_def)
  then show "file_read c off n ! i = map (byte_at c) [off ..< off + n] ! i"
    by (auto simp: file_read_def Let_def byte_at_def nth_append make_bytes_def)
qed (auto simp: file_read_def Let_def)

lemma byte_at_write:
  "byte_at (file_write c off data) i =
     (if off \<le> i \<and> i < off + length data then data ! (i - off) else byte_at c i)"
  by (auto simp: file_write_def byte_at_def nth_append make_bytes_def min_def add.commute)

lemma byte_at_truncate: "length c \<le> n \<Longrightarrow> byte_at (file_truncate c n) i = byte_at c i"
  by (auto simp: file_truncate_def byte_at_def nth_append make_bytes_def)

lemma file_read_write_same: "file_read (file_write c off data) off (length data) = data"
  unfolding file_read_bytes by (rule nth_equalityI) (auto simp: byte_at_write)

lemma file_read_write_other:
  "off' + n \<le> off \<or> off + length data \<le> off' \<Longrightarrow>
   file_read (file_write c off data) off' n = file_read c off' n"
  unfolding file_read_bytes by (auto simp: byte_at_write)

lemma length_file_read [simp]: "length (file_read c off n) = n"
  by (simp add: file_read_bytes)

lemma file_read_0: "length c = n \<Longrightarrow> file_read c 0 n = c"
  by (simp add: file_read_def)

section \<open>Block manager\<close>

record BlockKey =
  bk_FilePath :: path
  bk_Offset :: nat

record BlockManager =
  bm_blockSize :: nat
  bm_cache :: "(BlockKey, bytes) lru"

definition NewBlockKey :: "path \<Rightarrow> nat \<Rightarrow> BlockKey" where
  "NewBlockKey filePath off = \<lparr>bk_FilePath = filePath, bk_Offset = off\<rparr>"

text \<open>\<open>cacheMax\<close> is the setting \<^verbatim>\<open>BlockCacheMaxBlocks\<close>; the cache is created empty, once.\<close>

definition NewBlockManager :: "nat \<Rightarrow> int \<Rightarrow> BlockManager" where
  "NewBlockManager blockSize cacheMax = \<lparr>bm_blockSize = blockSize, bm_cache = NewLRU cacheMax\<rparr>"

definition block_off :: "BlockManager \<Rightarrow> BlockKey \<Rightarrow> nat" where
  "block_off bm key = bm_blockSize bm * bk_Offset key"

definition ReadNoCache :: "BlockManager \<Rightarrow> disk \<Rightarrow> BlockKey \<Rightarrow> bytes result" where
  "ReadNoCache bm d key =
     (case d (bk_FilePath key) of
        None \<Rightarrow> Inl (Error ''no such file or directory'')
      | Some content \<Rightarrow> Ok (file_read content (block_off bm key) (bm_blockSize bm)))"

definition bm_Read :: "BlockManager \<Rightarrow> disk \<Rightarrow> BlockKey \<Rightarrow> bytes result \<times> BlockManager" where
  "bm_Read bm d key =
     (case LRU_Get (bm_cache bm) key of
        (Some val, c) \<Rightarrow> (Ok val, bm\<lparr>bm_cache := c\<rparr>)
      | (None, c) \<Rightarrow>
          (case ReadNoCache bm d key of
             Inl err \<Rightarrow> (Inl err, bm\<lparr>bm_cache := c\<rparr>)
           | Inr data \<Rightarrow> (Ok data, bm\<lparr>bm_cache := LRU_Put c key data\<rparr>)))"

definition WriteNoCache :: "BlockManager \<Rightarrow> disk \<Rightarrow> BlockKey \<Rightarrow> bytes \<Rightarrow> disk" where
  "WriteNoCache bm d key val =
     d(bk_FilePath key \<mapsto> file_write (open_create (bk_FilePath key) d) (block_off bm key) val)"

definition bm_Write :: "BlockManager \<Rightarrow> disk \<Rightarrow> BlockKey \<Rightarrow> bytes \<Rightarrow> (BlockManager \<times> disk) result" where
  "bm_Write bm d key val =
     (if length val \<noteq> bm_blockSize bm then Inl (Error ''invalid block size'')
      else Ok (bm\<lparr>bm_cache := LRU_Put (bm_cache bm) key val\<rparr>, WriteNoCache bm d key val))"

text \<open>\<^verbatim>\<open>WriteAt\<close> writes through an open file \<open>f\<close>, whatever path the key names, and caches under the key.\<close>

definition WriteAtNoCache :: "BlockManager \<Rightarrow> disk \<Rightarrow> path \<Rightarrow> BlockKey \<Rightarrow> bytes \<Rightarrow> disk" where
  "WriteAtNoCache bm d f key val = d(f \<mapsto> file_write (open_create f d) (block_off bm key) val)"

definition WriteAt :: "BlockManager \<Rightarrow> disk \<Rightarrow> path \<Rightarrow> BlockKey \<Rightarrow> bytes \<Rightarrow> (BlockManager \<times> disk) result" where
  "WriteAt bm d f key val =
     (if length val \<noteq> bm_blockSize bm then Inl (Error ''invalid block size'')
      else Ok (bm\<lparr>bm_cache := LRU_Put (bm_cache bm) key val\<rparr>, WriteAtNoCache bm d f key val))"

text \<open>\<^verbatim>\<open>SyncFile\<close> opens with \<^verbatim>\<open>O_CREATE\<close>: a missing file exists afterwards.\<close>

definition SyncFile :: "disk \<Rightarrow> path \<Rightarrow> disk" where
  "SyncFile d p = d(p \<mapsto> open_create p d)"

definition EnsureSize :: "disk \<Rightarrow> path \<Rightarrow> nat \<Rightarrow> disk" where
  "EnsureSize d p sizeBytes =
     (let c = open_create p d in
      d(p \<mapsto> (if sizeBytes \<le> length c then c else file_truncate c sizeBytes)))"

definition ClearCache :: "BlockManager \<Rightarrow> BlockManager" where
  "ClearCache bm = bm\<lparr>bm_cache := LRU_Clear (bm_cache bm)\<rparr>"

definition InvalidateFile :: "BlockManager \<Rightarrow> path \<Rightarrow> BlockManager" where
  "InvalidateFile bm p =
     bm\<lparr>bm_cache := LRU_InvalidateWhere (bm_cache bm) (\<lambda>key. bk_FilePath key = p)\<rparr>"

definition WriteNoBlock :: "bytes \<Rightarrow> nat \<Rightarrow> bytes \<Rightarrow> bytes" where
  "WriteNoBlock content off data = file_write content off data"

text \<open>\<^verbatim>\<open>ReadNoBlock\<close> does not ignore \<^verbatim>\<open>io.EOF\<close>: a short read is an error.\<close>

definition ReadNoBlock :: "bytes \<Rightarrow> nat \<Rightarrow> nat \<Rightarrow> bytes result" where
  "ReadNoBlock content off n =
     (if off + n \<le> length content then Ok (take n (drop off content)) else Inl (Error ''EOF''))"

definition DeleteFile :: "disk \<Rightarrow> path \<Rightarrow> disk result" where
  "DeleteFile d p = (case d p of None \<Rightarrow> Inl (Error ''no such file or directory'') | Some _ \<Rightarrow> Ok (d(p := None)))"

definition CopyFile :: "disk \<Rightarrow> path \<Rightarrow> path \<Rightarrow> disk result" where
  "CopyFile d src dst =
     (case d src of
        None \<Rightarrow> Inl (Error ''no such file or directory'')
      | Some c \<Rightarrow> Ok (d(dst \<mapsto> (if src = dst then [] else c))))"

section \<open>The block store interface\<close>

text \<open>
  What the users of blocks (the WAL segments) rely on: writing a block makes it readable and leaves
  the other blocks of the same file, and all other files, as they were.
\<close>

locale block_store =
  fixes rd :: "'d \<Rightarrow> path \<Rightarrow> nat \<Rightarrow> bytes option"
    and wr :: "'d \<Rightarrow> path \<Rightarrow> nat \<Rightarrow> bytes \<Rightarrow> 'd"
    and sz :: nat
  assumes read_write_same: "length b = sz \<Longrightarrow> rd (wr d p i b) p i = Some b"
    and read_write_other:
      "length b = sz \<Longrightarrow> (q, j) \<noteq> (p, i) \<Longrightarrow> rd d q j = Some c \<Longrightarrow> rd (wr d p i b) q j = Some c"
    and read_length: "rd d p i = Some b \<Longrightarrow> length b = sz"
begin

lemma write_idem: "length b = sz \<Longrightarrow> rd d p i = Some b \<Longrightarrow> rd d q j = Some c \<Longrightarrow>
    rd (wr d p i b) q j = Some c"
  using read_write_same read_write_other by (metis prod.inject)

end

definition disk_read :: "nat \<Rightarrow> disk \<Rightarrow> path \<Rightarrow> nat \<Rightarrow> bytes option" where
  "disk_read n d p i = map_option (\<lambda>c. file_read c (n * i) n) (d p)"

definition disk_write :: "nat \<Rightarrow> disk \<Rightarrow> path \<Rightarrow> nat \<Rightarrow> bytes \<Rightarrow> disk" where
  "disk_write n d p i b = d(p \<mapsto> file_write (open_create p d) (n * i) b)"

lemma ReadNoCache_disk: "ReadNoCache bm d key =
   (case disk_read (bm_blockSize bm) d (bk_FilePath key) (bk_Offset key) of
      None \<Rightarrow> Inl (Error ''no such file or directory'') | Some b \<Rightarrow> Ok b)"
  by (auto simp: ReadNoCache_def disk_read_def block_off_def split: option.split)

lemma WriteNoCache_disk:
  "WriteNoCache bm d key v = disk_write (bm_blockSize bm) d (bk_FilePath key) (bk_Offset key) v"
  by (simp add: WriteNoCache_def disk_write_def block_off_def)

lemma block_ranges: "i \<noteq> j \<Longrightarrow> n * i + n \<le> n * j \<or> n * j + n \<le> n * (i::nat)"
  by (metis add.commute linorder_neqE_nat mult_Suc_right mult_le_mono2 Suc_leI)

interpretation disk: block_store "disk_read n" "disk_write n" n
proof (unfold_locales, goal_cases)
  case (1 b d p i)
  then show ?case using file_read_write_same [of "open_create p d" "n * i" b]
    by (simp add: disk_read_def disk_write_def)
next
  case (2 b q j p i d c)
  then show ?case using block_ranges [of j i n] file_read_write_other [of "n * j" n "n * i" b]
    by (cases "p = q") (auto simp: disk_read_def disk_write_def open_create_def)
qed (auto simp: disk_read_def)

section \<open>Cache coherence\<close>

definition coherent :: "BlockManager \<Rightarrow> disk \<Rightarrow> bool" where
  "coherent bm d \<longleftrightarrow> lru_inv (bm_cache bm) \<and>
     (\<forall>k v. (k, v) \<in> set (lru_abs (bm_cache bm)) \<longrightarrow> ReadNoCache bm d k = Ok v)"

lemma BlockKey_neq: "(k :: BlockKey) \<noteq> key \<Longrightarrow> (bk_FilePath k, bk_Offset k) \<noteq> (bk_FilePath key, bk_Offset key)"
  by (cases k; cases key) simp

lemma coherent_mono:
  assumes "coherent bm d" "lru_inv c"
    and "\<And>k v. (k, v) \<in> set (lru_abs c) \<Longrightarrow>
      (k, v) \<in> set (lru_abs (bm_cache bm)) \<or> ReadNoCache bm d k = Ok v"
  shows "coherent (bm\<lparr>bm_cache := c\<rparr>) d"
proof -
  have "ReadNoCache (bm\<lparr>bm_cache := c\<rparr>) d k = ReadNoCache bm d k" for k
    by (simp add: ReadNoCache_def block_off_def split: option.split)
  then show ?thesis using assms unfolding coherent_def by simp blast
qed

lemma spec_get_subset: "set (snd (spec_get k l)) \<subseteq> set l"
  by (auto simp: spec_get_def spec_remove_def dest: map_of_SomeD split: option.split)

lemma spec_put_subset:
  "(k', v') \<in> set (spec_put cap k v l) \<Longrightarrow> (k', v') = (k, v) \<or> k' \<noteq> k \<and> (k', v') \<in> set l"
  by (auto simp: spec_put_def spec_remove_def Let_def dest!: in_set_butlastD split: if_splits)

lemma bm_Read_coherent:
  assumes "coherent bm d"
  shows "fst (bm_Read bm d key) = ReadNoCache bm d key" "coherent (snd (bm_Read bm d key)) d"
proof -
  have inv: "lru_inv (bm_cache bm)" using assms by (simp add: coherent_def)
  obtain r c where g: "LRU_Get (bm_cache bm) key = (r, c)" by fastforce
  have c: "lru_inv c" "lru_abs c = snd (spec_get key (lru_abs (bm_cache bm)))"
      "r = fst (spec_get key (lru_abs (bm_cache bm)))"
    using LRU_Get_inv [OF inv, of key] LRU_Get_refines [OF inv, of key] g by (auto simp: prod_eq_iff)
  have sub: "set (lru_abs c) \<subseteq> set (lru_abs (bm_cache bm))" using c(2) spec_get_subset by metis
  have hit: "ReadNoCache bm d key = Ok v" if "r = Some v" for v
    using that c(3) assms by (auto simp: spec_get_def coherent_def dest: map_of_SomeD split: option.splits)
  show "fst (bm_Read bm d key) = ReadNoCache bm d key"
    using hit by (auto simp: bm_Read_def g split: option.split sum.split)
  have "coherent (bm\<lparr>bm_cache := c\<rparr>) d" using coherent_mono [OF assms c(1)] sub by blast
  moreover have "coherent (bm\<lparr>bm_cache := LRU_Put c key data\<rparr>) d" if "ReadNoCache bm d key = Ok data" for data
    by (rule coherent_mono [OF assms LRU_Put_inv [OF c(1)]])
      (use that sub LRU_Put_refines [OF c(1)] in \<open>auto dest!: spec_put_subset\<close>)
  ultimately show "coherent (snd (bm_Read bm d key)) d"
    by (auto simp: bm_Read_def g split: option.split sum.split)
qed

lemma bm_Write_coherent:
  assumes "coherent bm d" "bm_Write bm d key v = Ok (bm', d')"
  shows "coherent bm' d'" "ReadNoCache bm' d' key = Ok v"
    and "key' \<noteq> key \<Longrightarrow> ReadNoCache bm d key' = Ok w \<Longrightarrow> ReadNoCache bm' d' key' = Ok w"
proof -
  let ?n = "bm_blockSize bm"
  have len: "length v = ?n" and bm': "bm' = bm\<lparr>bm_cache := LRU_Put (bm_cache bm) key v\<rparr>"
    and d': "d' = disk_write ?n d (bk_FilePath key) (bk_Offset key) v"
    using assms(2) by (auto simp: bm_Write_def WriteNoCache_disk split: if_splits)
  show same: "ReadNoCache bm' d' key = Ok v"
    by (simp add: ReadNoCache_disk bm' d' disk.read_write_same [OF len])
  show other: "ReadNoCache bm' d' k = Ok w" if "k \<noteq> key" "ReadNoCache bm d k = Ok w" for k w
    using that disk.read_write_other [OF len BlockKey_neq [OF that(1)], of d w]
    by (auto simp: ReadNoCache_disk bm' d' split: option.splits)
  have inv: "lru_inv (bm_cache bm)" using assms(1) by (simp add: coherent_def)
  show "coherent bm' d'"
    unfolding coherent_def
  proof (intro conjI allI impI)
    show "lru_inv (bm_cache bm')" using LRU_Put_inv [OF inv] by (simp add: bm')
    fix k w assume "(k, w) \<in> set (lru_abs (bm_cache bm'))"
    then have "(k, w) = (key, v) \<or> k \<noteq> key \<and> (k, w) \<in> set (lru_abs (bm_cache bm))"
      using LRU_Put_refines [OF inv] spec_put_subset by (simp add: bm') fastforce
    then show "ReadNoCache bm' d' k = Ok w" using same other assms(1) by (auto simp: coherent_def)
  qed
qed

text \<open>Growing or creating a file changes no readable block.\<close>

lemma grow_read:
  assumes "ReadNoCache bm d k = Ok v"
  shows "ReadNoCache bm (EnsureSize d p n) k = Ok v" "ReadNoCache bm (SyncFile d p) k = Ok v"
  using assms
  by (auto simp: ReadNoCache_def EnsureSize_def SyncFile_def open_create_def Let_def file_read_bytes
      byte_at_truncate split: option.splits if_splits)

section \<open>Runs\<close>

datatype bm_op =
    BRead BlockKey | BWrite BlockKey bytes | BEnsure path nat | BSync path | BClear | BInvalidate path

fun bm_step :: "bm_op \<Rightarrow> BlockManager \<times> disk \<Rightarrow> bytes result \<times> BlockManager \<times> disk" where
  "bm_step (BRead k) (bm, d) = (case bm_Read bm d k of (r, bm') \<Rightarrow> (r, bm', d))"
| "bm_step (BWrite k v) (bm, d) =
     (case bm_Write bm d k v of Inl e \<Rightarrow> (Inl e, bm, d) | Inr s \<Rightarrow> (Ok [], s))"
| "bm_step (BEnsure p n) (bm, d) = (Ok [], bm, EnsureSize d p n)"
| "bm_step (BSync p) (bm, d) = (Ok [], bm, SyncFile d p)"
| "bm_step BClear (bm, d) = (Ok [], ClearCache bm, d)"
| "bm_step (BInvalidate p) (bm, d) = (Ok [], InvalidateFile bm p, d)"

text \<open>The same operations on the disk alone, without a cache.\<close>

fun disk_step :: "nat \<Rightarrow> bm_op \<Rightarrow> disk \<Rightarrow> bytes result \<times> disk" where
  "disk_step n (BRead k) d =
     ((case disk_read n d (bk_FilePath k) (bk_Offset k) of
         None \<Rightarrow> Inl (Error ''no such file or directory'') | Some b \<Rightarrow> Ok b), d)"
| "disk_step n (BWrite k v) d =
     (if length v \<noteq> n then (Inl (Error ''invalid block size''), d)
      else (Ok [], disk_write n d (bk_FilePath k) (bk_Offset k) v))"
| "disk_step n (BEnsure p m) d = (Ok [], EnsureSize d p m)"
| "disk_step n (BSync p) d = (Ok [], SyncFile d p)"
| "disk_step n BClear d = (Ok [], d)"
| "disk_step n (BInvalidate p) d = (Ok [], d)"

lemma bm_step_refines:
  assumes "coherent bm d" "bm_step x (bm, d) = (r, bm', d')"
  shows "coherent bm' d' \<and> bm_blockSize bm' = bm_blockSize bm \<and> disk_step (bm_blockSize bm) x d = (r, d')"
proof (cases x)
  case (BRead k)
  then have "r = fst (bm_Read bm d k)" "bm' = snd (bm_Read bm d k)" "d' = d"
    using assms(2) by (auto split: prod.splits)
  moreover have "bm_blockSize (snd (bm_Read bm d k)) = bm_blockSize bm"
    by (auto simp: bm_Read_def split: prod.split option.split sum.split)
  ultimately show ?thesis using bm_Read_coherent [OF assms(1)] BRead by (simp add: ReadNoCache_disk)
next
  case (BWrite k v)
  with assms bm_Write_coherent(1) [OF assms(1), of k v] show ?thesis
    by (auto simp: bm_Write_def WriteNoCache_disk split: if_splits)
next
  case (BEnsure p n)
  with assms grow_read show ?thesis by (auto simp: coherent_def)
next
  case (BSync p)
  with assms grow_read show ?thesis by (auto simp: coherent_def)
next
  case BClear
  with assms coherent_mono [OF assms(1) LRU_Clear_inv(1)] show ?thesis by (auto simp: ClearCache_def LRU_Clear_inv)
next
  case (BInvalidate p)
  have inv: "lru_inv (bm_cache bm)" using assms(1) by (simp add: coherent_def)
  from BInvalidate assms coherent_mono [OF assms(1), of "LRU_InvalidateWhere (bm_cache bm) (\<lambda>key. bk_FilePath key = p)"]
    LRU_InvalidateWhere_refines [OF inv]
  show ?thesis by (auto simp: InvalidateFile_def)
qed

lemma bm_run_refines:
  "coherent bm d \<Longrightarrow> run bm_step xs (bm, d) = (rs, bm', d') \<Longrightarrow>
   run (disk_step (bm_blockSize bm)) xs d = (rs, d')"
proof (induction xs arbitrary: bm d rs)
  case (Cons x xs)
  obtain r bm1 d1 where s: "bm_step x (bm, d) = (r, bm1, d1)" by (metis prod_cases3)
  from bm_step_refines [OF Cons.prems(1) s] Cons.IH [of bm1 d1] Cons.prems(2) s show ?case
    by (auto split: prod.splits)
qed auto

section \<open>Properties\<close>

text \<open>C23: The block cache is transparent. Whatever sequence of block reads, block writes, file growth,
  syncs and cache invalidations is run from an empty cache, every call returns what the same calls
  return on the bare disk, and the disks end up the same.\<close>

theorem block_cache_transparent:
  "case run bm_step xs (NewBlockManager blockSize cacheMax, d) of
     (rs, _, d') \<Rightarrow> run (disk_step blockSize) xs d = (rs, d')"
proof -
  have "coherent (NewBlockManager blockSize cacheMax) d"
    by (simp add: coherent_def NewBlockManager_def NewLRU_inv)
  from bm_run_refines [OF this] show ?thesis
    by (cases "run bm_step xs (NewBlockManager blockSize cacheMax, d)") (auto simp: NewBlockManager_def)
qed

text \<open>After a successful block write, reading that block (through the cache or around it) returns what
  was written, and every other block that could be read before still reads the same.\<close>

theorem block_write_read:
  assumes "coherent bm d" "bm_Write bm d key v = Ok (bm', d')"
  shows "fst (bm_Read bm' d' key) = Ok v \<and> ReadNoCache bm' d' key = Ok v \<and>
    (\<forall>key' w. key' \<noteq> key \<longrightarrow> ReadNoCache bm d key' = Ok w \<longrightarrow> fst (bm_Read bm' d' key') = Ok w)"
  using bm_Write_coherent [OF assms] bm_Read_coherent(1) by metis

theorem block_write_read_witness:
  "\<exists>bm' d'. bm_Write (NewBlockManager 2 1) [''f'' \<mapsto> [7, 8, 9]] (NewBlockKey ''f'' 1) [1, 2] = Ok (bm', d') \<and>
     fst (bm_Read bm' d' (NewBlockKey ''f'' 1)) = Ok [1, 2] \<and>
     fst (bm_Read bm' d' (NewBlockKey ''f'' 0)) = Ok [7, 8]"
proof -
  let ?bm = "NewBlockManager 2 1" and ?d = "[''f'' \<mapsto> [7, 8, 9]] :: disk"
  have c: "coherent ?bm ?d" by (simp add: coherent_def NewBlockManager_def NewLRU_inv)
  obtain bm' d' where w: "bm_Write ?bm ?d (NewBlockKey ''f'' 1) [1, 2] = Ok (bm', d')"
    by (simp add: bm_Write_def NewBlockManager_def)
  have "ReadNoCache ?bm ?d (NewBlockKey ''f'' 0) = Ok [7, 8]"
    by (simp add: ReadNoCache_def NewBlockKey_def NewBlockManager_def block_off_def file_read_def)
  with block_write_read [OF c w] w show ?thesis by (auto simp: NewBlockKey_def)
qed

end
