(* ===== verification/Wal_Segment.thy ===== *)
theory Wal_Segment
  imports Wal_Record Block_Manager
begin

text \<open>
  \<^verbatim>\<open>internal/wal/block.go\<close> and \<^verbatim>\<open>internal/wal/segment.go\<close>: the in-memory block a segment appends to,
  the segment file of a fixed number of blocks, the writer that splits a record into fragments at
  block boundaries, and the readers.

  A segment operation is a function on the pair of the segment and the disk; its block manager is
  the argument \<open>bm\<close> (only the uncached calls are used). Block numbers are natural numbers: they
  stay below \<^verbatim>\<open>MaxBlocks\<close>, which the code converts to \<^verbatim>\<open>uint32\<close>. The \<^verbatim>\<open>nil\<close> checks on the receiver and
  on \<^verbatim>\<open>CurrentBlock\<close> have no counterpart, since no model value is absent.
\<close>

section \<open>Blocks\<close>

record Block =
  b_Data :: bytes
  b_Size :: nat
  b_WritePos :: nat

definition NewBlock :: "nat \<Rightarrow> Block" where
  "NewBlock n = \<lparr>b_Data = make_bytes n, b_Size = n, b_WritePos = 0\<rparr>"

definition Remaining :: "Block \<Rightarrow> int" where
  "Remaining b = int (b_Size b) - int (b_WritePos b)"

definition Block_IsFull :: "Block \<Rightarrow> bool" where
  "Block_IsFull b \<longleftrightarrow> b_Size b \<le> b_WritePos b"

definition CanFit :: "Block \<Rightarrow> int \<Rightarrow> bool" where
  "CanFit b n \<longleftrightarrow> n \<le> Remaining b"

definition Block_Write :: "Block \<Rightarrow> bytes \<Rightarrow> (nat \<times> Block) result" where
  "Block_Write b data =
     (if data = [] then Ok (0, b)
      else if Block_IsFull b then Inl (Error ''block is full'')
      else bind_r (copy_at (b_Data b) (b_WritePos b) data) (\<lambda>buf.
        let n = min (length (b_Data b) - b_WritePos b) (length data) in
        Ok (n, b\<lparr>b_Data := buf, b_WritePos := b_WritePos b + n\<rparr>)))"

definition Block_Reset :: "Block \<Rightarrow> Block" where
  "Block_Reset b = b\<lparr>b_Data := make_bytes (length (b_Data b)), b_WritePos := 0\<rparr>"

section \<open>Segments\<close>

record Segment =
  s_ID :: u64
  s_Path :: path
  s_BlockSize :: nat
  s_MaxBlocks :: nat
  s_CurrentBlockIndex :: nat
  s_CurrentBlock :: Block

type_synonym 'a seg_op = "(Segment \<times> disk, 'a) op"

definition ReadBlock :: "BlockManager \<Rightarrow> Segment \<Rightarrow> disk \<Rightarrow> nat \<Rightarrow> bytes result" where
  "ReadBlock bm s d index =
     (if s_MaxBlocks s \<le> index then Inl (Error ''block index out of range'')
      else ReadNoCache bm d (NewBlockKey (s_Path s) index))"

definition FlushCurrentBlock :: "BlockManager \<Rightarrow> unit seg_op" where
  "FlushCurrentBlock bm = (\<lambda>(s, d).
     (Ok (), s, WriteNoCache bm d (NewBlockKey (s_Path s) (s_CurrentBlockIndex s)) (b_Data (s_CurrentBlock s))))"

definition MoveToNextBlock :: "BlockManager \<Rightarrow> unit seg_op" where
  "MoveToNextBlock bm = (\<lambda>(s, d).
     if s_MaxBlocks s \<le> s_CurrentBlockIndex s + 1 then (Inl (Error ''segment is full''), s, d)
     else bind_s (FlushCurrentBlock bm) (\<lambda>_ (s, d).
       (Ok (), s\<lparr>s_CurrentBlockIndex := s_CurrentBlockIndex s + 1,
                 s_CurrentBlock := NewBlock (s_BlockSize s)\<rparr>, d)) (s, d))"

definition Segment_Sync :: "BlockManager \<Rightarrow> unit seg_op" where
  "Segment_Sync bm = bind_s (FlushCurrentBlock bm) (\<lambda>_ (s, d). (Ok (), s, SyncFile d (s_Path s)))"

definition Segment_IsFull :: "Segment \<Rightarrow> bool" where
  "Segment_IsFull s \<longleftrightarrow> int (s_CurrentBlockIndex s) = int (s_MaxBlocks s) - 1 \<and>
     Remaining (s_CurrentBlock s) < int (KEY_START + 1)"

subsection \<open>Appending\<close>

definition makeFragment :: "byte \<Rightarrow> WALRecord \<Rightarrow> bytes \<Rightarrow> int \<Rightarrow> int \<Rightarrow> WALRecord result" where
  "makeFragment fragType wr payload pValueStart payloadSpace =
     bind_r
       (if payloadSpace < pValueStart then
          bind_r (go_slice payload 0 payloadSpace) (\<lambda>key.
          Ok (key, [], word_of_int payloadSpace, 0))
        else if payloadSpace = pValueStart then
          bind_r (go_slice payload 0 pValueStart) (\<lambda>key.
          Ok (key, [], word_of_int pValueStart, 0))
        else
          bind_r (go_slice payload 0 pValueStart) (\<lambda>key.
          bind_r (go_slice payload pValueStart payloadSpace) (\<lambda>val.
          Ok (key, val, word_of_int pValueStart, word_of_int (payloadSpace - pValueStart)))))
     (\<lambda>(key, val, keySize, valueSize).
       Ok \<lparr>w_FragType = fragType, w_RecType = w_RecType wr, w_TxnID = w_TxnID wr,
          w_KeySize = keySize, w_ValueSize = valueSize,
          w_Record = \<lparr>r_ExpiresAt = r_ExpiresAt (w_Record wr), r_SeqId = r_SeqId (w_Record wr),
            r_OpType = r_OpType (w_Record wr), r_Key = key, r_Value = val\<rparr>\<rparr>)"

text \<open>\<^verbatim>\<open>Encode\<close> followed by \<^verbatim>\<open>CurrentBlock.Write\<close>.\<close>

definition write_fragment :: "WALRecord \<Rightarrow> unit seg_op" where
  "write_fragment frag = bind_s (lift_s (Encode frag)) (\<lambda>buf (s, d).
     case Block_Write (s_CurrentBlock s) buf of
       Inl e \<Rightarrow> (Inl e, s, d)
     | Inr (n, b) \<Rightarrow> (Ok (), s\<lparr>s_CurrentBlock := b\<rparr>, d))"

text \<open>The part shared by the FIRST and MIDDLE fragments: cut off what fits and write it.\<close>

definition cut_fragment :: "byte \<Rightarrow> WALRecord \<Rightarrow> bytes \<Rightarrow> int \<Rightarrow> (bytes \<times> int) seg_op" where
  "cut_fragment fragType wr payload pValueStart = (\<lambda>(s, d).
     let payloadSpace = Remaining (s_CurrentBlock s) - int KEY_START in
     bind_s (lift_s (makeFragment fragType wr payload pValueStart payloadSpace)) (\<lambda>frag.
     let pValueStart' = (if payloadSpace < pValueStart then pValueStart - payloadSpace else 0) in
     bind_s (lift_s (go_slice payload (min payloadSpace (int (length payload))) (int (length payload)))) (\<lambda>payload'.
     bind_s (write_fragment frag) (\<lambda>_. ret_s (payload', pValueStart')))) (s, d))"

lemma MoveToNextBlock_Inr:
  "MoveToNextBlock bm (s, d) = (Inr u, s', d') \<Longrightarrow>
   s_CurrentBlockIndex s' = s_CurrentBlockIndex s + 1 \<and> s_MaxBlocks s' = s_MaxBlocks s \<and>
   s_CurrentBlockIndex s + 1 < s_MaxBlocks s"
  by (auto simp: MoveToNextBlock_def FlushCurrentBlock_def split: if_splits)

lemma write_fragment_Inr:
  "write_fragment f (s, d) = (r, s', d') \<Longrightarrow>
   s_CurrentBlockIndex s' = s_CurrentBlockIndex s \<and> s_MaxBlocks s' = s_MaxBlocks s"
  by (auto simp: write_fragment_def bind_s_def split: sum.splits prod.splits)

lemma cut_fragment_Inr:
  "cut_fragment t wr payload p (s, d) = (Inr x, s', d') \<Longrightarrow>
   s_CurrentBlockIndex s' = s_CurrentBlockIndex s \<and> s_MaxBlocks s' = s_MaxBlocks s"
  by (auto simp: cut_fragment_def bind_s_eq_Inr Let_def dest: write_fragment_Inr)

function middle_loop :: "BlockManager \<Rightarrow> WALRecord \<Rightarrow> bytes \<Rightarrow> int \<Rightarrow> (bytes \<times> int) seg_op" where
  "middle_loop bm wr payload pValueStart st =
     (if payload = [] then ret_s (payload, pValueStart) st
      else bind_s (MoveToNextBlock bm) (\<lambda>_ (s, d).
        if int KEY_START + int (length payload) \<le> Remaining (s_CurrentBlock s)
        then ret_s (payload, pValueStart) (s, d)
        else bind_s (cut_fragment MIDDLE wr payload pValueStart)
          (\<lambda>rest st'. middle_loop bm wr (fst rest) (snd rest) st') (s, d)) st)"
  by pat_completeness auto
termination
  by (relation "measure (\<lambda>(bm, wr, payload, p, s, d). s_MaxBlocks s - s_CurrentBlockIndex s)")
    (auto dest!: MoveToNextBlock_Inr cut_fragment_Inr)

declare middle_loop.simps [simp del]

definition full_record :: "WALRecord \<Rightarrow> WALRecord" where
  "full_record wr = wr\<lparr>w_FragType := FULL, w_KeySize := of_nat (length (r_Key (w_Record wr))),
     w_ValueSize := of_nat (length (r_Value (w_Record wr)))\<rparr>"

function AppendWALRecord :: "BlockManager \<Rightarrow> WALRecord \<Rightarrow> unit seg_op" where
  "AppendWALRecord bm wr st =
     (let r = w_Record wr; headerSize = int KEY_START;
          totalSize = headerSize + int (length (r_Key r)) + int (length (r_Value r));
          remaining = Remaining (s_CurrentBlock (fst st)) in
      if totalSize \<le> remaining then write_fragment (full_record wr) st
      else if remaining \<le> headerSize then
        bind_s (MoveToNextBlock bm) (\<lambda>_ st'. AppendWALRecord bm wr st') st
      else
        let payload = r_Key r @ r_Value r in
        bind_s (cut_fragment FIRST wr payload (int (length (r_Key r)))) (\<lambda>(payload, pValueStart).
        bind_s (middle_loop bm wr payload pValueStart) (\<lambda>(payload, pValueStart).
        bind_s (lift_s (go_slice payload 0 pValueStart)) (\<lambda>key.
        bind_s (lift_s (go_slice payload pValueStart (int (length payload)))) (\<lambda>val.
        write_fragment \<lparr>w_FragType = LAST, w_RecType = w_RecType wr, w_TxnID = w_TxnID wr,
          w_KeySize = word_of_int pValueStart, w_ValueSize = word_of_int (int (length payload) - pValueStart),
          w_Record = \<lparr>r_ExpiresAt = r_ExpiresAt r, r_SeqId = r_SeqId r, r_OpType = r_OpType r,
            r_Key = key, r_Value = val\<rparr>\<rparr>)))) st)"
  by pat_completeness auto
termination
  by (relation "measure (\<lambda>(bm, wr, s, d). s_MaxBlocks s - s_CurrentBlockIndex s)")
    (auto dest!: MoveToNextBlock_Inr)

declare AppendWALRecord.simps [simp del]

definition Segment_Append :: "BlockManager \<Rightarrow> Record \<Rightarrow> u64 \<Rightarrow> unit seg_op" where
  "Segment_Append bm r sequenceID =
     (let r = r\<lparr>r_SeqId := sequenceID\<rparr> in
      AppendWALRecord bm \<lparr>w_FragType = FULL, w_RecType = SINGLE, w_TxnID = 0,
        w_KeySize = of_nat (length (r_Key r)), w_ValueSize = of_nat (length (r_Value r)), w_Record = r\<rparr>)"

subsection \<open>Reading\<close>

function read_blocks_loop :: "BlockManager \<Rightarrow> Segment \<Rightarrow> disk \<Rightarrow> nat \<Rightarrow> WALRecord list result" where
  "read_blocks_loop bm s d i =
     (if i < s_MaxBlocks s then
        bind_r (ReadBlock bm s d i) (\<lambda>blockData.
        bind_r (ReadBlockRecords blockData) (\<lambda>recs.
        if recs = [] then Ok []
        else bind_r (read_blocks_loop bm s d (i + 1)) (\<lambda>rest. Ok (recs @ rest))))
      else Ok [])"
  by pat_completeness auto
termination
  by (relation "measure (\<lambda>(bm, s, d, i). s_MaxBlocks s - i)") auto

declare read_blocks_loop.simps [simp del]

definition ReadAllRecordsFromBlock :: "BlockManager \<Rightarrow> Segment \<Rightarrow> disk \<Rightarrow> nat \<Rightarrow> WALRecord list result" where
  "ReadAllRecordsFromBlock bm s d fromBlock =
     (if s_MaxBlocks s \<le> fromBlock then Ok [] else read_blocks_loop bm s d fromBlock)"

definition ReadAllRecords :: "BlockManager \<Rightarrow> Segment \<Rightarrow> disk \<Rightarrow> WALRecord list result" where
  "ReadAllRecords bm s d = ReadAllRecordsFromBlock bm s d 0"

function find_seq_loop :: "BlockManager \<Rightarrow> Segment \<Rightarrow> disk \<Rightarrow> u64 \<Rightarrow> nat \<Rightarrow> nat option result" where
  "find_seq_loop bm s d sequenceID i =
     (if i < s_MaxBlocks s then
        bind_r (ReadBlock bm s d i) (\<lambda>blockData.
        bind_r (ReadBlockRecords blockData) (\<lambda>recs.
        if recs = [] then Ok None
        else if list_ex (\<lambda>rec. r_SeqId (w_Record rec) = sequenceID) recs then Ok (Some i)
        else find_seq_loop bm s d sequenceID (i + 1)))
      else Ok None)"
  by pat_completeness auto
termination
  by (relation "measure (\<lambda>(bm, s, d, q, i). s_MaxBlocks s - i)") auto

declare find_seq_loop.simps [simp del]

definition FindBlockBySeqID :: "BlockManager \<Rightarrow> Segment \<Rightarrow> disk \<Rightarrow> u64 \<Rightarrow> nat option result" where
  "FindBlockBySeqID bm s d sequenceID = find_seq_loop bm s d sequenceID 0"

subsection \<open>Opening\<close>

text \<open>The scan for the last block with data: its number and the end of its last record.\<close>

function open_scan :: "BlockManager \<Rightarrow> Segment \<Rightarrow> disk \<Rightarrow> nat \<Rightarrow> (nat \<times> nat) option \<Rightarrow> (nat \<times> nat) option result" where
  "open_scan bm s d i lastUsed =
     (if i < s_MaxBlocks s then
        bind_r (ReadBlock bm s d i) (\<lambda>blockData.
        bind_r (ScanBlock blockData) (\<lambda>(writePos, hasData).
        if \<not> hasData then Ok lastUsed
        else open_scan bm s d (i + 1) (Some (i, writePos))))
      else Ok lastUsed)"
  by pat_completeness auto
termination
  by (relation "measure (\<lambda>(bm, s, d, i, l). s_MaxBlocks s - i)") auto

declare open_scan.simps [simp del]

definition OpenSegment :: "u64 \<Rightarrow> path \<Rightarrow> nat \<Rightarrow> BlockManager \<Rightarrow> (disk, Segment) op" where
  "OpenSegment segID p maxBlocks bm d =
     (if p = [] then (Inl (Error ''path is empty''), d)
      else if maxBlocks = 0 then (Inl (Error ''maxBlocks must be >0''), d)
      else if bm_blockSize bm < KEY_START + 1 then
        (Inl (Error ''blockSize is smaller than minimum WAL fragment size''), d)
      else
        let fileExists = (d p \<noteq> None);
            s = \<lparr>s_ID = segID, s_Path = p, s_BlockSize = bm_blockSize bm, s_MaxBlocks = maxBlocks,
                 s_CurrentBlockIndex = 0, s_CurrentBlock = NewBlock (bm_blockSize bm)\<rparr>;
            d = EnsureSize d p (bm_blockSize bm * maxBlocks) in
        if fileExists then
          (bind_r (open_scan bm s d 0 None) (\<lambda>lastUsed.
           case lastUsed of
             None \<Rightarrow> Ok s
           | Some (lastUsedIndex, lastWritePos) \<Rightarrow>
               bind_r (ReadBlock bm s d lastUsedIndex) (\<lambda>blockData.
               Ok (s\<lparr>s_CurrentBlockIndex := lastUsedIndex,
                     s_CurrentBlock := \<lparr>b_Data = blockData, b_Size = bm_blockSize bm,
                       b_WritePos = lastWritePos\<rparr>\<rparr>))), d)
        else (Ok s, d))"

section \<open>What a segment holds\<close>

text \<open>
  The ghost view of a segment: the records of the completed blocks \<open>blks\<close>, which are on disk,
  and of the current block \<open>cur\<close>, which is in memory. Blocks behind the current one are zero.
\<close>

definition block_image :: "nat \<Rightarrow> WALRecord list \<Rightarrow> bytes" where
  "block_image n rs = wal_wires rs @ make_bytes (n - length (wal_wires rs))"

definition block_holds :: "nat \<Rightarrow> disk \<Rightarrow> path \<Rightarrow> nat \<Rightarrow> WALRecord list \<Rightarrow> bool" where
  "block_holds n d p i rs \<longleftrightarrow> disk_read n d p i = Some (block_image n rs) \<and> readable n rs"

definition seg_mem :: "BlockManager \<Rightarrow> Segment \<Rightarrow> nat \<Rightarrow> WALRecord list \<Rightarrow> bool" where
  "seg_mem bm s k cur \<longleftrightarrow>
     s_BlockSize s = bm_blockSize bm \<and> KEY_START < bm_blockSize bm \<and> bm_blockSize bm < max_alloc \<and>
     s_CurrentBlockIndex s = k \<and> k < s_MaxBlocks s \<and>
     b_Size (s_CurrentBlock s) = bm_blockSize bm \<and>
     b_WritePos (s_CurrentBlock s) = length (wal_wires cur) \<and>
     b_Data (s_CurrentBlock s) = block_image (bm_blockSize bm) cur \<and> readable (bm_blockSize bm) cur"

definition seg_disk :: "BlockManager \<Rightarrow> Segment \<Rightarrow> disk \<Rightarrow> WALRecord list list \<Rightarrow> bool" where
  "seg_disk bm s d blks \<longleftrightarrow> d (s_Path s) \<noteq> None \<and> (\<forall>b \<in> set blks. b \<noteq> []) \<and>
     (\<forall>i < length blks. block_holds (bm_blockSize bm) d (s_Path s) i (blks ! i)) \<and>
     (\<forall>i. length blks < i \<and> i < s_MaxBlocks s \<longrightarrow> block_holds (bm_blockSize bm) d (s_Path s) i [])"

definition seg_inv :: "BlockManager \<Rightarrow> Segment \<Rightarrow> disk \<Rightarrow> WALRecord list list \<Rightarrow> WALRecord list \<Rightarrow> bool" where
  "seg_inv bm s d blks cur \<longleftrightarrow> seg_mem bm s (length blks) cur \<and> seg_disk bm s d blks"

lemma Remaining_mem: "seg_mem bm s k cur \<Longrightarrow>
    Remaining (s_CurrentBlock s) = int (bm_blockSize bm) - int (length (wal_wires cur))"
  by (simp add: seg_mem_def Remaining_def)

lemma length_block_image: "length (wal_wires rs) \<le> n \<Longrightarrow> length (block_image n rs) = n"
  by (simp add: block_image_def)

lemma Block_Write_image:
  assumes "b_Data b = block_image n cur" "b_Size b = n" "b_WritePos b = length (wal_wires cur)"
    and fit: "length (wal_wires cur) + length (wal_wire f) \<le> n"
  shows "Block_Write b (wal_wire f) = Ok (length (wal_wire f),
    b\<lparr>b_Data := block_image n (cur @ [f]), b_WritePos := length (wal_wires (cur @ [f]))\<rparr>)"
proof -
  have "copy_at (block_image n cur) (length (wal_wires cur)) (wal_wire f) = Ok (block_image n (cur @ [f]))"
    using fit by (simp add: block_image_def copy_at_append)
  moreover have "wal_wire f \<noteq> []" using length_wal_wire [of f] by auto
  ultimately show ?thesis
    using assms length_wal_wire [of f] by (simp add: Block_Write_def Block_IsFull_def length_block_image Let_def)
qed

lemma write_fragment_inv:
  assumes inv: "seg_mem bm s k cur" and f: "wal_wf f"
    and fit: "int (KEY_START + payload_len f) \<le> Remaining (s_CurrentBlock s)"
    and vis: "0 < payload_len f \<or> int KEY_START < Remaining (s_CurrentBlock s)"
  obtains s' where "write_fragment f (s, d) = (Ok (), s', d)" "seg_mem bm s' k (cur @ [f])"
    "s_ID s' = s_ID s" "s_MaxBlocks s' = s_MaxBlocks s" "s_Path s' = s_Path s"
proof -
  have len: "length (wal_wires cur) + length (wal_wire f) \<le> bm_blockSize bm"
    using fit Remaining_mem [OF inv] by (simp add: length_wal_wire)
  let ?b = "(s_CurrentBlock s)\<lparr>b_Data := block_image (bm_blockSize bm) (cur @ [f]), b_WritePos := length (wal_wires (cur @ [f]))\<rparr>"
  have "Block_Write (s_CurrentBlock s) (wal_wire f) = Ok (length (wal_wire f), ?b)"
    by (rule Block_Write_image) (use inv len in \<open>auto simp: seg_mem_def\<close>)
  then have "write_fragment f (s, d) = (Ok (), s\<lparr>s_CurrentBlock := ?b\<rparr>, d)"
    by (simp add: write_fragment_def Encode_wire)
  moreover have "seg_mem bm (s\<lparr>s_CurrentBlock := ?b\<rparr>) k (cur @ [f])"
    using inv len f vis Remaining_mem [OF inv] by (auto simp: seg_mem_def readable_def length_wal_wire)
  ultimately show ?thesis using that by simp
qed

lemma seg_disk_cong: "s_MaxBlocks s' = s_MaxBlocks s \<Longrightarrow> s_Path s' = s_Path s \<Longrightarrow>
    seg_disk bm s' d blks = seg_disk bm s d blks"
  by (simp add: seg_disk_def)

lemma block_holds_write:
  "length b = n \<Longrightarrow> j \<noteq> i \<Longrightarrow> block_holds n d p j rs \<Longrightarrow> block_holds n (disk_write n d p i b) p j rs"
  using disk.read_write_other [of b n p j p i d] by (auto simp: block_holds_def)

lemma MoveToNextBlock_inv:
  assumes inv: "seg_inv bm s d blks cur" and cur: "cur \<noteq> []" and room: "length blks + 1 < s_MaxBlocks s"
  obtains s' d' where "MoveToNextBlock bm (s, d) = (Ok (), s', d')" "seg_inv bm s' d' (blks @ [cur]) []"
    "s_ID s' = s_ID s" "s_MaxBlocks s' = s_MaxBlocks s" "s_Path s' = s_Path s"
proof -
  let ?n = "bm_blockSize bm" and ?p = "s_Path s"
  define s' where "s' = s\<lparr>s_CurrentBlockIndex := length blks + 1, s_CurrentBlock := NewBlock ?n\<rparr>"
  define d' where "d' = disk_write ?n d ?p (length blks) (block_image ?n cur)"
  have mem: "s_CurrentBlockIndex s = length blks" "b_Data (s_CurrentBlock s) = block_image ?n cur"
      "s_BlockSize s = ?n" "length (wal_wires cur) \<le> ?n" "readable ?n cur" "KEY_START < ?n" "?n < max_alloc"
    using inv by (auto simp: seg_inv_def seg_mem_def readable_def)
  have "MoveToNextBlock bm (s, d) = (Ok (), s', d')"
    using room mem by (simp add: MoveToNextBlock_def FlushCurrentBlock_def WriteNoCache_disk NewBlockKey_def
        s'_def d'_def)
  moreover have "seg_mem bm s' (length blks + 1) []"
    using mem room by (simp add: seg_mem_def s'_def NewBlock_def block_image_def)
  moreover have "seg_disk bm s' d' (blks @ [cur])"
  proof -
    have len: "length (block_image ?n cur) = ?n" using mem by (simp add: length_block_image)
    have new: "block_holds ?n d' ?p (length blks) cur"
      using disk.read_write_same [OF len] mem by (simp add: block_holds_def d'_def)
    have old: "block_holds ?n d' ?p i rs" if "i \<noteq> length blks" "block_holds ?n d ?p i rs" for i rs
      unfolding d'_def using block_holds_write [OF len that] .
    have "d' ?p \<noteq> None" by (simp add: d'_def disk_write_def)
    then show ?thesis
      using inv new old cur by (auto simp: seg_inv_def seg_disk_def s'_def nth_append less_Suc_eq)
  qed
  ultimately show ?thesis using that by (auto simp: seg_inv_def s'_def)
qed

section \<open>Fragments\<close>

definition same_head :: "WALRecord \<Rightarrow> WALRecord \<Rightarrow> bool" where
  "same_head wr f \<longleftrightarrow> w_RecType f = w_RecType wr \<and> w_TxnID f = w_TxnID wr \<and>
     r_ExpiresAt (w_Record f) = r_ExpiresAt (w_Record wr) \<and> r_SeqId (w_Record f) = r_SeqId (w_Record wr) \<and>
     r_OpType (w_Record f) = r_OpType (w_Record wr)"

definition frag_keys :: "WALRecord list \<Rightarrow> bytes" where
  "frag_keys fs = concat (map (\<lambda>f. r_Key (w_Record f)) fs)"

definition frag_vals :: "WALRecord list \<Rightarrow> bytes" where
  "frag_vals fs = concat (map (\<lambda>f. r_Value (w_Record f)) fs)"

lemma frag_parts [simp]:
  "frag_keys [] = []" "frag_keys (f # fs) = r_Key (w_Record f) @ frag_keys fs"
  "frag_keys (fs @ gs) = frag_keys fs @ frag_keys gs"
  "frag_vals [] = []" "frag_vals (f # fs) = r_Value (w_Record f) @ frag_vals fs"
  "frag_vals (fs @ gs) = frag_vals fs @ frag_vals gs"
  by (simp_all add: frag_keys_def frag_vals_def)

definition frags_typed :: "byte \<Rightarrow> WALRecord \<Rightarrow> WALRecord list \<Rightarrow> bool" where
  "frags_typed t wr fs \<longleftrightarrow> list_all (\<lambda>f. w_FragType f = t \<and> same_head wr f) fs"

text \<open>
  A complete fragmentation of a record: the record itself, or a FIRST, any number of MIDDLE and a
  LAST fragment whose keys and values concatenate to the record's. An orphan lacks the LAST.
\<close>

definition is_fragments :: "WALRecord \<Rightarrow> WALRecord list \<Rightarrow> bool" where
  "is_fragments wr fs \<longleftrightarrow> fs = [full_record wr] \<or>
     (\<exists>f ms l. fs = f # ms @ [l] \<and> frags_typed FIRST wr [f] \<and> frags_typed MIDDLE wr ms \<and>
        frags_typed LAST wr [l] \<and> frag_keys fs = r_Key (w_Record wr) \<and> frag_vals fs = r_Value (w_Record wr))"

definition is_orphan :: "WALRecord \<Rightarrow> WALRecord list \<Rightarrow> bool" where
  "is_orphan wr fs \<longleftrightarrow> (\<exists>f ms. fs = f # ms \<and> frags_typed FIRST wr [f] \<and> frags_typed MIDDLE wr ms)"

definition mk_frag :: "byte \<Rightarrow> WALRecord \<Rightarrow> bytes \<Rightarrow> bytes \<Rightarrow> WALRecord" where
  "mk_frag t wr k v = \<lparr>w_FragType = t, w_RecType = w_RecType wr, w_TxnID = w_TxnID wr,
     w_KeySize = of_nat (length k), w_ValueSize = of_nat (length v),
     w_Record = \<lparr>r_ExpiresAt = r_ExpiresAt (w_Record wr), r_SeqId = r_SeqId (w_Record wr),
       r_OpType = r_OpType (w_Record wr), r_Key = k, r_Value = v\<rparr>\<rparr>"

lemma mk_frag_simps [simp]:
  "r_Key (w_Record (mk_frag t wr k v)) = k" "r_Value (w_Record (mk_frag t wr k v)) = v"
  "frags_typed t wr [mk_frag t wr k v]" "payload_len (mk_frag t wr k v) = length k + length v"
  by (simp_all add: mk_frag_def frags_typed_def same_head_def payload_len_def)

lemma mk_frag_wf:
  "t \<in> {FULL, FIRST, MIDDLE, LAST} \<Longrightarrow> wal_wf wr \<Longrightarrow>
   length k + length v \<le> payload_len wr \<Longrightarrow> wal_wf (mk_frag t wr k v)"
  by (auto simp: wal_wf_def mk_frag_def payload_len_def)

lemma makeFragment_split:
  assumes "m < length k + length v"
  shows "makeFragment t wr (k @ v) (int (length k)) (int m) = Ok (mk_frag t wr (take m k) (take (m - length k) v))"
  using assms
  by (auto simp: makeFragment_def go_slice_def mk_frag_def of_nat_diff Let_def min_def not_less
      simp flip: of_nat_diff)

lemma cut_fragment_inv:
  assumes inv: "seg_mem bm s b cur" and wf: "wal_wf wr" "length k + length v \<le> payload_len wr"
    and space: "int KEY_START < Remaining (s_CurrentBlock s)"
      "Remaining (s_CurrentBlock s) < int (KEY_START + length k + length v)"
    and t: "t \<in> {FULL, FIRST, MIDDLE, LAST}"
  obtains s' m where
    "cut_fragment t wr (k @ v) (int (length k)) (s, d) =
      (Ok (drop m k @ drop (m - length k) v, int (length (drop m k))), s', d)"
    "m < length k + length v" "Remaining (s_CurrentBlock s') = 0"
    "seg_mem bm s' b (cur @ [mk_frag t wr (take m k) (take (m - length k) v)])"
    "s_ID s' = s_ID s" "s_MaxBlocks s' = s_MaxBlocks s" "s_Path s' = s_Path s"
proof -
  define m where "m = nat (Remaining (s_CurrentBlock s) - int KEY_START)"
  have ps: "Remaining (s_CurrentBlock s) - int KEY_START = int m" and m: "0 < m" "m < length k + length v"
    using space by (auto simp: m_def)
  let ?f = "mk_frag t wr (take m k) (take (m - length k) v)"
  have pl: "payload_len ?f = m" using m by (auto simp: min_def)
  have vis: "wal_wf ?f"
    by (rule mk_frag_wf) (use t wf m pl in \<open>auto simp: min_def split: if_splits\<close>)
  have fit: "int (KEY_START + payload_len ?f) \<le> Remaining (s_CurrentBlock s)" unfolding pl using ps by linarith
  from write_fragment_inv [OF inv vis fit] m pl obtain s' where
    w: "write_fragment ?f (s, d) = (Ok (), s', d)" and inv': "seg_mem bm s' b (cur @ [?f])"
    and keep: "s_ID s' = s_ID s" "s_MaxBlocks s' = s_MaxBlocks s" "s_Path s' = s_Path s" by metis
  have rest: "go_slice (k @ v) (min (int m) (int (length (k @ v)))) (int (length (k @ v)))
      = Ok (drop m k @ drop (m - length k) v)"
    using m by (simp add: go_slice_def min_def)
  have pv: "(if int m < int (length k) then int (length k) - int m else 0) = int (length (drop m k))"
    by auto
  have "cut_fragment t wr (k @ v) (int (length k)) (s, d) =
      (Ok (drop m k @ drop (m - length k) v, int (length (drop m k))), s', d)"
    unfolding cut_fragment_def Let_def prod.case ps pv
    using makeFragment_split [OF m(2), of t wr] rest w by simp
  moreover have "Remaining (s_CurrentBlock s') = 0"
    using Remaining_mem [OF inv'] Remaining_mem [OF inv] pl ps by (simp add: length_wal_wire)
  ultimately show ?thesis using that m(2) inv' keep by blast
qed

text \<open>
  The contents a segment operation leaves behind: the log grew by \<open>fs\<close> and the segment's
  parameters are the same.
\<close>

definition grows :: "BlockManager \<Rightarrow> WALRecord list list \<Rightarrow> WALRecord list \<Rightarrow> Segment \<Rightarrow> WALRecord list \<Rightarrow> Segment \<Rightarrow> disk \<Rightarrow> bool" where
  "grows bm blks cur s fs s' d' \<longleftrightarrow> s_ID s' = s_ID s \<and> s_MaxBlocks s' = s_MaxBlocks s \<and> s_Path s' = s_Path s \<and>
     (\<exists>zs cur'. seg_inv bm s' d' (blks @ zs) cur' \<and> cur' \<noteq> [] \<and> concat zs @ cur' = cur @ fs)"

text \<open>A record that ran out of segment: the last block is used up.\<close>

definition ran_full :: "Segment \<Rightarrow> bool" where
  "ran_full s \<longleftrightarrow> s_CurrentBlockIndex s + 1 = s_MaxBlocks s \<and> Remaining (s_CurrentBlock s) \<le> int KEY_START"

lemma MoveToNextBlock_full:
  "s_MaxBlocks s \<le> s_CurrentBlockIndex s + 1 \<Longrightarrow> MoveToNextBlock bm (s, d) = (Inl (Error ''segment is full''), s, d)"
  by (simp add: MoveToNextBlock_def)

lemma growsI: "seg_inv bm s' d' (blks @ zs) cur' \<Longrightarrow> cur' \<noteq> [] \<Longrightarrow> concat zs @ cur' = cur @ fs \<Longrightarrow>
    s_ID s' = s_ID s \<Longrightarrow> s_MaxBlocks s' = s_MaxBlocks s \<Longrightarrow> s_Path s' = s_Path s \<Longrightarrow> grows bm blks cur s fs s' d'"
  unfolding grows_def by blast

lemma middle_loop_inv:
  assumes "seg_inv bm s d blks cur" "cur \<noteq> []" "wal_wf wr" "length k + length v \<le> payload_len wr"
    and "k @ v \<noteq> []" "Remaining (s_CurrentBlock s) = 0"
  shows "(\<exists>k' v' fs s' d' zs cur'.
      middle_loop bm wr (k @ v) (int (length k)) (s, d) = (Ok (k' @ v', int (length k')), s', d') \<and>
      seg_inv bm s' d' (blks @ zs) cur' \<and> concat zs @ cur' = cur @ fs \<and>
      s_ID s' = s_ID s \<and> s_MaxBlocks s' = s_MaxBlocks s \<and> s_Path s' = s_Path s \<and>
      frags_typed MIDDLE wr fs \<and> k = frag_keys fs @ k' \<and> v = frag_vals fs @ v' \<and> k' @ v' \<noteq> [] \<and>
      int (KEY_START + length k' + length v') \<le> Remaining (s_CurrentBlock s')) \<or>
    (\<exists>fs s' d'. middle_loop bm wr (k @ v) (int (length k)) (s, d) = (Inl (Error ''segment is full''), s', d') \<and>
      grows bm blks cur s fs s' d' \<and> frags_typed MIDDLE wr fs \<and> ran_full s')"
  using assms
proof (induction "s_MaxBlocks s - length blks" arbitrary: s d blks cur k v rule: less_induct)
  case less
  note inv = less.prems(1)
  have idx: "s_CurrentBlockIndex s = length blks" "length blks < s_MaxBlocks s"
    and size: "KEY_START < bm_blockSize bm" using inv by (auto simp: seg_inv_def seg_mem_def)
  note unf = middle_loop.simps [of bm wr "k @ v" "int (length k)" "(s, d)"]
  show ?case
  proof (cases "length blks + 1 < s_MaxBlocks s")
    case False
    then have "MoveToNextBlock bm (s, d) = (Inl (Error ''segment is full''), s, d)"
      using idx by (intro MoveToNextBlock_full) simp
    then have "middle_loop bm wr (k @ v) (int (length k)) (s, d) = (Inl (Error ''segment is full''), s, d)"
      using less.prems(5) by (subst unf) (simp del: append_is_Nil_conv)
    moreover have "grows bm blks cur s [] s d" using inv less.prems(2) by (auto intro!: growsI [of _ _ _ _ "[]"])
    moreover have "ran_full s" using False idx less.prems(6) by (simp add: ran_full_def)
    ultimately show ?thesis by (intro disjI2) (fastforce simp: frags_typed_def)
  next
    case True
    obtain s1 d1 where mv: "MoveToNextBlock bm (s, d) = (Ok (), s1, d1)"
      and inv1: "seg_inv bm s1 d1 (blks @ [cur]) []"
      and keep1: "s_ID s1 = s_ID s" "s_MaxBlocks s1 = s_MaxBlocks s" "s_Path s1 = s_Path s"
      using MoveToNextBlock_inv [OF inv less.prems(2) True] by metis
    have rem1: "Remaining (s_CurrentBlock s1) = int (bm_blockSize bm)"
      using inv1 Remaining_mem [of bm s1 "length (blks @ [cur])" "[]"] by (simp add: seg_inv_def)
    show ?thesis
    proof (cases "int (KEY_START + length k + length v) \<le> Remaining (s_CurrentBlock s1)")
      case fits: True
      then have "middle_loop bm wr (k @ v) (int (length k)) (s, d) = (Ok (k @ v, int (length k)), s1, d1)"
        using less.prems(5) mv by (subst unf) (simp del: append_is_Nil_conv)
      then show ?thesis
        using inv1 keep1 fits less.prems(5)
        by (intro disjI1 exI [of _ k] exI [of _ v] exI [of _ "[]"] exI [of _ s1] exI [of _ d1]
            exI [of _ "[cur]"] exI [of _ "[]"]) (simp add: frags_typed_def)
    next
      case nofit: False
      have mem1: "seg_mem bm s1 (length (blks @ [cur])) []" and disk1: "seg_disk bm s1 d1 (blks @ [cur])"
        using inv1 by (auto simp: seg_inv_def)
      have sp: "int KEY_START < Remaining (s_CurrentBlock s1)"
          "Remaining (s_CurrentBlock s1) < int (KEY_START + length k + length v)"
        using size rem1 nofit by auto
      obtain s2 m where cut: "cut_fragment MIDDLE wr (k @ v) (int (length k)) (s1, d1) =
          (Ok (drop m k @ drop (m - length k) v, int (length (drop m k))), s2, d1)"
        and m: "m < length k + length v" and rem2: "Remaining (s_CurrentBlock s2) = 0"
        and mem2: "seg_mem bm s2 (length (blks @ [cur])) ([] @ [mk_frag MIDDLE wr (take m k) (take (m - length k) v)])"
        and keep2: "s_ID s2 = s_ID s1" "s_MaxBlocks s2 = s_MaxBlocks s1" "s_Path s2 = s_Path s1"
        using cut_fragment_inv [OF mem1 less.prems(3,4) sp, of MIDDLE d1] by (metis insertCI)
      let ?f = "mk_frag MIDDLE wr (take m k) (take (m - length k) v)"
      let ?k = "drop m k" and ?v = "drop (m - length k) v"
      have step: "middle_loop bm wr (k @ v) (int (length k)) (s, d) = middle_loop bm wr (?k @ ?v) (int (length ?k)) (s2, d1)"
        using less.prems(5) mv cut nofit by (subst unf) (simp del: append_is_Nil_conv)
      have inv2: "seg_inv bm s2 d1 (blks @ [cur]) [?f]"
        using mem2 disk1 seg_disk_cong [OF keep2(2,3)] by (simp add: seg_inv_def)
      have ne: "?k @ ?v \<noteq> []" "length ?k + length ?v \<le> payload_len wr" using m less.prems(4) by auto
      have less': "s_MaxBlocks s2 - length (blks @ [cur]) < s_MaxBlocks s - length blks"
        using keep1 keep2 True by simp
      have ft: "frags_typed MIDDLE wr (?f # fs)" if "frags_typed MIDDLE wr fs" for fs
        using that mk_frag_simps(3) [of MIDDLE wr] by (simp add: frags_typed_def)
      have ne': "[?f] \<noteq> []" by simp
      from less.hyps [OF less' inv2 ne' less.prems(3) ne(2) ne(1) rem2]
      show ?thesis
      proof (elim disjE exE conjE, goal_cases)
        case (1 k' v' fs s' d' zs cur')
        have "k = frag_keys (?f # fs) @ k'" using 1(8) append_take_drop_id [of m k] by simp
        moreover have "v = frag_vals (?f # fs) @ v'" using 1(9) append_take_drop_id [of "m - length k" v] by simp
        ultimately show ?case using 1 step ft [of fs] keep1 keep2
          by (intro disjI1 exI [of _ k'] exI [of _ v'] exI [of _ "?f # fs"] exI [of _ s'] exI [of _ d']
              exI [of _ "cur # zs"] exI [of _ cur']) simp
      next
        case (2 fs s' d')
        from 2(2) obtain zs cur' where "seg_inv bm s' d' ((blks @ [cur]) @ zs) cur'" "cur' \<noteq> []"
            "concat zs @ cur' = [?f] @ fs" and "s_ID s' = s_ID s2" "s_MaxBlocks s' = s_MaxBlocks s2" "s_Path s' = s_Path s2"
          by (auto simp: grows_def)
        then have "grows bm blks cur s (?f # fs) s' d'"
          using keep1 keep2 by (auto intro!: growsI [of _ _ _ _ "cur # zs" cur'])
        then show ?case using 2 step ft [of fs]
          by (intro disjI2 exI [of _ "?f # fs"] exI [of _ s'] exI [of _ d']) simp
      qed
    qed
  qed
qed

lemma full_record_mk_frag: "full_record wr = mk_frag FULL wr (r_Key (w_Record wr)) (r_Value (w_Record wr))"
  by (cases wr) (simp add: full_record_def mk_frag_def)

text \<open>An append that needs more than the current block: FIRST, then the loop, then LAST.\<close>

lemma Append_fragmented:
  assumes inv: "seg_inv bm s d blks cur" and wf: "wal_wf wr"
    and sp: "int KEY_START < Remaining (s_CurrentBlock s)"
      "Remaining (s_CurrentBlock s) < int (KEY_START + payload_len wr)"
  shows "\<exists>s' d' fs. grows bm blks cur s fs s' d' \<and>
    (AppendWALRecord bm wr (s, d) = (Ok (), s', d') \<and> is_fragments wr fs \<or>
     AppendWALRecord bm wr (s, d) = (Inl (Error ''segment is full''), s', d') \<and> is_orphan wr fs \<and> ran_full s')"
proof -
  let ?k = "r_Key (w_Record wr)" and ?v = "r_Value (w_Record wr)"
  have mem: "seg_mem bm s (length blks) cur" and dsk: "seg_disk bm s d blks" using inv by (auto simp: seg_inv_def)
  have pl: "length ?k + length ?v \<le> payload_len wr" by (simp add: payload_len_def)
  have sp2: "Remaining (s_CurrentBlock s) < int (KEY_START + length ?k + length ?v)"
    using sp(2) by (simp add: payload_len_def)
  obtain s1 m where cut: "cut_fragment FIRST wr (?k @ ?v) (int (length ?k)) (s, d) =
      (Ok (drop m ?k @ drop (m - length ?k) ?v, int (length (drop m ?k))), s1, d)"
    and m: "m < length ?k + length ?v" and rem1: "Remaining (s_CurrentBlock s1) = 0"
    and mem1: "seg_mem bm s1 (length blks) (cur @ [mk_frag FIRST wr (take m ?k) (take (m - length ?k) ?v)])"
    and keep1: "s_ID s1 = s_ID s" "s_MaxBlocks s1 = s_MaxBlocks s" "s_Path s1 = s_Path s"
    using cut_fragment_inv [OF mem wf pl sp(1) sp2, of FIRST d] by (metis insertCI)
  let ?f = "mk_frag FIRST wr (take m ?k) (take (m - length ?k) ?v)"
  let ?k1 = "drop m ?k" and ?v1 = "drop (m - length ?k) ?v"
  have inv1: "seg_inv bm s1 d blks (cur @ [?f])"
    using mem1 dsk seg_disk_cong [OF keep1(2,3)] by (simp add: seg_inv_def)
  have ne: "?k1 @ ?v1 \<noteq> []" "length ?k1 + length ?v1 \<le> payload_len wr" using m pl by auto
  have nofull: "\<not> int KEY_START + int (length ?k) + int (length ?v) \<le> Remaining (s_CurrentBlock (fst (s, d)))"
      "\<not> Remaining (s_CurrentBlock (fst (s, d))) \<le> int KEY_START"
    using sp sp2 by auto
  define fin where "fin = (\<lambda>(payload, pValueStart).
        bind_s (lift_s (go_slice payload 0 pValueStart)) (\<lambda>key.
        bind_s (lift_s (go_slice payload pValueStart (int (length payload)))) (\<lambda>val.
        write_fragment \<lparr>w_FragType = LAST, w_RecType = w_RecType wr, w_TxnID = w_TxnID wr,
          w_KeySize = word_of_int pValueStart, w_ValueSize = word_of_int (int (length payload) - pValueStart),
          w_Record = \<lparr>r_ExpiresAt = r_ExpiresAt (w_Record wr), r_SeqId = r_SeqId (w_Record wr),
            r_OpType = r_OpType (w_Record wr), r_Key = key, r_Value = val\<rparr>\<rparr>)) :: unit seg_op)"
  have app: "AppendWALRecord bm wr (s, d) = bind_s (middle_loop bm wr (?k1 @ ?v1) (int (length ?k1))) fin (s1, d)"
    using cut unfolding fin_def by (subst AppendWALRecord.simps) (simp only: Let_def nofull if_False bind_s_Inr prod.case)
  have fin: "fin (k' @ v', int (length k')) st = write_fragment (mk_frag LAST wr k' v') st" for k' v' st
    by (simp add: fin_def go_slice_def mk_frag_def)
  have cur1: "cur @ [?f] \<noteq> []" by simp
  from middle_loop_inv [OF inv1 cur1 wf ne(2) ne(1) rem1] show ?thesis
  proof (elim disjE exE conjE, goal_cases)
    case (1 k' v' fs s' d' zs cur')
    let ?l = "mk_frag LAST wr k' v'"
    have len: "length k' + length v' \<le> payload_len wr"
      using arg_cong [OF 1(8), of length] arg_cong [OF 1(9), of length] ne(2) by simp
    have vis: "wal_wf ?l" by (rule mk_frag_wf) (use wf len in auto)
    have pos: "0 < payload_len ?l" using 1(10) by auto
    have mem': "seg_mem bm s' (length (blks @ zs)) cur'" using 1(2) by (simp add: seg_inv_def)
    have fit: "int (KEY_START + payload_len ?l) \<le> Remaining (s_CurrentBlock s')" using 1(11) by simp
    obtain s'' where w: "write_fragment ?l (s', d') = (Ok (), s'', d')"
      and mem'': "seg_mem bm s'' (length (blks @ zs)) (cur' @ [?l])"
      and keep: "s_ID s'' = s_ID s'" "s_MaxBlocks s'' = s_MaxBlocks s'" "s_Path s'' = s_Path s'"
      using write_fragment_inv [OF mem' vis fit, of d'] pos by metis
    have "seg_inv bm s'' d' (blks @ zs) (cur' @ [?l])"
      using mem'' 1(2) seg_disk_cong [OF keep(2,3)] by (simp add: seg_inv_def)
    then have g: "grows bm blks cur s (?f # fs @ [?l]) s'' d'"
      by (rule growsI) (use 1(3-6) keep keep1 in \<open>simp_all flip: append_assoc\<close>)
    have "?k = frag_keys (?f # fs @ [?l])" using 1(8) by (simp, metis append_take_drop_id)
    moreover have "?v = frag_vals (?f # fs @ [?l])" using 1(9) by (simp, metis append_take_drop_id)
    ultimately have "is_fragments wr (?f # fs @ [?l])"
      using 1(7) mk_frag_simps(3) unfolding is_fragments_def by (metis mk_frag_simps(3))
    moreover have "AppendWALRecord bm wr (s, d) = (Ok (), s'', d')" using app 1(1) fin w by simp
    ultimately show ?case using g by blast
  next
    case (2 fs s' d')
    have "is_orphan wr (?f # fs)" using 2(3) mk_frag_simps(3) unfolding is_orphan_def by blast
    moreover have "grows bm blks cur s (?f # fs) s' d'"
      using 2(2) keep1 by (simp add: grows_def)
    moreover have "AppendWALRecord bm wr (s, d) = (Inl (Error ''segment is full''), s', d')" using app 2(1) by simp
    ultimately show ?case using 2(4) by blast
  qed
qed

text \<open>An append into a block that has room for at least one byte of payload.\<close>

lemma Append_in_block:
  assumes inv: "seg_inv bm s d blks cur" and wf: "wal_wf wr"
    and sp: "int KEY_START < Remaining (s_CurrentBlock s)"
  shows "\<exists>s' d' fs. grows bm blks cur s fs s' d' \<and>
    (AppendWALRecord bm wr (s, d) = (Ok (), s', d') \<and> is_fragments wr fs \<or>
     AppendWALRecord bm wr (s, d) = (Inl (Error ''segment is full''), s', d') \<and> is_orphan wr fs \<and> ran_full s')"
proof (cases "int (KEY_START + payload_len wr) \<le> Remaining (s_CurrentBlock s)")
  case True
  let ?k = "r_Key (w_Record wr)" and ?v = "r_Value (w_Record wr)"
  have mem: "seg_mem bm s (length blks) cur" and dsk: "seg_disk bm s d blks" using inv by (auto simp: seg_inv_def)
  have vis: "wal_wf (full_record wr)" and pl: "payload_len (full_record wr) = payload_len wr"
    using wf unfolding full_record_mk_frag by (intro mk_frag_wf) (auto simp: payload_len_def)
  obtain s' where w: "write_fragment (full_record wr) (s, d) = (Ok (), s', d)"
    and mem': "seg_mem bm s' (length blks) (cur @ [full_record wr])"
    and keep: "s_ID s' = s_ID s" "s_MaxBlocks s' = s_MaxBlocks s" "s_Path s' = s_Path s"
    using write_fragment_inv [OF mem vis, of d] True pl sp by metis
  have "seg_inv bm s' d blks (cur @ [full_record wr])"
    using mem' dsk seg_disk_cong [OF keep(2,3)] by (simp add: seg_inv_def)
  then have "grows bm blks cur s [full_record wr] s' d"
    using keep by (auto intro!: growsI [of _ _ _ _ "[]"])
  moreover have "int KEY_START + int (length ?k) + int (length ?v) \<le> Remaining (s_CurrentBlock (fst (s, d)))"
    using True by (simp add: payload_len_def)
  then have "AppendWALRecord bm wr (s, d) = (Ok (), s', d)"
    using w by (subst AppendWALRecord.simps) (simp only: Let_def if_True)
  ultimately show ?thesis by (auto simp: is_fragments_def)
next
  case False
  then show ?thesis using Append_fragmented [OF inv wf sp] by simp
qed

lemma seg_cur_nonempty:
  "seg_inv bm s d blks cur \<Longrightarrow> Remaining (s_CurrentBlock s) \<le> int KEY_START \<Longrightarrow> cur \<noteq> []"
  using Remaining_mem [of bm s "length blks" cur] by (auto simp: seg_inv_def seg_mem_def)

text \<open>
  A record the segment can take: a payload, or a current block that does not end exactly behind a
  bare header (there the record would be written where the scanners do not look).
\<close>

definition appendable :: "WALRecord \<Rightarrow> Segment \<Rightarrow> bool" where
  "appendable wr s \<longleftrightarrow> wal_wf wr \<and> (0 < payload_len wr \<or> Remaining (s_CurrentBlock s) \<noteq> int KEY_START)"

lemma AppendWALRecord_inv:
  assumes inv: "seg_inv bm s d blks cur" and ok: "appendable wr s"
  shows "(\<exists>s' d' fs. \<not> ran_full s \<and> grows bm blks cur s fs s' d' \<and>
      (AppendWALRecord bm wr (s, d) = (Ok (), s', d') \<and> is_fragments wr fs \<or>
       AppendWALRecord bm wr (s, d) = (Inl (Error ''segment is full''), s', d') \<and> is_orphan wr fs \<and> ran_full s')) \<or>
    AppendWALRecord bm wr (s, d) = (Inl (Error ''segment is full''), s, d) \<and> ran_full s"
proof (cases "int KEY_START < Remaining (s_CurrentBlock s)")
  case True
  have wf: "wal_wf wr" using ok by (simp add: appendable_def)
  have "\<not> ran_full s" using True by (simp add: ran_full_def)
  then show ?thesis using True Append_in_block [OF inv wf] by blast
next
  case False
  let ?k = "r_Key (w_Record wr)" and ?v = "r_Value (w_Record wr)"
  have cur: "cur \<noteq> []" using seg_cur_nonempty [OF inv] False by simp
  have idx: "s_CurrentBlockIndex s = length blks" "length blks < s_MaxBlocks s" "KEY_START < bm_blockSize bm"
    using inv by (auto simp: seg_inv_def seg_mem_def)
  have wf: "wal_wf wr" and pos: "0 < int (length ?k) + int (length ?v) \<or> Remaining (s_CurrentBlock s) \<noteq> int KEY_START"
    using ok unfolding appendable_def payload_len_def by (simp, linarith)
  have c: "\<not> int KEY_START + int (length ?k) + int (length ?v) \<le> Remaining (s_CurrentBlock (fst (s, d)))"
      "Remaining (s_CurrentBlock (fst (s, d))) \<le> int KEY_START"
    using False pos unfolding fst_conv by linarith+
  have app: "AppendWALRecord bm wr (s, d) = bind_s (MoveToNextBlock bm) (\<lambda>_ st'. AppendWALRecord bm wr st') (s, d)"
    by (subst AppendWALRecord.simps) (simp only: Let_def c if_True if_False)
  show ?thesis
  proof (cases "length blks + 1 < s_MaxBlocks s")
    case room: True
    obtain s1 d1 where mv: "MoveToNextBlock bm (s, d) = (Ok (), s1, d1)"
      and inv1: "seg_inv bm s1 d1 (blks @ [cur]) []"
      and keep1: "s_ID s1 = s_ID s" "s_MaxBlocks s1 = s_MaxBlocks s" "s_Path s1 = s_Path s"
      using MoveToNextBlock_inv [OF inv cur room] by metis
    have "Remaining (s_CurrentBlock s1) = int (bm_blockSize bm)"
      using inv1 Remaining_mem [of bm s1 "length (blks @ [cur])" "[]"] by (simp add: seg_inv_def)
    then have "int KEY_START < Remaining (s_CurrentBlock s1)" using idx by simp
    from Append_in_block [OF inv1 wf this] obtain s' d' fs where
      g: "grows bm (blks @ [cur]) [] s1 fs s' d'" and
      r: "AppendWALRecord bm wr (s1, d1) = (Ok (), s', d') \<and> is_fragments wr fs \<or>
       AppendWALRecord bm wr (s1, d1) = (Inl (Error ''segment is full''), s', d') \<and> is_orphan wr fs \<and> ran_full s'"
      by blast
    from g obtain zs cur' where "seg_inv bm s' d' ((blks @ [cur]) @ zs) cur'" "cur' \<noteq> []" "concat zs @ cur' = fs"
      by (auto simp: grows_def)
    then have "grows bm blks cur s fs s' d'"
      using g keep1 by (auto simp: grows_def intro!: exI [of _ "cur # zs"] exI [of _ cur'])
    moreover have "\<not> ran_full s" using room idx by (simp add: ran_full_def)
    ultimately show ?thesis using app mv r by auto
  next
    case full: False
    then have "MoveToNextBlock bm (s, d) = (Inl (Error ''segment is full''), s, d)"
      using idx by (intro MoveToNextBlock_full) simp
    then show ?thesis using app full idx False by (simp add: ran_full_def)
  qed
qed

section \<open>Reading back\<close>

text \<open>
  The state of a segment file between operations: every block holds its list of records, the
  used blocks come first and none of them is empty.
\<close>

definition file_log :: "BlockManager \<Rightarrow> nat \<Rightarrow> path \<Rightarrow> disk \<Rightarrow> WALRecord list list \<Rightarrow> bool" where
  "file_log bm maxBlocks p d blks \<longleftrightarrow> d p \<noteq> None \<and> length blks \<le> maxBlocks \<and> (\<forall>b \<in> set blks. b \<noteq> []) \<and>
     KEY_START < bm_blockSize bm \<and> bm_blockSize bm < max_alloc \<and>
     (\<forall>i < maxBlocks. block_holds (bm_blockSize bm) d p i (if i < length blks then blks ! i else []))"

lemma scan_block_loop_wires:
  "readable (length (wal_wires rs) + z) rs \<Longrightarrow> length (pre @ wal_wires rs @ make_bytes z) < max_alloc \<Longrightarrow> q = length pre \<Longrightarrow>
   scan_block_loop (pre @ wal_wires rs @ make_bytes z) q b = Ok (q + length (wal_wires rs), b \<or> rs \<noteq> [])"
proof (induction rs arbitrary: pre q b)
  case Nil
  then show ?case by (subst scan_block_loop.simps) (simp add: scan_step_zeros)
next
  case (Cons r rs)
  note hd = readable_Cons [OF Cons.prems(1)]
  have step: "scan_step (pre @ wal_wires (r # rs) @ make_bytes z) q = Ok (Some (r, q + length (wal_wire r)))"
    using Cons.prems hd scan_step_wire [of r pre "wal_wires rs @ make_bytes z"] by simp
  have IH: "scan_block_loop (pre @ wal_wires (r # rs) @ make_bytes z) (q + length (wal_wire r)) True
      = Ok (q + length (wal_wires (r # rs)), True)"
    using Cons.IH [of "pre @ wal_wire r" "q + length (wal_wire r)" True] Cons.prems hd by (simp add: add.assoc)
  have "rs = []" if "q + length (wal_wire r) = length (pre @ wal_wires (r # rs) @ make_bytes z)"
    using that Cons.prems by (cases rs) (simp_all add: length_wal_wire)
  then show ?case
    by (subst scan_block_loop.simps) (simp only: step IH bind_r_simps option.case prod.case, auto)
qed

lemma ScanBlock_image:
  "readable n rs \<Longrightarrow> n < max_alloc \<Longrightarrow>
   ScanBlock (block_image n rs) = Ok (length (wal_wires rs), rs \<noteq> [])"
  using scan_block_loop_wires [where rs = rs and pre = "[]" and z = "n - length (wal_wires rs)" and q = 0 and b = False]
  by (simp add: ScanBlock_def block_image_def readable_def)

lemma ReadBlockRecords_image:
  "readable n rs \<Longrightarrow> n < max_alloc \<Longrightarrow>
   ReadBlockRecords (block_image n rs) = Ok rs"
  using ReadBlockRecords_wires [of rs "n - length (wal_wires rs)"] by (simp add: block_image_def readable_def)

lemma ReadBlock_holds:
  "block_holds (bm_blockSize bm) d (s_Path s) i rs \<Longrightarrow> i < s_MaxBlocks s \<Longrightarrow>
   ReadBlock bm s d i = Ok (block_image (bm_blockSize bm) rs)"
  by (simp add: ReadBlock_def ReadNoCache_disk NewBlockKey_def block_holds_def)

lemma file_log_block:
  assumes "file_log bm (s_MaxBlocks s) (s_Path s) d blks" "i < s_MaxBlocks s"
  shows "ReadBlock bm s d i = Ok (block_image (bm_blockSize bm) (if i < length blks then blks ! i else []))"
    "ReadBlockRecords (block_image (bm_blockSize bm) (if i < length blks then blks ! i else []))
      = Ok (if i < length blks then blks ! i else [])"
    "ScanBlock (block_image (bm_blockSize bm) (if i < length blks then blks ! i else []))
      = Ok (length (wal_wires (if i < length blks then blks ! i else [])), i < length blks)"
proof -
  let ?rs = "if i < length blks then blks ! i else []"
  have h: "block_holds (bm_blockSize bm) d (s_Path s) i ?rs" using assms unfolding file_log_def by blast
  then have v: "readable (bm_blockSize bm) ?rs" "bm_blockSize bm < max_alloc"
    using assms(1) by (auto simp: block_holds_def file_log_def)
  show "ReadBlock bm s d i = Ok (block_image (bm_blockSize bm) ?rs)" using ReadBlock_holds [OF h assms(2)] .
  show "ReadBlockRecords (block_image (bm_blockSize bm) ?rs) = Ok ?rs" using ReadBlockRecords_image [OF v] .
  have "?rs \<noteq> [] \<longleftrightarrow> i < length blks" using assms(1) by (auto simp: file_log_def)
  then show "ScanBlock (block_image (bm_blockSize bm) ?rs) = Ok (length (wal_wires ?rs), i < length blks)"
    using ScanBlock_image [OF v] by simp
qed

lemma read_blocks_loop_log:
  assumes "file_log bm (s_MaxBlocks s) (s_Path s) d blks"
  shows "read_blocks_loop bm s d i = Ok (concat (drop i blks))"
  using assms
proof (induction bm s d i rule: read_blocks_loop.induct)
  case (1 bm s d i)
  note blk = file_log_block [OF "1.prems"]
  have ne: "i < length blks \<Longrightarrow> blks ! i \<noteq> []" and len: "length blks \<le> s_MaxBlocks s"
    using "1.prems" by (auto simp: file_log_def)
  consider "s_MaxBlocks s \<le> i" | "i < s_MaxBlocks s" "length blks \<le> i" | "i < s_MaxBlocks s" "i < length blks"
    by linarith
  then show ?case
  proof cases
    case 1
    then show ?thesis using len by (subst read_blocks_loop.simps) simp
  next
    case 2
    then show ?thesis using blk [OF 2(1)] by (subst read_blocks_loop.simps) simp
  next
    case 3
    have "read_blocks_loop bm s d (i + 1) = Ok (concat (drop (i + 1) blks))"
      using "1.IH" [OF 3(1) blk(1) [OF 3(1)] blk(2) [OF 3(1)]] "1.prems" ne 3 by simp
    then show ?thesis using blk [OF 3(1)] ne 3
      by (subst read_blocks_loop.simps) (simp add: Cons_nth_drop_Suc [symmetric])
  qed
qed

lemma ReadAllRecordsFromBlock_log:
  "file_log bm (s_MaxBlocks s) (s_Path s) d blks \<Longrightarrow>
   ReadAllRecordsFromBlock bm s d i = Ok (concat (drop i blks))"
  using read_blocks_loop_log by (auto simp: ReadAllRecordsFromBlock_def file_log_def)

lemma open_scan_log:
  assumes "file_log bm (s_MaxBlocks s) (s_Path s) d blks"
  shows "open_scan bm s d i l =
    Ok (if i < length blks then Some (length blks - 1, length (wal_wires (last blks))) else l)"
  using assms
proof (induction bm s d i l rule: open_scan.induct)
  case (1 bm s d i l)
  note blk = file_log_block [OF "1.prems"]
  have len: "length blks \<le> s_MaxBlocks s" using "1.prems" by (auto simp: file_log_def)
  consider "s_MaxBlocks s \<le> i" | "i < s_MaxBlocks s" "length blks \<le> i" | "i < s_MaxBlocks s" "i < length blks"
    by linarith
  then show ?case
  proof cases
    case 1
    then show ?thesis using len by (subst open_scan.simps) simp
  next
    case 2
    then show ?thesis using blk [OF 2(1)] by (subst open_scan.simps) simp
  next
    case 3
    let ?w = "length (wal_wires (blks ! i))"
    have IH: "open_scan bm s d (i + 1) (Some (i, ?w)) = Ok (if i + 1 < length blks then Some (length blks - 1, length (wal_wires (last blks))) else Some (i, ?w))"
      using "1.IH" [OF 3(1) blk(1) [OF 3(1)] blk(3) [OF 3(1)]] "1.prems" 3 by simp
    have "last blks = blks ! i \<and> i = length blks - 1" if "\<not> i + 1 < length blks"
    proof -
      have "i = length blks - 1" "blks \<noteq> []" using that 3 by auto
      then show ?thesis by (simp add: last_conv_nth)
    qed
    moreover have "open_scan bm s d i l = open_scan bm s d (i + 1) (Some (i, ?w))"
      using blk [OF 3(1)] 3 by (subst open_scan.simps) simp
    ultimately show ?thesis using IH 3 by auto
  qed
qed

lemma disk_read_grow:
  assumes "disk_read n d p i = Some b"
  shows "disk_read n (EnsureSize d q m) p i = Some b" "disk_read n (SyncFile d q) p i = Some b"
  using assms by (auto simp: disk_read_def EnsureSize_def SyncFile_def open_create_def Let_def file_read_bytes
      byte_at_truncate)

lemma block_holds_grow:
  "block_holds n d p i rs \<Longrightarrow> block_holds n (EnsureSize d q m) p i rs"
  "block_holds n d p i rs \<Longrightarrow> block_holds n (SyncFile d q) p i rs"
  by (simp_all add: block_holds_def disk_read_grow)

lemma file_log_grow:
  "file_log bm mb p d blks \<Longrightarrow> file_log bm mb p (EnsureSize d q m) blks"
  "file_log bm mb p d blks \<Longrightarrow> file_log bm mb p (SyncFile d q) blks"
  by (auto simp: file_log_def block_holds_grow) (auto simp: EnsureSize_def SyncFile_def Let_def)

text \<open>A new file, once sized, is an empty log.\<close>

lemma file_log_new:
  assumes "d p = None" "KEY_START < bm_blockSize bm" "bm_blockSize bm < max_alloc"
  shows "file_log bm mb p (EnsureSize d p m) []"
proof -
  have "byte_at [] i = 0" "byte_at (file_truncate [] m) i = 0" for i
    by (simp_all add: byte_at_def file_truncate_def make_bytes_def)
  then have "byte_at [] = (\<lambda>_. 0)" "byte_at (file_truncate [] m) = (\<lambda>_. 0)" by auto
  then have "file_read [] off n = make_bytes n" "file_read (file_truncate [] m) off n = make_bytes n" for off n
    unfolding file_read_bytes make_bytes_def by (simp_all add: map_replicate_const)
  then show ?thesis using assms
    by (auto simp: file_log_def block_holds_def disk_read_def EnsureSize_def open_create_def block_image_def Let_def)
qed

lemma file_log_inv:
  assumes "file_log bm (s_MaxBlocks s) (s_Path s) d blks" "blks \<noteq> []"
    and "s_BlockSize s = bm_blockSize bm" "s_CurrentBlockIndex s = length blks - 1"
    and "s_CurrentBlock s = \<lparr>b_Data = block_image (bm_blockSize bm) (last blks), b_Size = bm_blockSize bm,
      b_WritePos = length (wal_wires (last blks))\<rparr>"
  shows "seg_inv bm s d (butlast blks) (last blks)"
proof -
  let ?i = "length blks - 1"
  have len: "length blks \<le> s_MaxBlocks s" "0 < length blks" using assms(1,2) by (auto simp: file_log_def)
  then have i: "?i < s_MaxBlocks s" "?i < length blks" "blks ! ?i = last blks"
    by (linarith, linarith, simp add: last_conv_nth assms(2))
  have h: "block_holds (bm_blockSize bm) d (s_Path s) j (if j < length blks then blks ! j else [])"
    if "j < s_MaxBlocks s" for j using assms(1) that by (auto simp: file_log_def)
  have last: "block_holds (bm_blockSize bm) d (s_Path s) ?i (last blks)" using h [OF i(1)] i by simp
  have "seg_mem bm s ?i (last blks)"
    using assms i last by (simp add: seg_mem_def file_log_def block_holds_def)
  moreover have "seg_disk bm s d (butlast blks)"
    unfolding seg_disk_def
  proof (intro conjI allI ballI impI)
    fix j assume j: "j < length (butlast blks)"
    then have "j < length blks" "j < s_MaxBlocks s" using len by auto
    then show "block_holds (bm_blockSize bm) d (s_Path s) j (butlast blks ! j)"
      using h [of j] j by (simp add: nth_butlast)
  next
    fix j assume "length (butlast blks) < j \<and> j < s_MaxBlocks s"
    then show "block_holds (bm_blockSize bm) d (s_Path s) j []"
      using h [of j] len by (auto split: if_splits)
  qed (use assms(1) in \<open>auto simp: file_log_def dest: in_set_butlastD\<close>)
  ultimately show ?thesis by (simp add: seg_inv_def)
qed

text \<open>Syncing writes the current block, so the whole log is in the file.\<close>

lemma Segment_Sync_log:
  assumes inv: "seg_inv bm s d blks cur" and cur: "cur \<noteq> []"
  obtains d' where "Segment_Sync bm (s, d) = (Ok (), s, d')" "seg_inv bm s d' blks cur"
    "file_log bm (s_MaxBlocks s) (s_Path s) d' (blks @ [cur])" "\<And>q. q \<noteq> s_Path s \<Longrightarrow> d' q = d q"
proof -
  let ?n = "bm_blockSize bm" and ?p = "s_Path s"
  define d' where "d' = SyncFile (disk_write ?n d ?p (length blks) (block_image ?n cur)) ?p"
  have mem: "seg_mem bm s (length blks) cur" and dsk: "seg_disk bm s d blks" using inv by (auto simp: seg_inv_def)
  have m: "s_CurrentBlockIndex s = length blks" "b_Data (s_CurrentBlock s) = block_image ?n cur"
      "length (wal_wires cur) \<le> ?n" "readable ?n cur" "length blks < s_MaxBlocks s"
      "KEY_START < ?n" "?n < max_alloc"
    using mem by (auto simp: seg_mem_def readable_def)
  have len: "length (block_image ?n cur) = ?n" using m by (simp add: length_block_image)
  have sync: "Segment_Sync bm (s, d) = (Ok (), s, d')"
    using m by (simp add: Segment_Sync_def FlushCurrentBlock_def WriteNoCache_disk NewBlockKey_def d'_def)
  have new: "block_holds ?n d' ?p (length blks) cur"
    unfolding d'_def by (rule block_holds_grow) (use disk.read_write_same [OF len] m in \<open>simp add: block_holds_def\<close>)
  have old: "block_holds ?n d' ?p i rs" if "i \<noteq> length blks" "block_holds ?n d ?p i rs" for i rs
    unfolding d'_def by (rule block_holds_grow) (rule block_holds_write [OF len that])
  have ex: "d' ?p \<noteq> None" by (simp add: d'_def SyncFile_def)
  have "seg_disk bm s d' blks" using dsk old ex unfolding seg_disk_def by auto
  moreover have "file_log bm (s_MaxBlocks s) ?p d' (blks @ [cur])"
    unfolding file_log_def
  proof (intro conjI allI impI ballI)
    fix i assume i: "i < s_MaxBlocks s"
    consider "i < length blks" | "i = length blks" | "length blks < i" by linarith
    then show "block_holds ?n d' ?p i (if i < length (blks @ [cur]) then (blks @ [cur]) ! i else [])"
      by cases (use dsk old new i in \<open>auto simp: seg_disk_def nth_append\<close>)
  qed (use dsk m cur ex in \<open>auto simp: seg_disk_def\<close>)
  moreover have "d' q = d q" if "q \<noteq> ?p" for q using that by (simp add: d'_def SyncFile_def disk_write_def)
  ultimately show ?thesis using that sync mem by (simp add: seg_inv_def)
qed

text \<open>Opening a segment file restores the segment that wrote it.\<close>

lemma OpenSegment_log:
  assumes log: "file_log bm mb p d blks" and "p \<noteq> []" "0 < mb"
  obtains s where "OpenSegment segID p mb bm d = (Ok s, EnsureSize d p (bm_blockSize bm * mb))"
    "s_ID s = segID" "s_Path s = p" "s_MaxBlocks s = mb"
    "blks \<noteq> [] \<Longrightarrow> seg_inv bm s (EnsureSize d p (bm_blockSize bm * mb)) (butlast blks) (last blks)"
    "blks = [] \<Longrightarrow> seg_inv bm s (EnsureSize d p (bm_blockSize bm * mb)) [] []"
proof -
  let ?n = "bm_blockSize bm" and ?d = "EnsureSize d p (bm_blockSize bm * mb)"
  define s0 where "s0 = \<lparr>s_ID = segID, s_Path = p, s_BlockSize = ?n, s_MaxBlocks = mb,
    s_CurrentBlockIndex = 0, s_CurrentBlock = NewBlock ?n\<rparr>"
  have log': "file_log bm (s_MaxBlocks s0) (s_Path s0) ?d blks"
    using file_log_grow(1) [OF log] by (simp add: s0_def)
  have size: "KEY_START < ?n" "?n < max_alloc" "d p \<noteq> None" using log by (auto simp: file_log_def)
  have op: "OpenSegment segID p mb bm d =
     (bind_r (open_scan bm s0 ?d 0 None) (\<lambda>lastUsed. case lastUsed of None \<Rightarrow> Ok s0
        | Some (i, w) \<Rightarrow> bind_r (ReadBlock bm s0 ?d i) (\<lambda>blockData.
            Ok (s0\<lparr>s_CurrentBlockIndex := i, s_CurrentBlock := \<lparr>b_Data = blockData, b_Size = ?n, b_WritePos = w\<rparr>\<rparr>))), ?d)"
    using size assms(2,3) by (auto simp: OpenSegment_def s0_def Let_def)
  show ?thesis
  proof (cases "blks = []")
    case True
    then have "OpenSegment segID p mb bm d = (Ok s0, ?d)" using op open_scan_log [OF log'] by simp
    moreover have "seg_inv bm s0 ?d [] []"
      using log' True size assms(3)
      by (auto simp: seg_inv_def seg_mem_def seg_disk_def s0_def NewBlock_def block_image_def file_log_def)
    ultimately show ?thesis using that [of s0] True by (simp add: s0_def)
  next
    case False
    let ?i = "length blks - 1"
    define s where "s = s0\<lparr>s_CurrentBlockIndex := ?i, s_CurrentBlock :=
      \<lparr>b_Data = block_image ?n (last blks), b_Size = ?n, b_WritePos = length (wal_wires (last blks))\<rparr>\<rparr>"
    have len: "0 < length blks" "length blks \<le> mb" using False log by (auto simp: file_log_def)
    then have i: "?i < s_MaxBlocks s0" "?i < length blks" unfolding s0_def by (simp_all, linarith)
    have rb: "ReadBlock bm s0 ?d ?i = Ok (block_image ?n (last blks))"
      using file_log_block(1) [OF log' i(1)] i(2) False by (simp add: last_conv_nth)
    have "OpenSegment segID p mb bm d = (Ok s, ?d)"
      using op open_scan_log [OF log', of 0 None] len rb by (simp add: s_def)
    moreover have "seg_inv bm s ?d (butlast blks) (last blks)"
      by (rule file_log_inv) (use log' False in \<open>simp_all add: s_def s0_def\<close>)
    ultimately show ?thesis using that [of s] False by (simp add: s_def s0_def)
  qed
qed

lemma ran_full_IsFull: "ran_full s \<Longrightarrow> Segment_IsFull s"
  by (auto simp: ran_full_def Segment_IsFull_def)

section \<open>Properties\<close>

text \<open>C26: A record appended to a segment is written as fragments that concatenate to it, whatever
  block boundaries they cross; after a sync the readers return everything that was there before,
  followed by exactly these fragments.\<close>

theorem segment_append_read_back:
  assumes "seg_inv bm s d blks cur" "appendable wr s"
    and "AppendWALRecord bm wr (s, d) = (Ok (), s1, d1)" "Segment_Sync bm (s1, d1) = (Ok (), s2, d2)"
  shows "\<exists>fs. is_fragments wr fs \<and> ReadAllRecords bm s2 d2 = Ok (concat blks @ cur @ fs)"
proof -
  from AppendWALRecord_inv [OF assms(1,2)] assms(3) obtain fs where
    "grows bm blks cur s fs s1 d1" and fs: "is_fragments wr fs" by auto
  then obtain zs cur' where inv: "seg_inv bm s1 d1 (blks @ zs) cur'" "cur' \<noteq> []" and c: "concat zs @ cur' = cur @ fs"
    by (auto simp: grows_def)
  from Segment_Sync_log [OF inv] assms(4) have "file_log bm (s_MaxBlocks s2) (s_Path s2) d2 (blks @ zs @ [cur'])"
    by (metis Pair_inject append_assoc)
  then have "ReadAllRecords bm s2 d2 = Ok (concat blks @ cur @ fs)"
    using ReadAllRecordsFromBlock_log c by (fastforce simp: ReadAllRecords_def)
  then show ?thesis using fs by blast
qed

definition example_bm :: BlockManager where
  "example_bm = NewBlockManager 64 8"

definition example_segment :: Segment where
  "example_segment = \<lparr>s_ID = 1, s_Path = ''wal'', s_BlockSize = 64, s_MaxBlocks = 4,
     s_CurrentBlockIndex = 0, s_CurrentBlock = NewBlock 64\<rparr>"

definition example_disk :: disk where
  "example_disk = EnsureSize Map.empty ''wal'' 256"

definition example_record :: "bytes \<Rightarrow> WALRecord" where
  "example_record v = \<lparr>w_FragType = FULL, w_RecType = SINGLE, w_TxnID = 0, w_KeySize = 1,
     w_ValueSize = of_nat (length v), w_Record = \<lparr>r_ExpiresAt = 0, r_SeqId = 7, r_OpType = OpTypePut,
       r_Key = [107], r_Value = v\<rparr>\<rparr>"

lemma example_appendable: "length v < 1000 \<Longrightarrow> appendable (example_record v) s"
  by (simp add: appendable_def wal_wf_def example_record_def payload_len_def max_alloc_def)

lemma example_inv: "seg_inv example_bm example_segment example_disk [] []"
proof -
  have "file_log example_bm 4 ''wal'' example_disk []"
    unfolding example_disk_def by (rule file_log_new) (simp_all add: example_bm_def NewBlockManager_def max_alloc_def)
  then show ?thesis
    by (auto simp: seg_inv_def seg_mem_def seg_disk_def file_log_def example_segment_def NewBlock_def
        block_image_def example_bm_def NewBlockManager_def)
qed

theorem segment_append_read_back_witness:
  "\<exists>s1 d1 s2 d2 fs. AppendWALRecord example_bm (example_record [1, 2, 3]) (example_segment, example_disk) = (Ok (), s1, d1) \<and>
     Segment_Sync example_bm (s1, d1) = (Ok (), s2, d2) \<and>
     is_fragments (example_record [1, 2, 3]) fs \<and> ReadAllRecords example_bm s2 d2 = Ok fs"
proof -
  let ?wr = "example_record [1, 2, 3]" and ?st = "(example_segment, example_disk)"
  have rem: "Remaining (s_CurrentBlock example_segment) = 64" "s_MaxBlocks example_segment = 4"
    by (simp_all add: example_segment_def Remaining_def NewBlock_def)
  have "AppendWALRecord example_bm ?wr ?st = write_fragment (full_record ?wr) ?st"
    by (subst AppendWALRecord.simps) (simp add: rem example_record_def)
  moreover have "wal_wf (full_record ?wr)" "int (KEY_START + payload_len (full_record ?wr)) \<le> Remaining (s_CurrentBlock example_segment)"
    using example_appendable [of "[1, 2, 3]"]
    by (simp_all add: full_record_def example_record_def rem payload_len_def appendable_def)
  ultimately obtain s1 where a: "AppendWALRecord example_bm ?wr ?st = (Ok (), s1, example_disk)"
    using write_fragment_inv [of example_bm example_segment 0 "[]" "full_record ?wr" example_disk] example_inv rem
    by (auto simp: seg_inv_def)
  obtain s2 d2 where b: "Segment_Sync example_bm (s1, example_disk) = (Ok (), s2, d2)"
    by (simp add: Segment_Sync_def FlushCurrentBlock_def)
  from segment_append_read_back [OF example_inv example_appendable a b] a b show ?thesis by fastforce
qed

text \<open>Appending a record never panics. It succeeds, or it fails with ``segment is full'' and
  leaves the segment full, possibly with the first fragments of the record at its end.\<close>

theorem segment_append_outcomes:
  assumes "seg_inv bm s d blks cur" "appendable wr s"
  shows "\<exists>s' d'. AppendWALRecord bm wr (s, d) = (Ok (), s', d') \<or>
    AppendWALRecord bm wr (s, d) = (Inl (Error ''segment is full''), s', d') \<and> Segment_IsFull s' \<and>
      (s' = s \<and> d' = d \<or> (\<exists>fs. is_orphan wr fs \<and> grows bm blks cur s fs s' d'))"
  using AppendWALRecord_inv [OF assms] ran_full_IsFull by blast

theorem segment_append_outcomes_witness:
  "\<exists>s' d'. AppendWALRecord example_bm (example_record (replicate 300 1)) (example_segment, example_disk) = (Ok (), s', d') \<or>
    AppendWALRecord example_bm (example_record (replicate 300 1)) (example_segment, example_disk) =
      (Inl (Error ''segment is full''), s', d') \<and> Segment_IsFull s'"
  using segment_append_outcomes [OF example_inv example_appendable [of "replicate 300 1"]] by auto

text \<open>C27: Reopening the file of a synced segment restores the writer's state: same block number, same block
  contents, same write position, so appending continues where it stopped.\<close>

theorem segment_reopen:
  assumes "seg_inv bm s d blks cur" "cur \<noteq> []" "s_Path s \<noteq> []" "Segment_Sync bm (s, d) = (Ok (), s', d')"
  shows "\<exists>d''. OpenSegment (s_ID s) (s_Path s) (s_MaxBlocks s) bm d' = (Ok s, d'')"
proof -
  let ?n = "bm_blockSize bm"
  have mem: "seg_mem bm s (length blks) cur" using assms(1) by (simp add: seg_inv_def)
  from Segment_Sync_log [OF assms(1,2)] assms(4)
  have log: "file_log bm (s_MaxBlocks s) (s_Path s) d' (blks @ [cur])" by (metis Pair_inject)
  have mb: "0 < s_MaxBlocks s" using mem by (simp add: seg_mem_def)
  obtain s1 where o: "OpenSegment (s_ID s) (s_Path s) (s_MaxBlocks s) bm d' =
        (Ok s1, EnsureSize d' (s_Path s) (?n * s_MaxBlocks s))"
    and keep: "s_ID s1 = s_ID s" "s_Path s1 = s_Path s" "s_MaxBlocks s1 = s_MaxBlocks s"
    and inv: "seg_inv bm s1 (EnsureSize d' (s_Path s) (?n * s_MaxBlocks s)) blks cur"
    using OpenSegment_log [OF log assms(3) mb, of "s_ID s"] by (metis append_is_Nil_conv butlast_snoc last_snoc not_Cons_self)
  have "seg_mem bm s1 (length blks) cur" using inv by (simp add: seg_inv_def)
  with mem keep have "s1 = s" by (cases s; cases s1; cases "s_CurrentBlock s"; cases "s_CurrentBlock s1")
    (simp add: seg_mem_def)
  with o show ?thesis by blast
qed

theorem segment_reopen_witness:
  "\<exists>s d s' d' d''. s_CurrentBlock s \<noteq> NewBlock 64 \<and> Segment_Sync example_bm (s, d) = (Ok (), s', d') \<and>
     OpenSegment 1 ''wal'' 4 example_bm d' = (Ok s, d'')"
proof -
  let ?wr = "example_record [1, 2, 3]"
  have rem: "Remaining (s_CurrentBlock example_segment) = 64"
    by (simp add: example_segment_def Remaining_def NewBlock_def)
  have fit: "int (KEY_START + payload_len ?wr) \<le> Remaining (s_CurrentBlock example_segment)"
    by (simp add: example_record_def rem payload_len_def)
  have mem: "seg_mem example_bm example_segment 0 []" and dsk: "seg_disk example_bm example_segment example_disk []"
    using example_inv by (auto simp: seg_inv_def)
  obtain s where s: "seg_mem example_bm s 0 [?wr]" "s_ID s = 1" "s_MaxBlocks s = 4" "s_Path s = ''wal''"
    and "write_fragment ?wr (example_segment, example_disk) = (Ok (), s, example_disk)"
    using write_fragment_inv [OF mem _ fit, of example_disk] example_appendable [of "[1, 2, 3]"] rem
    by (auto simp: example_segment_def appendable_def)
  have inv: "seg_inv example_bm s example_disk [] [?wr]"
    using s dsk by (simp add: seg_inv_def seg_disk_def example_segment_def)
  obtain s' d' where b: "Segment_Sync example_bm (s, example_disk) = (Ok (), s', d')"
    by (simp add: Segment_Sync_def FlushCurrentBlock_def)
  have "b_WritePos (s_CurrentBlock s) = 51"
    using s(1) by (simp add: seg_mem_def length_wal_wire payload_len_def example_record_def)
  then have "s_CurrentBlock s \<noteq> NewBlock 64" by (auto simp: NewBlock_def)
  with segment_reopen [OF inv _ _ b] b s show ?thesis by fastforce
qed

end
