(* ===== verification/Wal_Manifest.thy ===== *)
theory Wal_Manifest
  imports Block_Manager
begin

text \<open>
  \<^verbatim>\<open>internal/wal/manifest.go\<close>: the list of WAL segments with, for each, the first block that is
  still needed and the sequence number up to which its records are in SSTables, and the naming of
  segment files (\<^verbatim>\<open>SegmentPath\<close> and \<^verbatim>\<open>ParseSegmentID\<close> of \<^verbatim>\<open>wal.go\<close>).

  Every mutation ends in \<^verbatim>\<open>Save\<close>, which writes the manifest as JSON. The model keeps the saved
  manifest as a value: an encoded and decoded manifest is the manifest itself.
\<close>

section \<open>Manifest\<close>

record WALManifestEntry =
  e_SegmentID :: u64
  e_ValidFromBlock :: nat
  e_FlushedUpToSeqID :: u64

record WALManifest =
  m_LowWatermark :: u64
  m_Segments :: "WALManifestEntry list"

definition empty_manifest :: WALManifest where
  "empty_manifest = \<lparr>m_LowWatermark = 0, m_Segments = []\<rparr>"

definition new_entry :: "u64 \<Rightarrow> WALManifestEntry" where
  "new_entry segID = \<lparr>e_SegmentID = segID, e_ValidFromBlock = 0, e_FlushedUpToSeqID = 0\<rparr>"

definition AddSegment :: "WALManifest \<Rightarrow> u64 \<Rightarrow> WALManifest" where
  "AddSegment m segID = m\<lparr>m_Segments := m_Segments m @ [new_entry segID]\<rparr>"

text \<open>The loops of the manifest act on the first entry with the given identifier.\<close>

fun remove_first :: "u64 \<Rightarrow> WALManifestEntry list \<Rightarrow> WALManifestEntry list" where
  "remove_first segID [] = []"
| "remove_first segID (e # es) = (if e_SegmentID e = segID then es else e # remove_first segID es)"

definition RemoveSegment :: "WALManifest \<Rightarrow> u64 \<Rightarrow> WALManifest" where
  "RemoveSegment m segID = m\<lparr>m_Segments := remove_first segID (m_Segments m)\<rparr>"

fun update_first :: "u64 \<Rightarrow> (WALManifestEntry \<Rightarrow> WALManifestEntry result) \<Rightarrow> WALManifestEntry list \<Rightarrow> WALManifestEntry list result" where
  "update_first segID f [] = Inl (Error ''segment not found in manifest'')"
| "update_first segID f (e # es) =
     (if e_SegmentID e = segID then bind_r (f e) (\<lambda>e'. Ok (e' # es))
      else bind_r (update_first segID f es) (\<lambda>es'. Ok (e # es')))"

definition SetValidFromBlock :: "WALManifest \<Rightarrow> u64 \<Rightarrow> nat \<Rightarrow> WALManifest result" where
  "SetValidFromBlock m segID blockID =
     bind_r (update_first segID (\<lambda>e. Ok (e\<lparr>e_ValidFromBlock := blockID\<rparr>)) (m_Segments m)) (\<lambda>es.
     Ok (m\<lparr>m_Segments := es\<rparr>))"

definition SetFlushedUpToSeqID :: "WALManifest \<Rightarrow> u64 \<Rightarrow> u64 \<Rightarrow> WALManifest result" where
  "SetFlushedUpToSeqID m segID seqID =
     bind_r (update_first segID
       (\<lambda>e. if seqID < e_FlushedUpToSeqID e then Inl (Error ''flushed sequence cannot move backwards'')
            else Ok (e\<lparr>e_FlushedUpToSeqID := seqID\<rparr>)) (m_Segments m)) (\<lambda>es.
     Ok (m\<lparr>m_Segments := es\<rparr>))"

definition GetSegment :: "WALManifest \<Rightarrow> u64 \<Rightarrow> WALManifestEntry result" where
  "GetSegment m segID =
     (case find (\<lambda>e. e_SegmentID e = segID) (m_Segments m) of
        Some e \<Rightarrow> Ok e | None \<Rightarrow> Inl (Error ''segment not found in manifest''))"

definition SortedSegments :: "WALManifest \<Rightarrow> WALManifestEntry list" where
  "SortedSegments m = sort_key e_SegmentID (m_Segments m)"

definition Manifest_SetLowWatermark :: "WALManifest \<Rightarrow> u64 \<Rightarrow> WALManifest result" where
  "Manifest_SetLowWatermark m segID =
     (if segID < m_LowWatermark m then Inl (Error ''low watermark cannot move backwards'')
      else Ok (m\<lparr>m_LowWatermark := segID\<rparr>))"

section \<open>Segment file names\<close>

text \<open>\<^verbatim>\<open>fmt.Sprintf("%06d", id)\<close>: decimal digits, zero-padded to six.\<close>

fun digit_char :: "nat \<Rightarrow> char" where
  "digit_char n = char_of (48 + n)"

function decimal :: "nat \<Rightarrow> string" where
  "decimal n = (if n < 10 then [digit_char n] else decimal (n div 10) @ [digit_char (n mod 10)])"
  by pat_completeness auto
termination
  by (relation "measure id") auto

declare decimal.simps [simp del]

definition pad6 :: "string \<Rightarrow> string" where
  "pad6 s = replicate (6 - length s) CHR ''0'' @ s"

definition SegmentFile :: "u64 \<Rightarrow> string" where
  "SegmentFile segID = ''wal_'' @ pad6 (decimal (unat segID)) @ ''.log''"

text \<open>\<^verbatim>\<open>filepath.Join\<close> with the WAL directory, which \<^verbatim>\<open>OpenWAL\<close> builds with \<^verbatim>\<open>path.Join\<close> (clean, not empty).\<close>

definition SegmentPath :: "path \<Rightarrow> u64 \<Rightarrow> path" where
  "SegmentPath dir segID = dir @ ''/'' @ SegmentFile segID"

definition TrimPrefix :: "string \<Rightarrow> string \<Rightarrow> string" where
  "TrimPrefix s p = (if take (length p) s = p then drop (length p) s else s)"

definition TrimSuffix :: "string \<Rightarrow> string \<Rightarrow> string" where
  "TrimSuffix s p =
     (if length p \<le> length s \<and> drop (length s - length p) s = p then take (length s - length p) s else s)"

text \<open>\<^verbatim>\<open>strconv.ParseUint(s, 10, 64)\<close>: digits only, at least one, in range.\<close>

definition is_digit :: "char \<Rightarrow> bool" where
  "is_digit c \<longleftrightarrow> 48 \<le> (of_char c :: nat) \<and> (of_char c :: nat) \<le> 57"

definition digits_value :: "string \<Rightarrow> nat" where
  "digits_value s = foldl (\<lambda>n c. 10 * n + (of_char c - 48)) 0 s"

definition ParseUint :: "string \<Rightarrow> u64 result" where
  "ParseUint s =
     (if s = [] \<or> \<not> list_all is_digit s then Inl (Error ''invalid syntax'')
      else if 2 ^ 64 \<le> digits_value s then Inl (Error ''value out of range'')
      else Ok (of_nat (digits_value s)))"

definition ParseSegmentID :: "string \<Rightarrow> u64 result" where
  "ParseSegmentID name = ParseUint (TrimSuffix (TrimPrefix name ''wal_'') ''.log'')"

text \<open>
  \<^verbatim>\<open>reconstruct\<close> rebuilds the manifest from the names of the files in the WAL directory
  (directories have been filtered out of \<open>names\<close>).
\<close>

definition reconstruct :: "string list \<Rightarrow> WALManifest" where
  "reconstruct names = empty_manifest\<lparr>m_Segments :=
     concat (map (\<lambda>name. if name = [] then [] else
       case ParseSegmentID name of Inl _ \<Rightarrow> [] | Inr segID \<Rightarrow> [new_entry segID]) names)\<rparr>"

text \<open>\<^verbatim>\<open>NewWALManifest\<close>: the saved manifest if there is one, else the reconstructed one.\<close>

definition NewWALManifest :: "string list \<Rightarrow> WALManifest option \<Rightarrow> WALManifest" where
  "NewWALManifest names saved = (case saved of Some m \<Rightarrow> m | None \<Rightarrow> reconstruct names)"

lemma digits_value_append: "digits_value (s @ [c]) = 10 * digits_value s + (of_char c - 48)"
  by (simp add: digits_value_def)

lemma of_char_digit: "n < 10 \<Longrightarrow> (of_char (digit_char n) :: nat) = 48 + n"
  by (simp add: of_char_of)

lemma digits_value_decimal: "digits_value (decimal n) = n"
proof (induction n rule: decimal.induct)
  case (1 n)
  show ?case
  proof (cases "n < 10")
    case True
    then show ?thesis using of_char_digit [of n]
      by (subst decimal.simps) (simp add: digits_value_def del: digit_char.simps)
  next
    case False
    then show ?thesis using 1 of_char_digit [of "n mod 10"]
      by (subst decimal.simps) (simp add: digits_value_append del: digit_char.simps)
  qed
qed

lemma decimal_digits: "list_all is_digit (decimal n) \<and> decimal n \<noteq> []"
proof (induction n rule: decimal.induct)
  case (1 n)
  have d: "is_digit (digit_char m)" if "m < 10" for m
    using of_char_digit [OF that] that by (simp add: is_digit_def del: digit_char.simps)
  show ?case
  proof (cases "n < 10")
    case True
    then show ?thesis using d by (subst (1 2) decimal.simps) (simp del: digit_char.simps)
  next
    case False
    then show ?thesis using 1 d [of "n mod 10"] by (subst (1 2) decimal.simps) (simp del: digit_char.simps)
  qed
qed

lemma digits_value_pad: "digits_value (replicate k CHR ''0'' @ s) = digits_value s"
  by (induction k) (simp_all add: digits_value_def)

lemma TrimSuffix_append: "TrimSuffix (s @ p) p = s"
  by (simp add: TrimSuffix_def)

lemma ParseSegmentID_SegmentFile: "ParseSegmentID (SegmentFile segID) = Ok segID"
proof -
  let ?s = "pad6 (decimal (unat segID))"
  have "TrimPrefix (SegmentFile segID) ''wal_'' = ?s @ ''.log''"
    by (simp add: TrimPrefix_def SegmentFile_def)
  then have t: "TrimSuffix (TrimPrefix (SegmentFile segID) ''wal_'') ''.log'' = ?s"
    by (simp add: TrimSuffix_append)
  have "list_all is_digit ?s" "?s \<noteq> []"
    using decimal_digits [of "unat segID"] by (auto simp: pad6_def list_all_iff is_digit_def)
  moreover have "digits_value ?s = unat segID"
    by (simp add: pad6_def digits_value_pad digits_value_decimal)
  moreover have "unat segID < 2 ^ 64" using unsigned_less [of segID, where 'a = nat] by simp
  ultimately show ?thesis unfolding ParseSegmentID_def t by (simp add: ParseUint_def)
qed

lemma SegmentPath_inj: "SegmentPath dir a = SegmentPath dir b \<longleftrightarrow> a = b"
  unfolding SegmentPath_def using ParseSegmentID_SegmentFile by (metis append_same_eq same_append_eq sum.inject(2))

lemma SegmentPath_nonempty [simp]: "SegmentPath dir a \<noteq> []"
  by (simp add: SegmentPath_def)

lemma update_first_spec:
  "distinct (map e_SegmentID es) \<Longrightarrow> e \<in> set es \<Longrightarrow> e_SegmentID e = segID \<Longrightarrow> f e = Ok e' \<Longrightarrow>
   update_first segID f es = Ok (map (\<lambda>x. if e_SegmentID x = segID then e' else x) es)"
proof (induction es)
  case (Cons x es)
  show ?case
  proof (cases "e_SegmentID x = segID")
    case True
    then have "x = e" using Cons.prems by (auto simp: image_iff)
    moreover have "map (\<lambda>y. if e_SegmentID y = segID then e' else y) es = es"
      using Cons.prems(1) True by (intro map_idI) (simp, metis image_eqI)
    ultimately show ?thesis using True Cons.prems by simp
  qed (use Cons in auto)
qed simp

section \<open>Properties\<close>

text \<open>The name of a segment file parses back to its identifier, so a manifest rebuilt from the file
  names of the directory lists exactly the segments that were written, also past 999999.\<close>

theorem manifest_reconstruct_roundtrip:
  "reconstruct (map SegmentFile ids) = empty_manifest\<lparr>m_Segments := map new_entry ids\<rparr>"
proof -
  have "SegmentFile i \<noteq> []" for i by (simp add: SegmentFile_def)
  then show ?thesis by (simp add: reconstruct_def ParseSegmentID_SegmentFile comp_def)
qed

end
