(* ===== verification/Wal.thy ===== *)
theory Wal
  imports Wal_Segment Wal_Manifest
begin

text \<open>
  \<^verbatim>\<open>internal/wal/wal.go\<close>: the write-ahead log over its segments: appending with segment rotation,
  batches as transactions, recovery (read all fragments, join them, keep committed work) and the
  truncation of the log after a memtable flush.

  The state of an operation is \<open>wal_sys\<close>: the \<^verbatim>\<open>WAL\<close> object, the disk, and the manifest as last saved.
  \<^verbatim>\<open>ActiveSegment\<close> may be \<^verbatim>\<open>nil\<close> (after \<^verbatim>\<open>ClearAll(false)\<close>).
\<close>

section \<open>State\<close>

record WAL =
  wal_Dir :: path
  wal_ActiveSegment :: "Segment option"
  wal_BlockSize :: nat
  wal_MaxBlocks :: nat
  wal_NextSegmentID :: u64
  wal_NextTxnID :: u64
  wal_BM :: BlockManager
  wal_Manifest :: WALManifest

record wal_sys =
  y_wal :: WAL
  y_disk :: disk
  y_saved :: "WALManifest option"

record TxnOp =
  op_SeqId :: u64
  op_ExpiresAt :: i64
  op_OpType :: OpType
  op_Key :: bytes
  op_Value :: bytes

type_synonym 'a wal_op = "(wal_sys, 'a) op"

text \<open>Each manifest mutation replaces the manifest in memory and saves it.\<close>

definition set_manifest :: "WALManifest \<Rightarrow> unit wal_op" where
  "set_manifest m y = (Ok (), y\<lparr>y_wal := (y_wal y)\<lparr>wal_Manifest := m\<rparr>, y_saved := Some m\<rparr>)"

text \<open>A call on the active segment.\<close>

definition on_active :: "'a seg_op \<Rightarrow> 'a wal_op" where
  "on_active f y =
     (case wal_ActiveSegment (y_wal y) of
        None \<Rightarrow> (Inl (Panic ''nil pointer dereference''), y)
      | Some s \<Rightarrow>
          (case f (s, y_disk y) of
             (r, s', d') \<Rightarrow> (r, y\<lparr>y_wal := (y_wal y)\<lparr>wal_ActiveSegment := Some s'\<rparr>, y_disk := d'\<rparr>)))"

definition wal_OpenSegment :: "u64 \<Rightarrow> Segment wal_op" where
  "wal_OpenSegment segID y =
     (let w = y_wal y in
      case OpenSegment segID (SegmentPath (wal_Dir w) segID) (wal_MaxBlocks w) (wal_BM w) (y_disk y) of
        (r, d') \<Rightarrow> (r, y\<lparr>y_disk := d'\<rparr>))"

section \<open>Appending\<close>

definition WAL_Sync :: "unit wal_op" where
  "WAL_Sync y =
     (case wal_ActiveSegment (y_wal y) of
        None \<Rightarrow> (Inl (Error ''active segment is nil''), y)
      | Some _ \<Rightarrow> on_active (Segment_Sync (wal_BM (y_wal y))) y)"

definition RotateSegment :: "unit wal_op" where
  "RotateSegment y =
     bind_s (on_active (Segment_Sync (wal_BM (y_wal y)))) (\<lambda>_ y.
     bind_s (wal_OpenSegment (wal_NextSegmentID (y_wal y))) (\<lambda>seg y.
     bind_s (set_manifest (AddSegment (wal_Manifest (y_wal y)) (wal_NextSegmentID (y_wal y)))) (\<lambda>_ y.
     (Ok (), y\<lparr>y_wal := (y_wal y)\<lparr>wal_ActiveSegment := Some seg,
         wal_NextSegmentID := wal_NextSegmentID (y_wal y) + 1\<rparr>\<rparr>)) y) y) y"

definition WAL_AppendWALRecord :: "WALRecord \<Rightarrow> unit wal_op" where
  "WAL_AppendWALRecord wr y =
     (case wal_ActiveSegment (y_wal y) of
        None \<Rightarrow> (Inl (Error ''active segment is nil''), y)
      | Some _ \<Rightarrow>
          bind_s (\<lambda>y.
            case on_active (AppendWALRecord (wal_BM (y_wal y)) wr) y of
              (Inr _, y) \<Rightarrow> (Ok (), y)
            | (Inl (Panic e), y) \<Rightarrow> (Inl (Panic e), y)
            | (Inl (Error e), y) \<Rightarrow>
                (if \<not> (\<exists>s \<in> set_option (wal_ActiveSegment (y_wal y)). Segment_IsFull s) then (Inl (Error e), y)
                 else bind_s RotateSegment (\<lambda>_ y. on_active (AppendWALRecord (wal_BM (y_wal y)) wr) y) y))
          (\<lambda>_. WAL_Sync) y)"

definition single_record :: "Record \<Rightarrow> WALRecord" where
  "single_record r = \<lparr>w_FragType = FULL, w_RecType = SINGLE, w_TxnID = 0,
     w_KeySize = of_nat (length (r_Key r)), w_ValueSize = of_nat (length (r_Value r)), w_Record = r\<rparr>"

definition WAL_Append :: "Record \<Rightarrow> unit wal_op" where
  "WAL_Append r y =
     (case wal_ActiveSegment (y_wal y) of
        None \<Rightarrow> (Inl (Error ''active segment is nil''), y)
      | Some _ \<Rightarrow> WAL_AppendWALRecord (single_record r) y)"

text \<open>\<^verbatim>\<open>Put\<close> and \<^verbatim>\<open>PutWithTTL\<close> turn an error of \<^verbatim>\<open>Append\<close> into a panic.\<close>

definition panic_on_error :: "'a wal_op \<Rightarrow> 'a wal_op" where
  "panic_on_error f y = (case f y of (Inl (Error e), y') \<Rightarrow> (Inl (Panic e), y') | other \<Rightarrow> other)"

definition WAL_PutWithTTL :: "bytes \<Rightarrow> bytes \<Rightarrow> u64 \<Rightarrow> OpType \<Rightarrow> i64 \<Rightarrow> unit wal_op" where
  "WAL_PutWithTTL key val seqId opType ttl =
     panic_on_error (WAL_Append \<lparr>r_ExpiresAt = ttl, r_SeqId = seqId, r_OpType = opType, r_Key = key, r_Value = val\<rparr>)"

definition WAL_Put :: "bytes \<Rightarrow> bytes \<Rightarrow> u64 \<Rightarrow> OpType \<Rightarrow> unit wal_op" where
  "WAL_Put key val seqId opType =
     panic_on_error (WAL_Append \<lparr>r_ExpiresAt = 0, r_SeqId = seqId, r_OpType = opType, r_Key = key, r_Value = val\<rparr>)"

text \<open>The records of a batch: START, one per operation, COMMIT, all with the batch's transaction number.\<close>

definition marker_record :: "byte \<Rightarrow> u64 \<Rightarrow> TxnOp \<Rightarrow> WALRecord" where
  "marker_record recType txnID p = \<lparr>w_FragType = FULL, w_RecType = recType, w_TxnID = txnID,
     w_KeySize = 0, w_ValueSize = 0,
     w_Record = \<lparr>r_ExpiresAt = op_ExpiresAt p, r_SeqId = op_SeqId p, r_OpType = OpTypePut, r_Key = [], r_Value = []\<rparr>\<rparr>"

definition op_record :: "TxnOp \<Rightarrow> Record" where
  "op_record p = \<lparr>r_ExpiresAt = op_ExpiresAt p, r_SeqId = op_SeqId p, r_OpType = op_OpType p,
     r_Key = op_Key p, r_Value = op_Value p\<rparr>"

definition txn_record :: "u64 \<Rightarrow> TxnOp \<Rightarrow> WALRecord" where
  "txn_record txnID p = \<lparr>w_FragType = FULL, w_RecType = TRANSACTION, w_TxnID = txnID,
     w_KeySize = of_nat (length (op_Key p)), w_ValueSize = of_nat (length (op_Value p)), w_Record = op_record p\<rparr>"

fun append_all :: "WALRecord list \<Rightarrow> unit wal_op" where
  "append_all [] y = (Ok (), y)"
| "append_all (r # rs) y = bind_s (WAL_AppendWALRecord r) (\<lambda>_. append_all rs) y"

definition batch_records :: "u64 \<Rightarrow> TxnOp list \<Rightarrow> WALRecord list" where
  "batch_records txnID ops =
     marker_record START txnID (hd ops) # map (txn_record txnID) ops @ [marker_record COMMIT txnID (last ops)]"

definition BatchWrite :: "TxnOp list \<Rightarrow> unit wal_op" where
  "BatchWrite ops y =
     (case wal_ActiveSegment (y_wal y) of
        None \<Rightarrow> (Inl (Error ''active segment is nil''), y)
      | Some _ \<Rightarrow>
          if ops = [] then (Ok (), y)
          else let txnID = wal_NextTxnID (y_wal y) in
            append_all (batch_records txnID ops)
              (y\<lparr>y_wal := (y_wal y)\<lparr>wal_NextTxnID := txnID + 1\<rparr>\<rparr>))"

section \<open>Recovery\<close>

fun read_fragments_loop :: "WALManifestEntry list \<Rightarrow> WALRecord list wal_op" where
  "read_fragments_loop [] y = (Ok [], y)"
| "read_fragments_loop (meta # metas) y =
     (if wal_MaxBlocks (y_wal y) \<le> e_ValidFromBlock meta then read_fragments_loop metas y
      else bind_s (wal_OpenSegment (e_SegmentID meta)) (\<lambda>seg y.
        bind_s (lift_s (ReadAllRecordsFromBlock (wal_BM (y_wal y)) seg (y_disk y) (e_ValidFromBlock meta))) (\<lambda>recs y.
        bind_s (read_fragments_loop metas) (\<lambda>rest y.
          (Ok (filter (\<lambda>rec. \<not> r_SeqId (w_Record rec) \<le> e_FlushedUpToSeqID meta) recs @ rest), y)) y) y) y)"

definition ReadAllFragments :: "WALRecord list wal_op" where
  "ReadAllFragments y = read_fragments_loop (SortedSegments (wal_Manifest (y_wal y))) y"

text \<open>
  \<^verbatim>\<open>JoinFragments\<close>: \<open>current\<close> is the record being put together (\<^verbatim>\<open>inFragment\<close> is true exactly when it
  is not \<^verbatim>\<open>nil\<close>). Any fragment out of order ends the scan with what was joined so far.
\<close>

definition extend_record :: "WALRecord \<Rightarrow> WALRecord \<Rightarrow> WALRecord" where
  "extend_record cur frag = cur\<lparr>w_Record := (w_Record cur)
     \<lparr>r_Key := r_Key (w_Record cur) @ r_Key (w_Record frag),
      r_Value := r_Value (w_Record cur) @ r_Value (w_Record frag)\<rparr>\<rparr>"

definition set_sizes :: "WALRecord \<Rightarrow> WALRecord" where
  "set_sizes cur = cur\<lparr>w_KeySize := of_nat (length (r_Key (w_Record cur))),
     w_ValueSize := of_nat (length (r_Value (w_Record cur)))\<rparr>"

fun join_loop :: "WALRecord list \<Rightarrow> WALRecord option \<Rightarrow> WALRecord list" where
  "join_loop [] cur = []"
| "join_loop (frag # frags) None =
     (if w_FragType frag = FULL then frag # join_loop frags None
      else if w_FragType frag = FIRST then join_loop frags (Some (frag\<lparr>w_FragType := FULL\<rparr>))
      else [])"
| "join_loop (frag # frags) (Some cur) =
     (if w_FragType frag = MIDDLE then join_loop frags (Some (extend_record cur frag))
      else if w_FragType frag = LAST then set_sizes (extend_record cur frag) # join_loop frags None
      else [])"

definition JoinFragments :: "WALRecord list \<Rightarrow> WALRecord list" where
  "JoinFragments frags = join_loop frags None"

record txn_state =
  t_result :: "Record list"
  t_pending :: "u64 \<rightharpoonup> Record list"

text \<open>
  \<^verbatim>\<open>ApplyTransactions\<close>. The maps \<^verbatim>\<open>started\<close> and \<^verbatim>\<open>pending\<close> always have the same keys, so one map stands
  for both.
\<close>

fun txn_step :: "txn_state \<Rightarrow> WALRecord \<Rightarrow> txn_state" where
  "txn_step st rec =
     (if w_RecType rec = SINGLE then st\<lparr>t_result := t_result st @ [w_Record rec]\<rparr>
      else if w_RecType rec = START then st\<lparr>t_pending := (t_pending st)(w_TxnID rec \<mapsto> [])\<rparr>
      else if w_RecType rec = TRANSACTION then
        (case t_pending st (w_TxnID rec) of
           None \<Rightarrow> st
         | Some rs \<Rightarrow> st\<lparr>t_pending := (t_pending st)(w_TxnID rec \<mapsto> rs @ [w_Record rec])\<rparr>)
      else if w_RecType rec = COMMIT then
        (case t_pending st (w_TxnID rec) of
           None \<Rightarrow> st
         | Some rs \<Rightarrow> st\<lparr>t_result := t_result st @ rs, t_pending := (t_pending st)(w_TxnID rec := None)\<rparr>)
      else st)"

definition ApplyTransactions :: "WALRecord list \<Rightarrow> Record list" where
  "ApplyTransactions records = t_result (foldl txn_step \<lparr>t_result = [], t_pending = Map.empty\<rparr> records)"

definition Recover :: "Record list wal_op" where
  "Recover = bind_s ReadAllFragments (\<lambda>frags. ret_s (ApplyTransactions (JoinFragments frags)))"

section \<open>Truncation\<close>

text \<open>The last block of a segment with a record of at most \<open>target\<close>, scanning while blocks have records.\<close>

function flushed_blocks :: "BlockManager \<Rightarrow> Segment \<Rightarrow> disk \<Rightarrow> u64 \<Rightarrow> nat \<Rightarrow> nat option \<Rightarrow> nat option result" where
  "flushed_blocks bm s d target b found =
     (if b < s_MaxBlocks s then
        bind_r (ReadBlock bm s d b) (\<lambda>blockData.
        bind_r (ReadBlockRecords blockData) (\<lambda>recs.
        if recs = [] then Ok found
        else flushed_blocks bm s d target (b + 1)
          (if list_ex (\<lambda>rec. r_SeqId (w_Record rec) \<le> target) recs then Some b else found)))
      else Ok found)"
  by pat_completeness auto
termination
  by (relation "measure (\<lambda>(bm, s, d, t, b, f). s_MaxBlocks s - b)") auto

declare flushed_blocks.simps [simp del]

fun find_flushed :: "u64 \<Rightarrow> WALManifestEntry list \<Rightarrow> (u64 \<times> nat) option \<Rightarrow> (u64 \<times> nat) option wal_op" where
  "find_flushed target [] found y = (Ok found, y)"
| "find_flushed target (meta # metas) found y =
     (if wal_MaxBlocks (y_wal y) \<le> e_ValidFromBlock meta \<or> target \<le> e_FlushedUpToSeqID meta
      then find_flushed target metas found y
      else bind_s (wal_OpenSegment (e_SegmentID meta)) (\<lambda>seg y.
        bind_s (lift_s (flushed_blocks (wal_BM (y_wal y)) seg (y_disk y) target (e_ValidFromBlock meta) None)) (\<lambda>b y.
        find_flushed target metas
          (case b of None \<Rightarrow> found | Some b \<Rightarrow> Some (e_SegmentID meta, b)) y) y) y)"

definition DeleteSegmentFile :: "u64 \<Rightarrow> wal_sys \<Rightarrow> wal_sys" where
  "DeleteSegmentFile segID y =
     (let w = y_wal y; p = SegmentPath (wal_Dir w) segID in
      y\<lparr>y_wal := w\<lparr>wal_BM := InvalidateFile (wal_BM w) p\<rparr>, y_disk := (y_disk y)(p := None)\<rparr>)"

fun delete_loop :: "WALManifestEntry list \<Rightarrow> unit wal_op" where
  "delete_loop [] y = (Ok (), y)"
| "delete_loop (meta # metas) y =
     (if m_LowWatermark (wal_Manifest (y_wal y)) < e_SegmentID meta \<or>
         (\<exists>s \<in> set_option (wal_ActiveSegment (y_wal y)). e_SegmentID meta = s_ID s)
      then delete_loop metas y
      else let y = DeleteSegmentFile (e_SegmentID meta) y in
        bind_s (set_manifest (RemoveSegment (wal_Manifest (y_wal y)) (e_SegmentID meta))) (\<lambda>_. delete_loop metas) y)"

definition DeleteOldSegments :: "unit wal_op" where
  "DeleteOldSegments y = delete_loop (SortedSegments (wal_Manifest (y_wal y))) y"

definition WAL_SetLowWatermark :: "u64 \<Rightarrow> unit wal_op" where
  "WAL_SetLowWatermark segID y =
     (if \<exists>s \<in> set_option (wal_ActiveSegment (y_wal y)). s_ID s \<le> segID
      then (Inl (Error ''cannot set low watermark to active or future segment''), y)
      else bind_s (lift_s (Manifest_SetLowWatermark (wal_Manifest (y_wal y)) segID)) (\<lambda>m.
        bind_s (set_manifest m) (\<lambda>_. DeleteOldSegments)) y)"

definition mark_segment :: "u64 \<Rightarrow> nat \<Rightarrow> u64 \<Rightarrow> unit wal_op" where
  "mark_segment segID blockID target y =
     bind_s (lift_s (SetValidFromBlock (wal_Manifest (y_wal y)) segID blockID)) (\<lambda>m.
     bind_s (set_manifest m) (\<lambda>_.
     bind_s (lift_s (SetFlushedUpToSeqID m segID target)) set_manifest)) y"

fun mark_older :: "u64 \<Rightarrow> u64 \<Rightarrow> WALManifestEntry list \<Rightarrow> unit wal_op" where
  "mark_older foundSegmentID target [] y = (Ok (), y)"
| "mark_older foundSegmentID target (meta # metas) y =
     (if foundSegmentID \<le> e_SegmentID meta then mark_older foundSegmentID target metas y
      else bind_s (mark_segment (e_SegmentID meta) (wal_MaxBlocks (y_wal y)) target)
        (\<lambda>_. mark_older foundSegmentID target metas) y)"

definition MemtableFlushed :: "u64 \<Rightarrow> unit wal_op" where
  "MemtableFlushed target y =
     (let segments = SortedSegments (wal_Manifest (y_wal y)) in
      bind_s (find_flushed target segments None) (\<lambda>found y.
        case found of
          None \<Rightarrow> (Inl (Error ''sequenceId not found in WAL''), y)
        | Some (foundSegmentID, foundBlockID) \<Rightarrow>
            bind_s (mark_segment foundSegmentID foundBlockID target) (\<lambda>_.
            bind_s (mark_older foundSegmentID target segments) (\<lambda>_ y.
              if 1 < foundSegmentID then WAL_SetLowWatermark (foundSegmentID - 1) y else (Ok (), y))) y) y)"

section \<open>Opening and clearing\<close>

definition InitNextTxnID :: "unit wal_op" where
  "InitNextTxnID =
     bind_s ReadAllFragments (\<lambda>frags y.
       let maxTxn = foldl (\<lambda>m frag. if m < w_TxnID frag then w_TxnID frag else m) 0 frags;
           next = (if maxTxn + 1 = 0 then 1 else maxTxn + 1) in
       (Ok (), y\<lparr>y_wal := (y_wal y)\<lparr>wal_NextTxnID := next\<rparr>\<rparr>))"

definition open_first :: "unit wal_op" where
  "open_first y =
     bind_s (wal_OpenSegment 1) (\<lambda>seg y.
       set_manifest (AddSegment (wal_Manifest (y_wal y)) 1)
         (y\<lparr>y_wal := (y_wal y)\<lparr>wal_ActiveSegment := Some seg, wal_NextSegmentID := 2\<rparr>\<rparr>)) y"

text \<open>
  \<^verbatim>\<open>OpenWAL\<close> for a directory, a block size and a block count taken from the settings, on a disk with
  the files \<open>names\<close> in that directory and a manifest that was saved there (or not).
\<close>

definition OpenWAL :: "path \<Rightarrow> nat \<Rightarrow> nat \<Rightarrow> BlockManager \<Rightarrow> string list \<Rightarrow> disk \<Rightarrow> WALManifest option \<Rightarrow> unit result \<times> wal_sys" where
  "OpenWAL dir blockSize maxBlocks bm names d saved =
     (let m = NewWALManifest names saved;
          w = \<lparr>wal_Dir = dir, wal_ActiveSegment = None, wal_BlockSize = blockSize, wal_MaxBlocks = maxBlocks,
               wal_NextSegmentID = 1, wal_NextTxnID = 1, wal_BM = bm\<lparr>bm_blockSize := blockSize\<rparr>, wal_Manifest = m\<rparr>;
          y = \<lparr>y_wal = w, y_disk = d, y_saved = Some m\<rparr> in
      if m_Segments m = [] then open_first y
      else
        let lastID = e_SegmentID (last (SortedSegments m)) in
        bind_s (wal_OpenSegment lastID) (\<lambda>seg y.
        bind_s InitNextTxnID (\<lambda>_ y.
          if Segment_IsFull seg then RotateSegment y else (Ok (), y))
          (y\<lparr>y_wal := (y_wal y)\<lparr>wal_ActiveSegment := Some seg, wal_NextSegmentID := lastID + 1\<rparr>\<rparr>)) y)"

definition ClearAll :: "bool \<Rightarrow> unit wal_op" where
  "ClearAll createNewActive y =
     (let y = foldl (\<lambda>y meta. DeleteSegmentFile (e_SegmentID meta) y) y (SortedSegments (wal_Manifest (y_wal y)));
          y = snd (set_manifest empty_manifest y);
          y = y\<lparr>y_wal := (y_wal y)\<lparr>wal_ActiveSegment := None, wal_NextSegmentID := 1, wal_NextTxnID := 1\<rparr>\<rparr> in
      if createNewActive then open_first y else (Ok (), y))"

end
