(* ===== verification/Wal_Recovery.thy ===== *)
theory Wal_Recovery
  imports Wal
begin

text \<open>
  Correctness of the write-ahead log: joining fragments, the atomicity of batches, and what
  \<^verbatim>\<open>Recover\<close> returns after appends. The invariant \<open>wal_inv\<close> ties the \<^verbatim>\<open>WAL\<close> object to the files on disk
  through the blocks \<open>B\<close> every segment holds.
\<close>

section \<open>Joining fragments\<close>

definition fragments_of :: "WALRecord list \<Rightarrow> WALRecord list \<Rightarrow> bool" where
  "fragments_of wrs fs \<longleftrightarrow> (\<exists>fss. list_all2 is_fragments wrs fss \<and> fs = concat fss)"

lemma fragments_of_Nil: "fragments_of [] []"
  by (auto simp: fragments_of_def)

lemma fragments_of_append: "fragments_of wrs fs \<Longrightarrow> fragments_of wrs' gs \<Longrightarrow> fragments_of (wrs @ wrs') (fs @ gs)"
  unfolding fragments_of_def by (metis concat_append list_all2_appendI)

lemma fragments_of_single: "is_fragments wr fs \<Longrightarrow> fragments_of [wr] fs"
  unfolding fragments_of_def by (rule exI [of _ "[fs]"]) simp

lemma join_loop_middles:
  "frags_typed MIDDLE wr ms \<Longrightarrow>
   join_loop (ms @ rest) (Some cur) = join_loop rest (Some (cur\<lparr>w_Record := (w_Record cur)
     \<lparr>r_Key := r_Key (w_Record cur) @ frag_keys ms, r_Value := r_Value (w_Record cur) @ frag_vals ms\<rparr>\<rparr>))"
proof (induction ms arbitrary: cur)
  case (Cons m ms)
  then show ?case by (simp add: frags_typed_def extend_record_def)
qed simp

lemma join_loop_fragments:
  assumes "is_fragments wr fs"
  shows "join_loop (fs @ rest) None = full_record wr # join_loop rest None"
  using assms unfolding is_fragments_def
proof (elim disjE exE conjE)
  assume "fs = [full_record wr]"
  then show ?thesis by (simp add: full_record_def)
next
  fix f ms l
  assume a: "fs = f # ms @ [l]" "frags_typed FIRST wr [f]" "frags_typed MIDDLE wr ms" "frags_typed LAST wr [l]"
    "frag_keys fs = r_Key (w_Record wr)" "frag_vals fs = r_Value (w_Record wr)"
  then have k: "r_Key (w_Record f) @ frag_keys ms @ r_Key (w_Record l) = r_Key (w_Record wr)"
    and v: "r_Value (w_Record f) @ frag_vals ms @ r_Value (w_Record l) = r_Value (w_Record wr)" by auto
  from a have "w_FragType f = FIRST" "w_FragType l = LAST" and h: "same_head wr f" by (auto simp: frags_typed_def)
  then show ?thesis
    using a(1) join_loop_middles [OF a(3), of "l # rest" "f\<lparr>w_FragType := FULL\<rparr>"] h k v
    by (cases f; cases wr; cases "w_Record f"; cases "w_Record wr")
      (simp add: extend_record_def set_sizes_def full_record_def same_head_def)
qed

lemma join_loop_fragments_of:
  "fragments_of wrs fs \<Longrightarrow> join_loop (fs @ rest) None = map full_record wrs @ join_loop rest None"
proof -
  assume "fragments_of wrs fs"
  then obtain fss where "list_all2 is_fragments wrs fss" "fs = concat fss" by (auto simp: fragments_of_def)
  moreover have "list_all2 is_fragments wrs fss \<Longrightarrow>
      join_loop (concat fss @ rest) None = map full_record wrs @ join_loop rest None"
    by (induction rule: list_all2_induct) (simp_all add: join_loop_fragments)
  ultimately show ?thesis by simp
qed

lemma join_loop_orphan:
  assumes "is_orphan wr fs" "w_FragType f \<in> {FULL, FIRST}"
  shows "join_loop (fs @ f # rest) None = []"
proof -
  from assms(1) obtain g ms where fs: "fs = g # ms" and g: "frags_typed FIRST wr [g]" and ms: "frags_typed MIDDLE wr ms"
    by (auto simp: is_orphan_def)
  show ?thesis unfolding fs
    using g assms(2) join_loop_middles [OF ms, of "f # rest"] by (auto simp: frags_typed_def)
qed

lemma fragments_head: "is_fragments wr fs \<Longrightarrow> \<exists>f rest. fs = f # rest \<and> w_FragType f \<in> {FULL, FIRST}"
  by (auto simp: is_fragments_def full_record_def frags_typed_def)

section \<open>Transactions\<close>

declare txn_step.simps [simp del]

lemma txn_steps [simp]:
  "txn_step st (single_record r) = st\<lparr>t_result := t_result st @ [r]\<rparr>"
  "txn_step st (marker_record START t p) = st\<lparr>t_pending := (t_pending st)(t \<mapsto> [])\<rparr>"
  "t_pending st t = Some rs \<Longrightarrow> txn_step st (txn_record t p) = st\<lparr>t_pending := (t_pending st)(t \<mapsto> rs @ [op_record p])\<rparr>"
  "t_pending st t = Some rs \<Longrightarrow> txn_step st (marker_record COMMIT t p) =
     st\<lparr>t_result := t_result st @ rs, t_pending := (t_pending st)(t := None)\<rparr>"
  by (simp_all add: txn_step.simps single_record_def marker_record_def txn_record_def)

lemma foldl_txn_ops:
  "t_pending st t = Some rs \<Longrightarrow> foldl txn_step st (map (txn_record t) ops) =
     st\<lparr>t_pending := (t_pending st)(t \<mapsto> rs @ map op_record ops)\<rparr>"
proof (induction ops arbitrary: st rs)
  case Nil
  then show ?case by (cases st) (auto simp: fun_upd_idem)
qed simp

lemma ApplyTransactions_append:
  "ApplyTransactions (log @ rs) = t_result (foldl txn_step (foldl txn_step \<lparr>t_result = [], t_pending = Map.empty\<rparr> log) rs)"
  by (simp add: ApplyTransactions_def)

lemma txn_open: "foldl txn_step st (marker_record START t p # map (txn_record t) ops) =
    st\<lparr>t_pending := (t_pending st)(t \<mapsto> map op_record ops)\<rparr>"
  by (simp add: foldl_txn_ops)

lemma txn_complete: "t_result (foldl txn_step st (batch_records t ops)) = t_result st @ map op_record ops"
  using txn_open [of st t "hd ops" ops] by (simp add: batch_records_def)

lemma txn_singles: "foldl txn_step st (map single_record rs) = st\<lparr>t_result := t_result st @ rs\<rparr>"
  by (induction rs arbitrary: st) simp_all

section \<open>The log invariant\<close>

definition seg_view :: "BlockManager \<Rightarrow> Segment \<Rightarrow> disk \<Rightarrow> WALRecord list list \<Rightarrow> bool" where
  "seg_view bm s d blks \<longleftrightarrow> (if blks = [] then seg_inv bm s d [] [] else seg_inv bm s d (butlast blks) (last blks))"

definition wal_inv :: "wal_sys \<Rightarrow> (u64 \<Rightarrow> WALRecord list list) \<Rightarrow> bool" where
  "wal_inv y B \<longleftrightarrow> (let w = y_wal y; segs = m_Segments (wal_Manifest w) in
     segs \<noteq> [] \<and> sorted_wrt (<) (map e_SegmentID segs) \<and>
     (\<forall>e \<in> set segs. file_log (wal_BM w) (wal_MaxBlocks w) (SegmentPath (wal_Dir w) (e_SegmentID e)) (y_disk y) (B (e_SegmentID e))) \<and>
     (\<exists>s. wal_ActiveSegment w = Some s \<and> s_ID s = e_SegmentID (last segs) \<and>
        s_Path s = SegmentPath (wal_Dir w) (s_ID s) \<and> s_MaxBlocks s = wal_MaxBlocks w \<and>
        seg_view (wal_BM w) s (y_disk y) (B (s_ID s)) \<and>
        wal_NextSegmentID w = s_ID s + 1 \<and> s_ID s < s_ID s + 1) \<and>
     (\<forall>i \<ge> wal_NextSegmentID w. y_disk y (SegmentPath (wal_Dir w) i) = None))"

text \<open>What recovery reads of one segment: from its first valid block on, without the flushed records.\<close>

definition live :: "nat \<Rightarrow> (u64 \<Rightarrow> WALRecord list list) \<Rightarrow> WALManifestEntry \<Rightarrow> WALRecord list" where
  "live mb B e = (if mb \<le> e_ValidFromBlock e then []
     else filter (\<lambda>rec. \<not> r_SeqId (w_Record rec) \<le> e_FlushedUpToSeqID e)
       (concat (drop (e_ValidFromBlock e) (B (e_SegmentID e)))))"

definition live_log :: "wal_sys \<Rightarrow> (u64 \<Rightarrow> WALRecord list list) \<Rightarrow> WALRecord list" where
  "live_log y B = concat (map (live (wal_MaxBlocks (y_wal y)) B) (m_Segments (wal_Manifest (y_wal y))))"

lemma SortedSegments_id: "sorted_wrt (<) (map e_SegmentID (m_Segments m)) \<Longrightarrow> SortedSegments m = m_Segments m"
  unfolding SortedSegments_def
  by (rule sort_key_id_if_sorted) (metis strict_sorted_iff)

lemma seg_inv_grow: "seg_inv bm s d blks cur \<Longrightarrow> seg_inv bm s (EnsureSize d q m) blks cur"
  by (auto simp: seg_inv_def seg_disk_def block_holds_grow) (auto simp: EnsureSize_def Let_def)

lemma seg_view_grow: "seg_view bm s d blks \<Longrightarrow> seg_view bm s (EnsureSize d q m) blks"
  by (simp add: seg_view_def seg_inv_grow split: if_splits)

lemma wal_inv_grow:
  assumes "wal_inv y B" "e \<in> set (m_Segments (wal_Manifest (y_wal y)))"
  shows "wal_inv (y\<lparr>y_disk := EnsureSize (y_disk y) (SegmentPath (wal_Dir (y_wal y)) (e_SegmentID e)) m\<rparr>) B"
proof -
  let ?p = "SegmentPath (wal_Dir (y_wal y)) (e_SegmentID e)"
  from assms have "y_disk y ?p \<noteq> None" by (auto simp: wal_inv_def Let_def file_log_def)
  then have "EnsureSize (y_disk y) ?p m q = None \<longleftrightarrow> y_disk y q = None" for q
    by (auto simp: EnsureSize_def Let_def)
  with assms(1) show ?thesis
    unfolding wal_inv_def Let_def by (simp add: file_log_grow) (metis seg_view_grow)
qed

lemma read_fragments_loop_inv:
  assumes "wal_inv y B" "set metas \<subseteq> set (m_Segments (wal_Manifest (y_wal y)))"
  shows "\<exists>d'. read_fragments_loop metas y =
      (Ok (concat (map (live (wal_MaxBlocks (y_wal y)) B) metas)), y\<lparr>y_disk := d'\<rparr>) \<and> wal_inv (y\<lparr>y_disk := d'\<rparr>) B"
  using assms
proof (induction metas arbitrary: y)
  case Nil
  then show ?case by (intro exI [of _ "y_disk y"]) simp
next
  case (Cons e metas)
  let ?w = "y_wal y"
  let ?p = "SegmentPath (wal_Dir ?w) (e_SegmentID e)" and ?mb = "wal_MaxBlocks ?w"
  have e: "e \<in> set (m_Segments (wal_Manifest ?w))" using Cons.prems(2) by simp
  show ?case
  proof (cases "?mb \<le> e_ValidFromBlock e")
    case True
    then show ?thesis using Cons by (simp add: live_def)
  next
    case False
    define y1 where "y1 = y\<lparr>y_disk := EnsureSize (y_disk y) ?p (bm_blockSize (wal_BM ?w) * ?mb)\<rparr>"
    have log: "file_log (wal_BM ?w) ?mb ?p (y_disk y) (B (e_SegmentID e))"
      using Cons.prems(1) e by (auto simp: wal_inv_def Let_def)
    obtain s where op: "OpenSegment (e_SegmentID e) ?p ?mb (wal_BM ?w) (y_disk y) = (Ok s, y_disk y1)"
      and keep: "s_Path s = ?p" "s_MaxBlocks s = ?mb"
      using OpenSegment_log [OF log SegmentPath_nonempty, of "e_SegmentID e"] False by (auto simp: y1_def)
    have o: "wal_OpenSegment (e_SegmentID e) y = (Ok s, y1)"
      using op by (simp add: wal_OpenSegment_def Let_def y1_def)
    have rd: "ReadAllRecordsFromBlock (wal_BM (y_wal y1)) s (y_disk y1) (e_ValidFromBlock e)
        = Ok (concat (drop (e_ValidFromBlock e) (B (e_SegmentID e))))"
      by (rule ReadAllRecordsFromBlock_log) (use file_log_grow(1) [OF log] keep in \<open>simp add: y1_def\<close>)
    have inv1: "wal_inv y1 B" unfolding y1_def by (rule wal_inv_grow [OF Cons.prems(1) e])
    have "set metas \<subseteq> set (m_Segments (wal_Manifest (y_wal y1)))" using Cons.prems(2) by (simp add: y1_def)
    from Cons.IH [OF inv1 this] obtain d' where
      r: "read_fragments_loop metas y1 = (Ok (concat (map (live ?mb B) metas)), y1\<lparr>y_disk := d'\<rparr>)"
      and inv': "wal_inv (y1\<lparr>y_disk := d'\<rparr>) B" by (auto simp: y1_def)
    have "read_fragments_loop (e # metas) y =
        (Ok (live ?mb B e @ concat (map (live ?mb B) metas)), y1\<lparr>y_disk := d'\<rparr>)"
      using False o rd r by (simp add: live_def)
    then show ?thesis using inv' by (intro exI [of _ d']) (simp add: y1_def)
  qed
qed

lemma ReadAllFragments_inv:
  assumes "wal_inv y B"
  obtains d' where "ReadAllFragments y = (Ok (live_log y B), y\<lparr>y_disk := d'\<rparr>)" "wal_inv (y\<lparr>y_disk := d'\<rparr>) B"
proof -
  have "SortedSegments (wal_Manifest (y_wal y)) = m_Segments (wal_Manifest (y_wal y))"
    using assms by (intro SortedSegments_id) (auto simp: wal_inv_def Let_def)
  then show ?thesis
    using read_fragments_loop_inv [OF assms subset_refl] that by (auto simp: ReadAllFragments_def live_log_def)
qed

section \<open>Appending to the log\<close>

text \<open>The blocks of a segment after it grew by \<open>fs\<close>; blocks before the current one are unchanged.\<close>

definition extends :: "WALRecord list list \<Rightarrow> WALRecord list \<Rightarrow> WALRecord list list \<Rightarrow> bool" where
  "extends blks fs blks' \<longleftrightarrow> blks' \<noteq> [] \<and> length blks \<le> length blks' \<and>
     (\<forall>i. i < length blks \<or> i = 0 \<longrightarrow> concat (drop i blks') = concat (drop i blks) @ fs)"

lemma grows_extends:
  assumes "grows bm (butlast blks) (if blks = [] then [] else last blks) s fs s' d'"
  obtains blks' where "extends blks fs blks'" "blks' \<noteq> []" "seg_inv bm s' d' (butlast blks') (last blks')"
    "s_ID s' = s_ID s" "s_MaxBlocks s' = s_MaxBlocks s" "s_Path s' = s_Path s"
proof -
  let ?cur = "if blks = [] then [] else last blks"
  from assms obtain zs cur' where inv: "seg_inv bm s' d' (butlast blks @ zs) cur'" "cur' \<noteq> []"
    and c: "concat zs @ cur' = ?cur @ fs"
    and keep: "s_ID s' = s_ID s" "s_MaxBlocks s' = s_MaxBlocks s" "s_Path s' = s_Path s" by (auto simp: grows_def)
  define blks' where "blks' = butlast blks @ zs @ [cur']"
  have "concat (drop i blks') = concat (drop i blks) @ fs" if i: "i < length blks \<or> i = 0" for i
  proof -
    have "i \<le> length (butlast blks)" using i by auto
    then have "concat (drop i blks') = concat (drop i (butlast blks)) @ ?cur @ fs"
      using c by (simp add: blks'_def)
    moreover have "concat (drop i (butlast blks)) @ ?cur = concat (drop i blks)"
    proof (cases "blks = []")
      case False
      have "drop i (butlast blks @ [last blks]) = drop i (butlast blks) @ [last blks]"
        using \<open>i \<le> length (butlast blks)\<close> by simp
      then show ?thesis using False by simp
    qed simp
    ultimately show ?thesis by (simp flip: append_assoc)
  qed
  then have "extends blks fs blks'" by (auto simp: extends_def blks'_def)
  moreover have "seg_inv bm s' d' (butlast blks') (last blks')"
    using inv(1) by (simp add: blks'_def butlast_append)
  ultimately show ?thesis using that keep by (auto simp: blks'_def)
qed

lemma seg_view_inv:
  "seg_view bm s d blks \<longleftrightarrow> seg_inv bm s d (butlast blks) (if blks = [] then [] else last blks)"
  by (simp add: seg_view_def)

lemma file_log_cong: "d' p = d p \<Longrightarrow> file_log bm mb p d' blks = file_log bm mb p d blks"
  by (simp add: file_log_def block_holds_def disk_read_def)

lemma write_fragment_other: "write_fragment f (s, d) = (r, s', d') \<Longrightarrow> d' = d \<and> s_Path s' = s_Path s"
  by (auto simp: write_fragment_def bind_s_def split: sum.splits prod.splits)

lemma cut_fragment_other: "cut_fragment t wr payload k (s, d) = (r, s', d') \<Longrightarrow> d' = d \<and> s_Path s' = s_Path s"
  by (auto simp: cut_fragment_def bind_s_def Let_def dest: write_fragment_other split: sum.splits prod.splits)

lemma MoveToNextBlock_other: "MoveToNextBlock bm (s, d) = (r, s', d') \<Longrightarrow>
    s_Path s' = s_Path s \<and> (\<forall>q. q \<noteq> s_Path s \<longrightarrow> d' q = d q)"
  by (auto simp: MoveToNextBlock_def FlushCurrentBlock_def WriteNoCache_def NewBlockKey_def split: if_splits)

lemma middle_loop_other:
  "middle_loop bm wr payload k st = (r, s', d') \<Longrightarrow>
   s_Path s' = s_Path (fst st) \<and> (\<forall>q. q \<noteq> s_Path (fst st) \<longrightarrow> d' q = snd st q)"
proof (induction bm wr payload k st arbitrary: r s' d' rule: middle_loop.induct)
  case (1 bm wr payload k st)
  obtain s d where st: "st = (s, d)" by fastforce
  obtain r1 s1 d1 where mv: "MoveToNextBlock bm (s, d) = (r1, s1, d1)" by (metis prod_cases3)
  note o1 = MoveToNextBlock_other [OF mv]
  obtain r2 s2 d2 where cut: "cut_fragment MIDDLE wr payload k (s1, d1) = (r2, s2, d2)" by (metis prod_cases3)
  note o2 = cut_fragment_other [OF cut]
  show ?case
  proof (cases "payload = [] \<or> isl r1 \<or> 47 + int (length payload) \<le> Remaining (s_CurrentBlock s1) \<or> isl r2")
    case True
    then show ?thesis using "1.prems" mv cut o1 o2 unfolding st
      by (subst (asm) middle_loop.simps) (auto simp: bind_s_def isl_def split: if_splits sum.splits)
  next
    case False
    then obtain x1 x2 where r: "payload \<noteq> []" "r1 = Inr x1" "r2 = Inr x2" "\<not> int KEY_START + int (length payload) \<le> Remaining (s_CurrentBlock s1)"
      by (cases r1; cases r2) auto
    have "middle_loop bm wr (fst x2) (snd x2) (s2, d2) = (r, s', d')"
      using "1.prems" mv cut r unfolding st by (subst (asm) middle_loop.simps) simp
    with "1.IH" [of x1 "(s1, d1)" s1 d1 x2 "(s2, d2)"] r mv cut o1 o2 st show ?thesis by auto
  qed
qed

lemma AppendWALRecord_other:
  "AppendWALRecord bm wr st = (r, s', d') \<Longrightarrow>
   s_Path s' = s_Path (fst st) \<and> (\<forall>q. q \<noteq> s_Path (fst st) \<longrightarrow> d' q = snd st q)"
proof (induction bm wr st arbitrary: r s' d' rule: AppendWALRecord.induct)
  case (1 bm wr st)
  obtain s d where st: "st = (s, d)" by fastforce
  let ?rem = "Remaining (s_CurrentBlock s)" and ?k = "r_Key (w_Record wr)" and ?v = "r_Value (w_Record wr)"
  let ?tot = "int KEY_START + int (length ?k) + int (length ?v)"
  consider "?tot \<le> ?rem" | "\<not> ?tot \<le> ?rem" "?rem \<le> int KEY_START" | "\<not> ?tot \<le> ?rem" "\<not> ?rem \<le> int KEY_START"
    by linarith
  then show ?case
  proof cases
    case 1
    then have "write_fragment (full_record wr) (s, d) = (r, s', d')"
      using "1.prems" unfolding st by (subst (asm) AppendWALRecord.simps) simp
    from write_fragment_other [OF this] show ?thesis by (simp add: st)
  next
    case 2
    obtain r1 s1 d1 where mv: "MoveToNextBlock bm (s, d) = (r1, s1, d1)" by (metis prod_cases3)
    note o1 = MoveToNextBlock_other [OF mv]
    have app: "bind_s (MoveToNextBlock bm) (\<lambda>_ st'. AppendWALRecord bm wr st') (s, d) = (r, s', d')"
      using "1.prems" 2 unfolding st by (subst (asm) AppendWALRecord.simps) simp
    show ?thesis
    proof (cases r1)
      case (Inl e)
      then show ?thesis using app mv o1 st by simp
    next
      case (Inr x)
      then have "AppendWALRecord bm wr (s1, d1) = (r, s', d')" using app mv by simp
      with "1.IH" [OF refl refl refl refl, of x "(s1, d1)"] 2 mv Inr o1 st show ?thesis by simp
    qed
  next
    case 3
    show ?thesis using "1.prems" 3 unfolding st
      by (subst (asm) AppendWALRecord.simps)
        (auto simp: bind_s_def Let_def split: sum.splits prod.splits
          dest!: cut_fragment_other middle_loop_other write_fragment_other)
  qed
qed

text \<open>
  The log between an append and the sync: everything holds except that the file of the active
  segment may lag behind its memory.
\<close>

definition wal_mem :: "wal_sys \<Rightarrow> (u64 \<Rightarrow> WALRecord list list) \<Rightarrow> bool" where
  "wal_mem y B \<longleftrightarrow> (let w = y_wal y; segs = m_Segments (wal_Manifest w) in
     segs \<noteq> [] \<and> sorted_wrt (<) (map e_SegmentID segs) \<and>
     (\<forall>e \<in> set (butlast segs).
        file_log (wal_BM w) (wal_MaxBlocks w) (SegmentPath (wal_Dir w) (e_SegmentID e)) (y_disk y) (B (e_SegmentID e))) \<and>
     (\<exists>s. wal_ActiveSegment w = Some s \<and> s_ID s = e_SegmentID (last segs) \<and>
        s_Path s = SegmentPath (wal_Dir w) (s_ID s) \<and> s_MaxBlocks s = wal_MaxBlocks w \<and>
        seg_view (wal_BM w) s (y_disk y) (B (s_ID s)) \<and>
        wal_NextSegmentID w = s_ID s + 1 \<and> s_ID s < s_ID s + 1) \<and>
     (\<forall>i \<ge> wal_NextSegmentID w. y_disk y (SegmentPath (wal_Dir w) i) = None))"

lemma set_butlast_last: "xs \<noteq> [] \<Longrightarrow> set xs = insert (last xs) (set (butlast xs))"
  by (induction xs) auto

lemma wal_inv_mem:
  "wal_inv y B \<longleftrightarrow> wal_mem y B \<and>
     (let w = y_wal y; e = last (m_Segments (wal_Manifest w)) in
      file_log (wal_BM w) (wal_MaxBlocks w) (SegmentPath (wal_Dir w) (e_SegmentID e)) (y_disk y) (B (e_SegmentID e)))"
  unfolding wal_inv_def wal_mem_def Let_def by (auto simp: set_butlast_last)

lemma sorted_butlast_last:
  "sorted_wrt (<) (map f xs) \<Longrightarrow> e \<in> set (butlast xs) \<Longrightarrow> (f e :: 'a :: linorder) < f (last xs)"
  by (cases xs rule: rev_cases) (auto simp: sorted_wrt_append)

text \<open>Replacing the active segment's contents.\<close>

lemma wal_mem_update:
  assumes mem: "wal_mem y B" and act: "wal_ActiveSegment (y_wal y) = Some s"
    and view: "seg_view (wal_BM (y_wal y)) s' d' blks'"
    and keep: "s_ID s' = s_ID s" "s_MaxBlocks s' = s_MaxBlocks s" "s_Path s' = s_Path s"
    and other: "\<And>q. q \<noteq> s_Path s \<Longrightarrow> d' q = y_disk y q"
  shows "wal_mem (y\<lparr>y_wal := (y_wal y)\<lparr>wal_ActiveSegment := Some s'\<rparr>, y_disk := d'\<rparr>) (B(s_ID s := blks'))"
proof -
  let ?w = "y_wal y" and ?segs = "m_Segments (wal_Manifest (y_wal y))"
  have s: "s_ID s = e_SegmentID (last ?segs)" "s_Path s = SegmentPath (wal_Dir ?w) (s_ID s)"
      "wal_NextSegmentID ?w = s_ID s + 1" "s_ID s < s_ID s + 1"
    and m: "?segs \<noteq> []" "sorted_wrt (<) (map e_SegmentID ?segs)"
    using mem act by (auto simp: wal_mem_def Let_def)
  have neq: "e_SegmentID e \<noteq> s_ID s" if "e \<in> set (butlast ?segs)" for e
    using sorted_butlast_last [OF m(2) that] s(1) by simp
  have none: "i \<noteq> s_ID s" if "wal_NextSegmentID ?w \<le> i" for i using that s(3,4) by auto
  have "file_log (wal_BM ?w) (wal_MaxBlocks ?w) (SegmentPath (wal_Dir ?w) (e_SegmentID e)) d' (B (e_SegmentID e))"
    if "e \<in> set (butlast ?segs)" for e
  proof -
    have "d' (SegmentPath (wal_Dir ?w) (e_SegmentID e)) = y_disk y (SegmentPath (wal_Dir ?w) (e_SegmentID e))"
      using other [of "SegmentPath (wal_Dir ?w) (e_SegmentID e)"] neq [OF that] s(2) by (simp add: SegmentPath_inj)
    from file_log_cong [of d' "SegmentPath (wal_Dir ?w) (e_SegmentID e)" "y_disk y", OF this] show ?thesis
      using mem that by (simp add: wal_mem_def Let_def)
  qed
  moreover have "d' (SegmentPath (wal_Dir ?w) i) = None" if "wal_NextSegmentID ?w \<le> i" for i
    using other [of "SegmentPath (wal_Dir ?w) i"] none [OF that] s(2) mem that
    by (simp add: SegmentPath_inj wal_mem_def Let_def)
  ultimately show ?thesis
    using mem act view keep s neq unfolding wal_mem_def Let_def by simp
qed

lemma wal_mem_active:
  assumes "wal_mem y B" "wal_ActiveSegment (y_wal y) = Some s"
  shows "s_ID s = e_SegmentID (last (m_Segments (wal_Manifest (y_wal y))))"
    "s_Path s = SegmentPath (wal_Dir (y_wal y)) (s_ID s)" "s_MaxBlocks s = wal_MaxBlocks (y_wal y)"
    "seg_view (wal_BM (y_wal y)) s (y_disk y) (B (s_ID s))"
    "wal_NextSegmentID (y_wal y) = s_ID s + 1" "s_ID s < s_ID s + 1"
  using assms by (auto simp: wal_mem_def Let_def)

lemma wal_inv_imp_mem: "wal_inv y B \<Longrightarrow> wal_mem y B"
  by (simp add: wal_inv_mem)

text \<open>Everything about the state that the segments' contents do not determine.\<close>

definition same_wal :: "wal_sys \<Rightarrow> wal_sys \<Rightarrow> bool" where
  "same_wal y y' \<longleftrightarrow> wal_Dir (y_wal y') = wal_Dir (y_wal y) \<and> wal_MaxBlocks (y_wal y') = wal_MaxBlocks (y_wal y) \<and>
     wal_BM (y_wal y') = wal_BM (y_wal y) \<and> wal_Manifest (y_wal y') = wal_Manifest (y_wal y) \<and>
     wal_NextSegmentID (y_wal y') = wal_NextSegmentID (y_wal y) \<and> wal_NextTxnID (y_wal y') = wal_NextTxnID (y_wal y)"

lemma WAL_Sync_inv:
  assumes mem: "wal_mem y B" and act: "wal_ActiveSegment (y_wal y) = Some s" and ne: "B (s_ID s) \<noteq> []"
    and seg_ne: "last (B (s_ID s)) \<noteq> []"
  obtains y' where "on_active (Segment_Sync (wal_BM (y_wal y))) y = (Ok (), y')" "wal_inv y' B" "same_wal y y'"
    "wal_ActiveSegment (y_wal y') = Some s" "WAL_Sync y = (Ok (), y')"
proof -
  let ?bm = "wal_BM (y_wal y)" and ?B = "B (s_ID s)"
  note s = wal_mem_active [OF mem act]
  then have inv: "seg_inv ?bm s (y_disk y) (butlast ?B) (last ?B)" using ne by (simp add: seg_view_def)
  obtain d' where sy: "Segment_Sync ?bm (s, y_disk y) = (Ok (), s, d')"
    and inv': "seg_inv ?bm s d' (butlast ?B) (last ?B)"
    and log: "file_log ?bm (s_MaxBlocks s) (s_Path s) d' (butlast ?B @ [last ?B])"
    and other: "\<And>q. q \<noteq> s_Path s \<Longrightarrow> d' q = y_disk y q"
    by (rule Segment_Sync_log [OF inv seg_ne], rule that)
  define y' where "y' = y\<lparr>y_wal := (y_wal y)\<lparr>wal_ActiveSegment := Some s\<rparr>, y_disk := d'\<rparr>"
  have view: "seg_view ?bm s d' ?B" using inv' ne by (simp add: seg_view_def)
  have "wal_mem y' (B(s_ID s := ?B))"
    unfolding y'_def by (rule wal_mem_update [OF mem act view]) (simp_all add: other)
  moreover have "file_log ?bm (wal_MaxBlocks (y_wal y)) (SegmentPath (wal_Dir (y_wal y)) (s_ID s)) d' ?B"
    using log s ne by simp
  ultimately have "wal_inv y' B" using s by (simp add: wal_inv_mem Let_def y'_def)
  moreover have "on_active (Segment_Sync ?bm) y = (Ok (), y')" using sy act by (simp add: on_active_def y'_def)
  moreover have "same_wal y y'" by (simp add: same_wal_def y'_def)
  ultimately show ?thesis using that act by (simp add: WAL_Sync_def y'_def)
qed

lemma OpenSegment_new:
  assumes "d p = None" "p \<noteq> []" "0 < mb" "KEY_START < bm_blockSize bm" "bm_blockSize bm < max_alloc"
  obtains s where "OpenSegment segID p mb bm d = (Ok s, EnsureSize d p (bm_blockSize bm * mb))"
    "s_ID s = segID" "s_Path s = p" "s_MaxBlocks s = mb" "Remaining (s_CurrentBlock s) = int (bm_blockSize bm)"
    "seg_inv bm s (EnsureSize d p (bm_blockSize bm * mb)) [] []"
proof -
  let ?n = "bm_blockSize bm" and ?d = "EnsureSize d p (bm_blockSize bm * mb)"
  define s where "s = \<lparr>s_ID = segID, s_Path = p, s_BlockSize = ?n, s_MaxBlocks = mb,
    s_CurrentBlockIndex = 0, s_CurrentBlock = NewBlock ?n\<rparr>"
  have "OpenSegment segID p mb bm d = (Ok s, ?d)" using assms by (simp add: OpenSegment_def s_def Let_def)
  moreover have "seg_inv bm s ?d [] []"
    using file_log_new [of d p bm mb "bm_blockSize bm * mb", OF assms(1,4,5)] assms
    by (auto simp: seg_inv_def seg_mem_def seg_disk_def s_def NewBlock_def block_image_def file_log_def)
  ultimately show ?thesis using that [of s] by (simp add: s_def Remaining_def NewBlock_def)
qed

lemma seg_inv_sizes: "seg_inv bm s d blks cur \<Longrightarrow>
    KEY_START < bm_blockSize bm \<and> bm_blockSize bm < max_alloc \<and> 0 < s_MaxBlocks s"
  by (simp add: seg_inv_def seg_mem_def)

lemma RotateSegment_inv:
  assumes mem: "wal_mem y B" and act: "wal_ActiveSegment (y_wal y) = Some s"
    and ne: "B (s_ID s) \<noteq> []" "last (B (s_ID s)) \<noteq> []"
    and room: "wal_NextSegmentID (y_wal y) < wal_NextSegmentID (y_wal y) + 1"
  obtains y' s' where "RotateSegment y = (Ok (), y')" "wal_inv y' (B(wal_NextSegmentID (y_wal y) := []))"
    "m_Segments (wal_Manifest (y_wal y')) = m_Segments (wal_Manifest (y_wal y)) @ [new_entry (wal_NextSegmentID (y_wal y))]"
    "wal_MaxBlocks (y_wal y') = wal_MaxBlocks (y_wal y)" "wal_BM (y_wal y') = wal_BM (y_wal y)"
    "wal_ActiveSegment (y_wal y') = Some s'" "s_ID s' = wal_NextSegmentID (y_wal y)"
    "Remaining (s_CurrentBlock s') = int (bm_blockSize (wal_BM (y_wal y)))"
    "wal_NextSegmentID (y_wal y') = wal_NextSegmentID (y_wal y) + 1"
proof -
  let ?id = "wal_NextSegmentID (y_wal y)" and ?bm = "wal_BM (y_wal y)" and ?mb = "wal_MaxBlocks (y_wal y)"
  let ?p = "SegmentPath (wal_Dir (y_wal y)) ?id"
  obtain y1 where sync: "on_active (Segment_Sync ?bm) y = (Ok (), y1)" and inv1: "wal_inv y1 B" and same: "same_wal y y1"
    and act1: "wal_ActiveSegment (y_wal y1) = Some s"
    by (rule WAL_Sync_inv [OF mem act ne], rule that)
  have s: "s_ID s = e_SegmentID (last (m_Segments (wal_Manifest (y_wal y1))))"
    "seg_view ?bm s (y_disk y1) (B (s_ID s))" "s_MaxBlocks s = ?mb" "?id = s_ID s + 1" "s_ID s < s_ID s + 1"
    using wal_mem_active [OF wal_inv_imp_mem [OF inv1] act1] same by (auto simp: same_wal_def)
  have sizes: "KEY_START < bm_blockSize ?bm" "bm_blockSize ?bm < max_alloc" "0 < ?mb"
    using seg_inv_sizes [OF s(2) [unfolded seg_view_inv]] s(3) by auto
  have none: "y_disk y1 ?p = None" using inv1 same by (auto simp: wal_inv_def Let_def same_wal_def)
  obtain s' where op: "OpenSegment ?id ?p ?mb ?bm (y_disk y1) = (Ok s', EnsureSize (y_disk y1) ?p (bm_blockSize ?bm * ?mb))"
    and s': "s_ID s' = ?id" "s_Path s' = ?p" "s_MaxBlocks s' = ?mb" "Remaining (s_CurrentBlock s') = int (bm_blockSize ?bm)"
      "seg_inv ?bm s' (EnsureSize (y_disk y1) ?p (bm_blockSize ?bm * ?mb)) [] []"
    by (rule OpenSegment_new [of "y_disk y1" ?p ?mb ?bm ?id, OF none SegmentPath_nonempty sizes(3,1,2)], rule that)
  let ?d = "EnsureSize (y_disk y1) ?p (bm_blockSize ?bm * ?mb)"
  define m where "m = AddSegment (wal_Manifest (y_wal y)) ?id"
  define y' where "y' = \<lparr>y_wal = (y_wal y1)\<lparr>wal_Manifest := m, wal_ActiveSegment := Some s',
    wal_NextSegmentID := ?id + 1\<rparr>, y_disk = ?d, y_saved = Some m\<rparr>"
  have rot: "RotateSegment y = (Ok (), y')"
    using sync same op by (simp add: RotateSegment_def wal_OpenSegment_def set_manifest_def Let_def same_wal_def y'_def m_def)
  have lt: "e_SegmentID e < ?id" if "e \<in> set (m_Segments (wal_Manifest (y_wal y1)))" for e
  proof -
    have "e_SegmentID e \<le> s_ID s"
      using that s(1) inv1 sorted_butlast_last [of e_SegmentID "m_Segments (wal_Manifest (y_wal y1))" e]
      by (force simp: wal_inv_def Let_def set_butlast_last)
    then show ?thesis using s(4,5) by simp
  qed
  have new: "file_log ?bm ?mb ?p ?d []" by (rule file_log_new [of "y_disk y1" ?p ?bm, OF none sizes(1,2)])
  have exd: "?d q = y_disk y1 q" if "q \<noteq> ?p" for q using that by (simp add: EnsureSize_def Let_def)
  have "wal_inv y' (B(?id := []))"
    unfolding wal_inv_def Let_def
  proof (intro conjI ballI allI impI)
    fix e assume e: "e \<in> set (m_Segments (wal_Manifest (y_wal y')))"
    then consider "e_SegmentID e = ?id" | "e \<in> set (m_Segments (wal_Manifest (y_wal y1)))"
      using same by (auto simp: y'_def m_def AddSegment_def new_entry_def same_wal_def)
    then show "file_log (wal_BM (y_wal y')) (wal_MaxBlocks (y_wal y')) (SegmentPath (wal_Dir (y_wal y')) (e_SegmentID e))
        (y_disk y') ((B(?id := [])) (e_SegmentID e))"
    proof cases
      case 1 then show ?thesis using new same by (simp add: y'_def same_wal_def)
    next
      case 2
      then have "file_log ?bm ?mb (SegmentPath (wal_Dir (y_wal y)) (e_SegmentID e)) (y_disk y1) (B (e_SegmentID e))"
        using inv1 same by (auto simp: wal_inv_def Let_def same_wal_def)
      then show ?thesis using file_log_grow(1) lt [OF 2] same by (auto simp: y'_def same_wal_def)
    qed
  next
    show "sorted_wrt (<) (map e_SegmentID (m_Segments (wal_Manifest (y_wal y'))))"
      using inv1 lt same by (auto simp: y'_def m_def AddSegment_def new_entry_def same_wal_def wal_inv_def Let_def sorted_wrt_append)
  next
    fix i assume i: "wal_NextSegmentID (y_wal y') \<le> i"
    then have "?id < i" using room by (simp add: y'_def)
    then show "y_disk y' (SegmentPath (wal_Dir (y_wal y')) i) = None"
      using exd inv1 same by (simp add: y'_def SegmentPath_inj wal_inv_def Let_def same_wal_def)
  qed (use s' room same in \<open>auto simp: y'_def m_def AddSegment_def new_entry_def same_wal_def seg_view_def\<close>)
  then show ?thesis using that [OF rot] s' same by (simp add: y'_def m_def AddSegment_def same_wal_def)
qed

lemma seg_mem_unique:
  assumes "seg_mem bm s k cur" "seg_mem bm s k' cur'"
  shows "cur = cur'"
proof -
  have r: "readable (bm_blockSize bm) cur" "readable (bm_blockSize bm) cur'" and sz: "bm_blockSize bm < max_alloc"
    and eq: "block_image (bm_blockSize bm) cur = block_image (bm_blockSize bm) cur'"
    using assms unfolding seg_mem_def by metis+
  show ?thesis using ReadBlockRecords_image [OF r(1) sz] ReadBlockRecords_image [OF r(2) sz] eq by (metis sum.inject(2))
qed

text \<open>
  Outcome of an append on the active segment. When it fails, what is left behind is nothing if the
  segment was full before, and otherwise the first fragments of the record.
\<close>

definition leftover :: "WALRecord \<Rightarrow> Segment \<Rightarrow> WALRecord list list \<Rightarrow> WALRecord list \<Rightarrow> WALRecord list list \<Rightarrow> bool" where
  "leftover wr s blks orph blks' \<longleftrightarrow>
     orph = [] \<and> blks' = blks \<and> ran_full s \<or> is_orphan wr orph \<and> extends blks orph blks' \<and> \<not> ran_full s"

lemma on_active_append:
  assumes mem: "wal_mem y B" and act: "wal_ActiveSegment (y_wal y) = Some s" and ok: "appendable wr s"
  shows "(\<exists>y' s' fs blks'. on_active (AppendWALRecord (wal_BM (y_wal y)) wr) y = (Ok (), y') \<and>
      wal_ActiveSegment (y_wal y') = Some s' \<and> s_ID s' = s_ID s \<and> same_wal y y' \<and> is_fragments wr fs \<and>
      extends (B (s_ID s)) fs blks' \<and> blks' \<noteq> [] \<and> last blks' \<noteq> [] \<and> wal_mem y' (B(s_ID s := blks'))) \<or>
    (\<exists>y' s' orph blks'. on_active (AppendWALRecord (wal_BM (y_wal y)) wr) y = (Inl (Error ''segment is full''), y') \<and>
      wal_ActiveSegment (y_wal y') = Some s' \<and> s_ID s' = s_ID s \<and> same_wal y y' \<and> ran_full s' \<and>
      leftover wr s (B (s_ID s)) orph blks' \<and>
      blks' \<noteq> [] \<and> last blks' \<noteq> [] \<and> wal_mem y' (B(s_ID s := blks')))"
proof -
  let ?bm = "wal_BM (y_wal y)" and ?B = "B (s_ID s)"
  let ?cur = "if ?B = [] then [] else last ?B"
  note s = wal_mem_active [OF mem act]
  have inv: "seg_inv ?bm s (y_disk y) (butlast ?B) ?cur" using s(4) unfolding seg_view_inv .
  define upd where "upd = (\<lambda>s' d'. y\<lparr>y_wal := (y_wal y)\<lparr>wal_ActiveSegment := Some s'\<rparr>, y_disk := d'\<rparr>)"
  have run: "on_active (AppendWALRecord ?bm wr) y = (r, upd s' d')" if "AppendWALRecord ?bm wr (s, y_disk y) = (r, s', d')" for r s' d'
    using that act by (simp add: on_active_def upd_def)
  have grown: "\<exists>blks'. extends ?B fs blks' \<and> blks' \<noteq> [] \<and> last blks' \<noteq> [] \<and> wal_mem (upd s' d') (B(s_ID s := blks')) \<and> s_ID s' = s_ID s"
    if g: "grows ?bm (butlast ?B) ?cur s fs s' d'" and r: "AppendWALRecord ?bm wr (s, y_disk y) = (r, s', d')" for fs s' d' r
  proof -
    obtain blks' where b: "extends ?B fs blks'" "blks' \<noteq> []" "seg_inv ?bm s' d' (butlast blks') (last blks')"
      and keep: "s_ID s' = s_ID s" "s_MaxBlocks s' = s_MaxBlocks s" "s_Path s' = s_Path s"
      by (rule grows_extends [OF g], rule that)
    from g have "\<exists>zs cur'. cur' \<noteq> [] \<and> seg_inv ?bm s' d' (butlast ?B @ zs) cur'" by (auto simp: grows_def)
    then have "last blks' \<noteq> []" using b(3) seg_mem_unique unfolding seg_inv_def by blast
    moreover have "wal_mem (upd s' d') (B(s_ID s := blks'))"
      unfolding upd_def
      by (rule wal_mem_update [OF mem act _ keep]) (use b AppendWALRecord_other [OF r] in \<open>auto simp: seg_view_def\<close>)
    ultimately show ?thesis using b keep by blast
  qed
  have same: "same_wal y (upd s' d')" "wal_ActiveSegment (y_wal (upd s' d')) = Some s'" for s' d'
    by (simp_all add: same_wal_def upd_def)
  from AppendWALRecord_inv [OF inv ok] consider
      (wrote) s' d' fs where "grows ?bm (butlast ?B) ?cur s fs s' d'" "AppendWALRecord ?bm wr (s, y_disk y) = (Ok (), s', d')" "is_fragments wr fs"
    | (orphan) s' d' fs where "grows ?bm (butlast ?B) ?cur s fs s' d'"
        "AppendWALRecord ?bm wr (s, y_disk y) = (Inl (Error ''segment is full''), s', d')" "is_orphan wr fs" "ran_full s'" "\<not> ran_full s"
    | (full) "AppendWALRecord ?bm wr (s, y_disk y) = (Inl (Error ''segment is full''), s, y_disk y)" "ran_full s" by blast
  then show ?thesis
  proof cases
    case wrote
    from grown [OF wrote(1,2)] run [OF wrote(2)] same [of s' d'] wrote(3) show ?thesis by blast
  next
    case orphan
    from grown [OF orphan(1,2)] run [OF orphan(2)] same [of s' d'] orphan(3-5) show ?thesis unfolding leftover_def by blast
  next
    case full
    have ne: "?cur \<noteq> []" using seg_cur_nonempty [OF inv] full(2) by (simp add: ran_full_def)
    have "upd s (y_disk y) = y" using act by (simp add: upd_def)
    then have m: "wal_mem (upd s (y_disk y)) (B(s_ID s := ?B))" using mem by simp
    show ?thesis
      by (intro disjI2 exI [of _ "upd s (y_disk y)"] exI [of _ s] exI [of _ "[]"] exI [of _ ?B])
        (use run [OF full(1)] same m ne full(2) in \<open>auto simp: leftover_def split: if_splits\<close>)
  qed
qed

lemma append_then_sync:
  assumes mem: "wal_mem y B" and act: "wal_ActiveSegment (y_wal y) = Some s" and ok: "appendable wr s"
    and app: "on_active (AppendWALRecord (wal_BM (y_wal y)) wr) y = (Ok (), y1)"
  obtains y2 blks' fs where "WAL_Sync y1 = (Ok (), y2)" "wal_inv y2 (B(s_ID s := blks'))" "same_wal y y2"
    "is_fragments wr fs" "extends (B (s_ID s)) fs blks'"
proof -
  from on_active_append [OF mem act ok] app obtain s' fs blks' where
    a: "wal_ActiveSegment (y_wal y1) = Some s'" "s_ID s' = s_ID s" "same_wal y y1" "is_fragments wr fs"
      "extends (B (s_ID s)) fs blks'" "blks' \<noteq> []" "last blks' \<noteq> []" and mem1: "wal_mem y1 (B(s_ID s := blks'))"
    by auto
  have "(B(s_ID s := blks')) (s_ID s') \<noteq> []" "last ((B(s_ID s := blks')) (s_ID s')) \<noteq> []" using a by simp_all
  from WAL_Sync_inv [OF mem1 a(1) this] obtain y2 where "WAL_Sync y1 = (Ok (), y2)" "wal_inv y2 (B(s_ID s := blks'))" "same_wal y1 y2"
    by blast
  with that a show ?thesis by (simp add: same_wal_def)
qed

section \<open>The live log grows\<close>

lemma fragments_seq: "is_fragments wr fs \<Longrightarrow> f \<in> set fs \<Longrightarrow> r_SeqId (w_Record f) = r_SeqId (w_Record wr)"
  by (auto simp: is_fragments_def full_record_def frags_typed_def same_head_def list_all_iff)

lemma orphan_seq: "is_orphan wr fs \<Longrightarrow> f \<in> set fs \<Longrightarrow> r_SeqId (w_Record f) = r_SeqId (w_Record wr)"
  by (auto simp: is_orphan_def frags_typed_def same_head_def list_all_iff)

text \<open>New records land behind the first valid block of the active segment.\<close>

definition tail_ok :: "wal_sys \<Rightarrow> (u64 \<Rightarrow> WALRecord list list) \<Rightarrow> u64 \<Rightarrow> bool" where
  "tail_ok y B q \<longleftrightarrow> (let e = last (m_Segments (wal_Manifest (y_wal y))) in
     (e_ValidFromBlock e = 0 \<or> e_ValidFromBlock e < length (B (e_SegmentID e))) \<and>
     e_ValidFromBlock e < wal_MaxBlocks (y_wal y) \<and> e_FlushedUpToSeqID e < q)"

lemma live_extends:
  assumes "extends (B (e_SegmentID e)) fs blks'" "\<forall>f \<in> set fs. r_SeqId (w_Record f) = q"
    and "e_ValidFromBlock e = 0 \<or> e_ValidFromBlock e < length (B (e_SegmentID e))" "e_ValidFromBlock e < mb"
    and "e_FlushedUpToSeqID e < q"
  shows "live mb (B(e_SegmentID e := blks')) e = live mb B e @ fs"
proof -
  have "concat (drop (e_ValidFromBlock e) blks') = concat (drop (e_ValidFromBlock e) (B (e_SegmentID e))) @ fs"
    using assms(1,3) by (auto simp: extends_def)
  moreover have "filter (\<lambda>rec. \<not> r_SeqId (w_Record rec) \<le> e_FlushedUpToSeqID e) fs = fs"
    using assms(2,5) by (auto simp: filter_id_conv)
  ultimately show ?thesis using assms(4) by (simp add: live_def)
qed

lemma live_log_extends:
  assumes inv: "wal_mem y B" and e: "e = last (m_Segments (wal_Manifest (y_wal y)))"
    and ext: "extends (B (e_SegmentID e)) fs blks'" and q: "\<forall>f \<in> set fs. r_SeqId (w_Record f) = q" and t: "tail_ok y B q"
  shows "live_log y (B(e_SegmentID e := blks')) = live_log y B @ fs"
proof -
  let ?segs = "m_Segments (wal_Manifest (y_wal y))"
  have m: "?segs \<noteq> []" "sorted_wrt (<) (map e_SegmentID ?segs)" using inv by (auto simp: wal_mem_def Let_def)
  have "live (wal_MaxBlocks (y_wal y)) (B(e_SegmentID e := blks')) x = live (wal_MaxBlocks (y_wal y)) B x"
    if "x \<in> set (butlast ?segs)" for x
    using sorted_butlast_last [OF m(2) that] e by (simp add: live_def)
  then have "map (live (wal_MaxBlocks (y_wal y)) (B(e_SegmentID e := blks'))) (butlast ?segs)
      = map (live (wal_MaxBlocks (y_wal y)) B) (butlast ?segs)" by (intro map_cong) auto
  moreover obtain pre where "?segs = pre @ [e]" using m(1) e by (metis append_butlast_last_id)
  moreover have "live (wal_MaxBlocks (y_wal y)) (B(e_SegmentID e := blks')) e = live (wal_MaxBlocks (y_wal y)) B e @ fs"
    by (rule live_extends [of B e fs blks' q, OF ext q]) (use t e in \<open>auto simp: tail_ok_def Let_def\<close>)
  ultimately show ?thesis unfolding live_log_def by (simp del: map_eq_conv)
qed

lemma tail_ok_extends:
  "extends (B i) fs blks' \<Longrightarrow> tail_ok y B q \<Longrightarrow> i = e_SegmentID (last (m_Segments (wal_Manifest (y_wal y)))) \<Longrightarrow>
   tail_ok y (B(i := blks')) q"
  by (auto simp: tail_ok_def Let_def extends_def)

lemma tail_ok_pos: "tail_ok y B q \<Longrightarrow> 0 < q"
  by (auto simp: tail_ok_def Let_def intro: le_less_trans [OF word_zero_le])

lemma live_log_same: "same_wal y y' \<Longrightarrow> live_log y' B = live_log y B" "same_wal y y' \<Longrightarrow> tail_ok y' B q = tail_ok y B q"
  by (simp_all add: live_log_def same_wal_def tail_ok_def)

text \<open>Whether an append leaves no orphaned fragments: the active segment was full before, or takes the record.\<close>

definition clean_append :: "WALRecord \<Rightarrow> wal_sys \<Rightarrow> bool" where
  "clean_append wr y \<longleftrightarrow> (case wal_ActiveSegment (y_wal y) of None \<Rightarrow> False
     | Some s \<Rightarrow> Segment_IsFull s \<or> fst (AppendWALRecord (wal_BM (y_wal y)) wr (s, y_disk y)) = Ok ())"

lemma appendable_fresh: "wal_wf wr \<Longrightarrow> KEY_START < n \<Longrightarrow> Remaining (s_CurrentBlock s) = int n \<Longrightarrow> appendable wr s"
  by (simp add: appendable_def)

lemma on_active_state: "on_active f y = (r, y') \<Longrightarrow> y' = y \<or>
    (\<exists>s d. y' = y\<lparr>y_wal := (y_wal y)\<lparr>wal_ActiveSegment := Some s\<rparr>, y_disk := d\<rparr>)"
  by (auto simp: on_active_def split: option.splits prod.splits)

text \<open>A record rewritten in a new segment after the active one ran full.\<close>

lemma rotate_and_append:
  assumes mem: "wal_mem y B" and act: "wal_ActiveSegment (y_wal y) = Some s"
    and ne: "B (s_ID s) \<noteq> []" "last (B (s_ID s)) \<noteq> []" and wf: "wal_wf wr" "0 < r_SeqId (w_Record wr)"
    and room: "wal_NextSegmentID (y_wal y) < wal_NextSegmentID (y_wal y) + 1"
    and run: "bind_s (bind_s RotateSegment (\<lambda>_ y. on_active (AppendWALRecord (wal_BM (y_wal y)) wr) y)) (\<lambda>_. WAL_Sync) y = (Ok (), y')"
  obtains B' fs where "wal_inv y' B'" "is_fragments wr fs" "live_log y' B' = live_log y B @ fs"
    "\<forall>q > 0. tail_ok y' B' q" "wal_NextSegmentID (y_wal y') = wal_NextSegmentID (y_wal y) + 1"
    "wal_MaxBlocks (y_wal y') = wal_MaxBlocks (y_wal y)" "wal_BM (y_wal y') = wal_BM (y_wal y)"
proof -
  let ?id = "wal_NextSegmentID (y_wal y)" and ?q = "r_SeqId (w_Record wr)" and ?mb = "wal_MaxBlocks (y_wal y)"
  obtain y1 s1 where rot: "RotateSegment y = (Ok (), y1)" and inv1: "wal_inv y1 (B(?id := []))"
    and segs: "m_Segments (wal_Manifest (y_wal y1)) = m_Segments (wal_Manifest (y_wal y)) @ [new_entry ?id]"
    and mb: "wal_MaxBlocks (y_wal y1) = ?mb" and bm: "wal_BM (y_wal y1) = wal_BM (y_wal y)"
    and act1: "wal_ActiveSegment (y_wal y1) = Some s1" "s_ID s1 = ?id"
      "Remaining (s_CurrentBlock s1) = int (bm_blockSize (wal_BM (y_wal y)))"
    and nxt: "wal_NextSegmentID (y_wal y1) = ?id + 1"
    by (rule RotateSegment_inv [OF mem act ne room], rule that)
  have mem1: "wal_mem y1 (B(?id := []))" using inv1 by (rule wal_inv_imp_mem)
  have "KEY_START < bm_blockSize (wal_BM (y_wal y))" and mb0: "0 < ?mb"
    using seg_inv_sizes [OF wal_mem_active(4) [OF mem act, unfolded seg_view_inv]] wal_mem_active(3) [OF mem act] by auto
  then have ap: "appendable wr s1" using appendable_fresh [OF wf(1)] act1(3) by blast
  have step: "bind_s (on_active (AppendWALRecord (wal_BM (y_wal y1)) wr)) (\<lambda>_. WAL_Sync) y1 = (Ok (), y')"
    using run rot by (simp add: bind_s_def)
  then obtain y2 where app: "on_active (AppendWALRecord (wal_BM (y_wal y1)) wr) y1 = (Ok (), y2)" and sy: "WAL_Sync y2 = (Ok (), y')"
    unfolding bind_s_eq_Inr by auto
  obtain blks' fs where inv': "wal_inv y' ((B(?id := []))(s_ID s1 := blks'))" and same: "same_wal y1 y'"
    and fs: "is_fragments wr fs" and ext: "extends ((B(?id := [])) (s_ID s1)) fs blks'"
    by (rule append_then_sync [OF mem1 act1(1) ap app]) (use sy in auto)
  let ?B = "B(?id := [])" and ?e = "last (m_Segments (wal_Manifest (y_wal y1)))"
  have e: "e_SegmentID ?e = ?id" "e_ValidFromBlock ?e = 0" "e_FlushedUpToSeqID ?e = 0"
    by (simp_all add: segs new_entry_def)
  have t: "tail_ok y1 ?B q" if "0 < q" for q using that mb mb0 by (simp add: tail_ok_def Let_def e)
  have ext': "extends (?B (e_SegmentID ?e)) fs blks'" using ext act1(2) e(1) by simp
  have lt: "e_SegmentID x \<noteq> ?id" if "x \<in> set (m_Segments (wal_Manifest (y_wal y)))" for x
    using sorted_butlast_last [of e_SegmentID "m_Segments (wal_Manifest (y_wal y1))" x] mem1 that
    by (simp add: wal_mem_def Let_def segs new_entry_def)
  have old: "live_log y1 ?B = live_log y B"
  proof -
    have "live ?mb ?B x = live ?mb B x" if "x \<in> set (m_Segments (wal_Manifest (y_wal y)))" for x
      using lt [OF that] by (simp add: live_def)
    then have "map (live ?mb ?B) (m_Segments (wal_Manifest (y_wal y))) = map (live ?mb B) (m_Segments (wal_Manifest (y_wal y)))"
      by (intro map_cong) auto
    moreover have "live ?mb ?B (new_entry ?id) = []" by (simp add: live_def new_entry_def)
    ultimately show ?thesis unfolding live_log_def mb segs by (simp del: map_eq_conv)
  qed
  have q: "\<forall>f \<in> set fs. r_SeqId (w_Record f) = ?q" using fragments_seq [OF fs] by blast
  have "live_log y' (?B(s_ID s1 := blks')) = live_log y B @ fs"
    using live_log_extends [OF mem1 refl ext' q t [OF wf(2)]] live_log_same(1) [OF same] old e(1) act1(2) by simp
  moreover have "tail_ok y' (?B(s_ID s1 := blks')) q" if "0 < q" for q
    using tail_ok_extends [OF ext' t [OF that] refl] live_log_same(2) [OF same] e(1) act1(2) by simp
  moreover have "wal_NextSegmentID (y_wal y') = ?id + 1" "wal_MaxBlocks (y_wal y') = ?mb" "wal_BM (y_wal y') = wal_BM (y_wal y)"
    using nxt mb bm same by (simp_all add: same_wal_def)
  ultimately show ?thesis using that inv' fs by blast
qed

lemma WAL_AppendWALRecord_log:
  assumes inv: "wal_inv y B" and act: "wal_ActiveSegment (y_wal y) = Some s" and ok: "appendable wr s"
    and t: "tail_ok y B (r_SeqId (w_Record wr))"
    and room: "wal_NextSegmentID (y_wal y) < wal_NextSegmentID (y_wal y) + 1"
    and run: "WAL_AppendWALRecord wr y = (Ok (), y')"
  obtains B' orph fs where "wal_inv y' B'" "is_fragments wr fs" "orph = [] \<or> is_orphan wr orph"
    "clean_append wr y \<longleftrightarrow> orph = []" "live_log y' B' = live_log y B @ orph @ fs" "\<forall>q. tail_ok y B q \<longrightarrow> tail_ok y' B' q"
    "wal_NextSegmentID (y_wal y') \<in> {wal_NextSegmentID (y_wal y), wal_NextSegmentID (y_wal y) + 1}"
    "wal_MaxBlocks (y_wal y') = wal_MaxBlocks (y_wal y)" "wal_BM (y_wal y') = wal_BM (y_wal y)"
proof -
  let ?bm = "wal_BM (y_wal y)" and ?q = "r_SeqId (w_Record wr)"
  let ?e = "last (m_Segments (wal_Manifest (y_wal y)))"
  have mem: "wal_mem y B" using inv by (rule wal_inv_imp_mem)
  have e: "s_ID s = e_SegmentID ?e" using wal_mem_active(1) [OF mem act] .
  have wf: "wal_wf wr" "0 < ?q" using ok tail_ok_pos [OF t] by (auto simp: appendable_def)
  have res: "fst (on_active f y) = fst (f (s, y_disk y))" for f :: "unit seg_op"
    using act by (simp add: on_active_def split: prod.split)
  from on_active_append [OF mem act ok] show ?thesis
  proof (elim disjE exE conjE, goal_cases)
    case (1 y1 s1 fs blks1)
    then have "WAL_Sync y1 = (Ok (), y')" using run act by (simp add: WAL_AppendWALRecord_def)
    with append_then_sync [OF mem act ok 1(1)] obtain blks' fs where inv': "wal_inv y' (B(s_ID s := blks'))"
      and same: "same_wal y y'" and fs: "is_fragments wr fs" and ext: "extends (B (s_ID s)) fs blks'"
      by (metis prod.inject)
    have q: "\<forall>f \<in> set fs. r_SeqId (w_Record f) = ?q" using fragments_seq [OF fs] by blast
    have "live_log y' (B(s_ID s := blks')) = live_log y B @ fs"
      using live_log_extends [OF mem refl ext [unfolded e] q t] live_log_same(1) [OF same] e by simp
    moreover have "tail_ok y' (B(s_ID s := blks')) q'" if "tail_ok y B q'" for q'
      using tail_ok_extends [OF ext that e] live_log_same(2) [OF same] by simp
    moreover have "clean_append wr y" using act res [of "AppendWALRecord ?bm wr"] 1(1) by (simp add: clean_append_def)
    ultimately show ?case using that [of _ fs "[]"] inv' fs same by (simp add: same_wal_def)
  next
    case (2 y1 s1 orph blks1)
    have full: "Segment_IsFull s1" using 2(5) by (rule ran_full_IsFull)
    have bm: "wal_BM (y_wal y1) = ?bm" and same: "same_wal y y1" using 2(4) by (auto simp: same_wal_def)
    have run1: "bind_s (bind_s RotateSegment (\<lambda>_ y. on_active (AppendWALRecord (wal_BM (y_wal y)) wr) y)) (\<lambda>_. WAL_Sync) y1 = (Ok (), y')"
      using run act 2(1,2) full by (simp add: WAL_AppendWALRecord_def bind_s_def)
    have ne1: "(B(s_ID s := blks1)) (s_ID s1) \<noteq> []" "last ((B(s_ID s := blks1)) (s_ID s1)) \<noteq> []" using 2(3,7,8) by simp_all
    have room1: "wal_NextSegmentID (y_wal y1) < wal_NextSegmentID (y_wal y1) + 1" using room same by (simp add: same_wal_def)
    obtain B' fs where inv': "wal_inv y' B'" and fs: "is_fragments wr fs"
      and live: "live_log y' B' = live_log y1 (B(s_ID s := blks1)) @ fs" and t': "\<forall>q > 0. tail_ok y' B' q"
      and nxt: "wal_NextSegmentID (y_wal y') = wal_NextSegmentID (y_wal y1) + 1"
        "wal_MaxBlocks (y_wal y') = wal_MaxBlocks (y_wal y1)" "wal_BM (y_wal y') = wal_BM (y_wal y1)"
      by (rule rotate_and_append [OF 2(9) 2(2) ne1 wf room1 run1], rule that)
    have o: "orph = [] \<or> is_orphan wr orph" using 2(6) by (auto simp: leftover_def)
    have l1: "live_log y1 (B(s_ID s := blks1)) = live_log y B @ orph"
      using 2(6) unfolding leftover_def
    proof (elim disjE conjE)
      assume ext: "is_orphan wr orph" "extends (B (s_ID s)) orph blks1" "\<not> ran_full s"
      then have "\<forall>f \<in> set orph. r_SeqId (w_Record f) = ?q" using orphan_seq by blast
      from live_log_extends [OF mem refl ext(2) [unfolded e] this t] show ?thesis
        using live_log_same(1) [OF same] e by simp
    qed (use live_log_same(1) [OF same] in simp)
    have "Segment_IsFull s \<longleftrightarrow> orph = []"
    proof
      assume f: "Segment_IsFull s"
      then have "ran_full s" using wal_mem_active(4) [OF mem act] unfolding seg_view_inv
        by (auto simp: ran_full_def Segment_IsFull_def seg_inv_def seg_mem_def)
      then show "orph = []" using 2(6) by (auto simp: leftover_def)
    next
      assume "orph = []"
      then have "ran_full s" using 2(6) by (auto simp: leftover_def is_orphan_def)
      then show "Segment_IsFull s" by (rule ran_full_IsFull)
    qed
    moreover have "fst (AppendWALRecord ?bm wr (s, y_disk y)) = Inl (Error ''segment is full'')"
      using res [of "AppendWALRecord ?bm wr", symmetric] 2(1) by simp
    ultimately have "clean_append wr y \<longleftrightarrow> orph = []" using act by (simp add: clean_append_def)
    then show ?case using that [OF inv' fs o] live l1 t' tail_ok_pos nxt same by (simp add: same_wal_def)
  qed
qed

section \<open>Runs of appends\<close>

definition writable :: "WALRecord \<Rightarrow> wal_sys \<Rightarrow> bool" where
  "writable wr y \<longleftrightarrow> (case wal_ActiveSegment (y_wal y) of None \<Rightarrow> False | Some s \<Rightarrow> appendable wr s)"

text \<open>Every append of the run succeeds and leaves no orphaned fragments behind.\<close>

fun clean_run :: "WALRecord list \<Rightarrow> wal_sys \<Rightarrow> bool" where
  "clean_run [] y = True"
| "clean_run (wr # wrs) y = (writable wr y \<and> clean_append wr y \<and>
     (case WAL_AppendWALRecord wr y of (Inr _, y') \<Rightarrow> clean_run wrs y' | (Inl _, _) \<Rightarrow> False))"

lemma room_word: "unat (x :: u64) + 1 < 2 ^ 64 \<Longrightarrow> x < x + 1 \<and> unat (x + 1) = unat x + 1"
  by (simp add: word_less_nat_alt unat_word_ariths)

lemma clean_run_log:
  assumes "wal_inv y B" "\<forall>wr \<in> set wrs. tail_ok y B (r_SeqId (w_Record wr))" "clean_run wrs y"
    and "unat (wal_NextSegmentID (y_wal y)) + length wrs < 2 ^ 64"
  shows "\<exists>y' B' fs. append_all wrs y = (Ok (), y') \<and> wal_inv y' B' \<and> fragments_of wrs fs \<and>
    live_log y' B' = live_log y B @ fs"
  using assms
proof (induction wrs arbitrary: y B)
  case Nil
  then show ?case using fragments_of_Nil by auto
next
  case (Cons wr wrs)
  obtain s where act: "wal_ActiveSegment (y_wal y) = Some s" and ok: "appendable wr s"
    using Cons.prems(3) by (auto simp: writable_def split: option.splits)
  obtain y1 where run: "WAL_AppendWALRecord wr y = (Ok (), y1)" and rest: "clean_run wrs y1" and cl: "clean_append wr y"
    using Cons.prems(3) by (auto split: prod.splits sum.splits)
  have t: "tail_ok y B (r_SeqId (w_Record wr))" using Cons.prems(2) by simp
  have room: "wal_NextSegmentID (y_wal y) < wal_NextSegmentID (y_wal y) + 1"
      "unat (wal_NextSegmentID (y_wal y) + 1) = unat (wal_NextSegmentID (y_wal y)) + 1"
    using room_word [of "wal_NextSegmentID (y_wal y)"] Cons.prems(4) by simp_all
  obtain B1 orph fs where inv1: "wal_inv y1 B1" and fs: "is_fragments wr fs" and o: "clean_append wr y \<longleftrightarrow> orph = []"
    and live: "live_log y1 B1 = live_log y B @ orph @ fs" and t1: "\<forall>q. tail_ok y B q \<longrightarrow> tail_ok y1 B1 q"
    and nxt: "wal_NextSegmentID (y_wal y1) \<in> {wal_NextSegmentID (y_wal y), wal_NextSegmentID (y_wal y) + 1}"
    by (rule WAL_AppendWALRecord_log [OF Cons.prems(1) act ok t room(1) run], rule that)
  have "unat (wal_NextSegmentID (y_wal y1)) + length wrs < 2 ^ 64" using nxt room(2) Cons.prems(4) by auto
  from Cons.IH [OF inv1 _ rest this] t1 Cons.prems(2) obtain y' B' gs where
    r: "append_all wrs y1 = (Ok (), y')" "wal_inv y' B'" "fragments_of wrs gs" "live_log y' B' = live_log y1 B1 @ gs"
    by auto
  have "fragments_of (wr # wrs) (fs @ gs)"
    using fragments_of_append [OF fragments_of_single [OF fs] r(3)] by simp
  moreover have "append_all (wr # wrs) y = (Ok (), y')" using run r(1) by simp
  moreover have "live_log y' B' = live_log y B @ fs @ gs" using r(4) live o cl by simp
  ultimately show ?case using r(2) by blast
qed

lemma Recover_log:
  assumes "wal_inv y B"
  shows "fst (Recover y) = Ok (ApplyTransactions (JoinFragments (live_log y B)))"
proof -
  obtain d' where "ReadAllFragments y = (Ok (live_log y B), y\<lparr>y_disk := d'\<rparr>)" using ReadAllFragments_inv [OF assms] by blast
  then show ?thesis by (simp add: Recover_def)
qed

section \<open>A new log\<close>

definition new_wal :: "path \<Rightarrow> nat \<Rightarrow> nat \<Rightarrow> BlockManager \<Rightarrow> wal_sys" where
  "new_wal dir blockSize maxBlocks bm = snd (OpenWAL dir blockSize maxBlocks bm [] Map.empty None)"

lemma new_wal_inv:
  assumes "KEY_START < blockSize" "blockSize < max_alloc" "0 < maxBlocks"
  shows "wal_inv (new_wal dir blockSize maxBlocks bm) (\<lambda>_. [])"
    "fst (OpenWAL dir blockSize maxBlocks bm [] Map.empty None) = Ok ()"
    "live_log (new_wal dir blockSize maxBlocks bm) (\<lambda>_. []) = []"
    "0 < q \<Longrightarrow> tail_ok (new_wal dir blockSize maxBlocks bm) (\<lambda>_. []) q"
    "wal_NextSegmentID (y_wal (new_wal dir blockSize maxBlocks bm)) = 2"
    "wal_NextTxnID (y_wal (new_wal dir blockSize maxBlocks bm)) = 1"
proof -
  let ?bm = "bm\<lparr>bm_blockSize := blockSize\<rparr>" and ?p = "SegmentPath dir 1"
  let ?d = "EnsureSize Map.empty ?p (blockSize * maxBlocks)"
  have sz: "KEY_START < bm_blockSize ?bm" "bm_blockSize ?bm < max_alloc" using assms by simp_all
  obtain s where op: "OpenSegment 1 ?p maxBlocks ?bm Map.empty = (Ok s, EnsureSize Map.empty ?p (bm_blockSize ?bm * maxBlocks))"
    and s: "s_ID s = 1" "s_Path s = ?p" "s_MaxBlocks s = maxBlocks" "Remaining (s_CurrentBlock s) = int (bm_blockSize ?bm)"
    "seg_inv ?bm s (EnsureSize Map.empty ?p (bm_blockSize ?bm * maxBlocks)) [] []"
    by (rule OpenSegment_new [of Map.empty ?p maxBlocks ?bm 1, OF _ SegmentPath_nonempty assms(3) sz], simp, rule that)
  define m where "m = empty_manifest\<lparr>m_Segments := [new_entry 1]\<rparr>"
  define y where "y = \<lparr>y_wal = \<lparr>wal_Dir = dir, wal_ActiveSegment = Some s, wal_BlockSize = blockSize, wal_MaxBlocks = maxBlocks,
               wal_NextSegmentID = 2, wal_NextTxnID = 1, wal_BM = ?bm, wal_Manifest = m\<rparr>, y_disk = ?d, y_saved = Some m\<rparr>"
  have run: "OpenWAL dir blockSize maxBlocks bm [] Map.empty None = (Ok (), y)"
    using op by (simp add: OpenWAL_def NewWALManifest_def reconstruct_def empty_manifest_def open_first_def wal_OpenSegment_def
        set_manifest_def Let_def AddSegment_def y_def m_def)
  have log: "file_log ?bm maxBlocks ?p ?d []" by (rule file_log_new) (use sz in simp_all)
  have none: "?d (SegmentPath dir i) = None" if "2 \<le> i" for i
  proof -
    have "i \<noteq> 1" using that by (auto simp: word_le_nat_alt)
    then show ?thesis by (simp add: EnsureSize_def Let_def SegmentPath_inj)
  qed
  show "wal_inv (new_wal dir blockSize maxBlocks bm) (\<lambda>_. [])"
    unfolding wal_inv_def new_wal_def run using s log none
    by (simp add: y_def m_def empty_manifest_def new_entry_def seg_view_def)
  show "fst (OpenWAL dir blockSize maxBlocks bm [] Map.empty None) = Ok ()" by (simp add: run)
  show "live_log (new_wal dir blockSize maxBlocks bm) (\<lambda>_. []) = []"
    by (simp add: live_log_def new_wal_def run y_def m_def empty_manifest_def live_def)
  show "tail_ok (new_wal dir blockSize maxBlocks bm) (\<lambda>_. []) q" if "0 < q"
    using that assms(3) by (simp add: tail_ok_def new_wal_def run y_def m_def empty_manifest_def new_entry_def)
  show "wal_NextSegmentID (y_wal (new_wal dir blockSize maxBlocks bm)) = 2"
    "wal_NextTxnID (y_wal (new_wal dir blockSize maxBlocks bm)) = 1"
    by (simp_all add: new_wal_def run y_def)
qed

lemma full_record_built [simp]:
  "full_record (single_record r) = single_record r"
  "full_record (txn_record t p) = txn_record t p"
  "full_record (marker_record k t p) = marker_record k t p"
  by (simp_all add: full_record_def single_record_def txn_record_def marker_record_def op_record_def)

lemma new_wal_recover:
  assumes "KEY_START < blockSize" "blockSize < max_alloc" "0 < maxBlocks"
    and "\<forall>wr \<in> set wrs. 0 < r_SeqId (w_Record wr)" "length wrs < 2 ^ 63"
    and "clean_run wrs (new_wal dir blockSize maxBlocks bm)"
    and "append_all wrs (new_wal dir blockSize maxBlocks bm) = (Ok (), y')"
  shows "fst (Recover y') = Ok (ApplyTransactions (map full_record wrs))"
proof -
  note new = new_wal_inv [OF assms(1-3), where dir = dir and bm = bm]
  obtain y'' B' fs where "append_all wrs (new_wal dir blockSize maxBlocks bm) = (Ok (), y'')" "wal_inv y'' B'"
      "fragments_of wrs fs" "live_log y'' B' = fs"
    using clean_run_log [OF new(1) _ assms(6)] new assms(4,5) by fastforce
  with assms(7) show ?thesis
    using Recover_log [of y' B'] join_loop_fragments_of [of wrs fs "[]"] by (simp add: JoinFragments_def)
qed

lemma append_fits:
  assumes "seg_inv bm s d blks cur" "wal_wf wr" "KEY_START + payload_len wr \<le> bm_blockSize bm"
    and "Remaining (s_CurrentBlock s) = int (bm_blockSize bm)"
  shows "fst (AppendWALRecord bm wr (s, d)) = Ok ()"
proof -
  have "seg_mem bm s (length blks) cur" using assms(1) by (simp add: seg_inv_def)
  moreover have "wal_wf (full_record wr)" "payload_len (full_record wr) = payload_len wr"
    using assms(2) unfolding full_record_mk_frag by (intro mk_frag_wf) (auto simp: payload_len_def)
  ultimately obtain s' where "write_fragment (full_record wr) (s, d) = (Ok (), s', d)"
    using write_fragment_inv [of bm s "length blks" cur "full_record wr" d] assms(3,4) seg_inv_sizes [OF assms(1)] by auto
  then show ?thesis using assms(3,4)
    by (subst AppendWALRecord.simps) (simp add: Let_def payload_len_def)
qed

text \<open>A record that fits one block can always be appended: at worst the segment is rotated.\<close>

lemma WAL_AppendWALRecord_succeeds:
  assumes inv: "wal_inv y B" and act: "wal_ActiveSegment (y_wal y) = Some s" and ok: "appendable wr s"
    and fit: "KEY_START + payload_len wr \<le> bm_blockSize (wal_BM (y_wal y))"
    and room: "wal_NextSegmentID (y_wal y) < wal_NextSegmentID (y_wal y) + 1"
  shows "\<exists>y'. WAL_AppendWALRecord wr y = (Ok (), y')"
proof -
  have mem: "wal_mem y B" using inv by (rule wal_inv_imp_mem)
  have wf: "wal_wf wr" using ok by (simp add: appendable_def)
  from on_active_append [OF mem act ok] show ?thesis
  proof (elim disjE exE conjE, goal_cases)
    case (1 y1 s1 fs blks1)
    from append_then_sync [OF mem act ok 1(1)] obtain y2 where "WAL_Sync y1 = (Ok (), y2)" by metis
    then show ?case using 1 act by (simp add: WAL_AppendWALRecord_def)
  next
    case (2 y1 s1 orph blks1)
    have full: "Segment_IsFull s1" using 2(5) by (rule ran_full_IsFull)
    have ne1: "(B(s_ID s := blks1)) (s_ID s1) \<noteq> []" "last ((B(s_ID s := blks1)) (s_ID s1)) \<noteq> []" using 2(3,7,8) by simp_all
    have room1: "wal_NextSegmentID (y_wal y1) < wal_NextSegmentID (y_wal y1) + 1" using room 2(4) by (simp add: same_wal_def)
    obtain y2 s2 where rot: "RotateSegment y1 = (Ok (), y2)" and inv2: "wal_inv y2 ((B(s_ID s := blks1))(wal_NextSegmentID (y_wal y1) := []))"
      and bm: "wal_BM (y_wal y2) = wal_BM (y_wal y1)" and act2: "wal_ActiveSegment (y_wal y2) = Some s2"
      and rem: "Remaining (s_CurrentBlock s2) = int (bm_blockSize (wal_BM (y_wal y1)))"
      by (rule RotateSegment_inv [OF 2(9) 2(2) ne1 room1]) (use that in blast)
    note mem2 = wal_inv_imp_mem [OF inv2]
    have bmy: "wal_BM (y_wal y1) = wal_BM (y_wal y)" using 2(4) by (simp add: same_wal_def)
    note si = wal_mem_active(4) [OF mem2 act2, unfolded seg_view_inv]
    have ap2: "appendable wr s2" using appendable_fresh [OF wf _ rem] seg_inv_sizes [OF si] bm by simp
    have "fst (AppendWALRecord (wal_BM (y_wal y2)) wr (s2, y_disk y2)) = Ok ()"
      by (rule append_fits [OF si wf]) (use fit bm bmy rem in simp_all)
    then obtain y3 where app: "on_active (AppendWALRecord (wal_BM (y_wal y2)) wr) y2 = (Ok (), y3)"
      using act2 by (cases "AppendWALRecord (wal_BM (y_wal y2)) wr (s2, y_disk y2)") (auto simp: on_active_def)
    from append_then_sync [OF mem2 act2 ap2 app] obtain y4 where "WAL_Sync y3 = (Ok (), y4)" by metis
    then show ?case using act 2(1,2) full rot app by (simp add: WAL_AppendWALRecord_def bind_s_def)
  qed
qed

text \<open>Records that fit the current block together are appended without moving on.\<close>

lemma append_small:
  assumes inv: "wal_inv y B" and act: "wal_ActiveSegment (y_wal y) = Some s" and wf: "wal_wf wr"
    and fit: "int (KEY_START + payload_len wr) < Remaining (s_CurrentBlock s)"
  obtains y' s' B' where "WAL_AppendWALRecord wr y = (Ok (), y')" "clean_append wr y" "writable wr y" "wal_inv y' B'"
    "wal_ActiveSegment (y_wal y') = Some s'"
    "Remaining (s_CurrentBlock s') = Remaining (s_CurrentBlock s) - int (KEY_START + payload_len wr)"
    "s_CurrentBlockIndex s' = s_CurrentBlockIndex s"
proof -
  let ?bm = "wal_BM (y_wal y)" and ?B = "B (s_ID s)"
  have mem: "wal_mem y B" using inv by (rule wal_inv_imp_mem)
  note si = wal_mem_active(4) [OF mem act, unfolded seg_view_inv]
  have m: "seg_mem ?bm s (length (butlast ?B)) (if ?B = [] then [] else last ?B)" using si by (simp add: seg_inv_def)
  have f: "wal_wf (full_record wr)" "payload_len (full_record wr) = payload_len wr"
    using wf unfolding full_record_mk_frag by (intro mk_frag_wf) (auto simp: payload_len_def)
  have ok: "appendable wr s" using wf fit by (simp add: appendable_def)
  obtain s' where w: "write_fragment (full_record wr) (s, y_disk y) = (Ok (), s', y_disk y)"
    and m': "seg_mem ?bm s' (length (butlast ?B)) ((if ?B = [] then [] else last ?B) @ [full_record wr])"
    by (rule write_fragment_inv [OF m f(1), of "y_disk y"]) (use fit f(2) that in auto)
  have rem: "Remaining (s_CurrentBlock s') = Remaining (s_CurrentBlock s) - int (KEY_START + payload_len wr)"
    using Remaining_mem [OF m'] Remaining_mem [OF m] f(2) by (simp add: length_wal_wire)
  have app: "AppendWALRecord ?bm wr (s, y_disk y) = (Ok (), s', y_disk y)"
    using w fit by (subst AppendWALRecord.simps) (simp add: Let_def payload_len_def)
  define y1 where "y1 = y\<lparr>y_wal := (y_wal y)\<lparr>wal_ActiveSegment := Some s'\<rparr>, y_disk := y_disk y\<rparr>"
  have on: "on_active (AppendWALRecord ?bm wr) y = (Ok (), y1)" using app act by (simp add: on_active_def y1_def)
  from on_active_append [OF mem act ok] on obtain blks' where
    mem1: "wal_mem y1 (B(s_ID s := blks'))" and ne: "blks' \<noteq> []" "last blks' \<noteq> []" and sid: "s_ID s' = s_ID s"
    by (auto simp: y1_def)
  have act1: "wal_ActiveSegment (y_wal y1) = Some s'" by (simp add: y1_def)
  have ne': "(B(s_ID s := blks')) (s_ID s') \<noteq> []" "last ((B(s_ID s := blks')) (s_ID s')) \<noteq> []" using ne sid by simp_all
  obtain y2 where sy: "WAL_Sync y1 = (Ok (), y2)" "wal_inv y2 (B(s_ID s := blks'))" "wal_ActiveSegment (y_wal y2) = Some s'"
    by (rule WAL_Sync_inv [OF mem1 act1 ne']) (use that in blast)
  have "WAL_AppendWALRecord wr y = (Ok (), y2)" using on sy(1) act by (simp add: WAL_AppendWALRecord_def)
  moreover have "clean_append wr y" "writable wr y" using act app ok by (simp_all add: clean_append_def writable_def)
  moreover have "s_CurrentBlockIndex s' = s_CurrentBlockIndex s" using write_fragment_Inr [OF w] by simp
  ultimately show ?thesis using that sy rem by blast
qed

lemma small_run:
  assumes "wal_inv y B" "wal_ActiveSegment (y_wal y) = Some s" "list_all wal_wf wrs"
    and "int (sum_list (map (\<lambda>wr. KEY_START + payload_len wr) wrs)) < Remaining (s_CurrentBlock s)"
  shows "clean_run wrs y \<and> (\<exists>y' s' B'. append_all wrs y = (Ok (), y') \<and> wal_inv y' B' \<and> wal_ActiveSegment (y_wal y') = Some s' \<and>
    Remaining (s_CurrentBlock s') = Remaining (s_CurrentBlock s) - int (sum_list (map (\<lambda>wr. KEY_START + payload_len wr) wrs)))"
  using assms
proof (induction wrs arbitrary: y B s)
  case (Cons wr wrs)
  have wf: "wal_wf wr" and fit: "int (KEY_START + payload_len wr) < Remaining (s_CurrentBlock s)" using Cons.prems by auto
  obtain y1 s1 B1 where a: "WAL_AppendWALRecord wr y = (Ok (), y1)" "clean_append wr y" "writable wr y" "wal_inv y1 B1"
    "wal_ActiveSegment (y_wal y1) = Some s1"
    "Remaining (s_CurrentBlock s1) = Remaining (s_CurrentBlock s) - int (KEY_START + payload_len wr)"
    "s_CurrentBlockIndex s1 = s_CurrentBlockIndex s"
    by (rule append_small [OF Cons.prems(1,2) wf fit], rule that)
  from Cons.IH [OF a(4,5)] Cons.prems(3,4) a show ?case by auto
qed auto

lemma new_wal_params:
  "wal_BM (y_wal (new_wal dir blockSize maxBlocks bm)) = bm\<lparr>bm_blockSize := blockSize\<rparr>"
  "wal_MaxBlocks (y_wal (new_wal dir blockSize maxBlocks bm)) = maxBlocks"
  by (auto simp: new_wal_def OpenWAL_def NewWALManifest_def reconstruct_def empty_manifest_def open_first_def
      wal_OpenSegment_def set_manifest_def Let_def bind_s_def OpenSegment_def split: prod.split sum.split)

lemma new_wal_active:
  assumes "KEY_START < blockSize" "blockSize < max_alloc" "0 < maxBlocks"
  obtains s where "wal_ActiveSegment (y_wal (new_wal dir blockSize maxBlocks bm)) = Some s"
    "Remaining (s_CurrentBlock s) = int blockSize"
proof -
  note inv = new_wal_inv(1) [OF assms, of dir bm]
  obtain s where s: "wal_ActiveSegment (y_wal (new_wal dir blockSize maxBlocks bm)) = Some s"
    using inv by (auto simp: wal_inv_def Let_def)
  have bm: "bm_blockSize (wal_BM (y_wal (new_wal dir blockSize maxBlocks bm))) = blockSize"
    by (simp add: new_wal_params)
  from wal_mem_active(4) [OF wal_inv_imp_mem [OF inv] s] bm have "Remaining (s_CurrentBlock s) = int blockSize"
    using Remaining_mem by (fastforce simp: seg_view_def seg_inv_def)
  with s that show ?thesis by blast
qed

lemma wires_payload: "length (wal_wires fs) = KEY_START * length fs + length (frag_keys fs) + length (frag_vals fs)"
  by (induction fs) (simp_all add: length_wal_wire payload_len_def)

lemma fragments_length: "is_fragments wr fs \<Longrightarrow> KEY_START + payload_len wr \<le> length (wal_wires fs)"
  unfolding wires_payload by (auto simp: is_fragments_def full_record_def payload_len_def)

lemma append_last_block:
  assumes inv: "seg_inv bm s d blks cur" and wf: "wal_wf wr" and idx: "s_CurrentBlockIndex s + 1 = s_MaxBlocks s"
    and sp: "int KEY_START < Remaining (s_CurrentBlock s)" "Remaining (s_CurrentBlock s) < int (KEY_START + payload_len wr)"
  shows "fst (AppendWALRecord bm wr (s, d)) = Inl (Error ''segment is full'')"
proof -
  from Append_fragmented [OF inv wf sp] obtain s' d' fs where g: "grows bm blks cur s fs s' d'"
    and r: "AppendWALRecord bm wr (s, d) = (Ok (), s', d') \<and> is_fragments wr fs \<or>
      AppendWALRecord bm wr (s, d) = (Inl (Error ''segment is full''), s', d')" by blast
  from g obtain zs cur' where inv': "seg_inv bm s' d' (blks @ zs) cur'" and c: "concat zs @ cur' = cur @ fs"
    and mb: "s_MaxBlocks s' = s_MaxBlocks s" by (auto simp: grows_def)
  have "length (blks @ zs) < s_MaxBlocks s'" "s_CurrentBlockIndex s = length blks"
    using inv inv' by (auto simp: seg_inv_def seg_mem_def)
  then have "cur' = cur @ fs" using c mb idx by (cases zs) auto
  then have "length (wal_wires cur) + length (wal_wires fs) \<le> bm_blockSize bm"
    using inv' by (auto simp: seg_inv_def seg_mem_def readable_def)
  moreover have "Remaining (s_CurrentBlock s) = int (bm_blockSize bm) - int (length (wal_wires cur))"
    using Remaining_mem inv by (auto simp: seg_inv_def)
  ultimately have "\<not> is_fragments wr fs" using fragments_length [of wr fs] sp(2) by auto
  then show ?thesis using r by auto
qed

text \<open>A record that does not fit the current block but would fit one of its own is cut in two when there is a next block.\<close>

lemma append_next_block:
  assumes inv: "seg_inv bm s d blks cur" and wf: "wal_wf wr" and room: "length blks + 1 < s_MaxBlocks s"
    and sp: "int KEY_START < Remaining (s_CurrentBlock s)" "Remaining (s_CurrentBlock s) < int (KEY_START + payload_len wr)"
    and fit: "KEY_START + payload_len wr \<le> bm_blockSize bm"
  shows "fst (AppendWALRecord bm wr (s, d)) = Ok ()"
proof -
  let ?k = "r_Key (w_Record wr)" and ?v = "r_Value (w_Record wr)"
  have mem: "seg_mem bm s (length blks) cur" and dsk: "seg_disk bm s d blks" using inv by (auto simp: seg_inv_def)
  have pl: "length ?k + length ?v \<le> payload_len wr" by (simp add: payload_len_def)
  have sp2: "Remaining (s_CurrentBlock s) < int (KEY_START + length ?k + length ?v)" using sp(2) by (simp add: payload_len_def)
  obtain s1 m where c: "cut_fragment FIRST wr (?k @ ?v) (int (length ?k)) (s, d) =
      (Ok (drop m ?k @ drop (m - length ?k) ?v, int (length (drop m ?k))), s1, d)"
    and m: "m < length ?k + length ?v"
    and mem1: "seg_mem bm s1 (length blks) (cur @ [mk_frag FIRST wr (take m ?k) (take (m - length ?k) ?v)])"
    and keep1: "s_ID s1 = s_ID s" "s_MaxBlocks s1 = s_MaxBlocks s" "s_Path s1 = s_Path s"
    using cut_fragment_inv [OF mem wf pl sp(1) sp2, of FIRST d] by (metis insertCI)
  let ?f = "mk_frag FIRST wr (take m ?k) (take (m - length ?k) ?v)" and ?k1 = "drop m ?k" and ?v1 = "drop (m - length ?k) ?v"
  have inv1: "seg_inv bm s1 d blks (cur @ [?f])" using mem1 dsk seg_disk_cong [OF keep1(2,3)] by (simp add: seg_inv_def)
  have room1: "length blks + 1 < s_MaxBlocks s1" using room keep1(2) by simp
  obtain s2 d2 where mv: "MoveToNextBlock bm (s1, d) = (Ok (), s2, d2)" and inv2: "seg_inv bm s2 d2 (blks @ [cur @ [?f]]) []"
    using MoveToNextBlock_inv [OF inv1 _ room1] by (metis snoc_eq_iff_butlast)
  have mem2: "seg_mem bm s2 (length (blks @ [cur @ [?f]])) []" using inv2 by (simp add: seg_inv_def)
  have rem2: "Remaining (s_CurrentBlock s2) = int (bm_blockSize bm)" using Remaining_mem [OF mem2] by simp
  have ne: "?k1 @ ?v1 \<noteq> []" and len: "length ?k1 + length ?v1 \<le> payload_len wr" using m pl by auto
  have fits: "int KEY_START + int (length (?k1 @ ?v1)) \<le> Remaining (s_CurrentBlock s2)" using fit len rem2 by simp
  have mid: "middle_loop bm wr (?k1 @ ?v1) (int (length ?k1)) (s1, d) = (Ok (?k1 @ ?v1, int (length ?k1)), s2, d2)"
    by (subst middle_loop.simps) (use ne fits mv in \<open>simp del: append_is_Nil_conv length_append\<close>)
  let ?l = "mk_frag LAST wr ?k1 ?v1"
  have "wal_wf ?l" by (rule mk_frag_wf) (use wf len in auto)
  moreover have "int (KEY_START + payload_len ?l) \<le> Remaining (s_CurrentBlock s2)" using fits by simp
  moreover have "0 < payload_len ?l" using ne by auto
  ultimately obtain s3 where w: "write_fragment ?l (s2, d2) = (Ok (), s3, d2)"
    using write_fragment_inv [OF mem2, of ?l d2] by metis
  have nofull: "\<not> int KEY_START + int (length ?k) + int (length ?v) \<le> Remaining (s_CurrentBlock (fst (s, d)))"
      "\<not> Remaining (s_CurrentBlock (fst (s, d))) \<le> int KEY_START"
    using sp sp2 by auto
  have "AppendWALRecord bm wr (s, d) = (Ok (), s3, d2)"
    using c mid w by (subst AppendWALRecord.simps) (simp only: Let_def nofull if_False bind_s_Inr prod.case, simp add: go_slice_def mk_frag_def)
  then show ?thesis by simp
qed

section \<open>Properties\<close>

text \<open>C1: Recovery returns what was logged. Single records appended to a new log, each with a sequence number above zero,
  come back from recovery in order and unchanged, also those cut into fragments over several blocks. The claim is for
  runs in which every append is clean (\<open>clean_run\<close>): none starts in one segment and is rewritten in the next, since that
  leaves fragments behind that hide all that follows (\<open>wal_orphan_hides_record\<close>), and none writes a record without
  key and value where just a header fits (\<open>writable\<close>).\<close>

theorem wal_recover_records:
  assumes "KEY_START < blockSize" "blockSize < max_alloc" "0 < maxBlocks"
    and "\<forall>r \<in> set rs. 0 < r_SeqId r" "length rs < 2 ^ 63"
    and "clean_run (map single_record rs) (new_wal dir blockSize maxBlocks bm)"
    and "append_all (map single_record rs) (new_wal dir blockSize maxBlocks bm) = (Ok (), y)"
  shows "fst (Recover y) = Ok rs"
proof -
  have "\<forall>wr \<in> set (map single_record rs). 0 < r_SeqId (w_Record wr)" using assms(4) by (simp add: single_record_def)
  from new_wal_recover [OF assms(1-3) this _ assms(6,7)] assms(5)
  have "fst (Recover y) = Ok (ApplyTransactions (map single_record rs))" by (simp add: comp_def)
  then show ?thesis by (simp add: ApplyTransactions_def txn_singles)
qed

definition put_record :: "u64 \<Rightarrow> bytes \<Rightarrow> bytes \<Rightarrow> Record" where
  "put_record q k v = \<lparr>r_ExpiresAt = 0, r_SeqId = q, r_OpType = OpTypePut, r_Key = k, r_Value = v\<rparr>"

lemma single_wf: "length (r_Key r) + length (r_Value r) < max_alloc \<Longrightarrow> wal_wf (single_record r)"
  by (simp add: wal_wf_def single_record_def payload_len_def)

text \<open>The second of two records is cut in two: 71 of the 128 bytes of the block are left, and it needs 77.\<close>

lemma fragmented_run:
  fixes rs :: "Record list"
  defines "rs \<equiv> [put_record 1 [97] (replicate 9 7), put_record 2 [98] (replicate 29 7)]"
  obtains y1 s y where "append_all [single_record (rs ! 0)] (new_wal ''wal'' 128 4 example_bm) = (Ok (), y1)"
    "wal_ActiveSegment (y_wal y1) = Some s" "Remaining (s_CurrentBlock s) = 71"
    "append_all (map single_record rs) (new_wal ''wal'' 128 4 example_bm) = (Ok (), y)"
    "clean_run (map single_record rs) (new_wal ''wal'' 128 4 example_bm)"
proof -
  let ?r1 = "single_record (rs ! 0)" and ?r2 = "single_record (rs ! 1)" and ?y0 = "new_wal ''wal'' 128 4 example_bm"
  have sz: "KEY_START < (128 :: nat)" "(128 :: nat) < max_alloc" "0 < (4 :: nat)" by (simp_all add: max_alloc_def)
  note new = new_wal_inv [OF sz, where dir = "''wal''" and bm = example_bm]
  have wf: "wal_wf ?r1" "wal_wf ?r2" by (rule single_wf, simp add: rs_def put_record_def max_alloc_def)+
  have pl: "payload_len ?r1 = 10" "payload_len ?r2 = 30" by (simp_all add: rs_def payload_len_def single_record_def put_record_def)
  obtain s0 where s0: "wal_ActiveSegment (y_wal ?y0) = Some s0" "Remaining (s_CurrentBlock s0) = int 128"
    by (rule new_wal_active [OF sz, where dir = "''wal''" and bm = example_bm], rule that)
  have par: "wal_BM (y_wal ?y0) = example_bm\<lparr>bm_blockSize := 128\<rparr>" "wal_MaxBlocks (y_wal ?y0) = 4" by (rule new_wal_params)+
  have fit: "int (KEY_START + payload_len ?r1) < Remaining (s_CurrentBlock s0)" using s0(2) pl by simp
  obtain y s B0 where run1: "WAL_AppendWALRecord ?r1 ?y0 = (Ok (), y)" and cl: "clean_append ?r1 ?y0" "writable ?r1 ?y0" and inv0: "wal_inv y B0"
    and act: "wal_ActiveSegment (y_wal y) = Some s"
    and rem: "Remaining (s_CurrentBlock s) = Remaining (s_CurrentBlock s0) - int (KEY_START + payload_len ?r1)"
    and idx: "s_CurrentBlockIndex s = s_CurrentBlockIndex s0"
    by (rule append_small [OF new(1) s0(1) wf(1) fit], rule that)
  have s: "wal_ActiveSegment (y_wal y) = Some s" "Remaining (s_CurrentBlock s) = 71" using act rem s0(2) pl by simp_all
  have c: "clean_run [?r1] ?y0" using run1 cl by simp
  have a: "append_all [?r1] ?y0 = (Ok (), y)" using run1 by (simp add: bind_s_def)
  have ap: "appendable ?r1 s0" using cl s0(1) by (simp add: writable_def)
  have room: "wal_NextSegmentID (y_wal ?y0) < wal_NextSegmentID (y_wal ?y0) + 1" unfolding new(5) by (simp add: word_less_nat_alt)
  have t: "tail_ok ?y0 (\<lambda>_. []) (r_SeqId (w_Record ?r1))" using new(4) by (simp add: rs_def single_record_def put_record_def)
  have "s_CurrentBlockIndex s0 = 0"
    using wal_mem_active(4) [OF wal_inv_imp_mem [OF new(1)] s0(1)] by (simp add: seg_view_inv seg_inv_def seg_mem_def)
  obtain B orph fs where inv: "wal_inv y B"
    and nxt: "wal_NextSegmentID (y_wal y) \<in> {wal_NextSegmentID (y_wal ?y0), wal_NextSegmentID (y_wal ?y0) + 1}"
    and par1: "wal_MaxBlocks (y_wal y) = 4" "bm_blockSize (wal_BM (y_wal y)) = 128"
    by (rule WAL_AppendWALRecord_log [OF new(1) s0(1) ap t room run1]) (use that par in simp)
  note si = wal_mem_active [OF wal_inv_imp_mem [OF inv] s(1)]
  have sinv: "seg_inv (wal_BM (y_wal y)) s (y_disk y) (butlast (B (s_ID s))) (if B (s_ID s) = [] then [] else last (B (s_ID s)))"
    using si(4) unfolding seg_view_inv .
  have "length (butlast (B (s_ID s))) = 0" using sinv idx \<open>s_CurrentBlockIndex s0 = 0\<close> by (simp add: seg_inv_def seg_mem_def)
  then have one: "butlast (B (s_ID s)) = []" by (rule length_0_conv [THEN iffD1])
  have ok: "fst (AppendWALRecord (wal_BM (y_wal y)) ?r2 (s, y_disk y)) = Ok ()"
    using append_next_block [OF sinv wf(2)] s(2) pl(2) si(3) par1 one by simp
  have wr: "writable ?r2 y" using s(1) wf(2) pl by (simp add: writable_def appendable_def)
  have nx: "unat (wal_NextSegmentID (y_wal y)) + 1 < 2 ^ 64" using nxt unfolding new(5) by auto
  have "KEY_START + payload_len ?r2 \<le> bm_blockSize (wal_BM (y_wal y))" using pl par1 by simp
  then obtain y' where run2: "WAL_AppendWALRecord ?r2 y = (Ok (), y')"
    using WAL_AppendWALRecord_succeeds [OF inv s(1)] wr s(1) room_word [OF nx] by (auto simp: writable_def)
  have rs: "map single_record rs = [?r1, ?r2]" by (simp add: rs_def)
  have "clean_append ?r2 y" using s(1) ok by (simp add: clean_append_def)
  then have "clean_run [?r1, ?r2] ?y0" using c run1 run2 wr by simp
  moreover have "append_all [?r1, ?r2] ?y0 = (Ok (), y')" using run1 run2 by (simp add: bind_s_def)
  ultimately show ?thesis using that [OF a s] unfolding rs by blast
qed

theorem wal_recover_records_witness:
  "\<exists>y1 s y. append_all [single_record (put_record 1 [97] (replicate 9 7))] (new_wal ''wal'' 128 4 example_bm) = (Ok (), y1) \<and>
     wal_ActiveSegment (y_wal y1) = Some s \<and>
     Remaining (s_CurrentBlock s) < int (KEY_START + payload_len (single_record (put_record 2 [98] (replicate 29 7)))) \<and>
     append_all (map single_record [put_record 1 [97] (replicate 9 7), put_record 2 [98] (replicate 29 7)]) (new_wal ''wal'' 128 4 example_bm) = (Ok (), y) \<and>
     fst (Recover y) = Ok [put_record 1 [97] (replicate 9 7), put_record 2 [98] (replicate 29 7)]"
proof -
  let ?rs = "[put_record 1 [97] (replicate 9 7), put_record 2 [98] (replicate 29 7)]"
  have sz: "KEY_START < (128 :: nat)" "(128 :: nat) < max_alloc" "0 < (4 :: nat)" by (simp_all add: max_alloc_def)
  obtain y1 s y where run: "append_all [single_record (?rs ! 0)] (new_wal ''wal'' 128 4 example_bm) = (Ok (), y1)"
    "wal_ActiveSegment (y_wal y1) = Some s" "Remaining (s_CurrentBlock s) = 71"
    "append_all (map single_record ?rs) (new_wal ''wal'' 128 4 example_bm) = (Ok (), y)"
    "clean_run (map single_record ?rs) (new_wal ''wal'' 128 4 example_bm)"
    by (rule fragmented_run)
  have "fst (Recover y) = Ok ?rs" by (rule wal_recover_records [OF sz _ _ run(5,4)]) (simp_all add: put_record_def)
  moreover have "Remaining (s_CurrentBlock s) < int (KEY_START + payload_len (single_record (put_record 2 [98] (replicate 29 7))))"
    by (simp add: run(3) payload_len_def single_record_def put_record_def)
  ultimately show ?thesis using run(1,2,4) by auto
qed

text \<open>C2: Batches are atomic across a crash. Single records are appended to a new log and then the first \<open>k\<close> of the records of
  a batch (START, the operations, COMMIT), where the process stops: recovery returns the single records and then
  none of the batch when the COMMIT is missing, or all of it. As for C1, all sequence numbers are above zero and
  every append is clean (\<open>clean_run\<close>); an append that is rewritten in a new segment hides a committed batch too.\<close>

theorem wal_batch_atomic:
  assumes "KEY_START < blockSize" "blockSize < max_alloc" "0 < maxBlocks"
    and "\<forall>r \<in> set rs. 0 < r_SeqId r" "\<forall>p \<in> set ops. 0 < op_SeqId p" "ops \<noteq> []"
    and "k \<le> length ops + 2" "length rs + length ops + 2 < 2 ^ 63"
    and "clean_run (map single_record rs @ take k (batch_records t ops)) (new_wal dir blockSize maxBlocks bm)"
    and "append_all (map single_record rs @ take k (batch_records t ops)) (new_wal dir blockSize maxBlocks bm) = (Ok (), y)"
  shows "fst (Recover y) = Ok (if k < length ops + 2 then rs else rs @ map op_record ops)"
proof -
  let ?b = "take k (batch_records t ops)"
  have len: "length (batch_records t ops) = length ops + 2" by (simp add: batch_records_def)
  have "\<forall>wr \<in> set (batch_records t ops). 0 < r_SeqId (w_Record wr)"
    using assms(5,6) by (auto simp: batch_records_def marker_record_def txn_record_def op_record_def)
  then have q: "\<forall>wr \<in> set (map single_record rs @ ?b). 0 < r_SeqId (w_Record wr)"
    using assms(4) by (auto simp: single_record_def dest: in_set_takeD)
  have "map full_record (batch_records t ops) = batch_records t ops" by (simp add: batch_records_def comp_def)
  then have "map full_record ?b = ?b" by (metis take_map)
  then have "fst (Recover y) = Ok (ApplyTransactions (map single_record rs @ ?b))"
    using new_wal_recover [OF assms(1-3) q _ assms(9,10)] assms(7,8) len by (simp add: comp_def)
  moreover have "t_result (foldl txn_step st ?b) = (if k < length ops + 2 then t_result st else t_result st @ map op_record ops)" for st
  proof (cases "k < length ops + 2")
    case True
    then have "?b = take k (marker_record START t (hd ops) # map (txn_record t) ops)"
      by (simp add: batch_records_def take_Cons' less_Suc_eq_le)
    moreover have "t_result (foldl txn_step st (take k (marker_record START t (hd ops) # map (txn_record t) ops))) = t_result st"
    proof (cases k)
      case (Suc j)
      then show ?thesis using txn_open [of st t "hd ops" "take j ops"] by (simp add: take_map)
    qed simp
    ultimately show ?thesis using True by simp
  qed (use txn_complete assms(7) len in simp)
  ultimately show ?thesis by (simp add: ApplyTransactions_append txn_singles)
qed

definition put_op :: "u64 \<Rightarrow> bytes \<Rightarrow> bytes \<Rightarrow> TxnOp" where
  "put_op q k v = \<lparr>op_SeqId = q, op_ExpiresAt = 0, op_OpType = OpTypePut, op_Key = k, op_Value = v\<rparr>"

lemma batch_wf:
  "\<forall>p \<in> set ops. length (op_Key p) + length (op_Value p) < max_alloc \<Longrightarrow> list_all wal_wf (batch_records t ops)"
  by (auto simp: batch_records_def list_all_iff wal_wf_def payload_len_def marker_record_def txn_record_def
      op_record_def max_alloc_def)

theorem wal_batch_atomic_witness:
  "(\<exists>y. append_all (map single_record [put_record 1 [97] [1]] @ take 3 (batch_records 1 [put_op 2 [98] [2], put_op 3 [99] [3]]))
        (new_wal ''wal'' 4096 4 example_bm) = (Ok (), y) \<and> fst (Recover y) = Ok [put_record 1 [97] [1]]) \<and>
   (\<exists>y. append_all (map single_record [put_record 1 [97] [1]] @ take 4 (batch_records 1 [put_op 2 [98] [2], put_op 3 [99] [3]]))
        (new_wal ''wal'' 4096 4 example_bm) = (Ok (), y) \<and>
      fst (Recover y) = Ok [put_record 1 [97] [1], put_record 2 [98] [2], put_record 3 [99] [3]])"
proof -
  let ?rs = "[put_record 1 [97] [1]]" and ?ops = "[put_op 2 [98] [2], put_op 3 [99] [3]]"
  let ?y = "new_wal ''wal'' 4096 4 example_bm"
  have sz: "KEY_START < (4096 :: nat)" "(4096 :: nat) < max_alloc" "0 < (4 :: nat)" by (simp_all add: max_alloc_def)
  obtain s where s: "wal_ActiveSegment (y_wal ?y) = Some s" "Remaining (s_CurrentBlock s) = int 4096"
    by (rule new_wal_active [OF sz, where dir = "''wal''" and bm = example_bm], rule that)
  have run: "\<exists>y. append_all (map single_record ?rs @ take k (batch_records 1 ?ops)) ?y = (Ok (), y) \<and>
      fst (Recover y) = Ok (if k < length ?ops + 2 then ?rs else ?rs @ map op_record ?ops)" if "k \<in> {3, 4}" for k
  proof -
    let ?w = "map single_record ?rs @ take k (batch_records 1 ?ops)"
    have "list_all wal_wf ?w"
      using batch_wf [of ?ops 1] single_wf by (auto simp: list_all_iff put_record_def put_op_def max_alloc_def dest: in_set_takeD)
    moreover have "int (sum_list (map (\<lambda>wr. KEY_START + payload_len wr) ?w)) < Remaining (s_CurrentBlock s)"
      using that s(2) by (auto simp: batch_records_def payload_len_def single_record_def marker_record_def txn_record_def
          op_record_def put_record_def put_op_def)
    ultimately obtain y where c: "clean_run ?w ?y" and a: "append_all ?w ?y = (Ok (), y)"
      using small_run [OF new_wal_inv(1) [OF sz] s(1), of ?w] by blast
    have "fst (Recover y) = Ok (if k < length ?ops + 2 then ?rs else ?rs @ map op_record ?ops)"
      by (rule wal_batch_atomic [OF sz _ _ _ _ _ c a]) (use that in \<open>auto simp: put_record_def put_op_def\<close>)
    with a show ?thesis by blast
  qed
  show ?thesis using run [of 3] run [of 4] by (simp add: op_record_def put_op_def put_record_def)
qed

text \<open>A record that fits one block can always be appended to a consistent log: at worst the segment is
  rotated and the record goes to a new one.\<close>

theorem wal_append_progress:
  assumes "wal_inv y B" "writable wr y" "KEY_START + payload_len wr \<le> bm_blockSize (wal_BM (y_wal y))"
    and "unat (wal_NextSegmentID (y_wal y)) + 1 < 2 ^ 64"
  shows "\<exists>y'. WAL_AppendWALRecord wr y = (Ok (), y')"
  using WAL_AppendWALRecord_succeeds [OF assms(1)] room_word [OF assms(4)] assms(2,3)
  by (auto simp: writable_def split: option.splits)

theorem wal_append_progress_witness:
  "\<exists>y'. WAL_AppendWALRecord (single_record (put_record 1 [97] [1, 2])) (new_wal ''wal'' 64 1 example_bm) = (Ok (), y')"
proof (rule wal_append_progress)
  have sz: "KEY_START < (64 :: nat)" "(64 :: nat) < max_alloc" "0 < (1 :: nat)" by (simp_all add: max_alloc_def)
  note new = new_wal_inv [OF sz, where dir = "''wal''" and bm = example_bm]
  show "wal_inv (new_wal ''wal'' 64 1 example_bm) (\<lambda>_. [])" by (rule new)
  obtain s where s: "wal_ActiveSegment (y_wal (new_wal ''wal'' 64 1 example_bm)) = Some s" "Remaining (s_CurrentBlock s) = int 64"
    by (rule new_wal_active [OF sz, where dir = "''wal''" and bm = example_bm], rule that)
  show "writable (single_record (put_record 1 [97] [1, 2])) (new_wal ''wal'' 64 1 example_bm)"
    using s single_wf [of "put_record 1 [97] [1, 2]"] by (simp add: writable_def appendable_def put_record_def max_alloc_def)
  show "KEY_START + payload_len (single_record (put_record 1 [97] [1, 2])) \<le> bm_blockSize (wal_BM (y_wal (new_wal ''wal'' 64 1 example_bm)))"
    by (simp add: new_wal_params payload_len_def single_record_def put_record_def)
  show "unat (wal_NextSegmentID (y_wal (new_wal ''wal'' 64 1 example_bm))) + 1 < 2 ^ 64" by (subst new(5)) simp
qed

text \<open>C33: A record that starts in the last block of a segment and does not fit is lost. The append succeeds (the record
  is written again in a new segment), but its first fragments stay at the end of the old segment,
  and recovery stops there: it returns only what was logged before, not this record nor any later one.\<close>

theorem wal_orphan_hides_record:
  assumes "wal_inv y B" "writable wr y" "tail_ok y B (r_SeqId (w_Record wr))" "unat (wal_NextSegmentID (y_wal y)) + 1 < 2 ^ 64"
    and "fragments_of wrs (live_log y B)" "\<not> clean_append wr y" "WAL_AppendWALRecord wr y = (Ok (), y')"
  shows "fst (Recover y') = Ok (ApplyTransactions (map full_record wrs))"
proof -
  obtain s where act: "wal_ActiveSegment (y_wal y) = Some s" and ok: "appendable wr s"
    using assms(2) by (auto simp: writable_def split: option.splits)
  have room: "wal_NextSegmentID (y_wal y) < wal_NextSegmentID (y_wal y) + 1" using room_word [OF assms(4)] by simp
  obtain B' orph fs where inv': "wal_inv y' B'" and fs: "is_fragments wr fs" and o: "orph = [] \<or> is_orphan wr orph"
    and cl: "clean_append wr y \<longleftrightarrow> orph = []" and live: "live_log y' B' = live_log y B @ orph @ fs"
    by (rule WAL_AppendWALRecord_log [OF assms(1) act ok assms(3) room assms(7)]) (use that in blast)
  obtain f rest where f: "fs = f # rest" "w_FragType f \<in> {FULL, FIRST}" using fragments_head [OF fs] by blast
  have "join_loop (orph @ fs) None = []" unfolding f(1) by (rule join_loop_orphan [OF _ f(2)]) (use o cl assms(6) in blast)
  then have "JoinFragments (live_log y' B') = map full_record wrs"
    using join_loop_fragments_of [OF assms(5), of "orph @ fs"] live by (simp add: JoinFragments_def)
  then show ?thesis using Recover_log [OF inv'] by simp
qed

theorem wal_orphan_hides_record_witness:
  "\<exists>y y'. append_all [single_record (put_record 1 [97] (replicate 9 7))] (new_wal ''wal'' 128 1 example_bm) = (Ok (), y) \<and>
     WAL_AppendWALRecord (single_record (put_record 2 [98] (replicate 29 7))) y = (Ok (), y') \<and>
     fst (Recover y') = Ok [put_record 1 [97] (replicate 9 7)]"
proof -
  let ?r1 = "single_record (put_record 1 [97] (replicate 9 7))" and ?r2 = "single_record (put_record 2 [98] (replicate 29 7))"
  let ?y0 = "new_wal ''wal'' 128 1 example_bm"
  have sz: "KEY_START < (128 :: nat)" "(128 :: nat) < max_alloc" "0 < (1 :: nat)" by (simp_all add: max_alloc_def)
  note new = new_wal_inv [OF sz, where dir = "''wal''" and bm = example_bm]
  have wf: "wal_wf ?r1" "wal_wf ?r2" by (rule single_wf, simp add: put_record_def max_alloc_def)+
  have pl: "payload_len ?r1 = 10" "payload_len ?r2 = 30" by (simp_all add: payload_len_def single_record_def put_record_def)
  obtain s0 where s0: "wal_ActiveSegment (y_wal ?y0) = Some s0" "Remaining (s_CurrentBlock s0) = int 128"
    by (rule new_wal_active [OF sz, where dir = "''wal''" and bm = example_bm], rule that)
  have bm0: "wal_BM (y_wal ?y0) = example_bm\<lparr>bm_blockSize := 128\<rparr>" "wal_MaxBlocks (y_wal ?y0) = 1"
    by (rule new_wal_params)+
  have "clean_run [?r1] ?y0 \<and> (\<exists>y' s' B'. append_all [?r1] ?y0 = (Ok (), y') \<and> wal_inv y' B' \<and>
      wal_ActiveSegment (y_wal y') = Some s' \<and> Remaining (s_CurrentBlock s') = 71)"
    using small_run [OF new(1) s0(1), of "[?r1]"] s0(2) wf pl by simp
  then obtain y s B0 where c: "clean_run [?r1] ?y0" and a: "append_all [?r1] ?y0 = (Ok (), y)"
    and s: "wal_ActiveSegment (y_wal y) = Some s" "Remaining (s_CurrentBlock s) = 71" by blast
  have run1: "WAL_AppendWALRecord ?r1 ?y0 = (Ok (), y)" using a by (auto simp: bind_s_def split: prod.splits sum.splits)
  have cl: "clean_append ?r1 ?y0" and ap: "appendable ?r1 s0" using c s0(1) by (simp_all add: writable_def)
  have room: "wal_NextSegmentID (y_wal ?y0) < wal_NextSegmentID (y_wal ?y0) + 1" unfolding new(5) by (simp add: word_less_nat_alt)
  have "r_SeqId (w_Record ?r1) = 1" by (simp add: single_record_def put_record_def)
  then have t: "tail_ok ?y0 (\<lambda>_. []) (r_SeqId (w_Record ?r1))" using new(4) by simp
  obtain B orph fs where inv: "wal_inv y B" and fs: "is_fragments ?r1 fs" and o: "clean_append ?r1 ?y0 \<longleftrightarrow> orph = []"
    and live: "live_log y B = live_log ?y0 (\<lambda>_. []) @ orph @ fs" and t1: "\<forall>q. tail_ok ?y0 (\<lambda>_. []) q \<longrightarrow> tail_ok y B q"
    and nxt: "wal_NextSegmentID (y_wal y) \<in> {wal_NextSegmentID (y_wal ?y0), wal_NextSegmentID (y_wal ?y0) + 1}"
    and par: "wal_MaxBlocks (y_wal y) = wal_MaxBlocks (y_wal ?y0)" "wal_BM (y_wal y) = wal_BM (y_wal ?y0)"
    by (rule WAL_AppendWALRecord_log [OF new(1) s0(1) ap t room run1], rule that)
  have frag: "fragments_of [?r1] (live_log y B)" using fragments_of_single [OF fs] live new(3) o cl by simp
  have wr: "writable ?r2 y" using s(1) wf(2) pl by (simp add: writable_def appendable_def)
  have t2: "tail_ok y B (r_SeqId (w_Record ?r2))" using t1 new(4) [of 2] by (simp add: single_record_def put_record_def)
  have nx: "unat (wal_NextSegmentID (y_wal y)) + 1 < 2 ^ 64" using nxt unfolding new(5) by auto
  note si = wal_mem_active [OF wal_inv_imp_mem [OF inv] s(1)]
  have sinv: "seg_inv (wal_BM (y_wal y)) s (y_disk y) (butlast (B (s_ID s))) (if B (s_ID s) = [] then [] else last (B (s_ID s)))"
    using si(4) unfolding seg_view_inv .
  then have "s_CurrentBlockIndex s + 1 = s_MaxBlocks s" using si(3) par bm0 by (simp add: seg_inv_def seg_mem_def)
  then have "fst (AppendWALRecord (wal_BM (y_wal y)) ?r2 (s, y_disk y)) = Inl (Error ''segment is full'')"
    using append_last_block [OF sinv wf(2)] s(2) pl(2) by simp
  then have nc: "\<not> clean_append ?r2 y" using s by (simp add: clean_append_def Segment_IsFull_def)
  have "KEY_START + payload_len ?r2 \<le> bm_blockSize (wal_BM (y_wal y))" using pl par bm0 by simp
  then obtain y' where run2: "WAL_AppendWALRecord ?r2 y = (Ok (), y')"
    using WAL_AppendWALRecord_succeeds [OF inv s(1)] wr s(1) room_word [OF nx] by (auto simp: writable_def)
  have "fst (Recover y') = Ok (ApplyTransactions (map full_record [?r1]))"
    by (rule wal_orphan_hides_record [OF inv wr t2 nx frag nc run2])
  then have "fst (Recover y') = Ok [put_record 1 [97] (replicate 9 7)]"
    using txn_singles [of _ "[put_record 1 [97] (replicate 9 7)]"] by (simp add: ApplyTransactions_def)
  with a run2 show ?thesis by blast
qed

end
