(* ===== verification/Delta_Encoder.thy ===== *)
theory Delta_Encoder
  imports Go_Binary
begin

unbundle bit_operations_syntax

text \<open>
  The delta encoders of \<^verbatim>\<open>internal/encoders\<close>: \<^verbatim>\<open>DeltaEncoderInt\<close> stores the difference to the
  previous integer, \<^verbatim>\<open>DeltaEncoderBytes\<close> the length of the prefix shared with the previous key
  and the rest of the key. Both start afresh every \<^verbatim>\<open>restartInterval\<close> entries and record the
  offset of such an entry. The encoders append to a buffer; the decoders read at a position
  they advance, so a decoder is an operation on its own state and that position, and a failing
  call leaves the position where the source leaves it.

  The locale \<open>stream_codec\<close> is the contract between one \<^verbatim>\<open>Encode\<close> and one \<^verbatim>\<open>Decode\<close> call from
  which the round trip of whole streams and the seek to a restart point follow; it is
  interpreted on both encoders and on \<^verbatim>\<open>DecodeWithMeta\<close>.
\<close>

section \<open>Streams of encoded values\<close>

fun encode_all :: "('s \<Rightarrow> 'a \<Rightarrow> bytes \<Rightarrow> bytes \<times> 's) \<Rightarrow> 's \<Rightarrow> 'a list \<Rightarrow> bytes \<Rightarrow> bytes \<times> 's" where
  "encode_all enc s [] buf = (buf, s)"
| "encode_all enc s (x # xs) buf = (case enc s x buf of (buf', s') \<Rightarrow> encode_all enc s' xs buf')"

fun decode_all :: "('t, 'b) op \<Rightarrow> nat \<Rightarrow> ('t, 'b list) op" where
  "decode_all dec 0 = ret_s []"
| "decode_all dec (Suc n) = bind_s dec (\<lambda>y. bind_s (decode_all dec n) (\<lambda>ys. ret_s (y # ys)))"

lemma encode_all_append:
  "encode_all enc s (xs @ ys) buf =
     (case encode_all enc s xs buf of (buf', s') \<Rightarrow> encode_all enc s' ys buf')"
  by (induction xs arbitrary: s buf) (auto split: prod.split)

text \<open>
  \<open>sim\<close> relates the encoder's state to the decoder's. The decoder is given a buffer that holds
  what was encoded, at the position where it was appended.
\<close>

locale stream_codec =
  fixes enc :: "'s \<Rightarrow> 'a \<Rightarrow> bytes \<Rightarrow> bytes \<times> 's"
    and dec :: "bytes \<Rightarrow> ('t \<times> int, 'b) op"
    and val :: "'a \<Rightarrow> 'b"
    and ok :: "'a \<Rightarrow> bool"
    and sim :: "'s \<Rightarrow> 't \<Rightarrow> bool"
  assumes enc_appends: "fst (enc s x buf) = buf @ fst (enc s x [])"
    and enc_state: "snd (enc s x buf) = snd (enc s x [])"
    and dec_enc: "sim s t \<Longrightarrow> ok x \<Longrightarrow> slice_ok (pre @ fst (enc s x []) @ post) \<Longrightarrow>
      \<exists>t'. dec (pre @ fst (enc s x []) @ post) (t, int (length pre)) =
        (Ok (val x), (t', int (length pre) + int (length (fst (enc s x []))))) \<and>
        sim (snd (enc s x [])) t'"
begin

lemma encode_all_prepend:
  "encode_all enc s xs buf = (buf @ fst (encode_all enc s xs []), snd (encode_all enc s xs []))"
proof (induction xs arbitrary: s buf)
  case (Cons x xs)
  obtain o1 s1 where "enc s x [] = (o1, s1)" by fastforce
  then have e: "enc s x b = (b @ o1, s1)" for b
    using enc_appends [of s x b] enc_state [of s x b] by (cases "enc s x b") simp
  show ?case
    using Cons.IH [of s1 "buf @ o1"] Cons.IH [of s1 o1] by (simp add: e)
qed simp

lemma encode_all_Cons:
  "fst (encode_all enc s (x # xs) []) =
     fst (enc s x []) @ fst (encode_all enc (snd (enc s x [])) xs [])"
  "snd (encode_all enc s (x # xs) []) = snd (encode_all enc (snd (enc s x [])) xs [])"
  using encode_all_prepend [of "snd (enc s x [])" xs "fst (enc s x [])"]
  by (auto split: prod.split)

theorem decode_all_encode_all:
  "sim s t \<Longrightarrow> list_all ok xs \<Longrightarrow> slice_ok (pre @ fst (encode_all enc s xs []) @ post) \<Longrightarrow>
   \<exists>t'. decode_all (dec (pre @ fst (encode_all enc s xs []) @ post)) (length xs) (t, int (length pre)) =
      (Ok (map val xs), (t', int (length pre) + int (length (fst (encode_all enc s xs []))))) \<and>
      sim (snd (encode_all enc s xs [])) t'"
proof (induction xs arbitrary: s t pre)
  case Nil
  then show ?case by simp
next
  case (Cons x xs)
  let ?o = "fst (enc s x [])" and ?s = "snd (enc s x [])"
  let ?os = "fst (encode_all enc ?s xs [])"
  have eq: "fst (encode_all enc s (x # xs) []) = ?o @ ?os"
    by (rule encode_all_Cons)
  have "slice_ok (pre @ ?o @ ?os @ post)"
    using Cons.prems(3) unfolding eq by simp
  with dec_enc [OF Cons.prems(1), of x pre "?os @ post"] Cons.prems(2)
  obtain t1 where t1: "dec (pre @ ?o @ ?os @ post) (t, int (length pre)) =
      (Ok (val x), (t1, int (length pre) + int (length ?o)))" "sim ?s t1"
    by auto
  have "slice_ok ((pre @ ?o) @ ?os @ post)"
    using Cons.prems(3) unfolding eq by simp
  with Cons.IH [OF t1(2)] Cons.prems(2)
  obtain t2 where t2: "decode_all (dec (pre @ ?o @ ?os @ post)) (length xs) (t1, int (length pre) + int (length ?o)) =
      (Ok (map val xs), (t2, int (length pre) + int (length ?o) + int (length ?os)))"
    "sim (snd (encode_all enc ?s xs [])) t2"
    by fastforce
  show ?case
    unfolding eq using t1(1) t2 by (simp add: encode_all_Cons del: encode_all.simps)
qed

end

section \<open>DeltaEncoderInt\<close>

text \<open>Go's \<^verbatim>\<open>int\<close> is 64 bits wide, so keys, counters and their difference wrap.\<close>

record DeltaEncoderInt =
  di_prevKey :: i64
  di_restartInterval :: i64
  di_entryIndex :: i64
  di_restartArray :: "u32 list"

definition NewDeltaEncoderInt :: "i64 \<Rightarrow> DeltaEncoderInt" where
  "NewDeltaEncoderInt r =
     \<lparr>di_prevKey = 0, di_restartInterval = r, di_entryIndex = 0, di_restartArray = []\<rparr>"

definition DeltaEncoderInt_Reset :: "DeltaEncoderInt \<Rightarrow> DeltaEncoderInt" where
  "DeltaEncoderInt_Reset de = de\<lparr>di_prevKey := 0, di_entryIndex := 0, di_restartArray := []\<rparr>"

definition DeltaEncoderInt_Encode ::
    "DeltaEncoderInt \<Rightarrow> i64 \<Rightarrow> u32 \<Rightarrow> bytes \<Rightarrow> bytes \<times> DeltaEncoderInt" where
  "DeltaEncoderInt_Encode de key blockOffset buf =
     (let restart = (di_entryIndex de = 0 \<or> di_entryIndex de = di_restartInterval de);
          delta = (if restart then key else key - di_prevKey de);
          de1 = (if restart then
                   de\<lparr>di_restartArray := di_restartArray de @ [blockOffset], di_prevKey := 0, di_entryIndex := 0\<rparr>
                 else de)
      in (buf @ put_varint delta,
          de1\<lparr>di_prevKey := key, di_entryIndex := di_entryIndex de1 + 1\<rparr>))"

definition DeltaEncoderInt_Decode :: "bytes \<Rightarrow> (DeltaEncoderInt \<times> int, i64) op" where
  "DeltaEncoderInt_Decode buf = (\<lambda>(de, pos).
     case go_slice buf pos (int (length buf)) of
       Inl e \<Rightarrow> (Inl e, (de, pos))
     | Inr tail \<Rightarrow>
         (let (delta, n) = varint tail in
          if n \<le> 0 then (Inl (Error ''invalid delta int''), (de, pos))
          else
            let restart = (di_entryIndex de = 0 \<or> di_entryIndex de = di_restartInterval de);
                key = (if restart then delta else di_prevKey de + delta);
                de1 = (if restart then de\<lparr>di_entryIndex := 0\<rparr> else de)
            in (Ok key, (de1\<lparr>di_prevKey := key, di_entryIndex := di_entryIndex de1 + 1\<rparr>, go_int (pos + n)))))"

text \<open>Both encoders append the recorded offsets and their number in the same way.\<close>

definition append_restarts :: "u32 list \<Rightarrow> bytes \<Rightarrow> bytes" where
  "append_restarts rs buf = foldl (\<lambda>b off. b @ put_u32 off) buf rs @ put_u32 (of_nat (length rs))"

definition DeltaEncoderInt_WriteRestartArray :: "DeltaEncoderInt \<Rightarrow> bytes \<Rightarrow> bytes" where
  "DeltaEncoderInt_WriteRestartArray de buf = append_restarts (di_restartArray de) buf"

section \<open>DeltaEncoderBytes\<close>

record DeltaEncoderBytes =
  db_prevKey :: bytes
  db_restartInterval :: i64
  db_entryIndex :: i64
  db_restartArray :: "u32 list"

definition NewDeltaEncoderBytes :: "i64 \<Rightarrow> DeltaEncoderBytes" where
  "NewDeltaEncoderBytes r =
     \<lparr>db_prevKey = [], db_restartInterval = r, db_entryIndex = 0, db_restartArray = []\<rparr>"

definition DeltaEncoderBytes_Reset :: "DeltaEncoderBytes \<Rightarrow> DeltaEncoderBytes" where
  "DeltaEncoderBytes_Reset de = de\<lparr>db_prevKey := [], db_entryIndex := 0, db_restartArray := []\<rparr>"

fun sharedPrefixLen :: "bytes \<Rightarrow> bytes \<Rightarrow> nat" where
  "sharedPrefixLen (a # as) (b # bs) = (if a \<noteq> b then 0 else Suc (sharedPrefixLen as bs))"
| "sharedPrefixLen _ _ = 0"

definition DeltaEncoderBytes_Encode ::
    "DeltaEncoderBytes \<Rightarrow> bytes \<Rightarrow> u32 \<Rightarrow> bytes \<Rightarrow> bytes \<times> DeltaEncoderBytes" where
  "DeltaEncoderBytes_Encode de key blockOffset buf =
     (let restart = (db_entryIndex de = 0 \<or> db_entryIndex de = db_restartInterval de);
          de1 = (if restart then
                   de\<lparr>db_restartArray := db_restartArray de @ [blockOffset], db_prevKey := [], db_entryIndex := 0\<rparr>
                 else de);
          shared = (if restart then 0 else sharedPrefixLen (db_prevKey de) key);
          suffix = drop shared key
      in (buf @ put_uvarint (of_nat shared) @ put_uvarint (of_nat (length suffix)) @ suffix,
          de1\<lparr>db_prevKey := key, db_entryIndex := db_entryIndex de1 + 1\<rparr>))"

text \<open>
  Reading a varint at the current position: \<^verbatim>\<open>binary.Uvarint(buf[*pos:])\<close>, the check of the byte
  count and the advance of the position, as all decoders of the package do it.
\<close>

definition next_uvarint :: "string \<Rightarrow> bytes \<Rightarrow> ('t \<times> int, u64) op" where
  "next_uvarint msg buf = (\<lambda>(t, pos).
     case go_slice buf pos (int (length buf)) of
       Inl e \<Rightarrow> (Inl e, (t, pos))
     | Inr tail \<Rightarrow>
         (let (x, n) = uvarint tail in
          if n \<le> 0 then (Inl (Error msg), (t, pos)) else (Ok x, (t, go_int (pos + n)))))"

definition DeltaEncoderBytes_Decode :: "bytes \<Rightarrow> (DeltaEncoderBytes \<times> int, bytes) op" where
  "DeltaEncoderBytes_Decode buf =
     bind_s (next_uvarint ''invalid shared prefix'' buf) (\<lambda>shared.
     bind_s (next_uvarint ''invalid nonshared prefix'' buf) (\<lambda>nonShared. \<lambda>(de, pos).
       if u64_int shared > int (length (db_prevKey de)) then
         (Inl (Error ''shared prefix exceeds previous key length''), (de, pos))
       else if go_int (pos + u64_int nonShared) > int (length buf) then
         (Inl (Error ''buffer underflow''), (de, pos))
       else
         case bind_r (make_len (shared + nonShared)) (\<lambda>key.
              bind_r (go_slice (db_prevKey de) 0 (uint shared)) (\<lambda>prefix.
              bind_r (copy_at key 0 prefix) (\<lambda>key.
              bind_r (go_slice buf pos (go_int (pos + u64_int nonShared))) (\<lambda>suffix.
              copy_at key (unat shared) suffix)))) of
           Inl e \<Rightarrow> (Inl e, (de, pos))
         | Inr key \<Rightarrow> (Ok key, (de\<lparr>db_prevKey := key\<rparr>, go_int (pos + u64_int nonShared)))))"

text \<open>
  \<^verbatim>\<open>DecodeWithMeta\<close> does not compare the shared length with the previous key: slicing
  \<^verbatim>\<open>de.prevKey[:shared]\<close> is bounded by the capacity of that slice only. \<open>spare\<close> stands for the
  bytes between its length and its capacity, which the Go run time chooses.
\<close>

definition DecodeWithMeta ::
    "bytes \<Rightarrow> bytes \<Rightarrow> (DeltaEncoderBytes \<times> int, u64 \<times> u64 \<times> bytes \<times> bytes) op" where
  "DecodeWithMeta spare data =
     bind_s (next_uvarint ''invalid shared len'' data) (\<lambda>shared.
     bind_s (next_uvarint ''invalid suffix len'' data) (\<lambda>suffixLen. \<lambda>(de, pos).
       if go_int (pos + u64_int suffixLen) > int (length data) then
         (Inl (Error ''suffix overflow''), (de, pos))
       else
         case go_slice data pos (go_int (pos + u64_int suffixLen)) of
           Inl e \<Rightarrow> (Inl e, (de, pos))
         | Inr suffix \<Rightarrow>
             (let pos' = go_int (pos + u64_int suffixLen) in
              case go_slice (db_prevKey de @ spare) 0 (uint shared) of
                Inl e \<Rightarrow> (Inl e, (de, pos'))
              | Inr prefix \<Rightarrow>
                  (Ok (shared, suffixLen, suffix, prefix @ suffix),
                   (de\<lparr>db_prevKey := prefix @ suffix\<rparr>, pos')))))"

definition DeltaEncoderBytes_WriteRestartArray :: "DeltaEncoderBytes \<Rightarrow> bytes \<Rightarrow> bytes" where
  "DeltaEncoderBytes_WriteRestartArray de buf = append_restarts (db_restartArray de) buf"

section \<open>Helper lemmas\<close>

lemma sharedPrefixLen_le: "sharedPrefixLen a b \<le> length a" "sharedPrefixLen a b \<le> length b"
  by (induction a b rule: sharedPrefixLen.induct) auto

lemma sharedPrefixLen_take: "take (sharedPrefixLen a b) a = take (sharedPrefixLen a b) b"
  by (induction a b rule: sharedPrefixLen.induct) auto

lemma slice_ok_append: "slice_ok (a @ b) \<Longrightarrow> slice_ok a" "slice_ok (a @ b) \<Longrightarrow> slice_ok b"
  by (auto simp: slice_ok_def)

lemma slice_ok_lt: "slice_ok xs \<Longrightarrow> int (length xs) < 2 ^ 48"
  by (simp add: slice_ok_def max_alloc_def)

lemma go_slice_tail: "p = int (length pre) \<Longrightarrow> n = int (length (pre @ post)) \<Longrightarrow> go_slice (pre @ post) p n = Ok post"
  by (simp add: go_slice_def)

text \<open>One varint read where it was written.\<close>

lemma next_uvarint_at:
  assumes "slice_ok (pre @ put_uvarint x @ post)"
  shows "next_uvarint msg (pre @ put_uvarint x @ post) (t, int (length pre)) =
    (Ok x, (t, int (length (pre @ put_uvarint x))))"
proof -
  have "int (length pre) + int (length (put_uvarint x)) < 2 ^ 48"
    using slice_ok_lt [OF assms] by simp
  moreover have "0 < length (put_uvarint x)" by simp
  ultimately show ?thesis
    by (simp add: next_uvarint_def go_slice_tail [of _ pre] uvarint_put_uvarint go_int_small)
qed

lemma uint_of_nat_small: "n < 2 ^ 48 \<Longrightarrow> uint (of_nat n :: u64) = int n"
  by (simp add: unsigned_of_nat take_bit_int_eq_self take_bit_nat_eq_self)

lemma unat_of_nat_small: "n < 2 ^ 48 \<Longrightarrow> unat (of_nat n :: u64) = n"
  by (simp add: unsigned_of_nat take_bit_nat_eq_self)

text \<open>An entry of a shared length and a suffix, read back as the two varints and the suffix.\<close>

lemma delta_entry_varints:
  assumes "slice_ok (pre @ (put_uvarint a @ put_uvarint b @ suf) @ post)"
  shows "bind_s (next_uvarint m1 (pre @ (put_uvarint a @ put_uvarint b @ suf) @ post)) (\<lambda>x.
     bind_s (next_uvarint m2 (pre @ (put_uvarint a @ put_uvarint b @ suf) @ post)) (k x)) (t, int (length pre)) =
   k a b (t, int (length (pre @ put_uvarint a @ put_uvarint b)))"
  using next_uvarint_at [of pre a "put_uvarint b @ suf @ post" m1 t]
    next_uvarint_at [of "pre @ put_uvarint a" b "suf @ post" m2 t] assms
  by (simp add: add.assoc)

lemma copy_prefix_suffix:
  assumes "length p + length s < 2 ^ 48" "n = of_nat (length p)" "m = of_nat (length s)"
  shows "bind_r (make_len (n + m)) (\<lambda>key. bind_r (copy_at key 0 p) (\<lambda>key. copy_at key (unat n) s)) = Ok (p @ s)"
proof -
  have u: "unat (of_nat (length p) + of_nat (length s) :: u64) = length p + length s"
    using assms(1) unat_of_nat_small [of "length p + length s"] by simp
  have "unat n = length p"
    using assms by (simp add: unat_of_nat_small)
  moreover have "make_len (n + m) = Ok (make_bytes (length p + length s))"
    using assms by (simp add: make_len_def u max_alloc_def)
  ultimately show ?thesis
    by (simp add: copy_at_append [of p _ 0 "[]", simplified] copy_at_append [of s _ _ p, simplified])
qed

section \<open>The encoders as stream codecs\<close>

definition int_enc :: "DeltaEncoderInt \<Rightarrow> i64 \<times> u32 \<Rightarrow> bytes \<Rightarrow> bytes \<times> DeltaEncoderInt" where
  "int_enc de = (\<lambda>(key, off). DeltaEncoderInt_Encode de key off)"

definition bytes_enc :: "DeltaEncoderBytes \<Rightarrow> bytes \<times> u32 \<Rightarrow> bytes \<Rightarrow> bytes \<times> DeltaEncoderBytes" where
  "bytes_enc de = (\<lambda>(key, off). DeltaEncoderBytes_Encode de key off)"

definition int_sim :: "DeltaEncoderInt \<Rightarrow> DeltaEncoderInt \<Rightarrow> bool" where
  "int_sim s t \<longleftrightarrow> di_restartInterval s = di_restartInterval t \<and>
     (di_entryIndex s \<in> {0, di_restartInterval s} \<and> di_entryIndex t \<in> {0, di_restartInterval t} \<or>
      di_prevKey s = di_prevKey t \<and> di_entryIndex s = di_entryIndex t)"

text \<open>The byte decoder does not count entries: an entry after a restart has shared length 0.\<close>

definition bytes_sim :: "DeltaEncoderBytes \<Rightarrow> DeltaEncoderBytes \<Rightarrow> bool" where
  "bytes_sim s t \<longleftrightarrow> db_entryIndex s = 0 \<or> db_entryIndex s = db_restartInterval s \<or> db_prevKey s = db_prevKey t"

interpretation delta_int: stream_codec int_enc DeltaEncoderInt_Decode fst "\<lambda>_. True" int_sim
proof unfold_locales
  fix s :: DeltaEncoderInt and t and x :: "i64 \<times> u32" and pre post :: bytes
  assume sim: "int_sim s t" and ok: "slice_ok (pre @ fst (int_enc s x []) @ post)"
  obtain d where d: "fst (int_enc s x []) = put_varint d"
      "d = (if di_entryIndex s = 0 \<or> di_entryIndex s = di_restartInterval s then fst x else fst x - di_prevKey s)"
    by (cases x) (simp add: int_enc_def DeltaEncoderInt_Encode_def Let_def)
  have "go_int (int (length pre) + int (length (put_varint d))) = int (length pre) + int (length (put_varint d))"
    using slice_ok_lt [OF ok] by (intro go_int_small) (simp_all add: d)
  moreover have "0 < length (put_varint d)" by (simp add: put_varint_def)
  ultimately show "\<exists>t'. DeltaEncoderInt_Decode (pre @ fst (int_enc s x []) @ post) (t, int (length pre)) =
      (Ok (fst x), (t', int (length pre) + int (length (fst (int_enc s x []))))) \<and> int_sim (snd (int_enc s x [])) t'"
    using sim unfolding d(1)
    by (cases x) (auto simp: DeltaEncoderInt_Decode_def go_slice_tail [of _ pre] varint_put_varint Let_def d(2)
        int_sim_def int_enc_def DeltaEncoderInt_Encode_def)
qed (auto simp: int_enc_def DeltaEncoderInt_Encode_def Let_def split: prod.split)

text \<open>What one call of the byte encoder writes, relative to a decoder in the \<open>bytes_sim\<close> relation.\<close>

lemma bytes_enc_out:
  assumes "bytes_sim s t"
  obtains n where
    "fst (bytes_enc s x []) = put_uvarint (of_nat n) @ put_uvarint (of_nat (length (drop n (fst x)))) @ drop n (fst x)"
    "n \<le> length (db_prevKey t)" "n \<le> length (fst x)" "take n (db_prevKey t) = take n (fst x)"
    "db_prevKey (snd (bytes_enc s x [])) = fst x"
proof -
  define n where "n = (if db_entryIndex s = 0 \<or> db_entryIndex s = db_restartInterval s then 0
      else sharedPrefixLen (db_prevKey s) (fst x))"
  have "fst (bytes_enc s x []) =
      put_uvarint (of_nat n) @ put_uvarint (of_nat (length (drop n (fst x)))) @ drop n (fst x)"
    "db_prevKey (snd (bytes_enc s x [])) = fst x"
    by (cases x, simp add: bytes_enc_def DeltaEncoderBytes_Encode_def Let_def n_def)+
  moreover have "n \<le> length (db_prevKey t)" "n \<le> length (fst x)" "take n (db_prevKey t) = take n (fst x)"
    using assms sharedPrefixLen_le sharedPrefixLen_take by (auto simp: n_def bytes_sim_def)
  ultimately show thesis using that by blast
qed

text \<open>The numbers a decoder computes with stay far below the width of an \<^verbatim>\<open>int\<close>.\<close>

lemma delta_bounds:
  assumes "slice_ok (pre @ (a @ b @ suf) @ post)"
  shows "go_int (int (length (pre @ a @ b)) + u64_int (of_nat (length suf))) = int (length (pre @ a @ b @ suf))"
    "go_slice (pre @ (a @ b @ suf) @ post) (int (length (pre @ a @ b))) (int (length (pre @ a @ b @ suf))) = Ok suf"
proof -
  have len: "int (length (pre @ a @ b @ suf)) < 2 ^ 48"
    using slice_ok_lt [OF assms] by simp
  then have "length suf < 2 ^ 63" by simp
  then have "u64_int (of_nat (length suf)) = int (length suf)" by (rule u64_int_of_nat)
  with len show "go_int (int (length (pre @ a @ b)) + u64_int (of_nat (length suf))) = int (length (pre @ a @ b @ suf))"
    by (simp add: go_int_small)
  show "go_slice (pre @ (a @ b @ suf) @ post) (int (length (pre @ a @ b))) (int (length (pre @ a @ b @ suf))) = Ok suf"
    using go_slice_middle [OF refl refl, of "pre @ a @ b" suf post] by (simp add: add.assoc)
qed

text \<open>One entry, decoded by both methods.\<close>

lemma delta_entry_Decode:
  assumes ok: "slice_ok (pre @ (put_uvarint (of_nat n) @ put_uvarint (of_nat (length suf)) @ suf) @ post)"
    and n: "n \<le> length (db_prevKey de)" "n + length suf < 2 ^ 48"
  shows "DeltaEncoderBytes_Decode (pre @ (put_uvarint (of_nat n) @ put_uvarint (of_nat (length suf)) @ suf) @ post)
      (de, int (length pre)) =
    (Ok (take n (db_prevKey de) @ suf), (de\<lparr>db_prevKey := take n (db_prevKey de) @ suf\<rparr>,
      int (length pre) + int (length (put_uvarint (of_nat n) @ put_uvarint (of_nat (length suf)) @ suf))))"
proof -
  define a where "a = put_uvarint (of_nat n)"
  define b where "b = put_uvarint (of_nat (length suf))"
  define buf where "buf = pre @ (a @ b @ suf) @ post"
  define p where "p = int (length (pre @ a @ b))"
  define q where "q = int (length (pre @ a @ b @ suf))"
  have bounds: "go_int (p + u64_int (of_nat (length suf))) = q" "go_slice buf p q = Ok suf" "q \<le> int (length buf)"
    using delta_bounds [of pre a b suf post] ok by (simp_all add: p_def q_def buf_def a_def b_def)
  have un: "u64_int (of_nat n) = int n" "uint (of_nat n :: u64) = int n"
    using n(2) by (auto intro: u64_int_of_nat uint_of_nat_small)
  have pre: "go_slice (db_prevKey de) 0 (int n) = Ok (take n (db_prevKey de))"
    using n(1) by (simp add: go_slice_def)
  have cp: "bind_r (make_len (of_nat n + of_nat (length suf))) (\<lambda>key.
      bind_r (copy_at key 0 (take n (db_prevKey de))) (\<lambda>key. copy_at key (unat (of_nat n :: u64)) suf)) =
      Ok (take n (db_prevKey de) @ suf)"
    by (rule copy_prefix_suffix) (use n in simp_all)
  have "DeltaEncoderBytes_Decode buf (de, int (length pre)) =
      (Ok (take n (db_prevKey de) @ suf), (de\<lparr>db_prevKey := take n (db_prevKey de) @ suf\<rparr>, q))"
    unfolding DeltaEncoderBytes_Decode_def delta_entry_varints [OF ok, folded a_def b_def, folded buf_def p_def]
    using n(1) bounds(3) by (simp add: bounds(1,2) un pre cp)
  then show ?thesis by (simp add: buf_def q_def a_def b_def)
qed

interpretation delta_bytes: stream_codec bytes_enc DeltaEncoderBytes_Decode fst "\<lambda>x. slice_ok (fst x)" bytes_sim
proof unfold_locales
  fix s :: DeltaEncoderBytes and t and x :: "bytes \<times> u32" and pre post :: bytes
  assume sim: "bytes_sim s t" and key: "slice_ok (fst x)" and ok: "slice_ok (pre @ fst (bytes_enc s x []) @ post)"
  from bytes_enc_out [OF sim] obtain n where n:
    "fst (bytes_enc s x []) = put_uvarint (of_nat n) @ put_uvarint (of_nat (length (drop n (fst x)))) @ drop n (fst x)"
    "n \<le> length (db_prevKey t)" "n \<le> length (fst x)" "take n (db_prevKey t) = take n (fst x)"
    "db_prevKey (snd (bytes_enc s x [])) = fst x" .
  have "n + length (drop n (fst x)) < 2 ^ 48" using key n(3) by (simp add: slice_ok_def max_alloc_def)
  from delta_entry_Decode [OF ok [unfolded n(1)] n(2) this]
  show "\<exists>t'. DeltaEncoderBytes_Decode (pre @ fst (bytes_enc s x []) @ post) (t, int (length pre)) =
      (Ok (fst x), (t', int (length pre) + int (length (fst (bytes_enc s x []))))) \<and> bytes_sim (snd (bytes_enc s x [])) t'"
    unfolding n(1) n(4) append_take_drop_id
    by (intro exI conjI, assumption) (auto simp: bytes_sim_def n(5) key)
qed (auto simp: bytes_enc_def DeltaEncoderBytes_Encode_def Let_def split: prod.split)

lemma delta_entry_DecodeWithMeta:
  assumes ok: "slice_ok (pre @ (put_uvarint (of_nat n) @ put_uvarint (of_nat (length suf)) @ suf) @ post)"
    and n: "n \<le> length (db_prevKey de)" "n < 2 ^ 48"
  shows "DecodeWithMeta spare (pre @ (put_uvarint (of_nat n) @ put_uvarint (of_nat (length suf)) @ suf) @ post)
      (de, int (length pre)) =
    (Ok (of_nat n, of_nat (length suf), suf, take n (db_prevKey de) @ suf),
      (de\<lparr>db_prevKey := take n (db_prevKey de) @ suf\<rparr>,
      int (length pre) + int (length (put_uvarint (of_nat n) @ put_uvarint (of_nat (length suf)) @ suf))))"
proof -
  define a where "a = put_uvarint (of_nat n)"
  define b where "b = put_uvarint (of_nat (length suf))"
  define buf where "buf = pre @ (a @ b @ suf) @ post"
  define p where "p = int (length (pre @ a @ b))"
  define q where "q = int (length (pre @ a @ b @ suf))"
  have bounds: "go_int (p + u64_int (of_nat (length suf))) = q" "go_slice buf p q = Ok suf" "q \<le> int (length buf)"
    using delta_bounds [of pre a b suf post] ok by (simp_all add: p_def q_def buf_def a_def b_def)
  have pre: "go_slice (db_prevKey de @ spare) 0 (uint (of_nat n :: u64)) = Ok (take n (db_prevKey de))"
    using n by (simp add: go_slice_def uint_of_nat_small)
  have "DecodeWithMeta spare buf (de, int (length pre)) =
      (Ok (of_nat n, of_nat (length suf), suf, take n (db_prevKey de) @ suf),
       (de\<lparr>db_prevKey := take n (db_prevKey de) @ suf\<rparr>, q))"
    unfolding DecodeWithMeta_def delta_entry_varints [OF ok, folded a_def b_def, folded buf_def p_def]
    using bounds(3) by (simp add: bounds(1,2) pre)
  then show ?thesis by (simp add: buf_def q_def a_def b_def)
qed

text \<open>\<^verbatim>\<open>DecodeWithMeta\<close> used as a decoder: only the key it returns is looked at.\<close>

definition meta_key :: "bytes \<Rightarrow> bytes \<Rightarrow> (DeltaEncoderBytes \<times> int, bytes) op" where
  "meta_key spare data = bind_s (DecodeWithMeta spare data) (\<lambda>(shared, suffixLen, suffix, key). ret_s key)"

interpretation delta_meta: stream_codec bytes_enc "meta_key spare" fst "\<lambda>x. slice_ok (fst x)" bytes_sim
  for spare
proof unfold_locales
  fix s :: DeltaEncoderBytes and t and x :: "bytes \<times> u32" and pre post :: bytes
  assume sim: "bytes_sim s t" and key: "slice_ok (fst x)" and ok: "slice_ok (pre @ fst (bytes_enc s x []) @ post)"
  from bytes_enc_out [OF sim] obtain n where n:
    "fst (bytes_enc s x []) = put_uvarint (of_nat n) @ put_uvarint (of_nat (length (drop n (fst x)))) @ drop n (fst x)"
    "n \<le> length (db_prevKey t)" "n \<le> length (fst x)" "take n (db_prevKey t) = take n (fst x)"
    "db_prevKey (snd (bytes_enc s x [])) = fst x" .
  have "n < 2 ^ 48" using key n(3) by (simp add: slice_ok_def max_alloc_def)
  from delta_entry_DecodeWithMeta [OF ok [unfolded n(1)] n(2) this, of spare]
  show "\<exists>t'. meta_key spare (pre @ fst (bytes_enc s x []) @ post) (t, int (length pre)) =
      (Ok (fst x), (t', int (length pre) + int (length (fst (bytes_enc s x []))))) \<and> bytes_sim (snd (bytes_enc s x [])) t'"
    unfolding n(1) n(4) append_take_drop_id meta_key_def
    by (intro exI conjI) (auto simp: bytes_sim_def n(5))
qed (auto simp: bytes_enc_def DeltaEncoderBytes_Encode_def Let_def split: prod.split)

section \<open>Restart points\<close>

text \<open>
  Every \<open>r\<close>-th entry starts afresh: after a multiple of \<open>r\<close> entries the encoder is about to
  restart, so what follows is encoded as by a new encoder, and the recorded offsets are those
  of the entries \<open>0, r, 2r, \<dots>\<close>.
\<close>

fun every_nth :: "nat \<Rightarrow> nat \<Rightarrow> 'a list \<Rightarrow> 'a list" where
  "every_nth r i [] = []"
| "every_nth r i (x # xs) = (if i = 0 \<or> i = r then x # every_nth r 1 xs else every_nth r (Suc i) xs)"

lemma of_nat_i64_eq: "a < 2 ^ 63 \<Longrightarrow> b < 2 ^ 63 \<Longrightarrow> (of_nat a :: i64) = of_nat b \<longleftrightarrow> a = b"
  by (simp add: word_unat_eq_iff unsigned_of_nat take_bit_nat_eq_self)

locale restarting =
  fixes enc :: "'s \<Rightarrow> 'a \<times> u32 \<Rightarrow> bytes \<Rightarrow> bytes \<times> 's"
    and ivl :: "'s \<Rightarrow> i64" and idx :: "'s \<Rightarrow> i64" and arr :: "'s \<Rightarrow> u32 list"
  assumes ivl_enc: "ivl (snd (enc s x buf)) = ivl s"
    and idx_enc: "idx (snd (enc s x buf)) = (if idx s \<in> {0, ivl s} then 1 else idx s + 1)"
    and arr_enc: "arr (snd (enc s x buf)) = arr s @ (if idx s \<in> {0, ivl s} then [snd x] else [])"
begin

lemma entry_index:
  assumes "0 < r" "r < 2 ^ 63" "ivl s = of_nat r" "idx s = of_nat i" "i \<le> r"
  shows "ivl (snd (encode_all enc s xs buf)) = of_nat r \<and>
    (\<exists>j \<le> r. idx (snd (encode_all enc s xs buf)) = of_nat j \<and> (j mod r = (i + length xs) mod r)) \<and>
    arr (snd (encode_all enc s xs buf)) = arr s @ every_nth r i (map snd xs)"
  using assms(3-5)
proof (induction xs arbitrary: s i buf)
  case Nil
  then show ?case by auto
next
  case (Cons x xs)
  define s1 where "s1 = snd (enc s x buf)"
  define b1 where "b1 = fst (enc s x buf)"
  define i1 where "i1 = (if i = 0 \<or> i = r then 1 else Suc i)"
  have restart: "idx s \<in> {0, ivl s} \<longleftrightarrow> i = 0 \<or> i = r"
    using of_nat_i64_eq [of i 0] of_nat_i64_eq [of i r] Cons.prems assms(1,2) by auto
  have s1: "ivl s1 = of_nat r" "idx s1 = of_nat i1" "i1 \<le> r"
      "arr s1 = arr s @ (if i = 0 \<or> i = r then [snd x] else [])"
    using restart Cons.prems assms(1) ivl_enc [of s x buf] idx_enc [of s x buf] arr_enc [of s x buf]
    unfolding restart by (auto simp: s1_def i1_def)
  have "i1 mod r = Suc i mod r"
    using assms(1) by (auto simp: i1_def mod_Suc)
  then have "(i1 + length xs) mod r = (Suc i + length xs) mod r"
    by (metis mod_add_left_eq)
  moreover have "every_nth r i (map snd (x # xs)) =
      (if i = 0 \<or> i = r then [snd x] else []) @ every_nth r i1 (map snd xs)"
    by (simp add: i1_def)
  moreover have "encode_all enc s (x # xs) buf = encode_all enc s1 xs b1"
    by (simp add: s1_def b1_def split: prod.split)
  ultimately show ?case
    using Cons.IH [OF s1(1-3), of b1] s1(4) by simp
qed

lemma restart_after:
  assumes "0 < r" "r < 2 ^ 63" "ivl s = of_nat r" "idx s = 0" "r dvd length xs"
  shows "idx (snd (encode_all enc s xs buf)) \<in> {0, ivl (snd (encode_all enc s xs buf))}"
    "ivl (snd (encode_all enc s xs buf)) = of_nat r"
proof -
  from entry_index [OF assms(1-3), of 0 xs buf] assms(4,5)
  obtain j where j: "j \<le> r" "idx (snd (encode_all enc s xs buf)) = of_nat j" "j mod r = 0"
    and ivl: "ivl (snd (encode_all enc s xs buf)) = of_nat r"
    by auto
  then have "j = 0 \<or> j = r" by (metis le_neq_implies_less mod_less)
  with j(2) ivl show "idx (snd (encode_all enc s xs buf)) \<in> {0, ivl (snd (encode_all enc s xs buf))}"
    by auto
  show "ivl (snd (encode_all enc s xs buf)) = of_nat r" by (fact ivl)
qed

end

interpretation restart_int: restarting int_enc di_restartInterval di_entryIndex di_restartArray
  by unfold_locales (auto simp: int_enc_def DeltaEncoderInt_Encode_def Let_def split: prod.split)

interpretation restart_bytes: restarting bytes_enc db_restartInterval db_entryIndex db_restartArray
  by unfold_locales (auto simp: bytes_enc_def DeltaEncoderBytes_Encode_def Let_def split: prod.split)

section \<open>Properties\<close>

text \<open>Whatever keys a new \<^verbatim>\<open>DeltaEncoderBytes\<close> appends to a buffer, with any restart interval,
  \<^verbatim>\<open>Decode\<close> and \<^verbatim>\<open>DecodeWithMeta\<close>, called as many times on a fresh decoder, return exactly those keys
  in order and leave the position behind the last entry.\<close>

theorem delta_bytes_stream_roundtrip:
  fixes keys :: "(bytes \<times> u32) list"
  assumes "list_all (\<lambda>x. slice_ok (fst x)) keys"
    and "slice_ok (fst (encode_all bytes_enc (NewDeltaEncoderBytes r) keys buf) @ post)"
    and "out = fst (encode_all bytes_enc (NewDeltaEncoderBytes r) keys buf)"
  shows "(\<exists>de. decode_all (DeltaEncoderBytes_Decode (out @ post)) (length keys) (NewDeltaEncoderBytes q, int (length buf)) =
      (Ok (map fst keys), (de, int (length out))))
    \<and> (\<exists>de. decode_all (meta_key spare (out @ post)) (length keys) (NewDeltaEncoderBytes q, int (length buf)) =
      (Ok (map fst keys), (de, int (length out))))"
proof (intro conjI)
  have sim: "bytes_sim (NewDeltaEncoderBytes r) (NewDeltaEncoderBytes q)"
    by (simp add: bytes_sim_def NewDeltaEncoderBytes_def)
  have out: "out = buf @ fst (encode_all bytes_enc (NewDeltaEncoderBytes r) keys [])"
    unfolding assms(3) by (subst delta_bytes.encode_all_prepend) simp
  have ok: "slice_ok (buf @ fst (encode_all bytes_enc (NewDeltaEncoderBytes r) keys []) @ post)"
    using assms(2) unfolding assms(3) [symmetric] out by simp
  show "\<exists>de. decode_all (DeltaEncoderBytes_Decode (out @ post)) (length keys) (NewDeltaEncoderBytes q, int (length buf)) =
      (Ok (map fst keys), (de, int (length out)))"
    using delta_bytes.decode_all_encode_all [OF sim assms(1) ok] unfolding out by auto
  show "\<exists>de. decode_all (meta_key spare (out @ post)) (length keys) (NewDeltaEncoderBytes q, int (length buf)) =
      (Ok (map fst keys), (de, int (length out)))"
    using delta_meta.decode_all_encode_all [OF sim assms(1) ok] unfolding out by auto
qed

theorem delta_bytes_stream_roundtrip_witness:
  "\<exists>de. decode_all (DeltaEncoderBytes_Decode (fst (encode_all bytes_enc (NewDeltaEncoderBytes 2)
        [([1, 2, 3], 0), ([1, 2, 4], 7), ([1, 5], 9)] []) @ [])) 3 (NewDeltaEncoderBytes 0, 0) =
      (Ok [[1, 2, 3], [1, 2, 4], [1, 5]], (de, 12))"
  using delta_bytes_stream_roundtrip [of "[([1, 2, 3], 0), ([1, 2, 4], 7), ([1, 5], 9)]" 2 "[]" "[]"
      "fst (encode_all bytes_enc (NewDeltaEncoderBytes 2) [([1, 2, 3], 0), ([1, 2, 4], 7), ([1, 5], 9)] [])" 0]
  by (simp add: slice_ok_def max_alloc_def bytes_enc_def DeltaEncoderBytes_Encode_def NewDeltaEncoderBytes_def
      put_uvarint.simps Let_def numeral_3_eq_3 del: decode_all.simps)

text \<open>Restart points make the stream seekable. With restart interval \<open>r\<close> the encoder records the
  offsets of entries \<open>0, r, 2r, \<dots>\<close>, and a fresh decoder that starts at the position of such an entry
  decodes all keys from there on, without having seen the ones before.\<close>

theorem delta_bytes_restart_seek:
  fixes before after :: "(bytes \<times> u32) list"
  assumes "0 < r" "r < 2 ^ 63" "r dvd length before"
    and "list_all (\<lambda>x. slice_ok (fst x)) after"
    and "out1 = fst (encode_all bytes_enc (NewDeltaEncoderBytes (of_nat r)) before [])"
    and "encode_all bytes_enc (NewDeltaEncoderBytes (of_nat r)) (before @ after) [] = (out, de)"
    and "slice_ok out"
  shows "db_restartArray de = every_nth r 0 (map snd (before @ after)) \<and>
    (\<exists>t. decode_all (DeltaEncoderBytes_Decode out) (length after) (NewDeltaEncoderBytes (of_nat r), int (length out1)) =
      (Ok (map fst after), (t, int (length out))))"
proof -
  define s0 where "s0 = NewDeltaEncoderBytes (of_nat r)"
  define s1 where "s1 = snd (encode_all bytes_enc s0 before [])"
  have s0: "db_restartInterval s0 = of_nat r" "db_entryIndex s0 = 0" "db_restartArray s0 = []"
    by (simp_all add: s0_def NewDeltaEncoderBytes_def)
  have arr: "db_restartArray de = every_nth r 0 (map snd (before @ after))"
    using restart_bytes.entry_index [OF assms(1,2) s0(1), of 0 "before @ after" "[]"] s0 assms(6)
    by (simp add: s0_def)
  have sim: "bytes_sim s1 s0"
    using restart_bytes.restart_after [OF assms(1,2) s0(1,2) assms(3), of "[]"]
    by (auto simp: bytes_sim_def s1_def)
  have "encode_all bytes_enc s0 before [] = (out1, s1)"
    using assms(5) by (simp add: s1_def s0_def)
  then have out: "out = out1 @ fst (encode_all bytes_enc s1 after []) @ []"
    using assms(6) delta_bytes.encode_all_prepend [of s1 after out1]
    by (simp add: encode_all_append flip: s0_def)
  from delta_bytes.decode_all_encode_all [OF sim assms(4), of out1 "[]"] assms(7)
  have "\<exists>t. decode_all (DeltaEncoderBytes_Decode out) (length after) (s0, int (length out1)) =
      (Ok (map fst after), (t, int (length out)))"
    unfolding out by auto
  with arr show ?thesis by (simp add: s0_def)
qed

theorem delta_bytes_restart_seek_witness:
  "\<exists>t. decode_all (DeltaEncoderBytes_Decode [0, 2, 1, 2, 1, 1, 3, 0, 2, 1, 3]) 1 (NewDeltaEncoderBytes 2, 7) =
      (Ok [[1, 3]], (t, 11))"
proof -
  let ?b = "[([1, 2], 0), ([1, 3], 4)] :: (bytes \<times> u32) list" and ?a = "[([1, 3], 7)] :: (bytes \<times> u32) list"
  note ev = slice_ok_def max_alloc_def bytes_enc_def DeltaEncoderBytes_Encode_def NewDeltaEncoderBytes_def put_uvarint.simps Let_def
  show ?thesis
    using delta_bytes_restart_seek [of 2 ?b ?a "fst (encode_all bytes_enc (NewDeltaEncoderBytes 2) ?b [])"
      "fst (encode_all bytes_enc (NewDeltaEncoderBytes 2) (?b @ ?a) [])"
      "snd (encode_all bytes_enc (NewDeltaEncoderBytes 2) (?b @ ?a) [])"]
    by (simp add: ev del: decode_all.simps)
qed

text \<open>For integers the same holds with wrap-around: any 64-bit values, decoded from the start or
  from a restart point, come back unchanged, also where a difference overflows.\<close>

theorem delta_int_stream_roundtrip:
  fixes before after :: "(i64 \<times> u32) list"
  assumes "0 < r" "r < 2 ^ 63" "r dvd length before"
    and "out1 = fst (encode_all int_enc (NewDeltaEncoderInt (of_nat r)) before [])"
    and "encode_all int_enc (NewDeltaEncoderInt (of_nat r)) (before @ after) [] = (out, de)"
    and "slice_ok out"
  shows "di_restartArray de = every_nth r 0 (map snd (before @ after)) \<and>
    (\<exists>t. decode_all (DeltaEncoderInt_Decode out) (length after) (NewDeltaEncoderInt (of_nat r), int (length out1)) =
      (Ok (map fst after), (t, int (length out))))"
proof -
  define s0 where "s0 = NewDeltaEncoderInt (of_nat r)"
  define s1 where "s1 = snd (encode_all int_enc s0 before [])"
  have s0: "di_restartInterval s0 = of_nat r" "di_entryIndex s0 = 0" "di_restartArray s0 = []"
    by (simp_all add: s0_def NewDeltaEncoderInt_def)
  have arr: "di_restartArray de = every_nth r 0 (map snd (before @ after))"
    using restart_int.entry_index [OF assms(1,2) s0(1), of 0 "before @ after" "[]"] s0 assms(5)
    by (simp add: s0_def)
  have sim: "int_sim s1 s0"
    using restart_int.restart_after [OF assms(1,2) s0(1,2) assms(3), of "[]"] s0
    by (auto simp: int_sim_def s1_def)
  have "encode_all int_enc s0 before [] = (out1, s1)"
    using assms(4) by (simp add: s1_def s0_def)
  then have out: "out = out1 @ fst (encode_all int_enc s1 after []) @ []"
    using assms(5) delta_int.encode_all_prepend [of s1 after out1]
    by (simp add: encode_all_append flip: s0_def)
  from delta_int.decode_all_encode_all [OF sim, of after out1 "[]"] assms(6)
  have "\<exists>t. decode_all (DeltaEncoderInt_Decode out) (length after) (s0, int (length out1)) =
      (Ok (map fst after), (t, int (length out)))"
    unfolding out by (auto simp: list_all_iff)
  with arr show ?thesis by (simp add: s0_def)
qed

theorem delta_int_stream_roundtrip_witness:
  "\<exists>t. decode_all (DeltaEncoderInt_Decode [20, 3]) (Suc (Suc 0)) (NewDeltaEncoderInt 4, 0) = (Ok [10, 8], (t, 2))"
proof -
  let ?a = "[(10, 0), (8, 1)] :: (i64 \<times> u32) list"
  note ev = slice_ok_def max_alloc_def int_enc_def DeltaEncoderInt_Encode_def NewDeltaEncoderInt_def put_varint_def
    zigzag_def put_uvarint.simps Let_def
  show ?thesis
    using delta_int_stream_roundtrip [of 4 "[]" "[]" ?a
      "fst (encode_all int_enc (NewDeltaEncoderInt 4) ?a [])" "snd (encode_all int_enc (NewDeltaEncoderInt 4) ?a [])"]
    by (simp add: ev del: decode_all.simps)
qed

end
