(* ===== verification/Dict_Encoder.thy ===== *)
theory Dict_Encoder
  imports Delta_Encoder
begin

unbundle bit_operations_syntax

text \<open>
  \<^verbatim>\<open>DictEncoder\<close> replaces a key by its index in a dictionary, packed into the smallest number of
  bytes, and \<^verbatim>\<open>DictDeltaEncoder\<close> delta-encodes those indices. The index packing and the
  dictionary format at the start of this theory are also those of \<^verbatim>\<open>AdaptiveEncoder\<close>
  (theory \<open>Adaptive_Encoder\<close>), whose source repeats them.
\<close>

section \<open>Packed indices\<close>

text \<open>\<^verbatim>\<open>bits.Len\<close>, and the loop of \<^verbatim>\<open>DictEncoder.updateBitWidth\<close> that computes the same number.\<close>

fun bits_Len :: "nat \<Rightarrow> nat" where
  "bits_Len n = (if n = 0 then 0 else Suc (bits_Len (n div 2)))"

declare bits_Len.simps [simp del]

text \<open>
  The bytes of an index: \<^verbatim>\<open>outSize := (bitWidth + 7) / 8\<close> in \<^verbatim>\<open>uint16\<close>, byte \<open>i\<close> of the index shifted by
  \<open>sh i\<close>, and the unused bits of the last byte cleared. A bit width near the \<^verbatim>\<open>uint16\<close> limit makes
  \<^verbatim>\<open>outSize\<close> wrap to 0 and the access to the last byte panic.
\<close>

definition pack_index :: "(nat \<Rightarrow> nat) \<Rightarrow> u16 \<Rightarrow> u64 \<Rightarrow> bytes result" where
  "pack_index sh bw idx =
     (let outSize = (bw + 7) div 8;
          out = map (\<lambda>i. ucast (drop_bit (sh i) idx)) [0..<unat outSize];
          extraBits = (ucast (outSize * 8 - bw) :: byte);
          last = unat (outSize - 1)
      in if 0 < extraBits then
           if last < length out then Ok (out[last := out ! last AND (push_bit (unat (8 - extraBits)) 1 - 1)])
           else Inl (Panic ''index out of range'')
         else Ok out)"

text \<open>Reading the index back: the loop over the bytes and the mask.\<close>

definition unpack_index :: "nat \<Rightarrow> u16 \<Rightarrow> byte \<Rightarrow> bytes \<Rightarrow> u64" where
  "unpack_index outSize bw extraBits enc =
     (let idx = foldl (\<lambda>x i. x OR push_bit (8 * i) (ucast (enc ! i))) 0 [0..<outSize]
      in if 0 < extraBits then idx AND (push_bit (unat bw) 1 - 1) else idx)"

section \<open>The dictionary format\<close>

definition dict_entry :: "nat \<times> bytes \<Rightarrow> bytes" where
  "dict_entry = (\<lambda>(idx, key). put_uvarint (of_nat (length key)) @ key @ put_uvarint (of_nat idx))"

definition save_dict :: "u16 \<Rightarrow> bytes list \<Rightarrow> bytes" where
  "save_dict bw keys = foldl (\<lambda>buf e. buf @ dict_entry e) (put_u16 bw) (enumerate 0 keys)"

text \<open>
  The loop that reads entries back, on the rest of the buffer. The two encoders report a bad
  varint differently (\<open>e1\<close>, \<open>e2\<close>) and do different things with an entry (\<open>step\<close>).
\<close>

function load_loop :: "failure \<Rightarrow> failure \<Rightarrow> ('s \<Rightarrow> bytes \<Rightarrow> u64 \<Rightarrow> 's) \<Rightarrow> bytes \<Rightarrow> ('s, unit) op" where
  "load_loop e1 e2 step tail s =
     (if tail = [] then (Ok (), s)
      else let (keyLen, n) = uvarint tail in
        if n \<le> 0 then (Inl e1, s)
        else case go_slice (drop (nat n) tail) 0 (u64_int keyLen) of
            Inl e \<Rightarrow> (Inl e, s)
          | Inr key \<Rightarrow>
              let tail2 = drop (nat n + length key) tail; (idx, m) = uvarint tail2 in
              if m \<le> 0 then (Inl e2, s)
              else load_loop e1 e2 step (drop (nat m) tail2) (step s key idx))"
  by pat_completeness auto
termination
  by (relation "measure (\<lambda>(e1, e2, step, tail, s). length tail)") auto

declare load_loop.simps [simp del]

section \<open>DictEncoder\<close>

record DictEncoder =
  de_bitWidth :: u16
  de_dictionary :: "bytes \<rightharpoonup> u64"
  de_keys :: "bytes list"

definition DictEncoder_LoadDict :: "bytes \<Rightarrow> (DictEncoder, unit) op" where
  "DictEncoder_LoadDict dict de =
     (if dict = [] then (Ok (), de)
      else case read_u16 dict 0 of
          Inl e \<Rightarrow> (Inl e, de)
        | Inr bw \<Rightarrow>
            load_loop (Panic ''invalid varint for keylen'') (Panic ''invalid varint for idx'')
              (\<lambda>de key idx. de\<lparr>de_keys := de_keys de @ [key], de_dictionary := (de_dictionary de)(key \<mapsto> idx)\<rparr>)
              (drop 2 dict) (de\<lparr>de_bitWidth := bw\<rparr>))"

definition NewDictEncoder :: "bytes \<Rightarrow> DictEncoder result" where
  "NewDictEncoder rawDict =
     (case DictEncoder_LoadDict rawDict \<lparr>de_bitWidth = 0, de_dictionary = Map.empty, de_keys = []\<rparr> of
        (Inl e, _) \<Rightarrow> Inl e | (Inr _, de) \<Rightarrow> Ok de)"

definition DictEncoder_Index :: "DictEncoder \<Rightarrow> bytes \<Rightarrow> u64 option" where
  "DictEncoder_Index de key = de_dictionary de key"

definition DictEncoder_Key :: "DictEncoder \<Rightarrow> u64 \<Rightarrow> bytes" where
  "DictEncoder_Key de index =
     (if of_nat (length (de_keys de)) \<le> index then [] else de_keys de ! unat index)"

definition DictEncoder_updateBitWidth :: "DictEncoder \<Rightarrow> DictEncoder" where
  "DictEncoder_updateBitWidth de =
     (if length (de_keys de) = 0 then de\<lparr>de_bitWidth := 0\<rparr>
      else if length (de_keys de) = 1 then de\<lparr>de_bitWidth := 1\<rparr>
      else de\<lparr>de_bitWidth := of_nat (bits_Len (length (de_keys de) - 1))\<rparr>)"

definition DictEncoder_AddToDict :: "bytes \<Rightarrow> DictEncoder \<Rightarrow> (u64 \<times> bool) \<times> DictEncoder" where
  "DictEncoder_AddToDict key de =
     (case de_dictionary de key of
        Some idx \<Rightarrow> ((idx, False), de)
      | None \<Rightarrow>
          let idx = of_nat (length (de_keys de));
              de1 = de\<lparr>de_keys := de_keys de @ [key], de_dictionary := (de_dictionary de)(key \<mapsto> idx)\<rparr>
          in ((idx, True), DictEncoder_updateBitWidth de1))"

definition DictEncoder_Encode :: "DictEncoder \<Rightarrow> bytes \<Rightarrow> bytes result" where
  "DictEncoder_Encode de key =
     (case de_dictionary de key of
        None \<Rightarrow> Inl (Panic ''Not found '')
      | Some idx \<Rightarrow> pack_index (\<lambda>i. 8 * (i mod 8)) (de_bitWidth de) idx)"

definition DictEncoder_Decode :: "DictEncoder \<Rightarrow> bytes \<Rightarrow> bytes result" where
  "DictEncoder_Decode de encoded =
     (let bw = de_bitWidth de; outSize = unat ((bw + 7) div 8) in
      if length encoded < outSize then Inl (Panic ''encoded too short'')
      else
        let idx = unpack_index outSize bw (word_of_int (int outSize * 8 - uint bw)) encoded in
        if of_nat (length (de_keys de)) \<le> idx then Inl (Panic ''decoded index out of range'')
        else Ok (de_keys de ! unat idx))"

definition DictEncoder_SaveDict :: "DictEncoder \<Rightarrow> bytes" where
  "DictEncoder_SaveDict de = save_dict (de_bitWidth de) (de_keys de)"

text \<open>\<^verbatim>\<open>sort.Strings\<close> sorts by the byte order of strings.\<close>

definition DictEncoder_BuildDictionary :: "bytes list \<Rightarrow> DictEncoder \<Rightarrow> DictEncoder" where
  "DictEncoder_BuildDictionary keys de = fold (\<lambda>key de. snd (DictEncoder_AddToDict key de)) (sort keys) de"

section \<open>DictDeltaEncoder\<close>

record DictDeltaEncoder =
  dd_dictEncoder :: DictEncoder
  dd_deltaEncoder :: DeltaEncoderInt

definition NewDictDeltaEncoder :: "i64 \<Rightarrow> DictDeltaEncoder result" where
  "NewDictDeltaEncoder restartInterval =
     bind_r (NewDictEncoder []) (\<lambda>d. Ok \<lparr>dd_dictEncoder = d, dd_deltaEncoder = NewDeltaEncoderInt restartInterval\<rparr>)"

definition DictDeltaEncoder_Reset :: "DictDeltaEncoder \<Rightarrow> DictDeltaEncoder" where
  "DictDeltaEncoder_Reset e = e\<lparr>dd_deltaEncoder := DeltaEncoderInt_Reset (dd_deltaEncoder e)\<rparr>"

definition DictDeltaEncoder_Encode ::
    "DictDeltaEncoder \<Rightarrow> bytes \<Rightarrow> u32 \<Rightarrow> bytes \<Rightarrow> bytes \<times> DictDeltaEncoder" where
  "DictDeltaEncoder_Encode e key blockOffset buf =
     (let ((i, _), d) = DictEncoder_AddToDict key (dd_dictEncoder e);
          (out, delta) = DeltaEncoderInt_Encode (dd_deltaEncoder e) i blockOffset buf
      in (out, \<lparr>dd_dictEncoder = d, dd_deltaEncoder = delta\<rparr>))"

definition DictDeltaEncoder_Decode :: "bytes \<Rightarrow> (DictDeltaEncoder \<times> int, bytes) op" where
  "DictDeltaEncoder_Decode buf = (\<lambda>(e, pos).
     case DeltaEncoderInt_Decode buf (dd_deltaEncoder e, pos) of
       (Inl err, (delta, pos')) \<Rightarrow> (Inl err, (e\<lparr>dd_deltaEncoder := delta\<rparr>, pos'))
     | (Inr i, (delta, pos')) \<Rightarrow>
         (Ok (DictEncoder_Key (dd_dictEncoder e) i), (e\<lparr>dd_deltaEncoder := delta\<rparr>, pos')))"

definition SerializeDictionary :: "DictDeltaEncoder \<Rightarrow> bytes" where
  "SerializeDictionary e = DictEncoder_SaveDict (dd_dictEncoder e)"

definition LoadDictionary :: "bytes \<Rightarrow> DictDeltaEncoder \<Rightarrow> DictDeltaEncoder result" where
  "LoadDictionary buf e = bind_r (NewDictEncoder buf) (\<lambda>d. Ok (e\<lparr>dd_dictEncoder := d\<rparr>))"

definition DictDeltaEncoder_WriteRestartArray :: "DictDeltaEncoder \<Rightarrow> bytes \<Rightarrow> bytes" where
  "DictDeltaEncoder_WriteRestartArray e buf = DeltaEncoderInt_WriteRestartArray (dd_deltaEncoder e) buf"

section \<open>Lemmas on packed indices\<close>

lemma bits_Len_bounds: "n < 2 ^ bits_Len n" "0 < n \<Longrightarrow> 2 ^ (bits_Len n - 1) \<le> n"
proof -
  have "n < 2 ^ bits_Len n \<and> (0 < n \<longrightarrow> 0 < bits_Len n \<and> 2 ^ (bits_Len n - 1) \<le> n)" for n
  proof (induction n rule: bits_Len.induct)
    case (1 n)
    show ?case
    proof (cases "n = 0")
      case True
      then show ?thesis by (simp add: bits_Len.simps)
    next
      case False
      with "1.IH" have IH: "n div 2 < 2 ^ bits_Len (n div 2)"
        "0 < n div 2 \<Longrightarrow> 0 < bits_Len (n div 2) \<and> 2 ^ (bits_Len (n div 2) - 1) \<le> n div 2" by auto
      have L: "bits_Len n = Suc (bits_Len (n div 2))"
        using False by (subst bits_Len.simps) simp
      have "n < 2 ^ bits_Len n" using IH(1) by (simp add: L)
      moreover have "2 ^ (bits_Len n - 1) \<le> n"
      proof (cases "n div 2 = 0")
        case True
        with False show ?thesis by (simp add: L bits_Len.simps [of 0])
      next
        case nz: False
        then have "2 ^ bits_Len (n div 2) = 2 * (2 :: nat) ^ (bits_Len (n div 2) - 1)"
          using IH(2) by (simp flip: power_Suc)
        also have "\<dots> \<le> n" using IH(2) nz by linarith
        finally show ?thesis by (simp add: L)
      qed
      ultimately show ?thesis by (simp add: L)
    qed
  qed
  then show "n < 2 ^ bits_Len n" "0 < n \<Longrightarrow> 2 ^ (bits_Len n - 1) \<le> n" by auto
qed

lemma bits_Len_le: "n < 2 ^ k \<Longrightarrow> bits_Len n \<le> k"
proof (rule ccontr)
  assume "n < 2 ^ k" "\<not> bits_Len n \<le> k"
  then have "0 < n" by (cases n) (auto simp: bits_Len.simps)
  then have "2 ^ (bits_Len n - 1) \<le> n" by (rule bits_Len_bounds)
  moreover have "(2::nat) ^ k \<le> 2 ^ (bits_Len n - 1)"
    using \<open>\<not> bits_Len n \<le> k\<close> by (intro power_increasing) auto
  ultimately show False using \<open>n < 2 ^ k\<close> by linarith
qed

lemma put_le_map: "put_le n (w :: u64) = map (\<lambda>i. ucast (drop_bit (8 * i) w)) [0..<n]"
proof (induction n arbitrary: w)
  case (Suc n)
  have "put_le (Suc n) w = ucast w # map (\<lambda>i. ucast (drop_bit (8 * Suc i) w)) [0..<n]"
    by (simp add: Suc drop_bit_drop_bit add.commute)
  also have "\<dots> = map (\<lambda>i. ucast (drop_bit (8 * i) w)) (0 # map Suc [0..<n])"
    by simp
  finally show ?case by (simp only: map_Suc_upt upt_conv_Cons zero_less_Suc)
qed simp

lemma get_le_foldl:
  "n \<le> length bs \<Longrightarrow> foldl (\<lambda>x i. x OR push_bit (8 * i) (ucast (bs ! i))) a [0..<n] = (a OR get_le (take n bs) :: u64)"
proof (induction n)
  case (Suc n)
  have snoc: "get_le (xs @ [b]) = (get_le xs OR push_bit (8 * length xs) (ucast b) :: u64)" for xs b
    by (induction xs) (auto simp: push_bit_or push_bit_push_bit or.assoc)
  from Suc have "foldl (\<lambda>x i. x OR push_bit (8 * i) (ucast (bs ! i))) a [0..<Suc n] =
      (a OR get_le (take n bs)) OR push_bit (8 * n) (ucast (bs ! n))"
    by simp
  also have "\<dots> = a OR get_le (take n bs @ [bs ! n])"
    using Suc.prems by (simp add: snoc or.assoc)
  also have "take n bs @ [bs ! n] = take (Suc n) bs"
    using Suc.prems by (simp add: take_Suc_conv_app_nth)
  finally show ?case .
qed simp

text \<open>The sizes the \<^verbatim>\<open>uint16\<close> and \<^verbatim>\<open>uint8\<close> arithmetic yields for the widths that occur.\<close>

lemma pack_sizes:
  assumes "1 \<le> k" "k \<le> 48" "bw = (of_nat k :: u16)"
  shows "unat bw = k" "unat ((bw + 7) div 8) = (k + 7) div 8" "unat ((bw + 7) div 8 - 1) = (k + 7) div 8 - 1"
    "unat (ucast ((bw + 7) div 8 * 8 - bw) :: byte) = (k + 7) div 8 * 8 - k"
    "word_of_int (int ((k + 7) div 8) * 8 - uint bw) = (of_nat ((k + 7) div 8 * 8 - k) :: byte)"
proof -
  show k: "unat bw = k" using assms by (simp add: unsigned_of_nat take_bit_nat_eq_self)
  have "unat (bw + 7) = k + 7"
    using k assms(2) by (subst unat_add_lem [THEN iffD1]) auto
  then show n: "unat ((bw + 7) div 8) = (k + 7) div 8" by (simp add: unat_div)
  have pos: "1 \<le> (k + 7) div 8" "(k + 7) div 8 \<le> 6" using assms by auto
  have "(1 :: u16) \<le> (bw + 7) div 8" using n pos by (simp add: word_le_nat_alt)
  then show "unat ((bw + 7) div 8 - 1) = (k + 7) div 8 - 1"
    using n by (simp add: unat_sub)
  have ge: "k \<le> (k + 7) div 8 * 8" and lt: "(k + 7) div 8 * 8 - k < 8" by linarith+
  have "unat ((bw + 7) div 8 * 8) = (k + 7) div 8 * 8"
    using n pos by (subst unat_mult_lem [THEN iffD1]) auto
  then have "unat ((bw + 7) div 8 * 8 - bw) = (k + 7) div 8 * 8 - k"
    using ge k by (simp add: unat_sub word_le_nat_alt)
  then show "unat (ucast ((bw + 7) div 8 * 8 - bw) :: byte) = (k + 7) div 8 * 8 - k"
    using lt by (simp add: unsigned_ucast_eq unsigned_take_bit_eq take_bit_nat_eq_self)
  have "int ((k + 7) div 8) * 8 - uint bw = int ((k + 7) div 8 * 8 - k)"
    using ge k by (simp add: uint_nat of_nat_diff)
  then show "word_of_int (int ((k + 7) div 8) * 8 - uint bw) = (of_nat ((k + 7) div 8 * 8 - k) :: byte)"
    by (simp only: of_int_of_nat_eq)
qed

lemma and_low_mask: "unat (x :: 'a::len word) < 2 ^ k \<Longrightarrow> x AND (push_bit k 1 - 1) = x"
proof -
  assume "unat x < 2 ^ k"
  then have "take_bit k x = x"
    by (simp add: word_unat_eq_iff unsigned_take_bit_eq take_bit_nat_eq_self)
  moreover have "push_bit k 1 - 1 = (mask k :: 'a word)"
    by (simp add: mask_eq_exp_minus_1 push_bit_eq_mult)
  ultimately show "x AND (push_bit k 1 - 1) = x" by (simp add: take_bit_eq_mask [symmetric])
qed

lemma pack_index_eq:
  assumes k: "1 \<le> k" "k \<le> 48" "bw = of_nat k" and idx: "unat idx < 2 ^ k"
    and sh: "\<And>i. i < 8 \<Longrightarrow> sh i = 8 * i"
  shows "pack_index sh bw idx = Ok (put_le ((k + 7) div 8) idx)"
proof -
  define n where "n = (k + 7) div 8"
  define x where "x = n * 8 - k"
  have n: "1 \<le> n" "n \<le> 6" "k \<le> n * 8" "x < 8" "k = 8 * (n - 1) + (8 - x)"
    using k unfolding n_def x_def by linarith+
  note sz = pack_sizes [OF k, folded n_def, folded x_def]
  have out: "map (\<lambda>i. ucast (drop_bit (sh i) idx)) [0..<n] = put_le n idx"
    unfolding put_le_map using n(2) sh by (intro map_cong) auto
  have "unat (put_le n idx ! (n - 1)) < 2 ^ (8 - x)"
  proof -
    have "unat (drop_bit (8 * (n - 1)) idx) = unat idx div 2 ^ (8 * (n - 1))"
      by (simp only: unat_drop_bit_eq) (simp add: drop_bit_eq_div)
    also have "\<dots> < 2 ^ (8 - x)"
      using idx by (intro less_mult_imp_div_less) (simp add: n(5) power_add mult.commute)
    finally have lt: "unat (drop_bit (8 * (n - 1)) idx) < 2 ^ (8 - x)" .
    have "unat (ucast (drop_bit (8 * (n - 1)) idx) :: byte) \<le> unat (drop_bit (8 * (n - 1)) idx)"
      by (simp add: unat_byte)
    with lt have "unat (ucast (drop_bit (8 * (n - 1)) idx) :: byte) < 2 ^ (8 - x)" by (rule le_less_trans [rotated])
    then show ?thesis using n(1) by (simp add: put_le_map)
  qed
  then have "put_le n idx ! (n - 1) AND (push_bit (8 - x) 1 - 1) = put_le n idx ! (n - 1)"
    by (rule and_low_mask)
  moreover have "unat (8 - ucast ((bw + 7) div 8 * 8 - bw) :: byte) = 8 - x"
    using sz(4) n(4) by (simp add: unat_sub word_le_nat_alt)
  ultimately show ?thesis
    using n(1) by (simp add: pack_index_def Let_def sz(2,3) out list_update_id flip: n_def)
qed

lemma unpack_index_pack:
  assumes k: "1 \<le> k" "k \<le> 48" "bw = of_nat k" and idx: "unat idx < 2 ^ k"
  shows "unpack_index ((k + 7) div 8) bw x (put_le ((k + 7) div 8) idx @ rest) = idx"
proof -
  let ?n = "(k + 7) div 8"
  have "take_bit (8 * ?n) idx = idx"
  proof -
    have "k \<le> 8 * ?n" by linarith
    then have "(2::nat) ^ k \<le> 2 ^ (8 * ?n)" by (intro power_increasing) auto
    with idx have "unat idx < 2 ^ (8 * ?n)" by (rule less_le_trans)
    then show ?thesis
      by (simp add: word_unat_eq_iff unsigned_take_bit_eq take_bit_nat_eq_self)
  qed
  then have "foldl (\<lambda>x i. x OR push_bit (8 * i) (ucast ((put_le ?n idx @ rest) ! i))) 0 [0..<?n] = idx"
    by (subst get_le_foldl) (simp_all add: get_le_put_le)
  then show ?thesis
    using and_low_mask [OF idx] pack_sizes(1) [OF k] by (simp add: unpack_index_def Let_def)
qed

section \<open>Lemmas on the dictionary format\<close>

lemma save_dict_concat: "save_dict bw keys = put_u16 bw @ concat (map dict_entry (enumerate 0 keys))"
proof -
  have "foldl (\<lambda>buf e. buf @ dict_entry e) b es = b @ concat (map dict_entry es)" for b es
    by (induction es arbitrary: b) auto
  then show ?thesis by (simp add: save_dict_def)
qed

lemma go_slice_prefix: "n = int (length a) \<Longrightarrow> go_slice (a @ b) 0 n = Ok a"
  by (simp add: go_slice_def)

text \<open>Reading a saved dictionary hands its entries to \<open>step\<close> in order.\<close>

lemma load_loop_entry:
  assumes "slice_ok key"
  shows "load_loop e1 e2 step (dict_entry (i, key) @ tail) s = load_loop e1 e2 step tail (step s key (of_nat i))"
proof -
  have u: "u64_int (of_nat (length key)) = int (length key)"
    using assms by (intro u64_int_of_nat) (simp add: slice_ok_def max_alloc_def)
  have "dict_entry (i, key) @ tail = put_uvarint (of_nat (length key)) @ key @ put_uvarint (of_nat i) @ tail"
    by (simp add: dict_entry_def)
  moreover have "0 < length (put_uvarint w)" for w by simp
  ultimately show ?thesis
    by (subst load_loop.simps) (simp add: uvarint_put_uvarint u go_slice_prefix Let_def)
qed

lemma load_loop_entries:
  "list_all slice_ok keys \<Longrightarrow>
   load_loop e1 e2 step (concat (map dict_entry (enumerate k keys))) s =
     (Ok (), foldl (\<lambda>s (i, key). step s key (of_nat i)) s (enumerate k keys))"
proof (induction keys arbitrary: k s)
  case Nil
  then show ?case by (simp add: load_loop.simps)
next
  case (Cons key keys)
  then show ?case by (simp add: load_loop_entry)
qed

section \<open>The dictionary invariant\<close>

text \<open>
  Keys are distinct, the map is the inverse of the key list, and the bit width is the one that
  \<^verbatim>\<open>updateBitWidth\<close> computes.
\<close>

definition index_width :: "nat \<Rightarrow> nat" where
  "index_width n = (if n = 0 then 0 else if n = 1 then 1 else bits_Len (n - 1))"

definition indexed :: "(bytes \<rightharpoonup> u64) \<Rightarrow> bytes list \<Rightarrow> bool" where
  "indexed d keys \<longleftrightarrow> distinct keys \<and> dom d = set keys \<and> (\<forall>i < length keys. d (keys ! i) = Some (of_nat i))"

definition dict_inv :: "DictEncoder \<Rightarrow> bool" where
  "dict_inv de \<longleftrightarrow> indexed (de_dictionary de) (de_keys de) \<and>
     de_bitWidth de = of_nat (index_width (length (de_keys de)))"

lemma index_width_bounds:
  "n \<le> 2 ^ index_width n" "0 < n \<Longrightarrow> 1 \<le> index_width n" "n \<le> 2 ^ 48 \<Longrightarrow> index_width n \<le> 48"
proof -
  show "n \<le> 2 ^ index_width n"
    using bits_Len_bounds(1) [of "n - 1"] by (auto simp: index_width_def)
  show "0 < n \<Longrightarrow> 1 \<le> index_width n"
    by (simp add: index_width_def) (subst bits_Len.simps, simp)
  show "n \<le> 2 ^ 48 \<Longrightarrow> index_width n \<le> 48"
    using bits_Len_le [of "n - 1" 48] by (auto simp: index_width_def)
qed

lemma indexed_snoc:
  assumes "indexed d keys" "d key = None"
  shows "indexed (d(key \<mapsto> of_nat (length keys))) (keys @ [key])"
proof -
  have "key \<notin> set keys" using assms by (auto simp: indexed_def)
  with assms show ?thesis by (auto simp: indexed_def nth_append less_Suc_eq)
qed

lemma indexed_lookup:
  assumes "indexed d keys" "key \<in> set keys"
  obtains i where "i < length keys" "keys ! i = key" "d key = Some (of_nat i)"
  using assms unfolding indexed_def by (metis in_set_conv_nth)

lemma dict_inv_empty: "NewDictEncoder [] = Ok de \<Longrightarrow> dict_inv de \<and> de_keys de = []"
  by (auto simp: NewDictEncoder_def DictEncoder_LoadDict_def dict_inv_def indexed_def index_width_def)

lemma AddToDict_cases:
  assumes "dict_inv de" "DictEncoder_AddToDict key de = ((idx, added), de')"
  shows "dict_inv de'" "key \<in> set (de_keys de')" "de_dictionary de' key = Some idx"
    "\<exists>ks. de_keys de' = de_keys de @ ks" "added \<longleftrightarrow> key \<notin> set (de_keys de)"
    "set (de_keys de') = insert key (set (de_keys de))"
proof -
  have keys: "dom (de_dictionary de) = set (de_keys de)"
    using assms(1) by (simp add: dict_inv_def indexed_def)
  have "dict_inv de' \<and> key \<in> set (de_keys de') \<and> de_dictionary de' key = Some idx \<and>
    (\<exists>ks. de_keys de' = de_keys de @ ks) \<and> (added \<longleftrightarrow> key \<notin> set (de_keys de)) \<and>
    set (de_keys de') = insert key (set (de_keys de))"
  proof (cases "de_dictionary de key")
    case None
    then have "key \<notin> set (de_keys de)" using keys by auto
    with None assms indexed_snoc [of "de_dictionary de" "de_keys de" key] show ?thesis
      by (auto simp: DictEncoder_AddToDict_def Let_def DictEncoder_updateBitWidth_def dict_inv_def index_width_def
          split: if_splits)
  next
    case (Some i)
    then have "key \<in> set (de_keys de)" using keys by auto
    with Some assms show ?thesis by (auto simp: DictEncoder_AddToDict_def)
  qed
  then show "dict_inv de'" "key \<in> set (de_keys de')" "de_dictionary de' key = Some idx"
    "\<exists>ks. de_keys de' = de_keys de @ ks" "added \<longleftrightarrow> key \<notin> set (de_keys de)"
    "set (de_keys de') = insert key (set (de_keys de))" by blast+
qed

lemma fold_AddToDict:
  "dict_inv de \<Longrightarrow> dict_inv (fold (\<lambda>key de. snd (DictEncoder_AddToDict key de)) ks de) \<and>
    set (de_keys (fold (\<lambda>key de. snd (DictEncoder_AddToDict key de)) ks de)) = set (de_keys de) \<union> set ks"
proof (induction ks arbitrary: de)
  case (Cons k ks)
  obtain i a de' where r: "DictEncoder_AddToDict k de = ((i, a), de')" by (metis prod.collapse)
  note c = AddToDict_cases [OF Cons.prems r]
  from Cons.IH [of de'] r c(1,6) show ?case by auto
qed simp

lemma DictEncoder_Encode_packed:
  assumes inv: "dict_inv de" and size: "length (de_keys de) \<le> 2 ^ 48" and key: "key \<in> set (de_keys de)"
  obtains idx :: u64 where "unat idx < length (de_keys de)" "de_keys de ! unat idx = key"
    "unat idx < 2 ^ index_width (length (de_keys de))"
    "DictEncoder_Encode de key = Ok (put_le ((index_width (length (de_keys de)) + 7) div 8) idx)"
proof -
  let ?n = "length (de_keys de)"
  from inv have idxd: "indexed (de_dictionary de) (de_keys de)" and bw: "de_bitWidth de = of_nat (index_width ?n)"
    by (auto simp: dict_inv_def)
  from indexed_lookup [OF idxd key] obtain i where
    i: "i < ?n" "de_keys de ! i = key" "de_dictionary de key = Some (of_nat i)" .
  have ui: "unat (of_nat i :: u64) = i" using i(1) size by (intro unat_of_nat_small) simp
  have lt: "unat (of_nat i :: u64) < 2 ^ index_width ?n"
    using i(1) index_width_bounds(1) [of ?n] ui by linarith
  have "DictEncoder_Encode de key = Ok (put_le ((index_width ?n + 7) div 8) (of_nat i :: u64))"
    unfolding DictEncoder_Encode_def i(3) option.case bw
    using pack_index_eq [OF _ _ refl lt, of "\<lambda>i. 8 * (i mod 8)"] i(1) size index_width_bounds [of ?n]
    by (simp del: length_greater_0_conv)
  with that [of "of_nat i"] ui i lt show thesis by simp
qed

lemma DictEncoder_Decode_packed:
  fixes idx :: u64
  assumes inv: "dict_inv de" and size: "length (de_keys de) \<le> 2 ^ 48"
    and idx: "unat idx < length (de_keys de)" "unat idx < 2 ^ index_width (length (de_keys de))"
  shows "DictEncoder_Decode de (put_le ((index_width (length (de_keys de)) + 7) div 8) idx @ rest) =
    Ok (de_keys de ! unat idx)"
proof -
  let ?n = "length (de_keys de)" and ?k = "index_width (length (de_keys de))"
  have k: "1 \<le> ?k" "?k \<le> 48" "de_bitWidth de = of_nat ?k"
    using inv idx(1) size index_width_bounds [of ?n] by (auto simp: dict_inv_def simp del: length_greater_0_conv)
  have "\<not> of_nat ?n \<le> idx"
    using idx(1) size unat_of_nat_small [of ?n] by (simp add: word_le_nat_alt unsigned_of_nat take_bit_nat_eq_self)
  then show ?thesis
    unfolding DictEncoder_Decode_def Let_def pack_sizes(2) [OF k] unpack_index_pack [OF k idx(2)] by simp
qed

lemma indexed_unique:
  assumes "indexed d keys" "indexed d' keys"
  shows "d = d'"
proof
  fix k
  show "d k = d' k"
  proof (cases "k \<in> set keys")
    case True
    then obtain i where "i < length keys" "keys ! i = k" by (auto simp: in_set_conv_nth)
    with assms show ?thesis by (auto simp: indexed_def)
  next
    case False
    with assms have "k \<notin> dom d" "k \<notin> dom d'" by (auto simp: indexed_def)
    then show ?thesis by (simp add: domIff)
  qed
qed

text \<open>Entering distinct keys one after the other, as both loaders do.\<close>

lemma foldl_indexed:
  assumes "indexed d keys" "distinct (keys @ ks)"
  shows "indexed (foldl (\<lambda>d (i, key). d(key \<mapsto> of_nat i)) d (enumerate (length keys) ks)) (keys @ ks)"
  using assms
proof (induction ks arbitrary: d keys)
  case (Cons k ks)
  then have "d k = None" by (auto simp: indexed_def domIff)
  from Cons.IH [OF indexed_snoc [OF Cons.prems(1) this]] Cons.prems(2) show ?case by simp
qed simp

lemma foldl_DictEncoder:
  "foldl (\<lambda>de (i, key). de\<lparr>de_keys := de_keys de @ [key], de_dictionary := (de_dictionary de)(key \<mapsto> of_nat i)\<rparr>)
     de (enumerate k ks) =
   de\<lparr>de_keys := de_keys de @ ks,
      de_dictionary := foldl (\<lambda>d (i, key). d(key \<mapsto> of_nat i)) (de_dictionary de) (enumerate k ks)\<rparr>"
  by (induction ks arbitrary: k de) auto

lemma NewDictEncoder_SaveDict:
  assumes "dict_inv de" "list_all slice_ok (de_keys de)"
  shows "NewDictEncoder (DictEncoder_SaveDict de) = Ok de"
proof -
  have idx: "indexed (de_dictionary de) (de_keys de)" using assms(1) by (simp add: dict_inv_def)
  have "indexed (foldl (\<lambda>d (i, key). d(key \<mapsto> of_nat i)) Map.empty (enumerate 0 (de_keys de))) (de_keys de)"
    using foldl_indexed [of Map.empty "[]" "de_keys de"] idx by (simp add: indexed_def)
  from indexed_unique [OF this idx]
  have d: "foldl (\<lambda>d (i, key). d(key \<mapsto> of_nat i)) Map.empty (enumerate 0 (de_keys de)) = de_dictionary de" .
  have ne: "DictEncoder_SaveDict de \<noteq> []"
    by (metis DictEncoder_SaveDict_def append_is_Nil_conv length_put_u(1) list.size(3) save_dict_concat zero_neq_numeral)
  have "read_u16 (DictEncoder_SaveDict de) 0 = Ok (de_bitWidth de)"
    using read_put_u16 [of 0 "[]" "de_bitWidth de"] by (simp add: DictEncoder_SaveDict_def save_dict_concat)
  moreover have "drop 2 (DictEncoder_SaveDict de) = concat (map dict_entry (enumerate 0 (de_keys de)))"
    by (simp add: DictEncoder_SaveDict_def save_dict_concat)
  ultimately show ?thesis
    unfolding NewDictEncoder_def DictEncoder_LoadDict_def
    using ne by (simp add: load_loop_entries [OF assms(2)] foldl_DictEncoder d)
qed

section \<open>Properties of DictEncoder\<close>

text \<open>A dictionary that was built from any keys, saved and loaded again decodes what the original
  encoder encoded: every key comes back from its packed index, also when more bytes follow it, and
  the packed index has the fewest bits that can number all keys (one bit for a single key).\<close>

theorem dict_encode_reload_decode:
  assumes "NewDictEncoder [] = Ok de0"
    and "de = DictEncoder_BuildDictionary keys de0"
    and "list_all slice_ok keys" "length (de_keys de) \<le> 2 ^ 48"
    and "key \<in> set keys"
  shows "\<exists>e de'. DictEncoder_Encode de key = Ok e \<and> NewDictEncoder (DictEncoder_SaveDict de) = Ok de' \<and>
    DictEncoder_Decode de' (e @ rest) = Ok key \<and> length e = (unat (de_bitWidth de) + 7) div 8 \<and>
    length (de_keys de) \<le> 2 ^ unat (de_bitWidth de) \<and>
    (2 \<le> length (de_keys de) \<longrightarrow> 2 ^ (unat (de_bitWidth de) - 1) < length (de_keys de))"
proof -
  have inv: "dict_inv de" and keys: "set (de_keys de) = set keys"
    using fold_AddToDict [of de0 "sort keys"] dict_inv_empty [OF assms(1)]
    by (auto simp: assms(2) DictEncoder_BuildDictionary_def)
  let ?n = "length (de_keys de)"
  from assms(5) keys have key: "key \<in> set (de_keys de)" by simp
  then have n: "0 < ?n" by (auto simp: length_greater_0_conv)
  have w: "unat (de_bitWidth de) = index_width ?n"
    using pack_sizes(1) [OF index_width_bounds(2) [OF n] index_width_bounds(3) [OF assms(4)]] inv
    by (auto simp: dict_inv_def)
  from DictEncoder_Encode_packed [OF inv assms(4) key] obtain idx :: u64 where
    idx: "unat idx < ?n" "de_keys de ! unat idx = key" "unat idx < 2 ^ index_width ?n"
      "DictEncoder_Encode de key = Ok (put_le ((index_width ?n + 7) div 8) idx)" .
  have "list_all slice_ok (de_keys de)" using assms(3) keys by (simp add: list_all_iff)
  from NewDictEncoder_SaveDict [OF inv this] DictEncoder_Decode_packed [OF inv assms(4) idx(1,3), of rest] idx
  have "DictEncoder_Encode de key = Ok (put_le ((index_width ?n + 7) div 8) idx) \<and>
    NewDictEncoder (DictEncoder_SaveDict de) = Ok de \<and>
    DictEncoder_Decode de (put_le ((index_width ?n + 7) div 8) idx @ rest) = Ok key \<and>
    length (put_le ((index_width ?n + 7) div 8) idx) = (unat (de_bitWidth de) + 7) div 8"
    by (simp add: w)
  moreover have "2 ^ (index_width ?n - 1) < ?n" if "2 \<le> ?n"
    using bits_Len_bounds(2) [of "?n - 1"] that by (cases "de_keys de") (auto simp: index_width_def)
  ultimately show ?thesis
    unfolding w using index_width_bounds(1) [of ?n] by blast
qed

theorem dict_encode_reload_decode_witness:
  "\<exists>de0 e de'. NewDictEncoder [] = Ok de0 \<and>
    DictEncoder_Encode (DictEncoder_BuildDictionary [[7], [3, 4], [7]] de0) [7] = Ok e \<and>
    NewDictEncoder (DictEncoder_SaveDict (DictEncoder_BuildDictionary [[7], [3, 4], [7]] de0)) = Ok de' \<and>
    DictEncoder_Decode de' (e @ [9]) = Ok [7]"
proof -
  obtain de0 where de0: "NewDictEncoder [] = Ok de0"
    by (auto simp: NewDictEncoder_def DictEncoder_LoadDict_def)
  have "length (de_keys (DictEncoder_BuildDictionary [[7], [3, 4], [7]] de0)) \<le> 2 ^ 48"
    using de0 by (auto simp: NewDictEncoder_def DictEncoder_LoadDict_def DictEncoder_BuildDictionary_def
        DictEncoder_AddToDict_def DictEncoder_updateBitWidth_def)
  from dict_encode_reload_decode [OF de0 refl _ this, of "[7]" "[9]"] de0 show ?thesis
    by (auto simp: slice_ok_def max_alloc_def)
qed

section \<open>DictDeltaEncoder: composition of the two encoders\<close>

definition dd_enc :: "DictDeltaEncoder \<Rightarrow> bytes \<times> u32 \<Rightarrow> bytes \<Rightarrow> bytes \<times> DictDeltaEncoder" where
  "dd_enc e = (\<lambda>(key, off). DictDeltaEncoder_Encode e key off)"

text \<open>A stream of keys is a stream of indices into the dictionary the encoder ends with.\<close>

lemma dd_encode_all:
  assumes "dict_inv (dd_dictEncoder e)" "encode_all dd_enc e xs buf = (out, e')"
  shows "\<exists>ids. length ids = length xs \<and>
    fst (encode_all int_enc (dd_deltaEncoder e) (zip ids (map snd xs)) buf) = out \<and>
    dict_inv (dd_dictEncoder e') \<and> set (de_keys (dd_dictEncoder e')) = set (de_keys (dd_dictEncoder e)) \<union> fst ` set xs \<and>
    (\<forall>j < length xs. de_dictionary (dd_dictEncoder e') (fst (xs ! j)) = Some (ids ! j)) \<and>
    (\<forall>k i. de_dictionary (dd_dictEncoder e) k = Some i \<longrightarrow> de_dictionary (dd_dictEncoder e') k = Some i)"
  using assms
proof (induction xs arbitrary: e buf)
  case Nil
  then show ?case by auto
next
  case (Cons x xs)
  obtain i a d where add: "DictEncoder_AddToDict (fst x) (dd_dictEncoder e) = ((i, a), d)" by (metis prod.collapse)
  obtain o1 delta where enc: "DeltaEncoderInt_Encode (dd_deltaEncoder e) i (snd x) buf = (o1, delta)" by fastforce
  let ?e1 = "\<lparr>dd_dictEncoder = d, dd_deltaEncoder = delta\<rparr>"
  have e1: "dd_enc e x buf = (o1, ?e1)"
    by (cases x) (use add enc in \<open>simp add: dd_enc_def DictDeltaEncoder_Encode_def\<close>)
  note c = AddToDict_cases [OF Cons.prems(1) add]
  have mono: "de_dictionary (dd_dictEncoder e) k = Some j \<Longrightarrow> de_dictionary d k = Some j" for k j
    using add by (auto simp: DictEncoder_AddToDict_def DictEncoder_updateBitWidth_def Let_def
        split: option.splits if_splits)
  from Cons.IH [of ?e1 o1] c(1) Cons.prems(2) e1 obtain ids where ids: "length ids = length xs"
      "fst (encode_all int_enc delta (zip ids (map snd xs)) o1) = out" "dict_inv (dd_dictEncoder e')"
      "set (de_keys (dd_dictEncoder e')) = set (de_keys d) \<union> fst ` set xs"
      "\<forall>j < length xs. de_dictionary (dd_dictEncoder e') (fst (xs ! j)) = Some (ids ! j)"
      "\<forall>k i. de_dictionary d k = Some i \<longrightarrow> de_dictionary (dd_dictEncoder e') k = Some i"
    by auto
  have "fst (encode_all int_enc (dd_deltaEncoder e) (zip (i # ids) (map snd (x # xs))) buf) = out"
    using enc ids(2) by (simp add: int_enc_def)
  moreover have "\<forall>j < length (x # xs). de_dictionary (dd_dictEncoder e') (fst ((x # xs) ! j)) = Some ((i # ids) ! j)"
    using ids(5,6) c(3) by (auto simp: less_Suc_eq_0_disj)
  moreover have "set (de_keys (dd_dictEncoder e')) = set (de_keys (dd_dictEncoder e)) \<union> fst ` set (x # xs)"
    using c(6) ids(4) by auto
  ultimately show ?case
    using ids(1,3,6) mono by (intro exI [of _ "i # ids"]) auto
qed

lemma dd_decode_all:
  "decode_all (DeltaEncoderInt_Decode buf) n (dd_deltaEncoder e, pos) = (Ok ids, (delta, pos')) \<Longrightarrow>
   decode_all (DictDeltaEncoder_Decode buf) n (e, pos) =
     (Ok (map (DictEncoder_Key (dd_dictEncoder e)) ids), (e\<lparr>dd_deltaEncoder := delta\<rparr>, pos'))"
proof (induction n arbitrary: e pos ids)
  case 0
  then show ?case by simp
next
  case (Suc n)
  then obtain i d1 p1 js where st: "DeltaEncoderInt_Decode buf (dd_deltaEncoder e, pos) = (Ok i, (d1, p1))"
    "decode_all (DeltaEncoderInt_Decode buf) n (d1, p1) = (Ok js, (delta, pos'))" "ids = i # js"
    by (auto simp: bind_s_eq_Inr)
  then show ?case
    using Suc.IH [of "e\<lparr>dd_deltaEncoder := d1\<rparr>" p1 js] by (simp add: DictDeltaEncoder_Decode_def)
qed

lemma DictEncoder_Key_lookup:
  assumes "dict_inv de" "length (de_keys de) \<le> 2 ^ 48" "de_dictionary de key = Some i"
  shows "DictEncoder_Key de i = key"
proof -
  have idx: "indexed (de_dictionary de) (de_keys de)" using assms(1) by (simp add: dict_inv_def)
  with assms(3) have "key \<in> set (de_keys de)" by (auto simp: indexed_def)
  from indexed_lookup [OF idx this] assms(3) obtain n where n: "n < length (de_keys de)" "de_keys de ! n = key" "i = of_nat n"
    by auto
  then have "unat i = n" "\<not> of_nat (length (de_keys de)) \<le> i"
    using assms(2) by (auto simp: word_le_nat_alt unsigned_of_nat take_bit_nat_eq_self)
  with n show ?thesis by (simp add: DictEncoder_Key_def)
qed

text \<open>Keys encoded by a \<^verbatim>\<open>DictDeltaEncoder\<close> are decoded by a second encoder that has only loaded the
  serialized dictionary: the dictionary, its file format and the delta coding of the indices compose.\<close>

theorem dict_delta_roundtrip:
  assumes "NewDictDeltaEncoder r = Ok e0"
    and "encode_all dd_enc e0 keys [] = (out, e)"
    and "list_all (\<lambda>x. slice_ok (fst x)) keys" "slice_ok out" "length (de_keys (dd_dictEncoder e)) \<le> 2 ^ 48"
  shows "\<exists>e1 e2. LoadDictionary (SerializeDictionary e) e0 = Ok e1 \<and>
    decode_all (DictDeltaEncoder_Decode out) (length keys) (e1, 0) = (Ok (map fst keys), (e2, int (length out)))"
proof -
  obtain d0 where d0: "NewDictEncoder [] = Ok d0" "e0 = \<lparr>dd_dictEncoder = d0, dd_deltaEncoder = NewDeltaEncoderInt r\<rparr>"
    using assms(1) by (auto simp: NewDictDeltaEncoder_def)
  then have inv0: "dict_inv (dd_dictEncoder e0)" "de_keys d0 = []" using dict_inv_empty by auto
  from dd_encode_all [OF inv0(1) assms(2)] obtain ids where ids: "length ids = length keys"
      "fst (encode_all int_enc (NewDeltaEncoderInt r) (zip ids (map snd keys)) []) = out"
      "dict_inv (dd_dictEncoder e)"
      "\<forall>j < length keys. de_dictionary (dd_dictEncoder e) (fst (keys ! j)) = Some (ids ! j)"
      "set (de_keys (dd_dictEncoder e)) = fst ` set keys"
    using d0(2) inv0(2) by auto
  have "int_sim (NewDeltaEncoderInt r) (NewDeltaEncoderInt r)" by (simp add: int_sim_def)
  from delta_int.decode_all_encode_all [OF this, of "zip ids (map snd keys)" "[]" "[]"] assms(4) ids(1,2)
  obtain t where dec: "decode_all (DeltaEncoderInt_Decode out) (length keys) (NewDeltaEncoderInt r, 0) =
      (Ok ids, (t, int (length out)))"
    by (auto simp: list_all_iff)
  have key: "map (DictEncoder_Key (dd_dictEncoder e)) ids = map fst keys"
    using ids(1,4) DictEncoder_Key_lookup [OF ids(3) assms(5)] by (intro nth_equalityI) auto
  have "list_all slice_ok (de_keys (dd_dictEncoder e))"
    using assms(3) ids(5) by (auto simp: list_all_iff)
  from NewDictEncoder_SaveDict [OF ids(3) this]
  have load: "LoadDictionary (SerializeDictionary e) e0 = Ok (e0\<lparr>dd_dictEncoder := dd_dictEncoder e\<rparr>)"
    by (simp add: LoadDictionary_def SerializeDictionary_def)
  from dd_decode_all [of out "length keys" "e0\<lparr>dd_dictEncoder := dd_dictEncoder e\<rparr>" 0] dec key load d0(2)
  show ?thesis by auto
qed

theorem dict_delta_roundtrip_witness:
  "\<exists>e0 e1 e2. NewDictDeltaEncoder 2 = Ok e0 \<and>
    LoadDictionary (SerializeDictionary (snd (encode_all dd_enc e0 [([5], 0), ([6], 1)] []))) e0 = Ok e1 \<and>
    decode_all (DictDeltaEncoder_Decode [0, 2]) 2 (e1, 0) = (Ok [[5], [6]], (e2, 2))"
proof -
  obtain e0 where e0: "NewDictDeltaEncoder 2 = Ok e0"
    by (auto simp: NewDictDeltaEncoder_def NewDictEncoder_def DictEncoder_LoadDict_def)
  obtain out e where enc: "encode_all dd_enc e0 [([5], 0), ([6], 1)] [] = (out, e)" by fastforce
  note ev = dd_enc_def DictDeltaEncoder_Encode_def DictEncoder_AddToDict_def DictEncoder_updateBitWidth_def
    DeltaEncoderInt_Encode_def NewDeltaEncoderInt_def NewDictDeltaEncoder_def NewDictEncoder_def
    DictEncoder_LoadDict_def put_varint_def zigzag_def put_uvarint.simps Let_def
  have o: "out = [0, 2]" and k: "de_keys (dd_dictEncoder e) = [[5], [6]]"
    using enc e0 by (auto simp: ev)
  have "\<exists>e1 e2. LoadDictionary (SerializeDictionary e) e0 = Ok e1 \<and>
    decode_all (DictDeltaEncoder_Decode out) (length [([5] :: bytes, 0 :: u32), ([6], 1)]) (e1, 0) =
      (Ok (map fst [([5], 0 :: u32), ([6], 1)]), (e2, int (length out)))"
    by (rule dict_delta_roundtrip [OF e0 enc]) (simp_all add: o k slice_ok_def max_alloc_def)
  then show ?thesis
    using e0 enc by (auto simp: o numeral_2_eq_2 simp del: decode_all.simps)
qed

end
