(* ===== verification/Adaptive_Encoder.thy ===== *)
theory Adaptive_Encoder
  imports Dict_Encoder
begin

unbundle bit_operations_syntax

text \<open>
  \<^verbatim>\<open>AdaptiveEncoder\<close> of \<^verbatim>\<open>internal/encoders/adaptive_encoder.go\<close>: a key enters the dictionary only when
  it has been seen \<^verbatim>\<open>threshold\<close> times; until then it is encoded raw. Candidates not seen within
  \<^verbatim>\<open>windowSize\<close> entries are dropped. The operations work on the encoder's record; slices stored
  in it are values, as no caller writes to a key it has handed over.
\<close>

section \<open>State\<close>

record candidate =
  c_value :: bytes
  c_freq :: u64
  c_lastSeen :: u64

record AdaptiveEncoder =
  a_bitWidth :: u16
  a_keys :: "bytes list"
  a_dictionary :: "bytes \<rightharpoonup> u64"
  a_idToValue :: "u64 \<rightharpoonup> bytes"
  a_nextId :: u64
  a_candidates :: "bytes \<rightharpoonup> candidate"
  a_threshold :: u64
  a_windowSize :: u64
  a_entryCount :: u64

definition NewAdaptiveDictEncoderFrequency :: "u64 \<Rightarrow> u64 \<Rightarrow> AdaptiveEncoder" where
  "NewAdaptiveDictEncoderFrequency threshold windowSize =
     \<lparr>a_bitWidth = 0, a_keys = [], a_dictionary = Map.empty, a_idToValue = Map.empty, a_nextId = 0,
      a_candidates = Map.empty, a_threshold = threshold, a_windowSize = windowSize, a_entryCount = 0\<rparr>"

section \<open>Operations\<close>

definition Adaptive_updateBitWidth :: "AdaptiveEncoder \<Rightarrow> AdaptiveEncoder" where
  "Adaptive_updateBitWidth ade =
     (if length (a_keys ade) = 0 then ade\<lparr>a_bitWidth := 0\<rparr>
      else let bw = bits_Len (length (a_keys ade) - 1)
           in ade\<lparr>a_bitWidth := of_nat (if bw = 0 then 1 else bw)\<rparr>)"

text \<open>
  The loop over the candidates deletes from the map it ranges over; which candidates go does not
  depend on the order.
\<close>

definition expire_candidates :: "AdaptiveEncoder \<Rightarrow> AdaptiveEncoder" where
  "expire_candidates ade =
     (if 0 < a_windowSize ade then
        ade\<lparr>a_candidates := (\<lambda>k. case a_candidates ade k of
              None \<Rightarrow> None
            | Some cand \<Rightarrow>
                if a_windowSize ade < a_entryCount ade - c_lastSeen cand then None else Some cand)\<rparr>
      else ade)"

definition Adaptive_AddToDict :: "bytes \<Rightarrow> AdaptiveEncoder \<Rightarrow> (u64 \<times> bool) \<times> AdaptiveEncoder" where
  "Adaptive_AddToDict key ade =
     (let ade1 = expire_candidates (ade\<lparr>a_entryCount := a_entryCount ade + 1\<rparr>) in
      case a_dictionary ade1 key of
        Some idx \<Rightarrow> ((idx, False), ade1)
      | None \<Rightarrow>
          let cand = (case a_candidates ade1 key of
                 None \<Rightarrow> \<lparr>c_value = key, c_freq = 1, c_lastSeen = a_entryCount ade1\<rparr>
               | Some cand \<Rightarrow> cand\<lparr>c_freq := c_freq cand + 1, c_lastSeen := a_entryCount ade1\<rparr>);
              ade2 = ade1\<lparr>a_candidates := (a_candidates ade1)(key \<mapsto> cand)\<rparr>
          in if a_threshold ade2 \<le> c_freq cand then
               let idx = a_nextId ade2;
                   ade3 = ade2\<lparr>a_nextId := idx + 1, a_keys := a_keys ade2 @ [key],
                     a_dictionary := (a_dictionary ade2)(key \<mapsto> idx),
                     a_idToValue := (a_idToValue ade2)(idx \<mapsto> key),
                     a_candidates := (a_candidates ade2)(key := None)\<rparr>
               in ((idx, True), Adaptive_updateBitWidth ade3)
             else ((0, False), ade2))"

text \<open>A first byte 1 marks a dictionary index, 0 a raw key.\<close>

definition Adaptive_Encode :: "AdaptiveEncoder \<Rightarrow> bytes \<Rightarrow> bytes result" where
  "Adaptive_Encode ade key =
     (case a_dictionary ade key of
        Some idx \<Rightarrow> bind_r (pack_index (\<lambda>i. 8 * i) (a_bitWidth ade) idx) (\<lambda>out. Ok (1 # out))
      | None \<Rightarrow> Ok (0 # key))"

definition Adaptive_Decode :: "AdaptiveEncoder \<Rightarrow> bytes \<Rightarrow> bytes result" where
  "Adaptive_Decode ade encoded =
     (case encoded of
        [] \<Rightarrow> Inl (Error ''empty encoded data'')
      | b # enc \<Rightarrow>
          if b = 0 then Ok enc
          else
            let outSize = (a_bitWidth ade + 7) div 8 in
            if length encoded < unat outSize + 1 then Inl (Error ''encoded too short'')
            else
              let idx = unpack_index (unat outSize) (a_bitWidth ade) (ucast (outSize * 8 - a_bitWidth ade)) enc in
              if of_nat (length (a_keys ade)) \<le> idx then Inl (Panic ''decoded index out of range'')
              else Ok (a_keys ade ! unat idx))"

definition Adaptive_BuildDictionary :: "bytes list \<Rightarrow> AdaptiveEncoder \<Rightarrow> AdaptiveEncoder" where
  "Adaptive_BuildDictionary keys ade =
     (let ade1 = fold (\<lambda>k ade. snd (Adaptive_AddToDict k ade)) keys ade;
          ade2 = ade1\<lparr>a_keys := sort (a_keys ade1)\<rparr>;
          ade3 = foldl (\<lambda>ade (idx, k). ade\<lparr>a_dictionary := (a_dictionary ade)(k \<mapsto> of_nat idx),
                    a_idToValue := (a_idToValue ade)(of_nat idx \<mapsto> k)\<rparr>) ade2 (enumerate 0 (a_keys ade2))
      in Adaptive_updateBitWidth ade3)"

definition Adaptive_SaveDict :: "AdaptiveEncoder \<Rightarrow> bytes" where
  "Adaptive_SaveDict ade = save_dict (a_bitWidth ade) (a_keys ade)"

text \<open>
  \<^verbatim>\<open>ReadDictionary\<close> replaces the dictionary but keeps candidates and counters, and \<^verbatim>\<open>nextId\<close> only
  ever grows.
\<close>

definition read_entry :: "AdaptiveEncoder \<Rightarrow> bytes \<Rightarrow> u64 \<Rightarrow> AdaptiveEncoder" where
  "read_entry ade key idx =
     ade\<lparr>a_keys := a_keys ade @ [key], a_dictionary := (a_dictionary ade)(key \<mapsto> idx),
       a_idToValue := (a_idToValue ade)(idx \<mapsto> key),
       a_nextId := (if a_nextId ade \<le> idx then idx + 1 else a_nextId ade)\<rparr>"

definition ReadDictionary :: "bytes \<Rightarrow> (AdaptiveEncoder, unit) op" where
  "ReadDictionary data ade =
     (let ade1 = ade\<lparr>a_keys := [], a_dictionary := Map.empty, a_idToValue := Map.empty\<rparr> in
      if data = [] then (Ok (), ade1)
      else case read_u16 data 0 of
          Inl e \<Rightarrow> (Inl e, ade1)
        | Inr bw \<Rightarrow>
            load_loop (Error ''invalid key length'') (Error ''invalid index'') read_entry (drop 2 data)
              (ade1\<lparr>a_bitWidth := bw\<rparr>))"

section \<open>Invariant\<close>

definition adaptive_inv :: "AdaptiveEncoder \<Rightarrow> bool" where
  "adaptive_inv ade \<longleftrightarrow> indexed (a_dictionary ade) (a_keys ade) \<and>
     a_bitWidth ade = of_nat (index_width (length (a_keys ade))) \<and> a_nextId ade = of_nat (length (a_keys ade))"

lemma adaptive_inv_New: "adaptive_inv (NewAdaptiveDictEncoderFrequency t w)"
  by (simp add: adaptive_inv_def NewAdaptiveDictEncoderFrequency_def indexed_def index_width_def)

lemma updateBitWidth_width:
  "a_bitWidth (Adaptive_updateBitWidth ade) = of_nat (index_width (length (a_keys ade)))"
proof -
  have "bits_Len n = 0 \<longleftrightarrow> n = 0" for n by (subst bits_Len.simps) simp
  then show ?thesis
    by (cases "a_keys ade") (simp_all add: Adaptive_updateBitWidth_def index_width_def Let_def)
qed

lemma updateBitWidth_fields [simp]:
  "a_keys (Adaptive_updateBitWidth ade) = a_keys ade"
  "a_dictionary (Adaptive_updateBitWidth ade) = a_dictionary ade"
  "a_nextId (Adaptive_updateBitWidth ade) = a_nextId ade"
  "a_candidates (Adaptive_updateBitWidth ade) = a_candidates ade"
  "a_threshold (Adaptive_updateBitWidth ade) = a_threshold ade"
  "a_windowSize (Adaptive_updateBitWidth ade) = a_windowSize ade"
  by (simp_all add: Adaptive_updateBitWidth_def Let_def)

lemma expire_fields [simp]:
  "a_keys (expire_candidates ade) = a_keys ade" "a_dictionary (expire_candidates ade) = a_dictionary ade"
  "a_nextId (expire_candidates ade) = a_nextId ade" "a_bitWidth (expire_candidates ade) = a_bitWidth ade"
  "a_threshold (expire_candidates ade) = a_threshold ade" "a_windowSize (expire_candidates ade) = a_windowSize ade"
  by (simp_all add: expire_candidates_def)

lemma adaptive_inv_AddToDict:
  assumes "adaptive_inv ade"
  shows "adaptive_inv (snd (Adaptive_AddToDict key ade))"
proof (cases "a_dictionary ade key")
  case None
  with indexed_snoc [of "a_dictionary ade" "a_keys ade" key] assms show ?thesis
    by (auto simp: Adaptive_AddToDict_def Let_def adaptive_inv_def updateBitWidth_width)
next
  case (Some idx)
  with assms show ?thesis
    by (simp add: Adaptive_AddToDict_def Let_def adaptive_inv_def)
qed

lemma adaptive_inv_adds:
  "adaptive_inv ade \<Longrightarrow> adaptive_inv (fold (\<lambda>k ade. snd (Adaptive_AddToDict k ade)) keys ade)"
  by (induction keys arbitrary: ade) (auto simp: adaptive_inv_AddToDict)

lemma foldl_reindex:
  "foldl (\<lambda>ade (idx, k). ade\<lparr>a_dictionary := (a_dictionary ade)(k \<mapsto> of_nat idx),
      a_idToValue := (a_idToValue ade)(of_nat idx \<mapsto> k)\<rparr>) ade es =
   ade\<lparr>a_dictionary := foldl (\<lambda>d (i, key). d(key \<mapsto> of_nat i)) (a_dictionary ade) es,
       a_idToValue := foldl (\<lambda>d (i, key). d(of_nat i \<mapsto> key)) (a_idToValue ade) es\<rparr>"
  by (induction es arbitrary: ade) auto

text \<open>Re-entering the keys of a dictionary in another order overwrites every index.\<close>

lemma reindex_foldl:
  assumes "distinct (pre @ ks)" "dom d = set (pre @ ks)" "\<forall>i < length pre. d (pre ! i) = Some (of_nat i)"
  shows "indexed (foldl (\<lambda>d (i, key). d(key \<mapsto> of_nat i)) d (enumerate (length pre) ks)) (pre @ ks)"
  using assms
proof (induction ks arbitrary: d pre)
  case Nil
  then show ?case by (simp add: indexed_def)
next
  case (Cons k ks)
  let ?d = "d(k \<mapsto> of_nat (length pre))"
  have "distinct ((pre @ [k]) @ ks)" "dom ?d = set ((pre @ [k]) @ ks)"
    using Cons.prems(1,2) by auto
  moreover have "\<forall>i < length (pre @ [k]). ?d ((pre @ [k]) ! i) = Some (of_nat i)"
    using Cons.prems(1,3) by (auto simp: nth_append less_Suc_eq)
  ultimately have "indexed (foldl (\<lambda>d (i, key). d(key \<mapsto> of_nat i)) ?d (enumerate (length (pre @ [k])) ks)) ((pre @ [k]) @ ks)"
    by (rule Cons.IH)
  then show ?case by (simp del: fun_upd_apply)
qed

lemma adaptive_inv_BuildDictionary:
  assumes "adaptive_inv ade"
  shows "adaptive_inv (Adaptive_BuildDictionary keys ade)"
proof -
  define ade1 where "ade1 = fold (\<lambda>k ade. snd (Adaptive_AddToDict k ade)) keys ade"
  have inv: "adaptive_inv ade1" unfolding ade1_def using assms by (rule adaptive_inv_adds)
  then have "indexed (foldl (\<lambda>d (i, key). d(key \<mapsto> of_nat i)) (a_dictionary ade1)
      (enumerate (length ([] :: bytes list)) (sort (a_keys ade1)))) ([] @ sort (a_keys ade1))"
    by (intro reindex_foldl) (auto simp: adaptive_inv_def indexed_def)
  with inv show ?thesis
    by (simp add: Adaptive_BuildDictionary_def Let_def foldl_reindex adaptive_inv_def updateBitWidth_width
        flip: ade1_def)
qed

section \<open>Encoding and decoding\<close>

lemma adaptive_roundtrip_inv:
  assumes inv: "adaptive_inv ade" and size: "length (a_keys ade) \<le> 2 ^ 48"
  shows "\<exists>e. Adaptive_Encode ade key = Ok e \<and> Adaptive_Decode ade e = Ok key"
proof (cases "a_dictionary ade key")
  case None
  then show ?thesis by (simp add: Adaptive_Encode_def Adaptive_Decode_def)
next
  case (Some idx)
  let ?n = "length (a_keys ade)" and ?k = "index_width (length (a_keys ade))"
  have ixd: "indexed (a_dictionary ade) (a_keys ade)" using inv by (simp add: adaptive_inv_def)
  with Some have "key \<in> set (a_keys ade)" by (auto simp: indexed_def)
  from indexed_lookup [OF ixd this] Some obtain i where i: "i < ?n" "a_keys ade ! i = key" "idx = of_nat i"
    by auto
  have ui: "unat idx = i" using i size by (simp add: unsigned_of_nat take_bit_nat_eq_self)
  have lt: "unat idx < 2 ^ ?k" using i(1) index_width_bounds(1) [of ?n] ui by linarith
  have k: "1 \<le> ?k" "?k \<le> 48" "a_bitWidth ade = of_nat ?k"
    using inv i(1) size index_width_bounds [of ?n] by (auto simp: adaptive_inv_def simp del: length_greater_0_conv)
  have "Adaptive_Encode ade key = Ok (1 # put_le ((?k + 7) div 8) idx)"
    using pack_index_eq [OF k lt, of "\<lambda>i. 8 * i"] by (simp add: Adaptive_Encode_def Some)
  moreover have "\<not> of_nat ?n \<le> idx"
    using i(1) ui size by (simp add: word_le_nat_alt unsigned_of_nat take_bit_nat_eq_self)
  then have "Adaptive_Decode ade (1 # put_le ((?k + 7) div 8) idx) = Ok key"
    using unpack_index_pack [OF k lt, of _ "[]"] ui i(2)
    by (simp add: Adaptive_Decode_def Let_def pack_sizes(2) [OF k])
  ultimately show ?thesis by blast
qed

lemma foldl_read_entry:
  assumes "a_nextId ade = of_nat k" "k + length ks \<le> 2 ^ 48"
  shows "foldl (\<lambda>s (i, key). read_entry s key (of_nat i)) ade (enumerate k ks) =
    ade\<lparr>a_keys := a_keys ade @ ks, a_nextId := of_nat (k + length ks),
       a_dictionary := foldl (\<lambda>d (i, key). d(key \<mapsto> of_nat i)) (a_dictionary ade) (enumerate k ks),
       a_idToValue := foldl (\<lambda>d (i, key). d(of_nat i \<mapsto> key)) (a_idToValue ade) (enumerate k ks)\<rparr>"
  using assms
proof (induction ks arbitrary: ade k)
  case (Cons x ks)
  then show ?case
    using Cons.IH [of "read_entry ade x (of_nat k)" "Suc k"] by (simp add: read_entry_def)
qed simp

text \<open>A saved dictionary read by a new encoder satisfies the invariant with the same keys.\<close>

lemma ReadDictionary_SaveDict:
  assumes "adaptive_inv ade" "list_all slice_ok (a_keys ade)" "length (a_keys ade) \<le> 2 ^ 48" "a_nextId fresh = 0"
  obtains ade' where "ReadDictionary (Adaptive_SaveDict ade) fresh = (Ok (), ade')" "adaptive_inv ade'"
    "a_keys ade' = a_keys ade" "a_dictionary ade' = a_dictionary ade" "a_bitWidth ade' = a_bitWidth ade"
proof -
  have idx: "indexed (a_dictionary ade) (a_keys ade)" using assms(1) by (simp add: adaptive_inv_def)
  have "indexed (foldl (\<lambda>d (i, key). d(key \<mapsto> of_nat i)) Map.empty (enumerate 0 (a_keys ade))) (a_keys ade)"
    using foldl_indexed [of Map.empty "[]" "a_keys ade"] idx by (simp add: indexed_def)
  from indexed_unique [OF this idx]
  have d: "foldl (\<lambda>d (i, key). d(key \<mapsto> of_nat i)) Map.empty (enumerate 0 (a_keys ade)) = a_dictionary ade" .
  have ne: "Adaptive_SaveDict ade \<noteq> []"
    by (metis Adaptive_SaveDict_def append_is_Nil_conv length_put_u(1) list.size(3) save_dict_concat zero_neq_numeral)
  have rd: "read_u16 (Adaptive_SaveDict ade) 0 = Ok (a_bitWidth ade)"
    using read_put_u16 [of 0 "[]" "a_bitWidth ade"] by (simp add: Adaptive_SaveDict_def save_dict_concat)
  have dr: "drop 2 (Adaptive_SaveDict ade) = concat (map dict_entry (enumerate 0 (a_keys ade)))"
    by (simp add: Adaptive_SaveDict_def save_dict_concat)
  define ade' where "ade' = snd (ReadDictionary (Adaptive_SaveDict ade) fresh)"
  have "ReadDictionary (Adaptive_SaveDict ade) fresh = (Ok (), ade')" "a_keys ade' = a_keys ade"
    "a_dictionary ade' = a_dictionary ade" "a_bitWidth ade' = a_bitWidth ade" "a_nextId ade' = of_nat (length (a_keys ade))"
    unfolding ade'_def ReadDictionary_def Let_def
    using assms ne by (simp_all add: rd dr load_loop_entries foldl_read_entry d)
  with that [of ade'] assms(1) show thesis by (simp add: adaptive_inv_def)
qed

section \<open>Properties\<close>

text \<open>The operations by which a writer fills the dictionary.\<close>

datatype adaptive_op = AddKey bytes | BuildKeys "bytes list"

fun adaptive_step :: "adaptive_op \<Rightarrow> AdaptiveEncoder \<Rightarrow> AdaptiveEncoder" where
  "adaptive_step (AddKey key) ade = snd (Adaptive_AddToDict key ade)"
| "adaptive_step (BuildKeys keys) ade = Adaptive_BuildDictionary keys ade"

lemma adaptive_inv_steps: "adaptive_inv ade \<Longrightarrow> adaptive_inv (fold adaptive_step ops ade)"
proof (induction ops arbitrary: ade)
  case (Cons x ops)
  then show ?case
    by (cases x) (auto simp: adaptive_inv_AddToDict adaptive_inv_BuildDictionary)
qed simp

text \<open>C34: Whatever mix of \<^verbatim>\<open>AddToDict\<close> and \<^verbatim>\<open>BuildDictionary\<close> calls an adaptive encoder has seen, every
  key, in the dictionary or not, is decoded from its encoding, both by the encoder itself and by a
  new one that has read the saved dictionary.\<close>

theorem adaptive_encode_decode:
  assumes "ade = fold adaptive_step ops (NewAdaptiveDictEncoderFrequency threshold windowSize)"
    and "length (a_keys ade) \<le> 2 ^ 48" "list_all slice_ok (a_keys ade)"
  shows "\<exists>e ade'. Adaptive_Encode ade key = Ok e \<and> Adaptive_Decode ade e = Ok key \<and>
    ReadDictionary (Adaptive_SaveDict ade) (NewAdaptiveDictEncoderFrequency t w) = (Ok (), ade') \<and>
    Adaptive_Decode ade' e = Ok key"
proof -
  have inv: "adaptive_inv ade"
    unfolding assms(1) by (rule adaptive_inv_steps [OF adaptive_inv_New])
  from adaptive_roundtrip_inv [OF inv assms(2)] obtain e where
    e: "Adaptive_Encode ade key = Ok e" "Adaptive_Decode ade e = Ok key" by blast
  have "a_nextId (NewAdaptiveDictEncoderFrequency t w) = 0"
    by (simp add: NewAdaptiveDictEncoderFrequency_def)
  from ReadDictionary_SaveDict [OF inv assms(3,2) this] obtain ade' where
    r: "ReadDictionary (Adaptive_SaveDict ade) (NewAdaptiveDictEncoderFrequency t w) = (Ok (), ade')"
      "a_keys ade' = a_keys ade" "a_bitWidth ade' = a_bitWidth ade" .
  have "Adaptive_Decode ade' e = Ok key"
    using e(2) unfolding Adaptive_Decode_def r(2,3) .
  with e r(1) show ?thesis by blast
qed

theorem adaptive_encode_decode_witness:
  "\<exists>e ade'. Adaptive_Encode (fold adaptive_step [AddKey [4], AddKey [4]] (NewAdaptiveDictEncoderFrequency 2 5)) [4] = Ok e \<and>
    ReadDictionary (Adaptive_SaveDict (fold adaptive_step [AddKey [4], AddKey [4]] (NewAdaptiveDictEncoderFrequency 2 5)))
      (NewAdaptiveDictEncoderFrequency 2 5) = (Ok (), ade') \<and>
    Adaptive_Decode ade' e = Ok [4]"
proof -
  have "a_keys (fold adaptive_step [AddKey [4], AddKey [4]] (NewAdaptiveDictEncoderFrequency 2 5)) = [[4]]"
    by (simp add: Adaptive_AddToDict_def NewAdaptiveDictEncoderFrequency_def expire_candidates_def Let_def)
  with adaptive_encode_decode [OF refl, of "[AddKey [4], AddKey [4]]" 2 5 "[4]" 2 5]
  show ?thesis by (auto simp: slice_ok_def max_alloc_def simp del: fold_simps)
qed

text \<open>
  The frequency threshold without a window: the number of times a key was added decides whether
  it is in the dictionary, and until then is the frequency of its candidate.
\<close>

definition counted :: "bytes list \<Rightarrow> AdaptiveEncoder \<Rightarrow> bool" where
  "counted ks ade \<longleftrightarrow> (\<forall>k. let n = count_list ks k in
     (if n = 0 then a_dictionary ade k = None \<and> a_candidates ade k = None
      else if unat (a_threshold ade) \<le> n then a_dictionary ade k \<noteq> None
      else a_dictionary ade k = None \<and> (\<exists>c. a_candidates ade k = Some c \<and> unat (c_freq c) = n)))"

lemma counted_AddToDict:
  assumes "counted ks ade" "a_windowSize ade = 0"
  shows "counted (ks @ [key]) (snd (Adaptive_AddToDict key ade))"
    and "a_windowSize (snd (Adaptive_AddToDict key ade)) = 0"
    and "a_threshold (snd (Adaptive_AddToDict key ade)) = a_threshold ade"
proof -
  let ?ade' = "snd (Adaptive_AddToDict key ade)" and ?n = "count_list ks key"
  note add = Adaptive_AddToDict_def expire_candidates_def assms(2) Let_def
  show "a_windowSize ?ade' = 0" and t: "a_threshold ?ade' = a_threshold ade"
    using assms(2) by (auto simp: add split: option.split)
  have other: "a_dictionary ?ade' k = a_dictionary ade k" "a_candidates ?ade' k = a_candidates ade k" if "k \<noteq> key" for k
    using that by (auto simp: add split: option.split)
  have spec: "if ?n = 0 then a_dictionary ade key = None \<and> a_candidates ade key = None
      else if unat (a_threshold ade) \<le> ?n then a_dictionary ade key \<noteq> None
      else a_dictionary ade key = None \<and> (\<exists>c. a_candidates ade key = Some c \<and> unat (c_freq c) = ?n)"
    using assms(1) unfolding counted_def Let_def by blast
  have self: "if unat (a_threshold ade) \<le> Suc ?n then a_dictionary ?ade' key \<noteq> None
      else a_dictionary ?ade' key = None \<and> (\<exists>c. a_candidates ?ade' key = Some c \<and> unat (c_freq c) = Suc ?n)"
  proof (cases "a_dictionary ade key")
    case (Some idx)
    with spec have "unat (a_threshold ade) \<le> ?n" by (auto split: if_splits)
    with Some show ?thesis by (simp add: add)
  next
    case None
    define f where "f = (case a_candidates ade key of None \<Rightarrow> 1 | Some c \<Rightarrow> c_freq c + 1)"
    have f: "unat f = Suc ?n"
    proof (cases "?n = 0")
      case True
      with spec show ?thesis by (simp add: f_def)
    next
      case False
      with spec None obtain c where c: "a_candidates ade key = Some c" "unat (c_freq c) = ?n" "?n < unat (a_threshold ade)"
        by (auto split: if_splits)
      then have "unat (c_freq c) + 1 < 2 ^ 64"
        using unsigned_less [of "a_threshold ade", where 'a = nat] by simp
      then have "unat (c_freq c + 1) = unat (c_freq c) + 1"
        by (subst unat_add_lem [THEN iffD1]) simp_all
      with c show ?thesis by (simp add: f_def)
    qed
    have le: "a_threshold ade \<le> f \<longleftrightarrow> unat (a_threshold ade) \<le> Suc ?n"
      by (simp add: word_le_nat_alt f)
    show ?thesis
      using None f le by (cases "a_candidates ade key") (simp_all add: add f_def)
  qed
  show "counted (ks @ [key]) ?ade'"
    unfolding counted_def
  proof
    fix k
    show "let n = count_list (ks @ [key]) k in
        if n = 0 then a_dictionary ?ade' k = None \<and> a_candidates ?ade' k = None
        else if unat (a_threshold ?ade') \<le> n then a_dictionary ?ade' k \<noteq> None
        else a_dictionary ?ade' k = None \<and> (\<exists>c. a_candidates ?ade' k = Some c \<and> unat (c_freq c) = n)"
      using self assms(1) other [of k] unfolding counted_def t
      by (cases "k = key") (auto simp: Let_def split: if_splits)
  qed
qed

text \<open>Without a window, a key is in the dictionary exactly when it has been added at least
  \<^verbatim>\<open>threshold\<close> times (at least once), whatever other keys were added in between.\<close>

theorem adaptive_threshold:
  "a_dictionary (fold (\<lambda>k ade. snd (Adaptive_AddToDict k ade)) ks (NewAdaptiveDictEncoderFrequency threshold 0)) key \<noteq> None
   \<longleftrightarrow> max 1 (unat threshold) \<le> count_list ks key"
proof -
  let ?run = "\<lambda>ks. fold (\<lambda>k ade. snd (Adaptive_AddToDict k ade)) ks (NewAdaptiveDictEncoderFrequency threshold 0)"
  have "counted ks (?run ks) \<and> a_windowSize (?run ks) = 0 \<and> a_threshold (?run ks) = threshold"
  proof (induction ks rule: rev_induct)
    case Nil
    show ?case by (simp add: counted_def NewAdaptiveDictEncoderFrequency_def)
  next
    case (snoc k ks)
    then show ?case using counted_AddToDict [of ks "?run ks" k] by simp
  qed
  then have "let n = count_list ks key in
      if n = 0 then a_dictionary (?run ks) key = None \<and> a_candidates (?run ks) key = None
      else if unat threshold \<le> n then a_dictionary (?run ks) key \<noteq> None
      else a_dictionary (?run ks) key = None \<and> (\<exists>c. a_candidates (?run ks) key = Some c \<and> unat (c_freq c) = n)"
    unfolding counted_def by metis
  then show ?thesis by (auto simp: Let_def split: if_splits)
qed

text \<open>\<^verbatim>\<open>ReadDictionary\<close> does not reset \<^verbatim>\<open>nextId\<close>: an encoder that held one key, reads an empty dictionary
  and then learns a key gives it the index 1 of a dictionary of size 1, and decoding that key panics.\<close>

theorem adaptive_read_keeps_nextId:
  "let ade1 = snd (Adaptive_AddToDict [1] (NewAdaptiveDictEncoderFrequency 1 0));
       ade2 = snd (ReadDictionary (Adaptive_SaveDict (NewAdaptiveDictEncoderFrequency 1 0)) ade1);
       ade3 = snd (Adaptive_AddToDict [2] ade2)
   in Adaptive_Encode ade3 [2] = Ok [1, 1] \<and>
      Adaptive_Decode ade3 [1, 1] = Inl (Panic ''decoded index out of range'')"
  by code_simp

end
