(* ===== verification/Token_Bucket.thy ===== *)
theory Token_Bucket
  imports Go_Binary
begin

text \<open>
  \<^verbatim>\<open>internal/token_bucket/token_bucket.go\<close>: the rate limiter and the format in which its state is
  stored. \<^verbatim>\<open>time.Now().UnixMilli()\<close> is an argument \<open>now\<close> of the operations that read the clock; all
  fields are \<^verbatim>\<open>int64\<close>.
\<close>

section \<open>Model\<close>

record TokenBucket =
  tb_maxTokens :: i64
  tb_resetIntervalMs :: i64
  tb_tokens :: i64
  tb_lastResetMs :: i64

definition TokenBucket_New :: "i64 \<Rightarrow> i64 \<Rightarrow> i64 \<Rightarrow> TokenBucket" where
  "TokenBucket_New maxTokens resetIntervalMs now =
     \<lparr>tb_maxTokens = maxTokens, tb_resetIntervalMs = resetIntervalMs, tb_tokens = maxTokens, tb_lastResetMs = now\<rparr>"

definition refill :: "i64 \<Rightarrow> TokenBucket \<Rightarrow> TokenBucket" where
  "refill now tb =
     (let elapsed = now - tb_lastResetMs tb in
      if sint (tb_resetIntervalMs tb) \<le> sint elapsed
      then tb\<lparr>tb_tokens := tb_maxTokens tb, tb_lastResetMs := now\<rparr> else tb)"

definition TryConsume :: "i64 \<Rightarrow> TokenBucket \<Rightarrow> bool \<times> TokenBucket" where
  "TryConsume now tb =
     (let tb1 = refill now tb in
      if sint (tb_tokens tb1) \<le> 0 then (False, tb1)
      else (True, tb1\<lparr>tb_tokens := tb_tokens tb1 - 1\<rparr>))"

definition IsEnabled :: "TokenBucket \<Rightarrow> bool" where
  "IsEnabled tb \<longleftrightarrow> 0 < sint (tb_maxTokens tb)"

text \<open>Four varints into a buffer of 32 bytes; \<^verbatim>\<open>PutVarint\<close> panics when the buffer is too small.\<close>

definition Serialize :: "TokenBucket \<Rightarrow> bytes result" where
  "Serialize tb =
     (let a = put_varint (tb_maxTokens tb); b = put_varint (tb_resetIntervalMs tb);
          c = put_varint (tb_tokens tb); d = put_varint (tb_lastResetMs tb)
      in bind_r (put_at (make_bytes 32) 0 a) (\<lambda>buf.
         bind_r (put_at buf (length a) b) (\<lambda>buf.
         bind_r (put_at buf (length a + length b) c) (\<lambda>buf.
         bind_r (put_at buf (length a + length b + length c) d) (\<lambda>buf.
         go_slice buf 0 (int (length a + length b + length c + length d)))))))"

definition varint_at :: "bytes \<Rightarrow> int \<Rightarrow> (i64 \<times> int) result" where
  "varint_at data offset = bind_r (go_slice data offset (int (length data))) (\<lambda>tail. Ok (varint tail))"

text \<open>
  The byte counts are added to the offset unchecked: a count of 0 re-reads the same place, a
  negative one can make the next slice panic.
\<close>

definition Deserialize :: "bytes \<Rightarrow> TokenBucket option result" where
  "Deserialize data =
     (if data = [] then Ok None
      else bind_r (varint_at data 0) (\<lambda>(maxTokens, n1).
           bind_r (varint_at data n1) (\<lambda>(resetIntervalMs, n2).
           bind_r (varint_at data (n1 + n2)) (\<lambda>(tokens, n3).
           bind_r (varint_at data (n1 + n2 + n3)) (\<lambda>(lastResetMs, _).
           Ok (Some \<lparr>tb_maxTokens = maxTokens, tb_resetIntervalMs = resetIntervalMs,
                     tb_tokens = tokens, tb_lastResetMs = lastResetMs\<rparr>))))))"

section \<open>Rate limiting\<close>

text \<open>A run of requests at given times: how many are granted, and the bucket afterwards.\<close>

fun consume_all :: "i64 list \<Rightarrow> TokenBucket \<Rightarrow> nat \<times> TokenBucket" where
  "consume_all [] tb = (0, tb)"
| "consume_all (t # ts) tb =
     (let (granted, tb1) = TryConsume t tb; (n, tb2) = consume_all ts tb1
      in (if granted then Suc n else n, tb2))"

text \<open>The same run, answer by answer.\<close>

fun answers :: "i64 list \<Rightarrow> TokenBucket \<Rightarrow> bool list" where
  "answers [] tb = []"
| "answers (t # ts) tb = (let (granted, tb1) = TryConsume t tb in granted # answers ts tb1)"

text \<open>
  What a limiter has to answer, without any tokens: time is cut into periods. A period lasts from its \<open>start\<close> until the
  first request that comes at least one interval later, and that request starts the next period. In every period the
  first \<open>limit\<close> requests are granted and the others are refused; \<open>seen\<close> counts the requests of the period so far.
\<close>

fun period_answers :: "int \<Rightarrow> int \<Rightarrow> int \<Rightarrow> nat \<Rightarrow> int list \<Rightarrow> bool list" where
  "period_answers limit interval start seen [] = []"
| "period_answers limit interval start seen (t # ts) =
     (if start + interval \<le> t then (0 < limit) # period_answers limit interval t 1 ts
      else (int seen < limit) # period_answers limit interval start (Suc seen) ts)"

definition bucket_inv :: "TokenBucket \<Rightarrow> bool" where
  "bucket_inv tb \<longleftrightarrow> 0 \<le> sint (tb_tokens tb) \<and> sint (tb_tokens tb) \<le> sint (tb_maxTokens tb)"

text \<open>Time stamps in the range where differences do not wrap.\<close>

definition clock :: "i64 \<Rightarrow> bool" where
  "clock t \<longleftrightarrow> 0 \<le> sint t \<and> sint t < 2 ^ 62"

lemma sint_dec: "0 < sint (x :: i64) \<Longrightarrow> sint (x - 1) = sint x - 1"
  using sint_range_size [of x] by (simp add: sint_word_ariths signed_take_bit_int_eq_self word_size)

lemma clock_diff: "clock s \<Longrightarrow> clock t \<Longrightarrow> sint (t - s) = sint t - sint s"
  by (simp add: clock_def sint_word_ariths signed_take_bit_int_eq_self)

lemma TryConsume_cases:
  assumes "bucket_inv tb" "clock (tb_lastResetMs tb)" "clock now" "TryConsume now tb = (granted, tb')"
  shows "bucket_inv tb'" "tb_maxTokens tb' = tb_maxTokens tb" "tb_resetIntervalMs tb' = tb_resetIntervalMs tb"
    "clock (tb_lastResetMs tb')"
    "sint (tb_resetIntervalMs tb) \<le> sint now - sint (tb_lastResetMs tb) \<Longrightarrow>
       tb_lastResetMs tb' = now \<and> granted = (0 < sint (tb_maxTokens tb)) \<and>
       sint (tb_tokens tb') = sint (tb_maxTokens tb) - of_bool granted"
    "sint now - sint (tb_lastResetMs tb) < sint (tb_resetIntervalMs tb) \<Longrightarrow>
       tb_lastResetMs tb' = tb_lastResetMs tb \<and> granted = (0 < sint (tb_tokens tb)) \<and>
       sint (tb_tokens tb') = sint (tb_tokens tb) - of_bool granted"
  using assms clock_diff [of "tb_lastResetMs tb" now] sint_dec [of "tb_tokens tb"] sint_dec [of "tb_maxTokens tb"]
  by (auto simp: TryConsume_def refill_def Let_def bucket_inv_def split: if_splits)

text \<open>Within one interval after the last reset the grants are the tokens that were left.\<close>

lemma consume_same_interval:
  assumes "bucket_inv tb" "clock (tb_lastResetMs tb)"
    and "\<forall>t \<in> set ts. clock t \<and> sint t < sint (tb_lastResetMs tb) + sint (tb_resetIntervalMs tb)"
  shows "fst (consume_all ts tb) = min (length ts) (nat (sint (tb_tokens tb)))"
  using assms
proof (induction ts arbitrary: tb)
  case (Cons t ts)
  obtain g tb1 where g: "TryConsume t tb = (g, tb1)" by fastforce
  note c = TryConsume_cases [OF Cons.prems(1,2) _ g]
  have t: "clock t" "sint t - sint (tb_lastResetMs tb) < sint (tb_resetIntervalMs tb)" using Cons.prems(3) by auto
  have "fst (consume_all ts tb1) = min (length ts) (nat (sint (tb_tokens tb1)))"
    using Cons.IH [of tb1] c [OF t(1)] t(2) Cons.prems by simp
  then show ?case
    using c(6) [OF t] g Cons.prems(1) by (auto simp: bucket_inv_def split: prod.split)
qed simp

text \<open>Over a period no longer than the interval there is at most one reset.\<close>

lemma consume_window:
  assumes "bucket_inv tb" "clock (tb_lastResetMs tb)" "sorted (map sint ts)"
    and "\<forall>t \<in> set ts. clock t \<and> a \<le> sint t \<and> sint t < a + sint (tb_resetIntervalMs tb)"
  shows "int (fst (consume_all ts tb)) \<le> sint (tb_tokens tb) + sint (tb_maxTokens tb)"
  using assms
proof (induction ts arbitrary: tb)
  case Nil
  then show ?case by (auto simp: bucket_inv_def)
next
  case (Cons t ts)
  obtain g tb1 where g: "TryConsume t tb = (g, tb1)" by fastforce
  have t: "clock t" "a \<le> sint t" "sint t < a + sint (tb_resetIntervalMs tb)" using Cons.prems(4) by auto
  note c = TryConsume_cases [OF Cons.prems(1,2) t(1) g]
  have n: "fst (consume_all (t # ts) tb) = of_bool g + fst (consume_all ts tb1)"
    using g by (auto split: prod.split)
  show ?case
  proof (cases "sint (tb_resetIntervalMs tb) \<le> sint t - sint (tb_lastResetMs tb)")
    case True
    have "fst (consume_all ts tb1) = min (length ts) (nat (sint (tb_tokens tb1)))"
      by (rule consume_same_interval [OF c(1,4)]) (use Cons.prems(4) c(3,5) True t in auto)
    with n c(5) [OF True] Cons.prems(1) show ?thesis by (auto simp: bucket_inv_def)
  next
    case False
    then have "sint t - sint (tb_lastResetMs tb) < sint (tb_resetIntervalMs tb)" by simp
    moreover have "int (fst (consume_all ts tb1)) \<le> sint (tb_tokens tb1) + sint (tb_maxTokens tb1)"
      by (rule Cons.IH [OF c(1,4)]) (use Cons.prems(3,4) c(3) in auto)
    ultimately show ?thesis using n c(2,6) by auto
  qed
qed

text \<open>The tokens left are those of the limit that the requests of the period have not used.\<close>

lemma answers_periods:
  assumes "bucket_inv tb" "clock (tb_lastResetMs tb)" "\<forall>t \<in> set ts. clock t"
    and "sint (tb_tokens tb) = max 0 (sint (tb_maxTokens tb) - int seen)"
  shows "answers ts tb =
    period_answers (sint (tb_maxTokens tb)) (sint (tb_resetIntervalMs tb)) (sint (tb_lastResetMs tb)) seen (map sint ts)"
  using assms
proof (induction ts arbitrary: tb seen)
  case (Cons t ts)
  obtain g tb1 where g: "TryConsume t tb = (g, tb1)" by fastforce
  have t: "clock t" using Cons.prems(3) by simp
  note c = TryConsume_cases [OF Cons.prems(1,2) t g]
  show ?case
  proof (cases "sint (tb_resetIntervalMs tb) \<le> sint t - sint (tb_lastResetMs tb)")
    case True
    have "sint (tb_tokens tb1) = max 0 (sint (tb_maxTokens tb1) - int 1)" using c(2) c(5) [OF True] Cons.prems(1) by (auto simp: bucket_inv_def)
    from Cons.IH [OF c(1,4) _ this] Cons.prems(3) c(2,3) c(5) [OF True] g True show ?thesis by simp
  next
    case False
    then have f: "sint t - sint (tb_lastResetMs tb) < sint (tb_resetIntervalMs tb)" by simp
    have "sint (tb_tokens tb1) = max 0 (sint (tb_maxTokens tb1) - int (Suc seen))" using c(2) c(6) [OF f] Cons.prems(4) by auto
    from Cons.IH [OF c(1,4) _ this] Cons.prems(3,4) c(2,3) c(6) [OF f] g f show ?thesis by (simp add: less_max_iff_disj)
  qed
qed simp

section \<open>Properties\<close>

text \<open>C40: The limiter limits. A bucket created at some time answers every sequence of requests like the limiter that cuts
  time into periods, the next one starting with the first request at least one reset interval after the start of
  the last, and grants exactly the first \<^verbatim>\<open>maxTokens\<close> requests of every period. So in no window of one reset interval,
  wherever it starts, are more than twice \<^verbatim>\<open>maxTokens\<close> requests granted. The limit is not negative; the times are
  below 2 to the 62, and ordered for the second statement.\<close>

theorem token_bucket_rate:
  assumes "0 \<le> sint maxTokens" "clock start" "\<forall>t \<in> set (before @ ts). clock t"
    and "tb = snd (consume_all before (TokenBucket_New maxTokens interval start))"
  shows "answers (before @ ts) (TokenBucket_New maxTokens interval start) =
       period_answers (sint maxTokens) (sint interval) (sint start) 0 (map sint (before @ ts)) \<and>
     (sorted (map sint (before @ ts)) \<and> (\<forall>t \<in> set ts. a \<le> sint t \<and> sint t < a + sint interval) \<longrightarrow>
       int (fst (consume_all ts tb)) \<le> 2 * sint maxTokens)"
proof -
  let ?new = "TokenBucket_New maxTokens interval start"
  have new: "bucket_inv ?new" "clock (tb_lastResetMs ?new)" "tb_resetIntervalMs ?new = interval" "tb_maxTokens ?new = maxTokens"
    using assms(1,2) by (auto simp: TokenBucket_New_def bucket_inv_def)
  have "bucket_inv (snd (consume_all xs b)) \<and> clock (tb_lastResetMs (snd (consume_all xs b))) \<and>
      tb_resetIntervalMs (snd (consume_all xs b)) = tb_resetIntervalMs b \<and>
      tb_maxTokens (snd (consume_all xs b)) = tb_maxTokens b"
    if "bucket_inv b" "clock (tb_lastResetMs b)" "\<forall>t \<in> set xs. clock t" for xs b
    using that
  proof (induction xs arbitrary: b)
    case (Cons x xs)
    obtain g b1 where g: "TryConsume x b = (g, b1)" by fastforce
    note c = TryConsume_cases [OF Cons.prems(1,2) _ g]
    from Cons.IH [of b1] c Cons.prems(3) g show ?case by (auto split: prod.split)
  qed auto
  from this [OF new(1,2), of before] assms(3)
  have tb: "bucket_inv tb" "clock (tb_lastResetMs tb)" "tb_resetIntervalMs tb = interval" "tb_maxTokens tb = maxTokens"
    unfolding assms(4) using new by auto
  have "answers (before @ ts) ?new = period_answers (sint maxTokens) (sint interval) (sint start) 0 (map sint (before @ ts))"
    using answers_periods [OF new(1,2) assms(3), of 0] assms(1) by (simp add: TokenBucket_New_def)
  moreover have "int (fst (consume_all ts tb)) \<le> 2 * sint maxTokens"
    if "sorted (map sint (before @ ts)) \<and> (\<forall>t \<in> set ts. a \<le> sint t \<and> sint t < a + sint interval)"
    using consume_window [OF tb(1,2), of ts a] that assms(3) tb by (auto simp: sorted_append bucket_inv_def)
  ultimately show ?thesis by blast
qed

theorem token_bucket_rate_witness:
  "answers [1000, 1005, 1009, 1012, 1013, 1014, 1030] (TokenBucket_New 2 10 1000) = [True, True, False, True, True, False, True]"
  using token_bucket_rate [of 2 1000 "[]" "[1000, 1005, 1009, 1012, 1013, 1014, 1030]" _ 10]
  by (simp add: clock_def)

text \<open>The stored state is restored exactly, but the 32-byte buffer is too small for large fields:
  \<^verbatim>\<open>Serialize\<close> returns the four varints if they fit and panics otherwise.\<close>

theorem token_bucket_store:
  "\<exists>enc. (Serialize tb = (if length enc \<le> 32 then Ok enc else Inl (Panic ''index out of range''))) \<and>
    enc = put_varint (tb_maxTokens tb) @ put_varint (tb_resetIntervalMs tb) @ put_varint (tb_tokens tb) @ put_varint (tb_lastResetMs tb) \<and>
    Deserialize enc = Ok (Some tb)"
proof -
  define a where "a = put_varint (tb_maxTokens tb)"
  define b where "b = put_varint (tb_resetIntervalMs tb)"
  define c where "c = put_varint (tb_tokens tb)"
  define d where "d = put_varint (tb_lastResetMs tb)"
  have len: "length a \<le> 10" "length b \<le> 10" "length c \<le> 10"
    by (simp_all add: a_def b_def c_def put_varint_def put_uvarint_length)
  have "Serialize tb = bind_r (put_at ((a @ b @ c) @ make_bytes (32 - length (a @ b @ c))) (length (a @ b @ c)) d)
      (\<lambda>buf. go_slice buf 0 (int (length (a @ b @ c @ d))))"
  proof -
    have "put_at (make_bytes 32) 0 a = Ok (a @ make_bytes (32 - length a))"
      using len put_at_append [of a 32 0 "[]"] by simp
    moreover have "put_at (a @ make_bytes (32 - length a)) (length a) b = Ok ((a @ b) @ make_bytes (32 - length a - length b))"
      using len by (intro put_at_append) auto
    moreover have "put_at ((a @ b) @ make_bytes (32 - length a - length b)) (length a + length b) c =
        Ok (((a @ b) @ c) @ make_bytes (32 - length a - length b - length c))"
      using len by (intro put_at_append) auto
    ultimately show ?thesis
      unfolding Serialize_def Let_def a_def [symmetric] b_def [symmetric] c_def [symmetric] d_def [symmetric]
      by (simp add: add.assoc)
  qed
  also have "\<dots> = (if length (a @ b @ c @ d) \<le> 32 then Ok (a @ b @ c @ d) else Inl (Panic ''index out of range''))"
  proof (cases "length (a @ b @ c @ d) \<le> 32")
    case True
    then show ?thesis
      using put_at_append [of d "32 - length (a @ b @ c)" "length (a @ b @ c)" "a @ b @ c"]
      by (simp add: go_slice_def add.assoc)
  next
    case False
    then show ?thesis using len by (simp add: put_at_def)
  qed
  finally have "Serialize tb = (if length (a @ b @ c @ d) \<le> 32 then Ok (a @ b @ c @ d) else Inl (Panic ''index out of range''))" .
  moreover have at: "varint_at (pre @ put_varint x @ post) (int (length pre)) = Ok (x, int (length (put_varint x)))" for pre x post
    by (simp add: varint_at_def go_slice_def varint_put_varint)
  have "Deserialize (a @ b @ c @ d) = Ok (Some tb)"
    using at [of "[]" "tb_maxTokens tb" "b @ c @ d"] at [of a "tb_resetIntervalMs tb" "c @ d"]
      at [of "a @ b" "tb_tokens tb" d] at [of "a @ b @ c" "tb_lastResetMs tb" "[]"]
    unfolding Deserialize_def a_def [symmetric] b_def [symmetric] c_def [symmetric] d_def [symmetric]
    by (simp add: add.assoc) (simp add: a_def put_varint_def)
  ultimately show ?thesis by (auto simp: a_def b_def c_def d_def)
qed

end
