(* ===== verification/Footer.thy ===== *)
theory Footer
  imports Go_Binary
begin

text \<open>
  \<^verbatim>\<open>internal/sstable/footer.go\<close>: the fixed-size footer of an SSTable, which locates its segments and
  is guarded by a magic number and a CRC. \<^verbatim>\<open>config.GetSettings().SSTable.Format\<close> is an argument of
  \<open>NewFooter\<close>. \<^verbatim>\<open>Decode\<close> overwrites the receiver field by field, also when it then reports an error.
  \<^verbatim>\<open>WriteToStorage\<close> and \<^verbatim>\<open>ReadFromStorage\<close> hand the encoded bytes to the segment storage.
\<close>

section \<open>Model\<close>

abbreviation FooterSize :: nat where "FooterSize \<equiv> 106"
abbreviation MagicNumber :: u32 where "MagicNumber \<equiv> 0x53535442"

record SegmentHandler =
  sh_Offset :: u64
  sh_Size :: u32

record Footer =
  ft_FilterHandler :: SegmentHandler
  ft_IndexHandler :: SegmentHandler
  ft_TTLIndexHandler :: SegmentHandler
  ft_RangeDelIndexHandler :: SegmentHandler
  ft_SummaryHandler :: SegmentHandler
  ft_MerkleHandler :: SegmentHandler
  ft_MetaDataHandler :: SegmentHandler
  ft_DictionaryHandler :: SegmentHandler
  ft_Version :: byte
  ft_Format :: byte
  ft_MagicNumber :: u32
  ft_CRC :: u32

definition zero_handler :: SegmentHandler where
  "zero_handler = \<lparr>sh_Offset = 0, sh_Size = 0\<rparr>"

definition NewFooter :: "byte \<Rightarrow> Footer" where
  "NewFooter cfgFormat = \<lparr>ft_FilterHandler = zero_handler, ft_IndexHandler = zero_handler,
     ft_TTLIndexHandler = zero_handler, ft_RangeDelIndexHandler = zero_handler, ft_SummaryHandler = zero_handler,
     ft_MerkleHandler = zero_handler, ft_MetaDataHandler = zero_handler, ft_DictionaryHandler = zero_handler,
     ft_Version = 1, ft_Format = cfgFormat, ft_MagicNumber = MagicNumber, ft_CRC = 0\<rparr>"

text \<open>Successive writes into a buffer at a running position.\<close>

fun put_all :: "bytes \<Rightarrow> nat \<Rightarrow> bytes list \<Rightarrow> (bytes \<times> nat) result" where
  "put_all buf pos [] = Ok (buf, pos)"
| "put_all buf pos (x # xs) = bind_r (put_at buf pos x) (\<lambda>buf. put_all buf (pos + length x) xs)"

definition handler_fields :: "SegmentHandler \<Rightarrow> bytes list" where
  "handler_fields h = [put_u64 (sh_Offset h), put_u32 (sh_Size h)]"

definition footer_fields :: "Footer \<Rightarrow> bytes list" where
  "footer_fields f =
     handler_fields (ft_FilterHandler f) @ handler_fields (ft_IndexHandler f) @
     handler_fields (ft_TTLIndexHandler f) @ handler_fields (ft_RangeDelIndexHandler f) @
     handler_fields (ft_SummaryHandler f) @ handler_fields (ft_MerkleHandler f) @
     handler_fields (ft_MetaDataHandler f) @ handler_fields (ft_DictionaryHandler f) @
     [[ft_Version f], [ft_Format f], put_u32 (ft_MagicNumber f)]"

definition Footer_Encode :: "Footer \<Rightarrow> bytes result" where
  "Footer_Encode f =
     bind_r (put_all (make_bytes FooterSize) 0 (footer_fields f)) (\<lambda>(buf, pos).
     bind_r (go_slice buf 0 (int pos)) (\<lambda>body.
     put_at buf pos (put_u32 (crc32_ChecksumIEEE body))))"

definition handler_at :: "bytes \<Rightarrow> nat \<Rightarrow> SegmentHandler result" where
  "handler_at buf pos =
     bind_r (read_u64 buf pos) (\<lambda>off. bind_r (read_u32 buf (pos + 8)) (\<lambda>size.
     Ok \<lparr>sh_Offset = off, sh_Size = size\<rparr>))"

definition byte_read :: "bytes \<Rightarrow> nat \<Rightarrow> byte result" where
  "byte_read buf pos = (if pos < length buf then Ok (buf ! pos) else Inl (Panic ''index out of range''))"

definition read_footer :: "bytes \<Rightarrow> Footer \<Rightarrow> Footer result" where
  "read_footer buf f =
     bind_r (handler_at buf 0) (\<lambda>h1. bind_r (handler_at buf 12) (\<lambda>h2.
     bind_r (handler_at buf 24) (\<lambda>h3. bind_r (handler_at buf 36) (\<lambda>h4.
     bind_r (handler_at buf 48) (\<lambda>h5. bind_r (handler_at buf 60) (\<lambda>h6.
     bind_r (handler_at buf 72) (\<lambda>h7. bind_r (handler_at buf 84) (\<lambda>h8.
     bind_r (byte_read buf 96) (\<lambda>v. bind_r (byte_read buf 97) (\<lambda>fmt. bind_r (read_u32 buf 98) (\<lambda>m.
     Ok (f\<lparr>ft_FilterHandler := h1, ft_IndexHandler := h2, ft_TTLIndexHandler := h3,
           ft_RangeDelIndexHandler := h4, ft_SummaryHandler := h5, ft_MerkleHandler := h6,
           ft_MetaDataHandler := h7, ft_DictionaryHandler := h8, ft_Version := v, ft_Format := fmt,
           ft_MagicNumber := m\<rparr>))))))))))))"

definition Footer_Decode :: "bytes \<Rightarrow> (Footer, unit) op" where
  "Footer_Decode buf f =
     (if length buf \<noteq> FooterSize then (Inl (Error ''invalid footer size''), f)
      else case read_footer buf f of
          Inl e \<Rightarrow> (Inl e, f)
        | Inr f1 \<Rightarrow>
            if ft_MagicNumber f1 \<noteq> MagicNumber then (Inl (Error ''invalid magic number''), f1)
            else case bind_r (read_u32 buf 102) (\<lambda>expected. bind_r (go_slice buf 0 102) (\<lambda>body.
                   Ok (expected, crc32_ChecksumIEEE body))) of
                Inl e \<Rightarrow> (Inl e, f1)
              | Inr (expectedCRC, actualCRC) \<Rightarrow>
                  if expectedCRC \<noteq> actualCRC then (Inl (Error ''footer CRC mismatch''), f1)
                  else (Ok (), f1\<lparr>ft_CRC := expectedCRC\<rparr>))"

definition Footer_Validate :: "Footer \<Rightarrow> unit result" where
  "Footer_Validate f =
     (if ft_MagicNumber f \<noteq> MagicNumber then Inl (Error ''invalid magic number'')
      else if ft_Version f \<noteq> 1 then Inl (Error ''unsupported footer version'')
      else if 1 < ft_Format f then Inl (Error ''invalid format'')
      else Ok ())"

section \<open>Lemmas\<close>

lemma put_all_append:
  "length (concat xs) \<le> n \<Longrightarrow> p = length pre \<Longrightarrow> put_all (pre @ make_bytes n) p xs =
     Ok ((pre @ concat xs) @ make_bytes (n - length (concat xs)), length pre + length (concat xs))"
proof (induction xs arbitrary: pre n p)
  case (Cons x xs)
  then have "put_at (pre @ make_bytes n) p x = Ok ((pre @ x) @ make_bytes (n - length x))"
    by (intro put_at_append) auto
  with Cons.IH [of "n - length x" "length (pre @ x)" "pre @ x"] Cons.prems show ?case
    by (simp add: add.assoc)
qed simp

definition footer_body :: "Footer \<Rightarrow> bytes" where
  "footer_body f = concat (footer_fields f)"

lemma length_footer_body [simp]: "length (footer_body f) = 102"
  by (simp add: footer_body_def footer_fields_def handler_fields_def)

lemma Footer_Encode_eq: "Footer_Encode f = Ok (footer_body f @ put_u32 (crc32_ChecksumIEEE (footer_body f)))"
proof -
  have "put_all (make_bytes 106) 0 (footer_fields f) = Ok (footer_body f @ make_bytes 4, 102)"
    using put_all_append [of "footer_fields f" 106 0 "[]"] length_footer_body [of f]
    by (simp add: footer_body_def del: length_footer_body)
  moreover have "go_slice (footer_body f @ make_bytes 4) 0 (int 102) = Ok (footer_body f)"
    by (simp add: go_slice_def)
  moreover have "put_at (footer_body f @ make_bytes 4) 102 (put_u32 w) = Ok (footer_body f @ put_u32 w)" for w
    using put_at_append [of "put_u32 w" 4 102 "footer_body f"] by simp
  ultimately show ?thesis by (simp add: Footer_Encode_def)
qed

text \<open>With the right size, \<open>Decode\<close> can only fail with an error, and succeeds exactly on a correct checksum.\<close>

lemma read_footer_total: "length buf = FooterSize \<Longrightarrow> \<exists>f1. read_footer buf f = Ok f1"
  by (simp add: read_footer_def handler_at_def byte_read_def read_le_def)

lemma Footer_Decode_Ok:
  assumes "Footer_Decode buf f = (Ok u, f')"
  shows "length buf = FooterSize \<and> get_le (drop 102 buf) = crc32_ChecksumIEEE (take 102 buf) \<and>
    ft_MagicNumber f' = MagicNumber"
  using assms by (auto simp: Footer_Decode_def read_le_def go_slice_def split: if_splits sum.splits)

lemma Footer_Decode_no_panic: "Footer_Decode buf f \<noteq> (Inl (Panic msg), f')"
  using read_footer_total [of buf f]
  by (auto simp: Footer_Decode_def read_le_def go_slice_def split: if_splits sum.splits)

lemma handler_at_put:
  "p = length pre \<Longrightarrow> handler_at (pre @ concat (handler_fields h) @ post) p = Ok h"
  using read_put_u64 [of p pre "sh_Offset h" "put_u32 (sh_Size h) @ post"]
    read_put_u32 [of "p + 8" "pre @ put_u64 (sh_Offset h)" "sh_Size h" post]
  by (simp add: handler_at_def handler_fields_def)

lemma read_footer_body: "\<exists>w. read_footer (footer_body f @ post) g = Ok (f\<lparr>ft_CRC := w\<rparr>)"
proof -
  define a where "a = (\<lambda>h. concat (handler_fields h))"
  have la: "length (a h) = 12" for h by (simp add: a_def handler_fields_def)
  have body: "footer_body f @ post = a (ft_FilterHandler f) @ a (ft_IndexHandler f) @ a (ft_TTLIndexHandler f) @
      a (ft_RangeDelIndexHandler f) @ a (ft_SummaryHandler f) @ a (ft_MerkleHandler f) @ a (ft_MetaDataHandler f) @
      a (ft_DictionaryHandler f) @ ft_Version f # ft_Format f # put_u32 (ft_MagicNumber f) @ post"
    by (simp add: footer_body_def footer_fields_def a_def)
  have at: "p = length pre \<Longrightarrow> handler_at (pre @ a h @ rest) p = Ok h" for p pre h rest
    unfolding a_def by (rule handler_at_put)
  let ?b = "footer_body f @ post"
  have h1: "handler_at ?b 0 = Ok (ft_FilterHandler f)"
    using at [of 0 "[]" "ft_FilterHandler f" "a (ft_IndexHandler f) @ a (ft_TTLIndexHandler f) @ a (ft_RangeDelIndexHandler f) @ a (ft_SummaryHandler f) @ a (ft_MerkleHandler f) @ a (ft_MetaDataHandler f) @ a (ft_DictionaryHandler f) @ ft_Version f # ft_Format f # put_u32 (ft_MagicNumber f) @ post"] by (simp add: la body)
  have h2: "handler_at ?b 12 = Ok (ft_IndexHandler f)"
    using at [of 12 "a (ft_FilterHandler f)" "ft_IndexHandler f" "a (ft_TTLIndexHandler f) @ a (ft_RangeDelIndexHandler f) @ a (ft_SummaryHandler f) @ a (ft_MerkleHandler f) @ a (ft_MetaDataHandler f) @ a (ft_DictionaryHandler f) @ ft_Version f # ft_Format f # put_u32 (ft_MagicNumber f) @ post"] by (simp add: la body)
  have h3: "handler_at ?b 24 = Ok (ft_TTLIndexHandler f)"
    using at [of 24 "a (ft_FilterHandler f) @ a (ft_IndexHandler f)" "ft_TTLIndexHandler f" "a (ft_RangeDelIndexHandler f) @ a (ft_SummaryHandler f) @ a (ft_MerkleHandler f) @ a (ft_MetaDataHandler f) @ a (ft_DictionaryHandler f) @ ft_Version f # ft_Format f # put_u32 (ft_MagicNumber f) @ post"] by (simp add: la body)
  have h4: "handler_at ?b 36 = Ok (ft_RangeDelIndexHandler f)"
    using at [of 36 "a (ft_FilterHandler f) @ a (ft_IndexHandler f) @ a (ft_TTLIndexHandler f)" "ft_RangeDelIndexHandler f" "a (ft_SummaryHandler f) @ a (ft_MerkleHandler f) @ a (ft_MetaDataHandler f) @ a (ft_DictionaryHandler f) @ ft_Version f # ft_Format f # put_u32 (ft_MagicNumber f) @ post"] by (simp add: la body)
  have h5: "handler_at ?b 48 = Ok (ft_SummaryHandler f)"
    using at [of 48 "a (ft_FilterHandler f) @ a (ft_IndexHandler f) @ a (ft_TTLIndexHandler f) @ a (ft_RangeDelIndexHandler f)" "ft_SummaryHandler f" "a (ft_MerkleHandler f) @ a (ft_MetaDataHandler f) @ a (ft_DictionaryHandler f) @ ft_Version f # ft_Format f # put_u32 (ft_MagicNumber f) @ post"] by (simp add: la body)
  have h6: "handler_at ?b 60 = Ok (ft_MerkleHandler f)"
    using at [of 60 "a (ft_FilterHandler f) @ a (ft_IndexHandler f) @ a (ft_TTLIndexHandler f) @ a (ft_RangeDelIndexHandler f) @ a (ft_SummaryHandler f)" "ft_MerkleHandler f" "a (ft_MetaDataHandler f) @ a (ft_DictionaryHandler f) @ ft_Version f # ft_Format f # put_u32 (ft_MagicNumber f) @ post"] by (simp add: la body)
  have h7: "handler_at ?b 72 = Ok (ft_MetaDataHandler f)"
    using at [of 72 "a (ft_FilterHandler f) @ a (ft_IndexHandler f) @ a (ft_TTLIndexHandler f) @ a (ft_RangeDelIndexHandler f) @ a (ft_SummaryHandler f) @ a (ft_MerkleHandler f)" "ft_MetaDataHandler f" "a (ft_DictionaryHandler f) @ ft_Version f # ft_Format f # put_u32 (ft_MagicNumber f) @ post"] by (simp add: la body)
  have h8: "handler_at ?b 84 = Ok (ft_DictionaryHandler f)"
    using at [of 84 "a (ft_FilterHandler f) @ a (ft_IndexHandler f) @ a (ft_TTLIndexHandler f) @ a (ft_RangeDelIndexHandler f) @ a (ft_SummaryHandler f) @ a (ft_MerkleHandler f) @ a (ft_MetaDataHandler f)" "ft_DictionaryHandler f" "ft_Version f # ft_Format f # put_u32 (ft_MagicNumber f) @ post"] by (simp add: la body)
  have v: "byte_read ?b 96 = Ok (ft_Version f)" "byte_read ?b 97 = Ok (ft_Format f)"
    by (simp_all add: byte_read_def body nth_append la)
  have m: "read_u32 ?b 98 = Ok (ft_MagicNumber f)"
    using read_put_u32 [of 98 "a (ft_FilterHandler f) @ a (ft_IndexHandler f) @ a (ft_TTLIndexHandler f) @ a (ft_RangeDelIndexHandler f) @ a (ft_SummaryHandler f) @ a (ft_MerkleHandler f) @ a (ft_MetaDataHandler f) @ a (ft_DictionaryHandler f) @ [ft_Version f, ft_Format f]" "ft_MagicNumber f" post] by (simp add: body la)
  show ?thesis
    unfolding read_footer_def h1 h2 h3 h4 h5 h6 h7 h8 v m bind_r_simps by (intro exI [of _ "ft_CRC g"]) simp
qed

lemma Footer_Decode_body:
  assumes "ft_MagicNumber f = MagicNumber"
  shows "Footer_Decode (footer_body f @ put_u32 (crc32_ChecksumIEEE (footer_body f))) g =
    (Ok (), f\<lparr>ft_CRC := crc32_ChecksumIEEE (footer_body f)\<rparr>)"
proof -
  let ?crc = "crc32_ChecksumIEEE (footer_body f)"
  define buf where "buf = footer_body f @ put_u32 ?crc"
  obtain w where rd: "read_footer buf g = Ok (f\<lparr>ft_CRC := w\<rparr>)"
    using read_footer_body [of f "put_u32 ?crc" g] by (auto simp: buf_def)
  have "read_u32 buf 102 = Ok ?crc" "go_slice buf 0 102 = Ok (footer_body f)"
    using read_put_u32 [of 102 "footer_body f" ?crc "[]"] by (simp_all add: buf_def go_slice_def)
  with rd assms show ?thesis by (simp add: Footer_Decode_def buf_def [symmetric]) (simp add: buf_def)
qed

section \<open>Properties\<close>

text \<open>C39: The footer is written in exactly 106 bytes and read back unchanged, with its checksum filled in;
  reading never panics, whatever the buffer, and after any change of a single byte it returns an error.\<close>

theorem footer_roundtrip_and_corruption:
  assumes "ft_MagicNumber f = MagicNumber" "i < FooterSize" "Footer_Encode f = Ok buf" "b \<noteq> buf ! i"
  shows "length buf = FooterSize \<and> Footer_Decode buf g = (Ok (), f\<lparr>ft_CRC := crc32_ChecksumIEEE (take 102 buf)\<rparr>) \<and>
    (\<exists>msg g'. Footer_Decode (buf[i := b]) g = (Inl (Error msg), g')) \<and>
    (\<forall>any msg g'. Footer_Decode any g \<noteq> (Inl (Panic msg), g'))"
proof -
  let ?crc = "crc32_ChecksumIEEE (footer_body f)"
  have buf: "buf = footer_body f @ put_u32 ?crc" using assms(3) by (simp add: Footer_Encode_eq)
  then have len: "length buf = FooterSize" by simp
  have dec: "Footer_Decode buf g = (Ok (), f\<lparr>ft_CRC := crc32_ChecksumIEEE (take 102 buf)\<rparr>)"
    using Footer_Decode_body [OF assms(1), of g] by (simp add: buf)
  have bad: "Footer_Decode (buf[i := b]) g \<noteq> (Ok u, g')" for u g'
  proof
    assume "Footer_Decode (buf[i := b]) g = (Ok u, g')"
    from Footer_Decode_Ok [OF this]
    have eq: "get_le (drop 102 (buf[i := b])) = crc32_ChecksumIEEE (take 102 (buf[i := b]))" by simp
    with crc_trailer_detects [OF buf, of i b] len assms(2,4) show False by simp
  qed
  obtain r g' where r: "Footer_Decode (buf[i := b]) g = (r, g')" by fastforce
  with bad Footer_Decode_no_panic [of "buf[i := b]" g] have "\<exists>msg. r = Inl (Error msg)"
    by (metis failure.exhaust sum.exhaust)
  with r dec len Footer_Decode_no_panic show ?thesis by blast
qed

theorem footer_roundtrip_and_corruption_witness:
  "\<exists>buf msg g'. Footer_Encode (NewFooter 0) = Ok buf \<and> length buf = FooterSize \<and>
    Footer_Decode (buf[0 := 1]) (NewFooter 1) = (Inl (Error msg), g')"
proof -
  define buf where "buf = footer_body (NewFooter 0) @ put_u32 (crc32_ChecksumIEEE (footer_body (NewFooter 0)))"
  have "buf ! 0 = 0"
    by (simp add: buf_def footer_body_def footer_fields_def handler_fields_def NewFooter_def zero_handler_def
        put_u64_def numeral_eq_Suc)
  then have "1 \<noteq> buf ! 0" by simp
  from footer_roundtrip_and_corruption [OF _ _ _ this, of "NewFooter 0" "NewFooter 1"]
  show ?thesis by (auto simp: buf_def Footer_Encode_eq NewFooter_def)
qed

end
