(* ===== verification/Entries.thy ===== *)
theory Entries
  imports Go_Binary
begin

text \<open>
  \<^verbatim>\<open>internal/shared\<close>: the three records the SSTable index blocks store (index entries, TTL
  entries and range tombstones) with their \<^verbatim>\<open>EncodedSize\<close>, \<^verbatim>\<open>EncodeTo\<close>, \<^verbatim>\<open>Encode...Entry\<close> and
  \<^verbatim>\<open>Decode...Entry\<close> functions. An \<^verbatim>\<open>EncodeTo\<close> writes into a caller's buffer and returns the
  buffer and the number of bytes written; a decoder returns the entry and the bytes consumed.
  Buffers are taken with capacity equal to their length.
\<close>

record IndexEntry =
  ie_Key :: bytes
  ie_BlockIndex :: u32

record TTLEntry =
  te_Key :: bytes
  te_ExpiresAt :: i64

record RangeDelEntry =
  rd_StartKey :: bytes
  rd_EndKey :: bytes
  rd_SeqId :: u64

section \<open>Index entries\<close>

definition IndexEntry_EncodedSize :: "IndexEntry \<Rightarrow> nat" where
  "IndexEntry_EncodedSize entry =
     (let keyLen = of_nat (length (ie_Key entry)); variantLen = length (put_uvarint keyLen)
      in variantLen + length (ie_Key entry) + 4)"

definition IndexEntry_EncodeTo :: "IndexEntry \<Rightarrow> bytes \<Rightarrow> (bytes \<times> nat) result" where
  "IndexEntry_EncodeTo entry buf =
     (let v = put_uvarint (of_nat (length (ie_Key entry))); pos = length v in
      bind_r (put_at buf 0 v) (\<lambda>buf.
      bind_r (copy_at buf pos (ie_Key entry)) (\<lambda>buf.
      let pos = pos + length (ie_Key entry) in
      bind_r (put_at buf pos (put_u32 (ie_BlockIndex entry))) (\<lambda>buf.
      Ok (buf, pos + 4)))))"

definition EncodeIndexEntry :: "IndexEntry \<Rightarrow> bytes result" where
  "EncodeIndexEntry entry =
     bind_r (IndexEntry_EncodeTo entry (make_bytes (IndexEntry_EncodedSize entry)))
       (\<lambda>(buf, n). Ok buf)"

definition DecodeIndexEntry :: "bytes \<Rightarrow> (IndexEntry \<times> nat) result" where
  "DecodeIndexEntry buf =
     (if length buf < 5 then Inl (Error ''buffer too small'')
      else let (keyLength, n) = uvarint buf in
        if n \<le> 0 then Inl (Error ''invalid index key length'')
        else let pos = nat n in
        if int (length buf) < go_int (go_int (int pos + u64_int keyLength) + 4)
        then Inl (Error ''buffer too small'')
        else
          bind_r (make_len keyLength) (\<lambda>key.
          bind_r (go_slice buf (int pos) (go_int (int pos + u64_int keyLength))) (\<lambda>src.
          let key = overlay key 0 src; pos = nat (go_int (int pos + u64_int keyLength)) in
          bind_r (read_u32 buf pos) (\<lambda>blockIndex.
          Ok (\<lparr>ie_Key = key, ie_BlockIndex = blockIndex\<rparr>, pos + 4)))))"

section \<open>TTL entries\<close>

definition TTLEntry_EncodedSize :: "TTLEntry \<Rightarrow> nat" where
  "TTLEntry_EncodedSize entry =
     (let keyLen = of_nat (length (te_Key entry)); variantLen = length (put_uvarint keyLen)
      in variantLen + length (te_Key entry) + 8)"

definition TTLEntry_EncodeTo :: "TTLEntry \<Rightarrow> bytes \<Rightarrow> (bytes \<times> nat) result" where
  "TTLEntry_EncodeTo entry buf =
     (let v = put_uvarint (of_nat (length (te_Key entry))); pos = length v in
      bind_r (put_at buf 0 v) (\<lambda>buf.
      bind_r (copy_at buf pos (te_Key entry)) (\<lambda>buf.
      let pos = pos + length (te_Key entry) in
      bind_r (put_at buf pos (put_u64 (te_ExpiresAt entry))) (\<lambda>buf.
      Ok (buf, pos + 8)))))"

definition EncodeTTLIndexEntry :: "TTLEntry \<Rightarrow> bytes result" where
  "EncodeTTLIndexEntry entry =
     bind_r (TTLEntry_EncodeTo entry (make_bytes (TTLEntry_EncodedSize entry)))
       (\<lambda>(buf, n). Ok buf)"

definition DecodeTTLIndexEntry :: "bytes \<Rightarrow> (TTLEntry \<times> nat) result" where
  "DecodeTTLIndexEntry buf =
     (if length buf < 5 then Inl (Error ''buffer too small'')
      else let (keyLength, n) = uvarint buf in
        if n \<le> 0 then Inl (Error ''invalid index key length'')
        else let pos = nat n in
        if int (length buf) < go_int (go_int (int pos + u64_int keyLength) + 8)
        then Inl (Error ''buffer too small'')
        else
          bind_r (make_len keyLength) (\<lambda>key.
          bind_r (go_slice buf (int pos) (go_int (int pos + u64_int keyLength))) (\<lambda>src.
          let key = overlay key 0 src; pos = nat (go_int (int pos + u64_int keyLength)) in
          bind_r (read_u64 buf pos) (\<lambda>expiresAt.
          Ok (\<lparr>te_Key = key, te_ExpiresAt = expiresAt\<rparr>, pos + 8)))))"

section \<open>Range tombstones\<close>

definition RangeDelEntry_EncodedSize :: "RangeDelEntry \<Rightarrow> nat" where
  "RangeDelEntry_EncodedSize entry =
     (let startVarintLen = length (put_uvarint (of_nat (length (rd_StartKey entry))));
          endVarintLen = length (put_uvarint (of_nat (length (rd_EndKey entry))))
      in startVarintLen + endVarintLen + length (rd_StartKey entry) + length (rd_EndKey entry) + 8)"

definition RangeDelEntry_EncodeTo :: "RangeDelEntry \<Rightarrow> bytes \<Rightarrow> (bytes \<times> nat) result" where
  "RangeDelEntry_EncodeTo entry buf =
     (let sv = put_uvarint (of_nat (length (rd_StartKey entry)));
          ev = put_uvarint (of_nat (length (rd_EndKey entry))) in
      bind_r (put_at buf 0 sv) (\<lambda>buf.
      let pos = length sv in
      bind_r (put_at buf pos ev) (\<lambda>buf.
      let pos = pos + length ev in
      bind_r (copy_at buf pos (rd_StartKey entry)) (\<lambda>buf.
      let pos = pos + length (rd_StartKey entry) in
      bind_r (copy_at buf pos (rd_EndKey entry)) (\<lambda>buf.
      let pos = pos + length (rd_EndKey entry) in
      bind_r (put_at buf pos (put_u64 (rd_SeqId entry))) (\<lambda>buf.
      Ok (buf, pos + 8)))))))"

definition EncodeRangeDelEntry :: "RangeDelEntry \<Rightarrow> bytes result" where
  "EncodeRangeDelEntry entry =
     bind_r (RangeDelEntry_EncodeTo entry (make_bytes (RangeDelEntry_EncodedSize entry)))
       (\<lambda>(buf, n). Ok buf)"

text \<open>Unlike the other two decoders, this one has no check of the lengths against the buffer.\<close>

definition DecodeRangeDelEntry :: "bytes \<Rightarrow> (RangeDelEntry \<times> nat) result" where
  "DecodeRangeDelEntry buf =
     (if length buf < 5 then Inl (Error ''buffer too small'')
      else let (startKeyLength, n) = uvarint buf in
        if n \<le> 0 then Inl (Error ''invalid index key length'')
        else let pos = nat n; (endKeyLength, n) = uvarint (drop pos buf) in
        if n \<le> 0 then Inl (Error ''invalid index key length'')
        else let pos = pos + nat n in
          bind_r (make_len startKeyLength) (\<lambda>startKey.
          bind_r (go_slice buf (int pos) (go_int (int pos + u64_int startKeyLength))) (\<lambda>src.
          let startKey = overlay startKey 0 src;
              pos = nat (go_int (int pos + u64_int startKeyLength)) in
          bind_r (make_len endKeyLength) (\<lambda>endKey.
          bind_r (go_slice buf (int pos) (go_int (int pos + u64_int endKeyLength))) (\<lambda>src.
          let endKey = overlay endKey 0 src;
              pos = nat (go_int (int pos + u64_int endKeyLength)) in
          bind_r (read_u64 buf pos) (\<lambda>seqId.
          Ok (\<lparr>rd_StartKey = startKey, rd_EndKey = endKey, rd_SeqId = seqId\<rparr>, pos + 8)))))))"

section \<open>The wire formats\<close>

text \<open>The byte strings the encoders produce; the codec laws are stated over them.\<close>

definition ie_wire :: "IndexEntry \<Rightarrow> bytes" where
  "ie_wire e = put_uvarint (of_nat (length (ie_Key e))) @ ie_Key e @ put_u32 (ie_BlockIndex e)"

definition te_wire :: "TTLEntry \<Rightarrow> bytes" where
  "te_wire e = put_uvarint (of_nat (length (te_Key e))) @ te_Key e @ put_u64 (te_ExpiresAt e)"

definition rd_wire :: "RangeDelEntry \<Rightarrow> bytes" where
  "rd_wire e = put_uvarint (of_nat (length (rd_StartKey e))) @
     put_uvarint (of_nat (length (rd_EndKey e))) @
     rd_StartKey e @ rd_EndKey e @ put_u64 (rd_SeqId e)"

text \<open>
  The interface between an entry type and the blocks that store it. \<open>wire\<close> is the byte
  string of an entry, \<open>encode_to\<close> writes it at the front of a zeroed buffer, \<open>decode\<close> reads
  it back from the front of a buffer and ignores what follows.
\<close>

locale entry_codec =
  fixes wire :: "'e \<Rightarrow> bytes"
    and encoded_size :: "'e \<Rightarrow> nat"
    and encode_to :: "'e \<Rightarrow> bytes \<Rightarrow> (bytes \<times> nat) result"
    and decode :: "bytes \<Rightarrow> ('e \<times> nat) result"
    and wf :: "'e \<Rightarrow> bool"
  assumes size_wire: "encoded_size e = length (wire e)"
    and encode_to_wire: "length (wire e) \<le> n \<Longrightarrow>
          encode_to e (make_bytes n) = Ok (wire e @ make_bytes (n - length (wire e)), length (wire e))"
    and decode_wire: "wf e \<Longrightarrow> decode (wire e @ rest) = Ok (e, length (wire e))"

definition key_ok :: "bytes \<Rightarrow> bool" where
  "key_ok k \<longleftrightarrow> length k < max_alloc"

lemma key_ok_facts:
  assumes "key_ok k"
  shows "unat (of_nat (length k) :: u64) = length k"
    and "u64_int (of_nat (length k)) = int (length k)"
    and "int (length k) < 2 ^ 48"
  using assms unfolding key_ok_def max_alloc_def
  by (simp_all add: unsigned_of_nat take_bit_nat_eq_self u64_int_of_nat)

lemma make_len_key: "key_ok k \<Longrightarrow> make_len (of_nat (length k)) = Ok (make_bytes (length k))"
  using key_ok_facts [of k] by (simp add: make_len_def key_ok_def)

lemma overlay_all: "length src = length buf \<Longrightarrow> overlay buf 0 src = src"
  by (simp add: overlay_def)

lemma overlay_full [simp]: "overlay (make_bytes (length k)) 0 k = k"
  by (simp add: overlay_all)

lemma go_int_pos:
  "0 \<le> a \<Longrightarrow> a < 2 ^ 62 \<Longrightarrow> go_int a = a"
  by (rule go_int_small) auto

lemma put_at_0: "length src \<le> n \<Longrightarrow> put_at (make_bytes n) 0 src = Ok (src @ make_bytes (n - length src))"
  using put_at_append [of src n 0 "[]"] by simp

lemmas write_simps = put_at_0 put_at_append copy_at_append

lemma varint_len_pos: "0 < length (put_uvarint x)"
  by simp

lemma IndexEntry_EncodeTo_wire:
  assumes "length (ie_wire e) \<le> n"
  shows "IndexEntry_EncodeTo e (make_bytes n)
    = Ok (ie_wire e @ make_bytes (n - length (ie_wire e)), length (ie_wire e))"
  using assms
  by (simp add: IndexEntry_EncodeTo_def ie_wire_def write_simps Let_def del: append_assoc)
    (simp add: add.assoc)

lemma DecodeIndexEntry_wire:
  assumes "key_ok (ie_Key e)"
  shows "DecodeIndexEntry (ie_wire e @ rest) = Ok (e, length (ie_wire e))"
proof -
  define v where "v = put_uvarint (of_nat (length (ie_Key e)))"
  note k = key_ok_facts [OF assms]
  have v: "0 < length v" "length v \<le> 10"
    unfolding v_def by (simp_all add: put_uvarint_length)
  have u: "uvarint (v @ ie_Key e @ put_u32 (ie_BlockIndex e) @ rest)
      = (of_nat (length (ie_Key e)), int (length v))"
    unfolding v_def by (rule uvarint_put_uvarint)
  have s: "go_slice (v @ ie_Key e @ put_u32 (ie_BlockIndex e) @ rest) (int (length v))
      (int (length v) + int (length (ie_Key e))) = Ok (ie_Key e)"
    by (rule go_slice_middle) simp_all
  have r: "read_u32 (v @ ie_Key e @ put_u32 (ie_BlockIndex e) @ rest) (length v + length (ie_Key e))
      = Ok (ie_BlockIndex e)"
    using read_put_u32 [of "length v + length (ie_Key e)" "v @ ie_Key e"] by simp
  have l: "\<not> length (v @ ie_Key e @ put_u32 (ie_BlockIndex e) @ rest) < 5"
    using v by simp
  show ?thesis
    using v k(3) l
    by (simp add: DecodeIndexEntry_def ie_wire_def v_def [symmetric] u k make_len_key [OF assms]
        go_int_pos s r nat_add_distrib)
qed

interpretation ie: entry_codec ie_wire IndexEntry_EncodedSize IndexEntry_EncodeTo DecodeIndexEntry
  "\<lambda>e. key_ok (ie_Key e)"
  by unfold_locales
    (simp_all add: IndexEntry_EncodedSize_def ie_wire_def [THEN arg_cong [of _ _ length]]
      IndexEntry_EncodeTo_wire DecodeIndexEntry_wire)

lemma TTLEntry_EncodeTo_wire:
  assumes "length (te_wire e) \<le> n"
  shows "TTLEntry_EncodeTo e (make_bytes n)
    = Ok (te_wire e @ make_bytes (n - length (te_wire e)), length (te_wire e))"
  using assms
  by (simp add: TTLEntry_EncodeTo_def te_wire_def write_simps Let_def del: append_assoc)
    (simp add: add.assoc)

lemma DecodeTTLIndexEntry_wire:
  assumes "key_ok (te_Key e)"
  shows "DecodeTTLIndexEntry (te_wire e @ rest) = Ok (e, length (te_wire e))"
proof -
  define v where "v = put_uvarint (of_nat (length (te_Key e)))"
  note k = key_ok_facts [OF assms]
  have v: "0 < length v" "length v \<le> 10"
    unfolding v_def by (simp_all add: put_uvarint_length)
  have u: "uvarint (v @ te_Key e @ put_u64 (te_ExpiresAt e) @ rest)
      = (of_nat (length (te_Key e)), int (length v))"
    unfolding v_def by (rule uvarint_put_uvarint)
  have s: "go_slice (v @ te_Key e @ put_u64 (te_ExpiresAt e) @ rest) (int (length v))
      (int (length v) + int (length (te_Key e))) = Ok (te_Key e)"
    by (rule go_slice_middle) simp_all
  have r: "read_u64 (v @ te_Key e @ put_u64 (te_ExpiresAt e) @ rest) (length v + length (te_Key e))
      = Ok (te_ExpiresAt e)"
    using read_put_u64 [of "length v + length (te_Key e)" "v @ te_Key e"] by simp
  have l: "\<not> length (v @ te_Key e @ put_u64 (te_ExpiresAt e) @ rest) < 5"
    using v by simp
  show ?thesis
    using v k(3) l
    by (simp add: DecodeTTLIndexEntry_def te_wire_def v_def [symmetric] u k make_len_key [OF assms]
        go_int_pos s r nat_add_distrib)
qed

interpretation te: entry_codec te_wire TTLEntry_EncodedSize TTLEntry_EncodeTo DecodeTTLIndexEntry
  "\<lambda>e. key_ok (te_Key e)"
  by unfold_locales
    (simp_all add: TTLEntry_EncodedSize_def te_wire_def [THEN arg_cong [of _ _ length]]
      TTLEntry_EncodeTo_wire DecodeTTLIndexEntry_wire)

lemma RangeDelEntry_EncodeTo_wire:
  assumes "length (rd_wire e) \<le> n"
  shows "RangeDelEntry_EncodeTo e (make_bytes n)
    = Ok (rd_wire e @ make_bytes (n - length (rd_wire e)), length (rd_wire e))"
  using assms
  by (simp add: RangeDelEntry_EncodeTo_def rd_wire_def write_simps Let_def del: append_assoc)
    (simp add: add.assoc)

lemma DecodeRangeDelEntry_wire:
  assumes "key_ok (rd_StartKey e)" "key_ok (rd_EndKey e)"
  shows "DecodeRangeDelEntry (rd_wire e @ rest) = Ok (e, length (rd_wire e))"
proof -
  define v where "v = put_uvarint (of_nat (length (rd_StartKey e)))"
  define w where "w = put_uvarint (of_nat (length (rd_EndKey e)))"
  define b where "b = v @ w @ rd_StartKey e @ rd_EndKey e @ put_u64 (rd_SeqId e) @ rest"
  note k = key_ok_facts [OF assms(1)] key_ok_facts [OF assms(2)]
  have v: "0 < length v" "length v \<le> 10" "0 < length w" "length w \<le> 10"
    unfolding v_def w_def by (simp_all add: put_uvarint_length)
  have u: "uvarint b = (of_nat (length (rd_StartKey e)), int (length v))"
    unfolding b_def v_def by (rule uvarint_put_uvarint)
  have u': "uvarint (drop (length v) b) = (of_nat (length (rd_EndKey e)), int (length w))"
    unfolding b_def by (simp add: w_def uvarint_put_uvarint)
  have s: "go_slice b (int (length v) + int (length w))
      (int (length v) + int (length w) + int (length (rd_StartKey e))) = Ok (rd_StartKey e)"
    unfolding b_def using go_slice_middle [where pre = "v @ w" and mid = "rd_StartKey e"
        and post = "rd_EndKey e @ put_u64 (rd_SeqId e) @ rest"] by simp
  have s': "go_slice b (int (length v) + int (length w) + int (length (rd_StartKey e)))
      (int (length v) + int (length w) + int (length (rd_StartKey e)) + int (length (rd_EndKey e)))
      = Ok (rd_EndKey e)"
    unfolding b_def using go_slice_middle [where pre = "v @ w @ rd_StartKey e"
        and mid = "rd_EndKey e" and post = "put_u64 (rd_SeqId e) @ rest"]
    by (simp add: add.assoc)
  have r: "read_u64 b (length v + length w + length (rd_StartKey e) + length (rd_EndKey e))
      = Ok (rd_SeqId e)"
    unfolding b_def using read_put_u64 [of _ "v @ w @ rd_StartKey e @ rd_EndKey e"]
    by (simp add: add.assoc)
  have l: "\<not> length b < 5" unfolding b_def using v by simp
  have b: "rd_wire e @ rest = b" "length (rd_wire e)
      = length v + length w + length (rd_StartKey e) + length (rd_EndKey e) + 8"
    by (simp_all add: rd_wire_def b_def v_def w_def)
  show ?thesis
    unfolding b using v k(3) k(6) l
    by (simp add: DecodeRangeDelEntry_def u u' k make_len_key assms
        go_int_pos s s' r nat_add_distrib)
qed

interpretation rd: entry_codec rd_wire RangeDelEntry_EncodedSize RangeDelEntry_EncodeTo
  DecodeRangeDelEntry "\<lambda>e. key_ok (rd_StartKey e) \<and> key_ok (rd_EndKey e)"
  by unfold_locales
    (simp_all add: RangeDelEntry_EncodedSize_def rd_wire_def [THEN arg_cong [of _ _ length]]
      RangeDelEntry_EncodeTo_wire DecodeRangeDelEntry_wire)

section \<open>Truncated input\<close>

text \<open>
  Any proper prefix of an encoded index or TTL entry is rejected with an error: no panic, no
  entry made up from partial data.
\<close>

lemma DecodeIndexEntry_truncated:
  assumes "key_ok (ie_Key e)" "m < length (ie_wire e)"
  shows "\<exists>msg. DecodeIndexEntry (take m (ie_wire e)) = Inl (Error msg)"
proof -
  define v where "v = put_uvarint (of_nat (length (ie_Key e)))"
  note k = key_ok_facts [OF assms(1)]
  have v: "0 < length v" "length v \<le> 10"
    unfolding v_def by (simp_all add: put_uvarint_length)
  have w: "ie_wire e = v @ ie_Key e @ put_u32 (ie_BlockIndex e)" by (simp add: ie_wire_def v_def)
  show ?thesis
  proof (cases "length v \<le> m")
    case True
    then have t: "take m (ie_wire e) = v @ take (m - length v) (ie_Key e @ put_u32 (ie_BlockIndex e))"
      by (simp add: w)
    have "uvarint (take m (ie_wire e)) = (of_nat (length (ie_Key e)), int (length v))"
      unfolding t v_def by (rule uvarint_put_uvarint)
    moreover have "length (take m (ie_wire e)) = m" "m < length v + length (ie_Key e) + 4"
      using assms(2) by (simp_all add: w)
    ultimately show ?thesis
      using v k by (simp add: DecodeIndexEntry_def go_int_pos)
  next
    case False
    then have "take m (ie_wire e) = take m v" by (simp add: w)
    with False show ?thesis
      by (simp add: DecodeIndexEntry_def v_def uvarint_truncated)
  qed
qed

lemma DecodeTTLIndexEntry_truncated:
  assumes "key_ok (te_Key e)" "m < length (te_wire e)"
  shows "\<exists>msg. DecodeTTLIndexEntry (take m (te_wire e)) = Inl (Error msg)"
proof -
  define v where "v = put_uvarint (of_nat (length (te_Key e)))"
  note k = key_ok_facts [OF assms(1)]
  have v: "0 < length v" "length v \<le> 10"
    unfolding v_def by (simp_all add: put_uvarint_length)
  have w: "te_wire e = v @ te_Key e @ put_u64 (te_ExpiresAt e)" by (simp add: te_wire_def v_def)
  show ?thesis
  proof (cases "length v \<le> m")
    case True
    then have t: "take m (te_wire e) = v @ take (m - length v) (te_Key e @ put_u64 (te_ExpiresAt e))"
      by (simp add: w)
    have "uvarint (take m (te_wire e)) = (of_nat (length (te_Key e)), int (length v))"
      unfolding t v_def by (rule uvarint_put_uvarint)
    moreover have "length (take m (te_wire e)) = m" "m < length v + length (te_Key e) + 8"
      using assms(2) by (simp_all add: w)
    ultimately show ?thesis
      using v k by (simp add: DecodeTTLIndexEntry_def go_int_pos)
  next
    case False
    then have "take m (te_wire e) = take m v" by (simp add: w)
    with False show ?thesis
      by (simp add: DecodeTTLIndexEntry_def v_def uvarint_truncated)
  qed
qed

section \<open>Properties\<close>

text \<open>A truncated index entry is rejected: for every proper prefix of an encoded entry the decoder returns an error,
  it does not panic and does not make up an entry from partial data.\<close>

theorem index_entry_truncated_rejected:
  assumes "key_ok (ie_Key e)" "m < length (ie_wire e)"
  shows "EncodeIndexEntry e = Ok (ie_wire e) \<and> (\<exists>msg. DecodeIndexEntry (take m (ie_wire e)) = Inl (Error msg))"
  using DecodeIndexEntry_truncated [OF assms] ie.encode_to_wire [of e "length (ie_wire e)"] ie.size_wire [of e]
  by (simp add: EncodeIndexEntry_def)

theorem index_entry_truncated_rejected_witness:
  "\<exists>msg. DecodeIndexEntry (take 5 (ie_wire \<lparr>ie_Key = [107, 101, 121], ie_BlockIndex = 258\<rparr>)) = Inl (Error msg)"
  using index_entry_truncated_rejected [of "\<lparr>ie_Key = [107, 101, 121], ie_BlockIndex = 258\<rparr>" 5]
  by (simp add: key_ok_def max_alloc_def ie_wire_def)

text \<open>
  The tombstone decoder is not safe in that way: the encoding of the tombstone from key 97 to key 99, cut off
  inside its sequence number, makes it read past the end of the buffer.
\<close>

lemma rangedel_truncated_panics:
  "DecodeRangeDelEntry [1, 1, 97, 99, 1, 0] = Inl (Panic ''index out of range'')"
  by (simp add: DecodeRangeDelEntry_def uvarint_def make_len_def max_alloc_def go_slice_def u64_int_def
      go_int_small read_le_def)

end
