(* ===== verification/Fragmenter.thy ===== *)
theory Fragmenter
  imports Entries
begin

text \<open>
  \<^verbatim>\<open>internal/utils/fragmenter.go\<close> and \<^verbatim>\<open>range_del.go\<close>: overlapping range tombstones are cut into
  non-overlapping fragments sorted by start key, and a key is looked up in them by binary
  search. The specification is the direct one: a key version is deleted when some tombstone
  covers the key and is newer than the version.
\<close>

section \<open>Model\<close>

text \<open>The boundary keys in order of first occurrence (the \<^verbatim>\<open>seen\<close> set holds exactly them).\<close>

definition add_boundary :: "bytes list \<Rightarrow> bytes \<Rightarrow> bytes list" where
  "add_boundary boundaries k = (if k \<in> set boundaries then boundaries else boundaries @ [k])"

fun collect_boundaries :: "bytes list \<Rightarrow> RangeDelEntry list \<Rightarrow> bytes list" where
  "collect_boundaries boundaries [] = boundaries"
| "collect_boundaries boundaries (t # ts) =
     collect_boundaries (add_boundary (add_boundary boundaries (rd_StartKey t)) (rd_EndKey t)) ts"

text \<open>The largest sequence number of a tombstone whose range contains the sub-interval.\<close>

fun max_covering_seq :: "RangeDelEntry list \<Rightarrow> bytes \<Rightarrow> bytes \<Rightarrow> u64 \<Rightarrow> u64" where
  "max_covering_seq [] s e maxSeq = maxSeq"
| "max_covering_seq (t # ts) s e maxSeq =
     max_covering_seq ts s e
       (if bytes_Compare (rd_StartKey t) s \<le> 0 \<and> bytes_Compare e (rd_EndKey t) \<le> 0
           \<and> maxSeq < rd_SeqId t
        then rd_SeqId t else maxSeq)"

fun fragments_between :: "RangeDelEntry list \<Rightarrow> bytes list \<Rightarrow> RangeDelEntry list" where
  "fragments_between tombstones (s # e # bs) =
     (let maxSeq = max_covering_seq tombstones s e 0 in
      (if 0 < maxSeq then [\<lparr>rd_StartKey = s, rd_EndKey = e, rd_SeqId = maxSeq\<rparr>] else [])
      @ fragments_between tombstones (e # bs))"
| "fragments_between tombstones _ = []"

definition FragmentRangeTombstones :: "RangeDelEntry list \<Rightarrow> RangeDelEntry list" where
  "FragmentRangeTombstones tombstones =
     (if tombstones = [] then []
      else fragments_between tombstones (sort (collect_boundaries [] tombstones)))"

fun IsFragmented :: "RangeDelEntry list \<Rightarrow> bool" where
  "IsFragmented (prev # cur # es) =
     ((bytes_Compare (rd_EndKey prev) (rd_StartKey cur) \<le> 0 \<or>
       (rd_StartKey prev = rd_StartKey cur \<and> rd_EndKey prev = rd_EndKey cur))
      \<and> IsFragmented (cur # es))"
| "IsFragmented _ = True"

text \<open>
  \<^verbatim>\<open>IsCoveredByRangeTombstone\<close>: the loop finds the last fragment whose start key is at most
  the key (\<open>pos = -1\<close> if there is none).
\<close>

function covered_search :: "RangeDelEntry list \<Rightarrow> bytes \<Rightarrow> int \<Rightarrow> int \<Rightarrow> int \<Rightarrow> int" where
  "covered_search fragments key lo hi pos =
     (if lo \<le> hi then
        let mid = lo + (hi - lo) div 2 in
        if bytes_Compare (rd_StartKey (fragments ! nat mid)) key \<le> 0
        then covered_search fragments key (mid + 1) hi mid
        else covered_search fragments key lo (mid - 1) pos
      else pos)"
  by pat_completeness auto
termination
  by (relation "measure (\<lambda>(fragments, key, lo, hi, pos). nat (hi + 1 - lo))") auto

declare covered_search.simps [simp del]

definition IsCoveredByRangeTombstone :: "RangeDelEntry list \<Rightarrow> bytes \<Rightarrow> u64 \<Rightarrow> bool" where
  "IsCoveredByRangeTombstone fragments key keySeqId =
     (let n = int (length fragments) in
      if n = 0 then False
      else let pos = covered_search fragments key 0 (n - 1) (-1) in
        if pos < 0 then False
        else let f = fragments ! nat pos in
          bytes_Compare key (rd_EndKey f) < 0 \<and> keySeqId < rd_SeqId f)"

section \<open>Specification\<close>

definition covers :: "RangeDelEntry \<Rightarrow> bytes \<Rightarrow> bool" where
  "covers t key \<longleftrightarrow> rd_StartKey t \<le> key \<and> key < rd_EndKey t"

definition deleted_by :: "RangeDelEntry list \<Rightarrow> bytes \<Rightarrow> u64 \<Rightarrow> bool" where
  "deleted_by ts key seq \<longleftrightarrow> (\<exists>t \<in> set ts. covers t key \<and> seq < rd_SeqId t)"

text \<open>Sorted, non-overlapping, non-empty intervals.\<close>

fun disjoint_sorted :: "RangeDelEntry list \<Rightarrow> bool" where
  "disjoint_sorted [] = True"
| "disjoint_sorted (f # fs) =
     (rd_StartKey f < rd_EndKey f \<and> (\<forall>g \<in> set fs. rd_EndKey f \<le> rd_StartKey g) \<and> disjoint_sorted fs)"

section \<open>Correctness of fragmentation\<close>

lemma collect_boundaries_set:
  "set (collect_boundaries bs ts) = set bs \<union> rd_StartKey ` set ts \<union> rd_EndKey ` set ts"
  by (induction bs ts rule: collect_boundaries.induct) (auto simp: add_boundary_def)

lemma collect_boundaries_distinct: "distinct bs \<Longrightarrow> distinct (collect_boundaries bs ts)"
  by (induction bs ts rule: collect_boundaries.induct) (auto simp: add_boundary_def)

lemma max_covering_seq_ge: "m \<le> max_covering_seq ts s e m"
  by (induction ts s e m rule: max_covering_seq.induct) (auto split: if_splits)

lemma max_covering_seq_upper:
  "t \<in> set ts \<Longrightarrow> rd_StartKey t \<le> s \<Longrightarrow> e \<le> rd_EndKey t \<Longrightarrow> rd_SeqId t \<le> max_covering_seq ts s e m"
proof (induction ts s e m rule: max_covering_seq.induct)
  case (2 t' ts s e m)
  then show ?case
    using max_covering_seq_ge [of "if rd_StartKey t' \<le> s \<and> e \<le> rd_EndKey t' \<and> m < rd_SeqId t'
        then rd_SeqId t' else m" ts s e]
    by (auto split: if_splits)
qed simp

lemma max_covering_seq_from:
  "max_covering_seq ts s e m = m \<or>
   (\<exists>t \<in> set ts. rd_StartKey t \<le> s \<and> e \<le> rd_EndKey t \<and> rd_SeqId t = max_covering_seq ts s e m)"
  by (induction ts s e m rule: max_covering_seq.induct) (auto split: if_splits)

lemma fragments_between_start:
  "f \<in> set (fragments_between ts bs) \<Longrightarrow> rd_StartKey f \<in> set bs"
  by (induction ts bs rule: fragments_between.induct) (auto simp: Let_def split: if_splits)

lemma fragments_between_disjoint:
  "sorted bs \<Longrightarrow> distinct bs \<Longrightarrow> disjoint_sorted (fragments_between ts bs)"
proof (induction ts bs rule: fragments_between.induct)
  case (1 ts s e bs)
  have "\<forall>g \<in> set (fragments_between ts (e # bs)). e \<le> rd_StartKey g"
    using "1.prems" by (auto dest!: fragments_between_start)
  with 1 show ?case by (auto simp: Let_def less_le)
qed auto

lemma fragments_between_sound:
  "f \<in> set (fragments_between ts bs) \<Longrightarrow>
   \<exists>t \<in> set ts. rd_StartKey t \<le> rd_StartKey f \<and> rd_EndKey f \<le> rd_EndKey t \<and> rd_SeqId t = rd_SeqId f"
proof (induction ts bs rule: fragments_between.induct)
  case (1 ts s e bs)
  then show ?case
    using max_covering_seq_from [of ts s e 0] by (auto simp: Let_def split: if_splits)
qed auto

lemma fragments_between_complete:
  "t \<in> set ts \<Longrightarrow> bs \<noteq> [] \<Longrightarrow> sorted bs \<Longrightarrow> distinct bs \<Longrightarrow> hd bs \<le> key \<Longrightarrow>
   rd_StartKey t \<in> set bs \<or> rd_StartKey t \<le> hd bs \<Longrightarrow> rd_EndKey t \<in> set bs \<Longrightarrow>
   covers t key \<Longrightarrow> 0 < rd_SeqId t \<Longrightarrow>
   \<exists>f \<in> set (fragments_between ts bs). covers f key \<and> rd_SeqId t \<le> rd_SeqId f"
proof (induction ts bs rule: fragments_between.induct)
  case (1 ts s e bs)
  show ?case
  proof (cases "key < e")
    case True
    have "rd_StartKey t \<le> s" "e \<le> rd_EndKey t"
      using "1.prems" True by (auto simp: covers_def)
    then have "rd_SeqId t \<le> max_covering_seq ts s e 0"
      using "1.prems" by (intro max_covering_seq_upper) auto
    moreover from this "1.prems" have "0 < max_covering_seq ts s e 0"
      by (meson less_le_trans)
    ultimately show ?thesis
      using "1.prems" True by (simp add: Let_def covers_def)
  next
    case False
    with "1.prems" have "rd_StartKey t \<in> set (e # bs) \<or> rd_StartKey t \<le> e"
      and "rd_EndKey t \<in> set (e # bs)"
      by (auto simp: covers_def)
    with "1.prems" False "1.IH" [OF refl]
    have "\<exists>f \<in> set (fragments_between ts (e # bs)). covers f key \<and> rd_SeqId t \<le> rd_SeqId f"
      by simp
    then show ?thesis by (auto simp: Let_def)
  qed
qed (auto simp: covers_def)

lemma FragmentRangeTombstones_disjoint: "disjoint_sorted (FragmentRangeTombstones ts)"
  by (simp add: FragmentRangeTombstones_def fragments_between_disjoint collect_boundaries_distinct)

lemma FragmentRangeTombstones_deleted:
  "deleted_by (FragmentRangeTombstones ts) key seq = deleted_by ts key seq"
proof
  assume "deleted_by (FragmentRangeTombstones ts) key seq"
  then obtain f where f: "f \<in> set (FragmentRangeTombstones ts)" "covers f key" "seq < rd_SeqId f"
    by (auto simp: deleted_by_def)
  then obtain t where "t \<in> set ts" "rd_StartKey t \<le> rd_StartKey f" "rd_EndKey f \<le> rd_EndKey t"
      "rd_SeqId t = rd_SeqId f"
    by (auto simp: FragmentRangeTombstones_def split: if_splits dest!: fragments_between_sound)
  with f show "deleted_by ts key seq"
    by (auto simp: deleted_by_def covers_def intro: order_trans less_le_trans
        intro!: bexI [of _ t])
next
  assume "deleted_by ts key seq"
  then obtain t where t: "t \<in> set ts" "covers t key" "seq < rd_SeqId t"
    by (auto simp: deleted_by_def)
  define bs where "bs = sort (collect_boundaries [] ts)"
  have bs: "sorted bs" "distinct bs" "rd_StartKey t \<in> set bs" "rd_EndKey t \<in> set bs"
    using t(1) by (auto simp: bs_def collect_boundaries_set collect_boundaries_distinct)
  then have "bs \<noteq> []" "hd bs \<le> rd_StartKey t"
    by (cases bs; auto)+
  with bs t have "\<exists>f \<in> set (fragments_between ts bs). covers f key \<and> rd_SeqId t \<le> rd_SeqId f"
    by (intro fragments_between_complete) (auto simp: covers_def word_gt_0)
  with t show "deleted_by (FragmentRangeTombstones ts) key seq"
    by (fastforce simp: deleted_by_def FragmentRangeTombstones_def bs_def)
qed

lemma disjoint_sorted_IsFragmented: "disjoint_sorted fs \<Longrightarrow> IsFragmented fs"
  by (induction fs rule: IsFragmented.induct) auto

section \<open>Correctness of the lookup\<close>

lemma disjoint_sorted_starts: "disjoint_sorted fs \<Longrightarrow> sorted (map rd_StartKey fs)"
  by (induction fs) force+

lemma disjoint_sorted_nth:
  "disjoint_sorted fs \<Longrightarrow> i < j \<Longrightarrow> j < length fs \<Longrightarrow> rd_EndKey (fs ! i) \<le> rd_StartKey (fs ! j)"
proof (induction fs arbitrary: i j)
  case (Cons f fs)
  then show ?case by (cases i; cases j) auto
qed simp

lemma covered_search_partition:
  "pos = lo - 1 \<Longrightarrow>
   covered_search fs key lo hi pos = partition_search (\<lambda>i. rd_StartKey (fs ! i) \<le> key) lo hi - 1"
proof (induction fs key lo hi pos rule: covered_search.induct)
  case (1 fs key lo hi pos)
  show ?case
    by (subst covered_search.simps, subst partition_search.simps) (use 1 in \<open>simp add: Let_def\<close>)
qed

lemma IsCoveredByRangeTombstone_iff:
  assumes "disjoint_sorted fs"
  shows "IsCoveredByRangeTombstone fs key seq = deleted_by fs key seq"
proof (cases "fs = []")
  case True
  then show ?thesis by (simp add: IsCoveredByRangeTombstone_def deleted_by_def)
next
  case False
  define p where "p = covered_search fs key 0 (int (length fs) - 1) (-1)"
  have dc: "down_closed (\<lambda>i. rd_StartKey (fs ! i) \<le> key) (length fs)"
    using down_closed_sorted(1) [OF disjoint_sorted_starts [OF assms], of key]
    unfolding length_map by (rule down_closed_cong) simp
  note q = partition_search_all [OF dc]
  have pq: "p = partition_search (\<lambda>i. rd_StartKey (fs ! i) \<le> key) 0 (int (length fs) - 1) - 1"
    unfolding p_def by (rule covered_search_partition) simp
  have p: "-1 \<le> p" "p < int (length fs)" using q(1,2) pq by linarith+
  have p3: "rd_StartKey (fs ! i) \<le> key \<longleftrightarrow> int i \<le> p" if "i < length fs" for i
    unfolding q(3) [OF that] pq by linarith
  have earlier: "int i = p" if "key < rd_EndKey (fs ! i)" "int i \<le> p" for i
  proof (rule ccontr)
    assume "int i \<noteq> p"
    with that p(2) have "i < nat p" "nat p < length fs" by auto
    then have "rd_EndKey (fs ! i) \<le> rd_StartKey (fs ! nat p)" "rd_StartKey (fs ! nat p) \<le> key"
      using disjoint_sorted_nth [OF assms] p3 [of "nat p"] by auto
    with that show False by simp
  qed
  have "deleted_by fs key seq \<longleftrightarrow>
      0 \<le> p \<and> key < rd_EndKey (fs ! nat p) \<and> seq < rd_SeqId (fs ! nat p)" (is "_ = ?r")
  proof
    assume "deleted_by fs key seq"
    then obtain i where "i < length fs" "covers (fs ! i) key" "seq < rd_SeqId (fs ! i)"
      by (auto simp: deleted_by_def in_set_conv_nth)
    with p3 [of i] earlier [of i] show ?r by (auto simp: covers_def)
  next
    assume ?r
    with p(2) p3 [of "nat p"] show "deleted_by fs key seq"
      by (auto simp: deleted_by_def covers_def intro!: bexI [of _ "fs ! nat p"])
  qed
  with False show ?thesis
    by (auto simp: IsCoveredByRangeTombstone_def Let_def p_def)
qed

section \<open>Properties\<close>

text \<open>C25: Fragmentation of range tombstones is faithful. For any tombstones, overlapping or empty, the fragments are sorted,
  non-empty and disjoint, and the binary search over them says that a key version is deleted
  exactly when one of the original tombstones covers the key with a higher sequence number.\<close>

theorem fragments_lookup:
  "disjoint_sorted (FragmentRangeTombstones ts) \<and> IsFragmented (FragmentRangeTombstones ts) \<and>
   IsCoveredByRangeTombstone (FragmentRangeTombstones ts) key seq = deleted_by ts key seq"
  by (simp add: FragmentRangeTombstones_disjoint disjoint_sorted_IsFragmented IsCoveredByRangeTombstone_iff
      FragmentRangeTombstones_deleted)

text \<open>
  The example in the comment on \<^verbatim>\<open>FragmentRangeTombstones\<close> lists two fragments for the overlap of two
  tombstones; the function keeps the newer one only.
\<close>

lemma fragments_overlap_example:
  "FragmentRangeTombstones
     [\<lparr>rd_StartKey = [97], rd_EndKey = [100], rd_SeqId = 4\<rparr>, \<lparr>rd_StartKey = [99], rd_EndKey = [103], rd_SeqId = 10\<rparr>]
   = [\<lparr>rd_StartKey = [97], rd_EndKey = [99], rd_SeqId = 4\<rparr>, \<lparr>rd_StartKey = [99], rd_EndKey = [100], rd_SeqId = 10\<rparr>,
      \<lparr>rd_StartKey = [100], rd_EndKey = [103], rd_SeqId = 10\<rparr>]"
  by code_simp

end
