(* ===== verification/Index_Blocks.thy ===== *)
theory Index_Blocks
  imports Fragmenter
begin

text \<open>
  \<^verbatim>\<open>internal/sstable/index.go\<close>, \<^verbatim>\<open>ttl_index.go\<close> and \<^verbatim>\<open>rangedel_index.go\<close>: blocks of entries with
  a count in front and a CRC-32 in the last four bytes, the segments that collect blocks, and
  the binary searches over them. The three block types of the source differ in their entry
  type only, so the loops are written once over the entry type's \<^verbatim>\<open>EncodeTo\<close> and decoder and
  instantiated three times.
\<close>

section \<open>Blocks\<close>

record 'e entry_block =
  blk_Entries :: "'e list"
  blk_RealSize :: u32

type_synonym IndexBlock = "IndexEntry entry_block"
type_synonym TTLIndexBlock = "TTLEntry entry_block"
type_synonym RangeDelIndexBlock = "RangeDelEntry entry_block"

definition new_block :: "'e entry_block" where
  "new_block = \<lparr>blk_Entries = [], blk_RealSize = 4\<rparr>"

definition add_entry :: "('e \<Rightarrow> nat) \<Rightarrow> 'e entry_block \<Rightarrow> 'e \<Rightarrow> 'e entry_block" where
  "add_entry encoded_size block entry =
     block\<lparr>blk_Entries := blk_Entries block @ [entry],
           blk_RealSize := blk_RealSize block + of_nat (encoded_size entry)\<rparr>"

text \<open>The loop that writes the entries one after the other with \<^verbatim>\<open>EncodeTo(buf[pos:])\<close>.\<close>

fun write_entries ::
  "('e \<Rightarrow> bytes \<Rightarrow> (bytes \<times> nat) result) \<Rightarrow> 'e list \<Rightarrow> bytes \<Rightarrow> nat \<Rightarrow> (bytes \<times> nat) result" where
  "write_entries encode_to [] buf pos = Ok (buf, pos)"
| "write_entries encode_to (e # es) buf pos =
     (if pos \<le> length buf then
        bind_r (encode_to e (drop pos buf)) (\<lambda>(tail, n).
          write_entries encode_to es (take pos buf @ tail) (pos + n))
      else Inl (Panic ''slice bounds out of range''))"

definition encode_block ::
  "('e \<Rightarrow> bytes \<Rightarrow> (bytes \<times> nat) result) \<Rightarrow> 'e entry_block \<Rightarrow> u64 \<Rightarrow> bytes result" where
  "encode_block encode_to block maxBlockSize =
     bind_r (make_len maxBlockSize) (\<lambda>buf.
     bind_r (put_at buf 0 (put_u32 (of_nat (length (blk_Entries block))))) (\<lambda>buf.
     bind_r (write_entries encode_to (blk_Entries block) buf 4) (\<lambda>(buf, pos).
     let crcPos = maxBlockSize - 4 in
     bind_r (go_slice buf 0 (uint crcPos)) (\<lambda>pre.
     put_at buf (unat crcPos) (put_u32 (crc32_ChecksumIEEE pre))))))"

fun read_entries :: "(bytes \<Rightarrow> ('e \<times> nat) result) \<Rightarrow> nat \<Rightarrow> bytes \<Rightarrow> nat \<Rightarrow> 'e list result" where
  "read_entries decode 0 buf pos = Ok []"
| "read_entries decode (Suc k) buf pos =
     (if pos \<le> length buf then
        bind_r (decode (drop pos buf)) (\<lambda>(entry, n).
          bind_r (read_entries decode k buf (pos + n)) (\<lambda>entries. Ok (entry # entries)))
      else Inl (Panic ''slice bounds out of range''))"

definition decode_block :: "(bytes \<Rightarrow> ('e \<times> nat) result) \<Rightarrow> bytes \<Rightarrow> 'e entry_block result" where
  "decode_block decode buf =
     bind_r (read_u32 buf 0) (\<lambda>numEntries.
     if numEntries = 0 then Ok \<lparr>blk_Entries = [], blk_RealSize = 0\<rparr>
     else bind_r (read_entries decode (unat numEntries) buf 4) (\<lambda>entries.
       Ok \<lparr>blk_Entries = entries, blk_RealSize = 0\<rparr>))"

subsection \<open>The three block types\<close>

definition NewIndexBlock :: IndexBlock where
  "NewIndexBlock = new_block"
definition IndexBlock_AddEntry :: "IndexBlock \<Rightarrow> IndexEntry \<Rightarrow> IndexBlock" where
  "IndexBlock_AddEntry = add_entry IndexEntry_EncodedSize"
definition EncodeIndexBlock :: "IndexBlock \<Rightarrow> u64 \<Rightarrow> bytes result" where
  "EncodeIndexBlock = encode_block IndexEntry_EncodeTo"
definition DecodeIndexBlock :: "bytes \<Rightarrow> IndexBlock result" where
  "DecodeIndexBlock = decode_block DecodeIndexEntry"

text \<open>
  \<^verbatim>\<open>AddFromDataBlock\<close> takes the first key of a data block builder (\<^verbatim>\<open>nil\<close> or empty when the
  builder holds nothing).
\<close>

definition IndexBlock_AddFromDataBlock :: "IndexBlock \<Rightarrow> bytes option \<Rightarrow> u32 \<Rightarrow> IndexBlock" where
  "IndexBlock_AddFromDataBlock block firstKey blockIdx =
     (case firstKey of
        None \<Rightarrow> block
      | Some k \<Rightarrow> if k = [] then block
          else IndexBlock_AddEntry block \<lparr>ie_Key = k, ie_BlockIndex = blockIdx\<rparr>)"

definition NewTTLIndexBlock :: TTLIndexBlock where
  "NewTTLIndexBlock = new_block"
definition TTLIndexBlock_Add :: "TTLIndexBlock \<Rightarrow> TTLEntry \<Rightarrow> TTLIndexBlock" where
  "TTLIndexBlock_Add = add_entry TTLEntry_EncodedSize"
definition TTLIndexBlock_Encode :: "TTLIndexBlock \<Rightarrow> u64 \<Rightarrow> bytes result" where
  "TTLIndexBlock_Encode = encode_block TTLEntry_EncodeTo"
definition DecodeTTLIndexBlock :: "bytes \<Rightarrow> TTLIndexBlock result" where
  "DecodeTTLIndexBlock = decode_block DecodeTTLIndexEntry"

definition NewRangeDelIndexBlock :: RangeDelIndexBlock where
  "NewRangeDelIndexBlock = new_block"
definition RangeDelIndexBlock_Add :: "RangeDelIndexBlock \<Rightarrow> RangeDelEntry \<Rightarrow> RangeDelIndexBlock" where
  "RangeDelIndexBlock_Add = add_entry RangeDelEntry_EncodedSize"
definition RangeDelIndexBlock_Encode :: "RangeDelIndexBlock \<Rightarrow> u64 \<Rightarrow> bytes result" where
  "RangeDelIndexBlock_Encode = encode_block RangeDelEntry_EncodeTo"
definition DecodeRangeDelIndexBlock :: "bytes \<Rightarrow> RangeDelIndexBlock result" where
  "DecodeRangeDelIndexBlock = decode_block DecodeRangeDelEntry"

subsection \<open>Searching an index block\<close>

function find_block_loop :: "IndexEntry list \<Rightarrow> bytes \<Rightarrow> int \<Rightarrow> int \<Rightarrow> int \<Rightarrow> int" where
  "find_block_loop entries key left right res =
     (if left \<le> right then
        let mid = left + (right - left) div 2;
            cmp = bytes_Compare key (ie_Key (entries ! nat mid)) in
        if cmp < 0 then find_block_loop entries key left (mid - 1) res
        else if cmp = 0 then mid
        else find_block_loop entries key (mid + 1) right mid
      else res)"
  by pat_completeness auto
termination
  by (relation "measure (\<lambda>(entries, key, left, right, res). nat (right + 1 - left))") auto

declare find_block_loop.simps [simp del]

definition FindBlock :: "IndexBlock \<Rightarrow> bytes \<Rightarrow> int" where
  "FindBlock block key =
     (let entries = blk_Entries block in
      if entries = [] then -1
      else if bytes_Compare key (ie_Key (entries ! 0)) < 0 then 0
      else let lastIdx = length entries - 1 in
        if 0 < bytes_Compare key (ie_Key (entries ! lastIdx)) then int lastIdx
        else find_block_loop entries key 0 (int lastIdx) (-1))"

subsection \<open>Searching a tombstone block\<close>

text \<open>The first loop finds the first entry that starts after the key.\<close>

function upper_start_loop :: "RangeDelEntry list \<Rightarrow> bytes \<Rightarrow> int \<Rightarrow> int \<Rightarrow> int \<Rightarrow> int" where
  "upper_start_loop entries key left right pos =
     (if left \<le> right then
        let mid = left + (right - left) div 2 in
        if 0 < bytes_Compare (rd_StartKey (entries ! nat mid)) key
        then upper_start_loop entries key left (mid - 1) mid
        else upper_start_loop entries key (mid + 1) right pos
      else pos)"
  by pat_completeness auto
termination
  by (relation "measure (\<lambda>(entries, key, left, right, pos). nat (right + 1 - left))") auto

declare upper_start_loop.simps [simp del]

text \<open>The second loop walks back from there and stops at the first entry that ends at or before the key.\<close>

fun covering_back_loop :: "RangeDelEntry list \<Rightarrow> bytes \<Rightarrow> u64 \<Rightarrow> nat \<Rightarrow> u64 \<Rightarrow> u64" where
  "covering_back_loop entries key seqId 0 maxSeq = maxSeq"
| "covering_back_loop entries key seqId (Suc i) maxSeq =
     (let e = entries ! i in
      if bytes_Compare (rd_EndKey e) key \<le> 0 then maxSeq
      else covering_back_loop entries key seqId i
        (if seqId < rd_SeqId e \<and> maxSeq < rd_SeqId e then rd_SeqId e else maxSeq))"

definition MaxCoveringRange :: "RangeDelIndexBlock \<Rightarrow> bytes \<Rightarrow> u64 \<Rightarrow> u64" where
  "MaxCoveringRange block key seqId =
     (let entries = blk_Entries block; n = int (length entries) in
      if n = 0 then 0
      else let pos = upper_start_loop entries key 0 (n - 1) n in
        covering_back_loop entries key seqId (nat pos) 0)"

section \<open>Segments\<close>

record IndexSegment =
  is_Blocks :: "IndexBlock list"
  is_BlockOffsets :: "u32 list"
  is_IndexBlockSize :: u64

record TTLIndexSegment =
  ts_Blocks :: "TTLIndexBlock list"
  ts_TTLIndexBlockSize :: u64

record RangeDelIndexSegment =
  rs_Blocks :: "RangeDelIndexBlock list"
  rs_FirstKeys :: "bytes list"
  rs_RangeDelIndexBlockSize :: u64

definition NewIndexSegment :: "u64 \<Rightarrow> IndexSegment" where
  "NewIndexSegment sz = \<lparr>is_Blocks = [], is_BlockOffsets = [], is_IndexBlockSize = sz\<rparr>"
definition NewTTLIndexSegment :: "u64 \<Rightarrow> TTLIndexSegment" where
  "NewTTLIndexSegment sz = \<lparr>ts_Blocks = [], ts_TTLIndexBlockSize = sz\<rparr>"
definition NewRangeDelIndexSegment :: "u64 \<Rightarrow> RangeDelIndexSegment" where
  "NewRangeDelIndexSegment sz =
     \<lparr>rs_Blocks = [], rs_FirstKeys = [], rs_RangeDelIndexBlockSize = sz\<rparr>"

text \<open>
  \<^verbatim>\<open>AddEntryToBlock\<close>: a new block is opened when there is none or the last one already holds
  \<open>blockSize\<close> entries; then the entry goes into the last block.
\<close>

definition add_to_last :: "('e \<Rightarrow> nat) \<Rightarrow> 'e entry_block list \<Rightarrow> 'e \<Rightarrow> int \<Rightarrow> 'e entry_block list" where
  "add_to_last encoded_size blocks entry blockSize =
     (let blocks = (if blocks = [] \<or> blockSize \<le> int (length (blk_Entries (last blocks)))
                    then blocks @ [new_block] else blocks)
      in butlast blocks @ [add_entry encoded_size (last blocks) entry])"

definition IndexSegment_AddBlock :: "IndexSegment \<Rightarrow> IndexBlock \<Rightarrow> IndexSegment" where
  "IndexSegment_AddBlock seg block = seg\<lparr>is_Blocks := is_Blocks seg @ [block]\<rparr>"
definition TTLIndexSegment_Add :: "TTLIndexSegment \<Rightarrow> TTLIndexBlock \<Rightarrow> TTLIndexSegment" where
  "TTLIndexSegment_Add seg block = seg\<lparr>ts_Blocks := ts_Blocks seg @ [block]\<rparr>"
definition RangeDelIndexSegment_Add ::
  "RangeDelIndexSegment \<Rightarrow> RangeDelIndexBlock \<Rightarrow> RangeDelIndexSegment" where
  "RangeDelIndexSegment_Add seg block = seg\<lparr>rs_Blocks := rs_Blocks seg @ [block]\<rparr>"

definition IndexSegment_AddEntryToBlock :: "IndexSegment \<Rightarrow> IndexEntry \<Rightarrow> int \<Rightarrow> IndexSegment" where
  "IndexSegment_AddEntryToBlock seg entry blockSize =
     seg\<lparr>is_Blocks := add_to_last IndexEntry_EncodedSize (is_Blocks seg) entry blockSize\<rparr>"
definition TTLIndexSegment_AddEntryToBlock :: "TTLIndexSegment \<Rightarrow> TTLEntry \<Rightarrow> int \<Rightarrow> TTLIndexSegment" where
  "TTLIndexSegment_AddEntryToBlock seg entry blockSize =
     seg\<lparr>ts_Blocks := add_to_last TTLEntry_EncodedSize (ts_Blocks seg) entry blockSize\<rparr>"
definition RangeDelIndexSegment_AddEntryToBlock ::
  "RangeDelIndexSegment \<Rightarrow> RangeDelEntry \<Rightarrow> int \<Rightarrow> RangeDelIndexSegment" where
  "RangeDelIndexSegment_AddEntryToBlock seg entry blockSize =
     (let blocks = add_to_last RangeDelEntry_EncodedSize (rs_Blocks seg) entry blockSize
      in seg\<lparr>rs_Blocks := blocks,
             rs_FirstKeys := (if length (blk_Entries (last blocks)) = 1
               then rs_FirstKeys seg @ [rd_StartKey entry] else rs_FirstKeys seg)\<rparr>)"

definition IndexSegment_GetBlockSizes :: "IndexSegment \<Rightarrow> u32 list" where
  "IndexSegment_GetBlockSizes seg = map blk_RealSize (is_Blocks seg)"
definition TTLIndexSegment_GetBlockSizes :: "TTLIndexSegment \<Rightarrow> u32 list" where
  "TTLIndexSegment_GetBlockSizes seg = map blk_RealSize (ts_Blocks seg)"
definition RangeDelIndexSegment_GetBlockSizes :: "RangeDelIndexSegment \<Rightarrow> u32 list" where
  "RangeDelIndexSegment_GetBlockSizes seg = map blk_RealSize (rs_Blocks seg)"

text \<open>\<^verbatim>\<open>FindBlockIndex\<close> returns the loop's final \<open>right\<close>.\<close>

function first_key_loop :: "bytes list \<Rightarrow> bytes \<Rightarrow> int \<Rightarrow> int \<Rightarrow> int" where
  "first_key_loop firstKeys key left right =
     (if left \<le> right then
        let mid = left + (right - left) div 2 in
        if bytes_Compare (firstKeys ! nat mid) key \<le> 0
        then first_key_loop firstKeys key (mid + 1) right
        else first_key_loop firstKeys key left (mid - 1)
      else right)"
  by pat_completeness auto
termination
  by (relation "measure (\<lambda>(firstKeys, key, left, right). nat (right + 1 - left))") auto

declare first_key_loop.simps [simp del]

definition FindBlockIndex :: "RangeDelIndexSegment \<Rightarrow> bytes \<Rightarrow> int" where
  "FindBlockIndex seg key =
     (let n = int (length (rs_FirstKeys seg)) in
      if n = 0 then -1
      else let right = first_key_loop (rs_FirstKeys seg) key 0 (n - 1) in
        if right < 0 then -1 else right)"

definition MaxCoveringSeqId :: "RangeDelIndexSegment \<Rightarrow> bytes \<Rightarrow> u64 \<Rightarrow> u64" where
  "MaxCoveringSeqId seg key seqId =
     (let idx = FindBlockIndex seg key in
      if idx < 0 \<or> int (length (rs_Blocks seg)) \<le> idx then 0
      else let maxSeq = MaxCoveringRange (rs_Blocks seg ! nat idx) key seqId in
        if 0 < idx then
          let seq = MaxCoveringRange (rs_Blocks seg ! nat (idx - 1)) key seqId in
          if maxSeq < seq then seq else maxSeq
        else maxSeq)"

section \<open>Encoding and decoding a block\<close>

lemma write_entries_length:
  assumes "\<And>e buf buf' k. encode_to e buf = Ok (buf', k) \<Longrightarrow> length buf' = length buf"
  shows "write_entries encode_to es buf pos = Ok (buf', q) \<Longrightarrow> length buf' = length buf"
proof (induction es arbitrary: buf pos)
  case (Cons e es)
  then obtain rest k where r: "pos \<le> length buf" "encode_to e (drop pos buf) = Ok (rest, k)"
    "write_entries encode_to es (take pos buf @ rest) (pos + k) = Ok (buf', q)"
    by (auto split: if_splits)
  from Cons.IH [OF r(3)] assms [OF r(2)] r(1) show ?case by simp
qed simp

text \<open>A block takes exactly the size asked for, whatever is in it.\<close>

lemma encode_block_length:
  assumes "\<And>e buf buf' k. encode_to e buf = Ok (buf', k) \<Longrightarrow> length buf' = length buf"
    and "encode_block encode_to b sz = Ok data"
  shows "length data = unat sz"
proof -
  from assms(2) obtain buf pos where b: "write_entries encode_to (blk_Entries b)
      (overlay (make_bytes (unat sz)) 0 (put_u32 (of_nat (length (blk_Entries b))))) 4 = Ok (buf, pos)" and d: "length data = length buf"
    by (auto simp: encode_block_def make_len_def put_at_def Let_def split: if_splits)
  from write_entries_length [OF assms(1) b] d show ?thesis by simp
qed

lemma EncodeTo_length:
  "IndexEntry_EncodeTo ie buf = Ok (buf', k) \<Longrightarrow> length buf' = length buf"
  "TTLEntry_EncodeTo te buf = Ok (buf', k) \<Longrightarrow> length buf' = length buf"
  "RangeDelEntry_EncodeTo re buf = Ok (buf', k) \<Longrightarrow> length buf' = length buf"
  by (auto simp: IndexEntry_EncodeTo_def TTLEntry_EncodeTo_def RangeDelEntry_EncodeTo_def put_at_def copy_at_def Let_def split: if_splits)

lemma encoded_lengths:
  "EncodeIndexBlock ib sz = Ok data \<Longrightarrow> length data = unat sz"
  "TTLIndexBlock_Encode tb sz = Ok data \<Longrightarrow> length data = unat sz"
  "RangeDelIndexBlock_Encode rb sz = Ok data \<Longrightarrow> length data = unat sz"
proof -
  show "length data = unat sz" if "EncodeIndexBlock ib sz = Ok data"
    by (rule encode_block_length [OF _ that [unfolded EncodeIndexBlock_def]]) (rule EncodeTo_length(1))
  show "length data = unat sz" if "TTLIndexBlock_Encode tb sz = Ok data"
    by (rule encode_block_length [OF _ that [unfolded TTLIndexBlock_Encode_def]]) (rule EncodeTo_length(2))
  show "length data = unat sz" if "RangeDelIndexBlock_Encode rb sz = Ok data"
    by (rule encode_block_length [OF _ that [unfolded RangeDelIndexBlock_Encode_def]]) (rule EncodeTo_length(3))
qed

context entry_codec
begin

definition wires :: "'e list \<Rightarrow> bytes" where
  "wires es = concat (map wire es)"

lemma wires_simps [simp]: "wires [] = []" "wires (e # es) = wire e @ wires es"
  by (simp_all add: wires_def)

lemma write_entries_wires:
  "length (wires es) \<le> n \<Longrightarrow> p = length pre \<Longrightarrow>
   write_entries encode_to es (pre @ make_bytes n) p
     = Ok (pre @ wires es @ make_bytes (n - length (wires es)), p + length (wires es))"
proof (induction es arbitrary: pre n p)
  case Nil
  then show ?case by simp
next
  case (Cons e es)
  then have "length (wires es) \<le> n - length (wire e)" "length (wire e) \<le> n" by auto
  with Cons.IH [of "n - length (wire e)" "p + length (wire e)" "pre @ wire e"] Cons.prems
  show ?case by (simp add: encode_to_wire add.assoc)
qed

lemma read_entries_wires:
  "list_all wf es \<Longrightarrow> p = length pre \<Longrightarrow>
   read_entries decode (length es) (pre @ wires es @ post) p = Ok es"
proof (induction es arbitrary: pre p)
  case Nil
  then show ?case by simp
next
  case (Cons e es)
  with Cons.IH [of "p + length (wire e)" "pre @ wire e"] show ?case
    by (simp add: decode_wire)
qed

lemma encode_block_layout:
  assumes "unat sz < max_alloc" "length (wires es) + 8 \<le> unat sz"
  defines "body \<equiv> put_u32 (of_nat (length es)) @ wires es @ make_bytes (unat sz - length (wires es) - 8)"
  shows "encode_block encode_to \<lparr>blk_Entries = es, blk_RealSize = r\<rparr> sz
    = Ok (body @ put_u32 (crc32_ChecksumIEEE body))"
proof -
  let ?b = "put_u32 (of_nat (length es)) @ wires es @ make_bytes (unat sz - length (wires es) - 4)"
  have crc: "unat (sz - 4) = unat sz - 4"
    using assms(2) by (simp add: unat_sub word_le_nat_alt)
  have "make_bytes (unat sz - length (wires es) - 4)
      = make_bytes (unat sz - length (wires es) - 8) @ make_bytes 4"
  proof -
    have "unat sz - length (wires es) - 4 = (unat sz - length (wires es) - 8) + 4"
      using assms(2) by simp
    then show ?thesis by (simp only: make_bytes_def replicate_add)
  qed
  then have b: "?b = body @ make_bytes 4" by (simp add: body_def)
  have len: "length body = unat sz - 4" using assms(2) by (simp add: body_def)
  have ui: "uint (sz - 4) = int (length body)"
    by (simp only: uint_nat crc len)
  have "put_at (make_bytes (unat sz)) 0 (put_u32 (of_nat (length es)))
      = Ok (put_u32 (of_nat (length es)) @ make_bytes (unat sz - 4))"
    using assms(2) by (simp add: put_at_0)
  moreover have "write_entries encode_to es
      (put_u32 (of_nat (length es)) @ make_bytes (unat sz - 4)) 4 = Ok (body @ make_bytes 4, 4 + length (wires es))"
  proof -
    have 1: "length (wires es) \<le> unat sz - 4" using assms(2) by simp
    have 2: "4 = length (put_u32 (of_nat (length es)))" by simp
    have 3: "unat sz - 4 - length (wires es) = unat sz - length (wires es) - 4" by (rule diff_commute)
    show ?thesis using write_entries_wires [OF 1 2, unfolded 3] by (simp only: b)
  qed
  moreover have "go_slice (body @ make_bytes 4) 0 (int (length body)) = Ok body"
    using go_slice_middle [of 0 "[]" _ body] by simp
  moreover have "put_at (body @ make_bytes 4) (length body) c = Ok (body @ c)" if "length c = 4" for c
    using that by (simp add: put_at_append)
  ultimately show ?thesis
    using assms(1) by (simp add: encode_block_def make_len_def ui crc len [symmetric])
qed

lemma decode_block_layout:
  assumes "list_all wf es" "length es < 2 ^ 32"
  shows "decode_block decode (put_u32 (of_nat (length es)) @ wires es @ post)
    = Ok \<lparr>blk_Entries = es, blk_RealSize = 0\<rparr>"
proof -
  have n: "unat (of_nat (length es) :: u32) = length es"
    using assms(2) by (simp add: unsigned_of_nat take_bit_nat_eq_self)
  then have "(of_nat (length es) :: u32) = 0 \<longleftrightarrow> es = []"
    by (metis length_0_conv unat_0 word_unat_eq_iff)
  then show ?thesis
    using read_put_u32 [of 0 "[]" "of_nat (length es)" "wires es @ post"]
      read_entries_wires [OF assms(1), of 4 "put_u32 (of_nat (length es))" post]
    by (cases "es = []") (simp_all add: decode_block_def n)
qed

text \<open>
  A block whose entries and CRC fit into its size is read back unchanged, and its last four
  bytes are the checksum of the rest.
\<close>

lemma block_roundtrip:
  assumes "list_all wf (blk_Entries b)" "length (blk_Entries b) < 2 ^ 32" "unat sz < max_alloc"
    and "sum_list (map encoded_size (blk_Entries b)) + 8 \<le> unat sz"
  shows "\<exists>buf body. encode_block encode_to b sz = Ok buf \<and> length buf = unat sz \<and>
    buf = body @ put_u32 (crc32_ChecksumIEEE body) \<and>
    decode_block decode buf = Ok (b\<lparr>blk_RealSize := 0\<rparr>)"
proof -
  have "length (wires (blk_Entries b)) + 8 \<le> unat sz"
    using assms(4) by (simp add: wires_def length_concat comp_def flip: size_wire)
  then obtain body where "body = put_u32 (of_nat (length (blk_Entries b))) @ wires (blk_Entries b) @
      make_bytes (unat sz - length (wires (blk_Entries b)) - 8)" "length body + 4 = unat sz"
    by simp
  moreover from this have "encode_block encode_to b sz = Ok (body @ put_u32 (crc32_ChecksumIEEE body))"
    using encode_block_layout [OF assms(3), of "blk_Entries b" "blk_RealSize b"]
      \<open>length (wires (blk_Entries b)) + 8 \<le> unat sz\<close> by (cases b) simp
  moreover from calculation
  have "decode_block decode (body @ put_u32 (crc32_ChecksumIEEE body)) = Ok (b\<lparr>blk_RealSize := 0\<rparr>)"
    using decode_block_layout [OF assms(1,2)] by (cases b) simp
  ultimately show ?thesis by (intro exI [of _ "body @ put_u32 (crc32_ChecksumIEEE body)"] exI [of _ body]) simp
qed

end

text \<open>\<^verbatim>\<open>RealSize\<close> counts the bytes in front of the padding, as long as it does not wrap.\<close>

lemma foldl_add_entry:
  "foldl (add_entry sz) b es =
     b\<lparr>blk_Entries := blk_Entries b @ es, blk_RealSize := blk_RealSize b + of_nat (sum_list (map sz es))\<rparr>"
  by (induction es arbitrary: b) (simp_all add: add_entry_def)

section \<open>Correctness of the searches\<close>

lemma find_block_loop_result:
  assumes "sorted_wrt (<) (map ie_Key es)" "0 \<le> lo" "hi < int (length es)" "lo \<le> hi + 1" "res = lo - 1"
    and "\<forall>i < length es. int i < lo \<longrightarrow> ie_Key (es ! i) \<le> key"
    and "\<forall>i < length es. hi < int i \<longrightarrow> \<not> ie_Key (es ! i) \<le> key"
  shows "find_block_loop es key lo hi res < int (length es) \<and>
    (\<forall>i < length es. ie_Key (es ! i) \<le> key \<longleftrightarrow> int i \<le> find_block_loop es key lo hi res)"
  using assms
proof (induction es key lo hi res rule: find_block_loop.induct)
  case (1 es key lo hi res)
  define mid where "mid = lo + (hi - lo) div 2"
  have strict: "i < j \<Longrightarrow> j < length es \<Longrightarrow> ie_Key (es ! i) < ie_Key (es ! j)" for i j
    using sorted_wrt_nth_less [OF "1.prems"(1), of i j] by simp
  show ?case
  proof (cases "lo \<le> hi")
    case True
    then have mid: "lo \<le> mid" "mid \<le> hi" by (auto simp: mid_def)
    with "1.prems" have nm: "nat mid < length es" "0 \<le> mid" by auto
    have left: "ie_Key (es ! i) \<le> ie_Key (es ! nat mid)" if "int i \<le> mid" for i
      using that nm strict [of i "nat mid"] by (cases "int i = mid") (auto intro: order_less_imp_le)
    have right: "ie_Key (es ! nat mid) \<le> ie_Key (es ! i)" if "mid \<le> int i" "i < length es" for i
      using that nm strict [of "nat mid" i] by (cases "int i = mid") (auto intro: order_less_imp_le)
    have unfold: "find_block_loop es key lo hi res =
        (if key < ie_Key (es ! nat mid) then find_block_loop es key lo (mid - 1) res
         else if key = ie_Key (es ! nat mid) then mid
         else find_block_loop es key (mid + 1) hi mid)"
      using True by (subst find_block_loop.simps) (simp add: mid_def [symmetric])
    consider (lt) "key < ie_Key (es ! nat mid)" | (eq) "key = ie_Key (es ! nat mid)"
      | (gt) "ie_Key (es ! nat mid) < key"
      by (meson linorder_less_linear)
    then show ?thesis
    proof cases
      case lt
      have "\<not> ie_Key (es ! i) \<le> key" if "i < length es" "mid - 1 < int i" for i
        using lt right [of i] that by simp
      moreover have "find_block_loop es key lo hi res = find_block_loop es key lo (mid - 1) res"
        using lt unfold by simp
      ultimately show ?thesis
        by (simp only:) (rule "1.IH"(1) [OF True mid_def refl], use "1.prems" mid lt in simp_all)
    next
      case eq
      have "ie_Key (es ! i) \<le> key \<longleftrightarrow> int i \<le> mid" if "i < length es" for i
        using eq left [of i] strict [of "nat mid" i] that nm by fastforce
      with eq nm show ?thesis unfolding unfold by simp
    next
      case gt
      have "ie_Key (es ! i) \<le> key" if "i < length es" "int i < mid + 1" for i
        using gt left [of i] that by simp
      moreover have "find_block_loop es key lo hi res = find_block_loop es key (mid + 1) hi mid"
        using gt unfold by auto
      ultimately show ?thesis
        by (simp only:) (rule "1.IH"(2) [OF True mid_def refl], use "1.prems" mid gt in simp_all)
    qed
  next
    case False
    then have "find_block_loop es key lo hi res = lo - 1"
      using "1.prems"(5) by (subst find_block_loop.simps) simp
    moreover have "hi = lo - 1" using False "1.prems"(4) by simp
    ultimately show ?thesis
      using "1.prems" by (simp, meson linorder_not_less zle_diff1_eq)
  qed
qed

text \<open>The range of keys of data block \<open>i\<close>: from its first key up to the next block's first key.\<close>

definition in_data_block :: "IndexEntry list \<Rightarrow> nat \<Rightarrow> bytes \<Rightarrow> bool" where
  "in_data_block es i key \<longleftrightarrow> i < length es \<and> ie_Key (es ! i) \<le> key \<and>
     (Suc i < length es \<longrightarrow> key < ie_Key (es ! Suc i))"

lemma FindBlock_block:
  assumes "sorted_wrt (<) (map ie_Key (blk_Entries b))" "in_data_block (blk_Entries b) i key"
  shows "FindBlock b key = int i"
proof -
  let ?es = "blk_Entries b"
  have strict: "i < j \<Longrightarrow> j < length ?es \<Longrightarrow> ie_Key (?es ! i) < ie_Key (?es ! j)" for i j
    using sorted_wrt_nth_less [OF assms(1), of i j] by simp
  have i: "i < length ?es" "ie_Key (?es ! i) \<le> key"
    "Suc i < length ?es \<Longrightarrow> key < ie_Key (?es ! Suc i)"
    using assms(2) by (auto simp: in_data_block_def)
  have le_iff: "ie_Key (?es ! j) \<le> key \<longleftrightarrow> j \<le> i" if "j < length ?es" for j
  proof (cases "j \<le> i")
    case True
    then show ?thesis using i(1,2) strict [of j i] by (cases "j = i") auto
  next
    case False
    with that have "key < ie_Key (?es ! Suc i)" using i(3) by simp
    moreover have "ie_Key (?es ! Suc i) \<le> ie_Key (?es ! j)"
      using False that strict [of "Suc i" j] by (cases "j = Suc i") auto
    ultimately show ?thesis using False by simp
  qed
  have ne: "?es \<noteq> []" using i(1) by auto
  then have "ie_Key (?es ! 0) \<le> key" using le_iff [of 0] by simp
  moreover have "\<not> ie_Key (?es ! (length ?es - 1)) < key \<or> int (length ?es - 1) = int i"
    using le_iff [of "length ?es - 1"] ne i(1) by auto
  moreover have "find_block_loop ?es key 0 (int (length ?es - 1)) (-1) = int i"
  proof -
    define r where "r = find_block_loop ?es key 0 (int (length ?es - 1)) (-1)"
    have r: "r < int (length ?es) \<and> (\<forall>j < length ?es. ie_Key (?es ! j) \<le> key \<longleftrightarrow> int j \<le> r)"
      unfolding r_def by (rule find_block_loop_result [OF assms(1)]) (use ne in auto)
    then have ge: "int i \<le> r" using i by blast
    then have "nat r < length ?es" "int (nat r) \<le> r" using r by auto
    then have "ie_Key (?es ! nat r) \<le> key" using r by blast
    with le_iff [of "nat r"] \<open>nat r < length ?es\<close> have "nat r \<le> i" by blast
    with ge show ?thesis unfolding r_def [symmetric] by simp
  qed
  ultimately show ?thesis
    using ne by (auto simp: FindBlock_def Let_def not_less)
qed

text \<open>Tombstone blocks: what a block answers, in terms of its entries.\<close>

definition newest_cover :: "RangeDelEntry list \<Rightarrow> bytes \<Rightarrow> u64 \<Rightarrow> u64" where
  "newest_cover ts key seq =
     (case find (\<lambda>t. covers t key \<and> seq < rd_SeqId t) ts of None \<Rightarrow> 0 | Some t \<Rightarrow> rd_SeqId t)"

lemma newest_cover_deleted: "0 < newest_cover ts key seq \<longleftrightarrow> deleted_by ts key seq"
proof (cases "find (\<lambda>t. covers t key \<and> seq < rd_SeqId t) ts")
  case None
  then show ?thesis
    using find_None_iff [THEN iffD1, OF None] by (auto simp: newest_cover_def deleted_by_def)
next
  case (Some t)
  then have "t \<in> set ts" "covers t key" "seq < rd_SeqId t"
    by (auto simp: find_Some_iff)
  moreover from this have "0 < rd_SeqId t" by (metis word_gt_0 word_not_simps(1))
  ultimately show ?thesis using Some by (auto simp: newest_cover_def deleted_by_def)
qed

lemma newest_cover_Cons:
  "newest_cover (t # ts) key seq =
     (if covers t key \<and> seq < rd_SeqId t then rd_SeqId t else newest_cover ts key seq)"
  by (simp add: newest_cover_def)

lemma newest_cover_unique:
  assumes "disjoint_sorted ts" "i < length ts" "covers (ts ! i) key"
  shows "newest_cover ts key seq = (if seq < rd_SeqId (ts ! i) then rd_SeqId (ts ! i) else 0)"
proof -
  have other: "\<not> covers (ts ! j) key" if "j < length ts" "j \<noteq> i" for j
    using disjoint_sorted_nth [OF assms(1), of i j] disjoint_sorted_nth [OF assms(1), of j i] that assms(2,3)
    by (cases "i < j") (auto simp: covers_def)
  show ?thesis
  proof (cases "find (\<lambda>t. covers t key \<and> seq < rd_SeqId t) ts")
    case None
    then show ?thesis
      using assms(2,3) find_None_iff [THEN iffD1, OF None] by (auto simp: newest_cover_def)
  next
    case (Some t)
    then obtain j where "j < length ts" "t = ts ! j" "covers t key" "seq < rd_SeqId t"
      by (auto simp: find_Some_iff)
    with other [of j] Some show ?thesis by (auto simp: newest_cover_def)
  qed
qed

lemma newest_cover_none:
  "(\<And>i. i < length ts \<Longrightarrow> \<not> covers (ts ! i) key) \<Longrightarrow> newest_cover ts key seq = 0"
proof -
  assume "\<And>i. i < length ts \<Longrightarrow> \<not> covers (ts ! i) key"
  then have "find (\<lambda>t. covers t key \<and> seq < rd_SeqId t) ts = None"
    by (auto simp: find_None_iff in_set_conv_nth)
  then show ?thesis by (simp add: newest_cover_def)
qed

lemma upper_start_loop_partition:
  "pos = hi + 1 \<Longrightarrow> lo \<le> hi + 1 \<Longrightarrow>
   upper_start_loop es key lo hi pos = partition_search (\<lambda>i. rd_StartKey (es ! i) \<le> key) lo hi"
proof (induction es key lo hi pos rule: upper_start_loop.induct)
  case (1 es key lo hi pos)
  have "lo \<le> hi \<Longrightarrow> lo \<le> lo + (hi - lo) div 2 \<and> lo + (hi - lo) div 2 \<le> hi" by auto
  then show ?case
    by (subst upper_start_loop.simps, subst partition_search.simps)
      (use 1 in \<open>auto simp: Let_def not_le not_less\<close>)
qed

lemma down_closed_starts:
  "disjoint_sorted es \<Longrightarrow> down_closed (\<lambda>i. rd_StartKey (es ! i) \<le> key) (length es)"
  using down_closed_sorted(1) [OF disjoint_sorted_starts, of es key]
  unfolding length_map by (rule down_closed_cong) simp_all

lemma covering_back_stop:
  "(\<And>j. j < i \<Longrightarrow> rd_EndKey (es ! j) \<le> key) \<Longrightarrow> covering_back_loop es key seq i m = m"
  by (cases i) (auto simp: Let_def)

lemma MaxCoveringRange_newest_cover:
  assumes "disjoint_sorted (blk_Entries b)"
  shows "MaxCoveringRange b key seq = newest_cover (blk_Entries b) key seq"
proof (cases "blk_Entries b = []")
  case True
  then show ?thesis by (simp add: MaxCoveringRange_def newest_cover_def)
next
  case False
  let ?es = "blk_Entries b"
  define p where "p = upper_start_loop ?es key 0 (int (length ?es) - 1) (int (length ?es))"
  have pp: "p = partition_search (\<lambda>i. rd_StartKey (?es ! i) \<le> key) 0 (int (length ?es) - 1)"
    unfolding p_def by (rule upper_start_loop_partition) simp_all
  note q = partition_search_all [OF down_closed_starts [OF assms, of key], folded pp]
  have m: "MaxCoveringRange b key seq = covering_back_loop ?es key seq (nat p) 0"
    using False by (simp add: MaxCoveringRange_def Let_def p_def)
  show ?thesis
  proof (cases "nat p")
    case 0
    then have "\<not> covers (?es ! i) key" if "i < length ?es" for i
      using q(3) [OF that] by (simp add: covers_def)
    with 0 m show ?thesis by (simp add: newest_cover_none)
  next
    case (Suc k)
    then have k: "k < length ?es" "rd_StartKey (?es ! k) \<le> key" using q(2) q(3) [of k] by auto
    have prior: "rd_EndKey (?es ! j) \<le> key" if "j < k" for j
      using disjoint_sorted_nth [OF assms that k(1)] k(2) by simp
    have others: "\<not> covers (?es ! i) key" if "i < length ?es" "i \<noteq> k" for i
    proof
      assume c: "covers (?es ! i) key"
      with q(3) [OF that(1)] Suc that(2) have "i < k" by (auto simp: covers_def)
      with prior [of i] c show False by (auto simp: covers_def)
    qed
    show ?thesis
    proof (cases "covers (?es ! k) key")
      case True
      have stop: "covering_back_loop ?es key seq k m = m" for m
        by (rule covering_back_stop) (rule prior)
      have pos: "seq < x \<Longrightarrow> 0 < x" for x :: u64
        by (metis word_gt_0 word_not_simps(1))
      from True have "\<not> rd_EndKey (?es ! k) \<le> key" by (simp add: covers_def not_le)
      then show ?thesis
        unfolding m Suc newest_cover_unique [OF assms k(1) True, of seq]
        using pos by (simp add: Let_def stop)
    next
      case False
      then have "rd_EndKey (?es ! k) \<le> key" using k by (simp add: covers_def not_less)
      with m Suc have "MaxCoveringRange b key seq = 0" by (simp add: Let_def)
      moreover have "newest_cover ?es key seq = 0"
        by (rule newest_cover_none) (use others False in blast)
      ultimately show ?thesis by simp
    qed
  qed
qed

section \<open>Segments\<close>

abbreviation seg_entries :: "'e entry_block list \<Rightarrow> 'e list" where
  "seg_entries bs \<equiv> concat (map blk_Entries bs)"

text \<open>
  Adding an entry appends it to the segment's entries in order; no block becomes empty or,
  for a positive block size, holds more entries than the block size.
\<close>

lemma add_to_last_simps:
  "add_to_last sz [] e n = [add_entry sz new_block e]"
  "add_to_last sz (ys @ [y]) e n =
     (if n \<le> int (length (blk_Entries y)) then ys @ [y, add_entry sz new_block e]
      else ys @ [add_entry sz y e])"
  by (simp_all add: add_to_last_def butlast_append)

lemma add_to_last_entries: "seg_entries (add_to_last sz bs e n) = seg_entries bs @ [e]"
  by (cases bs rule: rev_cases) (simp_all add: add_to_last_simps add_entry_def new_block_def)

lemma add_to_last_bound:
  assumes "1 \<le> n" "\<forall>b \<in> set bs. int (length (blk_Entries b)) \<le> n"
  shows "\<forall>b \<in> set (add_to_last sz bs e n). int (length (blk_Entries b)) \<le> n"
  using assms
  by (cases bs rule: rev_cases) (auto simp: add_to_last_simps add_entry_def new_block_def)

lemma add_to_last_nonempty:
  "\<forall>b \<in> set bs. blk_Entries b \<noteq> [] \<Longrightarrow> \<forall>b \<in> set (add_to_last sz bs e n). blk_Entries b \<noteq> []"
  by (cases bs rule: rev_cases) (auto simp: add_to_last_simps add_entry_def new_block_def)

text \<open>The tombstone segment keeps, for each block, the start key of its first entry.\<close>

definition rs_inv :: "RangeDelIndexSegment \<Rightarrow> bool" where
  "rs_inv seg \<longleftrightarrow> (\<forall>b \<in> set (rs_Blocks seg). blk_Entries b \<noteq> []) \<and>
     rs_FirstKeys seg = map (\<lambda>b. rd_StartKey (hd (blk_Entries b))) (rs_Blocks seg)"

lemma rs_inv_New: "rs_inv (NewRangeDelIndexSegment sz)"
  by (simp add: rs_inv_def NewRangeDelIndexSegment_def)

lemma rs_inv_AddEntryToBlock:
  "rs_inv seg \<Longrightarrow> rs_inv (RangeDelIndexSegment_AddEntryToBlock seg e n)"
  by (cases "rs_Blocks seg" rule: rev_cases)
    (auto simp: rs_inv_def RangeDelIndexSegment_AddEntryToBlock_def add_to_last_simps add_entry_def
      new_block_def Let_def hd_append)

lemma rs_entries_AddEntryToBlock:
  "seg_entries (rs_Blocks (RangeDelIndexSegment_AddEntryToBlock seg e n))
     = seg_entries (rs_Blocks seg) @ [e]"
  by (simp add: RangeDelIndexSegment_AddEntryToBlock_def add_to_last_entries Let_def)

lemma rs_build:
  "rs_inv seg \<Longrightarrow>
   rs_inv (foldl (\<lambda>s e. RangeDelIndexSegment_AddEntryToBlock s e n) seg es) \<and>
   seg_entries (rs_Blocks (foldl (\<lambda>s e. RangeDelIndexSegment_AddEntryToBlock s e n) seg es))
     = seg_entries (rs_Blocks seg) @ es"
  by (induction es arbitrary: seg)
    (simp_all add: rs_inv_AddEntryToBlock rs_entries_AddEntryToBlock)

lemma first_key_loop_partition:
  "lo \<le> hi + 1 \<Longrightarrow> first_key_loop ks key lo hi = partition_search (\<lambda>i. ks ! i \<le> key) lo hi - 1"
proof (induction ks key lo hi rule: first_key_loop.induct)
  case (1 ks key lo hi)
  have "lo \<le> hi \<Longrightarrow> lo \<le> lo + (hi - lo) div 2 \<and> lo + (hi - lo) div 2 \<le> hi" by auto
  then show ?case
    by (subst first_key_loop.simps, subst partition_search.simps)
      (use 1 in \<open>auto simp: Let_def\<close>)
qed

text \<open>Sub-lists of disjoint fragments are disjoint, and blocks are separated by their first keys.\<close>

lemma disjoint_sorted_append:
  "disjoint_sorted (xs @ ys) \<longleftrightarrow> disjoint_sorted xs \<and> disjoint_sorted ys \<and>
     (\<forall>x \<in> set xs. \<forall>y \<in> set ys. rd_EndKey x \<le> rd_StartKey y)"
  by (induction xs) auto

lemma disjoint_sorted_concat_nth:
  assumes "disjoint_sorted (concat xss)" "i < j" "j < length xss" "x \<in> set (xss ! i)" "y \<in> set (xss ! j)"
  shows "rd_EndKey x \<le> rd_StartKey y"
proof -
  have "xss = take j xss @ xss ! j # drop (Suc j) xss"
    using assms(3) by (simp add: id_take_nth_drop)
  then have "concat xss = concat (take j xss) @ xss ! j @ concat (drop (Suc j) xss)"
    by (metis concat.simps(2) concat_append)
  with assms(1) have "\<forall>x \<in> set (concat (take j xss)). \<forall>y \<in> set (xss ! j). rd_EndKey x \<le> rd_StartKey y"
    by (simp add: disjoint_sorted_append)
  moreover have "xss ! i \<in> set (take j xss)"
    using assms(2,3) by (metis in_set_conv_nth length_take min.absorb2 nth_take order_less_imp_le order_less_trans)
  ultimately show ?thesis using assms(4,5) by auto
qed

lemma disjoint_sorted_concat_each:
  "disjoint_sorted (concat xss) \<Longrightarrow> xs \<in> set xss \<Longrightarrow> disjoint_sorted xs"
  by (induction xss) (auto simp: disjoint_sorted_append)

lemma newest_cover_concat:
  assumes "disjoint_sorted (concat xss)" "i < length xss"
    and "\<And>j x. j < length xss \<Longrightarrow> j \<noteq> i \<Longrightarrow> x \<in> set (xss ! j) \<Longrightarrow> \<not> covers x key"
  shows "newest_cover (concat xss) key seq = newest_cover (xss ! i) key seq"
proof -
  have none: "newest_cover (ys @ zs) key seq = newest_cover zs key seq"
    if "\<forall>y \<in> set ys. \<not> covers y key" for ys zs
    using that by (induction ys) (simp_all add: newest_cover_Cons)
  have none': "newest_cover (ys @ zs) key seq = newest_cover ys key seq"
    if "\<forall>z \<in> set zs. \<not> covers z key" for ys zs
    using that
  proof (induction ys)
    case Nil
    then show ?case using none [of zs "[]"] by simp
  qed (simp add: newest_cover_Cons)
  have "xss = take i xss @ xss ! i # drop (Suc i) xss"
    using assms(2) by (simp add: id_take_nth_drop)
  then have "concat xss = concat (take i xss) @ xss ! i @ concat (drop (Suc i) xss)"
    by (metis concat.simps(2) concat_append)
  moreover have "\<forall>y \<in> set (concat (take i xss)). \<not> covers y key"
  proof
    fix y
    assume "y \<in> set (concat (take i xss))"
    then obtain j where "j < i" "y \<in> set (xss ! j)"
      using assms(2) by (auto simp: in_set_conv_nth [of _ "take i xss"])
    with assms(2) show "\<not> covers y key" by (intro assms(3) [of j]) auto
  qed
  moreover have "\<forall>y \<in> set (concat (drop (Suc i) xss)). \<not> covers y key"
  proof
    fix y
    assume "y \<in> set (concat (drop (Suc i) xss))"
    then obtain d where "d < length xss - Suc i" "y \<in> set (xss ! Suc (i + d))"
      using assms(2) by (auto simp: in_set_conv_nth [of _ "drop (Suc i) xss"])
    then show "\<not> covers y key" by (intro assms(3) [of "Suc (i + d)"]) auto
  qed
  ultimately show ?thesis using none none' by simp
qed

lemma MaxCoveringSeqId_newest_cover:
  assumes "rs_inv seg" "disjoint_sorted (seg_entries (rs_Blocks seg))"
  shows "MaxCoveringSeqId seg key seq = newest_cover (seg_entries (rs_Blocks seg)) key seq"
proof -
  let ?bs = "rs_Blocks seg"
  let ?xss = "map blk_Entries ?bs"
  have ne: "xs \<noteq> []" if "xs \<in> set ?xss" for xs using that assms(1) by (auto simp: rs_inv_def)
  have fk: "rs_FirstKeys seg = map (\<lambda>b. rd_StartKey (hd (blk_Entries b))) ?bs"
    using assms(1) by (simp add: rs_inv_def)
  have sep: "rd_EndKey x \<le> rd_StartKey y" if "i < j" "j < length ?bs"
    "x \<in> set (blk_Entries (?bs ! i))" "y \<in> set (blk_Entries (?bs ! j))" for i j x y
    using disjoint_sorted_concat_nth [OF assms(2), of i j x y] that by simp
  have block: "disjoint_sorted (blk_Entries (?bs ! i))" if "i < length ?bs" for i
    using disjoint_sorted_concat_each [OF assms(2), of "blk_Entries (?bs ! i)"] that by auto
  have hd_in: "hd (blk_Entries (?bs ! i)) \<in> set (blk_Entries (?bs ! i))" if "i < length ?bs" for i
    using assms(1) that by (auto simp: rs_inv_def)
  have hd_le: "rd_StartKey (hd (blk_Entries (?bs ! i))) \<le> rd_StartKey x"
    if "i < length ?bs" "x \<in> set (blk_Entries (?bs ! i))" for i x
    using block [OF that(1)] that(2) by (cases "blk_Entries (?bs ! i)") (auto intro: order_less_imp_le order.strict_trans2)
  have ends: "rd_StartKey x < rd_EndKey x" if "disjoint_sorted xs" "x \<in> set xs" for x xs
    using that by (induction xs) auto
  have "sorted (rs_FirstKeys seg)"
    unfolding fk sorted_wrt_iff_nth_less
  proof (intro allI impI)
    fix i j
    assume ij: "i < j" "j < length (map (\<lambda>b. rd_StartKey (hd (blk_Entries b))) ?bs)"
    then have "rd_StartKey (hd (blk_Entries (?bs ! i))) < rd_EndKey (hd (blk_Entries (?bs ! i)))"
      by (intro ends [OF block hd_in]) auto
    also have "\<dots> \<le> rd_StartKey (hd (blk_Entries (?bs ! j)))"
      using ij by (intro sep [of i j] hd_in) auto
    finally show "map (\<lambda>b. rd_StartKey (hd (blk_Entries b))) ?bs ! i
        \<le> map (\<lambda>b. rd_StartKey (hd (blk_Entries b))) ?bs ! j"
      using ij by simp
  qed
  then have dc: "down_closed (\<lambda>i. rs_FirstKeys seg ! i \<le> key) (length ?bs)"
    using down_closed_sorted(1) [of "rs_FirstKeys seg" key] by (simp add: fk)
  define p where "p = partition_search (\<lambda>i. rs_FirstKeys seg ! i \<le> key) 0 (int (length ?bs) - 1)"
  note q = partition_search_all [OF dc, folded p_def]
  have idx: "FindBlockIndex seg key = p - 1"
    using q(1) by (simp add: FindBlockIndex_def fk first_key_loop_partition p_def Let_def
        partition_search.simps [of _ 0 "-1"])
  have start: "x \<in> set (blk_Entries (?bs ! i)) \<Longrightarrow> i < length ?bs \<Longrightarrow> rd_StartKey x \<le> key \<Longrightarrow> int i < p" for i x
    using hd_le [of i x] q(3) [of i] by (auto simp: fk)
  show ?thesis
  proof (cases "nat p")
    case 0
    then have "\<not> covers x key" if "x \<in> set (seg_entries ?bs)" for x
      using that start [of x] by (fastforce simp: covers_def in_set_conv_nth [of _ ?bs])
    then have "newest_cover (seg_entries ?bs) key seq = 0"
      by (intro newest_cover_none) (meson nth_mem)
    with 0 q(1) idx show ?thesis by (simp add: MaxCoveringSeqId_def)
  next
    case (Suc k)
    then have k: "k < length ?bs" "p - 1 = int k" using q(1,2) by auto
    have first: "rd_StartKey (hd (blk_Entries (?bs ! k))) \<le> key"
      using q(3) [of k] k by (simp add: fk)
    have other: "\<not> covers x key" if "j < length ?bs" "j \<noteq> k" "x \<in> set (blk_Entries (?bs ! j))" for j x
    proof
      assume c: "covers x key"
      with start [OF that(3,1)] k have "j < k" using that(2) by (simp add: covers_def)
      then have "rd_EndKey x \<le> rd_StartKey (hd (blk_Entries (?bs ! k)))"
        by (rule sep [OF _ k(1) that(3) hd_in [OF k(1)]])
      with first c show False by (auto simp: covers_def)
    qed
    have "newest_cover (seg_entries ?bs) key seq = newest_cover (blk_Entries (?bs ! k)) key seq"
      using newest_cover_concat [OF assms(2), of k key] k(1) other by simp
    moreover have "MaxCoveringRange (?bs ! (k - 1)) key seq = 0" if "0 < k"
      using that k(1) block [of "k - 1"] other [of "k - 1"]
      by (simp add: MaxCoveringRange_newest_cover newest_cover_none)
    ultimately show ?thesis
      using k block [OF k(1)]
      by (auto simp: MaxCoveringSeqId_def idx MaxCoveringRange_newest_cover Let_def nat_diff_distrib)
  qed
qed

section \<open>Properties\<close>

text \<open>C13: The tombstone index of a table answers lookups correctly. For any range tombstones, split into fragments and
  added to an index segment with any block size, the index reports a covering sequence number
  above the asked one exactly when some original tombstone deletes that version of the key.\<close>

theorem tombstone_index_lookup:
  "0 < MaxCoveringSeqId
     (foldl (\<lambda>s e. RangeDelIndexSegment_AddEntryToBlock s e blockSize) (NewRangeDelIndexSegment sz) (FragmentRangeTombstones ts))
     key seq
   \<longleftrightarrow> deleted_by ts key seq"
proof -
  let ?seg = "foldl (\<lambda>s e. RangeDelIndexSegment_AddEntryToBlock s e blockSize) (NewRangeDelIndexSegment sz) (FragmentRangeTombstones ts)"
  have b: "rs_inv ?seg" "seg_entries (rs_Blocks ?seg) = FragmentRangeTombstones ts"
    using rs_build [OF rs_inv_New, of blockSize sz "FragmentRangeTombstones ts"] by (simp_all add: NewRangeDelIndexSegment_def)
  then have "MaxCoveringSeqId ?seg key seq = newest_cover (FragmentRangeTombstones ts) key seq"
    using MaxCoveringSeqId_newest_cover [OF b(1)] by (simp add: FragmentRangeTombstones_disjoint)
  then show ?thesis by (simp add: newest_cover_deleted FragmentRangeTombstones_deleted)
qed

text \<open>An index block is read back as it was written. Entries added to a new block that fit its size together with the
  count and the checksum are encoded to exactly that size, with the CRC-32 of everything before it in
  the last four bytes, and decoded to the same entries.\<close>

theorem index_block_roundtrip:
  assumes "\<forall>e \<in> set es. key_ok (ie_Key e)" "length es < 2 ^ 32" "unat sz < max_alloc"
    and "sum_list (map IndexEntry_EncodedSize es) + 8 \<le> unat sz"
  shows "\<exists>buf body. EncodeIndexBlock (foldl IndexBlock_AddEntry NewIndexBlock es) sz = Ok buf \<and> length buf = unat sz \<and>
    buf = body @ put_u32 (crc32_ChecksumIEEE body) \<and> map_sum id blk_Entries (DecodeIndexBlock buf) = Ok es"
proof -
  let ?b = "foldl IndexBlock_AddEntry NewIndexBlock es"
  have "blk_Entries ?b = es" by (simp add: IndexBlock_AddEntry_def NewIndexBlock_def foldl_add_entry new_block_def)
  with ie.block_roundtrip [of ?b sz] assms show ?thesis
    by (fastforce simp: EncodeIndexBlock_def DecodeIndexBlock_def list_all_iff)
qed

theorem index_block_roundtrip_witness:
  "\<exists>buf. EncodeIndexBlock (foldl IndexBlock_AddEntry NewIndexBlock [\<lparr>ie_Key = [97], ie_BlockIndex = 0\<rparr>, \<lparr>ie_Key = [], ie_BlockIndex = 7\<rparr>]) 64 = Ok buf \<and>
     map_sum id blk_Entries (DecodeIndexBlock buf) = Ok [\<lparr>ie_Key = [97], ie_BlockIndex = 0\<rparr>, \<lparr>ie_Key = [], ie_BlockIndex = 7\<rparr>]"
  using index_block_roundtrip [of "[\<lparr>ie_Key = [97], ie_BlockIndex = 0\<rparr>, \<lparr>ie_Key = [], ie_BlockIndex = 7\<rparr>]" 64]
  by (auto simp: key_ok_def max_alloc_def ie.size_wire ie_wire_def put_uvarint.simps)

text \<open>A tombstone block is read back as it was written, with its checksum, under the same size condition.\<close>

theorem rangedel_block_roundtrip:
  assumes "\<forall>e \<in> set es. key_ok (rd_StartKey e) \<and> key_ok (rd_EndKey e)" "length es < 2 ^ 32" "unat sz < max_alloc"
    and "sum_list (map RangeDelEntry_EncodedSize es) + 8 \<le> unat sz"
  shows "\<exists>buf body. RangeDelIndexBlock_Encode (foldl RangeDelIndexBlock_Add NewRangeDelIndexBlock es) sz = Ok buf \<and>
    length buf = unat sz \<and> buf = body @ put_u32 (crc32_ChecksumIEEE body) \<and>
    map_sum id blk_Entries (DecodeRangeDelIndexBlock buf) = Ok es"
proof -
  let ?b = "foldl RangeDelIndexBlock_Add NewRangeDelIndexBlock es"
  have "blk_Entries ?b = es" by (simp add: RangeDelIndexBlock_Add_def NewRangeDelIndexBlock_def foldl_add_entry new_block_def)
  with rd.block_roundtrip [of ?b sz] assms show ?thesis
    by (fastforce simp: RangeDelIndexBlock_Encode_def DecodeRangeDelIndexBlock_def list_all_iff)
qed

theorem rangedel_block_roundtrip_witness:
  "\<exists>buf. RangeDelIndexBlock_Encode (foldl RangeDelIndexBlock_Add NewRangeDelIndexBlock [\<lparr>rd_StartKey = [97], rd_EndKey = [99], rd_SeqId = 5\<rparr>]) 64 = Ok buf \<and>
     map_sum id blk_Entries (DecodeRangeDelIndexBlock buf) = Ok [\<lparr>rd_StartKey = [97], rd_EndKey = [99], rd_SeqId = 5\<rparr>]"
  using rangedel_block_roundtrip [of "[\<lparr>rd_StartKey = [97], rd_EndKey = [99], rd_SeqId = 5\<rparr>]" 64]
  by (auto simp: key_ok_def max_alloc_def rd.size_wire rd_wire_def put_uvarint.simps)

text \<open>Looking up a key in a sorted index block finds the one data block whose key range holds the key.\<close>

theorem index_find_block:
  assumes "sorted_wrt (<) (map ie_Key es)" "in_data_block es i key"
  shows "FindBlock (foldl IndexBlock_AddEntry NewIndexBlock es) key = int i"
  using FindBlock_block [of "foldl IndexBlock_AddEntry NewIndexBlock es" i key] assms
  by (simp add: IndexBlock_AddEntry_def NewIndexBlock_def foldl_add_entry new_block_def)

theorem index_find_block_witness:
  "FindBlock (foldl IndexBlock_AddEntry NewIndexBlock
     [\<lparr>ie_Key = [97], ie_BlockIndex = 0\<rparr>, \<lparr>ie_Key = [104], ie_BlockIndex = 1\<rparr>, \<lparr>ie_Key = [120], ie_BlockIndex = 2\<rparr>]) [105] = int 1"
  by (rule index_find_block) (simp_all add: in_data_block_def)

end
