(* ===== verification/Summary.thy ===== *)
theory Summary
  imports Index_Blocks Delta_Encoder
begin

text \<open>
  \<^verbatim>\<open>internal/sstable/summary.go\<close>: the summary segment, which holds the first key of every
  \<^verbatim>\<open>samplingDegree\<close>-th index block, its binary format, its construction from the index and the
  search over it. Together with \<open>FindBlock\<close> of theory \<open>Index_Blocks\<close> it gives the two-level lookup
  from a key to the data block that holds it.
\<close>

section \<open>Model\<close>

record SummaryEntry =
  se_Key :: bytes
  se_IndexBlockOffset :: u64

record SummarySegment =
  ss_MinKey :: bytes
  ss_Entries :: "SummaryEntry list"
  ss_MaxKey :: bytes
  ss_SamplingDegree :: u32
  ss_TotalIndexBlocks :: u32

definition NewSummarySegment :: "u32 \<Rightarrow> SummarySegment" where
  "NewSummarySegment samplingDegree = \<lparr>ss_MinKey = [], ss_Entries = [], ss_MaxKey = [],
     ss_SamplingDegree = samplingDegree, ss_TotalIndexBlocks = 0\<rparr>"

abbreviation MaxVarintLen64 :: nat where "MaxVarintLen64 \<equiv> 10"

definition EstimatedSize :: "SummarySegment \<Rightarrow> nat" where
  "EstimatedSize s = MaxVarintLen64 + length (ss_MinKey s) + (MaxVarintLen64 + length (ss_MaxKey s)) +
     4 + 4 + 4 + sum_list (map (\<lambda>e. MaxVarintLen64 + length (se_Key e) + 8) (ss_Entries s)) + 4"

text \<open>
  Writing at a running position: \<^verbatim>\<open>PutUvarint\<close>, \<^verbatim>\<open>PutUint32\<close>, \<^verbatim>\<open>PutUint64\<close> panic when the buffer is too
  small, \<^verbatim>\<open>copy(buf[pos:], \<dots>)\<close> writes what fits.
\<close>

datatype chunk = Put bytes | Copy bytes

fun chunk_bytes :: "chunk \<Rightarrow> bytes" where
  "chunk_bytes (Put bs) = bs" | "chunk_bytes (Copy bs) = bs"

fun write_chunks :: "bytes \<Rightarrow> nat \<Rightarrow> chunk list \<Rightarrow> (bytes \<times> nat) result" where
  "write_chunks buf pos [] = Ok (buf, pos)"
| "write_chunks buf pos (Put bs # cs) =
     bind_r (put_at buf pos bs) (\<lambda>buf. write_chunks buf (pos + length bs) cs)"
| "write_chunks buf pos (Copy bs # cs) =
     bind_r (copy_at buf pos bs) (\<lambda>buf. write_chunks buf (pos + length bs) cs)"

definition key_chunks :: "bytes \<Rightarrow> chunk list" where
  "key_chunks key = [Put (put_uvarint (of_nat (length key))), Copy key]"

definition summary_entry_chunks :: "SummaryEntry \<Rightarrow> chunk list" where
  "summary_entry_chunks e = key_chunks (se_Key e) @ [Put (put_u64 (se_IndexBlockOffset e))]"

definition summary_chunks :: "SummarySegment \<Rightarrow> chunk list" where
  "summary_chunks s = key_chunks (ss_MinKey s) @ key_chunks (ss_MaxKey s) @
     [Put (put_u32 (ss_SamplingDegree s)), Put (put_u32 (ss_TotalIndexBlocks s)),
      Put (put_u32 (of_nat (length (ss_Entries s))))] @
     concat (map summary_entry_chunks (ss_Entries s))"

definition Summary_Encode :: "SummarySegment \<Rightarrow> bytes result" where
  "Summary_Encode s =
     bind_r (write_chunks (make_bytes (EstimatedSize s)) 0 (summary_chunks s)) (\<lambda>(buf, pos).
     bind_r (go_slice buf 0 (int pos)) (\<lambda>body.
     bind_r (put_at buf pos (put_u32 (crc32_ChecksumIEEE body))) (\<lambda>buf.
     go_slice buf 0 (int pos + 4))))"

text \<open>Reading at a running position.\<close>

definition take_key :: "string \<Rightarrow> bytes \<Rightarrow> ('t \<times> int, bytes) op" where
  "take_key msg buf =
     bind_s (next_uvarint msg buf) (\<lambda>n. \<lambda>(t, pos).
       case bind_r (make_len n) (\<lambda>key. bind_r (go_slice buf pos (go_int (pos + u64_int n))) (\<lambda>src. copy_at key 0 src)) of
         Inl e \<Rightarrow> (Inl e, (t, pos))
       | Inr key \<Rightarrow> (Ok key, (t, go_int (pos + u64_int n))))"

definition take_le :: "nat \<Rightarrow> bytes \<Rightarrow> ('t \<times> int, 'a::len word) op" where
  "take_le n buf = (\<lambda>(t, pos).
     case bind_r (go_slice buf pos (int (length buf))) (\<lambda>tail. read_le n tail 0) of
       Inl e \<Rightarrow> (Inl e, (t, pos))
     | Inr x \<Rightarrow> (Ok x, (t, go_int (pos + int n))))"

definition take_summary_entry :: "bytes \<Rightarrow> ('t \<times> int, SummaryEntry) op" where
  "take_summary_entry buf =
     bind_s (take_key ''invalid entry key length'' buf) (\<lambda>key.
     bind_s (take_le 8 buf) (\<lambda>offset.
     ret_s \<lparr>se_Key = key, se_IndexBlockOffset = offset\<rparr>))"

definition take_summary :: "bytes \<Rightarrow> (unit \<times> int, SummarySegment) op" where
  "take_summary buf =
     bind_s (take_key ''invalid minKey length'' buf) (\<lambda>minKey.
     bind_s (take_key ''invalid maxKey length'' buf) (\<lambda>maxKey.
     bind_s (take_le 4 buf) (\<lambda>sampling.
     bind_s (take_le 4 buf) (\<lambda>totalBlocks.
     bind_s (take_le 4 buf) (\<lambda>numEntries.
     bind_s (decode_all (take_summary_entry buf) (unat (numEntries :: u32))) (\<lambda>entries.
     ret_s \<lparr>ss_MinKey = minKey, ss_Entries = entries, ss_MaxKey = maxKey,
       ss_SamplingDegree = sampling, ss_TotalIndexBlocks = totalBlocks\<rparr>))))))"

definition DecodeSummarySegment :: "bytes \<Rightarrow> SummarySegment result" where
  "DecodeSummarySegment buf =
     (if length buf < 4 then Inl (Error ''buffer too small'')
      else let crcPos = length buf - 4 in
        bind_r (read_u32 buf crcPos) (\<lambda>expected.
        bind_r (go_slice buf 0 (int crcPos)) (\<lambda>body.
        if expected \<noteq> crc32_ChecksumIEEE body then Inl (Error ''summary CRC mismatch'')
        else fst (take_summary buf ((), 0)))))"

text \<open>The search.\<close>

function summary_loop :: "SummaryEntry list \<Rightarrow> bytes \<Rightarrow> int \<Rightarrow> int \<Rightarrow> int \<Rightarrow> int" where
  "summary_loop entries key left right res =
     (if left \<le> right then
        let mid = left + (right - left) div 2;
            cmp = bytes_Compare key (se_Key (entries ! nat mid)) in
        if cmp < 0 then summary_loop entries key left (mid - 1) res
        else if cmp = 0 then mid
        else summary_loop entries key (mid + 1) right mid
      else res)"
  by pat_completeness auto
termination
  by (relation "measure (\<lambda>(entries, key, left, right, res). nat (right + 1 - left))") auto

declare summary_loop.simps [simp del]

definition FindIndexBlockNumber :: "SummarySegment \<Rightarrow> bytes \<Rightarrow> int" where
  "FindIndexBlockNumber s key =
     (let res = summary_loop (ss_Entries s) key 0 (int (length (ss_Entries s)) - 1) (-1) in
      if res = -1 then 0 else go_int (res * uint (ss_SamplingDegree s)))"

definition FindBlockRange :: "SummarySegment \<Rightarrow> bytes \<Rightarrow> bytes \<Rightarrow> int \<times> int" where
  "FindBlockRange s startKey endKey =
     (let startBlock = FindIndexBlockNumber s startKey; endBlock = FindIndexBlockNumber s endKey in
      if startBlock = -1 \<or> endBlock = -1 then (-1, -1)
      else let upper = go_int (endBlock + uint (ss_SamplingDegree s) - 1);
               upper = (if uint (ss_TotalIndexBlocks s) \<le> upper then uint (ss_TotalIndexBlocks s) - 1 else upper)
           in (startBlock, upper))"

text \<open>
  The loop of \<^verbatim>\<open>BuildSummaryFromIndex\<close> steps by the sampling degree; with degree 0 it never ends, which
  is the value \<^const>\<open>None\<close> here.
\<close>

partial_function (option) build_loop ::
    "u64 list \<Rightarrow> IndexBlock list \<Rightarrow> nat \<Rightarrow> nat \<Rightarrow> SummaryEntry list \<Rightarrow> SummaryEntry list result option" where
  "build_loop offsets blocks degree i acc =
     (if i < length blocks then
        let entries = blk_Entries (blocks ! i) in
        if entries = [] then build_loop offsets blocks degree (i + degree) acc
        else if i < length offsets then
          build_loop offsets blocks degree (i + degree)
            (acc @ [\<lparr>se_Key = ie_Key (entries ! 0), se_IndexBlockOffset = offsets ! i\<rparr>])
        else Some (Inl (Panic ''index out of range''))
      else Some (Ok acc))"

definition BuildSummaryFromIndex :: "u64 list \<Rightarrow> IndexBlock list \<Rightarrow> u32 \<Rightarrow> SummarySegment result option" where
  "BuildSummaryFromIndex indexBlockOffsets indexBlocks samplingDegree =
     (let s = (NewSummarySegment samplingDegree)\<lparr>ss_TotalIndexBlocks := of_nat (length indexBlocks)\<rparr> in
      if indexBlocks = [] then Some (Ok s)
      else
        let first = blk_Entries (hd indexBlocks); lst = blk_Entries (last indexBlocks);
            s = (if first = [] then s else s\<lparr>ss_MinKey := ie_Key (hd first)\<rparr>);
            s = (if lst = [] then s else s\<lparr>ss_MaxKey := ie_Key (last lst)\<rparr>)
        in map_option (map_sum id (\<lambda>entries. s\<lparr>ss_Entries := entries\<rparr>))
             (build_loop indexBlockOffsets indexBlocks (unat samplingDegree) 0 []))"

section \<open>Encoding and decoding\<close>

abbreviation chunks_bytes :: "chunk list \<Rightarrow> bytes" where
  "chunks_bytes cs \<equiv> concat (map chunk_bytes cs)"

lemma write_chunks_append:
  "length (chunks_bytes cs) \<le> n \<Longrightarrow> p = length pre \<Longrightarrow> write_chunks (pre @ make_bytes n) p cs =
     Ok ((pre @ chunks_bytes cs) @ make_bytes (n - length (chunks_bytes cs)), length pre + length (chunks_bytes cs))"
proof (induction cs arbitrary: pre n p)
  case (Cons c cs)
  then have "put_at (pre @ make_bytes n) p (chunk_bytes c) = Ok ((pre @ chunk_bytes c) @ make_bytes (n - length (chunk_bytes c)))"
    "copy_at (pre @ make_bytes n) p (chunk_bytes c) = Ok ((pre @ chunk_bytes c) @ make_bytes (n - length (chunk_bytes c)))"
    by (intro put_at_append copy_at_append; simp)+
  with Cons.IH [of "n - length (chunk_bytes c)" "length (pre @ chunk_bytes c)" "pre @ chunk_bytes c"] Cons.prems show ?case
    by (cases c) (simp_all add: add.assoc)
qed simp

lemma length_summary_chunks: "length (chunks_bytes (summary_chunks s)) + 4 \<le> EstimatedSize s"
proof -
  have key: "length (chunks_bytes (key_chunks k)) \<le> 10 + length k" for k
    using put_uvarint_length by (simp add: key_chunks_def)
  have "length (chunks_bytes (concat (map summary_entry_chunks es))) \<le> sum_list (map (\<lambda>e. 10 + length (se_Key e) + 8) es)" for es
  proof (induction es)
    case (Cons e es)
    then show ?case using key [of "se_Key e"] by (simp add: summary_entry_chunks_def)
  qed simp
  from this [of "ss_Entries s"] key [of "ss_MinKey s"] key [of "ss_MaxKey s"] show ?thesis
    by (simp add: summary_chunks_def EstimatedSize_def)
qed

definition summary_body :: "SummarySegment \<Rightarrow> bytes" where
  "summary_body s = chunks_bytes (summary_chunks s)"

lemma Summary_Encode_eq: "Summary_Encode s = Ok (summary_body s @ put_u32 (crc32_ChecksumIEEE (summary_body s)))"
proof -
  let ?b = "summary_body s" and ?n = "EstimatedSize s"
  have len: "length ?b + 4 \<le> ?n" using length_summary_chunks [of s] by (simp add: summary_body_def)
  have "write_chunks (make_bytes ?n) 0 (summary_chunks s) = Ok (?b @ make_bytes (?n - length ?b), length ?b)"
    using write_chunks_append [of "summary_chunks s" ?n 0 "[]"] len by (simp add: summary_body_def)
  moreover have "put_at (?b @ make_bytes (?n - length ?b)) (length ?b) (put_u32 w) =
      Ok ((?b @ put_u32 w) @ make_bytes (?n - length ?b - 4))" for w
    using put_at_append [of "put_u32 w" "?n - length ?b" "length ?b" ?b] len by simp
  moreover have "go_slice (?b @ x) 0 (int (length ?b)) = Ok ?b" for x by (simp add: go_slice_def)
  moreover have "go_slice ((?b @ put_u32 w) @ x) 0 (int (length ?b) + 4) = Ok (?b @ put_u32 w)" for w x
    by (simp add: go_slice_def nat_add_distrib)
  ultimately show ?thesis by (simp add: Summary_Encode_def)
qed

text \<open>Reading fields where they were written.\<close>

lemma take_key_at:
  assumes "slice_ok (pre @ chunks_bytes (key_chunks k) @ post)"
  shows "take_key msg (pre @ chunks_bytes (key_chunks k) @ post) (t, int (length pre)) =
    (Ok k, (t, int (length (pre @ chunks_bytes (key_chunks k)))))"
proof -
  let ?u = "put_uvarint (of_nat (length k))"
  let ?buf = "pre @ ?u @ k @ post"
  have buf: "pre @ chunks_bytes (key_chunks k) @ post = ?buf" by (simp add: key_chunks_def)
  have lt: "int (length ?buf) < 2 ^ 48" using slice_ok_lt [OF assms] unfolding buf .
  have u: "u64_int (of_nat (length k)) = int (length k)" "unat (of_nat (length k) :: u64) = length k"
    using lt by (auto intro: u64_int_of_nat unat_of_nat_small)
  define p where "p = int (length (pre @ ?u))"
  define q where "q = int (length (pre @ ?u @ k))"
  have pos: "go_int (p + int (length k)) = q"
    using lt by (simp add: go_int_small p_def q_def)
  have "go_slice ?buf p q = Ok k"
    using go_slice_middle [OF refl refl, of "pre @ ?u" k post] by (simp add: add.assoc p_def q_def)
  moreover have "make_len (of_nat (length k)) = Ok (make_bytes (length k))"
    using lt by (simp add: make_len_def u max_alloc_def)
  moreover have "copy_at (make_bytes (length k)) 0 k = Ok k"
    using copy_at_append [of k "length k" 0 "[]"] by simp
  moreover have "next_uvarint msg ?buf (t, int (length pre)) = (Ok (of_nat (length k)), (t, p))"
    using next_uvarint_at [of pre "of_nat (length k)" "k @ post" msg t] assms unfolding buf by (simp add: p_def)
  ultimately have "take_key msg ?buf (t, int (length pre)) = (Ok k, (t, q))"
    by (simp add: take_key_def u pos)
  then show ?thesis unfolding buf by (simp add: q_def key_chunks_def)
qed

lemma take_le_at:
  assumes "slice_ok (pre @ put_le n w @ post)"
  shows "take_le n (pre @ put_le n w @ post) (t, int (length pre)) =
    (Ok (take_bit (8 * n) w), (t, int (length pre) + int n))"
proof -
  have "go_int (int (length pre) + int n) = int (length pre) + int n"
    using slice_ok_lt [OF assms] by (intro go_int_small) simp_all
  then show ?thesis
    by (simp add: take_le_def go_slice_tail [of _ pre] read_le_def get_le_put_le)
qed

lemma take_summary_entry_at:
  assumes "slice_ok (pre @ chunks_bytes (summary_entry_chunks e) @ post)"
  shows "take_summary_entry (pre @ chunks_bytes (summary_entry_chunks e) @ post) (t, int (length pre)) =
    (Ok e, (t, int (length (pre @ chunks_bytes (summary_entry_chunks e)))))"
proof -
  let ?k = "chunks_bytes (key_chunks (se_Key e))" and ?o = "put_u64 (se_IndexBlockOffset e)"
  have buf: "chunks_bytes (summary_entry_chunks e) = ?k @ ?o" by (simp add: summary_entry_chunks_def)
  have "slice_ok (pre @ ?k @ (?o @ post))" using assms unfolding buf by simp
  from take_key_at [OF this, of "''invalid entry key length''" t]
    take_le_at [of "pre @ ?k" 8 "se_IndexBlockOffset e" post t] assms
  show ?thesis
    unfolding take_summary_entry_def buf by (simp add: take_bit_word_eq_self flip: put_u64_def)
qed

lemma decode_summary_entries:
  assumes "slice_ok (pre @ chunks_bytes (concat (map summary_entry_chunks es)) @ post)"
  shows "decode_all (take_summary_entry (pre @ chunks_bytes (concat (map summary_entry_chunks es)) @ post)) (length es)
      (t, int (length pre)) =
    (Ok es, (t, int (length (pre @ chunks_bytes (concat (map summary_entry_chunks es))))))"
  using assms
proof (induction es arbitrary: pre)
  case (Cons e es)
  let ?e = "chunks_bytes (summary_entry_chunks e)" and ?r = "chunks_bytes (concat (map summary_entry_chunks es))"
  have "slice_ok (pre @ ?e @ (?r @ post))" "slice_ok ((pre @ ?e) @ ?r @ post)"
    using Cons.prems by simp_all
  from take_summary_entry_at [OF this(1), of t] Cons.IH [OF this(2)] show ?case
    by (simp add: add.assoc)
qed simp

lemma take_summary_at:
  assumes "slice_ok (summary_body s @ post)" "length (ss_Entries s) < 2 ^ 32"
  shows "fst (take_summary (summary_body s @ post) ((), 0)) = Ok s"
proof -
  let ?a = "chunks_bytes (key_chunks (ss_MinKey s))" and ?b = "chunks_bytes (key_chunks (ss_MaxKey s))"
  let ?c = "put_u32 (ss_SamplingDegree s)" and ?d = "put_u32 (ss_TotalIndexBlocks s)"
  let ?n = "put_u32 (of_nat (length (ss_Entries s)))"
  let ?es = "chunks_bytes (concat (map summary_entry_chunks (ss_Entries s)))"
  define buf where "buf = summary_body s @ post"
  have ok: "slice_ok buf" using assms(1) by (simp add: buf_def)
  have buf: "buf = ?a @ ?b @ ?c @ ?d @ ?n @ ?es @ post"
    by (simp add: buf_def summary_body_def summary_chunks_def)
  have un: "unat (of_nat (length (ss_Entries s)) :: u32) = length (ss_Entries s)"
    using assms(2) by (simp add: unsigned_of_nat take_bit_nat_eq_self)
  have 1: "take_key m buf ((), 0) = (Ok (ss_MinKey s), ((), int (length ?a)))" for m
    using take_key_at [of "[]" "ss_MinKey s" "?b @ ?c @ ?d @ ?n @ ?es @ post" m "()"] ok by (simp add: buf)
  have 2: "take_key m buf ((), int (length ?a)) = (Ok (ss_MaxKey s), ((), int (length (?a @ ?b))))" for m
    using take_key_at [of ?a "ss_MaxKey s" "?c @ ?d @ ?n @ ?es @ post" m "()"] ok by (simp add: buf)
  have 3: "take_le 4 buf ((), int (length (?a @ ?b))) = (Ok (ss_SamplingDegree s), ((), int (length (?a @ ?b @ ?c))))"
    using take_le_at [of "?a @ ?b" 4 "ss_SamplingDegree s" "?d @ ?n @ ?es @ post" "()"] ok
    by (simp add: buf put_u32_def take_bit_word_eq_self)
  have 4: "take_le 4 buf ((), int (length (?a @ ?b @ ?c))) = (Ok (ss_TotalIndexBlocks s), ((), int (length (?a @ ?b @ ?c @ ?d))))"
    using take_le_at [of "?a @ ?b @ ?c" 4 "ss_TotalIndexBlocks s" "?n @ ?es @ post" "()"] ok
    by (simp add: buf put_u32_def take_bit_word_eq_self)
  have 5: "take_le 4 buf ((), int (length (?a @ ?b @ ?c @ ?d))) =
      (Ok (of_nat (length (ss_Entries s)) :: u32), ((), int (length (?a @ ?b @ ?c @ ?d @ ?n))))"
    using take_le_at [of "?a @ ?b @ ?c @ ?d" 4 "of_nat (length (ss_Entries s)) :: u32" "?es @ post" "()"] ok
    by (simp add: buf put_u32_def take_bit_word_eq_self)
  have 6: "\<exists>st. decode_all (take_summary_entry buf) (length (ss_Entries s)) ((), int (length (?a @ ?b @ ?c @ ?d @ ?n))) =
      (Ok (ss_Entries s), st)"
    using decode_summary_entries [of "?a @ ?b @ ?c @ ?d @ ?n" "ss_Entries s" post "()"] ok by (simp add: buf)
  from 6 obtain st where st: "decode_all (take_summary_entry buf) (length (ss_Entries s)) ((), int (length (?a @ ?b @ ?c @ ?d @ ?n))) =
      (Ok (ss_Entries s), st)" ..
  define p1 p2 p3 p4 p5 where ps: "p1 = int (length ?a)" "p2 = int (length (?a @ ?b))" "p3 = int (length (?a @ ?b @ ?c))"
    "p4 = int (length (?a @ ?b @ ?c @ ?d))" "p5 = int (length (?a @ ?b @ ?c @ ?d @ ?n))"
  note reads = 1 [folded ps] 2 [folded ps] 3 [folded ps] 4 [folded ps] 5 [folded ps] st [folded ps]
  show ?thesis
    unfolding buf_def [symmetric] take_summary_def by (simp add: reads un)
qed

section \<open>Searching\<close>

lemma summary_loop_index:
  "summary_loop es key lo hi res = find_block_loop (map (\<lambda>e. \<lparr>ie_Key = se_Key e, ie_BlockIndex = 0\<rparr>) es) key lo hi res"
  if "0 \<le> lo" "hi < int (length es)"
  using that
proof (induction es key lo hi res rule: summary_loop.induct)
  case (1 es key lo hi res)
  show ?case
  proof (cases "lo \<le> hi")
    case True
    define mid where "mid = lo + (hi - lo) div 2"
    have mid: "lo \<le> mid" "mid \<le> hi" "nat mid < length es" using True "1.prems" by (auto simp: mid_def)
    show ?thesis
      using "1.IH" [OF True mid_def refl] "1.prems" mid
      by (subst summary_loop.simps, subst find_block_loop.simps) (simp add: True mid_def [symmetric] Let_def)
  next
    case False
    then show ?thesis by (subst summary_loop.simps, subst find_block_loop.simps) simp
  qed
qed

text \<open>Position of the last entry not greater than the key, \<open>-1\<close> if there is none.\<close>

lemma summary_loop_floor:
  assumes "sorted_wrt (<) (map se_Key es)"
  shows "summary_loop es key 0 (int (length es) - 1) (-1) < int (length es) \<and>
    (\<forall>i < length es. se_Key (es ! i) \<le> key \<longleftrightarrow> int i \<le> summary_loop es key 0 (int (length es) - 1) (-1))"
proof -
  let ?es = "map (\<lambda>e. \<lparr>ie_Key = se_Key e, ie_BlockIndex = 0\<rparr>) es"
  have "sorted_wrt (<) (map ie_Key ?es)" using assms by (simp add: comp_def)
  then have "find_block_loop ?es key 0 (int (length es) - 1) (-1) < int (length ?es) \<and>
    (\<forall>i < length ?es. ie_Key (?es ! i) \<le> key \<longleftrightarrow> int i \<le> find_block_loop ?es key 0 (int (length es) - 1) (-1))"
    by (rule find_block_loop_result) auto
  moreover have "summary_loop es key 0 (int (length es) - 1) (-1) = find_block_loop ?es key 0 (int (length es) - 1) (-1)"
    by (rule summary_loop_index) auto
  ultimately show ?thesis by simp
qed

lemma summary_loop_ge: "-1 \<le> res \<Longrightarrow> 0 \<le> lo \<Longrightarrow> -1 \<le> summary_loop es key lo hi res"
proof (induction es key lo hi res rule: summary_loop.induct)
  case (1 es key lo hi res)
  show ?case
  proof (cases "lo \<le> hi")
    case True
    define mid where "mid = lo + (hi - lo) div 2"
    have "0 \<le> mid" using True "1.prems" by (simp add: mid_def)
    then show ?thesis
      using "1.IH" [OF True mid_def refl] "1.prems" by (subst summary_loop.simps) (simp add: True mid_def [symmetric] Let_def)
  next
    case False
    then show ?thesis using "1.prems" by (subst summary_loop.simps) simp
  qed
qed

lemma build_loop_all:
  assumes "list_all (\<lambda>b. blk_Entries b \<noteq> []) blocks" "length blocks \<le> length offsets" "i \<le> length blocks"
  shows "build_loop offsets blocks 1 i acc = Some (Ok (acc @
    map (\<lambda>(b, off). \<lparr>se_Key = ie_Key (hd (blk_Entries b)), se_IndexBlockOffset = off\<rparr>) (zip (drop i blocks) (drop i offsets))))"
  using assms(3)
proof (induction "length blocks - i" arbitrary: i acc)
  case 0
  then show ?case by (subst build_loop.simps) simp
next
  case (Suc n)
  then have i: "i < length blocks" "i < length offsets" "n = length blocks - (i + 1)" using assms(2) by auto
  have ne: "blk_Entries (blocks ! i) \<noteq> []" using assms(1) i(1) by (auto simp: list_all_length)
  have "drop i blocks = blocks ! i # drop (i + 1) blocks" "drop i offsets = offsets ! i # drop (i + 1) offsets"
    using i by (simp_all add: Cons_nth_drop_Suc)
  then show ?case
    using Suc.hyps(1) [OF i(3)] i ne by (subst build_loop.simps) (simp add: Let_def hd_conv_nth)
qed

section \<open>The two-level lookup\<close>

lemma in_data_block_unique:
  assumes "sorted_wrt (<) (map ie_Key es)" "in_data_block es i key" "in_data_block es j key"
  shows "i = j"
proof -
  have strict: "a < b \<Longrightarrow> b < length es \<Longrightarrow> ie_Key (es ! a) < ie_Key (es ! b)" for a b
    using sorted_wrt_nth_less [OF assms(1), of a b] by simp
  have "\<not> a < b" if "in_data_block es a key" "in_data_block es b key" for a b
  proof
    assume "a < b"
    with that have "key < ie_Key (es ! Suc a)" "ie_Key (es ! b) \<le> key" "b < length es"
      by (auto simp: in_data_block_def)
    moreover have "ie_Key (es ! Suc a) \<le> ie_Key (es ! b)"
      using \<open>a < b\<close> \<open>b < length es\<close> strict [of "Suc a" b] by (cases "Suc a = b") auto
    ultimately show False by (metis leD order_trans)
  qed
  from this [OF assms(2,3)] this [OF assms(3,2)] show ?thesis by simp
qed

lemma nth_concat_block:
  assumes "j < length bs" "k < length (blk_Entries (bs ! j))"
  shows "seg_entries bs ! (length (seg_entries (take j bs)) + k) = blk_Entries (bs ! j) ! k"
    and "length (seg_entries (take j bs)) + k < length (seg_entries bs)"
    and "Suc k < length (blk_Entries (bs ! j)) \<Longrightarrow>
      seg_entries bs ! Suc (length (seg_entries (take j bs)) + k) = blk_Entries (bs ! j) ! Suc k"
    and "Suc k = length (blk_Entries (bs ! j)) \<Longrightarrow> Suc j < length bs \<Longrightarrow> blk_Entries (bs ! Suc j) \<noteq> [] \<Longrightarrow>
      seg_entries bs ! Suc (length (seg_entries (take j bs)) + k) = hd (blk_Entries (bs ! Suc j))"
    and "Suc k = length (blk_Entries (bs ! j)) \<Longrightarrow> Suc j = length bs \<Longrightarrow>
      length (seg_entries bs) = Suc (length (seg_entries (take j bs)) + k)"
proof -
  let ?p = "length (seg_entries (take j bs))"
  have split: "seg_entries bs = seg_entries (take j bs) @ blk_Entries (bs ! j) @ seg_entries (drop (Suc j) bs)"
    using id_take_nth_drop [OF assms(1)] by (metis append.assoc concat.simps(2) concat_append list.simps(9) map_append)
  have len: "length (seg_entries bs) = ?p + length (blk_Entries (bs ! j)) + length (seg_entries (drop (Suc j) bs))"
    by (subst split) simp
  show "seg_entries bs ! (?p + k) = blk_Entries (bs ! j) ! k"
    using assms(2) by (subst split) (simp add: nth_append)
  show "?p + k < length (seg_entries bs)" using assms(2) len by simp
  show "seg_entries bs ! Suc (?p + k) = blk_Entries (bs ! j) ! Suc k" if "Suc k < length (blk_Entries (bs ! j))"
    using that by (subst split) (simp add: nth_append flip: add_Suc_right)
  show "seg_entries bs ! Suc (?p + k) = hd (blk_Entries (bs ! Suc j))"
    if "Suc k = length (blk_Entries (bs ! j))" "Suc j < length bs" "blk_Entries (bs ! Suc j) \<noteq> []"
  proof -
    have "drop (Suc j) bs = bs ! Suc j # drop (Suc (Suc j)) bs" using that(2) by (simp add: Cons_nth_drop_Suc)
    with that show ?thesis by (subst split) (simp add: nth_append hd_conv_nth flip: add_Suc_right)
  qed
  show "length (seg_entries bs) = Suc (?p + k)" if "Suc k = length (blk_Entries (bs ! j))" "Suc j = length bs"
    using len that by simp
qed

lemma block_sorted:
  assumes "sorted_wrt (<) (map ie_Key (seg_entries bs))" "j < length bs"
  shows "sorted_wrt (<) (map ie_Key (blk_Entries (bs ! j)))"
proof -
  have "seg_entries bs = seg_entries (take j bs) @ blk_Entries (bs ! j) @ seg_entries (drop (Suc j) bs)"
    using id_take_nth_drop [OF assms(2)] by (metis append.assoc concat.simps(2) concat_append list.simps(9) map_append)
  with assms(1) show ?thesis by (simp add: sorted_wrt_append)
qed

text \<open>The first keys of the blocks are strictly sorted too.\<close>

lemma first_keys_sorted:
  assumes "sorted_wrt (<) (map ie_Key (seg_entries bs))" "\<forall>b \<in> set bs. blk_Entries b \<noteq> []"
  shows "sorted_wrt (<) (map (\<lambda>b. ie_Key (hd (blk_Entries b))) bs)"
  using assms
proof (induction bs)
  case (Cons b bs)
  have "ie_Key (hd (blk_Entries b)) < ie_Key (hd (blk_Entries c))" if "c \<in> set bs" for c
  proof -
    have "hd (blk_Entries c) \<in> set (seg_entries bs)" "hd (blk_Entries b) \<in> set (blk_Entries b)"
      using that Cons.prems(2) by (auto intro!: bexI [of _ c])
    with Cons.prems(1) show ?thesis by (auto simp: sorted_wrt_append)
  qed
  with Cons show ?case by (auto simp: sorted_wrt_append)
qed simp

lemma index_build:
  "(\<forall>b \<in> set (is_Blocks seg). blk_Entries b \<noteq> []) \<Longrightarrow>
   (\<forall>b \<in> set (is_Blocks (foldl (\<lambda>s e. IndexSegment_AddEntryToBlock s e n) seg es)). blk_Entries b \<noteq> []) \<and>
   seg_entries (is_Blocks (foldl (\<lambda>s e. IndexSegment_AddEntryToBlock s e n) seg es)) = seg_entries (is_Blocks seg) @ es"
proof (induction es arbitrary: seg)
  case (Cons e es)
  have "\<forall>b \<in> set (is_Blocks (IndexSegment_AddEntryToBlock seg e n)). blk_Entries b \<noteq> []"
    using add_to_last_nonempty [OF Cons.prems] by (simp add: IndexSegment_AddEntryToBlock_def)
  from Cons.IH [OF this] show ?case
    by (simp add: IndexSegment_AddEntryToBlock_def add_to_last_entries)
qed simp

lemma two_level_lookup:
  assumes sorted: "sorted_wrt (<) (map ie_Key (seg_entries bs))" and ne: "\<forall>b \<in> set bs. blk_Entries b \<noteq> []"
    and i: "in_data_block (seg_entries bs) i key"
    and j: "j < length bs" "\<And>t. t < length bs \<Longrightarrow> ie_Key (hd (blk_Entries (bs ! t))) \<le> key \<longleftrightarrow> t \<le> j"
  shows "\<exists>k. FindBlock (bs ! j) key = int k \<and> k < length (blk_Entries (bs ! j)) \<and>
    blk_Entries (bs ! j) ! k = seg_entries bs ! i"
proof -
  let ?b = "blk_Entries (bs ! j)" and ?p = "length (seg_entries (take j bs))"
  have b: "sorted_wrt (<) (map ie_Key ?b)" "?b \<noteq> []" "ie_Key (hd ?b) \<le> key"
    using block_sorted [OF sorted j(1)] ne j(1) j(2) [OF j(1)] by (auto simp: nth_mem)
  define K where "K = {k. k < length ?b \<and> ie_Key (?b ! k) \<le> key}"
  have K: "finite K" "K \<noteq> {}"
    using b(2,3) by (auto simp: K_def hd_conv_nth intro!: exI [of _ 0])
  define k where "k = Max K"
  have k: "k < length ?b" "ie_Key (?b ! k) \<le> key" "Suc k < length ?b \<Longrightarrow> key < ie_Key (?b ! Suc k)"
    using Max_in [OF K] Max_ge [OF K(1), of "Suc k"] unfolding k_def [symmetric]
    by (auto simp: K_def) (meson leI)
  then have kb: "in_data_block ?b k key" by (simp add: in_data_block_def)
  note nth = nth_concat_block [OF j(1) k(1)]
  have "key < ie_Key (seg_entries bs ! Suc (?p + k))" if "Suc (?p + k) < length (seg_entries bs)"
  proof (cases "Suc k < length ?b")
    case True
    with nth(3) k(3) show ?thesis by simp
  next
    case False
    then have last: "Suc k = length ?b" using k(1) by simp
    with nth(5) that have "Suc j \<noteq> length bs" by auto
    then have sj: "Suc j < length bs" using j(1) by simp
    with ne have "blk_Entries (bs ! Suc j) \<noteq> []" by (simp add: nth_mem)
    with nth(4) [OF last sj] j(2) [OF sj] show ?thesis by (simp add: not_le)
  qed
  then have "in_data_block (seg_entries bs) (?p + k) key"
    using nth(1,2) k(2) by (simp add: in_data_block_def)
  with in_data_block_unique [OF sorted i] have "i = ?p + k" by blast
  with nth(1) FindBlock_block [OF b(1) kb] k(1) show ?thesis by auto
qed

section \<open>Properties\<close>

text \<open>An encoded summary segment decodes to itself, and after any change of one of its bytes decoding
  reports a CRC mismatch.\<close>

theorem summary_roundtrip:
  assumes "Summary_Encode s = Ok buf" "slice_ok buf" "length (ss_Entries s) < 2 ^ 32"
    and "i < length buf" "b \<noteq> buf ! i"
  shows "DecodeSummarySegment buf = Ok s \<and>
    DecodeSummarySegment (buf[i := b]) = Inl (Error ''summary CRC mismatch'')"
proof
  let ?body = "summary_body s"
  have buf: "buf = ?body @ put_u32 (crc32_ChecksumIEEE ?body)" using assms(1) by (simp add: Summary_Encode_eq)
  have "read_u32 buf (length ?body) = Ok (crc32_ChecksumIEEE ?body)"
    using read_put_u32 [of "length ?body" ?body _ "[]"] by (simp add: buf)
  moreover have "go_slice buf 0 (int (length ?body)) = Ok ?body" by (simp add: buf go_slice_def)
  moreover have "length buf - 4 = length ?body" "\<not> length buf < 4" by (simp_all add: buf)
  moreover have "fst (take_summary buf ((), 0)) = Ok s"
    using take_summary_at [of s "put_u32 (crc32_ChecksumIEEE ?body)"] assms(2,3) by (simp add: buf)
  ultimately show "DecodeSummarySegment buf = Ok s"
    by (simp add: DecodeSummarySegment_def Let_def)
  have "length (buf[i := b]) - 4 = length ?body" "\<not> length (buf[i := b]) < 4" by (simp_all add: buf)
  then show "DecodeSummarySegment (buf[i := b]) = Inl (Error ''summary CRC mismatch'')"
    using crc_trailer_detects [OF buf assms(4,5)]
    by (simp add: DecodeSummarySegment_def Let_def read_le_def go_slice_def buf)
qed

theorem summary_roundtrip_witness:
  "\<exists>buf. Summary_Encode (NewSummarySegment 1) = Ok buf \<and> DecodeSummarySegment buf = Ok (NewSummarySegment 1) \<and>
    DecodeSummarySegment (buf[0 := 1]) = Inl (Error ''summary CRC mismatch'')"
proof -
  define buf where "buf = summary_body (NewSummarySegment 1) @ put_u32 (crc32_ChecksumIEEE (summary_body (NewSummarySegment 1)))"
  have z: "summary_body (NewSummarySegment 1) = [0, 0, 1, 0, 0, 0, 0, 0, 0, 0, 0, 0, 0, 0]"
    by code_simp
  have "slice_ok buf" "0 < length buf" "1 \<noteq> buf ! 0"
    unfolding buf_def z by (simp_all add: slice_ok_def max_alloc_def)
  from summary_roundtrip [OF _ this(1) _ this(2,3), of "NewSummarySegment 1"] show ?thesis
    by (auto simp: buf_def Summary_Encode_eq NewSummarySegment_def)
qed

text \<open>C38: The summary and the index together find the data block of a key. If the index entries were
  added in key order, blocks of any positive size were formed and the summary was built from all
  of them (sampling degree 1), then the index block the summary selects contains, at the place
  \<^verbatim>\<open>FindBlock\<close> reports, the entry of the data block whose key range holds the key.\<close>

theorem summary_index_lookup:
  assumes "sorted_wrt (<) (map ie_Key es)" "in_data_block es i key"
    and "seg = foldl (\<lambda>s e. IndexSegment_AddEntryToBlock s e blockSize) (NewIndexSegment sz) es"
    and "length (is_Blocks seg) \<le> length offsets" "length (is_Blocks seg) < 2 ^ 31"
  shows "\<exists>s j k. BuildSummaryFromIndex offsets (is_Blocks seg) 1 = Some (Ok s) \<and>
    FindIndexBlockNumber s key = int j \<and> j < length (is_Blocks seg) \<and>
    FindBlock (is_Blocks seg ! j) key = int k \<and> k < length (blk_Entries (is_Blocks seg ! j)) \<and>
    blk_Entries (is_Blocks seg ! j) ! k = es ! i"
proof -
  let ?bs = "is_Blocks seg"
  have ne: "\<forall>b \<in> set ?bs. blk_Entries b \<noteq> []" and es: "seg_entries ?bs = es"
    using index_build [of "NewIndexSegment sz" blockSize es] by (simp_all add: assms(3) NewIndexSegment_def)
  have "es \<noteq> []" using assms(2) by (auto simp: in_data_block_def)
  then have bs: "?bs \<noteq> []" using es by auto
  define ents where "ents = map (\<lambda>(b, off). \<lparr>se_Key = ie_Key (hd (blk_Entries b)), se_IndexBlockOffset = off\<rparr>) (zip ?bs offsets)"
  have len: "length ents = length ?bs" using assms(4) by (simp add: ents_def)
  have "build_loop offsets ?bs 1 0 [] = Some (Ok ents)"
    using build_loop_all [of ?bs offsets 0 "[]"] ne assms(4) by (simp add: ents_def list_all_iff)
  then obtain s where s: "BuildSummaryFromIndex offsets ?bs 1 = Some (Ok s)" "ss_Entries s = ents" "ss_SamplingDegree s = 1"
    using bs by (auto simp: BuildSummaryFromIndex_def Let_def NewSummarySegment_def)
  have keys: "map se_Key ents = map (\<lambda>b. ie_Key (hd (blk_Entries b))) ?bs"
    using assms(4) by (intro nth_equalityI) (simp_all add: ents_def)
  have "sorted_wrt (<) (map se_Key ents)"
    unfolding keys using first_keys_sorted [OF _ ne] assms(1) es by simp
  define r where "r = summary_loop ents key 0 (int (length ents) - 1) (-1)"
  have r: "r < int (length ?bs)" "\<And>t. t < length ?bs \<Longrightarrow> ie_Key (hd (blk_Entries (?bs ! t))) \<le> key \<longleftrightarrow> int t \<le> r"
  proof -
    from summary_loop_floor [OF \<open>sorted_wrt (<) (map se_Key ents)\<close>, of key]
    have *: "r < int (length ents)" "\<forall>t < length ents. se_Key (ents ! t) \<le> key \<longleftrightarrow> int t \<le> r"
      unfolding r_def by auto
    show "r < int (length ?bs)" using * len by simp
    show "ie_Key (hd (blk_Entries (?bs ! t))) \<le> key \<longleftrightarrow> int t \<le> r" if "t < length ?bs" for t
    proof -
      have "se_Key (ents ! t) = ie_Key (hd (blk_Entries (?bs ! t)))"
        using that len arg_cong [OF keys, of "\<lambda>xs. xs ! t"] by simp
      with * that len show ?thesis by metis
    qed
  qed
  have "hd (blk_Entries (?bs ! 0)) = es ! 0"
    using bs ne es by (cases ?bs) (auto simp: nth_append hd_conv_nth)
  moreover have "ie_Key (es ! 0) \<le> key"
  proof (cases "i = 0")
    case False
    then have "ie_Key (es ! 0) < ie_Key (es ! i)"
      using sorted_wrt_nth_less [OF assms(1), of 0 i] assms(2) \<open>es \<noteq> []\<close> by (simp add: in_data_block_def)
    with assms(2) show ?thesis by (auto simp: in_data_block_def)
  qed (use assms(2) in \<open>simp add: in_data_block_def\<close>)
  ultimately have "0 \<le> r" using r(2) [of 0] bs by simp
  then obtain j where j: "r = int j" by (metis nonneg_int_cases)
  have "FindIndexBlockNumber s key = int j"
    using j r(1) assms(5) unfolding FindIndexBlockNumber_def s(2,3) r_def [symmetric]
    by (simp add: go_int_small)
  moreover have jb: "j < length ?bs" using r(1) j by simp
  moreover have "\<exists>k. FindBlock (?bs ! j) key = int k \<and> k < length (blk_Entries (?bs ! j)) \<and> blk_Entries (?bs ! j) ! k = es ! i"
    using two_level_lookup [of ?bs i key j] assms(1,2) ne jb r(2) by (simp add: es j)
  ultimately show ?thesis using s(1) by blast
qed

theorem summary_index_lookup_witness:
  "\<exists>s j k. BuildSummaryFromIndex [0, 64] (is_Blocks (foldl (\<lambda>s e. IndexSegment_AddEntryToBlock s e 1) (NewIndexSegment 64)
        [\<lparr>ie_Key = [97], ie_BlockIndex = 0\<rparr>, \<lparr>ie_Key = [104], ie_BlockIndex = 1\<rparr>])) 1 = Some (Ok s) \<and>
    FindIndexBlockNumber s [105] = int j \<and>
    FindBlock (is_Blocks (foldl (\<lambda>s e. IndexSegment_AddEntryToBlock s e 1) (NewIndexSegment 64)
        [\<lparr>ie_Key = [97], ie_BlockIndex = 0\<rparr>, \<lparr>ie_Key = [104], ie_BlockIndex = 1\<rparr>]) ! j) [105] = int k"
proof -
  let ?es = "[\<lparr>ie_Key = [97], ie_BlockIndex = 0\<rparr>, \<lparr>ie_Key = [104], ie_BlockIndex = 1\<rparr>] :: IndexEntry list"
  have "length (is_Blocks (foldl (\<lambda>s e. IndexSegment_AddEntryToBlock s e 1) (NewIndexSegment 64) ?es)) = 2"
    by (simp add: IndexSegment_AddEntryToBlock_def NewIndexSegment_def add_to_last_def add_entry_def new_block_def)
  then show ?thesis
    using summary_index_lookup [of ?es 1 "[105]" _ 1 64 "[0, 64]", OF _ _ refl] by (fastforce simp: in_data_block_def)
qed

end
