(* ===== verification/Metadata.thy ===== *)
theory Metadata
  imports Go_Binary
begin

text \<open>
  \<^verbatim>\<open>internal/sstable/metadata.go\<close>: the metadata segment, a map from 16-bit field identifiers to
  byte strings, written as identifier, length and value in the order of the identifiers. A Go
  map is a partial function here; its keys in sorted order are found by trying all identifiers.
\<close>

section \<open>Model\<close>

type_synonym MetadataFieldID = u16

record Metadata =
  md_Fields :: "MetadataFieldID \<rightharpoonup> bytes"

definition sorted_ids :: "(u16 \<rightharpoonup> bytes) \<Rightarrow> u16 list" where
  "sorted_ids fs = filter (\<lambda>i. fs i \<noteq> None) (map of_nat [0..<65536])"

definition field_bytes :: "u16 \<Rightarrow> bytes \<Rightarrow> bytes" where
  "field_bytes i val = put_u16 i @ put_u32 (of_nat (length val)) @ val"

definition Metadata_Encode :: "Metadata \<Rightarrow> bytes" where
  "Metadata_Encode m =
     foldl (\<lambda>buf i. case md_Fields m i of None \<Rightarrow> buf | Some val \<Rightarrow> buf @ field_bytes i val) [] (sorted_ids (md_Fields m))"

text \<open>The loop, on the part of the buffer from the current position on.\<close>

function decode_fields :: "bytes \<Rightarrow> (u16 \<rightharpoonup> bytes) \<Rightarrow> (u16 \<rightharpoonup> bytes) result" where
  "decode_fields tail m =
     (if tail = [] then Ok m
      else if length tail < 6 then Inl (Error ''corrupt metadata'')
      else
        let i = get_le (take 2 tail); l = unat (get_le (take 4 (drop 2 tail)) :: u32); rest = drop 6 tail in
        if length rest < l then Inl (Error ''invalid field length'')
        else decode_fields (drop l rest) (m(i \<mapsto> take l rest)))"
  by pat_completeness auto
termination
  by (relation "measure (\<lambda>(tail, m). length tail)") auto

declare decode_fields.simps [simp del]

definition Metadata_Decode :: "bytes \<Rightarrow> Metadata result" where
  "Metadata_Decode buf = bind_r (decode_fields buf Map.empty) (\<lambda>fs. Ok \<lparr>md_Fields = fs\<rparr>)"

definition GetByte :: "Metadata \<Rightarrow> u16 \<Rightarrow> byte \<times> bool" where
  "GetByte m i = (case md_Fields m i of
     None \<Rightarrow> (0, False) | Some v \<Rightarrow> if length v \<noteq> 1 then (0, False) else (v ! 0, True))"

definition GetBytes :: "Metadata \<Rightarrow> u16 \<Rightarrow> bytes option" where
  "GetBytes m i = md_Fields m i"

definition GetUint64 :: "Metadata \<Rightarrow> u16 \<Rightarrow> u64 \<times> bool" where
  "GetUint64 m i = (case md_Fields m i of
     None \<Rightarrow> (0, False) | Some v \<Rightarrow> if length v \<noteq> 8 then (0, False) else (get_le v, True))"

definition GetBool :: "Metadata \<Rightarrow> u16 \<Rightarrow> bool \<times> bool" where
  "GetBool m i = (case md_Fields m i of
     None \<Rightarrow> (False, False) | Some v \<Rightarrow> if length v \<noteq> 1 then (False, False) else (v ! 0 \<noteq> 0, True))"

definition GetString :: "Metadata \<Rightarrow> u16 \<Rightarrow> bytes \<times> bool" where
  "GetString m i = (case md_Fields m i of None \<Rightarrow> ([], False) | Some v \<Rightarrow> (v, True))"

definition SetByte :: "Metadata \<Rightarrow> u16 \<Rightarrow> byte \<Rightarrow> Metadata" where
  "SetByte m i v = m\<lparr>md_Fields := (md_Fields m)(i \<mapsto> [v])\<rparr>"

text \<open>\<^verbatim>\<open>SetBytes\<close> of a nil slice removes the field.\<close>

definition SetBytes :: "Metadata \<Rightarrow> u16 \<Rightarrow> bytes option \<Rightarrow> Metadata" where
  "SetBytes m i v = m\<lparr>md_Fields := (md_Fields m)(i := v)\<rparr>"

definition SetUint64 :: "Metadata \<Rightarrow> u16 \<Rightarrow> u64 \<Rightarrow> Metadata" where
  "SetUint64 m i v = m\<lparr>md_Fields := (md_Fields m)(i \<mapsto> put_u64 v)\<rparr>"

definition SetBool :: "Metadata \<Rightarrow> u16 \<Rightarrow> bool \<Rightarrow> Metadata" where
  "SetBool m i v = m\<lparr>md_Fields := (md_Fields m)(i \<mapsto> (if v then [1] else [0]))\<rparr>"

definition SetString :: "Metadata \<Rightarrow> u16 \<Rightarrow> bytes \<Rightarrow> Metadata" where
  "SetString m i s = m\<lparr>md_Fields := (md_Fields m)(i \<mapsto> s)\<rparr>"

section \<open>Lemmas\<close>

lemma set_sorted_ids: "set (sorted_ids fs) = dom fs"
proof -
  have "w \<in> of_nat ` {0..<65536}" for w :: u16
    using unsigned_less [of w, where 'a = nat] by (intro image_eqI [of _ _ "unat w"]) auto
  then show ?thesis by (auto simp: sorted_ids_def)
qed

lemma distinct_sorted_ids: "distinct (sorted_ids fs)"
proof -
  have "inj_on (of_nat :: nat \<Rightarrow> u16) {0..<65536}"
    by (rule inj_onI) (simp add: word_unat_eq_iff unsigned_of_nat take_bit_nat_eq_self)
  then show ?thesis by (simp add: sorted_ids_def distinct_map)
qed

lemma decode_field:
  assumes "length val < 2 ^ 32"
  shows "decode_fields (field_bytes i val @ tail) m = decode_fields tail (m(i \<mapsto> val))"
proof -
  have u: "unat (of_nat (length val) :: u32) = length val"
    using assms by (simp add: unsigned_of_nat take_bit_nat_eq_self)
  have b: "field_bytes i val @ tail = put_u16 i @ put_u32 (of_nat (length val)) @ val @ tail"
    by (simp add: field_bytes_def)
  have g: "get_le (put_u16 i) = i" "get_le (put_u32 w) = w" for w
    by (simp_all add: put_u16_def put_u32_def get_le_put_le take_bit_word_eq_self)
  have ne: "put_u16 i \<noteq> []" by (metis length_put_u(1) list.size(3) zero_neq_numeral)
  show ?thesis
    by (subst decode_fields.simps) (simp add: b g u ne Let_def)
qed

lemma encode_foldl:
  "foldl (\<lambda>buf i. case f i of None \<Rightarrow> buf | Some val \<Rightarrow> buf @ field_bytes i val) b ids =
     b @ concat (map (\<lambda>i. case f i of None \<Rightarrow> [] | Some val \<Rightarrow> field_bytes i val) ids)"
  by (induction ids arbitrary: b) (auto split: option.split)

lemma decode_encoded_fields:
  assumes "\<forall>val \<in> ran f. length val < 2 ^ 32" "set ids \<subseteq> dom f" "distinct ids"
  shows "decode_fields (concat (map (\<lambda>i. case f i of None \<Rightarrow> [] | Some val \<Rightarrow> field_bytes i val) ids)) m =
    Ok (m ++ (f |` set ids))"
  using assms(2,3)
proof (induction ids arbitrary: m)
  case Nil
  then show ?case by (simp add: decode_fields.simps)
next
  case (Cons i ids)
  then obtain val where v: "f i = Some val" by auto
  with assms(1) have "length val < 2 ^ 32" by (auto simp: ran_def)
  moreover have "m(i \<mapsto> val) ++ (f |` set ids) = m ++ (f |` set (i # ids))"
    using Cons.prems(2) v by (auto simp: map_add_def restrict_map_def fun_eq_iff split: option.split)
  ultimately show ?case using Cons v by (simp add: decode_field)
qed

lemma Metadata_Decode_Encode:
  assumes "\<forall>val \<in> ran (md_Fields d). length val < 2 ^ 32"
  shows "Metadata_Decode (Metadata_Encode d) = Ok d"
  using decode_encoded_fields [OF assms, of "sorted_ids (md_Fields d)" Map.empty] distinct_sorted_ids [of "md_Fields d"]
  by (simp add: Metadata_Decode_def Metadata_Encode_def encode_foldl set_sorted_ids restrict_map_def domIff fun_eq_iff)

section \<open>Properties\<close>

text \<open>Metadata survive writing and reading: decoding what \<^verbatim>\<open>Encode\<close> wrote gives the same fields, so
  every setter's value is read back by its getter after the round trip and other fields are untouched.\<close>

theorem metadata_roundtrip:
  assumes "\<forall>val \<in> ran (md_Fields m). length val < 2 ^ 32"
  shows "Metadata_Decode (Metadata_Encode m) = Ok m \<and>
    map_sum id (\<lambda>d. (GetUint64 d i, GetBytes d j)) (Metadata_Decode (Metadata_Encode (SetUint64 m i v))) =
      Ok ((v, True), if i = j then Some (put_u64 v) else GetBytes m j) \<and>
    map_sum id (\<lambda>d. (GetByte d i, GetBytes d j)) (Metadata_Decode (Metadata_Encode (SetByte m i b))) =
      Ok ((b, True), if i = j then Some [b] else GetBytes m j) \<and>
    map_sum id (\<lambda>d. (GetBool d i, GetBytes d j)) (Metadata_Decode (Metadata_Encode (SetBool m i c))) =
      Ok ((c, True), if i = j then Some [of_bool c] else GetBytes m j) \<and>
    map_sum id (\<lambda>d. (GetString d i, GetBytes d j)) (Metadata_Decode (Metadata_Encode (SetBytes m i None))) =
      Ok (([], False), if i = j then None else GetBytes m j)"
proof -
  note rt = Metadata_Decode_Encode
  have upd: "\<forall>val \<in> ran ((md_Fields m)(i \<mapsto> x)). length val < 2 ^ 32" if "length x < 2 ^ 32" for x
    using assms that by (auto simp: ran_def)
  have del: "\<forall>val \<in> ran ((md_Fields m)(i := None)). length val < 2 ^ 32"
    using assms by (auto simp: ran_def)
  show ?thesis
    using rt [OF assms] rt [of "SetUint64 m i v"] rt [of "SetByte m i b"] rt [of "SetBool m i c"] rt [of "SetBytes m i None"]
      upd [of "put_u64 v"] upd [of "[b]"] upd [of "[1]"] upd [of "[0]"] del
    by (auto simp: SetUint64_def SetByte_def SetBool_def SetBytes_def GetUint64_def GetByte_def GetBool_def
        GetString_def GetBytes_def put_u64_def get_le_put_le take_bit_word_eq_self)
qed

theorem metadata_roundtrip_witness:
  "Metadata_Decode (Metadata_Encode \<lparr>md_Fields = [1 \<mapsto> [7, 8], 1000 \<mapsto> []]\<rparr>) = Ok \<lparr>md_Fields = [1 \<mapsto> [7, 8], 1000 \<mapsto> []]\<rparr>"
proof -
  have "\<forall>val \<in> ran (md_Fields \<lparr>md_Fields = [1 \<mapsto> [7, 8], 1000 \<mapsto> []]\<rparr>). length val < 2 ^ 32"
    by (auto simp: ran_def split: if_splits)
  from metadata_roundtrip [OF this] show ?thesis by blast
qed

end
