(* ===== verification/Hashing.thy ===== *)
theory Hashing
  imports Go_Binary
begin

unbundle bit_operations_syntax

text \<open>
  \<^verbatim>\<open>internal/probabilistics/hash.go\<close>: the seeded hash function of the probabilistic structures, the first
  eight bytes of the MD5 digest of the data followed by the seed. MD5 (\<^verbatim>\<open>crypto/md5\<close>) is defined here so
  that hashing is executable; no lemma depends on its properties. This theory also has the
  big-endian integers (\<^verbatim>\<open>binary.BigEndian\<close>) and the reading of a stream that the structures use
  to store themselves.
\<close>

section \<open>MD5\<close>

definition md5_K :: "u32 list" where
  "md5_K = [
      0xd76aa478, 0xe8c7b756, 0x242070db, 0xc1bdceee, 0xf57c0faf, 0x4787c62a, 0xa8304613, 0xfd469501,
      0x698098d8, 0x8b44f7af, 0xffff5bb1, 0x895cd7be, 0x6b901122, 0xfd987193, 0xa679438e, 0x49b40821,
      0xf61e2562, 0xc040b340, 0x265e5a51, 0xe9b6c7aa, 0xd62f105d, 0x02441453, 0xd8a1e681, 0xe7d3fbc8,
      0x21e1cde6, 0xc33707d6, 0xf4d50d87, 0x455a14ed, 0xa9e3e905, 0xfcefa3f8, 0x676f02d9, 0x8d2a4c8a,
      0xfffa3942, 0x8771f681, 0x6d9d6122, 0xfde5380c, 0xa4beea44, 0x4bdecfa9, 0xf6bb4b60, 0xbebfbc70,
      0x289b7ec6, 0xeaa127fa, 0xd4ef3085, 0x04881d05, 0xd9d4d039, 0xe6db99e5, 0x1fa27cf8, 0xc4ac5665,
      0xf4292244, 0x432aff97, 0xab9423a7, 0xfc93a039, 0x655b59c3, 0x8f0ccc92, 0xffeff47d, 0x85845dd1,
      0x6fa87e4f, 0xfe2ce6e0, 0xa3014314, 0x4e0811a1, 0xf7537e82, 0xbd3af235, 0x2ad7d2bb, 0xeb86d391]"

definition md5_shift :: "nat list" where
  "md5_shift = concat (replicate 4 [7, 12, 17, 22]) @ concat (replicate 4 [5, 9, 14, 20]) @
     concat (replicate 4 [4, 11, 16, 23]) @ concat (replicate 4 [6, 10, 15, 21])"

definition rotl32 :: "nat \<Rightarrow> u32 \<Rightarrow> u32" where
  "rotl32 n x = push_bit n x OR drop_bit (32 - n) x"

type_synonym md5_state = "u32 \<times> u32 \<times> u32 \<times> u32"

text \<open>One of the 64 steps on a block of 16 words.\<close>

definition md5_round :: "u32 list \<Rightarrow> nat \<Rightarrow> md5_state \<Rightarrow> md5_state" where
  "md5_round words i = (\<lambda>(a, b, c, d).
     let (f, g) =
           (if i < 16 then ((b AND c) OR (NOT b AND d), i)
            else if i < 32 then ((d AND b) OR (NOT d AND c), (5 * i + 1) mod 16)
            else if i < 48 then (b XOR c XOR d, (3 * i + 5) mod 16)
            else (c XOR (b OR NOT d), (7 * i) mod 16));
         f = f + a + md5_K ! i + words ! g
     in (d, b + rotl32 (md5_shift ! i) f, b, c))"

definition md5_block :: "bytes \<Rightarrow> md5_state \<Rightarrow> md5_state" where
  "md5_block block st =
     (let words = map (\<lambda>i. get_le (take 4 (drop (4 * i) block))) [0..<16];
          (a, b, c, d) = fold (md5_round words) [0..<64] st; (a0, b0, c0, d0) = st
      in (a0 + a, b0 + b, c0 + c, d0 + d))"

definition md5_pad :: "bytes \<Rightarrow> bytes" where
  "md5_pad msg = msg @ [0x80] @ make_bytes ((119 - length msg mod 64) mod 64) @ put_u64 (of_nat (8 * length msg))"

fun md5_blocks :: "nat \<Rightarrow> bytes \<Rightarrow> md5_state \<Rightarrow> md5_state" where
  "md5_blocks 0 msg st = st"
| "md5_blocks (Suc n) msg st = md5_blocks n (drop 64 msg) (md5_block (take 64 msg) st)"

definition md5_Sum :: "bytes \<Rightarrow> bytes" where
  "md5_Sum msg =
     (let p = md5_pad msg;
          (a, b, c, d) = md5_blocks (length p div 64) p (0x67452301, 0xefcdab89, 0x98badcfe, 0x10325476)
      in put_u32 a @ put_u32 b @ put_u32 c @ put_u32 d)"

section \<open>Big-endian integers\<close>

definition put_be64 :: "u64 \<Rightarrow> bytes" where
  "put_be64 w = rev (put_le 8 w)"

definition get_be64 :: "bytes \<Rightarrow> u64" where
  "get_be64 bs = get_le (rev bs)"

lemma length_put_be64 [simp]: "length (put_be64 w) = 8"
  by (simp add: put_be64_def)

lemma get_put_be64 [simp]: "get_be64 (put_be64 w) = w"
  by (simp add: get_be64_def put_be64_def get_le_put_le take_bit_word_eq_self)

section \<open>HashWithSeed\<close>

record HashWithSeed =
  hs_Seed :: bytes

definition Hash :: "HashWithSeed \<Rightarrow> bytes \<Rightarrow> u64" where
  "Hash h data = get_be64 (take 8 (md5_Sum (data @ hs_Seed h)))"

definition CreateHashFunctions :: "bytes list \<Rightarrow> HashWithSeed list" where
  "CreateHashFunctions seeds = map (\<lambda>v. \<lparr>hs_Seed = v\<rparr>) seeds"

section \<open>Readers\<close>

text \<open>
  A \<^verbatim>\<open>bytes.Reader\<close> is the rest of its data. \<^verbatim>\<open>io.ReadFull\<close> and \<^verbatim>\<open>binary.Read\<close> fail with an
  \<^verbatim>\<open>EOF\<close> error when fewer bytes are left.
\<close>

definition ReadFull :: "nat \<Rightarrow> (bytes, bytes) op" where
  "ReadFull n rest = (if length rest < n then (Inl (Error ''EOF''), []) else (Ok (take n rest), drop n rest))"

definition ReadU64 :: "(bytes, u64) op" where
  "ReadU64 = bind_s (ReadFull 8) (\<lambda>bs. ret_s (get_be64 bs))"

text \<open>A length, a slice of that length made and filled; \<^verbatim>\<open>make\<close> panics when the length is absurd.\<close>

definition ReadSlice :: "(bytes, bytes) op" where
  "ReadSlice = bind_s ReadU64 (\<lambda>n. bind_s (lift_s (make_len n)) (\<lambda>buf. ReadFull (length buf)))"

definition WriteSlice :: "bytes \<Rightarrow> bytes" where
  "WriteSlice bs = put_be64 (of_nat (length bs)) @ bs"

lemma ReadFull_at: "n = length bs \<Longrightarrow> ReadFull n (bs @ rest) = (Ok bs, rest)"
  by (simp add: ReadFull_def)

lemma ReadU64_at: "ReadU64 (put_be64 w @ rest) = (Ok w, rest)"
  by (simp add: ReadU64_def ReadFull_at)

lemma ReadSlice_at:
  assumes "slice_ok bs"
  shows "ReadSlice (WriteSlice bs @ rest) = (Ok bs, rest)"
proof -
  have "unat (of_nat (length bs) :: u64) = length bs"
    using assms by (simp add: slice_ok_def max_alloc_def unsigned_of_nat take_bit_nat_eq_self)
  then show ?thesis
    using assms by (simp add: ReadSlice_def WriteSlice_def ReadU64_at make_len_def slice_ok_def ReadFull_at)
qed

fun read_many :: "('s, 'a) op \<Rightarrow> nat \<Rightarrow> ('s, 'a list) op" where
  "read_many r 0 = ret_s []"
| "read_many r (Suc n) = bind_s r (\<lambda>x. bind_s (read_many r n) (\<lambda>xs. ret_s (x # xs)))"

lemma read_many_at:
  assumes "\<And>x rest. x \<in> set xs \<Longrightarrow> r (w x @ rest) = (Ok x, rest)"
  shows "read_many r (length xs) (concat (map w xs) @ rest) = (Ok xs, rest)"
  using assms by (induction xs) simp_all

end
