(* ===== verification/Bit_Set.thy ===== *)
theory Bit_Set
  imports Prelude
begin

unbundle bit_operations_syntax

text \<open>
  Sets of bits in byte slices: \<^verbatim>\<open>internal/sstable/bitset.go\<close>, which grows on demand, and the
  operations on one byte that the Bloom filter's bit array shares with it. Bit indices are
  natural numbers: the callers count records from 0 or reduce a hash modulo the array size.
\<close>

section \<open>Bits of a byte\<close>

definition set_in_byte :: "byte \<Rightarrow> nat \<Rightarrow> byte" where
  "set_in_byte b i = b OR push_bit i 1"

definition get_in_byte :: "byte \<Rightarrow> nat \<Rightarrow> bool" where
  "get_in_byte b i \<longleftrightarrow> b AND push_bit i 1 \<noteq> 0"

lemma get_in_byte_bit: "i < 8 \<Longrightarrow> get_in_byte b i = bit b i"
  by (simp add: get_in_byte_def bit_iff_and_push_bit_not_eq_0)

lemma get_set_in_byte: "i < 8 \<Longrightarrow> j < 8 \<Longrightarrow> get_in_byte (set_in_byte b i) j \<longleftrightarrow> i = j \<or> get_in_byte b j"
  by (auto simp: get_in_byte_bit set_in_byte_def bit_or_iff bit_exp_iff)

section \<open>BitSet\<close>

record BitSet =
  bs_bytes :: bytes
  bs_bits :: nat

definition NewBitSet :: "nat \<Rightarrow> BitSet" where
  "NewBitSet capacity =
     (let numBytes = (capacity + 7) div 8; numBytes = (if numBytes = 0 then 1 else numBytes)
      in \<lparr>bs_bytes = make_bytes numBytes, bs_bits = capacity\<rparr>)"

definition BitSet_Set :: "BitSet \<Rightarrow> nat \<Rightarrow> BitSet" where
  "BitSet_Set b idx =
     (let byteIdx = idx div 8; bitIdx = idx mod 8;
          bytes = bs_bytes b @ make_bytes (Suc byteIdx - length (bs_bytes b))
      in \<lparr>bs_bytes = bytes[byteIdx := set_in_byte (bytes ! byteIdx) bitIdx],
          bs_bits = (if bs_bits b \<le> idx then idx + 1 else bs_bits b)\<rparr>)"

definition BitSet_Get :: "BitSet \<Rightarrow> nat \<Rightarrow> bool" where
  "BitSet_Get b idx =
     (let byteIdx = idx div 8 in
      if length (bs_bytes b) \<le> byteIdx then False
      else get_in_byte (bs_bytes b ! byteIdx) (idx mod 8))"

definition BitSet_Encode :: "BitSet \<Rightarrow> bytes" where
  "BitSet_Encode b = (if bs_bits b = 0 then [] else bs_bytes b)"

definition DecodeBitSet :: "bytes \<Rightarrow> BitSet" where
  "DecodeBitSet data = \<lparr>bs_bytes = data, bs_bits = length data * 8\<rparr>"

section \<open>The contract of a bit array\<close>

text \<open>
  Setting a bit within range sets that bit and no other, and keeps the range.
\<close>

locale bit_store =
  fixes set_bit :: "'s \<Rightarrow> nat \<Rightarrow> 's" and get_bit :: "'s \<Rightarrow> nat \<Rightarrow> bool" and ok :: "'s \<Rightarrow> nat \<Rightarrow> bool"
  assumes get_set: "ok s i \<Longrightarrow> get_bit (set_bit s i) j \<longleftrightarrow> i = j \<or> get_bit s j"
    and ok_set: "ok s i \<Longrightarrow> ok (set_bit s i) j = ok s j"
begin

lemma get_set_all:
  "(\<And>i. i \<in> set is \<Longrightarrow> ok s i) \<Longrightarrow> get_bit (foldl set_bit s is) j \<longleftrightarrow> j \<in> set is \<or> get_bit s j"
proof (induction "is" arbitrary: s)
  case (Cons i ks)
  then have "ok s i" by simp
  with Cons.IH [of "set_bit s i"] Cons.prems show ?case by (auto simp: get_set ok_set)
qed simp

lemma ok_set_all:
  "(\<And>i. i \<in> set is \<Longrightarrow> ok s i) \<Longrightarrow> ok (foldl set_bit s is) j = ok s j"
proof (induction "is" arbitrary: s)
  case (Cons i ks)
  then have "ok s i" by simp
  with Cons.IH [of "set_bit s i"] Cons.prems show ?case by (auto simp: ok_set)
qed simp

end

lemma nth_make_bytes: "i < n \<Longrightarrow> make_bytes n ! i = 0"
  by (simp add: make_bytes_def)

lemma get_in_zero: "\<not> get_in_byte 0 i"
  by (simp add: get_in_byte_def)

interpretation grow: bit_store BitSet_Set BitSet_Get "\<lambda>_ _. True"
proof unfold_locales
  fix s :: BitSet and i j
  let ?b = "bs_bytes s @ make_bytes (Suc (i div 8) - length (bs_bytes s))"
  have len: "i div 8 < length ?b" by auto
  have old: "BitSet_Get s j = (j div 8 < length ?b \<and> get_in_byte (?b ! (j div 8)) (j mod 8))"
    by (auto simp: BitSet_Get_def Let_def nth_append nth_make_bytes get_in_zero)
  have new: "BitSet_Get (BitSet_Set s i) j = (j div 8 < length ?b \<and>
      get_in_byte (?b[i div 8 := set_in_byte (?b ! (i div 8)) (i mod 8)] ! (j div 8)) (j mod 8))"
    by (auto simp: BitSet_Get_def BitSet_Set_def Let_def)
  have same: "i = j \<longleftrightarrow> i div 8 = j div 8 \<and> i mod 8 = j mod 8"
    by (metis div_mult_mod_eq)
  show "BitSet_Get (BitSet_Set s i) j = (i = j \<or> BitSet_Get s j)"
  proof (cases "i div 8 = j div 8")
    case True
    then show ?thesis
      using len old new get_set_in_byte [of "i mod 8" "j mod 8" "?b ! (j div 8)"] same by auto
  next
    case False
    then show ?thesis using old new same by auto
  qed
qed simp

text \<open>A bit set contains exactly the indices that were set, at any index and whatever its initial
  capacity, and the bytes it is stored as decode to a set with the same members.\<close>

theorem bitset_membership:
  "(BitSet_Get (foldl BitSet_Set (NewBitSet capacity) idxs) j \<longleftrightarrow> j \<in> set idxs) \<and>
   (BitSet_Get (DecodeBitSet (BitSet_Encode (foldl BitSet_Set (NewBitSet capacity) idxs))) j \<longleftrightarrow> j \<in> set idxs)"
proof -
  let ?b = "foldl BitSet_Set (NewBitSet capacity) idxs"
  have "\<not> BitSet_Get (NewBitSet capacity) j"
    by (auto simp: BitSet_Get_def NewBitSet_def Let_def nth_make_bytes get_in_zero)
  then have get: "BitSet_Get ?b j \<longleftrightarrow> j \<in> set idxs"
    using grow.get_set_all [of idxs "NewBitSet capacity" j] by simp
  have "idxs \<noteq> [] \<Longrightarrow> 0 < bs_bits (foldl BitSet_Set b idxs)" for b
    by (induction idxs rule: rev_induct) (auto simp: BitSet_Set_def Let_def)
  then have zero: "idxs = []" if "bs_bits ?b = 0" using that by (metis less_irrefl)
  have "BitSet_Get (DecodeBitSet (BitSet_Encode ?b)) j = BitSet_Get ?b j"
  proof (cases "bs_bits ?b = 0")
    case True
    have "\<not> BitSet_Get ?b j" unfolding get using zero [OF True] by simp
    moreover have "\<not> BitSet_Get (DecodeBitSet []) j" by (simp add: BitSet_Get_def DecodeBitSet_def)
    moreover have "BitSet_Encode ?b = []" using True by (simp add: BitSet_Encode_def)
    ultimately show ?thesis by simp
  next
    case False
    then show ?thesis by (simp add: BitSet_Encode_def DecodeBitSet_def BitSet_Get_def)
  qed
  with get show ?thesis by simp
qed

end
