(* ===== verification/Bloom_Filter.thy ===== *)
theory Bloom_Filter
  imports Hashing Bit_Set
begin

unbundle bit_operations_syntax

text \<open>
  \<^verbatim>\<open>internal/probabilistics/bloom_filter.go\<close> and \<^verbatim>\<open>internal/sstable/filter.go\<close>: the Bloom filter, its
  binary format and the filter segment of an SSTable. \<^verbatim>\<open>uint\<close> is 64 bits. A \<^verbatim>\<open>float64\<close> is its bit
  pattern, of which the code stores, compares and range-checks. The sizes that
  \<^verbatim>\<open>calculateM\<close> and \<^verbatim>\<open>calculateK\<close> compute in floating point, and the random seeds, are arguments of
  the constructor. Receivers are not nil.
\<close>

section \<open>Floating-point bit patterns\<close>

type_synonym f64 = u64

definition f64_nan :: "f64 \<Rightarrow> bool" where
  "f64_nan x \<longleftrightarrow> drop_bit 52 x AND 0x7FF = 0x7FF \<and> take_bit 52 x \<noteq> 0"

definition f64_eq :: "f64 \<Rightarrow> f64 \<Rightarrow> bool" where
  "f64_eq x y \<longleftrightarrow> \<not> f64_nan x \<and> \<not> f64_nan y \<and> (x = y \<or> take_bit 63 x = 0 \<and> take_bit 63 y = 0)"

text \<open>\<^verbatim>\<open>p <= 0 || p >= 1\<close>, and the constant \<^verbatim>\<open>0.01\<close>.\<close>

definition f64_outside_unit :: "f64 \<Rightarrow> bool" where
  "f64_outside_unit p \<longleftrightarrow> \<not> f64_nan p \<and> (bit p 63 \<or> take_bit 63 p = 0 \<or> 0x3FF0000000000000 \<le> p)"

definition f64_one_percent :: f64 where
  "f64_one_percent = 0x3F847AE147AE147B"

section \<open>Model\<close>

record BloomFilter =
  bf_n :: u64
  bf_p :: f64
  bf_m :: u64
  bf_k :: u64
  bf_bits :: bytes
  bf_hashFunctions :: "HashWithSeed list"

definition NewBloomFilterWithParams ::
    "(u64 \<Rightarrow> f64 \<Rightarrow> u64) \<Rightarrow> (u64 \<Rightarrow> u64 \<Rightarrow> u64) \<Rightarrow> (nat \<Rightarrow> bytes list) \<Rightarrow>
     u64 \<Rightarrow> f64 \<Rightarrow> bytes list \<Rightarrow> BloomFilter result" where
  "NewBloomFilterWithParams calculateM calculateK generateSeeds expectedElements falsePositiveRate seeds =
     (let n = (if expectedElements = 0 then 1 else expectedElements);
          p = (if f64_outside_unit falsePositiveRate then f64_one_percent else falsePositiveRate);
          m = calculateM n p;
          k = calculateK m n;
          k = (if k = 0 then 1 else k)
      in bind_r (make_len ((m + 7) div 8)) (\<lambda>bits.
         let seeds = (if length seeds \<noteq> unat k then generateSeeds (unat k) else seeds)
         in Ok \<lparr>bf_n = n, bf_p = p, bf_m = m, bf_k = k, bf_bits = bits,
                bf_hashFunctions = CreateHashFunctions seeds\<rparr>))"

definition setBit :: "bytes \<Rightarrow> nat \<Rightarrow> bytes" where
  "setBit bits pos =
     (if length bits \<le> pos div 8 then bits
      else bits[pos div 8 := set_in_byte (bits ! (pos div 8)) (pos mod 8)])"

definition getBit :: "bytes \<Rightarrow> nat \<Rightarrow> bool" where
  "getBit bits pos =
     (if length bits \<le> pos div 8 then False else get_in_byte (bits ! (pos div 8)) (pos mod 8))"

definition hash_pos :: "u64 \<Rightarrow> HashWithSeed \<Rightarrow> bytes \<Rightarrow> nat" where
  "hash_pos m h data = unat (Hash h data mod m)"

text \<open>
  The loops over \<open>i < k\<close> index the list of hash functions; they panic if it is shorter than \<open>k\<close>.
\<close>

fun add_loop :: "u64 \<Rightarrow> bytes \<Rightarrow> nat \<Rightarrow> HashWithSeed list \<Rightarrow> bytes \<Rightarrow> bytes result" where
  "add_loop m data 0 hs bits = Ok bits"
| "add_loop m data (Suc k) [] bits = Inl (Panic ''index out of range'')"
| "add_loop m data (Suc k) (h # hs) bits = add_loop m data k hs (setBit bits (hash_pos m h data))"

fun contain_loop :: "u64 \<Rightarrow> bytes \<Rightarrow> nat \<Rightarrow> HashWithSeed list \<Rightarrow> bytes \<Rightarrow> bool result" where
  "contain_loop m data 0 hs bits = Ok True"
| "contain_loop m data (Suc k) [] bits = Inl (Panic ''index out of range'')"
| "contain_loop m data (Suc k) (h # hs) bits =
     (if getBit bits (hash_pos m h data) then contain_loop m data k hs bits else Ok False)"

definition Bloom_Add :: "BloomFilter \<Rightarrow> bytes \<Rightarrow> BloomFilter result" where
  "Bloom_Add b data =
     (if bf_m b = 0 \<or> bf_k b = 0 then Ok b
      else bind_r (add_loop (bf_m b) data (unat (bf_k b)) (bf_hashFunctions b) (bf_bits b)) (\<lambda>bits.
        Ok (b\<lparr>bf_bits := bits\<rparr>)))"

definition MightContain :: "BloomFilter \<Rightarrow> bytes \<Rightarrow> bool result" where
  "MightContain b data =
     (if bf_m b = 0 \<or> bf_k b = 0 then Ok False
      else contain_loop (bf_m b) data (unat (bf_k b)) (bf_hashFunctions b) (bf_bits b))"

definition Bloom_Merge :: "BloomFilter \<Rightarrow> BloomFilter \<Rightarrow> BloomFilter result" where
  "Bloom_Merge b other =
     (if bf_m b \<noteq> bf_m other \<or> bf_k b \<noteq> bf_k other \<or> bf_n b \<noteq> bf_n other \<or> \<not> f64_eq (bf_p b) (bf_p other)
      then Inl (Error ''parametri se razlikuju'')
      else if length (bf_hashFunctions b) \<noteq> length (bf_hashFunctions other)
      then Inl (Error ''razlicit broj hash funkcija'')
      else if bf_hashFunctions b \<noteq> bf_hashFunctions other then Inl (Error ''razliciti seed-ovi'')
      else if length (bf_bits b) \<noteq> length (bf_bits other) then Inl (Error ''razlicita velicina bitset-a'')
      else Ok (b\<lparr>bf_bits := map2 (OR) (bf_bits b) (bf_bits other)\<rparr>))"

definition Bloom_Clear :: "BloomFilter \<Rightarrow> BloomFilter" where
  "Bloom_Clear b = b\<lparr>bf_bits := map (\<lambda>_. 0) (bf_bits b)\<rparr>"

definition bloomFilterMagic :: bytes where
  "bloomFilterMagic = [66, 70, 48, 49]"

definition Bloom_ToBytes :: "BloomFilter \<Rightarrow> bytes" where
  "Bloom_ToBytes b =
     bloomFilterMagic @ put_be64 (bf_n b) @ put_be64 (bf_p b) @ put_be64 (bf_m b) @ put_be64 (bf_k b) @
     put_be64 (of_nat (length (bf_hashFunctions b))) @
     concat (map (\<lambda>h. WriteSlice (hs_Seed h)) (bf_hashFunctions b)) @
     WriteSlice (bf_bits b)"

text \<open>
  \<^verbatim>\<open>make([][]byte, seedCount)\<close> allocates 24 bytes per seed and panics when that exceeds the address
  space. \<^verbatim>\<open>ReadFrom\<close> is called on zero values, and its callers drop the filter when it fails.
\<close>

definition make_seeds :: "u64 \<Rightarrow> nat result" where
  "make_seeds n = (if 24 * unat n < max_alloc then Ok (unat n) else Inl (Panic ''makeslice: len out of range''))"

definition Bloom_ReadFrom :: "(bytes, BloomFilter) op" where
  "Bloom_ReadFrom =
     bind_s (ReadFull 4) (\<lambda>magic.
     if magic \<noteq> bloomFilterMagic then fail_s (Error ''neispravan bloom filter magic'')
     else bind_s ReadU64 (\<lambda>n. bind_s ReadU64 (\<lambda>p. bind_s ReadU64 (\<lambda>m. bind_s ReadU64 (\<lambda>k.
       bind_s ReadU64 (\<lambda>seedCount. bind_s (lift_s (make_seeds seedCount)) (\<lambda>count.
       bind_s (read_many ReadSlice count) (\<lambda>seeds.
       bind_s ReadSlice (\<lambda>bits.
       ret_s \<lparr>bf_n = n, bf_p = p, bf_m = m, bf_k = k, bf_bits = bits,
              bf_hashFunctions = CreateHashFunctions seeds\<rparr>)))))))))"

definition Bloom_FromBytes :: "bytes \<Rightarrow> BloomFilter result" where
  "Bloom_FromBytes data = fst (Bloom_ReadFrom data)"

subsection \<open>The filter segment\<close>

definition FilterSegment_Encode :: "BloomFilter \<Rightarrow> bytes" where
  "FilterSegment_Encode flt =
     (let bloomBytes = Bloom_ToBytes flt;
          buf = put_u32 (of_nat (length bloomBytes)) @ bloomBytes
      in buf @ put_u32 (crc32_ChecksumIEEE buf))"

text \<open>
  \<^verbatim>\<open>reader.Read\<close> fills the slice as far as data is left, which includes the checksum, and leaves the
  rest zero.
\<close>

definition DecodeFilterSegment :: "bytes \<Rightarrow> BloomFilter result" where
  "DecodeFilterSegment data =
     (if length data < 8 then Inl (Error ''invalid filter segment size'')
      else let crcPos = length data - 4 in
        bind_r (read_u32 data crcPos) (\<lambda>expectedCRC.
        if expectedCRC \<noteq> crc32_ChecksumIEEE (take crcPos data) then Inl (Error ''filter CRC mismatch'')
        else
          let bloomLen = unat (get_le (take 4 data) :: u32);
              got = take bloomLen (drop 4 data)
          in Bloom_FromBytes (got @ make_bytes (bloomLen - length got))))"

section \<open>The bit array\<close>

interpretation fixed: bit_store setBit getBit "\<lambda>bits pos. pos div 8 < length bits"
proof unfold_locales
  fix s :: bytes and i j
  assume i: "i div 8 < length s"
  have same: "i = j \<longleftrightarrow> i div 8 = j div 8 \<and> i mod 8 = j mod 8" by (metis div_mult_mod_eq)
  show "getBit (setBit s i) j = (i = j \<or> getBit s j)"
  proof (cases "i div 8 = j div 8")
    case True
    then show ?thesis
      using i get_set_in_byte [of "i mod 8" "j mod 8" "s ! (j div 8)"] same by (auto simp: getBit_def setBit_def)
  next
    case False
    then show ?thesis using same by (auto simp: getBit_def setBit_def)
  qed
qed (auto simp: setBit_def)

text \<open>The positions a key is hashed to.\<close>

definition positions :: "BloomFilter \<Rightarrow> bytes \<Rightarrow> nat list" where
  "positions b data = map (\<lambda>h. hash_pos (bf_m b) h data) (take (unat (bf_k b)) (bf_hashFunctions b))"

definition bloom_wf :: "BloomFilter \<Rightarrow> bool" where
  "bloom_wf b \<longleftrightarrow> 0 < bf_m b \<and> 0 < bf_k b \<and> unat (bf_k b) \<le> length (bf_hashFunctions b) \<and>
     unat (bf_m b) \<le> 8 * length (bf_bits b)"

lemma add_loop_eq:
  "k \<le> length hs \<Longrightarrow> add_loop m data k hs bits = Ok (foldl setBit bits (map (\<lambda>h. hash_pos m h data) (take k hs)))"
  by (induction m data k hs bits rule: add_loop.induct) simp_all

lemma contain_loop_eq:
  "k \<le> length hs \<Longrightarrow> contain_loop m data k hs bits = Ok (\<forall>i \<in> set (map (\<lambda>h. hash_pos m h data) (take k hs)). getBit bits i)"
  by (induction m data k hs bits rule: contain_loop.induct) simp_all

lemma position_in_range:
  assumes "bloom_wf b" "i \<in> set (positions b data)"
  shows "i div 8 < length (bf_bits b)"
proof -
  from assms obtain h where i: "i = hash_pos (bf_m b) h data" by (auto simp: positions_def)
  have "0 < unat (bf_m b)" using assms(1) by (simp add: bloom_wf_def word_less_nat_alt)
  then have "i < unat (bf_m b)" by (simp add: i hash_pos_def unat_mod)
  with assms(1) show ?thesis by (auto simp: bloom_wf_def)
qed

lemma Bloom_Add_eq:
  assumes "bloom_wf b"
  shows "Bloom_Add b data = Ok (b\<lparr>bf_bits := foldl setBit (bf_bits b) (positions b data)\<rparr>)"
  using assms by (simp add: Bloom_Add_def bloom_wf_def add_loop_eq positions_def word_gt_0)

lemma MightContain_eq:
  assumes "bloom_wf b"
  shows "MightContain b data = Ok (\<forall>i \<in> set (positions b data). getBit (bf_bits b) i)"
  using assms by (simp add: MightContain_def bloom_wf_def contain_loop_eq positions_def word_gt_0)

lemma length_foldl_setBit [simp]: "length (foldl setBit bits is) = length bits"
  by (induction "is" arbitrary: bits) (simp_all add: setBit_def)

fun add_all :: "BloomFilter \<Rightarrow> bytes list \<Rightarrow> BloomFilter result" where
  "add_all b [] = Ok b"
| "add_all b (x # xs) = bind_r (Bloom_Add b x) (\<lambda>b. add_all b xs)"

text \<open>Adding elements sets exactly the bits of their positions and changes nothing else.\<close>

lemma add_all_bits:
  "bloom_wf b \<Longrightarrow> \<exists>bits. add_all b xs = Ok (b\<lparr>bf_bits := bits\<rparr>) \<and> length bits = length (bf_bits b) \<and>
     (\<forall>i. getBit bits i \<longleftrightarrow> getBit (bf_bits b) i \<or> (\<exists>x \<in> set xs. i \<in> set (positions b x)))"
proof (induction xs arbitrary: b)
  case Nil
  show ?case by (intro exI [of _ "bf_bits b"]) simp
next
  case (Cons x xs)
  let ?b = "b\<lparr>bf_bits := foldl setBit (bf_bits b) (positions b x)\<rparr>"
  have wf: "bloom_wf ?b" using Cons.prems by (simp add: bloom_wf_def)
  have pos: "positions ?b y = positions b y" for y by (simp add: positions_def)
  from Cons.IH [OF wf] obtain bits where bits: "add_all ?b xs = Ok (b\<lparr>bf_bits := bits\<rparr>)" "length bits = length (bf_bits b)"
      "\<forall>i. getBit bits i \<longleftrightarrow> getBit (foldl setBit (bf_bits b) (positions b x)) i \<or> (\<exists>y \<in> set xs. i \<in> set (positions b y))"
    by (auto simp: pos)
  have "getBit (foldl setBit (bf_bits b) (positions b x)) i \<longleftrightarrow> i \<in> set (positions b x) \<or> getBit (bf_bits b) i" for i
    using position_in_range [OF Cons.prems] by (intro fixed.get_set_all) blast
  with bits Bloom_Add_eq [OF Cons.prems, of x] show ?case
    by (intro exI [of _ bits]) auto
qed

section \<open>Storage\<close>

definition bloom_storable :: "BloomFilter \<Rightarrow> bool" where
  "bloom_storable b \<longleftrightarrow> slice_ok (bf_bits b) \<and> list_all (\<lambda>h. slice_ok (hs_Seed h)) (bf_hashFunctions b) \<and>
     24 * length (bf_hashFunctions b) < max_alloc"

lemma Bloom_ReadFrom_at:
  assumes "bloom_storable b"
  shows "Bloom_ReadFrom (Bloom_ToBytes b @ rest) = (Ok b, rest)"
proof -
  let ?seeds = "map hs_Seed (bf_hashFunctions b)"
  have count: "make_seeds (of_nat (length (bf_hashFunctions b))) = Ok (length ?seeds)"
    using assms by (simp add: make_seeds_def bloom_storable_def max_alloc_def unsigned_of_nat take_bit_nat_eq_self)
  have seeds: "read_many ReadSlice (length ?seeds) (concat (map WriteSlice ?seeds) @ r) = (Ok ?seeds, r)" for r
    using assms by (intro read_many_at ReadSlice_at) (auto simp: bloom_storable_def list_all_iff)
  have "concat (map (\<lambda>h. WriteSlice (hs_Seed h)) (bf_hashFunctions b)) = concat (map WriteSlice ?seeds)"
    by (simp add: comp_def)
  moreover have "CreateHashFunctions ?seeds = bf_hashFunctions b"
    by (auto simp: CreateHashFunctions_def comp_def intro!: map_idI)
  moreover have "ReadFull 4 (bloomFilterMagic @ r) = (Ok bloomFilterMagic, r)" for r
    by (rule ReadFull_at) (simp add: bloomFilterMagic_def)
  moreover have "ReadSlice (WriteSlice (bf_bits b) @ r) = (Ok (bf_bits b), r)" for r
    using assms by (intro ReadSlice_at) (simp add: bloom_storable_def)
  ultimately show ?thesis
    using count seeds by (simp add: Bloom_ReadFrom_def Bloom_ToBytes_def ReadU64_at)
qed

lemma DecodeFilterSegment_Encode:
  assumes "bloom_storable b" "length (Bloom_ToBytes b) < 2 ^ 32"
  shows "DecodeFilterSegment (FilterSegment_Encode b) = Ok b"
proof -
  define bb where "bb = Bloom_ToBytes b"
  define buf where "buf = put_u32 (of_nat (length bb)) @ bb"
  have e: "FilterSegment_Encode b = buf @ put_u32 (crc32_ChecksumIEEE buf)"
    by (simp add: FilterSegment_Encode_def Let_def buf_def bb_def)
  have "4 \<le> length bb" by (simp add: bb_def Bloom_ToBytes_def bloomFilterMagic_def)
  then have len: "\<not> length (FilterSegment_Encode b) < 8" "length (FilterSegment_Encode b) - 4 = length buf"
    by (simp_all add: e buf_def)
  have crc: "read_u32 (FilterSegment_Encode b) (length buf) = Ok (crc32_ChecksumIEEE buf)"
    using read_put_u32 [of "length buf" buf _ "[]"] by (simp add: e)
  have "unat (get_le (take 4 (FilterSegment_Encode b)) :: u32) = length bb"
    using assms(2) by (simp add: e buf_def put_u32_def get_le_put_le take_bit_word_eq_self unsigned_of_nat
        take_bit_nat_eq_self bb_def)
  moreover have "take (length bb) (drop 4 (FilterSegment_Encode b)) = bb" by (simp add: e buf_def)
  moreover have "Bloom_FromBytes bb = Ok b"
    using Bloom_ReadFrom_at [OF assms(1), of "[]"] by (simp add: Bloom_FromBytes_def bb_def)
  ultimately show ?thesis
    using len crc by (simp add: DecodeFilterSegment_def Let_def) (simp add: e buf_def)
qed

section \<open>Properties\<close>

lemma NewBloomFilter_wf:
  assumes "NewBloomFilterWithParams cM cK gen n p seeds = Ok b"
    and "\<And>n p. 0 < cM n p" "\<And>n p. unat (cM n p) + 7 < 2 ^ 64" "\<And>c. length (gen c) = c"
  shows "bloom_wf b" "\<not> getBit (bf_bits b) i"
proof -
  define n' where "n' = (if n = 0 then 1 else n)"
  define p' where "p' = (if f64_outside_unit p then f64_one_percent else p)"
  let ?m = "cM n' p'"
  from assms(1) have b: "bf_m b = ?m" "0 < bf_k b" "bf_bits b = make_bytes (unat ((?m + 7) div 8))"
      "length (bf_hashFunctions b) = unat (bf_k b)"
    by (auto simp: NewBloomFilterWithParams_def Let_def make_len_def CreateHashFunctions_def assms(4) word_gt_0
        n'_def p'_def split: if_splits)
  have "unat (?m + 7) = unat ?m + 7" using assms(3) [of n' p'] by (subst unat_add_lem [THEN iffD1]) simp_all
  then have "unat ?m \<le> 8 * unat ((?m + 7) div 8)" by (simp add: unat_div)
  with b assms(2) show "bloom_wf b" by (simp add: bloom_wf_def)
  show "\<not> getBit (bf_bits b) i" by (simp add: b(3) getBit_def nth_make_bytes get_in_zero)
qed

lemma getBit_or:
  assumes "length xs = length ys" "getBit xs i"
  shows "getBit (map2 (OR) xs ys) i"
proof -
  have i: "i div 8 < length xs" "get_in_byte (xs ! (i div 8)) (i mod 8)"
    using assms(2) by (auto simp: getBit_def split: if_splits)
  then show ?thesis
    using assms(1) by (simp add: getBit_def get_in_byte_bit bit_or_iff)
qed

text \<open>C36: The Bloom filter has no false negatives. Every element added to a new filter is reported as
  possibly contained: by the filter itself, by a filter that was stored and loaded again, by the
  filter segment of an SSTable, and after merging another filter into it; a new filter contains
  nothing. What the floating-point size computation must deliver is a positive number of bits
  that does not wrap when rounded up to bytes.\<close>

theorem bloom_no_false_negatives:
  assumes "NewBloomFilterWithParams calculateM calculateK generateSeeds n p seeds = Ok b0"
    and "\<And>n p. 0 < calculateM n p" "\<And>n p. unat (calculateM n p) + 7 < 2 ^ 64" "\<And>c. length (generateSeeds c) = c"
    and "x \<in> set xs"
  shows "\<exists>b. add_all b0 xs = Ok b \<and> MightContain b0 y = Ok False \<and> MightContain b x = Ok True \<and>
    (bloom_storable b0 \<longrightarrow> bind_r (Bloom_FromBytes (Bloom_ToBytes b)) (\<lambda>b'. MightContain b' x) = Ok True) \<and>
    (bloom_storable b0 \<and> length (Bloom_ToBytes b0) < 2 ^ 32 \<longrightarrow>
       bind_r (DecodeFilterSegment (FilterSegment_Encode b)) (\<lambda>b'. MightContain b' x) = Ok True) \<and>
    (\<forall>other b'. Bloom_Merge b other = Ok b' \<longrightarrow> MightContain b' x = Ok True)"
proof -
  note new = NewBloomFilter_wf [OF assms(1-4)]
  from add_all_bits [OF new(1), of xs] obtain bits where bits: "add_all b0 xs = Ok (b0\<lparr>bf_bits := bits\<rparr>)"
      "length bits = length (bf_bits b0)"
      "\<forall>i. getBit bits i \<longleftrightarrow> getBit (bf_bits b0) i \<or> (\<exists>x \<in> set xs. i \<in> set (positions b0 x))"
    by blast
  define b where "b = b0\<lparr>bf_bits := bits\<rparr>"
  have wf: "bloom_wf b" using new(1) bits(2) by (simp add: bloom_wf_def b_def)
  have pos: "positions b x = positions b0 x" by (simp add: positions_def b_def)
  have set: "\<forall>i \<in> set (positions b x). getBit (bf_bits b) i" using bits(3) assms(5) unfolding pos by (auto simp: b_def)
  then have hit: "MightContain b x = Ok True" by (simp add: MightContain_eq [OF wf])
  have "positions b0 y \<noteq> []"
    using new(1) by (auto simp: positions_def bloom_wf_def word_less_nat_alt)
  then have miss: "MightContain b0 y = Ok False"
    using new(2) by (auto simp: MightContain_eq [OF new(1)] neq_Nil_conv)
  have len: "length (Bloom_ToBytes b) = length (Bloom_ToBytes b0)"
    by (simp add: Bloom_ToBytes_def WriteSlice_def b_def bits(2))
  have st: "bloom_storable b = bloom_storable b0" by (simp add: bloom_storable_def slice_ok_def b_def bits(2))
  have "MightContain b' x = Ok True" if m: "Bloom_Merge b other = Ok b'" for other b'
  proof -
    from m have b': "b' = b\<lparr>bf_bits := map2 (OR) (bf_bits b) (bf_bits other)\<rparr>" "length (bf_bits b) = length (bf_bits other)"
      by (auto simp: Bloom_Merge_def split: if_splits)
    then have "bloom_wf b'" "positions b' x = positions b x" using wf by (simp_all add: bloom_wf_def positions_def)
    with set getBit_or [OF b'(2)] show ?thesis by (simp add: MightContain_eq b'(1))
  qed
  with bits(1) hit miss Bloom_ReadFrom_at [of b "[]"] DecodeFilterSegment_Encode [of b] len st show ?thesis
    by (intro exI [of _ b]) (auto simp: b_def [symmetric] Bloom_FromBytes_def)
qed

theorem bloom_no_false_negatives_witness:
  "\<exists>b0 b. NewBloomFilterWithParams (\<lambda>n p. 10) (\<lambda>m n. 2) (\<lambda>c. replicate c [1]) 1 0 [] = Ok b0 \<and>
     add_all b0 [[5], [6]] = Ok b \<and> MightContain b [6] = Ok True"
proof -
  obtain b0 where b0: "NewBloomFilterWithParams (\<lambda>n p. 10) (\<lambda>m n. 2) (\<lambda>c. replicate c [1]) 1 0 [] = Ok b0"
    by (auto simp: NewBloomFilterWithParams_def Let_def make_len_def max_alloc_def)
  have "\<exists>b. add_all b0 [[5], [6]] = Ok b \<and> MightContain b0 [] = Ok False \<and> MightContain b [6] = Ok True \<and>
    (bloom_storable b0 \<longrightarrow> bind_r (Bloom_FromBytes (Bloom_ToBytes b)) (\<lambda>b'. MightContain b' [6]) = Ok True) \<and>
    (bloom_storable b0 \<and> length (Bloom_ToBytes b0) < 2 ^ 32 \<longrightarrow>
       bind_r (DecodeFilterSegment (FilterSegment_Encode b)) (\<lambda>b'. MightContain b' [6]) = Ok True) \<and>
    (\<forall>other b'. Bloom_Merge b other = Ok b' \<longrightarrow> MightContain b' [6] = Ok True)"
    by (rule bloom_no_false_negatives [OF b0]) simp_all
  with b0 show ?thesis by blast
qed

end
