(* ===== verification/Count_Min_Sketch.thy ===== *)
theory Count_Min_Sketch
  imports Bloom_Filter
begin

text \<open>
  \<^verbatim>\<open>internal/probabilistics/count_min_sketch.go\<close>: the sketch, its estimate, merging and storage.
  Counters are 64-bit and wrap. The dimensions that \<^verbatim>\<open>calculateM\<close> and \<^verbatim>\<open>calculateK\<close> compute in floating
  point and the random seeds are arguments of the constructor; \<^verbatim>\<open>accuracy\<close> and \<^verbatim>\<open>confidence\<close> are bit
  patterns that are stored only.
\<close>

section \<open>Model\<close>

record CountMinSketch =
  cm_k :: u64
  cm_m :: u64
  cm_confidence :: f64
  cm_accuracy :: f64
  cm_table :: "u64 list list"
  cm_hashFunctions :: "HashWithSeed list"

text \<open>\<^verbatim>\<open>make\<close> of \<open>n\<close> elements of a given size.\<close>

definition make_elems :: "nat \<Rightarrow> u64 \<Rightarrow> nat result" where
  "make_elems sz n = (if sz * unat n < max_alloc then Ok (unat n) else Inl (Panic ''makeslice: len out of range''))"

definition f64_99_percent :: f64 where
  "f64_99_percent = 0x3FEFAE147AE147AE"

definition NewCountMinSketch ::
    "(f64 \<Rightarrow> u64) \<Rightarrow> (f64 \<Rightarrow> u64) \<Rightarrow> (nat \<Rightarrow> bytes list) \<Rightarrow> f64 \<Rightarrow> f64 \<Rightarrow> bytes list \<Rightarrow> CountMinSketch result" where
  "NewCountMinSketch calculateM calculateK generateSeeds cfgAccuracy cfgConfidence cfgSeeds =
     (let accuracy = (if f64_outside_unit cfgAccuracy then f64_one_percent else cfgAccuracy);
          confidence = (if f64_outside_unit cfgConfidence then f64_99_percent else cfgConfidence);
          m = calculateM accuracy; k = calculateK confidence
      in bind_r (make_elems 24 k) (\<lambda>rows.
         bind_r (if rows = 0 then Ok 0 else make_elems 8 m) (\<lambda>cols.
         let seeds = (if length cfgSeeds \<noteq> unat k then generateSeeds (unat k) else cfgSeeds)
         in Ok \<lparr>cm_k = k, cm_m = m, cm_confidence = confidence, cm_accuracy = accuracy,
                cm_table = replicate rows (replicate cols 0), cm_hashFunctions = CreateHashFunctions seeds\<rparr>)))"

text \<open>The loops over the rows: indexing past the hash functions or the table panics, as does \<^verbatim>\<open>% 0\<close>.\<close>

fun cms_add_loop :: "u64 \<Rightarrow> bytes \<Rightarrow> u64 \<Rightarrow> nat \<Rightarrow> HashWithSeed list \<Rightarrow> u64 list list \<Rightarrow> u64 list list result" where
  "cms_add_loop m key cnt 0 hs rows = Ok rows"
| "cms_add_loop m key cnt (Suc k) (h # hs) (row # rows) =
     (if m = 0 then Inl (Panic ''integer divide by zero'')
      else let col = hash_pos m h key in
        if length row \<le> col then Inl (Panic ''index out of range'')
        else bind_r (cms_add_loop m key cnt k hs rows) (\<lambda>rows'. Ok (row[col := row ! col + cnt] # rows')))"
| "cms_add_loop m key cnt (Suc k) hs rows = Inl (Panic ''index out of range'')"

definition CMS_Add :: "CountMinSketch \<Rightarrow> bytes \<Rightarrow> u64 \<Rightarrow> CountMinSketch result" where
  "CMS_Add c key cnt =
     bind_r (cms_add_loop (cm_m c) key cnt (unat (cm_k c)) (cm_hashFunctions c) (cm_table c)) (\<lambda>table.
     Ok (c\<lparr>cm_table := table\<rparr>))"

definition CMS_Increment :: "CountMinSketch \<Rightarrow> bytes \<Rightarrow> CountMinSketch result" where
  "CMS_Increment c key = CMS_Add c key 1"

text \<open>\<open>best\<close> is \<^verbatim>\<open>min\<close>, with \<^const>\<open>None\<close> while \<^verbatim>\<open>first\<close> holds.\<close>

fun cms_estimate_loop :: "u64 \<Rightarrow> bytes \<Rightarrow> nat \<Rightarrow> HashWithSeed list \<Rightarrow> u64 list list \<Rightarrow> u64 option \<Rightarrow> u64 result" where
  "cms_estimate_loop m key 0 hs rows best = Ok (case best of None \<Rightarrow> 0 | Some v \<Rightarrow> v)"
| "cms_estimate_loop m key (Suc k) (h # hs) (row # rows) best =
     (if m = 0 then Inl (Panic ''integer divide by zero'')
      else let col = hash_pos m h key in
        if length row \<le> col then Inl (Panic ''index out of range'')
        else let val = row ! col in
          cms_estimate_loop m key k hs rows
            (case best of None \<Rightarrow> Some val | Some v \<Rightarrow> if val < v then Some val else Some v))"
| "cms_estimate_loop m key (Suc k) hs rows best = Inl (Panic ''index out of range'')"

definition CMS_Estimate :: "CountMinSketch \<Rightarrow> bytes \<Rightarrow> u64 result" where
  "CMS_Estimate c key = cms_estimate_loop (cm_m c) key (unat (cm_k c)) (cm_hashFunctions c) (cm_table c) None"

fun cms_merge_loop :: "nat \<Rightarrow> nat \<Rightarrow> u64 list list \<Rightarrow> u64 list list \<Rightarrow> u64 list list result" where
  "cms_merge_loop m 0 rows rows' = Ok rows"
| "cms_merge_loop m (Suc k) (row # rows) (row' # rows') =
     (if length row < m \<or> length row' < m then Inl (Panic ''index out of range'')
      else bind_r (cms_merge_loop m k rows rows') (\<lambda>rs. Ok ((map2 (+) (take m row) (take m row') @ drop m row) # rs)))"
| "cms_merge_loop m (Suc k) rows rows' = Inl (Panic ''index out of range'')"

definition CMS_Merge :: "CountMinSketch \<Rightarrow> CountMinSketch \<Rightarrow> CountMinSketch result" where
  "CMS_Merge c other =
     (if cm_k c \<noteq> cm_k other then Inl (Error ''razlikuju se u broju redova'')
      else if cm_m c \<noteq> cm_m other then Inl (Error ''ne poklapaju se u broju kolona'')
      else bind_r (cms_merge_loop (unat (cm_m c)) (unat (cm_k c)) (cm_table c) (cm_table other)) (\<lambda>table.
        Ok (c\<lparr>cm_table := table\<rparr>)))"

fun cms_clear_loop :: "nat \<Rightarrow> nat \<Rightarrow> u64 list list \<Rightarrow> u64 list list result" where
  "cms_clear_loop m 0 rows = Ok rows"
| "cms_clear_loop m (Suc k) (row # rows) =
     (if length row < m then Inl (Panic ''index out of range'')
      else bind_r (cms_clear_loop m k rows) (\<lambda>rs. Ok ((replicate m 0 @ drop m row) # rs)))"
| "cms_clear_loop m (Suc k) [] = Inl (Panic ''index out of range'')"

definition CMS_Clear :: "CountMinSketch \<Rightarrow> CountMinSketch result" where
  "CMS_Clear c = bind_r (cms_clear_loop (unat (cm_m c)) (unat (cm_k c)) (cm_table c)) (\<lambda>table. Ok (c\<lparr>cm_table := table\<rparr>))"

fun table_bytes :: "nat \<Rightarrow> nat \<Rightarrow> u64 list list \<Rightarrow> bytes result" where
  "table_bytes m 0 rows = Ok []"
| "table_bytes m (Suc k) (row # rows) =
     (if length row < m then Inl (Panic ''index out of range'')
      else bind_r (table_bytes m k rows) (\<lambda>bs. Ok (concat (map put_be64 (take m row)) @ bs)))"
| "table_bytes m (Suc k) [] = Inl (Panic ''index out of range'')"

definition CMS_WriteTo :: "CountMinSketch \<Rightarrow> bytes result" where
  "CMS_WriteTo c =
     bind_r (table_bytes (unat (cm_m c)) (unat (cm_k c)) (cm_table c)) (\<lambda>table.
     Ok (put_be64 (cm_k c) @ put_be64 (cm_m c) @ put_be64 (cm_accuracy c) @ put_be64 (cm_confidence c) @
       put_be64 (of_nat (length (cm_hashFunctions c))) @
       concat (map (\<lambda>h. WriteSlice (hs_Seed h)) (cm_hashFunctions c)) @ table))"

definition CMS_ReadFrom :: "(bytes, CountMinSketch) op" where
  "CMS_ReadFrom =
     bind_s ReadU64 (\<lambda>k. bind_s ReadU64 (\<lambda>m. bind_s ReadU64 (\<lambda>accuracy. bind_s ReadU64 (\<lambda>confidence.
     bind_s ReadU64 (\<lambda>seedCount. bind_s (lift_s (make_elems 24 seedCount)) (\<lambda>cnt.
     bind_s (read_many ReadSlice cnt) (\<lambda>seeds.
     bind_s (lift_s (make_elems 24 k)) (\<lambda>rows.
     bind_s (read_many (bind_s (lift_s (make_elems 8 m)) (\<lambda>cols. read_many ReadU64 cols)) rows) (\<lambda>table.
     ret_s \<lparr>cm_k = k, cm_m = m, cm_confidence = confidence, cm_accuracy = accuracy,
            cm_table = table, cm_hashFunctions = CreateHashFunctions seeds\<rparr>)))))))))"

section \<open>What the table holds\<close>

text \<open>
  After the additions \<open>adds\<close>, the counter in column \<open>c\<close> of the row of hash function \<open>h\<close> is the sum of
  the counts of the keys that \<open>h\<close> maps to \<open>c\<close>, modulo the word size.
\<close>

definition row_sum :: "u64 \<Rightarrow> HashWithSeed \<Rightarrow> (bytes \<times> u64) list \<Rightarrow> nat \<Rightarrow> nat" where
  "row_sum m h adds c = sum_list (map (\<lambda>(key, n). if hash_pos m h key = c then unat n else 0) adds)"

definition table_of :: "u64 \<Rightarrow> HashWithSeed list \<Rightarrow> (bytes \<times> u64) list \<Rightarrow> u64 list list" where
  "table_of m hs adds = map (\<lambda>h. map (\<lambda>c. of_nat (row_sum m h adds c)) [0..<unat m]) hs"

definition true_count :: "(bytes \<times> u64) list \<Rightarrow> bytes \<Rightarrow> nat" where
  "true_count adds key = sum_list (map (\<lambda>(k, n). if k = key then unat n else 0) adds)"

definition total_count :: "(bytes \<times> u64) list \<Rightarrow> nat" where
  "total_count adds = sum_list (map (\<lambda>(k, n). unat n) adds)"

definition cms_wf :: "CountMinSketch \<Rightarrow> bool" where
  "cms_wf c \<longleftrightarrow> 0 < cm_m c \<and> 0 < cm_k c \<and> length (cm_hashFunctions c) = unat (cm_k c)"

lemma hash_pos_less: "0 < m \<Longrightarrow> hash_pos m h key < unat m"
  by (simp add: hash_pos_def unat_mod word_less_nat_alt)

lemma row_sum_append: "row_sum m h (as @ bs) c = row_sum m h as c + row_sum m h bs c"
  by (simp add: row_sum_def)

lemma row_sum_bounds: "true_count adds key \<le> row_sum m h adds (hash_pos m h key)" "row_sum m h adds c \<le> total_count adds"
  by (induction adds) (auto simp: row_sum_def true_count_def total_count_def)

lemma cms_add_loop_eq:
  assumes "0 < m"
  shows "cms_add_loop m key n (length hs) hs (table_of m hs adds) = Ok (table_of m hs (adds @ [(key, n)]))"
proof (induction hs)
  case (Cons h hs)
  let ?row = "map (\<lambda>c. of_nat (row_sum m h adds c)) [0..<unat m] :: u64 list"
  have col: "hash_pos m h key < length ?row" using hash_pos_less [OF assms] by simp
  have row: "?row[hash_pos m h key := ?row ! hash_pos m h key + n] = map (\<lambda>c. of_nat (row_sum m h (adds @ [(key, n)]) c)) [0..<unat m]"
    using col by (intro nth_equalityI) (auto simp: row_sum_append row_sum_def nth_list_update)
  have m: "m \<noteq> 0" using assms by auto
  have "table_of m (h # hs) as = map (\<lambda>c. of_nat (row_sum m h as c)) [0..<unat m] # table_of m hs as" for as
    by (simp add: table_of_def)
  with Cons.IH col row m show ?case by (simp add: Let_def not_le)
qed (simp add: table_of_def)

lemma CMS_Add_eq:
  assumes "cms_wf c" "cm_table c = table_of (cm_m c) (cm_hashFunctions c) adds"
  shows "CMS_Add c key n = Ok (c\<lparr>cm_table := table_of (cm_m c) (cm_hashFunctions c) (adds @ [(key, n)])\<rparr>)"
  using assms cms_add_loop_eq [of "cm_m c" key n "cm_hashFunctions c" adds] by (simp add: CMS_Add_def cms_wf_def)

fun cms_add_all :: "CountMinSketch \<Rightarrow> (bytes \<times> u64) list \<Rightarrow> CountMinSketch result" where
  "cms_add_all c [] = Ok c"
| "cms_add_all c ((key, n) # adds) = bind_r (CMS_Add c key n) (\<lambda>c. cms_add_all c adds)"

lemma cms_add_all_eq:
  assumes "cms_wf c" "cm_table c = table_of (cm_m c) (cm_hashFunctions c) before"
  shows "cms_add_all c adds = Ok (c\<lparr>cm_table := table_of (cm_m c) (cm_hashFunctions c) (before @ adds)\<rparr>)"
  using assms
proof (induction adds arbitrary: c before)
  case Nil
  then show ?case by simp
next
  case (Cons a adds)
  obtain key n where a: "a = (key, n)" by fastforce
  let ?c = "c\<lparr>cm_table := table_of (cm_m c) (cm_hashFunctions c) (before @ [(key, n)])\<rparr>"
  have "cms_wf ?c" using Cons.prems(1) by (simp add: cms_wf_def)
  from Cons.IH [OF this, of "before @ [(key, n)]"] CMS_Add_eq [OF Cons.prems, of key n] show ?case
    by (simp add: a)
qed

text \<open>The estimate is the smallest of the counters of the key.\<close>

lemma cms_estimate_loop_eq:
  assumes "0 < m"
  shows "\<exists>e. cms_estimate_loop m key (length hs) hs (table_of m hs adds) best = Ok e \<and>
    (best = None \<and> hs = [] \<longrightarrow> e = 0) \<and>
    (best \<noteq> None \<or> hs \<noteq> [] \<longrightarrow> Some e = best \<or> (\<exists>h \<in> set hs. e = of_nat (row_sum m h adds (hash_pos m h key))))"
proof (induction hs arbitrary: best)
  case Nil
  then show ?case by (cases best) auto
next
  case (Cons h hs)
  let ?v = "of_nat (row_sum m h adds (hash_pos m h key)) :: u64"
  let ?best = "case best of None \<Rightarrow> Some ?v | Some v \<Rightarrow> if ?v < v then Some ?v else Some v"
  have ne: "?best \<noteq> None" by (auto split: option.split)
  have "table_of m (h # hs) adds = map (\<lambda>c. of_nat (row_sum m h adds c)) [0..<unat m] # table_of m hs adds"
    by (simp add: table_of_def)
  moreover have "m \<noteq> 0" using assms by auto
  ultimately have step: "cms_estimate_loop m key (length (h # hs)) (h # hs) (table_of m (h # hs) adds) best =
      cms_estimate_loop m key (length hs) hs (table_of m hs adds) ?best"
    using hash_pos_less [OF assms, of h key] by (simp add: Let_def not_le)
  from Cons.IH [of ?best] ne obtain e where e: "cms_estimate_loop m key (length hs) hs (table_of m hs adds) ?best = Ok e"
      "Some e = ?best \<or> (\<exists>h \<in> set hs. e = of_nat (row_sum m h adds (hash_pos m h key)))"
    by blast
  from e(2) have "Some e = best \<or> (\<exists>h \<in> set (h # hs). e = of_nat (row_sum m h adds (hash_pos m h key)))"
    by (auto split: option.splits if_splits)
  with e(1) step show ?case by auto
qed

lemma CMS_Estimate_bounds:
  assumes "cms_wf c" "cm_table c = table_of (cm_m c) (cm_hashFunctions c) adds" "total_count adds < 2 ^ 64"
  shows "\<exists>e. CMS_Estimate c key = Ok e \<and> true_count adds key \<le> unat e \<and> unat e \<le> total_count adds"
proof -
  have hs: "length (cm_hashFunctions c) = unat (cm_k c)" "cm_hashFunctions c \<noteq> []" "0 < cm_m c"
    using assms(1) by (auto simp: cms_wf_def word_less_nat_alt)
  with cms_estimate_loop_eq [OF hs(3), of key "cm_hashFunctions c" adds None]
  obtain e h where e: "CMS_Estimate c key = Ok e" "e = of_nat (row_sum (cm_m c) h adds (hash_pos (cm_m c) h key))"
    by (auto simp: CMS_Estimate_def assms(2))
  have "unat e = row_sum (cm_m c) h adds (hash_pos (cm_m c) h key)"
    using le_less_trans [OF row_sum_bounds(2) assms(3)] by (simp add: e(2) unsigned_of_nat take_bit_nat_eq_self)
  with e(1) row_sum_bounds [where m = "cm_m c" and h = h and adds = adds] show ?thesis by auto
qed

lemma cms_merge_loop_eq:
  "cms_merge_loop (unat m) (length hs) (table_of m hs as) (table_of m hs bs) = Ok (table_of m hs (as @ bs))"
proof (induction hs)
  case (Cons h hs)
  have "map2 (+) (map (\<lambda>c. of_nat (row_sum m h as c)) [0..<unat m]) (map (\<lambda>c. of_nat (row_sum m h bs c)) [0..<unat m]) =
      (map (\<lambda>c. of_nat (row_sum m h (as @ bs) c)) [0..<unat m] :: u64 list)"
    by (intro nth_equalityI) (simp_all add: row_sum_append)
  with Cons show ?case by (simp add: table_of_def)
qed (simp add: table_of_def)

section \<open>Storage\<close>

definition cms_storable :: "CountMinSketch \<Rightarrow> bool" where
  "cms_storable c \<longleftrightarrow> list_all (\<lambda>h. slice_ok (hs_Seed h)) (cm_hashFunctions c) \<and>
     24 * length (cm_hashFunctions c) < max_alloc \<and> 24 * unat (cm_k c) < max_alloc \<and> 8 * unat (cm_m c) < max_alloc \<and>
     length (cm_table c) = unat (cm_k c) \<and> list_all (\<lambda>row. length row = unat (cm_m c)) (cm_table c)"

lemma table_bytes_eq:
  "list_all (\<lambda>row. length row = m) rows \<Longrightarrow>
   table_bytes m (length rows) rows = Ok (concat (map (\<lambda>row. concat (map put_be64 row)) rows))"
  by (induction rows) simp_all

lemma CMS_ReadFrom_WriteTo:
  assumes "cms_storable c"
  shows "\<exists>bs. CMS_WriteTo c = Ok bs \<and> CMS_ReadFrom (bs @ rest) = (Ok c, rest)"
proof -
  let ?seeds = "map hs_Seed (cm_hashFunctions c)" and ?w = "\<lambda>row. concat (map put_be64 row)"
  have count: "make_elems 24 (of_nat (length (cm_hashFunctions c))) = Ok (length ?seeds)"
    using assms by (simp add: make_elems_def cms_storable_def max_alloc_def unsigned_of_nat take_bit_nat_eq_self)
  have rows: "make_elems 24 (cm_k c) = Ok (length (cm_table c))" "make_elems 8 (cm_m c) = Ok (unat (cm_m c))"
    using assms by (simp_all add: make_elems_def cms_storable_def)
  have seeds: "read_many ReadSlice (length ?seeds) (concat (map WriteSlice ?seeds) @ r) = (Ok ?seeds, r)" for r
    using assms by (intro read_many_at ReadSlice_at) (auto simp: cms_storable_def list_all_iff)
  have row: "read_many ReadU64 (unat (cm_m c)) (?w row @ r) = (Ok row, r)" if "length row = unat (cm_m c)" for row r
    unfolding that [symmetric] by (intro read_many_at) (simp add: ReadU64_at)
  have table: "read_many (bind_s (lift_s (make_elems 8 (cm_m c))) (\<lambda>cols. read_many ReadU64 cols)) (length (cm_table c))
      (concat (map ?w (cm_table c)) @ r) = (Ok (cm_table c), r)" for r
    using assms row by (intro read_many_at) (auto simp: rows cms_storable_def list_all_iff)
  have "CMS_WriteTo c = Ok (put_be64 (cm_k c) @ put_be64 (cm_m c) @ put_be64 (cm_accuracy c) @ put_be64 (cm_confidence c) @
      put_be64 (of_nat (length (cm_hashFunctions c))) @ concat (map WriteSlice ?seeds) @ concat (map ?w (cm_table c)))"
    using assms table_bytes_eq [of "unat (cm_m c)" "cm_table c"] by (simp add: CMS_WriteTo_def cms_storable_def comp_def)
  moreover have "CreateHashFunctions ?seeds = cm_hashFunctions c"
    by (auto simp: CreateHashFunctions_def comp_def intro!: map_idI)
  ultimately show ?thesis
    using count seeds table rows by (simp add: CMS_ReadFrom_def ReadU64_at)
qed

section \<open>Properties\<close>

lemma NewCountMinSketch_params:
  assumes "NewCountMinSketch cM cK gen a cf seeds = Ok c" "\<And>n. length (gen n) = n"
  shows "length (cm_hashFunctions c) = unat (cm_k c)" "24 * unat (cm_k c) < max_alloc"
    "0 < cm_k c \<Longrightarrow> 8 * unat (cm_m c) < max_alloc"
    "cm_table c = replicate (unat (cm_k c)) (replicate (if cm_k c = 0 then 0 else unat (cm_m c)) 0)"
proof -
  define a' where "a' = (if f64_outside_unit a then f64_one_percent else a)"
  define cf' where "cf' = (if f64_outside_unit cf then f64_99_percent else cf)"
  have g0: "gen 0 = []" using assms(2) [of 0] by simp
  have "length (cm_hashFunctions c) = unat (cm_k c) \<and> 24 * unat (cm_k c) < max_alloc \<and> (0 < cm_k c \<longrightarrow> 8 * unat (cm_m c) < max_alloc) \<and>
    cm_table c = replicate (unat (cm_k c)) (replicate (if cm_k c = 0 then 0 else unat (cm_m c)) 0)"
    using assms(1) g0 unfolding NewCountMinSketch_def Let_def a'_def [symmetric] cf'_def [symmetric]
    by (auto simp: make_elems_def CreateHashFunctions_def assms(2) unat_eq_0 split: if_splits)
  then show "length (cm_hashFunctions c) = unat (cm_k c)" "24 * unat (cm_k c) < max_alloc"
    "0 < cm_k c \<Longrightarrow> 8 * unat (cm_m c) < max_alloc"
    "cm_table c = replicate (unat (cm_k c)) (replicate (if cm_k c = 0 then 0 else unat (cm_m c)) 0)" by blast+
qed

lemma NewCountMinSketch_wf:
  assumes "NewCountMinSketch cM cK gen a cf seeds = Ok c" "\<And>n. length (gen n) = n" "0 < cm_k c" "0 < cm_m c"
  shows "cms_wf c" "cm_table c = table_of (cm_m c) (cm_hashFunctions c) []"
proof -
  note p = NewCountMinSketch_params [OF assms(1,2)]
  show "cms_wf c" using p(1) assms(3,4) by (simp add: cms_wf_def)
  have "cm_k c \<noteq> 0" using assms(3) by auto
  then show "cm_table c = table_of (cm_m c) (cm_hashFunctions c) []"
    using p(1,4) by (intro nth_equalityI) (simp_all add: table_of_def row_sum_def map_replicate_trivial)
qed

text \<open>Without a row nothing is counted.\<close>

lemma cms_no_rows:
  assumes "cm_k c = 0"
  shows "cms_add_all c adds = Ok c" "CMS_Estimate c key = Ok 0"
proof -
  have "CMS_Add c k n = Ok c" for k n using assms by (cases c) (simp add: CMS_Add_def)
  then show "cms_add_all c adds = Ok c" by (induction adds) auto
  show "CMS_Estimate c key = Ok 0" using assms by (simp add: CMS_Estimate_def)
qed

text \<open>C37: The count-min sketch never underestimates, if it has a row and a column. After any additions whose counts sum to
  less than \<open>2\<^sup>6\<^sup>4\<close>, the estimate of a key is at least the count added for it and at most the sum of all counts;
  the same holds for a sketch into which another one with the same hash functions was merged, with the
  additions of both, and storing and loading a sketch changes nothing. A sketch without rows counts nothing:
  every estimate is zero. \<^verbatim>\<open>calculateK\<close> gives no rows for a confidence so small that \<^verbatim>\<open>1 - confidence\<close> is 1.\<close>

theorem cms_estimate_bounds:
  assumes "NewCountMinSketch calculateM calculateK generateSeeds accuracy confidence seeds = Ok c0"
    and "\<And>n. length (generateSeeds n) = n" "total_count (adds @ adds') < 2 ^ 64"
  shows "(cm_k c0 = 0 \<longrightarrow> (\<exists>c. cms_add_all c0 adds = Ok c \<and> CMS_Estimate c key = Ok 0)) \<and>
    (0 < cm_k c0 \<and> 0 < cm_m c0 \<longrightarrow>
      (\<exists>c c' d e f. cms_add_all c0 adds = Ok c \<and> CMS_Estimate c key = Ok e \<and>
        true_count adds key \<le> unat e \<and> unat e \<le> total_count adds \<and>
        cms_add_all c0 adds' = Ok c' \<and> CMS_Merge c c' = Ok d \<and> CMS_Estimate d key = Ok f \<and>
        true_count (adds @ adds') key \<le> unat f \<and> unat f \<le> total_count (adds @ adds') \<and>
        (list_all (\<lambda>h. slice_ok (hs_Seed h)) (cm_hashFunctions c0) \<longrightarrow>
          bind_r (CMS_WriteTo c) (\<lambda>bs. fst (CMS_ReadFrom bs)) = Ok c)))"
proof (intro conjI impI)
  show "cm_k c0 = 0 \<Longrightarrow> \<exists>c. cms_add_all c0 adds = Ok c \<and> CMS_Estimate c key = Ok 0" using cms_no_rows by blast
  assume pos: "0 < cm_k c0 \<and> 0 < cm_m c0"
  note new = NewCountMinSketch_wf [OF assms(1,2) conjunct1 [OF pos] conjunct2 [OF pos]]
  note par = NewCountMinSketch_params [OF assms(1,2)]
  let ?t = "table_of (cm_m c0) (cm_hashFunctions c0)"
  define c where "c = c0\<lparr>cm_table := ?t adds\<rparr>"
  define c' where "c' = c0\<lparr>cm_table := ?t adds'\<rparr>"
  define d where "d = c0\<lparr>cm_table := ?t (adds @ adds')\<rparr>"
  have add: "cms_add_all c0 adds = Ok c" "cms_add_all c0 adds' = Ok c'"
    using cms_add_all_eq [OF new(1), of "[]"] new(2) by (simp_all add: c_def c'_def)
  have hs: "length (cm_hashFunctions c0) = unat (cm_k c0)" using new(1) by (simp add: cms_wf_def)
  have merge: "CMS_Merge c c' = Ok d"
    using cms_merge_loop_eq [of "cm_m c0" "cm_hashFunctions c0" adds adds'] hs
    by (simp add: CMS_Merge_def c_def c'_def d_def)
  have wf: "cms_wf c" "cms_wf d" using new(1) by (simp_all add: cms_wf_def c_def d_def)
  have "total_count adds < 2 ^ 64" using assms(3) by (simp add: total_count_def)
  with CMS_Estimate_bounds [OF wf(1), of adds key] obtain e where
    e: "CMS_Estimate c key = Ok e" "true_count adds key \<le> unat e" "unat e \<le> total_count adds"
    by (auto simp: c_def)
  from CMS_Estimate_bounds [OF wf(2), of "adds @ adds'" key] assms(3) obtain f where
    f: "CMS_Estimate d key = Ok f" "true_count (adds @ adds') key \<le> unat f" "unat f \<le> total_count (adds @ adds')"
    by (auto simp: d_def)
  have "cms_storable c" if "list_all (\<lambda>h. slice_ok (hs_Seed h)) (cm_hashFunctions c0)"
    using that par(2,3) hs pos by (simp add: cms_storable_def c_def table_of_def list_all_iff)
  then have "list_all (\<lambda>h. slice_ok (hs_Seed h)) (cm_hashFunctions c0) \<longrightarrow>
      bind_r (CMS_WriteTo c) (\<lambda>bs. fst (CMS_ReadFrom bs)) = Ok c"
    using CMS_ReadFrom_WriteTo [of c "[]"] by auto
  with add merge e f show "\<exists>c c' d e f. cms_add_all c0 adds = Ok c \<and> CMS_Estimate c key = Ok e \<and>
        true_count adds key \<le> unat e \<and> unat e \<le> total_count adds \<and>
        cms_add_all c0 adds' = Ok c' \<and> CMS_Merge c c' = Ok d \<and> CMS_Estimate d key = Ok f \<and>
        true_count (adds @ adds') key \<le> unat f \<and> unat f \<le> total_count (adds @ adds') \<and>
        (list_all (\<lambda>h. slice_ok (hs_Seed h)) (cm_hashFunctions c0) \<longrightarrow>
          bind_r (CMS_WriteTo c) (\<lambda>bs. fst (CMS_ReadFrom bs)) = Ok c)" by blast
qed

theorem cms_estimate_bounds_witness:
  "(\<exists>c0 c e. NewCountMinSketch (\<lambda>_. 10) (\<lambda>_. 2) (\<lambda>c. replicate c [1]) 0 0 [] = Ok c0 \<and>
     cms_add_all c0 [([5], 3), ([6], 1), ([5], 2)] = Ok c \<and> CMS_Estimate c [5] = Ok e \<and> 5 \<le> unat e \<and> unat e \<le> 6) \<and>
   (\<exists>c0 c. NewCountMinSketch (\<lambda>_. 10) (\<lambda>_. 0) (\<lambda>c. replicate c [1]) 0 0 [] = Ok c0 \<and>
     cms_add_all c0 [([5], 3)] = Ok c \<and> CMS_Estimate c [5] = Ok 0)"
proof
  obtain c0 where c0: "NewCountMinSketch (\<lambda>_. 10) (\<lambda>_. 2) (\<lambda>c. replicate c [1]) 0 0 [] = Ok c0" "cm_k c0 = 2" "cm_m c0 = 10"
    by (auto simp: NewCountMinSketch_def Let_def make_elems_def max_alloc_def)
  have "total_count ([([5], 3), ([6], 1), ([5], 2)] @ []) < 2 ^ 64" by (simp add: total_count_def)
  from cms_estimate_bounds [OF c0(1) _ this, of "[5]"] c0
  show "\<exists>c0 c e. NewCountMinSketch (\<lambda>_. 10) (\<lambda>_. 2) (\<lambda>c. replicate c [1]) 0 0 [] = Ok c0 \<and>
     cms_add_all c0 [([5], 3), ([6], 1), ([5], 2)] = Ok c \<and> CMS_Estimate c [5] = Ok e \<and> 5 \<le> unat e \<and> unat e \<le> 6"
    by (auto simp: total_count_def true_count_def simp del: cms_add_all.simps)
next
  obtain c0 where c0: "NewCountMinSketch (\<lambda>_. 10) (\<lambda>_. 0) (\<lambda>c. replicate c [1]) 0 0 [] = Ok c0" "cm_k c0 = 0"
    by (auto simp: NewCountMinSketch_def Let_def make_elems_def max_alloc_def)
  have "total_count ([([5], 3)] @ []) < 2 ^ 64" by (simp add: total_count_def)
  from cms_estimate_bounds [OF c0(1) _ this, of "[5]"] c0
  show "\<exists>c0 c. NewCountMinSketch (\<lambda>_. 10) (\<lambda>_. 0) (\<lambda>c. replicate c [1]) 0 0 [] = Ok c0 \<and>
     cms_add_all c0 [([5], 3)] = Ok c \<and> CMS_Estimate c [5] = Ok 0"
    by (auto simp del: cms_add_all.simps)
qed

end
