(* ===== verification/Hyperloglog.thy ===== *)
theory Hyperloglog
  imports Hashing Dict_Encoder
begin

unbundle bit_operations_syntax

text \<open>
  \<^verbatim>\<open>internal/probabilistics/hyperloglog.go\<close>: registers, additions, merging, storage and the ADD operands.
  The cardinality estimate \<^verbatim>\<open>Count\<close> is a floating-point formula over the registers and is not modelled.
  The random seed is an argument of the constructor.
\<close>

section \<open>Model\<close>

record HyperLogLog =
  hl_precision :: byte
  hl_m :: u32
  hl_registers :: bytes
  hl_hashFn :: HashWithSeed

abbreviation DefaultHLLPrecision :: byte where "DefaultHLLPrecision \<equiv> 14"

definition hyperLogLogMagic :: bytes where
  "hyperLogLogMagic = [72, 76, 76, 49]"

definition hyperLogLogMergeMagic :: bytes where
  "hyperLogLogMergeMagic = [72, 76, 77, 49]"

abbreviation hllMergeOpAdd :: byte where "hllMergeOpAdd \<equiv> 1"

definition NewHyperLogLogWithParams :: "(nat \<Rightarrow> bytes) \<Rightarrow> byte \<Rightarrow> bytes \<Rightarrow> HyperLogLog" where
  "NewHyperLogLogWithParams generateSeed precision seed =
     (let precision = (if precision < 4 \<or> 18 < precision then DefaultHLLPrecision else precision);
          m = push_bit (unat precision) 1;
          seed = (if seed = [] then generateSeed 32 else seed)
      in \<lparr>hl_precision = precision, hl_m = m, hl_registers = make_bytes (unat m), hl_hashFn = \<lparr>hs_Seed = seed\<rparr>\<rparr>)"

definition HLL_Clear :: "HyperLogLog \<Rightarrow> HyperLogLog" where
  "HLL_Clear h = h\<lparr>hl_registers := map (\<lambda>_. 0) (hl_registers h)\<rparr>"

definition LeadingZeros64 :: "u64 \<Rightarrow> nat" where
  "LeadingZeros64 x = 64 - bits_Len (unat x)"

text \<open>The register a hash value selects and the rank it records there.\<close>

definition hll_index :: "HyperLogLog \<Rightarrow> u64 \<Rightarrow> u32" where
  "hll_index h x =
     (let idx = ucast (drop_bit (unat (64 - hl_precision h)) x) in
      if hl_m h \<le> idx then idx mod hl_m h else idx)"

definition hll_rank :: "HyperLogLog \<Rightarrow> u64 \<Rightarrow> byte" where
  "hll_rank h x =
     (let w = push_bit (unat (hl_precision h)) x in
      if w = 0 then word_of_int (64 - uint (hl_precision h)) + 1 else of_nat (LeadingZeros64 w + 1))"

definition HLL_Add :: "HyperLogLog \<Rightarrow> bytes \<Rightarrow> HyperLogLog result" where
  "HLL_Add h data =
     (if hl_m h = 0 \<or> hl_precision h = 0 then Ok h
      else
        let x = Hash (hl_hashFn h) data; idx = unat (hll_index h x); rank = hll_rank h x in
        if length (hl_registers h) \<le> idx then Inl (Panic ''index out of range'')
        else if hl_registers h ! idx < rank then Ok (h\<lparr>hl_registers := (hl_registers h)[idx := rank]\<rparr>)
        else Ok h)"

definition HLL_Merge :: "HyperLogLog \<Rightarrow> HyperLogLog \<Rightarrow> HyperLogLog result" where
  "HLL_Merge h other =
     (if hl_precision h \<noteq> hl_precision other \<or> hl_m h \<noteq> hl_m other then Inl (Error ''razlicita preciznost'')
      else if hs_Seed (hl_hashFn h) \<noteq> hs_Seed (hl_hashFn other) then Inl (Error ''razlicit seed'')
      else if length (hl_registers h) \<noteq> length (hl_registers other) then Inl (Error ''razlicit broj registara'')
      else Ok (h\<lparr>hl_registers := map2 (\<lambda>a b. if a < b then b else a) (hl_registers h) (hl_registers other)\<rparr>))"

definition HLL_ToBytes :: "HyperLogLog \<Rightarrow> bytes result" where
  "HLL_ToBytes h =
     (if hl_m h = 0 \<or> length (hl_registers h) \<noteq> unat (hl_m h) then Inl (Error ''neispravan hyperloglog'')
      else Ok (hyperLogLogMagic @ put_be64 (ucast (hl_precision h)) @ put_be64 (ucast (hl_m h)) @
        WriteSlice (hs_Seed (hl_hashFn h)) @ WriteSlice (hl_registers h)))"

definition HLL_ReadFrom :: "(bytes, HyperLogLog) op" where
  "HLL_ReadFrom =
     bind_s (ReadFull 4) (\<lambda>magic.
     if magic \<noteq> hyperLogLogMagic then fail_s (Error ''neispravan hyperloglog magic'')
     else bind_s ReadU64 (\<lambda>p64.
       let precision = ucast p64 :: byte in
       if precision < 4 \<or> 18 < precision then fail_s (Error ''neispravna preciznost'')
       else bind_s ReadU64 (\<lambda>m64.
         let m = ucast m64 :: u32 in
         if m \<noteq> push_bit (unat precision) 1 then fail_s (Error ''neispravan m'')
         else bind_s ReadSlice (\<lambda>seed. bind_s ReadU64 (\<lambda>regsLen.
           if regsLen \<noteq> ucast m then fail_s (Error ''neispravna duzina registara'')
           else bind_s (ReadFull (unat regsLen)) (\<lambda>regs.
             ret_s \<lparr>hl_precision = precision, hl_m = m, hl_registers = regs, hl_hashFn = \<lparr>hs_Seed = seed\<rparr>\<rparr>))))))"

definition HLL_FromBytes :: "bytes \<Rightarrow> HyperLogLog result" where
  "HLL_FromBytes data = fst (HLL_ReadFrom data)"

subsection \<open>Operands\<close>

definition EncodeHLLAddOperand :: "bytes \<Rightarrow> bytes" where
  "EncodeHLLAddOperand element =
     hyperLogLogMergeMagic @ [hllMergeOpAdd] @ put_be64 (of_nat (length element)) @ element"

definition DecodeHLLAddOperand :: "bytes \<Rightarrow> bytes result" where
  "DecodeHLLAddOperand opd =
     (if length opd < 13 then Inl (Error ''operand prekratak'')
      else if take 4 opd \<noteq> hyperLogLogMergeMagic then Inl (Error ''neispravan operand magic'')
      else if opd ! 4 \<noteq> hllMergeOpAdd then Inl (Error ''nepoznat operand kind'')
      else if of_nat (length opd) \<noteq> 13 + get_be64 (take 8 (drop 5 opd)) then Inl (Error ''neispravna duzina operanda'')
      else Ok (drop 13 opd))"

definition IsHLLStateBytes :: "bytes \<Rightarrow> bool" where
  "IsHLLStateBytes data \<longleftrightarrow> 4 \<le> length data \<and> take 4 data = hyperLogLogMagic"

definition IsHLLMergeOperand :: "bytes \<Rightarrow> bool" where
  "IsHLLMergeOperand data \<longleftrightarrow> 5 \<le> length data \<and> take 4 data = hyperLogLogMergeMagic"

definition IsHLLAddOperand :: "bytes \<Rightarrow> bool" where
  "IsHLLAddOperand data \<longleftrightarrow> IsHLLMergeOperand data \<and> data ! 4 = hllMergeOpAdd"

definition MergeHLLBytes :: "bytes \<Rightarrow> bytes \<Rightarrow> bytes result" where
  "MergeHLLBytes a b =
     bind_r (HLL_FromBytes a) (\<lambda>ha. bind_r (HLL_FromBytes b) (\<lambda>hb.
     bind_r (HLL_Merge ha hb) (\<lambda>h. HLL_ToBytes h)))"

definition ApplyHLLMerge :: "bytes \<Rightarrow> bytes \<Rightarrow> bytes result" where
  "ApplyHLLMerge existingState operand =
     (if operand = [] then Ok existingState
      else if IsHLLStateBytes operand then
        (if existingState = [] then Ok operand else MergeHLLBytes existingState operand)
      else if IsHLLAddOperand operand then
        (if existingState = [] then Inl (Error ''HLL nije kreiran'')
         else bind_r (DecodeHLLAddOperand operand) (\<lambda>el.
              bind_r (HLL_FromBytes existingState) (\<lambda>h.
              bind_r (HLL_Add h el) (\<lambda>h. HLL_ToBytes h))))
      else Inl (Error ''nepoznat operand format''))"

section \<open>Additions\<close>

definition hll_wf :: "HyperLogLog \<Rightarrow> bool" where
  "hll_wf h \<longleftrightarrow> 4 \<le> hl_precision h \<and> hl_precision h \<le> 18 \<and> hl_m h = push_bit (unat (hl_precision h)) 1 \<and>
     length (hl_registers h) = unat (hl_m h)"

text \<open>The rank an element contributes to a register, 0 if it belongs to another one.\<close>

definition contributes :: "HyperLogLog \<Rightarrow> nat \<Rightarrow> bytes \<Rightarrow> byte" where
  "contributes h i data =
     (let x = Hash (hl_hashFn h) data in if unat (hll_index h x) = i then hll_rank h x else 0)"

definition registers_of :: "HyperLogLog \<Rightarrow> bytes list \<Rightarrow> bytes" where
  "registers_of h xs = map (\<lambda>i. Max (insert (hl_registers h ! i) ((\<lambda>x. contributes h i x) ` set xs))) [0..<length (hl_registers h)]"

lemma len_u32: "LENGTH(32) = 32"
  by simp

lemma hll_m_pos:
  assumes "hll_wf h"
  shows "unat (hl_m h) = 2 ^ unat (hl_precision h)" "hl_m h \<noteq> 0" "hl_precision h \<noteq> 0"
proof -
  have p: "4 \<le> unat (hl_precision h)" "unat (hl_precision h) \<le> 18"
    using assms by (simp_all add: hll_wf_def word_le_nat_alt)
  have "(2::nat) ^ unat (hl_precision h) \<le> 2 ^ 18" using p(2) by (intro power_increasing) auto
  then have "(2::nat) ^ unat (hl_precision h) < 2 ^ 32" by (rule le_less_trans) simp
  then show m: "unat (hl_m h) = 2 ^ unat (hl_precision h)"
  proof -
    assume lt: "(2::nat) ^ unat (hl_precision h) < 2 ^ 32"
    have "unat (hl_m h) = take_bit 32 (push_bit (unat (hl_precision h)) (1 :: nat))"
      using assms by (simp only: hll_wf_def) (simp only: unsigned_push_bit_eq unsigned_1 len_u32)
    also have "\<dots> = 2 ^ unat (hl_precision h)"
      using lt by (simp only: push_bit_of_1 take_bit_nat_eq_self)
    finally show ?thesis .
  qed
  from m show "hl_m h \<noteq> 0" by (metis power_eq_0_iff unsigned_0 zero_neq_numeral)
  show "hl_precision h \<noteq> 0" using p(1) by auto
qed

lemma hll_index_less: "hll_wf h \<Longrightarrow> unat (hll_index h x) < length (hl_registers h)"
proof -
  assume wf: "hll_wf h"
  then have m: "length (hl_registers h) = unat (hl_m h)" "0 < unat (hl_m h)"
    using hll_m_pos [of h] by (simp_all add: hll_wf_def unat_gt_0)
  show ?thesis
    unfolding hll_index_def Let_def m(1) using m(2) by (simp add: unat_mod word_le_nat_alt)
qed

lemma HLL_Add_registers:
  assumes "hll_wf h"
  shows "HLL_Add h x = Ok (h\<lparr>hl_registers := map (\<lambda>i. max (hl_registers h ! i) (contributes h i x)) [0..<length (hl_registers h)]\<rparr>)"
proof -
  define j where "j = unat (hll_index h (Hash (hl_hashFn h) x))"
  define r where "r = hll_rank h (Hash (hl_hashFn h) x)"
  have j: "j < length (hl_registers h)" using hll_index_less [OF assms] by (simp add: j_def)
  have c: "contributes h i x = (if j = i then r else 0)" for i
    by (simp add: contributes_def Let_def j_def r_def)
  have regs: "map (\<lambda>i. max (hl_registers h ! i) (contributes h i x)) [0..<length (hl_registers h)] =
      (if hl_registers h ! j < r then (hl_registers h)[j := r] else hl_registers h)"
    using j by (intro nth_equalityI) (auto simp: c nth_list_update max_def)
  have "HLL_Add h x = (if hl_registers h ! j < r then Ok (h\<lparr>hl_registers := (hl_registers h)[j := r]\<rparr>) else Ok h)"
    using hll_m_pos [OF assms] j by (simp add: HLL_Add_def Let_def j_def r_def)
  then show ?thesis unfolding regs by simp
qed

fun hll_add_all :: "HyperLogLog \<Rightarrow> bytes list \<Rightarrow> HyperLogLog result" where
  "hll_add_all h [] = Ok h"
| "hll_add_all h (x # xs) = bind_r (HLL_Add h x) (\<lambda>h. hll_add_all h xs)"

lemma contributes_cong: "contributes (h\<lparr>hl_registers := r\<rparr>) = contributes h"
  by (simp add: contributes_def hll_index_def hll_rank_def fun_eq_iff Let_def)

lemma hll_wf_registers: "hll_wf h \<Longrightarrow> length r = length (hl_registers h) \<Longrightarrow> hll_wf (h\<lparr>hl_registers := r\<rparr>)"
  by (simp add: hll_wf_def)

lemma hll_add_all_registers:
  "hll_wf h \<Longrightarrow> hll_add_all h xs = Ok (h\<lparr>hl_registers := registers_of h xs\<rparr>)"
proof (induction xs arbitrary: h)
  case Nil
  have "registers_of h [] = hl_registers h" by (simp add: registers_of_def map_nth)
  then show ?case by simp
next
  case (Cons x xs)
  define r where "r = map (\<lambda>i. max (hl_registers h ! i) (contributes h i x)) [0..<length (hl_registers h)]"
  have "hll_wf (h\<lparr>hl_registers := r\<rparr>)" by (rule hll_wf_registers [OF Cons.prems]) (simp add: r_def)
  moreover have "registers_of (h\<lparr>hl_registers := r\<rparr>) xs = registers_of h (x # xs)"
  proof (rule nth_equalityI)
    fix i assume "i < length (registers_of (h\<lparr>hl_registers := r\<rparr>) xs)"
    then have i: "i < length (hl_registers h)" by (simp add: registers_of_def r_def)
    have "Max (insert (max a b) S) = Max (insert a (insert b S))" if "finite S" for a b :: byte and S
      using that by (cases "S = {}") (simp_all add: max.assoc max.left_commute)
    with i show "registers_of (h\<lparr>hl_registers := r\<rparr>) xs ! i = registers_of h (x # xs) ! i"
      by (simp add: registers_of_def r_def contributes_cong)
  qed (simp add: registers_of_def r_def)
  ultimately show ?case
    using Cons.IH [of "h\<lparr>hl_registers := r\<rparr>"] HLL_Add_registers [OF Cons.prems, of x] by (simp add: r_def)
qed

lemma hll_merge_registers:
  assumes "hll_wf h" "set zs = set xs \<union> set ys"
  shows "HLL_Merge (h\<lparr>hl_registers := registers_of h xs\<rparr>) (h\<lparr>hl_registers := registers_of h ys\<rparr>) =
    Ok (h\<lparr>hl_registers := registers_of h zs\<rparr>)"
proof -
  have mx: "(\<lambda>a b. if a < b then b else a) = (max :: byte \<Rightarrow> byte \<Rightarrow> byte)"
    by (auto simp: max_def fun_eq_iff)
  have "map2 max (registers_of h xs) (registers_of h ys) = registers_of h zs"
  proof (rule nth_equalityI)
    fix i assume "i < length (map2 max (registers_of h xs) (registers_of h ys))"
    then have i: "i < length (hl_registers h)" by (simp add: registers_of_def)
    let ?A = "(\<lambda>x. contributes h i x) ` set xs" and ?B = "(\<lambda>x. contributes h i x) ` set ys" and ?a = "hl_registers h ! i"
    have "Max (insert ?a (?A \<union> ?B)) = Max (insert ?a ?A \<union> insert ?a ?B)"
      by (rule arg_cong [where f = Max]) auto
    also have "\<dots> = max (Max (insert ?a ?A)) (Max (insert ?a ?B))"
      by (rule Max_Un) auto
    finally show "map2 max (registers_of h xs) (registers_of h ys) ! i = registers_of h zs ! i"
      using i by (simp add: registers_of_def assms(2) image_Un)
  qed (simp add: registers_of_def)
  then show ?thesis by (simp add: HLL_Merge_def mx registers_of_def)
qed

section \<open>Storage\<close>

lemma ucast_roundtrip: "(ucast (ucast (p :: byte) :: u64) :: byte) = p" "(ucast (ucast (m :: u32) :: u64) :: u32) = m"
  by (rule bit_word_eqI; simp add: bit_ucast_iff)+

lemma HLL_storage:
  assumes "hll_wf h" "slice_ok (hs_Seed (hl_hashFn h))"
  shows "\<exists>bs. HLL_ToBytes h = Ok bs \<and> bs \<noteq> [] \<and> HLL_FromBytes bs = Ok h"
proof -
  have len: "length (hl_registers h) = unat (hl_m h)" "unat (ucast (hl_m h) :: u64) = unat (hl_m h)"
      "of_nat (length (hl_registers h)) = (ucast (hl_m h) :: u64)"
  proof -
    show l: "length (hl_registers h) = unat (hl_m h)" using assms(1) by (simp add: hll_wf_def)
    have "unat (hl_m h) < 2 ^ 32" using unsigned_less [of "hl_m h", where 'a = nat] by simp
    then show u: "unat (ucast (hl_m h) :: u64) = unat (hl_m h)"
      by (simp add: unsigned_ucast_eq take_bit_nat_eq_self)
    show "of_nat (length (hl_registers h)) = (ucast (hl_m h) :: u64)"
      unfolding l by (subst u [symmetric]) simp
  qed
  define bs where "bs = hyperLogLogMagic @ put_be64 (ucast (hl_precision h)) @ put_be64 (ucast (hl_m h)) @
      WriteSlice (hs_Seed (hl_hashFn h)) @ WriteSlice (hl_registers h)"
  have to: "HLL_ToBytes h = Ok bs"
    using hll_m_pos [OF assms(1)] len by (simp add: HLL_ToBytes_def bs_def)
  have p: "\<not> hl_precision h < 4" "\<not> 18 < hl_precision h" "2 ^ unat (hl_precision h) = hl_m h"
    using assms(1) by (auto simp: hll_wf_def not_less)
  have "ReadFull 4 (hyperLogLogMagic @ r) = (Ok hyperLogLogMagic, r)" for r
    by (rule ReadFull_at) (simp add: hyperLogLogMagic_def)
  moreover have "ReadU64 (WriteSlice (hl_registers h)) = (Ok (ucast (hl_m h)), hl_registers h)"
    using ReadU64_at [of "ucast (hl_m h)" "hl_registers h"] by (simp add: WriteSlice_def len(3))
  moreover have "ReadFull (unat (hl_m h)) (hl_registers h) = (Ok (hl_registers h), [])"
    using ReadFull_at [of "unat (hl_m h)" "hl_registers h" "[]"] len(1) by simp
  ultimately have "HLL_FromBytes bs = Ok h"
    using p(1,2) by (simp add: HLL_FromBytes_def HLL_ReadFrom_def bs_def ReadU64_at ReadSlice_at [OF assms(2)]
        ucast_roundtrip p(3) len(2) Let_def)
  moreover have "bs \<noteq> []" by (simp add: bs_def hyperLogLogMagic_def)
  ultimately show ?thesis using to by blast
qed

lemma DecodeHLLAddOperand_Encode:
  assumes "slice_ok el"
  shows "DecodeHLLAddOperand (EncodeHLLAddOperand el) = Ok el" "IsHLLAddOperand (EncodeHLLAddOperand el)"
    "\<not> IsHLLStateBytes (EncodeHLLAddOperand el)" "EncodeHLLAddOperand el \<noteq> []"
proof -
  have e: "EncodeHLLAddOperand el = 72 # 76 # 77 # 49 # 1 # put_be64 (of_nat (length el)) @ el"
    by (simp add: EncodeHLLAddOperand_def hyperLogLogMergeMagic_def)
  have "of_nat (13 + length el) = 13 + (of_nat (length el) :: u64)" by simp
  then show "DecodeHLLAddOperand (EncodeHLLAddOperand el) = Ok el"
    by (simp add: DecodeHLLAddOperand_def e hyperLogLogMergeMagic_def eval_nat_numeral add.assoc)
  show "IsHLLAddOperand (EncodeHLLAddOperand el)" "\<not> IsHLLStateBytes (EncodeHLLAddOperand el)" "EncodeHLLAddOperand el \<noteq> []"
    by (simp_all add: IsHLLAddOperand_def IsHLLMergeOperand_def IsHLLStateBytes_def e hyperLogLogMergeMagic_def
        hyperLogLogMagic_def eval_nat_numeral)
qed

text \<open>Applying an ADD operand to a stored state adds the element to it.\<close>

lemma ApplyHLLMerge_add:
  assumes "hll_wf h" "slice_ok (hs_Seed (hl_hashFn h))" "slice_ok el" "HLL_ToBytes h = Ok bs"
  shows "ApplyHLLMerge bs (EncodeHLLAddOperand el) = bind_r (HLL_Add h el) HLL_ToBytes"
  using HLL_storage [OF assms(1,2)] DecodeHLLAddOperand_Encode [OF assms(3)] assms(4)
  by (auto simp: ApplyHLLMerge_def)

section \<open>Properties\<close>

lemma NewHyperLogLog_wf: "hll_wf (NewHyperLogLogWithParams gen p seed)"
proof -
  show ?thesis by (simp add: NewHyperLogLogWithParams_def Let_def hll_wf_def not_less)
qed

text \<open>The registers of a HyperLogLog describe a set. After additions they depend only on which elements
  were added, not on order or repetition, and merging the sketches of two streams with the same seed
  gives the sketch of their union, also when both are merged in their stored form.\<close>

theorem hll_set_semantics:
  assumes "set zs = set xs \<union> set ys" "slice_ok (hs_Seed (hl_hashFn h))" "h = NewHyperLogLogWithParams gen p seed"
  shows "\<exists>hx hy hz bx by bz. hll_add_all h xs = Ok hx \<and> hll_add_all h ys = Ok hy \<and> hll_add_all h zs = Ok hz \<and>
    HLL_Merge hx hy = Ok hz \<and> HLL_ToBytes hx = Ok bx \<and> HLL_ToBytes hy = Ok by \<and> HLL_ToBytes hz = Ok bz \<and>
    MergeHLLBytes bx by = Ok bz \<and> HLL_FromBytes bz = Ok hz"
proof -
  have wf: "hll_wf h" unfolding assms(3) by (rule NewHyperLogLog_wf)
  let ?r = "\<lambda>xs. h\<lparr>hl_registers := registers_of h xs\<rparr>"
  have st: "\<exists>bs. HLL_ToBytes (?r xs) = Ok bs \<and> HLL_FromBytes bs = Ok (?r xs)" for xs
    using HLL_storage [of "?r xs"] hll_wf_registers [OF wf] assms(2) by (auto simp: registers_of_def)
  from st [of xs] st [of ys] st [of zs] hll_merge_registers [OF wf assms(1)] hll_add_all_registers [OF wf]
  show ?thesis by (auto simp: MergeHLLBytes_def)
qed

theorem hll_set_semantics_witness:
  "\<exists>hx hy hz. hll_add_all (NewHyperLogLogWithParams (\<lambda>_. []) 4 [1]) [[1], [2], [1]] = Ok hx \<and>
     hll_add_all (NewHyperLogLogWithParams (\<lambda>_. []) 4 [1]) [[3]] = Ok hy \<and>
     hll_add_all (NewHyperLogLogWithParams (\<lambda>_. []) 4 [1]) [[3], [2], [1]] = Ok hz \<and> HLL_Merge hx hy = Ok hz"
  using hll_set_semantics [of "[[3], [2], [1]]" "[[1], [2], [1]]" "[[3]]", OF _ _ refl, of "\<lambda>_. []" 4 "[1]"]
  by (auto simp: NewHyperLogLogWithParams_def Let_def slice_ok_def max_alloc_def insert_commute simp del: hll_add_all.simps)

end
