(* ===== verification/Merge_Operator.thy ===== *)
theory Merge_Operator
  imports Count_Min_Sketch Hyperloglog
begin

text \<open>
  \<^verbatim>\<open>internal/merge/operator.go\<close>: probabilistic structures live in the key-value store as a base state
  followed by ADD operands, which reads and compactions fold together. The locale
  \<open>merge_type\<close> is what \<^verbatim>\<open>ApplyAll\<close> needs of one operator: applying an operand to a stored state is
  adding the element to the structure. It is interpreted for the Bloom filter, the count-min
  sketch and the HyperLogLog.
\<close>

section \<open>Model\<close>

abbreviation ProbKeyPrefix :: byte where "ProbKeyPrefix \<equiv> 1"
abbreviation TypeBloom :: byte where "TypeBloom \<equiv> 1"
abbreviation TypeCMS :: byte where "TypeCMS \<equiv> 2"
abbreviation TypeHLL :: byte where "TypeHLL \<equiv> 3"
abbreviation TypeSimHash :: byte where "TypeSimHash \<equiv> 4"
abbreviation BaseStateMarker :: byte where "BaseStateMarker \<equiv> 0"
abbreviation MergeOperandMarker :: byte where "MergeOperandMarker \<equiv> 0xFF"
abbreviation OpAdd :: byte where "OpAdd \<equiv> 1"

definition ProbKey :: "byte \<Rightarrow> bytes \<Rightarrow> bytes" where
  "ProbKey typ name = ProbKeyPrefix # typ # name"

definition IsProbKey :: "bytes \<Rightarrow> bool" where
  "IsProbKey key \<longleftrightarrow> 2 \<le> length key \<and> key ! 0 = ProbKeyPrefix"

definition ProbType :: "bytes \<Rightarrow> byte" where
  "ProbType key = (if IsProbKey key then key ! 1 else 0)"

definition WrapBaseState :: "bytes \<Rightarrow> bytes" where
  "WrapBaseState state = BaseStateMarker # state"

definition WrapOperand :: "byte \<Rightarrow> bytes \<Rightarrow> bytes" where
  "WrapOperand opCode payload = MergeOperandMarker # opCode # put_u64 (of_nat (length payload)) @ payload"

text \<open>\<^verbatim>\<open>10+l\<close> is computed in \<^verbatim>\<open>uint64\<close> and can wrap; the slice then panics.\<close>

definition UnwrapOperand :: "bytes \<Rightarrow> (byte \<times> bytes) result" where
  "UnwrapOperand data =
     (if length data < 10 \<or> data ! 0 \<noteq> MergeOperandMarker then Inl (Error ''invalid merge operand'')
      else let l = get_le (take 8 (drop 2 data)) :: u64 in
        if of_nat (length data) < 10 + l then Inl (Error ''operand payload truncated'')
        else bind_r (go_slice data 10 (uint (10 + l))) (\<lambda>payload. Ok (data ! 1, payload)))"

datatype operator = bloomOp | cmsOp | hllOp

definition GetOperator :: "bytes \<Rightarrow> operator result" where
  "GetOperator key =
     (if \<not> IsProbKey key then Inl (Error ''not a probabilistic key'')
      else if key ! 1 = TypeBloom then Ok bloomOp
      else if key ! 1 = TypeCMS then Ok cmsOp
      else if key ! 1 = TypeHLL then Ok hllOp
      else Inl (Error ''no merge operator for type''))"

fun op_Apply :: "operator \<Rightarrow> bytes \<Rightarrow> bytes \<Rightarrow> bytes result" where
  "op_Apply bloomOp existing operand =
     bind_r (UnwrapOperand operand) (\<lambda>(_, payload).
     bind_r (Bloom_FromBytes existing) (\<lambda>bf.
     bind_r (Bloom_Add bf payload) (\<lambda>bf. Ok (Bloom_ToBytes bf))))"
| "op_Apply cmsOp existing operand =
     bind_r (UnwrapOperand operand) (\<lambda>(_, payload).
     bind_r (fst (CMS_ReadFrom existing)) (\<lambda>cms.
     bind_r (CMS_Increment cms payload) CMS_WriteTo))"
| "op_Apply hllOp existing operand =
     bind_r (UnwrapOperand operand) (\<lambda>(_, payload). ApplyHLLMerge existing (EncodeHLLAddOperand payload))"

text \<open>
  The state is \<^verbatim>\<open>nil\<close> (\<^const>\<open>None\<close>) until a base state is seen; copying an empty base state with
  \<^verbatim>\<open>append\<close> leaves it nil. Values with another first byte are skipped.
\<close>

definition copy_state :: "bytes \<Rightarrow> bytes option" where
  "copy_state bs = (if bs = [] then None else Some bs)"

fun apply_values :: "operator \<Rightarrow> bytes option \<Rightarrow> bytes list \<Rightarrow> bytes option result" where
  "apply_values oper state [] = Ok state"
| "apply_values oper state (v # vs) =
     (if v = [] then apply_values oper state vs
      else if v ! 0 = BaseStateMarker then apply_values oper (copy_state (drop 1 v)) vs
      else if v ! 0 = MergeOperandMarker then
        (case state of
           None \<Rightarrow> Inl (Error ''merge operand before base state'')
         | Some s \<Rightarrow> bind_r (op_Apply oper s v) (\<lambda>s. apply_values oper (Some s) vs))
      else apply_values oper state vs)"

text \<open>The values are reversed in place: the caller's slice is oldest-first afterwards.\<close>

definition ApplyAll :: "bytes \<Rightarrow> bytes list \<Rightarrow> bytes option result \<times> bytes list" where
  "ApplyAll key values =
     (case GetOperator key of
        Inl e \<Rightarrow> (Inl e, values)
      | Inr oper \<Rightarrow> (apply_values oper None (rev values), rev values))"

section \<open>Operands\<close>

lemma UnwrapOperand_Wrap:
  assumes "slice_ok payload"
  shows "UnwrapOperand (WrapOperand code payload) = Ok (code, payload)"
proof -
  have lt: "length payload < 2 ^ 48" using assms by (simp add: slice_ok_def max_alloc_def)
  have l: "get_le (take 8 (drop 2 (WrapOperand code payload))) = (of_nat (length payload) :: u64)"
  proof -
    have "drop 2 (WrapOperand code payload) = put_u64 (of_nat (length payload)) @ payload"
      by (simp add: WrapOperand_def numeral_2_eq_2)
    then have "take 8 (drop 2 (WrapOperand code payload)) = put_u64 (of_nat (length payload))" by simp
    then show ?thesis by (simp add: put_u64_def get_le_put_le take_bit_word_eq_self)
  qed
  have u: "uint (10 + of_nat (length payload) :: u64) = 10 + int (length payload)"
  proof -
    have "unat (of_nat (10 + length payload) :: u64) = 10 + length payload"
      using lt by (simp only: unsigned_of_nat) (simp add: take_bit_nat_eq_self)
    then show ?thesis by (simp add: uint_nat)
  qed
  have "of_nat (length (WrapOperand code payload)) = (10 + of_nat (length payload) :: u64)"
    by (simp add: WrapOperand_def)
  moreover have "go_slice (WrapOperand code payload) 10 (10 + int (length payload)) = Ok payload"
    using go_slice_middle [OF refl refl, of "MergeOperandMarker # code # put_u64 (of_nat (length payload))" payload "[]"]
    by (simp add: WrapOperand_def)
  moreover have "WrapOperand code payload ! 0 = MergeOperandMarker" "WrapOperand code payload ! 1 = code"
    "\<not> length (WrapOperand code payload) < 10"
    by (simp_all add: WrapOperand_def)
  ultimately show ?thesis by (simp add: UnwrapOperand_def l u Let_def)
qed

section \<open>Operators\<close>

text \<open>
  \<open>enc\<close> stores a structure, \<open>add\<close> adds an element to it; \<open>inv\<close> are the structures that can be stored.
\<close>

locale merge_type =
  fixes oper :: operator and enc :: "'s \<Rightarrow> bytes" and add :: "'s \<Rightarrow> bytes \<Rightarrow> 's" and inv :: "'s \<Rightarrow> bool"
  assumes apply_add: "inv s \<Longrightarrow> slice_ok x \<Longrightarrow> op_Apply oper (enc s) (WrapOperand OpAdd x) = Ok (enc (add s x))"
    and inv_add: "inv s \<Longrightarrow> inv (add s x)"
    and enc_nonempty: "inv s \<Longrightarrow> enc s \<noteq> []"
begin

lemma apply_operands:
  "inv s \<Longrightarrow> list_all slice_ok xs \<Longrightarrow>
   apply_values oper (Some (enc s)) (map (WrapOperand OpAdd) xs) = Ok (Some (enc (foldl add s xs)))"
proof (induction xs arbitrary: s)
  case (Cons x xs)
  have "WrapOperand OpAdd x \<noteq> []" "WrapOperand OpAdd x ! 0 = MergeOperandMarker" by (simp_all add: WrapOperand_def)
  with Cons show ?case by (simp add: apply_add inv_add)
qed simp

text \<open>Records older than the base state do not matter, unless one of them is an operand.\<close>

theorem apply_base_and_operands:
  assumes "inv s" "list_all slice_ok xs"
  shows "apply_values oper st (WrapBaseState (enc s) # map (WrapOperand OpAdd) xs) = Ok (Some (enc (foldl add s xs)))"
  using apply_operands [OF assms] enc_nonempty [OF assms(1)] by (simp add: WrapBaseState_def copy_state_def)

end

definition bloom_add :: "BloomFilter \<Rightarrow> bytes \<Rightarrow> BloomFilter" where
  "bloom_add b x = (case Bloom_Add b x of Inr b' \<Rightarrow> b' | Inl _ \<Rightarrow> b)"

definition cms_inc :: "CountMinSketch \<Rightarrow> bytes \<Rightarrow> CountMinSketch" where
  "cms_inc c x = (case CMS_Increment c x of Inr c' \<Rightarrow> c' | Inl _ \<Rightarrow> c)"

definition hll_add :: "HyperLogLog \<Rightarrow> bytes \<Rightarrow> HyperLogLog" where
  "hll_add h x = (case HLL_Add h x of Inr h' \<Rightarrow> h' | Inl _ \<Rightarrow> h)"

definition cms_enc :: "CountMinSketch \<Rightarrow> bytes" where
  "cms_enc c = (case CMS_WriteTo c of Inr bs \<Rightarrow> bs | Inl _ \<Rightarrow> [])"

definition hll_enc :: "HyperLogLog \<Rightarrow> bytes" where
  "hll_enc h = (case HLL_ToBytes h of Inr bs \<Rightarrow> bs | Inl _ \<Rightarrow> [])"

definition cms_inv :: "CountMinSketch \<Rightarrow> bool" where
  "cms_inv c \<longleftrightarrow> cms_wf c \<and> cms_storable c \<and> (\<exists>adds. cm_table c = table_of (cm_m c) (cm_hashFunctions c) adds)"

lemma bloom_add_eq: "bloom_wf b \<Longrightarrow> Bloom_Add b x = Ok (bloom_add b x)"
  by (simp add: bloom_add_def Bloom_Add_eq)

interpretation bloom_merge: merge_type bloomOp Bloom_ToBytes bloom_add "\<lambda>b. bloom_wf b \<and> bloom_storable b"
proof unfold_locales
  fix b x
  assume b: "bloom_wf b \<and> bloom_storable b"
  show "slice_ok x \<Longrightarrow> op_Apply bloomOp (Bloom_ToBytes b) (WrapOperand OpAdd x) = Ok (Bloom_ToBytes (bloom_add b x))"
    using b Bloom_ReadFrom_at [of b "[]"] by (simp add: UnwrapOperand_Wrap Bloom_FromBytes_def bloom_add_eq)
  show "bloom_wf (bloom_add b x) \<and> bloom_storable (bloom_add b x)"
    using b by (simp add: bloom_add_def Bloom_Add_eq bloom_wf_def bloom_storable_def slice_ok_def)
  show "Bloom_ToBytes b \<noteq> []" by (simp add: Bloom_ToBytes_def bloomFilterMagic_def)
qed

lemma cms_inc_eq:
  assumes "cms_inv c"
  shows "CMS_Increment c x = Ok (cms_inc c x)" "cms_inv (cms_inc c x)"
proof -
  from assms obtain adds where c: "cms_wf c" "cms_storable c" "cm_table c = table_of (cm_m c) (cm_hashFunctions c) adds"
    by (auto simp: cms_inv_def)
  from CMS_Add_eq [OF c(1,3), of x 1]
  have inc: "CMS_Increment c x = Ok (c\<lparr>cm_table := table_of (cm_m c) (cm_hashFunctions c) (adds @ [(x, 1)])\<rparr>)"
    by (simp add: CMS_Increment_def)
  then show "CMS_Increment c x = Ok (cms_inc c x)" by (simp add: cms_inc_def)
  show "cms_inv (cms_inc c x)"
    using c unfolding cms_inv_def cms_inc_def inc
    by (auto simp: cms_wf_def cms_storable_def table_of_def list_all_iff)
qed

interpretation cms_merge: merge_type cmsOp cms_enc cms_inc cms_inv
proof unfold_locales
  fix c x
  assume c: "cms_inv c"
  have st: "\<exists>bs. CMS_WriteTo d = Ok bs \<and> CMS_ReadFrom bs = (Ok d, [])" if "cms_inv d" for d
    using CMS_ReadFrom_WriteTo [of d "[]"] that by (simp add: cms_inv_def)
  have wr: "CMS_WriteTo d = Ok (cms_enc d)" "fst (CMS_ReadFrom (cms_enc d)) = Ok d" if "cms_inv d" for d
    using st [OF that] by (auto simp: cms_enc_def)
  show "op_Apply cmsOp (cms_enc c) (WrapOperand OpAdd x) = Ok (cms_enc (cms_inc c x))" if "slice_ok x"
    using that wr [OF c] wr [OF cms_inc_eq(2) [OF c, of x]] cms_inc_eq(1) [OF c, of x] by (simp add: UnwrapOperand_Wrap)
  show "cms_inv (cms_inc c x)" by (rule cms_inc_eq [OF c])
  from st [OF c] show "cms_enc c \<noteq> []"
    by (auto simp: cms_enc_def CMS_ReadFrom_def ReadU64_def ReadFull_def bind_s_def)
qed

definition hll_inv :: "HyperLogLog \<Rightarrow> bool" where
  "hll_inv h \<longleftrightarrow> hll_wf h \<and> slice_ok (hs_Seed (hl_hashFn h))"

lemma hll_add_eq:
  assumes "hll_inv h"
  shows "HLL_Add h x = Ok (hll_add h x)" "hll_inv (hll_add h x)"
  using assms HLL_Add_registers [of h x] by (auto simp: hll_inv_def hll_add_def hll_wf_def)

interpretation hll_merge: merge_type hllOp hll_enc hll_add hll_inv
proof unfold_locales
  fix h x
  assume h: "hll_inv h"
  have st: "HLL_ToBytes d = Ok (hll_enc d)" "hll_enc d \<noteq> []" if "hll_inv d" for d
    using HLL_storage [of d] that by (auto simp: hll_inv_def hll_enc_def)
  show "op_Apply hllOp (hll_enc h) (WrapOperand OpAdd x) = Ok (hll_enc (hll_add h x))" if "slice_ok x"
    using that ApplyHLLMerge_add [of h x "hll_enc h"] h st [OF h] st [OF hll_add_eq(2) [OF h, of x]] hll_add_eq(1) [OF h, of x]
    by (simp add: UnwrapOperand_Wrap hll_inv_def)
  show "hll_inv (hll_add h x)" by (rule hll_add_eq [OF h])
  show "hll_enc h \<noteq> []" by (rule st [OF h])
qed

section \<open>Properties\<close>

text \<open>The records of a key as a reader collects them: operands newest first, the base state last.\<close>

definition newest_first :: "bytes \<Rightarrow> bytes list \<Rightarrow> bytes list" where
  "newest_first base xs = rev (WrapBaseState base # map (WrapOperand OpAdd) xs)"

lemma add_all_foldl: "bloom_wf b \<and> bloom_storable b \<Longrightarrow> add_all b xs = Ok (foldl bloom_add b xs)"
proof (induction xs arbitrary: b)
  case (Cons x xs)
  then show ?case using bloom_merge.inv_add [of b x] by (simp add: bloom_add_eq)
qed simp

lemma cms_add_all_foldl: "cms_inv c \<Longrightarrow> cms_add_all c (map (\<lambda>x. (x, 1)) xs) = Ok (foldl cms_inc c xs)"
proof (induction xs arbitrary: c)
  case (Cons x xs)
  then show ?case using cms_inc_eq [of c x] by (simp add: CMS_Increment_def)
qed simp

lemma hll_add_all_foldl: "hll_inv h \<Longrightarrow> hll_add_all h xs = Ok (foldl hll_add h xs)"
proof (induction xs arbitrary: h)
  case (Cons x xs)
  then show ?case using hll_add_eq [of h x] by simp
qed simp

lemma GetOperator_ProbKey [simp]:
  "GetOperator (ProbKey TypeBloom name) = Ok bloomOp" "GetOperator (ProbKey TypeCMS name) = Ok cmsOp"
  "GetOperator (ProbKey TypeHLL name) = Ok hllOp"
  by (simp_all add: GetOperator_def ProbKey_def IsProbKey_def)

text \<open>C35: Folding the records of a probabilistic key is the same as adding the elements directly. For a stored
  Bloom filter, count-min sketch or HyperLogLog and any operands written after it, \<^verbatim>\<open>ApplyAll\<close> returns
  the stored form of the structure to which the elements were added in order; operands with no base
  state before them are an error.\<close>

theorem merge_records_fold:
  assumes "list_all slice_ok xs"
  shows "(bloom_wf b \<and> bloom_storable b \<longrightarrow> (\<exists>b'. add_all b xs = Ok b' \<and>
      fst (ApplyAll (ProbKey TypeBloom name) (newest_first (Bloom_ToBytes b) xs)) = Ok (Some (Bloom_ToBytes b')))) \<and>
    (cms_inv c \<longrightarrow> (\<exists>c' bs bs'. CMS_WriteTo c = Ok bs \<and> cms_add_all c (map (\<lambda>x. (x, 1)) xs) = Ok c' \<and> CMS_WriteTo c' = Ok bs' \<and>
      fst (ApplyAll (ProbKey TypeCMS name) (newest_first bs xs)) = Ok (Some bs'))) \<and>
    (hll_inv h \<longrightarrow> (\<exists>h' bs bs'. HLL_ToBytes h = Ok bs \<and> hll_add_all h xs = Ok h' \<and> HLL_ToBytes h' = Ok bs' \<and>
      fst (ApplyAll (ProbKey TypeHLL name) (newest_first bs xs)) = Ok (Some bs'))) \<and>
    fst (ApplyAll (ProbKey TypeBloom name) (rev (map (WrapOperand OpAdd) (x # xs)))) = Inl (Error ''merge operand before base state'')"
proof (intro conjI impI)
  assume b: "bloom_wf b \<and> bloom_storable b"
  show "\<exists>b'. add_all b xs = Ok b' \<and>
      fst (ApplyAll (ProbKey TypeBloom name) (newest_first (Bloom_ToBytes b) xs)) = Ok (Some (Bloom_ToBytes b'))"
    unfolding add_all_foldl [OF b] newest_first_def ApplyAll_def
    using bloom_merge.apply_base_and_operands [OF b assms, of None] by simp
next
  assume c: "cms_inv c"
  have wr: "CMS_WriteTo d = Ok (cms_enc d)" if "cms_inv d" for d
    using CMS_ReadFrom_WriteTo [of d "[]"] that by (auto simp: cms_inv_def cms_enc_def)
  have "cms_inv (foldl cms_inc c xs)" using c by (induction xs arbitrary: c) (simp_all add: cms_inc_eq)
  then show "\<exists>c' bs bs'. CMS_WriteTo c = Ok bs \<and> cms_add_all c (map (\<lambda>x. (x, 1)) xs) = Ok c' \<and> CMS_WriteTo c' = Ok bs' \<and>
      fst (ApplyAll (ProbKey TypeCMS name) (newest_first bs xs)) = Ok (Some bs')"
    unfolding cms_add_all_foldl [OF c] newest_first_def ApplyAll_def
    using cms_merge.apply_base_and_operands [OF c assms, of None] wr [OF c] by (auto simp: wr)
next
  assume h: "hll_inv h"
  have wr: "HLL_ToBytes d = Ok (hll_enc d)" if "hll_inv d" for d
    using HLL_storage [of d] that by (auto simp: hll_inv_def hll_enc_def)
  have "hll_inv (foldl hll_add h xs)" using h by (induction xs arbitrary: h) (simp_all add: hll_add_eq)
  then show "\<exists>h' bs bs'. HLL_ToBytes h = Ok bs \<and> hll_add_all h xs = Ok h' \<and> HLL_ToBytes h' = Ok bs' \<and>
      fst (ApplyAll (ProbKey TypeHLL name) (newest_first bs xs)) = Ok (Some bs')"
    unfolding hll_add_all_foldl [OF h] newest_first_def ApplyAll_def
    using hll_merge.apply_base_and_operands [OF h assms, of None] wr [OF h] by (auto simp: wr)
next
  show "fst (ApplyAll (ProbKey TypeBloom name) (rev (map (WrapOperand OpAdd) (x # xs)))) = Inl (Error ''merge operand before base state'')"
    by (simp add: ApplyAll_def WrapOperand_def)
qed

theorem merge_records_fold_witness:
  "\<exists>h' bs bs'. HLL_ToBytes (NewHyperLogLogWithParams (\<lambda>_. []) 4 [1]) = Ok bs \<and>
     hll_add_all (NewHyperLogLogWithParams (\<lambda>_. []) 4 [1]) [[5], [6]] = Ok h' \<and> HLL_ToBytes h' = Ok bs' \<and>
     fst (ApplyAll (ProbKey TypeHLL [97]) (newest_first bs [[5], [6]])) = Ok (Some bs')"
proof -
  have "hll_inv (NewHyperLogLogWithParams (\<lambda>_. []) 4 [1])"
    using NewHyperLogLog_wf [of "\<lambda>_. []" 4 "[1]"]
    by (simp add: hll_inv_def) (simp add: NewHyperLogLogWithParams_def Let_def slice_ok_def max_alloc_def)
  with merge_records_fold [of "[[5], [6]]", of _ "[97]" _ "NewHyperLogLogWithParams (\<lambda>_. []) 4 [1]"]
  show ?thesis by (simp add: slice_ok_def max_alloc_def del: hll_add_all.simps)
qed

end
