(* ===== verification/Notifier.thy ===== *)
theory Notifier
  imports Prelude "HOL-Library.AList"
begin

text \<open>
  Change notification (\<^verbatim>\<open>notifier/notifier.go\<close>): a subscriber names a range of keys and receives the events on keys
  in it on a buffered channel; an event that finds the buffer full is dropped. The mutex makes every operation
  atomic. A channel is a position in the list of all channels made so far; sending on a closed channel and
  closing one twice are the two panics the code could run into.

  Shown here: as long as the identifiers do not wrap, no sequence of subscribing, notifying and unsubscribing, in
  whatever order and however often, panics; and what a subscriber finds in its buffer are the first events
  of its range, in order.
\<close>

section \<open>Channels\<close>

record Event =
  ev_Type :: byte
  ev_Key :: bytes
  ev_Value :: bytes

abbreviation EventPut :: byte where "EventPut \<equiv> 0"
abbreviation EventDelete :: byte where "EventDelete \<equiv> 1"
abbreviation EventRangeDel :: byte where "EventRangeDel \<equiv> 2"

record Chan =
  ch_buffer :: "Event list"
  ch_capacity :: nat
  ch_closed :: bool

definition chan_close :: "Chan \<Rightarrow> Chan result" where
  "chan_close c = (if ch_closed c then Inl (Panic ''close of closed channel'') else Ok (c\<lparr>ch_closed := True\<rparr>))"

text \<open>\<^verbatim>\<open>select { case ch <- e: default: }\<close> on a channel with a buffer.\<close>

definition try_send :: "Event \<Rightarrow> Chan \<Rightarrow> Chan result" where
  "try_send e c =
     (if ch_closed c then Inl (Panic ''send on closed channel'')
      else if length (ch_buffer c) < ch_capacity c then Ok (c\<lparr>ch_buffer := ch_buffer c @ [e]\<rparr>)
      else Ok c)"

section \<open>The notifier\<close>

record Listener =
  ls_id :: u64
  ls_lower :: bytes
  ls_upper :: bytes
  ls_Ch :: nat

record Notifier =
  nf_listeners :: "(u64 \<times> Listener) list"
  nf_nextID :: u64
  nf_chans :: "Chan list"

definition NewNotifier :: Notifier where
  "NewNotifier = \<lparr>nf_listeners = [], nf_nextID = 0, nf_chans = []\<rparr>"

definition Subscribe :: "bytes \<Rightarrow> bytes \<Rightarrow> nat \<Rightarrow> Notifier \<Rightarrow> Listener \<times> Notifier" where
  "Subscribe lower upper bufferSize n =
     (let l = \<lparr>ls_id = nf_nextID n, ls_lower = lower, ls_upper = upper, ls_Ch = length (nf_chans n)\<rparr> in
      (l, n\<lparr>nf_nextID := nf_nextID n + 1, nf_listeners := AList.update (nf_nextID n) l (nf_listeners n),
            nf_chans := nf_chans n @ [\<lparr>ch_buffer = [], ch_capacity = bufferSize, ch_closed = False\<rparr>]\<rparr>))"

definition Unsubscribe :: "Listener option \<Rightarrow> Notifier \<Rightarrow> Notifier result" where
  "Unsubscribe lo n =
     (case lo of
        None \<Rightarrow> Ok n
      | Some l \<Rightarrow>
          if map_of (nf_listeners n) (ls_id l) \<noteq> None
          then bind_r (chan_close (nf_chans n ! ls_Ch l)) (\<lambda>c.
            Ok (n\<lparr>nf_listeners := AList.delete (ls_id l) (nf_listeners n), nf_chans := (nf_chans n)[ls_Ch l := c]\<rparr>))
          else Ok n)"

definition overlapsRange :: "Listener \<Rightarrow> bytes \<Rightarrow> bytes \<Rightarrow> bool" where
  "overlapsRange l start stop \<longleftrightarrow>
     \<not> (ls_upper l \<noteq> [] \<and> 0 < bytes_Compare start (ls_upper l)) \<and> \<not> (ls_lower l \<noteq> [] \<and> bytes_Compare stop (ls_lower l) < 0)"

definition inRange :: "Listener \<Rightarrow> bytes \<Rightarrow> bool" where
  "inRange l key \<longleftrightarrow>
     \<not> (ls_lower l \<noteq> [] \<and> bytes_Compare key (ls_lower l) < 0) \<and> \<not> (ls_upper l \<noteq> [] \<and> 0 < bytes_Compare key (ls_upper l))"

definition concerns :: "Event \<Rightarrow> Listener \<Rightarrow> bool" where
  "concerns e l \<longleftrightarrow> (if ev_Type e = EventRangeDel then overlapsRange l (ev_Key e) (ev_Value e) else inRange l (ev_Key e))"

text \<open>The order of the map does not matter, since every listener has a channel of its own.\<close>

fun notify_loop :: "Event \<Rightarrow> (u64 \<times> Listener) list \<Rightarrow> Chan list \<Rightarrow> Chan list result" where
  "notify_loop e [] chans = Ok chans"
| "notify_loop e ((i, l) # ls) chans =
     (if concerns e l then bind_r (try_send e (chans ! ls_Ch l)) (\<lambda>c. notify_loop e ls (chans[ls_Ch l := c]))
      else notify_loop e ls chans)"

definition notify :: "Event \<Rightarrow> Notifier \<Rightarrow> Notifier result" where
  "notify e n = bind_r (notify_loop e (nf_listeners n) (nf_chans n)) (\<lambda>chans. Ok (n\<lparr>nf_chans := chans\<rparr>))"

definition NotifyPut :: "bytes \<Rightarrow> bytes \<Rightarrow> Notifier \<Rightarrow> Notifier result" where
  "NotifyPut key val = notify \<lparr>ev_Type = EventPut, ev_Key = key, ev_Value = val\<rparr>"

definition NotifyDelete :: "bytes \<Rightarrow> Notifier \<Rightarrow> Notifier result" where
  "NotifyDelete key = notify \<lparr>ev_Type = EventDelete, ev_Key = key, ev_Value = []\<rparr>"

definition NotifyDeleteRange :: "bytes \<Rightarrow> bytes \<Rightarrow> Notifier \<Rightarrow> Notifier result" where
  "NotifyDeleteRange startKey endKey = notify \<lparr>ev_Type = EventRangeDel, ev_Key = startKey, ev_Value = endKey\<rparr>"

section \<open>What subscribers are promised\<close>

text \<open>
  A run of the three operations; an unsubscription names the listener by the number of its subscription. The
  log keeps for every subscription its listener, the size of its buffer, the events on its range that
  happened while it was subscribed, and whether it still is.
\<close>

datatype nf_op = Sub bytes bytes nat | Unsub nat | Note Event

fun nf_step :: "nf_op \<Rightarrow> Notifier \<times> Listener list \<Rightarrow> (Notifier \<times> Listener list) result" where
  "nf_step (Sub lower upper sz) (n, ls) = (let (l, n') = Subscribe lower upper sz n in Ok (n', ls @ [l]))"
| "nf_step (Unsub k) (n, ls) = bind_r (Unsubscribe (if k < length ls then Some (ls ! k) else None) n) (\<lambda>n'. Ok (n', ls))"
| "nf_step (Note e) (n, ls) = bind_r (notify e n) (\<lambda>n'. Ok (n', ls))"

fun nf_run :: "nf_op list \<Rightarrow> Notifier \<times> Listener list \<Rightarrow> (Notifier \<times> Listener list) result" where
  "nf_run [] s = Ok s"
| "nf_run (x # xs) s = bind_r (nf_step x s) (nf_run xs)"

record subscription =
  sb_lower :: bytes
  sb_upper :: bytes
  sb_size :: nat
  sb_events :: "Event list"
  sb_active :: bool

definition listener_of :: "nat \<Rightarrow> subscription \<Rightarrow> Listener" where
  "listener_of k sb = \<lparr>ls_id = of_nat k, ls_lower = sb_lower sb, ls_upper = sb_upper sb, ls_Ch = k\<rparr>"

fun sub_log :: "nf_op \<Rightarrow> subscription list \<Rightarrow> subscription list" where
  "sub_log (Sub lower upper sz) sbs = sbs @ [\<lparr>sb_lower = lower, sb_upper = upper, sb_size = sz, sb_events = [], sb_active = True\<rparr>]"
| "sub_log (Unsub k) sbs = (if k < length sbs then sbs[k := (sbs ! k)\<lparr>sb_active := False\<rparr>] else sbs)"
| "sub_log (Note e) sbs = map (\<lambda>sb. if sb_active sb \<and> concerns e (listener_of 0 sb) then sb\<lparr>sb_events := sb_events sb @ [e]\<rparr> else sb) sbs"

definition chan_of :: "subscription \<Rightarrow> Chan" where
  "chan_of sb = \<lparr>ch_buffer = take (sb_size sb) (sb_events sb), ch_capacity = sb_size sb, ch_closed = (\<not> sb_active sb)\<rparr>"

definition listeners_of :: "subscription list \<Rightarrow> Listener list" where
  "listeners_of sbs = map (\<lambda>k. listener_of k (sbs ! k)) [0 ..< length sbs]"

definition active_entries :: "subscription list \<Rightarrow> (u64 \<times> Listener) set" where
  "active_entries sbs = (\<lambda>k. (of_nat k, listener_of k (sbs ! k))) ` {k. k < length sbs \<and> sb_active (sbs ! k)}"

definition represents :: "Notifier \<Rightarrow> subscription list \<Rightarrow> bool" where
  "represents n sbs \<longleftrightarrow> nf_nextID n = of_nat (length sbs) \<and> nf_chans n = map chan_of sbs \<and> distinct (map fst (nf_listeners n)) \<and>
     set (nf_listeners n) = active_entries sbs"

lemma concerns_listener: "concerns e (listener_of k sb) = concerns e (listener_of 0 sb)"
  by (simp add: concerns_def overlapsRange_def inRange_def listener_of_def)

lemma notify_loop_all:
  "\<forall>(i, l) \<in> set ls. ls_Ch l < length chans \<and> \<not> ch_closed (chans ! ls_Ch l) \<Longrightarrow> distinct (map (\<lambda>(i, l). ls_Ch l) ls) \<Longrightarrow>
     \<exists>chans'. notify_loop e ls chans = Ok chans' \<and> length chans' = length chans \<and>
       (\<forall>k < length chans. chans' ! k =
          (if (\<exists>(i, l) \<in> set ls. ls_Ch l = k \<and> concerns e l) \<and> length (ch_buffer (chans ! k)) < ch_capacity (chans ! k)
           then (chans ! k)\<lparr>ch_buffer := ch_buffer (chans ! k) @ [e]\<rparr> else chans ! k))"
proof (induction ls arbitrary: chans)
  case (Cons x ls)
  obtain i l where x: "x = (i, l)" by force
  let ?c = "chans ! ls_Ch l"
  let ?sent = "if concerns e l \<and> length (ch_buffer ?c) < ch_capacity ?c then ?c\<lparr>ch_buffer := ch_buffer ?c @ [e]\<rparr> else ?c"
  let ?chans = "chans[ls_Ch l := ?sent]"
  have open_l: "ls_Ch l < length chans" "\<not> ch_closed ?c" using Cons.prems(1) x by auto
  have new: "ls_Ch l \<notin> (\<lambda>(i, l). ls_Ch l) ` set ls" using Cons.prems(2) x by simp
  have step: "notify_loop e (x # ls) chans = notify_loop e ls ?chans"
    using open_l by (simp add: x try_send_def)
  have "\<forall>(i, l) \<in> set ls. ls_Ch l < length ?chans \<and> \<not> ch_closed (?chans ! ls_Ch l)"
    using Cons.prems(1) new open_l by (auto simp: nth_list_update)
  moreover have "distinct (map (\<lambda>(i, l). ls_Ch l) ls)" using Cons.prems(2) by simp
  ultimately obtain chans' where c: "notify_loop e ls ?chans = Ok chans'" "length chans' = length ?chans"
    "\<forall>k < length ?chans. chans' ! k =
       (if (\<exists>(i, l) \<in> set ls. ls_Ch l = k \<and> concerns e l) \<and> length (ch_buffer (?chans ! k)) < ch_capacity (?chans ! k)
        then (?chans ! k)\<lparr>ch_buffer := ch_buffer (?chans ! k) @ [e]\<rparr> else ?chans ! k)"
    using Cons.IH by blast
  have "\<forall>k < length chans. chans' ! k =
          (if (\<exists>(i, l) \<in> set (x # ls). ls_Ch l = k \<and> concerns e l) \<and> length (ch_buffer (chans ! k)) < ch_capacity (chans ! k)
           then (chans ! k)\<lparr>ch_buffer := ch_buffer (chans ! k) @ [e]\<rparr> else chans ! k)"
  proof (intro allI impI)
    fix k assume k: "k < length chans"
    show "chans' ! k = (if (\<exists>(i, l) \<in> set (x # ls). ls_Ch l = k \<and> concerns e l) \<and> length (ch_buffer (chans ! k)) < ch_capacity (chans ! k)
        then (chans ! k)\<lparr>ch_buffer := ch_buffer (chans ! k) @ [e]\<rparr> else chans ! k)"
    proof (cases "k = ls_Ch l")
      case True
      then have "\<not> (\<exists>(i, l) \<in> set ls. ls_Ch l = k \<and> concerns e l)" using new by (force simp: image_iff)
      with c(3) k True x show ?thesis by auto
    next
      case False
      with c(3) k x show ?thesis by auto
    qed
  qed
  with step c(1,2) show ?case by simp
qed simp

lemma sub_log_length: "length sbs \<le> length (sub_log x sbs)"
  by (cases x) auto

lemma listeners_of_nth: "k < length sbs \<Longrightarrow> listeners_of sbs ! k = listener_of k (sbs ! k)"
  by (simp add: listeners_of_def)

lemma listeners_of_same:
  assumes "length sbs' = length sbs" "\<And>k. k < length sbs \<Longrightarrow> sb_lower (sbs' ! k) = sb_lower (sbs ! k) \<and> sb_upper (sbs' ! k) = sb_upper (sbs ! k)"
  shows "listeners_of sbs' = listeners_of sbs"
  using assms by (auto simp: listeners_of_def listener_of_def)

lemma id_inj: "length sbs < 2 ^ 64 \<Longrightarrow> j \<le> length sbs \<Longrightarrow> k \<le> length sbs \<Longrightarrow> (of_nat j :: u64) = of_nat k \<longleftrightarrow> j = k"
  using of_nat_inverse [of j "of_nat k :: u64"] of_nat_inverse [of k "of_nat k :: u64"] by auto

lemma active_id:
  assumes "length sbs < 2 ^ 64" "k \<le> length sbs"
  shows "of_nat k \<in> fst ` active_entries sbs \<longleftrightarrow> k < length sbs \<and> sb_active (sbs ! k)"
proof
  assume "of_nat k \<in> fst ` active_entries sbs"
  then obtain j where "j < length sbs" "sb_active (sbs ! j)" "(of_nat k :: u64) = of_nat j" by (auto simp: active_entries_def)
  with id_inj [OF assms(1), of k j] assms(2) show "k < length sbs \<and> sb_active (sbs ! k)" by simp
qed (auto simp: active_entries_def image_image)

lemma update_fresh: "k \<notin> fst ` set al \<Longrightarrow> AList.update k v al = al @ [(k, v)]"
  by (induction al) auto

lemma represents_Sub:
  assumes "represents n sbs" "Suc (length sbs) < 2 ^ 64"
  shows "\<exists>n'. nf_step (Sub lower upper sz) (n, listeners_of sbs) = Ok (n', listeners_of (sub_log (Sub lower upper sz) sbs)) \<and>
    represents n' (sub_log (Sub lower upper sz) sbs)"
proof -
  have r: "nf_nextID n = of_nat (length sbs)" "nf_chans n = map chan_of sbs" "distinct (map fst (nf_listeners n))"
    "set (nf_listeners n) = active_entries sbs"
    using assms(1) by (simp_all add: represents_def)
  let ?sb = "\<lparr>sb_lower = lower, sb_upper = upper, sb_size = sz, sb_events = [], sb_active = True\<rparr>"
  let ?l = "listener_of (length sbs) ?sb"
  have fresh: "of_nat (length sbs) \<notin> fst ` set (nf_listeners n)"
    using active_id [of sbs "length sbs"] assms(2) by (simp add: r(4))
  have run: "nf_step (Sub lower upper sz) (n, listeners_of sbs) =
      Ok (n\<lparr>nf_nextID := nf_nextID n + 1, nf_listeners := nf_listeners n @ [(of_nat (length sbs), ?l)], nf_chans := map chan_of (sbs @ [?sb])\<rparr>,
        listeners_of sbs @ [?l])"
    by (simp add: Subscribe_def Let_def r(1,2) update_fresh [OF fresh] chan_of_def listener_of_def)
  have "listeners_of (sbs @ [?sb]) = listeners_of sbs @ [?l]"
    by (simp add: listeners_of_def nth_append)
  moreover have "active_entries (sbs @ [?sb]) = insert (of_nat (length sbs), ?l) (active_entries sbs)"
  proof -
    have "{k. k < length (sbs @ [?sb]) \<and> sb_active ((sbs @ [?sb]) ! k)} = insert (length sbs) {k. k < length sbs \<and> sb_active (sbs ! k)}"
      by (auto simp: nth_append less_Suc_eq)
    then show ?thesis by (auto simp: active_entries_def nth_append)
  qed
  ultimately show ?thesis
    unfolding run using r fresh by (simp add: represents_def)
qed

lemma represents_Unsub:
  assumes "represents n sbs" "length sbs < 2 ^ 64"
  shows "\<exists>n'. nf_step (Unsub k) (n, listeners_of sbs) = Ok (n', listeners_of (sub_log (Unsub k) sbs)) \<and>
    represents n' (sub_log (Unsub k) sbs)"
proof -
  have r: "nf_nextID n = of_nat (length sbs)" "nf_chans n = map chan_of sbs" "distinct (map fst (nf_listeners n))"
    "set (nf_listeners n) = active_entries sbs"
    using assms(1) by (simp_all add: represents_def)
  have len: "length (listeners_of sbs) = length sbs" by (simp add: listeners_of_def)
  consider "length sbs \<le> k" | "k < length sbs" "\<not> sb_active (sbs ! k)" | "k < length sbs" "sb_active (sbs ! k)" by linarith
  then show ?thesis
  proof cases
    case 1
    with assms(1) len show ?thesis by (simp add: Unsubscribe_def)
  next
    case 2
    then have "(sbs ! k)\<lparr>sb_active := False\<rparr> = sbs ! k" by (cases "sbs ! k") simp
    then have "sbs[k := (sbs ! k)\<lparr>sb_active := False\<rparr>] = sbs" by simp
    moreover have "map_of (nf_listeners n) (of_nat k) = None"
      using active_id [of sbs k] assms(2) 2 by (simp add: map_of_eq_None_iff r(4))
    ultimately show ?thesis using 2 assms(1) len by (simp add: Unsubscribe_def listeners_of_nth listener_of_def)
  next
    case 3
    let ?sbs = "sbs[k := (sbs ! k)\<lparr>sb_active := False\<rparr>]"
    have "of_nat k \<in> fst ` set (nf_listeners n)" using active_id [of sbs k] assms(2) 3 by (simp add: r(4))
    then have "map_of (nf_listeners n) (of_nat k) \<noteq> None" by (simp add: map_of_eq_None_iff)
    then have run: "nf_step (Unsub k) (n, listeners_of sbs) =
        Ok (n\<lparr>nf_listeners := AList.delete (of_nat k) (nf_listeners n), nf_chans := map chan_of ?sbs\<rparr>, listeners_of sbs)"
      using 3 len by (simp add: Unsubscribe_def listeners_of_nth listener_of_def chan_close_def chan_of_def r(2) map_update)
    have "{j. j < length ?sbs \<and> sb_active (?sbs ! j)} = {j. j < length sbs \<and> sb_active (sbs ! j)} - {k}"
      using 3(1) by (auto simp: nth_list_update split: if_splits)
    then have "active_entries ?sbs = (\<lambda>j. (of_nat j, listener_of j (sbs ! j))) ` ({j. j < length sbs \<and> sb_active (sbs ! j)} - {k})"
      by (auto simp: active_entries_def nth_list_update)
    also have "\<dots> = {x \<in> active_entries sbs. fst x \<noteq> of_nat k}"
      using id_inj [OF assms(2), of _ k] 3(1) by (auto simp: active_entries_def)
    finally have act: "active_entries ?sbs = {x \<in> active_entries sbs. fst x \<noteq> of_nat k}" .
    have "set (AList.delete (of_nat k) (nf_listeners n)) = {x \<in> active_entries sbs. fst x \<noteq> of_nat k}"
      by (auto simp: AList.delete_eq r(4))
    moreover have "listeners_of ?sbs = listeners_of sbs"
      using 3(1) by (intro listeners_of_same) (auto simp: nth_list_update)
    moreover have "distinct (map fst (AList.delete (of_nat k) (nf_listeners n)))"
      using r(3) by (rule distinct_delete)
    ultimately show ?thesis
      unfolding run using r(1) 3(1) act by (simp add: represents_def)
  qed
qed

lemma represents_Note:
  assumes "represents n sbs" "length sbs < 2 ^ 64"
  shows "\<exists>n'. nf_step (Note e) (n, listeners_of sbs) = Ok (n', listeners_of (sub_log (Note e) sbs)) \<and>
    represents n' (sub_log (Note e) sbs)"
proof -
  have r: "nf_nextID n = of_nat (length sbs)" "nf_chans n = map chan_of sbs" "distinct (map fst (nf_listeners n))"
    "set (nf_listeners n) = active_entries sbs"
    using assms(1) by (simp_all add: represents_def)
  let ?sbs = "sub_log (Note e) sbs"
  have id: "i = of_nat (ls_Ch l)" "ls_Ch l < length sbs" "sb_active (sbs ! ls_Ch l)" "l = listener_of (ls_Ch l) (sbs ! ls_Ch l)"
    if "(i, l) \<in> set (nf_listeners n)" for i l
    using that by (auto simp: r(4) active_entries_def listener_of_def)
  have "\<forall>(i, l) \<in> set (nf_listeners n). ls_Ch l < length (nf_chans n) \<and> \<not> ch_closed (nf_chans n ! ls_Ch l)"
    using id(2,3) by (auto simp: r(2) chan_of_def)
  moreover have "distinct (map (\<lambda>(i, l). ls_Ch l) (nf_listeners n))"
  proof -
    have "map fst (nf_listeners n) = map of_nat (map (\<lambda>(i, l). ls_Ch l) (nf_listeners n))"
      using id(1) by (auto intro!: map_cong)
    with r(3) show ?thesis by (metis distinct_map)
  qed
  ultimately obtain chans' where c: "notify_loop e (nf_listeners n) (nf_chans n) = Ok chans'" "length chans' = length sbs"
    "\<forall>k < length sbs. chans' ! k =
       (if (\<exists>(i, l) \<in> set (nf_listeners n). ls_Ch l = k \<and> concerns e l) \<and> length (ch_buffer (nf_chans n ! k)) < ch_capacity (nf_chans n ! k)
        then (nf_chans n ! k)\<lparr>ch_buffer := ch_buffer (nf_chans n ! k) @ [e]\<rparr> else nf_chans n ! k)"
    using notify_loop_all [of "nf_listeners n" "nf_chans n" e] by (auto simp: r(2))
  have "chans' ! k = chan_of (?sbs ! k)" if k: "k < length sbs" for k
  proof -
    have "(\<exists>(i, l) \<in> set (nf_listeners n). ls_Ch l = k \<and> concerns e l) \<longleftrightarrow> sb_active (sbs ! k) \<and> concerns e (listener_of 0 (sbs ! k))"
    proof
      assume "\<exists>(i, l) \<in> set (nf_listeners n). ls_Ch l = k \<and> concerns e l"
      then obtain i l where l: "(i, l) \<in> set (nf_listeners n)" "ls_Ch l = k" "concerns e l" by blast
      from id(3,4) [OF l(1)] l(2,3) concerns_listener show "sb_active (sbs ! k) \<and> concerns e (listener_of 0 (sbs ! k))" by metis
    next
      assume a: "sb_active (sbs ! k) \<and> concerns e (listener_of 0 (sbs ! k))"
      then have "(of_nat k, listener_of k (sbs ! k)) \<in> set (nf_listeners n)" using k by (auto simp: r(4) active_entries_def)
      moreover have "ls_Ch (listener_of k (sbs ! k)) = k" by (simp add: listener_of_def)
      ultimately show "\<exists>(i, l) \<in> set (nf_listeners n). ls_Ch l = k \<and> concerns e l" using a concerns_listener by blast
    qed
    with c(3) k show ?thesis by (auto simp: r(2) chan_of_def)
  qed
  then have "chans' = map chan_of ?sbs" using c(2) by (intro nth_equalityI) simp_all
  then have run: "nf_step (Note e) (n, listeners_of sbs) = Ok (n\<lparr>nf_chans := map chan_of ?sbs\<rparr>, listeners_of sbs)"
    using c(1) by (simp add: notify_def)
  have "listeners_of ?sbs = listeners_of sbs" by (rule listeners_of_same) auto
  moreover have "active_entries ?sbs = active_entries sbs"
    by (auto simp: active_entries_def listener_of_def image_iff split: if_splits)
  ultimately show ?thesis unfolding run using r by (simp add: represents_def)
qed

lemma run_represents:
  "represents n sbs \<Longrightarrow> length (fold sub_log xs sbs) < 2 ^ 64 \<Longrightarrow>
     \<exists>n'. nf_run xs (n, listeners_of sbs) = Ok (n', listeners_of (fold sub_log xs sbs)) \<and> represents n' (fold sub_log xs sbs)"
proof (induction xs arbitrary: n sbs)
  case (Cons x xs)
  have "length sbs' \<le> length (fold sub_log ys sbs')" for ys sbs'
    by (induction ys arbitrary: sbs') (auto intro: order_trans [OF sub_log_length])
  from this [of "sub_log x sbs" xs] Cons.prems(2) have short: "length (sub_log x sbs) < 2 ^ 64" by simp
  have "\<exists>n'. nf_step x (n, listeners_of sbs) = Ok (n', listeners_of (sub_log x sbs)) \<and> represents n' (sub_log x sbs)"
    using represents_Sub [OF Cons.prems(1)] represents_Unsub [OF Cons.prems(1)] represents_Note [OF Cons.prems(1)] short
      sub_log_length [of sbs x] by (cases x) (simp_all del: nf_step.simps add: less_le_trans)
  with Cons.IH Cons.prems(2) show ?case by fastforce
qed simp

section \<open>Properties\<close>

text \<open>
  The keys a subscription asks for, both bounds included and an empty upper bound meaning none, and the keys an
  event changes: those of a closed interval for a range deletion. A subscriber is concerned when they have a key in common.
\<close>

definition watched_keys :: "bytes \<Rightarrow> bytes \<Rightarrow> bytes set" where
  "watched_keys lower upper = {k. lower \<le> k \<and> (upper = [] \<or> k \<le> upper)}"

definition changed_keys :: "Event \<Rightarrow> bytes set" where
  "changed_keys e = (if ev_Type e = EventRangeDel then {ev_Key e .. ev_Value e} else {ev_Key e})"

fun sub_spec :: "nf_op \<Rightarrow> subscription list \<Rightarrow> subscription list" where
  "sub_spec (Sub lower upper sz) sbs = sbs @ [\<lparr>sb_lower = lower, sb_upper = upper, sb_size = sz, sb_events = [], sb_active = True\<rparr>]"
| "sub_spec (Unsub k) sbs = (if k < length sbs then sbs[k := (sbs ! k)\<lparr>sb_active := False\<rparr>] else sbs)"
| "sub_spec (Note e) sbs = map (\<lambda>sb. if sb_active sb \<and> changed_keys e \<inter> watched_keys (sb_lower sb) (sb_upper sb) \<noteq> {}
     then sb\<lparr>sb_events := sb_events sb @ [e]\<rparr> else sb) sbs"

text \<open>No range is turned round: its upper bound is not below its lower bound.\<close>

fun proper :: "nf_op \<Rightarrow> bool" where
  "proper (Sub lower upper sz) \<longleftrightarrow> upper = [] \<or> lower \<le> upper"
| "proper (Unsub k) \<longleftrightarrow> True"
| "proper (Note e) \<longleftrightarrow> ev_Type e = EventRangeDel \<longrightarrow> ev_Key e \<le> ev_Value e"

lemma bytes_least: "([] :: bytes) \<le> k"
  by (cases k) (simp_all add: list_le_def list_less_def)

lemma concerns_keys:
  assumes "sb_upper sb = [] \<or> sb_lower sb \<le> sb_upper sb" "proper (Note e)"
  shows "concerns e (listener_of k sb) \<longleftrightarrow> changed_keys e \<inter> watched_keys (sb_lower sb) (sb_upper sb) \<noteq> {}"
proof (cases "ev_Type e = EventRangeDel")
  case True
  let ?m = "max (ev_Key e) (sb_lower sb)"
  have "changed_keys e \<inter> watched_keys (sb_lower sb) (sb_upper sb) \<noteq> {} \<longleftrightarrow> ?m \<in> changed_keys e \<inter> watched_keys (sb_lower sb) (sb_upper sb)"
  proof
    assume "changed_keys e \<inter> watched_keys (sb_lower sb) (sb_upper sb) \<noteq> {}"
    then obtain x where "x \<in> changed_keys e" "x \<in> watched_keys (sb_lower sb) (sb_upper sb)" by blast
    then show "?m \<in> changed_keys e \<inter> watched_keys (sb_lower sb) (sb_upper sb)"
      by (auto simp: True changed_keys_def watched_keys_def)
  qed blast
  also have "\<dots> \<longleftrightarrow> concerns e (listener_of k sb)"
    using assms by (auto simp: True changed_keys_def watched_keys_def concerns_def overlapsRange_def listener_of_def bytes_least not_less)
  finally show ?thesis by blast
next
  case False
  then show ?thesis by (auto simp: changed_keys_def watched_keys_def concerns_def inRange_def listener_of_def bytes_least not_less)
qed

definition bounds_proper :: "subscription list \<Rightarrow> bool" where
  "bounds_proper sbs \<longleftrightarrow> (\<forall>sb \<in> set sbs. sb_upper sb = [] \<or> sb_lower sb \<le> sb_upper sb)"

lemma sub_log_spec:
  assumes "proper x" "bounds_proper sbs"
  shows "sub_log x sbs = sub_spec x sbs" "bounds_proper (sub_spec x sbs)"
proof -
  have "sub_log x sbs = sub_spec x sbs \<and> bounds_proper (sub_spec x sbs)"
  proof (cases x)
    case (Sub lower upper sz)
    with assms show ?thesis by (simp add: bounds_proper_def)
  next
    case (Unsub k)
    have "sb_upper ((sbs ! k)\<lparr>sb_active := False\<rparr>) = [] \<or> sb_lower ((sbs ! k)\<lparr>sb_active := False\<rparr>) \<le> sb_upper ((sbs ! k)\<lparr>sb_active := False\<rparr>)"
      if "k < length sbs" using assms(2) nth_mem [OF that] by (simp add: bounds_proper_def)
    with Unsub assms(2) show ?thesis
      by (auto simp: bounds_proper_def dest!: set_update_subset_insert [THEN subsetD])
  next
    case (Note e)
    have "concerns e (listener_of 0 sb) \<longleftrightarrow> changed_keys e \<inter> watched_keys (sb_lower sb) (sb_upper sb) \<noteq> {}" if "sb \<in> set sbs" for sb
      using assms that Note by (intro concerns_keys) (simp_all add: bounds_proper_def)
    then have "sub_log x sbs = sub_spec x sbs" by (simp add: Note)
    with assms(2) show ?thesis by (auto simp: Note bounds_proper_def)
  qed
  then show "sub_log x sbs = sub_spec x sbs" "bounds_proper (sub_spec x sbs)" by blast+
qed

lemma run_log_spec: "list_all proper xs \<Longrightarrow> bounds_proper sbs \<Longrightarrow> fold sub_log xs sbs = fold sub_spec xs sbs"
  by (induction xs arbitrary: sbs) (simp_all add: sub_log_spec)

text \<open>C12: Whatever is subscribed, unsubscribed and notified, in any order and also repeatedly, no operation panics as long
  as there are fewer than 2 to the 64 subscriptions; every channel then holds the first events on its range since
  the subscription, as many as its buffer takes, and is closed exactly when its listener was unsubscribed. An event
  is on the range when it changes a key of it: the ranges contain both their bounds, and a range deletion changes all
  keys of its closed interval. No subscription and no range deletion has an upper bound below its lower bound.\<close>

theorem notifier_channels:
  assumes "length (fold sub_spec xs []) < 2 ^ 64" "list_all proper xs"
  shows "\<exists>n. nf_run xs (NewNotifier, []) = Ok (n, listeners_of (fold sub_spec xs [])) \<and> nf_chans n = map chan_of (fold sub_spec xs [])"
proof -
  have "represents NewNotifier []" by (simp add: represents_def NewNotifier_def active_entries_def)
  moreover have spec: "fold sub_log xs [] = fold sub_spec xs []" using assms(2) by (intro run_log_spec) (simp_all add: bounds_proper_def)
  ultimately show ?thesis using run_represents [of NewNotifier "[]" xs] assms(1) by (auto simp: represents_def listeners_of_def)
qed

theorem notifier_channels_witness:
  "\<exists>n. nf_run [Sub [1] [3] 2, Note \<lparr>ev_Type = EventPut, ev_Key = [3], ev_Value = []\<rparr>,
       Note \<lparr>ev_Type = EventRangeDel, ev_Key = [0], ev_Value = [1]\<rparr>, Unsub 0, Unsub 0] (NewNotifier, []) = Ok n \<and>
     map ch_closed (nf_chans (fst n)) = [True] \<and> map (\<lambda>c. map ev_Key (ch_buffer c)) (nf_chans (fst n)) = [[[3], [0]]]"
proof -
  let ?put = "\<lparr>ev_Type = EventPut, ev_Key = [3], ev_Value = []\<rparr>" and ?del = "\<lparr>ev_Type = EventRangeDel, ev_Key = [0], ev_Value = [1]\<rparr>"
  let ?xs = "[Sub [1] [3] 2, Note ?put, Note ?del, Unsub 0, Unsub 0]"
  have "[3] \<in> changed_keys ?put \<inter> watched_keys [1] [3]" "[1] \<in> changed_keys ?del \<inter> watched_keys [1] [3]"
    by (simp_all add: changed_keys_def watched_keys_def)
  then have on: "changed_keys ?put \<inter> watched_keys [1] [3] \<noteq> {}" "changed_keys ?del \<inter> watched_keys [1] [3] \<noteq> {}" by blast+
  then have spec: "fold sub_spec ?xs [] = [\<lparr>sb_lower = [1], sb_upper = [3], sb_size = 2, sb_events = [?put, ?del], sb_active = False\<rparr>]" by simp
  then have "length (fold sub_spec ?xs []) < 2 ^ 64" "list_all proper ?xs" by simp_all
  from notifier_channels [OF this] obtain n where
    "nf_run ?xs (NewNotifier, []) = Ok (n, listeners_of (fold sub_spec ?xs []))" "nf_chans n = map chan_of (fold sub_spec ?xs [])" by blast
  moreover from this(2) [unfolded spec] have "map ch_closed (nf_chans n) = [True]" "map (\<lambda>c. map ev_Key (ch_buffer c)) (nf_chans n) = [[[3], [0]]]"
    by (simp_all add: chan_of_def)
  ultimately show ?thesis by (metis fst_conv)
qed

end
