(* ===== verification/Iterators.thy ===== *)
theory Iterators
  imports Prelude
begin

text \<open>
  The iterator interface of \<^verbatim>\<open>iterator/iterator.go\<close>. A Go interface value is an object together with
  its methods; the model keeps the two apart: the object is a value of some type \<open>'it\<close>, the methods are
  a record of functions on it. A method that moves the iterator returns the moved object. \<^verbatim>\<open>Value\<close>
  returns what \<^verbatim>\<open>Key\<close> returns in every implementation; moving backward is only modelled where it is used.

  A method that may loop, such as one that skips elements, is \<open>None\<close> when it does not return.

  The locale \<open>forward_iterator\<close> is what the clients rely on when they walk forward: \<open>ahead\<close> is the list
  of the elements from the current one on, \<^verbatim>\<open>Next\<close> returns and drops its head. The loop that collects an
  iterator's elements is written once and shown to end and to return that list.
\<close>

section \<open>The interface\<close>

record ('it, 'a) Iterator =
  Valid :: "'it \<Rightarrow> bool"
  SeekToFirst :: "'it \<Rightarrow> 'it option"
  Seek :: "'a \<Rightarrow> 'it \<Rightarrow> 'it option"
  Next :: "'it \<Rightarrow> 'it option"
  Key :: "'it \<Rightarrow> 'a"

text \<open>\<^verbatim>\<open>for it.Valid() { result = append(result, it.Key()); it.Next() }\<close>\<close>

partial_function (option) collect :: "('it, 'a) Iterator \<Rightarrow> 'it \<Rightarrow> 'a list option" where
  "collect m it =
     (if Valid m it then
        Option.bind (Next m it) (\<lambda>it'.
        Option.bind (collect m it') (\<lambda>rest. Some (Key m it # rest)))
      else Some [])"

text \<open>
  \<^verbatim>\<open>iterator.Compare\<close>: the iterator with the smaller key, the first one on a tie; a missing or exhausted
  iterator loses.
\<close>

definition Compare :: "('it, 'a) Iterator \<Rightarrow> 'a comparator \<Rightarrow> 'it option \<Rightarrow> 'it option \<Rightarrow> 'it option" where
  "Compare m cmp a b =
     (case a of
        None \<Rightarrow> b
      | Some x \<Rightarrow>
          if \<not> Valid m x then b
          else (case b of
              None \<Rightarrow> a
            | Some y \<Rightarrow> if \<not> Valid m y then a else if cmp (Key m x) (Key m y) \<le> 0 then a else b))"

section \<open>Walking forward\<close>

locale forward_iterator =
  fixes m :: "('it, 'a) Iterator"
    and ok :: "'it \<Rightarrow> bool"
    and ahead :: "'it \<Rightarrow> 'a list"
  assumes valid_ahead: "ok it \<Longrightarrow> Valid m it \<longleftrightarrow> ahead it \<noteq> []"
    and key_ahead: "ok it \<Longrightarrow> Valid m it \<Longrightarrow> Key m it = hd (ahead it)"
    and next_ahead: "ok it \<Longrightarrow> Valid m it \<Longrightarrow> \<exists>it'. Next m it = Some it' \<and> ok it' \<and> ahead it' = tl (ahead it)"
begin

lemma ahead_Nil: "ok it \<Longrightarrow> ahead it = [] \<Longrightarrow> \<not> Valid m it"
  by (simp add: valid_ahead)

lemma ahead_Cons:
  assumes "ok it" "ahead it = x # xs"
  obtains it' where "Valid m it" "Key m it = x" "Next m it = Some it'" "ok it'" "ahead it' = xs"
  using assms valid_ahead [of it] key_ahead [of it] next_ahead [of it] by auto

lemma collect_ahead: "ok it \<Longrightarrow> collect m it = Some (ahead it)"
proof (induction "ahead it" arbitrary: it)
  case Nil
  then show ?case by (subst collect.simps) (simp add: valid_ahead)
next
  case (Cons x xs)
  from ahead_Cons [OF Cons.prems Cons.hyps(2) [symmetric]]
  obtain it' where "Valid m it" "Key m it = x" "Next m it = Some it'" "ok it'" "ahead it' = xs" by metis
  with Cons.hyps(1) [of it'] Cons.hyps(2) [symmetric] show ?case
    by (subst collect.simps) simp
qed

end

text \<open>An iterator that can be set back to the start of the list it walks, as often as wanted.\<close>

locale rewindable_iterator = forward_iterator m ok ahead
  for m :: "('it, 'a) Iterator" and ok ahead +
  fixes whole :: "'it \<Rightarrow> 'a list"
  assumes rewind: "ok it \<Longrightarrow>
      \<exists>it'. SeekToFirst m it = Some it' \<and> ok it' \<and> ahead it' = whole it \<and> whole it' = whole it"
    and next_whole: "ok it \<Longrightarrow> Valid m it \<Longrightarrow> Next m it = Some it' \<Longrightarrow> whole it' = whole it"
begin

lemma collect_whole:
  assumes "ok it"
  shows "Option.bind (SeekToFirst m it) (collect m) = Some (whole it)"
  using rewind [OF assms] collect_ahead by fastforce

end

text \<open>
  An iterator that can be moved to the first element that is not below a given one, from wherever it stands.
\<close>

locale seekable_iterator = rewindable_iterator m ok ahead whole
  for m :: "('it, 'a) Iterator" and ok ahead whole +
  fixes below :: "'a \<Rightarrow> 'a \<Rightarrow> bool"
  assumes seek_law: "ok it \<Longrightarrow> \<exists>it'. Seek m key it = Some it' \<and> ok it' \<and>
      ahead it' = dropWhile (\<lambda>e. below e key) (whole it) \<and> whole it' = whole it"

end
