(* ===== verification/Merge_Structure.thy ===== *)
theory Merge_Structure
  imports Iterators
begin

text \<open>
  The interface \<^verbatim>\<open>MergeStructure\<close> of \<^verbatim>\<open>structures/merge_structure.go\<close>. A merge structure refers to
  iterators by pointer and moves them. In the model the iterators stand in a list and a pointer is a
  position in it; the methods of \<open>deref m its\<close> read the iterator behind such a position.

  The contract \<open>merge_structure\<close> is what the merging iterators rely on: the winner is a valid iterator with
  a smallest key whenever some iterator is valid, and advancing the winner keeps the structure right.
  \<open>seekable_merge_structure\<close> adds what is needed to move all iterators and repair the structure one by one.
  The tournament tree keeps both, the heap only the first.
\<close>

section \<open>The interface\<close>

text \<open>
  \<^verbatim>\<open>Update\<close> repairs the structure after an iterator was moved by somebody else; \<^verbatim>\<open>Advance\<close> moves an iterator
  and repairs. The order of \<^verbatim>\<open>Iterators\<close> is that of the structure.
\<close>

record ('t, 'it, 'a) MergeStructure =
  ms_Winner :: "'t \<Rightarrow> nat option"
  ms_Update :: "nat \<Rightarrow> 't \<Rightarrow> 'it list \<Rightarrow> 't"
  ms_Advance :: "nat \<Rightarrow> 't \<Rightarrow> 'it list \<Rightarrow> ('t \<times> 'it list) option"
  ms_Iterators :: "'t \<Rightarrow> nat list"

definition deref :: "('it, 'a) Iterator \<Rightarrow> 'it list \<Rightarrow> (nat, 'a) Iterator" where
  "deref m its = \<lparr>Valid = (\<lambda>i. Valid m (its ! i)), SeekToFirst = (\<lambda>_. None), Seek = (\<lambda>_ _. None),
     Next = (\<lambda>_. None), Key = (\<lambda>i. Key m (its ! i))\<rparr>"

lemma deref_simps [simp]: "Valid (deref m its) i = Valid m (its ! i)" "Key (deref m its) i = Key m (its ! i)"
  by (simp_all add: deref_def)

section \<open>The contract\<close>

text \<open>Two states of the same iterators that show the same element.\<close>

definition same_front :: "('it, 'a) Iterator \<Rightarrow> 'it list \<Rightarrow> 'it list \<Rightarrow> bool" where
  "same_front m its its' \<longleftrightarrow> length its' = length its \<and>
     (\<forall>i < length its. (Valid m (its' ! i) \<longleftrightarrow> Valid m (its ! i)) \<and> (Valid m (its ! i) \<longrightarrow> Key m (its' ! i) = Key m (its ! i)))"

lemma same_front_sym: "same_front m its its' \<Longrightarrow> same_front m its' its"
  by (auto simp: same_front_def)

locale merge_structure = cmp_order cmp
  for cmp :: "'a comparator" +
  fixes m :: "('it, 'a) Iterator"
    and M :: "('t, 'it, 'a) MergeStructure"
    and inv :: "'t \<Rightarrow> 'it list \<Rightarrow> bool"
  assumes winner_range: "inv t its \<Longrightarrow> ms_Winner M t = Some i \<Longrightarrow> i < length its"
    and winner_least: "inv t its \<Longrightarrow> j < length its \<Longrightarrow> Valid m (its ! j) \<Longrightarrow>
      \<exists>i. ms_Winner M t = Some i \<and> Valid m (its ! i) \<and> cmp (Key m (its ! i)) (Key m (its ! j)) \<le> 0"
    and advance_law: "inv t its \<Longrightarrow> ms_Winner M t = Some i \<Longrightarrow> Valid m (its ! i) \<Longrightarrow> Next m (its ! i) = Some it \<Longrightarrow>
      \<exists>t'. ms_Advance M i t its = Some (t', its[i := it]) \<and> inv t' (its[i := it])"
    and update_law: "inv t its \<Longrightarrow> i < length its \<Longrightarrow> inv (ms_Update M i t its) its"
    and front_law: "inv t its \<Longrightarrow> same_front m its its' \<Longrightarrow> inv t its'"
    and members_law: "inv t its \<Longrightarrow> set (ms_Iterators M t) \<subseteq> {..< length its} \<and>
      (\<forall>i < length its. Valid m (its ! i) \<longrightarrow> i \<in> set (ms_Iterators M t))"
begin

lemma no_winner:
  assumes "inv t its" "\<And>j. j < length its \<Longrightarrow> \<not> Valid m (its ! j)" "ms_Winner M t = Some i"
  shows "\<not> Valid m (its ! i)"
  using assms winner_range by blast

end

text \<open>\<open>stale D t its\<close>: the structure is right except for the iterators in \<open>D\<close>, which were moved.\<close>

locale seekable_merge_structure = merge_structure cmp m M inv
  for cmp :: "'a comparator" and m :: "('it, 'a) Iterator" and M :: "('t, 'it, 'a) MergeStructure" and inv +
  fixes stale :: "nat set \<Rightarrow> 't \<Rightarrow> 'it list \<Rightarrow> bool"
  assumes stale_none: "stale {} t its \<longleftrightarrow> inv t its"
    and stale_moved: "stale D t its \<Longrightarrow> length its' = length its \<Longrightarrow> D \<subseteq> D' \<Longrightarrow> D' \<subseteq> {..< length its} \<Longrightarrow>
      (\<And>j. j < length its \<Longrightarrow> j \<notin> D' \<Longrightarrow> its' ! j = its ! j) \<Longrightarrow> stale D' t its'"
    and stale_update: "stale D t its \<Longrightarrow> i < length its \<Longrightarrow> stale (D - {i}) (ms_Update M i t its) its"
    and all_members: "inv t its \<Longrightarrow> set (ms_Iterators M t) = {..< length its}"
begin

lemma update_all:
  "stale D t its \<Longrightarrow> set idxs \<subseteq> {..< length its} \<Longrightarrow> stale (D - set idxs) (fold (\<lambda>i t. ms_Update M i t its) idxs t) its"
proof (induction idxs arbitrary: t D)
  case (Cons i xs)
  then have "stale (D - {i} - set xs) (fold (\<lambda>i t. ms_Update M i t its) xs (ms_Update M i t its)) its"
    by (intro Cons.IH) (simp_all add: stale_update)
  moreover have "D - {i} - set xs = D - set (i # xs)" by auto
  ultimately show ?case by simp
qed simp

lemma update_all_inv:
  assumes "inv t its" "length its' = length its"
  shows "inv (fold (\<lambda>i t. ms_Update M i t its') (ms_Iterators M t) t) its'"
proof -
  let ?idxs = "ms_Iterators M t"
  have s: "stale {} t its" using assms(1) by (simp only: stale_none)
  have "stale {..< length its} t its'" by (rule stale_moved [OF s assms(2)]) simp_all
  then have "stale ({..< length its} - set ?idxs) (fold (\<lambda>i t. ms_Update M i t its') ?idxs t) its'"
    by (rule update_all) (simp add: all_members [OF assms(1)] assms(2))
  then show ?thesis by (simp only: all_members [OF assms(1)] Diff_cancel stale_none)
qed

text \<open>One iterator moved and repaired.\<close>

lemma moved_update:
  assumes "inv t its" "i < length its"
  shows "inv (ms_Update M i t (its[i := it])) (its[i := it])"
proof -
  have s: "stale {} t its" using assms(1) by (simp only: stale_none)
  have "stale {i} t (its[i := it])" by (rule stale_moved [OF s]) (simp_all add: assms(2))
  from stale_update [OF this, of i] assms(2) have "stale {} (ms_Update M i t (its[i := it])) (its[i := it])" by simp
  then show ?thesis by (simp only: stale_none)
qed

end

end
