(* ===== verification/Winner_Tree.thy ===== *)
theory Winner_Tree
  imports Merge_Structure
begin

text \<open>
  The tournament tree of \<^verbatim>\<open>structures/winner_tree.go\<close>, a merge structure. The number of leaves is the least
  power of two that is not below the number of iterators; the Go code computes it with floating-point
  logarithms, which are exact for powers of two.

  Shown here: after construction, update and advance the winner is a smallest element of all iterators
  that have one, so the tree keeps both contracts of a merge structure.
\<close>

section \<open>The tree\<close>

record WinnerTree =
  wt_nodes :: "nat option list"
  wt_k :: nat
  wt_n :: nat
  wt_pathToRoot :: "nat list list"

function pow2_from :: "nat \<Rightarrow> nat \<Rightarrow> nat" where
  "pow2_from k n = (if k = 0 \<or> n \<le> k then k else pow2_from (2 * k) n)"
  by pat_completeness auto
termination
  by (relation "measure (\<lambda>(k, n). n - k)") auto

declare pow2_from.simps [simp del]

lemma pow2_from_ge: "0 < k \<Longrightarrow> n \<le> pow2_from k n \<and> 0 < pow2_from k n"
proof (induction k n rule: pow2_from.induct)
  case (1 k n)
  then show ?case by (subst (1 2) pow2_from.simps) auto
qed

definition parentOf :: "nat \<Rightarrow> nat \<Rightarrow> nat" where
  "parentOf k c = k + c div 2"

text \<open>The winner of the two children of an internal node.\<close>

definition replay :: "('it, 'a) Iterator \<Rightarrow> 'a comparator \<Rightarrow> 'it list \<Rightarrow> nat \<Rightarrow> nat option list \<Rightarrow> nat \<Rightarrow> nat option list" where
  "replay m cmp its k nodes n =
     (let left = 2 * (n - k); right = left + 1 in
      nodes[n := Compare (deref m its) cmp (nodes ! left) (nodes ! right)])"

definition build :: "('it, 'a) Iterator \<Rightarrow> 'a comparator \<Rightarrow> 'it list \<Rightarrow> nat \<Rightarrow> nat option list \<Rightarrow> nat option list" where
  "build m cmp its k nodes = foldl (replay m cmp its k) nodes [k ..< 2 * k - 1]"

text \<open>Positions never exceed the root, so the loop that runs while they differ runs while they are below.\<close>

function path_from :: "nat \<Rightarrow> nat \<Rightarrow> nat list" where
  "path_from k cur = (if cur < 2 * k - 2 then let p = parentOf k cur in p # path_from k p else [])"
  by pat_completeness auto
termination
  by (relation "measure (\<lambda>(k, cur). 2 * k - 2 - cur)") (auto simp: parentOf_def)

declare path_from.simps [simp del]

definition computePaths :: "nat \<Rightarrow> nat list list" where
  "computePaths k = map (path_from k) [0 ..< k]"

definition NewWinnerTree :: "('it, 'a) Iterator \<Rightarrow> 'a comparator \<Rightarrow> 'it list \<Rightarrow> WinnerTree option" where
  "NewWinnerTree m cmp its =
     (if its = [] then None
      else let n = length its; k = (if n = 1 then 1 else pow2_from 1 n);
               leaves = map (\<lambda>i. if i < n then Some i else None) [0 ..< k]
           in Some \<lparr>wt_nodes = build m cmp its k (leaves @ replicate (k - 1) None), wt_k = k, wt_n = n,
                    wt_pathToRoot = computePaths k\<rparr>)"

definition wt_Winner :: "WinnerTree \<Rightarrow> nat option" where
  "wt_Winner wt = wt_nodes wt ! (2 * wt_k wt - 2)"

text \<open>An iterator that is not a leaf is ignored.\<close>

definition wt_Update :: "('it, 'a) Iterator \<Rightarrow> 'a comparator \<Rightarrow> nat \<Rightarrow> WinnerTree \<Rightarrow> 'it list \<Rightarrow> WinnerTree" where
  "wt_Update m cmp i wt its =
     (if wt_n wt \<le> i then wt
      else wt\<lparr>wt_nodes := foldl (replay m cmp its (wt_k wt)) ((wt_nodes wt)[i := Some i]) (wt_pathToRoot wt ! i)\<rparr>)"

definition wt_Advance :: "('it, 'a) Iterator \<Rightarrow> 'a comparator \<Rightarrow> nat \<Rightarrow> WinnerTree \<Rightarrow> 'it list \<Rightarrow> (WinnerTree \<times> 'it list) option" where
  "wt_Advance m cmp i wt its =
     (if wt_n wt \<le> i then Some (wt, its)
      else Option.bind (Next m (its ! i)) (\<lambda>it.
        let its' = its[i := it] in Some (wt_Update m cmp i wt its', its')))"

text \<open>The iterators of the map of leaves, whose order Go leaves open.\<close>

definition wt_Iterators :: "WinnerTree \<Rightarrow> nat list" where
  "wt_Iterators wt = [0 ..< wt_n wt]"

definition wt_methods :: "('it, 'a) Iterator \<Rightarrow> 'a comparator \<Rightarrow> (WinnerTree, 'it, 'a) MergeStructure" where
  "wt_methods m cmp = \<lparr>ms_Winner = wt_Winner, ms_Update = wt_Update m cmp, ms_Advance = wt_Advance m cmp,
     ms_Iterators = wt_Iterators\<rparr>"

section \<open>What every node holds\<close>

function best :: "('it, 'a) Iterator \<Rightarrow> 'a comparator \<Rightarrow> 'it list \<Rightarrow> nat \<Rightarrow> nat \<Rightarrow> nat \<Rightarrow> nat option" where
  "best m cmp its k cnt n =
     (if n < k \<or> k = 0 \<or> 2 * k - 1 \<le> n then (if n < cnt then Some n else None)
      else Compare (deref m its) cmp (best m cmp its k cnt (2 * (n - k))) (best m cmp its k cnt (2 * (n - k) + 1)))"
  by pat_completeness auto
termination
  by (relation "measure (\<lambda>(m, cmp, its, k, cnt, n). n)") auto

declare best.simps [simp del]

definition wt_ok :: "('it, 'a) Iterator \<Rightarrow> 'a comparator \<Rightarrow> WinnerTree \<Rightarrow> 'it list \<Rightarrow> bool" where
  "wt_ok m cmp wt its \<longleftrightarrow> 0 < wt_k wt \<and> wt_n wt = length its \<and> length its \<le> wt_k wt \<and> its \<noteq> [] \<and>
     wt_pathToRoot wt = computePaths (wt_k wt) \<and> length (wt_nodes wt) = 2 * wt_k wt - 1 \<and>
     (\<forall>n < 2 * wt_k wt - 1. wt_nodes wt ! n = best m cmp its (wt_k wt) (wt_n wt) n)"

lemma length_replay [simp]: "length (replay m cmp its k nodes n) = length nodes"
  by (simp add: replay_def Let_def)

lemma replay_best:
  assumes "k \<le> n" "n < 2 * k - 1" "length nodes = 2 * k - 1"
    and "nodes ! (2 * (n - k)) = best m cmp its k cnt (2 * (n - k))"
    and "nodes ! (2 * (n - k) + 1) = best m cmp its k cnt (2 * (n - k) + 1)"
  shows "replay m cmp its k nodes n = nodes[n := best m cmp its k cnt n]"
proof -
  have "0 < k" using assms(1,2) by auto
  with assms show ?thesis by (simp add: replay_def Let_def best.simps [of m cmp its k cnt n])
qed

lemma build_best:
  assumes "j \<le> 2 * k - 1" "k \<le> j" "length nodes = 2 * k - 1"
    and "\<forall>n < k. nodes ! n = best m cmp its k cnt n"
  shows "length (foldl (replay m cmp its k) nodes [k ..< j]) = 2 * k - 1 \<and>
    (\<forall>n < j. foldl (replay m cmp its k) nodes [k ..< j] ! n = best m cmp its k cnt n)"
  using assms(2,1)
proof (induction j rule: dec_induct)
  case base
  then show ?case using assms by simp
next
  case (step j)
  let ?f = "foldl (replay m cmp its k) nodes [k ..< j]"
  have "replay m cmp its k ?f j = ?f[j := best m cmp its k cnt j]"
    using step by (intro replay_best) auto
  with step show ?case by (simp add: nth_list_update less_Suc_eq)
qed

lemma NewWinnerTree_ok:
  assumes "NewWinnerTree m cmp its = Some wt"
  shows "wt_ok m cmp wt its"
proof -
  define n where "n = length its"
  define k where "k = (if n = 1 then 1 else pow2_from 1 n)"
  define nodes where "nodes = map (\<lambda>i. if i < n then Some i else None) [0 ..< k] @ replicate (k - 1) None"
  have ne: "its \<noteq> []" and wt: "wt = \<lparr>wt_nodes = build m cmp its k nodes, wt_k = k, wt_n = n, wt_pathToRoot = computePaths k\<rparr>"
    using assms by (auto simp: NewWinnerTree_def n_def k_def nodes_def Let_def split: if_splits)
  have k: "0 < k" "n \<le> k" using pow2_from_ge [of 1 n] by (auto simp: k_def)
  have len: "length nodes = 2 * k - 1" using k by (simp add: nodes_def)
  have "\<forall>i < k. nodes ! i = best m cmp its k n i" by (simp add: nodes_def nth_append best.simps)
  from build_best [OF order.refl _ len this] k show ?thesis
    by (simp add: wt_ok_def wt build_def n_def [symmetric] ne)
qed

section \<open>Paths\<close>

definition below :: "nat \<Rightarrow> nat \<Rightarrow> nat \<Rightarrow> bool" where
  "below k n i \<longleftrightarrow> n = i \<or> n \<in> set (path_from k i)"

lemma path_from_range: "x \<in> set (path_from k c) \<Longrightarrow> c < x \<and> k \<le> x \<and> x \<le> 2 * k - 2"
proof (induction k c rule: path_from.induct)
  case (1 k c)
  then have c: "c < 2 * k - 2" by (subst (asm) path_from.simps) (auto split: if_splits)
  then have p: "c < parentOf k c" "k \<le> parentOf k c" "parentOf k c \<le> 2 * k - 2" by (auto simp: parentOf_def)
  from "1.prems" c have "x = parentOf k c \<or> x \<in> set (path_from k (parentOf k c))"
    by (subst (asm) path_from.simps) (simp add: Let_def)
  with "1.IH" [OF c refl] p show ?case by auto
qed

lemma path_from_parent: "c = i \<or> c \<in> set (path_from k i) \<Longrightarrow> c < 2 * k - 2 \<Longrightarrow> parentOf k c \<in> set (path_from k i)"
proof (induction k i rule: path_from.induct)
  case (1 k i)
  then have i: "i < 2 * k - 2" using path_from_range [of c k i] by auto
  then have p: "path_from k i = parentOf k i # path_from k (parentOf k i)" by (subst path_from.simps) (simp add: Let_def)
  with "1.prems" "1.IH" [OF i refl] show ?case by auto
qed

lemma path_from_child: "n \<in> set (path_from k i) \<Longrightarrow> \<exists>c. (c = i \<or> c \<in> set (path_from k i)) \<and> parentOf k c = n"
proof (induction k i rule: path_from.induct)
  case (1 k i)
  then have i: "i < 2 * k - 2" by (subst (asm) path_from.simps) (auto split: if_splits)
  then have p: "path_from k i = parentOf k i # path_from k (parentOf k i)" by (subst path_from.simps) (simp add: Let_def)
  with "1.prems" "1.IH" [OF i refl] show ?case by auto
qed

lemma root_below: "0 < k \<Longrightarrow> i < k \<Longrightarrow> below k (2 * k - 2) i"
proof -
  have "c < 2 * k - 2 \<Longrightarrow> 2 * k - 2 \<in> set (path_from k c)" for c
  proof (induction k c rule: path_from.induct)
    case (1 k c)
    have p: "path_from k c = parentOf k c # path_from k (parentOf k c)" using "1.prems"
      by (subst path_from.simps) (simp add: Let_def)
    have "parentOf k c \<le> 2 * k - 2" using "1.prems" by (auto simp: parentOf_def)
    with "1.IH" [OF "1.prems" refl] p show ?case by (cases "parentOf k c = 2 * k - 2") auto
  qed
  then show "0 < k \<Longrightarrow> i < k \<Longrightarrow> below k (2 * k - 2) i" by (cases "i < 2 * k - 2") (auto simp: below_def)
qed

lemma below_leaf: "n < k \<Longrightarrow> below k n i \<longleftrightarrow> n = i"
  using path_from_range [of n k i] by (auto simp: below_def)

lemma below_node:
  assumes "k \<le> n" "n < 2 * k - 1" "i < k"
  shows "below k n i \<longleftrightarrow> below k (2 * (n - k)) i \<or> below k (2 * (n - k) + 1) i"
proof
  assume "below k n i"
  with assms have "n \<in> set (path_from k i)" by (auto simp: below_def)
  then obtain c where c: "c = i \<or> c \<in> set (path_from k i)" "parentOf k c = n" using path_from_child by blast
  then have "c = 2 * (n - k) \<or> c = 2 * (n - k) + 1" by (auto simp: parentOf_def)
  with c show "below k (2 * (n - k)) i \<or> below k (2 * (n - k) + 1) i" by (auto simp: below_def)
next
  assume "below k (2 * (n - k)) i \<or> below k (2 * (n - k) + 1) i"
  moreover have "parentOf k (2 * (n - k)) = n" "parentOf k (2 * (n - k) + 1) = n"
    "2 * (n - k) < 2 * k - 2" "2 * (n - k) + 1 < 2 * k - 2" using assms by (auto simp: parentOf_def)
  ultimately show "below k n i" using path_from_parent [of _ i k] unfolding below_def by metis
qed

lemma best_internal:
  "k \<le> n \<Longrightarrow> n < 2 * k - 1 \<Longrightarrow> best m cmp its k cnt n =
     Compare (deref m its) cmp (best m cmp its k cnt (2 * (n - k))) (best m cmp its k cnt (2 * (n - k) + 1))"
  by (subst best.simps) auto

lemma best_leaf: "n < k \<Longrightarrow> best m cmp its k cnt n = (if n < cnt then Some n else None)"
  by (subst best.simps) auto

text \<open>Induction along the tree.\<close>

lemma node_induct [consumes 1, case_names leaf internal]:
  fixes n k :: nat
  assumes "n < 2 * k - 1" "\<And>n. n < k \<Longrightarrow> P n"
    and "\<And>n. k \<le> n \<Longrightarrow> n < 2 * k - 1 \<Longrightarrow> P (2 * (n - k)) \<Longrightarrow> P (2 * (n - k) + 1) \<Longrightarrow> P n"
  shows "P n"
  using assms(1)
proof (induction n rule: less_induct)
  case (less n)
  show ?case
  proof (cases "n < k")
    case False
    with less.prems have n: "2 * (n - k) < n" "2 * (n - k) + 1 < n" "k \<le> n" by auto
    then have "2 * (n - k) < 2 * k - 1" "2 * (n - k) + 1 < 2 * k - 1" using less.prems by linarith+
    with assms(3) [OF n(3) less.prems less.IH [OF n(1)] less.IH [OF n(2)]] show ?thesis by blast
  qed (rule assms(2))
qed

lemma Compare_cases: "Compare m cmp a b = Some j \<Longrightarrow> a = Some j \<or> b = Some j"
  by (auto simp: Compare_def split: option.splits if_splits)

lemma best_below:
  assumes "n < 2 * k - 1" "cnt \<le> k"
  shows "best m cmp its k cnt n = Some j \<Longrightarrow> below k n j \<and> j < cnt"
  using assms(1)
proof (induction n arbitrary: j rule: node_induct)
  case (leaf n)
  then show ?case by (auto simp: best_leaf below_def split: if_splits)
next
  case (internal n)
  from internal.prems have "best m cmp its k cnt (2 * (n - k)) = Some j \<or> best m cmp its k cnt (2 * (n - k) + 1) = Some j"
    unfolding best_internal [OF internal.hyps] by (rule Compare_cases)
  then show ?case
    using internal.IH assms(2) below_node [OF internal.hyps, of j] by auto
qed

lemma best_cong:
  assumes "n < 2 * k - 1" "cnt \<le> k"
    and "\<And>j. j < cnt \<Longrightarrow> below k n j \<Longrightarrow> Valid m (its' ! j) = Valid m (its ! j) \<and> (Valid m (its ! j) \<longrightarrow> Key m (its' ! j) = Key m (its ! j))"
  shows "best m cmp its' k cnt n = best m cmp its k cnt n"
  using assms(1,3)
proof (induction n rule: node_induct)
  case (leaf n)
  then show ?case by (simp add: best_leaf)
next
  case (internal n)
  let ?l = "best m cmp its k cnt (2 * (n - k))" and ?r = "best m cmp its k cnt (2 * (n - k) + 1)"
  have c: "2 * (n - k) < 2 * k - 1" "2 * (n - k) + 1 < 2 * k - 1" using internal.hyps by auto
  have sub: "j < cnt \<Longrightarrow> below k (2 * (n - k)) j \<or> below k (2 * (n - k) + 1) j \<Longrightarrow> below k n j" for j
    using below_node [OF internal.hyps, of j] assms(2) by simp
  have same: "Valid m (its' ! j) = Valid m (its ! j) \<and> (Valid m (its ! j) \<longrightarrow> Key m (its' ! j) = Key m (its ! j))"
    if "?l = Some j \<or> ?r = Some j" for j
    using that best_below [OF c(1) assms(2), of m cmp its j] best_below [OF c(2) assms(2), of m cmp its j]
      sub [of j] internal.prems by blast
  have "Compare (deref m its') cmp ?l ?r = Compare (deref m its) cmp ?l ?r"
    using same by (cases ?l; cases ?r) (simp_all add: Compare_def)
  moreover have "best m cmp its' k cnt (2 * (n - k)) = ?l" "best m cmp its' k cnt (2 * (n - k) + 1) = ?r"
    using internal.IH internal.prems sub by blast+
  ultimately show ?case by (simp add: best_internal [OF internal.hyps])
qed

lemma replay_path:
  assumes "length nodes = 2 * k - 1" and "\<And>n. k \<le> n \<Longrightarrow> n < 2 * k - 1 \<Longrightarrow> P n \<Longrightarrow> P (2 * (n - k)) \<and> P (2 * (n - k) + 1)"
    and "\<forall>n < 2 * k - 1. P n \<longrightarrow> n \<notin> set (path_from k c) \<longrightarrow> nodes ! n = best m cmp its k cnt n"
  shows "length (foldl (replay m cmp its k) nodes (path_from k c)) = 2 * k - 1 \<and>
    (\<forall>n < 2 * k - 1. P n \<longrightarrow> foldl (replay m cmp its k) nodes (path_from k c) ! n = best m cmp its k cnt n)"
  using assms
proof (induction k c arbitrary: nodes rule: path_from.induct)
  case (1 k c)
  note closed = "1.prems"(2)
  show ?case
  proof (cases "c < 2 * k - 2")
    case False
    then have "path_from k c = []" by (subst path_from.simps) simp
    with "1.prems" show ?thesis by simp
  next
    case True
    let ?p = "parentOf k c"
    have path: "path_from k c = ?p # path_from k ?p" using True by (subst path_from.simps) (simp add: Let_def)
    have p: "k \<le> ?p" "?p < 2 * k - 1" using True by (auto simp: parentOf_def)
    have low: "x \<notin> set (path_from k c)" if "x < ?p" for x
      using that path path_from_range [of x k ?p] by auto
    let ?nodes = "replay m cmp its k nodes ?p"
    have len: "length ?nodes = 2 * k - 1" using "1.prems"(1) by simp
    have at_p: "?nodes ! ?p = best m cmp its k cnt ?p" if "P ?p"
    proof -
      have "?nodes = nodes[?p := best m cmp its k cnt ?p]"
        using p "1.prems" low closed [OF p that] by (intro replay_best) auto
      then show ?thesis using p "1.prems"(1) by simp
    qed
    have "\<forall>n < 2 * k - 1. P n \<longrightarrow> n \<notin> set (path_from k ?p) \<longrightarrow> ?nodes ! n = best m cmp its k cnt n"
    proof (intro allI impI)
      fix n assume n: "n < 2 * k - 1" "P n" "n \<notin> set (path_from k ?p)"
      show "?nodes ! n = best m cmp its k cnt n"
      proof (cases "n = ?p")
        case False
        then have "?nodes ! n = nodes ! n" by (simp add: replay_def Let_def)
        with n False path "1.prems"(3) show ?thesis by simp
      qed (use n at_p in simp)
    qed
    from "1.IH" [OF True refl len closed this] path show ?thesis by simp
  qed
qed

section \<open>Repairing the tree\<close>

text \<open>All nodes are right that have no leaf of \<open>D\<close> below them.\<close>

definition wt_stale :: "('it, 'a) Iterator \<Rightarrow> 'a comparator \<Rightarrow> nat set \<Rightarrow> WinnerTree \<Rightarrow> 'it list \<Rightarrow> bool" where
  "wt_stale m cmp D wt its \<longleftrightarrow> 0 < wt_k wt \<and> wt_n wt = length its \<and> length its \<le> wt_k wt \<and> its \<noteq> [] \<and>
     D \<subseteq> {..< length its} \<and>
     wt_pathToRoot wt = computePaths (wt_k wt) \<and> length (wt_nodes wt) = 2 * wt_k wt - 1 \<and>
     (\<forall>n < 2 * wt_k wt - 1. (\<forall>i \<in> D. \<not> below (wt_k wt) n i) \<longrightarrow> wt_nodes wt ! n = best m cmp its (wt_k wt) (wt_n wt) n)"

lemma wt_stale_none: "wt_stale m cmp {} wt its \<longleftrightarrow> wt_ok m cmp wt its"
  by (auto simp: wt_stale_def wt_ok_def)

lemma wt_stale_moved:
  assumes "wt_stale m cmp D wt its" "length its' = length its" "D \<subseteq> D'" "D' \<subseteq> {..< length its}"
    and "\<And>j. j < length its \<Longrightarrow> j \<notin> D' \<Longrightarrow> its' ! j = its ! j"
  shows "wt_stale m cmp D' wt its'"
proof -
  note wt = assms(1) [unfolded wt_stale_def]
  have "best m cmp its' (wt_k wt) (wt_n wt) n = best m cmp its (wt_k wt) (wt_n wt) n"
    if "n < 2 * wt_k wt - 1" "\<forall>i \<in> D'. \<not> below (wt_k wt) n i" for n
    using that wt assms(5) by (intro best_cong) auto
  moreover have "\<forall>i \<in> D. \<not> below (wt_k wt) n i" if "\<forall>i \<in> D'. \<not> below (wt_k wt) n i" for n
    using that assms(3) by blast
  moreover have "its' \<noteq> []" using assms(2) wt by (cases its') auto
  ultimately show ?thesis using wt assms(2,4) unfolding wt_stale_def by simp
qed

lemma wt_Update_stale:
  assumes "wt_stale m cmp D wt its" "i < length its"
  shows "wt_stale m cmp (D - {i}) (wt_Update m cmp i wt its) its"
proof -
  let ?k = "wt_k wt" and ?P = "\<lambda>n. \<forall>j \<in> D - {i}. \<not> below (wt_k wt) n j" and ?nodes = "(wt_nodes wt)[i := Some i]"
  note wt = assms(1) [unfolded wt_stale_def]
  have i: "i < ?k" "i < wt_n wt" using wt assms(2) by auto
  have path: "wt_pathToRoot wt ! i = path_from ?k i" using wt i by (simp add: computePaths_def)
  have closed: "?P (2 * (n - ?k)) \<and> ?P (2 * (n - ?k) + 1)" if "?k \<le> n" "n < 2 * ?k - 1" "?P n" for n
  proof -
    have "\<not> below ?k (2 * (n - ?k)) j \<and> \<not> below ?k (2 * (n - ?k) + 1) j" if "j \<in> D - {i}" for j
    proof -
      have "j < ?k" using that wt by auto
      with below_node [OF \<open>?k \<le> n\<close> \<open>n < 2 * ?k - 1\<close> this] \<open>?P n\<close> that show ?thesis by blast
    qed
    then show ?thesis by blast
  qed
  have "\<forall>n < 2 * ?k - 1. ?P n \<longrightarrow> n \<notin> set (path_from ?k i) \<longrightarrow> ?nodes ! n = best m cmp its ?k (wt_n wt) n"
  proof (intro allI impI)
    fix n assume n: "n < 2 * ?k - 1" "?P n" "n \<notin> set (path_from ?k i)"
    show "?nodes ! n = best m cmp its ?k (wt_n wt) n"
    proof (cases "n = i")
      case True
      with wt i n show ?thesis by (simp add: best_leaf)
    next
      case False
      with n have "\<forall>j \<in> D. \<not> below ?k n j" by (auto simp: below_def)
      with n(1) False wt show ?thesis by simp
    qed
  qed
  with wt have res: "length (foldl (replay m cmp its ?k) ?nodes (path_from ?k i)) = 2 * ?k - 1 \<and>
      (\<forall>n < 2 * ?k - 1. ?P n \<longrightarrow> foldl (replay m cmp its ?k) ?nodes (path_from ?k i) ! n = best m cmp its ?k (wt_n wt) n)"
    by (intro replay_path closed) simp_all
  have up: "wt_Update m cmp i wt its = wt\<lparr>wt_nodes := foldl (replay m cmp its ?k) ?nodes (path_from ?k i)\<rparr>"
    using i path by (simp add: wt_Update_def)
  have "D - {i} \<subseteq> {..< length its}" using wt by blast
  with res wt show ?thesis unfolding up wt_stale_def by simp
qed

lemma wt_Update_ok:
  assumes "wt_ok m cmp wt its" "i < length its"
  shows "wt_ok m cmp (wt_Update m cmp i wt (its[i := x])) (its[i := x])"
proof -
  have s: "wt_stale m cmp {} wt its" using assms(1) by (simp only: wt_stale_none)
  have "wt_stale m cmp {i} wt (its[i := x])" by (rule wt_stale_moved [OF s]) (simp_all add: assms(2))
  from wt_Update_stale [OF this, of i] assms(2) show ?thesis by (simp add: wt_stale_none)
qed

section \<open>The winner is a smallest element\<close>

context cmp_order
begin

lemma best_smallest:
  assumes "n < 2 * k - 1" "cnt \<le> k" "i < cnt" "Valid m (its ! i)"
  shows "below k n i \<Longrightarrow> \<exists>j. best m cmp its k cnt n = Some j \<and> Valid m (its ! j) \<and> cmp (Key m (its ! j)) (Key m (its ! i)) \<le> 0"
  using assms(1)
proof (induction n rule: node_induct)
  case (leaf n)
  then show ?case using assms by (simp add: best_leaf below_leaf cmp_refl)
next
  case (internal n)
  let ?a = "best m cmp its k cnt (2 * (n - k))" and ?b = "best m cmp its k cnt (2 * (n - k) + 1)"
  from internal.prems below_node [OF internal.hyps, of i] assms(2,3)
  consider j where "?a = Some j" "Valid m (its ! j)" "cmp (Key m (its ! j)) (Key m (its ! i)) \<le> 0"
    | j where "?b = Some j" "Valid m (its ! j)" "cmp (Key m (its ! j)) (Key m (its ! i)) \<le> 0"
    using internal.IH by auto
  then show ?case
  proof cases
    case 1
    then show ?thesis unfolding best_internal [OF internal.hyps]
      using cmp_trans [of _ "Key m (its ! j)" "Key m (its ! i)"] cmp_sym [of _ "Key m (its ! j)", THEN iffD2]
      by (auto simp: Compare_def not_le dest: cmp_less_imp_le split: option.splits)
  next
    case 2
    then show ?thesis unfolding best_internal [OF internal.hyps]
      using cmp_trans [of _ "Key m (its ! j)" "Key m (its ! i)"]
      by (auto simp: Compare_def split: option.splits)
  qed
qed

lemma wt_Winner_least:
  assumes "wt_ok m cmp wt its" "j < length its" "Valid m (its ! j)"
  shows "\<exists>i. wt_Winner wt = Some i \<and> Valid m (its ! i) \<and> cmp (Key m (its ! i)) (Key m (its ! j)) \<le> 0"
proof -
  note wt = assms(1) [unfolded wt_ok_def]
  have "below (wt_k wt) (2 * wt_k wt - 2) j" using wt assms(2) by (intro root_below) auto
  from best_smallest [OF _ _ _ assms(3) this, of "wt_n wt"] wt assms(2) show ?thesis by (auto simp: wt_Winner_def)
qed

end

section \<open>The contract\<close>

lemma wt_Winner_range: "wt_ok m cmp wt its \<Longrightarrow> wt_Winner wt = Some i \<Longrightarrow> i < length its"
  using best_below [of "2 * wt_k wt - 2" "wt_k wt" "wt_n wt" m cmp its i] by (auto simp: wt_ok_def wt_Winner_def)

lemma wt_contract:
  assumes "cmp_order cmp"
  shows "seekable_merge_structure cmp m (wt_methods m cmp) (wt_ok m cmp) (wt_stale m cmp)"
proof (intro seekable_merge_structure.intro merge_structure.intro assms)
  show "merge_structure_axioms cmp m (wt_methods m cmp) (wt_ok m cmp)"
  proof
    fix wt its i j it its'
    assume ok: "wt_ok m cmp wt its"
    show "ms_Winner (wt_methods m cmp) wt = Some i \<Longrightarrow> i < length its"
      using wt_Winner_range [OF ok] by (simp add: wt_methods_def)
    show "j < length its \<Longrightarrow> Valid m (its ! j) \<Longrightarrow> \<exists>i. ms_Winner (wt_methods m cmp) wt = Some i \<and> Valid m (its ! i) \<and>
        cmp (Key m (its ! i)) (Key m (its ! j)) \<le> 0"
      using cmp_order.wt_Winner_least [OF assms ok] by (simp add: wt_methods_def)
    show "i < length its \<Longrightarrow> wt_ok m cmp (ms_Update (wt_methods m cmp) i wt its) its"
      using wt_Update_ok [OF ok, of i "its ! i"] by (simp add: wt_methods_def)
    show "set (ms_Iterators (wt_methods m cmp) wt) \<subseteq> {..< length its} \<and>
        (\<forall>i < length its. Valid m (its ! i) \<longrightarrow> i \<in> set (ms_Iterators (wt_methods m cmp) wt))"
      using ok by (auto simp: wt_methods_def wt_Iterators_def wt_ok_def)
    show "same_front m its its' \<Longrightarrow> wt_ok m cmp wt its'"
      using ok best_cong [of _ "wt_k wt" "wt_n wt" m its' its cmp] by (auto simp: wt_ok_def same_front_def)
    assume w: "ms_Winner (wt_methods m cmp) wt = Some i" and n: "Next m (its ! i) = Some it"
    then have "i < length its" using wt_Winner_range [OF ok] by (simp add: wt_methods_def)
    with ok n wt_Update_ok [OF ok, of i it]
    show "\<exists>t'. ms_Advance (wt_methods m cmp) i wt its = Some (t', its[i := it]) \<and> wt_ok m cmp t' (its[i := it])"
      by (simp add: wt_methods_def wt_Advance_def wt_ok_def [of m cmp wt its] Let_def)
  qed
  show "seekable_merge_structure_axioms (wt_methods m cmp) (wt_ok m cmp) (wt_stale m cmp)"
  proof
    fix wt its its' D D' i
    show "wt_stale m cmp {} wt its \<longleftrightarrow> wt_ok m cmp wt its" by (rule wt_stale_none)
    show "wt_stale m cmp D wt its \<Longrightarrow> i < length its \<Longrightarrow> wt_stale m cmp (D - {i}) (ms_Update (wt_methods m cmp) i wt its) its"
      using wt_Update_stale by (simp add: wt_methods_def)
    show "wt_stale m cmp D wt its \<Longrightarrow> length its' = length its \<Longrightarrow> D \<subseteq> D' \<Longrightarrow> D' \<subseteq> {..< length its} \<Longrightarrow>
        (\<And>j. j < length its \<Longrightarrow> j \<notin> D' \<Longrightarrow> its' ! j = its ! j) \<Longrightarrow> wt_stale m cmp D' wt its'"
      by (rule wt_stale_moved)
    show "wt_ok m cmp wt its \<Longrightarrow> set (ms_Iterators (wt_methods m cmp) wt) = {..< length its}"
      by (auto simp: wt_methods_def wt_Iterators_def wt_ok_def)
  qed
qed

end
