(* ===== verification/Min_Heap.thy ===== *)
theory Min_Heap
  imports Merge_Structure "HOL-Library.Multiset"
begin

text \<open>
  The binary heap of iterators of \<^verbatim>\<open>structures/min_heap.go\<close>, the other merge structure. An item holds the
  position of its iterator. Reading an item never panics here: the indices stay below the length.

  Shown here: the heap keeps the contract of a merge structure. It drops an iterator that is exhausted, so
  it does not keep the stronger contract of the tournament tree: \<^verbatim>\<open>Iterators\<close> no longer names such an iterator.
\<close>

section \<open>Operations\<close>

record HeapPriorityQueue =
  hq_data :: "nat list"

definition hq_parent :: "nat \<Rightarrow> nat" where
  "hq_parent j = (j - 1) div 2"

definition leftChild :: "nat \<Rightarrow> nat" where
  "leftChild j = 2 * j + 1"

definition rightChild :: "nat \<Rightarrow> nat" where
  "rightChild j = 2 * j + 2"

definition swap :: "nat \<Rightarrow> nat \<Rightarrow> nat list \<Rightarrow> nat list" where
  "swap i j d = d[i := d ! j, j := d ! i]"

text \<open>The keys of two items.\<close>

definition item_cmp :: "('it, 'a) Iterator \<Rightarrow> 'a comparator \<Rightarrow> 'it list \<Rightarrow> nat list \<Rightarrow> nat \<Rightarrow> nat \<Rightarrow> int" where
  "item_cmp m cmp its d i j = cmp (Key m (its ! (d ! i))) (Key m (its ! (d ! j)))"

lemma length_swap [simp]: "length (swap i j d) = length d"
  by (simp add: swap_def)

function upheap :: "('it, 'a) Iterator \<Rightarrow> 'a comparator \<Rightarrow> 'it list \<Rightarrow> nat \<Rightarrow> nat list \<Rightarrow> nat list" where
  "upheap m cmp its j d =
     (let parent = hq_parent j in
      if 0 < j \<and> item_cmp m cmp its d j parent < 0 then upheap m cmp its parent (swap j parent d) else d)"
  by pat_completeness auto
termination
  by (relation "measure (\<lambda>(m, cmp, its, j, d). j)") (auto simp: hq_parent_def)

definition smallChild :: "('it, 'a) Iterator \<Rightarrow> 'a comparator \<Rightarrow> 'it list \<Rightarrow> nat \<Rightarrow> nat list \<Rightarrow> nat" where
  "smallChild m cmp its j d =
     (let left = leftChild j; right = rightChild j in
      if right < length d \<and> item_cmp m cmp its d right left < 0 then right else left)"

function downheap :: "('it, 'a) Iterator \<Rightarrow> 'a comparator \<Rightarrow> 'it list \<Rightarrow> nat \<Rightarrow> nat list \<Rightarrow> nat list" where
  "downheap m cmp its j d =
     (if leftChild j < length d then
        let small = smallChild m cmp its j d in
        if item_cmp m cmp its d small j < 0 then downheap m cmp its small (swap j small d) else d
      else d)"
  by pat_completeness auto
termination
  by (relation "measure (\<lambda>(m, cmp, its, j, d). length d - j)") (auto simp: smallChild_def leftChild_def rightChild_def Let_def)

declare upheap.simps [simp del] downheap.simps [simp del]

definition heapify :: "('it, 'a) Iterator \<Rightarrow> 'a comparator \<Rightarrow> 'it list \<Rightarrow> nat list \<Rightarrow> nat list" where
  "heapify m cmp its d = fold (downheap m cmp its) (rev [0 ..< length d div 2]) d"

definition NewHeapPriorityQueue :: "('it, 'a) Iterator \<Rightarrow> 'a comparator \<Rightarrow> 'it list \<Rightarrow> HeapPriorityQueue" where
  "NewHeapPriorityQueue m cmp its =
     \<lparr>hq_data = heapify m cmp its (filter (\<lambda>i. Valid m (its ! i)) [0 ..< length its])\<rparr>"

definition hq_Winner :: "HeapPriorityQueue \<Rightarrow> nat option" where
  "hq_Winner h = (if hq_data h = [] then None else Some (hq_data h ! 0))"

text \<open>The index of the first item of an iterator.\<close>

fun index_from :: "nat \<Rightarrow> nat \<Rightarrow> nat list \<Rightarrow> nat option" where
  "index_from k i [] = None"
| "index_from k i (x # xs) = (if x = i then Some k else index_from (Suc k) i xs)"

text \<open>The last item takes the place of the removed one.\<close>

definition remove_at :: "('it, 'a) Iterator \<Rightarrow> 'a comparator \<Rightarrow> 'it list \<Rightarrow> nat \<Rightarrow> nat list \<Rightarrow> nat list" where
  "remove_at m cmp its idx d =
     (let d' = butlast (d[idx := last d]) in
      if idx < length d' then downheap m cmp its idx d' else d')"

definition hq_Update :: "('it, 'a) Iterator \<Rightarrow> 'a comparator \<Rightarrow> nat \<Rightarrow> HeapPriorityQueue \<Rightarrow> 'it list \<Rightarrow> HeapPriorityQueue" where
  "hq_Update m cmp i h its =
     (case index_from 0 i (hq_data h) of
        None \<Rightarrow> h
      | Some idx \<Rightarrow>
          if \<not> Valid m (its ! i) then h\<lparr>hq_data := remove_at m cmp its idx (hq_data h)\<rparr>
          else h\<lparr>hq_data := upheap m cmp its idx (downheap m cmp its idx (hq_data h))\<rparr>)"

text \<open>The advanced iterator is taken to be the one at the top.\<close>

definition hq_Advance :: "('it, 'a) Iterator \<Rightarrow> 'a comparator \<Rightarrow> nat \<Rightarrow> HeapPriorityQueue \<Rightarrow> 'it list \<Rightarrow> (HeapPriorityQueue \<times> 'it list) option" where
  "hq_Advance m cmp i h its =
     (if hq_data h = [] then Some (h, its)
      else Option.bind (Next m (its ! i)) (\<lambda>it.
        let its' = its[i := it] in
        if Valid m it then Some (h\<lparr>hq_data := downheap m cmp its' 0 ((hq_data h)[0 := i])\<rparr>, its')
        else Some (h\<lparr>hq_data := remove_at m cmp its' 0 (hq_data h)\<rparr>, its')))"

definition hq_Iterators :: "HeapPriorityQueue \<Rightarrow> nat list" where
  "hq_Iterators h = hq_data h"

definition hq_methods :: "('it, 'a) Iterator \<Rightarrow> 'a comparator \<Rightarrow> (HeapPriorityQueue, 'it, 'a) MergeStructure" where
  "hq_methods m cmp = \<lparr>ms_Winner = hq_Winner, ms_Update = hq_Update m cmp, ms_Advance = hq_Advance m cmp,
     ms_Iterators = hq_Iterators\<rparr>"

section \<open>Heap order\<close>

text \<open>
  Every edge whose parent lies at \<open>lo\<close> or above it and is not \<open>hole\<close> is in order.
\<close>

definition edges :: "('it, 'a) Iterator \<Rightarrow> 'a comparator \<Rightarrow> 'it list \<Rightarrow> nat \<Rightarrow> nat option \<Rightarrow> nat list \<Rightarrow> bool" where
  "edges m cmp its lo hole d \<longleftrightarrow>
     (\<forall>c < length d. 0 < c \<longrightarrow> lo \<le> hq_parent c \<longrightarrow> hole \<noteq> Some (hq_parent c) \<longrightarrow> item_cmp m cmp its d (hq_parent c) c \<le> 0)"

text \<open>The parent of the hole is in order with the children of the hole.\<close>

definition bridged :: "('it, 'a) Iterator \<Rightarrow> 'a comparator \<Rightarrow> 'it list \<Rightarrow> nat \<Rightarrow> nat \<Rightarrow> nat list \<Rightarrow> bool" where
  "bridged m cmp its lo j d \<longleftrightarrow>
     (\<forall>c < length d. 0 < c \<longrightarrow> hq_parent c = j \<longrightarrow> 0 < j \<longrightarrow> lo \<le> hq_parent j \<longrightarrow> item_cmp m cmp its d (hq_parent j) c \<le> 0)"

definition hq_inv :: "('it, 'a) Iterator \<Rightarrow> 'a comparator \<Rightarrow> HeapPriorityQueue \<Rightarrow> 'it list \<Rightarrow> bool" where
  "hq_inv m cmp h its \<longleftrightarrow> distinct (hq_data h) \<and> set (hq_data h) = {i. i < length its \<and> Valid m (its ! i)} \<and>
     edges m cmp its 0 None (hq_data h)"

lemma child_parent: "0 < c \<Longrightarrow> hq_parent c = j \<longleftrightarrow> c = leftChild j \<or> c = rightChild j"
  by (auto simp: hq_parent_def leftChild_def rightChild_def)

lemma parent_less: "0 < c \<Longrightarrow> hq_parent c < c"
  by (auto simp: hq_parent_def)

lemma smallChild_range:
  "leftChild j < length d \<Longrightarrow> smallChild m cmp its j d < length d \<and> j < smallChild m cmp its j d \<and> 0 < smallChild m cmp its j d \<and>
     hq_parent (smallChild m cmp its j d) = j"
  by (auto simp: smallChild_def leftChild_def rightChild_def hq_parent_def Let_def)

lemma mset_swap: "i < length d \<Longrightarrow> j < length d \<Longrightarrow> mset (swap i j d) = mset d"
  by (simp add: swap_def mset_swap)

lemma mset_downheap: "mset (downheap m cmp its j d) = mset d"
proof (induction m cmp its j d rule: downheap.induct)
  case (1 m cmp its j d)
  let ?s = "smallChild m cmp its j d"
  show ?case
  proof (cases "leftChild j < length d \<and> item_cmp m cmp its d ?s j < 0")
    case True
    then have "downheap m cmp its j d = downheap m cmp its ?s (swap j ?s d)"
      by (subst downheap.simps) (simp add: Let_def)
    moreover have "mset (swap j ?s d) = mset d"
      using True smallChild_range [of j d m cmp its] by (intro mset_swap) auto
    ultimately show ?thesis using 1 True by simp
  qed (subst downheap.simps, auto simp: Let_def)
qed

lemma length_downheap [simp]: "length (downheap m cmp its j d) = length d"
  by (metis mset_downheap size_mset)

lemma set_downheap [simp]: "set (downheap m cmp its j d) = set d"
  by (metis mset_downheap set_mset_mset)

lemma distinct_downheap [simp]: "distinct (downheap m cmp its j d) \<longleftrightarrow> distinct d"
  by (metis mset_downheap distinct_count_atmost_1 set_mset_mset)

context cmp_order
begin

text \<open>The smaller child is not above the other one.\<close>

lemma smallChild_least:
  assumes "c < length d" "0 < c" "hq_parent c = j"
  shows "item_cmp m cmp its d (smallChild m cmp its j d) c \<le> 0"
proof -
  have "c = leftChild j \<or> c = rightChild j" using assms child_parent by simp
  then show ?thesis
    using assms(1) cmp_not_less cmp_refl by (auto simp: smallChild_def item_cmp_def Let_def)
qed

lemma item_swap:
  assumes "i < length d" "j < length d" "a < length d" "b < length d"
  shows "item_cmp m cmp its (swap i j d) a b =
    item_cmp m cmp its d (if a = j then i else if a = i then j else a) (if b = j then i else if b = i then j else b)"
  using assms by (simp add: item_cmp_def swap_def nth_list_update)

lemma downheap_edges:
  "j < length d \<Longrightarrow> lo \<le> j \<Longrightarrow> edges m cmp its lo (Some j) d \<Longrightarrow> bridged m cmp its lo j d \<Longrightarrow>
     edges m cmp its lo None (downheap m cmp its j d)"
proof (induction "length d - j" arbitrary: j d rule: less_induct)
  case less
  let ?s = "smallChild m cmp its j d"
  note e = less.prems(3) [unfolded edges_def] and b = less.prems(4) [unfolded bridged_def]
  show ?case
  proof (cases "leftChild j < length d \<and> item_cmp m cmp its d ?s j < 0")
    case False
    have "item_cmp m cmp its d j c \<le> 0" if c: "c < length d" "0 < c" "hq_parent c = j" for c
    proof -
      have left: "leftChild j < length d" using c child_parent [of c j] by (auto simp: leftChild_def rightChild_def)
      with False have "item_cmp m cmp its d j ?s \<le> 0" by (simp add: item_cmp_def cmp_not_less)
      then show ?thesis using smallChild_least [OF c, of m its] cmp_trans unfolding item_cmp_def by blast
    qed
    with e have "edges m cmp its lo None d" by (auto simp: edges_def)
    moreover have "downheap m cmp its j d = d" using False by (subst downheap.simps) (auto simp: Let_def)
    ultimately show ?thesis by simp
  next
    case True
    note s = smallChild_range [OF conjunct1 [OF True], of m cmp its]
    let ?d = "swap j ?s d"
    have down: "downheap m cmp its j d = downheap m cmp its ?s ?d"
      using True by (subst downheap.simps) (simp add: Let_def)
    note sw = item_swap [OF less.prems(1) conjunct1 [OF s], of _ _ m its]
    have "edges m cmp its lo (Some ?s) ?d"
      unfolding edges_def
    proof (intro allI impI)
      fix c assume c: "c < length ?d" "0 < c" "lo \<le> hq_parent c" "Some ?s \<noteq> Some (hq_parent c)"
      have p: "hq_parent c < length d" using c parent_less [of c] by simp
      show "item_cmp m cmp its ?d (hq_parent c) c \<le> 0"
      proof (cases "hq_parent c = j")
        case True
        have "item_cmp m cmp its ?d (hq_parent c) c = item_cmp m cmp its d ?s (if c = ?s then j else c)"
          using sw [of "hq_parent c" c] p c s True parent_less [of c] by auto
        then show ?thesis
          using \<open>leftChild j < length d \<and> item_cmp m cmp its d ?s j < 0\<close> smallChild_least [of c d j m its] c True by auto
      next
        case False
        then have "item_cmp m cmp its ?d (hq_parent c) c = item_cmp m cmp its d (hq_parent c) (if c = j then ?s else c)"
          using sw [of "hq_parent c" c] p c s by auto
        moreover have "item_cmp m cmp its d (hq_parent c) (if c = j then ?s else c) \<le> 0"
          using e b c False s by auto
        ultimately show ?thesis by simp
      qed
    qed
    moreover have "bridged m cmp its lo ?s ?d"
      unfolding bridged_def
    proof (intro allI impI)
      fix c assume c: "c < length ?d" "0 < c" "hq_parent c = ?s" "0 < ?s" "lo \<le> hq_parent ?s"
      then have "item_cmp m cmp its ?d (hq_parent ?s) c = item_cmp m cmp its d ?s c"
        using sw [of j c] s less.prems(1) parent_less [of c] by auto
      moreover have "item_cmp m cmp its d ?s c \<le> 0"
        using e c s less.prems(2) by (metis length_swap less_imp_le_nat option.inject order_trans less_irrefl)
      ultimately show "item_cmp m cmp its ?d (hq_parent ?s) c \<le> 0" by simp
    qed
    moreover have "length ?d - ?s < length d - j" "?s < length ?d" "lo \<le> ?s" using s less.prems(1,2) by auto
    ultimately show ?thesis
      unfolding down by (intro less.hyps)
  qed
qed

lemma downheap_id: "edges m cmp its 0 None d \<Longrightarrow> j < length d \<Longrightarrow> downheap m cmp its j d = d"
  using smallChild_range [of j d m cmp its] cmp_not_less
  by (subst downheap.simps) (force simp: Let_def edges_def item_cmp_def)

lemma upheap_id: "edges m cmp its 0 None d \<Longrightarrow> j < length d \<Longrightarrow> upheap m cmp its j d = d"
  using cmp_not_less [of "Key m (its ! (d ! j))" "Key m (its ! (d ! hq_parent j))"]
  by (subst upheap.simps) (auto simp: Let_def edges_def item_cmp_def)

lemma heapify_edges: "edges m cmp its 0 None (heapify m cmp its d)"
proof -
  have "n \<le> length d div 2 \<Longrightarrow> edges m cmp its n None e \<Longrightarrow> length e = length d \<Longrightarrow>
      edges m cmp its 0 None (fold (downheap m cmp its) (rev [0 ..< n]) e)" for n e
  proof (induction n arbitrary: e)
    case (Suc n)
    then have "edges m cmp its n None (downheap m cmp its n e)"
      using parent_less [of n] by (intro downheap_edges) (auto simp: edges_def bridged_def)
    with Suc show ?case by simp
  qed simp
  note loop = this
  have "edges m cmp its (length d div 2) None d"
  proof -
    have False if "c < length d" "0 < c" "length d div 2 \<le> hq_parent c" for c
      using that by (simp add: hq_parent_def)
    then show ?thesis by (auto simp: edges_def)
  qed
  with loop [of "length d div 2" d] show ?thesis by (simp add: heapify_def)
qed

lemma root_least: "edges m cmp its 0 None d \<Longrightarrow> c < length d \<Longrightarrow> item_cmp m cmp its d 0 c \<le> 0"
proof (induction c rule: less_induct)
  case (less c)
  show ?case
  proof (cases "c = 0")
    case True
    then show ?thesis by (simp add: item_cmp_def cmp_refl)
  next
    case False
    then have "item_cmp m cmp its d 0 (hq_parent c) \<le> 0" "item_cmp m cmp its d (hq_parent c) c \<le> 0"
      using less parent_less [of c] by (auto simp: edges_def)
    then show ?thesis unfolding item_cmp_def by (rule cmp_trans)
  qed
qed

text \<open>Removing the top, or replacing the key of the top.\<close>

lemma edges_cong:
  assumes "\<And>c. c < length d \<Longrightarrow> hole \<noteq> Some c \<Longrightarrow> Key m (its' ! (d ! c)) = Key m (its ! (d ! c))"
    and "edges m cmp its lo None d" "\<And>j. hole = Some j \<Longrightarrow> j = 0"
  shows "edges m cmp its' lo hole d"
  unfolding edges_def
proof (intro allI impI)
  fix c assume c: "c < length d" "0 < c" "lo \<le> hq_parent c" "hole \<noteq> Some (hq_parent c)"
  have "Key m (its' ! (d ! c)) = Key m (its ! (d ! c))" using assms(1,3) c by blast
  moreover have "Key m (its' ! (d ! hq_parent c)) = Key m (its ! (d ! hq_parent c))"
    using assms(1) [of "hq_parent c"] c parent_less [of c] by simp
  ultimately show "item_cmp m cmp its' d (hq_parent c) c \<le> 0"
    using assms(2) c by (simp add: edges_def item_cmp_def)
qed

lemma edges_remove_top:
  assumes "edges m cmp its 0 (Some 0) d" "d \<noteq> []"
  shows "edges m cmp its 0 (Some 0) (butlast (d[0 := last d]))"
  unfolding edges_def
proof (intro allI impI)
  fix c assume c: "c < length (butlast (d[0 := last d]))" "0 < c" "Some 0 \<noteq> Some (hq_parent c)"
  then have "butlast (d[0 := last d]) ! c = d ! c" "butlast (d[0 := last d]) ! hq_parent c = d ! hq_parent c"
    using parent_less [of c] by (simp_all add: nth_butlast)
  with assms c show "item_cmp m cmp its (butlast (d[0 := last d])) (hq_parent c) c \<le> 0"
    by (simp add: edges_def item_cmp_def)
qed

lemma downheap_top: "edges m cmp its 0 (Some 0) d \<Longrightarrow> d \<noteq> [] \<Longrightarrow> edges m cmp its 0 None (downheap m cmp its 0 d)"
  by (intro downheap_edges) (auto simp: bridged_def)

lemma remove_top_inv:
  assumes "edges m cmp its 0 (Some 0) d" "d \<noteq> []" "distinct d"
  shows "edges m cmp its 0 None (remove_at m cmp its 0 d)" "distinct (remove_at m cmp its 0 d)"
    "set (remove_at m cmp its 0 d) = set d - {d ! 0}"
proof -
  let ?d = "butlast (d[0 := last d])"
  have parts: "distinct ?d \<and> set ?d = set d - {d ! 0}"
  proof (cases d rule: rev_cases)
    case (snoc ys y)
    show ?thesis using snoc assms(3) by (cases ys) (auto simp: butlast_append)
  qed (use assms(2) in simp)
  have "edges m cmp its 0 None (remove_at m cmp its 0 d) \<and> distinct (remove_at m cmp its 0 d) \<and>
      set (remove_at m cmp its 0 d) = set d - {d ! 0}"
  proof (cases "?d = []")
    case True
    then have "remove_at m cmp its 0 d = []" by (simp add: remove_at_def Let_def)
    with parts True show ?thesis by (simp add: edges_def)
  next
    case False
    have "0 < length ?d" unfolding length_greater_0_conv by (rule False)
    then have "remove_at m cmp its 0 d = downheap m cmp its 0 ?d" unfolding remove_at_def Let_def by (rule if_P)
    with parts downheap_top [OF edges_remove_top [OF assms(1,2)] False] show ?thesis by simp
  qed
  then show "edges m cmp its 0 None (remove_at m cmp its 0 d)" "distinct (remove_at m cmp its 0 d)"
    "set (remove_at m cmp its 0 d) = set d - {d ! 0}" by auto
qed

lemma hq_Advance_inv:
  assumes inv: "hq_inv m cmp h its" and w: "hq_Winner h = Some i" and n: "Next m (its ! i) = Some it"
  shows "\<exists>h'. hq_Advance m cmp i h its = Some (h', its[i := it]) \<and> hq_inv m cmp h' (its[i := it])"
proof -
  let ?d = "hq_data h" and ?its = "its[i := it]"
  have d: "?d \<noteq> []" "?d ! 0 = i" "distinct ?d" using w inv by (auto simp: hq_Winner_def hq_inv_def split: if_splits)
  then have i: "i \<in> set ?d" using nth_mem [of 0 ?d] by simp
  then have il: "i < length its" using inv by (simp add: hq_inv_def)
  have same: "?d[0 := i] = ?d" using d by (metis list_update_id)
  have "Key m (?its ! (?d ! c)) = Key m (its ! (?d ! c))" if "c < length ?d" "Some 0 \<noteq> Some c" for c
  proof -
    have "?d ! c \<noteq> i" using nth_eq_iff_index_eq [OF d(3) that(1), of 0] that(2) d(1,2) by auto
    then show ?thesis by simp
  qed
  then have e: "edges m cmp ?its 0 (Some 0) ?d"
    using inv by (intro edges_cong [of ?d "Some 0" m ?its its]) (auto simp: hq_inv_def)
  have sets: "{j. j < length ?its \<and> Valid m (?its ! j)} = (if Valid m it then set ?d else set ?d - {i})"
    using inv i il by (auto simp: hq_inv_def nth_list_update)
  show ?thesis
  proof (cases "Valid m it")
    case True
    then have "hq_Advance m cmp i h its = Some (h\<lparr>hq_data := downheap m cmp ?its 0 ?d\<rparr>, ?its)"
      using n d(1) same by (simp add: hq_Advance_def Let_def)
    with downheap_top [OF e d(1)] sets True d(3) show ?thesis by (simp add: hq_inv_def)
  next
    case False
    then have "hq_Advance m cmp i h its = Some (h\<lparr>hq_data := remove_at m cmp ?its 0 ?d\<rparr>, ?its)"
      using n d(1) by (simp add: hq_Advance_def Let_def)
    with remove_top_inv [OF e d(1,3)] sets False d(2) show ?thesis by (simp add: hq_inv_def)
  qed
qed

end

section \<open>The contract\<close>

lemma index_from_Some: "index_from k i d = Some idx \<Longrightarrow> k \<le> idx \<and> idx < k + length d \<and> d ! (idx - k) = i"
proof (induction d arbitrary: k)
  case (Cons x d)
  then show ?case by (cases "x = i") (fastforce simp: nth_Cons' Suc_diff_Suc)+
qed simp

lemma hq_contract:
  assumes "cmp_order cmp"
  shows "merge_structure cmp m (hq_methods m cmp) (hq_inv m cmp)"
proof (intro merge_structure.intro assms)
  show "merge_structure_axioms cmp m (hq_methods m cmp) (hq_inv m cmp)"
  proof
    fix h its i j it its'
    assume inv: "hq_inv m cmp h its"
    show "ms_Winner (hq_methods m cmp) h = Some i \<Longrightarrow> i < length its"
      using inv nth_mem [of 0 "hq_data h"] by (auto simp: hq_methods_def hq_Winner_def hq_inv_def split: if_splits)
    show "set (ms_Iterators (hq_methods m cmp) h) \<subseteq> {..< length its} \<and>
        (\<forall>i < length its. Valid m (its ! i) \<longrightarrow> i \<in> set (ms_Iterators (hq_methods m cmp) h))"
      using inv by (auto simp: hq_methods_def hq_Iterators_def hq_inv_def)
    show "ms_Winner (hq_methods m cmp) h = Some i \<Longrightarrow> Next m (its ! i) = Some it \<Longrightarrow>
        \<exists>t'. ms_Advance (hq_methods m cmp) i h its = Some (t', its[i := it]) \<and> hq_inv m cmp t' (its[i := it])"
      using cmp_order.hq_Advance_inv [OF assms inv] by (simp add: hq_methods_def)
    show "hq_inv m cmp (ms_Update (hq_methods m cmp) i h its) its"
    proof (cases "index_from 0 i (hq_data h)")
      case (Some idx)
      then have idx: "idx < length (hq_data h)" "hq_data h ! idx = i" using index_from_Some by force+
      then have v: "Valid m (its ! i)" using inv nth_mem [OF idx(1)] by (auto simp: hq_inv_def)
      have e: "edges m cmp its 0 None (hq_data h)" using inv by (simp add: hq_inv_def)
      from cmp_order.downheap_id [OF assms e idx(1)] cmp_order.upheap_id [OF assms e idx(1)] Some v inv
      show ?thesis by (simp add: hq_methods_def hq_Update_def)
    qed (use inv in \<open>simp add: hq_methods_def hq_Update_def\<close>)
    show "j < length its \<Longrightarrow> Valid m (its ! j) \<Longrightarrow> \<exists>i. ms_Winner (hq_methods m cmp) h = Some i \<and> Valid m (its ! i) \<and>
        cmp (Key m (its ! i)) (Key m (its ! j)) \<le> 0"
    proof -
      assume j: "j < length its" "Valid m (its ! j)"
      then have "j \<in> set (hq_data h)" using inv by (simp add: hq_inv_def)
      then obtain c where c: "c < length (hq_data h)" "hq_data h ! c = j" unfolding in_set_conv_nth by blast
      then have ne: "0 < length (hq_data h)" by (cases "hq_data h") simp_all
      then have "Valid m (its ! (hq_data h ! 0))" using inv nth_mem [OF ne] by (simp add: hq_inv_def)
      moreover have "hq_Winner h = Some (hq_data h ! 0)" using ne by (simp add: hq_Winner_def)
      moreover have "item_cmp m cmp its (hq_data h) 0 c \<le> 0"
        using inv by (intro cmp_order.root_least [OF assms] c) (simp add: hq_inv_def)
      ultimately show ?thesis using c by (simp add: hq_methods_def item_cmp_def)
    qed
    assume f: "same_front m its its'"
    have keys: "Key m (its' ! (hq_data h ! c)) = Key m (its ! (hq_data h ! c))" if "c < length (hq_data h)" for c
      using inv f nth_mem [OF that] by (auto simp: hq_inv_def same_front_def)
    have "edges m cmp its' 0 None (hq_data h)"
      using inv keys by (intro cmp_order.edges_cong [OF assms, of _ _ m its' its]) (auto simp: hq_inv_def)
    moreover have "{i. i < length its' \<and> Valid m (its' ! i)} = {i. i < length its \<and> Valid m (its ! i)}"
      using f by (auto simp: same_front_def)
    ultimately show "hq_inv m cmp h its'" using inv by (simp add: hq_inv_def)
  qed
qed

lemma NewHeap_inv:
  assumes "cmp_order cmp"
  shows "hq_inv m cmp (NewHeapPriorityQueue m cmp its) its"
proof -
  have m: "mset (fold (downheap m cmp its) js d) = mset d" for js d
    by (induction js arbitrary: d) (simp_all add: mset_downheap)
  let ?d = "filter (\<lambda>i. Valid m (its ! i)) [0 ..< length its]"
  have h: "mset (heapify m cmp its ?d) = mset ?d" by (simp add: heapify_def m)
  have "set (heapify m cmp its ?d) = set ?d" using h by (metis set_mset_mset)
  moreover have "distinct (heapify m cmp its ?d)"
    using mset_eq_imp_distinct_iff [OF h] by simp
  ultimately show ?thesis
    using cmp_order.heapify_edges [OF assms] by (auto simp: hq_inv_def NewHeapPriorityQueue_def)
qed

end
