(* ===== verification/Avl_Tree.thy ===== *)
theory Avl_Tree
  imports Iterators
begin

text \<open>
  The AVL tree of \<^verbatim>\<open>structures/avl_tree.go\<close> with its iterator, and the stack of \<^verbatim>\<open>structures/stack.go\<close>
  the iterator uses. Every node has one owner, so a node is the tree below it and a method that changes a
  node returns the changed tree. An iterator keeps the nodes of the tree it was created for; the model
  covers iterators that are used while the tree does not change.

  A height is a natural number: it starts at 1 and only ever becomes a maximum plus one. So a node whose
  balance is off by two has a child on its higher side, and no pointer below is \<^verbatim>\<open>nil\<close> when it is read.

  Shown here: stored heights are right and the tree stays balanced; insertion keeps the order of the
  elements and adds exactly one; deletion removes exactly the element asked for; the bounds are found; the
  iterator walks the elements in order in both directions, and \<^verbatim>\<open>Seek\<close> visits nodes twice.
\<close>

section \<open>Stack\<close>

text \<open>The slice of a stack, bottom first.\<close>

type_synonym 'a Stack = "'a list"

definition Stack_New :: "'a Stack" where
  "Stack_New = []"

definition Stack_Push :: "'a \<Rightarrow> 'a Stack \<Rightarrow> 'a Stack" where
  "Stack_Push v s = s @ [v]"

text \<open>An empty stack answers with the zero value of the element type, which is the first argument.\<close>

definition Stack_Pop :: "'a \<Rightarrow> 'a Stack \<Rightarrow> 'a \<times> 'a Stack" where
  "Stack_Pop zero s = (if s = [] then (zero, s) else (last s, butlast s))"

definition Stack_Peek :: "'a \<Rightarrow> 'a Stack \<Rightarrow> 'a" where
  "Stack_Peek zero s = (if s = [] then zero else last s)"

definition Stack_PeekBottom :: "'a \<Rightarrow> 'a Stack \<Rightarrow> 'a" where
  "Stack_PeekBottom zero s = (if s = [] then zero else s ! 0)"

definition Stack_Len :: "'a Stack \<Rightarrow> nat" where
  "Stack_Len s = length s"

definition Stack_Clear :: "'a Stack \<Rightarrow> 'a Stack" where
  "Stack_Clear s = []"

lemma stack_push_pop: "Stack_Pop zero (Stack_Push v s) = (v, s)" "Stack_Peek zero (Stack_Push v s) = v"
  by (simp_all add: Stack_Pop_def Stack_Push_def Stack_Peek_def)

section \<open>The tree\<close>

datatype 'a AVLTreeNode = AVL_nil | AVL_node 'a "'a AVLTreeNode" "'a AVLTreeNode" nat

record 'a AVLTree =
  avl_root :: "'a AVLTreeNode"
  avl_cmp :: "'a comparator"
  avl_cmpIgnoringSeqId :: "'a comparator"

definition NewAVLTreeNode :: "'a \<Rightarrow> 'a AVLTreeNode" where
  "NewAVLTreeNode key = AVL_node key AVL_nil AVL_nil 1"

definition NewAVLTree :: "'a comparator \<Rightarrow> 'a comparator \<Rightarrow> 'a AVLTree" where
  "NewAVLTree cmp cmpIgnoringSeqId =
     \<lparr>avl_root = AVL_nil, avl_cmp = cmp, avl_cmpIgnoringSeqId = cmpIgnoringSeqId\<rparr>"

fun avl_height :: "'a AVLTreeNode \<Rightarrow> nat" where
  "avl_height AVL_nil = 0"
| "avl_height (AVL_node key l r h) = h"

text \<open>A node with its height computed from its children.\<close>

definition with_height :: "'a \<Rightarrow> 'a AVLTreeNode \<Rightarrow> 'a AVLTreeNode \<Rightarrow> 'a AVLTreeNode" where
  "with_height key l r = AVL_node key l r (max (avl_height l) (avl_height r) + 1)"

fun leftRotate :: "'a AVLTreeNode \<Rightarrow> 'a AVLTreeNode" where
  "leftRotate (AVL_node xk xl (AVL_node yk yl yr yh) xh) = with_height yk (with_height xk xl yl) yr"
| "leftRotate x = x"

fun rightRotate :: "'a AVLTreeNode \<Rightarrow> 'a AVLTreeNode" where
  "rightRotate (AVL_node xk (AVL_node yk yl yr yh) xr xh) = with_height yk yl (with_height xk yr xr)"
| "rightRotate x = x"

fun leftRightRotate :: "'a AVLTreeNode \<Rightarrow> 'a AVLTreeNode" where
  "leftRightRotate (AVL_node k l r h) =
     (if l = AVL_nil then AVL_node k l r h else rightRotate (AVL_node k (leftRotate l) r h))"
| "leftRightRotate AVL_nil = AVL_nil"

fun rightLeftRotate :: "'a AVLTreeNode \<Rightarrow> 'a AVLTreeNode" where
  "rightLeftRotate (AVL_node k l r h) =
     (if r = AVL_nil then AVL_node k l r h else leftRotate (AVL_node k l (rightRotate r) h))"
| "rightLeftRotate AVL_nil = AVL_nil"

text \<open>\<^verbatim>\<open>height(node.left) - height(node.right)\<close>\<close>

fun avl_balance :: "'a AVLTreeNode \<Rightarrow> int" where
  "avl_balance AVL_nil = 0"
| "avl_balance (AVL_node key l r h) = int (avl_height l) - int (avl_height r)"

text \<open>\<open>key \<le> child.Key\<close> for the child that caused the imbalance.\<close>

fun key_at_most :: "'a comparator \<Rightarrow> 'a \<Rightarrow> 'a AVLTreeNode \<Rightarrow> bool" where
  "key_at_most cmp key (AVL_node k l r h) \<longleftrightarrow> cmp key k \<le> 0"
| "key_at_most cmp key AVL_nil \<longleftrightarrow> False"

fun rebalance_insert :: "'a comparator \<Rightarrow> 'a \<Rightarrow> 'a AVLTreeNode \<Rightarrow> 'a AVLTreeNode" where
  "rebalance_insert cmp key (AVL_node k l r h) =
     (let node = AVL_node k l r h; balance = avl_balance node in
      if 1 < balance \<and> key_at_most cmp key l then rightRotate node
      else if 1 < balance \<and> \<not> key_at_most cmp key l then leftRightRotate node
      else if balance < -1 \<and> \<not> key_at_most cmp key r then leftRotate node
      else if balance < -1 \<and> key_at_most cmp key r then rightLeftRotate node
      else node)"
| "rebalance_insert cmp key AVL_nil = AVL_nil"

fun insertNode :: "'a comparator \<Rightarrow> 'a AVLTreeNode \<Rightarrow> 'a \<Rightarrow> 'a AVLTreeNode" where
  "insertNode cmp AVL_nil key = NewAVLTreeNode key"
| "insertNode cmp (AVL_node k l r h) key =
     rebalance_insert cmp key
       (if cmp key k \<le> 0 then with_height k (insertNode cmp l key) r
        else with_height k l (insertNode cmp r key))"

definition AVL_Insert :: "'a \<Rightarrow> 'a AVLTree \<Rightarrow> 'a AVLTree" where
  "AVL_Insert key t = t\<lparr>avl_root := insertNode (avl_cmp t) (avl_root t) key\<rparr>"

fun lower_bound_loop :: "'a comparator \<Rightarrow> 'a \<Rightarrow> 'a AVLTreeNode \<Rightarrow> 'a option \<Rightarrow> 'a option" where
  "lower_bound_loop cmp key AVL_nil candidate = candidate"
| "lower_bound_loop cmp key (AVL_node k l r h) candidate =
     (if 0 \<le> cmp k key then lower_bound_loop cmp key l (Some k)
      else lower_bound_loop cmp key r candidate)"

definition AVL_LowerBound :: "'a AVLTree \<Rightarrow> 'a \<Rightarrow> 'a option" where
  "AVL_LowerBound t key = lower_bound_loop (avl_cmpIgnoringSeqId t) key (avl_root t) None"

fun upper_bound_loop :: "'a comparator \<Rightarrow> 'a \<Rightarrow> 'a AVLTreeNode \<Rightarrow> 'a option \<Rightarrow> 'a option" where
  "upper_bound_loop cmp key AVL_nil candidate = candidate"
| "upper_bound_loop cmp key (AVL_node k l r h) candidate =
     (if 0 < cmp k key then upper_bound_loop cmp key l (Some k)
      else upper_bound_loop cmp key r candidate)"

definition AVL_UpperBound :: "'a AVLTree \<Rightarrow> 'a \<Rightarrow> 'a option" where
  "AVL_UpperBound t key = upper_bound_loop (avl_cmp t) key (avl_root t) None"

text \<open>The leftmost key of a node; the second argument is the node's own key.\<close>

fun leftmost :: "'a AVLTreeNode \<Rightarrow> 'a \<Rightarrow> 'a" where
  "leftmost AVL_nil key = key"
| "leftmost (AVL_node k l r h) key = leftmost l k"

fun rebalance_delete :: "'a AVLTreeNode \<Rightarrow> 'a AVLTreeNode" where
  "rebalance_delete AVL_nil = AVL_nil"
| "rebalance_delete (AVL_node k l r h) =
     (let node = with_height k l r; balance = avl_balance node in
      if 1 < balance \<and> 0 \<le> avl_balance l then rightRotate node
      else if 1 < balance \<and> avl_balance l < 0 then leftRightRotate node
      else if balance < -1 \<and> avl_balance r \<le> 0 then leftRotate node
      else if balance < -1 \<and> 0 < avl_balance r then rightLeftRotate node
      else node)"

fun deleteNode :: "'a comparator \<Rightarrow> 'a AVLTreeNode \<Rightarrow> 'a \<Rightarrow> 'a AVLTreeNode" where
  "deleteNode cmp AVL_nil key = AVL_nil"
| "deleteNode cmp (AVL_node k l r h) key =
     rebalance_delete
       (if cmp key k < 0 then AVL_node k (deleteNode cmp l key) r h
        else if 0 < cmp key k then AVL_node k l (deleteNode cmp r key) h
        else if l = AVL_nil \<or> r = AVL_nil then (if l \<noteq> AVL_nil then l else r)
        else let successor = leftmost r k in AVL_node successor l (deleteNode cmp r successor) h)"

definition AVL_Delete :: "'a \<Rightarrow> 'a AVLTree \<Rightarrow> 'a AVLTree" where
  "AVL_Delete key t = t\<lparr>avl_root := deleteNode (avl_cmp t) (avl_root t) key\<rparr>"

fun inorder :: "'a AVLTreeNode \<Rightarrow> 'a list" where
  "inorder AVL_nil = []"
| "inorder (AVL_node k l r h) = inorder l @ k # inorder r"

definition AVL_Reset :: "'a AVLTree \<Rightarrow> 'a AVLTree" where
  "AVL_Reset t = t\<lparr>avl_root := AVL_nil\<rparr>"

fun sizeHelper :: "'a AVLTreeNode \<Rightarrow> nat" where
  "sizeHelper AVL_nil = 0"
| "sizeHelper (AVL_node k l r h) = 1 + sizeHelper l + sizeHelper r"

definition AVL_Size :: "'a AVLTree \<Rightarrow> nat" where
  "AVL_Size t = sizeHelper (avl_root t)"

section \<open>Balance\<close>

fun avl :: "'a AVLTreeNode \<Rightarrow> bool" where
  "avl AVL_nil \<longleftrightarrow> True"
| "avl (AVL_node k l r h) \<longleftrightarrow> avl l \<and> avl r \<and> h = max (avl_height l) (avl_height r) + 1 \<and>
     avl_height l \<le> avl_height r + 1 \<and> avl_height r \<le> avl_height l + 1"

lemma avl_height_0 [simp]: "avl t \<Longrightarrow> avl_height t = 0 \<longleftrightarrow> t = AVL_nil"
  by (cases t) auto

lemma with_height_simps [simp]:
  "avl_height (with_height k l r) = max (avl_height l) (avl_height r) + 1"
  "avl_balance (with_height k l r) = int (avl_height l) - int (avl_height r)"
  "inorder (with_height k l r) = inorder l @ k # inorder r"
  "with_height k l r \<noteq> AVL_nil"
  "avl (with_height k l r) \<longleftrightarrow> avl l \<and> avl r \<and> avl_height l \<le> avl_height r + 1 \<and> avl_height r \<le> avl_height l + 1"
  by (simp_all add: with_height_def)

lemma inorder_rotations [simp]:
  "inorder (leftRotate t) = inorder t" "inorder (rightRotate t) = inorder t"
  "inorder (leftRightRotate t) = inorder t" "inorder (rightLeftRotate t) = inorder t"
proof -
  show l: "inorder (leftRotate t) = inorder t" for t :: "'a AVLTreeNode"
    by (cases t rule: leftRotate.cases) auto
  show r: "inorder (rightRotate t) = inorder t" for t :: "'a AVLTreeNode"
    by (cases t rule: rightRotate.cases) auto
  show "inorder (leftRightRotate t) = inorder t" by (cases t) (auto simp: r l)
  show "inorder (rightLeftRotate t) = inorder t" by (cases t) (auto simp: r l)
qed

lemma inorder_rebalance_insert [simp]: "inorder (rebalance_insert cmp key t) = inorder t"
  by (cases t) (simp_all add: Let_def del: leftRightRotate.simps rightLeftRotate.simps)

lemma inorder_rebalance_delete [simp]: "inorder (rebalance_delete t) = inorder t"
  by (cases t) (simp_all add: Let_def)

text \<open>
  A height that grew decides the rotation: the side the key went to became higher by one, and the
  comparison with the child's key finds that side again.
\<close>

definition grown :: "'a comparator \<Rightarrow> 'a \<Rightarrow> 'a AVLTreeNode \<Rightarrow> 'a AVLTreeNode \<Rightarrow> bool" where
  "grown cmp key t t' \<longleftrightarrow>
     (case t of
        AVL_nil \<Rightarrow> avl_height t' = 1
      | AVL_node k l r h \<Rightarrow> \<exists>l' r'. t' = with_height k l' r' \<and>
          (if cmp key k \<le> 0 then avl_height l' = avl_height r' + 1 else avl_height r' = avl_height l' + 1))"

lemma rotate_left_heavy:
  assumes "avl l" "avl r" "avl_height l = avl_height r + 2" "l = with_height lk ll lr"
  shows "avl_height lr \<le> avl_height ll \<Longrightarrow> avl (rightRotate (with_height k l r)) \<and>
      avl_height (rightRotate (with_height k l r)) = (if avl_height ll = avl_height lr then avl_height l + 1 else avl_height l)"
    and "avl_height ll < avl_height lr \<Longrightarrow> avl (leftRightRotate (with_height k l r)) \<and>
      avl_height (leftRightRotate (with_height k l r)) = avl_height l"
proof -
  assume "avl_height lr \<le> avl_height ll"
  with assms show "avl (rightRotate (with_height k l r)) \<and>
      avl_height (rightRotate (with_height k l r)) = (if avl_height ll = avl_height lr then avl_height l + 1 else avl_height l)"
    by (auto simp: with_height_def max_def split: if_splits)
next
  assume hi: "avl_height ll < avl_height lr"
  then obtain k2 a b h where lr: "lr = AVL_node k2 a b h" by (cases lr) auto
  with hi assms show "avl (leftRightRotate (with_height k l r)) \<and>
      avl_height (leftRightRotate (with_height k l r)) = avl_height l"
    by (auto simp: with_height_def max_def split: if_splits)
qed

lemma rotate_right_heavy:
  assumes "avl l" "avl r" "avl_height r = avl_height l + 2" "r = with_height rk rl rr"
  shows "avl_height rl \<le> avl_height rr \<Longrightarrow> avl (leftRotate (with_height k l r)) \<and>
      avl_height (leftRotate (with_height k l r)) = (if avl_height rl = avl_height rr then avl_height r + 1 else avl_height r)"
    and "avl_height rr < avl_height rl \<Longrightarrow> avl (rightLeftRotate (with_height k l r)) \<and>
      avl_height (rightLeftRotate (with_height k l r)) = avl_height r"
proof -
  assume "avl_height rl \<le> avl_height rr"
  with assms show "avl (leftRotate (with_height k l r)) \<and>
      avl_height (leftRotate (with_height k l r)) = (if avl_height rl = avl_height rr then avl_height r + 1 else avl_height r)"
    by (auto simp: with_height_def max_def split: if_splits)
next
  assume hi: "avl_height rr < avl_height rl"
  then obtain k2 a b h where rl: "rl = AVL_node k2 a b h" by (cases rl) auto
  with hi assms show "avl (rightLeftRotate (with_height k l r)) \<and>
      avl_height (rightLeftRotate (with_height k l r)) = avl_height r"
    by (auto simp: with_height_def max_def split: if_splits)
qed

lemma rebalance_insert_even:
  "\<bar>int (avl_height l) - int (avl_height r)\<bar> \<le> 1 \<Longrightarrow>
   rebalance_insert cmp key (with_height k l r) = with_height k l r"
  by (auto simp: with_height_def Let_def)

lemma grown_node:
  "cmp key k \<le> 0 \<Longrightarrow> avl_height l' = avl_height r' + 1 \<Longrightarrow> grown cmp key (AVL_node k l r h) (with_height k l' r')"
  "\<not> cmp key k \<le> 0 \<Longrightarrow> avl_height r' = avl_height l' + 1 \<Longrightarrow> grown cmp key (AVL_node k l r h) (with_height k l' r')"
  by (auto simp: grown_def)

lemma rebalance_insert_left:
  assumes "avl l'" "avl r" "avl_height l' = avl_height r + 2" "grown cmp key l l'" "avl l" "avl_height l' = avl_height l + 1"
  shows "avl (rebalance_insert cmp key (with_height k l' r)) \<and>
    avl_height (rebalance_insert cmp key (with_height k l' r)) = avl_height l'"
proof (cases l)
  case AVL_nil
  with assms show ?thesis by (simp add: grown_def)
next
  case (AVL_node lk a b h)
  with assms(4) obtain ll lr where l': "l' = with_height lk ll lr"
    and hi: "if cmp key lk \<le> 0 then avl_height ll = avl_height lr + 1 else avl_height lr = avl_height ll + 1"
    by (auto simp: grown_def)
  have "rebalance_insert cmp key (with_height k l' r) =
      (if cmp key lk \<le> 0 then rightRotate (with_height k l' r) else leftRightRotate (with_height k l' r))"
    using assms(3) l' by (simp add: with_height_def Let_def)
  with rotate_left_heavy [OF assms(1-3) l', of k] hi show ?thesis by auto
qed

lemma rebalance_insert_right:
  assumes "avl l" "avl r'" "avl_height r' = avl_height l + 2" "grown cmp key r r'" "avl r" "avl_height r' = avl_height r + 1"
  shows "avl (rebalance_insert cmp key (with_height k l r')) \<and>
    avl_height (rebalance_insert cmp key (with_height k l r')) = avl_height r'"
proof (cases r)
  case AVL_nil
  with assms show ?thesis by (simp add: grown_def)
next
  case (AVL_node rk a b h)
  with assms(4) obtain rl rr where r': "r' = with_height rk rl rr"
    and hi: "if cmp key rk \<le> 0 then avl_height rl = avl_height rr + 1 else avl_height rr = avl_height rl + 1"
    by (auto simp: grown_def)
  have "rebalance_insert cmp key (with_height k l r') =
      (if cmp key rk \<le> 0 then rightLeftRotate (with_height k l r') else leftRotate (with_height k l r'))"
    using assms(3) r' by (simp add: with_height_def Let_def)
  with rotate_right_heavy [OF assms(1-3) r', of k] hi show ?thesis by auto
qed

lemma insertNode_avl:
  "avl t \<Longrightarrow> avl (insertNode cmp t key) \<and>
     (avl_height (insertNode cmp t key) = avl_height t \<or>
      avl_height (insertNode cmp t key) = avl_height t + 1 \<and> grown cmp key t (insertNode cmp t key))"
proof (induction t)
  case AVL_nil
  then show ?case by (simp add: NewAVLTreeNode_def grown_def)
next
  case (AVL_node k l r h)
  then have t: "avl l" "avl r" "h = max (avl_height l) (avl_height r) + 1"
    "avl_height l \<le> avl_height r + 1" "avl_height r \<le> avl_height l + 1" by auto
  show ?case
  proof (cases "cmp key k \<le> 0")
    case True
    note left = AVL_node.IH(1) [OF t(1)]
    have ins: "insertNode cmp (AVL_node k l r h) key = rebalance_insert cmp key (with_height k (insertNode cmp l key) r)"
      using True by simp
    show ?thesis
    proof (cases "avl_height (insertNode cmp l key) = avl_height r + 2")
      case big: True
      with left t have "grown cmp key l (insertNode cmp l key)"
        "avl_height (insertNode cmp l key) = avl_height l + 1" by auto
      from rebalance_insert_left [OF conjunct1 [OF left] t(2) big this(1) t(1) this(2), of k]
      show ?thesis unfolding ins using t big left by auto
    next
      case False
      then have "\<bar>int (avl_height (insertNode cmp l key)) - int (avl_height r)\<bar> \<le> 1" using left t by auto
      then show ?thesis unfolding ins
        using left t False grown_node(1) [of cmp key k, OF True] by (auto simp: rebalance_insert_even max_def)
    qed
  next
    case right: False
    note IH = AVL_node.IH(2) [OF t(2)]
    have ins: "insertNode cmp (AVL_node k l r h) key = rebalance_insert cmp key (with_height k l (insertNode cmp r key))"
      using right by simp
    show ?thesis
    proof (cases "avl_height (insertNode cmp r key) = avl_height l + 2")
      case big: True
      with IH t have "grown cmp key r (insertNode cmp r key)"
        "avl_height (insertNode cmp r key) = avl_height r + 1" by auto
      from rebalance_insert_right [OF t(1) conjunct1 [OF IH] big this(1) t(2) this(2), of k]
      show ?thesis unfolding ins using t big IH by auto
    next
      case False
      then have "\<bar>int (avl_height l) - int (avl_height (insertNode cmp r key))\<bar> \<le> 1" using IH t by auto
      then show ?thesis unfolding ins
        using IH t False grown_node(2) [of cmp key k, OF right] by (auto simp: rebalance_insert_even max_def)
    qed
  qed
qed

text \<open>Deletion lowers a subtree by at most one.\<close>

lemma rebalance_delete_avl:
  assumes "avl l" "avl r" "avl_height l \<le> avl_height r + 2" "avl_height r \<le> avl_height l + 2"
  shows "avl (rebalance_delete (AVL_node k l r h)) \<and>
    (avl_height (rebalance_delete (AVL_node k l r h)) = max (avl_height l) (avl_height r) + 1 \<or>
     avl_height (rebalance_delete (AVL_node k l r h)) = max (avl_height l) (avl_height r) \<and>
       (avl_height l = avl_height r + 2 \<or> avl_height r = avl_height l + 2))"
proof -
  consider "avl_height l = avl_height r + 2" | "avl_height r = avl_height l + 2"
    | "\<bar>int (avl_height l) - int (avl_height r)\<bar> \<le> 1" using assms by linarith
  then show ?thesis
  proof cases
    case 1
    then obtain lk ll lr where l: "l = with_height lk ll lr"
      using assms(1) by (cases l) (auto simp: with_height_def)
    have "rebalance_delete (AVL_node k l r h) =
        (if avl_height lr \<le> avl_height ll then rightRotate (with_height k l r) else leftRightRotate (with_height k l r))"
      using 1 by (simp add: Let_def) (simp add: l)
    with rotate_left_heavy [OF assms(1,2) 1 l, of k] 1 show ?thesis by auto
  next
    case 2
    then obtain rk rl rr where r: "r = with_height rk rl rr"
      using assms(2) by (cases r) (auto simp: with_height_def)
    have "rebalance_delete (AVL_node k l r h) =
        (if avl_height rl \<le> avl_height rr then leftRotate (with_height k l r) else rightLeftRotate (with_height k l r))"
      using 2 by (simp add: Let_def) (simp add: r)
    with rotate_right_heavy [OF assms(1,2) 2 r, of k] 2 show ?thesis by auto
  next
    case 3
    then have "rebalance_delete (AVL_node k l r h) = with_height k l r" by (auto simp: Let_def)
    moreover have "avl_height l \<le> avl_height r + 1 \<and> avl_height r \<le> avl_height l + 1" using 3 by linarith
    ultimately show ?thesis using assms by simp
  qed
qed

lemma rebalance_delete_id: "avl t \<Longrightarrow> rebalance_delete t = t"
  by (cases t) (auto simp: with_height_def)

lemma deleteNode_avl:
  "avl t \<Longrightarrow> avl (deleteNode cmp t key) \<and>
     avl_height (deleteNode cmp t key) \<le> avl_height t \<and> avl_height t \<le> avl_height (deleteNode cmp t key) + 1"
proof (induction t arbitrary: key)
  case (AVL_node k l r h)
  then have t: "avl l" "avl r" "h = max (avl_height l) (avl_height r) + 1"
    "avl_height l \<le> avl_height r + 1" "avl_height r \<le> avl_height l + 1" by auto
  note L = AVL_node.IH(1) [OF t(1)] and R = AVL_node.IH(2) [OF t(2)]
  let ?L = "deleteNode cmp l key" and ?R = "\<lambda>x. deleteNode cmp r x"
  have left: ?case if "deleteNode cmp (AVL_node k l r h) key = rebalance_delete (AVL_node k' ?L r h)" for k'
    using rebalance_delete_avl [of ?L r k' h] L [of key] t unfolding that by auto
  have right: ?case if "deleteNode cmp (AVL_node k l r h) key = rebalance_delete (AVL_node k' l (?R x) h)" for k' x
    using rebalance_delete_avl [of l "?R x" k' h] R [of x] t unfolding that by auto
  consider "cmp key k < 0" | "0 < cmp key k" | "cmp key k = 0" "l = AVL_nil \<or> r = AVL_nil"
    | "cmp key k = 0" "\<not> (l = AVL_nil \<or> r = AVL_nil)" by linarith
  then show ?case
  proof cases
    case 3
    then show ?thesis using t by (auto simp: rebalance_delete_id)
  next
    case 4
    then show ?thesis by (intro right) (auto simp: Let_def)
  qed (intro left right; simp)+
qed simp

declare rebalance_insert.simps [simp del] rebalance_delete.simps [simp del]

section \<open>Order\<close>

text \<open>
  \<open>insert_before\<close> puts an element in front of the first one that is not smaller. Two elements may compare
  equal; \<open>strictly\<close> sorted lists have none.
\<close>

definition insert_before :: "'a comparator \<Rightarrow> 'a \<Rightarrow> 'a list \<Rightarrow> 'a list" where
  "insert_before cmp key xs = takeWhile (\<lambda>x. 0 < cmp key x) xs @ key # dropWhile (\<lambda>x. 0 < cmp key x) xs"

definition strictly :: "'a comparator \<Rightarrow> 'a list \<Rightarrow> bool" where
  "strictly cmp = sorted_wrt (\<lambda>a b. cmp a b < 0)"

definition weakly :: "'a comparator \<Rightarrow> 'a list \<Rightarrow> bool" where
  "weakly cmp = sorted_wrt (\<lambda>a b. cmp a b \<le> 0)"

lemma strictly_weakly: "strictly cmp xs \<Longrightarrow> weakly cmp xs"
  unfolding strictly_def weakly_def by (rule sorted_wrt_mono_rel) auto

lemma mset_insert_before [simp]: "mset (insert_before cmp key xs) = add_mset key (mset xs)"
  unfolding insert_before_def by (induction xs) auto

lemma set_insert_before [simp]: "set (insert_before cmp key xs) = insert key (set xs)"
  by (metis mset_insert_before set_mset_mset set_mset_add_mset_insert)

context cmp_order
begin

lemma insert_before_weakly: "weakly cmp xs \<Longrightarrow> weakly cmp (insert_before cmp key xs)"
proof (induction xs)
  case (Cons x xs)
  then have IH: "weakly cmp (insert_before cmp key xs)" and x: "\<forall>y \<in> set xs. cmp x y \<le> 0"
    by (auto simp: weakly_def)
  show ?case
  proof (cases "0 < cmp key x")
    case True
    then have "cmp x key \<le> 0" by (simp add: cmp_not_less flip: cmp_sym)
    with IH x True show ?thesis
      using set_insert_before [of cmp key xs] by (auto simp: weakly_def insert_before_def)
  next
    case False
    with Cons.prems x cmp_trans [of key x] show ?thesis by (auto simp: weakly_def insert_before_def)
  qed
qed (simp add: weakly_def insert_before_def)

lemma insert_before_strictly:
  "strictly cmp xs \<Longrightarrow> \<forall>x \<in> set xs. cmp key x \<noteq> 0 \<Longrightarrow> strictly cmp (insert_before cmp key xs)"
proof (induction xs)
  case (Cons x xs)
  then have IH: "strictly cmp (insert_before cmp key xs)" and x: "\<forall>y \<in> set xs. cmp x y < 0"
    by (auto simp: strictly_def)
  show ?case
  proof (cases "0 < cmp key x")
    case True
    then have "cmp x key < 0" by (simp add: cmp_sym)
    with IH x True show ?thesis
      using set_insert_before [of cmp key xs] by (auto simp: strictly_def insert_before_def)
  next
    case False
    with Cons.prems(2) have "cmp key x < 0" by auto
    with False Cons.prems x cmp_less_trans [of key x] cmp_less_imp_le show ?thesis
      by (auto simp: strictly_def insert_before_def)
  qed
qed (simp add: strictly_def insert_before_def)

lemma insert_before_left:
  "cmp key k \<le> 0 \<Longrightarrow> insert_before cmp key (xs @ k # ys) = insert_before cmp key xs @ k # ys"
  by (induction xs) (auto simp: insert_before_def)

lemma insert_before_right:
  "weakly cmp (xs @ k # ys) \<Longrightarrow> 0 < cmp key k \<Longrightarrow>
   insert_before cmp key (xs @ k # ys) = xs @ k # insert_before cmp key ys"
proof (induction xs)
  case (Cons x xs)
  then have "cmp x k \<le> 0" by (simp add: weakly_def)
  with Cons.prems(2) have "0 < cmp key x"
    using cmp_le_less_trans [of x k key] cmp_sym [of k key] cmp_sym [of x key] by simp
  with Cons show ?case by (simp add: insert_before_def weakly_def)
qed (simp add: insert_before_def)

lemma inorder_insertNode:
  "weakly cmp (inorder t) \<Longrightarrow> inorder (insertNode cmp t key) = insert_before cmp key (inorder t)"
proof (induction t)
  case (AVL_node k l r h)
  then have "weakly cmp (inorder l)" "weakly cmp (inorder r)"
    by (auto simp: weakly_def sorted_wrt_append)
  with AVL_node show ?case
    using insert_before_right [of "inorder l" k "inorder r" key] by (auto simp: insert_before_left)
qed (simp add: NewAVLTreeNode_def insert_before_def)

lemma leftmost_inorder: "t \<noteq> AVL_nil \<Longrightarrow> inorder t = leftmost t k # tl (inorder t)"
proof (induction t arbitrary: k)
  case (AVL_node k1 l r h)
  then show ?case by (cases "l = AVL_nil") (auto, metis append_Cons list.sel(3))
qed simp

lemma inorder_deleteNode:
  "strictly cmp (inorder t) \<Longrightarrow> inorder (deleteNode cmp t key) = filter (\<lambda>x. cmp key x \<noteq> 0) (inorder t)"
proof (induction t arbitrary: key)
  case (AVL_node k l r h)
  then have l: "strictly cmp (inorder l)" and r: "strictly cmp (inorder r)"
    and lk: "\<forall>x \<in> set (inorder l). cmp x k < 0" and kr: "\<forall>x \<in> set (inorder r). cmp k x < 0"
    by (auto simp: strictly_def sorted_wrt_append)
  have keep_r: "filter (\<lambda>x. cmp key x \<noteq> 0) (inorder r) = inorder r" if "cmp key k \<le> 0"
  proof (rule filter_True, rule ballI)
    fix x assume "x \<in> set (inorder r)"
    with kr cmp_le_less_trans [OF that, of x] show "cmp key x \<noteq> 0" by simp
  qed
  have keep_l: "filter (\<lambda>x. cmp key x \<noteq> 0) (inorder l) = inorder l" if "0 \<le> cmp key k"
  proof (rule filter_True, rule ballI)
    fix x assume "x \<in> set (inorder l)"
    with lk cmp_less_trans [of x k key] that have "cmp x key < 0" by (simp add: cmp_flip_le)
    then show "cmp key x \<noteq> 0" by (simp add: cmp_sym)
  qed
  consider "cmp key k < 0" | "0 < cmp key k" | "cmp key k = 0" "l = AVL_nil \<or> r = AVL_nil"
    | "cmp key k = 0" "\<not> (l = AVL_nil \<or> r = AVL_nil)" by linarith
  then show ?case
  proof cases
    case 1
    with AVL_node.IH(1) [OF l, of key] keep_r show ?thesis by auto
  next
    case 2
    with AVL_node.IH(2) [OF r, of key] keep_l show ?thesis by auto
  next
    case 3
    with keep_l keep_r show ?thesis by auto
  next
    case 4
    define s where "s = leftmost r k"
    have rs: "inorder r = s # tl (inorder r)" using leftmost_inorder 4(2) by (auto simp: s_def)
    then have "\<forall>x \<in> set (tl (inorder r)). cmp s x < 0" using r
      by (metis (no_types, lifting) strictly_def sorted_wrt.simps(2))
    then have "filter (\<lambda>x. cmp s x \<noteq> 0) (inorder r) = tl (inorder r)"
      by (subst rs) (auto simp: cmp_refl intro!: filter_True)
    with AVL_node.IH(2) [OF r, of s] have "inorder (deleteNode cmp r s) = tl (inorder r)" by simp
    with 4 rs keep_l keep_r show ?thesis
      by (simp add: Let_def s_def [symmetric])
  qed
qed simp

lemma lower_bound_loop_find:
  assumes "weakly cmp (inorder t)"
  shows "lower_bound_loop cmp key t c =
    (case find (\<lambda>x. cmp key x \<le> 0) (inorder t) of None \<Rightarrow> c | Some x \<Rightarrow> Some x)"
  using assms
proof (induction t arbitrary: c)
  case (AVL_node k l r h)
  then have l: "weakly cmp (inorder l)" and r: "weakly cmp (inorder r)" and lk: "\<forall>x \<in> set (inorder l). cmp x k \<le> 0"
    by (auto simp: weakly_def sorted_wrt_append)
  have "find (\<lambda>x. cmp key x \<le> 0) (inorder l) = None" if "\<not> cmp key k \<le> 0"
    using lk that cmp_trans [of key _ k] by (auto simp: find_None_iff)
  with AVL_node.IH(1) [OF l] AVL_node.IH(2) [OF r] show ?case
    by (auto simp: cmp_flip_le find_append split: option.splits)
qed simp

lemma upper_bound_loop_find:
  assumes "weakly cmp (inorder t)"
  shows "upper_bound_loop cmp key t c =
    (case find (\<lambda>x. cmp key x < 0) (inorder t) of None \<Rightarrow> c | Some x \<Rightarrow> Some x)"
  using assms
proof (induction t arbitrary: c)
  case (AVL_node k l r h)
  then have l: "weakly cmp (inorder l)" and r: "weakly cmp (inorder r)" and lk: "\<forall>x \<in> set (inorder l). cmp x k \<le> 0"
    by (auto simp: weakly_def sorted_wrt_append)
  have "find (\<lambda>x. cmp key x < 0) (inorder l) = None" if "\<not> cmp key k < 0"
    using lk that cmp_less_trans [of key _ k] by (auto simp: find_None_iff)
  with AVL_node.IH(1) [OF l] AVL_node.IH(2) [OF r] show ?case
    by (auto simp: cmp_sym find_append split: option.splits)
qed simp

end

section \<open>Iterator\<close>

record 'a AVLTreeIterator =
  ai_tree :: "'a AVLTree"
  ai_current :: "'a AVLTreeNode"
  ai_stackOfParents :: "('a AVLTreeNode \<times> bool) Stack"

definition AVL_Iterator :: "'a AVLTree \<Rightarrow> 'a AVLTreeIterator" where
  "AVL_Iterator t = \<lparr>ai_tree = t, ai_current = AVL_nil, ai_stackOfParents = Stack_New\<rparr>"

definition AVLIter_Valid :: "'a AVLTreeIterator \<Rightarrow> bool" where
  "AVLIter_Valid it \<longleftrightarrow> ai_current it \<noteq> AVL_nil"

text \<open>Walking down to the leftmost or rightmost node, remembering the nodes passed.\<close>

fun descend_left :: "'a AVLTreeNode \<Rightarrow> ('a AVLTreeNode \<times> bool) Stack \<Rightarrow> 'a AVLTreeNode \<times> ('a AVLTreeNode \<times> bool) Stack" where
  "descend_left AVL_nil st = (AVL_nil, st)"
| "descend_left (AVL_node k l r h) st =
     (if l = AVL_nil then (AVL_node k l r h, st) else descend_left l (Stack_Push (AVL_node k l r h, True) st))"

fun descend_right :: "'a AVLTreeNode \<Rightarrow> ('a AVLTreeNode \<times> bool) Stack \<Rightarrow> 'a AVLTreeNode \<times> ('a AVLTreeNode \<times> bool) Stack" where
  "descend_right AVL_nil st = (AVL_nil, st)"
| "descend_right (AVL_node k l r h) st =
     (if r = AVL_nil then (AVL_node k l r h, st) else descend_right r (Stack_Push (AVL_node k l r h, False) st))"

text \<open>Popping parents until one that was left on the given side.\<close>

function pop_until :: "bool \<Rightarrow> ('a AVLTreeNode \<times> bool) Stack \<Rightarrow> 'a AVLTreeNode \<times> ('a AVLTreeNode \<times> bool) Stack" where
  "pop_until side st =
     (if 0 < Stack_Len st then
        let (entry, st') = Stack_Pop (AVL_nil, False) st in
        if snd entry = side then (fst entry, st') else pop_until side st'
      else (AVL_nil, st))"
  by pat_completeness auto
termination
  by (relation "measure (\<lambda>(side, st). length st)") (auto simp: Stack_Pop_def Stack_Len_def)

declare pop_until.simps [simp del]

definition move_to :: "'a AVLTreeIterator \<Rightarrow> 'a AVLTreeNode \<times> ('a AVLTreeNode \<times> bool) Stack \<Rightarrow> 'a AVLTreeIterator" where
  "move_to it p = it\<lparr>ai_current := fst p, ai_stackOfParents := snd p\<rparr>"

definition AVLIter_SeekToFirst :: "'a AVLTreeIterator \<Rightarrow> 'a AVLTreeIterator" where
  "AVLIter_SeekToFirst it =
     move_to it (descend_left (avl_root (ai_tree it)) (Stack_Clear (ai_stackOfParents it)))"

definition AVLIter_SeekToLast :: "'a AVLTreeIterator \<Rightarrow> 'a AVLTreeIterator" where
  "AVLIter_SeekToLast it =
     move_to it (descend_right (avl_root (ai_tree it)) (Stack_Clear (ai_stackOfParents it)))"

definition AVLIter_Next :: "'a AVLTreeIterator \<Rightarrow> 'a AVLTreeIterator" where
  "AVLIter_Next it =
     (case ai_current it of
        AVL_nil \<Rightarrow> it
      | AVL_node k l r h \<Rightarrow>
          if r \<noteq> AVL_nil then move_to it (descend_left r (Stack_Push (ai_current it, False) (ai_stackOfParents it)))
          else move_to it (pop_until True (ai_stackOfParents it)))"

definition AVLIter_Prev :: "'a AVLTreeIterator \<Rightarrow> 'a AVLTreeIterator" where
  "AVLIter_Prev it =
     (case ai_current it of
        AVL_nil \<Rightarrow> it
      | AVL_node k l r h \<Rightarrow>
          if l \<noteq> AVL_nil then move_to it (descend_right l (Stack_Push (ai_current it, True) (ai_stackOfParents it)))
          else move_to it (pop_until False (ai_stackOfParents it)))"

fun avl_seek_loop ::
  "'a comparator \<Rightarrow> 'a \<Rightarrow> 'a AVLTreeNode \<Rightarrow> 'a AVLTreeNode \<times> ('a AVLTreeNode \<times> bool) Stack \<Rightarrow> 'a AVLTreeNode \<times> ('a AVLTreeNode \<times> bool) Stack" where
  "avl_seek_loop cmp key AVL_nil (current, st) = (current, st)"
| "avl_seek_loop cmp key (AVL_node k l r h) (current, st) =
     (let node = AVL_node k l r h in
      if 0 \<le> cmp k key
      then avl_seek_loop cmp key l (node, if l \<noteq> AVL_nil then Stack_Push (node, True) st else st)
      else avl_seek_loop cmp key r (current, if r \<noteq> AVL_nil then Stack_Push (node, False) st else st))"

definition AVLIter_Seek :: "'a \<Rightarrow> 'a AVLTreeIterator \<Rightarrow> 'a AVLTreeIterator" where
  "AVLIter_Seek key it =
     move_to it (avl_seek_loop (avl_cmpIgnoringSeqId (ai_tree it)) key (avl_root (ai_tree it))
       (AVL_nil, Stack_Clear (ai_stackOfParents it)))"

definition AVLIter_Key :: "'a \<Rightarrow> 'a AVLTreeIterator \<Rightarrow> 'a" where
  "AVLIter_Key zero it = (case ai_current it of AVL_nil \<Rightarrow> zero | AVL_node k l r h \<Rightarrow> k)"

text \<open>The methods of the iterator as an interface value; \<open>zero\<close> is the zero value of the element type.\<close>

definition avl_methods :: "'a \<Rightarrow> ('a AVLTreeIterator, 'a) Iterator" where
  "avl_methods zero = \<lparr>Valid = AVLIter_Valid, SeekToFirst = Some \<circ> AVLIter_SeekToFirst,
     Seek = (\<lambda>key. Some \<circ> AVLIter_Seek key), Next = Some \<circ> AVLIter_Next, Key = AVLIter_Key zero\<rparr>"

definition AVL_EntriesInOrder :: "'a \<Rightarrow> 'a AVLTree \<Rightarrow> 'a list option" where
  "AVL_EntriesInOrder zero t = collect (avl_methods zero) (AVLIter_SeekToFirst (AVL_Iterator t))"

subsection \<open>Forward and backward\<close>

text \<open>The elements from a node on, within its subtree and from the parents that wait on the stack.\<close>

fun from_node :: "'a AVLTreeNode \<Rightarrow> 'a list" where
  "from_node AVL_nil = []"
| "from_node (AVL_node k l r h) = k # inorder r"

fun back_node :: "'a AVLTreeNode \<Rightarrow> 'a list" where
  "back_node AVL_nil = []"
| "back_node (AVL_node k l r h) = k # rev (inorder l)"

definition pending :: "('a AVLTreeNode \<times> bool) Stack \<Rightarrow> 'a list" where
  "pending st = concat (map (\<lambda>(n, left). if left then from_node n else []) (rev st))"

definition pending_back :: "('a AVLTreeNode \<times> bool) Stack \<Rightarrow> 'a list" where
  "pending_back st = concat (map (\<lambda>(n, left). if left then [] else back_node n) (rev st))"

definition avl_ahead :: "'a AVLTreeIterator \<Rightarrow> 'a list" where
  "avl_ahead it = (if ai_current it = AVL_nil then [] else from_node (ai_current it) @ pending (ai_stackOfParents it))"

definition avl_behind :: "'a AVLTreeIterator \<Rightarrow> 'a list" where
  "avl_behind it = (if ai_current it = AVL_nil then [] else back_node (ai_current it) @ pending_back (ai_stackOfParents it))"

lemma pending_simps [simp]:
  "pending [] = []" "pending (Stack_Push (n, True) st) = from_node n @ pending st"
  "pending (Stack_Push (n, False) st) = pending st"
  "pending_back [] = []" "pending_back (Stack_Push (n, False) st) = back_node n @ pending_back st"
  "pending_back (Stack_Push (n, True) st) = pending_back st"
  by (simp_all add: pending_def pending_back_def Stack_Push_def)

lemma descend_left_spec:
  "t \<noteq> AVL_nil \<Longrightarrow> fst (descend_left t st) \<noteq> AVL_nil \<and>
   from_node (fst (descend_left t st)) @ pending (snd (descend_left t st)) = inorder t @ pending st"
  by (induction t arbitrary: st) auto

lemma descend_right_spec:
  "t \<noteq> AVL_nil \<Longrightarrow> fst (descend_right t st) \<noteq> AVL_nil \<and>
   back_node (fst (descend_right t st)) @ pending_back (snd (descend_right t st)) = rev (inorder t) @ pending_back st"
  by (induction t arbitrary: st) auto

text \<open>No parent on the stack is \<^verbatim>\<open>nil\<close>.\<close>

definition parents_ok :: "('a AVLTreeNode \<times> bool) Stack \<Rightarrow> bool" where
  "parents_ok st \<longleftrightarrow> (\<forall>e \<in> set st. fst e \<noteq> AVL_nil)"

lemma stack_cases: obtains "st = ([] :: 'a Stack)" | e st' where "st = Stack_Push e st'"
  by (metis Stack_Push_def rev_exhaust)

lemma pop_until_simps [simp]:
  "pop_until side [] = (AVL_nil, [])"
  "pop_until side (Stack_Push e st) = (if snd e = side then (fst e, st) else pop_until side st)"
  by (subst pop_until.simps; simp add: Stack_Len_def Stack_Pop_def Stack_Push_def)+

lemma parents_ok_simps [simp]:
  "parents_ok []" "parents_ok (Stack_Push (n, b) st) \<longleftrightarrow> n \<noteq> AVL_nil \<and> parents_ok st"
  by (auto simp: parents_ok_def Stack_Push_def)

lemma stack_induct [case_names Nil Push]:
  "P [] \<Longrightarrow> (\<And>e st. P st \<Longrightarrow> P (Stack_Push e st)) \<Longrightarrow> P st"
  by (induction st rule: rev_induct) (auto simp: Stack_Push_def)

lemma pop_until_pending:
  "parents_ok st \<Longrightarrow>
   (if fst (pop_until True st) = AVL_nil then []
    else from_node (fst (pop_until True st)) @ pending (snd (pop_until True st))) = pending st"
proof (induction st rule: stack_induct)
  case (Push e st)
  then show ?case by (cases e; cases "snd e") auto
qed simp

lemma pop_until_pending_back:
  "parents_ok st \<Longrightarrow>
   (if fst (pop_until False st) = AVL_nil then []
    else back_node (fst (pop_until False st)) @ pending_back (snd (pop_until False st))) = pending_back st"
proof (induction st rule: stack_induct)
  case (Push e st)
  then show ?case by (cases e; cases "snd e") auto
qed simp

lemma pop_until_ok: "parents_ok st \<Longrightarrow> parents_ok (snd (pop_until side st))"
proof (induction st rule: stack_induct)
  case (Push e st)
  then show ?case by (cases e) auto
qed simp

lemma descend_ok:
  "parents_ok st \<Longrightarrow> parents_ok (snd (descend_left t st))"
  "parents_ok st \<Longrightarrow> parents_ok (snd (descend_right t st))"
  by (induction t arbitrary: st) auto

abbreviation iter_ok :: "'a AVLTreeIterator \<Rightarrow> bool" where
  "iter_ok it \<equiv> parents_ok (ai_stackOfParents it)"

lemma AVLIter_Next_ahead:
  assumes "iter_ok it" "AVLIter_Valid it"
  shows "avl_ahead (AVLIter_Next it) = tl (avl_ahead it)" "iter_ok (AVLIter_Next it)"
proof -
  obtain k l r h where c: "ai_current it = AVL_node k l r h"
    using assms(2) by (cases "ai_current it") (auto simp: AVLIter_Valid_def)
  show "avl_ahead (AVLIter_Next it) = tl (avl_ahead it)"
    using descend_left_spec [of r "Stack_Push (ai_current it, False) (ai_stackOfParents it)"]
      pop_until_pending [OF assms(1)] c
    by (auto simp: AVLIter_Next_def avl_ahead_def move_to_def)
  show "iter_ok (AVLIter_Next it)"
    using assms(1) c by (auto simp: AVLIter_Next_def move_to_def intro!: descend_ok pop_until_ok)
qed

lemma AVLIter_Prev_behind:
  assumes "iter_ok it" "AVLIter_Valid it"
  shows "avl_behind (AVLIter_Prev it) = tl (avl_behind it)" "iter_ok (AVLIter_Prev it)"
proof -
  obtain k l r h where c: "ai_current it = AVL_node k l r h"
    using assms(2) by (cases "ai_current it") (auto simp: AVLIter_Valid_def)
  show "avl_behind (AVLIter_Prev it) = tl (avl_behind it)"
    using descend_right_spec [of l "Stack_Push (ai_current it, True) (ai_stackOfParents it)"]
      pop_until_pending_back [OF assms(1)] c
    by (auto simp: AVLIter_Prev_def avl_behind_def move_to_def)
  show "iter_ok (AVLIter_Prev it)"
    using assms(1) c by (auto simp: AVLIter_Prev_def move_to_def intro!: descend_ok pop_until_ok)
qed

text \<open>An exhausted iterator stays exhausted.\<close>

lemma AVLIter_Next_total:
  "iter_ok it \<Longrightarrow> avl_ahead (AVLIter_Next it) = tl (avl_ahead it)" "iter_ok it \<Longrightarrow> iter_ok (AVLIter_Next it)"
proof -
  have idle: "AVLIter_Next it = it" "avl_ahead it = []" if "\<not> AVLIter_Valid it"
    using that by (simp_all add: AVLIter_Valid_def AVLIter_Next_def avl_ahead_def)
  show "iter_ok it \<Longrightarrow> avl_ahead (AVLIter_Next it) = tl (avl_ahead it)"
    using idle AVLIter_Next_ahead(1) by (cases "AVLIter_Valid it") simp_all
  show "iter_ok it \<Longrightarrow> iter_ok (AVLIter_Next it)"
    using idle(1) AVLIter_Next_ahead(2) by (cases "AVLIter_Valid it") simp_all
qed

lemma AVLIter_Prev_total:
  "iter_ok it \<Longrightarrow> avl_behind (AVLIter_Prev it) = tl (avl_behind it)" "iter_ok it \<Longrightarrow> iter_ok (AVLIter_Prev it)"
proof -
  have idle: "AVLIter_Prev it = it" "avl_behind it = []" if "\<not> AVLIter_Valid it"
    using that by (simp_all add: AVLIter_Valid_def AVLIter_Prev_def avl_behind_def)
  show "iter_ok it \<Longrightarrow> avl_behind (AVLIter_Prev it) = tl (avl_behind it)"
    using idle AVLIter_Prev_behind(1) by (cases "AVLIter_Valid it") simp_all
  show "iter_ok it \<Longrightarrow> iter_ok (AVLIter_Prev it)"
    using idle(1) AVLIter_Prev_behind(2) by (cases "AVLIter_Valid it") simp_all
qed

lemma sizeHelper_length: "sizeHelper t = length (inorder t)"
  by (induction t) auto

lemma AVLIter_SeekToFirst_ahead:
  "avl_ahead (AVLIter_SeekToFirst it) = inorder (avl_root (ai_tree it))" "iter_ok (AVLIter_SeekToFirst it)"
  using descend_left_spec [of "avl_root (ai_tree it)" "[]"] descend_ok(1) [of "[]"]
  by (cases "avl_root (ai_tree it) = AVL_nil"; auto simp: AVLIter_SeekToFirst_def avl_ahead_def move_to_def Stack_Clear_def)+

lemma iterator_tree [simp]:
  "ai_tree (AVLIter_SeekToFirst it) = ai_tree it" "ai_tree (AVLIter_Next it) = ai_tree it"
  by (auto simp: AVLIter_SeekToFirst_def AVLIter_Next_def move_to_def split: AVLTreeNode.splits)

interpretation avl_iter: rewindable_iterator "avl_methods zero" iter_ok avl_ahead "\<lambda>it. inorder (avl_root (ai_tree it))" for zero :: 'a
proof
  fix it :: "'a AVLTreeIterator"
  show "Valid (avl_methods zero) it \<longleftrightarrow> avl_ahead it \<noteq> []"
    by (cases "ai_current it") (auto simp: avl_methods_def AVLIter_Valid_def avl_ahead_def)
  show "Valid (avl_methods zero) it \<Longrightarrow> Key (avl_methods zero) it = hd (avl_ahead it)"
    by (cases "ai_current it") (auto simp: avl_methods_def AVLIter_Valid_def AVLIter_Key_def avl_ahead_def)
qed (auto simp: avl_methods_def AVLIter_Next_ahead AVLIter_SeekToFirst_ahead)

lemma AVLIter_SeekToLast_behind:
  "avl_behind (AVLIter_SeekToLast it) = rev (inorder (avl_root (ai_tree it)))" "iter_ok (AVLIter_SeekToLast it)"
  using descend_right_spec [of "avl_root (ai_tree it)" "[]"] descend_ok(2) [of "[]"]
  by (cases "avl_root (ai_tree it) = AVL_nil"; auto simp: AVLIter_SeekToLast_def avl_behind_def move_to_def Stack_Clear_def)+

lemma AVL_EntriesInOrder_inorder: "AVL_EntriesInOrder zero t = Some (inorder (avl_root t))"
  unfolding AVL_EntriesInOrder_def
  by (simp add: avl_iter.collect_ahead AVLIter_SeekToFirst_ahead AVL_Iterator_def)

subsection \<open>Seek\<close>

text \<open>
  The loop pushes a node that is not smaller than the key before it looks at its left subtree, also when it
  finds nothing there: then that node is the result and waits on the stack as well.
\<close>

definition seek_result :: "'a comparator \<Rightarrow> 'a \<Rightarrow> 'a list \<Rightarrow> 'a AVLTreeNode \<times> ('a AVLTreeNode \<times> bool) Stack \<Rightarrow> bool" where
  "seek_result cmp key xs p \<longleftrightarrow>
     (\<exists>k l r h rest. fst p = AVL_node k l r h \<and> dropWhile (\<lambda>x. cmp x key < 0) xs = (k # inorder r) @ rest \<and>
        pending (snd p) = (if l = AVL_nil then [] else k # inorder r) @ rest)"

context cmp_order
begin

lemma avl_seek_loop_smaller:
  "\<forall>x \<in> set (inorder t). cmp x key < 0 \<Longrightarrow>
   fst (avl_seek_loop cmp key t (c, st)) = c \<and> pending (snd (avl_seek_loop cmp key t (c, st))) = pending st"
  by (induction t arbitrary: c st) (auto simp: Let_def)

lemma avl_seek_loop_found:
  "weakly cmp (inorder t) \<Longrightarrow> \<exists>x \<in> set (inorder t). 0 \<le> cmp x key \<Longrightarrow>
   seek_result cmp key (inorder t @ pending st) (avl_seek_loop cmp key t (c, st))"
proof (induction t arbitrary: c st)
  case (AVL_node k l r h)
  let ?n = "AVL_node k l r h"
  from AVL_node.prems have l: "weakly cmp (inorder l)" and r: "weakly cmp (inorder r)"
    and lk: "\<forall>x \<in> set (inorder l). cmp x k \<le> 0" by (auto simp: weakly_def sorted_wrt_append)
  show ?case
  proof (cases "0 \<le> cmp k key")
    case True
    define st' where "st' = (if l \<noteq> AVL_nil then Stack_Push (?n, True) st else st)"
    have step: "avl_seek_loop cmp key ?n (c, st) = avl_seek_loop cmp key l (?n, st')"
      using True by (simp add: Let_def st'_def)
    show ?thesis
    proof (cases "\<forall>x \<in> set (inorder l). cmp x key < 0")
      case small: True
      then have "dropWhile (\<lambda>x. cmp x key < 0) (inorder l @ ys) = dropWhile (\<lambda>x. cmp x key < 0) ys" for ys
        by (auto simp: dropWhile_append2)
      with avl_seek_loop_smaller [OF small, of ?n st'] True show ?thesis
        unfolding step seek_result_def by (auto simp: st'_def)
    next
      case False
      then have "\<exists>x \<in> set (inorder l). 0 \<le> cmp x key" and nil: "l \<noteq> AVL_nil" by (auto simp: not_less)
      from AVL_node.IH(1) [OF l this(1), of st' ?n] nil show ?thesis unfolding step by (simp add: st'_def)
    qed
  next
    case False
    define st' where "st' = (if r \<noteq> AVL_nil then Stack_Push (?n, False) st else st)"
    have step: "avl_seek_loop cmp key ?n (c, st) = avl_seek_loop cmp key r (c, st')"
      using False by (simp add: Let_def st'_def)
    have small: "\<forall>x \<in> set (inorder l). cmp x key < 0"
      using lk False cmp_le_less_trans [of _ k key] by auto
    with False AVL_node.prems(2) have ex: "\<exists>x \<in> set (inorder r). 0 \<le> cmp x key" by force
    have drop: "dropWhile (\<lambda>x. cmp x key < 0) (inorder ?n @ pending st) =
        dropWhile (\<lambda>x. cmp x key < 0) (inorder r @ pending st)"
      using small False by (simp add: dropWhile_append2)
    have "pending st' = pending st" by (simp add: st'_def)
    with AVL_node.IH(2) [OF r ex, of st' c] have "seek_result cmp key (inorder r @ pending st) (avl_seek_loop cmp key r (c, st'))"
      by simp
    then show ?thesis unfolding step seek_result_def drop .
  qed
qed simp

end

section \<open>Properties\<close>

text \<open>The invariant of a tree whose elements all differ under its comparator.\<close>

definition avl_inv :: "'a AVLTree \<Rightarrow> bool" where
  "avl_inv t \<longleftrightarrow> avl (avl_root t) \<and> strictly (avl_cmp t) (inorder (avl_root t))"

text \<open>C4: The AVL tree keeps its invariant: stored heights are right, the two subtrees of every node differ in
  height by at most one, and the elements are in the order of the comparator. Inserting an element that is not
  there yet adds exactly this element at its place; deleting removes exactly the element that compares equal
  and nothing when there is none; the lower bound is the first element that is not smaller under the
  comparator without sequence numbers.\<close>

theorem avl_operations:
  assumes ord: "cmp_order (avl_cmp t)" "cmp_order (avl_cmpIgnoringSeqId t)" and inv: "avl_inv t"
    and coarser: "\<And>a b. avl_cmp t a b \<le> 0 \<Longrightarrow> avl_cmpIgnoringSeqId t a b \<le> 0"
  shows "((\<forall>x \<in> set (inorder (avl_root t)). avl_cmp t key x \<noteq> 0) \<longrightarrow>
        avl_inv (AVL_Insert key t) \<and>
        inorder (avl_root (AVL_Insert key t)) = insert_before (avl_cmp t) key (inorder (avl_root t))) \<and>
    avl_inv (AVL_Delete key t) \<and>
    inorder (avl_root (AVL_Delete key t)) = filter (\<lambda>x. avl_cmp t key x \<noteq> 0) (inorder (avl_root t)) \<and>
    AVL_LowerBound t key = find (\<lambda>x. avl_cmpIgnoringSeqId t key x \<le> 0) (inorder (avl_root t)) \<and>
    AVL_UpperBound t key = find (\<lambda>x. avl_cmp t key x < 0) (inorder (avl_root t)) \<and>
    AVL_Size t = length (inorder (avl_root t))"
proof -
  note c = ord(1) and ci = ord(2)
  have s: "strictly (avl_cmp t) (inorder (avl_root t))" and b: "avl (avl_root t)"
    using inv by (auto simp: avl_inv_def)
  have weak: "weakly (avl_cmpIgnoringSeqId t) (inorder (avl_root t))"
    using s coarser unfolding strictly_def weakly_def by (elim sorted_wrt_mono_rel [rotated]) auto
  show ?thesis
    using cmp_order.inorder_insertNode [OF c strictly_weakly [OF s], of key]
      cmp_order.insert_before_strictly [OF c s, of key] insertNode_avl [OF b, of "avl_cmp t" key]
      cmp_order.inorder_deleteNode [OF c s, of key] deleteNode_avl [OF b, of "avl_cmp t" key]
      cmp_order.lower_bound_loop_find [OF ci weak, of key None]
      cmp_order.upper_bound_loop_find [OF c strictly_weakly [OF s], of key None] s
    by (auto simp: avl_inv_def AVL_Insert_def AVL_Delete_def AVL_LowerBound_def AVL_UpperBound_def AVL_Size_def sizeHelper_length
        strictly_def sorted_wrt_filter split: option.splits)
qed

theorem avl_operations_witness:
  "let t = AVL_Insert [2] (AVL_Insert [1] (NewAVLTree bytes_Compare bytes_Compare)) in
     avl_inv (AVL_Insert [3] t) \<and> inorder (avl_root (AVL_Insert [3] t)) = [[1], [2], [3]] \<and>
     inorder (avl_root (AVL_Delete [2] (AVL_Insert [3] t))) = [[1], [3]] \<and> AVL_LowerBound t [2] = Some [2]"
proof -
  let ?t = "AVL_Insert [2] (AVL_Insert [1] (NewAVLTree bytes_Compare bytes_Compare))"
  have t: "avl_cmp ?t = bytes_Compare" "avl_cmpIgnoringSeqId ?t = bytes_Compare" "inorder (avl_root ?t) = [[1], [2]]"
    "avl_inv ?t" by (simp add: AVL_Insert_def NewAVLTree_def, simp add: AVL_Insert_def NewAVLTree_def, code_simp+)
  let ?u = "AVL_Insert [3] ?t"
  have u: "avl_cmp ?u = bytes_Compare" "avl_cmpIgnoringSeqId ?u = bytes_Compare"
    by (simp_all add: AVL_Insert_def NewAVLTree_def)
  have i: "avl_inv ?u \<and> inorder (avl_root ?u) = [[1], [2], [3]] \<and> AVL_LowerBound ?t [2] = Some [2]"
    using avl_operations [of ?t "[3]"] avl_operations [of ?t "[2]"] t bytes_order.cmp_order_axioms
    by (simp add: insert_before_def bytes_Compare_def)
  moreover have "inorder (avl_root (AVL_Delete [2] ?u)) = [[1], [3]]"
    using avl_operations [of ?u "[2]"] u i bytes_order.cmp_order_axioms by (simp add: bytes_Compare_def)
  ultimately show ?thesis by (simp add: Let_def)
qed

text \<open>C32: The iterator of the AVL tree walks the elements in order: from the first one with \<^verbatim>\<open>Next\<close>, from the
  last one with \<^verbatim>\<open>Prev\<close>, each step moving by exactly one element, and it is exhausted exactly when none is
  left. The loop of \<^verbatim>\<open>EntriesInOrder\<close> therefore ends and returns all elements in order.\<close>

theorem avl_iterator_walk:
  "AVL_EntriesInOrder zero t = Some (inorder (avl_root t)) \<and>
   avl_ahead ((AVLIter_Next ^^ n) (AVLIter_SeekToFirst (AVL_Iterator t))) = drop n (inorder (avl_root t)) \<and>
   avl_behind ((AVLIter_Prev ^^ n) (AVLIter_SeekToLast (AVL_Iterator t))) = drop n (rev (inorder (avl_root t))) \<and>
   (AVLIter_Valid ((AVLIter_Next ^^ n) (AVLIter_SeekToFirst (AVL_Iterator t))) \<longleftrightarrow> n < AVL_Size t)"
proof -
  have root: "avl_root (ai_tree (AVL_Iterator t)) = avl_root t" by (simp add: AVL_Iterator_def)
  have ahead: "iter_ok ((AVLIter_Next ^^ n) (AVLIter_SeekToFirst (AVL_Iterator t))) \<and>
      avl_ahead ((AVLIter_Next ^^ n) (AVLIter_SeekToFirst (AVL_Iterator t))) = drop n (inorder (avl_root t))"
    by (induction n) (simp_all add: AVLIter_SeekToFirst_ahead root AVLIter_Next_total drop_Suc tl_drop)
  have behind: "iter_ok ((AVLIter_Prev ^^ n) (AVLIter_SeekToLast (AVL_Iterator t))) \<and>
      avl_behind ((AVLIter_Prev ^^ n) (AVLIter_SeekToLast (AVL_Iterator t))) = drop n (rev (inorder (avl_root t)))"
    by (induction n) (simp_all add: AVLIter_SeekToLast_behind root AVLIter_Prev_total drop_Suc tl_drop)
  have "AVL_Size t = length (inorder (avl_root t))" by (simp add: AVL_Size_def sizeHelper_length)
  with ahead behind show ?thesis
    using avl_iter.valid_ahead [of "(AVLIter_Next ^^ n) (AVLIter_SeekToFirst (AVL_Iterator t))" zero]
    by (simp add: AVL_EntriesInOrder_inorder avl_methods_def not_le)
qed

text \<open>\<^verbatim>\<open>Seek\<close> stops at the first element that is not smaller than the key, but when that element's node has a
  left child, the element and everything in its right subtree come a second time, out of order.\<close>

theorem avl_seek_revisits:
  assumes "cmp_order (avl_cmpIgnoringSeqId t)" "weakly (avl_cmpIgnoringSeqId t) (inorder (avl_root t))"
    and "\<exists>x \<in> set (inorder (avl_root t)). 0 \<le> avl_cmpIgnoringSeqId t x key"
  shows "\<exists>k l r h rest. ai_current (AVLIter_Seek key (AVL_Iterator t)) = AVL_node k l r h \<and>
    AVL_LowerBound t key = Some k \<and>
    dropWhile (\<lambda>x. avl_cmpIgnoringSeqId t x key < 0) (inorder (avl_root t)) = (k # inorder r) @ rest \<and>
    avl_ahead (AVLIter_Seek key (AVL_Iterator t)) =
      (k # inorder r) @ (if l = AVL_nil then [] else k # inorder r) @ rest"
proof -
  let ?c = "avl_cmpIgnoringSeqId t" and ?it = "AVLIter_Seek key (AVL_Iterator t)"
  have it: "ai_current ?it = fst (avl_seek_loop ?c key (avl_root t) (AVL_nil, []))"
    "ai_stackOfParents ?it = snd (avl_seek_loop ?c key (avl_root t) (AVL_nil, []))"
    by (simp_all add: AVLIter_Seek_def AVL_Iterator_def move_to_def Stack_Clear_def)
  from cmp_order.avl_seek_loop_found [OF assms, of "[]" AVL_nil]
  obtain k l r h rest where c: "ai_current ?it = AVL_node k l r h"
    and d: "dropWhile (\<lambda>x. ?c x key < 0) (inorder (avl_root t)) = (k # inorder r) @ rest"
    and p: "pending (ai_stackOfParents ?it) = (if l = AVL_nil then [] else k # inorder r) @ rest"
    unfolding seek_result_def it by auto
  have "AVL_LowerBound t key = find (\<lambda>x. \<not> ?c x key < 0) (inorder (avl_root t))"
    using cmp_order.lower_bound_loop_find [OF assms(1,2), of key None] cmp_order.cmp_not_less [OF assms(1)]
    by (simp add: AVL_LowerBound_def split: option.splits)
  also have "\<dots> = Some k" using d by (simp add: find_dropWhile)
  finally show ?thesis using c d p by (auto simp: avl_ahead_def)
qed

theorem avl_seek_revisits_witness:
  "let t = AVL_Insert [3] (AVL_Insert [1] (AVL_Insert [2] (NewAVLTree bytes_Compare bytes_Compare)));
       it = AVLIter_Seek [2] (AVL_Iterator t) in
   avl_ahead it = [[2], [3], [2], [3]]"
proof -
  let ?t = "AVL_Insert [3] (AVL_Insert [1] (AVL_Insert [2] (NewAVLTree bytes_Compare bytes_Compare)))"
  have c: "avl_cmpIgnoringSeqId ?t = bytes_Compare" by (simp add: AVL_Insert_def NewAVLTree_def)
  have i: "inorder (avl_root ?t) = [[1], [2], [3]]" by code_simp
  have cur: "ai_current (AVLIter_Seek [2] (AVL_Iterator ?t)) = AVL_node [2] (NewAVLTreeNode [1]) (NewAVLTreeNode [3]) 2"
    by code_simp
  have "weakly bytes_Compare [[1], [2], [3]]" by code_simp
  then show ?thesis
    using avl_seek_revisits [of ?t "[2]"] bytes_order.cmp_order_axioms
    unfolding c i cur by (auto simp: NewAVLTreeNode_def bytes_Compare_def)
qed

end
