(* ===== verification/Hack_Map.thy ===== *)
theory Hack_Map
  imports Avl_Tree "HOL-Library.AList"
begin

text \<open>
  The hash-map structure of \<^verbatim>\<open>structures/hack_map.go\<close>: a map from keys to stacks of versions, with sorted
  views computed on demand. The Go map is an association list with distinct keys; every use of it either
  looks up one key or sorts all keys, so the order of the list does not matter. \<open>hk\<close> is the method
  \<^verbatim>\<open>HashKey\<close> of the element type and \<open>zero\<close> its zero value. The iterator's field \<^verbatim>\<open>current\<close> is only ever
  written and is left out.

  Shown here: insertion adds one version on top of its key's stack; the bounds find the newest version of
  the next key, except that the empty key is taken for "not found"; the iterator walks keys in ascending
  order and versions from new to old; removal drops all versions of a key.
\<close>

section \<open>Operations\<close>

type_synonym 'a HackMap = "(bytes \<times> 'a Stack) list"

definition NewHackMap :: "'a HackMap" where
  "NewHackMap = []"

definition HM_Insert :: "('a \<Rightarrow> bytes) \<Rightarrow> 'a \<Rightarrow> 'a HackMap \<Rightarrow> 'a HackMap" where
  "HM_Insert hk entry hm =
     (let key = hk entry;
          stack = (case map_of hm key of None \<Rightarrow> Stack_New | Some stack \<Rightarrow> stack)
      in AList.update key (Stack_Push entry stack) hm)"

definition KeysInOrder :: "'a HackMap \<Rightarrow> bytes list" where
  "KeysInOrder hm = sort (map fst hm)"

text \<open>
  The binary search of \<^verbatim>\<open>LowerBound\<close> (with \<open>P\<close> the test \<^verbatim>\<open>>= target\<close>) and \<^verbatim>\<open>UpperBound\<close> (\<^verbatim>\<open>> target\<close>).
\<close>

function bound_loop :: "(bytes \<Rightarrow> bool) \<Rightarrow> bytes list \<Rightarrow> int \<Rightarrow> int \<Rightarrow> bytes \<Rightarrow> bytes" where
  "bound_loop P keys low high res =
     (if low \<le> high then
        let mid = (low + high) div 2 in
        if P (keys ! nat mid) then bound_loop P keys low (mid - 1) (keys ! nat mid)
        else bound_loop P keys (mid + 1) high res
      else res)"
  by pat_completeness auto
termination
  by (relation "measure (\<lambda>(P, keys, low, high, res). nat (high + 1 - low))") auto

declare bound_loop.simps [simp del]

definition hm_bound :: "'a \<Rightarrow> (bytes \<Rightarrow> bool) \<Rightarrow> 'a HackMap \<Rightarrow> 'a option" where
  "hm_bound zero P hm =
     (let keys = KeysInOrder hm;
          res = bound_loop P keys 0 (int (length keys) - 1) []
      in if res = [] then None
         else Some (Stack_Peek zero (case map_of hm res of None \<Rightarrow> Stack_New | Some stack \<Rightarrow> stack)))"

definition HM_LowerBound :: "'a \<Rightarrow> 'a HackMap \<Rightarrow> bytes \<Rightarrow> 'a option" where
  "HM_LowerBound zero hm target = hm_bound zero (\<lambda>k. target \<le> k) hm"

definition HM_UpperBound :: "'a \<Rightarrow> 'a HackMap \<Rightarrow> bytes \<Rightarrow> 'a option" where
  "HM_UpperBound zero hm target = hm_bound zero (\<lambda>k. target < k) hm"

definition HM_Search :: "('a \<Rightarrow> bytes) \<Rightarrow> 'a \<Rightarrow> 'a HackMap \<Rightarrow> 'a \<Rightarrow> 'a option" where
  "HM_Search hk zero hm entry =
     (case map_of hm (hk entry) of
        None \<Rightarrow> None
      | Some stack \<Rightarrow> if Stack_Len stack = 0 then None else Some (Stack_Peek zero stack))"

text \<open>The popped stack is dropped with its key.\<close>

definition HM_Remove :: "('a \<Rightarrow> bytes) \<Rightarrow> 'a \<Rightarrow> 'a HackMap \<Rightarrow> 'a HackMap" where
  "HM_Remove hk entry hm = (case map_of hm (hk entry) of None \<Rightarrow> hm | Some stack \<Rightarrow> AList.delete (hk entry) hm)"

definition HM_Upsert :: "('a \<Rightarrow> bytes) \<Rightarrow> 'a \<Rightarrow> 'a HackMap \<Rightarrow> bool \<times> 'a HackMap" where
  "HM_Upsert hk entry hm =
     (map_of hm (hk entry) \<noteq> None, AList.update (hk entry) (Stack_Push entry Stack_New) hm)"

definition HM_Size :: "'a HackMap \<Rightarrow> nat" where
  "HM_Size hm = length hm"

definition HM_Reset :: "'a HackMap \<Rightarrow> 'a HackMap" where
  "HM_Reset hm = []"

section \<open>Iterator\<close>

record 'a HackMapIterator =
  hi_hackmap :: "'a HackMap"
  hi_keys :: "bytes list"
  hi_keyIndex :: int
  hi_valIndex :: int

definition HM_Iterator :: "'a HackMap \<Rightarrow> 'a HackMapIterator" where
  "HM_Iterator hm = \<lparr>hi_hackmap = hm, hi_keys = [], hi_keyIndex = 0, hi_valIndex = 0\<rparr>"

text \<open>The stack of the current key. The keys are those of the map, so the lookup always succeeds.\<close>

definition hi_stack :: "'a HackMapIterator \<Rightarrow> 'a Stack" where
  "hi_stack it = (case map_of (hi_hackmap it) (hi_keys it ! nat (hi_keyIndex it)) of None \<Rightarrow> [] | Some stack \<Rightarrow> stack)"

definition HMIter_Valid :: "'a HackMapIterator \<Rightarrow> bool" where
  "HMIter_Valid it \<longleftrightarrow>
     \<not> (hi_keyIndex it < 0 \<or> int (length (hi_keys it)) \<le> hi_keyIndex it) \<and>
     0 \<le> hi_valIndex it \<and> hi_valIndex it < int (Stack_Len (hi_stack it))"

text \<open>Entering a key at its newest version.\<close>

definition enter_newest :: "'a HackMapIterator \<Rightarrow> 'a HackMapIterator" where
  "enter_newest it = it\<lparr>hi_valIndex := int (Stack_Len (hi_stack it)) - 1\<rparr>"

definition HMIter_SeekToFirst :: "'a HackMapIterator \<Rightarrow> 'a HackMapIterator" where
  "HMIter_SeekToFirst it0 =
     (let it = it0\<lparr>hi_keys := KeysInOrder (hi_hackmap it0)\<rparr> in
      if hi_keys it = [] then it\<lparr>hi_keyIndex := -1\<rparr>
      else enter_newest (it\<lparr>hi_keyIndex := 0\<rparr>))"

definition HMIter_SeekToLast :: "'a HackMapIterator \<Rightarrow> 'a HackMapIterator" where
  "HMIter_SeekToLast it0 =
     (let it = it0\<lparr>hi_keys := KeysInOrder (hi_hackmap it0)\<rparr> in
      if hi_keys it = [] then it\<lparr>hi_keyIndex := -1\<rparr>
      else it\<lparr>hi_keyIndex := int (length (hi_keys it)) - 1, hi_valIndex := 0\<rparr>)"

definition HMIter_Seek :: "('a \<Rightarrow> bytes) \<Rightarrow> 'a \<Rightarrow> 'a HackMapIterator \<Rightarrow> 'a HackMapIterator" where
  "HMIter_Seek hk key it0 =
     (let it = it0\<lparr>hi_keys := KeysInOrder (hi_hackmap it0)\<rparr>;
          i = length (takeWhile (\<lambda>keyStr. \<not> hk key \<le> keyStr) (hi_keys it))
      in if i = length (hi_keys it) then it\<lparr>hi_keyIndex := -1, hi_valIndex := -1\<rparr>
         else enter_newest (it\<lparr>hi_keyIndex := int i\<rparr>))"

definition HMIter_Next :: "'a HackMapIterator \<Rightarrow> 'a HackMapIterator" where
  "HMIter_Next it =
     (if \<not> HMIter_Valid it then it
      else if 0 < hi_valIndex it then it\<lparr>hi_valIndex := hi_valIndex it - 1\<rparr>
      else if int (length (hi_keys it)) \<le> hi_keyIndex it + 1 then it\<lparr>hi_keyIndex := -1\<rparr>
      else enter_newest (it\<lparr>hi_keyIndex := hi_keyIndex it + 1\<rparr>))"

definition HMIter_Prev :: "'a HackMapIterator \<Rightarrow> 'a HackMapIterator" where
  "HMIter_Prev it =
     (if hi_keyIndex it = -1 \<or> hi_keys it = [] then HMIter_SeekToLast it
      else if hi_valIndex it < int (Stack_Len (hi_stack it)) - 1 then it\<lparr>hi_valIndex := hi_valIndex it + 1\<rparr>
      else if hi_keyIndex it - 1 < 0 then it\<lparr>hi_keyIndex := -1\<rparr>
      else it\<lparr>hi_keyIndex := hi_keyIndex it - 1, hi_valIndex := 0\<rparr>)"

definition HMIter_Value :: "'a HackMapIterator \<Rightarrow> 'a" where
  "HMIter_Value it = hi_stack it ! nat (hi_valIndex it)"

definition hm_methods :: "('a \<Rightarrow> bytes) \<Rightarrow> ('a HackMapIterator, 'a) Iterator" where
  "hm_methods hk = \<lparr>Valid = HMIter_Valid, SeekToFirst = Some \<circ> HMIter_SeekToFirst,
     Seek = (\<lambda>key. Some \<circ> HMIter_Seek hk key), Next = Some \<circ> HMIter_Next, Key = HMIter_Value\<rparr>"

definition HM_EntriesInOrder :: "('a \<Rightarrow> bytes) \<Rightarrow> 'a HackMap \<Rightarrow> 'a list option" where
  "HM_EntriesInOrder hk hm = collect (hm_methods hk) (HMIter_SeekToFirst (HM_Iterator hm))"

section \<open>Contents\<close>

text \<open>Keys are distinct, no stack is empty and every version stands under its own key.\<close>

definition hm_inv :: "('a \<Rightarrow> bytes) \<Rightarrow> 'a HackMap \<Rightarrow> bool" where
  "hm_inv hk hm \<longleftrightarrow> distinct (map fst hm) \<and> (\<forall>(k, st) \<in> set hm. st \<noteq> [] \<and> (\<forall>e \<in> set st. hk e = k))"

definition versions :: "'a HackMap \<Rightarrow> bytes \<Rightarrow> 'a list" where
  "versions hm k = (case map_of hm k of None \<Rightarrow> [] | Some st \<Rightarrow> rev st)"

definition hm_entries :: "'a HackMap \<Rightarrow> 'a list" where
  "hm_entries hm = concat (map (versions hm) (KeysInOrder hm))"

lemma KeysInOrder_props: "hm_inv hk hm \<Longrightarrow> sorted (KeysInOrder hm) \<and> distinct (KeysInOrder hm)"
  by (simp add: KeysInOrder_def hm_inv_def)

lemma set_KeysInOrder: "set (KeysInOrder hm) = fst ` set hm"
  by (simp add: KeysInOrder_def)

lemma hm_inv_alt:
  "hm_inv hk hm \<longleftrightarrow> distinct (map fst hm) \<and>
     (\<forall>k st. map_of hm k = Some st \<longrightarrow> st \<noteq> [] \<and> (\<forall>e \<in> set st. hk e = k))"
  by (cases "distinct (map fst hm)") (auto simp: hm_inv_def)

lemma hm_inv_lookup:
  "hm_inv hk hm \<Longrightarrow> map_of hm k = Some st \<Longrightarrow> st \<noteq> []"
  "hm_inv hk hm \<Longrightarrow> map_of hm k = Some st \<Longrightarrow> e \<in> set st \<Longrightarrow> hk e = k"
  by (auto simp: hm_inv_alt)

lemma versions_key: "hm_inv hk hm \<Longrightarrow> e \<in> set (versions hm k) \<Longrightarrow> hk e = k"
  by (cases "map_of hm k") (auto simp: versions_def hm_inv_lookup(2))

lemma versions_nonempty: "hm_inv hk hm \<Longrightarrow> versions hm k = [] \<longleftrightarrow> k \<notin> set (KeysInOrder hm)"
  using map_of_eq_None_iff [of hm k]
  by (cases "map_of hm k") (auto simp: versions_def set_KeysInOrder hm_inv_lookup(1))

lemma hm_inv_New [simp]: "hm_inv hk NewHackMap"
  by (simp add: hm_inv_def NewHackMap_def)

lemma hm_inv_update:
  "hm_inv hk hm \<Longrightarrow> st \<noteq> [] \<Longrightarrow> \<forall>e \<in> set st. hk e = k \<Longrightarrow> hm_inv hk (AList.update k st hm)"
  by (auto simp: hm_inv_alt distinct_update update_conv')

lemma versions_update: "versions (AList.update k st hm) k' = (if k' = k then rev st else versions hm k')"
  by (simp add: versions_def update_conv')

lemma HM_Insert_inv: "hm_inv hk hm \<Longrightarrow> hm_inv hk (HM_Insert hk e hm)"
  using hm_inv_lookup(2) [of hk hm "hk e"] unfolding HM_Insert_def Let_def
  by (intro hm_inv_update) (auto simp: Stack_Push_def Stack_New_def split: option.splits)

lemma versions_HM_Insert:
  "versions (HM_Insert hk e hm) k = (if k = hk e then e # versions hm k else versions hm k)"
  by (simp add: HM_Insert_def Let_def versions_update Stack_Push_def)
    (simp add: versions_def Stack_New_def split: option.splits)

lemma HM_Upsert_inv: "hm_inv hk hm \<Longrightarrow> hm_inv hk (snd (HM_Upsert hk e hm))"
  unfolding HM_Upsert_def by (simp add: hm_inv_update Stack_Push_def Stack_New_def)

lemma versions_HM_Upsert: "versions (snd (HM_Upsert hk e hm)) k = (if k = hk e then [e] else versions hm k)"
  by (simp add: HM_Upsert_def versions_update Stack_Push_def Stack_New_def)

lemma HM_Remove_inv: "hm_inv hk hm \<Longrightarrow> hm_inv hk (HM_Remove hk e hm)"
  by (auto simp: hm_inv_alt HM_Remove_def distinct_delete delete_conv' simp del: map_of_eq_Some_iff
      split: option.splits if_splits)

lemma versions_HM_Remove: "versions (HM_Remove hk e hm) k = (if k = hk e then [] else versions hm k)"
  by (auto simp: HM_Remove_def versions_def delete_conv' split: option.splits)

section \<open>Bounds\<close>

lemma bound_loop_spec:
  assumes "sorted keys" "\<And>a b. a \<le> b \<Longrightarrow> P a \<Longrightarrow> P b" "0 \<le> low" "high < int (length keys)" "low \<le> high + 1"
    and "\<forall>i < length keys. int i < low \<longrightarrow> \<not> P (keys ! i)"
    and "\<forall>i < length keys. high < int i \<longrightarrow> P (keys ! i)"
    and "res = (if nat (high + 1) < length keys then keys ! nat (high + 1) else [])"
  shows "bound_loop P keys low high res = (case find P keys of None \<Rightarrow> [] | Some k \<Rightarrow> k)"
  using assms
proof (induction P keys low high res rule: bound_loop.induct)
  case (1 P keys low high res)
  show ?case
  proof (cases "low \<le> high")
    case False
    with "1.prems"(5) have hi: "high + 1 = low" by simp
    have "find P keys = (if nat low < length keys then Some (keys ! nat low) else None)"
    proof (cases "nat low < length keys")
      case True
      then have "P (keys ! nat low)" using "1.prems"(3,7) hi by simp
      moreover have "\<forall>j < nat low. \<not> P (keys ! j)" using "1.prems"(3,6) True by auto
      ultimately show ?thesis using True by (auto simp: find_Some_iff)
    next
      case nl: False
      then have "\<forall>x \<in> set keys. \<not> P x" using "1.prems"(6) by (auto simp: in_set_conv_nth)
      with nl show ?thesis by (auto simp: find_None_iff)
    qed
    with False "1.prems"(8) hi show ?thesis by (subst bound_loop.simps) simp
  next
    case True
    define mid where "mid = (low + high) div 2"
    have m: "low \<le> mid" "mid \<le> high" "nat mid < length keys" using True "1.prems"(3,4) by (auto simp: mid_def)
    have step: "bound_loop P keys low high res =
        (if P (keys ! nat mid) then bound_loop P keys low (mid - 1) (keys ! nat mid) else bound_loop P keys (mid + 1) high res)"
      using True by (subst bound_loop.simps) (simp add: Let_def mid_def)
    have mono: "keys ! i \<le> keys ! j" if "i \<le> j" "j < length keys" for i j
      using sorted_nth_mono [OF "1.prems"(1) that] .
    show ?thesis
    proof (cases "P (keys ! nat mid)")
      case yes: True
      have "\<forall>i < length keys. mid - 1 < int i \<longrightarrow> P (keys ! i)"
        using "1.prems"(2) [OF mono yes] m by (metis nat_le_iff diff_less_eq zless_imp_add1_zle add_le_cancel_right)
      with yes step m "1.IH"(1) [OF True mid_def yes "1.prems"(1,2,3) _ _ "1.prems"(6)] show ?thesis by simp
    next
      case no: False
      have "\<forall>i < length keys. int i < mid + 1 \<longrightarrow> \<not> P (keys ! i)"
        using "1.prems"(2) [OF mono] no m by (metis nat_le_iff le_nat_iff zle_add1_eq_le m(1) "1.prems"(3) order_trans)
      with no step m "1.IH"(2) [OF True mid_def no "1.prems"(1,2) _ "1.prems"(4) _ _ "1.prems"(7,8)] "1.prems"(3) show ?thesis
        by simp
    qed
  qed
qed

text \<open>
  The bound is the newest version of the first key that satisfies the test; a map that holds the empty key
  would report it as missing.
\<close>

lemma hm_bound_find:
  assumes inv: "hm_inv hk hm" and mono: "\<And>a b. a \<le> b \<Longrightarrow> P a \<Longrightarrow> P b" and ne: "[] \<notin> fst ` set hm"
  shows "hm_bound zero P hm = (case find P (KeysInOrder hm) of None \<Rightarrow> None | Some k \<Rightarrow> Some (hd (versions hm k)))"
proof -
  have loop: "bound_loop P (KeysInOrder hm) 0 (int (length (KeysInOrder hm)) - 1) [] =
      (case find P (KeysInOrder hm) of None \<Rightarrow> [] | Some k \<Rightarrow> k)"
    by (rule bound_loop_spec) (use KeysInOrder_props [OF inv] mono in auto)
  show ?thesis
  proof (cases "find P (KeysInOrder hm)")
    case None
    with loop show ?thesis by (simp add: hm_bound_def)
  next
    case (Some k)
    then have k: "k \<in> fst ` set hm" by (metis find_Some_iff nth_mem set_KeysInOrder)
    then obtain st where st: "map_of hm k = Some st" by (metis map_of_eq_None_iff not_Some_eq)
    have "k \<noteq> []" using k ne by blast
    with loop Some st hm_inv_lookup(1) [OF inv st] show ?thesis
      by (simp add: hm_bound_def versions_def Stack_Peek_def hd_rev)
  qed
qed

section \<open>Walking forward\<close>

definition hm_iter_ok :: "('a \<Rightarrow> bytes) \<Rightarrow> 'a HackMapIterator \<Rightarrow> bool" where
  "hm_iter_ok hk it \<longleftrightarrow> hm_inv hk (hi_hackmap it) \<and> (hi_keys it = [] \<or> hi_keys it = KeysInOrder (hi_hackmap it))"

definition hm_ahead :: "'a HackMapIterator \<Rightarrow> 'a list" where
  "hm_ahead it =
     (if HMIter_Valid it then rev (take (nat (hi_valIndex it + 1)) (hi_stack it)) @
        concat (map (versions (hi_hackmap it)) (drop (nat (hi_keyIndex it) + 1) (hi_keys it)))
      else [])"

lemma hi_stack_versions:
  "hi_stack it = rev (versions (hi_hackmap it) (hi_keys it ! nat (hi_keyIndex it)))"
  by (simp add: hi_stack_def versions_def split: option.splits)

lemma enter_newest_ahead:
  assumes "hm_iter_ok hk it" "hi_keyIndex it = int i" "i < length (hi_keys it)"
  shows "hm_ahead (enter_newest it) = concat (map (versions (hi_hackmap it)) (drop i (hi_keys it)))"
    and "hm_iter_ok hk (enter_newest it)"
proof -
  let ?st = "hi_stack it"
  have same: "hi_stack (enter_newest it) = ?st" by (simp add: enter_newest_def hi_stack_def)
  have "hi_keys it ! i \<in> set (KeysInOrder (hi_hackmap it))" using assms by (auto simp: hm_iter_ok_def)
  with assms have ne: "?st \<noteq> []"
    using versions_nonempty [of hk "hi_hackmap it" "hi_keys it ! i"] by (simp add: hm_iter_ok_def hi_stack_versions)
  then have v: "HMIter_Valid (enter_newest it)"
    using assms same by (simp add: HMIter_Valid_def enter_newest_def Stack_Len_def)
  have "nat (hi_valIndex (enter_newest it) + 1) = length ?st" by (simp add: enter_newest_def Stack_Len_def)
  then have "hm_ahead (enter_newest it) = rev ?st @ concat (map (versions (hi_hackmap it)) (drop (Suc i) (hi_keys it)))"
    using v same assms(2) by (simp add: hm_ahead_def) (simp add: enter_newest_def)
  then show "hm_ahead (enter_newest it) = concat (map (versions (hi_hackmap it)) (drop i (hi_keys it)))"
    using assms(2,3) by (simp add: Cons_nth_drop_Suc [symmetric] hi_stack_versions)
  show "hm_iter_ok hk (enter_newest it)" using assms(1) by (simp add: hm_iter_ok_def enter_newest_def)
qed

lemma hm_invalid_ahead: "\<not> HMIter_Valid it \<Longrightarrow> hm_ahead it = []"
  by (simp add: hm_ahead_def)

lemma HMIter_Next_ahead:
  assumes ok: "hm_iter_ok hk it" and v: "HMIter_Valid it"
  shows "hm_ahead (HMIter_Next it) = tl (hm_ahead it)" and "hm_iter_ok hk (HMIter_Next it)"
proof -
  obtain i j where i: "hi_keyIndex it = int i" "i < length (hi_keys it)"
    and j: "hi_valIndex it = int j" "j < length (hi_stack it)"
    using v unfolding HMIter_Valid_def Stack_Len_def
    by (metis not_less zero_le_imp_eq_int of_nat_less_iff)
  let ?rest = "concat (map (versions (hi_hackmap it)) (drop (Suc i) (hi_keys it)))"
  have a: "hm_ahead it = rev (take (Suc j) (hi_stack it)) @ ?rest"
    using v i j by (simp add: hm_ahead_def nat_add_distrib)
  show "hm_ahead (HMIter_Next it) = tl (hm_ahead it)"
  proof (cases "0 < j")
    case True
    let ?it' = "it\<lparr>hi_valIndex := hi_valIndex it - 1\<rparr>"
    have same: "hi_stack ?it' = hi_stack it" by (simp add: hi_stack_def)
    have v': "HMIter_Valid ?it'" using v j True same by (simp add: HMIter_Valid_def Stack_Len_def)
    have "hm_ahead ?it' = rev (take j (hi_stack it)) @ ?rest"
      using v' i j True same by (simp add: hm_ahead_def)
    moreover have "HMIter_Next it = ?it'" using v j True by (simp add: HMIter_Next_def)
    ultimately show ?thesis using a j by (simp add: take_Suc_conv_app_nth)
  next
    case False
    then have a': "hm_ahead it = hi_stack it ! 0 # ?rest" using a j by (simp add: take_Suc_conv_app_nth)
    show ?thesis
    proof (cases "Suc i < length (hi_keys it)")
      case True
      let ?it' = "it\<lparr>hi_keyIndex := int (Suc i)\<rparr>"
      have "HMIter_Next it = enter_newest ?it'" using v j False True i by (simp add: HMIter_Next_def add.commute)
      with enter_newest_ahead(1) [of hk ?it' "Suc i"] ok True a' show ?thesis by (simp add: hm_iter_ok_def)
    next
      case last: False
      then have "HMIter_Next it = it\<lparr>hi_keyIndex := -1\<rparr>" using v j False i by (simp add: HMIter_Next_def)
      with last a' show ?thesis by (simp add: hm_ahead_def HMIter_Valid_def)
    qed
  qed
  show "hm_iter_ok hk (HMIter_Next it)"
    using ok by (auto simp: HMIter_Next_def hm_iter_ok_def enter_newest_def)
qed

lemma HMIter_SeekToFirst_ahead:
  assumes "hm_inv hk (hi_hackmap it)"
  shows "hm_ahead (HMIter_SeekToFirst it) = hm_entries (hi_hackmap it)" "hm_iter_ok hk (HMIter_SeekToFirst it)"
proof -
  let ?it = "it\<lparr>hi_keys := KeysInOrder (hi_hackmap it), hi_keyIndex := 0\<rparr>"
  have ok: "hm_iter_ok hk ?it" using assms by (simp add: hm_iter_ok_def)
  show "hm_ahead (HMIter_SeekToFirst it) = hm_entries (hi_hackmap it)"
    using enter_newest_ahead(1) [OF ok, of 0]
    by (cases "KeysInOrder (hi_hackmap it) = []")
      (auto simp: HMIter_SeekToFirst_def Let_def hm_entries_def hm_ahead_def HMIter_Valid_def)
  show "hm_iter_ok hk (HMIter_SeekToFirst it)"
    using assms by (simp add: HMIter_SeekToFirst_def Let_def hm_iter_ok_def enter_newest_def)
qed

lemma hm_iter_ok_inv: "hm_iter_ok hk it \<Longrightarrow> hm_inv hk (hi_hackmap it)"
  by (simp add: hm_iter_ok_def)

lemma iterator_hackmap [simp]:
  "hi_hackmap (HMIter_SeekToFirst it) = hi_hackmap it" "hi_hackmap (HMIter_Next it) = hi_hackmap it"
  by (simp_all add: HMIter_SeekToFirst_def HMIter_Next_def enter_newest_def Let_def)

interpretation hm_iter: rewindable_iterator "hm_methods hk" "hm_iter_ok hk" hm_ahead "\<lambda>it. hm_entries (hi_hackmap it)" for hk :: "'a \<Rightarrow> bytes"
proof
  fix it :: "'a HackMapIterator" assume ok: "hm_iter_ok hk it"
  show "\<exists>it'. SeekToFirst (hm_methods hk) it = Some it' \<and> hm_iter_ok hk it' \<and> hm_ahead it' = hm_entries (hi_hackmap it) \<and>
      hm_entries (hi_hackmap it') = hm_entries (hi_hackmap it)"
    using HMIter_SeekToFirst_ahead [OF hm_iter_ok_inv [OF ok]] by (simp add: hm_methods_def)
  have first: "hm_ahead it = hi_stack it ! nat (hi_valIndex it) # tl (hm_ahead it)" if "HMIter_Valid it"
  proof -
    have "nat (hi_valIndex it) < length (hi_stack it)" using that by (simp add: HMIter_Valid_def Stack_Len_def nat_less_iff)
    then have "rev (take (nat (hi_valIndex it + 1)) (hi_stack it)) = hi_stack it ! nat (hi_valIndex it) # rev (take (nat (hi_valIndex it)) (hi_stack it))"
      using that by (simp add: HMIter_Valid_def nat_add_distrib take_Suc_conv_app_nth)
    with that show ?thesis by (simp add: hm_ahead_def)
  qed
  show "Valid (hm_methods hk) it \<longleftrightarrow> hm_ahead it \<noteq> []"
    using first hm_invalid_ahead [of it] by (auto simp: hm_methods_def)
  show "Valid (hm_methods hk) it \<Longrightarrow> Key (hm_methods hk) it = hd (hm_ahead it)"
    using first by (simp add: hm_methods_def HMIter_Value_def) (metis list.sel(1))
qed (auto simp: hm_methods_def HMIter_Next_ahead)

lemma HM_EntriesInOrder_entries: "hm_inv hk hm \<Longrightarrow> HM_EntriesInOrder hk hm = Some (hm_entries hm)"
  unfolding HM_EntriesInOrder_def
  using HMIter_SeekToFirst_ahead [of hk "HM_Iterator hm"] hm_iter.collect_ahead [of hk "HMIter_SeekToFirst (HM_Iterator hm)"]
  by (simp add: HM_Iterator_def)

lemma HMIter_Seek_ahead:
  assumes "hm_inv hk (hi_hackmap it)"
  shows "hm_ahead (HMIter_Seek hk key it) = dropWhile (\<lambda>e. hk e < hk key) (hm_entries (hi_hackmap it)) \<and>
    hm_iter_ok hk (HMIter_Seek hk key it)"
proof -
  let ?hm = "hi_hackmap it"
  let ?i = "length (takeWhile (\<lambda>k. \<not> hk key \<le> k) (KeysInOrder ?hm))"
  let ?it = "it\<lparr>hi_keys := KeysInOrder ?hm, hi_keyIndex := int ?i\<rparr>"
  have ok: "hm_iter_ok hk ?it" using assms by (simp add: hm_iter_ok_def)
  have drop: "dropWhile (\<lambda>e. hk e < hk key) (concat (map (versions ?hm) ks)) =
      concat (map (versions ?hm) (dropWhile (\<lambda>k. \<not> hk key \<le> k) ks))" if "set ks \<subseteq> set (KeysInOrder ?hm)" for ks
    using that
  proof (induction ks)
    case (Cons k ks)
    then have ne: "versions ?hm k \<noteq> []" using versions_nonempty [OF assms] by auto
    have all: "hk e = k" if "e \<in> set (versions ?hm k)" for e using versions_key [OF assms that] .
    show ?case
    proof (cases "hk key \<le> k")
      case True
      then show ?thesis using all ne by (cases "versions ?hm k") (auto simp: not_less)
    next
      case False
      then have "\<forall>e \<in> set (versions ?hm k). hk e < hk key" using all by auto
      with Cons False show ?thesis by (simp add: dropWhile_append2)
    qed
  qed simp
  have tail: "drop ?i (KeysInOrder ?hm) = dropWhile (\<lambda>k. \<not> hk key \<le> k) (KeysInOrder ?hm)"
    by (simp add: dropWhile_eq_drop)
  show ?thesis
  proof (cases "?i = length (KeysInOrder ?hm)")
    case True
    then have "dropWhile (\<lambda>k. \<not> hk key \<le> k) (KeysInOrder ?hm) = []" using tail by simp
    with drop [OF order.refl] have none: "dropWhile (\<lambda>e. hk e < hk key) (hm_entries ?hm) = []"
      by (simp only: hm_entries_def list.map concat.simps)
    show ?thesis unfolding none using True assms
      by (simp add: HMIter_Seek_def Let_def hm_ahead_def HMIter_Valid_def hm_iter_ok_def)
  next
    case False
    then have "?i < length (KeysInOrder ?hm)" by (metis length_takeWhile_le order_le_imp_less_or_eq)
    with enter_newest_ahead [OF ok, of ?i] drop [OF order.refl] tail False show ?thesis
      by (simp add: HMIter_Seek_def Let_def hm_entries_def)
  qed
qed

interpretation hm_seek: seekable_iterator "hm_methods hk" "hm_iter_ok hk" hm_ahead "\<lambda>it. hm_entries (hi_hackmap it)"
  "\<lambda>e key. hk e < hk key" for hk :: "'a \<Rightarrow> bytes"
proof
  fix it :: "'a HackMapIterator" and key assume "hm_iter_ok hk it"
  moreover have "hi_hackmap (HMIter_Seek hk key it) = hi_hackmap it"
    by (simp add: HMIter_Seek_def enter_newest_def Let_def)
  ultimately show "\<exists>it'. Seek (hm_methods hk) key it = Some it' \<and> hm_iter_ok hk it' \<and>
      hm_ahead it' = dropWhile (\<lambda>e. hk e < hk key) (hm_entries (hi_hackmap it)) \<and> hm_entries (hi_hackmap it') = hm_entries (hi_hackmap it)"
    using HMIter_Seek_ahead [OF hm_iter_ok_inv, of hk it key] by (simp add: hm_methods_def)
qed

lemma filter_hm_entries:
  assumes "hm_inv hk hm"
  shows "filter (\<lambda>e. hk e = k) (hm_entries hm) = versions hm k"
proof -
  have part: "filter (\<lambda>e. hk e = k) (versions hm k') = (if k' = k then versions hm k else [])" for k'
    using versions_key [OF assms, of _ k'] by (auto simp: filter_id_conv filter_empty_conv)
  have "concat (map (\<lambda>k'. if k' = k then versions hm k else []) ks) = (if k \<in> set ks then versions hm k else [])"
    if "distinct ks" for ks using that by (induction ks) auto
  with KeysInOrder_props [OF assms] versions_nonempty [OF assms, of k] show ?thesis
    by (auto simp: hm_entries_def filter_concat comp_def part)
qed

lemma sorted_hm_entries:
  assumes "hm_inv hk hm"
  shows "sorted (map hk (hm_entries hm))"
proof -
  have const: "map hk (versions hm k) = replicate (length (versions hm k)) k" for k
    using map_cong [OF refl, of "versions hm k" hk "\<lambda>_. k"] versions_key [OF assms, of _ k]
    by (simp add: map_replicate_const)
  have "sorted (concat (map (\<lambda>k. replicate (f k) k) ks))" if "sorted ks" for ks :: "bytes list" and f
    using that by (induction ks) (auto simp: sorted_append)
  then show ?thesis using KeysInOrder_props [OF assms] by (simp add: hm_entries_def map_concat comp_def const)
qed

end
