(* ===== verification/Memtable_Iterator.thy ===== *)
theory Memtable_Iterator
  imports Hack_Map
begin

text \<open>
  Entries of a memtable (\<^verbatim>\<open>memtable/memtable_iface.go\<close>), the two comparators of \<^verbatim>\<open>memtable/memtable.go\<close> and
  the two iterators over one memtable of \<^verbatim>\<open>memtable/memtable_iterator.go\<close>: the raw one, which delegates
  every call, and the filtering one, which shows only the newest version of each key and hides deleted
  keys.

  A Go key is a slice that may be \<^verbatim>\<open>nil\<close>; \<open>prevKey\<close> is \<open>None\<close> for \<^verbatim>\<open>nil\<close>, and the keys of entries are not
  \<^verbatim>\<open>nil\<close>. Reading the entry of an exhausted filtering iterator would dereference \<^verbatim>\<open>nil\<close>; the model answers
  with the zero entry there, and no client reads it.

  Shown here: over an iterator that walks a list of entries, the filtering iterator walks exactly the
  \<open>visible\<close> entries of that list, so its loops end.
\<close>

section \<open>Entries\<close>

record MemtableEntry =
  me_OpType :: OpType
  me_Key :: bytes
  me_Value :: bytes
  me_SeqId :: u64
  me_ExpiresAt :: i64

definition zero_entry :: MemtableEntry where
  "zero_entry = \<lparr>me_OpType = 0, me_Key = [], me_Value = [], me_SeqId = 0, me_ExpiresAt = 0\<rparr>"

definition HashKey :: "MemtableEntry \<Rightarrow> bytes" where
  "HashKey e = me_Key e"

definition mt_cmp :: "MemtableEntry comparator" where
  "mt_cmp a b =
     (let c = bytes_Compare (me_Key a) (me_Key b) in
      if c \<noteq> 0 then c
      else if me_SeqId b < me_SeqId a then -1
      else if me_SeqId a < me_SeqId b then 1
      else 0)"

definition mt_cmpIgnoringSeqId :: "MemtableEntry comparator" where
  "mt_cmpIgnoringSeqId a b = bytes_Compare (me_Key a) (me_Key b)"

lemma mt_cmp_simps:
  "mt_cmp a b < 0 \<longleftrightarrow> me_Key a < me_Key b \<or> me_Key a = me_Key b \<and> me_SeqId b < me_SeqId a"
  "mt_cmp a b \<le> 0 \<longleftrightarrow> me_Key a < me_Key b \<or> me_Key a = me_Key b \<and> me_SeqId b \<le> me_SeqId a"
  "mt_cmp a b = 0 \<longleftrightarrow> me_Key a = me_Key b \<and> me_SeqId a = me_SeqId b"
  "0 < mt_cmp a b \<longleftrightarrow> me_Key b < me_Key a \<or> me_Key a = me_Key b \<and> me_SeqId a < me_SeqId b"
  by (auto simp: mt_cmp_def bytes_Compare_def)

interpretation mt_order: cmp_order mt_cmp
  by unfold_locales (auto simp: mt_cmp_simps)

interpretation mt_key_order: cmp_order mt_cmpIgnoringSeqId
  by unfold_locales (auto simp: mt_cmpIgnoringSeqId_def)

section \<open>The raw iterator over one memtable\<close>

record 'it RawSingleMemtableIterator =
  rs_it :: 'it

definition NewRawSingleMemtableIterator :: "'it \<Rightarrow> 'it RawSingleMemtableIterator" where
  "NewRawSingleMemtableIterator it = \<lparr>rs_it = it\<rparr>"

text \<open>Every method delegates to the wrapped iterator.\<close>

definition delegate :: "('it \<Rightarrow> 'it option) \<Rightarrow> 'it RawSingleMemtableIterator \<Rightarrow> 'it RawSingleMemtableIterator option" where
  "delegate f r = map_option (\<lambda>it. r\<lparr>rs_it := it\<rparr>) (f (rs_it r))"

definition raw_methods :: "('it, 'a) Iterator \<Rightarrow> ('it RawSingleMemtableIterator, 'a) Iterator" where
  "raw_methods m = \<lparr>Valid = (\<lambda>r. Valid m (rs_it r)), SeekToFirst = delegate (SeekToFirst m),
     Seek = (\<lambda>key. delegate (Seek m key)), Next = delegate (Next m), Key = (\<lambda>r. Key m (rs_it r))\<rparr>"

lemma raw_methods_simps [simp]:
  "Valid (raw_methods m) r = Valid m (rs_it r)" "Key (raw_methods m) r = Key m (rs_it r)"
  "SeekToFirst (raw_methods m) r = map_option (\<lambda>it. r\<lparr>rs_it := it\<rparr>) (SeekToFirst m (rs_it r))"
  "Seek (raw_methods m) key r = map_option (\<lambda>it. r\<lparr>rs_it := it\<rparr>) (Seek m key (rs_it r))"
  "Next (raw_methods m) r = map_option (\<lambda>it. r\<lparr>rs_it := it\<rparr>) (Next m (rs_it r))"
  by (simp_all add: raw_methods_def delegate_def)

context rewindable_iterator
begin

lemma raw_rewindable:
  "rewindable_iterator (raw_methods m) (\<lambda>r. ok (rs_it r)) (\<lambda>r. ahead (rs_it r)) (\<lambda>r. whole (rs_it r))"
proof
  fix r :: "'it RawSingleMemtableIterator" assume r: "ok (rs_it r)"
  show "Valid (raw_methods m) r \<longleftrightarrow> ahead (rs_it r) \<noteq> []" using valid_ahead [OF r] by simp
  show "\<exists>r'. SeekToFirst (raw_methods m) r = Some r' \<and> ok (rs_it r') \<and> ahead (rs_it r') = whole (rs_it r) \<and>
      whole (rs_it r') = whole (rs_it r)" using rewind [OF r] by auto
  assume v: "Valid (raw_methods m) r"
  then show "Key (raw_methods m) r = hd (ahead (rs_it r))" using key_ahead [OF r] by simp
  show "\<exists>r'. Next (raw_methods m) r = Some r' \<and> ok (rs_it r') \<and> ahead (rs_it r') = tl (ahead (rs_it r))"
    using next_ahead [OF r] v by auto
  show "Next (raw_methods m) r = Some r' \<Longrightarrow> whole (rs_it r') = whole (rs_it r)" for r'
    using next_whole [OF r] v by auto
qed

end

section \<open>The filtering iterator over one memtable\<close>

type_synonym range_checker = "(bytes \<Rightarrow> u64 \<Rightarrow> bool) option"

record 'it SingleMemtableIterator =
  si_rawIt :: 'it
  si_current :: "MemtableEntry option"
  si_valid :: bool
  si_rangeDelChecker :: range_checker

definition range_deleted :: "range_checker \<Rightarrow> MemtableEntry \<Rightarrow> bool" where
  "range_deleted chk e = (case chk of None \<Rightarrow> False | Some f \<Rightarrow> f (me_Key e) (me_SeqId e))"

partial_function (option) advanceToNextUnique ::
  "('it, MemtableEntry) Iterator \<Rightarrow> bytes option \<Rightarrow> 'it SingleMemtableIterator \<Rightarrow> 'it SingleMemtableIterator option" where
  "advanceToNextUnique m prevKey s =
     (if Valid m (si_rawIt s) then
        let entry = Key m (si_rawIt s) in
        if prevKey = Some (me_Key entry) then
          Option.bind (Next m (si_rawIt s)) (\<lambda>r. advanceToNextUnique m prevKey (s\<lparr>si_rawIt := r\<rparr>))
        else if me_OpType entry = OpTypeDel then
          Option.bind (Next m (si_rawIt s)) (\<lambda>r. advanceToNextUnique m (Some (me_Key entry)) (s\<lparr>si_rawIt := r\<rparr>))
        else if range_deleted (si_rangeDelChecker s) entry then
          Option.bind (Next m (si_rawIt s)) (\<lambda>r. advanceToNextUnique m (Some (me_Key entry)) (s\<lparr>si_rawIt := r\<rparr>))
        else Some (s\<lparr>si_current := Some entry, si_valid := True\<rparr>)
      else Some (s\<lparr>si_current := None, si_valid := False\<rparr>))"

definition Single_SeekToFirst :: "('it, MemtableEntry) Iterator \<Rightarrow> 'it SingleMemtableIterator \<Rightarrow> 'it SingleMemtableIterator option" where
  "Single_SeekToFirst m s =
     Option.bind (SeekToFirst m (si_rawIt s)) (\<lambda>r. advanceToNextUnique m None (s\<lparr>si_rawIt := r\<rparr>))"

definition Single_Seek :: "('it, MemtableEntry) Iterator \<Rightarrow> MemtableEntry \<Rightarrow> 'it SingleMemtableIterator \<Rightarrow> 'it SingleMemtableIterator option" where
  "Single_Seek m key s =
     Option.bind (Seek m key (si_rawIt s)) (\<lambda>r. advanceToNextUnique m None (s\<lparr>si_rawIt := r\<rparr>))"

definition Single_Key :: "'it SingleMemtableIterator \<Rightarrow> MemtableEntry" where
  "Single_Key s = (case si_current s of None \<Rightarrow> zero_entry | Some e \<Rightarrow> e)"

definition Single_Next :: "('it, MemtableEntry) Iterator \<Rightarrow> 'it SingleMemtableIterator \<Rightarrow> 'it SingleMemtableIterator option" where
  "Single_Next m s =
     (if \<not> si_valid s then Some s
      else Option.bind (Next m (si_rawIt s)) (\<lambda>r.
        advanceToNextUnique m (Some (me_Key (Single_Key s))) (s\<lparr>si_rawIt := r\<rparr>)))"

definition NewSingleMemtableIterator ::
  "('it, MemtableEntry) Iterator \<Rightarrow> 'it \<Rightarrow> range_checker \<Rightarrow> 'it SingleMemtableIterator option" where
  "NewSingleMemtableIterator m rawIt chk =
     Single_SeekToFirst m \<lparr>si_rawIt = rawIt, si_current = None, si_valid = False, si_rangeDelChecker = chk\<rparr>"

definition single_methods ::
  "('it, MemtableEntry) Iterator \<Rightarrow> ('it SingleMemtableIterator, MemtableEntry) Iterator" where
  "single_methods m = \<lparr>Valid = si_valid, SeekToFirst = Single_SeekToFirst m, Seek = Single_Seek m,
     Next = Single_Next m, Key = Single_Key\<rparr>"

section \<open>Visible entries\<close>

text \<open>
  The first entry of each run of equal keys, unless it is a deletion or covered by a range tombstone;
  \<open>prev\<close> is a key whose entries are to be skipped at the front.
\<close>

fun visible :: "range_checker \<Rightarrow> bytes option \<Rightarrow> MemtableEntry list \<Rightarrow> MemtableEntry list" where
  "visible chk prev [] = []"
| "visible chk prev (e # es) =
     (if prev = Some (me_Key e) then visible chk prev es
      else if me_OpType e = OpTypeDel \<or> range_deleted chk e then visible chk (Some (me_Key e)) es
      else e # visible chk (Some (me_Key e)) es)"

definition single_ahead :: "('it \<Rightarrow> MemtableEntry list) \<Rightarrow> 'it SingleMemtableIterator \<Rightarrow> MemtableEntry list" where
  "single_ahead ahead s =
     (case si_current s of
        None \<Rightarrow> []
      | Some e \<Rightarrow> e # visible (si_rangeDelChecker s) (Some (me_Key e)) (tl (ahead (si_rawIt s))))"

definition single_ok :: "('it \<Rightarrow> bool) \<Rightarrow> ('it \<Rightarrow> MemtableEntry list) \<Rightarrow> 'it SingleMemtableIterator \<Rightarrow> bool" where
  "single_ok ok ahead s \<longleftrightarrow> ok (si_rawIt s) \<and> (si_valid s \<longleftrightarrow> si_current s \<noteq> None) \<and>
     (si_valid s \<longrightarrow> ahead (si_rawIt s) \<noteq> [])"

locale entry_iterator = rewindable_iterator m ok ahead whole
  for m :: "('it, MemtableEntry) Iterator" and ok ahead whole
begin

definition single_whole :: "'it SingleMemtableIterator \<Rightarrow> MemtableEntry list" where
  "single_whole s = visible (si_rangeDelChecker s) None (whole (si_rawIt s))"

lemma advance_visible:
  "ok (si_rawIt s) \<Longrightarrow> \<exists>s'. advanceToNextUnique m prev s = Some s' \<and> single_ok ok ahead s' \<and>
     single_whole s' = single_whole s \<and>
     single_ahead ahead s' = visible (si_rangeDelChecker s) prev (ahead (si_rawIt s))"
proof (induction "ahead (si_rawIt s)" arbitrary: s prev)
  case Nil
  then have "advanceToNextUnique m prev s = Some (s\<lparr>si_current := None, si_valid := False\<rparr>)"
    by (subst advanceToNextUnique.simps) (simp add: ahead_Nil)
  with Nil show ?case by (simp add: single_ok_def single_ahead_def single_whole_def flip: Nil.hyps)
next
  case (Cons e es)
  from ahead_Cons [OF Cons.prems Cons.hyps(2) [symmetric]]
  obtain r where r: "Valid m (si_rawIt s)" "Key m (si_rawIt s) = e" "Next m (si_rawIt s) = Some r" "ok r" "ahead r = es"
    by metis
  let ?s = "s\<lparr>si_rawIt := r\<rparr>"
  note step = advanceToNextUnique.simps [of m prev s]
  have w: "single_whole ?s = single_whole s" using next_whole [OF Cons.prems r(1,3)] by (simp add: single_whole_def)
  note IH = Cons.hyps(1) [of ?s]
  show ?case
  proof (cases "prev \<noteq> Some (me_Key e) \<and> me_OpType e \<noteq> OpTypeDel \<and> \<not> range_deleted (si_rangeDelChecker s) e")
    case True
    with r Cons.prems Cons.hyps(2) [symmetric] show ?thesis
      unfolding step by (auto simp: single_ok_def single_ahead_def single_whole_def)
  next
    case False
    then obtain prev' where "advanceToNextUnique m prev s = advanceToNextUnique m prev' ?s"
      and "visible (si_rangeDelChecker s) prev (e # es) = visible (si_rangeDelChecker s) prev' es"
      unfolding step using r by (cases "prev = Some (me_Key e)") auto
    with IH [of prev'] r(4,5) w Cons.hyps(2) [symmetric] show ?thesis by simp
  qed
qed

lemma single_rewindable:
  "rewindable_iterator (single_methods m) (single_ok ok ahead) (single_ahead ahead) single_whole"
proof
  fix s :: "'it SingleMemtableIterator"
  assume s: "single_ok ok ahead s"
  show "Valid (single_methods m) s \<longleftrightarrow> single_ahead ahead s \<noteq> []"
    using s by (auto simp: single_methods_def single_ok_def single_ahead_def split: option.splits)
  obtain r0 where r0: "SeekToFirst m (si_rawIt s) = Some r0" "ok r0" "ahead r0 = whole (si_rawIt s)" "whole r0 = whole (si_rawIt s)"
    using rewind s by (auto simp: single_ok_def)
  with advance_visible [of "s\<lparr>si_rawIt := r0\<rparr>" None]
  show "\<exists>s'. SeekToFirst (single_methods m) s = Some s' \<and> single_ok ok ahead s' \<and>
      single_ahead ahead s' = single_whole s \<and> single_whole s' = single_whole s"
    by (auto simp: single_methods_def Single_SeekToFirst_def single_whole_def)
  assume "Valid (single_methods m) s"
  with s obtain e where e: "si_current s = Some e" "si_valid s" "ahead (si_rawIt s) \<noteq> []" and ok: "ok (si_rawIt s)"
    by (auto simp: single_methods_def single_ok_def)
  then show "Key (single_methods m) s = hd (single_ahead ahead s)"
    by (simp add: single_methods_def Single_Key_def single_ahead_def)
  obtain x xs where x: "ahead (si_rawIt s) = x # xs" using e(3) by (cases "ahead (si_rawIt s)") auto
  then obtain r where r: "Next m (si_rawIt s) = Some r" "ok r" "ahead r = xs" "whole r = whole (si_rawIt s)"
    using ahead_Cons [OF ok x] next_whole [OF ok] by metis
  from advance_visible [of "s\<lparr>si_rawIt := r\<rparr>" "Some (me_Key e)"] r(2)
  obtain s' where s': "Next (single_methods m) s = Some s'" "single_ok ok ahead s'"
    "single_ahead ahead s' = tl (single_ahead ahead s)" "single_whole s' = single_whole s"
    using e(1,2) r x by (auto simp: single_methods_def Single_Next_def Single_Key_def single_ahead_def single_whole_def)
  then show "\<exists>s'. Next (single_methods m) s = Some s' \<and> single_ok ok ahead s' \<and> single_ahead ahead s' = tl (single_ahead ahead s)"
    by blast
  show "Next (single_methods m) s = Some s'' \<Longrightarrow> single_whole s'' = single_whole s" for s''
    using s' by simp
qed

lemma NewSingle:
  assumes "ok r"
  shows "\<exists>s. NewSingleMemtableIterator m r chk = Some s \<and> single_ok ok ahead s \<and>
    single_ahead ahead s = visible chk None (whole r) \<and> single_whole s = visible chk None (whole r)"
proof -
  let ?s = "\<lparr>si_rawIt = r, si_current = None, si_valid = False, si_rangeDelChecker = chk\<rparr>"
  have "single_ok ok ahead ?s" using assms by (simp add: single_ok_def)
  from rewindable_iterator.rewind [OF single_rewindable this]
  show ?thesis by (simp add: NewSingleMemtableIterator_def single_methods_def single_whole_def)
qed

end

end
