(* ===== verification/Memtable.thy ===== *)
theory Memtable
  imports Memtable_Iterator
begin

text \<open>
  One memtable: the interface \<^verbatim>\<open>MemtableStore\<close>, its adapters for the AVL tree and the hash map
  (\<^verbatim>\<open>memtable/adapters.go\<close>), and the generic memtable over any store (\<^verbatim>\<open>memtable/generic_memtable.go\<close>).
  The current time is an argument of the operations with a time to live.

  The locale \<open>memtable_store\<close> is the contract of a store: its content in iteration order, sorted by key
  and within a key from new to old, and what insertion, replacement, removal and search do to it. The
  generic memtable is verified against the contract, and both adapters are shown to keep it.

  Shown here: after any sequence of writes with increasing sequence numbers a memtable answers a read with
  the last write of the key, as a deletion when that write is one or when a newer range tombstone
  covers the key, unless a later tombstone with the same start key hides that one; a flush hands over the
  entries and the tombstones but leaves the tombstones in place.
\<close>

section \<open>Stores\<close>

record ('s, 'it) MemtableStore =
  st_Insert :: "MemtableEntry \<Rightarrow> 's \<Rightarrow> 's"
  st_Upsert :: "MemtableEntry \<Rightarrow> 's \<Rightarrow> bool \<times> 's"
  st_Remove :: "MemtableEntry \<Rightarrow> 's \<Rightarrow> 's"
  st_Search :: "'s \<Rightarrow> MemtableEntry \<Rightarrow> MemtableEntry option"
  st_EntriesInOrder :: "'s \<Rightarrow> MemtableEntry list option"
  st_Reset :: "'s \<Rightarrow> 's"
  st_Size :: "'s \<Rightarrow> nat"
  st_RawIterator :: "'s \<Rightarrow> 'it"
  st_raw :: "('it, MemtableEntry) Iterator"

text \<open>The entry used to search for a key: it stands before every version of the key.\<close>

definition dummy_entry :: "bytes \<Rightarrow> MemtableEntry" where
  "dummy_entry key = zero_entry\<lparr>me_Key := key, me_SeqId := -1\<rparr>"

subsection \<open>AVL tree\<close>

type_synonym AVLTreeStore = "MemtableEntry AVLTree"

definition AVLTreeStore_Upsert :: "MemtableEntry \<Rightarrow> AVLTreeStore \<Rightarrow> bool \<times> AVLTreeStore" where
  "AVLTreeStore_Upsert entry t =
     (case AVL_LowerBound t (dummy_entry (me_Key entry)) of
        Some k \<Rightarrow>
          if me_Key k = me_Key entry then (True, AVL_Insert entry (AVL_Delete k t))
          else (False, AVL_Insert entry t)
      | None \<Rightarrow> (False, AVL_Insert entry t))"

definition AVLTreeStore_Remove :: "MemtableEntry \<Rightarrow> AVLTreeStore \<Rightarrow> AVLTreeStore" where
  "AVLTreeStore_Remove entry t =
     (case AVL_LowerBound t entry of
        None \<Rightarrow> t
      | Some k \<Rightarrow> if me_Key k = me_Key entry \<and> me_SeqId k = me_SeqId entry then AVL_Delete k t else t)"

definition AVLTreeStore_RawIterator :: "AVLTreeStore \<Rightarrow> MemtableEntry AVLTreeIterator RawSingleMemtableIterator" where
  "AVLTreeStore_RawIterator t = NewRawSingleMemtableIterator (AVL_Iterator t)"

definition avl_store :: "(AVLTreeStore, MemtableEntry AVLTreeIterator RawSingleMemtableIterator) MemtableStore" where
  "avl_store = \<lparr>st_Insert = AVL_Insert, st_Upsert = AVLTreeStore_Upsert, st_Remove = AVLTreeStore_Remove,
     st_Search = AVL_LowerBound, st_EntriesInOrder = AVL_EntriesInOrder zero_entry, st_Reset = AVL_Reset,
     st_Size = AVL_Size, st_RawIterator = AVLTreeStore_RawIterator, st_raw = raw_methods (avl_methods zero_entry)\<rparr>"

definition NewAVLTreeStore :: AVLTreeStore where
  "NewAVLTreeStore = NewAVLTree mt_cmp mt_cmpIgnoringSeqId"

subsection \<open>Hash map\<close>

type_synonym HashMapStore = "MemtableEntry HackMap"

definition HashMapStore_Search :: "HashMapStore \<Rightarrow> MemtableEntry \<Rightarrow> MemtableEntry option" where
  "HashMapStore_Search hm entry = HM_LowerBound zero_entry hm (me_Key entry)"

definition HashMapStore_Size :: "HashMapStore \<Rightarrow> nat" where
  "HashMapStore_Size hm = sum_list (map (\<lambda>(k, stack). Stack_Len stack) hm)"

definition HashMapStore_RawIterator :: "HashMapStore \<Rightarrow> MemtableEntry HackMapIterator RawSingleMemtableIterator" where
  "HashMapStore_RawIterator hm = NewRawSingleMemtableIterator (HM_Iterator hm)"

definition hash_store :: "(HashMapStore, MemtableEntry HackMapIterator RawSingleMemtableIterator) MemtableStore" where
  "hash_store = \<lparr>st_Insert = HM_Insert HashKey, st_Upsert = HM_Upsert HashKey, st_Remove = HM_Remove HashKey,
     st_Search = HashMapStore_Search, st_EntriesInOrder = HM_EntriesInOrder HashKey, st_Reset = (\<lambda>_. NewHackMap),
     st_Size = HashMapStore_Size, st_RawIterator = HashMapStore_RawIterator, st_raw = raw_methods (hm_methods HashKey)\<rparr>"

section \<open>The generic memtable\<close>

record 's GenericMemtable =
  gm_store :: 's
  gm_rangeDelStore :: 's
  gm_numEntries :: int
  gm_sizeBytes :: u64
  gm_maxNumEntries :: int
  gm_maxSizeBytes :: u64

definition NewGenericMemtable :: "'s \<Rightarrow> 's \<Rightarrow> int \<Rightarrow> u64 \<Rightarrow> 's GenericMemtable" where
  "NewGenericMemtable store rangeDelStore maxNumEntries maxSizeBytes =
     \<lparr>gm_store = store, gm_rangeDelStore = rangeDelStore, gm_numEntries = 0, gm_sizeBytes = 0,
      gm_maxNumEntries = maxNumEntries, gm_maxSizeBytes = maxSizeBytes\<rparr>"

definition entry_size :: "MemtableEntry \<Rightarrow> u64" where
  "entry_size e = of_nat (length (me_Key e) + length (me_Value e) + 8 + 8 + 1)"

text \<open>Inserting and replacing in the store of the entries, with the counters.\<close>

definition count_entry :: "MemtableEntry \<Rightarrow> 's GenericMemtable \<Rightarrow> 's GenericMemtable" where
  "count_entry e m = m\<lparr>gm_numEntries := gm_numEntries m + 1, gm_sizeBytes := gm_sizeBytes m + entry_size e\<rparr>"

definition gm_insert :: "('s, 'it) MemtableStore \<Rightarrow> MemtableEntry \<Rightarrow> 's GenericMemtable \<Rightarrow> 's GenericMemtable" where
  "gm_insert S e m = count_entry e (m\<lparr>gm_store := st_Insert S e (gm_store m)\<rparr>)"

definition gm_upsert :: "('s, 'it) MemtableStore \<Rightarrow> MemtableEntry \<Rightarrow> 's GenericMemtable \<Rightarrow> 's GenericMemtable" where
  "gm_upsert S e m =
     (let (replaced, store) = st_Upsert S e (gm_store m); m' = m\<lparr>gm_store := store\<rparr> in
      if replaced then m' else count_entry e m')"

definition GM_Put :: "('s, 'it) MemtableStore \<Rightarrow> bytes \<Rightarrow> bytes \<Rightarrow> u64 \<Rightarrow> OpType \<Rightarrow> 's GenericMemtable \<Rightarrow> 's GenericMemtable" where
  "GM_Put S key val seqId opType m =
     (let e = \<lparr>me_OpType = opType, me_Key = key, me_Value = val, me_SeqId = seqId, me_ExpiresAt = 0\<rparr> in
      if opType = OpTypeRangeDel then m\<lparr>gm_rangeDelStore := st_Insert S e (gm_rangeDelStore m)\<rparr>
      else gm_insert S e m)"

definition GM_Upsert :: "('s, 'it) MemtableStore \<Rightarrow> bytes \<Rightarrow> bytes \<Rightarrow> u64 \<Rightarrow> OpType \<Rightarrow> 's GenericMemtable \<Rightarrow> 's GenericMemtable" where
  "GM_Upsert S key val seqId opType =
     gm_upsert S \<lparr>me_OpType = opType, me_Key = key, me_Value = val, me_SeqId = seqId, me_ExpiresAt = 0\<rparr>"

definition GM_PutWithTTL :: "('s, 'it) MemtableStore \<Rightarrow> i64 \<Rightarrow> bytes \<Rightarrow> bytes \<Rightarrow> u64 \<Rightarrow> OpType \<Rightarrow> i64 \<Rightarrow> 's GenericMemtable \<Rightarrow> 's GenericMemtable" where
  "GM_PutWithTTL S now key val seqId opType ttl =
     gm_insert S \<lparr>me_OpType = opType, me_Key = key, me_Value = val, me_SeqId = seqId, me_ExpiresAt = now + ttl\<rparr>"

definition GM_UpsertWithTTL :: "('s, 'it) MemtableStore \<Rightarrow> i64 \<Rightarrow> bytes \<Rightarrow> bytes \<Rightarrow> u64 \<Rightarrow> OpType \<Rightarrow> i64 \<Rightarrow> 's GenericMemtable \<Rightarrow> 's GenericMemtable" where
  "GM_UpsertWithTTL S now key val seqId opType ttl =
     gm_upsert S \<lparr>me_OpType = opType, me_Key = key, me_Value = val, me_SeqId = seqId, me_ExpiresAt = now + ttl\<rparr>"

definition GM_Remove :: "('s, 'it) MemtableStore \<Rightarrow> bytes \<Rightarrow> u64 \<Rightarrow> 's GenericMemtable \<Rightarrow> 's GenericMemtable" where
  "GM_Remove S key seqId m =
     (let n = gm_numEntries m - 1 in
      m\<lparr>gm_store := st_Remove S (zero_entry\<lparr>me_Key := key, me_SeqId := seqId\<rparr>) (gm_store m),
        gm_numEntries := (if n < 0 then 0 else n)\<rparr>)"

text \<open>\<^verbatim>\<open>gatherAllRangeDeletions\<close> walks the filtering iterator of the tombstone store; the argument \<^verbatim>\<open>key\<close> is unused.\<close>

partial_function (option) gather_loop ::
  "('it, MemtableEntry) Iterator \<Rightarrow> 'it \<Rightarrow> MemtableEntry list option" where
  "gather_loop m it =
     (if Valid m it \<and> me_OpType (Key m it) = OpTypeRangeDel then
        Option.bind (Next m it) (\<lambda>it'. Option.bind (gather_loop m it') (\<lambda>rest. Some (Key m it # rest)))
      else Some [])"

definition gatherAllRangeDeletions :: "('s, 'it) MemtableStore \<Rightarrow> 's GenericMemtable \<Rightarrow> MemtableEntry list option" where
  "gatherAllRangeDeletions S m =
     Option.bind (NewSingleMemtableIterator (st_raw S) (st_RawIterator S (gm_rangeDelStore m)) None) (\<lambda>it.
     Option.bind (Single_SeekToFirst (st_raw S) it) (gather_loop (single_methods (st_raw S))))"

definition filtrateNewerRanges :: "MemtableEntry list \<Rightarrow> u64 \<Rightarrow> MemtableEntry list" where
  "filtrateNewerRanges ranges seqId = filter (\<lambda>entry. seqId < me_SeqId entry) ranges"

definition isRangeDeleted :: "MemtableEntry list \<Rightarrow> bytes \<Rightarrow> bool" where
  "isRangeDeleted validRanges key =
     list_ex (\<lambda>entry. bytes_Compare (me_Key entry) key \<le> 0 \<and> 0 \<le> bytes_Compare (me_Value entry) key) validRanges"

definition GM_IsCoveredByRangeDel :: "('s, 'it) MemtableStore \<Rightarrow> 's GenericMemtable \<Rightarrow> bytes \<Rightarrow> u64 \<Rightarrow> bool option" where
  "GM_IsCoveredByRangeDel S m key keySeqId =
     Option.bind (gatherAllRangeDeletions S m) (\<lambda>ranges.
       Some (isRangeDeleted (filtrateNewerRanges ranges keySeqId) key))"

text \<open>The second component tells whether the memtable knows the key; a known key without entry is deleted.\<close>

definition GM_Get :: "('s, 'it) MemtableStore \<Rightarrow> 's GenericMemtable \<Rightarrow> bytes \<Rightarrow> (MemtableEntry option \<times> bool) option" where
  "GM_Get S m key =
     (case st_Search S (gm_store m) (dummy_entry key) of
        None \<Rightarrow> Some (None, False)
      | Some entry \<Rightarrow>
          if me_Key entry \<noteq> key then Some (None, False)
          else Option.bind (gatherAllRangeDeletions S m) (\<lambda>ranges.
            if isRangeDeleted (filtrateNewerRanges ranges (me_SeqId entry)) key then Some (None, True)
            else if me_OpType entry = OpTypeDel then Some (None, True)
            else Some (Some entry, True)))"

definition GM_ShouldFlush :: "'s GenericMemtable \<Rightarrow> bool" where
  "GM_ShouldFlush m \<longleftrightarrow> gm_maxNumEntries m \<le> gm_numEntries m"

definition GM_Reset :: "('s, 'it) MemtableStore \<Rightarrow> 's GenericMemtable \<Rightarrow> 's GenericMemtable" where
  "GM_Reset S m = m\<lparr>gm_store := st_Reset S (gm_store m), gm_numEntries := 0, gm_sizeBytes := 0\<rparr>"

definition GM_Flush :: "('s, 'it) MemtableStore \<Rightarrow> 's GenericMemtable \<Rightarrow> ((MemtableEntry list \<times> MemtableEntry list) \<times> 's GenericMemtable) option" where
  "GM_Flush S m =
     Option.bind (st_EntriesInOrder S (gm_store m)) (\<lambda>entries.
     Option.bind (st_EntriesInOrder S (gm_rangeDelStore m)) (\<lambda>rangeDels.
       Some ((entries, rangeDels), GM_Reset S m)))"

definition GM_ReadEntries :: "('s, 'it) MemtableStore \<Rightarrow> 's GenericMemtable \<Rightarrow> MemtableEntry list option" where
  "GM_ReadEntries S m = st_EntriesInOrder S (gm_store m)"

section \<open>The contract of a store\<close>

definition of_key :: "bytes \<Rightarrow> MemtableEntry list \<Rightarrow> MemtableEntry list" where
  "of_key k es = filter (\<lambda>e. me_Key e = k) es"

definition newer_than_all :: "MemtableEntry \<Rightarrow> MemtableEntry list \<Rightarrow> bool" where
  "newer_than_all e es \<longleftrightarrow> (\<forall>x \<in> set es. me_Key x = me_Key e \<longrightarrow> me_SeqId x < me_SeqId e)"

text \<open>Sorted by key; the versions of a key from new to old.\<close>

definition store_sorted :: "MemtableEntry list \<Rightarrow> bool" where
  "store_sorted es \<longleftrightarrow> sorted (map me_Key es) \<and> (\<forall>k. sorted_wrt (\<lambda>a b. me_SeqId b < me_SeqId a) (of_key k es))"

locale memtable_store = entry_iterator "st_raw S" ok ahead whole
  for S :: "('s, 'it) MemtableStore" and ok ahead whole +
  fixes inv :: "'s \<Rightarrow> bool"
    and content :: "'s \<Rightarrow> MemtableEntry list"
  assumes content_sorted: "inv s \<Longrightarrow> store_sorted (content s)"
    and insert_law: "inv s \<Longrightarrow> me_Key e \<noteq> [] \<Longrightarrow> newer_than_all e (content s) \<Longrightarrow>
      inv (st_Insert S e s) \<and>
      of_key k (content (st_Insert S e s)) = (if k = me_Key e then [e] else []) @ of_key k (content s)"
    and upsert_law: "inv s \<Longrightarrow> me_Key e \<noteq> [] \<Longrightarrow> newer_than_all e (content s) \<Longrightarrow>
      inv (snd (st_Upsert S e s)) \<and> (fst (st_Upsert S e s) \<longleftrightarrow> of_key (me_Key e) (content s) \<noteq> []) \<and>
      (\<exists>rest. set rest \<subseteq> set (of_key (me_Key e) (content s)) \<and>
         of_key k (content (snd (st_Upsert S e s))) = (if k = me_Key e then e # rest else of_key k (content s)))"
    and remove_law: "inv s \<Longrightarrow> of_key (me_Key e) (content s) = [x] \<Longrightarrow> me_SeqId x = me_SeqId e \<Longrightarrow>
      inv (st_Remove S e s) \<and> of_key k (content (st_Remove S e s)) = (if k = me_Key e then [] else of_key k (content s))"
    and search_law: "inv s \<Longrightarrow> st_Search S s e = find (\<lambda>x. me_Key e \<le> me_Key x) (content s)"
    and entries_law: "inv s \<Longrightarrow> st_EntriesInOrder S s = Some (content s)"
    and reset_law: "inv s \<Longrightarrow> inv (st_Reset S s) \<and> content (st_Reset S s) = []"
    and raw_law: "inv s \<Longrightarrow> ok (st_RawIterator S s) \<and> whole (st_RawIterator S s) = content s"

subsection \<open>Consequences of sortedness\<close>

lemma find_key:
  assumes "sorted (map me_Key es)"
  shows "(case find (\<lambda>x. k \<le> me_Key x) es of None \<Rightarrow> None | Some e \<Rightarrow> if me_Key e = k then Some e else None) =
    (case of_key k es of [] \<Rightarrow> None | e # _ \<Rightarrow> Some e)"
  using assms
proof (induction es)
  case (Cons x es)
  have "of_key k es = []" if "k < me_Key x"
    using Cons.prems that by (force simp: of_key_def filter_empty_conv)
  with Cons show ?case by (auto simp: of_key_def)
qed (simp add: of_key_def)

text \<open>Without deletions among them, the visible entries of a sorted list are the newest of each key.\<close>

definition newest :: "MemtableEntry list \<Rightarrow> MemtableEntry set" where
  "newest es = {e \<in> set es. \<forall>x \<in> set es. me_Key x = me_Key e \<longrightarrow> me_SeqId x \<le> me_SeqId e}"

lemma set_of_key: "set (of_key k es) = {e \<in> set es. me_Key e = k}"
  by (auto simp: of_key_def)

lemma newest_hd:
  assumes "store_sorted es"
  shows "e \<in> newest es \<longleftrightarrow> (\<exists>rest. of_key (me_Key e) es = e # rest)"
proof -
  have desc: "sorted_wrt (\<lambda>a b. me_SeqId b < me_SeqId a) (of_key (me_Key e) es)"
    using assms by (simp add: store_sorted_def)
  show ?thesis
  proof (cases "of_key (me_Key e) es")
    case Nil
    with set_of_key [of "me_Key e" es] show ?thesis by (auto simp: newest_def)
  next
    case (Cons y ys)
    have s: "{x \<in> set es. me_Key x = me_Key e} = insert y (set ys)" using set_of_key [of "me_Key e" es] Cons by simp
    have old: "\<forall>x \<in> set ys. me_SeqId x < me_SeqId y" using desc Cons by simp
    have "e \<in> newest es \<longleftrightarrow> e \<in> insert y (set ys) \<and> (\<forall>x \<in> insert y (set ys). me_SeqId x \<le> me_SeqId e)"
      using s unfolding newest_def by blast
    also have "\<dots> \<longleftrightarrow> e = y" using old by (auto simp: not_le [symmetric] dest: order_less_imp_le)
    finally show ?thesis using Cons by auto
  qed
qed

lemma set_visible:
  assumes "sorted (map me_Key es)" "\<forall>e \<in> set es. me_OpType e \<noteq> OpTypeDel"
    and "\<forall>k. prev = Some k \<longrightarrow> (\<forall>e \<in> set es. k \<le> me_Key e)"
  shows "set (visible None prev es) = {e. Some (me_Key e) \<noteq> prev \<and> (\<exists>rest. of_key (me_Key e) es = e # rest)}"
  using assms
proof (induction es arbitrary: prev)
  case (Cons x es)
  show ?case
  proof (cases "prev = Some (me_Key x)")
    case True
    with Cons.IH [of prev] Cons.prems show ?thesis by (auto simp: of_key_def)
  next
    case False
    have vis: "set (visible None prev (x # es)) = insert x (set (visible None (Some (me_Key x)) es))"
      using False Cons.prems(2) by (simp add: range_deleted_def)
    have "Some (me_Key e) \<noteq> prev" if "e \<in> set (x # es)" for e
    proof
      assume "Some (me_Key e) = prev"
      with Cons.prems(3) have "me_Key e \<le> me_Key x" by auto
      moreover have "me_Key x \<le> me_Key e" using that Cons.prems(1) by auto
      ultimately show False using False \<open>Some (me_Key e) = prev\<close> by auto
    qed
    moreover have "e \<in> set (x # es)" if "of_key (me_Key e) (x # es) = e # rest" for e rest
      using that set_of_key [of "me_Key e" "x # es"] by (metis (mono_tags, lifting) list.set_intros(1) mem_Collect_eq)
    ultimately have "{e. Some (me_Key e) \<noteq> prev \<and> (\<exists>rest. of_key (me_Key e) (x # es) = e # rest)} =
        {e. \<exists>rest. of_key (me_Key e) (x # es) = e # rest}" by blast
    moreover have "\<dots> = insert x {e. Some (me_Key e) \<noteq> Some (me_Key x) \<and> (\<exists>rest. of_key (me_Key e) es = e # rest)}"
      by (auto simp: of_key_def)
    ultimately show ?thesis
      using vis Cons.IH [of "Some (me_Key x)"] Cons.prems by auto
  qed
qed (simp add: of_key_def)

lemma visible_newest:
  assumes "store_sorted es" "\<forall>e \<in> set es. me_OpType e \<noteq> OpTypeDel"
  shows "set (visible None None es) = newest es"
  using set_visible [of es None] newest_hd [OF assms(1)] assms by (auto simp: store_sorted_def)

lemma visible_subset: "set (visible chk prev es) \<subseteq> set es"
proof (induction es arbitrary: prev)
  case (Cons x es)
  then show ?case by auto
qed simp

text \<open>
  What the code consults: of the range tombstones with one start key only the newest one. This is the auxiliary
  notion of the proofs; what the properties state is \<open>erased\<close>, which asks for any newer tombstone of the key.
\<close>

definition covered :: "MemtableEntry list \<Rightarrow> bytes \<Rightarrow> u64 \<Rightarrow> bool" where
  "covered dels key seqId \<longleftrightarrow> (\<exists>t \<in> newest dels. seqId < me_SeqId t \<and> me_Key t \<le> key \<and> key \<le> me_Value t)"

text \<open>Some range tombstone deletes what was written for the key with the sequence number or before it.\<close>

definition erased :: "MemtableEntry list \<Rightarrow> bytes \<Rightarrow> u64 \<Rightarrow> bool" where
  "erased dels key seqId \<longleftrightarrow> (\<exists>t \<in> set dels. seqId < me_SeqId t \<and> me_Key t \<le> key \<and> key \<le> me_Value t)"

text \<open>No tombstone of the key was followed by one with the same start key that ends before the key.\<close>

definition unshadowed :: "MemtableEntry list \<Rightarrow> bytes \<Rightarrow> bool" where
  "unshadowed dels key \<longleftrightarrow> (\<forall>s \<in> set dels. \<forall>t \<in> set dels.
     me_Key s = me_Key t \<and> me_SeqId s < me_SeqId t \<and> me_Key s \<le> key \<and> key \<le> me_Value s \<longrightarrow> key \<le> me_Value t)"

lemma newest_above:
  assumes "s \<in> set es"
  obtains t where "t \<in> newest es" "me_Key t = me_Key s" "t = s \<or> me_SeqId s < me_SeqId t"
proof -
  let ?A = "{x \<in> set es. me_Key x = me_Key s}"
  have fin: "finite (me_SeqId ` ?A)" "me_SeqId ` ?A \<noteq> {}" using assms by auto
  from Max_in [OF fin] obtain t where t: "t \<in> set es" "me_Key t = me_Key s" "me_SeqId t = Max (me_SeqId ` ?A)" by auto
  have le: "me_SeqId x \<le> me_SeqId t" if "x \<in> ?A" for x using that t(3) fin(1) by simp
  show thesis
  proof (cases "me_SeqId s = me_SeqId t")
    case True
    then have "s \<in> newest es" using le assms by (auto simp: newest_def)
    then show thesis by (rule that) simp_all
  next
    case False
    have "t \<in> newest es" using le t(1,2) by (auto simp: newest_def)
    moreover have "me_SeqId s < me_SeqId t" using le [of s] assms False by (simp add: order_less_le)
    ultimately show thesis using t(2) that by blast
  qed
qed

lemma covered_erased: "covered dels key seqId \<Longrightarrow> erased dels key seqId"
  by (auto simp: covered_def erased_def newest_def)

lemma erased_covered:
  assumes "unshadowed dels key"
  shows "covered dels key seqId \<longleftrightarrow> erased dels key seqId"
proof
  assume "erased dels key seqId"
  then obtain s where s: "s \<in> set dels" "seqId < me_SeqId s" "me_Key s \<le> key" "key \<le> me_Value s" by (auto simp: erased_def)
  obtain t where t: "t \<in> newest dels" "me_Key t = me_Key s" "t = s \<or> me_SeqId s < me_SeqId t" by (rule newest_above [OF s(1)])
  have "t \<in> set dels" using t(1) by (simp add: newest_def)
  then have "key \<le> me_Value t" using assms s t(2,3) unfolding unshadowed_def by metis
  moreover have "seqId < me_SeqId t" using s(2) t(3) by (auto intro: order_less_trans)
  ultimately show "covered dels key seqId" unfolding covered_def using s(3) t(1,2) by auto
qed (rule covered_erased)

lemma gather_loop_all:
  assumes "forward_iterator n iok iahead" "iok it" "\<forall>e \<in> set (iahead it). me_OpType e = OpTypeRangeDel"
  shows "gather_loop n it = Some (iahead it)"
  using assms(2,3)
proof (induction "iahead it" arbitrary: it)
  case Nil
  then show ?case using forward_iterator.ahead_Nil [OF assms(1)] by (subst gather_loop.simps) simp
next
  case (Cons x xs)
  from forward_iterator.ahead_Cons [OF assms(1) Cons.prems(1) Cons.hyps(2) [symmetric]]
  obtain it' where "Valid n it" "Key n it = x" "Next n it = Some it'" "iok it'" "iahead it' = xs" by metis
  with Cons.hyps(1) [of it'] Cons.hyps(2) [symmetric] Cons.prems show ?case
    by (subst gather_loop.simps) simp
qed

section \<open>Histories\<close>

text \<open>The writes of a memtable with their arguments; the time comes first where it is read.\<close>

datatype gm_write =
    WPut bytes bytes u64 OpType
  | WPutTTL i64 bytes bytes u64 OpType i64
  | WUpsert bytes bytes u64 OpType
  | WUpsertTTL i64 bytes bytes u64 OpType i64

fun gm_step :: "('s, 'it) MemtableStore \<Rightarrow> gm_write \<Rightarrow> 's GenericMemtable \<Rightarrow> 's GenericMemtable" where
  "gm_step S (WPut k v q t) = GM_Put S k v q t"
| "gm_step S (WPutTTL now k v q t ttl) = GM_PutWithTTL S now k v q t ttl"
| "gm_step S (WUpsert k v q t) = GM_Upsert S k v q t"
| "gm_step S (WUpsertTTL now k v q t ttl) = GM_UpsertWithTTL S now k v q t ttl"

definition gm_run :: "('s, 'it) MemtableStore \<Rightarrow> gm_write list \<Rightarrow> 's GenericMemtable \<Rightarrow> 's GenericMemtable" where
  "gm_run S ws m = fold (gm_step S) ws m"

fun write_entry :: "gm_write \<Rightarrow> MemtableEntry" where
  "write_entry (WPut k v q t) = \<lparr>me_OpType = t, me_Key = k, me_Value = v, me_SeqId = q, me_ExpiresAt = 0\<rparr>"
| "write_entry (WPutTTL now k v q t ttl) = \<lparr>me_OpType = t, me_Key = k, me_Value = v, me_SeqId = q, me_ExpiresAt = now + ttl\<rparr>"
| "write_entry (WUpsert k v q t) = \<lparr>me_OpType = t, me_Key = k, me_Value = v, me_SeqId = q, me_ExpiresAt = 0\<rparr>"
| "write_entry (WUpsertTTL now k v q t ttl) = \<lparr>me_OpType = t, me_Key = k, me_Value = v, me_SeqId = q, me_ExpiresAt = now + ttl\<rparr>"

fun is_range_del :: "gm_write \<Rightarrow> bool" where
  "is_range_del (WPut k v q t) \<longleftrightarrow> t = OpTypeRangeDel"
| "is_range_del _ \<longleftrightarrow> False"

definition point_writes :: "gm_write list \<Rightarrow> MemtableEntry list" where
  "point_writes ws = map write_entry (filter (\<lambda>w. \<not> is_range_del w) ws)"

definition range_writes :: "gm_write list \<Rightarrow> MemtableEntry list" where
  "range_writes ws = map write_entry (filter is_range_del ws)"

text \<open>Sequence numbers grow and no key is empty.\<close>

definition history :: "gm_write list \<Rightarrow> bool" where
  "history ws \<longleftrightarrow> sorted_wrt (<) (map (\<lambda>w. me_SeqId (write_entry w)) ws) \<and> (\<forall>w \<in> set ws. me_Key (write_entry w) \<noteq> [])"

text \<open>
  What a read has to answer, given the versions of the key from new to old and the range tombstones: unknown, or
  deleted by a deletion or by any newer range tombstone of the key, or the newest version.
\<close>

definition last_write :: "MemtableEntry list \<Rightarrow> MemtableEntry list \<Rightarrow> bytes \<Rightarrow> MemtableEntry option \<times> bool" where
  "last_write vs dels key =
     (case vs of
        [] \<Rightarrow> (None, False)
      | e # _ \<Rightarrow> if erased dels key (me_SeqId e) \<or> me_OpType e = OpTypeDel then (None, True) else (Some e, True))"

text \<open>The same with the tombstones the code consults.\<close>

definition answer :: "MemtableEntry list \<Rightarrow> MemtableEntry list \<Rightarrow> bytes \<Rightarrow> MemtableEntry option \<times> bool" where
  "answer vs dels key =
     (case vs of
        [] \<Rightarrow> (None, False)
      | e # _ \<Rightarrow> if covered dels key (me_SeqId e) \<or> me_OpType e = OpTypeDel then (None, True) else (Some e, True))"

lemma answer_last_write: "unshadowed dels key \<Longrightarrow> answer vs dels key = last_write vs dels key"
  by (simp add: answer_def last_write_def erased_covered split: list.splits)

text \<open>
  How a memtable relates to the writes it has seen: the stored versions of a key are among its writes and
  the first one is the last write.
\<close>

definition tracks :: "MemtableEntry list \<Rightarrow> MemtableEntry list \<Rightarrow> bool" where
  "tracks stored logged \<longleftrightarrow> set stored \<subseteq> set logged \<and>
     (if stored = [] then logged = [] else logged \<noteq> [] \<and> last logged = hd stored)"

lemma answer_tracks:
  assumes "covered dels = covered dels'" "tracks stored logged"
  shows "answer stored dels key = answer (rev logged) dels' key"
proof (cases stored)
  case Nil
  with assms show ?thesis by (simp add: tracks_def answer_def)
next
  case (Cons e es)
  with assms(2) obtain zs where "rev logged = e # zs"
    by (metis tracks_def hd_rev list.collapse list.discI list.sel(1) rev_is_Nil_conv)
  with Cons assms(1) show ?thesis by (simp add: answer_def)
qed

context memtable_store
begin

definition gm_inv :: "'s GenericMemtable \<Rightarrow> bool" where
  "gm_inv m \<longleftrightarrow> inv (gm_store m) \<and> inv (gm_rangeDelStore m) \<and>
     (\<forall>e \<in> set (content (gm_rangeDelStore m)). me_OpType e = OpTypeRangeDel)"

lemma gather_visible:
  assumes "gm_inv m"
  shows "gatherAllRangeDeletions S m = Some (visible None None (content (gm_rangeDelStore m)))"
proof -
  let ?c = "content (gm_rangeDelStore m)"
  have raw: "ok (st_RawIterator S (gm_rangeDelStore m))" "whole (st_RawIterator S (gm_rangeDelStore m)) = ?c"
    using raw_law assms by (auto simp: gm_inv_def)
  obtain s where s: "NewSingleMemtableIterator (st_raw S) (st_RawIterator S (gm_rangeDelStore m)) None = Some s"
    "single_ok ok ahead s" "single_whole s = visible None None ?c"
    using NewSingle [OF raw(1), of None] raw(2) by auto
  then obtain s' where s': "Single_SeekToFirst (st_raw S) s = Some s'" "single_ok ok ahead s'"
    "single_ahead ahead s' = visible None None ?c"
    using rewindable_iterator.rewind [OF single_rewindable s(2)] by (auto simp: single_methods_def)
  have "\<forall>e \<in> set (single_ahead ahead s'). me_OpType e = OpTypeRangeDel"
    using s'(3) visible_subset [of None None ?c] assms by (auto simp: gm_inv_def)
  from gather_loop_all [OF rewindable_iterator.axioms(1) [OF single_rewindable] s'(2) this]
  show ?thesis using s s' by (simp add: gatherAllRangeDeletions_def)
qed

lemma range_deleted_covered:
  assumes "gm_inv m"
  shows "isRangeDeleted (filtrateNewerRanges (visible None None (content (gm_rangeDelStore m))) seqId) key =
    covered (content (gm_rangeDelStore m)) key seqId"
proof -
  have "set (visible None None (content (gm_rangeDelStore m))) = newest (content (gm_rangeDelStore m))"
    using assms content_sorted by (intro visible_newest) (auto simp: gm_inv_def)
  then show ?thesis by (auto simp: isRangeDeleted_def filtrateNewerRanges_def covered_def list_ex_iff)
qed

lemma GM_IsCoveredByRangeDel_spec:
  "gm_inv m \<Longrightarrow> GM_IsCoveredByRangeDel S m key seqId = Some (covered (content (gm_rangeDelStore m)) key seqId)"
  by (simp add: GM_IsCoveredByRangeDel_def gather_visible range_deleted_covered)

lemma GM_Get_answer:
  assumes "gm_inv m"
  shows "GM_Get S m key = Some (answer (of_key key (content (gm_store m))) (content (gm_rangeDelStore m)) key)"
proof -
  have inv: "inv (gm_store m)" using assms by (simp add: gm_inv_def)
  then have "sorted (map me_Key (content (gm_store m)))" using content_sorted by (simp add: store_sorted_def)
  from find_key [OF this, of key] search_law [OF inv, of "dummy_entry key"] show ?thesis
    by (auto simp: GM_Get_def answer_def gather_visible [OF assms] range_deleted_covered [OF assms] dummy_entry_def
        split: option.splits list.splits if_splits)
qed

lemma content_set:
  assumes "\<And>k. of_key k (content s') = (if k = me_Key e then [e] else []) @ of_key k (content s)"
  shows "set (content s') = insert e (set (content s))"
proof -
  have "x \<in> set (content s') \<longleftrightarrow> x \<in> insert e (set (content s))" for x
    using set_of_key [of "me_Key x" "content s'"] set_of_key [of "me_Key x" "content s"] assms [of "me_Key x"]
    by (auto split: if_splits)
  then show ?thesis by blast
qed

text \<open>The state of a memtable after the writes \<open>ws\<close>.\<close>

definition reflects :: "gm_write list \<Rightarrow> 's GenericMemtable \<Rightarrow> bool" where
  "reflects ws m \<longleftrightarrow> gm_inv m \<and> set (content (gm_rangeDelStore m)) = set (range_writes ws) \<and>
     (\<forall>k. tracks (of_key k (content (gm_store m))) (of_key k (point_writes ws)))"

lemma gm_step_point:
  assumes "gm_inv m" "me_Key (write_entry w) \<noteq> []" "newer_than_all (write_entry w) (content (gm_store m))" "\<not> is_range_del w"
  shows "gm_rangeDelStore (gm_step S w m) = gm_rangeDelStore m \<and> inv (gm_store (gm_step S w m)) \<and>
    (\<forall>k. \<exists>rest. set rest \<subseteq> set (of_key (me_Key (write_entry w)) (content (gm_store m))) \<and>
       of_key k (content (gm_store (gm_step S w m))) =
         (if k = me_Key (write_entry w) then write_entry w # rest else of_key k (content (gm_store m))))"
proof -
  let ?e = "write_entry w"
  have inv: "inv (gm_store m)" using assms(1) by (simp add: gm_inv_def)
  have "gm_step S w m = gm_insert S ?e m \<or> gm_step S w m = gm_upsert S ?e m"
    using assms(4) by (cases w) (simp_all add: GM_Put_def GM_PutWithTTL_def GM_Upsert_def GM_UpsertWithTTL_def Let_def)
  then show ?thesis
  proof
    assume "gm_step S w m = gm_insert S ?e m"
    with insert_law [OF inv assms(2,3)] show ?thesis by (auto simp: gm_insert_def count_entry_def)
  next
    assume "gm_step S w m = gm_upsert S ?e m"
    moreover have "gm_store (gm_upsert S ?e m) = snd (st_Upsert S ?e (gm_store m))"
      "gm_rangeDelStore (gm_upsert S ?e m) = gm_rangeDelStore m"
      by (simp_all add: gm_upsert_def count_entry_def Let_def split: prod.splits)
    ultimately show ?thesis using upsert_law [OF inv assms(2,3)] by simp
  qed
qed

lemma reflects_step:
  assumes "reflects ws m" "history (ws @ [w])"
  shows "reflects (ws @ [w]) (gm_step S w m)"
proof -
  let ?e = "write_entry w"
  have old: "\<forall>x \<in> set ws. me_SeqId (write_entry x) < me_SeqId ?e" and key: "me_Key ?e \<noteq> []"
    using assms(2) by (auto simp: history_def sorted_wrt_append)
  have "set (content (gm_store m)) \<subseteq> set (point_writes ws)"
  proof
    fix x assume "x \<in> set (content (gm_store m))"
    then have "x \<in> set (of_key (me_Key x) (content (gm_store m)))" by (simp add: set_of_key)
    then have "x \<in> set (of_key (me_Key x) (point_writes ws))" using assms(1) by (auto simp: reflects_def tracks_def)
    then show "x \<in> set (point_writes ws)" by (simp add: set_of_key)
  qed
  then have new: "newer_than_all ?e (content (gm_store m))"
    using old by (auto simp: newer_than_all_def point_writes_def)
  have newr: "newer_than_all ?e (content (gm_rangeDelStore m))"
    using assms(1) old by (auto simp: newer_than_all_def reflects_def range_writes_def)
  note m = assms(1) [unfolded reflects_def]
  show ?thesis
  proof (cases "is_range_del w")
    case True
    then have step: "gm_step S w m = m\<lparr>gm_rangeDelStore := st_Insert S ?e (gm_rangeDelStore m)\<rparr>" "me_OpType ?e = OpTypeRangeDel"
      by (cases w; simp add: GM_Put_def Let_def)+
    have inv: "inv (gm_rangeDelStore m)" using m by (simp add: gm_inv_def)
    note ins = insert_law [OF inv key newr]
    have set: "set (content (st_Insert S ?e (gm_rangeDelStore m))) = insert ?e (set (content (gm_rangeDelStore m)))"
      by (rule content_set) (use ins in blast)
    have log: "range_writes (ws @ [w]) = range_writes ws @ [?e]" "point_writes (ws @ [w]) = point_writes ws"
      using True by (simp_all add: range_writes_def point_writes_def)
    have "gm_inv (gm_step S w m)" using m ins set step by (simp add: gm_inv_def)
    with m set log step(1) show ?thesis by (simp add: reflects_def)
  next
    case False
    have pw: "of_key k (point_writes (ws @ [w])) = of_key k (point_writes ws) @ (if k = me_Key ?e then [?e] else [])"
      "range_writes (ws @ [w]) = range_writes ws" for k
      using False by (auto simp: point_writes_def of_key_def range_writes_def)
    note stored = gm_step_point [OF m [THEN conjunct1] key new False]
    have "gm_inv (gm_step S w m)" using stored m by (simp add: gm_inv_def)
    moreover have "set (content (gm_rangeDelStore (gm_step S w m))) = set (range_writes (ws @ [w]))"
      using stored m pw by simp
    moreover have "tracks (of_key k (content (gm_store (gm_step S w m)))) (of_key k (point_writes (ws @ [w])))" for k
    proof -
      obtain rest where rest: "set rest \<subseteq> set (of_key (me_Key ?e) (content (gm_store m)))"
        "of_key k (content (gm_store (gm_step S w m))) = (if k = me_Key ?e then ?e # rest else of_key k (content (gm_store m)))"
        using stored by blast
      have t: "tracks (of_key k (content (gm_store m))) (of_key k (point_writes ws))" using m by blast
      show ?thesis
      proof (cases "k = me_Key ?e")
        case True
        with t rest pw(1) [of k] show ?thesis by (auto simp: tracks_def split: if_splits)
      next
        case no: False
        with t rest pw(1) [of k] show ?thesis by simp
      qed
    qed
    ultimately show ?thesis unfolding reflects_def by blast
  qed
qed

lemma reflects_run:
  assumes "inv s0" "content s0 = []" "history ws"
  shows "reflects ws (gm_run S ws (NewGenericMemtable s0 s0 maxNum maxSize))"
  using assms(3)
proof (induction ws rule: rev_induct)
  case Nil
  with assms show ?case
    by (simp add: reflects_def gm_run_def gm_inv_def NewGenericMemtable_def range_writes_def point_writes_def of_key_def tracks_def)
next
  case (snoc w ws)
  then have "history ws" by (auto simp: history_def sorted_wrt_append)
  with snoc reflects_step show ?case by (simp add: gm_run_def)
qed

lemma reflects_New:
  "inv s0 \<Longrightarrow> content s0 = [] \<Longrightarrow> reflects [] (NewGenericMemtable s0 s0 maxNum maxSize)"
  using reflects_run [of s0 "[]"] by (simp add: history_def gm_run_def)

lemma Get_reflects:
  assumes "reflects ws m"
  shows "GM_Get S m key = Some (answer (rev (of_key key (point_writes ws))) (range_writes ws) key)"
proof -
  note r = assms [unfolded reflects_def]
  have "newest (content (gm_rangeDelStore m)) = newest (range_writes ws)" using r by (simp add: newest_def)
  then have "covered (content (gm_rangeDelStore m)) = covered (range_writes ws)" by (simp add: covered_def fun_eq_iff)
  moreover have "tracks (of_key key (content (gm_store m))) (of_key key (point_writes ws))" using r by blast
  ultimately have "answer (of_key key (content (gm_store m))) (content (gm_rangeDelStore m)) key =
      answer (rev (of_key key (point_writes ws))) (range_writes ws) key"
    by (rule answer_tracks)
  with GM_Get_answer [of m] r show ?thesis by simp
qed

lemma Get_run:
  "inv s0 \<Longrightarrow> content s0 = [] \<Longrightarrow> history ws \<Longrightarrow>
    GM_Get S (gm_run S ws (NewGenericMemtable s0 s0 maxNum maxSize)) key =
      Some (answer (rev (of_key key (point_writes ws))) (range_writes ws) key)"
  by (intro Get_reflects reflects_run)

lemma flush_reflects:
  assumes "reflects ws m"
  shows "\<exists>es ds m'. GM_Flush S m = Some ((es, ds), m') \<and> store_sorted es \<and> store_sorted ds \<and>
    (\<forall>k. tracks (of_key k es) (of_key k (point_writes ws))) \<and> set ds = set (range_writes ws) \<and>
    content (gm_store m') = [] \<and> gm_numEntries m' = 0 \<and> content (gm_rangeDelStore m') = ds"
proof -
  have "inv (gm_store m)" "inv (gm_rangeDelStore m)" using assms by (auto simp: reflects_def gm_inv_def)
  with assms show ?thesis
    using content_sorted entries_law reset_law [of "gm_store m"] by (simp add: GM_Flush_def GM_Reset_def reflects_def)
qed

end

section \<open>The AVL tree keeps the contract\<close>

definition avl_store_inv :: "AVLTreeStore \<Rightarrow> bool" where
  "avl_store_inv t \<longleftrightarrow> avl_inv t \<and> avl_cmp t = mt_cmp \<and> avl_cmpIgnoringSeqId t = mt_cmpIgnoringSeqId"

definition avl_content :: "AVLTreeStore \<Rightarrow> MemtableEntry list" where
  "avl_content t = inorder (avl_root t)"

lemma strictly_store_sorted:
  assumes "strictly mt_cmp es"
  shows "store_sorted es"
proof -
  have "sorted (map me_Key es)"
    using assms unfolding strictly_def sorted_map by (rule sorted_wrt_mono_rel [rotated]) (auto simp: mt_cmp_simps)
  moreover have "sorted_wrt (\<lambda>a b. me_SeqId b < me_SeqId a) (of_key k es)" for k
    using sorted_wrt_filter [OF assms [unfolded strictly_def], of "\<lambda>e. me_Key e = k"] unfolding of_key_def
    by (rule sorted_wrt_mono_rel [rotated]) (auto simp: mt_cmp_simps)
  ultimately show ?thesis by (simp add: store_sorted_def)
qed

lemma of_key_insert_before:
  assumes "newer_than_all e es"
  shows "of_key k (insert_before mt_cmp e es) = (if k = me_Key e then [e] else []) @ of_key k es"
proof -
  let ?P = "\<lambda>x. 0 < mt_cmp e x"
  have none: "of_key (me_Key e) (takeWhile ?P es) = []"
    using assms by (auto simp: of_key_def filter_empty_conv newer_than_all_def mt_cmp_simps dest!: set_takeWhileD)
  have "of_key k es = of_key k (takeWhile ?P es) @ of_key k (dropWhile ?P es)"
    by (simp add: of_key_def flip: filter_append)
  with none show ?thesis by (auto simp: insert_before_def of_key_def)
qed

lemma newer_not_equal: "newer_than_all e es \<Longrightarrow> \<forall>x \<in> set es. mt_cmp e x \<noteq> 0"
  by (auto simp: newer_than_all_def mt_cmp_simps)

text \<open>The generic facts on the tree for the two comparators of the memtable.\<close>

lemma avl_store_facts:
  assumes "avl_store_inv t"
  shows "newer_than_all e (avl_content t) \<Longrightarrow> avl_store_inv (AVL_Insert e t) \<and>
      avl_content (AVL_Insert e t) = insert_before mt_cmp e (avl_content t)"
    and "avl_store_inv (AVL_Delete e t) \<and> avl_content (AVL_Delete e t) = filter (\<lambda>x. mt_cmp e x \<noteq> 0) (avl_content t)"
    and "AVL_LowerBound t e = find (\<lambda>x. me_Key e \<le> me_Key x) (avl_content t)"
proof -
  note t = assms [unfolded avl_store_inv_def]
  have s: "strictly mt_cmp (inorder (avl_root t))" and b: "avl (avl_root t)" using t by (auto simp: avl_inv_def)
  have weak: "weakly mt_cmpIgnoringSeqId (inorder (avl_root t))"
    using s unfolding strictly_def weakly_def
    by (rule sorted_wrt_mono_rel [rotated]) (auto simp: mt_cmp_simps mt_cmpIgnoringSeqId_def)
  {
    assume new: "newer_than_all e (avl_content t)"
    from mt_order.inorder_insertNode [OF strictly_weakly [OF s], of e]
      mt_order.insert_before_strictly [OF s newer_not_equal] insertNode_avl [OF b, of mt_cmp e] new t
    show "avl_store_inv (AVL_Insert e t) \<and> avl_content (AVL_Insert e t) = insert_before mt_cmp e (avl_content t)"
      by (simp add: avl_store_inv_def avl_inv_def avl_content_def AVL_Insert_def)
  next
    from mt_order.inorder_deleteNode [OF s, of e] deleteNode_avl [OF b, of mt_cmp e] t s
    show "avl_store_inv (AVL_Delete e t) \<and> avl_content (AVL_Delete e t) = filter (\<lambda>x. mt_cmp e x \<noteq> 0) (avl_content t)"
      by (simp add: avl_store_inv_def avl_inv_def avl_content_def AVL_Delete_def strictly_def sorted_wrt_filter)
  next
    from mt_key_order.lower_bound_loop_find [OF weak, of e None] t
    show "AVL_LowerBound t e = find (\<lambda>x. me_Key e \<le> me_Key x) (avl_content t)"
      by (simp add: AVL_LowerBound_def avl_content_def mt_cmpIgnoringSeqId_def split: option.splits)
  }
qed

lemma avl_content_sorted: "avl_store_inv t \<Longrightarrow> store_sorted (avl_content t)"
  by (metis avl_store_inv_def avl_inv_def avl_content_def strictly_store_sorted)

text \<open>The lower bound of a key that is present is its newest version.\<close>

lemma avl_lower_key:
  assumes "avl_store_inv t" "me_Key d = k"
  shows "(\<exists>x. AVL_LowerBound t d = Some x \<and> me_Key x = k \<and> (\<exists>rest. of_key k (avl_content t) = x # rest)) \<or>
    (\<forall>x. AVL_LowerBound t d = Some x \<longrightarrow> me_Key x \<noteq> k) \<and> of_key k (avl_content t) = []"
proof -
  have "sorted (map me_Key (avl_content t))"
    using avl_content_sorted [OF assms(1)] by (simp add: store_sorted_def)
  from find_key [OF this, of k] avl_store_facts(3) [OF assms(1), of d] assms(2) show ?thesis
    by (auto split: option.splits if_splits list.splits)
qed

lemma of_key_delete:
  assumes "store_sorted es" "of_key k es = x # rest"
  shows "of_key k' (filter (\<lambda>y. mt_cmp x y \<noteq> 0) es) = (if k' = k then rest else of_key k' es)"
proof -
  have x: "me_Key x = k" using assms(2) by (metis (mono_tags, lifting) list.set_intros(1) mem_Collect_eq set_of_key)
  have "of_key k' (filter (\<lambda>y. mt_cmp x y \<noteq> 0) es) = filter (\<lambda>y. mt_cmp x y \<noteq> 0) (of_key k' es)"
    by (simp add: of_key_def conj_commute)
  also have "\<dots> = (if k' = k then rest else of_key k' es)"
  proof (cases "k' = k")
    case True
    have "sorted_wrt (\<lambda>a b. me_SeqId b < me_SeqId a) (x # rest)" using assms by (metis store_sorted_def)
    then have "filter (\<lambda>y. mt_cmp x y \<noteq> 0) rest = rest" by (auto simp: filter_id_conv mt_cmp_simps)
    with True assms(2) show ?thesis by (simp add: mt_cmp_simps)
  next
    case False
    with x show ?thesis by (auto simp: filter_id_conv set_of_key mt_cmp_simps)
  qed
  finally show ?thesis .
qed

lemma avl_upsert:
  assumes "avl_store_inv t" "newer_than_all e (avl_content t)"
  shows "avl_store_inv (snd (AVLTreeStore_Upsert e t)) \<and>
    (fst (AVLTreeStore_Upsert e t) \<longleftrightarrow> of_key (me_Key e) (avl_content t) \<noteq> []) \<and>
    of_key k (avl_content (snd (AVLTreeStore_Upsert e t))) =
      (if k = me_Key e then e # tl (of_key (me_Key e) (avl_content t)) else of_key k (avl_content t))"
proof -
  let ?d = "dummy_entry (me_Key e)"
  have d: "me_Key ?d = me_Key e" by (simp add: dummy_entry_def)
  from avl_lower_key [OF assms(1) d] show ?thesis
  proof (elim disjE exE conjE)
    fix x rest
    assume x: "AVL_LowerBound t ?d = Some x" "me_Key x = me_Key e" "of_key (me_Key e) (avl_content t) = x # rest"
    note del = avl_store_facts(2) [OF assms(1), of x]
    have "newer_than_all e (avl_content (AVL_Delete x t))" using assms(2) del by (simp add: newer_than_all_def)
    note ins = avl_store_facts(1) [OF conjunct1 [OF del] this] and key = of_key_insert_before [OF this]
    from x ins key [of k] del of_key_delete [OF avl_content_sorted [OF assms(1)] x(3), of k] show ?thesis
      by (simp add: AVLTreeStore_Upsert_def)
  next
    assume x: "\<forall>x. AVL_LowerBound t ?d = Some x \<longrightarrow> me_Key x \<noteq> me_Key e" "of_key (me_Key e) (avl_content t) = []"
    then have "AVLTreeStore_Upsert e t = (False, AVL_Insert e t)"
      by (auto simp: AVLTreeStore_Upsert_def split: option.splits)
    with x(2) avl_store_facts(1) [OF assms] of_key_insert_before [OF assms(2), of k] show ?thesis by simp
  qed
qed

lemma avl_remove:
  assumes "avl_store_inv t" "of_key (me_Key e) (avl_content t) = [x]" "me_SeqId x = me_SeqId e"
  shows "avl_store_inv (AVLTreeStore_Remove e t) \<and>
    of_key k (avl_content (AVLTreeStore_Remove e t)) = (if k = me_Key e then [] else of_key k (avl_content t))"
proof -
  from avl_lower_key [OF assms(1) refl, of e] assms(2) have "AVL_LowerBound t e = Some x" "me_Key x = me_Key e" by auto
  with assms(3) have "AVLTreeStore_Remove e t = AVL_Delete x t" by (simp add: AVLTreeStore_Remove_def)
  with avl_store_facts(2) [OF assms(1), of x] of_key_delete [OF avl_content_sorted [OF assms(1)] assms(2), of k]
  show ?thesis by simp
qed

interpretation avl_mem: memtable_store avl_store "\<lambda>r. iter_ok (rs_it r)" "\<lambda>r. avl_ahead (rs_it r)"
  "\<lambda>r. inorder (avl_root (ai_tree (rs_it r)))" avl_store_inv avl_content
proof (rule memtable_store.intro)
  show "entry_iterator (st_raw avl_store) (\<lambda>r. iter_ok (rs_it r)) (\<lambda>r. avl_ahead (rs_it r)) (\<lambda>r. inorder (avl_root (ai_tree (rs_it r))))"
    using avl_iter.raw_rewindable [of zero_entry] by (simp add: avl_store_def entry_iterator_def)
  show "memtable_store_axioms avl_store (\<lambda>r. iter_ok (rs_it r)) (\<lambda>r. inorder (avl_root (ai_tree (rs_it r)))) avl_store_inv avl_content"
  proof
    fix t :: AVLTreeStore and e x :: MemtableEntry and k
    assume t: "avl_store_inv t"
    show "store_sorted (avl_content t)" by (rule avl_content_sorted [OF t])
    show "st_Search avl_store t e = find (\<lambda>x. me_Key e \<le> me_Key x) (avl_content t)"
      using avl_store_facts(3) [OF t] by (simp add: avl_store_def)
    show "st_EntriesInOrder avl_store t = Some (avl_content t)"
      by (simp add: avl_store_def AVL_EntriesInOrder_inorder avl_content_def)
    show "avl_store_inv (st_Reset avl_store t) \<and> avl_content (st_Reset avl_store t) = []"
      using t by (simp add: avl_store_def AVL_Reset_def avl_store_inv_def avl_inv_def avl_content_def strictly_def)
    show "iter_ok (rs_it (st_RawIterator avl_store t)) \<and> inorder (avl_root (ai_tree (rs_it (st_RawIterator avl_store t)))) = avl_content t"
      by (simp add: avl_store_def AVLTreeStore_RawIterator_def NewRawSingleMemtableIterator_def AVL_Iterator_def Stack_New_def avl_content_def)
    show "of_key (me_Key e) (avl_content t) = [x] \<Longrightarrow> me_SeqId x = me_SeqId e \<Longrightarrow>
        avl_store_inv (st_Remove avl_store e t) \<and> of_key k (avl_content (st_Remove avl_store e t)) = (if k = me_Key e then [] else of_key k (avl_content t))"
      using avl_remove [OF t, of e x k] by (simp add: avl_store_def)
    assume new: "newer_than_all e (avl_content t)"
    show "avl_store_inv (st_Insert avl_store e t) \<and>
        of_key k (avl_content (st_Insert avl_store e t)) = (if k = me_Key e then [e] else []) @ of_key k (avl_content t)"
      using avl_store_facts(1) [OF t new] of_key_insert_before [OF new, of k] by (simp add: avl_store_def)
    show "avl_store_inv (snd (st_Upsert avl_store e t)) \<and> (fst (st_Upsert avl_store e t) \<longleftrightarrow> of_key (me_Key e) (avl_content t) \<noteq> []) \<and>
        (\<exists>rest. set rest \<subseteq> set (of_key (me_Key e) (avl_content t)) \<and>
          of_key k (avl_content (snd (st_Upsert avl_store e t))) = (if k = me_Key e then e # rest else of_key k (avl_content t)))"
      using avl_upsert [OF t new, of k] list.set_sel(2) [of "of_key (me_Key e) (avl_content t)"]
      by (auto simp: avl_store_def intro!: exI [of _ "tl (of_key (me_Key e) (avl_content t))"])
  qed
qed

section \<open>The hash map keeps the contract\<close>

definition hash_store_inv :: "HashMapStore \<Rightarrow> bool" where
  "hash_store_inv hm \<longleftrightarrow> hm_inv HashKey hm \<and> [] \<notin> fst ` set hm \<and>
     (\<forall>k. sorted_wrt (\<lambda>a b. me_SeqId b < me_SeqId a) (versions hm k))"

lemma of_key_entries: "hm_inv HashKey hm \<Longrightarrow> of_key k (hm_entries hm) = versions hm k"
  using filter_hm_entries [of HashKey hm k] by (simp add: of_key_def HashKey_def)

lemma hm_entries_sorted: "hash_store_inv hm \<Longrightarrow> store_sorted (hm_entries hm)"
  using sorted_hm_entries [of HashKey hm]
  by (simp add: hash_store_inv_def store_sorted_def of_key_entries HashKey_def [abs_def])

lemma keys_update: "fst ` set (AList.update k st hm) = insert k (fst ` set hm)"
  by (simp add: dom_update)

lemma hash_newer:
  assumes "hm_inv HashKey hm" "newer_than_all e (hm_entries hm)"
  shows "\<forall>x \<in> set (versions hm (me_Key e)). me_SeqId x < me_SeqId e"
  using assms set_of_key [of "me_Key e" "hm_entries hm"] by (auto simp: newer_than_all_def of_key_entries)

lemma hash_search:
  assumes "hash_store_inv hm"
  shows "HM_LowerBound zero hm k = find (\<lambda>x. k \<le> me_Key x) (hm_entries hm)"
proof -
  have inv: "hm_inv HashKey hm" using assms by (simp add: hash_store_inv_def)
  have "find (\<lambda>x. k \<le> me_Key x) (concat (map (versions hm) ks)) =
      (case find (\<lambda>x. k \<le> x) ks of None \<Rightarrow> None | Some k' \<Rightarrow> Some (hd (versions hm k')))"
    if "set ks \<subseteq> set (KeysInOrder hm)" for ks using that
  proof (induction ks)
    case (Cons a ks)
    then obtain v vs where v: "versions hm a = v # vs" using versions_nonempty [OF inv, of a] by (cases "versions hm a") auto
    have "\<forall>x \<in> set (versions hm a). me_Key x = a" using versions_key [OF inv, of _ a] by (auto simp: HashKey_def)
    then have "find (\<lambda>x. k \<le> me_Key x) (versions hm a) = (if k \<le> a then Some v else None)"
      using v find_None_iff [of "\<lambda>x. k \<le> me_Key x" vs] by auto
    moreover have "find (\<lambda>x. k \<le> me_Key x) (concat (map (versions hm) ks)) =
        (case find (\<lambda>x. k \<le> x) ks of None \<Rightarrow> None | Some k' \<Rightarrow> Some (hd (versions hm k')))" using Cons by simp
    moreover have "hd (versions hm a) = v" using v by simp
    ultimately show ?case unfolding list.map concat.simps find_append by simp
  qed simp
  with hm_bound_find [OF inv, of "\<lambda>x. k \<le> x" zero] assms show ?thesis
    by (auto simp: HM_LowerBound_def hm_entries_def hash_store_inv_def)
qed

text \<open>A store with changed versions of one key.\<close>

lemma hash_inv_versions:
  assumes "hash_store_inv hm" "hm_inv HashKey hm'" "fst ` set hm' \<subseteq> insert (me_Key e) (fst ` set hm)" "me_Key e \<noteq> []"
    and "\<And>k. versions hm' k = (if k = me_Key e then vs else versions hm k)"
    and "sorted_wrt (\<lambda>a b. me_SeqId b < me_SeqId a) vs"
  shows "hash_store_inv hm' \<and> of_key k (hm_entries hm') = (if k = me_Key e then vs else versions hm k)"
proof -
  have "[] \<notin> fst ` set hm'" using assms(1,3,4) by (auto simp: hash_store_inv_def)
  then show ?thesis using assms by (simp add: hash_store_inv_def of_key_entries)
qed

lemma hash_insert:
  assumes "hash_store_inv hm" "me_Key e \<noteq> []" "\<forall>x \<in> set (versions hm (me_Key e)). me_SeqId x < me_SeqId e"
  shows "hash_store_inv (HM_Insert HashKey e hm) \<and>
    of_key k (hm_entries (HM_Insert HashKey e hm)) = (if k = me_Key e then e # versions hm (me_Key e) else versions hm k)"
proof (rule hash_inv_versions [OF assms(1)])
  show "hm_inv HashKey (HM_Insert HashKey e hm)" using assms(1) by (simp add: hash_store_inv_def HM_Insert_inv)
  show "fst ` set (HM_Insert HashKey e hm) \<subseteq> insert (me_Key e) (fst ` set hm)"
    by (simp add: HM_Insert_def Let_def keys_update HashKey_def)
  show "versions (HM_Insert HashKey e hm) k = (if k = me_Key e then e # versions hm (me_Key e) else versions hm k)" for k
    by (simp add: versions_HM_Insert HashKey_def)
  show "sorted_wrt (\<lambda>a b. me_SeqId b < me_SeqId a) (e # versions hm (me_Key e))"
    using assms(1,3) by (simp add: hash_store_inv_def)
qed (rule assms(2))

lemma hash_upsert:
  assumes "hash_store_inv hm" "me_Key e \<noteq> []"
  shows "(hash_store_inv (snd (HM_Upsert HashKey e hm)) \<and>
      of_key k (hm_entries (snd (HM_Upsert HashKey e hm))) = (if k = me_Key e then [e] else versions hm k)) \<and>
    (fst (HM_Upsert HashKey e hm) \<longleftrightarrow> versions hm (me_Key e) \<noteq> [])"
proof (rule conjI, rule hash_inv_versions [OF assms(1)])
  show "hm_inv HashKey (snd (HM_Upsert HashKey e hm))" using assms(1) by (simp add: hash_store_inv_def HM_Upsert_inv)
  show "fst ` set (snd (HM_Upsert HashKey e hm)) \<subseteq> insert (me_Key e) (fst ` set hm)"
    by (simp add: HM_Upsert_def keys_update HashKey_def)
  show "versions (snd (HM_Upsert HashKey e hm)) k = (if k = me_Key e then [e] else versions hm k)" for k
    by (simp add: versions_HM_Upsert HashKey_def)
  show "fst (HM_Upsert HashKey e hm) \<longleftrightarrow> versions hm (me_Key e) \<noteq> []"
    using assms(1) hm_inv_lookup(1) [of HashKey hm "me_Key e"]
    by (auto simp: HM_Upsert_def HashKey_def versions_def hash_store_inv_def split: option.splits)
qed (simp_all add: assms(2))

lemma hash_remove:
  assumes "hash_store_inv hm"
  shows "hash_store_inv (HM_Remove HashKey e hm) \<and>
    of_key k (hm_entries (HM_Remove HashKey e hm)) = (if k = me_Key e then [] else versions hm k)"
proof -
  have inv: "hm_inv HashKey (HM_Remove HashKey e hm)" using assms by (simp add: hash_store_inv_def HM_Remove_inv)
  have vs: "versions (HM_Remove HashKey e hm) k = (if k = me_Key e then [] else versions hm k)" for k
    by (simp add: versions_HM_Remove HashKey_def)
  have "[] \<notin> fst ` set (HM_Remove HashKey e hm)"
  proof
    assume "[] \<in> fst ` set (HM_Remove HashKey e hm)"
    then have "[] \<in> fst ` set hm"
      using dom_delete_subset [of "HashKey e" hm] by (simp add: HM_Remove_def split: option.splits) blast
    with assms show False by (simp add: hash_store_inv_def)
  qed
  with assms inv vs show ?thesis by (simp add: hash_store_inv_def of_key_entries)
qed

interpretation hash_mem: memtable_store hash_store "\<lambda>r. hm_iter_ok HashKey (rs_it r)" "\<lambda>r. hm_ahead (rs_it r)"
  "\<lambda>r. hm_entries (hi_hackmap (rs_it r))" hash_store_inv hm_entries
proof (rule memtable_store.intro)
  show "entry_iterator (st_raw hash_store) (\<lambda>r. hm_iter_ok HashKey (rs_it r)) (\<lambda>r. hm_ahead (rs_it r)) (\<lambda>r. hm_entries (hi_hackmap (rs_it r)))"
    using hm_iter.raw_rewindable [of HashKey] by (simp add: hash_store_def entry_iterator_def)
  show "memtable_store_axioms hash_store (\<lambda>r. hm_iter_ok HashKey (rs_it r)) (\<lambda>r. hm_entries (hi_hackmap (rs_it r))) hash_store_inv hm_entries"
  proof
    fix hm :: HashMapStore and e x :: MemtableEntry and k
    assume hm: "hash_store_inv hm"
    then have inv: "hm_inv HashKey hm" by (simp add: hash_store_inv_def)
    show "store_sorted (hm_entries hm)" by (rule hm_entries_sorted [OF hm])
    show "st_Search hash_store hm e = find (\<lambda>x. me_Key e \<le> me_Key x) (hm_entries hm)"
      using hash_search [OF hm] by (simp add: hash_store_def HashMapStore_Search_def)
    show "st_EntriesInOrder hash_store hm = Some (hm_entries hm)"
      by (simp add: hash_store_def HM_EntriesInOrder_entries [OF inv])
    show "hash_store_inv (st_Reset hash_store hm) \<and> hm_entries (st_Reset hash_store hm) = []"
      by (simp add: hash_store_def hash_store_inv_def NewHackMap_def hm_inv_def hm_entries_def KeysInOrder_def versions_def)
    show "hm_iter_ok HashKey (rs_it (st_RawIterator hash_store hm)) \<and> hm_entries (hi_hackmap (rs_it (st_RawIterator hash_store hm))) = hm_entries hm"
      using inv by (simp add: hash_store_def HashMapStore_RawIterator_def NewRawSingleMemtableIterator_def HM_Iterator_def hm_iter_ok_def)
    show "of_key (me_Key e) (hm_entries hm) = [x] \<Longrightarrow> me_SeqId x = me_SeqId e \<Longrightarrow>
        hash_store_inv (st_Remove hash_store e hm) \<and> of_key k (hm_entries (st_Remove hash_store e hm)) = (if k = me_Key e then [] else of_key k (hm_entries hm))"
      using hash_remove [OF hm, of e k] by (simp add: hash_store_def of_key_entries inv)
    assume key: "me_Key e \<noteq> []" and new: "newer_than_all e (hm_entries hm)"
    note seq = hash_newer [OF inv new]
    show "hash_store_inv (st_Insert hash_store e hm) \<and>
        of_key k (hm_entries (st_Insert hash_store e hm)) = (if k = me_Key e then [e] else []) @ of_key k (hm_entries hm)"
      using hash_insert [OF hm key seq] by (auto simp: hash_store_def of_key_entries inv)
    show "hash_store_inv (snd (st_Upsert hash_store e hm)) \<and> (fst (st_Upsert hash_store e hm) \<longleftrightarrow> of_key (me_Key e) (hm_entries hm) \<noteq> []) \<and>
        (\<exists>rest. set rest \<subseteq> set (of_key (me_Key e) (hm_entries hm)) \<and>
          of_key k (hm_entries (snd (st_Upsert hash_store e hm))) = (if k = me_Key e then e # rest else of_key k (hm_entries hm)))"
      using hash_upsert [OF hm key] by (auto simp: hash_store_def of_key_entries inv intro!: exI [of _ "[]"])
  qed
qed

section \<open>Properties\<close>

definition avl_memtable :: "gm_write list \<Rightarrow> AVLTreeStore GenericMemtable" where
  "avl_memtable ws = gm_run avl_store ws (NewGenericMemtable NewAVLTreeStore NewAVLTreeStore 1000 1000)"

definition hash_memtable :: "gm_write list \<Rightarrow> HashMapStore GenericMemtable" where
  "hash_memtable ws = gm_run hash_store ws (NewGenericMemtable NewHackMap NewHackMap 1000 1000)"

lemma avl_store_New: "avl_store_inv NewAVLTreeStore" "avl_content NewAVLTreeStore = []"
  by (simp_all add: NewAVLTreeStore_def NewAVLTree_def avl_store_inv_def avl_inv_def avl_content_def strictly_def)

lemma hash_store_New: "hash_store_inv NewHackMap" "hm_entries NewHackMap = []"
  by (simp_all add: NewHackMap_def hash_store_inv_def hm_inv_def hm_entries_def KeysInOrder_def versions_def)

lemmas avl_reflects = avl_mem.reflects_run [OF avl_store_New, of _ 1000 1000, folded avl_memtable_def]
lemmas hash_reflects = hash_mem.reflects_run [OF hash_store_New, of _ 1000 1000, folded hash_memtable_def]
lemmas avl_Get = avl_mem.Get_run [OF avl_store_New, of _ 1000 1000, folded avl_memtable_def]
lemmas hash_Get = hash_mem.Get_run [OF hash_store_New, of _ 1000 1000, folded hash_memtable_def]

text \<open>C3: A read of a memtable, over the AVL tree or over the hash map, returns and answers with the last write of the
  key, whether the writes insert or replace and with or without a time to live: unknown when there is none,
  deleted when that write is a deletion or any newer range tombstone covers the key (bounds included), and the
  written entry otherwise. The writes have increasing sequence numbers and keys that are not empty, and no range
  tombstone of the key was followed by one with the same start key that ends before the key: such a tombstone is
  lost (\<open>memtable_shadowed_tombstone\<close>).\<close>

theorem memtable_last_write:
  assumes "history ws" "unshadowed (range_writes ws) key"
  shows "GM_Get avl_store (avl_memtable ws) key = Some (last_write (rev (of_key key (point_writes ws))) (range_writes ws) key) \<and>
    GM_Get hash_store (hash_memtable ws) key = Some (last_write (rev (of_key key (point_writes ws))) (range_writes ws) key)"
  using avl_Get [OF assms(1), of key] hash_Get [OF assms(1), of key] by (simp add: answer_last_write [OF assms(2)])

theorem memtable_last_write_witness:
  "let ws = [WPut [1] [10] 1 OpTypePut, WUpsert [2] [20] 2 OpTypePut, WUpsert [1] [11] 3 OpTypePut,
       WPut [2] [5] 4 OpTypeRangeDel, WPut [2] [6] 5 OpTypeRangeDel] in
   GM_Get avl_store (avl_memtable ws) [2] = Some (None, True) \<and>
   GM_Get hash_store (hash_memtable ws) [1] =
     Some (Some \<lparr>me_OpType = OpTypePut, me_Key = [1], me_Value = [11], me_SeqId = 3, me_ExpiresAt = 0\<rparr>, True)"
proof -
  let ?ws = "[WPut [1] [10] 1 OpTypePut, WUpsert [2] [20] 2 OpTypePut, WUpsert [1] [11] 3 OpTypePut,
       WPut [2] [5] 4 OpTypeRangeDel, WPut [2] [6] 5 OpTypeRangeDel]"
  have h: "history ?ws" by (simp add: history_def)
  have u: "unshadowed (range_writes ?ws) k" if "k = [1] \<or> k = [2]" for k
    using that by (auto simp: unshadowed_def range_writes_def)
  show ?thesis
    using conjunct1 [OF memtable_last_write [OF h u, of "[2]"]] conjunct2 [OF memtable_last_write [OF h u, of "[1]"]]
    by (simp add: last_write_def of_key_def point_writes_def range_writes_def erased_def)
qed



text \<open>C31: A range tombstone is lost when a later one has the same start key, however short: the memtable then
  answers every read as if the earlier tombstone had never been written.\<close>

theorem memtable_shadowed_tombstone:
  assumes "history (ws1 @ WPut a z q OpTypeRangeDel # ws2)" "WPut a z' q' OpTypeRangeDel \<in> set ws2"
  shows "GM_Get avl_store (avl_memtable (ws1 @ WPut a z q OpTypeRangeDel # ws2)) key =
      GM_Get avl_store (avl_memtable (ws1 @ ws2)) key \<and>
    GM_Get hash_store (hash_memtable (ws1 @ WPut a z q OpTypeRangeDel # ws2)) key =
      GM_Get hash_store (hash_memtable (ws1 @ ws2)) key"
proof -
  let ?w = "WPut a z q OpTypeRangeDel"
  have h: "history (ws1 @ ws2)" using assms(1) by (auto simp: history_def sorted_wrt_append)
  have later: "q < q'" using assms by (force simp: history_def sorted_wrt_append)
  let ?d = "range_writes (ws1 @ ws2)"
  have in_d: "write_entry (WPut a z' q' OpTypeRangeDel) \<in> set ?d" using assms(2) by (force simp: range_writes_def)
  have ds: "set (range_writes (ws1 @ ?w # ws2)) = insert (write_entry ?w) (set ?d)" by (auto simp: range_writes_def)
  have "newest (range_writes (ws1 @ ?w # ws2)) = newest ?d"
    using in_d later unfolding newest_def ds by (auto simp: not_le dest: bspec)
  then have c: "covered (range_writes (ws1 @ ?w # ws2)) = covered ?d" by (simp add: covered_def fun_eq_iff)
  have p: "point_writes (ws1 @ ?w # ws2) = point_writes (ws1 @ ws2)" by (simp add: point_writes_def)
  have "answer vs (range_writes (ws1 @ ?w # ws2)) key = answer vs ?d key" for vs unfolding answer_def c ..
  then show ?thesis
    using avl_Get [OF assms(1), of key] avl_Get [OF h, of key] hash_Get [OF assms(1), of key] hash_Get [OF h, of key] p
    by simp
qed

theorem memtable_shadowed_tombstone_witness:
  "let ws = [WPut [3] [7] 1 OpTypePut, WPut [1] [9] 2 OpTypeRangeDel, WPut [1] [2] 3 OpTypeRangeDel] in
   GM_Get avl_store (avl_memtable ws) [3] =
     Some (Some \<lparr>me_OpType = OpTypePut, me_Key = [3], me_Value = [7], me_SeqId = 1, me_ExpiresAt = 0\<rparr>, True)"
proof -
  let ?ws2 = "[WPut [1] [2] 3 OpTypeRangeDel]"
  have h: "history ([WPut [3] [7] 1 OpTypePut] @ WPut [1] [9] 2 OpTypeRangeDel # ?ws2)" by (simp add: history_def)
  have h': "history ([WPut [3] [7] 1 OpTypePut] @ ?ws2)" by (simp add: history_def)
  show ?thesis
    using conjunct1 [OF memtable_shadowed_tombstone [OF h, of "[2]" 3 "[3]"]] avl_Get [OF h', of "[3]"]
    by (simp add: answer_def of_key_def point_writes_def range_writes_def covered_def newest_def)
qed

end
