(* ===== verification/Merged_Iterator.thy ===== *)
theory Merged_Iterator
  imports Winner_Tree Min_Heap Memtable
begin

text \<open>
  The iterators over several memtables of \<^verbatim>\<open>memtable/memtable_iterator.go\<close>: \<^verbatim>\<open>RawIterator\<close> merges the iterators
  of the memtables with a merge structure, \<^verbatim>\<open>MergedMemtableIterator\<close> shows the newest version of each key and
  hides deleted ones. The dynamic choice of the merge structure is a datatype with one constructor per
  implementation.

  Shown here: over either structure the raw iterator walks a sorted merge of all entries, so the loops over
  it end, and the merged iterator shows exactly the visible newest versions. Setting the raw iterator back
  to the start works over the tree; over the heap it forgets the iterators that were exhausted.

  Moving backward is not modelled; the source calls it best-effort and does not use it.
\<close>

section \<open>The two merge structures\<close>

datatype merge_struct = MS_Heap HeapPriorityQueue | MS_Tree WinnerTree

abbreviation Heap :: byte where "Heap \<equiv> 0"
abbreviation WTree :: byte where "WTree \<equiv> 1"

definition NewMergeStructure :: "byte \<Rightarrow> ('it, 'a) Iterator \<Rightarrow> 'a comparator \<Rightarrow> 'it list \<Rightarrow> merge_struct option" where
  "NewMergeStructure t m cmp its =
     (if t = Heap then Some (MS_Heap (NewHeapPriorityQueue m cmp its)) else map_option MS_Tree (NewWinnerTree m cmp its))"

definition ms_methods :: "('it, 'a) Iterator \<Rightarrow> 'a comparator \<Rightarrow> (merge_struct, 'it, 'a) MergeStructure" where
  "ms_methods m cmp =
     \<lparr>ms_Winner = (\<lambda>s. case s of MS_Heap h \<Rightarrow> hq_Winner h | MS_Tree w \<Rightarrow> wt_Winner w),
      ms_Update = (\<lambda>i s its. case s of MS_Heap h \<Rightarrow> MS_Heap (hq_Update m cmp i h its) | MS_Tree w \<Rightarrow> MS_Tree (wt_Update m cmp i w its)),
      ms_Advance = (\<lambda>i s its. case s of
          MS_Heap h \<Rightarrow> map_option (\<lambda>(h, its). (MS_Heap h, its)) (hq_Advance m cmp i h its)
        | MS_Tree w \<Rightarrow> map_option (\<lambda>(w, its). (MS_Tree w, its)) (wt_Advance m cmp i w its)),
      ms_Iterators = (\<lambda>s. case s of MS_Heap h \<Rightarrow> hq_Iterators h | MS_Tree w \<Rightarrow> wt_Iterators w)\<rparr>"

definition ms_inv :: "('it, 'a) Iterator \<Rightarrow> 'a comparator \<Rightarrow> merge_struct \<Rightarrow> 'it list \<Rightarrow> bool" where
  "ms_inv m cmp s its = (case s of MS_Heap h \<Rightarrow> hq_inv m cmp h its | MS_Tree w \<Rightarrow> wt_ok m cmp w its)"

lemma ms_methods_Heap:
  "ms_Winner (ms_methods m cmp) (MS_Heap h) = ms_Winner (hq_methods m cmp) h"
  "ms_Update (ms_methods m cmp) i (MS_Heap h) its = MS_Heap (ms_Update (hq_methods m cmp) i h its)"
  "ms_Advance (ms_methods m cmp) i (MS_Heap h) its = map_option (\<lambda>(h, its). (MS_Heap h, its)) (ms_Advance (hq_methods m cmp) i h its)"
  "ms_Iterators (ms_methods m cmp) (MS_Heap h) = ms_Iterators (hq_methods m cmp) h"
  "ms_inv m cmp (MS_Heap h) its = hq_inv m cmp h its"
  by (simp_all add: ms_methods_def hq_methods_def ms_inv_def)

lemma ms_methods_Tree:
  "ms_Winner (ms_methods m cmp) (MS_Tree w) = ms_Winner (wt_methods m cmp) w"
  "ms_Update (ms_methods m cmp) i (MS_Tree w) its = MS_Tree (ms_Update (wt_methods m cmp) i w its)"
  "ms_Advance (ms_methods m cmp) i (MS_Tree w) its = map_option (\<lambda>(w, its). (MS_Tree w, its)) (ms_Advance (wt_methods m cmp) i w its)"
  "ms_Iterators (ms_methods m cmp) (MS_Tree w) = ms_Iterators (wt_methods m cmp) w"
  "ms_inv m cmp (MS_Tree w) its = wt_ok m cmp w its"
  by (simp_all add: ms_methods_def wt_methods_def ms_inv_def)

interpretation tree_merge: seekable_merge_structure mt_cmp m "wt_methods m mt_cmp" "wt_ok m mt_cmp" "wt_stale m mt_cmp" for m
  by (rule wt_contract) (rule mt_order.cmp_order_axioms)

interpretation heap_merge: merge_structure mt_cmp m "hq_methods m mt_cmp" "hq_inv m mt_cmp" for m
  by (rule hq_contract) (rule mt_order.cmp_order_axioms)

interpretation any_merge: merge_structure mt_cmp m "ms_methods m mt_cmp" "ms_inv m mt_cmp" for m
proof
  fix s its i j it its'
  assume inv: "ms_inv m mt_cmp s its"
  show "ms_Winner (ms_methods m mt_cmp) s = Some i \<Longrightarrow> i < length its"
    using inv heap_merge.winner_range tree_merge.winner_range by (cases s) (auto simp: ms_methods_Heap ms_methods_Tree)
  show "j < length its \<Longrightarrow> Valid m (its ! j) \<Longrightarrow>
      \<exists>i. ms_Winner (ms_methods m mt_cmp) s = Some i \<and> Valid m (its ! i) \<and> mt_cmp (Key m (its ! i)) (Key m (its ! j)) \<le> 0"
    using inv heap_merge.winner_least tree_merge.winner_least by (cases s) (simp_all add: ms_methods_Heap ms_methods_Tree)
  show "i < length its \<Longrightarrow> ms_inv m mt_cmp (ms_Update (ms_methods m mt_cmp) i s its) its"
    using inv heap_merge.update_law tree_merge.update_law by (cases s) (simp_all add: ms_methods_Heap ms_methods_Tree)
  show "same_front m its its' \<Longrightarrow> ms_inv m mt_cmp s its'"
    using inv heap_merge.front_law tree_merge.front_law by (cases s) (simp_all add: ms_methods_Heap ms_methods_Tree)
  show "set (ms_Iterators (ms_methods m mt_cmp) s) \<subseteq> {..< length its} \<and>
      (\<forall>i < length its. Valid m (its ! i) \<longrightarrow> i \<in> set (ms_Iterators (ms_methods m mt_cmp) s))"
    using inv heap_merge.members_law tree_merge.members_law by (cases s) (simp_all add: ms_methods_Heap ms_methods_Tree)
  assume w: "ms_Winner (ms_methods m mt_cmp) s = Some i" "Valid m (its ! i)" "Next m (its ! i) = Some it"
  show "\<exists>s'. ms_Advance (ms_methods m mt_cmp) i s its = Some (s', its[i := it]) \<and> ms_inv m mt_cmp s' (its[i := it])"
  proof (cases s)
    case (MS_Heap h)
    then show ?thesis using inv w heap_merge.advance_law [of m h its i it] by (auto simp: ms_methods_Heap)
  next
    case (MS_Tree t)
    then show ?thesis using inv w tree_merge.advance_law [of m t its i it] by (auto simp: ms_methods_Tree)
  qed
qed

lemma NewMergeStructure_inv:
  assumes "its \<noteq> []"
  shows "\<exists>s. NewMergeStructure t m mt_cmp its = Some s \<and> ms_inv m mt_cmp s its \<and> ((\<exists>w. s = MS_Tree w) \<longleftrightarrow> t \<noteq> Heap)"
proof (cases "t = Heap")
  case True
  then show ?thesis
    using NewHeap_inv [OF mt_order.cmp_order_axioms, of m its] by (simp add: NewMergeStructure_def ms_inv_def)
next
  case False
  obtain w where "NewWinnerTree m mt_cmp its = Some w" using assms by (auto simp: NewWinnerTree_def Let_def)
  with False NewWinnerTree_ok [OF this] show ?thesis by (simp add: NewMergeStructure_def ms_inv_def)
qed

section \<open>The raw iterator over several memtables\<close>

record 'it RawIterator =
  ri_structure :: "(merge_struct \<times> 'it list) option"
  ri_current :: "MemtableEntry option"
  ri_valid :: bool

definition Raw_Valid :: "'it RawIterator \<Rightarrow> bool" where
  "Raw_Valid r \<longleftrightarrow> ri_structure r \<noteq> None \<and> ri_valid r"

text \<open>The end of every operation: the winner becomes the current entry.\<close>

definition set_winner :: "('it, MemtableEntry) Iterator \<Rightarrow> 'it RawIterator \<Rightarrow> merge_struct \<Rightarrow> 'it list \<Rightarrow> 'it RawIterator" where
  "set_winner m r s its =
     (case ms_Winner (ms_methods m mt_cmp) s of
        Some i \<Rightarrow>
          if Valid m (its ! i) then r\<lparr>ri_structure := Some (s, its), ri_current := Some (Key m (its ! i)), ri_valid := True\<rparr>
          else r\<lparr>ri_structure := Some (s, its), ri_current := None, ri_valid := False\<rparr>
      | None \<Rightarrow> r\<lparr>ri_structure := Some (s, its), ri_current := None, ri_valid := False\<rparr>)"

text \<open>The iterators that are not \<^verbatim>\<open>nil\<close> are set to their first element; the others and the empty ones are dropped.\<close>

fun activate :: "('it, 'a) Iterator \<Rightarrow> 'it option list \<Rightarrow> 'it list option" where
  "activate m [] = Some []"
| "activate m (None # its) = activate m its"
| "activate m (Some it # its) =
     Option.bind (SeekToFirst m it) (\<lambda>it.
     Option.bind (activate m its) (\<lambda>active. Some (if Valid m it then it # active else active)))"

definition invalid_raw :: "'it RawIterator" where
  "invalid_raw = \<lparr>ri_structure = None, ri_current = None, ri_valid = False\<rparr>"

definition NewRawIterator :: "('it, MemtableEntry) Iterator \<Rightarrow> 'it option list \<Rightarrow> byte \<Rightarrow> 'it RawIterator option" where
  "NewRawIterator m iterators mergeStructure =
     (if iterators = [] then Some invalid_raw
      else Option.bind (activate m iterators) (\<lambda>active.
        if active = [] then Some invalid_raw
        else Option.bind (NewMergeStructure mergeStructure m mt_cmp active) (\<lambda>s.
          Some (set_winner m invalid_raw s active))))"

fun seek_first_loop ::
  "('it, MemtableEntry) Iterator \<Rightarrow> nat list \<Rightarrow> merge_struct \<times> 'it list \<Rightarrow> (merge_struct \<times> 'it list) option" where
  "seek_first_loop m [] st = Some st"
| "seek_first_loop m (i # idxs) (s, its) =
     Option.bind (SeekToFirst m (its ! i)) (\<lambda>it.
       let its' = its[i := it] in seek_first_loop m idxs (ms_Update (ms_methods m mt_cmp) i s its', its'))"

definition Raw_SeekToFirst :: "('it, MemtableEntry) Iterator \<Rightarrow> 'it RawIterator \<Rightarrow> 'it RawIterator option" where
  "Raw_SeekToFirst m r =
     (case ri_structure r of
        None \<Rightarrow> Some (r\<lparr>ri_valid := False\<rparr>)
      | Some (s, its) \<Rightarrow>
          Option.bind (seek_first_loop m (ms_Iterators (ms_methods m mt_cmp) s) (s, its)) (\<lambda>(s', its').
            Some (set_winner m r s' its')))"

fun seek_loop :: "('it, MemtableEntry) Iterator \<Rightarrow> MemtableEntry \<Rightarrow> nat list \<Rightarrow> 'it list \<Rightarrow> 'it list option" where
  "seek_loop m key [] its = Some its"
| "seek_loop m key (i # idxs) its = Option.bind (Seek m key (its ! i)) (\<lambda>it. seek_loop m key idxs (its[i := it]))"

definition Raw_Seek :: "('it, MemtableEntry) Iterator \<Rightarrow> MemtableEntry \<Rightarrow> 'it RawIterator \<Rightarrow> 'it RawIterator option" where
  "Raw_Seek m key r =
     (case ri_structure r of
        None \<Rightarrow> Some (r\<lparr>ri_current := None, ri_valid := False\<rparr>)
      | Some (s, its) \<Rightarrow>
          let idxs = ms_Iterators (ms_methods m mt_cmp) s in
          Option.bind (seek_loop m key idxs its) (\<lambda>its'.
            Some (set_winner m r (fold (\<lambda>i s. ms_Update (ms_methods m mt_cmp) i s its') idxs s) its')))"

definition Raw_Next :: "('it, MemtableEntry) Iterator \<Rightarrow> 'it RawIterator \<Rightarrow> 'it RawIterator option" where
  "Raw_Next m r =
     (case ri_structure r of
        None \<Rightarrow> Some r
      | Some (s, its) \<Rightarrow>
          if \<not> ri_valid r then Some r
          else (case ms_Winner (ms_methods m mt_cmp) s of
              None \<Rightarrow> Some (r\<lparr>ri_current := None, ri_valid := False\<rparr>)
            | Some i \<Rightarrow>
                Option.bind (ms_Advance (ms_methods m mt_cmp) i s its) (\<lambda>(s', its'). Some (set_winner m r s' its'))))"

definition Raw_Key :: "'it RawIterator \<Rightarrow> MemtableEntry" where
  "Raw_Key r = (case ri_current r of None \<Rightarrow> zero_entry | Some e \<Rightarrow> e)"

definition merging_methods :: "('it, MemtableEntry) Iterator \<Rightarrow> ('it RawIterator, MemtableEntry) Iterator" where
  "merging_methods m = \<lparr>Valid = Raw_Valid, SeekToFirst = Raw_SeekToFirst m, Seek = Raw_Seek m, Next = Raw_Next m, Key = Raw_Key\<rparr>"

section \<open>The filtering iterator over several memtables\<close>

record 'it MergedMemtableIterator =
  mm_rawIterator :: "'it RawIterator"
  mm_current :: "MemtableEntry option"
  mm_prevKey :: "bytes option"
  mm_valid :: bool
  mm_rangeDelChecker :: range_checker

text \<open>\<^verbatim>\<open>append([]byte(nil), key...)\<close> is \<^verbatim>\<open>nil\<close> for an empty key.\<close>

definition copy_key :: "bytes \<Rightarrow> bytes option" where
  "copy_key k = (if k = [] then None else Some k)"

partial_function (option) mm_advance ::
  "('it, MemtableEntry) Iterator \<Rightarrow> 'it MergedMemtableIterator \<Rightarrow> 'it MergedMemtableIterator option" where
  "mm_advance m s =
     (if Raw_Valid (mm_rawIterator s) then
        let entry = Raw_Key (mm_rawIterator s) in
        if me_OpType entry = OpTypeDel then
          Option.bind (Raw_Next m (mm_rawIterator s)) (\<lambda>r.
            mm_advance m (s\<lparr>mm_prevKey := copy_key (me_Key entry), mm_rawIterator := r\<rparr>))
        else if mm_prevKey s = Some (me_Key entry) then
          Option.bind (Raw_Next m (mm_rawIterator s)) (\<lambda>r. mm_advance m (s\<lparr>mm_rawIterator := r\<rparr>))
        else if range_deleted (mm_rangeDelChecker s) entry then
          Option.bind (Raw_Next m (mm_rawIterator s)) (\<lambda>r.
            mm_advance m (s\<lparr>mm_prevKey := copy_key (me_Key entry), mm_rawIterator := r\<rparr>))
        else Some (s\<lparr>mm_current := Some entry, mm_valid := True\<rparr>)
      else Some (s\<lparr>mm_current := None, mm_valid := False\<rparr>))"

definition Merged_SeekToFirst :: "('it, MemtableEntry) Iterator \<Rightarrow> 'it MergedMemtableIterator \<Rightarrow> 'it MergedMemtableIterator option" where
  "Merged_SeekToFirst m s =
     (if ri_structure (mm_rawIterator s) = None then Some (s\<lparr>mm_valid := False\<rparr>)
      else Option.bind (Raw_SeekToFirst m (mm_rawIterator s)) (\<lambda>r.
        mm_advance m (s\<lparr>mm_prevKey := None, mm_rawIterator := r\<rparr>)))"

definition Merged_Seek ::
  "('it, MemtableEntry) Iterator \<Rightarrow> MemtableEntry \<Rightarrow> 'it MergedMemtableIterator \<Rightarrow> 'it MergedMemtableIterator option" where
  "Merged_Seek m key s =
     Option.bind (Raw_Seek m key (mm_rawIterator s)) (\<lambda>r. mm_advance m (s\<lparr>mm_prevKey := None, mm_rawIterator := r\<rparr>))"

definition Merged_Key :: "'it MergedMemtableIterator \<Rightarrow> MemtableEntry" where
  "Merged_Key s = (case mm_current s of None \<Rightarrow> zero_entry | Some e \<Rightarrow> e)"

definition Merged_Next :: "('it, MemtableEntry) Iterator \<Rightarrow> 'it MergedMemtableIterator \<Rightarrow> 'it MergedMemtableIterator option" where
  "Merged_Next m s =
     (if \<not> mm_valid s then Some s
      else Option.bind (Raw_Next m (mm_rawIterator s)) (\<lambda>r.
        mm_advance m (s\<lparr>mm_prevKey := Some (me_Key (Merged_Key s)), mm_rawIterator := r\<rparr>)))"

definition NewMergedMemtableIterator ::
  "('it, MemtableEntry) Iterator \<Rightarrow> 'it RawIterator \<Rightarrow> range_checker \<Rightarrow> 'it MergedMemtableIterator option" where
  "NewMergedMemtableIterator m r chk =
     Merged_SeekToFirst m \<lparr>mm_rawIterator = r, mm_current = None, mm_prevKey = None, mm_valid = False, mm_rangeDelChecker = chk\<rparr>"

definition merged_methods :: "('it, MemtableEntry) Iterator \<Rightarrow> ('it MergedMemtableIterator, MemtableEntry) Iterator" where
  "merged_methods m = \<lparr>Valid = mm_valid, SeekToFirst = Merged_SeekToFirst m, Seek = Merged_Seek m,
     Next = Merged_Next m, Key = Merged_Key\<rparr>"

text \<open>\<^verbatim>\<open>for it.Valid() { it.Next() }\<close>\<close>

partial_function (option) drain :: "('it, 'a) Iterator \<Rightarrow> 'it \<Rightarrow> 'it option" where
  "drain m it = (if Valid m it then Option.bind (Next m it) (drain m) else Some it)"

section \<open>The raw iterator merges\<close>

abbreviation entries_sorted :: "MemtableEntry list \<Rightarrow> bool" where
  "entries_sorted \<equiv> sorted_wrt (\<lambda>a b. mt_cmp a b \<le> 0)"

lemma set_winner_simps [simp]:
  "ri_structure (set_winner m r s its) = Some (s, its)"
  "set_winner m (set_winner m r s its) s its = set_winner m r s its"
  by (auto simp: set_winner_def split: option.splits)

lemma set_winner_valid:
  assumes "ri_valid (set_winner m r s its)"
  shows "\<exists>i. ms_Winner (ms_methods m mt_cmp) s = Some i \<and> Valid m (its ! i) \<and>
    ri_current (set_winner m r s its) = Some (Key m (its ! i))"
  using assms by (auto simp: set_winner_def split: option.splits if_splits)

lemma merging_methods_simps [simp]:
  "Valid (merging_methods m) = Raw_Valid" "Next (merging_methods m) = Raw_Next m" "Key (merging_methods m) = Raw_Key"
  by (simp_all add: merging_methods_def)

lemma mset_concat_advance:
  assumes "i < length xss" "xss ! i = x # xs"
  shows "mset (concat xss) = add_mset x (mset (concat (xss[i := xs])))"
proof -
  have "xss = take i xss @ (x # xs) # drop (Suc i) xss" using assms id_take_nth_drop by metis
  then have "mset (concat xss) = mset (concat (take i xss @ (x # xs) # drop (Suc i) xss))" by simp
  then show ?thesis using assms(1) by (simp add: upd_conv_take_nth_drop)
qed

context entry_iterator
begin

definition walking :: "'it \<Rightarrow> bool" where
  "walking it \<longleftrightarrow> ok it \<and> entries_sorted (ahead it)"

definition raw_ok :: "'it RawIterator \<Rightarrow> bool" where
  "raw_ok r \<longleftrightarrow>
     (case ri_structure r of
        None \<Rightarrow> \<not> ri_valid r
      | Some (s, its) \<Rightarrow> ms_inv m mt_cmp s its \<and> (\<forall>it \<in> set its. walking it) \<and> set_winner m r s its = r)"

definition remaining :: "'it RawIterator \<Rightarrow> MemtableEntry list" where
  "remaining r = (case ri_structure r of None \<Rightarrow> [] | Some (s, its) \<Rightarrow> concat (map ahead its))"

lemma remaining_end:
  assumes "raw_ok r" "\<not> Raw_Valid r"
  shows "remaining r = []"
proof (cases "ri_structure r")
  case (Some st)
  obtain s its where st: "st = (s, its)" by force
  have inv: "ms_inv m mt_cmp s its" and walk: "\<forall>it \<in> set its. walking it" and w: "set_winner m r s its = r"
    using assms(1) Some st by (simp_all add: raw_ok_def)
  have "\<not> Valid m (its ! j)" if j: "j < length its" for j
  proof
    assume "Valid m (its ! j)"
    from any_merge.winner_least [OF inv j this] have "ri_valid (set_winner m r s its)"
      by (auto simp: set_winner_def)
    with w assms(2) Some show False by (simp add: Raw_Valid_def)
  qed
  then have "\<forall>it \<in> set its. ahead it = []" using walk valid_ahead by (metis in_set_conv_nth walking_def)
  with Some st show ?thesis by (simp add: remaining_def)
qed (simp add: remaining_def)

lemma raw_step:
  assumes "raw_ok r" "Raw_Valid r"
  shows "\<exists>r' s its s' its'. Raw_Next m r = Some r' \<and> raw_ok r' \<and> mset (remaining r) = add_mset (Raw_Key r) (mset (remaining r')) \<and>
    (\<forall>x \<in> set (remaining r). mt_cmp (Raw_Key r) x \<le> 0) \<and> ri_structure r = Some (s, its) \<and> ri_structure r' = Some (s', its') \<and>
    length its' = length its \<and> (\<forall>j < length its. whole (its' ! j) = whole (its ! j)) \<and>
    ((\<exists>w. s = MS_Tree w) \<longleftrightarrow> (\<exists>w. s' = MS_Tree w))"
proof -
  obtain s its where st: "ri_structure r = Some (s, its)" using assms(2) by (auto simp: Raw_Valid_def)
  have inv: "ms_inv m mt_cmp s its" and walk: "\<forall>it \<in> set its. walking it" and w: "set_winner m r s its = r"
    using assms(1) st by (simp_all add: raw_ok_def)
  obtain i where i: "ms_Winner (ms_methods m mt_cmp) s = Some i" "Valid m (its ! i)" "ri_current r = Some (Key m (its ! i))" "ri_valid r"
    using set_winner_valid [of m r s its] assms(2) unfolding w by (auto simp: Raw_Valid_def)
  have il: "i < length its" using any_merge.winner_range [OF inv i(1)] .
  then have ok: "ok (its ! i)" using walk by (simp add: walking_def)
  obtain x xs where ax: "ahead (its ! i) = x # xs" using valid_ahead [OF ok] i(2) by (cases "ahead (its ! i)") auto
  with ahead_Cons [OF ok ax] obtain it where it: "Key m (its ! i) = x" "Next m (its ! i) = Some it" "ok it" "ahead it = xs" by metis
  have wh: "whole it = whole (its ! i)" using next_whole [OF ok i(2) it(2)] .
  obtain s' where s': "ms_Advance (ms_methods m mt_cmp) i s its = Some (s', its[i := it])" "ms_inv m mt_cmp s' (its[i := it])"
    using any_merge.advance_law [OF inv i(1,2) it(2)] by blast
  have kind: "(\<exists>w. s = MS_Tree w) \<longleftrightarrow> (\<exists>w. s' = MS_Tree w)"
    using s'(1) by (cases s) (auto simp: ms_methods_def)
  let ?r = "set_winner m r s' (its[i := it])"
  have key: "Raw_Key r = x" using i(3) it(1) by (simp add: Raw_Key_def)
  have next_r: "Raw_Next m r = Some ?r" using st i s'(1) by (simp add: Raw_Next_def)
  have "walking it" using walk il ax it(3,4) by (metis nth_mem sorted_wrt.simps(2) walking_def)
  then have "\<forall>it' \<in> set (its[i := it]). walking it'" using walk set_update_subset_insert [of its i it] by blast
  with s'(2) have okr: "raw_ok ?r" by (simp add: raw_ok_def)
  have "remaining r = concat (map ahead its)" "remaining ?r = concat ((map ahead its)[i := xs])"
    using st it(4) by (simp_all add: remaining_def map_update)
  then have ms: "mset (remaining r) = add_mset x (mset (remaining ?r))"
    using mset_concat_advance [of i "map ahead its" x xs] il ax by simp
  have least: "mt_cmp x y \<le> 0" if "y \<in> set (remaining r)" for y
  proof -
    from that obtain it where "it \<in> set its" "y \<in> set (ahead it)" using st by (auto simp: remaining_def)
    then obtain j where j: "j < length its" "y \<in> set (ahead (its ! j))" by (metis in_set_conv_nth)
    then have okj: "ok (its ! j)" "entries_sorted (ahead (its ! j))" using walk by (auto simp: walking_def)
    have v: "Valid m (its ! j)" using valid_ahead [OF okj(1)] j(2) by auto
    then have "mt_cmp (Key m (its ! j)) y \<le> 0"
      using key_ahead [OF okj(1)] okj(2) j(2) mt_order.cmp_refl by (cases "ahead (its ! j)") auto
    moreover have "mt_cmp x (Key m (its ! j)) \<le> 0" using any_merge.winner_least [OF inv j(1) v] i(1) it(1) by auto
    ultimately show ?thesis using mt_order.cmp_trans by blast
  qed
  have "whole (its[i := it] ! j) = whole (its ! j)" if "j < length its" for j
    using wh that by (cases "j = i") simp_all
  then have "length (its[i := it]) = length its" "\<forall>j < length its. whole (its[i := it] ! j) = whole (its ! j)" by simp_all
  with next_r okr ms least st kind show ?thesis unfolding key by (auto simp: key)
qed

lemma raw_collect:
  "raw_ok r \<Longrightarrow> \<exists>out. collect (merging_methods m) r = Some out \<and> mset out = mset (remaining r) \<and> entries_sorted out"
proof (induction "length (remaining r)" arbitrary: r)
  case 0
  then have "\<not> Raw_Valid r"
    using raw_step [of r] by (metis add_mset_not_empty length_0_conv mset_zero_iff)
  with 0 show ?case by (subst collect.simps) simp
next
  case (Suc n)
  then have v: "Raw_Valid r" using remaining_end [of r] by (metis list.size(3) nat.distinct(1))
  from raw_step [OF Suc.prems v] obtain r' where
    r': "Raw_Next m r = Some r'" "raw_ok r'" "mset (remaining r) = add_mset (Raw_Key r) (mset (remaining r'))"
    and least: "\<forall>x \<in> set (remaining r). mt_cmp (Raw_Key r) x \<le> 0" by blast
  have "size (mset (remaining r)) = Suc n" using Suc.hyps(2) by simp
  then have "n = length (remaining r')" using r'(3) by simp
  from Suc.hyps(1) [OF this r'(2)] obtain out where
    out: "collect (merging_methods m) r' = Some out" "mset out = mset (remaining r')" "entries_sorted out" by blast
  have "set out \<subseteq> set (remaining r)"
    using out(2) r'(3) by (metis mset_eq_setD set_mset_add_mset_insert set_mset_mset subset_insertI)
  with least out(3) have "entries_sorted (Raw_Key r # out)" by auto
  moreover have "collect (merging_methods m) r = Some (Raw_Key r # out)"
    using v r'(1) out(1) by (subst collect.simps) simp
  ultimately show ?case using out(2) r'(3) by auto
qed

definition raw_ahead :: "'it RawIterator \<Rightarrow> MemtableEntry list" where
  "raw_ahead r = the (collect (merging_methods m) r)"

lemma raw_ahead_props: "raw_ok r \<Longrightarrow> mset (raw_ahead r) = mset (remaining r) \<and> entries_sorted (raw_ahead r)"
  using raw_collect [of r] by (auto simp: raw_ahead_def)

lemma raw_ahead_end: "raw_ok r \<Longrightarrow> \<not> Raw_Valid r \<Longrightarrow> raw_ahead r = []"
  by (simp add: raw_ahead_def collect.simps [of "merging_methods m"])

lemma raw_ahead_step:
  assumes "raw_ok r" "Raw_Valid r"
  shows "\<exists>r'. Raw_Next m r = Some r' \<and> raw_ok r' \<and> raw_ahead r = Raw_Key r # raw_ahead r'"
proof -
  from raw_step [OF assms] obtain r' where r': "Raw_Next m r = Some r'" "raw_ok r'" by blast
  with raw_collect [OF r'(2)] assms(2) show ?thesis
    by (auto simp: raw_ahead_def collect.simps [of "merging_methods m" r])
qed

subsection \<open>Starting\<close>

definition startable :: "'it \<Rightarrow> bool" where
  "startable it \<longleftrightarrow> ok it \<and> entries_sorted (whole it)"

definition all_entries :: "'it option list \<Rightarrow> MemtableEntry list" where
  "all_entries iterators = concat (map whole (List.map_filter (\<lambda>x. x) iterators))"

lemma activate_active:
  "\<forall>it. Some it \<in> set iterators \<longrightarrow> startable it \<Longrightarrow>
     \<exists>active. activate m iterators = Some active \<and>
       (\<forall>it \<in> set active. startable it \<and> walking it \<and> ahead it = whole it \<and> whole it \<noteq> []) \<and>
       concat (map whole active) = all_entries iterators"
proof (induction iterators)
  case (Cons x iterators)
  from Cons obtain active where active: "activate m iterators = Some active"
    "\<forall>it \<in> set active. startable it \<and> walking it \<and> ahead it = whole it \<and> whole it \<noteq> []"
    "concat (map whole active) = all_entries iterators" by auto
  show ?case
  proof (cases x)
    case (Some it)
    with Cons.prems have it: "ok it" "entries_sorted (whole it)" by (auto simp: startable_def)
    from rewind [OF it(1)] obtain it' where
      it': "SeekToFirst m it = Some it'" "ok it'" "ahead it' = whole it" "whole it' = whole it" by blast
    have "Valid m it' \<longleftrightarrow> whole it \<noteq> []" using valid_ahead [OF it'(2)] it'(3) by simp
    with it it' active Some show ?thesis
      by (auto simp: startable_def walking_def all_entries_def List.map_filter_simps)
  qed (use active in \<open>simp add: all_entries_def List.map_filter_simps\<close>)
qed (simp add: all_entries_def List.map_filter_simps)

lemma NewRaw:
  assumes "\<forall>it. Some it \<in> set iterators \<longrightarrow> startable it"
  shows "\<exists>r. NewRawIterator m iterators t = Some r \<and> raw_ok r \<and> mset (remaining r) = mset (all_entries iterators) \<and>
    (ri_structure r = None \<longleftrightarrow> all_entries iterators = []) \<and>
    (\<forall>s its. ri_structure r = Some (s, its) \<longrightarrow>
       concat (map whole its) = all_entries iterators \<and> (\<forall>it \<in> set its. startable it \<and> ahead it = whole it) \<and>
       ((\<exists>w. s = MS_Tree w) \<longleftrightarrow> t \<noteq> Heap))"
proof -
  from activate_active [OF assms] obtain active where active: "activate m iterators = Some active"
    "\<forall>it \<in> set active. startable it \<and> walking it \<and> ahead it = whole it \<and> whole it \<noteq> []"
    "concat (map whole active) = all_entries iterators" by blast
  show ?thesis
  proof (cases "active = []")
    case True
    then have "NewRawIterator m iterators t = Some invalid_raw" using active(1) by (simp add: NewRawIterator_def)
    with True active(3) show ?thesis by (simp add: raw_ok_def remaining_def invalid_raw_def flip: active(3))
  next
    case False
    from NewMergeStructure_inv [OF False, of t m] obtain s where
      s: "NewMergeStructure t m mt_cmp active = Some s" "ms_inv m mt_cmp s active" "(\<exists>w. s = MS_Tree w) \<longleftrightarrow> t \<noteq> Heap" by blast
    have "iterators \<noteq> []" using active(1) False by (cases iterators) auto
    then have r: "NewRawIterator m iterators t = Some (set_winner m invalid_raw s active)"
      using active(1) False s(1) by (simp add: NewRawIterator_def)
    have "map ahead active = map whole active" using active(2) by simp
    then have c: "concat (map ahead active) = all_entries iterators" by (simp only: active(3))
    have "all_entries iterators \<noteq> []" using active(2,3) False by (cases active) auto
    then show ?thesis using r s active c by (auto simp: raw_ok_def remaining_def)
  qed
qed

text \<open>Setting all iterators back; they may only be where they started, or the structure must be the tree.\<close>

definition rewound :: "nat set \<Rightarrow> 'it list \<Rightarrow> 'it list \<Rightarrow> bool" where
  "rewound J its its' \<longleftrightarrow> length its' = length its \<and>
     (\<forall>j < length its. if j \<in> J then startable (its' ! j) \<and> ahead (its' ! j) = whole (its ! j) \<and> whole (its' ! j) = whole (its ! j)
       else its' ! j = its ! j)"

lemma seek_first_loop_rewinds:
  assumes keep: "\<And>i it s its. ms_inv m mt_cmp s its \<Longrightarrow> K s its \<Longrightarrow> i < length its \<Longrightarrow> ok it \<Longrightarrow>
      ahead it = whole (its ! i) \<Longrightarrow> whole it = whole (its ! i) \<Longrightarrow>
      ms_inv m mt_cmp (ms_Update (ms_methods m mt_cmp) i s (its[i := it])) (its[i := it]) \<and>
      K (ms_Update (ms_methods m mt_cmp) i s (its[i := it])) (its[i := it])"
  shows "ms_inv m mt_cmp s its \<Longrightarrow> K s its \<Longrightarrow> \<forall>it \<in> set its. startable it \<Longrightarrow> set idxs \<subseteq> {..< length its} \<Longrightarrow>
    \<exists>s' its'. seek_first_loop m idxs (s, its) = Some (s', its') \<and> ms_inv m mt_cmp s' its' \<and> K s' its' \<and> rewound (set idxs) its its'"
proof (induction idxs arbitrary: s its)
  case (Cons i idxs)
  have i: "i < length its" "startable (its ! i)" using Cons.prems(3,4) by auto
  then have "ok (its ! i)" by (simp add: startable_def)
  from rewind [OF this] obtain it where
    it: "SeekToFirst m (its ! i) = Some it" "ok it" "ahead it = whole (its ! i)" "whole it = whole (its ! i)" by blast
  let ?its = "its[i := it]" and ?s = "ms_Update (ms_methods m mt_cmp) i s (its[i := it])"
  have st: "startable it" using i(2) it(2,4) by (simp add: startable_def)
  have all: "\<forall>it \<in> set ?its. startable it" using Cons.prems(3) st set_update_subset_insert [of its i it] by blast
  note k = keep [OF Cons.prems(1,2) i(1) it(2-4)]
  have "set idxs \<subseteq> {..< length ?its}" using Cons.prems(4) by simp
  from Cons.IH [OF conjunct1 [OF k] conjunct2 [OF k] all this]
  obtain s' its' where l: "seek_first_loop m idxs (?s, ?its) = Some (s', its')" "ms_inv m mt_cmp s' its'" "K s' its'"
    "rewound (set idxs) ?its its'" by blast
  have "rewound (set (i # idxs)) its its'"
    using l(4) it st i(1) by (auto simp: rewound_def nth_list_update split: if_splits)
  moreover have "seek_first_loop m (i # idxs) (s, its) = Some (s', its')" using it(1) l(1) by simp
  ultimately show ?case using l by blast
qed (simp add: rewound_def)

lemma rewound_whole:
  assumes "rewound J its its'" "\<forall>j < length its. j \<in> J \<or> ahead (its ! j) = whole (its ! j)" "\<forall>it \<in> set its. startable it"
  shows "map ahead its' = map whole its" "\<forall>it \<in> set its'. walking it"
proof -
  have each: "startable (its' ! j) \<and> ahead (its' ! j) = whole (its ! j) \<and> whole (its' ! j) = whole (its ! j)" if "j < length its" for j
    using assms that unfolding rewound_def by (metis nth_mem)
  have len: "length its' = length its" using assms(1) by (simp add: rewound_def)
  show "map ahead its' = map whole its" using each len by (intro nth_equalityI) simp_all
  show "\<forall>it \<in> set its'. walking it"
    using each len by (metis in_set_conv_nth startable_def walking_def)
qed

definition at_start :: "'it RawIterator \<Rightarrow> bool" where
  "at_start r \<longleftrightarrow> (\<forall>s its. ri_structure r = Some (s, its) \<longrightarrow> (\<forall>it \<in> set its. startable it \<and> ahead it = whole it))"

definition whole_entries :: "'it RawIterator \<Rightarrow> MemtableEntry list" where
  "whole_entries r = (case ri_structure r of None \<Rightarrow> [] | Some (s, its) \<Rightarrow> concat (map whole its))"

lemma Raw_SeekToFirst_start:
  assumes "raw_ok r" "at_start r"
  shows "\<exists>r'. Raw_SeekToFirst m r = Some r' \<and> raw_ok r' \<and> mset (remaining r') = mset (remaining r)"
proof (cases "ri_structure r")
  case None
  with assms show ?thesis by (auto simp: Raw_SeekToFirst_def raw_ok_def remaining_def)
next
  case (Some st)
  obtain s its where st: "st = (s, its)" by force
  have inv: "ms_inv m mt_cmp s its" and start: "\<forall>it \<in> set its. startable it \<and> ahead it = whole it"
    using assms Some st by (simp_all add: raw_ok_def at_start_def)
  let ?K = "\<lambda>(s :: merge_struct) its. \<forall>it \<in> set its. ok it \<and> ahead it = whole it"
  have keep: "ms_inv m mt_cmp (ms_Update (ms_methods m mt_cmp) i s (its[i := it])) (its[i := it]) \<and> ?K (ms_Update (ms_methods m mt_cmp) i s (its[i := it])) (its[i := it])"
    if "ms_inv m mt_cmp s its" "?K s its" "i < length its" "ok it" "ahead it = whole (its ! i)" "whole it = whole (its ! i)"
    for i it s its
  proof -
    have same: "ok (its ! i)" "ahead (its ! i) = ahead it" using that by auto
    have front: "Valid m it = Valid m (its ! i) \<and> (Valid m (its ! i) \<longrightarrow> Key m it = Key m (its ! i))"
      using same valid_ahead [OF that(4)] valid_ahead [OF same(1)] key_ahead [OF that(4)] key_ahead [OF same(1)] by simp
    have "same_front m its (its[i := it])"
      unfolding same_front_def
    proof (intro conjI allI impI)
      fix j assume "j < length its"
      then show "Valid m (its[i := it] ! j) \<longleftrightarrow> Valid m (its ! j)" using front by (cases "j = i") simp_all
      assume "Valid m (its ! j)"
      with \<open>j < length its\<close> show "Key m (its[i := it] ! j) = Key m (its ! j)" using front by (cases "j = i") simp_all
    qed simp
    with any_merge.front_law [OF that(1)] have "ms_inv m mt_cmp s (its[i := it])" by blast
    from any_merge.update_law [OF this, of i] that(3) have "ms_inv m mt_cmp (ms_Update (ms_methods m mt_cmp) i s (its[i := it])) (its[i := it])" by simp
    moreover have "?K s (its[i := it])" using that(2,4,5,6) set_update_subset_insert [of its i it] by auto
    ultimately show ?thesis by blast
  qed
  let ?idxs = "ms_Iterators (ms_methods m mt_cmp) s"
  have members: "set ?idxs \<subseteq> {..< length its}" using any_merge.members_law [OF inv] by blast
  have K: "?K s its" using start by (simp add: startable_def)
  have all: "\<forall>it \<in> set its. startable it" using start by blast
  obtain s' its' where l: "seek_first_loop m ?idxs (s, its) = Some (s', its')" "ms_inv m mt_cmp s' its'" "rewound (set ?idxs) its its'"
    using seek_first_loop_rewinds [of ?K, OF keep inv K all members] by blast
  note w = rewound_whole [OF l(3) _ all]
  have "Raw_SeekToFirst m r = Some (set_winner m r s' its')" using Some st l(1) by (simp add: Raw_SeekToFirst_def)
  moreover have "raw_ok (set_winner m r s' its')" using w(2) l(2) start by (simp add: raw_ok_def)
  moreover have "remaining (set_winner m r s' its') = remaining r"
  proof -
    have "map ahead its' = map whole its" by (rule w(1)) (use start in simp)
    moreover have "map whole its = map ahead its" using start by simp
    ultimately have "concat (map ahead its') = concat (map ahead its)" by (simp only:)
    then show ?thesis using Some st by (simp add: remaining_def)
  qed
  ultimately show ?thesis by (intro exI [of _ "set_winner m r s' its'"]) simp
qed

lemma Raw_SeekToFirst_tree:
  assumes "raw_ok r" "ri_structure r = Some (MS_Tree w, its)" "\<forall>it \<in> set its. startable it"
  shows "\<exists>r'. Raw_SeekToFirst m r = Some r' \<and> raw_ok r' \<and> mset (remaining r') = mset (whole_entries r) \<and>
    (\<exists>w' its'. ri_structure r' = Some (MS_Tree w', its') \<and> map whole its' = map whole its \<and> (\<forall>it \<in> set its'. startable it))"
proof -
  have inv: "ms_inv m mt_cmp (MS_Tree w) its" using assms(1,2) by (simp add: raw_ok_def)
  let ?K = "\<lambda>s (its :: 'it list). \<exists>w. s = MS_Tree w"
  have keep: "ms_inv m mt_cmp (ms_Update (ms_methods m mt_cmp) i s (its[i := it])) (its[i := it]) \<and>
      ?K (ms_Update (ms_methods m mt_cmp) i s (its[i := it])) (its[i := it])"
    if "ms_inv m mt_cmp s its" "?K s its" "i < length its" for i it s its
    using that tree_merge.moved_update [of m _ its i it] by (auto simp: ms_methods_Tree)
  let ?idxs = "ms_Iterators (ms_methods m mt_cmp) (MS_Tree w)"
  have members: "set ?idxs = {..< length its}"
    using tree_merge.all_members [of m w its] inv by (simp add: ms_methods_Tree)
  obtain s' its' where l: "seek_first_loop m ?idxs (MS_Tree w, its) = Some (s', its')" "ms_inv m mt_cmp s' its'"
    "rewound (set ?idxs) its its'" "?K s' its'"
    using seek_first_loop_rewinds [of ?K "MS_Tree w" its ?idxs, OF keep inv _ assms(3)] members by blast
  note w = rewound_whole [OF l(3) _ assms(3)]
  have "Raw_SeekToFirst m r = Some (set_winner m r s' its')" using assms(2) l(1) by (simp add: Raw_SeekToFirst_def)
  moreover have "raw_ok (set_winner m r s' its')" using w(2) l(2) members by (simp add: raw_ok_def)
  moreover have "remaining (set_winner m r s' its') = whole_entries r"
  proof -
    have "map ahead its' = map whole its" by (rule w(1)) (simp add: members)
    then have "concat (map ahead its') = concat (map whole its)" by (simp only:)
    then show ?thesis using assms(2) by (simp add: remaining_def whole_entries_def)
  qed
  moreover have "map whole its' = map whole its" "\<forall>it \<in> set its'. startable it"
    using l(3) by (auto simp: rewound_def members list_eq_iff_nth_eq in_set_conv_nth)
  ultimately show ?thesis using l(4) by (intro exI [of _ "set_winner m r s' its'"]) (auto simp del: map_eq_conv)
qed

subsection \<open>Walking to the end\<close>

lemma drain_end:
  "raw_ok r \<Longrightarrow> ri_structure r = Some (s, its) \<Longrightarrow> \<forall>it \<in> set its. startable it \<Longrightarrow>
    \<exists>r' s' its'. drain (merging_methods m) r = Some r' \<and> raw_ok r' \<and> \<not> Raw_Valid r' \<and>
      ri_structure r' = Some (s', its') \<and> (\<forall>it \<in> set its'. startable it) \<and> map whole its' = map whole its \<and>
      ((\<exists>w. s = MS_Tree w) \<longleftrightarrow> (\<exists>w. s' = MS_Tree w))"
proof (induction "length (remaining r)" arbitrary: r s its rule: less_induct)
  case less
  show ?case
  proof (cases "Raw_Valid r")
    case False
    then have "drain (merging_methods m) r = Some r" by (subst drain.simps) simp
    with False less.prems show ?thesis by blast
  next
    case True
    from raw_step [OF less.prems(1) True] less.prems(2) obtain r' s' its' where
      r': "Raw_Next m r = Some r'" "raw_ok r'" "mset (remaining r) = add_mset (Raw_Key r) (mset (remaining r'))"
      "ri_structure r' = Some (s', its')" "length its' = length its" "\<forall>j < length its. whole (its' ! j) = whole (its ! j)"
      "(\<exists>w. s = MS_Tree w) \<longleftrightarrow> (\<exists>w. s' = MS_Tree w)" by auto
    have "size (mset (remaining r)) = Suc (size (mset (remaining r')))" using r'(3) by simp
    then have fewer: "length (remaining r') < length (remaining r)" by simp
    have wh: "map whole its' = map whole its" using r'(5,6) by (intro nth_equalityI) simp_all
    have "\<forall>it \<in> set its'. ok it" using r'(2,4) by (simp add: raw_ok_def walking_def)
    moreover have "entries_sorted (whole it)" if "it \<in> set its'" for it
    proof -
      have "whole it \<in> set (map whole its)" using that by (simp flip: wh)
      then show ?thesis using less.prems(3) by (auto simp: startable_def)
    qed
    ultimately have "\<forall>it \<in> set its'. startable it" by (simp add: startable_def)
    from less.hyps [OF fewer r'(2,4) this] wh r'(7) show ?thesis
      using True r'(1) by (subst drain.simps) (simp only: merging_methods_simps if_True bind.simps)
  qed
qed

text \<open>At the end the heap is empty, so nothing is set back.\<close>

lemma heap_end_empty:
  assumes "raw_ok r" "\<not> Raw_Valid r" "ri_structure r = Some (MS_Heap h, its)"
  shows "hq_data h = []"
proof (rule ccontr)
  have inv: "ms_inv m mt_cmp (MS_Heap h) its" and w: "set_winner m r (MS_Heap h) its = r"
    using assms(1,3) by (simp_all add: raw_ok_def)
  assume ne: "hq_data h \<noteq> []"
  then have "hq_data h ! 0 \<in> set (hq_data h)" by simp
  then have "Valid m (its ! (hq_data h ! 0))" using inv by (simp add: ms_inv_def hq_inv_def)
  then have "ri_valid (set_winner m r (MS_Heap h) its)" using ne by (simp add: set_winner_def ms_methods_def hq_Winner_def)
  with assms(2,3) w show False by (simp add: Raw_Valid_def)
qed

lemma Raw_SeekToFirst_heap_end:
  assumes "raw_ok r" "\<not> Raw_Valid r" "ri_structure r = Some (MS_Heap h, its)"
  shows "\<exists>r'. Raw_SeekToFirst m r = Some r' \<and> \<not> Raw_Valid r'"
proof -
  have "set_winner m r (MS_Heap h) its = r" using assms(1,3) by (simp add: raw_ok_def)
  then have "Raw_SeekToFirst m r = Some r"
    using assms(3) heap_end_empty [OF assms] by (simp add: Raw_SeekToFirst_def ms_methods_def hq_Iterators_def)
  with assms(2) show ?thesis by simp
qed

subsection \<open>Filtering\<close>

definition mm_ok :: "'it MergedMemtableIterator \<Rightarrow> bool" where
  "mm_ok s \<longleftrightarrow> raw_ok (mm_rawIterator s) \<and> (\<forall>e \<in> set (remaining (mm_rawIterator s)). me_Key e \<noteq> []) \<and>
     (mm_valid s \<longleftrightarrow> mm_current s \<noteq> None) \<and> (mm_valid s \<longrightarrow> Raw_Valid (mm_rawIterator s))"

definition mm_ahead :: "'it MergedMemtableIterator \<Rightarrow> MemtableEntry list" where
  "mm_ahead s =
     (case mm_current s of
        None \<Rightarrow> []
      | Some e \<Rightarrow> e # visible (mm_rangeDelChecker s) (Some (me_Key e)) (tl (raw_ahead (mm_rawIterator s))))"

lemma set_raw_ahead: "raw_ok r \<Longrightarrow> set (raw_ahead r) = set (remaining r)"
  using raw_ahead_props [of r] mset_eq_setD by blast

lemma mm_advance_visible:
  "raw_ok (mm_rawIterator s) \<Longrightarrow> \<forall>e \<in> set (remaining (mm_rawIterator s)). me_Key e \<noteq> [] \<Longrightarrow>
     \<exists>s'. mm_advance m s = Some s' \<and> mm_ok s' \<and> mm_rangeDelChecker s' = mm_rangeDelChecker s \<and>
       mm_ahead s' = visible (mm_rangeDelChecker s) (mm_prevKey s) (raw_ahead (mm_rawIterator s))"
proof (induction "raw_ahead (mm_rawIterator s)" arbitrary: s)
  case Nil
  then have "\<not> Raw_Valid (mm_rawIterator s)" using raw_ahead_step [of "mm_rawIterator s"] by fastforce
  then have "mm_advance m s = Some (s\<lparr>mm_current := None, mm_valid := False\<rparr>)"
    by (subst mm_advance.simps) simp
  with Nil show ?case by (simp add: mm_ok_def mm_ahead_def Nil.hyps [symmetric])
next
  case (Cons e es)
  have v: "Raw_Valid (mm_rawIterator s)" using Cons.hyps(2) Cons.prems(1) raw_ahead_end by force
  from raw_ahead_step [OF Cons.prems(1) v] Cons.hyps(2) obtain r where
    r: "Raw_Next m (mm_rawIterator s) = Some r" "raw_ok r" "Raw_Key (mm_rawIterator s) = e" "raw_ahead r = es" by auto
  have keys: "\<forall>x \<in> set (remaining r). me_Key x \<noteq> []" "me_Key e \<noteq> []"
    using Cons.prems set_raw_ahead [OF Cons.prems(1)] set_raw_ahead [OF r(2)] r(4) Cons.hyps(2) [symmetric] by auto
  note step = mm_advance.simps [of m s]
  have IH: "\<exists>s'. mm_advance m (s\<lparr>mm_prevKey := p, mm_rawIterator := r\<rparr>) = Some s' \<and> mm_ok s' \<and>
      mm_rangeDelChecker s' = mm_rangeDelChecker s \<and> mm_ahead s' = visible (mm_rangeDelChecker s) p es" for p
    using Cons.hyps(1) [of "s\<lparr>mm_prevKey := p, mm_rawIterator := r\<rparr>"] r(2,4) keys(1) by simp
  show ?case
  proof (cases "mm_prevKey s \<noteq> Some (me_Key e) \<and> me_OpType e \<noteq> OpTypeDel \<and> \<not> range_deleted (mm_rangeDelChecker s) e")
    case True
    with r v Cons.prems show ?thesis
      unfolding step by (auto simp: mm_ok_def mm_ahead_def Cons.hyps(2) [symmetric])
  next
    case False
    let ?p = "Some (me_Key e)"
    have same: "mm_prevKey s = ?p \<Longrightarrow> s\<lparr>mm_rawIterator := r\<rparr> = s\<lparr>mm_prevKey := ?p, mm_rawIterator := r\<rparr>"
      by (cases s) simp
    have "mm_advance m s = mm_advance m (s\<lparr>mm_prevKey := ?p, mm_rawIterator := r\<rparr>)"
      unfolding step using False r(1,3) v keys(2) by (auto simp: copy_key_def same)
    moreover have "visible (mm_rangeDelChecker s) (mm_prevKey s) (e # es) = visible (mm_rangeDelChecker s) ?p es"
      using False by auto
    ultimately show ?thesis using IH [of ?p] by (simp flip: Cons.hyps(2))
  qed
qed

lemma merged_forward: "forward_iterator (merged_methods m) mm_ok mm_ahead"
proof
  fix s assume s: "mm_ok s"
  show "Valid (merged_methods m) s \<longleftrightarrow> mm_ahead s \<noteq> []"
    using s by (auto simp: merged_methods_def mm_ok_def mm_ahead_def split: option.splits)
  assume "Valid (merged_methods m) s"
  then obtain e where e: "mm_current s = Some e" "mm_valid s" and raw: "Raw_Valid (mm_rawIterator s)" "raw_ok (mm_rawIterator s)"
    using s by (auto simp: merged_methods_def mm_ok_def)
  then show "Key (merged_methods m) s = hd (mm_ahead s)" by (simp add: merged_methods_def Merged_Key_def mm_ahead_def)
  from raw_ahead_step [OF raw(2,1)] obtain r where
    r: "Raw_Next m (mm_rawIterator s) = Some r" "raw_ok r" "raw_ahead (mm_rawIterator s) = Raw_Key (mm_rawIterator s) # raw_ahead r" by blast
  have "\<forall>x \<in> set (remaining r). me_Key x \<noteq> []"
    using s r(3) set_raw_ahead [OF raw(2)] set_raw_ahead [OF r(2)] by (auto simp: mm_ok_def)
  with mm_advance_visible [of "s\<lparr>mm_prevKey := Some (me_Key e), mm_rawIterator := r\<rparr>"] r e
  show "\<exists>s'. Next (merged_methods m) s = Some s' \<and> mm_ok s' \<and> mm_ahead s' = tl (mm_ahead s)"
    by (auto simp: merged_methods_def Merged_Next_def Merged_Key_def mm_ahead_def)
qed

lemma NewMerged:
  assumes "raw_ok r" "at_start r" "\<forall>e \<in> set (remaining r). me_Key e \<noteq> []"
  shows "\<exists>s out. NewMergedMemtableIterator m r chk = Some s \<and> mset out = mset (remaining r) \<and> entries_sorted out \<and>
    collect (merged_methods m) s = Some (visible chk None out)"
proof (cases "ri_structure r")
  case None
  let ?s = "\<lparr>mm_rawIterator = r, mm_current = None, mm_prevKey = None, mm_valid = False, mm_rangeDelChecker = chk\<rparr>"
  have "collect (merged_methods m) ?s = Some []" by (subst collect.simps) (simp add: merged_methods_def)
  with None show ?thesis by (simp add: NewMergedMemtableIterator_def Merged_SeekToFirst_def remaining_def)
next
  case (Some st)
  from Raw_SeekToFirst_start [OF assms(1,2)] obtain r' where
    r': "Raw_SeekToFirst m r = Some r'" "raw_ok r'" "mset (remaining r') = mset (remaining r)" by blast
  let ?s = "\<lparr>mm_rawIterator = r', mm_current = None, mm_prevKey = None, mm_valid = False, mm_rangeDelChecker = chk\<rparr>"
  have "\<forall>e \<in> set (remaining r'). me_Key e \<noteq> []" using assms(3) r'(3) mset_eq_setD by blast
  with mm_advance_visible [of ?s] r'(2) obtain s where
    s: "mm_advance m ?s = Some s" "mm_ok s" "mm_ahead s = visible chk None (raw_ahead r')" by auto
  from forward_iterator.collect_ahead [OF merged_forward s(2)] s r' raw_ahead_props [OF r'(2)] Some
  show ?thesis by (intro exI [of _ s] exI [of _ "raw_ahead r'"]) (simp add: NewMergedMemtableIterator_def Merged_SeekToFirst_def)
qed

end

section \<open>The visible entries of a sorted list\<close>

abbreviation versions_sorted :: "MemtableEntry list \<Rightarrow> bool" where
  "versions_sorted \<equiv> sorted_wrt (\<lambda>a b. mt_cmp a b < 0)"

lemma versions_sortedI:
  "entries_sorted es \<Longrightarrow> distinct (map (\<lambda>e. (me_Key e, me_SeqId e)) es) \<Longrightarrow> versions_sorted es"
  by (induction es) (force simp: mt_cmp_simps)+

definition newest_visible :: "range_checker \<Rightarrow> MemtableEntry set \<Rightarrow> MemtableEntry set" where
  "newest_visible chk E =
     {e \<in> E. (\<forall>x \<in> E. me_Key x = me_Key e \<longrightarrow> me_SeqId x \<le> me_SeqId e) \<and> me_OpType e \<noteq> OpTypeDel \<and> \<not> range_deleted chk e}"

lemma visible_versions:
  "versions_sorted es \<Longrightarrow> \<forall>k. prev = Some k \<longrightarrow> (\<forall>e \<in> set es. k \<le> me_Key e) \<Longrightarrow>
     sorted_wrt (\<lambda>a b. me_Key a < me_Key b) (visible chk prev es) \<and>
     set (visible chk prev es) = {e \<in> newest_visible chk (set es). Some (me_Key e) \<noteq> prev}"
proof (induction es arbitrary: prev)
  case (Cons x es)
  have s: "versions_sorted es" and x: "\<forall>y \<in> set es. mt_cmp x y < 0" using Cons.prems(1) by simp_all
  then have le: "\<forall>y \<in> set es. me_Key x \<le> me_Key y" by (auto simp: mt_cmp_simps)
  have old: "\<forall>y \<in> set es. me_Key y = me_Key x \<longrightarrow> me_SeqId y < me_SeqId x" using x by (auto simp: mt_cmp_simps)
  note IH = Cons.IH [OF s]
  let ?p = "Some (me_Key x)"
  have rest: "{e \<in> newest_visible chk (set (x # es)). Some (me_Key e) \<noteq> ?p} = {e \<in> newest_visible chk (set es). Some (me_Key e) \<noteq> ?p}"
    by (auto simp: newest_visible_def)
  have others: "newest_visible chk (set (x # es)) =
      (if me_OpType x \<noteq> OpTypeDel \<and> \<not> range_deleted chk x then {x} else {}) \<union> {e \<in> newest_visible chk (set es). Some (me_Key e) \<noteq> ?p}"
    using old by (auto simp: newest_visible_def not_le [symmetric] dest: order_less_imp_le)
  have ih: "sorted_wrt (\<lambda>a b. me_Key a < me_Key b) (visible chk ?p es)"
    "set (visible chk ?p es) = {e \<in> newest_visible chk (set es). Some (me_Key e) \<noteq> ?p}"
    using IH [of ?p] le by simp_all
  show ?case
  proof (cases "prev = ?p")
    case True
    with ih rest show ?thesis by simp
  next
    case False
    have np: "Some (me_Key e) \<noteq> prev" if "e \<in> set (x # es)" for e
    proof
      assume "Some (me_Key e) = prev"
      with Cons.prems(2) have "me_Key e \<le> me_Key x" by auto
      moreover have "me_Key x \<le> me_Key e" using that le by auto
      ultimately show False using False \<open>Some (me_Key e) = prev\<close> by auto
    qed
    have all: "{e \<in> newest_visible chk (set (x # es)). Some (me_Key e) \<noteq> prev} = newest_visible chk (set (x # es))"
      using np by (auto simp: newest_visible_def)
    show ?thesis
    proof (cases "me_OpType x = OpTypeDel \<or> range_deleted chk x")
      case True
      then have "visible chk prev (x # es) = visible chk ?p es" using False by auto
      moreover have "newest_visible chk (set (x # es)) = {e \<in> newest_visible chk (set es). Some (me_Key e) \<noteq> ?p}"
        unfolding others using True by auto
      ultimately show ?thesis using ih unfolding all by simp
    next
      case sh: False
      then have v: "visible chk prev (x # es) = x # visible chk ?p es" using False by simp
      have "me_Key x < me_Key e" if "e \<in> set (visible chk ?p es)" for e
      proof -
        have "e \<in> set es" "me_Key e \<noteq> me_Key x" using that ih(2) by (auto simp: newest_visible_def)
        with le show ?thesis by (metis order_le_less)
      qed
      moreover have "newest_visible chk (set (x # es)) = insert x (set (visible chk ?p es))"
        unfolding others ih(2) using sh by simp
      ultimately show ?thesis using ih(1) unfolding all v by simp
    qed
  qed
qed (simp add: newest_visible_def)

context entry_iterator
begin

lemma merged_view:
  assumes it: "\<forall>it. Some it \<in> set iterators \<longrightarrow> ok it \<and> entries_sorted (whole it)"
    and keys: "\<forall>e \<in> set (all_entries iterators). me_Key e \<noteq> []"
    and dist: "distinct (map (\<lambda>e. (me_Key e, me_SeqId e)) (all_entries iterators))"
  shows "\<exists>r s out view. NewRawIterator m iterators t = Some r \<and>
    collect (merging_methods m) r = Some out \<and> mset out = mset (all_entries iterators) \<and> versions_sorted out \<and>
    NewMergedMemtableIterator m r chk = Some s \<and> collect (merged_methods m) s = Some view \<and>
    sorted_wrt (\<lambda>a b. me_Key a < me_Key b) view \<and> set view = newest_visible chk (set (all_entries iterators))"
proof -
  have "\<forall>it. Some it \<in> set iterators \<longrightarrow> startable it" using it by (simp add: startable_def)
  from NewRaw [OF this, of t] obtain r where r: "NewRawIterator m iterators t = Some r" "raw_ok r"
    "mset (remaining r) = mset (all_entries iterators)" "at_start r" by (auto simp: at_start_def)
  have k: "\<forall>e \<in> set (remaining r). me_Key e \<noteq> []" using keys r(3) mset_eq_setD by blast
  have strict: "versions_sorted out" if "mset out = mset (remaining r)" "entries_sorted out" for out
  proof (rule versions_sortedI [OF that(2)])
    have "mset out = mset (all_entries iterators)" using that(1) r(3) by simp
    then have "mset (map (\<lambda>e. (me_Key e, me_SeqId e)) out) = mset (map (\<lambda>e. (me_Key e, me_SeqId e)) (all_entries iterators))"
      by simp
    from mset_eq_imp_distinct_iff [OF this] dist show "distinct (map (\<lambda>e. (me_Key e, me_SeqId e)) out)" by simp
  qed
  from raw_collect [OF r(2)] obtain out where
    out: "collect (merging_methods m) r = Some out" "mset out = mset (remaining r)" "entries_sorted out" by blast
  from NewMerged [OF r(2,4) k, of chk] obtain s out' where
    s: "NewMergedMemtableIterator m r chk = Some s" "mset out' = mset (remaining r)" "entries_sorted out'"
    "collect (merged_methods m) s = Some (visible chk None out')" by blast
  have sets: "set out' = set (all_entries iterators)" using s(2) r(3) mset_eq_setD by metis
  note v = visible_versions [OF strict [OF s(2,3)], of None chk]
  have v1: "sorted_wrt (\<lambda>a b. me_Key a < me_Key b) (visible chk None out')" using v by simp
  have v2: "set (visible chk None out') = newest_visible chk (set (all_entries iterators))" using v sets by simp
  have "mset out = mset (all_entries iterators)" using out(2) r(3) by simp
  with r(1) out(1) strict [OF out(2,3)] s(1,4) v1 v2 show ?thesis by blast
qed

lemma rewind_after_end:
  assumes it: "\<forall>it. Some it \<in> set iterators \<longrightarrow> ok it \<and> entries_sorted (whole it)"
    and some: "all_entries iterators \<noteq> []"
  shows "\<exists>r r1 r2. NewRawIterator m iterators t = Some r \<and> drain (merging_methods m) r = Some r1 \<and>
    Raw_SeekToFirst m r1 = Some r2 \<and>
    (t = Heap \<longrightarrow> \<not> Raw_Valid r2) \<and>
    (t \<noteq> Heap \<longrightarrow> (\<exists>out. collect (merging_methods m) r2 = Some out \<and> mset out = mset (all_entries iterators) \<and> entries_sorted out))"
proof -
  have "\<forall>it. Some it \<in> set iterators \<longrightarrow> startable it" using it by (simp add: startable_def)
  from NewRaw [OF this, of t] some obtain r s its where r: "NewRawIterator m iterators t = Some r" "raw_ok r"
    "ri_structure r = Some (s, its)" "concat (map whole its) = all_entries iterators" "\<forall>it \<in> set its. startable it"
    "(\<exists>w. s = MS_Tree w) \<longleftrightarrow> t \<noteq> Heap" by auto
  from drain_end [OF r(2,3,5)] obtain r1 s1 its1 where
    r1: "drain (merging_methods m) r = Some r1" "raw_ok r1" "\<not> Raw_Valid r1" "ri_structure r1 = Some (s1, its1)"
    "\<forall>it \<in> set its1. startable it" "map whole its1 = map whole its"
    "(\<exists>w. s = MS_Tree w) \<longleftrightarrow> (\<exists>w. s1 = MS_Tree w)" by blast
  show ?thesis
  proof (cases s1)
    case (MS_Heap h)
    then have "t = Heap" using r(6) r1(7) by simp
    with Raw_SeekToFirst_heap_end [OF r1(2,3)] r1(1,4) r(1) MS_Heap show ?thesis by blast
  next
    case (MS_Tree w)
    then have t: "t \<noteq> Heap" using r(6) r1(7) by simp
    have "whole_entries r1 = concat (map whole its)" using r1(4,6) by (simp add: whole_entries_def del: map_eq_conv)
    then have w: "whole_entries r1 = all_entries iterators" by (simp only: r(4))
    from Raw_SeekToFirst_tree [OF r1(2) _ r1(5)] r1(4) MS_Tree obtain r2 where
      r2: "Raw_SeekToFirst m r1 = Some r2" "raw_ok r2" "mset (remaining r2) = mset (whole_entries r1)" by blast
    from raw_collect [OF r2(2)] r2(1,3) w t r(1) r1(1) show ?thesis by metis
  qed
qed

end

subsection \<open>Two memtables over the AVL tree\<close>

definition example_iterator :: "gm_write list \<Rightarrow> MemtableEntry AVLTreeIterator RawSingleMemtableIterator" where
  "example_iterator ws = st_RawIterator avl_store (gm_store (avl_memtable ws))"

abbreviation example_old :: "gm_write list" where
  "example_old \<equiv> [WPut [1] [10] 5 OpTypePut, WPut [2] [20] 6 OpTypePut]"

abbreviation example_new :: "gm_write list" where
  "example_new \<equiv> [WPut [2] [] 7 OpTypeDel, WPut [1] [11] 8 OpTypePut]"

abbreviation put_entry :: "bytes \<Rightarrow> bytes \<Rightarrow> u64 \<Rightarrow> MemtableEntry" where
  "put_entry k v q \<equiv> \<lparr>me_OpType = OpTypePut, me_Key = k, me_Value = v, me_SeqId = q, me_ExpiresAt = 0\<rparr>"

lemma example_iterator_ok:
  assumes "history ws"
  shows "iter_ok (rs_it (example_iterator ws))" "inorder (avl_root (ai_tree (rs_it (example_iterator ws)))) = avl_content (gm_store (avl_memtable ws))"
    "entries_sorted (avl_content (gm_store (avl_memtable ws)))"
proof -
  have inv: "avl_store_inv (gm_store (avl_memtable ws))"
    using avl_reflects [OF assms] by (simp add: avl_mem.reflects_def avl_mem.gm_inv_def)
  from avl_mem.raw_law [OF inv]
  show "iter_ok (rs_it (example_iterator ws))" "inorder (avl_root (ai_tree (rs_it (example_iterator ws)))) = avl_content (gm_store (avl_memtable ws))"
    by (simp_all add: example_iterator_def)
  show "entries_sorted (avl_content (gm_store (avl_memtable ws)))"
    using inv by (auto simp: avl_store_inv_def avl_inv_def avl_content_def strictly_def intro: sorted_wrt_mono_rel [rotated])
qed

lemma example_contents:
  "avl_content (gm_store (avl_memtable example_old)) = [put_entry [1] [10] 5, put_entry [2] [20] 6]"
  "avl_content (gm_store (avl_memtable example_new)) =
     [put_entry [1] [11] 8, \<lparr>me_OpType = OpTypeDel, me_Key = [2], me_Value = [], me_SeqId = 7, me_ExpiresAt = 0\<rparr>]"
  by code_simp+

section \<open>Properties\<close>

text \<open>C6: Iterating over several memtables, with the heap or the tree: the raw iterator walks a sorted merge of
  the entries of all memtables, each exactly once, and the merged iterator walks, in strictly increasing key
  order, exactly the newest version of each key that is no deletion and not covered by a range tombstone.
  Both loops end.\<close>

theorem merged_iterator_view:
  assumes "rewindable_iterator m ok ahead whole"
    and "\<forall>it. Some it \<in> set iterators \<longrightarrow> ok it \<and> entries_sorted (whole it)"
    and "entries = concat (map whole (List.map_filter (\<lambda>x. x) iterators))"
    and "\<forall>e \<in> set entries. me_Key e \<noteq> []" "distinct (map (\<lambda>e. (me_Key e, me_SeqId e)) entries)"
  shows "\<exists>r s out view. NewRawIterator m iterators t = Some r \<and>
    collect (merging_methods m) r = Some out \<and> mset out = mset entries \<and> versions_sorted out \<and>
    NewMergedMemtableIterator m r chk = Some s \<and> collect (merged_methods m) s = Some view \<and>
    sorted_wrt (\<lambda>a b. me_Key a < me_Key b) view \<and> set view = newest_visible chk (set entries)"
proof -
  note e = entry_iterator.intro [OF assms(1)]
  have "entry_iterator.all_entries whole iterators = entries"
    by (simp add: entry_iterator.all_entries_def [OF e] assms(3))
  with entry_iterator.merged_view [OF e assms(2), of t chk] assms(4,5) show ?thesis by simp
qed

theorem merged_iterator_view_witness:
  "\<exists>r s view. NewRawIterator (st_raw avl_store) [Some (example_iterator example_new), None, Some (example_iterator example_old)] Heap = Some r \<and>
     NewMergedMemtableIterator (st_raw avl_store) r None = Some s \<and> collect (merged_methods (st_raw avl_store)) s = Some view \<and>
     set view = {put_entry [1] [11] 8}"
proof -
  let ?iters = "[Some (example_iterator example_new), None, Some (example_iterator example_old)]"
  have h: "history example_old" "history example_new" by (simp_all add: history_def)
  note ok = example_iterator_ok [OF h(1)] example_iterator_ok [OF h(2)]
  let ?all = "concat (map (\<lambda>r. inorder (avl_root (ai_tree (rs_it r)))) (List.map_filter (\<lambda>x. x) ?iters))"
  have entries: "?all = avl_content (gm_store (avl_memtable example_new)) @ avl_content (gm_store (avl_memtable example_old))"
    by (simp add: List.map_filter_simps ok)
  have vis: "newest_visible None (set ?all) = {put_entry [1] [11] 8}"
    unfolding entries example_contents by (auto simp: newest_visible_def range_deleted_def)
  from merged_iterator_view [OF avl_mem.rewindable_iterator_axioms, of ?iters ?all Heap None]
  show ?thesis unfolding vis unfolding entries using ok by (auto simp: example_contents)
qed

text \<open>Setting the raw iterator back after it has reached the end: over the tree it walks all entries again;
  over the heap it stays exhausted, although there are entries.\<close>

theorem raw_iterator_rewind:
  assumes "rewindable_iterator m ok ahead whole"
    and "\<forall>it. Some it \<in> set iterators \<longrightarrow> ok it \<and> entries_sorted (whole it)"
    and "entries = concat (map whole (List.map_filter (\<lambda>x. x) iterators))" "entries \<noteq> []"
  shows "\<exists>r r1 r2. NewRawIterator m iterators t = Some r \<and> drain (merging_methods m) r = Some r1 \<and>
    Raw_SeekToFirst m r1 = Some r2 \<and>
    (t = Heap \<longrightarrow> \<not> Raw_Valid r2) \<and>
    (t \<noteq> Heap \<longrightarrow> (\<exists>out. collect (merging_methods m) r2 = Some out \<and> mset out = mset entries \<and> entries_sorted out))"
proof -
  note e = entry_iterator.intro [OF assms(1)]
  have "entry_iterator.all_entries whole iterators = entries"
    by (simp add: entry_iterator.all_entries_def [OF e] assms(3))
  with entry_iterator.rewind_after_end [OF e assms(2), of t] assms(4) show ?thesis by simp
qed

theorem raw_iterator_rewind_witness:
  "\<exists>r r1 r2. NewRawIterator (st_raw avl_store) [Some (example_iterator example_old)] Heap = Some r \<and>
     drain (merging_methods (st_raw avl_store)) r = Some r1 \<and> Raw_SeekToFirst (st_raw avl_store) r1 = Some r2 \<and> \<not> Raw_Valid r2"
proof -
  let ?iters = "[Some (example_iterator example_old)]"
  have "history example_old" by (simp add: history_def)
  note ok = example_iterator_ok [OF this]
  let ?all = "concat (map (\<lambda>r. inorder (avl_root (ai_tree (rs_it r)))) (List.map_filter (\<lambda>x. x) ?iters))"
  have "?all \<noteq> []" by (simp add: List.map_filter_simps ok example_contents)
  with raw_iterator_rewind [OF avl_mem.rewindable_iterator_axioms, of ?iters ?all Heap] ok show ?thesis by auto
qed

end
