(* ===== verification/Memtable_Manager.thy ===== *)
theory Memtable_Manager
  imports Merged_Iterator
begin

text \<open>
  The memtable manager of \<^verbatim>\<open>memtable/manager.go\<close>: one active memtable, immutable ones that wait to be flushed,
  and the goroutine that flushes them. A memtable is a pointer in Go; here it is paired with a number that
  identifies it, and a rotated memtable no longer changes, so copies of it may stand in several places.

  The sections the mutex protects are functions on the manager. What happens between them is the step
  relations \<open>client_step\<close> and \<open>tau_step\<close> on a state that adds where each goroutine is: callers that saw a full
  memtable and are about to lock the mutex in \<^verbatim>\<open>rotate\<close>, those asleep in \<^verbatim>\<open>cond.Wait\<close>, those that a \<^verbatim>\<open>cond.Signal\<close>
  has woken and that will look at the list again, memtables rotated but not yet sent on the channel, and the
  worker between taking a memtable off the list and handing its entries to the flush handler. A goroutine that
  is asleep makes no step of its own: only the worker's signal wakes it, one at a time.

  Shown here: every write is in exactly one memtable, each rotated memtable is flushed exactly once and with
  the contents it had when it was rotated; a read finds the newest memtable that knows the key among those the
  worker has not taken; no wake-up is lost, so the internal steps end, leave nothing unflushed and nobody asleep. Also shown are two defects of the code: between being taken off the
  list and being flushed a memtable is invisible, and a range tombstone does not reach older memtables.
\<close>

section \<open>The manager\<close>

record 's MemtableManager =
  mg_active :: "nat \<times> 's GenericMemtable"
  mg_immutable :: "(nat \<times> 's GenericMemtable) list"
  mg_maxTables :: nat
  mg_mergeStructure :: byte
  mg_channel :: "(nat \<times> 's GenericMemtable) list"
  mg_snapshots :: "bytes set"
  mg_nextId :: nat

definition NewMemtableManager :: "nat \<Rightarrow> byte \<Rightarrow> 's GenericMemtable \<Rightarrow> 's MemtableManager" where
  "NewMemtableManager maxTables mergeStructure new =
     \<lparr>mg_active = (0, new), mg_immutable = [], mg_maxTables = maxTables, mg_mergeStructure = mergeStructure,
      mg_channel = [], mg_snapshots = {}, mg_nextId = 1\<rparr>"

definition Mgr_Snapshot :: "bytes \<Rightarrow> 's MemtableManager \<Rightarrow> 's MemtableManager" where
  "Mgr_Snapshot key mg = mg\<lparr>mg_snapshots := insert key (mg_snapshots mg)\<rparr>"

definition isSnapshotted :: "'s MemtableManager \<Rightarrow> bytes \<Rightarrow> bool" where
  "isSnapshotted mg key \<longleftrightarrow> key \<in> mg_snapshots mg"

definition set_active :: "'s GenericMemtable \<Rightarrow> 's MemtableManager \<Rightarrow> 's MemtableManager" where
  "set_active m mg = mg\<lparr>mg_active := (fst (mg_active mg), m)\<rparr>"

text \<open>The first component is \<^verbatim>\<open>shouldRotate\<close>.\<close>

definition Mgr_Put :: "('s, 'it) MemtableStore \<Rightarrow> bytes \<Rightarrow> bytes \<Rightarrow> u64 \<Rightarrow> OpType \<Rightarrow> 's MemtableManager \<Rightarrow> bool \<times> 's MemtableManager" where
  "Mgr_Put S key val seqId opType mg =
     (let m = snd (mg_active mg);
          m' = (if opType = OpTypeRangeDel \<or> opType = OpTypeMerge \<or> isSnapshotted mg key then GM_Put S key val seqId opType m
                else GM_Upsert S key val seqId opType m)
      in (GM_ShouldFlush m', set_active m' mg))"

definition Mgr_PutWithTTL :: "('s, 'it) MemtableStore \<Rightarrow> i64 \<Rightarrow> bytes \<Rightarrow> bytes \<Rightarrow> u64 \<Rightarrow> OpType \<Rightarrow> i64 \<Rightarrow> 's MemtableManager \<Rightarrow> bool \<times> 's MemtableManager" where
  "Mgr_PutWithTTL S now key val seqId opType ttl mg =
     (let m = snd (mg_active mg);
          m' = (if isSnapshotted mg key then GM_PutWithTTL S now key val seqId opType ttl m
                else GM_UpsertWithTTL S now key val seqId opType ttl m)
      in (GM_ShouldFlush m', set_active m' mg))"

definition Mgr_Remove :: "('s, 'it) MemtableStore \<Rightarrow> bytes \<Rightarrow> u64 \<Rightarrow> 's MemtableManager \<Rightarrow> 's MemtableManager" where
  "Mgr_Remove S key seqId mg = set_active (GM_Remove S key seqId (snd (mg_active mg))) mg"

text \<open>The body of \<^verbatim>\<open>rotate\<close> once there is room in the list.\<close>

definition do_rotate :: "'s GenericMemtable \<Rightarrow> 's MemtableManager \<Rightarrow> 's MemtableManager" where
  "do_rotate new mg = mg\<lparr>mg_immutable := mg_immutable mg @ [mg_active mg], mg_active := (mg_nextId mg, new), mg_nextId := mg_nextId mg + 1\<rparr>"

definition removeImmutable :: "nat \<Rightarrow> 's MemtableManager \<Rightarrow> 's MemtableManager" where
  "removeImmutable target mg = mg\<lparr>mg_immutable := filter (\<lambda>m. fst m \<noteq> target) (mg_immutable mg)\<rparr>"

definition containsImmutable :: "nat \<Rightarrow> 's MemtableManager \<Rightarrow> bool" where
  "containsImmutable target mg \<longleftrightarrow> list_ex (\<lambda>m. fst m = target) (mg_immutable mg)"

definition Mgr_ResetAll :: "'s GenericMemtable \<Rightarrow> 's MemtableManager \<Rightarrow> 's MemtableManager" where
  "Mgr_ResetAll new mg = mg\<lparr>mg_active := (mg_nextId mg, new), mg_immutable := [], mg_nextId := mg_nextId mg + 1\<rparr>"

section \<open>Reading\<close>

text \<open>
  \<^verbatim>\<open>time.UnixMilli(entry.ExpiresAt).Before(time.Now())\<close>, with the time in nanoseconds. An expired entry counts
  as not found, a deleted one as found.
\<close>

definition checkTTL :: "int \<Rightarrow> MemtableEntry option \<Rightarrow> bool \<Rightarrow> MemtableEntry option \<times> bool" where
  "checkTTL now entry found =
     (case entry of
        None \<Rightarrow> (None, True)
      | Some e \<Rightarrow> if me_ExpiresAt e \<noteq> 0 \<and> sint (me_ExpiresAt e) * 1000000 < now then (None, False) else (entry, found))"

fun get_from :: "('s, 'it) MemtableStore \<Rightarrow> int \<Rightarrow> bytes \<Rightarrow> 's GenericMemtable list \<Rightarrow> (MemtableEntry option \<times> bool) option" where
  "get_from S now key [] = Some (None, False)"
| "get_from S now key (m # ms) =
     Option.bind (GM_Get S m key) (\<lambda>(v, ok). if ok then Some (checkTTL now v ok) else get_from S now key ms)"

text \<open>The active memtable first, then the immutable ones from new to old.\<close>

definition memtables :: "'s MemtableManager \<Rightarrow> 's GenericMemtable list" where
  "memtables mg = snd (mg_active mg) # rev (map snd (mg_immutable mg))"

definition Mgr_Get :: "('s, 'it) MemtableStore \<Rightarrow> int \<Rightarrow> 's MemtableManager \<Rightarrow> bytes \<Rightarrow> (MemtableEntry option \<times> bool) option" where
  "Mgr_Get S now mg key = get_from S now key (memtables mg)"

fun covered_in :: "('s, 'it) MemtableStore \<Rightarrow> bytes \<Rightarrow> u64 \<Rightarrow> 's GenericMemtable list \<Rightarrow> bool option" where
  "covered_in S key seqId [] = Some False"
| "covered_in S key seqId (m # ms) =
     Option.bind (GM_IsCoveredByRangeDel S m key seqId) (\<lambda>c. if c then Some True else covered_in S key seqId ms)"

definition Mgr_IsCoveredByRangeDel :: "('s, 'it) MemtableStore \<Rightarrow> 's MemtableManager \<Rightarrow> bytes \<Rightarrow> u64 \<Rightarrow> bool option" where
  "Mgr_IsCoveredByRangeDel S mg key keySeqId = covered_in S key keySeqId (memtables mg)"

definition Mgr_RawIterator :: "('s, 'it) MemtableStore \<Rightarrow> 's MemtableManager \<Rightarrow> 'it RawSingleMemtableIterator RawIterator option" where
  "Mgr_RawIterator S mg =
     NewRawIterator (raw_methods (st_raw S))
       (map (\<lambda>m. Some (NewRawSingleMemtableIterator (st_RawIterator S (gm_store m)))) (memtables mg)) (mg_mergeStructure mg)"

section \<open>Goroutines\<close>

record 's system =
  sy_mgr :: "'s MemtableManager"
  sy_callers :: nat
  sy_waiting :: nat
  sy_woken :: nat
  sy_unsent :: "(nat \<times> 's GenericMemtable) list"
  sy_worker :: "(bool \<times> nat \<times> 's GenericMemtable) option"
  sy_flushed :: "(nat \<times> MemtableEntry list \<times> MemtableEntry list) list"

definition NewSystem :: "nat \<Rightarrow> byte \<Rightarrow> 's GenericMemtable \<Rightarrow> 's system" where
  "NewSystem maxTables mergeStructure new =
     \<lparr>sy_mgr = NewMemtableManager maxTables mergeStructure new, sy_callers = 0, sy_waiting = 0, sy_woken = 0, sy_unsent = [],
      sy_worker = None, sy_flushed = []\<rparr>"

text \<open>How the manager writes an entry: replacing the old version or keeping it.\<close>

definition put_write :: "'s MemtableManager \<Rightarrow> bytes \<Rightarrow> bytes \<Rightarrow> u64 \<Rightarrow> OpType \<Rightarrow> gm_write" where
  "put_write mg key val seqId opType =
     (if opType = OpTypeRangeDel \<or> opType = OpTypeMerge \<or> isSnapshotted mg key then WPut key val seqId opType
      else WUpsert key val seqId opType)"

definition ttl_write :: "'s MemtableManager \<Rightarrow> i64 \<Rightarrow> bytes \<Rightarrow> bytes \<Rightarrow> u64 \<Rightarrow> OpType \<Rightarrow> i64 \<Rightarrow> gm_write" where
  "ttl_write mg now key val seqId opType ttl =
     (if isSnapshotted mg key then WPutTTL now key val seqId opType ttl else WUpsertTTL now key val seqId opType ttl)"

lemma Mgr_Put_write:
  "Mgr_Put S key val seqId opType mg =
     (let m' = gm_step S (put_write mg key val seqId opType) (snd (mg_active mg)) in (GM_ShouldFlush m', set_active m' mg))"
  by (simp add: Mgr_Put_def put_write_def Let_def)

lemma Mgr_PutWithTTL_write:
  "Mgr_PutWithTTL S now key val seqId opType ttl mg =
     (let m' = gm_step S (ttl_write mg now key val seqId opType ttl) (snd (mg_active mg)) in (GM_ShouldFlush m', set_active m' mg))"
  by (simp add: Mgr_PutWithTTL_def ttl_write_def Let_def)

text \<open>
  A step by a client is labelled with the write it makes, if any; the internal ones are \<open>tau_step\<close>. A caller of
  \<^verbatim>\<open>rotate\<close> locks the mutex and either leaves, rotates or goes to sleep on the condition. A goroutine that was
  woken locks the mutex again and goes back to sleep or rotates; it looks only at the length of the list, not
  again at whether the active memtable is full.
\<close>

definition after_write :: "bool \<times> 's MemtableManager \<Rightarrow> 's system \<Rightarrow> 's system" where
  "after_write r s = s\<lparr>sy_mgr := snd r, sy_callers := sy_callers s + (if fst r then 1 else 0)\<rparr>"

inductive client_step :: "('s, 'it) MemtableStore \<Rightarrow> gm_write option \<Rightarrow> 's system \<Rightarrow> 's system \<Rightarrow> bool" for S where
  client_put: "client_step S (Some (put_write (sy_mgr s) key val seqId opType)) s (after_write (Mgr_Put S key val seqId opType (sy_mgr s)) s)"
| client_ttl: "client_step S (Some (ttl_write (sy_mgr s) now key val seqId opType ttl)) s
    (after_write (Mgr_PutWithTTL S now key val seqId opType ttl (sy_mgr s)) s)"
| client_snapshot: "client_step S None s (s\<lparr>sy_mgr := Mgr_Snapshot key (sy_mgr s)\<rparr>)"

definition has_room :: "'s MemtableManager \<Rightarrow> bool" where
  "has_room mg \<longleftrightarrow> length (mg_immutable mg) < mg_maxTables mg"

text \<open>The end of \<^verbatim>\<open>rotate\<close> under the mutex; the memtable is then sent on the channel.\<close>

definition rotate_now :: "'s GenericMemtable \<Rightarrow> 's system \<Rightarrow> 's system" where
  "rotate_now new s = s\<lparr>sy_mgr := do_rotate new (sy_mgr s), sy_unsent := sy_unsent s @ [mg_active (sy_mgr s)]\<rparr>"

text \<open>\<^verbatim>\<open>cond.Signal\<close>: one goroutine that is asleep wakes up, if there is any.\<close>

definition cond_Signal :: "'s system \<Rightarrow> 's system" where
  "cond_Signal s = (case sy_waiting s of 0 \<Rightarrow> s | Suc n \<Rightarrow> s\<lparr>sy_waiting := n, sy_woken := Suc (sy_woken s)\<rparr>)"

text \<open>What \<^verbatim>\<open>flushWorker\<close> does under the mutex with a memtable it has received.\<close>

definition worker_take :: "nat \<times> 's GenericMemtable \<Rightarrow> 's system \<Rightarrow> 's system" where
  "worker_take m s = cond_Signal (s\<lparr>sy_worker := Some (containsImmutable (fst m) (sy_mgr s), m), sy_mgr := removeImmutable (fst m) (sy_mgr s)\<rparr>)"

inductive tau_step :: "('s, 'it) MemtableStore \<Rightarrow> 's GenericMemtable \<Rightarrow> 's system \<Rightarrow> 's system \<Rightarrow> bool" for S new where
  rotate_skip: "sy_callers s = Suc n \<Longrightarrow> \<not> GM_ShouldFlush (snd (mg_active (sy_mgr s))) \<Longrightarrow> tau_step S new s (s\<lparr>sy_callers := n\<rparr>)"
| rotate_wait: "sy_callers s = Suc n \<Longrightarrow> GM_ShouldFlush (snd (mg_active (sy_mgr s))) \<Longrightarrow> \<not> has_room (sy_mgr s) \<Longrightarrow>
    tau_step S new s (s\<lparr>sy_callers := n, sy_waiting := Suc (sy_waiting s)\<rparr>)"
| rotate_go: "sy_callers s = Suc n \<Longrightarrow> GM_ShouldFlush (snd (mg_active (sy_mgr s))) \<Longrightarrow> has_room (sy_mgr s) \<Longrightarrow>
    tau_step S new s (rotate_now new (s\<lparr>sy_callers := n\<rparr>))"
| woken_wait: "sy_woken s = Suc n \<Longrightarrow> \<not> has_room (sy_mgr s) \<Longrightarrow>
    tau_step S new s (s\<lparr>sy_woken := n, sy_waiting := Suc (sy_waiting s)\<rparr>)"
| woken_go: "sy_woken s = Suc n \<Longrightarrow> has_room (sy_mgr s) \<Longrightarrow> tau_step S new s (rotate_now new (s\<lparr>sy_woken := n\<rparr>))"
| send: "sy_unsent s = xs @ m # ys \<Longrightarrow> length (mg_channel (sy_mgr s)) < mg_maxTables (sy_mgr s) \<Longrightarrow>
    tau_step S new s (s\<lparr>sy_unsent := xs @ ys, sy_mgr := (sy_mgr s)\<lparr>mg_channel := mg_channel (sy_mgr s) @ [m]\<rparr>\<rparr>)"
| take: "sy_worker s = None \<Longrightarrow> mg_channel (sy_mgr s) = m # ch \<Longrightarrow>
    tau_step S new s (worker_take m (s\<lparr>sy_mgr := (sy_mgr s)\<lparr>mg_channel := ch\<rparr>\<rparr>))"
| flush: "sy_worker s = Some (True, i, m) \<Longrightarrow> GM_Flush S m = Some ((es, ds), m') \<Longrightarrow>
    tau_step S new s (s\<lparr>sy_worker := None, sy_flushed := sy_flushed s @ [(i, es, ds)]\<rparr>)"
| drop: "sy_worker s = Some (False, i, m) \<Longrightarrow> tau_step S new s (s\<lparr>sy_worker := None\<rparr>)"

text \<open>The states after the writes \<open>ws\<close>.\<close>

inductive reaches :: "('s, 'it) MemtableStore \<Rightarrow> 's GenericMemtable \<Rightarrow> nat \<Rightarrow> byte \<Rightarrow> gm_write list \<Rightarrow> 's system \<Rightarrow> bool"
  for S new maxTables mergeStructure where
  start: "reaches S new maxTables mergeStructure [] (NewSystem maxTables mergeStructure new)"
| tau: "reaches S new maxTables mergeStructure ws s \<Longrightarrow> tau_step S new s s' \<Longrightarrow> reaches S new maxTables mergeStructure ws s'"
| snap: "reaches S new maxTables mergeStructure ws s \<Longrightarrow> client_step S None s s' \<Longrightarrow> reaches S new maxTables mergeStructure ws s'"
| wrote: "reaches S new maxTables mergeStructure ws s \<Longrightarrow> client_step S (Some w) s s' \<Longrightarrow> reaches S new maxTables mergeStructure (ws @ [w]) s'"

inductive_cases tau_stepE: "tau_step S new s s'"
inductive_cases client_stepE: "client_step S w s s'"

section \<open>Where the writes are\<close>

text \<open>
  The writes are cut into the chunks that the rotated memtables hold, in the order of their numbers, and the
  one the active memtable holds. \<open>in_flight\<close> are the memtables rotated and not yet flushed, wherever they are.
\<close>

definition in_flight :: "'s system \<Rightarrow> (nat \<times> 's GenericMemtable) list" where
  "in_flight s = (case sy_worker s of None \<Rightarrow> [] | Some (_, m) \<Rightarrow> [m]) @ mg_channel (sy_mgr s) @ sy_unsent s"

definition waiting_ids :: "'s system \<Rightarrow> nat set" where
  "waiting_ids s = fst ` set (mg_channel (sy_mgr s) @ sy_unsent s)"

text \<open>What the flush handler gets for a memtable with the writes \<open>ws\<close>.\<close>

definition flush_of :: "gm_write list \<Rightarrow> MemtableEntry list \<Rightarrow> MemtableEntry list \<Rightarrow> bool" where
  "flush_of ws es ds \<longleftrightarrow> store_sorted es \<and> store_sorted ds \<and> (\<forall>k. tracks (of_key k es) (of_key k (point_writes ws))) \<and>
     set ds = set (range_writes ws)"

text \<open>
  Every write is in one place: the active memtable, one in flight, or one that was flushed. The memtable with the
  number \<open>i\<close> has the writes \<open>chunks ! i\<close>, the active one the writes \<open>cur\<close>.
\<close>

definition accounted_as :: "('s, 'it) MemtableStore \<Rightarrow> gm_write list \<Rightarrow> gm_write list list \<Rightarrow> gm_write list \<Rightarrow> 's system \<Rightarrow> bool" where
  "accounted_as S ws chunks cur s \<longleftrightarrow>
     ws = concat chunks @ cur \<and>
     (\<exists>es. GM_ReadEntries S (snd (mg_active (sy_mgr s))) = Some es \<and> (\<forall>k. tracks (of_key k es) (of_key k (point_writes cur)))) \<and>
     mset (map fst (in_flight s) @ map fst (sy_flushed s)) = mset [0 ..< length chunks] \<and>
     (\<forall>(i, m) \<in> set (in_flight s). \<exists>es ds m'. GM_Flush S m = Some ((es, ds), m') \<and> flush_of (chunks ! i) es ds) \<and>
     (\<forall>(i, es, ds) \<in> set (sy_flushed s). flush_of (chunks ! i) es ds)"

definition accounted :: "('s, 'it) MemtableStore \<Rightarrow> gm_write list \<Rightarrow> 's system \<Rightarrow> bool" where
  "accounted S ws s \<longleftrightarrow> (\<exists>chunks cur. accounted_as S ws chunks cur s)"

text \<open>What a read of several memtables has to answer, given their writes from new to old.\<close>

fun read_chunks :: "int \<Rightarrow> bytes \<Rightarrow> gm_write list list \<Rightarrow> MemtableEntry option \<times> bool" where
  "read_chunks now key [] = (None, False)"
| "read_chunks now key (c # cs) =
     (let (v, found) = last_write (rev (of_key key (point_writes c))) (range_writes c) key in
      if found then checkTTL now v found else read_chunks now key cs)"

text \<open>
  The memtables that were rotated and that the worker has not taken: those on their way to the channel or in it,
  the oldest first. A read has to see the active memtable and exactly these.
\<close>

definition not_taken :: "gm_write list list \<Rightarrow> 's system \<Rightarrow> gm_write list list" where
  "not_taken chunks s = map ((!) chunks) (filter (\<lambda>i. i \<in> waiting_ids s) [0 ..< length chunks])"

definition reads_right :: "('s, 'it) MemtableStore \<Rightarrow> gm_write list \<Rightarrow> 's system \<Rightarrow> bool" where
  "reads_right S ws s \<longleftrightarrow>
     (\<exists>chunks cur. accounted_as S ws chunks cur s \<and>
        (\<forall>now key. unshadowed (range_writes ws) key \<longrightarrow>
           Mgr_Get S now (sy_mgr s) key = Some (read_chunks now key (cur # rev (not_taken chunks s)))))"

text \<open>Each internal step does some of the work that is left.\<close>

definition work :: "'s system \<Rightarrow> nat" where
  "work s = 5 * sy_callers s + 5 * sy_woken s + 4 * sy_waiting s + 4 * length (sy_unsent s) + 3 * length (mg_channel (sy_mgr s)) +
     (if sy_worker s = None then 0 else 1)"

text \<open>
  The internal steps end, whatever the state, and when none is possible, nobody is in \<^verbatim>\<open>rotate\<close> and every memtable
  that was rotated has been flushed.
\<close>

definition drained :: "('s, 'it) MemtableStore \<Rightarrow> 's GenericMemtable \<Rightarrow> gm_write list \<Rightarrow> 's system \<Rightarrow> bool" where
  "drained S new ws s \<longleftrightarrow>
     (\<forall>s1 s2. tau_step S new s1 s2 \<longrightarrow> work s2 < work s1) \<and>
     ((\<forall>s'. \<not> tau_step S new s s') \<longrightarrow>
        sy_callers s = 0 \<and> sy_waiting s = 0 \<and> sy_woken s = 0 \<and> in_flight s = [] \<and> mg_immutable (sy_mgr s) = [] \<and>
        (\<exists>chunks cur. ws = concat chunks @ cur \<and> mset (map fst (sy_flushed s)) = mset [0 ..< length chunks] \<and>
           (\<forall>(i, es, ds) \<in> set (sy_flushed s). flush_of (chunks ! i) es ds)))"

lemma cond_Signal_fields [simp]:
  "sy_mgr (cond_Signal s) = sy_mgr s" "sy_callers (cond_Signal s) = sy_callers s" "sy_unsent (cond_Signal s) = sy_unsent s"
  "sy_worker (cond_Signal s) = sy_worker s" "sy_flushed (cond_Signal s) = sy_flushed s"
  "0 < sy_waiting (cond_Signal s) \<Longrightarrow> sy_woken (cond_Signal s) = Suc (sy_woken s)"
  by (simp_all add: cond_Signal_def split: nat.splits)

lemma unshadowed_subset: "unshadowed ds key \<Longrightarrow> set ds' \<subseteq> set ds \<Longrightarrow> unshadowed ds' key"
  unfolding unshadowed_def by blast

lemma store_sorted_strict: "store_sorted es \<Longrightarrow> versions_sorted es"
proof (induction es)
  case (Cons x es)
  note c = Cons.prems [unfolded store_sorted_def]
  have "sorted_wrt (\<lambda>a b. me_SeqId b < me_SeqId a) (of_key k es)" for k
    using c [THEN conjunct2, THEN spec, of k] by (cases "me_Key x = k") (simp_all add: of_key_def)
  with c have "store_sorted es" by (simp add: store_sorted_def)
  moreover have "mt_cmp x y < 0" if y: "y \<in> set es" for y
  proof (cases "me_Key x = me_Key y")
    case True
    with y have "y \<in> set (of_key (me_Key x) es)" by (simp add: of_key_def)
    moreover have "sorted_wrt (\<lambda>a b. me_SeqId b < me_SeqId a) (x # of_key (me_Key x) es)"
      using c [THEN conjunct2, THEN spec, of "me_Key x"] by (simp add: of_key_def)
    ultimately show ?thesis using True by (simp add: mt_cmp_simps)
  next
    case False
    moreover have "me_Key x \<le> me_Key y" using c y by simp
    ultimately show ?thesis by (simp add: mt_cmp_simps order_le_less)
  qed
  ultimately show ?case using Cons.IH by simp
qed simp

lemma store_sorted_entries: "store_sorted es \<Longrightarrow> entries_sorted es"
  by (rule sorted_wrt_mono_rel [OF _ store_sorted_strict]) auto

lemma versions_sorted_distinct: "versions_sorted es \<Longrightarrow> distinct (map (\<lambda>e. (me_Key e, me_SeqId e)) es)"
  by (induction es) (auto simp: mt_cmp_simps)

text \<open>Writes of different parts of a history have different sequence numbers.\<close>

lemma history_parts:
  assumes "history (concat cs)" "i < length cs" "j < length cs" "i \<noteq> j" "a \<in> set (cs ! i)" "b \<in> set (cs ! j)"
  shows "me_SeqId (write_entry a) \<noteq> me_SeqId (write_entry b)"
proof -
  have lt: "me_SeqId (write_entry a) < me_SeqId (write_entry b)"
    if ij: "i < j" "j < length cs" "a \<in> set (cs ! i)" "b \<in> set (cs ! j)" for i j a b
  proof -
    have "concat cs = concat (take i cs) @ cs ! i @ concat (drop (Suc i) cs)"
      using id_take_nth_drop [of i cs] ij(1,2) by (metis concat.simps(2) concat_append order_less_trans)
    moreover have "b \<in> set (concat (drop (Suc i) cs))"
    proof -
      have "drop (Suc i) cs ! (j - Suc i) = cs ! j" "j - Suc i < length (drop (Suc i) cs)" using ij(1,2) by auto
      then have "cs ! j \<in> set (drop (Suc i) cs)" using nth_mem by metis
      with ij(4) show ?thesis by auto
    qed
    ultimately show ?thesis using assms(1) ij(3) by (auto simp: history_def sorted_wrt_append)
  qed
  from assms(4) consider "i < j" | "j < i" by linarith
  then show ?thesis using lt assms(2,3,5,6) by cases fastforce+
qed

context memtable_store
begin

definition placed :: "gm_write list list \<Rightarrow> gm_write list \<Rightarrow> 's system \<Rightarrow> bool" where
  "placed chunks cur s \<longleftrightarrow>
     fst (mg_active (sy_mgr s)) = length chunks \<and> reflects cur (snd (mg_active (sy_mgr s))) \<and>
     mg_nextId (sy_mgr s) = Suc (length chunks) \<and>
     (\<forall>x \<in> set (mg_immutable (sy_mgr s) @ in_flight s). fst x < length chunks \<and> reflects (chunks ! fst x) (snd x)) \<and>
     mset (map fst (in_flight s) @ map fst (sy_flushed s)) = mset [0 ..< length chunks] \<and>
     map fst (mg_immutable (sy_mgr s)) = filter (\<lambda>i. i \<in> waiting_ids s) [0 ..< length chunks] \<and>
     (\<forall>(i, es, ds) \<in> set (sy_flushed s). flush_of (chunks ! i) es ds) \<and>
     (sy_worker s \<noteq> None \<longrightarrow> fst (the (sy_worker s)))"

lemma placed_in_flight: "placed chunks cur s \<Longrightarrow> (i, m) \<in> set (in_flight s) \<Longrightarrow> i < length chunks \<and> reflects (chunks ! i) m"
proof -
  assume "placed chunks cur s" "(i, m) \<in> set (in_flight s)"
  then have "\<forall>x \<in> set (in_flight s). fst x < length chunks \<and> reflects (chunks ! fst x) (snd x)" by (simp add: placed_def)
  from bspec [OF this \<open>(i, m) \<in> set (in_flight s)\<close>] show ?thesis by simp
qed

text \<open>Steps that leave the memtables where they are.\<close>

lemma placed_same:
  assumes "placed chunks cur s"
    and "mg_active (sy_mgr s') = mg_active (sy_mgr s)" "mg_nextId (sy_mgr s') = mg_nextId (sy_mgr s)"
    and "mg_immutable (sy_mgr s') = mg_immutable (sy_mgr s)"
    and "mset (in_flight s') = mset (in_flight s)" "waiting_ids s' = waiting_ids s"
    and "sy_worker s' = sy_worker s" "sy_flushed s' = sy_flushed s"
  shows "placed chunks cur s'"
proof -
  have "set (in_flight s') = set (in_flight s)" "mset (map fst (in_flight s')) = mset (map fst (in_flight s))"
    using assms(5) mset_eq_setD by (auto simp: mset_map)
  with assms show ?thesis by (simp add: placed_def)
qed

lemma placed_rotate:
  assumes "placed chunks cur s" "reflects [] new" "sy_unsent s' = sy_unsent s @ [mg_active (sy_mgr s)]"
    and "sy_mgr s' = do_rotate new (sy_mgr s)" "sy_worker s' = sy_worker s" "sy_flushed s' = sy_flushed s"
  shows "placed (chunks @ [cur]) [] s'"
proof -
  note p = assms(1) [unfolded placed_def]
  let ?n = "length chunks"
  have fl: "in_flight s' = in_flight s @ [mg_active (sy_mgr s)]" using assms by (simp add: in_flight_def do_rotate_def)
  have w: "waiting_ids s' = insert ?n (waiting_ids s)" using assms p by (auto simp: waiting_ids_def do_rotate_def)
  have ids: "fst ` set (in_flight s) \<union> fst ` set (sy_flushed s) = {..< ?n}"
  proof -
    have "set_mset (mset (map fst (in_flight s) @ map fst (sy_flushed s))) = set_mset (mset [0 ..< ?n])" using p by simp
    then show ?thesis by (simp add: atLeast0LessThan)
  qed
  have new: "filter (\<lambda>i. i \<in> waiting_ids s') [0 ..< Suc ?n] = filter (\<lambda>i. i \<in> waiting_ids s) [0 ..< ?n] @ [?n]"
    unfolding w by (auto intro!: filter_cong)
  have old: "(chunks @ [cur]) ! i = chunks ! i" if "i < ?n" for i using that by (simp add: nth_append)
  have "\<forall>(i, es, ds) \<in> set (sy_flushed s). flush_of ((chunks @ [cur]) ! i) es ds"
  proof (intro ballI, clarify)
    fix i es ds assume x: "(i, es, ds) \<in> set (sy_flushed s)"
    then have "i < ?n" using ids by force
    with x p old show "flush_of ((chunks @ [cur]) ! i) es ds" by auto
  qed
  moreover have "\<forall>x \<in> set (mg_immutable (sy_mgr s') @ in_flight s').
      fst x < Suc ?n \<and> reflects ((chunks @ [cur]) ! fst x) (snd x)"
    using p old assms(4) by (auto simp: fl do_rotate_def less_Suc_eq)
  moreover have "mset (map fst (in_flight s') @ map fst (sy_flushed s')) = mset [0 ..< Suc ?n]"
    using p by (simp add: fl assms(6))
  ultimately show ?thesis
    using p assms(2,4,5,6) new by (simp add: placed_def do_rotate_def)
qed

lemma placed_distinct: "placed chunks cur s \<Longrightarrow> distinct (map fst (mg_immutable (sy_mgr s)))"
  by (simp add: placed_def)

lemma placed_take:
  assumes "placed chunks cur s" "sy_worker s = None" "mg_channel (sy_mgr s) = m # ch"
    and "s' = worker_take m (s\<lparr>sy_mgr := (sy_mgr s)\<lparr>mg_channel := ch\<rparr>\<rparr>)"
  shows "placed chunks cur s'"
proof -
  note p = assms(1) [unfolded placed_def]
  let ?n = "length chunks"
  have mgr: "sy_mgr s' = removeImmutable (fst m) ((sy_mgr s)\<lparr>mg_channel := ch\<rparr>)" "sy_unsent s' = sy_unsent s"
    "sy_flushed s' = sy_flushed s" "sy_worker s' = Some (containsImmutable (fst m) (sy_mgr s), m)"
    using assms(4) by (simp_all add: worker_take_def containsImmutable_def)
  have fl: "in_flight s = m # ch @ sy_unsent s" "in_flight s' = in_flight s"
    using assms(2,3) by (simp_all add: in_flight_def removeImmutable_def mgr)
  have "mset (map fst (in_flight s) @ map fst (sy_flushed s)) = mset [0 ..< ?n]" using p by blast
  then have "distinct (map fst (in_flight s) @ map fst (sy_flushed s))"
    using mset_eq_imp_distinct_iff distinct_upt by blast
  then have out: "fst m \<notin> fst ` set (ch @ sy_unsent s)" by (auto simp: fl(1))
  have w: "waiting_ids s = insert (fst m) (waiting_ids s')" "waiting_ids s' = fst ` set (ch @ sy_unsent s)"
    using assms(3) by (auto simp: waiting_ids_def removeImmutable_def mgr)
  have imm: "mg_immutable (sy_mgr s') = filter (\<lambda>x. fst x \<noteq> fst m) (mg_immutable (sy_mgr s))"
    by (simp add: removeImmutable_def mgr)
  have "map fst (mg_immutable (sy_mgr s')) = filter (\<lambda>i. i \<noteq> fst m) (map fst (mg_immutable (sy_mgr s)))"
    by (simp add: imm filter_map comp_def)
  also have "\<dots> = filter (\<lambda>i. i \<in> waiting_ids s - {fst m}) [0 ..< ?n]"
    using p by (simp add: conj_commute)
  also have "waiting_ids s - {fst m} = waiting_ids s'" using w out by simp
  finally have ids: "map fst (mg_immutable (sy_mgr s')) = filter (\<lambda>i. i \<in> waiting_ids s') [0 ..< ?n]" .
  have "fst m \<in> set (map fst (mg_immutable (sy_mgr s)))" using p w fl(1) by auto
  then obtain x where "x \<in> set (mg_immutable (sy_mgr s))" "fst x = fst m" by auto
  then have "containsImmutable (fst m) (sy_mgr s)" unfolding containsImmutable_def list_ex_iff by blast
  then have fields: "mg_active (sy_mgr s') = mg_active (sy_mgr s)" "mg_nextId (sy_mgr s') = mg_nextId (sy_mgr s)"
    "sy_flushed s' = sy_flushed s" "sy_worker s' = Some (True, m)"
    by (simp_all add: removeImmutable_def mgr)
  have "\<forall>x \<in> set (mg_immutable (sy_mgr s') @ in_flight s'). fst x < ?n \<and> reflects (chunks ! fst x) (snd x)"
    using p unfolding imm fl(2) by auto
  then show ?thesis unfolding placed_def fields fl(2) option.sel fst_conv using p ids by blast
qed

lemma placed_flush:
  assumes "placed chunks cur s" "sy_worker s = Some (True, i, m)" "GM_Flush S m = Some ((es, ds), m')"
  shows "placed chunks cur (s\<lparr>sy_worker := None, sy_flushed := sy_flushed s @ [(i, es, ds)]\<rparr>)"
proof -
  note p = assms(1) [unfolded placed_def]
  have fl: "in_flight s = (i, m) # mg_channel (sy_mgr s) @ sy_unsent s" using assms(2) by (simp add: in_flight_def)
  then have r: "reflects (chunks ! i) m" using p by simp
  have f: "flush_of (chunks ! i) es ds" using flush_reflects [OF r] assms(3) by (auto simp: flush_of_def)
  have "in_flight (s\<lparr>sy_worker := None, sy_flushed := sy_flushed s @ [(i, es, ds)]\<rparr>) = mg_channel (sy_mgr s) @ sy_unsent s"
    by (simp add: in_flight_def)
  with p f fl show ?thesis unfolding placed_def by (simp add: waiting_ids_def)
qed

lemma placed_tau:
  assumes "placed chunks cur s" "reflects [] new" "tau_step S new s s'"
  shows "placed chunks cur s' \<or> placed (chunks @ [cur]) [] s'"
  using assms(3)
proof (cases rule: tau_step.cases)
  case (rotate_skip n)
  then show ?thesis using assms(1) by (intro disjI1 placed_same [OF assms(1)]) (simp_all add: in_flight_def waiting_ids_def)
next
  case (rotate_wait n)
  then show ?thesis using assms(1) by (intro disjI1 placed_same [OF assms(1)]) (simp_all add: in_flight_def waiting_ids_def)
next
  case (rotate_go n)
  then show ?thesis by (intro disjI2 placed_rotate [OF assms(1,2)]) (simp_all add: rotate_now_def)
next
  case (woken_wait n)
  then show ?thesis using assms(1) by (intro disjI1 placed_same [OF assms(1)]) (simp_all add: in_flight_def waiting_ids_def)
next
  case (woken_go n)
  then show ?thesis by (intro disjI2 placed_rotate [OF assms(1,2)]) (simp_all add: rotate_now_def)
next
  case (send xs m ys)
  then show ?thesis by (intro disjI1 placed_same [OF assms(1)]) (auto simp: in_flight_def waiting_ids_def)
next
  case (take m ch)
  then show ?thesis using placed_take [OF assms(1)] by blast
next
  case (flush i m es ds m')
  then show ?thesis using placed_flush [OF assms(1)] by blast
next
  case (drop i m)
  then show ?thesis using assms(1) by (auto simp: placed_def)
qed

lemma placed_write:
  assumes "placed chunks cur s" "history (cur @ [w])"
    and "sy_mgr s' = set_active (gm_step S w (snd (mg_active (sy_mgr s)))) (sy_mgr s)"
    and "sy_unsent s' = sy_unsent s" "sy_worker s' = sy_worker s" "sy_flushed s' = sy_flushed s"
  shows "placed chunks (cur @ [w]) s'"
proof -
  note p = assms(1) [unfolded placed_def]
  have "reflects (cur @ [w]) (gm_step S w (snd (mg_active (sy_mgr s))))" using p assms(2) by (intro reflects_step) auto
  moreover have "in_flight s' = in_flight s" "waiting_ids s' = waiting_ids s"
    using assms(3-6) by (simp_all add: in_flight_def waiting_ids_def set_active_def)
  ultimately show ?thesis using p assms(3-6) unfolding placed_def by (simp add: set_active_def)
qed

lemma history_suffix: "history (xs @ ys) \<Longrightarrow> history ys"
  by (auto simp: history_def sorted_wrt_append)

lemma history_prefix: "history (xs @ ys) \<Longrightarrow> history xs"
  by (auto simp: history_def sorted_wrt_append)

lemma reaches_placed:
  assumes "reaches S new maxTables ms ws s" "reflects [] new"
  shows "history ws \<Longrightarrow> \<exists>chunks cur. ws = concat chunks @ cur \<and> placed chunks cur s"
  using assms(1)
proof (induction rule: reaches.induct)
  case start
  have "placed [] [] (NewSystem maxTables ms new)"
    using assms(2) by (simp add: placed_def NewSystem_def NewMemtableManager_def in_flight_def)
  then show ?case by (intro exI [of _ "[]"]) simp
next
  case (tau ws s s')
  then obtain chunks cur where c: "ws = concat chunks @ cur" "placed chunks cur s" by blast
  from placed_tau [OF c(2) assms(2) tau.hyps(2)] show ?case
  proof
    assume "placed (chunks @ [cur]) [] s'"
    with c(1) show ?thesis by (intro exI [of _ "chunks @ [cur]"] exI [of _ "[]"]) simp
  qed (use c(1) in blast)
next
  case (snap ws s s')
  then obtain chunks cur where c: "ws = concat chunks @ cur" "placed chunks cur s" by blast
  from snap.hyps(2) obtain key where "s' = s\<lparr>sy_mgr := Mgr_Snapshot key (sy_mgr s)\<rparr>" by (cases rule: client_step.cases) auto
  then have "placed chunks cur s'"
    by (intro placed_same [OF c(2)]) (simp_all add: Mgr_Snapshot_def in_flight_def waiting_ids_def)
  with c(1) show ?case by blast
next
  case (wrote ws s w s')
  then obtain chunks cur where c: "ws = concat chunks @ cur" "placed chunks cur s"
    using history_prefix by blast
  have h: "history (cur @ [w])" using wrote.prems c(1) history_suffix [of "concat chunks"] by simp
  obtain b where "s' = after_write (b, set_active (gm_step S w (snd (mg_active (sy_mgr s)))) (sy_mgr s)) s"
    using wrote.hyps(2)
    by (cases rule: client_step.cases) (auto simp: Mgr_Put_write Mgr_PutWithTTL_write Let_def)
  then have "placed chunks (cur @ [w]) s'"
    by (intro placed_write [OF c(2) h]) (simp_all add: after_write_def)
  moreover have "ws @ [w] = concat chunks @ (cur @ [w])" using c(1) by simp
  ultimately show ?case by blast
qed

lemma placed_accounted:
  assumes "ws = concat chunks @ cur" "placed chunks cur s"
  shows "accounted_as S ws chunks cur s"
proof -
  note p = assms(2) [unfolded placed_def]
  have r: "reflects cur (snd (mg_active (sy_mgr s)))" using p by blast
  then have "inv (gm_store (snd (mg_active (sy_mgr s))))" by (simp add: reflects_def gm_inv_def)
  with r have a: "\<exists>es. GM_ReadEntries S (snd (mg_active (sy_mgr s))) = Some es \<and> (\<forall>k. tracks (of_key k es) (of_key k (point_writes cur)))"
    using entries_law by (simp add: GM_ReadEntries_def reflects_def)
  have f: "\<exists>es ds m'. GM_Flush S m = Some ((es, ds), m') \<and> flush_of (chunks ! i) es ds" if "(i, m) \<in> set (in_flight s)" for i m
  proof -
    have "reflects (chunks ! i) m" using placed_in_flight [OF assms(2) that] by blast
    from flush_reflects [OF this] show ?thesis unfolding flush_of_def by blast
  qed
  show ?thesis unfolding accounted_as_def using assms(1) a f p by auto
qed

lemma accounted_reaches:
  assumes "reaches S new maxTables ms ws s" "reflects [] new" "history ws"
  shows "accounted S ws s"
  using reaches_placed [OF assms] placed_accounted unfolding accounted_def by blast

lemma get_from_chunks:
  "list_all2 reflects cs ms \<Longrightarrow> \<forall>c \<in> set cs. unshadowed (range_writes c) key \<Longrightarrow>
    get_from S now key ms = Some (read_chunks now key cs)"
proof (induction rule: list_all2_induct)
  case (Cons c cs m ms)
  then show ?case by (simp add: Get_reflects Let_def answer_last_write split: prod.splits)
qed simp

lemma memtables_chunks:
  assumes "placed chunks cur s"
  shows "list_all2 reflects (cur # rev (not_taken chunks s)) (memtables (sy_mgr s))"
proof -
  note p = assms [unfolded placed_def]
  let ?imm = "mg_immutable (sy_mgr s)"
  have live: "not_taken chunks s = map ((!) chunks) (map fst ?imm)" using p by (simp add: not_taken_def)
  have "\<forall>x \<in> set ?imm. reflects (chunks ! fst x) (snd x)" using p by simp
  then have "list_all2 reflects (not_taken chunks s) (map snd ?imm)"
    unfolding live by (simp only: list.map_comp list.rel_map list_all2_same comp_def)
  then have "list_all2 reflects (rev (not_taken chunks s)) (rev (map snd ?imm))" by (simp only: list_all2_rev)
  then show ?thesis using p by (simp add: memtables_def)
qed

lemma reads_reaches:
  assumes "reaches S new maxTables ms ws s" "reflects [] new" "history ws"
  shows "reads_right S ws s"
proof -
  from reaches_placed [OF assms] obtain chunks cur where c: "ws = concat chunks @ cur" and pl: "placed chunks cur s" by blast
  have part: "set (range_writes x) \<subseteq> set (range_writes ws)" if "x \<in> set (cur # rev (not_taken chunks s))" for x
  proof -
    have "x \<in> set (cur # chunks)" using that by (auto simp: not_taken_def)
    then have "set x \<subseteq> set ws" by (auto simp: c)
    then show ?thesis by (auto simp: range_writes_def)
  qed
  have "Mgr_Get S now (sy_mgr s) key = Some (read_chunks now key (cur # rev (not_taken chunks s)))"
    if "unshadowed (range_writes ws) key" for now key
    unfolding Mgr_Get_def using unshadowed_subset [OF that part] by (intro get_from_chunks [OF memtables_chunks [OF pl]]) blast
  with placed_accounted [OF c pl] show ?thesis unfolding reads_right_def by blast
qed

lemma tau_work: "tau_step S new s s' \<Longrightarrow> work s' < work s"
  by (erule tau_step.cases)
    (auto simp: work_def do_rotate_def removeImmutable_def rotate_now_def worker_take_def cond_Signal_def split: nat.splits)

lemma reaches_maxTables: "reaches S new maxTables ms ws s \<Longrightarrow> mg_maxTables (sy_mgr s) = maxTables"
proof (induction rule: reaches.induct)
  case (tau ws s s')
  then show ?case by (elim tau_stepE) (auto simp: do_rotate_def removeImmutable_def rotate_now_def worker_take_def)
next
  case (snap ws s s')
  then show ?case by (elim client_stepE) (auto simp: Mgr_Snapshot_def)
next
  case (wrote ws s w s')
  then show ?case by (elim client_stepE) (auto simp: after_write_def Mgr_Put_def Mgr_PutWithTTL_def set_active_def Let_def)
qed (simp add: NewSystem_def NewMemtableManager_def)

text \<open>
  No wake-up is lost: while a goroutine is asleep, the immutable memtables and the goroutines on their way to
  rotate one more fill the list, so that another memtable has to be taken, with a signal, before all come to rest.
\<close>

definition no_lost_wakeup :: "'s system \<Rightarrow> bool" where
  "no_lost_wakeup s \<longleftrightarrow> (0 < sy_waiting s \<longrightarrow> mg_maxTables (sy_mgr s) \<le> length (mg_immutable (sy_mgr s)) + sy_woken s)"

lemma length_remove_one: "distinct (map f xs) \<Longrightarrow> length xs \<le> Suc (length (filter (\<lambda>x. f x \<noteq> y) xs))"
proof (induction xs)
  case (Cons x xs)
  have "filter (\<lambda>z. f z \<noteq> f x) xs = xs" using Cons.prems by (auto simp: filter_id_conv intro: rev_image_eqI)
  with Cons show ?case by auto
qed simp

lemma wakeup_tau:
  assumes "tau_step S new s s'" "no_lost_wakeup s" "distinct (map fst (mg_immutable (sy_mgr s)))"
  shows "no_lost_wakeup s'"
  using assms(1)
proof (cases rule: tau_step.cases)
  case (take m ch)
  let ?imm = "mg_immutable (sy_mgr s)"
  have imm: "length ?imm \<le> Suc (length (mg_immutable (sy_mgr s')))" "mg_maxTables (sy_mgr s') = mg_maxTables (sy_mgr s)"
    using length_remove_one [OF assms(3)] by (simp_all add: take(1) worker_take_def removeImmutable_def)
  show ?thesis
  proof (cases "sy_waiting s")
    case (Suc n)
    then have "sy_woken s' = Suc (sy_woken s)" by (simp add: take(1) worker_take_def cond_Signal_def)
    with imm assms(2) Suc show ?thesis by (simp add: no_lost_wakeup_def)
  qed (simp add: take(1) worker_take_def cond_Signal_def no_lost_wakeup_def)
qed (use assms(2) in \<open>auto simp: no_lost_wakeup_def has_room_def rotate_now_def do_rotate_def\<close>)

lemma reaches_wakeup:
  assumes "reaches S new maxTables ms ws s" "reflects [] new"
  shows "history ws \<Longrightarrow> no_lost_wakeup s"
  using assms(1)
proof (induction rule: reaches.induct)
  case start
  show ?case by (simp add: no_lost_wakeup_def NewSystem_def)
next
  case (tau ws s s')
  from reaches_placed [OF tau.hyps(1) assms(2) tau.prems] have "distinct (map fst (mg_immutable (sy_mgr s)))"
    using placed_distinct by blast
  with tau show ?case using wakeup_tau by blast
next
  case (snap ws s s')
  then show ?case by (elim client_stepE) (auto simp: no_lost_wakeup_def Mgr_Snapshot_def)
next
  case (wrote ws s w s')
  have "no_lost_wakeup s" using wrote.IH history_prefix [OF wrote.prems] by blast
  with wrote.hyps(2) show ?case
    by (elim client_stepE) (auto simp: no_lost_wakeup_def after_write_def Mgr_Put_def Mgr_PutWithTTL_def set_active_def Let_def)
qed

lemma stuck_done:
  assumes "reaches S new maxTables ms ws s" "reflects [] new" "history ws" "0 < maxTables" "\<And>s'. \<not> tau_step S new s s'"
  shows "sy_callers s = 0 \<and> sy_waiting s = 0 \<and> sy_woken s = 0 \<and> in_flight s = [] \<and> mg_immutable (sy_mgr s) = []"
proof -
  from reaches_placed [OF assms(1-3)] obtain chunks cur where pl: "placed chunks cur s" by blast
  note p = pl [unfolded placed_def]
  have max: "mg_maxTables (sy_mgr s) = maxTables" by (rule reaches_maxTables [OF assms(1)])
  have callers: "sy_callers s = 0"
  proof (cases "sy_callers s")
    case (Suc n)
    then show ?thesis using assms(5) tau_step.rotate_skip [OF Suc, of S new] tau_step.rotate_wait [OF Suc, of S new]
        tau_step.rotate_go [OF Suc, of S new] by blast
  qed simp
  have woken: "sy_woken s = 0"
  proof (cases "sy_woken s")
    case (Suc n)
    then show ?thesis using assms(5) tau_step.woken_wait [OF Suc, of S new] tau_step.woken_go [OF Suc, of S new] by blast
  qed simp
  have worker: "sy_worker s = None"
  proof (cases "sy_worker s")
    case (Some bm)
    obtain b i m where bm: "bm = (b, i, m)" by (cases bm) auto
    have b: "b" using p Some bm by simp
    have "(i, m) \<in> set (in_flight s)" using Some bm by (simp add: in_flight_def)
    then have "reflects (chunks ! i) m" using placed_in_flight [OF pl] by blast
    from flush_reflects [OF this] obtain es ds m' where "GM_Flush S m = Some ((es, ds), m')" by blast
    moreover have "sy_worker s = Some (True, i, m)" using Some bm b by simp
    ultimately show ?thesis using tau_step.flush assms(5) by blast
  qed simp
  have channel: "mg_channel (sy_mgr s) = []"
  proof (cases "mg_channel (sy_mgr s)")
    case (Cons m ch)
    with tau_step.take [OF worker Cons, of S new] assms(5) show ?thesis by blast
  qed simp
  have unsent: "sy_unsent s = []"
  proof (cases "sy_unsent s")
    case (Cons m ys)
    with tau_step.send [of s "[]" m ys S new] channel max assms(4,5) show ?thesis by simp
  qed simp
  have fl: "in_flight s = []" using worker channel unsent by (simp add: in_flight_def)
  have "map fst (mg_immutable (sy_mgr s)) = []" using p channel unsent by (simp add: waiting_ids_def)
  then have imm: "mg_immutable (sy_mgr s) = []" by simp
  have "no_lost_wakeup s" by (rule reaches_wakeup [OF assms(1-3)])
  then have "sy_waiting s = 0" using imm woken max assms(4) by (simp add: no_lost_wakeup_def)
  with callers woken fl imm show ?thesis by blast
qed

lemma drains_reaches:
  assumes "reaches S new maxTables ms ws s" "reflects [] new" "history ws" "0 < maxTables"
  shows "drained S new ws s"
  unfolding drained_def
proof (rule conjI, intro allI impI)
  show "tau_step S new s1 s2 \<Longrightarrow> work s2 < work s1" for s1 s2 by (rule tau_work)
  obtain chunks cur where a: "accounted_as S ws chunks cur s" using accounted_reaches [OF assms(1-3)] by (auto simp: accounted_def)
  show "(\<forall>s'. \<not> tau_step S new s s') \<longrightarrow>
        sy_callers s = 0 \<and> sy_waiting s = 0 \<and> sy_woken s = 0 \<and> in_flight s = [] \<and> mg_immutable (sy_mgr s) = [] \<and>
        (\<exists>chunks cur. ws = concat chunks @ cur \<and> mset (map fst (sy_flushed s)) = mset [0 ..< length chunks] \<and>
           (\<forall>(i, es, ds) \<in> set (sy_flushed s). flush_of (chunks ! i) es ds))"
  proof
    assume "\<forall>s'. \<not> tau_step S new s s'"
    then have d: "sy_callers s = 0 \<and> sy_waiting s = 0 \<and> sy_woken s = 0 \<and> in_flight s = [] \<and> mg_immutable (sy_mgr s) = []"
      using stuck_done [OF assms] by blast
    then show "sy_callers s = 0 \<and> sy_waiting s = 0 \<and> sy_woken s = 0 \<and> in_flight s = [] \<and> mg_immutable (sy_mgr s) = [] \<and>
        (\<exists>chunks cur. ws = concat chunks @ cur \<and> mset (map fst (sy_flushed s)) = mset [0 ..< length chunks] \<and>
           (\<forall>(i, es, ds) \<in> set (sy_flushed s). flush_of (chunks ! i) es ds))"
      using a unfolding accounted_as_def by (auto intro!: exI [of _ chunks] exI [of _ cur])
  qed
qed

text \<open>The iterator over all versions in memory.\<close>

definition iterators_of :: "'s MemtableManager \<Rightarrow> 'it RawSingleMemtableIterator option list" where
  "iterators_of mg = map (\<lambda>m. Some (NewRawSingleMemtableIterator (st_RawIterator S (gm_store m)))) (memtables mg)"

abbreviation stored_entries :: "'s MemtableManager \<Rightarrow> MemtableEntry list" where
  "stored_entries mg \<equiv> concat (map (\<lambda>m. content (gm_store m)) (memtables mg))"

lemma manager_start:
  assumes "\<forall>m \<in> set (memtables mg). inv (gm_store m)"
  shows "\<forall>it. Some it \<in> set (iterators_of mg) \<longrightarrow> entry_iterator.startable (\<lambda>r. ok (rs_it r)) (\<lambda>r. whole (rs_it r)) it"
    and "entry_iterator.all_entries (\<lambda>r. whole (rs_it r)) (iterators_of mg) = stored_entries mg"
proof -
  note e = entry_iterator.intro [OF raw_rewindable]
  have sorted: "entries_sorted (content s)" if "inv s" for s
    using content_sorted [OF that] by (rule store_sorted_entries)
  show "\<forall>it. Some it \<in> set (iterators_of mg) \<longrightarrow> entry_iterator.startable (\<lambda>r. ok (rs_it r)) (\<lambda>r. whole (rs_it r)) it"
    using assms raw_law sorted by (auto simp: iterators_of_def entry_iterator.startable_def [OF e] NewRawSingleMemtableIterator_def)
  have "List.map_filter (\<lambda>x. x) (map (\<lambda>m. Some (f m)) ms) = map f ms" for f :: "'s GenericMemtable \<Rightarrow> 'it RawSingleMemtableIterator" and ms
    by (induction ms) (simp_all add: List.map_filter_simps)
  moreover have "map ((\<lambda>r. whole (rs_it r)) \<circ> (\<lambda>m. NewRawSingleMemtableIterator (st_RawIterator S (gm_store m)))) (memtables mg) =
      map (\<lambda>m. content (gm_store m)) (memtables mg)"
    using assms raw_law by (auto simp: NewRawSingleMemtableIterator_def)
  ultimately show "entry_iterator.all_entries (\<lambda>r. whole (rs_it r)) (iterators_of mg) = stored_entries mg"
    by (simp only: iterators_of_def entry_iterator.all_entries_def [OF e] list.map_comp)
qed

lemma raw_iterator_all:
  assumes "\<forall>m \<in> set (memtables mg). inv (gm_store m)"
  shows "\<exists>r out. Mgr_RawIterator S mg = Some r \<and> collect (merging_methods (raw_methods (st_raw S))) r = Some out \<and>
    mset out = mset (stored_entries mg) \<and> entries_sorted out"
proof -
  note e = entry_iterator.intro [OF raw_rewindable]
  note start = manager_start [OF assms]
  from entry_iterator.NewRaw [OF e start(1), of "mg_mergeStructure mg"] obtain r where
    r: "Mgr_RawIterator S mg = Some r" "entry_iterator.raw_ok (raw_methods (st_raw S)) (\<lambda>r. ok (rs_it r)) (\<lambda>r. ahead (rs_it r)) r"
    "mset (entry_iterator.remaining (\<lambda>r. ahead (rs_it r)) r) = mset (entry_iterator.all_entries (\<lambda>r. whole (rs_it r)) (iterators_of mg))"
    by (auto simp: Mgr_RawIterator_def iterators_of_def)
  from entry_iterator.raw_collect [OF e r(2)] r(1,3) start(2) show ?thesis by auto
qed

text \<open>All stored versions of all memtables differ.\<close>

lemma content_written:
  assumes "reflects ws m"
  shows "set (content (gm_store m)) \<subseteq> set (point_writes ws)" "distinct (map (\<lambda>e. (me_Key e, me_SeqId e)) (content (gm_store m)))"
proof -
  have inv: "inv (gm_store m)" and tr: "\<And>k. tracks (of_key k (content (gm_store m))) (of_key k (point_writes ws))"
    using assms by (simp_all add: reflects_def gm_inv_def)
  show "set (content (gm_store m)) \<subseteq> set (point_writes ws)"
    using tr set_of_key unfolding tracks_def by blast
  show "distinct (map (\<lambda>e. (me_Key e, me_SeqId e)) (content (gm_store m)))"
    using content_sorted [OF inv] by (intro versions_sorted_distinct store_sorted_strict)
qed

lemma stored_distinct:
  assumes "distinct (map fst L)" "\<forall>(i, m) \<in> set L. i < length cs \<and> reflects (cs ! i) m" "history (concat cs)"
  shows "distinct (map (\<lambda>e. (me_Key e, me_SeqId e)) (concat (map (\<lambda>(i, m). content (gm_store m)) L)))"
  using assms(1,2)
proof (induction L)
  case (Cons x L)
  obtain i m where x: "x = (i, m)" by force
  from Cons.prems x have i: "i < length cs" "reflects (cs ! i) m" and other: "\<And>j m'. (j, m') \<in> set L \<Longrightarrow> j \<noteq> i"
    by (auto intro: rev_image_eqI)
  have "me_SeqId a \<noteq> me_SeqId b" if "a \<in> set (content (gm_store m))" "(j, m') \<in> set L" "b \<in> set (content (gm_store m'))" for a b j m'
  proof -
    have j: "j < length cs" "reflects (cs ! j) m'" using that(2) Cons.prems(2) by auto
    have "a \<in> set (point_writes (cs ! i))" "b \<in> set (point_writes (cs ! j))"
      using content_written(1) [OF i(2)] content_written(1) [OF j(2)] that by blast+
    then show ?thesis
      using history_parts [OF assms(3) i(1) j(1) other [OF that(2), symmetric]] by (auto simp: point_writes_def)
  qed
  with Cons x content_written(2) [OF i(2)] show ?case by (fastforce simp: distinct_append)
qed simp

lemma memtables_distinct:
  assumes "placed chunks cur s" "history (concat chunks @ cur)"
  shows "distinct (map (\<lambda>e. (me_Key e, me_SeqId e)) (stored_entries (sy_mgr s)))"
proof -
  let ?L = "mg_active (sy_mgr s) # rev (mg_immutable (sy_mgr s))"
  have "map fst (mg_immutable (sy_mgr s)) = filter (\<lambda>i. i \<in> waiting_ids s) [0 ..< length chunks]"
    using assms(1) by (simp add: placed_def)
  then have d: "distinct (map fst (mg_immutable (sy_mgr s)))" by simp
  have imm: "\<forall>x \<in> set (mg_immutable (sy_mgr s)). fst x < length chunks \<and> reflects (chunks ! fst x) (snd x)"
    and act: "fst (mg_active (sy_mgr s)) = length chunks" "reflects cur (snd (mg_active (sy_mgr s)))"
    using assms(1) by (simp_all add: placed_def)
  have ids: "distinct (map fst ?L)" using d imm act(1) by (auto simp: rev_map [symmetric])
  have refl: "\<forall>(i, m) \<in> set ?L. i < length (chunks @ [cur]) \<and> reflects ((chunks @ [cur]) ! i) m"
    using imm act by (auto simp: nth_append split: prod.splits)
  have "history (concat (chunks @ [cur]))" using assms(2) by simp
  from stored_distinct [OF ids refl this] show ?thesis
    by (simp add: memtables_def rev_map comp_def split_def)
qed

lemma reaches_structure: "reaches S new maxTables ms ws s \<Longrightarrow> mg_mergeStructure (sy_mgr s) = ms"
proof (induction rule: reaches.induct)
  case (tau ws s s')
  from tau.hyps(2) tau.IH show ?case
    by (cases rule: tau_step.cases) (auto simp: do_rotate_def removeImmutable_def rotate_now_def worker_take_def)
qed (auto simp: NewSystem_def NewMemtableManager_def Mgr_Snapshot_def after_write_def Mgr_Put_def Mgr_PutWithTTL_def set_active_def
    Let_def elim!: client_stepE)

lemma reaches_stored:
  assumes "reaches S new maxTables ms ws s" "reflects [] new" "history ws"
  shows "\<forall>m \<in> set (memtables (sy_mgr s)). inv (gm_store m)"
    and "map (GM_ReadEntries S) (memtables (sy_mgr s)) = map Some (map (\<lambda>m. content (gm_store m)) (memtables (sy_mgr s)))"
    and "distinct (map (\<lambda>e. (me_Key e, me_SeqId e)) (stored_entries (sy_mgr s)))"
proof -
  from reaches_placed [OF assms] obtain chunks cur where pl: "ws = concat chunks @ cur" "placed chunks cur s" by blast
  have "\<forall>m \<in> set (memtables (sy_mgr s)). \<exists>ws. reflects ws m"
    using pl(2) unfolding placed_def memtables_def by auto
  then show inv: "\<forall>m \<in> set (memtables (sy_mgr s)). inv (gm_store m)" by (auto simp: reflects_def gm_inv_def)
  then show "map (GM_ReadEntries S) (memtables (sy_mgr s)) = map Some (map (\<lambda>m. content (gm_store m)) (memtables (sy_mgr s)))"
    using entries_law by (simp add: GM_ReadEntries_def)
  show "distinct (map (\<lambda>e. (me_Key e, me_SeqId e)) (stored_entries (sy_mgr s)))"
    using memtables_distinct [OF pl(2)] assms(3) pl(1) by simp
qed

lemma reaches_written:
  assumes "reaches S new maxTables ms ws s" "reflects [] new" "history ws"
  shows "set (stored_entries (sy_mgr s)) \<subseteq> set (point_writes ws)"
proof -
  from reaches_placed [OF assms] obtain chunks cur where pl: "ws = concat chunks @ cur" "placed chunks cur s" by blast
  have part: "set (point_writes ys) \<subseteq> set (point_writes ws)" if "ys \<in> set (cur # chunks)" for ys
    using that by (auto simp: point_writes_def pl(1))
  have imm: "\<forall>x \<in> set (mg_immutable (sy_mgr s)). fst x < length chunks \<and> reflects (chunks ! fst x) (snd x)"
    and act: "reflects cur (snd (mg_active (sy_mgr s)))"
    using pl(2) by (simp_all add: placed_def)
  have "\<exists>ys \<in> set (cur # chunks). reflects ys m" if m: "m \<in> set (memtables (sy_mgr s))" for m
    using m imm act nth_mem by (fastforce simp: memtables_def)
  then have "set (content (gm_store m)) \<subseteq> set (point_writes ws)" if "m \<in> set (memtables (sy_mgr s))" for m
    using that part content_written(1) by blast
  then show ?thesis by auto
qed

lemma raw_iterator_reaches:
  assumes "reaches S new maxTables ms ws s" "reflects [] new" "history ws"
  shows "\<exists>r out ess. Mgr_RawIterator S (sy_mgr s) = Some r \<and>
    map (GM_ReadEntries S) (memtables (sy_mgr s)) = map Some ess \<and>
    collect (merging_methods (raw_methods (st_raw S))) r = Some out \<and> mset out = mset (concat ess) \<and> entries_sorted out"
  using raw_iterator_all [OF reaches_stored(1) [OF assms]] reaches_stored(2) [OF assms] by blast

end

abbreviation avl_new :: "int \<Rightarrow> u64 \<Rightarrow> AVLTreeStore GenericMemtable" where
  "avl_new \<equiv> NewGenericMemtable NewAVLTreeStore NewAVLTreeStore"

abbreviation hash_new :: "int \<Rightarrow> u64 \<Rightarrow> HashMapStore GenericMemtable" where
  "hash_new \<equiv> NewGenericMemtable NewHackMap NewHackMap"

lemmas avl_new_reflects = avl_mem.reflects_New [OF avl_store_New]
lemmas hash_new_reflects = hash_mem.reflects_New [OF hash_store_New]

section \<open>Two runs over the AVL tree with room for one entry\<close>

abbreviation example_put :: gm_write where "example_put \<equiv> WUpsert [1] [9] 1 OpTypePut"
abbreviation example_del :: gm_write where "example_del \<equiv> WPut [1] [2] 2 OpTypeRangeDel"

abbreviation example_reaches :: "gm_write list \<Rightarrow> AVLTreeStore system \<Rightarrow> bool" where
  "example_reaches \<equiv> reaches avl_store (avl_new 1 1000) 3 Heap"

definition example_written :: "AVLTreeStore system" where
  "example_written =
     (let s = NewSystem 3 Heap (avl_new 1 1000) in after_write (Mgr_Put avl_store [1] [9] 1 OpTypePut (sy_mgr s)) s)"

definition example_rotated :: "AVLTreeStore system" where
  "example_rotated =
     (let s = example_written in
      s\<lparr>sy_callers := 0, sy_mgr := do_rotate (avl_new 1 1000) (sy_mgr s), sy_unsent := [mg_active (sy_mgr s)]\<rparr>)"

definition example_taken :: "AVLTreeStore system" where
  "example_taken =
     (let s = example_rotated; m = hd (sy_unsent s) in
      s\<lparr>sy_unsent := [], sy_worker := Some (containsImmutable (fst m) (sy_mgr s), m), sy_mgr := removeImmutable (fst m) (sy_mgr s)\<rparr>)"

definition example_deleted :: "AVLTreeStore system" where
  "example_deleted =
     after_write (Mgr_Put avl_store [1] [2] 2 OpTypeRangeDel (sy_mgr example_rotated)) example_rotated"

lemma example_reaches_rotated: "example_reaches [example_put] example_rotated"
proof -
  let ?new = "avl_new 1 1000" and ?s1 = example_written
  have "put_write (sy_mgr (NewSystem 3 Heap ?new)) [1] [9] 1 OpTypePut = example_put" by code_simp
  then have r1: "example_reaches [example_put] ?s1"
    using reaches.wrote [OF reaches.start client_step.client_put, of avl_store ?new 3 Heap "[1]" "[9]" 1 OpTypePut]
    by (simp add: example_written_def Let_def)
  have "sy_callers ?s1 = Suc 0" "GM_ShouldFlush (snd (mg_active (sy_mgr ?s1)))" "has_room (sy_mgr ?s1)" by code_simp+
  then have r2: "example_reaches [example_put] (rotate_now ?new (?s1\<lparr>sy_callers := 0\<rparr>))"
    by (rule reaches.tau [OF r1 tau_step.rotate_go])
  have "sy_unsent ?s1 = []" by code_simp
  then have "rotate_now ?new (?s1\<lparr>sy_callers := 0\<rparr>) = example_rotated" by (simp add: example_rotated_def rotate_now_def Let_def)
  with r2 show ?thesis by simp
qed

lemma example_reaches_taken: "example_reaches [example_put] example_taken"
proof -
  let ?s = example_rotated
  obtain m where m: "sy_unsent ?s = [m]" by (simp add: example_rotated_def Let_def)
  have ch: "mg_channel (sy_mgr ?s) = []" "mg_maxTables (sy_mgr ?s) = 3" "sy_worker ?s = None" by code_simp+
  let ?s1 = "?s\<lparr>sy_unsent := [], sy_mgr := (sy_mgr ?s)\<lparr>mg_channel := [m]\<rparr>\<rparr>"
  have r1: "example_reaches [example_put] ?s1"
    using reaches.tau [OF example_reaches_rotated tau_step.send [of ?s "[]" m "[]"]] m ch by simp
  have w: "sy_worker ?s1 = None" "mg_channel (sy_mgr ?s1) = m # []" using ch by simp_all
  have "removeImmutable (fst m) ((sy_mgr ?s)\<lparr>mg_channel := []\<rparr>) = removeImmutable (fst m) (sy_mgr ?s)"
    using ch(1) by (cases "sy_mgr ?s") (simp add: removeImmutable_def)
  moreover have "sy_waiting ?s = 0" by code_simp
  ultimately have "worker_take m (?s1\<lparr>sy_mgr := (sy_mgr ?s1)\<lparr>mg_channel := []\<rparr>\<rparr>) = example_taken"
    using m by (simp add: example_taken_def worker_take_def cond_Signal_def Let_def containsImmutable_def)
  with reaches.tau [OF r1 tau_step.take [OF w]] show ?thesis by simp
qed

lemma example_history: "history [example_put]" "history [example_del]" "history [example_put, example_del]"
  by (simp_all add: history_def)

lemma example_reads:
  "Mgr_Get avl_store 0 (sy_mgr example_deleted) [1] = Some (read_chunks 0 [1] [[example_del], [example_put]])"
proof -
  have "memtables (sy_mgr example_deleted) =
      [gm_step avl_store example_del (avl_new 1 1000), gm_step avl_store example_put (avl_new 1 1000)]"
    by (simp add: example_deleted_def example_rotated_def example_written_def memtables_def after_write_def Mgr_Put_write
      put_write_def set_active_def do_rotate_def NewSystem_def NewMemtableManager_def isSnapshotted_def Let_def)
  moreover have "avl_mem.reflects [example_del] (gm_step avl_store example_del (avl_new 1 1000))"
    "avl_mem.reflects [example_put] (gm_step avl_store example_put (avl_new 1 1000))"
    using avl_mem.reflects_step [OF avl_new_reflects, of example_del] avl_mem.reflects_step [OF avl_new_reflects, of example_put]
      example_history by simp_all
  ultimately have "list_all2 avl_mem.reflects [[example_del], [example_put]] (memtables (sy_mgr example_deleted))"
    by (simp del: gm_step.simps)
  then show ?thesis unfolding Mgr_Get_def
    by (rule avl_mem.get_from_chunks) (simp add: unshadowed_def range_writes_def)
qed

section \<open>Properties\<close>

text \<open>C5: No write is lost or written twice by rotation and flushing, however the goroutines are interleaved: in
  every reachable state the writes are cut into the active memtable's and those of the rotated memtables, each
  of these is either in flight or was flushed, exactly once, and what was or will be flushed are its writes.\<close>

theorem manager_accounts:
  assumes "history ws"
  shows "(reaches avl_store (avl_new maxNum maxSize) maxTables t ws s \<longrightarrow> accounted avl_store ws s) \<and>
    (reaches hash_store (hash_new maxNum maxSize) maxTables t ws s' \<longrightarrow> accounted hash_store ws s')"
  using avl_mem.accounted_reaches [OF _ avl_new_reflects assms] hash_mem.accounted_reaches [OF _ hash_new_reflects assms] by blast

theorem manager_accounts_witness: "accounted avl_store [example_put] example_rotated"
  using manager_accounts [OF example_history(1), of 1 1000 3 Heap example_rotated] example_reaches_rotated by blast

text \<open>C28: A read returns and answers from the newest memtable that has written the key, among the active one and
  exactly the rotated ones that the flush worker has not taken yet (those in the channel or on their way to it),
  in every reachable state. Each memtable answers with its last write of the key, as deleted when that is a
  deletion or a newer range tombstone of the same memtable covers the key; an entry whose time to live is over
  counts as unknown. The writes reach the mutex in the order of their sequence numbers, no key is empty, and for
  the key no range tombstone is hidden by a later one with the same start key.\<close>

theorem manager_reads:
  assumes "history ws"
  shows "(reaches avl_store (avl_new maxNum maxSize) maxTables t ws s \<longrightarrow> reads_right avl_store ws s) \<and>
    (reaches hash_store (hash_new maxNum maxSize) maxTables t ws s' \<longrightarrow> reads_right hash_store ws s')"
  using avl_mem.reads_reaches [OF _ avl_new_reflects assms] hash_mem.reads_reaches [OF _ hash_new_reflects assms] by blast

theorem manager_reads_witness: "reads_right avl_store [example_put] example_rotated"
  using manager_reads [OF example_history(1), of 1 1000 3 Heap example_rotated] example_reaches_rotated by blast

text \<open>The iterator over all versions in memory walks the entries of the active and the immutable memtables in
  order, each once, and its loop ends.\<close>

theorem manager_raw_iterator:
  assumes "history ws"
  shows "(reaches avl_store (avl_new maxNum maxSize) maxTables t ws s \<longrightarrow>
      (\<exists>r out ess. Mgr_RawIterator avl_store (sy_mgr s) = Some r \<and>
        map (GM_ReadEntries avl_store) (memtables (sy_mgr s)) = map Some ess \<and>
        collect (merging_methods (raw_methods (st_raw avl_store))) r = Some out \<and> mset out = mset (concat ess) \<and> entries_sorted out)) \<and>
    (reaches hash_store (hash_new maxNum maxSize) maxTables t ws s' \<longrightarrow>
      (\<exists>r out ess. Mgr_RawIterator hash_store (sy_mgr s') = Some r \<and>
        map (GM_ReadEntries hash_store) (memtables (sy_mgr s')) = map Some ess \<and>
        collect (merging_methods (raw_methods (st_raw hash_store))) r = Some out \<and> mset out = mset (concat ess) \<and> entries_sorted out))"
  using avl_mem.raw_iterator_reaches [OF _ avl_new_reflects assms] hash_mem.raw_iterator_reaches [OF _ hash_new_reflects assms] by blast

theorem manager_raw_iterator_witness:
  "\<exists>r out. Mgr_RawIterator avl_store (sy_mgr example_rotated) = Some r \<and>
     collect (merging_methods (raw_methods (st_raw avl_store))) r = Some out"
  using manager_raw_iterator [OF example_history(1), of 1 1000 3 Heap example_rotated] example_reaches_rotated by blast

text \<open>C29: No blocked writer is forgotten and everything is flushed, when the manager may hold at least one
  immutable memtable. A writer that finds the list full sleeps until the worker's signal wakes it, and then looks
  at the list again. The internal steps end, and in a state where none is possible no goroutine is in \<^verbatim>\<open>rotate\<close>,
  asleep or awake, no immutable memtable is left, and every memtable that was rotated has been flushed once with
  its writes. The writes reach the mutex in the order of their sequence numbers and no key is empty.\<close>

theorem manager_drains:
  assumes "history ws" "0 < maxTables"
  shows "(reaches avl_store (avl_new maxNum maxSize) maxTables t ws s \<longrightarrow> drained avl_store (avl_new maxNum maxSize) ws s) \<and>
    (reaches hash_store (hash_new maxNum maxSize) maxTables t ws s' \<longrightarrow> drained hash_store (hash_new maxNum maxSize) ws s')"
  using avl_mem.drains_reaches [OF _ avl_new_reflects assms] hash_mem.drains_reaches [OF _ hash_new_reflects assms] by blast

theorem manager_drains_witness:
  "work example_rotated < work (example_rotated\<lparr>sy_callers := 1\<rparr>)"
proof -
  have "drained avl_store (avl_new 1 1000) [example_put] example_rotated"
    using manager_drains [OF example_history(1), of 3 1 1000 Heap example_rotated] example_reaches_rotated by simp
  moreover have "\<not> GM_ShouldFlush (snd (mg_active (sy_mgr (example_rotated\<lparr>sy_callers := 1\<rparr>))))" by code_simp
  then have "tau_step avl_store (avl_new 1 1000) (example_rotated\<lparr>sy_callers := 1\<rparr>) (example_rotated\<lparr>sy_callers := 1, sy_callers := 0\<rparr>)"
    using tau_step.rotate_skip [of "example_rotated\<lparr>sy_callers := 1\<rparr>" 0 avl_store "avl_new 1 1000"] by simp
  moreover have "sy_callers example_rotated = 0" by code_simp
  then have "example_rotated\<lparr>sy_callers := 1, sy_callers := 0\<rparr> = example_rotated" by (cases example_rotated) simp
  ultimately show ?thesis
    unfolding drained_def by simp
qed

text \<open>Between being taken off the list and being flushed, a memtable is invisible: a state is reachable in which
  a key was written, never deleted, its entry has not been handed to the flush handler, and a read does not
  know the key.\<close>

theorem manager_flush_gap:
  "\<exists>s. reaches avl_store (avl_new 1 1000) 3 Heap [WUpsert [1] [9] 1 OpTypePut] s \<and> sy_flushed s = [] \<and>
     Mgr_Get avl_store 0 (sy_mgr s) [1] = Some (None, False)"
proof (intro exI conjI)
  show "sy_flushed example_taken = []" by code_simp
  show "Mgr_Get avl_store 0 (sy_mgr example_taken) [1] = Some (None, False)" by code_simp
qed (rule example_reaches_taken)

text \<open>A range tombstone deletes only what is in its own memtable: after a rotation the deleted key is still read,
  while without the rotation the same writes make it deleted.\<close>

theorem manager_range_delete_rotation:
  "(\<exists>s. reaches avl_store (avl_new 1 1000) 3 Heap [WUpsert [1] [9] 1 OpTypePut, WPut [1] [2] 2 OpTypeRangeDel] s \<and>
      Mgr_Get avl_store 0 (sy_mgr s) [1] = Some (Some (put_entry [1] [9] 1), True)) \<and>
   (\<exists>s. reaches avl_store (avl_new 2 1000) 3 Heap [WUpsert [1] [9] 1 OpTypePut, WPut [1] [2] 2 OpTypeRangeDel] s \<and>
      Mgr_Get avl_store 0 (sy_mgr s) [1] = Some (None, True))"
proof (intro conjI exI)
  let ?s = example_rotated
  have "put_write (sy_mgr ?s) [1] [2] 2 OpTypeRangeDel = example_del" by code_simp
  then show "example_reaches [example_put, example_del] example_deleted"
    using reaches.wrote [OF example_reaches_rotated client_step.client_put [of _ _ "[1]" "[2]" 2 OpTypeRangeDel]]
    by (simp add: example_deleted_def)
  show "Mgr_Get avl_store 0 (sy_mgr example_deleted) [1] = Some (Some (put_entry [1] [9] 1), True)"
    by (simp add: example_reads last_write_def of_key_def point_writes_def range_writes_def erased_def checkTTL_def)
  let ?new = "avl_new 2 1000" and ?s0 = "NewSystem 3 Heap (avl_new 2 1000)"
  let ?s1 = "after_write (Mgr_Put avl_store [1] [9] 1 OpTypePut (sy_mgr ?s0)) ?s0"
  let ?s2 = "after_write (Mgr_Put avl_store [1] [2] 2 OpTypeRangeDel (sy_mgr ?s1)) ?s1"
  have w: "put_write (sy_mgr ?s0) [1] [9] 1 OpTypePut = example_put" "put_write (sy_mgr ?s1) [1] [2] 2 OpTypeRangeDel = example_del"
    by code_simp+
  have "reaches avl_store ?new 3 Heap [example_put] ?s1"
    using reaches.wrote [OF reaches.start client_step.client_put, of avl_store ?new 3 Heap "[1]" "[9]" 1 OpTypePut] by (simp add: w)
  from reaches.wrote [OF this client_step.client_put [of _ ?s1 "[1]" "[2]" 2 OpTypeRangeDel]]
  show "reaches avl_store ?new 3 Heap [example_put, example_del] ?s2" by (simp add: w)
  let ?m1 = "gm_step avl_store example_put ?new"
  have "memtables (sy_mgr ?s2) = [gm_step avl_store example_del ?m1]"
    by (simp add: memtables_def after_write_def Mgr_Put_write put_write_def set_active_def NewSystem_def
      NewMemtableManager_def isSnapshotted_def Let_def)
  moreover have r: "avl_mem.reflects [example_put] ?m1"
    using avl_mem.reflects_step [OF avl_new_reflects, of example_put] example_history by simp
  have "avl_mem.reflects [example_put, example_del] (gm_step avl_store example_del ?m1)"
    using avl_mem.reflects_step [OF r, of example_del] example_history by simp
  ultimately have "list_all2 avl_mem.reflects [[example_put, example_del]] (memtables (sy_mgr ?s2))"
    by (simp del: gm_step.simps)
  then have "Mgr_Get avl_store 0 (sy_mgr ?s2) [1] = Some (read_chunks 0 [1] [[example_put, example_del]])"
    unfolding Mgr_Get_def by (rule avl_mem.get_from_chunks) (simp add: unshadowed_def range_writes_def)
  then show "Mgr_Get avl_store 0 (sy_mgr ?s2) [1] = Some (None, True)"
    by (simp add: last_write_def of_key_def point_writes_def range_writes_def erased_def checkTTL_def)
qed

end
