(* ===== verification/Db_Iterator.thy ===== *)
theory Db_Iterator
  imports Memtable_Manager "HOL-Library.Sublist"
begin

text \<open>
  The iterators a scan uses (\<^verbatim>\<open>iterator/db_iterator.go\<close>, \<^verbatim>\<open>iterator/range_iterator.go\<close>,
  \<^verbatim>\<open>iterator/prefix_iterator.go\<close>, \<^verbatim>\<open>iterator/adapters.go\<close>): \<^verbatim>\<open>DBIterator\<close> merges an iterator over the memtables with one
  over the tables and keeps the newest version of each key, \<^verbatim>\<open>RangeIterator\<close> and \<^verbatim>\<open>PrefixIterator\<close> restrict it.
  Either source may be \<^verbatim>\<open>nil\<close>.

  Shown here, for sources that walk their entries in order and can seek: a scan over a range or a prefix returns,
  in order, the newest versions that are visible and lie within the bounds; the loops end. The upper bound of
  a prefix scan is the prefix followed by the byte 255, so longer keys that continue with that byte are lost.
\<close>

section \<open>Entries and adapters\<close>

record Entry =
  e_Key :: bytes
  e_Value :: bytes
  e_OpType :: OpType
  e_SequenceID :: u64

definition empty_Entry :: Entry where
  "empty_Entry = \<lparr>e_Key = [], e_Value = [], e_OpType = 0, e_SequenceID = 0\<rparr>"

definition compareEntries :: "Entry comparator" where
  "compareEntries a b =
     (let c = bytes_Compare (e_Key a) (e_Key b) in
      if c \<noteq> 0 then c
      else if e_SequenceID b < e_SequenceID a then -1
      else if e_SequenceID a < e_SequenceID b then 1
      else 0)"

lemma compareEntries_le:
  "compareEntries a b \<le> 0 \<longleftrightarrow> e_Key a < e_Key b \<or> e_Key a = e_Key b \<and> e_SequenceID b \<le> e_SequenceID a"
  by (auto simp: compareEntries_def bytes_Compare_def)

record 'it AdaptedIterator =
  ad_inner :: 'it

definition adapt :: "('it \<Rightarrow> 'it option) \<Rightarrow> 'it AdaptedIterator \<Rightarrow> 'it AdaptedIterator option" where
  "adapt f a = map_option (\<lambda>it. a\<lparr>ad_inner := it\<rparr>) (f (ad_inner a))"

definition Adapted_Current :: "('it, 'a) Iterator \<Rightarrow> ('a \<Rightarrow> Entry) \<Rightarrow> 'it AdaptedIterator \<Rightarrow> Entry" where
  "Adapted_Current m toEntry a = (if Valid m (ad_inner a) then toEntry (Key m (ad_inner a)) else empty_Entry)"

definition adapted_methods ::
  "('it, 'a) Iterator \<Rightarrow> ('a \<Rightarrow> Entry) \<Rightarrow> (bytes \<Rightarrow> 'a) \<Rightarrow> ('it AdaptedIterator, Entry) Iterator" where
  "adapted_methods m toEntry makeSeek =
     \<lparr>Valid = (\<lambda>a. Valid m (ad_inner a)), SeekToFirst = adapt (SeekToFirst m),
      Seek = (\<lambda>key. adapt (Seek m (makeSeek (e_Key key)))), Next = adapt (Next m), Key = Adapted_Current m toEntry\<rparr>"

lemma adapted_methods_simps [simp]:
  "Valid (adapted_methods m f g) a = Valid m (ad_inner a)"
  "SeekToFirst (adapted_methods m f g) a = map_option (\<lambda>it. a\<lparr>ad_inner := it\<rparr>) (SeekToFirst m (ad_inner a))"
  "Seek (adapted_methods m f g) key a = map_option (\<lambda>it. a\<lparr>ad_inner := it\<rparr>) (Seek m (g (e_Key key)) (ad_inner a))"
  "Next (adapted_methods m f g) a = map_option (\<lambda>it. a\<lparr>ad_inner := it\<rparr>) (Next m (ad_inner a))"
  "Key (adapted_methods m f g) a = Adapted_Current m f a"
  by (simp_all add: adapted_methods_def adapt_def)

text \<open>The conversions of the memtable manager. The expiry time is dropped.\<close>

definition mem_toEntry :: "MemtableEntry \<Rightarrow> Entry" where
  "mem_toEntry e = \<lparr>e_Key = me_Key e, e_Value = me_Value e, e_OpType = me_OpType e, e_SequenceID = me_SeqId e\<rparr>"

definition mem_makeSeek :: "bytes \<Rightarrow> MemtableEntry" where
  "mem_makeSeek key = zero_entry\<lparr>me_Key := key\<rparr>"

definition Mgr_EntryIterator :: "('s, 'it) MemtableStore \<Rightarrow> 's MemtableManager \<Rightarrow> 'it RawSingleMemtableIterator RawIterator AdaptedIterator option" where
  "Mgr_EntryIterator S mg = map_option (\<lambda>r. \<lparr>ad_inner = r\<rparr>) (Mgr_RawIterator S mg)"

section \<open>The database iterator\<close>

record ('m, 't) DBIterator =
  db_memIterator :: "'m option"
  db_tableIterator :: "'t option"
  db_current :: "Entry option"
  db_valid :: bool
  db_rangeDelChecker :: range_checker

datatype db_winner = dbWinnerNone | dbWinnerMem | dbWinnerSST

definition valid_opt :: "('it, 'a) Iterator \<Rightarrow> 'it option \<Rightarrow> bool" where
  "valid_opt m x = (case x of None \<Rightarrow> False | Some it \<Rightarrow> Valid m it)"

definition key_opt :: "('it, Entry) Iterator \<Rightarrow> 'it option \<Rightarrow> Entry" where
  "key_opt m x = (case x of None \<Rightarrow> empty_Entry | Some it \<Rightarrow> Key m it)"

definition move_opt :: "('it \<Rightarrow> 'it option) \<Rightarrow> 'it option \<Rightarrow> 'it option option" where
  "move_opt f x = (case x of None \<Rightarrow> Some None | Some it \<Rightarrow> map_option Some (f it))"

definition selectWinner :: "('m, Entry) Iterator \<Rightarrow> ('t, Entry) Iterator \<Rightarrow> ('m, 't) DBIterator \<Rightarrow> db_winner" where
  "selectWinner mm mt db =
     (let memValid = valid_opt mm (db_memIterator db); sstValid = valid_opt mt (db_tableIterator db) in
      if \<not> memValid \<and> \<not> sstValid then dbWinnerNone
      else if memValid \<and> \<not> sstValid then dbWinnerMem
      else if \<not> memValid \<and> sstValid then dbWinnerSST
      else if compareEntries (key_opt mm (db_memIterator db)) (key_opt mt (db_tableIterator db)) \<le> 0 then dbWinnerMem
      else dbWinnerSST)"

partial_function (option) skip_loop :: "('it, Entry) Iterator \<Rightarrow> bytes \<Rightarrow> 'it \<Rightarrow> 'it option" where
  "skip_loop m key it =
     (if Valid m it \<and> e_Key (Key m it) = key then Option.bind (Next m it) (skip_loop m key) else Some it)"

definition skipKey :: "('m, Entry) Iterator \<Rightarrow> ('t, Entry) Iterator \<Rightarrow> bytes \<Rightarrow> ('m, 't) DBIterator \<Rightarrow> ('m, 't) DBIterator option" where
  "skipKey mm mt key db =
     Option.bind (move_opt (skip_loop mm key) (db_memIterator db)) (\<lambda>mem.
     Option.bind (move_opt (skip_loop mt key) (db_tableIterator db)) (\<lambda>tab.
       Some (db\<lparr>db_memIterator := mem, db_tableIterator := tab\<rparr>)))"

definition entry_deleted :: "range_checker \<Rightarrow> Entry \<Rightarrow> bool" where
  "entry_deleted chk e \<longleftrightarrow> e_OpType e = OpTypeDel \<or> (case chk of None \<Rightarrow> False | Some f \<Rightarrow> f (e_Key e) (e_SequenceID e))"

definition as_put :: "Entry \<Rightarrow> Entry" where
  "as_put e = e\<lparr>e_OpType := OpTypePut\<rparr>"

text \<open>The two cases of the switch that take an entry differ only in where it comes from.\<close>

partial_function (option) db_advance ::
  "('m, Entry) Iterator \<Rightarrow> ('t, Entry) Iterator \<Rightarrow> ('m, 't) DBIterator \<Rightarrow> ('m, 't) DBIterator option" where
  "db_advance mm mt db =
     (let w = selectWinner mm mt db in
      if w = dbWinnerNone then Some (db\<lparr>db_current := None, db_valid := False\<rparr>)
      else
        let entry = (if w = dbWinnerMem then key_opt mm (db_memIterator db) else key_opt mt (db_tableIterator db)) in
        Option.bind (skipKey mm mt (e_Key entry) db) (\<lambda>db'.
          if entry_deleted (db_rangeDelChecker db) entry then db_advance mm mt db'
          else Some (db'\<lparr>db_current := Some (as_put entry), db_valid := True\<rparr>)))"

definition DB_SeekToFirst :: "('m, Entry) Iterator \<Rightarrow> ('t, Entry) Iterator \<Rightarrow> ('m, 't) DBIterator \<Rightarrow> ('m, 't) DBIterator option" where
  "DB_SeekToFirst mm mt db =
     Option.bind (move_opt (SeekToFirst mm) (db_memIterator db)) (\<lambda>mem.
     Option.bind (move_opt (SeekToFirst mt) (db_tableIterator db)) (\<lambda>tab.
       db_advance mm mt (db\<lparr>db_memIterator := mem, db_tableIterator := tab\<rparr>)))"

definition DB_Seek :: "('m, Entry) Iterator \<Rightarrow> ('t, Entry) Iterator \<Rightarrow> Entry \<Rightarrow> ('m, 't) DBIterator \<Rightarrow> ('m, 't) DBIterator option" where
  "DB_Seek mm mt key db =
     Option.bind (move_opt (Seek mm key) (db_memIterator db)) (\<lambda>mem.
     Option.bind (move_opt (Seek mt key) (db_tableIterator db)) (\<lambda>tab.
       db_advance mm mt (db\<lparr>db_memIterator := mem, db_tableIterator := tab\<rparr>)))"

definition NewDBIteratorWithRangeDel ::
  "('m, Entry) Iterator \<Rightarrow> ('t, Entry) Iterator \<Rightarrow> 'm option \<Rightarrow> 't option \<Rightarrow> range_checker \<Rightarrow> ('m, 't) DBIterator option" where
  "NewDBIteratorWithRangeDel mm mt mem tab chk =
     DB_SeekToFirst mm mt \<lparr>db_memIterator = mem, db_tableIterator = tab, db_current = None, db_valid = False, db_rangeDelChecker = chk\<rparr>"

definition DB_Next :: "('m, Entry) Iterator \<Rightarrow> ('t, Entry) Iterator \<Rightarrow> ('m, 't) DBIterator \<Rightarrow> ('m, 't) DBIterator option" where
  "DB_Next mm mt db = (if \<not> db_valid db then Some db else db_advance mm mt db)"

definition DB_Current :: "('m, 't) DBIterator \<Rightarrow> Entry" where
  "DB_Current db = (if \<not> db_valid db then empty_Entry else case db_current db of None \<Rightarrow> empty_Entry | Some e \<Rightarrow> e)"

definition db_methods :: "('m, Entry) Iterator \<Rightarrow> ('t, Entry) Iterator \<Rightarrow> (('m, 't) DBIterator, Entry) Iterator" where
  "db_methods mm mt = \<lparr>Valid = db_valid, SeekToFirst = DB_SeekToFirst mm mt, Seek = DB_Seek mm mt,
     Next = DB_Next mm mt, Key = DB_Current\<rparr>"

section \<open>Range and prefix\<close>

record 'd RangeIterator =
  rg_db :: 'd
  rg_lower :: bytes
  rg_upper :: bytes

text \<open>An empty bound is no bound.\<close>

definition Range_Valid :: "('d, Entry) Iterator \<Rightarrow> 'd RangeIterator \<Rightarrow> bool" where
  "Range_Valid m r \<longleftrightarrow> Valid m (rg_db r) \<and>
     (let key = e_Key (Key m (rg_db r)) in
      \<not> (rg_lower r \<noteq> [] \<and> bytes_Compare key (rg_lower r) < 0) \<and> \<not> (rg_upper r \<noteq> [] \<and> 0 < bytes_Compare key (rg_upper r)))"

definition on_db :: "('d \<Rightarrow> 'd option) \<Rightarrow> 'd RangeIterator \<Rightarrow> 'd RangeIterator option" where
  "on_db f r = map_option (\<lambda>db. r\<lparr>rg_db := db\<rparr>) (f (rg_db r))"

definition Range_SeekToFirst :: "('d, Entry) Iterator \<Rightarrow> 'd RangeIterator \<Rightarrow> 'd RangeIterator option" where
  "Range_SeekToFirst m r =
     (if rg_lower r = [] then on_db (SeekToFirst m) r else on_db (Seek m (empty_Entry\<lparr>e_Key := rg_lower r\<rparr>)) r)"

definition NewRangeIterator :: "('d, Entry) Iterator \<Rightarrow> 'd \<Rightarrow> bytes \<Rightarrow> bytes \<Rightarrow> 'd RangeIterator option" where
  "NewRangeIterator m db lower upper = Range_SeekToFirst m \<lparr>rg_db = db, rg_lower = lower, rg_upper = upper\<rparr>"

definition Range_Seek :: "('d, Entry) Iterator \<Rightarrow> Entry \<Rightarrow> 'd RangeIterator \<Rightarrow> 'd RangeIterator option" where
  "Range_Seek m key r =
     (let target = (if rg_lower r \<noteq> [] \<and> (e_Key key = [] \<or> bytes_Compare (e_Key key) (rg_lower r) < 0)
                    then key\<lparr>e_Key := rg_lower r\<rparr> else key)
      in on_db (Seek m target) r)"

definition range_methods :: "('d, Entry) Iterator \<Rightarrow> ('d RangeIterator, Entry) Iterator" where
  "range_methods m = \<lparr>Valid = Range_Valid m, SeekToFirst = Range_SeekToFirst m, Seek = Range_Seek m,
     Next = on_db (Next m), Key = (\<lambda>r. Key m (rg_db r))\<rparr>"

text \<open>A prefix iterator is a range iterator; its methods are those of \<open>range_methods\<close>.\<close>

definition NewPrefixIterator :: "('d, Entry) Iterator \<Rightarrow> 'd \<Rightarrow> bytes \<Rightarrow> 'd RangeIterator option" where
  "NewPrefixIterator m db pre = NewRangeIterator m db pre (pre @ [255])"

section \<open>What a scan returns\<close>

fun merge_entries :: "Entry list \<Rightarrow> Entry list \<Rightarrow> Entry list" where
  "merge_entries [] ys = ys"
| "merge_entries xs [] = xs"
| "merge_entries (x # xs) (y # ys) =
     (if compareEntries x y \<le> 0 then x # merge_entries xs (y # ys) else y # merge_entries (x # xs) ys)"

text \<open>The first entry of every run of equal keys, unless it is deleted.\<close>

function db_view :: "range_checker \<Rightarrow> Entry list \<Rightarrow> Entry list" where
  "db_view chk [] = []"
| "db_view chk (e # es) =
     (let rest = db_view chk (dropWhile (\<lambda>x. e_Key x = e_Key e) es) in if entry_deleted chk e then rest else as_put e # rest)"
  by pat_completeness auto
termination
  by (relation "measure (\<lambda>(chk, es). length es)") (auto simp: less_Suc_eq_le length_dropWhile_le)

abbreviation keys_sorted :: "Entry list \<Rightarrow> bool" where
  "keys_sorted es \<equiv> sorted (map e_Key es)"

lemma merge_Nil [simp]: "merge_entries xs [] = xs"
  by (cases xs) simp_all

lemma set_merge [simp]: "set (merge_entries xs ys) = set xs \<union> set ys"
  by (induction xs ys rule: merge_entries.induct) auto

lemma keys_sorted_merge: "keys_sorted xs \<Longrightarrow> keys_sorted ys \<Longrightarrow> keys_sorted (merge_entries xs ys)"
  by (induction xs ys rule: merge_entries.induct) (auto simp: compareEntries_le)

lemma filter_merge:
  assumes "\<And>a b. a \<in> set xs \<union> set ys \<Longrightarrow> b \<in> set xs \<union> set ys \<Longrightarrow> e_Key a \<le> e_Key b \<Longrightarrow> P a \<Longrightarrow> P b"
    and "keys_sorted xs" "keys_sorted ys"
  shows "merge_entries (filter P xs) (filter P ys) = filter P (merge_entries xs ys)"
  using assms
proof (induction xs ys rule: merge_entries.induct)
  case (3 x xs y ys)
  have all: "filter P zs = zs" if "P z" "keys_sorted (z # zs)" "set (z # zs) \<subseteq> set (x # xs) \<union> set (y # ys)" for z zs
    using that 3(3) [of z] by (auto simp: filter_id_conv)
  show ?case
  proof (cases "compareEntries x y \<le> 0")
    case True
    have IH: "merge_entries (filter P xs) (filter P (y # ys)) = filter P (merge_entries xs (y # ys))"
      using 3(4,5) by (intro 3(1) [OF True]) (auto intro: 3(3))
    show ?thesis
    proof (cases "P x")
      case px: True
      then have "P y" using 3(3) [of x y] True by (auto simp: compareEntries_le)
      with px True IH show ?thesis by simp
    qed (use True IH in simp)
  next
    case False
    have IH: "merge_entries (filter P (x # xs)) (filter P ys) = filter P (merge_entries (x # xs) ys)"
      using 3(4,5) by (intro 3(2) [OF False]) (auto intro: 3(3))
    show ?thesis
    proof (cases "P y")
      case py: True
      then have "P x" using 3(3) [of y x] False by (auto simp: compareEntries_le)
      with py False IH show ?thesis by simp
    qed (use False IH in simp)
  qed
next
  case (1 ys) show ?case by simp
next
  case (2 x xs) show ?case by (simp only: filter.simps(1) merge_Nil)
qed

lemma dropWhile_key_filter:
  "keys_sorted es \<Longrightarrow> \<forall>e \<in> set es. k \<le> e_Key e \<Longrightarrow> dropWhile (\<lambda>e. e_Key e = k) es = filter (\<lambda>e. e_Key e \<noteq> k) es"
proof (induction es)
  case (Cons e es)
  show ?case
  proof (cases "e_Key e = k")
    case False
    then have "\<forall>x \<in> set es. e_Key x \<noteq> k" using Cons.prems by force
    then have "filter (\<lambda>e. e_Key e \<noteq> k) es = es" by (simp add: filter_id_conv)
    with False show ?thesis by simp
  qed (use Cons in simp)
qed simp

lemma dropWhile_below_filter: "keys_sorted es \<Longrightarrow> dropWhile (\<lambda>e. e_Key e < k) es = filter (\<lambda>e. k \<le> e_Key e) es"
proof (induction es)
  case (Cons e es)
  show ?case
  proof (cases "e_Key e < k")
    case False
    then have "\<forall>x \<in> set es. k \<le> e_Key x" using Cons.prems by force
    with False show ?thesis by (simp add: filter_id_conv not_less)
  qed (use Cons in \<open>simp add: not_le\<close>)
qed simp

lemma merge_skip:
  assumes "keys_sorted xs" "keys_sorted ys" "\<forall>e \<in> set xs \<union> set ys. k \<le> e_Key e"
  shows "merge_entries (dropWhile (\<lambda>e. e_Key e = k) xs) (dropWhile (\<lambda>e. e_Key e = k) ys) =
    dropWhile (\<lambda>e. e_Key e = k) (merge_entries xs ys)"
proof -
  have "merge_entries (filter (\<lambda>e. e_Key e \<noteq> k) xs) (filter (\<lambda>e. e_Key e \<noteq> k) ys) = filter (\<lambda>e. e_Key e \<noteq> k) (merge_entries xs ys)"
  proof (rule filter_merge [OF _ assms(1,2)])
    fix a b assume "a \<in> set xs \<union> set ys" "e_Key a \<le> e_Key b" "e_Key a \<noteq> k"
    then have "k < e_Key a" using assms(3) by (metis order_le_less)
    with \<open>e_Key a \<le> e_Key b\<close> show "e_Key b \<noteq> k" by auto
  qed
  with assms keys_sorted_merge [OF assms(1,2)] show ?thesis by (simp add: dropWhile_key_filter)
qed

lemma merge_from:
  assumes "keys_sorted xs" "keys_sorted ys"
  shows "merge_entries (dropWhile (\<lambda>e. e_Key e < k) xs) (dropWhile (\<lambda>e. e_Key e < k) ys) =
    filter (\<lambda>e. k \<le> e_Key e) (merge_entries xs ys)"
proof -
  have "merge_entries (filter (\<lambda>e. k \<le> e_Key e) xs) (filter (\<lambda>e. k \<le> e_Key e) ys) = filter (\<lambda>e. k \<le> e_Key e) (merge_entries xs ys)"
    using assms by (intro filter_merge) auto
  with assms show ?thesis by (simp add: dropWhile_below_filter)
qed

text \<open>Scanning from a key on, or only the entries of some keys, commutes with the view.\<close>

lemma set_db_view: "x \<in> set (db_view chk es) \<Longrightarrow> \<exists>e \<in> set es. x = as_put e \<and> \<not> entry_deleted chk e"
proof (induction chk es rule: db_view.induct)
  case (2 chk e es)
  then show ?case by (auto simp: Let_def split: if_splits dest: set_dropWhileD)
qed simp

lemma as_put_simps [simp]: "e_Key (as_put e) = e_Key e" "e_Value (as_put e) = e_Value e" "e_SequenceID (as_put e) = e_SequenceID e"
  by (simp_all add: as_put_def)

lemma keys_sorted_dropWhile: "keys_sorted es \<Longrightarrow> keys_sorted (dropWhile P es)"
  by (metis dropWhile_eq_drop sorted_wrt_drop drop_map)

lemma db_view_from:
  "keys_sorted es \<Longrightarrow> db_view chk (filter (\<lambda>e. k \<le> e_Key e) es) = filter (\<lambda>e. k \<le> e_Key e) (db_view chk es)"
proof (induction chk es rule: db_view.induct)
  case (2 chk e es)
  have id: "filter (\<lambda>e. k \<le> e_Key e) xs = xs" if "k \<le> e_Key e" "\<forall>x \<in> set xs. e_Key e \<le> e_Key x" for xs
    using that by (auto simp: filter_id_conv)
  have same: "filter (\<lambda>x. k \<le> e_Key x) (dropWhile (\<lambda>x. e_Key x = e_Key e) es) = filter (\<lambda>x. k \<le> e_Key x) es" if "\<not> k \<le> e_Key e"
    using that by (induction es) auto
  show ?case
  proof (cases "k \<le> e_Key e")
    case True
    have "\<forall>x \<in> set (db_view chk (e # es)). e_Key e \<le> e_Key x"
      using 2(2) set_db_view [of _ chk "e # es"] by (force simp del: db_view.simps)
    then have view: "filter (\<lambda>x. k \<le> e_Key x) (db_view chk (e # es)) = db_view chk (e # es)" by (rule id [OF True])
    have "filter (\<lambda>x. k \<le> e_Key x) (e # es) = e # es" using 2(2) by (intro id [OF True]) simp
    then show ?thesis unfolding view by (simp only:)
  next
    case False
    with 2(1) 2(2) same show ?thesis by (simp add: Let_def keys_sorted_dropWhile)
  qed
qed simp

lemma db_view_sorted: "keys_sorted es \<Longrightarrow> sorted_wrt (<) (map e_Key (db_view chk es))"
proof (induction chk es rule: db_view.induct)
  case (2 chk e es)
  let ?rest = "dropWhile (\<lambda>x. e_Key x = e_Key e) es"
  have IH: "sorted_wrt (<) (map e_Key (db_view chk ?rest))" using 2 by (simp add: keys_sorted_dropWhile)
  have "?rest = filter (\<lambda>x. e_Key x \<noteq> e_Key e) es" using 2(2) by (simp add: dropWhile_key_filter)
  then have "e_Key e < e_Key x" if "x \<in> set (db_view chk ?rest)" for x
    using set_db_view [OF that] 2(2) by (auto simp: order_le_less)
  with IH show ?case by (auto simp: Let_def)
qed simp

definition in_bounds :: "bytes \<Rightarrow> bytes \<Rightarrow> Entry \<Rightarrow> bool" where
  "in_bounds lower upper e \<longleftrightarrow> (lower \<noteq> [] \<longrightarrow> lower \<le> e_Key e) \<and> (upper \<noteq> [] \<longrightarrow> e_Key e \<le> upper)"

lemma in_bounds_prefix:
  "in_bounds pre (pre @ [255]) e \<longleftrightarrow> prefix pre (e_Key e) \<and> (\<forall>rest. e_Key e = pre @ 255 # rest \<longrightarrow> rest = [])"
  (is "?bounds \<longleftrightarrow> ?pre")
proof -
  have top: "b \<le> (255 :: byte)" for b
  proof -
    have "(255 :: byte) = -1" by simp
    then show ?thesis by (simp only: word_order.extremum)
  qed
  have ends: "(k \<le> [255]) = (\<forall>rest. k = (255 :: byte) # rest \<longrightarrow> rest = [])" for k
    using top by (cases k) (auto simp: order_less_le)
  have "pre \<le> k \<and> k \<le> pre @ [255] \<longleftrightarrow> prefix pre k \<and> (\<forall>rest. k = pre @ 255 # rest \<longrightarrow> rest = [])" for k :: bytes
  proof (induction pre arbitrary: k)
    case Nil show ?case by (simp only: append_Nil ends) simp
  next
    case (Cons p pre) show ?case using Cons by (cases k) (auto simp: order_less_le)
  qed
  then show ?thesis by (cases "pre = []") (simp_all add: in_bounds_def ends)
qed

section \<open>Two sources\<close>

text \<open>A source yields its entries in the order of their keys and can be moved to the first entry from a key on.\<close>

definition opt_all :: "('it \<Rightarrow> bool) \<Rightarrow> 'it option \<Rightarrow> bool" where
  "opt_all P x = (case x of None \<Rightarrow> True | Some it \<Rightarrow> P it)"

definition opt_list :: "('it \<Rightarrow> 'a list) \<Rightarrow> 'it option \<Rightarrow> 'a list" where
  "opt_list f x = (case x of None \<Rightarrow> [] | Some it \<Rightarrow> f it)"

lemma opt_simps [simp]:
  "opt_all P None" "opt_all P (Some it) = P it" "opt_list f None = []" "opt_list f (Some it) = f it"
  by (simp_all add: opt_all_def opt_list_def)

locale entry_source = seekable_iterator m ok ahead whole "\<lambda>e key. e_Key e < e_Key key"
  for m :: "('it, Entry) Iterator" and ok ahead whole +
  assumes source_sorted: "ok it \<Longrightarrow> keys_sorted (ahead it)"
begin

lemma whole_sorted: "ok it \<Longrightarrow> keys_sorted (whole it)"
  using rewind [of it] source_sorted by metis

lemma skip_loop_ahead:
  "ok it \<Longrightarrow> \<exists>it'. skip_loop m key it = Some it' \<and> ok it' \<and> ahead it' = dropWhile (\<lambda>e. e_Key e = key) (ahead it) \<and> whole it' = whole it"
proof (induction "ahead it" arbitrary: it)
  case Nil
  then show ?case using ahead_Nil [OF Nil(2)] by (subst skip_loop.simps) simp
next
  case (Cons x xs)
  from ahead_Cons [OF Cons.prems Cons.hyps(2) [symmetric]]
  obtain it' where it': "Valid m it" "Key m it = x" "Next m it = Some it'" "ok it'" "ahead it' = xs" by metis
  then have w: "whole it' = whole it" using next_whole Cons.prems by blast
  show ?case
  proof (cases "e_Key x = key")
    case True
    with Cons.hyps(1) [OF it'(5) [symmetric] it'(4)] it' w Cons.hyps(2) [symmetric] show ?thesis
      by (subst skip_loop.simps) simp
  next
    case False
    with it' Cons show ?thesis by (subst skip_loop.simps) (simp flip: Cons.hyps(2))
  qed
qed

lemma move_skip:
  "opt_all ok x \<Longrightarrow> \<exists>x'. move_opt (skip_loop m key) x = Some x' \<and> opt_all ok x' \<and>
    opt_list ahead x' = dropWhile (\<lambda>e. e_Key e = key) (opt_list ahead x) \<and> opt_list whole x' = opt_list whole x"
  using skip_loop_ahead by (cases x) (fastforce simp: move_opt_def)+

lemma move_rewind:
  "opt_all ok x \<Longrightarrow> \<exists>x'. move_opt (SeekToFirst m) x = Some x' \<and> opt_all ok x' \<and>
    opt_list ahead x' = opt_list whole x \<and> opt_list whole x' = opt_list whole x"
  using rewind by (cases x) (fastforce simp: move_opt_def)+

lemma move_seek:
  "opt_all ok x \<Longrightarrow> \<exists>x'. move_opt (Seek m key) x = Some x' \<and> opt_all ok x' \<and>
    opt_list ahead x' = dropWhile (\<lambda>e. e_Key e < e_Key key) (opt_list whole x) \<and> opt_list whole x' = opt_list whole x"
  using seek_law by (cases x) (fastforce simp: move_opt_def)+

lemma opt_valid: "opt_all ok x \<Longrightarrow> valid_opt m x \<longleftrightarrow> opt_list ahead x \<noteq> []"
  by (cases x) (simp_all add: valid_opt_def valid_ahead)

lemma opt_key: "opt_all ok x \<Longrightarrow> opt_list ahead x \<noteq> [] \<Longrightarrow> key_opt m x = hd (opt_list ahead x)"
  by (cases x) (simp_all add: key_opt_def valid_ahead key_ahead)

lemma opt_sorted: "opt_all ok x \<Longrightarrow> keys_sorted (opt_list ahead x)" "opt_all ok x \<Longrightarrow> keys_sorted (opt_list whole x)"
  by (cases x; simp add: source_sorted whole_sorted)+

end

locale db_sources = mem: entry_source mm okm aheadm wholem + tab: entry_source mt okt aheadt wholet
  for mm :: "('m, Entry) Iterator" and okm aheadm wholem and mt :: "('t, Entry) Iterator" and okt aheadt wholet
begin

definition sources_ok :: "('m, 't) DBIterator \<Rightarrow> bool" where
  "sources_ok db \<longleftrightarrow> opt_all okm (db_memIterator db) \<and> opt_all okt (db_tableIterator db)"

definition rest :: "('m, 't) DBIterator \<Rightarrow> Entry list" where
  "rest db = merge_entries (opt_list aheadm (db_memIterator db)) (opt_list aheadt (db_tableIterator db))"

definition stored :: "('m, 't) DBIterator \<Rightarrow> Entry list" where
  "stored db = merge_entries (opt_list wholem (db_memIterator db)) (opt_list wholet (db_tableIterator db))"

definition db_ahead :: "('m, 't) DBIterator \<Rightarrow> Entry list" where
  "db_ahead db = (if db_valid db then the (db_current db) # db_view (db_rangeDelChecker db) (rest db) else [])"

definition db_ok :: "('m, 't) DBIterator \<Rightarrow> bool" where
  "db_ok db \<longleftrightarrow> sources_ok db \<and> (db_valid db \<longrightarrow> db_current db \<noteq> None)"

lemma rest_sorted: "sources_ok db \<Longrightarrow> keys_sorted (rest db)"
  by (simp add: sources_ok_def rest_def keys_sorted_merge mem.opt_sorted tab.opt_sorted)

lemma stored_sorted: "sources_ok db \<Longrightarrow> keys_sorted (stored db)"
  by (simp add: sources_ok_def stored_def keys_sorted_merge mem.opt_sorted tab.opt_sorted)

lemma selectWinner_rest:
  assumes "sources_ok db"
  shows "selectWinner mm mt db = dbWinnerNone \<longleftrightarrow> rest db = []"
    and "rest db = e # es \<Longrightarrow> (if selectWinner mm mt db = dbWinnerMem then key_opt mm (db_memIterator db) else key_opt mt (db_tableIterator db)) = e"
  using assms mem.opt_valid [of "db_memIterator db"] tab.opt_valid [of "db_tableIterator db"]
    mem.opt_key [of "db_memIterator db"] tab.opt_key [of "db_tableIterator db"]
  by (cases "opt_list aheadm (db_memIterator db)"; cases "opt_list aheadt (db_tableIterator db)";
      auto simp: selectWinner_def sources_ok_def rest_def Let_def split: if_splits)+

lemma skipKey_rest:
  assumes "sources_ok db" "rest db = e # es"
  shows "\<exists>db'. skipKey mm mt (e_Key e) db = Some db' \<and> sources_ok db' \<and>
    rest db' = dropWhile (\<lambda>x. e_Key x = e_Key e) es \<and> stored db' = stored db \<and> db_rangeDelChecker db' = db_rangeDelChecker db"
proof -
  from assms(1) obtain mem' tab' where
    m: "move_opt (skip_loop mm (e_Key e)) (db_memIterator db) = Some mem'" "opt_all okm mem'"
      "opt_list aheadm mem' = dropWhile (\<lambda>x. e_Key x = e_Key e) (opt_list aheadm (db_memIterator db))"
      "opt_list wholem mem' = opt_list wholem (db_memIterator db)" and
    t: "move_opt (skip_loop mt (e_Key e)) (db_tableIterator db) = Some tab'" "opt_all okt tab'"
      "opt_list aheadt tab' = dropWhile (\<lambda>x. e_Key x = e_Key e) (opt_list aheadt (db_tableIterator db))"
      "opt_list wholet tab' = opt_list wholet (db_tableIterator db)"
    unfolding sources_ok_def using mem.move_skip tab.move_skip by metis
  let ?db' = "db\<lparr>db_memIterator := mem', db_tableIterator := tab'\<rparr>"
  have "\<forall>x \<in> set (rest db). e_Key e \<le> e_Key x" using rest_sorted [OF assms(1)] assms(2) by simp
  then have "rest ?db' = dropWhile (\<lambda>x. e_Key x = e_Key e) (rest db)"
    using assms(1) unfolding rest_def sources_ok_def
    by (simp add: m t merge_skip mem.opt_sorted tab.opt_sorted)
  with assms m t show ?thesis by (simp add: skipKey_def sources_ok_def stored_def)
qed

lemma db_advance_rest:
  "sources_ok db \<Longrightarrow> \<exists>db'. db_advance mm mt db = Some db' \<and> db_ok db' \<and>
    db_ahead db' = db_view (db_rangeDelChecker db) (rest db) \<and> stored db' = stored db \<and> db_rangeDelChecker db' = db_rangeDelChecker db"
proof (induction "length (rest db)" arbitrary: db rule: less_induct)
  case less
  show ?case
  proof (cases "rest db")
    case Nil
    with selectWinner_rest(1) [OF less.prems] less.prems show ?thesis
      by (subst db_advance.simps) (simp add: db_ok_def db_ahead_def stored_def sources_ok_def)
  next
    case (Cons e es)
    from skipKey_rest [OF less.prems Cons] obtain db' where
      db': "skipKey mm mt (e_Key e) db = Some db'" "sources_ok db'" "rest db' = dropWhile (\<lambda>x. e_Key x = e_Key e) es"
        "stored db' = stored db" "db_rangeDelChecker db' = db_rangeDelChecker db" by blast
    have w: "selectWinner mm mt db \<noteq> dbWinnerNone" using selectWinner_rest(1) [OF less.prems] Cons by simp
    have step: "db_advance mm mt db = (if entry_deleted (db_rangeDelChecker db) e then db_advance mm mt db'
        else Some (db'\<lparr>db_current := Some (as_put e), db_valid := True\<rparr>))"
      using w db'(1) by (subst db_advance.simps) (simp add: Let_def selectWinner_rest(2) [OF less.prems Cons])
    have "length (rest db') < length (rest db)" unfolding db'(3) Cons using length_dropWhile_le [of _ es] by (simp add: less_Suc_eq_le)
    note IH = less.hyps [OF this db'(2)]
    show ?thesis
    proof (cases "entry_deleted (db_rangeDelChecker db) e")
      case True
      with IH step db' Cons show ?thesis by (simp add: Let_def)
    next
      case False
      with step db' Cons show ?thesis
        by (simp add: db_ok_def db_ahead_def sources_ok_def rest_def stored_def Let_def)
    qed
  qed
qed

lemma db_forward: "forward_iterator (db_methods mm mt) db_ok db_ahead"
proof
  fix db assume ok: "db_ok db"
  show "Valid (db_methods mm mt) db \<longleftrightarrow> db_ahead db \<noteq> []" by (simp add: db_methods_def db_ahead_def)
  assume "Valid (db_methods mm mt) db"
  then have v: "db_valid db" by (simp add: db_methods_def)
  then show "Key (db_methods mm mt) db = hd (db_ahead db)"
    using ok by (auto simp: db_methods_def db_ahead_def DB_Current_def db_ok_def)
  from db_advance_rest [of db] ok v
  show "\<exists>db'. Next (db_methods mm mt) db = Some db' \<and> db_ok db' \<and> db_ahead db' = tl (db_ahead db)"
    by (auto simp: db_methods_def DB_Next_def db_ok_def db_ahead_def)
qed

lemma db_rewind:
  assumes "db_ok db"
  shows "\<exists>db'. DB_SeekToFirst mm mt db = Some db' \<and> db_ok db' \<and>
    db_ahead db' = db_view (db_rangeDelChecker db) (stored db) \<and> stored db' = stored db \<and> db_rangeDelChecker db' = db_rangeDelChecker db"
proof -
  from assms obtain mem' tab' where
    m: "move_opt (SeekToFirst mm) (db_memIterator db) = Some mem'" "opt_all okm mem'"
      "opt_list aheadm mem' = opt_list wholem (db_memIterator db)" "opt_list wholem mem' = opt_list wholem (db_memIterator db)" and
    t: "move_opt (SeekToFirst mt) (db_tableIterator db) = Some tab'" "opt_all okt tab'"
      "opt_list aheadt tab' = opt_list wholet (db_tableIterator db)" "opt_list wholet tab' = opt_list wholet (db_tableIterator db)"
    unfolding sources_ok_def db_ok_def using mem.move_rewind tab.move_rewind by metis
  from db_advance_rest [of "db\<lparr>db_memIterator := mem', db_tableIterator := tab'\<rparr>"] m t show ?thesis
    by (simp add: DB_SeekToFirst_def sources_ok_def rest_def stored_def)
qed

lemma db_seek:
  assumes "db_ok db"
  shows "\<exists>db'. DB_Seek mm mt key db = Some db' \<and> db_ok db' \<and>
    db_ahead db' = filter (\<lambda>e. e_Key key \<le> e_Key e) (db_view (db_rangeDelChecker db) (stored db)) \<and>
    stored db' = stored db \<and> db_rangeDelChecker db' = db_rangeDelChecker db"
proof -
  from assms obtain mem' tab' where
    m: "move_opt (Seek mm key) (db_memIterator db) = Some mem'" "opt_all okm mem'"
      "opt_list aheadm mem' = dropWhile (\<lambda>e. e_Key e < e_Key key) (opt_list wholem (db_memIterator db))"
      "opt_list wholem mem' = opt_list wholem (db_memIterator db)" and
    t: "move_opt (Seek mt key) (db_tableIterator db) = Some tab'" "opt_all okt tab'"
      "opt_list aheadt tab' = dropWhile (\<lambda>e. e_Key e < e_Key key) (opt_list wholet (db_tableIterator db))"
      "opt_list wholet tab' = opt_list wholet (db_tableIterator db)"
    unfolding sources_ok_def db_ok_def using mem.move_seek tab.move_seek by metis
  have "merge_entries (opt_list aheadm mem') (opt_list aheadt tab') = filter (\<lambda>e. e_Key key \<le> e_Key e) (stored db)"
    using assms by (simp add: m t stored_def merge_from mem.opt_sorted tab.opt_sorted db_ok_def sources_ok_def)
  with db_advance_rest [of "db\<lparr>db_memIterator := mem', db_tableIterator := tab'\<rparr>"] m t db_view_from [OF stored_sorted] assms
  show ?thesis by (simp add: DB_Seek_def sources_ok_def rest_def stored_def db_ok_def)
qed

text \<open>The range: in order, so that the first key past the upper bound ends the scan.\<close>

definition range_ok :: "('m, 't) DBIterator RangeIterator \<Rightarrow> bool" where
  "range_ok r \<longleftrightarrow> db_ok (rg_db r) \<and> keys_sorted (db_ahead (rg_db r)) \<and> (\<forall>e \<in> set (db_ahead (rg_db r)). rg_lower r \<noteq> [] \<longrightarrow> rg_lower r \<le> e_Key e)"

definition range_ahead :: "('m, 't) DBIterator RangeIterator \<Rightarrow> Entry list" where
  "range_ahead r = filter (in_bounds (rg_lower r) (rg_upper r)) (db_ahead (rg_db r))"

lemma range_forward: "forward_iterator (range_methods (db_methods mm mt)) range_ok range_ahead"
proof
  fix r assume ok: "range_ok r"
  have v: "Range_Valid (db_methods mm mt) r \<longleftrightarrow> range_ahead r \<noteq> []"
  proof (cases "db_ahead (rg_db r)")
    case Nil
    then show ?thesis using forward_iterator.ahead_Nil [OF db_forward] ok
      by (simp add: Range_Valid_def range_ahead_def range_ok_def)
  next
    case (Cons e es)
    from ok have dok: "db_ok (rg_db r)" by (simp add: range_ok_def)
    from forward_iterator.ahead_Cons [OF db_forward dok Cons]
    have e: "Valid (db_methods mm mt) (rg_db r)" "Key (db_methods mm mt) (rg_db r) = e" by metis+
    show ?thesis
    proof (cases "in_bounds (rg_lower r) (rg_upper r) e")
      case True
      with e Cons show ?thesis
        by (cases "rg_upper r") (auto simp: Range_Valid_def range_ahead_def in_bounds_def bytes_Compare_def Let_def)
    next
      case False
      with ok Cons have "\<forall>x \<in> set (e # es). \<not> in_bounds (rg_lower r) (rg_upper r) x"
        by (fastforce simp: range_ok_def in_bounds_def)
      with e Cons False ok show ?thesis
        by (auto simp: Range_Valid_def range_ahead_def in_bounds_def bytes_Compare_def Let_def range_ok_def filter_empty_conv)
    qed
  qed
  then show "Valid (range_methods (db_methods mm mt)) r \<longleftrightarrow> range_ahead r \<noteq> []" by (simp add: range_methods_def)
  assume "Valid (range_methods (db_methods mm mt)) r"
  then have rv: "Range_Valid (db_methods mm mt) r" by (simp add: range_methods_def)
  then have "db_ahead (rg_db r) \<noteq> []" using v by (auto simp: range_ahead_def)
  then obtain e es where es: "db_ahead (rg_db r) = e # es" by (cases "db_ahead (rg_db r)") auto
  from ok have dok: "db_ok (rg_db r)" by (simp add: range_ok_def)
  from forward_iterator.ahead_Cons [OF db_forward dok es] obtain db' where
    db': "Key (db_methods mm mt) (rg_db r) = e" "Next (db_methods mm mt) (rg_db r) = Some db'" "db_ok db'" "db_ahead db' = es" by metis
  have "in_bounds (rg_lower r) (rg_upper r) e"
    using rv db'(1) by (cases "rg_upper r") (auto simp: Range_Valid_def in_bounds_def bytes_Compare_def Let_def not_less split: if_splits)
  then have ra: "range_ahead r = e # filter (in_bounds (rg_lower r) (rg_upper r)) es" by (simp add: range_ahead_def es)
  then show "Key (range_methods (db_methods mm mt)) r = hd (range_ahead r)" using db'(1) by (simp add: range_methods_def)
  show "\<exists>r'. Next (range_methods (db_methods mm mt)) r = Some r' \<and> range_ok r' \<and> range_ahead r' = tl (range_ahead r)"
    using db' ra ok es by (simp add: range_methods_def on_db_def range_ok_def range_ahead_def)
qed

lemma view_keys_sorted: "keys_sorted es \<Longrightarrow> keys_sorted (db_view chk es)"
  using db_view_sorted strict_sorted_imp_sorted by blast

lemma New_scan:
  assumes "opt_all okm mem" "opt_all okt tab" "NewDBIteratorWithRangeDel mm mt mem tab chk = Some db"
  shows "db_ok db" "db_ahead db = db_view chk (stored db)" "db_rangeDelChecker db = chk"
    "stored db = merge_entries (opt_list wholem mem) (opt_list wholet tab)"
  using assms(3) db_rewind [of "\<lparr>db_memIterator = mem, db_tableIterator = tab, db_current = None, db_valid = False, db_rangeDelChecker = chk\<rparr>"]
    assms(1,2) by (auto simp: NewDBIteratorWithRangeDel_def db_ok_def sources_ok_def stored_def)

lemma New_range:
  assumes "db_ok db"
  shows "\<exists>r. NewRangeIterator (db_methods mm mt) db lower upper = Some r \<and> range_ok r \<and>
    range_ahead r = filter (in_bounds lower upper) (db_view (db_rangeDelChecker db) (stored db))"
proof -
  from assms have so: "keys_sorted (db_view (db_rangeDelChecker db) (stored db))"
    by (intro view_keys_sorted stored_sorted) (simp add: db_ok_def)
  show ?thesis
  proof (cases "lower = []")
    case True
    from db_rewind [OF assms] True so show ?thesis
      by (auto simp: NewRangeIterator_def Range_SeekToFirst_def on_db_def db_methods_def range_ok_def range_ahead_def)
  next
    case False
    have "filter (in_bounds lower upper) (filter (\<lambda>e. lower \<le> e_Key e) xs) = filter (in_bounds lower upper) xs" for xs
      using False by (auto simp: filter_filter in_bounds_def intro: filter_cong)
    with db_seek [OF assms, of "empty_Entry\<lparr>e_Key := lower\<rparr>"] False so sorted_filter [of e_Key] show ?thesis
      by (auto simp: NewRangeIterator_def Range_SeekToFirst_def on_db_def db_methods_def range_ok_def range_ahead_def)
  qed
qed

text \<open>The scan as a whole: building the iterators and collecting.\<close>

lemma full_scan:
  assumes "opt_all okm mem" "opt_all okt tab"
  shows "Option.bind (NewDBIteratorWithRangeDel mm mt mem tab chk) (collect (db_methods mm mt)) =
    Some (db_view chk (merge_entries (opt_list wholem mem) (opt_list wholet tab)))"
proof -
  let ?start = "\<lparr>db_memIterator = mem, db_tableIterator = tab, db_current = None, db_valid = False, db_rangeDelChecker = chk\<rparr>"
  have "db_ok ?start" using assms by (simp add: db_ok_def sources_ok_def)
  from db_rewind [OF this] obtain db where "NewDBIteratorWithRangeDel mm mt mem tab chk = Some db"
    by (auto simp: NewDBIteratorWithRangeDel_def)
  with New_scan [OF assms this] forward_iterator.collect_ahead [OF db_forward, of db] show ?thesis by simp
qed

lemma range_scan:
  assumes "opt_all okm mem" "opt_all okt tab"
  shows "Option.bind (NewDBIteratorWithRangeDel mm mt mem tab chk) (\<lambda>db.
      Option.bind (NewRangeIterator (db_methods mm mt) db lower upper) (collect (range_methods (db_methods mm mt)))) =
    Some (filter (in_bounds lower upper) (db_view chk (merge_entries (opt_list wholem mem) (opt_list wholet tab))))"
proof -
  let ?start = "\<lparr>db_memIterator = mem, db_tableIterator = tab, db_current = None, db_valid = False, db_rangeDelChecker = chk\<rparr>"
  have "db_ok ?start" using assms by (simp add: db_ok_def sources_ok_def)
  from db_rewind [OF this] obtain db where db: "NewDBIteratorWithRangeDel mm mt mem tab chk = Some db"
    by (auto simp: NewDBIteratorWithRangeDel_def)
  note new = New_scan [OF assms db]
  from New_range [OF new(1), of lower upper] obtain r where
    "NewRangeIterator (db_methods mm mt) db lower upper = Some r" "range_ok r"
    "range_ahead r = filter (in_bounds lower upper) (db_view chk (stored db))" by (auto simp: new(3))
  with db new(4) forward_iterator.collect_ahead [OF range_forward, of r] show ?thesis by simp
qed

end

end
