(* ===== verification/Scan.thy ===== *)
theory Scan
  imports Db_Iterator
begin

text \<open>
  Scans over the memtables: \<^verbatim>\<open>MemtableManager.EntryIterator\<close>, which adapts the raw iterator of the manager to the
  entries the database iterator works on, put under the iterators of \<open>Db_Iterator\<close>.

  When the memtables are merged by the tournament tree the adapted iterator is a source of the database iterator,
  so a scan returns exactly the newest visible versions within its bounds. With the heap, which \<^verbatim>\<open>NewLSM\<close> chooses,
  a memtable iterator that the first step of the database iterator exhausts is lost to the later seek.
\<close>

section \<open>Seeking in one memtable\<close>

context seekable_iterator
begin

lemma raw_seekable:
  "seekable_iterator (raw_methods m) (\<lambda>r. ok (rs_it r)) (\<lambda>r. ahead (rs_it r)) (\<lambda>r. whole (rs_it r)) below"
proof (rule seekable_iterator.intro [OF raw_rewindable], rule seekable_iterator_axioms.intro)
  fix r :: "'it RawSingleMemtableIterator" and key assume "ok (rs_it r)"
  from seek_law [OF this, of key]
  show "\<exists>r'. Seek (raw_methods m) key r = Some r' \<and> ok (rs_it r') \<and>
      ahead (rs_it r') = dropWhile (\<lambda>e. below e key) (whole (rs_it r)) \<and> whole (rs_it r') = whole (rs_it r)" by auto
qed

end

section \<open>The entries in order\<close>

fun insert_entry :: "MemtableEntry \<Rightarrow> MemtableEntry list \<Rightarrow> MemtableEntry list" where
  "insert_entry e [] = [e]"
| "insert_entry e (x # xs) = (if mt_cmp e x \<le> 0 then e # x # xs else x # insert_entry e xs)"

definition sort_entries :: "MemtableEntry list \<Rightarrow> MemtableEntry list" where
  "sort_entries es = foldr insert_entry es []"

lemma mset_insert_entry: "mset (insert_entry e xs) = add_mset e (mset xs)"
  by (induction xs) auto

lemma mset_sort_entries [simp]: "mset (sort_entries es) = mset es"
  by (induction es) (simp_all add: sort_entries_def mset_insert_entry)

lemma set_sort_entries [simp]: "set (sort_entries es) = set es"
  using mset_eq_setD [OF mset_sort_entries] .

lemma insert_entry_sorted: "entries_sorted xs \<Longrightarrow> entries_sorted (insert_entry e xs)"
proof (induction xs)
  case (Cons x xs)
  have s: "set (insert_entry e xs) = insert e (set xs)"
    using mset_insert_entry [of e xs] by (metis set_mset_add_mset_insert set_mset_mset)
  with Cons show ?case by (auto simp: mt_cmp_simps)
qed simp

lemma sort_entries_sorted: "entries_sorted (sort_entries es)"
  by (induction es) (simp_all add: sort_entries_def insert_entry_sorted)

abbreviation distinct_versions :: "MemtableEntry list \<Rightarrow> bool" where
  "distinct_versions es \<equiv> distinct (map (\<lambda>e. (me_Key e, me_SeqId e)) es)"

lemma distinct_versions_mset: "mset xs = mset ys \<Longrightarrow> distinct_versions xs \<longleftrightarrow> distinct_versions ys"
  by (rule mset_eq_imp_distinct_iff) simp

lemma versions_unique: "versions_sorted xs \<Longrightarrow> versions_sorted ys \<Longrightarrow> set xs = set ys \<Longrightarrow> xs = ys"
proof (induction xs arbitrary: ys)
  case (Cons x xs)
  then obtain y ys' where ys: "ys = y # ys'" by (cases ys) auto
  have first: "mt_cmp a b < 0 \<or> a = b" if "versions_sorted (a # as)" "b \<in> set (a # as)" for a b as using that by auto
  have "x = y"
  proof (rule ccontr)
    assume "x \<noteq> y"
    then have "mt_cmp x y < 0" "mt_cmp y x < 0" using first Cons.prems unfolding ys by (metis list.set_intros(1))+
    then show False by (auto simp: mt_cmp_simps)
  qed
  moreover have "x \<notin> set xs" "y \<notin> set ys'" using Cons.prems unfolding ys by (auto simp: mt_cmp_simps)
  ultimately have "set xs = set ys'" using Cons.prems(3) unfolding ys by auto
  with Cons \<open>x = y\<close> ys show ?case by simp
qed simp

lemma sort_entries_unique:
  assumes "mset xs = mset es" "entries_sorted xs" "distinct_versions es"
  shows "xs = sort_entries es"
proof (rule versions_unique)
  show "versions_sorted xs" using assms distinct_versions_mset [OF assms(1)] by (intro versions_sortedI) auto
  show "versions_sorted (sort_entries es)"
    using assms(3) distinct_versions_mset [OF mset_sort_entries [of es]] by (intro versions_sortedI sort_entries_sorted) auto
  show "set xs = set (sort_entries es)" using mset_eq_setD [OF assms(1)] by simp
qed

lemma sort_entries_filter:
  assumes "distinct_versions es"
  shows "sort_entries (filter P es) = filter P (sort_entries es)"
proof (rule sort_entries_unique [symmetric])
  show "mset (filter P (sort_entries es)) = mset (filter P es)" by (metis mset_filter mset_sort_entries)
  show "entries_sorted (filter P (sort_entries es))" using sort_entries_sorted sorted_wrt_filter by blast
  show "distinct_versions (filter P es)" using assms by (rule distinct_map_filter)
qed

lemma entries_key_sorted: "entries_sorted es \<Longrightarrow> sorted (map me_Key es)"
  by (simp add: sorted_wrt_map) (auto elim!: sorted_wrt_mono_rel [rotated] simp: mt_cmp_simps order_le_less)

lemma dropWhile_below_entries:
  "entries_sorted es \<Longrightarrow> dropWhile (\<lambda>e. me_Key e < k) es = filter (\<lambda>e. k \<le> me_Key e) es"
proof (induction es)
  case (Cons e es)
  show ?case
  proof (cases "me_Key e < k")
    case False
    then have "\<forall>x \<in> set es. k \<le> me_Key x" using Cons.prems by (auto simp: mt_cmp_simps)
    with False show ?thesis by (simp add: filter_id_conv not_less)
  qed (use Cons in \<open>simp add: not_le\<close>)
qed simp

section \<open>Seeking over the tournament tree\<close>

locale seekable_entries = seekable_iterator m ok ahead whole "\<lambda>e key. me_Key e < me_Key key"
  for m :: "('it, MemtableEntry) Iterator" and ok ahead whole

sublocale seekable_entries \<subseteq> entry_iterator m ok ahead whole
  by (rule entry_iterator.intro) (rule rewindable_iterator_axioms)

context seekable_entries
begin

definition sought :: "bytes \<Rightarrow> nat set \<Rightarrow> 'it list \<Rightarrow> 'it list \<Rightarrow> bool" where
  "sought k J its its' \<longleftrightarrow> length its' = length its \<and>
     (\<forall>j < length its. if j \<in> J then ok (its' ! j) \<and> ahead (its' ! j) = dropWhile (\<lambda>e. me_Key e < k) (whole (its ! j)) \<and>
         whole (its' ! j) = whole (its ! j) else its' ! j = its ! j)"

lemma seek_loop_sought:
  "\<forall>it \<in> set its. ok it \<Longrightarrow> set idxs \<subseteq> {..< length its} \<Longrightarrow>
    \<exists>its'. seek_loop m key idxs its = Some its' \<and> sought (me_Key key) (set idxs) its its'"
proof (induction idxs arbitrary: its)
  case (Cons i idxs)
  then have i: "i < length its" "ok (its ! i)" by auto
  from seek_law [OF i(2), of key] obtain it where
    it: "Seek m key (its ! i) = Some it" "ok it" "ahead it = dropWhile (\<lambda>e. me_Key e < me_Key key) (whole (its ! i))"
    "whole it = whole (its ! i)" by blast
  have "\<forall>x \<in> set (its[i := it]). ok x" using Cons.prems(1) it(2) set_update_subset_insert [of its i it] by blast
  with Cons.IH [of "its[i := it]"] Cons.prems(2) obtain its' where
    l: "seek_loop m key idxs (its[i := it]) = Some its'" "sought (me_Key key) (set idxs) (its[i := it]) its'" by auto
  have "sought (me_Key key) (set (i # idxs)) its its'"
    using l(2) it i(1) by (auto simp: sought_def nth_list_update split: if_splits)
  with l(1) it(1) show ?case by simp
qed (simp add: sought_def)

definition tree_ok :: "'it RawIterator \<Rightarrow> bool" where
  "tree_ok r \<longleftrightarrow> raw_ok r \<and> distinct_versions (whole_entries r) \<and> mset (remaining r) \<subseteq># mset (whole_entries r) \<and>
     (\<forall>s its. ri_structure r = Some (s, its) \<longrightarrow> (\<exists>w. s = MS_Tree w) \<and> (\<forall>it \<in> set its. startable it))"

definition raw_whole :: "'it RawIterator \<Rightarrow> MemtableEntry list" where
  "raw_whole r = sort_entries (whole_entries r)"

lemma tree_distinct:
  assumes "tree_ok r"
  shows "distinct_versions (remaining r)"
proof -
  from assms obtain C where "mset (whole_entries r) = mset (remaining r) + C"
    by (auto simp: tree_ok_def subset_mset.le_iff_add)
  moreover obtain cs where "mset cs = C" using ex_mset by blast
  ultimately have "mset (remaining r @ cs) = mset (whole_entries r)" by simp
  from distinct_versions_mset [OF this] assms show ?thesis by (simp add: tree_ok_def)
qed

lemma raw_ahead_sorted: "tree_ok r \<Longrightarrow> raw_ahead r = sort_entries (remaining r)"
  using raw_ahead_props [of r] tree_distinct [of r] by (intro sort_entries_unique) (auto simp: tree_ok_def)

lemma Raw_Seek_tree:
  assumes "raw_ok r" "ri_structure r = Some (MS_Tree w, its)" "\<forall>it \<in> set its. startable it"
  shows "\<exists>r' w' its'. Raw_Seek m key r = Some r' \<and> raw_ok r' \<and> ri_structure r' = Some (MS_Tree w', its') \<and>
    map whole its' = map whole its \<and> (\<forall>it \<in> set its'. startable it) \<and>
    map ahead its' = map (\<lambda>it. dropWhile (\<lambda>e. me_Key e < me_Key key) (whole it)) its"
proof -
  let ?M = "ms_methods m mt_cmp"
  have inv: "ms_inv m mt_cmp (MS_Tree w) its" using assms(1,2) by (simp add: raw_ok_def)
  let ?idxs = "ms_Iterators ?M (MS_Tree w)"
  have members: "set ?idxs = {..< length its}"
    using tree_merge.all_members [of m w its] inv by (simp add: ms_methods_Tree)
  have oks: "\<forall>it \<in> set its. ok it" using assms(3) by (simp add: startable_def)
  from seek_loop_sought [OF oks, of ?idxs key] members obtain its' where
    l: "seek_loop m key ?idxs its = Some its'" "sought (me_Key key) {..< length its} its its'" by auto
  then have len: "length its' = length its" and
    each: "\<And>j. j < length its \<Longrightarrow> ok (its' ! j) \<and> ahead (its' ! j) = dropWhile (\<lambda>e. me_Key e < me_Key key) (whole (its ! j)) \<and>
      whole (its' ! j) = whole (its ! j)" by (simp_all add: sought_def)
  have kind: "\<exists>w'. fold (\<lambda>i s. ms_Update ?M i s its') idxs (MS_Tree w) = MS_Tree w' \<and>
      fold (\<lambda>i t. ms_Update (wt_methods m mt_cmp) i t its') idxs w = w'" for idxs w
    by (induction idxs arbitrary: w) (simp_all add: ms_methods_Tree)
  then obtain w' where w': "fold (\<lambda>i s. ms_Update ?M i s its') ?idxs (MS_Tree w) = MS_Tree w'"
    "fold (\<lambda>i t. ms_Update (wt_methods m mt_cmp) i t its') ?idxs w = w'" by blast
  have "wt_ok m mt_cmp w its" using inv by (simp add: ms_methods_Tree)
  from tree_merge.update_all_inv [OF this len] w'(2) have inv': "ms_inv m mt_cmp (MS_Tree w') its'"
    by (simp add: ms_methods_Tree)
  have "startable it \<and> walking it" if "it \<in> set its'" for it
  proof -
    from that obtain j where j: "j < length its" "it = its' ! j" by (metis in_set_conv_nth len)
    then have "entries_sorted (whole (its ! j))" using assms(3) by (simp add: startable_def)
    then have "entries_sorted (dropWhile (\<lambda>e. me_Key e < me_Key key) (whole (its ! j)))"
      by (metis dropWhile_eq_drop sorted_wrt_drop)
    with each [OF j(1)] j assms(3) show ?thesis by (simp add: startable_def walking_def)
  qed
  then have st: "\<forall>it \<in> set its'. startable it" "\<forall>it \<in> set its'. walking it" by blast+
  have "Raw_Seek m key r = Some (set_winner m r (MS_Tree w') its')"
    using assms(2) l(1) w'(1) by (simp add: Raw_Seek_def Let_def)
  moreover have "raw_ok (set_winner m r (MS_Tree w') its')" using inv' st(2) by (simp add: raw_ok_def)
  moreover have "map whole its' = map whole its" using each len by (intro nth_equalityI) simp_all
  moreover have "map ahead its' = map (\<lambda>it. dropWhile (\<lambda>e. me_Key e < me_Key key) (whole it)) its"
    using each len by (intro nth_equalityI) simp_all
  ultimately show ?thesis using st(1) by (intro exI [of _ "set_winner m r (MS_Tree w') its'"]) simp
qed

lemma tree_seekable:
  "seekable_iterator (merging_methods m) tree_ok raw_ahead raw_whole (\<lambda>e key. me_Key e < me_Key key)"
proof
  fix r assume r: "tree_ok r"
  then have ok: "raw_ok r" by (simp add: tree_ok_def)
  show "Valid (merging_methods m) r \<longleftrightarrow> raw_ahead r \<noteq> []"
    using raw_ahead_end [OF ok] raw_ahead_step [OF ok] by fastforce
  show "\<exists>r'. SeekToFirst (merging_methods m) r = Some r' \<and> tree_ok r' \<and> raw_ahead r' = raw_whole r \<and> raw_whole r' = raw_whole r"
  proof (cases "ri_structure r")
    case None
    then have "Raw_SeekToFirst m r = Some r" using ok by (cases r) (simp add: Raw_SeekToFirst_def raw_ok_def)
    with r None raw_ahead_sorted [OF r] show ?thesis
      by (simp add: merging_methods_def raw_whole_def whole_entries_def remaining_def)
  next
    case (Some st)
    with r obtain w its where st: "ri_structure r = Some (MS_Tree w, its)" "\<forall>it \<in> set its. startable it"
      by (cases st) (auto simp: tree_ok_def)
    from Raw_SeekToFirst_tree [OF ok st] obtain r' w' its' where
      r': "Raw_SeekToFirst m r = Some r'" "raw_ok r'" "mset (remaining r') = mset (whole_entries r)"
      "ri_structure r' = Some (MS_Tree w', its')" "map whole its' = map whole its" "\<forall>it \<in> set its'. startable it" by blast
    have w: "whole_entries r' = whole_entries r" using st(1) r'(4,5) by (simp add: whole_entries_def del: map_eq_conv)
    have ok': "tree_ok r'" using r r' w by (simp add: tree_ok_def)
    have "raw_ahead r' = raw_whole r"
      unfolding raw_ahead_sorted [OF ok'] raw_whole_def
      using r r'(3) sort_entries_sorted by (intro sort_entries_unique) (auto simp: tree_ok_def)
    with ok' r'(1) w show ?thesis by (simp add: merging_methods_def raw_whole_def)
  qed
  show "\<exists>r'. Seek (merging_methods m) key r = Some r' \<and> tree_ok r' \<and>
      raw_ahead r' = dropWhile (\<lambda>e. me_Key e < me_Key key) (raw_whole r) \<and> raw_whole r' = raw_whole r" for key
  proof (cases "ri_structure r")
    case None
    let ?r = "r\<lparr>ri_current := None, ri_valid := False\<rparr>"
    have "tree_ok ?r" using r None by (simp add: tree_ok_def raw_ok_def remaining_def whole_entries_def)
    with None raw_ahead_sorted [OF this] show ?thesis
      by (simp add: merging_methods_def Raw_Seek_def raw_whole_def whole_entries_def remaining_def sort_entries_def)
  next
    case (Some st)
    with r obtain w its where st: "ri_structure r = Some (MS_Tree w, its)" "\<forall>it \<in> set its. startable it"
      by (cases st) (auto simp: tree_ok_def)
    from Raw_Seek_tree [OF ok st, of key] obtain r' w' its' where
      r': "Raw_Seek m key r = Some r'" "raw_ok r'" "ri_structure r' = Some (MS_Tree w', its')"
      "map whole its' = map whole its" "\<forall>it \<in> set its'. startable it"
      "map ahead its' = map (\<lambda>it. dropWhile (\<lambda>e. me_Key e < me_Key key) (whole it)) its" by blast
    have w: "whole_entries r' = whole_entries r" using st(1) r'(3,4) by (simp add: whole_entries_def del: map_eq_conv)
    have "map (\<lambda>it. dropWhile (\<lambda>e. me_Key e < me_Key key) (whole it)) its = map (\<lambda>it. filter (\<lambda>e. me_Key key \<le> me_Key e) (whole it)) its"
      using st(2) by (auto simp: startable_def dropWhile_below_entries)
    then have rem: "remaining r' = filter (\<lambda>e. me_Key key \<le> me_Key e) (whole_entries r)"
      using r'(3,6) st(1) by (simp add: remaining_def whole_entries_def filter_concat comp_def del: map_eq_conv)
    have ok': "tree_ok r'" using r r' w by (simp add: tree_ok_def rem multiset_filter_subset)
    have "raw_ahead r' = filter (\<lambda>e. me_Key key \<le> me_Key e) (raw_whole r)"
      unfolding raw_ahead_sorted [OF ok'] rem raw_whole_def using r by (intro sort_entries_filter) (simp add: tree_ok_def)
    with ok' r'(1) w dropWhile_below_entries [OF sort_entries_sorted] show ?thesis
      by (simp add: merging_methods_def raw_whole_def)
  qed
  assume v: "Valid (merging_methods m) r"
  then show "Key (merging_methods m) r = hd (raw_ahead r)" using raw_ahead_step [OF ok] by auto
  from v raw_step [OF ok] obtain r' s its s' its' where
    r': "Raw_Next m r = Some r'" "raw_ok r'" "mset (remaining r) = add_mset (Raw_Key r) (mset (remaining r'))"
      "ri_structure r = Some (s, its)" "ri_structure r' = Some (s', its')" "length its' = length its"
      "\<forall>j < length its. whole (its' ! j) = whole (its ! j)" "(\<exists>w. s = MS_Tree w) \<longleftrightarrow> (\<exists>w. s' = MS_Tree w)" by auto
  have wh: "map whole its' = map whole its" using r'(6,7) by (intro nth_equalityI) simp_all
  then have w: "whole_entries r' = whole_entries r" using r'(4,5) by (simp add: whole_entries_def del: map_eq_conv)
  have "mset (remaining r') \<subseteq># mset (remaining r)" using r'(3) by simp
  then have sub: "mset (remaining r') \<subseteq># mset (whole_entries r')" using r w subset_mset.order_trans by (auto simp: tree_ok_def)
  have start: "startable it" if "it \<in> set its'" for it
  proof -
    from that obtain j where j: "j < length its" "it = its' ! j" by (metis in_set_conv_nth r'(6))
    then have "startable (its ! j)" using r r'(4) by (simp add: tree_ok_def)
    moreover have "ok it" using that r'(2,5) by (simp add: raw_ok_def walking_def)
    ultimately show ?thesis using r'(7) j by (simp add: startable_def)
  qed
  have "tree_ok r'" using r r' w sub start by (auto simp: tree_ok_def)
  with r'(1) raw_ahead_step [OF ok] v
  show "\<exists>r'. Next (merging_methods m) r = Some r' \<and> tree_ok r' \<and> raw_ahead r' = tl (raw_ahead r)" by auto
  show "Next (merging_methods m) r = Some r'' \<Longrightarrow> raw_whole r'' = raw_whole r" for r''
    using r'(1) w by (simp add: raw_whole_def)
qed

end

context seekable_entries
begin

lemma NewRaw_tree:
  assumes "\<forall>it. Some it \<in> set iterators \<longrightarrow> startable it" "t \<noteq> Heap" "distinct_versions (all_entries iterators)"
  shows "\<exists>r. NewRawIterator m iterators t = Some r \<and> tree_ok r \<and> raw_whole r = sort_entries (all_entries iterators)"
proof -
  from NewRaw [OF assms(1), of t] obtain r where
    r: "NewRawIterator m iterators t = Some r" "raw_ok r" "mset (remaining r) = mset (all_entries iterators)"
      "ri_structure r = None \<longleftrightarrow> all_entries iterators = []"
      "\<forall>s its. ri_structure r = Some (s, its) \<longrightarrow>
         concat (map whole its) = all_entries iterators \<and> (\<forall>it \<in> set its. startable it \<and> ahead it = whole it) \<and>
         ((\<exists>w. s = MS_Tree w) \<longleftrightarrow> t \<noteq> Heap)" by (elim exE conjE) (erule (4) that)
  have w: "whole_entries r = all_entries iterators"
    using r(4,5) by (cases "ri_structure r") (auto simp: whole_entries_def)
  have "tree_ok r" using r(2,3,5) assms(2,3) by (auto simp: tree_ok_def w)
  with r(1) w show ?thesis by (simp add: raw_whole_def)
qed

end

section \<open>The entry iterator of the manager\<close>

lemma adapted_source:
  fixes m :: "('it, 'a) Iterator"
  assumes "seekable_iterator m ok ahead whole lt" "\<And>e k. lt e (g k) \<longleftrightarrow> e_Key (f e) < k"
    "\<And>it. ok it \<Longrightarrow> keys_sorted (map f (ahead it))"
  shows "entry_source (adapted_methods m f g) (\<lambda>a. ok (ad_inner a)) (\<lambda>a. map f (ahead (ad_inner a))) (\<lambda>a. map f (whole (ad_inner a)))"
proof -
  note rw = seekable_iterator.axioms(1) [OF assms(1)]
  note fw = rewindable_iterator.axioms(1) [OF rw]
  show ?thesis
  proof
    fix a :: "'it AdaptedIterator" assume ok: "ok (ad_inner a)"
    show "Valid (adapted_methods m f g) a \<longleftrightarrow> map f (ahead (ad_inner a)) \<noteq> []"
      using forward_iterator.valid_ahead [OF fw ok] by simp
    show "\<exists>a'. SeekToFirst (adapted_methods m f g) a = Some a' \<and> ok (ad_inner a') \<and>
        map f (ahead (ad_inner a')) = map f (whole (ad_inner a)) \<and> map f (whole (ad_inner a')) = map f (whole (ad_inner a))"
      using rewindable_iterator.rewind [OF rw ok] by (auto simp del: map_eq_conv)
    show "\<exists>a'. Seek (adapted_methods m f g) key a = Some a' \<and> ok (ad_inner a') \<and>
        map f (ahead (ad_inner a')) = dropWhile (\<lambda>e. e_Key e < e_Key key) (map f (whole (ad_inner a))) \<and>
        map f (whole (ad_inner a')) = map f (whole (ad_inner a))" for key
      using seekable_iterator.seek_law [OF assms(1) ok, of "g (e_Key key)"]
      by (auto simp: dropWhile_map comp_def assms(2) simp del: map_eq_conv)
    show "keys_sorted (map f (ahead (ad_inner a)))" by (rule assms(3) [OF ok])
    assume v: "Valid (adapted_methods m f g) a"
    then show "Key (adapted_methods m f g) a = hd (map f (ahead (ad_inner a)))"
      using forward_iterator.key_ahead [OF fw ok] forward_iterator.valid_ahead [OF fw ok] by (simp add: Adapted_Current_def hd_map)
    show "\<exists>a'. Next (adapted_methods m f g) a = Some a' \<and> ok (ad_inner a') \<and>
        map f (ahead (ad_inner a')) = tl (map f (ahead (ad_inner a)))"
      using forward_iterator.next_ahead [OF fw ok] v by (auto simp: map_tl simp del: map_eq_conv)
    show "Next (adapted_methods m f g) a = Some a' \<Longrightarrow> map f (whole (ad_inner a')) = map f (whole (ad_inner a))" for a'
      using rewindable_iterator.next_whole [OF rw ok] v by (auto simp del: map_eq_conv)
  qed
qed

abbreviation hash_raw :: "(MemtableEntry HackMapIterator RawSingleMemtableIterator RawSingleMemtableIterator, MemtableEntry) Iterator" where
  "hash_raw \<equiv> raw_methods (st_raw hash_store)"

definition entry_methods :: "('it, MemtableEntry) Iterator \<Rightarrow> ('it RawIterator AdaptedIterator, Entry) Iterator" where
  "entry_methods m = adapted_methods (merging_methods m) mem_toEntry mem_makeSeek"

interpretation hash_seek: seekable_entries hash_raw "\<lambda>r. hm_iter_ok HashKey (rs_it (rs_it r))" "\<lambda>r. hm_ahead (rs_it (rs_it r))"
  "\<lambda>r. hm_entries (hi_hackmap (rs_it (rs_it r)))"
proof (rule seekable_entries.intro)
  have "seekable_iterator (st_raw hash_store) (\<lambda>r. hm_iter_ok HashKey (rs_it r)) (\<lambda>r. hm_ahead (rs_it r))
      (\<lambda>r. hm_entries (hi_hackmap (rs_it r))) (\<lambda>e key. me_Key e < me_Key key)"
    using hm_seek.raw_seekable [of HashKey] by (simp add: hash_store_def HashKey_def)
  from seekable_iterator.raw_seekable [OF this]
  show "seekable_iterator hash_raw (\<lambda>r. hm_iter_ok HashKey (rs_it (rs_it r))) (\<lambda>r. hm_ahead (rs_it (rs_it r)))
      (\<lambda>r. hm_entries (hi_hackmap (rs_it (rs_it r)))) (\<lambda>e key. me_Key e < me_Key key)" .
qed

interpretation hash_source: entry_source "entry_methods hash_raw" "\<lambda>a. hash_seek.tree_ok (ad_inner a)"
  "\<lambda>a. map mem_toEntry (hash_seek.raw_ahead (ad_inner a))" "\<lambda>a. map mem_toEntry (hash_seek.raw_whole (ad_inner a))"
  unfolding entry_methods_def
proof (rule adapted_source [OF hash_seek.tree_seekable])
  show "me_Key e < me_Key (mem_makeSeek k) \<longleftrightarrow> e_Key (mem_toEntry e) < k" for e k
    by (simp add: mem_makeSeek_def mem_toEntry_def)
  show "keys_sorted (map mem_toEntry (hash_seek.raw_ahead it))" if "hash_seek.tree_ok it" for it
  proof -
    have "sorted (map me_Key (hash_seek.raw_ahead it))"
      using hash_seek.raw_ahead_sorted [OF that] sort_entries_sorted entries_key_sorted by metis
    moreover have "e_Key \<circ> mem_toEntry = me_Key" by (auto simp: mem_toEntry_def)
    ultimately show ?thesis by simp
  qed
qed

text \<open>The iterator over the tables when none of them overlaps the bounds of a scan.\<close>

definition emptyEntryIterator :: "(unit, Entry) Iterator" where
  "emptyEntryIterator = \<lparr>Valid = (\<lambda>_. False), SeekToFirst = Some, Seek = (\<lambda>_. Some), Next = Some, Key = (\<lambda>_. empty_Entry)\<rparr>"

interpretation no_tables: entry_source emptyEntryIterator "\<lambda>_. True" "\<lambda>_. []" "\<lambda>_. []"
  by unfold_locales (simp_all add: emptyEntryIterator_def)

interpretation memory_scan: db_sources "entry_methods hash_raw" "\<lambda>a. hash_seek.tree_ok (ad_inner a)"
  "\<lambda>a. map mem_toEntry (hash_seek.raw_ahead (ad_inner a))" "\<lambda>a. map mem_toEntry (hash_seek.raw_whole (ad_inner a))"
  emptyEntryIterator "\<lambda>_. True" "\<lambda>_. []" "\<lambda>_. []"
  ..

lemma hash_entry_iterator:
  assumes "reaches hash_store (hash_new maxNum maxSize) maxTables t ws s" "history ws" "t \<noteq> Heap"
  shows "\<exists>mem ess. Mgr_EntryIterator hash_store (sy_mgr s) = Some mem \<and> hash_seek.tree_ok (ad_inner mem) \<and>
    map (GM_ReadEntries hash_store) (memtables (sy_mgr s)) = map Some ess \<and> distinct_versions (concat ess) \<and>
    hash_seek.raw_whole (ad_inner mem) = sort_entries (concat ess)"
proof -
  note st = hash_mem.reaches_stored [OF assms(1) hash_new_reflects assms(2)]
  note start = hash_mem.manager_start [OF st(1)]
  have t: "mg_mergeStructure (sy_mgr s) \<noteq> Heap" using hash_mem.reaches_structure [OF assms(1)] assms(3) by simp
  from hash_seek.NewRaw_tree [OF start(1) t] st(3) start(2) obtain r where
    r: "Mgr_RawIterator hash_store (sy_mgr s) = Some r" "hash_seek.tree_ok r"
      "hash_seek.raw_whole r = sort_entries (hash_mem.stored_entries (sy_mgr s))"
    by (auto simp: Mgr_RawIterator_def hash_mem.iterators_of_def)
  with st(2,3) show ?thesis by (auto simp: Mgr_EntryIterator_def intro!: exI)
qed

section \<open>The newest visible versions\<close>

definition newest_entries :: "range_checker \<Rightarrow> Entry set \<Rightarrow> Entry set" where
  "newest_entries chk E =
     {e \<in> E. (\<forall>x \<in> E. e_Key x = e_Key e \<longrightarrow> e_SequenceID x \<le> e_SequenceID e) \<and> \<not> entry_deleted chk e}"

lemma set_db_view_newest:
  "sorted_wrt (\<lambda>a b. compareEntries a b \<le> 0) es \<Longrightarrow>
     (\<forall>a \<in> set es. \<forall>b \<in> set es. e_Key a = e_Key b \<longrightarrow> e_SequenceID a = e_SequenceID b \<longrightarrow> a = b) \<Longrightarrow>
     set (db_view chk es) = as_put ` newest_entries chk (set es)"
proof (induction chk es rule: db_view.induct)
  case (2 chk e es)
  let ?rest = "dropWhile (\<lambda>x. e_Key x = e_Key e) es"
  have sorted: "sorted_wrt (\<lambda>a b. compareEntries a b \<le> 0) es" and first: "\<forall>x \<in> set es. compareEntries e x \<le> 0"
    using "2.prems"(1) by auto
  have "keys_sorted (e # es)"
    unfolding sorted_wrt_map by (rule sorted_wrt_mono_rel [OF _ "2.prems"(1)]) (auto simp: compareEntries_le)
  then have rest: "set ?rest = {x \<in> set es. e_Key x \<noteq> e_Key e}" by (simp add: dropWhile_key_filter)
  have IH: "set (db_view chk ?rest) = as_put ` newest_entries chk (set ?rest)"
  proof (rule "2.IH")
    show "sorted_wrt (\<lambda>a b. compareEntries a b \<le> 0) ?rest" using sorted by (metis dropWhile_eq_drop sorted_wrt_drop)
    show "\<forall>a \<in> set ?rest. \<forall>b \<in> set ?rest. e_Key a = e_Key b \<longrightarrow> e_SequenceID a = e_SequenceID b \<longrightarrow> a = b"
      using "2.prems"(2) rest by auto
  qed
  have head: "x = e" if "x \<in> newest_entries chk (set (e # es))" "e_Key x = e_Key e" for x
    using that first "2.prems"(2) by (auto simp: newest_entries_def compareEntries_le)
  have "newest_entries chk (set (e # es)) = (if entry_deleted chk e then {} else {e}) \<union> newest_entries chk (set ?rest)"
  proof (intro set_eqI iffI)
    fix x assume x: "x \<in> newest_entries chk (set (e # es))"
    show "x \<in> (if entry_deleted chk e then {} else {e}) \<union> newest_entries chk (set ?rest)"
    proof (cases "e_Key x = e_Key e")
      case True
      with head [OF x] x show ?thesis by (auto simp: newest_entries_def)
    qed (use x rest in \<open>auto simp: newest_entries_def\<close>)
  next
    fix x assume x: "x \<in> (if entry_deleted chk e then {} else {e}) \<union> newest_entries chk (set ?rest)"
    then show "x \<in> newest_entries chk (set (e # es))"
      using rest first by (auto simp: newest_entries_def compareEntries_le split: if_splits)
  qed
  then show ?case by (simp add: Let_def IH)
qed (simp add: newest_entries_def)

lemma merge_entries_sorted:
  "sorted_wrt (\<lambda>a b. compareEntries a b \<le> 0) xs \<Longrightarrow> sorted_wrt (\<lambda>a b. compareEntries a b \<le> 0) ys \<Longrightarrow>
     sorted_wrt (\<lambda>a b. compareEntries a b \<le> 0) (merge_entries xs ys)"
proof (induction xs ys rule: merge_entries.induct)
  case (3 x xs y ys)
  have trans: "compareEntries a b \<le> 0 \<Longrightarrow> compareEntries b c \<le> 0 \<Longrightarrow> compareEntries a c \<le> 0" for a b c
    by (auto simp: compareEntries_le)
  have total: "\<not> compareEntries x y \<le> 0 \<Longrightarrow> compareEntries y x \<le> 0" by (auto simp: compareEntries_le)
  show ?case using 3 trans total by (cases "compareEntries x y \<le> 0") (simp; blast)+
qed simp_all

lemma map_toEntry_sorted:
  "entries_sorted es \<Longrightarrow> sorted_wrt (\<lambda>a b. compareEntries a b \<le> 0) (map mem_toEntry es)"
  unfolding sorted_wrt_map by (rule sorted_wrt_mono_rel) (auto simp: compareEntries_le mem_toEntry_def mt_cmp_simps)

section \<open>Over the heap\<close>

abbreviation start_scan :: "range_checker \<Rightarrow> 'm \<Rightarrow> ('m, unit) DBIterator" where
  "start_scan chk mem \<equiv> \<lparr>db_memIterator = Some mem, db_tableIterator = Some (), db_current = None, db_valid = False, db_rangeDelChecker = chk\<rparr>"

lemma move_opt_Some: "f it = Some it' \<Longrightarrow> move_opt f (Some it) = Some (Some it')"
  by (simp add: move_opt_def)

lemma no_table_moves [simp]:
  "valid_opt emptyEntryIterator x = False" "Valid emptyEntryIterator u = False"
  "move_opt (skip_loop emptyEntryIterator k) (Some ()) = Some (Some ())"
  "move_opt (SeekToFirst emptyEntryIterator) (Some ()) = Some (Some ())" "move_opt (Seek emptyEntryIterator key) (Some ()) = Some (Some ())"
  by (simp_all add: valid_opt_def move_opt_Some skip_loop.simps emptyEntryIterator_def split: option.split)

lemma advance_end:
  "db_memIterator db = Some it \<Longrightarrow> db_tableIterator db = Some () \<Longrightarrow> \<not> Valid mm it \<Longrightarrow>
    db_advance mm emptyEntryIterator db = Some (db\<lparr>db_current := None, db_valid := False\<rparr>)"
  by (subst db_advance.simps) (simp add: selectWinner_def valid_opt_def)

text \<open>One step that uses the source up, whether or not it finds an entry.\<close>

lemma advance_exhausts:
  assumes "db_memIterator db = Some it" "db_tableIterator db = Some ()" "skip_loop mm (e_Key (Key mm it)) it = Some it'" "\<not> Valid mm it'"
  shows "\<exists>db'. db_advance mm emptyEntryIterator db = Some db' \<and> db_tableIterator db' = Some () \<and> (db_memIterator db' = Some it \<and> \<not> Valid mm it \<or> db_memIterator db' = Some it')"
proof (cases "Valid mm it")
  case True
  then have w: "selectWinner mm emptyEntryIterator db = dbWinnerMem" using assms(1,2) by (simp add: selectWinner_def valid_opt_def)
  have k: "skipKey mm emptyEntryIterator (e_Key (Key mm it)) db = Some (db\<lparr>db_memIterator := Some it', db_tableIterator := Some ()\<rparr>)"
    using assms by (simp add: skipKey_def move_opt_Some)
  show ?thesis using w k assms(1) advance_end [of "db\<lparr>db_memIterator := Some it', db_tableIterator := Some ()\<rparr>" it' mm] assms(4)
    by (subst db_advance.simps) (simp add: key_opt_def Let_def)
next
  case False
  with advance_end [OF assms(1,2)] assms(1,2) show ?thesis by simp
qed

lemma scan_nothing:
  assumes "db_memIterator db = Some it" "db_tableIterator db = Some ()"
    and "SeekToFirst mm it = Some it1" "\<not> Valid mm it1" "\<And>key. \<exists>it2. Seek mm key it = Some it2 \<and> \<not> Valid mm it2"
  shows "Option.bind (NewRangeIterator (db_methods mm emptyEntryIterator) db lower upper) (collect (range_methods (db_methods mm emptyEntryIterator))) = Some []"
proof -
  have stop: "\<exists>db'. db_advance mm emptyEntryIterator (db\<lparr>db_memIterator := Some it', db_tableIterator := Some ()\<rparr>) = Some db' \<and> \<not> db_valid db'"
    if "\<not> Valid mm it'" for it' using advance_end [of "db\<lparr>db_memIterator := Some it', db_tableIterator := Some ()\<rparr>"] that by simp
  have "\<exists>db'. DB_SeekToFirst mm emptyEntryIterator db = Some db' \<and> \<not> db_valid db'"
    using stop [OF assms(4)] assms(1-3) by (simp add: DB_SeekToFirst_def move_opt_Some)
  moreover have "\<exists>db'. DB_Seek mm emptyEntryIterator key db = Some db' \<and> \<not> db_valid db'" for key
    using assms(5) [of key] stop assms(1,2) by (auto simp: DB_Seek_def move_opt_Some)
  ultimately have "\<exists>db'. NewRangeIterator (db_methods mm emptyEntryIterator) db lower upper = Some \<lparr>rg_db = db', rg_lower = lower, rg_upper = upper\<rparr> \<and> \<not> db_valid db'"
    by (cases "lower = []") (fastforce simp: NewRangeIterator_def Range_SeekToFirst_def on_db_def db_methods_def)+
  then obtain r where "NewRangeIterator (db_methods mm emptyEntryIterator) db lower upper = Some r" "\<not> Range_Valid (db_methods mm emptyEntryIterator) r"
    by (auto simp: Range_Valid_def db_methods_def)
  then show ?thesis by (simp add: range_methods_def collect.simps)
qed

context entry_iterator
begin

definition heap_like :: "'it RawIterator \<Rightarrow> bool" where
  "heap_like r \<longleftrightarrow> (\<forall>s its. ri_structure r = Some (s, its) \<longrightarrow> (\<exists>h. s = MS_Heap h))"

lemma heap_like_iff: "heap_like r \<longleftrightarrow> (\<forall>s its. ri_structure r = Some (s, its) \<longrightarrow> \<not> (\<exists>w. s = MS_Tree w))"
  unfolding heap_like_def by (metis merge_struct.distinct(1) merge_struct.exhaust)

lemma seek_first_loop_kind:
  "seek_first_loop m idxs (s, its) = Some (s', its') \<Longrightarrow> (\<exists>h. s = MS_Heap h) \<longleftrightarrow> (\<exists>h. s' = MS_Heap h)"
proof (induction idxs arbitrary: s its)
  case (Cons i idxs)
  have kind: "(\<exists>h. ms_Update (ms_methods m mt_cmp) i s x = MS_Heap h) \<longleftrightarrow> (\<exists>h. s = MS_Heap h)" for x
    by (cases s) (simp_all add: ms_methods_def)
  from Cons.prems obtain it where
    "seek_first_loop m idxs (ms_Update (ms_methods m mt_cmp) i s (its[i := it]), its[i := it]) = Some (s', its')"
    by (auto simp: Let_def split: bind_splits)
  from Cons.IH [OF this] kind show ?case by simp
qed simp

lemma Raw_SeekToFirst_kind: "Raw_SeekToFirst m r = Some r' \<Longrightarrow> heap_like r \<Longrightarrow> heap_like r'"
  using seek_first_loop_kind
  by (auto simp: Raw_SeekToFirst_def heap_like_def split: option.splits bind_splits) metis

lemma exhausted_heap:
  assumes "raw_ok r" "\<not> Raw_Valid r" "heap_like r"
  shows "\<exists>r'. Raw_SeekToFirst m r = Some r' \<and> \<not> Raw_Valid r'" "\<exists>r'. Raw_Seek m key r = Some r' \<and> \<not> Raw_Valid r'"
proof -
  show "\<exists>r'. Raw_SeekToFirst m r = Some r' \<and> \<not> Raw_Valid r'"
  proof (cases "ri_structure r")
    case (Some st)
    with assms Raw_SeekToFirst_heap_end [OF assms(1,2)] show ?thesis by (cases st) (auto simp: heap_like_def)
  qed (simp add: Raw_SeekToFirst_def Raw_Valid_def)
  show "\<exists>r'. Raw_Seek m key r = Some r' \<and> \<not> Raw_Valid r'"
  proof (cases "ri_structure r")
    case (Some st)
    with assms(3) obtain h its where st: "ri_structure r = Some (MS_Heap h, its)" by (cases st) (auto simp: heap_like_def)
    from heap_end_empty [OF assms(1,2) st] have "hq_data h = []" .
    moreover have "set_winner m r (MS_Heap h) its = r" using assms(1) st by (simp add: raw_ok_def)
    ultimately show ?thesis using st assms(2) by (simp add: Raw_Seek_def Let_def ms_methods_def hq_Iterators_def)
  qed (simp add: Raw_Seek_def Raw_Valid_def)
qed

lemma skip_all:
  assumes "\<forall>e \<in> set (remaining r). me_Key e = k" "raw_ok r" "heap_like r"
  shows "\<exists>r'. skip_loop (entry_methods m) k \<lparr>ad_inner = r\<rparr> = Some \<lparr>ad_inner = r'\<rparr> \<and> raw_ok r' \<and> heap_like r' \<and> \<not> Raw_Valid r'"
  using assms
proof (induction "length (remaining r)" arbitrary: r rule: less_induct)
  case less
  show ?case
  proof (cases "Raw_Valid r")
    case False
    with less.prems show ?thesis by (subst skip_loop.simps) (simp add: entry_methods_def)
  next
    case True
    from raw_step [OF less.prems(2) True] obtain r' s its s' its' where
      r': "Raw_Next m r = Some r'" "raw_ok r'" "mset (remaining r) = add_mset (Raw_Key r) (mset (remaining r'))"
        "ri_structure r = Some (s, its)" "ri_structure r' = Some (s', its')" "(\<exists>w. s = MS_Tree w) \<longleftrightarrow> (\<exists>w. s' = MS_Tree w)" by blast
    have "heap_like r'" using less.prems(3) r'(4-6) by (cases s') (auto simp: heap_like_def)
    moreover have "size (mset (remaining r)) = Suc (size (mset (remaining r')))" using r'(3) by simp
    then have "length (remaining r') < length (remaining r)" by simp
    moreover have "set (remaining r) = insert (Raw_Key r) (set (remaining r'))"
      using r'(3) by (metis set_mset_add_mset_insert set_mset_mset)
    ultimately obtain r'' where "skip_loop (entry_methods m) k \<lparr>ad_inner = r'\<rparr> = Some \<lparr>ad_inner = r''\<rparr>"
      "raw_ok r''" "heap_like r''" "\<not> Raw_Valid r''" and key: "me_Key (Raw_Key r) = k"
      using less.hyps [of r'] less.prems(1) r'(2) by auto
    then show ?thesis using True r'(1) key
      by (subst skip_loop.simps) (simp add: entry_methods_def Adapted_Current_def mem_toEntry_def)
  qed
qed

lemma heap_scan:
  assumes "raw_ok r" "at_start r" "heap_like r" "\<forall>e \<in> set (remaining r). me_Key e = k"
  shows "Option.bind (NewDBIteratorWithRangeDel (entry_methods m) emptyEntryIterator (Some \<lparr>ad_inner = r\<rparr>) (Some ()) chk) (\<lambda>db.
    Option.bind (NewRangeIterator (db_methods (entry_methods m) emptyEntryIterator) db lower upper) (collect (range_methods (db_methods (entry_methods m) emptyEntryIterator)))) = Some []"
proof -
  let ?m = "entry_methods m"
  from Raw_SeekToFirst_start [OF assms(1,2)] obtain r1 where
    r1: "Raw_SeekToFirst m r = Some r1" "raw_ok r1" "mset (remaining r1) = mset (remaining r)" by blast
  note h1 = Raw_SeekToFirst_kind [OF r1(1) assms(3)]
  have k1: "\<forall>e \<in> set (remaining r1). me_Key e = k" using assms(4) mset_eq_setD [OF r1(3)] by simp
  obtain r2 where r2: "skip_loop ?m (e_Key (Key ?m \<lparr>ad_inner = r1\<rparr>)) \<lparr>ad_inner = r1\<rparr> = Some \<lparr>ad_inner = r2\<rparr>"
    "raw_ok r2" "heap_like r2" "\<not> Raw_Valid r2"
  proof (cases "Raw_Valid r1")
    case True
    from raw_step [OF r1(2) True] have "Raw_Key r1 \<in> set (remaining r1)"
      by (metis set_mset_add_mset_insert set_mset_mset insertI1)
    with k1 True have "e_Key (Key ?m \<lparr>ad_inner = r1\<rparr>) = k" by (simp add: entry_methods_def Adapted_Current_def mem_toEntry_def)
    with skip_all [OF k1 r1(2) h1] that show ?thesis by auto
  next
    case False
    then have "skip_loop ?m (e_Key (Key ?m \<lparr>ad_inner = r1\<rparr>)) \<lparr>ad_inner = r1\<rparr> = Some \<lparr>ad_inner = r1\<rparr>"
      by (subst skip_loop.simps) (simp add: entry_methods_def)
    with that r1(2) h1 False show ?thesis by blast
  qed
  have new: "NewDBIteratorWithRangeDel ?m emptyEntryIterator (Some \<lparr>ad_inner = r\<rparr>) (Some ()) chk = db_advance ?m emptyEntryIterator (start_scan chk \<lparr>ad_inner = r1\<rparr>)"
    using r1(1) by (simp add: NewDBIteratorWithRangeDel_def DB_SeekToFirst_def move_opt_Some entry_methods_def merging_methods_def)
  have nv: "\<not> Valid ?m \<lparr>ad_inner = r2\<rparr>" using r2(4) by (simp add: entry_methods_def)
  from advance_exhausts [of "start_scan chk \<lparr>ad_inner = r1\<rparr>", OF _ _ r2(1) nv]
  obtain db where db: "NewDBIteratorWithRangeDel ?m emptyEntryIterator (Some \<lparr>ad_inner = r\<rparr>) (Some ()) chk = Some db" "db_tableIterator db = Some ()"
    and mem: "db_memIterator db = Some \<lparr>ad_inner = r1\<rparr> \<and> \<not> Valid ?m \<lparr>ad_inner = r1\<rparr> \<or> db_memIterator db = Some \<lparr>ad_inner = r2\<rparr>"
    unfolding new by auto
  then obtain r3 where db3: "db_memIterator db = Some \<lparr>ad_inner = r3\<rparr>" and r3: "raw_ok r3" "\<not> Raw_Valid r3" "heap_like r3"
    using r1(2) r2 h1 by (auto simp: entry_methods_def)
  note ex = exhausted_heap [OF r3]
  from ex(1) obtain r4 where r4: "Raw_SeekToFirst m r3 = Some r4" "\<not> Raw_Valid r4" by blast
  have "Option.bind (NewRangeIterator (db_methods ?m emptyEntryIterator) db lower upper) (collect (range_methods (db_methods ?m emptyEntryIterator))) = Some []"
  proof (rule scan_nothing [OF db3 db(2)])
    show "SeekToFirst ?m \<lparr>ad_inner = r3\<rparr> = Some \<lparr>ad_inner = r4\<rparr>" using r4(1) by (simp add: entry_methods_def merging_methods_def)
    show "\<not> Valid ?m \<lparr>ad_inner = r4\<rparr>" using r4(2) by (simp add: entry_methods_def)
    show "\<exists>it2. Seek ?m key \<lparr>ad_inner = r3\<rparr> = Some it2 \<and> \<not> Valid ?m it2" for key
      using ex(2) [of "mem_makeSeek (e_Key key)"] by (auto simp: entry_methods_def merging_methods_def)
  qed
  with db(1) show ?thesis by simp
qed

end

section \<open>Scans of the LSM tree\<close>

text \<open>
  \<^verbatim>\<open>NewDBIterator\<close>, \<^verbatim>\<open>NewRangeIterator\<close> and \<^verbatim>\<open>NewPrefixIterator\<close> of \<^verbatim>\<open>lsm/lsm.go\<close>. The iterator over the tables is an
  argument, with its methods \<open>mt\<close>.
\<close>

definition lsm_checker :: "('s, 'it) MemtableStore \<Rightarrow> 's MemtableManager \<Rightarrow> range_checker" where
  "lsm_checker S mg = Some (\<lambda>key seqId. the (Mgr_IsCoveredByRangeDel S mg key seqId))"

abbreviation lsm_methods :: "('s, 'it) MemtableStore \<Rightarrow> ('t, Entry) Iterator \<Rightarrow>
    (('it RawSingleMemtableIterator RawIterator AdaptedIterator, 't) DBIterator, Entry) Iterator" where
  "lsm_methods S mt \<equiv> db_methods (entry_methods (raw_methods (st_raw S))) mt"

definition LSM_NewDBIterator ::
  "('s, 'it) MemtableStore \<Rightarrow> ('t, Entry) Iterator \<Rightarrow> 's MemtableManager \<Rightarrow> 't \<Rightarrow>
     ('it RawSingleMemtableIterator RawIterator AdaptedIterator, 't) DBIterator option" where
  "LSM_NewDBIterator S mt mg sstIt =
     Option.bind (Mgr_EntryIterator S mg) (\<lambda>memIt.
       NewDBIteratorWithRangeDel (entry_methods (raw_methods (st_raw S))) mt (Some memIt) (Some sstIt) (lsm_checker S mg))"

definition LSM_NewRangeIterator ::
  "('s, 'it) MemtableStore \<Rightarrow> ('t, Entry) Iterator \<Rightarrow> 's MemtableManager \<Rightarrow> 't \<Rightarrow> bytes \<Rightarrow> bytes \<Rightarrow>
     ('it RawSingleMemtableIterator RawIterator AdaptedIterator, 't) DBIterator RangeIterator option" where
  "LSM_NewRangeIterator S mt mg sstIt lower upper =
     Option.bind (LSM_NewDBIterator S mt mg sstIt) (\<lambda>dbIt. NewRangeIterator (lsm_methods S mt) dbIt lower upper)"

definition LSM_NewPrefixIterator ::
  "('s, 'it) MemtableStore \<Rightarrow> ('t, Entry) Iterator \<Rightarrow> 's MemtableManager \<Rightarrow> 't \<Rightarrow> bytes \<Rightarrow>
     ('it RawSingleMemtableIterator RawIterator AdaptedIterator, 't) DBIterator RangeIterator option" where
  "LSM_NewPrefixIterator S mt mg sstIt pre =
     Option.bind (LSM_NewDBIterator S mt mg sstIt) (\<lambda>dbIt. NewPrefixIterator (lsm_methods S mt) dbIt pre)"

text \<open>What a client collects that walks the iterator to its end.\<close>

definition collect_range ::
  "('s, 'it) MemtableStore \<Rightarrow> ('t, Entry) Iterator \<Rightarrow>
     ('it RawSingleMemtableIterator RawIterator AdaptedIterator, 't) DBIterator RangeIterator option \<Rightarrow> Entry list option" where
  "collect_range S mt it = Option.bind it (collect (range_methods (lsm_methods S mt)))"

text \<open>What a scan must return: the newest version of each key, in order, unless it is deleted.\<close>

definition scan_result :: "range_checker \<Rightarrow> MemtableEntry list \<Rightarrow> (Entry \<Rightarrow> bool) \<Rightarrow> Entry list \<Rightarrow> bool" where
  "scan_result chk es P out \<longleftrightarrow> sorted_wrt (<) (map e_Key out) \<and>
     set out = as_put ` {e \<in> newest_entries chk (mem_toEntry ` set es). P e}"

lemma sorted_scan:
  assumes "distinct_versions es" "\<And>e. P (as_put e) = P e"
  shows "scan_result chk es P (filter P (db_view chk (map mem_toEntry (sort_entries es))))"
proof -
  let ?all = "map mem_toEntry (sort_entries es)"
  have s: "sorted_wrt (\<lambda>a b. compareEntries a b \<le> 0) ?all" by (rule map_toEntry_sorted [OF sort_entries_sorted])
  then have k: "keys_sorted ?all"
    unfolding sorted_wrt_map by (rule sorted_wrt_mono_rel [rotated]) (auto simp: compareEntries_le)
  have "inj_on (\<lambda>e. (me_Key e, me_SeqId e)) (set es)" using assms(1) by (simp add: distinct_map)
  then have "\<forall>a \<in> set ?all. \<forall>b \<in> set ?all. e_Key a = e_Key b \<longrightarrow> e_SequenceID a = e_SequenceID b \<longrightarrow> a = b"
    by (auto simp: mem_toEntry_def inj_on_def)
  from set_db_view_newest [OF s this, of chk]
  have "set (db_view chk ?all) = as_put ` newest_entries chk (mem_toEntry ` set es)" by simp
  moreover have "sorted_wrt (<) (map e_Key (filter P (db_view chk ?all)))"
    using db_view_sorted [OF k] by (simp add: sorted_wrt_map sorted_wrt_filter)
  ultimately show ?thesis using assms(2) by (auto simp: scan_result_def)
qed

lemma range_iterate:
  assumes "reaches hash_store (hash_new maxNum maxSize) maxTables t ws s" "history ws" "t \<noteq> Heap"
  shows "\<exists>ess. map (GM_ReadEntries hash_store) (memtables (sy_mgr s)) = map Some ess \<and> distinct_versions (concat ess) \<and>
    (\<forall>lower upper. collect_range hash_store emptyEntryIterator (LSM_NewRangeIterator hash_store emptyEntryIterator (sy_mgr s) () lower upper) =
       Some (filter (in_bounds lower upper) (db_view (lsm_checker hash_store (sy_mgr s)) (map mem_toEntry (sort_entries (concat ess))))))"
proof -
  from hash_entry_iterator [OF assms] obtain mem ess where
    m: "Mgr_EntryIterator hash_store (sy_mgr s) = Some mem" "hash_seek.tree_ok (ad_inner mem)"
      "map (GM_ReadEntries hash_store) (memtables (sy_mgr s)) = map Some ess" "distinct_versions (concat ess)"
      "hash_seek.raw_whole (ad_inner mem) = sort_entries (concat ess)" by blast
  have src: "opt_all (\<lambda>a. hash_seek.tree_ok (ad_inner a)) (Some mem)" "opt_all (\<lambda>_. True) (Some ())" using m(2) by simp_all
  note scan = memory_scan.range_scan [OF src, of "lsm_checker hash_store (sy_mgr s)"]
  have assoc: "Option.bind (Option.bind a f) g = Option.bind a (\<lambda>x. Option.bind (f x) g)" for a f g
    by (cases a) simp_all
  have "collect_range hash_store emptyEntryIterator (LSM_NewRangeIterator hash_store emptyEntryIterator (sy_mgr s) () lower upper) =
      Option.bind (NewDBIteratorWithRangeDel (entry_methods hash_raw) emptyEntryIterator (Some mem) (Some ()) (lsm_checker hash_store (sy_mgr s))) (\<lambda>db.
        Option.bind (NewRangeIterator (db_methods (entry_methods hash_raw) emptyEntryIterator) db lower upper)
          (collect (range_methods (db_methods (entry_methods hash_raw) emptyEntryIterator))))" for lower upper
    unfolding collect_range_def LSM_NewRangeIterator_def LSM_NewDBIterator_def m(1) bind.simps assoc ..
  then have "collect_range hash_store emptyEntryIterator (LSM_NewRangeIterator hash_store emptyEntryIterator (sy_mgr s) () lower upper) =
      Some (filter (in_bounds lower upper) (db_view (lsm_checker hash_store (sy_mgr s)) (map mem_toEntry (sort_entries (concat ess)))))" for lower upper
    using scan [of lower upper] by (simp only: opt_simps merge_Nil m(5))
  with m(3,4) show ?thesis by blast
qed

section \<open>A memory with one entry\<close>

definition one_entry :: "byte \<Rightarrow> HashMapStore system" where
  "one_entry t = (let s = NewSystem 3 t (hash_new 1000 100000) in after_write (Mgr_Put hash_store [1] [9] 1 OpTypePut (sy_mgr s)) s)"

lemma one_entry_reached: "reaches hash_store (hash_new 1000 100000) 3 t [WUpsert [1] [9] 1 OpTypePut] (one_entry t)"
proof -
  have "put_write (sy_mgr (NewSystem 3 t (hash_new 1000 100000))) [1] [9] 1 OpTypePut = WUpsert [1] [9] 1 OpTypePut"
    by (simp add: put_write_def isSnapshotted_def NewSystem_def NewMemtableManager_def)
  then show ?thesis
    using reaches.wrote [OF reaches.start client_step.client_put, of hash_store "hash_new 1000 100000" 3 t "[1]" "[9]" 1 OpTypePut]
    by (simp add: one_entry_def Let_def)
qed

lemma one_entry_history: "history [WUpsert [1] [9] 1 OpTypePut]"
  by (simp add: history_def)

abbreviation one_memtable :: "HashMapStore GenericMemtable" where
  "one_memtable \<equiv> GM_Upsert hash_store [1] [9] 1 OpTypePut (hash_new 1000 100000)"

lemma one_entry_memtables: "memtables (sy_mgr (one_entry t)) = [one_memtable]"
  by (simp add: one_entry_def NewSystem_def NewMemtableManager_def after_write_def Mgr_Put_def isSnapshotted_def set_active_def
      memtables_def Let_def)

lemma one_memtable_reflects: "hash_mem.reflects [WUpsert [1] [9] 1 OpTypePut] one_memtable"
  using hash_mem.reflects_step [OF hash_new_reflects, of "WUpsert [1] [9] 1 OpTypePut" 1000 100000] one_entry_history by simp

lemma one_entry_read: "map (GM_ReadEntries hash_store) (memtables (sy_mgr (one_entry t))) = map Some [[put_entry [1] [9] 1]]"
proof -
  have "hm_entries (gm_store one_memtable) = [put_entry [1] [9] 1]" by code_simp
  moreover have "hash_store_inv (gm_store one_memtable)"
    using one_memtable_reflects by (simp add: hash_mem.reflects_def hash_mem.gm_inv_def)
  ultimately show ?thesis by (simp add: one_entry_memtables GM_ReadEntries_def hash_mem.entries_law)
qed

lemma one_entry_checker: "lsm_checker hash_store (sy_mgr (one_entry t)) = Some (\<lambda>key seqId. False)"
proof -
  have "hash_mem.gm_inv one_memtable" "set (hm_entries (gm_rangeDelStore one_memtable)) = {}"
    using one_memtable_reflects by (simp_all add: hash_mem.reflects_def range_writes_def)
  then have "Mgr_IsCoveredByRangeDel hash_store (sy_mgr (one_entry t)) key seqId = Some False" for key seqId
    by (simp add: Mgr_IsCoveredByRangeDel_def one_entry_memtables hash_mem.GM_IsCoveredByRangeDel_spec covered_def newest_def)
  then show ?thesis by (simp add: lsm_checker_def)
qed

lemma one_entry_result:
  assumes "scan_result (Some (\<lambda>key seqId. False)) (concat [[put_entry [1] [9] 1]]) P out" "P (mem_toEntry (put_entry [1] [9] 1))"
  shows "out = [mem_toEntry (put_entry [1] [9] 1)]"
proof -
  let ?e = "mem_toEntry (put_entry [1] [9] 1)"
  have "newest_entries (Some (\<lambda>key seqId. False)) {?e} = {?e}" by (auto simp: newest_entries_def entry_deleted_def mem_toEntry_def)
  moreover have "as_put ?e = ?e" by (simp add: as_put_def mem_toEntry_def)
  ultimately have "set out = {?e}" "sorted_wrt (<) (map e_Key out)" using assms by (auto simp: scan_result_def)
  then show ?thesis by (cases out; cases "tl out") auto
qed

section \<open>Properties\<close>



text \<open>C8: With the heap, which \<^verbatim>\<open>NewLSM\<close> chooses, and one key in memory, every range scan without tables is empty,
  whatever the bounds: the step that finds the key exhausts its iterator, the heap drops it, and the seek of the
  range iterator no longer reaches it.\<close>

theorem heap_range_scan_empty:
  assumes "reaches hash_store (hash_new maxNum maxSize) maxTables Heap ws s" "history ws"
    and "\<forall>w \<in> set ws. me_Key (write_entry w) = k"
  shows "collect_range hash_store emptyEntryIterator (LSM_NewRangeIterator hash_store emptyEntryIterator (sy_mgr s) () lower upper) = Some []"
proof -
  note st = hash_mem.reaches_stored [OF assms(1) hash_new_reflects assms(2)]
  note start = hash_mem.manager_start [OF st(1)]
  have t: "mg_mergeStructure (sy_mgr s) = Heap" using hash_mem.reaches_structure [OF assms(1)] .
  from hash_seek.NewRaw [OF start(1), of "mg_mergeStructure (sy_mgr s)"] obtain r where
    r: "Mgr_RawIterator hash_store (sy_mgr s) = Some r" "hash_seek.raw_ok r" "hash_seek.at_start r" "hash_seek.heap_like r"
      "mset (hash_seek.remaining r) = mset (hash_mem.stored_entries (sy_mgr s))"
    unfolding start(2)
    by (auto simp: Mgr_RawIterator_def hash_mem.iterators_of_def hash_seek.at_start_def hash_seek.heap_like_iff t)
  have "\<forall>e \<in> set (hash_mem.stored_entries (sy_mgr s)). me_Key e = k"
    using hash_mem.reaches_written [OF assms(1) hash_new_reflects assms(2)] assms(3) by (auto simp: point_writes_def)
  then have "\<forall>e \<in> set (hash_seek.remaining r). me_Key e = k" using mset_eq_setD [OF r(5)] by simp
  note scan = hash_seek.heap_scan [OF r(2,3,4) this, of "lsm_checker hash_store (sy_mgr s)" lower upper]
  have assoc: "Option.bind (Option.bind a f) g = Option.bind a (\<lambda>x. Option.bind (f x) g)" for a f g
    by (cases a) simp_all
  show ?thesis
    unfolding collect_range_def LSM_NewRangeIterator_def LSM_NewDBIterator_def Mgr_EntryIterator_def r(1) option.map bind.simps assoc
    by (rule scan)
qed

theorem heap_range_scan_empty_witness:
  "collect_range hash_store emptyEntryIterator (LSM_NewRangeIterator hash_store emptyEntryIterator (sy_mgr (one_entry Heap)) () [1] [5]) = Some [] \<and>
   map (GM_ReadEntries hash_store) (memtables (sy_mgr (one_entry Heap))) = [Some [put_entry [1] [9] 1]]"
  using heap_range_scan_empty [OF one_entry_reached one_entry_history, of "[1]"] one_entry_read [of Heap] by simp

end
