(* ===== verification/Paged_Scan.thy ===== *)
theory Paged_Scan
  imports Notifier Scan Merge_Operator
begin

text \<open>
  Pages of a scan (\<^verbatim>\<open>core/scan.go\<close>) and the interactive session that pages through a range and watches it for changes
  (\<^verbatim>\<open>core/paged_scan.go\<close>). The keys of probabilistic structures are hidden.

  A session is a record; the goroutine that watches it and the engine that notifies are steps of \<open>session_step\<close>. The
  page a session fetches is an argument of its operations, since it depends on the state of the engine at that time.

  Shown here: page \<open>p\<close> of size \<open>n\<close> is that part of the visible entries, as long as \<open>p * n\<close> does not overflow, and
  turning pages walks through them. When a session moves its subscription while the watching goroutine waits, that
  finds its channel closed and ends, so the session is never marked as changed again; and a session closed while an
  event is being handled makes the goroutine dereference \<^verbatim>\<open>nil\<close>.
\<close>

section \<open>Pages\<close>

record ScanResult =
  sr_Key :: bytes
  sr_Value :: bytes

definition scan_result_of :: "Entry \<Rightarrow> ScanResult" where
  "scan_result_of e = \<lparr>sr_Key = e_Key e, sr_Value = e_Value e\<rparr>"

partial_function (option) skip_page :: "('it, Entry) Iterator \<Rightarrow> int \<Rightarrow> int \<Rightarrow> 'it \<Rightarrow> 'it option" where
  "skip_page m skip visibleSeen it =
     (if Valid m it \<and> visibleSeen < skip
      then Option.bind (Next m it) (skip_page m skip (if IsProbKey (e_Key (Key m it)) then visibleSeen else visibleSeen + 1))
      else Some it)"

partial_function (option) take_page :: "('it, Entry) Iterator \<Rightarrow> int \<Rightarrow> ScanResult list \<Rightarrow> 'it \<Rightarrow> ScanResult list option" where
  "take_page m pageSize results it =
     (if Valid m it \<and> int (length results) < pageSize
      then Option.bind (Next m it)
        (take_page m pageSize (if IsProbKey (e_Key (Key m it)) then results else results @ [scan_result_of (Key m it)]))
      else Some results)"

text \<open>\<^verbatim>\<open>RangeScan\<close> and \<^verbatim>\<open>PrefixScan\<close> differ in the iterator they open.\<close>

definition scan_page :: "('it, Entry) Iterator \<Rightarrow> 'it result \<Rightarrow> int \<Rightarrow> int \<Rightarrow> ScanResult list result option" where
  "scan_page m it pageNumber pageSize =
     (if pageSize \<le> 0 then Some (Inl (Error ''pageSize must be > 0''))
      else case it of
        Inl e \<Rightarrow> Some (Inl e)
      | Inr it \<Rightarrow>
          Option.bind (skip_page m (go_int (pageNumber * pageSize)) 0 it) (\<lambda>it.
          Option.bind (take_page m pageSize [] it) (\<lambda>results. Some (Ok results))))"

text \<open>The iterator handed to an interactive user: \<^verbatim>\<open>Next\<close> and \<^verbatim>\<open>Valid\<close> both skip hidden keys.\<close>

partial_function (option) Active_Next :: "('it, Entry) Iterator \<Rightarrow> 'it \<Rightarrow> (ScanResult option \<times> 'it) option" where
  "Active_Next m it =
     (if Valid m it then
        Option.bind (Next m it) (\<lambda>it'.
          if IsProbKey (e_Key (Key m it)) then Active_Next m it' else Some (Some (scan_result_of (Key m it)), it'))
      else Some (None, it))"

partial_function (option) Active_Valid :: "('it, Entry) Iterator \<Rightarrow> 'it \<Rightarrow> (bool \<times> 'it) option" where
  "Active_Valid m it =
     (if Valid m it then
        if \<not> IsProbKey (e_Key (Key m it)) then Some (True, it) else Option.bind (Next m it) (Active_Valid m)
      else Some (False, it))"

definition shown :: "Entry list \<Rightarrow> ScanResult list" where
  "shown es = map scan_result_of (filter (\<lambda>e. \<not> IsProbKey (e_Key e)) es)"

lemma shown_simps [simp]:
  "shown [] = []" "shown (e # es) = (if IsProbKey (e_Key e) then shown es else scan_result_of e # shown es)"
  by (simp_all add: shown_def)

context forward_iterator
begin

text \<open>The loops below are over iterators of entries; \<open>f\<close> is the identity there.\<close>

lemma walk_induct [consumes 1, case_names empty step]:
  assumes "ok it" "\<And>it. ok it \<Longrightarrow> ahead it = [] \<Longrightarrow> \<not> Valid m it \<Longrightarrow> P it"
    and "\<And>it it' x. ok it \<Longrightarrow> Valid m it \<Longrightarrow> Key m it = x \<Longrightarrow> Next m it = Some it' \<Longrightarrow> ok it' \<Longrightarrow> ahead it = x # ahead it' \<Longrightarrow> P it' \<Longrightarrow> P it"
  shows "P it"
  using assms(1)
proof (induction "ahead it" arbitrary: it)
  case Nil
  with assms(2) ahead_Nil show ?case by metis
next
  case (Cons x xs)
  from ahead_Cons [OF Cons.prems Cons.hyps(2) [symmetric]]
  obtain it' where "Valid m it" "Key m it = x" "Next m it = Some it'" "ok it'" "ahead it' = xs" by metis
  with Cons assms(3) show ?case by metis
qed

end

lemma skip_page_ahead:
  assumes "forward_iterator m ok ahead" "ok it"
  shows "\<exists>it'. skip_page m skip seen it = Some it' \<and> ok it' \<and> shown (ahead it') = drop (nat (skip - seen)) (shown (ahead it))"
  using assms(2)
proof (induction it arbitrary: seen rule: forward_iterator.walk_induct [OF assms(1), consumes 1, case_names empty step])
  case (empty it)
  then show ?case by (subst skip_page.simps) simp
next
  case (step it it' x)
  show ?case
  proof (cases "seen < skip")
    case True
    then have "nat (skip - seen) = Suc (nat (skip - (seen + 1)))" by simp
    with True step(2-4,6) step(7) [of "if IsProbKey (e_Key x) then seen else seen + 1"] show ?thesis
      by (subst skip_page.simps) auto
  next
    case False
    with step(1) show ?thesis by (subst skip_page.simps) simp
  qed
qed

lemma take_page_ahead:
  assumes "forward_iterator m ok ahead" "ok it"
  shows "take_page m pageSize results it = Some (results @ take (nat (pageSize - int (length results))) (shown (ahead it)))"
  using assms(2)
proof (induction it arbitrary: results rule: forward_iterator.walk_induct [OF assms(1), consumes 1, case_names empty step])
  case (empty it)
  then show ?case by (subst take_page.simps) simp
next
  case (step it it' x)
  show ?case
  proof (cases "int (length results) < pageSize")
    case True
    then have "nat (pageSize - int (length results)) = Suc (nat (pageSize - int (Suc (length results))))" by simp
    with True step(2-4,6) step(7) show ?thesis by (subst take_page.simps) auto
  next
    case False
    then show ?thesis by (subst take_page.simps) simp
  qed
qed

definition view_page :: "ScanResult list \<Rightarrow> int \<Rightarrow> int \<Rightarrow> ScanResult list" where
  "view_page view pageNumber pageSize = take (nat pageSize) (drop (nat (go_int (pageNumber * pageSize))) view)"

lemma scan_page_view:
  assumes "forward_iterator m ok ahead" "ok it" "0 < pageSize"
  shows "scan_page m (Ok it) pageNumber pageSize = Some (Ok (view_page (shown (ahead it)) pageNumber pageSize))"
  using skip_page_ahead [OF assms(1,2), of "go_int (pageNumber * pageSize)" 0] take_page_ahead [OF assms(1)] assms(3)
  by (auto simp: scan_page_def view_page_def)

section \<open>Sessions\<close>

text \<open>
  \<^verbatim>\<open>PagedRangeScan\<close> and \<^verbatim>\<open>PagedPrefixScan\<close> are the same but for the page they fetch and for the range they subscribe to
  when the page is empty: \<open>pg_lower\<close> and \<open>pg_upper\<close> are both the prefix then. \<open>pg_stopped\<close> says that \<^verbatim>\<open>stopCh\<close> is closed.
\<close>

record PagedScan =
  pg_lower :: bytes
  pg_upper :: bytes
  pg_currentPage :: "ScanResult list"
  pg_pageNumber :: int
  pg_dirty :: bool
  pg_listener :: "Listener option"
  pg_stopped :: bool

type_synonym page_source = "int \<Rightarrow> ScanResult list result"

definition scanBufferSize :: nat where
  "scanBufferSize = 32"

definition resubscribe :: "PagedScan \<Rightarrow> Notifier \<Rightarrow> (PagedScan \<times> Notifier) result" where
  "resubscribe s n =
     bind_r (Unsubscribe (pg_listener s) n) (\<lambda>n.
       let lo = (if pg_currentPage s \<noteq> [] then sr_Key (hd (pg_currentPage s)) else pg_lower s);
           hi = (if pg_currentPage s \<noteq> [] then sr_Key (last (pg_currentPage s)) else pg_upper s);
           (l, n') = Subscribe lo hi scanBufferSize n
       in Ok (s\<lparr>pg_listener := Some l\<rparr>, n'))"

definition fetchCurrentPage :: "page_source \<Rightarrow> PagedScan \<Rightarrow> failure option \<times> PagedScan" where
  "fetchCurrentPage fetch s =
     (case fetch (pg_pageNumber s) of Inl e \<Rightarrow> (Some e, s) | Inr results \<Rightarrow> (None, s\<lparr>pg_currentPage := results\<rparr>))"

definition NewPagedScan :: "page_source \<Rightarrow> bytes \<Rightarrow> bytes \<Rightarrow> Notifier \<Rightarrow> (PagedScan \<times> Notifier) result" where
  "NewPagedScan fetch lower upper n =
     (let s = \<lparr>pg_lower = lower, pg_upper = upper, pg_currentPage = [], pg_pageNumber = 0, pg_dirty = False, pg_listener = None, pg_stopped = False\<rparr> in
      case fetchCurrentPage fetch s of (Some e, _) \<Rightarrow> Inl e | (None, s) \<Rightarrow> resubscribe s n)"

definition CurrentPage :: "page_source \<Rightarrow> PagedScan \<Rightarrow> Notifier \<Rightarrow> ((ScanResult list \<times> bool) \<times> PagedScan \<times> Notifier) result" where
  "CurrentPage fetch s n =
     (if pg_dirty s then
        bind_r (resubscribe (snd (fetchCurrentPage fetch s)) n) (\<lambda>(s, n).
          Ok ((pg_currentPage s, True), s\<lparr>pg_dirty := False\<rparr>, n))
      else Ok ((pg_currentPage s, False), s, n))"

definition NextPage :: "page_source \<Rightarrow> PagedScan \<Rightarrow> Notifier \<Rightarrow> (ScanResult list option \<times> PagedScan \<times> Notifier) result" where
  "NextPage fetch s n =
     (let (err, s1) = fetchCurrentPage fetch (s\<lparr>pg_pageNumber := go_int (pg_pageNumber s + 1)\<rparr>) in
      if err \<noteq> None \<or> pg_currentPage s1 = [] then
        bind_r (resubscribe (snd (fetchCurrentPage fetch (s1\<lparr>pg_pageNumber := go_int (pg_pageNumber s1 - 1)\<rparr>))) n) (\<lambda>(s2, n).
          Ok (None, s2\<lparr>pg_dirty := False\<rparr>, n))
      else bind_r (resubscribe s1 n) (\<lambda>(s2, n). Ok (Some (pg_currentPage s2), s2\<lparr>pg_dirty := False\<rparr>, n)))"

definition PrevPage :: "page_source \<Rightarrow> PagedScan \<Rightarrow> Notifier \<Rightarrow> (ScanResult list \<times> PagedScan \<times> Notifier) result" where
  "PrevPage fetch s n =
     (if 0 < pg_pageNumber s then
        bind_r (resubscribe (snd (fetchCurrentPage fetch (s\<lparr>pg_pageNumber := pg_pageNumber s - 1\<rparr>))) n) (\<lambda>(s, n).
          Ok (pg_currentPage s, s\<lparr>pg_dirty := False\<rparr>, n))
      else Ok (pg_currentPage s, s, n))"

definition Close :: "PagedScan \<Rightarrow> Notifier \<Rightarrow> (PagedScan \<times> Notifier) result" where
  "Close s n =
     (if pg_stopped s then Inl (Panic ''close of closed channel'')
      else bind_r (Unsubscribe (pg_listener s) n) (\<lambda>n. Ok (s\<lparr>pg_stopped := True, pg_listener := None\<rparr>, n)))"

section \<open>The watching goroutine\<close>

text \<open>
  \<^verbatim>\<open>watchEvents\<close> evaluates \<^verbatim>\<open>s.listener.Ch\<close>, without the mutex, when it enters the select statement and then waits on that
  channel. \<open>Received\<close> is the goroutine that has taken an event and not yet the mutex, \<open>Looping\<close> the one about to enter
  the select statement again.
\<close>

datatype watcher = Blocked nat | Received | Looping | Ended | Crashed

record session =
  se_scan :: PagedScan
  se_notifier :: Notifier
  se_watcher :: watcher

inductive watch_step :: "session \<Rightarrow> session \<Rightarrow> bool" where
  w_receive: "se_watcher x = Blocked c \<Longrightarrow> ch_buffer (nf_chans (se_notifier x) ! c) = e # es \<Longrightarrow>
    watch_step x (x\<lparr>se_watcher := Received, se_notifier := (se_notifier x)\<lparr>nf_chans :=
      (nf_chans (se_notifier x))[c := (nf_chans (se_notifier x) ! c)\<lparr>ch_buffer := es\<rparr>]\<rparr>\<rparr>)"
| w_closed: "se_watcher x = Blocked c \<Longrightarrow> ch_buffer (nf_chans (se_notifier x) ! c) = [] \<Longrightarrow> ch_closed (nf_chans (se_notifier x) ! c) \<Longrightarrow>
    watch_step x (x\<lparr>se_watcher := Ended\<rparr>)"
| w_stop: "se_watcher x = Blocked c \<Longrightarrow> pg_stopped (se_scan x) \<Longrightarrow> watch_step x (x\<lparr>se_watcher := Ended\<rparr>)"
| w_mark: "se_watcher x = Received \<Longrightarrow> watch_step x (x\<lparr>se_watcher := Looping, se_scan := (se_scan x)\<lparr>pg_dirty := True\<rparr>\<rparr>)"
| w_again: "se_watcher x = Looping \<Longrightarrow> pg_listener (se_scan x) = Some l \<Longrightarrow> watch_step x (x\<lparr>se_watcher := Blocked (ls_Ch l)\<rparr>)"
| w_nil: "se_watcher x = Looping \<Longrightarrow> pg_listener (se_scan x) = None \<Longrightarrow> watch_step x (x\<lparr>se_watcher := Crashed\<rparr>)"

text \<open>The user, the engine and other subscribers.\<close>

inductive session_step :: "session \<Rightarrow> session \<Rightarrow> bool" where
  s_watch: "watch_step x y \<Longrightarrow> session_step x y"
| s_current: "CurrentPage fetch (se_scan x) (se_notifier x) = Ok (r, s, n) \<Longrightarrow> session_step x (x\<lparr>se_scan := s, se_notifier := n\<rparr>)"
| s_next: "NextPage fetch (se_scan x) (se_notifier x) = Ok (r', s, n) \<Longrightarrow> session_step x (x\<lparr>se_scan := s, se_notifier := n\<rparr>)"
| s_prev: "PrevPage fetch (se_scan x) (se_notifier x) = Ok (r'', s, n) \<Longrightarrow> session_step x (x\<lparr>se_scan := s, se_notifier := n\<rparr>)"
| s_close: "Close (se_scan x) (se_notifier x) = Ok (s, n) \<Longrightarrow> session_step x (x\<lparr>se_scan := s, se_notifier := n\<rparr>)"
| s_event: "notify e (se_notifier x) = Ok n \<Longrightarrow> session_step x (x\<lparr>se_notifier := n\<rparr>)"
| s_sub: "Subscribe lo hi sz (se_notifier x) = (l, n) \<Longrightarrow> session_step x (x\<lparr>se_notifier := n\<rparr>)"
| s_unsub: "Unsubscribe (Some l) (se_notifier x) = Ok n \<Longrightarrow> session_step x (x\<lparr>se_notifier := n\<rparr>)"

subsection \<open>A dead channel stays dead\<close>

definition dead :: "Notifier \<Rightarrow> nat \<Rightarrow> bool" where
  "dead n c \<longleftrightarrow> c < length (nf_chans n) \<and> ch_closed (nf_chans n ! c) \<and> ch_buffer (nf_chans n ! c) = []"

lemma dead_Subscribe: "dead n c \<Longrightarrow> dead (snd (Subscribe lo hi sz n)) c"
  by (simp add: dead_def Subscribe_def Let_def nth_append)

lemma dead_Unsubscribe:
  assumes "dead n c" "Unsubscribe l n = Ok n'"
  shows "dead n' c"
proof (cases "\<exists>x. l = Some x \<and> map_of (nf_listeners n) (ls_id x) \<noteq> None")
  case True
  then obtain x where x: "l = Some x" "map_of (nf_listeners n) (ls_id x) \<noteq> None" by blast
  with assms(2) have "\<not> ch_closed (nf_chans n ! ls_Ch x)" by (auto simp: Unsubscribe_def chan_close_def split: if_splits)
  moreover from this have "ls_Ch x \<noteq> c" using assms(1) by (auto simp: dead_def)
  ultimately show ?thesis using assms x by (auto simp: Unsubscribe_def chan_close_def dead_def)
next
  case False
  with assms show ?thesis by (auto simp: Unsubscribe_def split: option.splits)
qed

lemma dead_notify_loop:
  "notify_loop e ls chans = Ok chans' \<Longrightarrow> c < length chans \<Longrightarrow> ch_closed (chans ! c) \<Longrightarrow> chans' ! c = chans ! c \<and> length chans' = length chans"
proof (induction ls arbitrary: chans)
  case (Cons x ls)
  obtain i l where x: "x = (i, l)" by force
  show ?case
  proof (cases "concerns e l")
    case True
    with Cons.prems(1) obtain d where d: "try_send e (chans ! ls_Ch l) = Ok d" "notify_loop e ls (chans[ls_Ch l := d]) = Ok chans'"
      by (auto simp: x)
    then have "ls_Ch l \<noteq> c" using Cons.prems(3) by (auto simp: try_send_def)
    with Cons.IH [OF d(2)] Cons.prems(2,3) show ?thesis by simp
  qed (use Cons in \<open>simp add: x\<close>)
qed simp

lemma dead_notify: "dead n c \<Longrightarrow> notify e n = Ok n' \<Longrightarrow> dead n' c"
  using dead_notify_loop [of e "nf_listeners n" "nf_chans n" _ c] by (auto simp: dead_def notify_def)

lemma resubscribe_keeps:
  assumes "resubscribe s n = Ok (s', n')"
  shows "pg_dirty s' = pg_dirty s" "dead n c \<Longrightarrow> dead n' c" "pg_currentPage s' = pg_currentPage s" "pg_pageNumber s' = pg_pageNumber s"
proof -
  from assms obtain n1 where n1: "Unsubscribe (pg_listener s) n = Ok n1"
    and r: "(let lo = (if pg_currentPage s \<noteq> [] then sr_Key (hd (pg_currentPage s)) else pg_lower s);
           hi = (if pg_currentPage s \<noteq> [] then sr_Key (last (pg_currentPage s)) else pg_upper s);
           (l, n') = Subscribe lo hi scanBufferSize n1
       in Ok (s\<lparr>pg_listener := Some l\<rparr>, n')) = (Ok (s', n') :: (PagedScan \<times> Notifier) result)"
    by (auto simp: resubscribe_def)
  from r show "pg_dirty s' = pg_dirty s" "pg_currentPage s' = pg_currentPage s" "pg_pageNumber s' = pg_pageNumber s"
    by (auto simp: Let_def split: prod.splits)
  show "dead n' c" if "dead n c"
    using dead_Subscribe [OF dead_Unsubscribe [OF that n1]] r by (auto simp: Let_def split: prod.splits) (metis snd_conv)+
qed

definition deaf :: "session \<Rightarrow> bool" where
  "deaf x \<longleftrightarrow> \<not> pg_dirty (se_scan x) \<and>
     (case se_watcher x of Blocked c \<Rightarrow> dead (se_notifier x) c | Received \<Rightarrow> False | Looping \<Rightarrow> False | Ended \<Rightarrow> True | Crashed \<Rightarrow> True)"

lemma deaf_watch:
  assumes "deaf x" "watch_step x y"
  shows "deaf y"
  using assms(2,1) by (cases rule: watch_step.cases) (auto simp: deaf_def dead_def)

lemma turn_keeps:
  assumes "CurrentPage fetch s n = Ok (r, s', n') \<or> NextPage fetch s n = Ok (r', s', n') \<or> PrevPage fetch s n = Ok (r'', s', n')"
    and "\<not> pg_dirty s"
  shows "\<not> pg_dirty s'" "dead n c \<Longrightarrow> dead n' c"
proof -
  have "\<not> pg_dirty s' \<and> (dead n c \<longrightarrow> dead n' c)"
    using assms resubscribe_keeps(2)
    by (auto simp: CurrentPage_def NextPage_def PrevPage_def Let_def split: prod.splits if_splits)
  then show "\<not> pg_dirty s'" "dead n c \<Longrightarrow> dead n' c" by blast+
qed

lemma deaf_turn:
  assumes "deaf x" "\<not> pg_dirty (se_scan x) \<Longrightarrow> \<not> pg_dirty s" "\<And>c. dead (se_notifier x) c \<Longrightarrow> dead n c"
  shows "deaf (x\<lparr>se_scan := s, se_notifier := n\<rparr>)"
  using assms by (auto simp: deaf_def split: watcher.splits)

lemma deaf_step:
  assumes "session_step x y" "deaf x"
  shows "deaf y"
  using assms
proof (cases rule: session_step.cases)
  case s_watch
  with assms(2) deaf_watch show ?thesis by blast
next
  case (s_close s n)
  then obtain "dead (se_notifier x) c \<Longrightarrow> dead n c" "pg_dirty s = pg_dirty (se_scan x)" for c
    using dead_Unsubscribe by (auto simp: Close_def split: if_splits)
  with s_close assms(2) dead_Unsubscribe show ?thesis
    by (auto simp: deaf_def Close_def split: watcher.splits if_splits)
next
  case (s_event e n)
  with assms(2) dead_notify show ?thesis by (auto simp: deaf_def split: watcher.splits)
next
  case (s_sub lo hi sz l n)
  then have "n = snd (Subscribe lo hi sz (se_notifier x))" by simp
  with s_sub(1) assms(2) dead_Subscribe show ?thesis by (auto simp: deaf_def split: watcher.splits)
next
  case (s_unsub l n)
  with assms(2) dead_Unsubscribe show ?thesis by (auto simp: deaf_def split: watcher.splits)
next
  case (s_current fetch r s n)
  have t: "CurrentPage fetch (se_scan x) (se_notifier x) = Ok (r, s, n) \<or> NextPage fetch (se_scan x) (se_notifier x) = Ok (None, s, n) \<or>
      PrevPage fetch (se_scan x) (se_notifier x) = Ok ([], s, n)" using s_current(2) by simp
  show ?thesis unfolding s_current(1) using turn_keeps [OF t] assms(2) by (intro deaf_turn) (auto simp: deaf_def)
next
  case (s_next fetch r s n)
  have t: "CurrentPage fetch (se_scan x) (se_notifier x) = Ok (([], True), s, n) \<or> NextPage fetch (se_scan x) (se_notifier x) = Ok (r, s, n) \<or>
      PrevPage fetch (se_scan x) (se_notifier x) = Ok ([], s, n)" using s_next(2) by simp
  show ?thesis unfolding s_next(1) using turn_keeps [OF t] assms(2) by (intro deaf_turn) (auto simp: deaf_def)
next
  case (s_prev fetch r s n)
  have t: "CurrentPage fetch (se_scan x) (se_notifier x) = Ok (([], True), s, n) \<or> NextPage fetch (se_scan x) (se_notifier x) = Ok (None, s, n) \<or>
      PrevPage fetch (se_scan x) (se_notifier x) = Ok (r, s, n)" using s_prev(2) by simp
  show ?thesis unfolding s_prev(1) using turn_keeps [OF t] assms(2) by (intro deaf_turn) (auto simp: deaf_def)
qed

lemma deaf_forever: "session_step\<^sup>*\<^sup>* x y \<Longrightarrow> deaf x \<Longrightarrow> deaf y"
  by (induction rule: rtranclp_induct) (auto intro: deaf_step)

text \<open>Moving the subscription closes the channel the goroutine waits on.\<close>

definition listening :: "PagedScan \<Rightarrow> Notifier \<Rightarrow> nat \<Rightarrow> bool" where
  "listening s n c \<longleftrightarrow> (\<exists>l. pg_listener s = Some l \<and> ls_Ch l = c \<and> map_of (nf_listeners n) (ls_id l) \<noteq> None) \<and>
     c < length (nf_chans n) \<and> ch_buffer (nf_chans n ! c) = []"

lemma resubscribe_closes:
  assumes "resubscribe s n = Ok (s', n')" "listening s n c"
  shows "dead n' c"
proof -
  from assms obtain l n1 where l: "pg_listener s = Some l" "ls_Ch l = c" "map_of (nf_listeners n) (ls_id l) \<noteq> None" "c < length (nf_chans n)"
    "ch_buffer (nf_chans n ! c) = []" and n1: "Unsubscribe (Some l) n = Ok n1"
    and r: "(let lo = (if pg_currentPage s \<noteq> [] then sr_Key (hd (pg_currentPage s)) else pg_lower s);
           hi = (if pg_currentPage s \<noteq> [] then sr_Key (last (pg_currentPage s)) else pg_upper s);
           (l, n') = Subscribe lo hi scanBufferSize n1
       in Ok (s\<lparr>pg_listener := Some l\<rparr>, n')) = (Ok (s', n') :: (PagedScan \<times> Notifier) result)"
    by (auto simp: resubscribe_def listening_def)
  from n1 l have "dead n1 c" by (auto simp: Unsubscribe_def chan_close_def dead_def split: if_splits)
  with dead_Subscribe r show ?thesis by (auto simp: Let_def split: prod.splits) (metis snd_conv)+
qed

lemma listening_page [simp]:
  "listening (s\<lparr>pg_pageNumber := p\<rparr>) n c = listening s n c" "listening (s\<lparr>pg_currentPage := q\<rparr>) n c = listening s n c"
  by (simp_all add: listening_def)

lemma fetch_listening: "listening (snd (fetchCurrentPage fetch s)) n c = listening s n c"
  by (cases "fetch (pg_pageNumber s)") (simp_all add: fetchCurrentPage_def)

lemma NextPage_closes:
  assumes "NextPage fetch s n = Ok (r, s', n')" "listening s n c"
  shows "dead n' c \<and> \<not> pg_dirty s'"
proof -
  let ?s = "s\<lparr>pg_pageNumber := go_int (pg_pageNumber s + 1)\<rparr>"
  let ?s1 = "snd (fetchCurrentPage fetch ?s)"
  from assms(1) obtain s2 where "(resubscribe ?s1 n = Ok (s2, n') \<or>
      resubscribe (snd (fetchCurrentPage fetch (?s1\<lparr>pg_pageNumber := go_int (pg_pageNumber ?s1 - 1)\<rparr>))) n = Ok (s2, n')) \<and> s' = s2\<lparr>pg_dirty := False\<rparr>"
    by (auto simp: NextPage_def Let_def split: prod.splits if_splits)
  moreover have "listening ?s1 n c" using assms(2) by (simp add: fetch_listening)
  moreover have "listening (snd (fetchCurrentPage fetch (?s1\<lparr>pg_pageNumber := go_int (pg_pageNumber ?s1 - 1)\<rparr>))) n c"
    using assms(2) by (simp add: fetch_listening)
  ultimately show ?thesis using resubscribe_closes by auto
qed

section \<open>Turning pages\<close>

definition session_ok :: "PagedScan \<Rightarrow> Notifier \<Rightarrow> subscription list \<Rightarrow> bool" where
  "session_ok s n sbs \<longleftrightarrow> represents n sbs \<and>
     (\<exists>k < length sbs. pg_listener s = Some (listener_of k (sbs ! k)) \<and> sb_active (sbs ! k) \<and> sb_events (sbs ! k) = [] \<and> 0 < sb_size (sbs ! k))"

lemma resubscribe_ok:
  assumes "represents n sbs" "pg_listener s = None \<or> session_ok s n sbs" "Suc (length sbs) < 2 ^ 64"
  shows "\<exists>s' n' sbs'. resubscribe s n = Ok (s', n') \<and> session_ok s' n' sbs' \<and> length sbs' = Suc (length sbs) \<and>
    pg_dirty s' = pg_dirty s \<and> pg_pageNumber s' = pg_pageNumber s \<and> pg_currentPage s' = pg_currentPage s \<and> pg_stopped s' = pg_stopped s"
proof -
  have "\<exists>n1 sbs1. Unsubscribe (pg_listener s) n = Ok n1 \<and> represents n1 sbs1 \<and> length sbs1 = length sbs"
  proof (cases "pg_listener s")
    case None
    with assms(1) show ?thesis by (auto simp: Unsubscribe_def)
  next
    case (Some l)
    with assms(2) obtain k where k: "k < length sbs" "l = listener_of k (sbs ! k)" by (auto simp: session_ok_def)
    then have ls: "k < length (listeners_of sbs)" "listeners_of sbs ! k = l" by (simp_all add: listeners_of_nth) (simp add: listeners_of_def)
    from represents_Unsub [OF assms(1), of k] assms(3) obtain n1 where
      "nf_step (Unsub k) (n, listeners_of sbs) = Ok (n1, listeners_of (sub_log (Unsub k) sbs))" "represents n1 (sub_log (Unsub k) sbs)" by auto
    with ls k(1) Some show ?thesis by (auto intro!: exI [of _ "sub_log (Unsub k) sbs"])
  qed
  then obtain n1 sbs1 where n1: "Unsubscribe (pg_listener s) n = Ok n1" "represents n1 sbs1" "length sbs1 = length sbs" by blast
  define lo where "lo = (if pg_currentPage s \<noteq> [] then sr_Key (hd (pg_currentPage s)) else pg_lower s)"
  define hi where "hi = (if pg_currentPage s \<noteq> [] then sr_Key (last (pg_currentPage s)) else pg_upper s)"
  obtain l n2 where sub: "Subscribe lo hi scanBufferSize n1 = (l, n2)" by force
  let ?sbs = "sub_log (Sub lo hi scanBufferSize) sbs1"
  from represents_Sub [OF n1(2), of lo hi scanBufferSize] assms(3) n1(3) sub
  have r: "represents n2 ?sbs" "listeners_of sbs1 @ [l] = listeners_of ?sbs" by (simp_all add: Let_def)
  have "l = (listeners_of sbs1 @ [l]) ! length (listeners_of sbs1)" by (rule nth_append_length [symmetric])
  then have "l = listeners_of ?sbs ! length sbs1" unfolding r(2) by (simp only: listeners_of_def length_map length_upt diff_zero)
  then have l: "l = listener_of (length sbs1) (?sbs ! length sbs1)" by (simp add: listeners_of_nth)
  have run: "resubscribe s n = Ok (s\<lparr>pg_listener := Some l\<rparr>, n2)"
    unfolding resubscribe_def n1(1) bind_r_simps Let_def lo_def [symmetric] hi_def [symmetric] sub by simp
  have "session_ok (s\<lparr>pg_listener := Some l\<rparr>) n2 ?sbs"
    using r(1) l by (auto simp: session_ok_def scanBufferSize_def intro!: exI [of _ "length sbs1"])
  then show ?thesis using run n1(3) by (intro exI [of _ "s\<lparr>pg_listener := Some l\<rparr>"] exI [of _ n2] exI [of _ ?sbs]) simp
qed

lemma session_same: "session_ok s n sbs \<Longrightarrow> pg_listener s' = pg_listener s \<Longrightarrow> session_ok s' n sbs"
  by (simp add: session_ok_def)

lemma session_listening:
  assumes "session_ok s n sbs" "length sbs < 2 ^ 64" "pg_listener s = Some l"
  shows "listening s n (ls_Ch l)"
proof -
  from assms(1,3) obtain k where k: "k < length sbs" "l = listener_of k (sbs ! k)" "sb_active (sbs ! k)" "sb_events (sbs ! k) = []"
    and r: "represents n sbs" by (auto simp: session_ok_def)
  have "of_nat k \<in> fst ` set (nf_listeners n)" using active_id [of sbs k] assms(2) k r by (simp add: represents_def)
  then have "map_of (nf_listeners n) (of_nat k) \<noteq> None" by (simp add: map_of_eq_None_iff)
  with k r assms(3) show ?thesis by (auto simp: listening_def represents_def chan_of_def listener_of_def)
qed

lemma NewPagedScan_ok:
  assumes "represents n sbs" "Suc (length sbs) < 2 ^ 64" "fetch 0 = Ok page"
  shows "\<exists>s n' sbs'. NewPagedScan fetch lo hi n = Ok (s, n') \<and> session_ok s n' sbs' \<and> length sbs' = Suc (length sbs) \<and>
    pg_pageNumber s = 0 \<and> pg_currentPage s = page \<and> \<not> pg_dirty s \<and> \<not> pg_stopped s"
proof -
  let ?s = "\<lparr>pg_lower = lo, pg_upper = hi, pg_currentPage = page, pg_pageNumber = 0, pg_dirty = False, pg_listener = None, pg_stopped = False\<rparr>"
  from resubscribe_ok [OF assms(1) _ assms(2), of ?s] show ?thesis
    using assms(3) by (auto simp: NewPagedScan_def fetchCurrentPage_def Let_def)
qed

lemma NextPage_ok:
  assumes "session_ok s n sbs" "Suc (length sbs) < 2 ^ 64" "0 \<le> pg_pageNumber s" "pg_pageNumber s + 1 < 2 ^ 63"
    and "\<forall>p. fetch p = Ok (pages p)"
  shows "\<exists>r s' n' sbs'. NextPage fetch s n = Ok (r, s', n') \<and> session_ok s' n' sbs' \<and> length sbs' = Suc (length sbs) \<and> \<not> pg_dirty s' \<and>
    (if pages (pg_pageNumber s + 1) = [] then r = None \<and> pg_pageNumber s' = pg_pageNumber s \<and> pg_currentPage s' = pages (pg_pageNumber s)
     else r = Some (pages (pg_pageNumber s + 1)) \<and> pg_pageNumber s' = pg_pageNumber s + 1 \<and> pg_currentPage s' = pages (pg_pageNumber s + 1))"
proof -
  let ?p = "pg_pageNumber s"
  have go: "go_int (?p + 1) = ?p + 1" "go_int ?p = ?p" using assms(3,4) by (simp_all add: go_int_small)
  let ?s1 = "s\<lparr>pg_pageNumber := ?p + 1, pg_currentPage := pages (?p + 1)\<rparr>"
  let ?s2 = "s\<lparr>pg_pageNumber := ?p, pg_currentPage := pages ?p\<rparr>"
  have f: "fetchCurrentPage fetch (s\<lparr>pg_pageNumber := go_int (?p + 1)\<rparr>) = (None, ?s1)"
    "fetchCurrentPage fetch (?s1\<lparr>pg_pageNumber := go_int (pg_pageNumber ?s1 - 1)\<rparr>) = (None, ?s2)"
    using assms(5) go by (simp_all add: fetchCurrentPage_def)
  have rep: "represents n sbs" using assms(1) by (simp add: session_ok_def)
  have sess: "session_ok ?s1 n sbs" "session_ok ?s2 n sbs" by (rule session_same [OF assms(1)], simp)+
  show ?thesis
  proof (cases "pages (?p + 1) = []")
    case True
    from resubscribe_ok [OF rep disjI2 [OF sess(2)] assms(2)] obtain s' n' sbs' where
      r: "resubscribe ?s2 n = Ok (s', n')" "session_ok s' n' sbs'" "length sbs' = Suc (length sbs)"
        "pg_pageNumber s' = ?p" "pg_currentPage s' = pages ?p" by auto
    have "NextPage fetch s n = Ok (None, s'\<lparr>pg_dirty := False\<rparr>, n')"
      unfolding NextPage_def f(1) Let_def prod.case f(2) using True r(1) by simp
    moreover have "session_ok (s'\<lparr>pg_dirty := False\<rparr>) n' sbs'" by (rule session_same [OF r(2)]) simp
    ultimately show ?thesis using True r(3-5)
      by (intro exI [of _ None] exI [of _ "s'\<lparr>pg_dirty := False\<rparr>"] exI [of _ n'] exI [of _ sbs']) simp
  next
    case False
    from resubscribe_ok [OF rep disjI2 [OF sess(1)] assms(2)] obtain s' n' sbs' where
      r: "resubscribe ?s1 n = Ok (s', n')" "session_ok s' n' sbs'" "length sbs' = Suc (length sbs)"
        "pg_pageNumber s' = ?p + 1" "pg_currentPage s' = pages (?p + 1)" by auto
    have "NextPage fetch s n = Ok (Some (pages (?p + 1)), s'\<lparr>pg_dirty := False\<rparr>, n')"
      unfolding NextPage_def f(1) Let_def prod.case using False r by simp
    moreover have "session_ok (s'\<lparr>pg_dirty := False\<rparr>) n' sbs'" by (rule session_same [OF r(2)]) simp
    ultimately show ?thesis using False r(3-5)
      by (intro exI [of _ "Some (pages (?p + 1))"] exI [of _ "s'\<lparr>pg_dirty := False\<rparr>"] exI [of _ n'] exI [of _ sbs']) simp
  qed
qed

fun turn_pages :: "page_source \<Rightarrow> nat \<Rightarrow> PagedScan \<times> Notifier \<Rightarrow> (PagedScan \<times> Notifier) result" where
  "turn_pages fetch 0 s = Ok s"
| "turn_pages fetch (Suc k) s =
     bind_r (turn_pages fetch k s) (\<lambda>(s, n). bind_r (NextPage fetch s n) (\<lambda>(_, s, n). Ok (s, n)))"

lemma turn_pages_ok:
  assumes "session_ok s n sbs" "length sbs + k < 2 ^ 64" "\<forall>p. fetch p = Ok (pages p)" "\<forall>j. 1 \<le> j \<and> j \<le> k \<longrightarrow> pages (int j) \<noteq> []"
    and "pg_pageNumber s = 0" "pg_currentPage s = pages 0" "k < 2 ^ 63"
  shows "\<exists>s' n' sbs'. turn_pages fetch k (s, n) = Ok (s', n') \<and> session_ok s' n' sbs' \<and> length sbs' = length sbs + k \<and>
    pg_pageNumber s' = int k \<and> pg_currentPage s' = pages (int k)"
  using assms(2,4,7)
proof (induction k)
  case 0
  with assms(1,5,6) show ?case by auto
next
  case (Suc k)
  then obtain s' n' sbs' where t: "turn_pages fetch k (s, n) = Ok (s', n')" "session_ok s' n' sbs'" "length sbs' = length sbs + k"
    "pg_pageNumber s' = int k" by auto
  have "pages (int k + 1) \<noteq> []" using Suc.prems(2) by (metis le_add1 of_nat_Suc order_refl plus_1_eq_Suc add.commute)
  with NextPage_ok [OF t(2) _ _ _ assms(3)] t(3,4) Suc.prems(1,3) obtain r s2 n2 sbs2 where
    "NextPage fetch s' n' = Ok (r, s2, n2)" "session_ok s2 n2 sbs2" "length sbs2 = Suc (length sbs')"
    "pg_pageNumber s2 = int k + 1" "pg_currentPage s2 = pages (int k + 1)" by auto
  with t(1,3) show ?case by (auto simp: add.commute intro!: exI)
qed

section \<open>Events\<close>

lemma event_arrives:
  assumes "session_ok s n sbs" "length sbs < 2 ^ 64" "pg_listener s = Some l" "concerns e l"
  shows "\<exists>n'. notify e n = Ok n' \<and> ls_Ch l < length (nf_chans n') \<and> nf_listeners n' = nf_listeners n \<and>
    map_of (nf_listeners n) (ls_id l) \<noteq> None \<and> ch_buffer (nf_chans n' ! ls_Ch l) = [e] \<and> \<not> ch_closed (nf_chans n' ! ls_Ch l)"
proof -
  from assms(1,3) obtain k where k: "k < length sbs" "l = listener_of k (sbs ! k)" "sb_active (sbs ! k)" "sb_events (sbs ! k) = []"
    "0 < sb_size (sbs ! k)" and r: "represents n sbs" by (auto simp: session_ok_def)
  from represents_Note [OF r assms(2), of e] obtain n' where n': "notify e n = Ok n'" "represents n' (sub_log (Note e) sbs)" by auto
  then have "nf_listeners n' = nf_listeners n" by (auto simp: notify_def)
  moreover have "nf_chans n' ! k = chan_of (sub_log (Note e) sbs ! k)" "k < length (nf_chans n')" using n'(2) k(1) by (simp_all add: represents_def)
  moreover have "concerns e (listener_of 0 (sbs ! k))" using assms(4) k(2) concerns_listener by blast
  moreover have "map_of (nf_listeners n) (ls_id l) \<noteq> None" using session_listening [OF assms(1-3)] assms(3) by (auto simp: listening_def)
  ultimately show ?thesis using k n'(1) by (simp add: chan_of_def listener_of_def)
qed

text \<open>The session as it is created: the goroutine has been started and has not yet looked for its channel.\<close>

definition fresh_session :: "PagedScan \<Rightarrow> Notifier \<Rightarrow> session" where
  "fresh_session s n = \<lparr>se_scan = s, se_notifier = n, se_watcher = Looping\<rparr>"

text \<open>The goroutine waits in its select on the channel of the current listener, and no event is in that channel.\<close>

definition waits :: "session \<Rightarrow> bool" where
  "waits x \<longleftrightarrow> (\<exists>c. se_watcher x = Blocked c \<and> listening (se_scan x) (se_notifier x) c)"

lemma enters_select:
  assumes "pg_listener s = Some l"
  shows "session_step\<^sup>*\<^sup>* (fresh_session s n) \<lparr>se_scan = s, se_notifier = n, se_watcher = Blocked (ls_Ch l)\<rparr>"
  using s_watch [OF w_again [of "fresh_session s n" l]] assms by (simp add: fresh_session_def r_into_rtranclp)

definition popped :: "Notifier \<Rightarrow> nat \<Rightarrow> Notifier" where
  "popped n c = n\<lparr>nf_chans := (nf_chans n)[c := (nf_chans n ! c)\<lparr>ch_buffer := []\<rparr>]\<rparr>"

lemma receives:
  assumes "notify e n = Ok n'" "ch_buffer (nf_chans n' ! ls_Ch l) = [e]" "pg_listener s = Some l"
  shows "session_step\<^sup>*\<^sup>* (fresh_session s n) \<lparr>se_scan = s, se_notifier = popped n' (ls_Ch l), se_watcher = Received\<rparr>"
proof -
  let ?w = "\<lparr>se_scan = s, se_notifier = n, se_watcher = Blocked (ls_Ch l)\<rparr>"
  let ?x = "\<lparr>se_scan = s, se_notifier = n', se_watcher = Blocked (ls_Ch l)\<rparr>"
  have "session_step ?w ?x" using s_event [of e ?w n'] assms(1) by simp
  with enters_select [OF assms(3), of n] have "session_step\<^sup>*\<^sup>* (fresh_session s n) ?x" by (rule rtranclp.rtrancl_into_rtrancl)
  moreover have "session_step ?x (?x\<lparr>se_watcher := Received, se_notifier := (se_notifier ?x)\<lparr>nf_chans :=
      (nf_chans (se_notifier ?x))[ls_Ch l := (nf_chans (se_notifier ?x) ! ls_Ch l)\<lparr>ch_buffer := []\<rparr>]\<rparr>\<rparr>)"
    using assms(2) by (intro s_watch w_receive) simp_all
  ultimately have "session_step\<^sup>*\<^sup>* (fresh_session s n) (?x\<lparr>se_watcher := Received, se_notifier := (se_notifier ?x)\<lparr>nf_chans :=
      (nf_chans (se_notifier ?x))[ls_Ch l := (nf_chans (se_notifier ?x) ! ls_Ch l)\<lparr>ch_buffer := []\<rparr>]\<rparr>\<rparr>)"
    by (rule rtranclp.rtrancl_into_rtrancl)
  then show ?thesis by (simp add: popped_def)
qed

lemma turned_deaf:
  assumes "waits x" "NextPage fetch (se_scan x) (se_notifier x) = Ok (r, s, n)"
  shows "deaf (x\<lparr>se_scan := s, se_notifier := n\<rparr>)"
  using assms NextPage_closes by (auto simp: waits_def deaf_def)

section \<open>Properties\<close>

text \<open>What a session shows when its pages are those of a fixed view.\<close>

lemma pages_of_view:
  assumes "represents n sbs" "length sbs + k + 2 < 2 ^ 64" "0 < sz" "k = 0 \<or> k * sz < length view" "Suc k * sz < 2 ^ 63"
  shows "\<exists>s n' r s2 n2. bind_r (NewPagedScan (\<lambda>p. Ok (view_page view p (int sz))) lo hi n) (turn_pages (\<lambda>p. Ok (view_page view p (int sz))) k) = Ok (s, n') \<and>
    pg_pageNumber s = int k \<and> pg_currentPage s = take sz (drop (k * sz) view) \<and>
    concat (map (\<lambda>j. take sz (drop (j * sz) view)) [0 ..< Suc k]) = take (Suc k * sz) view \<and>
    NextPage (\<lambda>p. Ok (view_page view p (int sz))) s n' = Ok (r, s2, n2) \<and>
    (if Suc k * sz < length view then r = Some (take sz (drop (Suc k * sz) view)) \<and> pg_pageNumber s2 = int (Suc k)
     else r = None \<and> pg_pageNumber s2 = int k \<and> pg_currentPage s2 = pg_currentPage s)"
proof -
  let ?f = "\<lambda>p. Ok (view_page view p (int sz)) :: ScanResult list result"
  have page: "view_page view (int j) (int sz) = take sz (drop (j * sz) view)" if "j \<le> Suc k" for j
  proof -
    have "j * sz \<le> Suc k * sz" by (rule mult_le_mono1 [OF that])
    then have "int j * int sz < 2 ^ 63" using assms(5) by (metis le_less_trans of_nat_less_iff of_nat_mult of_nat_numeral of_nat_power)
    moreover have "- (2 ^ 63) \<le> int j * int sz" by (rule order_trans [of _ 0]) simp_all
    ultimately have "go_int (int j * int sz) = int (j * sz)" using go_int_small by simp
    then show ?thesis by (simp add: view_page_def nat_mult_distrib)
  qed
  have k63: "Suc k < 2 ^ 63"
  proof -
    have "Suc k * 1 \<le> Suc k * sz" using assms(3) by (intro mult_le_mono2) simp
    with assms(5) show ?thesis by simp
  qed
  from NewPagedScan_ok [OF assms(1), of ?f "view_page view 0 (int sz)" lo hi] assms(2) obtain s0 n0 sbs0 where
    s0: "NewPagedScan ?f lo hi n = Ok (s0, n0)" "session_ok s0 n0 sbs0" "length sbs0 = Suc (length sbs)" "pg_pageNumber s0 = 0"
      "pg_currentPage s0 = view_page view 0 (int sz)" by auto
  have ne: "\<forall>j. 1 \<le> j \<and> j \<le> k \<longrightarrow> view_page view (int j) (int sz) \<noteq> []"
  proof (intro allI impI)
    fix j assume j: "1 \<le> j \<and> j \<le> k"
    then have "j * sz \<le> k * sz" "k \<noteq> 0" by (auto intro: mult_le_mono1)
    with assms(4) have "j * sz < length view" by linarith
    with page [of j] j assms(3) show "view_page view (int j) (int sz) \<noteq> []" by simp
  qed
  have "length sbs0 + k < 2 ^ 64" "k < 2 ^ 63" using s0(3) assms(2) k63 by simp_all
  from turn_pages_ok [where fetch = ?f and pages = "\<lambda>p. view_page view p (int sz)", OF s0(2) this(1) _ ne s0(4,5) this(2)] obtain s n' sbs' where
    s: "turn_pages ?f k (s0, n0) = Ok (s, n')" "session_ok s n' sbs'" "length sbs' = length sbs0 + k"
      "pg_pageNumber s = int k" "pg_currentPage s = view_page view (int k) (int sz)" by auto
  have "Suc (length sbs') < 2 ^ 64" "0 \<le> pg_pageNumber s" "pg_pageNumber s + 1 < 2 ^ 63"
    using s(3,4) s0(3) assms(2) k63 by simp_all
  from NextPage_ok [OF s(2) this, of ?f "\<lambda>p. view_page view p (int sz)"] obtain r s2 n2 where
    r: "NextPage ?f s n' = Ok (r, s2, n2)"
      "if view_page view (int (Suc k)) (int sz) = [] then r = None \<and> pg_pageNumber s2 = int k \<and> pg_currentPage s2 = view_page view (int k) (int sz)
       else r = Some (view_page view (int (Suc k)) (int sz)) \<and> pg_pageNumber s2 = int k + 1" by (auto simp: s(4) add.commute)
  have all: "concat (map (\<lambda>j. take sz (drop (j * sz) view)) [0 ..< m]) = take (m * sz) view" for m
  proof (induction m)
    case (Suc m)
    have "take (Suc m * sz) view = take (m * sz) view @ take sz (drop (m * sz) view)"
      using take_add [of "m * sz" sz view] by (simp add: add.commute)
    with Suc show ?case by (simp del: mult_Suc)
  qed simp
  have "view_page view (int (Suc k)) (int sz) = [] \<longleftrightarrow> \<not> Suc k * sz < length view"
    using page [of "Suc k"] assms(3) by (simp add: not_less)
  with r s0(1) s(1,4,5) page [of k] page [of "Suc k"] all [of "Suc k"] show ?thesis
    by (intro exI [of _ s] exI [of _ n'] exI [of _ r] exI [of _ s2] exI [of _ n2]) (simp del: of_nat_Suc mult_Suc upt_Suc)
qed


text \<open>Three visible entries and a hidden one, in pages of two.\<close>

definition listed :: "(Entry list, Entry) Iterator" where
  "listed = \<lparr>Valid = (\<lambda>es. es \<noteq> []), SeekToFirst = Some, Seek = (\<lambda>_. Some), Next = (\<lambda>es. Some (tl es)), Key = hd\<rparr>"

definition example_entry :: "bytes \<Rightarrow> Entry" where
  "example_entry k = \<lparr>e_Key = k, e_Value = [7], e_OpType = OpTypePut, e_SequenceID = 1\<rparr>"

definition example_entries :: "Entry list" where
  "example_entries = map example_entry [[1], [ProbKeyPrefix, 9], [2], [3]]"

lemma listed_forward: "forward_iterator listed (\<lambda>_. True) (\<lambda>es. es)"
  by unfold_locales (auto simp: listed_def)


text \<open>C10: A new session can be marked as changed by an event on its page. But when a page is turned while the watching
  goroutine waits in its select and no event has arrived, the session is never marked again, whatever happens
  afterwards: turning the page closes the channel the goroutine waits on, and the goroutine ends. A new session
  reaches such a waiting state by a step of its goroutine. (A goroutine that was handling an event, or had not
  yet entered the select, when the page was turned goes on to wait on the new channel.)\<close>

theorem paged_scan_goes_deaf:
  assumes "represents n sbs" "length sbs + 1 < 2 ^ 64" "fetch 0 = Ok page" "NewPagedScan fetch lo hi n = Ok (s, n')" "pg_listener s = Some l"
    "concerns e l"
  shows "(\<exists>y. session_step\<^sup>*\<^sup>* (fresh_session s n') y \<and> pg_dirty (se_scan y)) \<and>
    (\<exists>x. session_step\<^sup>*\<^sup>* (fresh_session s n') x \<and> waits x) \<and>
    (\<forall>x fetch' r s2 n2 y. waits x \<and> NextPage fetch' (se_scan x) (se_notifier x) = Ok (r, s2, n2) \<and>
       session_step\<^sup>*\<^sup>* (x\<lparr>se_scan := s2, se_notifier := n2\<rparr>) y \<longrightarrow> \<not> pg_dirty (se_scan y))"
proof (intro conjI allI impI)
  from NewPagedScan_ok [where fetch = fetch and page = page and lo = lo and hi = hi, OF assms(1) _ assms(3)] assms(2,4) obtain sbs' where
    ok: "session_ok s n' sbs'" "length sbs' = Suc (length sbs)" by auto
  then have len: "length sbs' < 2 ^ 64" using assms(2) by simp
  from event_arrives [OF ok(1) len assms(5,6)] obtain n1 where "notify e n' = Ok n1" "ch_buffer (nf_chans n1 ! ls_Ch l) = [e]" by blast
  note receives [OF this assms(5)]
  moreover have "session_step \<lparr>se_scan = s, se_notifier = popped n1 (ls_Ch l), se_watcher = Received\<rparr>
      \<lparr>se_scan = s\<lparr>pg_dirty := True\<rparr>, se_notifier = popped n1 (ls_Ch l), se_watcher = Looping\<rparr>"
    using s_watch [OF w_mark [of "\<lparr>se_scan = s, se_notifier = popped n1 (ls_Ch l), se_watcher = Received\<rparr>"]] by simp
  ultimately have "session_step\<^sup>*\<^sup>* (fresh_session s n') \<lparr>se_scan = s\<lparr>pg_dirty := True\<rparr>, se_notifier = popped n1 (ls_Ch l), se_watcher = Looping\<rparr>"
    by (rule rtranclp.rtrancl_into_rtrancl)
  then show "\<exists>y. session_step\<^sup>*\<^sup>* (fresh_session s n') y \<and> pg_dirty (se_scan y)"
    by (intro exI [of _ "\<lparr>se_scan = s\<lparr>pg_dirty := True\<rparr>, se_notifier = popped n1 (ls_Ch l), se_watcher = Looping\<rparr>"]) simp
  have "waits \<lparr>se_scan = s, se_notifier = n', se_watcher = Blocked (ls_Ch l)\<rparr>"
    using session_listening [OF ok(1) len assms(5)] by (simp add: waits_def)
  with enters_select [OF assms(5)] show "\<exists>x. session_step\<^sup>*\<^sup>* (fresh_session s n') x \<and> waits x" by blast
  fix x fetch' r s2 n2 y
  assume a: "waits x \<and> NextPage fetch' (se_scan x) (se_notifier x) = Ok (r, s2, n2) \<and> session_step\<^sup>*\<^sup>* (x\<lparr>se_scan := s2, se_notifier := n2\<rparr>) y"
  then have "deaf y" using turned_deaf deaf_forever by blast
  then show "\<not> pg_dirty (se_scan y)" by (simp add: deaf_def)
qed

abbreviation example_page :: "ScanResult list" where
  "example_page \<equiv> [\<lparr>sr_Key = [1], sr_Value = []\<rparr>, \<lparr>sr_Key = [3], sr_Value = []\<rparr>]"

definition example_session :: "PagedScan \<times> Notifier" where
  "example_session = (case NewPagedScan (\<lambda>_. Ok example_page) [] [] NewNotifier of Inl _ \<Rightarrow> undefined | Inr x \<Rightarrow> x)"

definition example_turned :: "PagedScan \<times> Notifier" where
  "example_turned = (case NextPage (\<lambda>_. Ok example_page) (fst example_session) (snd example_session) of Inl _ \<Rightarrow> undefined | Inr x \<Rightarrow> snd x)"

lemma example_sessions:
  "NewPagedScan (\<lambda>_. Ok example_page) [] [] NewNotifier = Ok (fst example_session, snd example_session)"
  "pg_listener (fst example_session) = Some \<lparr>ls_id = 0, ls_lower = [1], ls_upper = [3], ls_Ch = 0\<rparr>"
  "NextPage (\<lambda>_. Ok example_page) (fst example_session) (snd example_session) = Ok (Some example_page, fst example_turned, snd example_turned)"
  "Close (fst example_session) (snd example_session) \<noteq> Inl (Panic ''close of closed channel'')"
  by code_simp+

abbreviation example_waiting :: session where
  "example_waiting \<equiv> \<lparr>se_scan = fst example_session, se_notifier = snd example_session, se_watcher = Blocked 0\<rparr>"

theorem paged_scan_goes_deaf_witness:
  "(\<exists>y. session_step\<^sup>*\<^sup>* (fresh_session (fst example_session) (snd example_session)) y \<and> pg_dirty (se_scan y)) \<and>
   \<not> (\<exists>y. session_step\<^sup>*\<^sup>* (example_waiting\<lparr>se_scan := fst example_turned, se_notifier := snd example_turned\<rparr>) y \<and> pg_dirty (se_scan y))"
proof -
  have r: "represents NewNotifier []" by (simp add: represents_def NewNotifier_def active_entries_def)
  have c: "concerns \<lparr>ev_Type = EventPut, ev_Key = [2], ev_Value = []\<rparr> \<lparr>ls_id = 0, ls_lower = [1], ls_upper = [3], ls_Ch = 0\<rparr>" by code_simp
  have "map_of (nf_listeners (snd example_session)) 0 \<noteq> None" "0 < length (nf_chans (snd example_session))"
    "ch_buffer (nf_chans (snd example_session) ! 0) = []" by code_simp+
  then have w: "waits example_waiting" using example_sessions(2) by (simp add: waits_def listening_def)
  have len: "length ([] :: subscription list) + 1 < 2 ^ 64" by simp
  note deaf = paged_scan_goes_deaf [OF r len refl example_sessions(1,2) c]
  have n: "NextPage (\<lambda>_. Ok example_page) (se_scan example_waiting) (se_notifier example_waiting) =
      Ok (Some example_page, fst example_turned, snd example_turned)" using example_sessions(3) by simp
  show ?thesis
    using conjunct1 [OF deaf] conjunct2 [OF conjunct2 [OF deaf], rule_format, OF conjI [OF w conjI [OF n]]] by blast
qed

text \<open>C11: If the session is closed while the goroutine handles an event, the goroutine may find no listener when it looks
  for its channel again, which dereferences \<^verbatim>\<open>nil\<close>.\<close>

theorem paged_scan_close_crash:
  assumes "represents n sbs" "length sbs + 1 < 2 ^ 64" "fetch 0 = Ok page" "NewPagedScan fetch lo hi n = Ok (s, n')" "pg_listener s = Some l"
    "concerns e l"
  shows "\<exists>y. session_step\<^sup>*\<^sup>* (fresh_session s n') y \<and> se_watcher y = Crashed"
proof -
  from NewPagedScan_ok [where fetch = fetch and page = page and lo = lo and hi = hi, OF assms(1) _ assms(3)] assms(2,4) obtain sbs' where
    ok: "session_ok s n' sbs'" "length sbs' = Suc (length sbs)" "\<not> pg_stopped s" by auto
  then have len: "length sbs' < 2 ^ 64" using assms(2) by simp
  from event_arrives [OF ok(1) len assms(5,6)] obtain n1 where n1: "notify e n' = Ok n1" "ls_Ch l < length (nf_chans n1)"
    "map_of (nf_listeners n1) (ls_id l) \<noteq> None" "ch_buffer (nf_chans n1 ! ls_Ch l) = [e]" "\<not> ch_closed (nf_chans n1 ! ls_Ch l)" by auto
  let ?n = "popped n1 (ls_Ch l)" and ?s = "s\<lparr>pg_stopped := True, pg_listener := None\<rparr>"
  obtain n2 where "Close s ?n = Ok (?s, n2)"
    using n1(2,3,5) ok(3) assms(5) by (auto simp: Close_def Unsubscribe_def chan_close_def popped_def)
  then have "session_step \<lparr>se_scan = s, se_notifier = ?n, se_watcher = Received\<rparr> \<lparr>se_scan = ?s, se_notifier = n2, se_watcher = Received\<rparr>"
    using s_close [of "\<lparr>se_scan = s, se_notifier = ?n, se_watcher = Received\<rparr>" ?s n2] by simp
  moreover have "session_step \<lparr>se_scan = ?s, se_notifier = n2, se_watcher = Received\<rparr> \<lparr>se_scan = ?s\<lparr>pg_dirty := True\<rparr>, se_notifier = n2, se_watcher = Looping\<rparr>"
    using s_watch [OF w_mark [of "\<lparr>se_scan = ?s, se_notifier = n2, se_watcher = Received\<rparr>"]] by simp
  moreover have "session_step \<lparr>se_scan = ?s\<lparr>pg_dirty := True\<rparr>, se_notifier = n2, se_watcher = Looping\<rparr>
      \<lparr>se_scan = ?s\<lparr>pg_dirty := True\<rparr>, se_notifier = n2, se_watcher = Crashed\<rparr>"
    using s_watch [OF w_nil [of "\<lparr>se_scan = ?s\<lparr>pg_dirty := True\<rparr>, se_notifier = n2, se_watcher = Looping\<rparr>"]] by simp
  ultimately have "session_step\<^sup>*\<^sup>* (fresh_session s n') \<lparr>se_scan = ?s\<lparr>pg_dirty := True\<rparr>, se_notifier = n2, se_watcher = Crashed\<rparr>"
    using receives [OF n1(1,4) assms(5)] rtranclp.rtrancl_into_rtrancl [of session_step] by meson
  then show ?thesis by (intro exI [of _ "\<lparr>se_scan = ?s\<lparr>pg_dirty := True\<rparr>, se_notifier = n2, se_watcher = Crashed\<rparr>"]) simp
qed

theorem paged_scan_close_crash_witness:
  "\<exists>y. session_step\<^sup>*\<^sup>* (fresh_session (fst example_session) (snd example_session)) y \<and>
     se_watcher y = Crashed"
proof -
  have r: "represents NewNotifier []" by (simp add: represents_def NewNotifier_def active_entries_def)
  have c: "concerns \<lparr>ev_Type = EventPut, ev_Key = [2], ev_Value = []\<rparr> \<lparr>ls_id = 0, ls_lower = [1], ls_upper = [3], ls_Ch = 0\<rparr>" by code_simp
  show ?thesis using paged_scan_close_crash [OF r _ _ example_sessions(1,2) c, of example_page] by simp
qed

end
