(* ===== verification/Encoders.thy ===== *)
theory Encoders
  imports Adaptive_Encoder
begin

text \<open>
  The encoder interface and its factory (\<^verbatim>\<open>encoders/encoder_iface.go\<close>, \<^verbatim>\<open>encoders/factory.go\<close>): a value of
  the interface is one of the encoders of \<^verbatim>\<open>Delta_Encoder\<close> and \<^verbatim>\<open>Dict_Encoder\<close>, or nil, on which every
  method panics.

  Shown here as well: what an adaptive encoder wrote while its dictionary was small, read with the dictionary
  as it was later. Decoding works as long as the indices take the same number of bytes.
\<close>

section \<open>The interface\<close>

datatype Encoder = NilEncoder | DeltaBytes DeltaEncoderBytes | DictDelta DictDeltaEncoder

abbreviation NoCompression :: byte where "NoCompression \<equiv> 0"
abbreviation PrefixCompression :: byte where "PrefixCompression \<equiv> 1"
abbreviation DictDeltaCompression :: byte where "DictDeltaCompression \<equiv> 2"

definition nil_deref :: failure where
  "nil_deref = Panic ''invalid memory address or nil pointer dereference''"

definition NewEncoder :: "byte \<Rightarrow> i64 \<Rightarrow> Encoder result" where
  "NewEncoder t restartInterval =
     (if t = NoCompression then Ok NilEncoder
      else if t = PrefixCompression then Ok (DeltaBytes (NewDeltaEncoderBytes restartInterval))
      else if t = DictDeltaCompression then bind_r (NewDictDeltaEncoder restartInterval) (\<lambda>e. Ok (DictDelta e))
      else Ok (DeltaBytes (NewDeltaEncoderBytes restartInterval)))"

fun Encoder_Encode :: "Encoder \<Rightarrow> bytes \<Rightarrow> u32 \<Rightarrow> bytes \<Rightarrow> (bytes \<times> Encoder) result" where
  "Encoder_Encode NilEncoder key off buf = Inl nil_deref"
| "Encoder_Encode (DeltaBytes e) key off buf = Ok (map_prod (\<lambda>b. b) DeltaBytes (DeltaEncoderBytes_Encode e key off buf))"
| "Encoder_Encode (DictDelta e) key off buf = Ok (map_prod (\<lambda>b. b) DictDelta (DictDeltaEncoder_Encode e key off buf))"

fun Encoder_Decode :: "bytes \<Rightarrow> (Encoder \<times> int, bytes) op" where
  "Encoder_Decode buf (NilEncoder, pos) = (Inl nil_deref, (NilEncoder, pos))"
| "Encoder_Decode buf (DeltaBytes e, pos) = map_prod (\<lambda>r. r) (map_prod DeltaBytes (\<lambda>p. p)) (DeltaEncoderBytes_Decode buf (e, pos))"
| "Encoder_Decode buf (DictDelta e, pos) = map_prod (\<lambda>r. r) (map_prod DictDelta (\<lambda>p. p)) (DictDeltaEncoder_Decode buf (e, pos))"

fun Encoder_Reset :: "Encoder \<Rightarrow> Encoder result" where
  "Encoder_Reset NilEncoder = Inl nil_deref"
| "Encoder_Reset (DeltaBytes e) = Ok (DeltaBytes (DeltaEncoderBytes_Reset e))"
| "Encoder_Reset (DictDelta e) = Ok (DictDelta (DictDeltaEncoder_Reset e))"

fun Encoder_RestartArray :: "Encoder \<Rightarrow> u32 list result" where
  "Encoder_RestartArray NilEncoder = Inl nil_deref"
| "Encoder_RestartArray (DeltaBytes e) = Ok (db_restartArray e)"
| "Encoder_RestartArray (DictDelta e) = Ok (di_restartArray (dd_deltaEncoder e))"

fun Encoder_RestartInterval :: "Encoder \<Rightarrow> i64 result" where
  "Encoder_RestartInterval NilEncoder = Inl nil_deref"
| "Encoder_RestartInterval (DeltaBytes e) = Ok (db_restartInterval e)"
| "Encoder_RestartInterval (DictDelta e) = Ok (di_restartInterval (dd_deltaEncoder e))"

lemma NewEncoder_prefix [simp]: "NewEncoder PrefixCompression r = Ok (DeltaBytes (NewDeltaEncoderBytes r))"
  by (simp add: NewEncoder_def)

section \<open>Dictionaries that grow\<close>

text \<open>The bytes an index takes in a dictionary of \<open>n\<close> keys.\<close>

definition index_bytes :: "nat \<Rightarrow> nat" where
  "index_bytes n = (index_width n + 7) div 8"

definition grown :: "AdaptiveEncoder \<Rightarrow> AdaptiveEncoder \<Rightarrow> bool" where
  "grown ade ade' \<longleftrightarrow> adaptive_inv ade \<and> adaptive_inv ade' \<and> length (a_keys ade') \<le> 2 ^ 48 \<and>
     take (length (a_keys ade)) (a_keys ade') = a_keys ade"

lemma grown_length: "grown ade ade' \<Longrightarrow> length (a_keys ade) \<le> length (a_keys ade')"
  unfolding grown_def by (metis length_take min.cobounded2 linear min.absorb1)

lemma AddToDict_keys:
  "\<exists>more. a_keys (snd (Adaptive_AddToDict key ade)) = a_keys ade @ more"
  by (auto simp: Adaptive_AddToDict_def Let_def split: option.split)

lemma grown_AddToDict:
  assumes "grown ade ade'" "length (a_keys (snd (Adaptive_AddToDict key ade'))) \<le> 2 ^ 48"
  shows "grown ade (snd (Adaptive_AddToDict key ade'))"
proof -
  obtain more where "a_keys (snd (Adaptive_AddToDict key ade')) = a_keys ade' @ more"
    using AddToDict_keys [of key ade'] by blast
  with assms grown_length [OF assms(1)] show ?thesis
    by (auto simp: grown_def adaptive_inv_AddToDict)
qed

lemma grown_refl: "adaptive_inv ade \<Longrightarrow> length (a_keys ade) \<le> 2 ^ 48 \<Longrightarrow> grown ade ade"
  by (simp add: grown_def)

lemma take_take_eq: "take m ys = xs \<Longrightarrow> take n zs = ys \<Longrightarrow> m \<le> n \<Longrightarrow> take m zs = xs"
  by (auto simp: min_def)

lemma grown_trans: "grown a b \<Longrightarrow> grown b c \<Longrightarrow> grown a c"
  using grown_length [of a b] unfolding grown_def by (metis take_take_eq)

lemma grown_antimono: "grown a c \<Longrightarrow> grown b c \<Longrightarrow> length (a_keys a) \<le> length (a_keys b) \<Longrightarrow>
    length (a_keys b) \<le> 2 ^ 48 \<Longrightarrow> grown a b"
  unfolding grown_def by (metis min.absorb1 take_take)

lemma adaptive_indexed:
  assumes "adaptive_inv ade" "length (a_keys ade) \<le> 2 ^ 48" "a_dictionary ade v = Some idx"
  obtains i where "i < length (a_keys ade)" "a_keys ade ! i = v" "unat idx = i"
    "1 \<le> index_width (length (a_keys ade))" "index_width (length (a_keys ade)) \<le> 48"
    "a_bitWidth ade = of_nat (index_width (length (a_keys ade)))"
    "unat idx < 2 ^ index_width (length (a_keys ade))"
proof -
  have ixd: "indexed (a_dictionary ade) (a_keys ade)" using assms(1) by (simp add: adaptive_inv_def)
  with assms(3) have "v \<in> set (a_keys ade)" by (auto simp: indexed_def)
  from indexed_lookup [OF ixd this] assms(3) obtain i where
    i: "i < length (a_keys ade)" "a_keys ade ! i = v" "idx = of_nat i" by auto
  have u: "unat idx = i" using i(1,3) assms(2) by (simp add: unsigned_of_nat take_bit_nat_eq_self)
  have "0 < length (a_keys ade)" using i(1) by linarith
  then have "1 \<le> index_width (length (a_keys ade))" "index_width (length (a_keys ade)) \<le> 48"
    using assms(2) by (auto intro: index_width_bounds simp del: One_nat_def)
  moreover have "unat idx < 2 ^ index_width (length (a_keys ade))"
    using index_width_bounds(1) [of "length (a_keys ade)"] i(1) u by linarith
  ultimately show thesis using that [OF i(1,2) u] assms(1) by (simp add: adaptive_inv_def)
qed

lemma Adaptive_Encode_Some:
  assumes "adaptive_inv ade" "length (a_keys ade) \<le> 2 ^ 48" "a_dictionary ade v = Some idx"
  shows "Adaptive_Encode ade v = Ok (1 # put_le (index_bytes (length (a_keys ade))) idx)"
proof -
  from adaptive_indexed [OF assms] obtain i where
    "1 \<le> index_width (length (a_keys ade))" "index_width (length (a_keys ade)) \<le> 48"
    "a_bitWidth ade = of_nat (index_width (length (a_keys ade)))"
    "unat idx < 2 ^ index_width (length (a_keys ade))" .
  from pack_index_eq [OF this, of "\<lambda>i. 8 * i"] show ?thesis
    by (simp add: Adaptive_Encode_def assms(3) index_bytes_def)
qed

text \<open>What is stored for a value: itself, or an index of the bytes the dictionary needs at that moment.\<close>

lemma Adaptive_Encode_cases:
  assumes "adaptive_inv ade" "length (a_keys ade) \<le> 2 ^ 48"
  obtains "Adaptive_Encode ade v = Ok (0 # v)"
  | idx where "a_dictionary ade v = Some idx"
      "Adaptive_Encode ade v = Ok (1 # put_le (index_bytes (length (a_keys ade))) idx)"
      "index_bytes (length (a_keys ade)) \<le> 6"
proof (cases "a_dictionary ade v")
  case None
  then show thesis by (intro that(1)) (simp add: Adaptive_Encode_def)
next
  case (Some idx)
  from adaptive_indexed [OF assms Some] have "index_width (length (a_keys ade)) \<le> 48" .
  then have "index_bytes (length (a_keys ade)) \<le> 6" unfolding index_bytes_def by linarith
  with Adaptive_Encode_Some [OF assms Some] Some show thesis by (intro that(2)) auto
qed

lemma grown_decode:
  assumes g: "grown ade ade'" and same: "index_bytes (length (a_keys ade')) = index_bytes (length (a_keys ade))"
    and e: "Adaptive_Encode ade v = Ok e"
  shows "Adaptive_Decode ade' e = Ok v"
proof (cases "a_dictionary ade v")
  case None
  with e show ?thesis by (auto simp: Adaptive_Encode_def Adaptive_Decode_def)
next
  case (Some idx)
  let ?n = "length (a_keys ade')"
  have inv: "adaptive_inv ade" "adaptive_inv ade'" "?n \<le> 2 ^ 48" "length (a_keys ade) \<le> 2 ^ 48"
    using g grown_length [OF g] by (auto simp: grown_def)
  from adaptive_indexed [OF inv(1,4) Some] obtain i where
    i: "i < length (a_keys ade)" "a_keys ade ! i = v" "unat idx = i" .
  have i': "i < ?n" "a_keys ade' ! i = v"
    using i(1,2) grown_length [OF g] g by (auto simp: grown_def) (metis nth_take)
  have pos: "0 < ?n" using i'(1) by linarith
  have k: "1 \<le> index_width ?n" "index_width ?n \<le> 48" "a_bitWidth ade' = of_nat (index_width ?n)"
    using inv(2,3) pos by (auto simp: adaptive_inv_def intro: index_width_bounds simp del: One_nat_def)
  have lt: "unat idx < 2 ^ index_width ?n"
    using index_width_bounds(1) [of ?n] i'(1) i(3) by linarith
  have e': "e = 1 # put_le (index_bytes ?n) idx"
    using Adaptive_Encode_Some [OF inv(1,4) Some] e same by simp
  have "\<not> of_nat ?n \<le> idx"
    using i'(1) i(3) inv(3) by (simp add: word_le_nat_alt unsigned_of_nat take_bit_nat_eq_self)
  then show ?thesis
    using unpack_index_pack [OF k lt, of _ "[]"] i(3) i'(2)
    by (simp add: e' Adaptive_Decode_def Let_def pack_sizes(2) [OF k] index_bytes_def)
qed

text \<open>Once indices take more bytes, what was stored before is too short to be read.\<close>

lemma outgrown_decode:
  assumes g: "grown ade ade'" and more: "index_bytes (length (a_keys ade)) < index_bytes (length (a_keys ade'))"
    and e: "Adaptive_Encode ade v = Ok e" and dict: "a_dictionary ade v = Some idx"
  shows "Adaptive_Decode ade' e = Inl (Error ''encoded too short'')"
proof -
  let ?n = "length (a_keys ade')"
  have inv: "adaptive_inv ade" "adaptive_inv ade'" "?n \<le> 2 ^ 48" "length (a_keys ade) \<le> 2 ^ 48"
    using g grown_length [OF g] by (auto simp: grown_def)
  have e': "e = 1 # put_le (index_bytes (length (a_keys ade))) idx"
    using Adaptive_Encode_Some [OF inv(1,4) dict] e by simp
  have pos: "0 < ?n" using more by (cases ?n) (auto simp: index_bytes_def index_width_def)
  have k: "1 \<le> index_width ?n" "index_width ?n \<le> 48" "a_bitWidth ade' = of_nat (index_width ?n)"
    using inv(2,3) pos by (auto simp: adaptive_inv_def intro: index_width_bounds simp del: One_nat_def)
  show ?thesis
    using more by (simp add: e' Adaptive_Decode_def Let_def pack_sizes(2) [OF k] index_bytes_def)
qed

lemma bits_Len_mono: "a \<le> b \<Longrightarrow> bits_Len a \<le> bits_Len b"
  by (rule bits_Len_le) (meson bits_Len_bounds(1) le_less_trans)

lemma index_bytes_small: "0 < n \<Longrightarrow> n \<le> 256 \<Longrightarrow> index_bytes n = 1"
proof -
  assume n: "0 < n" "n \<le> 256"
  have "index_width n \<le> 8" using n bits_Len_le [of "n - 1" 8] by (auto simp: index_width_def)
  moreover have "1 \<le> index_width n" using n by (intro index_width_bounds)
  ultimately show "index_bytes n = 1" unfolding index_bytes_def by linarith
qed

lemma index_bytes_large: "256 < n \<Longrightarrow> 2 \<le> index_bytes n"
proof -
  assume n: "256 < n"
  then have "(256::nat) < 2 ^ index_width n" using index_width_bounds(1) [of n] by linarith
  then have "(2::nat) ^ 8 < 2 ^ index_width n" by simp
  then have "8 < index_width n" by (rule power_less_imp_less_exp [rotated]) simp
  then show "2 \<le> index_bytes n" unfolding index_bytes_def by linarith
qed

end
