(* ===== verification/Data_Block.thy ===== *)
theory Data_Block
  imports Encoders Bit_Set "HOL-Library.Signed_Division"
begin

text \<open>
  Data blocks of an SSTable (\<^verbatim>\<open>sstable/data.go\<close>, \<^verbatim>\<open>sstable/record.go\<close>): the builder that appends records, with
  keys delta-encoded and values replaced by an index when they are in the dictionary, the layout with restart
  offsets, bitmap and checksum, and the reader of a block.

  A value too long for a block is stored in chunks: the first with the header and the key, the others with value
  bytes only. The bitmap has a bit for every chunk, the restart array an offset for every \<open>restartInterval\<close>-th key.

  The builder shares its \<^verbatim>\<open>AdaptiveEncoder\<close> with the writer of the table; it is a part of the builder's
  state, and nothing else changes it. Positions in a block are Go's \<^verbatim>\<open>int\<close>.
\<close>

section \<open>Records\<close>

record DataRecord =
  dr_SeqId :: u64
  dr_OpType :: OpType
  dr_ExpiresAt :: i64
  dr_Key :: bytes
  dr_Value :: bytes
  dr_ChunkType :: byte

abbreviation ChunkTypeFull :: byte where "ChunkTypeFull \<equiv> 0"
abbreviation ChunkTypeFirst :: byte where "ChunkTypeFirst \<equiv> 1"
abbreviation ChunkTypeMiddle :: byte where "ChunkTypeMiddle \<equiv> 2"
abbreviation ChunkTypeLast :: byte where "ChunkTypeLast \<equiv> 3"

section \<open>The builder\<close>

record DataBlockBuilder =
  bb_encoder :: Encoder
  bb_valueEncoder :: AdaptiveEncoder
  bb_data :: bytes
  bb_restartInterval :: int
  bb_blockSize :: int
  bb_recordCount :: nat
  bb_firstKey :: "bytes option"
  bb_lastKey :: bytes
  bb_isEncodedBits :: BitSet

definition NewDataBlockBuilder :: "byte \<Rightarrow> int \<Rightarrow> int \<Rightarrow> AdaptiveEncoder \<Rightarrow> DataBlockBuilder result" where
  "NewDataBlockBuilder t restartInterval blockSize valueEncoder =
     bind_r (NewEncoder t (of_int restartInterval)) (\<lambda>enc.
     if blockSize < 0 \<or> int max_alloc \<le> blockSize then Inl (Panic ''makeslice: cap out of range'')
     else Ok \<lparr>bb_encoder = enc, bb_valueEncoder = valueEncoder, bb_data = [], bb_restartInterval = restartInterval,
            bb_blockSize = blockSize, bb_recordCount = 0, bb_firstKey = None, bb_lastKey = [],
            bb_isEncodedBits = NewBitSet 0\<rparr>)"

text \<open>Go's integer division.\<close>

definition go_div :: "int \<Rightarrow> int \<Rightarrow> int result" where
  "go_div a b = (if b = 0 then Inl (Panic ''integer divide by zero'') else Ok (a sdiv b))"

text \<open>
  Both methods that take a key first note it. Copying an empty key with \<^verbatim>\<open>append([]byte(nil), key...)\<close> gives nil,
  so such a key does not count as the first one.
\<close>

definition note_key :: "bytes \<Rightarrow> DataBlockBuilder \<Rightarrow> DataBlockBuilder" where
  "note_key key b =
     b\<lparr>bb_firstKey := (case bb_firstKey b of Some k \<Rightarrow> Some k | None \<Rightarrow> if key = [] then None else Some key),
       bb_lastKey := key\<rparr>"

definition restart_space :: "DataBlockBuilder \<Rightarrow> int result" where
  "restart_space b = bind_r (go_div (int (bb_recordCount b)) (bb_restartInterval b)) (\<lambda>q. Ok ((q + 1) * 4))"

text \<open>The chunk type, sequence number, expiry and operation, and the encoded key.\<close>

definition append_header :: "byte \<Rightarrow> DataRecord \<Rightarrow> DataBlockBuilder \<Rightarrow> DataBlockBuilder result" where
  "append_header chunkType rec b =
     (let keyOffset = of_nat (length (bb_data b));
          data = bb_data b @ [chunkType] @ put_uvarint (dr_SeqId rec) @ put_u64 (dr_ExpiresAt rec) @ [dr_OpType rec]
      in bind_r (Encoder_Encode (bb_encoder b) (dr_Key rec) keyOffset data) (\<lambda>(data, enc).
         Ok (b\<lparr>bb_data := data, bb_encoder := enc\<rparr>)))"

definition append_value :: "bytes \<Rightarrow> DataBlockBuilder \<Rightarrow> DataBlockBuilder" where
  "append_value v b = b\<lparr>bb_data := bb_data b @ put_uvarint (of_nat (length v)) @ v, bb_recordCount := bb_recordCount b + 1\<rparr>"

definition Builder_AddRecord :: "DataRecord \<Rightarrow> DataBlockBuilder \<Rightarrow> (bool \<times> DataBlockBuilder) result" where
  "Builder_AddRecord rec b =
     (let b = note_key (dr_Key rec) b;
          estimatedSize = 1 + int (length (dr_Key rec)) * 2 + int (length (dr_Value rec)) + 32 + 8;
          bitmapSize = int (bb_recordCount b) div 8 + 1
      in bind_r (restart_space b) (\<lambda>restarts.
         let reserved = 12 + restarts + bitmapSize in
         if bb_blockSize b < int (length (bb_data b)) + estimatedSize + reserved then Ok (False, b)
         else
           let b = b\<lparr>bb_valueEncoder := snd (Adaptive_AddToDict (dr_Value rec) (bb_valueEncoder b))\<rparr> in
           bind_r (append_header ChunkTypeFull rec b) (\<lambda>b.
           bind_r (Adaptive_Encode (bb_valueEncoder b) (dr_Value rec)) (\<lambda>encodedValue.
           case encodedValue of
             [] \<Rightarrow> Inl (Panic ''index out of range'')
           | isEncoded # stored \<Rightarrow>
               let b = (if isEncoded = 1
                        then b\<lparr>bb_isEncodedBits := BitSet_Set (bb_isEncodedBits b) (bb_recordCount b)\<rparr> else b)
               in Ok (True, append_value stored b)))))"

definition Builder_AddFirstChunk :: "DataRecord \<Rightarrow> bytes \<Rightarrow> DataBlockBuilder \<Rightarrow> (bool \<times> DataBlockBuilder) result" where
  "Builder_AddFirstChunk rec valueChunk b =
     (let b = note_key (dr_Key rec) b;
          estimatedSize = 1 + int (length (dr_Key rec)) * 2 + int (length valueChunk) + 32 + 8
      in bind_r (restart_space b) (\<lambda>restarts.
         let reserved = 12 + restarts in
         if bb_blockSize b < int (length (bb_data b)) + estimatedSize + reserved then Ok (False, b)
         else bind_r (append_header ChunkTypeFirst rec b) (\<lambda>b. Ok (True, append_value valueChunk b))))"

definition Builder_AddContinuationChunk :: "byte \<Rightarrow> bytes \<Rightarrow> DataBlockBuilder \<Rightarrow> (bool \<times> DataBlockBuilder) result" where
  "Builder_AddContinuationChunk chunkType valueChunk b =
     (let estimatedSize = 1 + 10 + int (length valueChunk)
      in bind_r (restart_space b) (\<lambda>restarts.
         let reserved = 12 + restarts in
         if bb_blockSize b < int (length (bb_data b)) + estimatedSize + reserved then Ok (False, b)
         else Ok (True, append_value valueChunk (b\<lparr>bb_data := bb_data b @ [chunkType]\<rparr>))))"

text \<open>
  The block: data and restart offsets from the start, the other fields from the end.
\<close>

fun put_restarts :: "u32 list \<Rightarrow> nat \<Rightarrow> bytes \<Rightarrow> bytes result" where
  "put_restarts [] pos block = Ok block"
| "put_restarts (r # rs) pos block = bind_r (put_at block pos (put_u32 r)) (put_restarts rs (pos + 4))"

definition Builder_Finish :: "int \<Rightarrow> DataBlockBuilder \<Rightarrow> bytes result" where
  "Builder_Finish blockSize b =
     (if bb_recordCount b = 0 then Inl (Error ''empty block'')
      else
        let data = bb_data b in
        bind_r (Encoder_RestartArray (bb_encoder b)) (\<lambda>restarts.
        let restartCount = (of_nat (length restarts) :: u32);
            isEncodedData = BitSet_Encode (bb_isEncodedBits b);
            isEncodedSize = (of_nat (length isEncodedData) :: u16)
        in bind_r (make_len (of_int blockSize)) (\<lambda>block.
        if blockSize < int (length data) + uint restartCount * 4 + 4 + 4 + 4 + uint isEncodedSize + 4
        then Inl (Error ''data for block too large'')
        else
          let crcPos = nat blockSize - 4;
              isEncodedSizePos = crcPos - 2;
              isEncodedPos = isEncodedSizePos - unat isEncodedSize;
              restartCountPos = isEncodedPos - 4;
              dataSizePos = restartCountPos - 4
          in bind_r (copy_at block 0 data) (\<lambda>block.
             bind_r (put_restarts restarts (length data) block) (\<lambda>block.
             bind_r (put_at block dataSizePos (put_u32 (of_nat (length data)))) (\<lambda>block.
             bind_r (put_at block restartCountPos (put_u32 restartCount)) (\<lambda>block.
             bind_r (copy_at block isEncodedPos isEncodedData) (\<lambda>block.
             bind_r (put_at block isEncodedSizePos (put_u16 isEncodedSize)) (\<lambda>block.
             put_at block crcPos (put_u32 (crc32_ChecksumIEEE (take crcPos block))))))))))))"

definition Builder_Reset :: "DataBlockBuilder \<Rightarrow> DataBlockBuilder result" where
  "Builder_Reset b =
     bind_r (Encoder_Reset (bb_encoder b)) (\<lambda>enc.
     Ok (b\<lparr>bb_data := [], bb_encoder := enc, bb_recordCount := 0, bb_firstKey := None, bb_isEncodedBits := NewBitSet 0\<rparr>))"

section \<open>The reader\<close>

record DataBlockReader =
  rd_data :: bytes
  rd_decoder :: Encoder
  rd_valueDecoder :: AdaptiveEncoder
  rd_restartArray :: "u32 list"
  rd_pos :: int
  rd_dataSize :: int
  rd_isEncodedBits :: BitSet
  rd_recordIdx :: int

definition slice_u32 :: "bytes \<Rightarrow> int \<Rightarrow> u32 result" where
  "slice_u32 block pos = bind_r (go_slice block pos (pos + 4)) (\<lambda>s. Ok (get_le s))"

fun read_restarts :: "bytes \<Rightarrow> int \<Rightarrow> nat \<Rightarrow> u32 list result" where
  "read_restarts block pos 0 = Ok []"
| "read_restarts block pos (Suc n) =
     bind_r (slice_u32 block pos) (\<lambda>r. bind_r (read_restarts block (pos + 4) n) (\<lambda>rs. Ok (r # rs)))"

definition NewDataBlockReader :: "bytes \<Rightarrow> int \<Rightarrow> byte \<Rightarrow> AdaptiveEncoder \<Rightarrow> DataBlockReader result" where
  "NewDataBlockReader block restartInterval encodingType valueDecoder =
     (if length block < 12 then Inl (Error ''block too small'')
      else
        let blockSize = int (length block);
            crcPos = blockSize - 4;
            isEncodedSizePos = blockSize - 6
        in bind_r (read_u32 block (nat crcPos)) (\<lambda>expectedCRC.
        if expectedCRC \<noteq> crc32_ChecksumIEEE (take (nat crcPos) block) then Inl (Error ''CRC mismatch right here'')
        else
        bind_r (read_u16 block (nat isEncodedSizePos)) (\<lambda>isEncodedSize.
        let isEncodedBitmapPos = isEncodedSizePos - uint isEncodedSize;
            restartCountPos = isEncodedBitmapPos - 4;
            dataSizePos = restartCountPos - 4
        in bind_r (slice_u32 block dataSizePos) (\<lambda>dataSize.
           bind_r (slice_u32 block restartCountPos) (\<lambda>restartCount.
           bind_r (read_restarts block (uint dataSize) (unat restartCount)) (\<lambda>restartArray.
           bind_r (if 0 < isEncodedSize
                   then bind_r (go_slice block isEncodedBitmapPos (isEncodedBitmapPos + uint isEncodedSize)) (\<lambda>bm. Ok (DecodeBitSet bm))
                   else Ok (NewBitSet 0)) (\<lambda>isEncodedBits.
           bind_r (go_slice block 0 (uint dataSize)) (\<lambda>data.
           bind_r (NewEncoder encodingType (of_int restartInterval)) (\<lambda>decoder.
           Ok \<lparr>rd_data = data, rd_decoder = decoder, rd_valueDecoder = valueDecoder, rd_restartArray = restartArray,
               rd_pos = 0, rd_dataSize = uint dataSize, rd_isEncodedBits = isEncodedBits, rd_recordIdx = 0\<rparr>)))))))))"

definition Reader_Restart :: "DataBlockReader \<Rightarrow> DataBlockReader" where
  "Reader_Restart r = r\<lparr>rd_pos := 0\<rparr>"

definition Reader_HasNext :: "DataBlockReader \<Rightarrow> bool" where
  "Reader_HasNext r \<longleftrightarrow> rd_pos r < rd_dataSize r"

text \<open>
  The steps of \<^verbatim>\<open>ReadRecord\<close>: an operation of the decoder at the reader's position, a check, one byte, and
  a number of bytes.
\<close>

definition at_pos :: "(bytes \<Rightarrow> (Encoder \<times> int, 'a) op) \<Rightarrow> (DataBlockReader, 'a) op" where
  "at_pos m r = (case m (rd_data r) (rd_decoder r, rd_pos r) of
     (res, (dec, pos)) \<Rightarrow> (res, r\<lparr>rd_decoder := dec, rd_pos := pos\<rparr>))"

definition fail_if :: "('s \<Rightarrow> bool) \<Rightarrow> failure \<Rightarrow> ('s, unit) op" where
  "fail_if P e s = (if P s then (Inl e, s) else (Ok (), s))"

definition peek_byte :: "(DataBlockReader, byte) op" where
  "peek_byte r = (if 0 \<le> rd_pos r \<and> rd_pos r < int (length (rd_data r)) then (Ok (rd_data r ! nat (rd_pos r)), r)
     else (Inl (Panic ''index out of range''), r))"

definition skip_pos :: "int \<Rightarrow> (DataBlockReader, unit) op" where
  "skip_pos n r = (Ok (), r\<lparr>rd_pos := go_int (rd_pos r + n)\<rparr>)"

definition take_pos :: "u64 \<Rightarrow> (DataBlockReader, bytes) op" where
  "take_pos n r = (case go_slice (rd_data r) (rd_pos r) (go_int (rd_pos r + u64_int n)) of
       Inl e \<Rightarrow> (Inl e, r)
     | Inr v \<Rightarrow> (Ok v, r\<lparr>rd_pos := go_int (rd_pos r + u64_int n)\<rparr>))"

definition read_expiry :: "(DataBlockReader, i64) op" where
  "read_expiry r = (if 0 \<le> rd_pos r then (read_u64 (rd_data r) (nat (rd_pos r)), r)
     else (Inl (Panic ''slice bounds out of range''), r))"

definition count_record :: "(DataBlockReader, unit) op" where
  "count_record r = (Ok (), r\<lparr>rd_recordIdx := rd_recordIdx r + 1\<rparr>)"

definition read_continuation :: "byte \<Rightarrow> (DataBlockReader, DataRecord) op" where
  "read_continuation chunkType =
     bind_s (at_pos (next_uvarint ''invalid continuation chunk value size'')) (\<lambda>valLen.
     bind_s (fail_if (\<lambda>r. rd_dataSize r < go_int (rd_pos r + u64_int valLen)) (Error ''continuation chunk exceeds block bounds'')) (\<lambda>_.
     bind_s (take_pos valLen) (\<lambda>val.
     bind_s count_record (\<lambda>_.
     ret_s \<lparr>dr_SeqId = 0, dr_OpType = 0, dr_ExpiresAt = 0, dr_Key = [], dr_Value = val, dr_ChunkType = chunkType\<rparr>))))"

definition decode_value :: "bytes \<Rightarrow> bool \<Rightarrow> (DataBlockReader, bytes) op" where
  "decode_value rawValue isEncoded r =
     (if isEncoded then (Adaptive_Decode (rd_valueDecoder r) (1 # rawValue), r) else (Ok rawValue, r))"

text \<open>\<^verbatim>\<open>r.isEncodedBits.Get(r.recordIdx)\<close>, looked up before the value is read.\<close>

definition encoded_bit :: "(DataBlockReader, bool) op" where
  "encoded_bit r = (Ok (BitSet_Get (rd_isEncodedBits r) (nat (rd_recordIdx r))), r)"

definition read_keyed :: "byte \<Rightarrow> (DataBlockReader, DataRecord) op" where
  "read_keyed chunkType =
     bind_s (at_pos (next_uvarint ''invalid seqId'')) (\<lambda>seqId.
     bind_s (fail_if (\<lambda>r. rd_dataSize r < go_int (rd_pos r + 8)) (Error ''unexpected end reading expiresAt'')) (\<lambda>_.
     bind_s read_expiry (\<lambda>expiresAt.
     bind_s (skip_pos 8) (\<lambda>_.
     bind_s (fail_if (\<lambda>r. rd_dataSize r \<le> rd_pos r) (Error ''unexpected end reading opType'')) (\<lambda>_.
     bind_s peek_byte (\<lambda>opType.
     bind_s (fail_if (\<lambda>r. 3 < opType) (Error ''invalid opType'')) (\<lambda>_.
     bind_s (skip_pos 1) (\<lambda>_.
     bind_s (fail_if (\<lambda>r. rd_dataSize r \<le> rd_pos r) (Error ''unexpected end reading key'')) (\<lambda>_.
     bind_s (at_pos Encoder_Decode) (\<lambda>key.
     bind_s (at_pos (next_uvarint ''invalid value size'')) (\<lambda>valLen.
     bind_s (fail_if (\<lambda>r. int (length (rd_data r)) < go_int (rd_pos r + u64_int valLen)) (Error ''value exceeds block bounds'')) (\<lambda>_.
     bind_s encoded_bit (\<lambda>isEncoded.
     bind_s (take_pos valLen) (\<lambda>rawValue.
     bind_s (decode_value rawValue isEncoded) (\<lambda>val.
     bind_s count_record (\<lambda>_.
     ret_s \<lparr>dr_SeqId = seqId, dr_OpType = opType, dr_ExpiresAt = expiresAt, dr_Key = key, dr_Value = val,
       dr_ChunkType = chunkType\<rparr>))))))))))))))))"

definition Reader_ReadRecord :: "(DataBlockReader, DataRecord) op" where
  "Reader_ReadRecord =
     bind_s (fail_if (\<lambda>r. rd_dataSize r \<le> rd_pos r) (Error ''out of data'')) (\<lambda>_.
     bind_s peek_byte (\<lambda>chunkType.
     bind_s (skip_pos 1) (\<lambda>_.
     if chunkType = ChunkTypeMiddle \<or> chunkType = ChunkTypeLast then read_continuation chunkType
     else read_keyed chunkType)))"

definition Reader_SeekToRestart :: "int \<Rightarrow> (DataBlockReader, unit) op" where
  "Reader_SeekToRestart idx r =
     (if idx = 0 \<and> rd_restartArray r = [] then
        (case Encoder_Reset (rd_decoder r) of
           Inl e \<Rightarrow> (Inl e, r\<lparr>rd_pos := 0\<rparr>)
         | Inr dec \<Rightarrow> (Ok (), r\<lparr>rd_pos := 0, rd_decoder := dec, rd_recordIdx := 0\<rparr>))
      else if idx < 0 \<or> int (length (rd_restartArray r)) \<le> idx then (Inl (Error ''invalid restart index''), r)
      else
        let r = r\<lparr>rd_pos := uint (rd_restartArray r ! nat idx)\<rparr> in
        case bind_r (Encoder_Reset (rd_decoder r)) (\<lambda>dec. bind_r (Encoder_RestartInterval dec) (\<lambda>ri. Ok (dec, ri))) of
          Inl e \<Rightarrow> (Inl e, r)
        | Inr (dec, ri) \<Rightarrow> (Ok (), r\<lparr>rd_decoder := dec, rd_recordIdx := go_int (idx * u64_int ri)\<rparr>))"

section \<open>The chunks of a block\<close>

text \<open>
  What the data section is made of: a record with the bytes stored for its value and whether they are an index, or
  the bytes of a continuation chunk.
\<close>

datatype block_item = Keyed DataRecord bytes bool | Cont byte bytes

definition header_bytes :: "DataRecord \<Rightarrow> bytes" where
  "header_bytes rec = dr_ChunkType rec # put_uvarint (dr_SeqId rec) @ put_u64 (dr_ExpiresAt rec) @ [dr_OpType rec]"

definition value_bytes :: "bytes \<Rightarrow> bytes" where
  "value_bytes v = put_uvarint (of_nat (length v)) @ v"

fun item_enc :: "DeltaEncoderBytes \<Rightarrow> u32 \<Rightarrow> block_item \<Rightarrow> bytes \<times> DeltaEncoderBytes" where
  "item_enc s off (Keyed rec stored flag) =
     (header_bytes rec @ fst (bytes_enc s (dr_Key rec, off) []) @ value_bytes stored, snd (bytes_enc s (dr_Key rec, off) []))"
| "item_enc s off (Cont t v) = (t # value_bytes v, s)"

fun items_enc :: "DeltaEncoderBytes \<Rightarrow> nat \<Rightarrow> block_item list \<Rightarrow> bytes \<times> DeltaEncoderBytes" where
  "items_enc s n [] = ([], s)"
| "items_enc s n (x # xs) =
     (let (out, s') = item_enc s (of_nat n) x; (outs, s'') = items_enc s' (n + length out) xs in (out @ outs, s''))"

fun item_record :: "block_item \<Rightarrow> DataRecord" where
  "item_record (Keyed rec stored flag) = rec"
| "item_record (Cont t v) =
     \<lparr>dr_SeqId = 0, dr_OpType = 0, dr_ExpiresAt = 0, dr_Key = [], dr_Value = v, dr_ChunkType = t\<rparr>"

fun item_flag :: "block_item \<Rightarrow> bool" where
  "item_flag (Keyed rec stored flag) = flag"
| "item_flag (Cont t v) = False"

fun keyed :: "block_item \<Rightarrow> bool" where
  "keyed (Keyed rec stored flag) = True"
| "keyed (Cont t v) = False"

text \<open>An item that a reader with the given dictionary returns as it was.\<close>

fun readable :: "AdaptiveEncoder \<Rightarrow> block_item \<Rightarrow> bool" where
  "readable dec (Keyed rec stored flag) \<longleftrightarrow>
     dr_ChunkType rec \<in> {ChunkTypeFull, ChunkTypeFirst} \<and> dr_OpType rec \<le> 3 \<and> slice_ok (dr_Key rec) \<and>
     (if flag then Adaptive_Decode dec (1 # stored) = Ok (dr_Value rec) else stored = dr_Value rec)"
| "readable dec (Cont t v) \<longleftrightarrow> t \<in> {ChunkTypeMiddle, ChunkTypeLast}"

section \<open>Reading an item\<close>

definition reader_at :: "bytes \<Rightarrow> AdaptiveEncoder \<Rightarrow> u32 list \<Rightarrow> BitSet \<Rightarrow> DeltaEncoderBytes \<Rightarrow> nat \<Rightarrow> nat \<Rightarrow> DataBlockReader" where
  "reader_at D dec ra bits t p i =
     \<lparr>rd_data = D, rd_decoder = DeltaBytes t, rd_valueDecoder = dec, rd_restartArray = ra, rd_pos = int p,
      rd_dataSize = int (length D), rd_isEncodedBits = bits, rd_recordIdx = int i\<rparr>"

lemma reader_at_fields [simp]:
  "rd_data (reader_at D dec ra bits t p i) = D" "rd_decoder (reader_at D dec ra bits t p i) = DeltaBytes t"
  "rd_valueDecoder (reader_at D dec ra bits t p i) = dec" "rd_restartArray (reader_at D dec ra bits t p i) = ra"
  "rd_pos (reader_at D dec ra bits t p i) = int p" "rd_dataSize (reader_at D dec ra bits t p i) = int (length D)"
  "rd_isEncodedBits (reader_at D dec ra bits t p i) = bits" "rd_recordIdx (reader_at D dec ra bits t p i) = int i"
  by (simp_all add: reader_at_def)

lemma read_uvarint_at:
  assumes "D = pre @ put_uvarint x @ post" "slice_ok D" "p = length pre" "q = p + length (put_uvarint x)"
  shows "at_pos (next_uvarint msg) (reader_at D dec ra bits t p i) = (Ok x, reader_at D dec ra bits t q i)"
  using next_uvarint_at [of pre x post msg "DeltaBytes t"] assms by (simp add: at_pos_def reader_at_def)

lemma skip_pos_at:
  "q = p + nat n \<Longrightarrow> 0 \<le> n \<Longrightarrow> q < 2 ^ 48 \<Longrightarrow> skip_pos n (reader_at D dec ra bits t p i) = (Ok (), reader_at D dec ra bits t q i)"
  by (simp add: skip_pos_def reader_at_def go_int_small)

lemma peek_byte_at:
  "D = pre @ b # post \<Longrightarrow> p = length pre \<Longrightarrow> peek_byte (reader_at D dec ra bits t p i) = (Ok b, reader_at D dec ra bits t p i)"
  by (simp add: peek_byte_def)

lemma read_expiry_at:
  "D = pre @ put_u64 x @ post \<Longrightarrow> p = length pre \<Longrightarrow> read_expiry (reader_at D dec ra bits t p i) = (Ok x, reader_at D dec ra bits t p i)"
  by (simp add: read_expiry_def read_put_u64)

lemma take_pos_at:
  assumes "D = pre @ v @ post" "slice_ok D" "p = length pre" "q = p + length v"
  shows "take_pos (of_nat (length v)) (reader_at D dec ra bits t p i) = (Ok v, reader_at D dec ra bits t q i)"
proof -
  have q: "int q < 2 ^ 48" and v: "length v < 2 ^ 63" using slice_ok_lt [OF assms(2)] assms(1,3,4) by simp_all
  have g: "go_int (int p + u64_int (of_nat (length v))) = int q"
    using u64_int_of_nat [OF v] q assms(4) by (simp add: go_int_small)
  have "go_slice D (int p) (int q) = Ok v"
    unfolding assms(1) by (rule go_slice_middle) (simp_all add: assms(3,4))
  then show ?thesis by (simp add: take_pos_def g reader_at_def)
qed

lemma fail_if_at: "\<not> P s \<Longrightarrow> fail_if P e s = (Ok (), s)"
  by (simp add: fail_if_def)

lemma value_fits:
  assumes "D = pre @ v @ post" "slice_ok D"
  shows "\<not> int (length D) < go_int (int (length pre) + u64_int (of_nat (length v)))"
proof -
  have "int (length pre + length v) < 2 ^ 48" "length v < 2 ^ 63" using slice_ok_lt [OF assms(2)] assms(1) by simp_all
  then show ?thesis using assms(1) u64_int_of_nat [of "length v"] by (simp add: go_int_small)
qed

lemma count_record_at: "count_record (reader_at D dec ra bits t p i) = (Ok (), reader_at D dec ra bits t p (Suc i))"
  by (simp add: count_record_def reader_at_def add.commute)

lemma read_key_at:
  assumes "bytes_sim s t" "slice_ok key" "D = pre @ fst (bytes_enc s (key, off) []) @ post" "slice_ok D" "p = length pre"
  shows "\<exists>t'. at_pos Encoder_Decode (reader_at D dec ra bits t p i) =
      (Ok key, reader_at D dec ra bits t' (p + length (fst (bytes_enc s (key, off) []))) i) \<and>
    bytes_sim (snd (bytes_enc s (key, off) [])) t'"
proof -
  from delta_bytes.dec_enc [OF assms(1), of "(key, off)" pre post] assms(2-4) obtain t' where
    "DeltaEncoderBytes_Decode D (t, int (length pre)) =
      (Ok key, (t', int (length pre) + int (length (fst (bytes_enc s (key, off) [])))))"
    "bytes_sim (snd (bytes_enc s (key, off) [])) t'" by auto
  then show ?thesis
    by (intro exI [of _ t']) (simp add: at_pos_def assms(5) reader_at_def)
qed

lemma with_value:
  "\<lparr>dr_SeqId = dr_SeqId rec, dr_OpType = dr_OpType rec, dr_ExpiresAt = dr_ExpiresAt rec, dr_Key = dr_Key rec, dr_Value = v,
     dr_ChunkType = dr_ChunkType rec\<rparr> = rec\<lparr>dr_Value := v\<rparr>"
  by (cases rec) simp

lemma read_keyed_cases:
  assumes sim: "bytes_sim s t" and rd: "dr_OpType rec \<le> 3" "slice_ok (dr_Key rec)"
    and D: "D = pre @ fst (item_enc s off (Keyed rec stored flag)) @ post" and ok: "slice_ok D"
    and bit: "BitSet_Get bits i = flag" and p: "p = Suc (length pre)"
  shows "\<exists>t'. read_keyed (dr_ChunkType rec) (reader_at D dec ra bits t p i) =
      (let q = length pre + length (fst (item_enc s off (Keyed rec stored flag))) in
       case if flag then Adaptive_Decode dec (1 # stored) else Ok stored of
         Inl e \<Rightarrow> (Inl e, reader_at D dec ra bits t' q i)
       | Inr v \<Rightarrow> (Ok (rec\<lparr>dr_Value := v\<rparr>), reader_at D dec ra bits t' q (Suc i))) \<and>
    bytes_sim (snd (item_enc s off (Keyed rec stored flag))) t'"
proof -
  define k where "k = fst (bytes_enc s (dr_Key rec, off) [])"
  define a where "a = put_uvarint (dr_SeqId rec)"
  define p1 where "p1 = p + length a"
  define p2 where "p2 = p1 + 8"
  define p3 where "p3 = Suc p2"
  define p4 where "p4 = p3 + length k"
  define p5 where "p5 = p4 + length (put_uvarint (of_nat (length stored)))"
  define p6 where "p6 = p5 + length stored"
  let ?v = "put_uvarint (of_nat (length stored))"
  let ?h = "pre @ [dr_ChunkType rec]"
  have D1: "D = ?h @ a @ put_u64 (dr_ExpiresAt rec) @ dr_OpType rec # k @ ?v @ stored @ post"
    using D by (simp add: header_bytes_def value_bytes_def k_def a_def)
  have len: "length D = p6 + length post"
    using D1 by (simp add: p p1_def p2_def p3_def p4_def p5_def p6_def)
  have small: "p6 + length post < 2 ^ 48" using slice_ok_lt [OF ok] unfolding len by simp
  have le: "p2 \<le> p6" "p3 \<le> p6" "p5 \<le> p6" "p3 < p5" unfolding p3_def p4_def p5_def p6_def by auto
  have v_pos: "0 < length ?v" by simp
  let ?r = "\<lambda>t p. reader_at D dec ra bits t p i"
  have s1: "at_pos (next_uvarint ''invalid seqId'') (?r t p) = (Ok (dr_SeqId rec), ?r t p1)"
    using D1 by (intro read_uvarint_at [OF _ ok, of ?h]) (simp_all add: p p1_def a_def)
  have s2: "fail_if (\<lambda>r. rd_dataSize r < go_int (rd_pos r + 8)) e (?r t p1) = (Ok (), ?r t p1)" for e
    using small le by (intro fail_if_at) (simp add: go_int_small len p2_def)
  have s3: "read_expiry (?r t p1) = (Ok (dr_ExpiresAt rec), ?r t p1)"
    using D1 by (intro read_expiry_at [of D "?h @ a"]) (simp_all add: p p1_def)
  have s4: "skip_pos 8 (?r t p1) = (Ok (), ?r t p2)"
    using small le by (intro skip_pos_at) (simp_all add: p2_def)
  have s5: "fail_if (\<lambda>r. rd_dataSize r \<le> rd_pos r) e (?r t p2) = (Ok (), ?r t p2)" for e
    using le by (intro fail_if_at) (simp add: len p3_def)
  have s6: "peek_byte (?r t p2) = (Ok (dr_OpType rec), ?r t p2)"
    using D1 by (intro peek_byte_at [of D "?h @ a @ put_u64 (dr_ExpiresAt rec)"]) (simp_all add: p p1_def p2_def)
  have s7: "fail_if (\<lambda>r. 3 < dr_OpType rec) e (?r t p2) = (Ok (), ?r t p2)" for e
    using rd by (intro fail_if_at) (simp add: not_less)
  have s8: "skip_pos 1 (?r t p2) = (Ok (), ?r t p3)"
    using small le by (intro skip_pos_at) (simp_all add: p3_def)
  have s9: "fail_if (\<lambda>r. rd_dataSize r \<le> rd_pos r) e (?r t p3) = (Ok (), ?r t p3)" for e
    using le by (intro fail_if_at) (simp add: len)
  have D3: "D = (?h @ a @ put_u64 (dr_ExpiresAt rec) @ [dr_OpType rec]) @ fst (bytes_enc s (dr_Key rec, off) []) @ ?v @ stored @ post"
    "p3 = length (?h @ a @ put_u64 (dr_ExpiresAt rec) @ [dr_OpType rec])"
    using D1 by (simp_all add: k_def [symmetric] p p1_def p2_def p3_def)
  from read_key_at [OF sim rd(2) D3(1) ok D3(2), where i = i and ra = ra and dec = dec and bits = bits]
  obtain t' where s10: "at_pos Encoder_Decode (?r t p3) = (Ok (dr_Key rec), ?r t' p4)"
    and sim': "bytes_sim (snd (bytes_enc s (dr_Key rec, off) [])) t'"
    unfolding p4_def k_def by blast
  have s11: "at_pos (next_uvarint ''invalid value size'') (?r t' p4) = (Ok (of_nat (length stored)), ?r t' p5)"
    using D1 by (intro read_uvarint_at [OF _ ok, of "?h @ a @ put_u64 (dr_ExpiresAt rec) @ dr_OpType rec # k"])
      (simp_all add: p p1_def p2_def p3_def p4_def p5_def)
  have D2: "D = (?h @ a @ put_u64 (dr_ExpiresAt rec) @ dr_OpType rec # k @ ?v) @ stored @ post"
    "p5 = length (?h @ a @ put_u64 (dr_ExpiresAt rec) @ dr_OpType rec # k @ ?v)"
    using D1 by (simp_all add: p p1_def p2_def p3_def p4_def p5_def)
  have s12: "fail_if (\<lambda>r. int (length (rd_data r)) < go_int (rd_pos r + u64_int (of_nat (length stored)))) e (?r t' p5) =
      (Ok (), ?r t' p5)" for e
    using value_fits [OF D2(1) ok] by (intro fail_if_at) (simp only: reader_at_fields D2(2) not_False_eq_True)
  have s13: "encoded_bit (?r t' p5) = (Ok flag, ?r t' p5)" by (simp add: encoded_bit_def bit)
  have s14: "take_pos (of_nat (length stored)) (?r t' p5) = (Ok stored, ?r t' p6)"
    by (rule take_pos_at [OF D2(1) ok D2(2)]) (simp add: p6_def)
  define res where "res = (if flag then Adaptive_Decode dec (1 # stored) else Ok stored)"
  have s15: "decode_value stored flag (?r t' p6) = (res, ?r t' p6)"
    by (simp add: decode_value_def res_def)
  have q: "p6 = length pre + length (fst (item_enc s off (Keyed rec stored flag)))"
    by (simp add: header_bytes_def value_bytes_def k_def [symmetric] a_def [symmetric] p p1_def p2_def p3_def p4_def p5_def p6_def)
  have "read_keyed (dr_ChunkType rec) (?r t p) =
      bind_s (decode_value stored flag) (\<lambda>v. bind_s count_record (\<lambda>_. ret_s (rec\<lparr>dr_Value := v\<rparr>))) (?r t' p6)"
    unfolding read_keyed_def
    by (simp only: s1 s2 s3 s4 s5 s6 s7 s8 s9 s10 s11 s12 s13 s14 bind_s_Inr with_value)
  also have "\<dots> = (case res of Inl e \<Rightarrow> (Inl e, ?r t' p6) | Inr v \<Rightarrow> (Ok (rec\<lparr>dr_Value := v\<rparr>), reader_at D dec ra bits t' p6 (Suc i)))"
    by (cases res) (simp_all add: bind_s_def s15 count_record_at)
  finally show ?thesis using sim' unfolding q [symmetric] Let_def res_def by auto
qed

lemma read_keyed_at:
  assumes sim: "bytes_sim s t" and rd: "readable dec (Keyed rec stored flag)"
    and D: "D = pre @ fst (item_enc s off (Keyed rec stored flag)) @ post" and ok: "slice_ok D"
    and bit: "BitSet_Get bits i = flag" and p: "p = Suc (length pre)"
  shows "\<exists>t'. read_keyed (dr_ChunkType rec) (reader_at D dec ra bits t p i) =
      (Ok rec, reader_at D dec ra bits t' (length pre + length (fst (item_enc s off (Keyed rec stored flag)))) (Suc i)) \<and>
    bytes_sim (snd (item_enc s off (Keyed rec stored flag))) t'"
  using read_keyed_cases [OF sim _ _ D ok bit p, of dec ra] rd by (auto simp: Let_def split: if_splits)

lemma read_cont_at:
  assumes rd: "readable dec (Cont c v)" and D: "D = pre @ fst (item_enc s off (Cont c v)) @ post" and ok: "slice_ok D"
    and p: "p = Suc (length pre)"
  shows "read_continuation c (reader_at D dec ra bits t p i) =
      (Ok (item_record (Cont c v)), reader_at D dec ra bits t (length pre + length (fst (item_enc s off (Cont c v)))) (Suc i))"
proof -
  let ?v = "put_uvarint (of_nat (length v))"
  define p1 where "p1 = p + length ?v"
  define p2 where "p2 = p1 + length v"
  let ?r = "\<lambda>p. reader_at D dec ra bits t p i"
  have D1: "D = (pre @ [c]) @ ?v @ v @ post" using D by (simp add: value_bytes_def)
  have D2: "D = (pre @ c # ?v) @ v @ post" "p1 = length (pre @ c # ?v)" using D1 by (simp_all add: p p1_def)
  have s1: "at_pos (next_uvarint e) (?r p) = (Ok (of_nat (length v)), ?r p1)" for e
    by (rule read_uvarint_at [OF D1 ok]) (simp_all add: p p1_def)
  have s2: "fail_if (\<lambda>r. rd_dataSize r < go_int (rd_pos r + u64_int (of_nat (length v)))) e (?r p1) = (Ok (), ?r p1)" for e
    using value_fits [OF D2(1) ok] by (intro fail_if_at) (simp only: reader_at_fields D2(2) not_False_eq_True)
  have s3: "take_pos (of_nat (length v)) (?r p1) = (Ok v, ?r p2)"
    by (rule take_pos_at [OF D2(1) ok D2(2)]) (simp add: p2_def)
  have q: "p2 = length pre + length (fst (item_enc s off (Cont c v)))"
    by (simp add: value_bytes_def p p1_def p2_def)
  show ?thesis
    unfolding read_continuation_def q [symmetric]
    by (simp only: s1 s2 s3 count_record_at bind_s_Inr op_simps item_record.simps)
qed

lemma read_chunk_type:
  assumes D: "D = pre @ c # post" and ok: "slice_ok D"
  shows "Reader_ReadRecord (reader_at D dec ra bits t (length pre) i) =
    (if c = ChunkTypeMiddle \<or> c = ChunkTypeLast then read_continuation c else read_keyed c)
      (reader_at D dec ra bits t (Suc (length pre)) i)"
proof -
  let ?r = "\<lambda>p. reader_at D dec ra bits t p i"
  have s1: "fail_if (\<lambda>r. rd_dataSize r \<le> rd_pos r) e (?r (length pre)) = (Ok (), ?r (length pre))" for e
    using D by (intro fail_if_at) simp
  have s2: "peek_byte (?r (length pre)) = (Ok c, ?r (length pre))"
    using D by (intro peek_byte_at [of D pre]) simp_all
  have s3: "skip_pos 1 (?r (length pre)) = (Ok (), ?r (Suc (length pre)))"
    using slice_ok_lt [OF ok] D by (intro skip_pos_at) simp_all
  show ?thesis unfolding Reader_ReadRecord_def by (simp only: s1 s2 s3 bind_s_Inr)
qed

lemma read_item_at:
  assumes sim: "bytes_sim s t" and rd: "readable dec x" and D: "D = pre @ fst (item_enc s off x) @ post" and ok: "slice_ok D"
    and bit: "BitSet_Get bits i = item_flag x"
  shows "\<exists>t'. Reader_ReadRecord (reader_at D dec ra bits t (length pre) i) =
      (Ok (item_record x), reader_at D dec ra bits t' (length pre + length (fst (item_enc s off x))) (Suc i)) \<and>
    bytes_sim (snd (item_enc s off x)) t'"
proof (cases x)
  case (Keyed rec stored flag)
  have "D = pre @ dr_ChunkType rec # drop 1 (fst (item_enc s off x)) @ post" using D by (simp add: Keyed header_bytes_def)
  from read_chunk_type [OF this ok] read_keyed_at [OF sim rd [unfolded Keyed] D [unfolded Keyed] ok _ refl, of bits i ra] bit rd
  show ?thesis by (auto simp: Keyed)
next
  case (Cont c v)
  have "D = pre @ c # drop 1 (fst (item_enc s off x)) @ post" using D by (simp add: Cont)
  from read_chunk_type [OF this ok] read_cont_at [OF rd [unfolded Cont] D [unfolded Cont] ok refl, of ra bits t i] sim rd
  show ?thesis by (auto simp: Cont)
qed

section \<open>Reading a data section\<close>

lemma items_enc_append:
  "fst (items_enc s n (xs @ ys)) =
     fst (items_enc s n xs) @ fst (items_enc (snd (items_enc s n xs)) (n + length (fst (items_enc s n xs))) ys)"
  "snd (items_enc s n (xs @ ys)) =
     snd (items_enc (snd (items_enc s n xs)) (n + length (fst (items_enc s n xs))) ys)"
  by (induction xs arbitrary: s n) (simp_all add: case_prod_unfold Let_def add.assoc)

lemma read_items_at:
  assumes "bytes_sim s t" "list_all (readable dec) xs" "D = pre @ fst (items_enc s n xs) @ post" "slice_ok D"
    and "\<And>j. j < length xs \<Longrightarrow> BitSet_Get bits (i + j) = item_flag (xs ! j)"
  shows "\<exists>t'. decode_all Reader_ReadRecord (length xs) (reader_at D dec ra bits t (length pre) i) =
      (Ok (map item_record xs), reader_at D dec ra bits t' (length pre + length (fst (items_enc s n xs))) (i + length xs)) \<and>
    bytes_sim (snd (items_enc s n xs)) t'"
  using assms
proof (induction xs arbitrary: s t n pre i)
  case Nil
  then show ?case by auto
next
  case (Cons x xs)
  define out s1 where "out = fst (item_enc s (of_nat n) x)" and "s1 = snd (item_enc s (of_nat n) x)"
  define outs where "outs = fst (items_enc s1 (n + length out) xs)"
  have enc: "fst (items_enc s n (x # xs)) = out @ outs" "snd (items_enc s n (x # xs)) = snd (items_enc s1 (n + length out) xs)"
    by (simp_all add: out_def s1_def outs_def case_prod_unfold Let_def)
  have "D = pre @ fst (item_enc s (of_nat n) x) @ outs @ post"
    using Cons.prems(3) unfolding enc by (simp add: out_def)
  moreover have "BitSet_Get bits i = item_flag x" using Cons.prems(5) [of 0] by simp
  ultimately obtain t1 where t1: "Reader_ReadRecord (reader_at D dec ra bits t (length pre) i) =
      (Ok (item_record x), reader_at D dec ra bits t1 (length pre + length out) (Suc i))" "bytes_sim s1 t1"
    using read_item_at [OF Cons.prems(1), of dec x D pre "of_nat n" "outs @ post" bits i ra] Cons.prems(2,4)
    unfolding out_def s1_def by auto
  have D: "D = (pre @ out) @ fst (items_enc s1 (n + length out) xs) @ post"
    using Cons.prems(3) unfolding enc by (simp add: outs_def)
  have bits: "j < length xs \<Longrightarrow> BitSet_Get bits (Suc i + j) = item_flag (xs ! j)" for j
    using Cons.prems(5) [of "Suc j"] by simp
  from Cons.IH [OF t1(2) _ D Cons.prems(4) bits] Cons.prems(2) obtain t2 where
    "decode_all Reader_ReadRecord (length xs) (reader_at D dec ra bits t1 (length (pre @ out)) (Suc i)) =
      (Ok (map item_record xs), reader_at D dec ra bits t2 (length (pre @ out) + length outs) (Suc i + length xs))"
    "bytes_sim (snd (items_enc s1 (n + length out) xs)) t2"
    unfolding outs_def by auto
  with t1(1) show ?case unfolding enc by (intro exI [of _ t2]) (simp add: add.assoc)
qed

section \<open>Restart points\<close>

text \<open>The keys of a block with the offsets at which their records start.\<close>

fun keyed_offsets :: "DeltaEncoderBytes \<Rightarrow> nat \<Rightarrow> block_item list \<Rightarrow> (bytes \<times> u32) list" where
  "keyed_offsets s n [] = []"
| "keyed_offsets s n (x # xs) =
     (case x of Keyed rec stored flag \<Rightarrow> [(dr_Key rec, of_nat n)] | Cont t v \<Rightarrow> []) @
     keyed_offsets (snd (item_enc s (of_nat n) x)) (n + length (fst (item_enc s (of_nat n) x))) xs"

lemma items_enc_state: "snd (items_enc s n xs) = snd (encode_all bytes_enc s (keyed_offsets s n xs) buf)"
proof (induction xs arbitrary: s n buf)
  case (Cons x xs)
  show ?case
  proof (cases x)
    case (Keyed rec stored flag)
    have e: "bytes_enc s (dr_Key rec, of_nat n) buf =
        (fst (bytes_enc s (dr_Key rec, of_nat n) buf), snd (bytes_enc s (dr_Key rec, of_nat n) []))"
      using delta_bytes.enc_state by (metis prod.collapse)
    have "snd (encode_all bytes_enc s ((dr_Key rec, of_nat n) # ks) buf) =
        snd (encode_all bytes_enc (snd (bytes_enc s (dr_Key rec, of_nat n) [])) ks (fst (bytes_enc s (dr_Key rec, of_nat n) buf)))" for ks
      by (subst encode_all.simps, subst e) simp
    with Cons.IH show ?thesis by (simp add: Keyed case_prod_unfold Let_def)
  next
    case (Cont t v)
    with Cons.IH show ?thesis by (simp add: case_prod_unfold Let_def)
  qed
qed simp

lemma length_keyed_offsets: "length (keyed_offsets s n xs) = length (filter keyed xs)"
  by (induction xs arbitrary: s n) (auto split: block_item.split)

lemma length_every_nth: "1 \<le> i \<Longrightarrow> i \<le> r \<Longrightarrow> length (every_nth r i ys) = (length ys + i - 1) div r"
proof (induction r i ys rule: every_nth.induct)
  case (2 r i y ys)
  then have "0 < r" by simp
  show ?case
  proof (cases "i = r")
    case True
    have "length (every_nth r 1 ys) = length ys div r" using 2 True by (simp del: One_nat_def)
    moreover have "(length (y # ys) + i - 1) div r = Suc (length ys div r)"
      using True \<open>0 < r\<close> by (simp add: div_add_self2)
    ultimately show ?thesis using True by (simp del: One_nat_def)
  next
    case False
    then show ?thesis using 2 by (simp del: One_nat_def)
  qed
qed simp

lemma length_every_nth_0: "0 < r \<Longrightarrow> length (every_nth r 0 ys) \<le> (if ys = [] then 0 else Suc ((length ys - 1) div r))"
  using length_every_nth [of 1 r "tl ys"] by (cases ys) auto

lemma restart_array:
  assumes "0 < r" "r < 2 ^ 63"
  shows "db_restartArray (snd (items_enc (NewDeltaEncoderBytes (of_nat r)) n xs)) =
    every_nth r 0 (map snd (keyed_offsets (NewDeltaEncoderBytes (of_nat r)) n xs))"
proof -
  let ?s = "NewDeltaEncoderBytes (of_nat r)"
  have "db_restartInterval ?s = of_nat r" "db_entryIndex ?s = of_nat 0" "db_restartArray ?s = []"
    by (simp_all add: NewDeltaEncoderBytes_def)
  with restart_bytes.entry_index [OF assms, of ?s 0 "keyed_offsets ?s n xs" "[]"]
  show ?thesis unfolding items_enc_state [of ?s n xs "[]"] by simp
qed

lemma restart_count:
  assumes "0 < r" "r < 2 ^ 63"
  shows "length (db_restartArray (snd (items_enc (NewDeltaEncoderBytes (of_nat r)) n xs))) \<le>
    (if filter keyed xs = [] then 0 else Suc ((length xs - 1) div r))"
proof -
  have "filter keyed xs = [] \<longleftrightarrow> keyed_offsets (NewDeltaEncoderBytes (of_nat r)) n xs = []"
    by (metis length_keyed_offsets length_0_conv)
  moreover have "length (filter keyed xs) - 1 \<le> length xs - 1" by (rule diff_le_mono) simp
  then have "(length (filter keyed xs) - 1) div r \<le> (length xs - 1) div r" by (rule div_le_mono)
  ultimately show ?thesis
    using length_every_nth_0 [OF assms(1), of "map snd (keyed_offsets (NewDeltaEncoderBytes (of_nat r)) n xs)"]
    unfolding restart_array [OF assms] by (auto simp: length_keyed_offsets)
qed

section \<open>The bitmap\<close>

definition flag_bits :: "block_item list \<Rightarrow> BitSet" where
  "flag_bits xs = foldl BitSet_Set (NewBitSet 0) (filter (\<lambda>i. item_flag (xs ! i)) [0..<length xs])"

lemma flag_bits_snoc:
  "flag_bits (xs @ [x]) = (if item_flag x then BitSet_Set (flag_bits xs) (length xs) else flag_bits xs)"
proof -
  have "filter (\<lambda>i. item_flag ((xs @ [x]) ! i)) [0..<length xs] = filter (\<lambda>i. item_flag (xs ! i)) [0..<length xs]"
    by (intro filter_cong) (auto simp: nth_append)
  then show ?thesis by (simp add: flag_bits_def nth_append)
qed

lemma flag_bits_Get:
  assumes "j < length xs"
  shows "BitSet_Get (if 0 < length (BitSet_Encode (flag_bits xs)) then DecodeBitSet (BitSet_Encode (flag_bits xs)) else NewBitSet 0) j =
    item_flag (xs ! j)"
proof -
  have "BitSet_Get (flag_bits xs) j = item_flag (xs ! j)"
    "BitSet_Get (DecodeBitSet (BitSet_Encode (flag_bits xs))) j = item_flag (xs ! j)"
    using bitset_membership [of 0 "filter (\<lambda>i. item_flag (xs ! i)) [0..<length xs]" j] assms by (auto simp: flag_bits_def)
  moreover have "\<not> BitSet_Get (NewBitSet 0) j" "\<not> BitSet_Get (DecodeBitSet []) j"
    using bitset_membership [of 0 "[]" j] by (simp_all add: BitSet_Encode_def NewBitSet_def Let_def)
  ultimately show ?thesis by auto
qed

lemma length_BitSet_Set: "length (bs_bytes (BitSet_Set b i)) = max (length (bs_bytes b)) (Suc (i div 8))"
  by (simp add: BitSet_Set_def Let_def)

lemma length_flag_bits: "length (BitSet_Encode (flag_bits xs)) \<le> (if \<exists>x \<in> set xs. item_flag x then Suc ((length xs - 1) div 8) else 0)"
proof (induction xs rule: rev_induct)
  case Nil
  then show ?case by (simp add: flag_bits_def BitSet_Encode_def NewBitSet_def Let_def)
next
  case (snoc x xs)
  have bytes: "length (bs_bytes (flag_bits ys)) \<le> Suc ((length ys - 1) div 8)" for ys
  proof (induction ys rule: rev_induct)
    case (snoc y ys)
    have "(length ys - 1) div 8 \<le> length ys div 8" by (intro div_le_mono) simp
    with snoc show ?case by (simp add: flag_bits_snoc length_BitSet_Set)
  qed (simp add: flag_bits_def NewBitSet_def Let_def)
  show ?case
  proof (cases "\<exists>y \<in> set (xs @ [x]). item_flag y")
    case True
    have "length (BitSet_Encode (flag_bits (xs @ [x]))) \<le> length (bs_bytes (flag_bits (xs @ [x])))"
      by (simp add: BitSet_Encode_def)
    with bytes [of "xs @ [x]"] True show ?thesis by auto
  next
    case False
    with snoc show ?thesis by (simp add: flag_bits_snoc)
  qed
qed

section \<open>What a builder holds\<close>

abbreviation fresh_encoder :: "DataBlockBuilder \<Rightarrow> DeltaEncoderBytes" where
  "fresh_encoder b \<equiv> NewDeltaEncoderBytes (of_int (bb_restartInterval b))"

definition built :: "DataBlockBuilder \<Rightarrow> block_item list \<Rightarrow> bool" where
  "built b xs \<longleftrightarrow> bb_encoder b = DeltaBytes (snd (items_enc (fresh_encoder b) 0 xs)) \<and>
     bb_data b = fst (items_enc (fresh_encoder b) 0 xs) \<and> bb_recordCount b = length xs \<and> bb_isEncodedBits b = flag_bits xs"

text \<open>The space \<^verbatim>\<open>Finish\<close> needs.\<close>

definition has_room :: "DataBlockBuilder \<Rightarrow> block_item list \<Rightarrow> bool" where
  "has_room b xs \<longleftrightarrow> int (length (bb_data b) + 4 * length (db_restartArray (snd (items_enc (fresh_encoder b) 0 xs))) +
      16 + length (BitSet_Encode (flag_bits xs))) \<le> bb_blockSize b"

text \<open>The settings of a builder, for which its estimates are right.\<close>

definition builder_ok :: "DataBlockBuilder \<Rightarrow> bool" where
  "builder_ok b \<longleftrightarrow> 0 < bb_restartInterval b \<and> bb_restartInterval b < 2 ^ 31 \<and> 0 \<le> bb_blockSize b \<and> bb_blockSize b < 2 ^ 19 \<and>
     adaptive_inv (bb_valueEncoder b) \<and> length (a_keys (bb_valueEncoder b)) \<le> 2 ^ 48"

lemma note_key_fields [simp]:
  "bb_encoder (note_key k b) = bb_encoder b" "bb_valueEncoder (note_key k b) = bb_valueEncoder b"
  "bb_data (note_key k b) = bb_data b" "bb_restartInterval (note_key k b) = bb_restartInterval b"
  "bb_blockSize (note_key k b) = bb_blockSize b" "bb_recordCount (note_key k b) = bb_recordCount b"
  "bb_isEncodedBits (note_key k b) = bb_isEncodedBits b" "bb_lastKey (note_key k b) = k"
  by (simp_all add: note_key_def)

lemma built_note_key [simp]: "built (note_key k b) xs = built b xs" "has_room (note_key k b) xs = has_room b xs"
    "builder_ok (note_key k b) = builder_ok b"
  by (simp_all add: built_def has_room_def builder_ok_def)

lemma restart_space_pos: "0 < bb_restartInterval b \<Longrightarrow>
    restart_space b = Ok ((int (bb_recordCount b) div bb_restartInterval b + 1) * 4)"
  by (cases "bb_recordCount b = 0") (simp_all add: restart_space_def go_div_def signed_divide_int_def)

lemma append_header_built:
  assumes "built b xs"
  shows "append_header c rec b = Ok (b\<lparr>
     bb_data := bb_data b @ header_bytes (rec\<lparr>dr_ChunkType := c\<rparr>) @
       fst (bytes_enc (snd (items_enc (fresh_encoder b) 0 xs)) (dr_Key rec, of_nat (length (bb_data b))) []),
     bb_encoder := DeltaBytes (snd (bytes_enc (snd (items_enc (fresh_encoder b) 0 xs)) (dr_Key rec, of_nat (length (bb_data b))) []))\<rparr>)"
proof -
  define s where "s = snd (items_enc (fresh_encoder b) 0 xs)"
  define off where "off = (of_nat (length (bb_data b)) :: u32)"
  define buf where "buf = bb_data b @ header_bytes (rec\<lparr>dr_ChunkType := c\<rparr>)"
  have buf: "bb_data b @ [c] @ put_uvarint (dr_SeqId rec) @ put_u64 (dr_ExpiresAt rec) @ [dr_OpType rec] = buf"
    by (simp add: buf_def header_bytes_def)
  have "DeltaEncoderBytes_Encode s (dr_Key rec) off buf =
      (buf @ fst (bytes_enc s (dr_Key rec, off) []), snd (bytes_enc s (dr_Key rec, off) []))"
    using delta_bytes.enc_appends [of s "(dr_Key rec, off)" buf] delta_bytes.enc_state [of s "(dr_Key rec, off)" buf]
    by (metis (mono_tags, lifting) bytes_enc_def case_prod_conv prod.collapse)
  moreover have "bb_encoder b = DeltaBytes s" using assms by (simp add: built_def s_def)
  ultimately show ?thesis
    unfolding append_header_def Let_def buf off_def [symmetric] s_def [symmetric]
    by (simp add: buf_def)
qed

lemma built_snoc_keyed:
  assumes "built b xs" "append_header c rec b = Ok b1"
    and b2: "b2 = append_value stored (b1\<lparr>bb_isEncodedBits := (if flag then BitSet_Set (flag_bits xs) (length xs) else flag_bits xs)\<rparr>)"
  shows "built b2 (xs @ [Keyed (rec\<lparr>dr_ChunkType := c\<rparr>) stored flag])"
proof -
  let ?s = "snd (items_enc (fresh_encoder b) 0 xs)"
  let ?off = "of_nat (length (bb_data b)) :: u32"
  have b1: "b1 = b\<lparr>bb_data := bb_data b @ header_bytes (rec\<lparr>dr_ChunkType := c\<rparr>) @ fst (bytes_enc ?s (dr_Key rec, ?off) []),
      bb_encoder := DeltaBytes (snd (bytes_enc ?s (dr_Key rec, ?off) []))\<rparr>"
    using append_header_built [OF assms(1), of c rec] assms(2) by simp
  have d: "bb_data b = fst (items_enc (fresh_encoder b) 0 xs)" "bb_recordCount b = length xs"
    using assms(1) by (simp_all add: built_def)
  have "bb_restartInterval b2 = bb_restartInterval b" by (simp add: b1 b2 append_value_def)
  moreover have "fst (items_enc (fresh_encoder b) 0 (xs @ [Keyed (rec\<lparr>dr_ChunkType := c\<rparr>) stored flag])) = bb_data b2"
    "snd (items_enc (fresh_encoder b) 0 (xs @ [Keyed (rec\<lparr>dr_ChunkType := c\<rparr>) stored flag])) = snd (bytes_enc ?s (dr_Key rec, ?off) [])"
    unfolding items_enc_append by (simp_all add: b1 b2 append_value_def value_bytes_def case_prod_unfold Let_def d(1))
  ultimately show ?thesis
    by (simp add: built_def b1 b2 append_value_def d(2) flag_bits_snoc)
qed

lemma built_snoc_cont:
  assumes "built b xs"
  shows "built (append_value v (b\<lparr>bb_data := bb_data b @ [c]\<rparr>)) (xs @ [Cont c v])"
  using assms unfolding built_def items_enc_append
  by (simp add: append_value_def value_bytes_def case_prod_unfold Let_def flag_bits_snoc)

section \<open>Room\<close>

lemma put_uvarint_small: "unat x < 2 ^ 21 \<Longrightarrow> length (put_uvarint x) \<le> 3"
proof -
  have step: "length (put_uvarint y) \<le> Suc (if y < 0x80 then 0 else length (put_uvarint (drop_bit 7 y)))" for y
    by (subst put_uvarint.simps) simp
  have lt: "y < 0x80 \<longleftrightarrow> unat y < 128" for y :: u64 by (simp add: word_less_nat_alt)
  assume x: "unat x < 2 ^ 21"
  have "unat (drop_bit 7 (drop_bit 7 x)) < 128" using x unfolding unat_drop7 by simp
  with step [of x] step [of "drop_bit 7 x"] step [of "drop_bit 7 (drop_bit 7 x)"] show ?thesis
    unfolding lt by (simp split: if_splits)
qed

lemma put_uvarint_nat_small: "n < 2 ^ 21 \<Longrightarrow> length (put_uvarint (of_nat n)) \<le> 3"
  using unat_of_nat_small [of n] by (intro put_uvarint_small) simp

lemma bytes_enc_length:
  assumes "length key < 2 ^ 21"
  shows "length (fst (bytes_enc s (key, off) [])) \<le> 6 + length key"
proof -
  have "bytes_sim s s" by (simp add: bytes_sim_def)
  from bytes_enc_out [OF this, of "(key, off)"] obtain n where
    n: "fst (bytes_enc s (key, off) []) = put_uvarint (of_nat n) @ put_uvarint (of_nat (length (drop n key))) @ drop n key"
      "n \<le> length key" by auto
  have "length (put_uvarint (of_nat n)) \<le> 3" "length (put_uvarint (of_nat (length (drop n key)))) \<le> 3"
    by (rule put_uvarint_nat_small, use assms n(2) in simp)+
  then show ?thesis unfolding n(1) length_append by simp
qed

lemma header_length: "length (header_bytes rec) \<le> 20"
  using put_uvarint_length [of "dr_SeqId rec"] by (simp add: header_bytes_def)

text \<open>
  Every restart offset and every bit an item may need is in the estimates of \<^verbatim>\<open>AddRecord\<close>; those of the
  other methods leave out the bitmap, so they are right as long as no value of the block is an index.
\<close>

lemma restarts_bound:
  assumes "builder_ok b"
  shows "int (length (db_restartArray (snd (items_enc (fresh_encoder b) 0 (xs @ [x]))))) \<le> int (length xs) div bb_restartInterval b + 1"
    "\<not> keyed x \<Longrightarrow> filter keyed xs = [] \<Longrightarrow> db_restartArray (snd (items_enc (fresh_encoder b) 0 (xs @ [x]))) = []"
proof -
  define r where "r = nat (bb_restartInterval b)"
  have r: "0 < r" "r < 2 ^ 63" "of_int (bb_restartInterval b) = (of_nat r :: i64)" "int r = bb_restartInterval b"
    using assms by (auto simp: builder_ok_def r_def)
  note c = restart_count [OF r(1,2), of 0 "xs @ [x]"]
  have "length (db_restartArray (snd (items_enc (fresh_encoder b) 0 (xs @ [x])))) \<le> length xs div r + 1"
    unfolding r(3) using c by (auto split: if_splits)
  then show "int (length (db_restartArray (snd (items_enc (fresh_encoder b) 0 (xs @ [x]))))) \<le> int (length xs) div bb_restartInterval b + 1"
    unfolding r(4) [symmetric] by (metis of_nat_1 of_nat_add of_nat_div of_nat_mono)
  show "\<not> keyed x \<Longrightarrow> filter keyed xs = [] \<Longrightarrow> db_restartArray (snd (items_enc (fresh_encoder b) 0 (xs @ [x]))) = []"
    unfolding r(3) using c by simp
qed

lemma flag_bound: "length (BitSet_Encode (flag_bits (xs @ [x]))) \<le> length xs div 8 + 1"
  using length_flag_bits [of "xs @ [x]"] by (simp split: if_splits)

lemma flag_bits_none: "\<not> (\<exists>x \<in> set xs. item_flag x) \<Longrightarrow> length (BitSet_Encode (flag_bits xs)) = 0"
  using length_flag_bits [of xs] by simp

section \<open>Adding to a block\<close>

definition as_chunk :: "byte \<Rightarrow> bytes \<Rightarrow> DataRecord \<Rightarrow> DataRecord" where
  "as_chunk c v rec = rec\<lparr>dr_ChunkType := c, dr_Value := v\<rparr>"

definition same_settings :: "DataBlockBuilder \<Rightarrow> DataBlockBuilder \<Rightarrow> bool" where
  "same_settings b b' \<longleftrightarrow> bb_restartInterval b' = bb_restartInterval b \<and> bb_blockSize b' = bb_blockSize b"

abbreviation encoder_after :: "DataRecord \<Rightarrow> DataBlockBuilder \<Rightarrow> AdaptiveEncoder" where
  "encoder_after rec b \<equiv> snd (Adaptive_AddToDict (dr_Value rec) (bb_valueEncoder b))"

text \<open>The item that stands for a record added as a whole.\<close>

definition whole_item :: "AdaptiveEncoder \<Rightarrow> DataRecord \<Rightarrow> block_item" where
  "whole_item ade rec =
     (case Adaptive_Encode ade (dr_Value rec) of
        Inr (f # stored) \<Rightarrow> Keyed (rec\<lparr>dr_ChunkType := ChunkTypeFull\<rparr>) stored (f = 1)
      | _ \<Rightarrow> Keyed rec [] False)"

definition chunk_space :: "DataBlockBuilder \<Rightarrow> int" where
  "chunk_space b = (int (bb_recordCount b) div bb_restartInterval b + 1) * 4"

lemma chunk_space_note_key [simp]: "chunk_space (note_key k b) = chunk_space b"
  by (simp add: chunk_space_def)

definition record_space :: "DataRecord \<Rightarrow> DataBlockBuilder \<Rightarrow> int" where
  "record_space rec b = 54 + int (length (dr_Key rec)) * 2 + int (length (dr_Value rec)) +
     chunk_space b + int (bb_recordCount b) div 8"

lemma spaces:
  assumes "builder_ok b"
  shows "4 \<le> chunk_space b" "58 + int (length (dr_Key rec)) * 2 + int (length (dr_Value rec)) \<le> record_space rec b"
    "restart_space b = Ok (chunk_space b)"
proof -
  have "0 \<le> int (bb_recordCount b) div bb_restartInterval b"
    using assms by (simp add: builder_ok_def div_int_pos_iff)
  then show "4 \<le> chunk_space b" by (simp add: chunk_space_def)
  then show "58 + int (length (dr_Key rec)) * 2 + int (length (dr_Value rec)) \<le> record_space rec b"
    by (simp add: record_space_def)
  show "restart_space b = Ok (chunk_space b)"
    using assms by (simp add: builder_ok_def restart_space_pos chunk_space_def)
qed

lemma AddRecord_full:
  assumes "builder_ok b" "bb_blockSize b < int (length (bb_data b)) + record_space rec b"
  shows "Builder_AddRecord rec b = Ok (False, note_key (dr_Key rec) b)"
  using assms by (simp add: Builder_AddRecord_def Let_def spaces(3) record_space_def)

lemma AddRecord_added:
  assumes ok: "builder_ok b" and built: "built b xs" and room: "int (length (bb_data b)) + record_space rec b \<le> bb_blockSize b"
    and keys: "length (a_keys (encoder_after rec b)) \<le> 2 ^ 48"
  shows "\<exists>b'. Builder_AddRecord rec b = Ok (True, b') \<and> built b' (xs @ [whole_item (encoder_after rec b) rec]) \<and>
    has_room b' (xs @ [whole_item (encoder_after rec b) rec]) \<and> same_settings b b' \<and> builder_ok b' \<and>
    bb_valueEncoder b' = encoder_after rec b \<and> bb_firstKey b' = bb_firstKey (note_key (dr_Key rec) b)"
proof -
  define ade where "ade = encoder_after rec b"
  define b1 where "b1 = (note_key (dr_Key rec) b)\<lparr>bb_valueEncoder := ade\<rparr>"
  have inv: "adaptive_inv ade" "length (a_keys ade) \<le> 2 ^ 48"
    using ok keys by (simp_all add: ade_def builder_ok_def adaptive_inv_AddToDict)
  obtain f stored where enc: "Adaptive_Encode ade (dr_Value rec) = Ok (f # stored)" "f \<in> {0, 1}"
    and slen: "length stored \<le> length (dr_Value rec) + 6"
    by (rule Adaptive_Encode_cases [OF inv, of "dr_Value rec"]) auto
  have item: "whole_item ade rec = Keyed (rec\<lparr>dr_ChunkType := ChunkTypeFull\<rparr>) stored (f = 1)"
    by (simp add: whole_item_def enc(1))
  have b1: "built b1 xs" "builder_ok b1" using built ok inv by (simp_all add: b1_def built_def builder_ok_def)
  from append_header_built [OF b1(1), of ChunkTypeFull rec]
  obtain b2 where b2: "append_header ChunkTypeFull rec b1 = Ok b2" "bb_valueEncoder b2 = ade"
      "bb_recordCount b2 = length xs" "bb_isEncodedBits b2 = flag_bits xs" "bb_restartInterval b2 = bb_restartInterval b"
      "bb_blockSize b2 = bb_blockSize b" "bb_firstKey b2 = bb_firstKey (note_key (dr_Key rec) b)"
    using built by (simp add: b1_def built_def)
  define b3 where "b3 = append_value stored (b2\<lparr>bb_isEncodedBits := (if f = 1 then BitSet_Set (flag_bits xs) (length xs) else flag_bits xs)\<rparr>)"
  have same: "b2\<lparr>bb_isEncodedBits := flag_bits xs\<rparr> = b2" using b2(4) by simp
  have b3_cases: "(if f = 1 then append_value stored (b2\<lparr>bb_isEncodedBits := BitSet_Set (flag_bits xs) (length xs)\<rparr>) else append_value stored b2) = b3"
    unfolding b3_def by (cases "f = 1") (simp_all only: same if_True if_False simp_thms)
  have add: "Builder_AddRecord rec b = Ok (True, b3)"
    using ok room b2 enc(1) b3_cases unfolding Builder_AddRecord_def record_space_def
    by (simp add: Let_def spaces(3) ade_def [symmetric] b1_def [symmetric] split: if_splits)
  have b3: "built b3 (xs @ [whole_item ade rec])"
    unfolding item by (rule built_snoc_keyed [OF b1(1) b2(1)]) (simp add: b3_def)
  have set3: "same_settings b b3" "bb_valueEncoder b3 = ade" "bb_firstKey b3 = bb_firstKey (note_key (dr_Key rec) b)"
    using b2 by (simp_all add: same_settings_def b3_def append_value_def)
  have ok3: "builder_ok b3" using ok inv set3 by (simp add: builder_ok_def same_settings_def)
  have cnt: "bb_recordCount b = length xs" using built by (simp add: built_def)
  have data: "length (bb_data b3) \<le> length (bb_data b) + 20 + 6 + length (dr_Key rec) + 3 + length stored"
  proof -
    have "int (length (dr_Value rec)) < 2 ^ 21 - 40" "int (length (dr_Key rec)) < 2 ^ 21"
      using room spaces(2) [OF ok, of rec] ok by (auto simp: builder_ok_def)
    then have "length stored < 2 ^ 21" "length (dr_Key rec) < 2 ^ 21" using slen by auto
    then have "length (put_uvarint (of_nat (length stored))) \<le> 3"
      "length (fst (bytes_enc (snd (items_enc (fresh_encoder b1) 0 xs)) (dr_Key rec, of_nat (length (bb_data b1))) [])) \<le> 6 + length (dr_Key rec)"
      by (auto intro: put_uvarint_nat_small bytes_enc_length)
    moreover have "bb_data b3 = bb_data b @ header_bytes (rec\<lparr>dr_ChunkType := 0\<rparr>) @
        fst (bytes_enc (snd (items_enc (fresh_encoder b1) 0 xs)) (dr_Key rec, of_nat (length (bb_data b1))) []) @
        put_uvarint (of_nat (length stored)) @ stored"
      using append_header_built [OF b1(1), of ChunkTypeFull rec] b2(1) by (auto simp: b3_def append_value_def b1_def)
    ultimately show ?thesis using header_length [of "rec\<lparr>dr_ChunkType := 0\<rparr>"] by simp
  qed
  have "has_room b3 (xs @ [whole_item ade rec])"
  proof -
    have "int (length (db_restartArray (snd (items_enc (fresh_encoder b3) 0 (xs @ [whole_item ade rec]))))) \<le>
        int (length xs) div bb_restartInterval b + 1"
      using restarts_bound(1) [OF ok3] set3(1) by (simp add: same_settings_def)
    moreover have "int (length (BitSet_Encode (flag_bits (xs @ [whole_item ade rec])))) \<le> int (length xs) div 8 + 1"
      using flag_bound [of xs "whole_item ade rec"] by linarith
    ultimately show ?thesis
      using data slen room set3(1) unfolding has_room_def record_space_def chunk_space_def cnt same_settings_def by simp
  qed
  with add b3 set3 ok3 show ?thesis unfolding ade_def by blast
qed

text \<open>A first chunk goes into an empty block, as the writer has it.\<close>

lemma AddFirstChunk_added:
  assumes ok: "builder_ok b" and built: "built b []"
    and room: "int (length (bb_data b)) + 53 + int (length (dr_Key rec)) * 2 + int (length v) + chunk_space b \<le> bb_blockSize b"
  shows "\<exists>b'. Builder_AddFirstChunk rec v b = Ok (True, b') \<and> built b' [Keyed (rec\<lparr>dr_ChunkType := ChunkTypeFirst\<rparr>) v False] \<and>
    has_room b' [Keyed (rec\<lparr>dr_ChunkType := ChunkTypeFirst\<rparr>) v False] \<and> same_settings b b' \<and> builder_ok b' \<and>
    bb_valueEncoder b' = bb_valueEncoder b \<and> bb_firstKey b' = bb_firstKey (note_key (dr_Key rec) b) \<and>
    length (bb_data b') \<le> 29 + length (dr_Key rec) + length v"
proof -
  let ?x = "Keyed (rec\<lparr>dr_ChunkType := ChunkTypeFirst\<rparr>) v False"
  define b1 where "b1 = note_key (dr_Key rec) b"
  have b1: "built b1 []" "builder_ok b1" using built ok by (simp_all add: b1_def)
  from append_header_built [OF b1(1), of ChunkTypeFirst rec]
  obtain b2 where b2: "append_header ChunkTypeFirst rec b1 = Ok b2" "bb_valueEncoder b2 = bb_valueEncoder b"
      "bb_recordCount b2 = 0" "bb_isEncodedBits b2 = flag_bits []" "bb_restartInterval b2 = bb_restartInterval b"
      "bb_blockSize b2 = bb_blockSize b" "bb_firstKey b2 = bb_firstKey (note_key (dr_Key rec) b)"
    using built by (simp add: b1_def built_def)
  define b3 where "b3 = append_value v b2"
  have add: "Builder_AddFirstChunk rec v b = Ok (True, b3)"
    using ok room b2 spaces(3) [OF b1(2)] unfolding Builder_AddFirstChunk_def
    by (simp add: Let_def b1_def b3_def)
  have "b2\<lparr>bb_isEncodedBits := flag_bits []\<rparr> = b2" using b2(4) by simp
  then have b3: "built b3 [?x]"
    using built_snoc_keyed [OF b1(1) b2(1), of b3 v False] by (simp add: b3_def)
  have set3: "same_settings b b3" "bb_valueEncoder b3 = bb_valueEncoder b" "bb_firstKey b3 = bb_firstKey (note_key (dr_Key rec) b)"
    using b2 by (simp_all add: same_settings_def b3_def append_value_def)
  have ok3: "builder_ok b3" using ok set3 by (simp add: builder_ok_def same_settings_def)
  have empty: "bb_data b = []" "bb_recordCount b = 0" using built by (simp_all add: built_def)
  have data: "length (bb_data b3) \<le> 20 + 6 + length (dr_Key rec) + 3 + length v"
  proof -
    have "length v < 2 ^ 21" "length (dr_Key rec) < 2 ^ 21"
      using room spaces(1) [OF ok] ok by (auto simp: builder_ok_def)
    then have "length (put_uvarint (of_nat (length v))) \<le> 3"
      "length (fst (bytes_enc (snd (items_enc (fresh_encoder b1) 0 [])) (dr_Key rec, of_nat (length (bb_data b1))) [])) \<le> 6 + length (dr_Key rec)"
      by (auto intro: put_uvarint_nat_small bytes_enc_length)
    moreover have "bb_data b3 = bb_data b @ header_bytes (rec\<lparr>dr_ChunkType := 1\<rparr>) @
        fst (bytes_enc (snd (items_enc (fresh_encoder b1) 0 [])) (dr_Key rec, of_nat (length (bb_data b1))) []) @
        put_uvarint (of_nat (length v)) @ v"
      using append_header_built [OF b1(1), of ChunkTypeFirst rec] b2(1) by (auto simp: b3_def append_value_def b1_def)
    ultimately show ?thesis using header_length [of "rec\<lparr>dr_ChunkType := 1\<rparr>"] by (simp add: empty)
  qed
  have "has_room b3 [?x]"
  proof -
    have "int (length (db_restartArray (snd (items_enc (fresh_encoder b3) 0 ([] @ [?x]))))) \<le> int (length ([] :: block_item list)) div bb_restartInterval b3 + 1"
      by (rule restarts_bound(1) [OF ok3])
    moreover have "length (BitSet_Encode (flag_bits [?x])) = 0" by (rule flag_bits_none) simp
    ultimately show ?thesis
      using data room set3(1) unfolding has_room_def chunk_space_def same_settings_def by (simp add: empty)
  qed
  with add b3 set3 ok3 data show ?thesis by auto
qed

lemma AddContinuationChunk_added:
  assumes ok: "builder_ok b" and built: "built b xs" and plain: "\<not> (\<exists>x \<in> set xs. item_flag x)"
    and room: "int (length (bb_data b)) + 23 + int (length v) + chunk_space b \<le> bb_blockSize b"
  shows "\<exists>b'. Builder_AddContinuationChunk c v b = Ok (True, b') \<and> built b' (xs @ [Cont c v]) \<and> has_room b' (xs @ [Cont c v]) \<and>
    same_settings b b' \<and> builder_ok b' \<and> bb_valueEncoder b' = bb_valueEncoder b \<and> bb_firstKey b' = bb_firstKey b \<and>
    length (bb_data b') \<le> length (bb_data b) + 4 + length v"
proof -
  define b3 where "b3 = append_value v (b\<lparr>bb_data := bb_data b @ [c]\<rparr>)"
  have add: "Builder_AddContinuationChunk c v b = Ok (True, b3)"
    using ok room unfolding Builder_AddContinuationChunk_def by (simp add: spaces(3) b3_def)
  have b3: "built b3 (xs @ [Cont c v])" unfolding b3_def by (rule built_snoc_cont [OF built])
  have set3: "same_settings b b3" "bb_valueEncoder b3 = bb_valueEncoder b" "bb_firstKey b3 = bb_firstKey b"
    by (simp_all add: same_settings_def b3_def append_value_def)
  have ok3: "builder_ok b3" using ok set3 by (simp add: builder_ok_def same_settings_def)
  have cnt: "bb_recordCount b = length xs" using built by (simp add: built_def)
  have "length v < 2 ^ 21"
    using room spaces(1) [OF ok] ok by (auto simp: builder_ok_def)
  then have "length (put_uvarint (of_nat (length v))) \<le> 3" by (rule put_uvarint_nat_small)
  then have data: "length (bb_data b3) \<le> length (bb_data b) + 4 + length v" by (simp add: b3_def append_value_def)
  have "has_room b3 (xs @ [Cont c v])"
  proof -
    have "int (length (db_restartArray (snd (items_enc (fresh_encoder b3) 0 (xs @ [Cont c v]))))) \<le> int (length xs) div bb_restartInterval b3 + 1"
      by (rule restarts_bound(1) [OF ok3])
    moreover have "length (BitSet_Encode (flag_bits (xs @ [Cont c v]))) = 0" using plain by (intro flag_bits_none) auto
    ultimately show ?thesis
      using data room set3(1) unfolding has_room_def chunk_space_def same_settings_def cnt by simp
  qed
  with add b3 set3 ok3 data show ?thesis by auto
qed

section \<open>The layout\<close>

lemma put_at_mid: "p = length pre \<Longrightarrow> length mid = length src \<Longrightarrow> put_at (pre @ mid @ post) p src = Ok (pre @ src @ post)"
  by (simp add: put_at_def overlay_def)

lemma copy_at_mid: "p = length pre \<Longrightarrow> length mid = length src \<Longrightarrow> copy_at (pre @ mid @ post) p src = Ok (pre @ src @ post)"
  by (simp add: copy_at_def overlay_def)

lemma put_restarts_mid:
  "p = length pre \<Longrightarrow> length mid = 4 * length rs \<Longrightarrow>
   put_restarts rs p (pre @ mid @ post) = Ok (pre @ concat (map put_u32 rs) @ post)"
proof (induction rs arbitrary: p pre mid)
  case (Cons r rs)
  have mid: "mid = take 4 mid @ drop 4 mid" "length (take 4 mid) = 4" "length (drop 4 mid) = 4 * length rs"
    using Cons.prems(2) by simp_all
  have "put_at (pre @ take 4 mid @ drop 4 mid @ post) p (put_u32 r) = Ok (pre @ put_u32 r @ drop 4 mid @ post)"
    using Cons.prems(1) mid by (intro put_at_mid) simp_all
  then have "put_at (pre @ mid @ post) p (put_u32 r) = Ok ((pre @ put_u32 r) @ drop 4 mid @ post)"
    using mid(1) by (metis append.assoc)
  with Cons.IH [of "p + 4" "pre @ put_u32 r" "drop 4 mid"] Cons.prems(1) mid(3) show ?case by simp
qed simp

lemma make_bytes_add: "make_bytes (a + b) = make_bytes a @ make_bytes b"
  by (simp add: make_bytes_def replicate_add)

definition block_body :: "nat \<Rightarrow> bytes \<Rightarrow> u32 list \<Rightarrow> bytes \<Rightarrow> bytes" where
  "block_body pad data restarts bitmap =
     data @ concat (map put_u32 restarts) @ make_bytes pad @ put_u32 (of_nat (length data)) @
     put_u32 (of_nat (length restarts)) @ bitmap @ put_u16 (of_nat (length bitmap))"

definition block_image :: "nat \<Rightarrow> bytes \<Rightarrow> u32 list \<Rightarrow> bytes \<Rightarrow> bytes" where
  "block_image pad data restarts bitmap =
     block_body pad data restarts bitmap @ put_u32 (crc32_ChecksumIEEE (block_body pad data restarts bitmap))"

lemma length_concat_u32 [simp]: "length (concat (map put_u32 rs)) = 4 * length rs"
  by (induction rs) auto

lemma length_block_body: "length (block_body pad data restarts bitmap) = length data + 4 * length restarts + pad + 10 + length bitmap"
  by (simp add: block_body_def)

lemma length_items_enc: "length ys \<le> length (fst (items_enc s k ys))"
proof (induction ys arbitrary: s k)
  case (Cons y ys)
  have "1 \<le> length (fst (item_enc s (of_nat k) y))" by (cases y) (simp_all add: header_bytes_def)
  with Cons [of "snd (item_enc s (of_nat k) y)" "k + length (fst (item_enc s (of_nat k) y))"] show ?case
    unfolding items_enc.simps case_prod_unfold Let_def fst_conv length_append list.size by linarith
qed simp

text \<open>A block whose parts fit is written with zeros between the restart offsets and the sizes.\<close>

lemma Finish_image:
  assumes built: "built b xs" and ne: "xs \<noteq> []" and room: "has_room b xs" and ok: "builder_ok b"
  shows "\<exists>pad. Builder_Finish (bb_blockSize b) b =
      Ok (block_image pad (bb_data b) (db_restartArray (snd (items_enc (fresh_encoder b) 0 xs))) (BitSet_Encode (flag_bits xs))) \<and>
    nat (bb_blockSize b) = length (bb_data b) + 4 * length (db_restartArray (snd (items_enc (fresh_encoder b) 0 xs))) + pad + 14 +
      length (BitSet_Encode (flag_bits xs))"
proof -
  define rs where "rs = db_restartArray (snd (items_enc (fresh_encoder b) 0 xs))"
  define bm where "bm = BitSet_Encode (flag_bits xs)"
  define data where "data = bb_data b"
  define n where "n = nat (bb_blockSize b)"
  define pad where "pad = n - (length data + 4 * length rs + 14 + length bm)"
  have bs: "bb_blockSize b = int n" "n < 2 ^ 19" using ok by (auto simp: n_def builder_ok_def)
  have n: "n = length data + 4 * length rs + pad + 14 + length bm" "2 \<le> pad"
    using room bs by (auto simp: has_room_def pad_def rs_def bm_def data_def)
  have bmlen: "length bm < 2 ^ 16"
  proof -
    have "length xs \<le> length data"
      using length_items_enc [of xs "fresh_encoder b" 0] built by (simp add: data_def built_def)
    moreover have "length bm \<le> Suc ((length xs - 1) div 8)" using length_flag_bits [of xs] by (auto simp: bm_def split: if_splits)
    moreover have "length data < 2 ^ 19 - 13" using n(1) bs(2) by linarith
    moreover have "(length xs - 1) div 8 \<le> (length data - 1) div 8" using calculation(1) by (intro div_le_mono diff_le_mono)
    ultimately show ?thesis using n(1) by auto
  qed
  have u: "uint (of_nat (length rs) :: u32) = int (length rs)" "uint (of_nat (length bm) :: u16) = int (length bm)"
    "unat (of_nat (length bm) :: u16) = length bm"
    using n(1) bs(2) bmlen by (simp_all add: unsigned_of_nat take_bit_int_eq_self take_bit_nat_eq_self)
  have u4: "unat (word_of_int (int n) :: u64) = n"
    using bs(2) by (simp add: unsigned_of_nat take_bit_nat_eq_self)
  have mk: "make_len (of_int (int n)) = Ok (make_bytes n)"
    using u4 bs(2) by (simp add: make_len_def max_alloc_def)
  let ?l = "length data" and ?r = "4 * length rs"
  let ?cr = "concat (map put_u32 rs)"
  have Z: "make_bytes n = [] @ make_bytes ?l @ (make_bytes ?r @ make_bytes pad @ make_bytes 4 @ make_bytes 4 @ make_bytes (length bm) @ make_bytes 2 @ make_bytes 4)"
    unfolding n(1) by (simp add: make_bytes_def flip: replicate_add)
  have c1: "copy_at (make_bytes n) 0 data = Ok (data @ make_bytes ?r @ (make_bytes pad @ make_bytes 4 @ make_bytes 4 @ make_bytes (length bm) @ make_bytes 2 @ make_bytes 4))"
    unfolding Z by (subst copy_at_mid) simp_all
  have c2: "put_restarts rs ?l (data @ make_bytes ?r @ (make_bytes pad @ make_bytes 4 @ make_bytes 4 @ make_bytes (length bm) @ make_bytes 2 @ make_bytes 4)) =
      Ok ((data @ ?cr @ make_bytes pad) @ make_bytes 4 @ (make_bytes 4 @ make_bytes (length bm) @ make_bytes 2 @ make_bytes 4))"
    by (subst put_restarts_mid) simp_all
  have c3: "put_at ((data @ ?cr @ make_bytes pad) @ make_bytes 4 @ (make_bytes 4 @ make_bytes (length bm) @ make_bytes 2 @ make_bytes 4))
      (n - 4 - 2 - length bm - 4 - 4) (put_u32 (of_nat ?l)) =
      Ok ((data @ ?cr @ make_bytes pad @ put_u32 (of_nat ?l)) @ make_bytes 4 @ (make_bytes (length bm) @ make_bytes 2 @ make_bytes 4))"
    by (subst put_at_mid) (simp_all add: n(1))
  have c4: "put_at ((data @ ?cr @ make_bytes pad @ put_u32 (of_nat ?l)) @ make_bytes 4 @ (make_bytes (length bm) @ make_bytes 2 @ make_bytes 4))
      (n - 4 - 2 - length bm - 4) (put_u32 (of_nat (length rs))) =
      Ok ((data @ ?cr @ make_bytes pad @ put_u32 (of_nat ?l) @ put_u32 (of_nat (length rs))) @ make_bytes (length bm) @ (make_bytes 2 @ make_bytes 4))"
    by (subst put_at_mid) (simp_all add: n(1))
  have c5: "copy_at ((data @ ?cr @ make_bytes pad @ put_u32 (of_nat ?l) @ put_u32 (of_nat (length rs))) @ make_bytes (length bm) @ (make_bytes 2 @ make_bytes 4))
      (n - 4 - 2 - length bm) bm =
      Ok ((data @ ?cr @ make_bytes pad @ put_u32 (of_nat ?l) @ put_u32 (of_nat (length rs)) @ bm) @ make_bytes 2 @ make_bytes 4)"
    by (subst copy_at_mid) (simp_all add: n(1))
  have c6: "put_at ((data @ ?cr @ make_bytes pad @ put_u32 (of_nat ?l) @ put_u32 (of_nat (length rs)) @ bm) @ make_bytes 2 @ make_bytes 4)
      (n - 4 - 2) (put_u16 (of_nat (length bm))) = Ok (block_body pad data rs bm @ make_bytes 4 @ [])"
    by (subst put_at_mid) (simp_all add: n(1) block_body_def)
  have c7: "put_at (block_body pad data rs bm @ make_bytes 4 @ []) (n - 4)
      (put_u32 (crc32_ChecksumIEEE (take (n - 4) (block_body pad data rs bm @ make_bytes 4 @ [])))) = Ok (block_image pad data rs bm)"
    by (subst put_at_mid) (simp_all add: n(1) length_block_body block_image_def)
  have cond: "\<not> int n < int ?l + uint (of_nat (length rs) :: u32) * 4 + 4 + 4 + 4 + uint (of_nat (length bm) :: u16) + 4"
    unfolding u using n by simp
  have enc: "bb_encoder b = DeltaBytes (snd (items_enc (fresh_encoder b) 0 xs))" "bb_isEncodedBits b = flag_bits xs" "bb_recordCount b \<noteq> 0"
    using built ne by (simp_all add: built_def)
  have "Builder_Finish (int n) b = Ok (block_image pad data rs bm)"
    unfolding Builder_Finish_def Let_def enc(1,2) Encoder_RestartArray.simps bind_r_simps mk
      rs_def [symmetric] bm_def [symmetric] data_def [symmetric] u(3) nat_int
    using enc(3) cond by (simp only: c1 c2 c3 c4 c5 c6 c7 bind_r_simps if_False)
  then show ?thesis
    using n(1) unfolding rs_def bm_def data_def bs(1) by (intro exI [of _ pad]) simp
qed

lemma read_restarts_at:
  "int (length pre) = p \<Longrightarrow> read_restarts (pre @ concat (map put_u32 rs) @ post) p (length rs) = Ok rs"
proof (induction rs arbitrary: p pre)
  case (Cons r rs)
  have "slice_u32 (pre @ put_u32 r @ concat (map put_u32 rs) @ post) p = Ok r"
    unfolding slice_u32_def using Cons.prems
    by (subst go_slice_middle) (simp_all add: put_u32_def get_le_put_le take_bit_word_eq_self)
  moreover have "read_restarts ((pre @ put_u32 r) @ concat (map put_u32 rs) @ post) (p + 4) (length rs) = Ok rs"
    using Cons.prems by (intro Cons.IH) simp
  ultimately show ?case by simp
qed simp

lemma slice_u32_at: "int (length pre) = p \<Longrightarrow> slice_u32 (pre @ put_u32 x @ post) p = Ok x"
  unfolding slice_u32_def by (subst go_slice_middle) (simp_all add: put_u32_def get_le_put_le take_bit_word_eq_self)

lemma open_image:
  assumes size: "length (block_image pad data rs bm) < 2 ^ 19" and bmlen: "length bm < 2 ^ 16"
  shows "NewDataBlockReader (block_image pad data rs bm) ri PrefixCompression dec =
    Ok (reader_at data dec rs (if 0 < length bm then DecodeBitSet bm else NewBitSet 0) (NewDeltaEncoderBytes (of_int ri)) 0 0)"
proof -
  define body where "body = block_body pad data rs bm"
  define img where "img = block_image pad data rs bm"
  have img: "img = body @ put_u32 (crc32_ChecksumIEEE body)" by (simp add: img_def body_def block_image_def)
  have blen: "length body = length data + 4 * length rs + pad + 10 + length bm" by (simp add: body_def length_block_body)
  have n: "length img = length body + 4" by (simp add: img)
  have small: "length data < 2 ^ 19" "length rs < 2 ^ 19" using size n blen by (simp_all add: img_def)
  have u: "uint (of_nat (length data) :: u32) = int (length data)" "unat (of_nat (length rs) :: u32) = length rs"
    "uint (of_nat (length bm) :: u16) = int (length bm)" "0 < (of_nat (length bm) :: u16) \<longleftrightarrow> 0 < length bm"
    using small bmlen by (simp_all add: unsigned_of_nat take_bit_int_eq_self take_bit_nat_eq_self word_less_nat_alt)
  let ?pre = "data @ concat (map put_u32 rs) @ make_bytes pad"
  let ?crc = "put_u32 (crc32_ChecksumIEEE body)"
  have I: "img = ?pre @ put_u32 (of_nat (length data)) @ put_u32 (of_nat (length rs)) @ bm @ put_u16 (of_nat (length bm)) @ ?crc"
    by (simp add: img) (simp add: body_def block_body_def)
  have r1: "read_u32 img (length body) = Ok (crc32_ChecksumIEEE body)" "take (length body) img = body"
    unfolding img using read_put_u32 [of _ body _ "[]"] by simp_all
  have r2: "read_u16 img (length body - 2) = Ok (of_nat (length bm))"
    unfolding I using read_put_u16 [of _ "?pre @ put_u32 (of_nat (length data)) @ put_u32 (of_nat (length rs)) @ bm"] by (simp add: blen ac_simps)
  have r3: "slice_u32 img (int (length ?pre)) = Ok (of_nat (length data))"
    unfolding I by (rule slice_u32_at) simp
  have r4: "slice_u32 img (int (length ?pre) + 4) = Ok (of_nat (length rs))"
    unfolding I using slice_u32_at [of "?pre @ put_u32 (of_nat (length data))"] by simp
  have r5: "read_restarts img (int (length data)) (length rs) = Ok rs"
    unfolding I using read_restarts_at [of data _ rs] by simp
  have r6: "go_slice img (int (length ?pre) + 8) (int (length ?pre) + 8 + int (length bm)) = Ok bm"
    unfolding I using go_slice_middle [of _ "?pre @ put_u32 (of_nat (length data)) @ put_u32 (of_nat (length rs))" _ bm] by (simp add: ac_simps)
  have r7: "go_slice img 0 (int (length data)) = Ok data"
    unfolding I using go_slice_middle [of 0 "[]" _ data] by simp
  have pos: "int (length img) - 4 = int (length body)" "int (length img) - 6 = int (length body - 2)"
    "int (length body - 2) - int (length bm) - 4 - 4 = int (length ?pre)" "int (length body - 2) - int (length bm) - 4 = int (length ?pre) + 4"
    "int (length body - 2) - int (length bm) = int (length ?pre) + 8" "int (length ?pre) + 8 + int (length bm) = int (length body - 2)"
    using n blen by (simp_all add: of_nat_diff)
  define P where "P = int (length ?pre)"
  note at = r3 [folded P_def] r4 [folded P_def] r6 [folded P_def] pos(3-6) [folded P_def]
  have "\<not> length img < 12" using n blen by simp
  then have "NewDataBlockReader img ri PrefixCompression dec =
      Ok (reader_at data dec rs (if 0 < length bm then DecodeBitSet bm else NewBitSet 0) (NewDeltaEncoderBytes (of_int ri)) 0 0)"
    unfolding NewDataBlockReader_def Let_def pos(1,2) nat_int r1 r2 bind_r_simps u(3,4) at(4-6)
    by (simp add: at(1) at(2) [unfolded add.commute [of P]] at(3) r5 r7 u(1,2) reader_at_def)
  then show ?thesis by (simp add: img_def)
qed

lemma Reset_built:
  "built b xs \<Longrightarrow> \<exists>b'. Builder_Reset b = Ok b' \<and> built b' [] \<and> same_settings b b' \<and> bb_valueEncoder b' = bb_valueEncoder b \<and>
     bb_firstKey b' = None"
proof -
  have fields: "db_restartInterval (snd (item_enc s off x)) = db_restartInterval s" for s off x
    by (cases x) (simp_all add: restart_bytes.ivl_enc)
  have ivl: "db_restartInterval (snd (items_enc s n xs)) = db_restartInterval s" for s n xs
    by (induction xs arbitrary: s n) (simp_all add: case_prod_unfold Let_def fields)
  assume "built b xs"
  then show ?thesis
    using ivl [of "fresh_encoder b" 0 xs]
    by (simp add: Builder_Reset_def built_def same_settings_def DeltaEncoderBytes_Reset_def NewDeltaEncoderBytes_def flag_bits_def)
qed

section \<open>A block of records\<close>

fun add_records :: "DataRecord list \<Rightarrow> DataBlockBuilder \<Rightarrow> (bool \<times> DataBlockBuilder) result" where
  "add_records [] b = Ok (True, b)"
| "add_records (r # rs) b = bind_r (Builder_AddRecord r b) (\<lambda>(ok, b). if ok then add_records rs b else Ok (False, b))"

definition add_values :: "bytes list \<Rightarrow> AdaptiveEncoder \<Rightarrow> AdaptiveEncoder" where
  "add_values vs ade = fold (\<lambda>v ade. snd (Adaptive_AddToDict v ade)) vs ade"

fun whole_items :: "AdaptiveEncoder \<Rightarrow> DataRecord list \<Rightarrow> block_item list" where
  "whole_items ade [] = []"
| "whole_items ade (r # rs) =
     whole_item (snd (Adaptive_AddToDict (dr_Value r) ade)) r # whole_items (snd (Adaptive_AddToDict (dr_Value r) ade)) rs"

lemma add_values_simps [simp]:
  "add_values [] ade = ade" "add_values (v # vs) ade = add_values vs (snd (Adaptive_AddToDict v ade))"
  "add_values (vs @ ws) ade = add_values ws (add_values vs ade)"
  by (simp_all add: add_values_def)

lemma add_values_keys: "\<exists>more. a_keys (add_values vs ade) = a_keys ade @ more"
proof (induction vs arbitrary: ade)
  case (Cons v vs)
  obtain m1 where "a_keys (snd (Adaptive_AddToDict v ade)) = a_keys ade @ m1" using AddToDict_keys by blast
  moreover obtain m2 where "a_keys (add_values vs (snd (Adaptive_AddToDict v ade))) = a_keys (snd (Adaptive_AddToDict v ade)) @ m2"
    using Cons by blast
  ultimately show ?case by simp
qed simp

lemma add_values_mono: "length (a_keys ade) \<le> length (a_keys (add_values vs ade))"
  using add_values_keys [of vs ade] by auto

lemma grown_values: "adaptive_inv ade \<Longrightarrow> length (a_keys (add_values vs ade)) \<le> 2 ^ 48 \<Longrightarrow> grown ade (add_values vs ade)"
  using add_values_keys [of vs ade] adaptive_inv_adds [of ade vs] by (auto simp: grown_def add_values_def)

lemma grown_decode_small:
  assumes "grown ade dec" "length (a_keys dec) \<le> 256" "Adaptive_Encode ade v = Ok e"
  shows "Adaptive_Decode dec e = Ok v"
proof (cases "a_keys ade = []")
  case True
  then have "a_dictionary ade v = None"
    using assms(1) by (auto simp: grown_def adaptive_inv_def indexed_def)
  with assms(3) show ?thesis by (auto simp: Adaptive_Encode_def Adaptive_Decode_def)
next
  case False
  have "index_bytes (length (a_keys ade)) = 1" "index_bytes (length (a_keys dec)) = 1"
    by (rule index_bytes_small, use False grown_length [OF assms(1)] assms(2) in \<open>auto simp del: One_nat_def\<close>)+
  then show ?thesis using grown_decode [OF assms(1) _ assms(3)] by simp
qed

lemma readable_whole_item:
  assumes "grown ade dec" "length (a_keys dec) \<le> 256" "dr_OpType rec \<le> 3" "slice_ok (dr_Key rec)"
  shows "readable dec (whole_item ade rec) \<and> item_record (whole_item ade rec) = rec\<lparr>dr_ChunkType := ChunkTypeFull\<rparr>"
proof -
  have "adaptive_inv ade" "length (a_keys ade) \<le> 2 ^ 48" using assms(1) grown_length [OF assms(1)] by (auto simp: grown_def)
  then show ?thesis
  proof (cases rule: Adaptive_Encode_cases [where v = "dr_Value rec"])
    case 1
    then show ?thesis using assms by (simp add: whole_item_def)
  next
    case (2 idx)
    with grown_decode_small [OF assms(1,2) 2(2)] assms show ?thesis by (simp add: whole_item_def)
  qed
qed

lemma whole_items_readable:
  assumes "adaptive_inv ade" "grown (add_values (map dr_Value recs) ade) dec" "length (a_keys dec) \<le> 256"
    and "list_all (\<lambda>r. dr_OpType r \<le> 3 \<and> slice_ok (dr_Key r)) recs"
  shows "list_all (readable dec) (whole_items ade recs) \<and>
    map item_record (whole_items ade recs) = map (\<lambda>r. r\<lparr>dr_ChunkType := ChunkTypeFull\<rparr>) recs"
  using assms
proof (induction recs arbitrary: ade)
  case (Cons r recs)
  let ?a = "snd (Adaptive_AddToDict (dr_Value r) ade)"
  have inv: "adaptive_inv ?a" by (rule adaptive_inv_AddToDict) (rule Cons.prems(1))
  have g: "grown (add_values (map dr_Value recs) ?a) dec" using Cons.prems(2) by simp
  have "length (a_keys (add_values (map dr_Value recs) ?a)) \<le> 2 ^ 48"
    using grown_length [OF g] g by (auto simp: grown_def)
  from grown_trans [OF grown_values [OF inv this] g]
  have "readable dec (whole_item ?a r) \<and> item_record (whole_item ?a r) = r\<lparr>dr_ChunkType := ChunkTypeFull\<rparr>"
    using Cons.prems(3,4) by (intro readable_whole_item) auto
  with Cons.IH [OF inv g Cons.prems(3)] Cons.prems(4) show ?case by simp
qed simp

lemma add_records_built:
  assumes "builder_ok b" "built b xs" "add_records recs b = Ok (True, b')"
    and "length (a_keys (add_values (map dr_Value recs) (bb_valueEncoder b))) \<le> 2 ^ 48"
  shows "built b' (xs @ whole_items (bb_valueEncoder b) recs) \<and> builder_ok b' \<and> same_settings b b' \<and>
    bb_valueEncoder b' = add_values (map dr_Value recs) (bb_valueEncoder b) \<and>
    (has_room b xs \<or> recs \<noteq> [] \<longrightarrow> has_room b' (xs @ whole_items (bb_valueEncoder b) recs))"
  using assms
proof (induction recs arbitrary: b xs)
  case Nil
  then show ?case by (simp add: same_settings_def)
next
  case (Cons r recs)
  have keys: "length (a_keys (encoder_after r b)) \<le> 2 ^ 48"
    using Cons.prems(4) add_values_mono [of "encoder_after r b" "map dr_Value recs"] by simp
  show ?case
  proof (cases "bb_blockSize b < int (length (bb_data b)) + record_space r b")
    case True
    with AddRecord_full [OF Cons.prems(1) True] Cons.prems(3) show ?thesis by simp
  next
    case False
    then have "int (length (bb_data b)) + record_space r b \<le> bb_blockSize b" by simp
    from AddRecord_added [OF Cons.prems(1,2) this keys] obtain b1 where
      b1: "Builder_AddRecord r b = Ok (True, b1)" "built b1 (xs @ [whole_item (encoder_after r b) r])"
        "has_room b1 (xs @ [whole_item (encoder_after r b) r])" "same_settings b b1" "builder_ok b1"
        "bb_valueEncoder b1 = encoder_after r b" by blast
    have "add_records recs b1 = Ok (True, b')" using Cons.prems(3) b1(1) by simp
    from Cons.IH [OF b1(5,2) this] b1(3,4,6) Cons.prems(4) show ?thesis by (simp add: same_settings_def)
  qed
qed

lemma NewDataBlockBuilder_built:
  assumes "NewDataBlockBuilder PrefixCompression ri bs ve = Ok b"
  shows "built b [] \<and> bb_restartInterval b = ri \<and> bb_blockSize b = bs \<and> bb_valueEncoder b = ve \<and> 0 \<le> bs"
  using assms by (auto simp: NewDataBlockBuilder_def built_def flag_bits_def split: if_splits)

definition opened :: "DataBlockBuilder \<Rightarrow> block_item list \<Rightarrow> AdaptiveEncoder \<Rightarrow> DataBlockReader" where
  "opened b xs dec =
     reader_at (bb_data b) dec (db_restartArray (snd (items_enc (fresh_encoder b) 0 xs)))
       (if 0 < length (BitSet_Encode (flag_bits xs)) then DecodeBitSet (BitSet_Encode (flag_bits xs)) else NewBitSet 0)
       (fresh_encoder b) 0 0"

text \<open>A finished block opens, with the reader before its first item; a block changed in one byte does not.\<close>

lemma finished_block:
  assumes "built b xs" "xs \<noteq> []" "has_room b xs" "builder_ok b"
  obtains block where "Builder_Finish (bb_blockSize b) b = Ok block" "int (length block) = bb_blockSize b"
    "NewDataBlockReader block (bb_restartInterval b) PrefixCompression dec = Ok (opened b xs dec)"
    "\<forall>i v. i < length block \<and> v \<noteq> block ! i \<longrightarrow>
       NewDataBlockReader (block[i := v]) (bb_restartInterval b) PrefixCompression dec = Inl (Error ''CRC mismatch right here'')"
proof -
  define rs where "rs = db_restartArray (snd (items_enc (fresh_encoder b) 0 xs))"
  define bm where "bm = BitSet_Encode (flag_bits xs)"
  from Finish_image [OF assms(1-4)] obtain pad where
    fin: "Builder_Finish (bb_blockSize b) b = Ok (block_image pad (bb_data b) rs bm)"
    and n: "nat (bb_blockSize b) = length (bb_data b) + 4 * length rs + pad + 14 + length bm"
    unfolding rs_def bm_def by blast
  define block where "block = block_image pad (bb_data b) rs bm"
  have len: "length block = nat (bb_blockSize b)" by (simp add: block_def block_image_def length_block_body n)
  then have size: "int (length block) = bb_blockSize b" "length block < 2 ^ 19" using assms(4) by (auto simp: builder_ok_def)
  have bmlen: "length bm < 2 ^ 16"
  proof -
    have "(length xs - 1) div 8 \<le> (length (bb_data b) - 1) div 8"
      using length_items_enc [of xs "fresh_encoder b" 0] assms(1) by (intro div_le_mono diff_le_mono) (simp add: built_def)
    moreover have "length bm \<le> Suc ((length xs - 1) div 8)"
      using length_flag_bits [of xs] by (auto simp: bm_def split: if_splits)
    moreover have "length (bb_data b) < 2 ^ 19 - 13" using n len size(2) by linarith
    ultimately show ?thesis by auto
  qed
  have crc: "block = block_body pad (bb_data b) rs bm @ put_u32 (crc32_ChecksumIEEE (block_body pad (bb_data b) rs bm))"
    by (simp add: block_def block_image_def)
  have bad: "NewDataBlockReader (block[i := v]) (bb_restartInterval b) PrefixCompression dec = Inl (Error ''CRC mismatch right here'')"
    if "i < length block" "v \<noteq> block ! i" for i v
  proof -
    let ?k = "length (block_body pad (bb_data b) rs bm)"
    from crc_trailer_detects [OF crc that]
    have ne: "get_le (drop ?k (block[i := v])) \<noteq> crc32_ChecksumIEEE (take ?k (block[i := v]))" .
    have l: "length block = ?k + 4" "12 \<le> length block" by (simp_all add: crc length_block_body)
    have p: "nat (int (length (block[i := v])) - 4) = ?k" using l by simp
    have "read_u32 (block[i := v]) ?k = Ok (get_le (drop ?k (block[i := v])))"
      using l(1) by (simp add: read_le_def)
    with ne l(2) show ?thesis unfolding NewDataBlockReader_def Let_def p by simp
  qed
  have "NewDataBlockReader block (bb_restartInterval b) PrefixCompression dec =
      Ok (reader_at (bb_data b) dec rs (if 0 < length bm then DecodeBitSet bm else NewBitSet 0) (fresh_encoder b) 0 0)"
    unfolding block_def by (rule open_image) (use size(2) bmlen in \<open>simp_all add: block_def\<close>)
  with fin size(1) bad show thesis
    unfolding rs_def bm_def block_def by (intro that [unfolded opened_def]) auto
qed

lemma read_opened:
  assumes "built b xs" "builder_ok b" "has_room b xs" "list_all (readable dec) xs"
  obtains r where "decode_all Reader_ReadRecord (length xs) (opened b xs dec) = (Ok (map item_record xs), r)" "\<not> Reader_HasNext r"
proof -
  have D: "fst (items_enc (fresh_encoder b) 0 xs) = bb_data b" using assms(1) by (simp add: built_def)
  have ok: "slice_ok (bb_data b)" using assms(2,3) by (auto simp: has_room_def builder_ok_def slice_ok_def max_alloc_def)
  have sim: "bytes_sim (fresh_encoder b) (fresh_encoder b)" by (simp add: bytes_sim_def)
  have "bb_data b = [] @ fst (items_enc (fresh_encoder b) 0 xs) @ []" by (simp add: D)
  note read = read_items_at [OF sim assms(4) this ok, where i = 0, unfolded add_0 list.size(3) D]
  have "\<exists>t'. decode_all Reader_ReadRecord (length xs) (opened b xs dec) = (Ok (map item_record xs),
      reader_at (bb_data b) dec (db_restartArray (snd (items_enc (fresh_encoder b) 0 xs)))
       (if 0 < length (BitSet_Encode (flag_bits xs)) then DecodeBitSet (BitSet_Encode (flag_bits xs)) else NewBitSet 0)
       t' (length (bb_data b)) (length xs)) \<and> bytes_sim (snd (items_enc (fresh_encoder b) 0 xs)) t'"
    unfolding opened_def by (rule read) (rule flag_bits_Get)
  then show thesis by (elim exE conjE) (rule that, assumption, simp add: Reader_HasNext_def)
qed

lemma grown_loaded:
  assumes "adaptive_inv ade" "final = add_values later ade" "list_all slice_ok (a_keys final)" "length (a_keys final) \<le> 2 ^ 48"
    and "ReadDictionary (Adaptive_SaveDict final) (NewAdaptiveDictEncoderFrequency t w) = (res, dec)"
  shows "grown ade dec \<and> a_keys dec = a_keys final"
proof -
  have inv: "adaptive_inv final" unfolding assms(2) add_values_def by (rule adaptive_inv_adds [OF assms(1)])
  have "a_nextId (NewAdaptiveDictEncoderFrequency t w) = 0" by (simp add: NewAdaptiveDictEncoderFrequency_def)
  from ReadDictionary_SaveDict [OF inv assms(3,4) this] obtain ade' where
    "ReadDictionary (Adaptive_SaveDict final) (NewAdaptiveDictEncoderFrequency t w) = (Ok (), ade')"
    "adaptive_inv ade'" "a_keys ade' = a_keys final" .
  with assms(1,2,4,5) add_values_keys [of later ade] show ?thesis by (auto simp: grown_def)
qed

text \<open>What is known of the block that a run of accepted records gives.\<close>

lemma records_block:
  assumes "ve = add_values earlier (NewAdaptiveDictEncoderFrequency threshold window)"
    and "NewDataBlockBuilder PrefixCompression ri bs ve = Ok b0" "add_records recs b0 = Ok (True, b)" "recs \<noteq> []"
    and "0 < ri" "ri < 2 ^ 31" "bs < 2 ^ 19" "list_all (\<lambda>r. dr_OpType r \<le> 3 \<and> slice_ok (dr_Key r)) recs"
    and "final = add_values (map dr_Value recs @ later) ve" "length (a_keys final) \<le> 256" "list_all slice_ok (a_keys final)"
    and "ReadDictionary (Adaptive_SaveDict final) (NewAdaptiveDictEncoderFrequency t w) = (res, dec)"
  obtains block xs where "built b xs" "builder_ok b" "has_room b xs" "list_all (readable dec) xs" "list_all keyed xs" "xs \<noteq> []"
    "length xs = length recs" "map item_record xs = map (\<lambda>rec. rec\<lparr>dr_ChunkType := ChunkTypeFull\<rparr>) recs"
    "Builder_Finish bs b = Ok block" "int (length block) = bs"
    "NewDataBlockReader block ri PrefixCompression dec = Ok (opened b xs dec)"
    "\<forall>i v. i < length block \<and> v \<noteq> block ! i \<longrightarrow>
       NewDataBlockReader (block[i := v]) ri PrefixCompression dec = Inl (Error ''CRC mismatch right here'')"
proof -
  note new = NewDataBlockBuilder_built [OF assms(2)]
  have inv: "adaptive_inv ve"
    unfolding assms(1) add_values_def by (rule adaptive_inv_adds [OF adaptive_inv_New])
  have le: "length (a_keys ve) \<le> length (a_keys (add_values (map dr_Value recs) ve))"
    "length (a_keys (add_values (map dr_Value recs) ve)) \<le> length (a_keys final)"
    using add_values_mono by (simp_all add: assms(9))
  have ok0: "builder_ok b0" using new inv le assms(5-7,10) by (simp add: builder_ok_def)
  have keys: "length (a_keys (add_values (map dr_Value recs) (bb_valueEncoder b0))) \<le> 2 ^ 48"
    using new le assms(10) by simp
  define xs where "xs = whole_items ve recs"
  have b: "built b xs" "builder_ok b" "has_room b xs" "bb_restartInterval b = ri" "bb_blockSize b = bs"
    using add_records_built [OF ok0 _ assms(3) keys, of "[]"] new assms(4) by (auto simp: xs_def same_settings_def)
  have inv1: "adaptive_inv (add_values (map dr_Value recs) ve)"
    unfolding add_values_def by (rule adaptive_inv_adds [OF inv])
  have g: "grown (add_values (map dr_Value recs) ve) dec" and dec: "a_keys dec = a_keys final"
    using grown_loaded [OF inv1 _ assms(11) _ assms(12), of later] assms(9,10) by auto
  have rd: "list_all (readable dec) xs" "map item_record xs = map (\<lambda>rec. rec\<lparr>dr_ChunkType := ChunkTypeFull\<rparr>) recs"
    using whole_items_readable [OF inv g _ assms(8)] dec assms(10) by (simp_all add: xs_def)
  have len: "length xs = length recs" using arg_cong [OF rd(2), of length] by simp
  have ne: "xs \<noteq> []" using len assms(4) by (metis length_0_conv)
  obtain block where block: "Builder_Finish bs b = Ok block" "int (length block) = bs"
      "NewDataBlockReader block ri PrefixCompression dec = Ok (opened b xs dec)"
      "\<forall>i v. i < length block \<and> v \<noteq> block ! i \<longrightarrow>
       NewDataBlockReader (block[i := v]) ri PrefixCompression dec = Inl (Error ''CRC mismatch right here'')"
    by (rule finished_block [OF b(1) ne b(3,2), unfolded b(4,5)])
  have keyed: "list_all keyed (whole_items ade rs)" for ade rs
    by (induction rs arbitrary: ade) (auto simp: whole_item_def split: sum.split list.split)
  show thesis
    by (rule that [OF b(1,2,3) rd(1) _ ne len rd(2) block]) (simp add: xs_def keyed)
qed

section \<open>Properties\<close>

text \<open>C14: What \<^verbatim>\<open>AddRecord\<close> accepted can be finished, in a block of exactly the block size, and the reader of that block,
  with the dictionary as it was saved when the table was done, returns the records in order and nothing more, provided the
  dictionary has at most 256 values then. A block that differs in one byte is rejected.\<close>

theorem data_block_roundtrip:
  assumes "ve = add_values earlier (NewAdaptiveDictEncoderFrequency threshold window)"
    and "NewDataBlockBuilder PrefixCompression ri bs ve = Ok b0" "add_records recs b0 = Ok (True, b)" "recs \<noteq> []"
    and "0 < ri" "ri < 2 ^ 31" "bs < 2 ^ 19" "list_all (\<lambda>r. dr_OpType r \<le> 3 \<and> slice_ok (dr_Key r)) recs"
    and "final = add_values (map dr_Value recs @ later) ve" "length (a_keys final) \<le> 256" "list_all slice_ok (a_keys final)"
    and "ReadDictionary (Adaptive_SaveDict final) (NewAdaptiveDictEncoderFrequency t w) = (res, dec)"
  shows "\<exists>block r r'. Builder_Finish bs b = Ok block \<and> int (length block) = bs \<and>
    NewDataBlockReader block ri PrefixCompression dec = Ok r \<and>
    decode_all Reader_ReadRecord (length recs) r = (Ok (map (\<lambda>rec. rec\<lparr>dr_ChunkType := ChunkTypeFull\<rparr>) recs), r') \<and>
    \<not> Reader_HasNext r' \<and>
    (\<forall>i v. i < length block \<and> v \<noteq> block ! i \<longrightarrow>
       NewDataBlockReader (block[i := v]) ri PrefixCompression dec = Inl (Error ''CRC mismatch right here''))"
proof -
  obtain block xs where b: "built b xs" "builder_ok b" "has_room b xs" "list_all (readable dec) xs" "list_all keyed xs" "xs \<noteq> []"
    and len: "length xs = length recs" and rd: "map item_record xs = map (\<lambda>rec. rec\<lparr>dr_ChunkType := ChunkTypeFull\<rparr>) recs"
    and block: "Builder_Finish bs b = Ok block" "int (length block) = bs"
      "NewDataBlockReader block ri PrefixCompression dec = Ok (opened b xs dec)"
      "\<forall>i v. i < length block \<and> v \<noteq> block ! i \<longrightarrow>
       NewDataBlockReader (block[i := v]) ri PrefixCompression dec = Inl (Error ''CRC mismatch right here'')"
    by (rule records_block [OF assms])
  obtain r' where all: "decode_all Reader_ReadRecord (length xs) (opened b xs dec) = (Ok (map item_record xs), r')" "\<not> Reader_HasNext r'"
    by (rule read_opened [OF b(1-4)])
  show ?thesis
    by (intro exI conjI) (fact block(1), fact block(2), fact block(3), rule all(1) [unfolded len rd], fact all(2), fact block(4))
qed

definition example_records :: "DataRecord list" where
  "example_records =
     [\<lparr>dr_SeqId = 7, dr_OpType = OpTypePut, dr_ExpiresAt = 0, dr_Key = [1, 2], dr_Value = [9], dr_ChunkType = 0\<rparr>,
      \<lparr>dr_SeqId = 6, dr_OpType = OpTypePut, dr_ExpiresAt = 0, dr_Key = [1, 3], dr_Value = [9], dr_ChunkType = 0\<rparr>]"

definition example_builder :: "AdaptiveEncoder \<Rightarrow> DataBlockBuilder" where
  "example_builder ve = \<lparr>bb_encoder = DeltaBytes (NewDeltaEncoderBytes 2), bb_valueEncoder = ve, bb_data = [], bb_restartInterval = 2,
     bb_blockSize = 256, bb_recordCount = 0, bb_firstKey = None, bb_lastKey = [], bb_isEncodedBits = NewBitSet 0\<rparr>"

lemma example_builder: "NewDataBlockBuilder PrefixCompression 2 256 ve = Ok (example_builder ve)"
  by (simp add: NewDataBlockBuilder_def max_alloc_def example_builder_def)

theorem data_block_roundtrip_witness:
  "\<exists>b0 b block dec r r'. NewDataBlockBuilder PrefixCompression 2 256 (NewAdaptiveDictEncoderFrequency 2 5) = Ok b0 \<and>
     add_records example_records b0 = Ok (True, b) \<and> Builder_Finish 256 b = Ok block \<and>
     NewDataBlockReader block 2 PrefixCompression dec = Ok r \<and>
     decode_all Reader_ReadRecord 2 r = (Ok example_records, r')"
proof -
  let ?ve = "add_values [] (NewAdaptiveDictEncoderFrequency 2 5)"
  let ?final = "add_values (map dr_Value example_records @ []) ?ve"
  note b0 = example_builder [of ?ve]
  have "case add_records example_records (example_builder ?ve) of Inr (True, b) \<Rightarrow> True | _ \<Rightarrow> False" by code_simp
  then obtain b where b: "add_records example_records (example_builder ?ve) = Ok (True, b)"
    by (simp only: split: sum.splits prod.splits bool.splits)
  have keys: "a_keys ?final = [[9]]" by code_simp
  obtain res dec where dec: "ReadDictionary (Adaptive_SaveDict ?final) (NewAdaptiveDictEncoderFrequency 2 5) = (res, dec)"
    by fastforce
  have "list_all (\<lambda>r. dr_OpType r \<le> 3 \<and> slice_ok (dr_Key r)) example_records" "example_records \<noteq> []"
    "map (\<lambda>rec. rec\<lparr>dr_ChunkType := ChunkTypeFull\<rparr>) example_records = example_records" "length example_records = 2"
    by (simp_all add: example_records_def slice_ok_def max_alloc_def)
  with data_block_roundtrip [OF refl b0 b _ _ _ _ _ refl _ _ dec] keys b0 b show ?thesis
    by (simp add: slice_ok_def max_alloc_def) blast
qed

text \<open>C17: The indices in a block are not rewritten when the dictionary of the table grows. Once it has more than 256 values an
  index takes two bytes, and a record that was stored with an index of one byte cannot be read any more: its block opens,
  and reading it fails.\<close>

theorem data_block_dictionary_outgrown:
  assumes "ve = add_values earlier (NewAdaptiveDictEncoderFrequency threshold window)"
    and "NewDataBlockBuilder PrefixCompression ri bs ve = Ok b0" "Builder_AddRecord rec b0 = Ok (True, b)"
    and "0 < ri" "ri < 2 ^ 31" "bs < 2 ^ 19" "dr_OpType rec \<le> 3" "slice_ok (dr_Key rec)"
    and "a_dictionary (add_values [dr_Value rec] ve) (dr_Value rec) = Some idx" "length (a_keys (add_values [dr_Value rec] ve)) \<le> 256"
    and "final = add_values (dr_Value rec # later) ve" "256 < length (a_keys final)" "length (a_keys final) \<le> 2 ^ 48"
    and "list_all slice_ok (a_keys final)"
    and "ReadDictionary (Adaptive_SaveDict final) (NewAdaptiveDictEncoderFrequency t w) = (res, dec)"
  shows "\<exists>block r r'. Builder_Finish bs b = Ok block \<and> NewDataBlockReader block ri PrefixCompression dec = Ok r \<and>
    Reader_ReadRecord r = (Inl (Error ''encoded too short''), r')"
proof -
  define ade where "ade = add_values [dr_Value rec] ve"
  note new = NewDataBlockBuilder_built [OF assms(2)]
  have inv: "adaptive_inv ve"
    unfolding assms(1) add_values_def by (rule adaptive_inv_adds [OF adaptive_inv_New])
  have inv1: "adaptive_inv ade" unfolding ade_def add_values_def by (rule adaptive_inv_adds [OF inv])
  have len: "length (a_keys ade) \<le> 256" "length (a_keys ve) \<le> length (a_keys ade)"
    using assms(10) add_values_mono [of ve] by (simp_all add: ade_def del: add_values_simps)
  have g: "grown ade dec" "a_keys dec = a_keys final"
    using grown_loaded [OF inv1 _ assms(14,13,15), of later] by (simp_all add: assms(11) ade_def)
  have ok0: "builder_ok b0" using new inv len assms(4-6) by (simp add: builder_ok_def)
  have one: "add_records [rec] b0 = Ok (True, b)" using assms(3) by simp
  have "length (a_keys (add_values (map dr_Value [rec]) (bb_valueEncoder b0))) \<le> 2 ^ 48"
    using new len(1) by (simp add: ade_def)
  from add_records_built [OF ok0 _ one this, of "[]"] new
  have b: "built b [whole_item ade rec]" "builder_ok b" "has_room b [whole_item ade rec]" "bb_restartInterval b = ri" "bb_blockSize b = bs"
    by (auto simp: ade_def same_settings_def)
  obtain block where block: "Builder_Finish bs b = Ok block"
      "NewDataBlockReader block ri PrefixCompression dec = Ok (opened b [whole_item ade rec] dec)"
    by (rule finished_block [OF b(1) _ b(3,2), unfolded b(4,5), where dec = dec]) auto
  have dict: "a_dictionary ade (dr_Value rec) = Some idx" "length (a_keys ade) \<le> 2 ^ 48"
    using assms(9) len(1) by (simp_all add: ade_def)
  from Adaptive_Encode_Some [OF inv1 dict(2,1)] obtain stored where
    enc: "Adaptive_Encode ade (dr_Value rec) = Ok (1 # stored)" by blast
  have item: "whole_item ade rec = Keyed (rec\<lparr>dr_ChunkType := ChunkTypeFull\<rparr>) stored True" by (simp add: whole_item_def enc)
  have "0 < length (a_keys ade)" using adaptive_indexed [OF inv1 dict(2,1)] by (metis gr_implies_not0 not_gr_zero)
  then have "index_bytes (length (a_keys ade)) < index_bytes (length (a_keys dec))"
    using index_bytes_small [of "length (a_keys ade)"] index_bytes_large [of "length (a_keys dec)"] len(1) g(2) assms(12) by simp
  from outgrown_decode [OF g(1) this enc dict(1)]
  have bad: "Adaptive_Decode dec (1 # stored) = Inl (Error ''encoded too short'')" .
  have D: "bb_data b = [] @ fst (item_enc (fresh_encoder b) (of_nat 0) (Keyed (rec\<lparr>dr_ChunkType := ChunkTypeFull\<rparr>) stored True)) @ []"
    using b(1) by (simp add: built_def item case_prod_unfold Let_def)
  have ok: "slice_ok (bb_data b)" using b(2,3) by (auto simp: has_room_def builder_ok_def slice_ok_def max_alloc_def)
  have sim: "bytes_sim (fresh_encoder b) (fresh_encoder b)" by (simp add: bytes_sim_def)
  define bits where "bits = (if 0 < length (BitSet_Encode (flag_bits [whole_item ade rec]))
      then DecodeBitSet (BitSet_Encode (flag_bits [whole_item ade rec])) else NewBitSet 0)"
  have bit: "BitSet_Get bits 0 = True" using flag_bits_Get [of 0 "[whole_item ade rec]"] by (simp only: bits_def) (simp add: item)
  define ra where "ra = db_restartArray (snd (items_enc (fresh_encoder b) 0 [whole_item ade rec]))"
  have op: "opened b [whole_item ade rec] dec = reader_at (bb_data b) dec ra bits (fresh_encoder b) (length ([] :: bytes)) 0"
    by (simp add: opened_def bits_def ra_def)
  have D1: "bb_data b = [] @ ChunkTypeFull # drop 1 (bb_data b)" using D by (simp add: header_bytes_def)
  from read_keyed_cases [OF sim _ _ D ok bit refl, of dec ra] assms(7,8) obtain t' where
    "read_keyed ChunkTypeFull (reader_at (bb_data b) dec ra bits (fresh_encoder b) (Suc (length ([] :: bytes))) 0) =
       (Inl (Error ''encoded too short''), t')"
    by (auto simp: bad Let_def)
  then have "Reader_ReadRecord (opened b [whole_item ade rec] dec) = (Inl (Error ''encoded too short''), t')"
    unfolding op by (subst read_chunk_type [OF D1 ok]) simp
  with block show ?thesis by blast
qed

text \<open>A value added twice in a row enters the dictionary.\<close>

lemma add_twice:
  assumes "a_dictionary ade v = None" "a_candidates ade = Map.empty" "a_threshold ade = 2" "a_windowSize ade = 5"
  shows "a_keys (add_values [v, v] ade) = a_keys ade @ [v] \<and> a_candidates (add_values [v, v] ade) = Map.empty \<and>
    a_threshold (add_values [v, v] ade) = 2 \<and> a_windowSize (add_values [v, v] ade) = 5 \<and>
    dom (a_dictionary (add_values [v, v] ade)) = insert v (dom (a_dictionary ade))"
  using assms by (auto simp: Adaptive_AddToDict_def Let_def expire_candidates_def Adaptive_updateBitWidth_def fun_eq_iff)

lemma add_all_twice:
  assumes "distinct (a_keys ade @ vs)" "dom (a_dictionary ade) = set (a_keys ade)" "a_candidates ade = Map.empty"
    "a_threshold ade = 2" "a_windowSize ade = 5"
  shows "a_keys (add_values (concat (map (\<lambda>v. [v, v]) vs)) ade) = a_keys ade @ vs"
  using assms
proof (induction vs arbitrary: ade)
  case (Cons v vs)
  let ?a = "add_values [v, v] ade"
  have "a_dictionary ade v = None" using Cons.prems(1,2) by (auto simp: domIff)
  from add_twice [OF this Cons.prems(3-5)] Cons.IH [of ?a] Cons.prems(1,2) show ?case by simp
qed simp

definition many_values :: "bytes list" where
  "many_values = map (\<lambda>n. [of_nat n, of_nat (n div 256)]) [0..<257]"

lemma many_values: "distinct many_values" "length many_values = 257" "list_all slice_ok many_values" "many_values = [0, 0] # tl many_values"
proof -
  have "inj_on (\<lambda>n. [of_nat n, of_nat (n div 256)] :: bytes) {0..<257}"
  proof (rule inj_onI)
    fix m n :: nat
    assume lt: "m \<in> {0..<257}" "n \<in> {0..<257}" and eq: "([of_nat m, of_nat (m div 256)] :: bytes) = [of_nat n, of_nat (n div 256)]"
    have byte: "(of_nat a :: byte) = of_nat b \<Longrightarrow> a mod 256 = b mod 256" for a b
      by (drule arg_cong [of _ _ unat]) (simp add: unsigned_of_nat take_bit_eq_mod)
    have "m mod 256 = n mod 256" "m div 256 mod 256 = n div 256 mod 256" using eq by (auto intro: byte)
    moreover have "m div 256 mod 256 = m div 256" "n div 256 mod 256 = n div 256" using lt by auto
    ultimately show "m = n" by (metis div_mult_mod_eq)
  qed
  then show "distinct many_values" by (simp add: many_values_def distinct_map)
  show "length many_values = 257" by (simp add: many_values_def)
  show "list_all slice_ok many_values" by (simp add: many_values_def list_all_iff slice_ok_def max_alloc_def)
  show "many_values = [0, 0] # tl many_values" by (simp add: many_values_def upt_conv_Cons)
qed

theorem data_block_dictionary_outgrown_witness:
  "\<exists>b0 b block dec r r'. NewDataBlockBuilder PrefixCompression 2 256 (add_values [[0, 0]] (NewAdaptiveDictEncoderFrequency 2 5)) = Ok b0 \<and>
     Builder_AddRecord \<lparr>dr_SeqId = 7, dr_OpType = OpTypePut, dr_ExpiresAt = 0, dr_Key = [1], dr_Value = [0, 0], dr_ChunkType = 0\<rparr> b0 = Ok (True, b) \<and>
     Builder_Finish 256 b = Ok block \<and> NewDataBlockReader block 2 PrefixCompression dec = Ok r \<and>
     Reader_ReadRecord r = (Inl (Error ''encoded too short''), r')"
proof -
  let ?new = "NewAdaptiveDictEncoderFrequency 2 5" and ?rec = "\<lparr>dr_SeqId = 7, dr_OpType = OpTypePut, dr_ExpiresAt = 0, dr_Key = [1], dr_Value = [0, 0], dr_ChunkType = 0\<rparr>"
  let ?ve = "add_values [[0, 0]] ?new"
  let ?final = "add_values (dr_Value ?rec # concat (map (\<lambda>v. [v, v]) (tl many_values))) ?ve"
  have "?final = add_values (concat (map (\<lambda>v. [v, v]) ([0, 0] # tl many_values))) ?new" by simp
  then have "?final = add_values (concat (map (\<lambda>v. [v, v]) many_values)) ?new" using many_values(4) by simp
  then have keys: "a_keys ?final = many_values"
    using add_all_twice [of ?new many_values] many_values(1) by (simp add: NewAdaptiveDictEncoderFrequency_def)
  note b0 = example_builder [of ?ve]
  have "case Builder_AddRecord ?rec (example_builder ?ve) of Inr (True, b) \<Rightarrow> True | _ \<Rightarrow> False" by code_simp
  then obtain b where b: "Builder_AddRecord ?rec (example_builder ?ve) = Ok (True, b)"
    by (simp only: split: sum.splits prod.splits bool.splits)
  obtain res dec where dec: "ReadDictionary (Adaptive_SaveDict ?final) ?new = (res, dec)" by fastforce
  have dict: "a_dictionary (add_values [dr_Value ?rec] ?ve) (dr_Value ?rec) = Some 0" by code_simp
  have small: "length (a_keys (add_values [dr_Value ?rec] ?ve)) \<le> 256" by code_simp
  from data_block_dictionary_outgrown [OF refl b0 b _ _ _ _ _ dict small refl _ _ _ dec] keys many_values(2,3) b0 b
  show ?thesis by (simp add: slice_ok_def max_alloc_def) blast
qed

end
