(* ===== verification/Block_Iterator.thy ===== *)
theory Block_Iterator
  imports Data_Block Iterators
begin

text \<open>
  The iterator over one data block (\<^verbatim>\<open>DataBlockIteratorRaw\<close> in \<^verbatim>\<open>sstable/data.go\<close>): walking the records, the
  search by restart points, and the search for the last record. An error of the reader makes the iterator
  invalid, a panic goes up. The scans over a block are partial: \<open>None\<close> would be a loop that never ends.

  Shown here: on a block of whole records in the order of their keys, \<^verbatim>\<open>Seek\<close> finds the first record that
  is not below the target, from wherever the iterator stands, and \<^verbatim>\<open>Next\<close> walks on from there; and what
  \<^verbatim>\<open>Seek\<close> returns in a block that begins with the last chunk of a long value.
\<close>

section \<open>The iterator\<close>

record DataBlockIteratorRaw =
  bi_reader :: DataBlockReader
  bi_current :: "DataRecord option"
  bi_valid :: bool

text \<open>A call of the reader whose error is caught; a panic is not.\<close>

definition caught :: "'a result \<times> 's \<Rightarrow> ('a option \<times> 's) result" where
  "caught res = (case res of
     (Inr x, s) \<Rightarrow> Ok (Some x, s)
   | (Inl (Error e), s) \<Rightarrow> Ok (None, s)
   | (Inl (Panic p), s) \<Rightarrow> Inl (Panic p))"

definition NewDataBlockIteratorRaw :: "bytes \<Rightarrow> int \<Rightarrow> byte \<Rightarrow> AdaptiveEncoder \<Rightarrow> DataBlockIteratorRaw result" where
  "NewDataBlockIteratorRaw block restartInterval encodingType valueDecoder =
     bind_r (NewDataBlockReader block restartInterval encodingType valueDecoder) (\<lambda>reader.
     Ok \<lparr>bi_reader = reader, bi_current = None, bi_valid = False\<rparr>)"

definition Block_readNext :: "DataBlockIteratorRaw \<Rightarrow> DataBlockIteratorRaw result" where
  "Block_readNext it =
     (if \<not> Reader_HasNext (bi_reader it) then Ok (it\<lparr>bi_valid := False\<rparr>)
      else bind_r (caught (Reader_ReadRecord (bi_reader it))) (\<lambda>(rec, reader).
        case rec of
          None \<Rightarrow> Ok (it\<lparr>bi_reader := reader, bi_valid := False\<rparr>)
        | Some rec \<Rightarrow> Ok (it\<lparr>bi_reader := reader, bi_current := Some rec, bi_valid := True\<rparr>)))"

definition Block_SeekToFirst :: "DataBlockIteratorRaw \<Rightarrow> DataBlockIteratorRaw result" where
  "Block_SeekToFirst it =
     bind_r (Encoder_Reset (rd_decoder (bi_reader it))) (\<lambda>dec.
     Block_readNext (it\<lparr>bi_reader := (bi_reader it)\<lparr>rd_pos := 0, rd_decoder := dec, rd_recordIdx := 0\<rparr>\<rparr>))"

definition Block_Next :: "DataBlockIteratorRaw \<Rightarrow> DataBlockIteratorRaw result" where
  "Block_Next it = (if \<not> bi_valid it then Ok it else Block_readNext it)"

definition Block_Key :: "DataBlockIteratorRaw \<Rightarrow> DataRecord result" where
  "Block_Key it = (case bi_current it of None \<Rightarrow> Inl nil_deref | Some rec \<Rightarrow> Ok rec)"

text \<open>The last record before the end of the block or the first error.\<close>

partial_function (option) last_record ::
    "DataRecord option \<Rightarrow> DataBlockReader \<Rightarrow> (DataRecord option \<times> DataBlockReader) result option" where
  "last_record latest reader =
     (if Reader_HasNext reader then
        (case caught (Reader_ReadRecord reader) of
           Inl p \<Rightarrow> Some (Inl p)
         | Inr (None, reader) \<Rightarrow> Some (Ok (latest, reader))
         | Inr (Some rec, reader) \<Rightarrow> last_record (Some rec) reader)
      else Some (Ok (latest, reader)))"

definition Block_SeekToLast :: "DataBlockIteratorRaw \<Rightarrow> DataBlockIteratorRaw result option" where
  "Block_SeekToLast it =
     (case caught (Reader_SeekToRestart 0 (bi_reader it)) of
        Inl p \<Rightarrow> Some (Inl p)
      | Inr (None, reader) \<Rightarrow> Some (Ok (it\<lparr>bi_reader := reader, bi_valid := False\<rparr>))
      | Inr (Some _, reader) \<Rightarrow> Option.bind (last_record None reader) (\<lambda>res. Some (bind_r res (\<lambda>(latest, reader).
          case latest of
            None \<Rightarrow> Ok (it\<lparr>bi_reader := reader, bi_valid := False\<rparr>)
          | Some rec \<Rightarrow> Ok (it\<lparr>bi_reader := reader, bi_current := Some rec, bi_valid := True\<rparr>)))))"

text \<open>
  The binary search over the restart points: the number of the last one found below the key, or nothing when
  the reader failed.
\<close>

function restart_search :: "bytes \<Rightarrow> int \<Rightarrow> int \<Rightarrow> int \<Rightarrow> DataBlockReader \<Rightarrow> (int option \<times> DataBlockReader) result" where
  "restart_search key left right best reader =
     (if left \<le> right then
        let mid = left + (right - left) div 2 in
        bind_r (caught (Reader_SeekToRestart mid reader)) (\<lambda>(ok, reader).
        if ok = None then Ok (None, reader)
        else bind_r (caught (Reader_ReadRecord reader)) (\<lambda>(rec, reader).
        case rec of
          None \<Rightarrow> Ok (None, reader)
        | Some rec \<Rightarrow>
            if bytes_Compare (dr_Key rec) key < 0 then restart_search key (mid + 1) right mid reader
            else restart_search key left (mid - 1) best reader))
      else Ok (Some best, reader))"
  by pat_completeness auto
termination
  by (relation "measure (\<lambda>(key, left, right, best, reader). nat (right + 1 - left))") auto

declare restart_search.simps [simp del]

partial_function (option) seek_forward :: "bytes \<Rightarrow> DataBlockIteratorRaw \<Rightarrow> DataBlockIteratorRaw result option" where
  "seek_forward key it =
     (if Reader_HasNext (bi_reader it) then
        (case caught (Reader_ReadRecord (bi_reader it)) of
           Inl p \<Rightarrow> Some (Inl p)
         | Inr (None, reader) \<Rightarrow> Some (Ok (it\<lparr>bi_reader := reader, bi_valid := False\<rparr>))
         | Inr (Some rec, reader) \<Rightarrow>
             if 0 \<le> bytes_Compare (dr_Key rec) key
             then Some (Ok (it\<lparr>bi_reader := reader, bi_current := Some rec, bi_valid := True\<rparr>))
             else seek_forward key (it\<lparr>bi_reader := reader\<rparr>))
      else Some (Ok (it\<lparr>bi_valid := False\<rparr>)))"

definition Block_Seek :: "bytes \<Rightarrow> DataBlockIteratorRaw \<Rightarrow> DataBlockIteratorRaw result option" where
  "Block_Seek key it =
     (case restart_search key 0 (int (length (rd_restartArray (bi_reader it))) - 1) 0 (bi_reader it) of
        Inl p \<Rightarrow> Some (Inl p)
      | Inr (None, reader) \<Rightarrow> Some (Ok (it\<lparr>bi_reader := reader, bi_valid := False\<rparr>))
      | Inr (Some best, reader) \<Rightarrow>
          (case caught (Reader_SeekToRestart best reader) of
             Inl p \<Rightarrow> Some (Inl p)
           | Inr (None, reader) \<Rightarrow> Some (Ok (it\<lparr>bi_reader := reader, bi_valid := False\<rparr>))
           | Inr (Some _, reader) \<Rightarrow> seek_forward key (it\<lparr>bi_reader := reader\<rparr>)))"

text \<open>\<^verbatim>\<open>Prev\<close> reads the block from its start up to the record it takes for the one before the current one.\<close>

partial_function (option) record_before ::
    "bytes \<Rightarrow> u64 \<Rightarrow> DataRecord option \<Rightarrow> DataBlockReader \<Rightarrow> (DataRecord option \<times> DataBlockReader) result option" where
  "record_before key seqId prev reader =
     (if Reader_HasNext reader then
        (case caught (Reader_ReadRecord reader) of
           Inl p \<Rightarrow> Some (Inl p)
         | Inr (None, reader) \<Rightarrow> Some (Ok (prev, reader))
         | Inr (Some rec, reader) \<Rightarrow>
             if bytes_Compare (dr_Key rec) key < 0 \<or> dr_Key rec = key \<and> dr_SeqId rec \<le> seqId
             then record_before key seqId (Some rec) reader
             else Some (Ok (prev, reader)))
      else Some (Ok (prev, reader)))"

definition Block_Prev :: "DataBlockIteratorRaw \<Rightarrow> DataBlockIteratorRaw result option" where
  "Block_Prev it =
     (case bi_current it of
        None \<Rightarrow> Some (Ok it)
      | Some cur \<Rightarrow>
          if \<not> bi_valid it then Some (Ok it)
          else case caught (Reader_SeekToRestart 0 (bi_reader it)) of
              Inl p \<Rightarrow> Some (Inl p)
            | Inr (None, reader) \<Rightarrow> Some (Ok (it\<lparr>bi_reader := reader, bi_valid := False\<rparr>))
            | Inr (Some _, reader) \<Rightarrow>
                Option.bind (record_before (dr_Key cur) (dr_SeqId cur) None reader) (\<lambda>res. Some (bind_r res (\<lambda>(prev, reader).
                  case prev of
                    None \<Rightarrow> Ok (it\<lparr>bi_reader := reader, bi_valid := False\<rparr>)
                  | Some rec \<Rightarrow> Ok (it\<lparr>bi_reader := reader, bi_current := Some rec, bi_valid := True\<rparr>)))))"

text \<open>The iterator as a value of the iterator interface; a panic is a call that does not return.\<close>

definition returned :: "'a result option \<Rightarrow> 'a option" where
  "returned r = (case r of Some (Inr x) \<Rightarrow> Some x | _ \<Rightarrow> None)"

definition block_methods :: "(DataBlockIteratorRaw, DataRecord) Iterator" where
  "block_methods = \<lparr>Valid = bi_valid, SeekToFirst = (\<lambda>it. returned (Some (Block_SeekToFirst it))),
     Seek = (\<lambda>target it. returned (Block_Seek (dr_Key target) it)), Next = (\<lambda>it. returned (Some (Block_Next it))),
     Key = (\<lambda>it. the (bi_current it))\<rparr>"

section \<open>Where a reader stands\<close>

definition state_after :: "DataBlockBuilder \<Rightarrow> block_item list \<Rightarrow> nat \<Rightarrow> DeltaEncoderBytes" where
  "state_after b xs j = snd (items_enc (fresh_encoder b) 0 (take j xs))"

definition offset_of :: "DataBlockBuilder \<Rightarrow> block_item list \<Rightarrow> nat \<Rightarrow> nat" where
  "offset_of b xs j = length (fst (items_enc (fresh_encoder b) 0 (take j xs)))"

definition block_bits :: "block_item list \<Rightarrow> BitSet" where
  "block_bits xs = (if 0 < length (BitSet_Encode (flag_bits xs)) then DecodeBitSet (BitSet_Encode (flag_bits xs)) else NewBitSet 0)"

definition block_restarts :: "DataBlockBuilder \<Rightarrow> block_item list \<Rightarrow> u32 list" where
  "block_restarts b xs = db_restartArray (snd (items_enc (fresh_encoder b) 0 xs))"

definition complete :: "DataBlockBuilder \<Rightarrow> block_item list \<Rightarrow> AdaptiveEncoder \<Rightarrow> bool" where
  "complete b xs dec \<longleftrightarrow> built b xs \<and> builder_ok b \<and> has_room b xs \<and> list_all (readable dec) xs"

definition ready :: "DataBlockBuilder \<Rightarrow> block_item list \<Rightarrow> AdaptiveEncoder \<Rightarrow> nat \<Rightarrow> DataBlockReader \<Rightarrow> bool" where
  "ready b xs dec j rd \<longleftrightarrow> (\<exists>t. rd = reader_at (bb_data b) dec (block_restarts b xs) (block_bits xs) t (offset_of b xs j) j \<and>
     bytes_sim (state_after b xs j) t \<and> db_restartInterval t = of_int (bb_restartInterval b))"

lemma ready_opened: "complete b xs dec \<Longrightarrow> ready b xs dec 0 (opened b xs dec)"
  by (auto simp: ready_def opened_def block_restarts_def block_bits_def offset_of_def state_after_def bytes_sim_def
      NewDeltaEncoderBytes_def)

lemma data_at:
  assumes "built b xs" "j < length xs"
  shows "\<exists>post. bb_data b = fst (items_enc (fresh_encoder b) 0 (take j xs)) @ fst (item_enc (state_after b xs j) (of_nat (offset_of b xs j)) (xs ! j)) @ post"
    "state_after b xs (Suc j) = snd (item_enc (state_after b xs j) (of_nat (offset_of b xs j)) (xs ! j))"
    "offset_of b xs (Suc j) = offset_of b xs j + length (fst (item_enc (state_after b xs j) (of_nat (offset_of b xs j)) (xs ! j)))"
proof -
  have xs: "xs = take j xs @ xs ! j # drop (Suc j) xs" using assms(2) by (rule id_take_nth_drop)
  have "bb_data b = fst (items_enc (fresh_encoder b) 0 xs)" using assms(1) by (simp add: built_def)
  also have "\<dots> = fst (items_enc (fresh_encoder b) 0 (take j xs @ xs ! j # drop (Suc j) xs))" using xs by simp
  finally show "\<exists>post. bb_data b = fst (items_enc (fresh_encoder b) 0 (take j xs)) @
      fst (item_enc (state_after b xs j) (of_nat (offset_of b xs j)) (xs ! j)) @ post"
    unfolding items_enc_append by (auto simp: state_after_def offset_of_def case_prod_unfold Let_def)
  show "state_after b xs (Suc j) = snd (item_enc (state_after b xs j) (of_nat (offset_of b xs j)) (xs ! j))"
    "offset_of b xs (Suc j) = offset_of b xs j + length (fst (item_enc (state_after b xs j) (of_nat (offset_of b xs j)) (xs ! j)))"
    unfolding state_after_def offset_of_def take_Suc_conv_app_nth [OF assms(2)] items_enc_append
    by (simp_all add: case_prod_unfold Let_def)
qed

lemma offset_less: "built b xs \<Longrightarrow> j < length xs \<Longrightarrow> offset_of b xs j < offset_of b xs (Suc j)"
  by (subst data_at(3), assumption+, cases "xs ! j") (simp_all add: header_bytes_def)

lemma offset_mono: "built b xs \<Longrightarrow> i \<le> j \<Longrightarrow> j \<le> length xs \<Longrightarrow> offset_of b xs i \<le> offset_of b xs j"
proof (induction j)
  case (Suc j)
  show ?case
  proof (cases "i = Suc j")
    case False
    with Suc have "offset_of b xs i \<le> offset_of b xs j" by auto
    also have "\<dots> < offset_of b xs (Suc j)" using Suc.prems by (intro offset_less) auto
    finally show ?thesis by simp
  qed simp
qed simp

lemma offset_end: "built b xs \<Longrightarrow> offset_of b xs (length xs) = length (bb_data b)"
  by (simp add: offset_of_def built_def)

lemma ready_HasNext:
  assumes "complete b xs dec" "ready b xs dec j rd" "j \<le> length xs"
  shows "Reader_HasNext rd \<longleftrightarrow> j < length xs"
proof -
  have built: "built b xs" using assms(1) by (simp add: complete_def)
  have pos: "rd_pos rd = int (offset_of b xs j)" "rd_dataSize rd = int (length (bb_data b))"
    using assms(2) by (auto simp: ready_def)
  show ?thesis
  proof (cases "j = length xs")
    case True
    then show ?thesis using offset_end [OF built] pos by (simp add: Reader_HasNext_def)
  next
    case False
    then have "j < length xs" using assms(3) by simp
    with offset_less [OF built this] offset_mono [OF built, of "Suc j" "length xs"] offset_end [OF built] pos
    show ?thesis by (simp add: Reader_HasNext_def)
  qed
qed

lemma slice_ok_data: "complete b xs dec \<Longrightarrow> slice_ok (bb_data b)"
  by (auto simp: complete_def has_room_def builder_ok_def slice_ok_def max_alloc_def)

text \<open>Reading does not change the decoder's restart interval.\<close>

definition decoder_interval :: "DataBlockReader \<Rightarrow> i64 option" where
  "decoder_interval r = (case rd_decoder r of DeltaBytes t \<Rightarrow> Some (db_restartInterval t) | _ \<Rightarrow> None)"

definition keeps_interval :: "(DataBlockReader, 'a) op \<Rightarrow> bool" where
  "keeps_interval m \<longleftrightarrow> (\<forall>r. decoder_interval (snd (m r)) = decoder_interval r)"

lemma keeps_bind: "keeps_interval m \<Longrightarrow> (\<And>x. keeps_interval (f x)) \<Longrightarrow> keeps_interval (bind_s m f)"
  unfolding keeps_interval_def bind_s_def by (auto split: prod.split sum.split simp: prod_eq_iff)

lemma keeps_steps:
  "keeps_interval (fail_if P e)" "keeps_interval peek_byte" "keeps_interval (skip_pos n)" "keeps_interval (take_pos w)"
  "keeps_interval read_expiry" "keeps_interval count_record" "keeps_interval (decode_value v f)" "keeps_interval encoded_bit"
  "keeps_interval (ret_s x)"
  by (auto simp: keeps_interval_def decoder_interval_def fail_if_def peek_byte_def skip_pos_def take_pos_def read_expiry_def
      count_record_def decode_value_def encoded_bit_def split: sum.split)

lemma next_uvarint_state: "fst (snd (next_uvarint m buf (t, pos))) = t"
  by (simp add: next_uvarint_def Let_def split: sum.split prod.split)

lemma keeps_uvarint: "keeps_interval (at_pos (next_uvarint m))"
  by (simp add: keeps_interval_def decoder_interval_def at_pos_def case_prod_unfold next_uvarint_state)

lemma Decode_interval: "db_restartInterval (fst (snd (DeltaEncoderBytes_Decode buf (t, pos)))) = db_restartInterval t"
proof -
  have n: "\<And>m p. \<exists>r q. next_uvarint m buf (t, p) = (r, (t, q))"
    using next_uvarint_state [of _ buf t] by (metis prod.collapse)
  obtain r1 q1 where u1: "next_uvarint ''invalid shared prefix'' buf (t, pos) = (r1, (t, q1))" using n by blast
  obtain r2 q2 where u2: "next_uvarint ''invalid nonshared prefix'' buf (t, q1) = (r2, (t, q2))" using n by blast
  show ?thesis
    by (cases r1; cases r2) (simp_all add: DeltaEncoderBytes_Decode_def bind_s_def u1 u2 split: sum.split)
qed

lemma keeps_decode: "keeps_interval (at_pos Encoder_Decode)"
  unfolding keeps_interval_def
proof
  fix r
  show "decoder_interval (snd (at_pos Encoder_Decode r)) = decoder_interval r"
  proof (cases "rd_decoder r")
    case (DeltaBytes t)
    then show ?thesis by (simp add: decoder_interval_def at_pos_def case_prod_unfold Decode_interval)
  next
    case (DictDelta e)
    then show ?thesis by (simp add: decoder_interval_def at_pos_def case_prod_unfold)
  qed (simp add: decoder_interval_def at_pos_def)
qed

lemma keeps_ReadRecord: "keeps_interval Reader_ReadRecord"
  unfolding Reader_ReadRecord_def read_keyed_def read_continuation_def
  by (intro keeps_bind keeps_steps keeps_uvarint keeps_decode)
    (auto intro!: keeps_bind keeps_steps keeps_uvarint keeps_decode)

lemma ready_read:
  assumes c: "complete b xs dec" and r: "ready b xs dec j rd" and j: "j < length xs"
  obtains rd' where "Reader_ReadRecord rd = (Ok (item_record (xs ! j)), rd')" "ready b xs dec (Suc j) rd'"
proof -
  have built: "built b xs" and rd: "readable dec (xs ! j)" using c j by (auto simp: complete_def list_all_length)
  obtain post where D: "bb_data b = fst (items_enc (fresh_encoder b) 0 (take j xs)) @
      fst (item_enc (state_after b xs j) (of_nat (offset_of b xs j)) (xs ! j)) @ post"
    using data_at(1) [OF built j] by blast
  obtain t where t: "rd = reader_at (bb_data b) dec (block_restarts b xs) (block_bits xs) t (offset_of b xs j) j"
    "bytes_sim (state_after b xs j) t" "db_restartInterval t = of_int (bb_restartInterval b)" using r by (auto simp: ready_def)
  have bit: "BitSet_Get (block_bits xs) j = item_flag (xs ! j)" unfolding block_bits_def by (rule flag_bits_Get [OF j])
  from read_item_at [OF t(2) rd D slice_ok_data [OF c] bit, of "block_restarts b xs", folded offset_of_def]
  obtain t' where
    "Reader_ReadRecord rd = (Ok (item_record (xs ! j)), reader_at (bb_data b) dec (block_restarts b xs) (block_bits xs) t'
        (offset_of b xs (Suc j)) (Suc j))" "bytes_sim (state_after b xs (Suc j)) t'"
    unfolding data_at(2,3) [OF built j] t(1) by blast
  moreover have "decoder_interval (snd (Reader_ReadRecord rd)) = decoder_interval rd"
    using keeps_ReadRecord by (simp add: keeps_interval_def)
  ultimately show thesis using t(1,3) by (intro that) (auto simp: ready_def decoder_interval_def)
qed

section \<open>Restart points\<close>

lemma nth_keyed_offsets:
  "list_all keyed xs \<Longrightarrow> j < length xs \<Longrightarrow>
   snd (keyed_offsets s n xs ! j) = of_nat (n + length (fst (items_enc s n (take j xs))))"
proof (induction xs arbitrary: s n j)
  case (Cons x xs)
  obtain rec stored flag where x: "x = Keyed rec stored flag" using Cons.prems(1) by (cases x) auto
  show ?case
  proof (cases j)
    case 0
    then show ?thesis by (simp add: x)
  next
    case (Suc i)
    then show ?thesis
      using Cons.IH [of i "snd (item_enc s (of_nat n) x)" "n + length (fst (item_enc s (of_nat n) x))"] Cons.prems
      by (simp add: x case_prod_unfold Let_def add.assoc)
  qed
qed simp

lemma nth_every_nth:
  "1 \<le> i \<Longrightarrow> i \<le> r \<Longrightarrow> k * r + (r - i) < length ys \<Longrightarrow> every_nth r i ys ! k = ys ! (k * r + (r - i))"
proof (induction r i ys arbitrary: k rule: every_nth.induct)
  case (2 r i y ys)
  show ?case
  proof (cases "i = r")
    case True
    show ?thesis
    proof (cases k)
      case 0
      then show ?thesis using True by simp
    next
      case (Suc m)
      have "k * r + (r - i) = Suc (m * r + (r - 1))" using True Suc "2.prems"(1) by simp
      then show ?thesis using "2.IH"(1) [of m] "2.prems" True Suc by (simp add: add.commute)
    qed
  next
    case False
    then have "k * r + (r - i) = Suc (k * r + (r - Suc i))" using "2.prems"(2) by simp
    then show ?thesis using "2.IH"(2) [of k] "2.prems" False by simp
  qed
qed simp

lemma nth_every_nth_0: "0 < r \<Longrightarrow> k * r < length ys \<Longrightarrow> every_nth r 0 ys ! k = ys ! (k * r)"
proof (cases ys)
  case (Cons y zs)
  assume r: "0 < r" and k: "k * r < length ys"
  show ?thesis
  proof (cases k)
    case (Suc m)
    have e: "k * r = Suc (m * r + (r - 1))" using r Suc by simp
    with k Cons have "m * r + (r - 1) < length zs" by simp
    with nth_every_nth [of 1 r m zs] r have "every_nth r 1 zs ! m = zs ! (m * r + (r - 1))" by simp
    then show ?thesis unfolding e by (simp add: Cons Suc)
  qed (simp add: Cons)
qed simp

lemma length_every_nth_iff: "0 < r \<Longrightarrow> k < length (every_nth r 0 ys) \<longleftrightarrow> k * r < length ys"
proof (cases ys)
  case (Cons y zs)
  assume r: "0 < r"
  have "length (every_nth r 0 ys) = Suc (length zs div r)"
    using length_every_nth [of 1 r zs] r by (simp add: Cons)
  moreover have "k \<le> length zs div r \<longleftrightarrow> k * r \<le> length zs"
    using r by (simp add: less_eq_div_iff_mult_less_eq)
  ultimately show ?thesis by (simp add: Cons less_Suc_eq_le)
qed simp

definition interval :: "DataBlockBuilder \<Rightarrow> nat" where
  "interval b = nat (bb_restartInterval b)"

lemma interval_facts:
  assumes "builder_ok b"
  shows "0 < interval b" "interval b < 2 ^ 31" "interval b < 2 ^ 63" "of_int (bb_restartInterval b) = (of_nat (interval b) :: i64)"
  using assms by (auto simp: builder_ok_def interval_def)

lemma restart_points:
  assumes c: "complete b xs dec" and k: "list_all keyed xs"
  shows "idx < length (block_restarts b xs) \<longleftrightarrow> idx * interval b < length xs"
    "idx * interval b < length xs \<Longrightarrow> uint (block_restarts b xs ! idx) = int (offset_of b xs (idx * interval b))"
    "idx * interval b < length xs \<Longrightarrow> bytes_sim (state_after b xs (idx * interval b)) t"
proof -
  have built: "built b xs" and ok: "builder_ok b" using c by (simp_all add: complete_def)
  note r = interval_facts [OF ok]
  let ?s = "fresh_encoder b"
  have arr: "block_restarts b xs = every_nth (interval b) 0 (map snd (keyed_offsets ?s 0 xs))"
    unfolding block_restarts_def r(4) by (rule restart_array [OF r(1,3)])
  have len: "length (keyed_offsets ?s 0 xs) = length xs"
    using k by (simp add: length_keyed_offsets list_all_iff)
  show "idx < length (block_restarts b xs) \<longleftrightarrow> idx * interval b < length xs"
    unfolding arr length_every_nth_iff [OF r(1)] by (simp add: len)
  show "uint (block_restarts b xs ! idx) = int (offset_of b xs (idx * interval b))" if "idx * interval b < length xs"
  proof -
    have "block_restarts b xs ! idx = of_nat (offset_of b xs (idx * interval b))"
      unfolding arr using nth_every_nth_0 [OF r(1), of idx "map snd (keyed_offsets ?s 0 xs)"] that
      by (simp add: len nth_keyed_offsets [OF k] offset_of_def)
    moreover have "offset_of b xs (idx * interval b) < 2 ^ 32"
      using offset_mono [OF built, of "idx * interval b" "length xs"] that c
      by (auto simp: offset_end [OF built] complete_def has_room_def builder_ok_def)
    ultimately show ?thesis by (simp add: unsigned_of_nat take_bit_nat_eq_self)
  qed
  show "bytes_sim (state_after b xs (idx * interval b)) t" if "idx * interval b < length xs"
  proof -
    let ?ys = "take (idx * interval b) xs"
    have filter_keyed: "filter keyed ?ys = ?ys"
      using k by (intro filter_True) (auto simp: list_all_iff dest: in_set_takeD)
    have "length (keyed_offsets ?s 0 ?ys) = idx * interval b"
      using that filter_keyed by (simp add: length_keyed_offsets)
    then have "interval b dvd length (keyed_offsets ?s 0 ?ys)" by simp
    moreover have "db_restartInterval ?s = of_nat (interval b)" "db_entryIndex ?s = 0"
      using r(4) by (simp_all add: NewDeltaEncoderBytes_def)
    ultimately show ?thesis
      using restart_bytes.restart_after [OF r(1,3), of ?s "keyed_offsets ?s 0 ?ys" "[]"]
      unfolding state_after_def items_enc_state [of ?s 0 ?ys "[]"] by (auto simp: bytes_sim_def)
  qed
qed

lemma ready_reset:
  assumes c: "complete b xs dec" and r: "ready b xs dec i rd"
  shows "\<exists>dec'. Encoder_Reset (rd_decoder rd) = Ok dec' \<and> ready b xs dec 0 (rd\<lparr>rd_pos := 0, rd_decoder := dec', rd_recordIdx := 0\<rparr>)"
  using r by (auto simp: ready_def reader_at_def offset_of_def state_after_def bytes_sim_def NewDeltaEncoderBytes_def DeltaEncoderBytes_Reset_def)

lemma ready_restart:
  assumes c: "complete b xs dec" and k: "list_all keyed xs" and r: "ready b xs dec i rd" and idx: "idx * interval b < length xs"
  obtains rd' where "Reader_SeekToRestart (int idx) rd = (Ok (), rd')" "ready b xs dec (idx * interval b) rd'"
proof -
  obtain t where t: "rd = reader_at (bb_data b) dec (block_restarts b xs) (block_bits xs) t (offset_of b xs i) i"
    "db_restartInterval t = of_int (bb_restartInterval b)" using r by (auto simp: ready_def)
  have ok: "builder_ok b" using c by (simp add: complete_def)
  have sint: "u64_int (of_int (bb_restartInterval b)) = int (interval b)"
    using interval_facts [OF ok] u64_int_of_nat [of "interval b"] by simp
  have "idx * interval b < 2 ^ 48"
  proof -
    have "length xs \<le> length (bb_data b)" using length_items_enc [of xs "fresh_encoder b" 0] c by (simp add: complete_def built_def)
    with idx slice_ok_data [OF c] show ?thesis by (simp add: slice_ok_def max_alloc_def)
  qed
  moreover have "m < 2 ^ 48 \<Longrightarrow> go_int (int m) = int m" for m by (simp add: go_int_small)
  ultimately have g: "go_int (int idx * int (interval b)) = int (idx * interval b)" by (metis of_nat_mult)
  have "idx < length (block_restarts b xs)" using restart_points(1) [OF c k] idx by simp
  then have "Reader_SeekToRestart (int idx) rd = (Ok (), reader_at (bb_data b) dec (block_restarts b xs) (block_bits xs)
      (DeltaEncoderBytes_Reset t) (offset_of b xs (idx * interval b)) (idx * interval b))"
    using restart_points(2) [OF c k idx] g sint
    by (auto simp: Reader_SeekToRestart_def t(1) reader_at_def Let_def DeltaEncoderBytes_Reset_def t(2))
  with restart_points(3) [OF c k idx] show thesis
    by (intro that) (auto simp: ready_def DeltaEncoderBytes_Reset_def t(2))
qed

section \<open>Walking and seeking\<close>

abbreviation item_key :: "block_item \<Rightarrow> bytes" where
  "item_key x \<equiv> dr_Key (item_record x)"

definition stands :: "DataBlockBuilder \<Rightarrow> block_item list \<Rightarrow> AdaptiveEncoder \<Rightarrow> nat \<Rightarrow> DataBlockIteratorRaw \<Rightarrow> bool" where
  "stands b xs dec m it \<longleftrightarrow>
     (if m < length xs then bi_valid it \<and> bi_current it = Some (item_record (xs ! m)) \<and> ready b xs dec (Suc m) (bi_reader it)
      else \<not> bi_valid it \<and> (\<exists>i \<le> length xs. ready b xs dec i (bi_reader it)))"

lemma stands_ready: "stands b xs dec m it \<Longrightarrow> \<exists>i \<le> length xs. ready b xs dec i (bi_reader it)"
  by (cases "m < length xs") (auto simp: stands_def intro: Suc_leI)

lemma readNext_stands:
  assumes c: "complete b xs dec" and r: "ready b xs dec j (bi_reader it)" and j: "j \<le> length xs"
  shows "\<exists>it'. Block_readNext it = Ok it' \<and> stands b xs dec j it'"
proof (cases "j < length xs")
  case True
  from ready_read [OF c r True] obtain rd' where "Reader_ReadRecord (bi_reader it) = (Ok (item_record (xs ! j)), rd')"
    "ready b xs dec (Suc j) rd'" .
  with True ready_HasNext [OF c r j] show ?thesis by (simp add: Block_readNext_def caught_def stands_def)
next
  case False
  with r j ready_HasNext [OF c r j] show ?thesis by (auto simp: Block_readNext_def stands_def)
qed

lemma SeekToFirst_stands:
  assumes c: "complete b xs dec" and s: "stands b xs dec m it"
  shows "\<exists>it'. Block_SeekToFirst it = Ok it' \<and> stands b xs dec 0 it'"
proof -
  from stands_ready [OF s] obtain i where "ready b xs dec i (bi_reader it)" by blast
  from ready_reset [OF c this] obtain dec' where d: "Encoder_Reset (rd_decoder (bi_reader it)) = Ok dec'"
    "ready b xs dec 0 ((bi_reader it)\<lparr>rd_pos := 0, rd_decoder := dec', rd_recordIdx := 0\<rparr>)" by blast
  from readNext_stands [OF c, of 0 "it\<lparr>bi_reader := (bi_reader it)\<lparr>rd_pos := 0, rd_decoder := dec', rd_recordIdx := 0\<rparr>\<rparr>"] d
  show ?thesis by (simp add: Block_SeekToFirst_def)
qed

lemma Next_stands:
  assumes c: "complete b xs dec" and s: "stands b xs dec m it" and m: "m < length xs"
  shows "\<exists>it'. Block_Next it = Ok it' \<and> stands b xs dec (Suc m) it'"
  using readNext_stands [OF c, of "Suc m" it] s m by (simp add: Block_Next_def stands_def)

text \<open>The binary search ends at the first restart point or at one below the key.\<close>

lemma restart_search_best:
  assumes c: "complete b xs dec" and k: "list_all keyed xs" and "ready b xs dec i rd"
    and "0 \<le> left" "right < int (length (block_restarts b xs))"
    and "0 \<le> best" "best = 0 \<or> best < int (length (block_restarts b xs)) \<and> item_key (xs ! (nat best * interval b)) < key"
  shows "\<exists>best' rd' i'. restart_search key left right best rd = Ok (Some best', rd') \<and> ready b xs dec i' rd' \<and> 0 \<le> best' \<and>
    (best' = 0 \<or> best' < int (length (block_restarts b xs)) \<and> item_key (xs ! (nat best' * interval b)) < key)"
  using assms(3-)
proof (induction key left right best rd arbitrary: i rule: restart_search.induct)
  case (1 key left right best rd)
  show ?case
  proof (cases "left \<le> right")
    case False
    then show ?thesis using "1.prems" by (subst restart_search.simps) auto
  next
    case True
    define mid where "mid = left + (right - left) div 2"
    have mid: "0 \<le> mid" "left \<le> mid" "mid \<le> right" "int (nat mid) = mid" using True "1.prems"(2) by (auto simp: mid_def)
    then have lt: "nat mid < length (block_restarts b xs)" using "1.prems"(3) by linarith
    then have idx: "nat mid * interval b < length xs" using restart_points(1) [OF c k] by simp
    from ready_restart [OF c k "1.prems"(1) idx, unfolded mid(4)] obtain rd1 where
      rd1: "Reader_SeekToRestart mid rd = (Ok (), rd1)" "ready b xs dec (nat mid * interval b) rd1" .
    from ready_read [OF c rd1(2) idx] obtain rd2 where
      rd2: "Reader_ReadRecord rd1 = (Ok (item_record (xs ! (nat mid * interval b))), rd2)" "ready b xs dec (Suc (nat mid * interval b)) rd2" .
    have unfold: "restart_search key left right best rd =
        (if item_key (xs ! (nat mid * interval b)) < key then restart_search key (mid + 1) right mid rd2
         else restart_search key left (mid - 1) best rd2)"
      by (subst restart_search.simps) (simp add: True Let_def caught_def rd1(1) rd2(1) flip: mid_def)
    show ?thesis
    proof (cases "item_key (xs ! (nat mid * interval b)) < key")
      case less: True
      have "\<exists>best' rd' i'. restart_search key (mid + 1) right mid rd2 = Ok (Some best', rd') \<and> ready b xs dec i' rd' \<and> 0 \<le> best' \<and>
          (best' = 0 \<or> best' < int (length (block_restarts b xs)) \<and> item_key (xs ! (nat best' * interval b)) < key)"
        by (rule "1.IH"(1) [OF True mid_def])
          (use rd1 rd2 less mid lt "1.prems" in \<open>auto simp: caught_def\<close>)
      then show ?thesis unfolding unfold using less by simp
    next
      case ge: False
      have "\<exists>best' rd' i'. restart_search key left (mid - 1) best rd2 = Ok (Some best', rd') \<and> ready b xs dec i' rd' \<and> 0 \<le> best' \<and>
          (best' = 0 \<or> best' < int (length (block_restarts b xs)) \<and> item_key (xs ! (nat best' * interval b)) < key)"
        by (rule "1.IH"(2) [OF True mid_def])
          (use rd1 rd2 ge mid lt "1.prems" in \<open>auto simp: caught_def\<close>)
      then show ?thesis unfolding unfold using ge by simp
    qed
  qed
qed

lemma seek_forward_stands:
  assumes c: "complete b xs dec" and "ready b xs dec j (bi_reader it)" "j \<le> length xs" "\<And>i. i < j \<Longrightarrow> item_key (xs ! i) < key"
  shows "\<exists>it'. seek_forward key it = Some (Ok it') \<and> stands b xs dec (length (takeWhile (\<lambda>x. item_key x < key) xs)) it'"
  using assms(2-)
proof (induction "length xs - j" arbitrary: j it)
  case 0
  then have j: "j = length xs" by simp
  have tw: "takeWhile (\<lambda>x. item_key x < key) xs = xs" using 0(4) j by (auto simp: takeWhile_eq_all_conv in_set_conv_nth)
  from 0(2) j ready_HasNext [OF c 0(2,3)] show ?case
    unfolding tw by (subst seek_forward.simps) (auto simp: stands_def)
next
  case (Suc n)
  then have j: "j < length xs" by simp
  from ready_read [OF c Suc.prems(1) j] obtain rd' where
    rd': "Reader_ReadRecord (bi_reader it) = (Ok (item_record (xs ! j)), rd')" "ready b xs dec (Suc j) rd'" .
  have more: "Reader_HasNext (bi_reader it)" using ready_HasNext [OF c Suc.prems(1,2)] j by simp
  show ?case
  proof (cases "item_key (xs ! j) < key")
    case True
    have "\<exists>it'. seek_forward key (it\<lparr>bi_reader := rd'\<rparr>) = Some (Ok it') \<and>
        stands b xs dec (length (takeWhile (\<lambda>x. item_key x < key) xs)) it'"
      using Suc.hyps(2) j rd'(2) True Suc.prems(3) by (intro Suc.hyps(1) [of "Suc j"]) (auto simp: less_Suc_eq)
    moreover have "\<not> key \<le> item_key (xs ! j)" using True by simp
    ultimately show ?thesis using more by (subst seek_forward.simps) (simp add: caught_def rd'(1))
  next
    case False
    have "takeWhile (\<lambda>x. item_key x < key) xs = take j xs"
      using Suc.prems(3) False by (intro takeWhile_eq_take_P_nth) auto
    then have "length (takeWhile (\<lambda>x. item_key x < key) xs) = j" using j by simp
    then show ?thesis using more False rd' j by (subst seek_forward.simps) (simp add: caught_def stands_def not_less)
  qed
qed

lemma Seek_stands:
  assumes c: "complete b xs dec" and k: "list_all keyed xs" and so: "sorted (map item_key xs)" and ne: "xs \<noteq> []"
    and s: "stands b xs dec m it"
  shows "\<exists>it'. Block_Seek key it = Some (Ok it') \<and> stands b xs dec (length (takeWhile (\<lambda>x. item_key x < key) xs)) it'"
proof -
  from stands_ready [OF s] obtain i where i: "ready b xs dec i (bi_reader it)" by blast
  then have ra: "rd_restartArray (bi_reader it) = block_restarts b xs" by (auto simp: ready_def)
  from restart_search_best [OF c k i, of 0 "int (length (block_restarts b xs)) - 1" 0 key] obtain best rd1 i1 where
    best: "restart_search key 0 (int (length (block_restarts b xs)) - 1) 0 (bi_reader it) = Ok (Some best, rd1)"
      "ready b xs dec i1 rd1" "0 \<le> best"
      "best = 0 \<or> best < int (length (block_restarts b xs)) \<and> item_key (xs ! (nat best * interval b)) < key" by auto
  define j where "j = nat best * interval b"
  have j: "j < length xs" using best(3,4) restart_points(1) [OF c k, of "nat best"] ne by (auto simp: j_def)
  from ready_restart [OF c k best(2) j [unfolded j_def]] best(3) obtain rd2 where
    rd2: "Reader_SeekToRestart best rd1 = (Ok (), rd2)" "ready b xs dec j rd2" by (auto simp: j_def)
  have below: "item_key (xs ! i) < key" if "i < j" for i
  proof -
    have "item_key (xs ! j) < key" using best(4) that by (auto simp: j_def)
    moreover have "item_key (xs ! i) \<le> item_key (xs ! j)"
      using sorted_nth_mono [OF so, of i j] that j by simp
    ultimately show ?thesis by simp
  qed
  have "\<exists>it'. seek_forward key (it\<lparr>bi_reader := rd2\<rparr>) = Some (Ok it') \<and>
      stands b xs dec (length (takeWhile (\<lambda>x. item_key x < key) xs)) it'"
    using j rd2(2) below by (intro seek_forward_stands [OF c]) auto
  then show ?thesis by (simp add: Block_Seek_def ra best(1) caught_def rd2(1))
qed

section \<open>The iterator's contract\<close>

text \<open>
  An iterator over a complete block of whole records in key order. What it walks from where it stands, and
  what it walks from the start, are computed by its own methods.
\<close>

definition over_block :: "DataBlockBuilder \<Rightarrow> block_item list \<Rightarrow> AdaptiveEncoder \<Rightarrow> bool" where
  "over_block b xs dec \<longleftrightarrow> complete b xs dec \<and> list_all keyed xs \<and> sorted (map item_key xs) \<and> xs \<noteq> []"

definition block_it :: "DataBlockIteratorRaw \<Rightarrow> bool" where
  "block_it it \<longleftrightarrow> (\<exists>b xs dec m. over_block b xs dec \<and> m \<le> length xs \<and> stands b xs dec m it)"

lemma block_itI: "over_block b xs dec \<Longrightarrow> m \<le> length xs \<Longrightarrow> stands b xs dec m it \<Longrightarrow> block_it it"
  unfolding block_it_def by blast

definition block_ahead :: "DataBlockIteratorRaw \<Rightarrow> DataRecord list" where
  "block_ahead it = the (collect block_methods it)"

definition block_whole :: "DataBlockIteratorRaw \<Rightarrow> DataRecord list" where
  "block_whole it = the (Option.bind (SeekToFirst block_methods it) (collect block_methods))"

lemma block_methods_simps [simp]:
  "Valid block_methods it = bi_valid it" "Key block_methods it = the (bi_current it)"
  "Next block_methods it = returned (Some (Block_Next it))" "SeekToFirst block_methods it = returned (Some (Block_SeekToFirst it))"
  "Seek block_methods target it = returned (Block_Seek (dr_Key target) it)"
  by (simp_all add: block_methods_def)

lemma returned_simps [simp]: "returned (Some (Ok x)) = Some x" "returned None = None" "returned (Some (Inl e)) = None"
  by (simp_all add: returned_def)

lemma collect_stands:
  assumes c: "complete b xs dec" and "stands b xs dec m it" "m \<le> length xs"
  shows "collect block_methods it = Some (map item_record (drop m xs))"
  using assms(2-)
proof (induction "length xs - m" arbitrary: m it)
  case 0
  then show ?case by (subst collect.simps) (simp add: stands_def)
next
  case (Suc n)
  then have m: "m < length xs" by simp
  from Next_stands [OF c Suc.prems(1) m] obtain it' where it': "Block_Next it = Ok it'" "stands b xs dec (Suc m) it'" by blast
  have "collect block_methods it' = Some (map item_record (drop (Suc m) xs))"
    using Suc.hyps(2) it'(2) m by (intro Suc.hyps(1)) auto
  moreover have "bi_valid it" "the (bi_current it) = item_record (xs ! m)" using Suc.prems(1) m by (simp_all add: stands_def)
  ultimately show ?case
    using it'(1) m by (subst collect.simps) (simp add: Cons_nth_drop_Suc [symmetric])
qed

lemma whole_stands:
  assumes c: "complete b xs dec" and s: "stands b xs dec m it"
  shows "block_whole it = map item_record xs"
proof -
  from SeekToFirst_stands [OF c s] obtain it' where "Block_SeekToFirst it = Ok it'" "stands b xs dec 0 it'" by blast
  with collect_stands [OF c this(2)] show ?thesis by (simp add: block_whole_def)
qed

lemma ahead_stands:
  "complete b xs dec \<Longrightarrow> stands b xs dec m it \<Longrightarrow> m \<le> length xs \<Longrightarrow> block_ahead it = map item_record (drop m xs)"
  by (simp add: block_ahead_def collect_stands)

lemma drop_takeWhile: "drop (length (takeWhile P xs)) xs = dropWhile P xs"
  by (induction xs) auto

interpretation block: seekable_iterator block_methods block_it block_ahead block_whole "\<lambda>r target. dr_Key r < dr_Key target"
proof unfold_locales
  fix it
  assume "block_it it"
  then obtain b xs dec m where o: "over_block b xs dec" and m: "m \<le> length xs" and s: "stands b xs dec m it"
    by (auto simp: block_it_def)
  have c: "complete b xs dec" using o by (simp add: over_block_def)
  note ahead = ahead_stands [OF c s m] and whole = whole_stands [OF c s]
  show "Valid block_methods it \<longleftrightarrow> block_ahead it \<noteq> []" using s m by (auto simp: ahead stands_def)
  show "Key block_methods it = hd (block_ahead it)" if "Valid block_methods it"
    using s that by (auto simp: ahead stands_def hd_drop_conv_nth hd_map split: if_splits)
  show "\<exists>it'. Next block_methods it = Some it' \<and> block_it it' \<and> block_ahead it' = tl (block_ahead it)" if v: "Valid block_methods it"
  proof -
    have m': "m < length xs" using s v by (auto simp: stands_def split: if_splits)
    from Next_stands [OF c s m'] obtain it' where it': "Block_Next it = Ok it'" "stands b xs dec (Suc m) it'" by blast
    from ahead_stands [OF c it'(2)] m' have "block_ahead it' = tl (block_ahead it)"
      unfolding ahead drop_Suc drop_tl by (simp add: map_tl)
    with it' block_itI [OF o _ it'(2)] m' show ?thesis by auto
  qed
  show "\<exists>it'. SeekToFirst block_methods it = Some it' \<and> block_it it' \<and> block_ahead it' = block_whole it \<and> block_whole it' = block_whole it"
  proof -
    from SeekToFirst_stands [OF c s] obtain it' where it': "Block_SeekToFirst it = Ok it'" "stands b xs dec 0 it'" by blast
    with block_itI [OF o _ it'(2)] ahead_stands [OF c it'(2)] whole_stands [OF c it'(2)] show ?thesis by (auto simp: whole)
  qed
  show "block_whole it' = block_whole it" if v: "Valid block_methods it" and n: "Next block_methods it = Some it'" for it'
  proof -
    have m': "m < length xs" using s v by (auto simp: stands_def split: if_splits)
    from Next_stands [OF c s m'] n have "stands b xs dec (Suc m) it'" by auto
    from whole_stands [OF c this] show ?thesis by (simp add: whole)
  qed
  show "\<exists>it'. Seek block_methods key it = Some it' \<and> block_it it' \<and>
      block_ahead it' = dropWhile (\<lambda>r. dr_Key r < dr_Key key) (block_whole it) \<and> block_whole it' = block_whole it" for key
  proof -
    let ?m = "length (takeWhile (\<lambda>x. item_key x < dr_Key key) xs)"
    from Seek_stands [OF c _ _ _ s, of "dr_Key key"] o obtain it' where
      it': "Block_Seek (dr_Key key) it = Some (Ok it')" "stands b xs dec ?m it'" by (auto simp: over_block_def)
    have "block_ahead it' = map item_record (dropWhile (\<lambda>x. item_key x < dr_Key key) xs)"
      using ahead_stands [OF c it'(2)] by (simp add: drop_takeWhile length_takeWhile_le)
    also have "\<dots> = dropWhile (\<lambda>r. dr_Key r < dr_Key key) (block_whole it)" by (simp add: whole dropWhile_map comp_def)
    finally show ?thesis
      using it'(1) block_itI [OF o length_takeWhile_le it'(2)] whole_stands [OF c it'(2)] by (simp add: whole)
  qed
qed

section \<open>The last record and the one before\<close>

lemma last_record_ready:
  assumes c: "complete b xs dec" and "ready b xs dec j rd" "j \<le> length xs"
  shows "\<exists>rd'. last_record latest rd = Some (Ok (if j < length xs then Some (item_record (last xs)) else latest, rd')) \<and>
    ready b xs dec (length xs) rd'"
  using assms(2-)
proof (induction "length xs - j" arbitrary: j rd latest)
  case 0
  then have "j = length xs" by simp
  with 0 ready_HasNext [OF c 0(2,3)] show ?case by (subst last_record.simps) auto
next
  case (Suc n)
  then have j: "j < length xs" by simp
  from ready_read [OF c Suc.prems(1) j] obtain rd' where
    rd': "Reader_ReadRecord rd = (Ok (item_record (xs ! j)), rd')" "ready b xs dec (Suc j) rd'" .
  have "n = length xs - Suc j" "Suc j \<le> length xs" using Suc.hyps(2) j by simp_all
  from Suc.hyps(1) [OF this(1) rd'(2) this(2), of "Some (item_record (xs ! j))"] obtain rd2 where
    "last_record (Some (item_record (xs ! j))) rd' =
       Some (Ok (if Suc j < length xs then Some (item_record (last xs)) else Some (item_record (xs ! j)), rd2))"
    "ready b xs dec (length xs) rd2" by blast
  moreover have "Suc j \<ge> length xs \<Longrightarrow> xs ! j = last xs" using j by (subst last_conv_nth) (auto simp: le_Suc_eq)
  ultimately show ?case
    using j ready_HasNext [OF c Suc.prems(1,2)] by (subst last_record.simps) (auto simp: caught_def rd'(1))
qed

lemma SeekToLast_stands:
  assumes o: "over_block b xs dec" and s: "stands b xs dec m it"
  shows "\<exists>it'. Block_SeekToLast it = Some (Ok it') \<and> stands b xs dec (length xs - 1) it'"
proof -
  have c: "complete b xs dec" and k: "list_all keyed xs" and ne: "xs \<noteq> []" using o by (simp_all add: over_block_def)
  from stands_ready [OF s] obtain i where "ready b xs dec i (bi_reader it)" by blast
  from ready_restart [OF c k this, of 0] ne obtain rd where
    rd: "Reader_SeekToRestart 0 (bi_reader it) = (Ok (), rd)" "ready b xs dec 0 rd" by auto
  from last_record_ready [OF c rd(2), of None] ne obtain rd' where
    rd': "last_record None rd = Some (Ok (Some (item_record (last xs)), rd'))" "ready b xs dec (length xs) rd'" by auto
  have e: "Suc (length xs - 1) = length xs" "xs ! (length xs - 1) = last xs" using ne by (simp_all add: last_conv_nth)
  show ?thesis
    using rd'(2) ne e by (simp add: Block_SeekToLast_def caught_def rd(1) rd'(1) stands_def)
qed

lemma record_before_ready:
  assumes c: "complete b xs dec" and "ready b xs dec j rd" "j \<le> m" "m < length xs"
    and "\<And>i. i \<le> m \<Longrightarrow> item_key (xs ! i) < key \<or> item_key (xs ! i) = key \<and> dr_SeqId (item_record (xs ! i)) \<le> seqId"
    and "\<And>i. m < i \<Longrightarrow> i < length xs \<Longrightarrow> key < item_key (xs ! i)"
  shows "\<exists>rd' i. record_before key seqId prev rd = Some (Ok (Some (item_record (xs ! m)), rd')) \<and> i \<le> length xs \<and> ready b xs dec i rd'"
  using assms(2,3)
proof (induction "m - j" arbitrary: j rd prev)
  case 0
  then have j: "j = m" by simp
  from ready_read [OF c 0(2), unfolded j, OF assms(4)] obtain rd' where
    rd': "Reader_ReadRecord rd = (Ok (item_record (xs ! m)), rd')" "ready b xs dec (Suc m) rd'" .
  have at_m: "item_key (xs ! m) < key \<or> item_key (xs ! m) = key \<and> dr_SeqId (item_record (xs ! m)) \<le> seqId" using assms(5) by simp
  have more: "Reader_HasNext rd" using ready_HasNext [OF c 0(2)] j assms(4) by simp
  have "\<exists>rd'' i. record_before key seqId (Some (item_record (xs ! m))) rd' = Some (Ok (Some (item_record (xs ! m)), rd'')) \<and>
      i \<le> length xs \<and> ready b xs dec i rd''"
  proof (cases "Suc m < length xs")
    case True
    from ready_read [OF c rd'(2) True] obtain rd2 where
      rd2: "Reader_ReadRecord rd' = (Ok (item_record (xs ! Suc m)), rd2)" "ready b xs dec (Suc (Suc m)) rd2" .
    have "\<not> (item_key (xs ! Suc m) < key \<or> item_key (xs ! Suc m) = key \<and> dr_SeqId (item_record (xs ! Suc m)) \<le> seqId)"
      using assms(6) [of "Suc m"] True by auto
    with True ready_HasNext [OF c rd'(2)] rd2 show ?thesis
      by (subst record_before.simps) (auto simp: caught_def intro: Suc_leI)
  next
    case False
    with ready_HasNext [OF c rd'(2)] assms(4) rd'(2) show ?thesis
      by (subst record_before.simps) (auto intro!: exI [of _ "Suc m"])
  qed
  with more at_m show ?case by (subst record_before.simps) (simp add: caught_def rd'(1))
next
  case (Suc n)
  then have j: "j < m" "j < length xs" using assms(4) by simp_all
  from ready_read [OF c Suc.prems(1) j(2)] obtain rd' where
    rd': "Reader_ReadRecord rd = (Ok (item_record (xs ! j)), rd')" "ready b xs dec (Suc j) rd'" .
  have "item_key (xs ! j) < key \<or> item_key (xs ! j) = key \<and> dr_SeqId (item_record (xs ! j)) \<le> seqId" using assms(5) j by simp
  moreover have "Reader_HasNext rd" using ready_HasNext [OF c Suc.prems(1)] j by simp
  ultimately show ?case
    using Suc.hyps(1) [of "Suc j", OF _ rd'(2), of "Some (item_record (xs ! j))"] Suc.hyps(2) j
    by (subst record_before.simps) (simp add: caught_def rd'(1))
qed

text \<open>\<^verbatim>\<open>Prev\<close> takes a record for its own predecessor: with one record for each key it does not move.\<close>

lemma Prev_stays:
  assumes o: "over_block b xs dec" and s: "stands b xs dec m it" and m: "m < length xs" and d: "distinct (map item_key xs)"
  shows "\<exists>it'. Block_Prev it = Some (Ok it') \<and> bi_valid it' \<and> bi_current it' = bi_current it"
proof -
  have c: "complete b xs dec" and k: "list_all keyed xs" and ne: "xs \<noteq> []" and so: "sorted (map item_key xs)"
    using o by (simp_all add: over_block_def)
  let ?cur = "item_record (xs ! m)"
  from stands_ready [OF s] obtain i where "ready b xs dec i (bi_reader it)" by blast
  from ready_restart [OF c k this, of 0] ne obtain rd where
    rd: "Reader_SeekToRestart 0 (bi_reader it) = (Ok (), rd)" "ready b xs dec 0 rd" by auto
  have less: "item_key (xs ! i) < item_key (xs ! j)" if "i < j" "j < length xs" for i j
    using sorted_nth_mono [OF so, of i j] d that by (auto simp: distinct_conv_nth order.strict_iff_order)
  have "item_key (xs ! i) < dr_Key ?cur \<or> item_key (xs ! i) = dr_Key ?cur \<and> dr_SeqId (item_record (xs ! i)) \<le> dr_SeqId ?cur"
    if "i \<le> m" for i using less [of i m] that m by (cases "i = m") auto
  from record_before_ready [OF c rd(2) _ m this less, of None] obtain rd' where
    "record_before (dr_Key ?cur) (dr_SeqId ?cur) None rd = Some (Ok (Some ?cur, rd'))" by auto
  then show ?thesis
    using s m by (simp add: Block_Prev_def caught_def rd(1) stands_def)
qed

section \<open>Properties\<close>

datatype block_move = ToFirst | Forward | ToKey bytes

fun make_move :: "block_move \<Rightarrow> DataBlockIteratorRaw \<Rightarrow> DataBlockIteratorRaw result option" where
  "make_move ToFirst it = Some (Block_SeekToFirst it)"
| "make_move Forward it = Some (Block_Next it)"
| "make_move (ToKey key) it = Block_Seek key it"

fun run_moves :: "block_move list \<Rightarrow> DataBlockIteratorRaw \<Rightarrow> DataBlockIteratorRaw result option" where
  "run_moves [] it = Some (Ok it)"
| "run_moves (m # ms) it = (case make_move m it of Some (Inr it') \<Rightarrow> run_moves ms it' | r \<Rightarrow> r)"

lemma run_moves_stands:
  assumes o: "over_block b xs dec" and "stands b xs dec m it" "m \<le> length xs"
  shows "\<exists>it' m'. run_moves ms it = Some (Ok it') \<and> stands b xs dec m' it' \<and> m' \<le> length xs"
  using assms(2-)
proof (induction ms arbitrary: m it)
  case (Cons mv ms)
  have c: "complete b xs dec" using o by (simp add: over_block_def)
  have "\<exists>it' m'. make_move mv it = Some (Ok it') \<and> stands b xs dec m' it' \<and> m' \<le> length xs"
  proof (cases mv)
    case ToFirst
    with SeekToFirst_stands [OF c Cons.prems(1)] show ?thesis by auto
  next
    case Forward
    show ?thesis
    proof (cases "m < length xs")
      case True
      from Next_stands [OF c Cons.prems(1) True] obtain it' where "Block_Next it = Ok it'" "stands b xs dec (Suc m) it'" by blast
      with Forward True show ?thesis by (intro exI [of _ it'] exI [of _ "Suc m"]) simp
    next
      case False
      with Forward Cons.prems show ?thesis by (auto simp: Block_Next_def stands_def)
    qed
  next
    case (ToKey key)
    have "\<exists>it'. Block_Seek key it = Some (Ok it') \<and> stands b xs dec (length (takeWhile (\<lambda>x. item_key x < key) xs)) it'"
      using o by (intro Seek_stands [OF c _ _ _ Cons.prems(1)]) (auto simp: over_block_def)
    with ToKey length_takeWhile_le show ?thesis by fastforce
  qed
  then obtain it' m' where "make_move mv it = Some (Ok it')" "stands b xs dec m' it'" "m' \<le> length xs" by blast
  with Cons.IH [of m' it'] show ?case by simp
qed auto

text \<open>C15: However the iterator of a block of sorted records has been moved, \<^verbatim>\<open>Seek\<close> finds the first record whose key is not
  below the target, with its value, and walking on from there gives all the records after it: the search by restart points
  is equivalent to the search in the list of the records.\<close>

theorem block_seek:
  assumes "ve = add_values earlier (NewAdaptiveDictEncoderFrequency threshold window)"
    and "NewDataBlockBuilder PrefixCompression ri bs ve = Ok b0" "add_records recs b0 = Ok (True, b)" "recs \<noteq> []"
    and "0 < ri" "ri < 2 ^ 31" "bs < 2 ^ 19" "list_all (\<lambda>r. dr_OpType r \<le> 3 \<and> slice_ok (dr_Key r)) recs"
    and "final = add_values (map dr_Value recs @ later) ve" "length (a_keys final) \<le> 256" "list_all slice_ok (a_keys final)"
    and "ReadDictionary (Adaptive_SaveDict final) (NewAdaptiveDictEncoderFrequency t w) = (res, dec)"
    and "sorted (map dr_Key recs)"
  shows "\<exists>block it0 it it'. Builder_Finish bs b = Ok block \<and> NewDataBlockIteratorRaw block ri PrefixCompression dec = Ok it0 \<and>
    run_moves ms it0 = Some (Ok it) \<and> Block_Seek key it = Some (Ok it') \<and>
    collect block_methods it' =
      Some (dropWhile (\<lambda>r. dr_Key r < key) (map (\<lambda>rec. rec\<lparr>dr_ChunkType := ChunkTypeFull\<rparr>) recs))"
proof -
  obtain block xs where b: "built b xs" "builder_ok b" "has_room b xs" "list_all (readable dec) xs" "list_all keyed xs" "xs \<noteq> []"
    and rd: "map item_record xs = map (\<lambda>rec. rec\<lparr>dr_ChunkType := ChunkTypeFull\<rparr>) recs"
    and block: "Builder_Finish bs b = Ok block" "NewDataBlockReader block ri PrefixCompression dec = Ok (opened b xs dec)"
    by (rule records_block [OF assms(1-12)])
  have c: "complete b xs dec" using b(1-4) by (simp add: complete_def)
  have "map item_key xs = map dr_Key recs" using arg_cong [OF rd, of "map dr_Key"] by (simp add: comp_def)
  with c b(5,6) assms(13) have o: "over_block b xs dec" by (simp add: over_block_def)
  define it0 where "it0 = \<lparr>bi_reader = opened b xs dec, bi_current = None, bi_valid = False\<rparr>"
  have new: "NewDataBlockIteratorRaw block ri PrefixCompression dec = Ok it0"
    by (simp add: NewDataBlockIteratorRaw_def block(2) it0_def)
  have "stands b xs dec (length xs) it0" using ready_opened [OF c] by (auto simp: stands_def it0_def)
  from run_moves_stands [OF o this, of ms] obtain it m where
    it: "run_moves ms it0 = Some (Ok it)" "stands b xs dec m it" "m \<le> length xs" by auto
  have bi: "block_it it" by (rule block_itI [OF o it(3,2)])
  from block.seek_law [OF bi, of "\<lparr>dr_SeqId = 0, dr_OpType = 0, dr_ExpiresAt = 0, dr_Key = key, dr_Value = [], dr_ChunkType = 0\<rparr>"]
  obtain it' where it': "returned (Block_Seek key it) = Some it'" "block_it it'"
    "block_ahead it' = dropWhile (\<lambda>r. dr_Key r < key) (block_whole it)" by auto
  have "Block_Seek key it = Some (Ok it')" using it'(1) by (auto simp: returned_def split: option.splits sum.splits)
  moreover have "collect block_methods it' = Some (dropWhile (\<lambda>r. dr_Key r < key) (map (\<lambda>rec. rec\<lparr>dr_ChunkType := ChunkTypeFull\<rparr>) recs))"
    using block.collect_ahead [OF it'(2)] it'(3) whole_stands [OF c it(2)] by (simp add: rd)
  ultimately show ?thesis using block(1) new it(1) by blast
qed

theorem block_seek_witness:
  "\<exists>b block dec it0 it it'. add_records example_records (example_builder (NewAdaptiveDictEncoderFrequency 2 5)) = Ok (True, b) \<and>
     Builder_Finish 256 b = Ok block \<and> NewDataBlockIteratorRaw block 2 PrefixCompression dec = Ok it0 \<and>
     run_moves [ToFirst, Forward] it0 = Some (Ok it) \<and> Block_Seek [1, 2, 7] it = Some (Ok it') \<and>
     collect block_methods it' = Some [example_records ! 1]"
proof -
  let ?ve = "add_values [] (NewAdaptiveDictEncoderFrequency 2 5)"
  let ?final = "add_values (map dr_Value example_records @ []) ?ve"
  note b0 = example_builder [of ?ve]
  have "case add_records example_records (example_builder ?ve) of Inr (True, b) \<Rightarrow> True | _ \<Rightarrow> False" by code_simp
  then obtain b where b: "add_records example_records (example_builder ?ve) = Ok (True, b)"
    by (simp only: split: sum.splits prod.splits bool.splits)
  have keys: "a_keys ?final = [[9]]" by code_simp
  obtain res dec where dec: "ReadDictionary (Adaptive_SaveDict ?final) (NewAdaptiveDictEncoderFrequency 2 5) = (res, dec)"
    by fastforce
  have "list_all (\<lambda>r. dr_OpType r \<le> 3 \<and> slice_ok (dr_Key r)) example_records" "example_records \<noteq> []" "sorted (map dr_Key example_records)"
    "dropWhile (\<lambda>r. dr_Key r < [1, 2, 7]) (map (\<lambda>rec. rec\<lparr>dr_ChunkType := ChunkTypeFull\<rparr>) example_records) = [example_records ! 1]"
    by (simp_all add: example_records_def slice_ok_def max_alloc_def)
  with block_seek [OF refl b0 b _ _ _ _ _ refl _ _ dec, of "[ToFirst, Forward]" "[1, 2, 7]"] keys b show ?thesis
    by (simp add: slice_ok_def max_alloc_def) blast
qed

lemma chunk_then_record:
  assumes "adaptive_inv ve" and "NewDataBlockBuilder PrefixCompression ri bs ve = Ok b0"
    and "Builder_AddContinuationChunk c v b0 = Ok (True, b1)" "Builder_AddRecord rec b1 = Ok (True, b)"
    and "0 < ri" "ri < 2 ^ 31" "bs < 2 ^ 19" "dr_OpType rec \<le> 3" "slice_ok (dr_Key rec)"
    and dict: "a_dictionary (add_values [dr_Value rec] ve) (dr_Value rec) = Some idx"
    and "final = add_values (dr_Value rec # later) ve" "length (a_keys final) \<le> 256" "list_all slice_ok (a_keys final)"
    and "ReadDictionary (Adaptive_SaveDict final) (NewAdaptiveDictEncoderFrequency t w) = (res, dec)"
    and ade: "ade = add_values [dr_Value rec] ve" and c: "c = ChunkTypeLast"
  obtains xs where "complete b xs dec" "xs = [Cont c v, whole_item ade rec]"
    "whole_item ade rec = Keyed (rec\<lparr>dr_ChunkType := ChunkTypeFull\<rparr>) [ucast idx] True"
    "bb_restartInterval b = ri" "bb_blockSize b = bs"
proof -
  note new = NewDataBlockBuilder_built [OF assms(2)]
  have inv1: "adaptive_inv ade" unfolding ade add_values_def by (rule adaptive_inv_adds [OF assms(1)])
  have len: "length (a_keys ade) \<le> 256" "length (a_keys ve) \<le> length (a_keys ade)"
    using add_values_mono [of ade later] add_values_mono [of ve "[dr_Value rec]"] assms(12) by (simp_all add: ade assms(11))
  have ok0: "builder_ok b0" using new assms(1,5-7) len by (simp add: builder_ok_def)
  have room: "int (length (bb_data b0)) + 23 + int (length v) + chunk_space b0 \<le> bb_blockSize b0"
    using assms(3) by (simp add: Builder_AddContinuationChunk_def spaces(3) [OF ok0] split: if_splits)
  from AddContinuationChunk_added [OF ok0 _ _ room, of "[]" c] new assms(3)
  have b1: "built b1 [Cont c v]" "same_settings b0 b1" "builder_ok b1" "bb_valueEncoder b1 = ve" by auto
  have ea: "encoder_after rec b1 = ade" by (simp add: b1(4) ade)
  have "int (length (bb_data b1)) + record_space rec b1 \<le> bb_blockSize b1"
    using AddRecord_full [OF b1(3), of rec] assms(4) by (cases "bb_blockSize b1 < int (length (bb_data b1)) + record_space rec b1") auto
  from AddRecord_added [OF b1(3,1) this] assms(4) len(1)
  have b: "built b [Cont c v, whole_item ade rec]" "has_room b [Cont c v, whole_item ade rec]" "same_settings b1 b" "builder_ok b"
    by (simp_all add: ea)
  have g: "grown ade dec" "a_keys dec = a_keys final"
    using grown_loaded [OF inv1 _ assms(13) _ assms(14), of later] assms(12) by (simp_all add: assms(11) ade)
  have rd: "readable dec (whole_item ade rec)"
    using readable_whole_item [OF g(1) _ assms(8,9)] g(2) assms(12) by simp
  have d: "a_dictionary ade (dr_Value rec) = Some idx" "length (a_keys ade) \<le> 2 ^ 48" using dict len(1) by (simp_all add: ade)
  have "0 < length (a_keys ade)" using adaptive_indexed [OF inv1 d(2,1)] by (metis gr_implies_not0 not_gr_zero)
  then have one: "index_bytes (length (a_keys ade)) = 1" using len(1) by (intro index_bytes_small) auto
  have item: "whole_item ade rec = Keyed (rec\<lparr>dr_ChunkType := ChunkTypeFull\<rparr>) [ucast idx] True"
    using Adaptive_Encode_Some [OF inv1 d(2,1)] by (simp add: whole_item_def one)
  show thesis
    using b rd item new b1(2) by (intro that) (auto simp: complete_def c same_settings_def)
qed

text \<open>In such a block the restart point is behind the chunk, and the reader starts counting there.\<close>

lemma seek_misaligned:
  assumes c: "complete b xs dec" and xs: "xs = [Cont ct v, Keyed (rec\<lparr>dr_ChunkType := ChunkTypeFull\<rparr>) stored True]"
    and rd: "dr_OpType rec \<le> 3" "slice_ok (dr_Key rec)" and it0: "bi_reader it0 = opened b xs dec"
  obtains it2 where "Block_Seek (dr_Key rec) it0 = Some (Ok it2)" "bi_valid it2"
    "bi_current it2 = Some (rec\<lparr>dr_ChunkType := ChunkTypeFull, dr_Value := stored\<rparr>)"
proof -
  let ?x = "Keyed (rec\<lparr>dr_ChunkType := ChunkTypeFull\<rparr>) stored"
  have built: "built b xs" and ok: "builder_ok b" using c by (simp_all add: complete_def)
  have off: "offset_of b xs (Suc 0) < 2 ^ 32"
    using offset_mono [OF built, of "Suc 0" "length xs"] c
    by (auto simp: xs offset_end [OF built, unfolded xs, simplified] complete_def has_room_def builder_ok_def)
  have st: "state_after b xs (Suc 0) = fresh_encoder b" by (simp add: state_after_def xs)
  have x1: "xs ! Suc 0 = ?x True" by (simp add: xs)
  have ra: "block_restarts b xs = [of_nat (offset_of b xs (Suc 0))]"
    by (simp add: block_restarts_def xs offset_of_def bytes_enc_def DeltaEncoderBytes_Encode_def NewDeltaEncoderBytes_def Let_def)
  obtain post where D: "bb_data b = fst (items_enc (fresh_encoder b) 0 (take (Suc 0) xs)) @
      fst (item_enc (state_after b xs (Suc 0)) (of_nat (offset_of b xs (Suc 0))) (xs ! Suc 0)) @ post"
    using data_at(1) [OF built, of "Suc 0"] by (auto simp: xs)
  define pre where "pre = fst (items_enc (fresh_encoder b) 0 (take (Suc 0) xs))"
  have D': "bb_data b = pre @ fst (item_enc (fresh_encoder b) (of_nat (offset_of b xs (Suc 0))) (?x False)) @ post"
    using D unfolding st x1 pre_def [symmetric] by simp
  have lp: "offset_of b xs (Suc 0) = length pre" by (simp add: pre_def offset_of_def)
  have bit: "BitSet_Get (block_bits xs) 0 = False" unfolding block_bits_def by (subst flag_bits_Get) (simp_all add: xs)
  define r0 where "r0 = (\<lambda>t. reader_at (bb_data b) dec (block_restarts b xs) (block_bits xs) t (length pre) 0)"
  have read: "\<exists>t'. Reader_ReadRecord (r0 t) = (Ok (rec\<lparr>dr_ChunkType := ChunkTypeFull, dr_Value := stored\<rparr>),
      reader_at (bb_data b) dec (block_restarts b xs) (block_bits xs) t' (length (bb_data b) - length post) (Suc 0))" for t
  proof -
    have "bytes_sim (fresh_encoder b) t" by (simp add: bytes_sim_def NewDeltaEncoderBytes_def)
    from read_keyed_cases [OF this _ _ D' slice_ok_data [OF c] bit refl, of dec "block_restarts b xs"] rd
    obtain t' where "read_keyed ChunkTypeFull (reader_at (bb_data b) dec (block_restarts b xs) (block_bits xs) t (Suc (length pre)) 0) =
      (Ok (rec\<lparr>dr_ChunkType := ChunkTypeFull, dr_Value := stored\<rparr>),
       reader_at (bb_data b) dec (block_restarts b xs) (block_bits xs) t' (length (bb_data b) - length post) (Suc 0))"
      by (auto simp: D' Let_def)
    moreover have "bb_data b = pre @ ChunkTypeFull # drop (Suc (length pre)) (bb_data b)"
      unfolding D' by (simp add: header_bytes_def)
    ultimately show ?thesis
      unfolding r0_def by (subst read_chunk_type [OF _ slice_ok_data [OF c]]) auto
  qed
  have seek: "\<exists>t'. Reader_SeekToRestart 0 (reader_at (bb_data b) dec (block_restarts b xs) (block_bits xs) t p i) = (Ok (), r0 t')" for t p i
    using off by (auto simp: Reader_SeekToRestart_def ra reader_at_def r0_def lp Let_def unsigned_of_nat take_bit_nat_eq_self
        DeltaEncoderBytes_Reset_def go_int_def)
  have start: "opened b xs dec = reader_at (bb_data b) dec (block_restarts b xs) (block_bits xs) (fresh_encoder b) 0 0"
    by (simp add: opened_def block_restarts_def block_bits_def)
  obtain t1 where t1: "Reader_SeekToRestart 0 (opened b xs dec) = (Ok (), r0 t1)" using seek unfolding start by blast
  obtain t2 where t2: "Reader_ReadRecord (r0 t1) = (Ok (rec\<lparr>dr_ChunkType := ChunkTypeFull, dr_Value := stored\<rparr>),
      reader_at (bb_data b) dec (block_restarts b xs) (block_bits xs) t2 (length (bb_data b) - length post) (Suc 0))" using read by blast
  obtain t3 where t3: "Reader_SeekToRestart 0 (reader_at (bb_data b) dec (block_restarts b xs) (block_bits xs) t2 (length (bb_data b) - length post) (Suc 0)) =
      (Ok (), r0 t3)" using seek by blast
  obtain t4 where t4: "Reader_ReadRecord (r0 t3) = (Ok (rec\<lparr>dr_ChunkType := ChunkTypeFull, dr_Value := stored\<rparr>),
      reader_at (bb_data b) dec (block_restarts b xs) (block_bits xs) t4 (length (bb_data b) - length post) (Suc 0))" using read by blast
  have search: "restart_search (dr_Key rec) 0 0 0 (opened b xs dec) =
      Ok (Some 0, reader_at (bb_data b) dec (block_restarts b xs) (block_bits xs) t2 (length (bb_data b) - length post) (Suc 0))"
    by (subst restart_search.simps, subst restart_search.simps) (simp add: Let_def caught_def t1 t2)
  have more: "Reader_HasNext (r0 t3)" by (simp add: r0_def Reader_HasNext_def D' header_bytes_def)
  have "rd_restartArray (opened b xs dec) = block_restarts b xs" by (simp add: start)
  then have "Block_Seek (dr_Key rec) it0 = seek_forward (dr_Key rec) (it0\<lparr>bi_reader := r0 t3\<rparr>)"
    by (simp add: Block_Seek_def it0 ra search [unfolded ra] caught_def t3 [unfolded ra])
  moreover define it2 where "it2 = it0\<lparr>
      bi_reader := reader_at (bb_data b) dec (block_restarts b xs) (block_bits xs) t4 (length (bb_data b) - length post) (Suc 0),
      bi_current := Some (rec\<lparr>dr_ChunkType := ChunkTypeFull, dr_Value := stored\<rparr>), bi_valid := True\<rparr>"
  have "seek_forward (dr_Key rec) (it0\<lparr>bi_reader := r0 t3\<rparr>) = Some (Ok it2)"
    by (subst seek_forward.simps) (simp add: more caught_def t4 it2_def)
  ultimately have "Block_Seek (dr_Key rec) it0 = Some (Ok it2)" by (simp only:)
  then show thesis by (rule that) (simp_all add: it2_def)
qed

text \<open>C16: \<^verbatim>\<open>SeekToRestart\<close> takes \<open>i * restartInterval\<close> for the number of the record at restart point \<open>i\<close>, which leaves out the chunks
  without a key. In a block that begins with the last chunk of a long value, the record behind it is found by walking as it
  was added, but \<^verbatim>\<open>Seek\<close> looks up the bit of another item and returns the dictionary index as its value.\<close>

theorem block_seek_after_chunk:
  assumes "ve = add_values earlier (NewAdaptiveDictEncoderFrequency threshold window)"
    and "NewDataBlockBuilder PrefixCompression ri bs ve = Ok b0"
    and "Builder_AddContinuationChunk ChunkTypeLast v b0 = Ok (True, b1)" "Builder_AddRecord rec b1 = Ok (True, b)"
    and "0 < ri" "ri < 2 ^ 31" "bs < 2 ^ 19" "dr_OpType rec \<le> 3" "slice_ok (dr_Key rec)"
    and "a_dictionary (add_values [dr_Value rec] ve) (dr_Value rec) = Some idx"
    and "final = add_values (dr_Value rec # later) ve" "length (a_keys final) \<le> 256" "list_all slice_ok (a_keys final)"
    and "ReadDictionary (Adaptive_SaveDict final) (NewAdaptiveDictEncoderFrequency t w) = (res, dec)"
  shows "\<exists>block it0 it1 it2. Builder_Finish bs b = Ok block \<and> NewDataBlockIteratorRaw block ri PrefixCompression dec = Ok it0 \<and>
    run_moves [ToFirst, Forward] it0 = Some (Ok it1) \<and> bi_current it1 = Some (rec\<lparr>dr_ChunkType := ChunkTypeFull\<rparr>) \<and>
    Block_Seek (dr_Key rec) it0 = Some (Ok it2) \<and> bi_valid it2 \<and>
    bi_current it2 = Some (rec\<lparr>dr_ChunkType := ChunkTypeFull, dr_Value := [ucast idx]\<rparr>)"
proof -
  define ade where "ade = add_values [dr_Value rec] ve"
  have inv: "adaptive_inv ve"
    unfolding assms(1) add_values_def by (rule adaptive_inv_adds [OF adaptive_inv_New])
  obtain xs where c: "complete b xs dec" and xs: "xs = [Cont ChunkTypeLast v, whole_item ade rec]"
    and item: "whole_item ade rec = Keyed (rec\<lparr>dr_ChunkType := ChunkTypeFull\<rparr>) [ucast idx] True"
    and bs: "bb_restartInterval b = ri" "bb_blockSize b = bs"
    by (rule chunk_then_record [OF inv assms(2-14) ade_def refl])
  note parts = c [unfolded complete_def]
  obtain block where block: "Builder_Finish bs b = Ok block" "NewDataBlockReader block ri PrefixCompression dec = Ok (opened b xs dec)"
    by (rule finished_block [of b xs dec, unfolded bs]) (use parts xs in auto)
  define it0 where "it0 = \<lparr>bi_reader = opened b xs dec, bi_current = None, bi_valid = False\<rparr>"
  have new: "NewDataBlockIteratorRaw block ri PrefixCompression dec = Ok it0"
    by (simp add: NewDataBlockIteratorRaw_def block(2) it0_def)
  have s0: "stands b xs dec (length xs) it0" using ready_opened [OF c] by (auto simp: stands_def it0_def)
  from SeekToFirst_stands [OF c s0] obtain f where f: "Block_SeekToFirst it0 = Ok f" "stands b xs dec 0 f" by blast
  from Next_stands [OF c f(2)] xs obtain it1 where it1: "Block_Next f = Ok it1" "stands b xs dec (Suc 0) it1" by auto
  have cur: "bi_current it1 = Some (rec\<lparr>dr_ChunkType := ChunkTypeFull\<rparr>)" using it1(2) by (simp add: stands_def xs item)
  obtain it2 where "Block_Seek (dr_Key rec) it0 = Some (Ok it2)" "bi_valid it2"
    "bi_current it2 = Some (rec\<lparr>dr_ChunkType := ChunkTypeFull, dr_Value := [ucast idx]\<rparr>)"
    by (rule seek_misaligned [OF c xs [unfolded item] assms(8,9)]) (auto simp: it0_def)
  with block(1) new f(1) it1(1) cur show ?thesis by (intro exI conjI) auto
qed

lemma accepted: "(case r of Inr (True, b) \<Rightarrow> P b | _ \<Rightarrow> False) \<Longrightarrow> \<exists>b. r = Ok (True, b) \<and> P b"
  by (auto split: sum.splits bool.splits)

theorem block_seek_after_chunk_witness:
  "\<exists>b1 b block dec it0 it1 it2.
     Builder_AddContinuationChunk ChunkTypeLast [5, 5] (example_builder (add_values [[9]] (NewAdaptiveDictEncoderFrequency 2 5))) = Ok (True, b1) \<and>
     Builder_AddRecord (hd example_records) b1 = Ok (True, b) \<and> Builder_Finish 256 b = Ok block \<and>
     NewDataBlockIteratorRaw block 2 PrefixCompression dec = Ok it0 \<and>
     run_moves [ToFirst, Forward] it0 = Some (Ok it1) \<and> bi_current it1 = Some (hd example_records) \<and>
     Block_Seek [1, 2] it0 = Some (Ok it2) \<and> bi_valid it2 \<and> bi_current it2 = Some ((hd example_records)\<lparr>dr_Value := [0]\<rparr>)"
proof -
  let ?ve = "add_values [[9]] (NewAdaptiveDictEncoderFrequency 2 5)" and ?rec = "hd example_records"
  let ?final = "add_values (dr_Value ?rec # []) ?ve"
  note b0 = example_builder [of ?ve]
  have "case Builder_AddContinuationChunk ChunkTypeLast [5, 5] (example_builder ?ve) of
      Inr (True, b1) \<Rightarrow> (case Builder_AddRecord ?rec b1 of Inr (True, b) \<Rightarrow> True | _ \<Rightarrow> False) | _ \<Rightarrow> False" by code_simp
  from accepted [OF this] obtain b1 where b1: "Builder_AddContinuationChunk ChunkTypeLast [5, 5] (example_builder ?ve) = Ok (True, b1)"
    and "case Builder_AddRecord ?rec b1 of Inr (True, b) \<Rightarrow> True | _ \<Rightarrow> False" by blast
  from accepted [OF this(2)] obtain b where b: "Builder_AddRecord ?rec b1 = Ok (True, b)" by blast
  have keys: "a_keys ?final = [[9]]" by code_simp
  have dict: "a_dictionary (add_values [dr_Value ?rec] ?ve) (dr_Value ?rec) = Some 0" by code_simp
  obtain res dec where dec: "ReadDictionary (Adaptive_SaveDict ?final) (NewAdaptiveDictEncoderFrequency 2 5) = (res, dec)"
    by fastforce
  have "dr_OpType ?rec \<le> 3" "slice_ok (dr_Key ?rec)" "?rec\<lparr>dr_ChunkType := ChunkTypeFull\<rparr> = ?rec" "dr_Key ?rec = [1, 2]"
    by (simp_all add: example_records_def slice_ok_def max_alloc_def)
  with block_seek_after_chunk [OF refl b0 b1 b _ _ _ _ _ dict refl _ _ dec] keys b1 b show ?thesis
    by (simp add: slice_ok_def max_alloc_def) blast
qed

end
