(* ===== verification/Segment_Storage.thy ===== *)
theory Segment_Storage
  imports Block_Manager
begin

text \<open>
  \<^verbatim>\<open>internal/sstable/segment_storage.go\<close>: the segments of a table in one file or in a file for each kind of segment,
  the kinds of \<^verbatim>\<open>enums.SegmentType\<close>, and the interface both implement.

  The file system and the block cache are those of theory \<open>Block_Manager\<close>. A file that is open is written and read by
  its path; a handle that has been closed fails, while the block manager opens the path again. Offsets and sizes are natural
  numbers: the conversions \<^verbatim>\<open>uint32(offset / blockSize)\<close> and \<^verbatim>\<open>uint32(len(data))\<close> are exact for files of fewer than
  \<open>2 ^ 32\<close> blocks and segments of less than 4 GiB. Opening for reading and for writing is not told apart.
\<close>

section \<open>Kinds of segments\<close>

datatype SegmentType = SegmentData | SegmentFilter | SegmentIndex | SegmentSummary | SegmentMerkleTree | SegmentMetadata |
  SegmentFooter | SegmentDictionary | SegmentTTLIndex | SegmentRangeDelIndex

text \<open>The kinds that are written block by block.\<close>

definition block_segment :: "SegmentType \<Rightarrow> bool" where
  "block_segment seg \<longleftrightarrow> seg = SegmentData \<or> seg = SegmentIndex \<or> seg = SegmentTTLIndex \<or> seg = SegmentRangeDelIndex"

definition closed_file :: failure where
  "closed_file = Error ''file already closed''"

definition write_handle :: "path \<Rightarrow> nat \<Rightarrow> bytes \<Rightarrow> disk \<Rightarrow> disk" where
  "write_handle p off data d = d(p \<mapsto> WriteNoBlock (open_create p d) off data)"

definition read_handle :: "path \<Rightarrow> nat \<Rightarrow> nat \<Rightarrow> disk \<Rightarrow> bytes result" where
  "read_handle p off n d = ReadNoBlock (open_create p d) off n"

definition padded :: "nat \<Rightarrow> bytes \<Rightarrow> bytes" where
  "padded n data = (if length data < n then data @ make_bytes (n - length data) else data)"

section \<open>One file\<close>

record SingleFileStorage =
  sf_file :: path
  sf_offset :: nat
  sf_BlockManager :: "BlockManager option"
  sf_closed :: bool

definition NewSingleFileStorage :: "path \<Rightarrow> BlockManager \<Rightarrow> disk \<Rightarrow> SingleFileStorage \<times> disk" where
  "NewSingleFileStorage filePath bm d =
     (\<lparr>sf_file = filePath, sf_offset = 0, sf_BlockManager = Some bm, sf_closed = False\<rparr>, d(filePath \<mapsto> []))"

definition OpenSingleFileStorage :: "path \<Rightarrow> disk \<Rightarrow> SingleFileStorage result" where
  "OpenSingleFileStorage filePath d =
     (if d filePath = None then Inl (Error ''no such file or directory'')
      else Ok \<lparr>sf_file = filePath, sf_offset = 0, sf_BlockManager = None, sf_closed = False\<rparr>)"

definition Single_SetBlockManager :: "BlockManager \<Rightarrow> SingleFileStorage \<Rightarrow> SingleFileStorage" where
  "Single_SetBlockManager bm s = s\<lparr>sf_BlockManager := Some bm\<rparr>"

text \<open>The padding up to the next block, written through the handle.\<close>

definition Single_align :: "nat \<Rightarrow> (SingleFileStorage \<times> disk, unit) op" where
  "Single_align blockSize = (\<lambda>(s, d).
     let remainder = sf_offset s mod blockSize in
     if remainder = 0 then (Ok (), (s, d))
     else if sf_closed s then (Inl closed_file, (s, d))
     else (Ok (), (s\<lparr>sf_offset := sf_offset s + (blockSize - remainder)\<rparr>,
                   write_handle (sf_file s) (sf_offset s) (make_bytes (blockSize - remainder)) d)))"

definition Single_WriteSegment :: "SegmentType \<Rightarrow> bytes \<Rightarrow> (SingleFileStorage \<times> disk, nat \<times> nat) op" where
  "Single_WriteSegment seg data = (\<lambda>(s, d).
     case (if block_segment seg then sf_BlockManager s else None) of
       Some bm \<Rightarrow>
         let blockSize = bm_blockSize bm in
         if blockSize = 0 then (Inl (Panic ''integer divide by zero''), (s, d))
         else bind_s (Single_align blockSize) (\<lambda>_ (s, d).
           let data = padded blockSize data; off = sf_offset s in
           (Ok (off, length data),
            (s\<lparr>sf_offset := off + length data\<rparr>, WriteNoCache bm d (NewBlockKey (sf_file s) (off div blockSize)) data))) (s, d)
     | None \<Rightarrow>
         if sf_closed s then (Inl closed_file, (s, d))
         else (Ok (sf_offset s, length data),
               (s\<lparr>sf_offset := sf_offset s + length data\<rparr>, write_handle (sf_file s) (sf_offset s) data d)))"

definition Single_ReadSegment :: "disk \<Rightarrow> SegmentType \<Rightarrow> nat \<Rightarrow> nat \<Rightarrow> (SingleFileStorage, bytes) op" where
  "Single_ReadSegment d seg off n s =
     (case (if block_segment seg then sf_BlockManager s else None) of
        Some bm \<Rightarrow>
          if bm_blockSize bm = 0 then (Inl (Panic ''integer divide by zero''), s)
          else (case bm_Read bm d (NewBlockKey (sf_file s) (off div bm_blockSize bm)) of
            (r, bm') \<Rightarrow> (r, s\<lparr>sf_BlockManager := Some bm'\<rparr>))
      | None \<Rightarrow> if sf_closed s then (Inl closed_file, s) else (read_handle (sf_file s) off n d, s))"

definition Single_Close :: "SingleFileStorage \<Rightarrow> SingleFileStorage" where
  "Single_Close s = s\<lparr>sf_closed := True\<rparr>"

definition Single_Sync :: "SingleFileStorage \<Rightarrow> SingleFileStorage" where
  "Single_Sync s = s"

text \<open>\<^verbatim>\<open>Restart\<close> opens the file again for reading; the flag stays.\<close>

definition Single_Restart :: "disk \<Rightarrow> (SingleFileStorage, unit) op" where
  "Single_Restart d s = (if d (sf_file s) = None then (Inl (Error ''no such file or directory''), s) else (Ok (), s))"

definition Single_Size :: "disk \<Rightarrow> SingleFileStorage \<Rightarrow> nat result" where
  "Single_Size d s = (if sf_closed s then Inl closed_file else Ok (length (open_create (sf_file s) d)))"

text \<open>\<^verbatim>\<open>Delete\<close> drops the file's blocks from the cache and removes the file.\<close>

definition Single_Delete :: "(SingleFileStorage \<times> disk, unit) op" where
  "Single_Delete = (\<lambda>(s, d). case sf_BlockManager s of
       None \<Rightarrow> (Inl (Panic ''nil pointer dereference''), (s, d))
     | Some bm \<Rightarrow> (Ok (), (Single_Close (s\<lparr>sf_BlockManager := Some (InvalidateFile bm (sf_file s))\<rparr>), d(sf_file s := None))))"

section \<open>A file for each kind of segment\<close>

definition segment_extension :: "SegmentType \<Rightarrow> string" where
  "segment_extension seg = (case seg of
       SegmentData \<Rightarrow> ''.data'' | SegmentFilter \<Rightarrow> ''.filter'' | SegmentIndex \<Rightarrow> ''.index'' | SegmentSummary \<Rightarrow> ''.summary''
     | SegmentMetadata \<Rightarrow> ''.metadata'' | SegmentMerkleTree \<Rightarrow> ''.merkle'' | SegmentFooter \<Rightarrow> ''.footer''
     | SegmentDictionary \<Rightarrow> ''.dictionary'' | SegmentTTLIndex \<Rightarrow> ''.ttl'' | SegmentRangeDelIndex \<Rightarrow> ''.rangedel'')"

text \<open>The map of open files holds for every kind whether its handle is still open.\<close>

record MultiFileStorage =
  mf_basePath :: path
  mf_files :: "SegmentType \<rightharpoonup> bool"
  mf_offsets :: "SegmentType \<rightharpoonup> nat"
  mf_BlockManager :: "BlockManager option"
  mf_closed :: bool

definition getFilePath :: "SegmentType \<Rightarrow> MultiFileStorage \<Rightarrow> path" where
  "getFilePath seg m = mf_basePath m @ segment_extension seg"

definition NewMultiFileStorage :: "path \<Rightarrow> BlockManager option \<Rightarrow> MultiFileStorage" where
  "NewMultiFileStorage basePath bm = \<lparr>mf_basePath = basePath, mf_files = Map.empty, mf_offsets = Map.empty,
     mf_BlockManager = bm, mf_closed = False\<rparr>"

definition OpenMultiFileStorage :: "path \<Rightarrow> MultiFileStorage" where
  "OpenMultiFileStorage basePath = NewMultiFileStorage basePath None"

definition Multi_SetBlockManager :: "BlockManager \<Rightarrow> MultiFileStorage \<Rightarrow> MultiFileStorage" where
  "Multi_SetBlockManager bm m = m\<lparr>mf_BlockManager := Some bm\<rparr>"

definition getOrCreateFile :: "SegmentType \<Rightarrow> MultiFileStorage \<times> disk \<Rightarrow> MultiFileStorage \<times> disk" where
  "getOrCreateFile seg = (\<lambda>(m, d).
     if mf_files m seg \<noteq> None then (m, d)
     else (m\<lparr>mf_files := (mf_files m)(seg \<mapsto> True), mf_offsets := (mf_offsets m)(seg \<mapsto> 0)\<rparr>, d(getFilePath seg m \<mapsto> [])))"

definition getOrOpenFile :: "disk \<Rightarrow> SegmentType \<Rightarrow> (MultiFileStorage, unit) op" where
  "getOrOpenFile d seg m =
     (if mf_files m seg \<noteq> None then (Ok (), m)
      else if d (getFilePath seg m) = None then (Inl (Error ''no such file or directory''), m)
      else (Ok (), m\<lparr>mf_files := (mf_files m)(seg \<mapsto> True)\<rparr>))"

definition segment_offset :: "SegmentType \<Rightarrow> MultiFileStorage \<Rightarrow> nat" where
  "segment_offset seg m = (case mf_offsets m seg of None \<Rightarrow> 0 | Some off \<Rightarrow> off)"

definition Multi_WriteSegment :: "SegmentType \<Rightarrow> bytes \<Rightarrow> (MultiFileStorage \<times> disk, nat \<times> nat) op" where
  "Multi_WriteSegment seg data md =
     (let (m, d) = getOrCreateFile seg md;
          off = segment_offset seg m;
          p = getFilePath seg m
      in case (if block_segment seg then mf_BlockManager m else None) of
           Some bm \<Rightarrow>
             let data = padded (bm_blockSize bm) data in
             if bm_blockSize bm = 0 then (Inl (Panic ''integer divide by zero''), (m, d))
             else (Ok (off, length data),
                   (m\<lparr>mf_offsets := (mf_offsets m)(seg \<mapsto> off + length data)\<rparr>,
                    WriteNoCache bm d (NewBlockKey p (off div bm_blockSize bm)) data))
         | None \<Rightarrow>
             if mf_files m seg = Some False then (Inl closed_file, (m, d))
             else (Ok (off, length data),
                   (m\<lparr>mf_offsets := (mf_offsets m)(seg \<mapsto> off + length data)\<rparr>, write_handle p off data d)))"

definition Multi_ReadSegment :: "disk \<Rightarrow> SegmentType \<Rightarrow> nat \<Rightarrow> nat \<Rightarrow> (MultiFileStorage, bytes) op" where
  "Multi_ReadSegment d seg off n =
     bind_s (getOrOpenFile d seg) (\<lambda>_ m.
       let p = getFilePath seg m in
       case (if block_segment seg then mf_BlockManager m else None) of
         Some bm \<Rightarrow>
           if bm_blockSize bm = 0 then (Inl (Panic ''integer divide by zero''), m)
           else (case bm_Read bm d (NewBlockKey p (off div bm_blockSize bm)) of
             (r, bm') \<Rightarrow> (r, m\<lparr>mf_BlockManager := Some bm'\<rparr>))
       | None \<Rightarrow> if mf_files m seg = Some False then (Inl closed_file, m) else (read_handle p off n d, m))"

definition Multi_Close :: "MultiFileStorage \<Rightarrow> MultiFileStorage" where
  "Multi_Close m = (if mf_closed m then m
     else m\<lparr>mf_closed := True, mf_files := (\<lambda>seg. map_option (\<lambda>_. False) (mf_files m seg))\<rparr>)"

definition Multi_Restart :: "MultiFileStorage \<Rightarrow> MultiFileStorage" where
  "Multi_Restart m = m\<lparr>mf_files := Map.empty\<rparr>"

text \<open>The kinds in the order in which \<^verbatim>\<open>Delete\<close> removes their files.\<close>

definition all_segments :: "SegmentType list" where
  "all_segments = [SegmentData, SegmentIndex, SegmentFilter, SegmentSummary, SegmentMetadata, SegmentMerkleTree, SegmentFooter,
     SegmentDictionary, SegmentTTLIndex, SegmentRangeDelIndex]"

definition Multi_Delete :: "(MultiFileStorage \<times> disk, unit) op" where
  "Multi_Delete = (\<lambda>(m, d). case mf_BlockManager m of
       None \<Rightarrow> (Inl (Panic ''nil pointer dereference''), (m, d))
     | Some bm \<Rightarrow>
         (Ok (), (m\<lparr>mf_BlockManager := Some (fold (\<lambda>seg bm. InvalidateFile bm (getFilePath seg m)) all_segments bm),
                    mf_files := (\<lambda>seg. map_option (\<lambda>_. False) (mf_files m seg))\<rparr>,
                  fold (\<lambda>seg d. d(getFilePath seg m := None)) all_segments d)))"

section \<open>The interface\<close>

datatype SegmentStorage = SingleStorage SingleFileStorage | MultiStorage MultiFileStorage

abbreviation FormatSingleFile :: byte where "FormatSingleFile \<equiv> 0"
abbreviation FormatMultiFile :: byte where "FormatMultiFile \<equiv> 1"

text \<open>\<open>format\<close> is the setting \<^verbatim>\<open>SSTable.Format\<close>.\<close>

definition CreateStorage :: "byte \<Rightarrow> path \<Rightarrow> BlockManager \<Rightarrow> disk \<Rightarrow> SegmentStorage \<times> disk" where
  "CreateStorage format basePath bm d =
     (if format = FormatSingleFile then (case NewSingleFileStorage basePath bm d of (s, d) \<Rightarrow> (SingleStorage s, d))
      else (MultiStorage (NewMultiFileStorage basePath (Some bm)), d))"

definition OpenStorage :: "byte \<Rightarrow> path \<Rightarrow> disk \<Rightarrow> SegmentStorage result" where
  "OpenStorage format basePath d =
     (if format = FormatSingleFile then bind_r (OpenSingleFileStorage basePath d) (\<lambda>s. Ok (SingleStorage s))
      else Ok (MultiStorage (OpenMultiFileStorage basePath)))"

fun WriteSegment :: "SegmentType \<Rightarrow> bytes \<Rightarrow> (SegmentStorage \<times> disk, nat \<times> nat) op" where
  "WriteSegment seg data (SingleStorage s, d) =
     (case Single_WriteSegment seg data (s, d) of (r, (s, d)) \<Rightarrow> (r, (SingleStorage s, d)))"
| "WriteSegment seg data (MultiStorage m, d) =
     (case Multi_WriteSegment seg data (m, d) of (r, (m, d)) \<Rightarrow> (r, (MultiStorage m, d)))"

fun ReadSegment :: "disk \<Rightarrow> SegmentType \<Rightarrow> nat \<Rightarrow> nat \<Rightarrow> (SegmentStorage, bytes) op" where
  "ReadSegment d seg off n (SingleStorage s) = (case Single_ReadSegment d seg off n s of (r, s) \<Rightarrow> (r, SingleStorage s))"
| "ReadSegment d seg off n (MultiStorage m) = (case Multi_ReadSegment d seg off n m of (r, m) \<Rightarrow> (r, MultiStorage m))"

fun SetBlockManager :: "BlockManager \<Rightarrow> SegmentStorage \<Rightarrow> SegmentStorage" where
  "SetBlockManager bm (SingleStorage s) = SingleStorage (Single_SetBlockManager bm s)"
| "SetBlockManager bm (MultiStorage m) = MultiStorage (Multi_SetBlockManager bm m)"

fun CloseStorage :: "SegmentStorage \<Rightarrow> SegmentStorage" where
  "CloseStorage (SingleStorage s) = SingleStorage (Single_Close s)"
| "CloseStorage (MultiStorage m) = MultiStorage (Multi_Close m)"

text \<open>
  What the writer and the reader of a table rely on: a segment that was written is read back at the place that was returned,
  after any further writes. \<open>written\<close> are the places returned so far, \<open>image\<close> is what the file holds of a segment.
\<close>

locale segment_storage =
  fixes wr :: "SegmentType \<Rightarrow> bytes \<Rightarrow> ('s, nat \<times> nat) op"
    and rd :: "SegmentType \<Rightarrow> nat \<Rightarrow> nat \<Rightarrow> 's \<Rightarrow> bytes result"
    and inv :: "'s \<Rightarrow> bool"
    and written :: "SegmentType \<Rightarrow> nat \<Rightarrow> nat \<Rightarrow> 's \<Rightarrow> bool"
    and fits :: "SegmentType \<Rightarrow> bytes \<Rightarrow> bool"
    and image :: "SegmentType \<Rightarrow> bytes \<Rightarrow> bytes"
  assumes write_reads: "inv s \<Longrightarrow> fits seg data \<Longrightarrow>
      \<exists>off n s'. wr seg data s = (Ok (off, n), s') \<and> inv s' \<and> written seg off n s' \<and> rd seg off n s' = Ok (image seg data)"
    and write_keeps: "inv s \<Longrightarrow> fits seg data \<Longrightarrow> wr seg data s = (r, s') \<Longrightarrow> written seg' off n s \<Longrightarrow>
      written seg' off n s' \<and> rd seg' off n s' = rd seg' off n s"
begin

fun write_all :: "(SegmentType \<times> bytes) list \<Rightarrow> ('s, (nat \<times> nat) list) op" where
  "write_all [] = ret_s []"
| "write_all ((seg, data) # xs) = bind_s (wr seg data) (\<lambda>place. bind_s (write_all xs) (\<lambda>places. ret_s (place # places)))"

lemma write_all_keeps:
  "inv s \<Longrightarrow> list_all (\<lambda>(seg, data). fits seg data) xs \<Longrightarrow> write_all xs s = (r, s') \<Longrightarrow> written seg' off n s \<Longrightarrow>
   written seg' off n s' \<and> rd seg' off n s' = rd seg' off n s"
proof (induction xs arbitrary: s r)
  case Nil
  then show ?case by (simp add: ret_s_def)
next
  case (Cons x xs)
  obtain seg data where x: "x = (seg, data)" by fastforce
  then have f: "fits seg data" using Cons.prems(2) by simp
  from write_reads [OF Cons.prems(1) f] obtain o1 n1 s1 where
    w: "wr seg data s = (Ok (o1, n1), s1)" "inv s1" by blast
  from write_keeps [OF Cons.prems(1) f w(1) Cons.prems(4)] have k: "written seg' off n s1" "rd seg' off n s1 = rd seg' off n s" by auto
  obtain r2 s2 where w2: "write_all xs s1 = (r2, s2)" by fastforce
  have "s2 = s'" using Cons.prems(3) w(1) w2 by (cases r2) (auto simp: x ret_s_def)
  with w2 have "write_all xs s1 = (r2, s')" by simp
  from Cons.IH [OF w(2) _ this k(1)] Cons.prems(2) k(2) show ?case by simp
qed

lemma write_all_reads:
  "inv s \<Longrightarrow> list_all (\<lambda>(seg, data). fits seg data) xs \<Longrightarrow>
   \<exists>places s'. write_all xs s = (Ok places, s') \<and> inv s' \<and>
     list_all2 (\<lambda>(seg, data) (off, n). written seg off n s' \<and> rd seg off n s' = Ok (image seg data)) xs places"
proof (induction xs arbitrary: s)
  case Nil
  then show ?case by (simp add: ret_s_def)
next
  case (Cons x xs)
  obtain seg data where x: "x = (seg, data)" by fastforce
  then have f: "fits seg data" "list_all (\<lambda>(seg, data). fits seg data) xs" using Cons.prems(2) by simp_all
  from write_reads [OF Cons.prems(1) f(1)] obtain o1 n1 s1 where
    w: "wr seg data s = (Ok (o1, n1), s1)" "inv s1" "written seg o1 n1 s1" "rd seg o1 n1 s1 = Ok (image seg data)" by blast
  from Cons.IH [OF w(2) f(2)] obtain places s2 where
    w2: "write_all xs s1 = (Ok places, s2)" "inv s2"
      "list_all2 (\<lambda>(seg, data) (off, n). written seg off n s2 \<and> rd seg off n s2 = Ok (image seg data)) xs places" by blast
  from write_all_keeps [OF w(2) f(2) w2(1) w(3)] w(4) have "written seg o1 n1 s2 \<and> rd seg o1 n1 s2 = Ok (image seg data)" by simp
  with w(1) w2 show ?case by (simp add: x ret_s_def)
qed

lemma write_all_fixed:
  assumes "\<And>seg data s r s'. wr seg data s = (r, s') \<Longrightarrow> P s' = P s"
  shows "write_all xs s = (r, s') \<Longrightarrow> P s' = P s"
proof (induction xs arbitrary: s r)
  case (Cons x xs)
  obtain seg data where x: "x = (seg, data)" by fastforce
  obtain r1 s1 where w: "wr seg data s = (r1, s1)" by fastforce
  obtain r2 s2 where w2: "write_all xs s1 = (r2, s2)" by fastforce
  show ?case
  proof (cases r1)
    case (Inl e)
    with Cons.prems w assms [OF w] show ?thesis by (auto simp: x)
  next
    case (Inr pl)
    then have "s' = s2" using Cons.prems w w2 by (cases r2) (auto simp: x ret_s_def)
    with w2 have "write_all xs s1 = (r2, s')" by simp
    from Cons.IH [OF this] assms [OF w] show ?thesis by simp
  qed
qed (simp add: ret_s_def)

end

section \<open>Both storages\<close>

definition uncached :: "BlockManager \<Rightarrow> path \<Rightarrow> bool" where
  "uncached bm p \<longleftrightarrow> (\<forall>k v. (k, v) \<in> set (lru_abs (bm_cache bm)) \<longrightarrow> bk_FilePath k \<noteq> p)"

lemma coherent_other_file: "coherent bm d \<Longrightarrow> uncached bm p \<Longrightarrow> coherent bm (d(p \<mapsto> c))"
  by (auto simp: coherent_def uncached_def ReadNoCache_def)

lemma file_write_end: "off = length c \<Longrightarrow> file_write c off data = c @ data"
  by (simp add: file_write_def)

lemma file_read_inside: "off + n \<le> length c \<Longrightarrow> file_read (c @ rest) off n = take n (drop off c)"
  by (simp add: file_read_def Let_def)

lemma read_inside: "off + n \<le> length c \<Longrightarrow> ReadNoBlock (c @ rest) off n = Ok (take n (drop off c))"
  by (simp add: ReadNoBlock_def)

lemma length_padded: "length (padded n data) = max n (length data)"
  by (simp add: padded_def)

text \<open>What a segment of one block or of any length reads as.\<close>

definition seg_fits :: "nat \<Rightarrow> SegmentType \<Rightarrow> bytes \<Rightarrow> bool" where
  "seg_fits n seg data \<longleftrightarrow> (block_segment seg \<longrightarrow> length data \<le> n)"

definition seg_image :: "nat \<Rightarrow> SegmentType \<Rightarrow> bytes \<Rightarrow> bytes" where
  "seg_image n seg data = (if block_segment seg then padded n data else data)"

definition single_inv :: "nat \<Rightarrow> SingleFileStorage \<times> disk \<Rightarrow> bool" where
  "single_inv n = (\<lambda>(s, d). 0 < n \<and> \<not> sf_closed s \<and>
     (\<exists>bm c. sf_BlockManager s = Some bm \<and> bm_blockSize bm = n \<and> coherent bm d \<and> uncached bm (sf_file s) \<and>
        d (sf_file s) = Some c \<and> length c = sf_offset s))"

definition single_read :: "SegmentType \<Rightarrow> nat \<Rightarrow> nat \<Rightarrow> SingleFileStorage \<times> disk \<Rightarrow> bytes result" where
  "single_read seg off k = (\<lambda>(s, d). fst (Single_ReadSegment d seg off k s))"

definition single_written :: "nat \<Rightarrow> SegmentType \<Rightarrow> nat \<Rightarrow> nat \<Rightarrow> SingleFileStorage \<times> disk \<Rightarrow> bool" where
  "single_written n seg off k = (\<lambda>(s, d). off + k \<le> sf_offset s \<and> (block_segment seg \<longrightarrow> n dvd off \<and> k = n))"

lemma single_read_content:
  assumes "sf_BlockManager s = Some bm" "bm_blockSize bm = n" "coherent bm d" "0 < n" "\<not> sf_closed s"
    and "d (sf_file s) = Some c" "off + k \<le> length c" "block_segment seg \<longrightarrow> n dvd off \<and> k = n"
  shows "single_read seg off k (s, d) = Ok (take k (drop off c))"
proof (cases "block_segment seg")
  case True
  then have "n * (off div n) = off" "k = n" using assms(8) by simp_all
  with bm_Read_coherent(1) [OF assms(3)] file_read_inside [OF assms(7), of "[]"] assms True show ?thesis
    by (simp add: single_read_def Single_ReadSegment_def case_prod_unfold ReadNoCache_def block_off_def NewBlockKey_def)
next
  case False
  with read_inside [OF assms(7), of "[]"] assms show ?thesis
    by (simp add: single_read_def Single_ReadSegment_def read_handle_def open_create_def)
qed

lemma single_read_inside:
  assumes "single_inv n (s, d)" "single_written n seg off k (s, d)" "d (sf_file s) = Some c"
  shows "single_read seg off k (s, d) = Ok (take k (drop off c))"
proof -
  obtain bm where bm: "sf_BlockManager s = Some bm" "bm_blockSize bm = n" "coherent bm d" "length c = sf_offset s" "0 < n" "\<not> sf_closed s"
    using assms(1,3) by (auto simp: single_inv_def)
  with assms(2,3) show ?thesis by (intro single_read_content [of s bm n]) (auto simp: single_written_def)
qed

lemma Single_write:
  assumes "single_inv n (s, d)" "seg_fits n seg data" "d (sf_file s) = Some c"
  obtains pad off k s' where "Single_WriteSegment seg data (s, d) = (Ok (off, k), (s', d(sf_file s \<mapsto> c @ pad @ seg_image n seg data)))"
    "sf_file s' = sf_file s" "sf_BlockManager s' = sf_BlockManager s" "sf_closed s' = sf_closed s"
    "off = length c + length pad" "k = length (seg_image n seg data)" "sf_offset s' = off + k" "block_segment seg \<longrightarrow> n dvd off \<and> k = n"
proof -
  obtain bm where bm: "sf_BlockManager s = Some bm" "bm_blockSize bm = n" "length c = sf_offset s" "0 < n" "\<not> sf_closed s"
    using assms(1,3) by (auto simp: single_inv_def)
  show thesis
  proof (cases "block_segment seg")
    case False
    with bm assms(3) show thesis
      by (intro that [of "length c" "length data" "s\<lparr>sf_offset := sf_offset s + length data\<rparr>" "[]"])
        (simp_all add: Single_WriteSegment_def seg_image_def write_handle_def WriteNoBlock_def open_create_def file_write_end)
  next
    case True
    define rem where "rem = sf_offset s mod n"
    define pad where "pad = (if rem = 0 then [] else make_bytes (n - rem))"
    have rem: "rem < n" using bm(4) by (simp add: rem_def)
    define off where "off = length c + length pad"
    define q where "q = length c div n"
    have "length c = n * q + rem" by (simp add: q_def rem_def bm(3))
    then have "off = n * q + (if rem = 0 then 0 else n)" using rem by (simp add: off_def pad_def)
    then have dvd: "n dvd off" by simp
    define d1 where "d1 = d(sf_file s \<mapsto> c @ pad)"
    define s1 where "s1 = s\<lparr>sf_offset := off\<rparr>"
    have al: "Single_align n (s, d) = (Ok (), (s1, d1))"
      using bm assms(3)
      by (auto simp: Single_align_def Let_def pad_def off_def s1_def d1_def write_handle_def WriteNoBlock_def open_create_def
          file_write_end fun_upd_idem simp flip: rem_def)
    have "file_write (c @ pad) (n * (off div n)) (padded n data) = c @ pad @ padded n data"
      using dvd by (simp add: file_write_end off_def)
    then have "WriteNoCache bm d1 (NewBlockKey (sf_file s) (off div n)) (padded n data) = d(sf_file s \<mapsto> c @ pad @ padded n data)"
      by (simp add: WriteNoCache_def NewBlockKey_def block_off_def bm(2) d1_def open_create_def)
    then have "Single_WriteSegment seg data (s, d) =
        (Ok (off, length (padded n data)), (s1\<lparr>sf_offset := off + length (padded n data)\<rparr>, d(sf_file s \<mapsto> c @ pad @ padded n data)))"
      using True bm al by (simp add: Single_WriteSegment_def Let_def) (simp add: s1_def)
    then show thesis
      using True assms(2) dvd by (intro that [of off n "s1\<lparr>sf_offset := off + length (padded n data)\<rparr>" pad])
        (simp_all add: seg_image_def s1_def off_def length_padded seg_fits_def max_def)
  qed
qed

interpretation single: segment_storage Single_WriteSegment single_read "single_inv n" "single_written n" "seg_fits n" "seg_image n" for n
proof (unfold_locales, goal_cases)
  case (1 st seg data)
  obtain s d where st: "st = (s, d)" by fastforce
  from 1(1) obtain bm c where c: "d (sf_file s) = Some c" "length c = sf_offset s" "0 < n" "\<not> sf_closed s"
    and bm: "sf_BlockManager s = Some bm" "bm_blockSize bm = n" "coherent bm d" "uncached bm (sf_file s)"
    by (auto simp: st single_inv_def)
  from Single_write [OF 1(1) [unfolded st] 1(2) c(1)] obtain pad off k s' where
    w: "Single_WriteSegment seg data (s, d) = (Ok (off, k), (s', d(sf_file s \<mapsto> c @ pad @ seg_image n seg data)))"
      "sf_file s' = sf_file s" "sf_BlockManager s' = sf_BlockManager s" "sf_closed s' = sf_closed s"
      "off = length c + length pad" "k = length (seg_image n seg data)" "sf_offset s' = off + k" "block_segment seg \<longrightarrow> n dvd off \<and> k = n" .
  let ?st = "(s', d(sf_file s \<mapsto> c @ pad @ seg_image n seg data))"
  have inv: "single_inv n ?st"
    using w c bm coherent_other_file [OF bm(3,4)] by (simp add: single_inv_def)
  have wr: "single_written n seg off k ?st" using w by (simp add: single_written_def)
  have "single_read seg off k ?st = Ok (take k (drop off (c @ pad @ seg_image n seg data)))"
    using w(2) by (intro single_read_inside [OF inv wr]) simp
  then show ?case using w(1) inv wr w(5,6) by (intro exI [of _ off] exI [of _ k] exI [of _ ?st]) (simp add: st)
next
  case (2 st seg data r st' seg' off k)
  obtain s d where st: "st = (s, d)" by fastforce
  from 2(1) obtain bm c where c: "d (sf_file s) = Some c" "length c = sf_offset s" "0 < n" "\<not> sf_closed s"
    and bm: "sf_BlockManager s = Some bm" "bm_blockSize bm = n" "coherent bm d" "uncached bm (sf_file s)"
    by (auto simp: st single_inv_def)
  from Single_write [OF 2(1) [unfolded st] 2(2) c(1)] obtain pad o2 k2 s' where
    w: "Single_WriteSegment seg data (s, d) = (Ok (o2, k2), (s', d(sf_file s \<mapsto> c @ pad @ seg_image n seg data)))"
      "sf_file s' = sf_file s" "sf_BlockManager s' = sf_BlockManager s" "sf_closed s' = sf_closed s"
      "o2 = length c + length pad" "k2 = length (seg_image n seg data)" "sf_offset s' = o2 + k2" .
  have st': "st' = (s', d(sf_file s \<mapsto> c @ pad @ seg_image n seg data))" using 2(3) w(1) by (simp add: st)
  have inv: "single_inv n st'" using w c bm coherent_other_file [OF bm(3,4)] by (simp add: single_inv_def st')
  have wr: "single_written n seg' off k st'" using 2(4) w(5,7) c(2) by (auto simp: single_written_def st st')
  have "off + k \<le> length c" using 2(4) c(2) by (simp add: st single_written_def)
  then show ?case
    using single_read_inside [OF 2(1) [unfolded st] 2(4) [unfolded st] c(1)]
      single_read_inside [OF inv [unfolded st'] wr [unfolded st'], of "c @ pad @ seg_image n seg data"] w(2) wr
    by (simp add: st st')
qed

lemma getFilePath_inj: "getFilePath seg m = getFilePath seg' m \<longleftrightarrow> seg = seg'"
  by (cases seg; cases seg'; simp add: getFilePath_def segment_extension_def)

text \<open>The file of one kind of segment.\<close>

definition segment_file :: "nat \<Rightarrow> MultiFileStorage \<Rightarrow> disk \<Rightarrow> SegmentType \<Rightarrow> bool" where
  "segment_file n m d seg \<longleftrightarrow> (mf_files m seg = None \<or> mf_files m seg = Some True \<and>
     (\<exists>c. d (getFilePath seg m) = Some c \<and> length c = segment_offset seg m) \<and> (block_segment seg \<longrightarrow> n dvd segment_offset seg m))"

definition multi_inv :: "nat \<Rightarrow> MultiFileStorage \<times> disk \<Rightarrow> bool" where
  "multi_inv n = (\<lambda>(m, d). 0 < n \<and>
     (\<exists>bm. mf_BlockManager m = Some bm \<and> bm_blockSize bm = n \<and> coherent bm d \<and> (\<forall>seg. uncached bm (getFilePath seg m))) \<and>
     (\<forall>seg. segment_file n m d seg))"

lemma multi_invD:
  assumes "multi_inv n (m, d)"
  obtains bm where "mf_BlockManager m = Some bm" "bm_blockSize bm = n" "coherent bm d" "\<And>seg. uncached bm (getFilePath seg m)" "0 < n"
    "\<And>seg. segment_file n m d seg"
  using assms by (auto simp: multi_inv_def)

lemma segment_fileD:
  assumes "segment_file n m d seg" "mf_files m seg \<noteq> None"
  obtains c where "mf_files m seg = Some True" "d (getFilePath seg m) = Some c" "length c = segment_offset seg m"
    "block_segment seg \<Longrightarrow> n dvd segment_offset seg m"
  using assms by (auto simp: segment_file_def)

definition multi_read :: "SegmentType \<Rightarrow> nat \<Rightarrow> nat \<Rightarrow> MultiFileStorage \<times> disk \<Rightarrow> bytes result" where
  "multi_read seg off k = (\<lambda>(m, d). fst (Multi_ReadSegment d seg off k m))"

definition multi_written :: "nat \<Rightarrow> SegmentType \<Rightarrow> nat \<Rightarrow> nat \<Rightarrow> MultiFileStorage \<times> disk \<Rightarrow> bool" where
  "multi_written n seg off k = (\<lambda>(m, d). mf_files m seg \<noteq> None \<and> off + k \<le> segment_offset seg m \<and>
     (block_segment seg \<longrightarrow> n dvd off \<and> k = n))"

lemma multi_read_content:
  assumes "mf_BlockManager m = Some bm" "bm_blockSize bm = n" "coherent bm d" "0 < n" "mf_files m seg \<noteq> Some False"
    and "d (getFilePath seg m) = Some c" "off + k \<le> length c" "block_segment seg \<longrightarrow> n dvd off \<and> k = n"
  shows "multi_read seg off k (m, d) = Ok (take k (drop off c))"
proof -
  obtain m' where op: "getOrOpenFile d seg m = (Ok (), m')" "mf_BlockManager m' = Some bm" "mf_files m' seg \<noteq> Some False"
    "getFilePath seg m' = getFilePath seg m"
    using assms(1,5,6) by (cases "mf_files m seg") (simp_all add: getOrOpenFile_def getFilePath_def)
  show ?thesis
  proof (cases "block_segment seg")
    case True
    then have "n * (off div n) = off" "k = n" using assms(8) by simp_all
    with bm_Read_coherent(1) [OF assms(3)] file_read_inside [OF assms(7), of "[]"] assms True op show ?thesis
      by (simp add: multi_read_def Multi_ReadSegment_def case_prod_unfold Let_def ReadNoCache_def block_off_def NewBlockKey_def)
  next
    case False
    with read_inside [OF assms(7), of "[]"] assms op show ?thesis
      by (simp add: multi_read_def Multi_ReadSegment_def Let_def read_handle_def open_create_def)
  qed
qed

lemma multi_read_inside:
  assumes "multi_inv n (m, d)" "multi_written n seg off k (m, d)" "d (getFilePath seg m) = Some c"
  shows "multi_read seg off k (m, d) = Ok (take k (drop off c))"
proof -
  from multi_invD [OF assms(1)] obtain bm where bm: "mf_BlockManager m = Some bm" "bm_blockSize bm = n" "coherent bm d" "0 < n"
    and sf: "segment_file n m d seg" by metis
  have "mf_files m seg \<noteq> None" using assms(2) by (simp add: multi_written_def)
  from segment_fileD [OF sf this] assms(3) have f: "mf_files m seg = Some True" "length c = segment_offset seg m" by auto
  with assms(2,3) bm show ?thesis by (intro multi_read_content [of m bm n]) (auto simp: multi_written_def)
qed

text \<open>Both changes of a storage, a new file and a longer one, leave the other files alone.\<close>

lemma segment_file_other:
  assumes "segment_file n m d x" "mf_files m' x = mf_files m x" "segment_offset x m' = segment_offset x m"
    and "getFilePath x m' = getFilePath x m" "d' (getFilePath x m) = d (getFilePath x m)"
  shows "segment_file n m' d' x"
  using assms by (simp add: segment_file_def)

lemma set_file_inv:
  assumes "multi_inv n (m, d)" "mf_basePath m' = mf_basePath m" "mf_BlockManager m' = mf_BlockManager m"
    and "\<And>x. x \<noteq> seg \<Longrightarrow> mf_files m' x = mf_files m x \<and> mf_offsets m' x = mf_offsets m x"
    and "mf_files m' seg = Some True" "segment_offset seg m' = length c" "block_segment seg \<longrightarrow> n dvd length c"
  shows "multi_inv n (m', d(getFilePath seg m \<mapsto> c))"
proof -
  from multi_invD [OF assms(1)] obtain bm where bm: "mf_BlockManager m = Some bm" "bm_blockSize bm = n" "coherent bm d" "0 < n"
    and un: "\<And>seg. uncached bm (getFilePath seg m)" and sf: "\<And>seg. segment_file n m d seg" by metis
  have path: "getFilePath x m' = getFilePath x m" for x by (simp add: getFilePath_def assms(2))
  have "segment_file n m' (d(getFilePath seg m \<mapsto> c)) x" for x
  proof (cases "x = seg")
    case True
    then show ?thesis using assms(5-7) by (simp add: segment_file_def path)
  next
    case False
    with assms(4) [OF False] show ?thesis
      by (intro segment_file_other [OF sf]) (simp_all add: path segment_offset_def getFilePath_inj)
  qed
  then have "\<forall>x. segment_file n m' (d(getFilePath seg m \<mapsto> c)) x" by blast
  with bm un coherent_other_file [OF bm(3) un] show ?thesis unfolding multi_inv_def case_prod_conv assms(3) path by blast
qed

lemma set_file_keeps:
  assumes "multi_inv n (m, d)" "multi_inv n (m', d')" "mf_basePath m' = mf_basePath m"
    and "mf_files m' x = mf_files m x" "segment_offset x m \<le> segment_offset x m'"
    and "d' (getFilePath x m) = map_option (\<lambda>c. c @ rest) (d (getFilePath x m))" "multi_written n x off k (m, d)"
  shows "multi_written n x off k (m', d') \<and> multi_read x off k (m', d') = multi_read x off k (m, d)"
proof -
  have path: "getFilePath x m' = getFilePath x m" by (simp add: getFilePath_def assms(3))
  have wr: "multi_written n x off k (m', d')" using assms(4,5,7) by (auto simp: multi_written_def)
  from multi_invD [OF assms(1)] have sf: "segment_file n m d x" by metis
  have "mf_files m x \<noteq> None" using assms(7) by (simp add: multi_written_def)
  from segment_fileD [OF sf this] obtain c where c: "d (getFilePath x m) = Some c" "length c = segment_offset x m" by metis
  have "off + k \<le> length c" using assms(7) c(2) by (simp add: multi_written_def)
  with multi_read_inside [OF assms(1,7) c(1)] multi_read_inside [OF assms(2) wr, of "c @ rest"] assms(6) c(1) wr show ?thesis
    by (simp add: path)
qed

lemma Multi_write:
  assumes "multi_inv n (m, d)" "seg_fits n seg data"
  obtains off k m' d' where "Multi_WriteSegment seg data (m, d) = (Ok (off, k), (m', d'))" "multi_inv n (m', d')"
    "multi_written n seg off k (m', d')" "multi_read seg off k (m', d') = Ok (seg_image n seg data)"
    "\<And>x off' k'. multi_written n x off' k' (m, d) \<Longrightarrow>
       multi_written n x off' k' (m', d') \<and> multi_read x off' k' (m', d') = multi_read x off' k' (m, d)"
proof -
  from multi_invD [OF assms(1)] obtain bm where bm: "mf_BlockManager m = Some bm" "bm_blockSize bm = n" "0 < n"
    and sf: "segment_file n m d seg" by metis
  let ?p = "getFilePath seg m"
  obtain m1 d1 c where g: "getOrCreateFile seg (m, d) = (m1, d1)" "mf_basePath m1 = mf_basePath m" "mf_BlockManager m1 = Some bm"
      "mf_files m1 seg = Some True" "d1 ?p = Some c" "length c = segment_offset seg m1" "block_segment seg \<longrightarrow> n dvd length c"
    and other: "\<And>x. x \<noteq> seg \<Longrightarrow> mf_files m1 x = mf_files m x \<and> mf_offsets m1 x = mf_offsets m x" "\<And>q. q \<noteq> ?p \<Longrightarrow> d1 q = d q"
    and old: "mf_files m seg \<noteq> None \<Longrightarrow> m1 = m \<and> d ?p = Some c"
  proof (cases "mf_files m seg")
    case None
    then show thesis
      using bm by (intro that [of "m\<lparr>mf_files := (mf_files m)(seg \<mapsto> True), mf_offsets := (mf_offsets m)(seg \<mapsto> 0)\<rparr>" "d(?p \<mapsto> [])" "[]"])
        (simp_all add: getOrCreateFile_def segment_offset_def)
  next
    case (Some b)
    then have "mf_files m seg \<noteq> None" by simp
    from segment_fileD [OF sf this] obtain c where "mf_files m seg = Some True" "d ?p = Some c" "length c = segment_offset seg m"
      "block_segment seg \<Longrightarrow> n dvd segment_offset seg m" by metis
    with bm show thesis by (intro that [of m d c]) (simp_all add: getOrCreateFile_def del: not_None_eq)
  qed
  have p1: "getFilePath x m1 = getFilePath x m" for x by (simp add: getFilePath_def g(2))
  define img where "img = seg_image n seg data"
  define off where "off = segment_offset seg m1"
  define m' where "m' = m1\<lparr>mf_offsets := (mf_offsets m1)(seg \<mapsto> off + length img)\<rparr>"
  define d' where "d' = d(?p \<mapsto> c @ img)"
  have d1: "d1(?p \<mapsto> c @ img) = d'" using other(2) by (auto simp: d'_def fun_eq_iff)
  have off: "off = length c" by (simp add: off_def g(6))
  have img: "block_segment seg \<longrightarrow> n dvd length c + length img"
    using g(7) assms(2) by (auto simp: img_def seg_image_def seg_fits_def length_padded max_def)
  have w: "Multi_WriteSegment seg data (m, d) = (Ok (off, length img), (m', d'))"
  proof (cases "block_segment seg")
    case True
    then have "n * (off div n) = length c" using g(7) by (simp add: off)
    then have "WriteNoCache bm d1 (NewBlockKey ?p (off div n)) (padded n data) = d'"
      using True g(5) by (simp add: WriteNoCache_def NewBlockKey_def block_off_def bm(2) open_create_def file_write_end d1 [symmetric]
          img_def seg_image_def)
    with True bm g(1,3) show ?thesis
      by (simp add: Multi_WriteSegment_def Let_def p1 off_def [symmetric] m'_def img_def seg_image_def)
  next
    case False
    then show ?thesis
      using bm g by (simp add: Multi_WriteSegment_def Let_def p1 off_def [symmetric] m'_def img_def seg_image_def
          write_handle_def WriteNoBlock_def open_create_def file_write_end off d1 [symmetric])
  qed
  have so: "segment_offset seg m' = length c + length img" by (simp add: segment_offset_def m'_def off)
  have inv: "multi_inv n (m', d')"
    unfolding d'_def using g other(1) bm so img by (intro set_file_inv [OF assms(1)]) (auto simp: m'_def)
  have wr: "multi_written n seg off (length img) (m', d')"
    using so off g(4,7) assms(2) by (auto simp: multi_written_def m'_def img_def seg_image_def length_padded seg_fits_def max_def)
  have "getFilePath seg m' = ?p" by (simp add: getFilePath_def m'_def g(2))
  then have rd: "multi_read seg off (length img) (m', d') = Ok img"
    using multi_read_inside [OF inv wr, of "c @ img"] by (simp add: d'_def off)
  have "multi_written n x off' k' (m', d') \<and> multi_read x off' k' (m', d') = multi_read x off' k' (m, d)"
    if "multi_written n x off' k' (m, d)" for x off' k'
  proof (cases "x = seg")
    case True
    then have "m1 = m \<and> d ?p = Some c" using that by (intro old) (simp add: multi_written_def)
    with True show ?thesis
      using g(4) so off by (intro set_file_keeps [OF assms(1) inv _ _ _ _ that, of img])
        (simp_all add: m'_def d'_def off_def)
  next
    case False
    with other(1) [OF False] show ?thesis
      by (intro set_file_keeps [OF assms(1) inv _ _ _ _ that, of "[]"])
        (simp_all add: m'_def d'_def g(2) segment_offset_def getFilePath_inj option.map_ident)
  qed
  with w inv wr rd show thesis unfolding img_def by (rule that)
qed

interpretation multi: segment_storage Multi_WriteSegment multi_read "multi_inv n" "multi_written n" "seg_fits n" "seg_image n" for n
proof (unfold_locales, goal_cases)
  case (1 st seg data)
  obtain m d where st: "st = (m, d)" by fastforce
  from Multi_write [OF 1(1) [unfolded st] 1(2)] show ?case unfolding st by metis
next
  case (2 st seg data r st' seg' off k)
  obtain m d where st: "st = (m, d)" by fastforce
  from Multi_write [OF 2(1) [unfolded st] 2(2)] 2(3,4) show ?case unfolding st by (metis prod.inject)
qed

section \<open>Writing and opening again\<close>

fun write_segments :: "(SegmentType \<times> bytes) list \<Rightarrow> (SegmentStorage \<times> disk, (nat \<times> nat) list) op" where
  "write_segments [] = ret_s []"
| "write_segments ((seg, data) # xs) =
     bind_s (WriteSegment seg data) (\<lambda>place. bind_s (write_segments xs) (\<lambda>places. ret_s (place # places)))"

lemma write_segments_single:
  "single.write_all xs (s, d) = (Ok places, (s', d')) \<Longrightarrow>
   write_segments xs (SingleStorage s, d) = (Ok places, (SingleStorage s', d'))"
proof (induction xs arbitrary: s d places)
  case (Cons x xs)
  then show ?case by (cases x) (fastforce simp: bind_s_eq_Inr ret_s_def)
qed (simp add: ret_s_def)

lemma write_segments_multi:
  "multi.write_all xs (m, d) = (Ok places, (m', d')) \<Longrightarrow>
   write_segments xs (MultiStorage m, d) = (Ok places, (MultiStorage m', d'))"
proof (induction xs arbitrary: m d places)
  case (Cons x xs)
  then show ?case by (cases x) (fastforce simp: bind_s_eq_Inr ret_s_def)
qed (simp add: ret_s_def)

lemma Single_WriteSegment_fixed:
  "Single_WriteSegment seg data sd = (r, sd') \<Longrightarrow>
   (sf_BlockManager (fst sd'), sf_file (fst sd'), sf_closed (fst sd')) = (sf_BlockManager (fst sd), sf_file (fst sd), sf_closed (fst sd))"
  by (cases sd) (auto simp: Single_WriteSegment_def Single_align_def Let_def bind_s_def split: option.splits if_splits sum.splits)

lemma Multi_WriteSegment_fixed:
  "Multi_WriteSegment seg data md = (r, md') \<Longrightarrow>
   (mf_BlockManager (fst md'), mf_basePath (fst md')) = (mf_BlockManager (fst md), mf_basePath (fst md))"
  by (cases md) (auto simp: Multi_WriteSegment_def getOrCreateFile_def Let_def split: option.splits if_splits)

definition foreign_files :: "BlockManager \<Rightarrow> path \<Rightarrow> bool" where
  "foreign_files bm p \<longleftrightarrow> uncached bm p \<and> (\<forall>seg. uncached bm (p @ segment_extension seg))"

lemma list_all2_weaken: "list_all2 P xs ys \<Longrightarrow> (\<And>x y. P x y \<Longrightarrow> Q x y) \<Longrightarrow> list_all2 Q xs ys"
  by (rule list_all2_mono)

lemma single_reopened:
  assumes bm: "0 < bm_blockSize bm" "coherent bm d" "uncached bm p" "bm_blockSize bm = n"
    and "list_all (\<lambda>(seg, data). seg_fits n seg data) xs" "NewSingleFileStorage p bm d = (s, d0)"
  shows "\<exists>places s' d' s2. single.write_all xs (s, d0) = (Ok places, (s', d')) \<and> OpenSingleFileStorage p d' = Ok s2 \<and>
    list_all2 (\<lambda>(seg, data) (off, k). single_read seg off k (Single_SetBlockManager bm s2, d') = Ok (seg_image n seg data)) xs places"
proof -
  have s: "sf_BlockManager s = Some bm" "sf_file s = p" "\<not> sf_closed s" "sf_offset s = 0" "d0 = d(p \<mapsto> [])"
    using assms(6) by (auto simp: NewSingleFileStorage_def)
  have "single_inv n (s, d0)" using s bm coherent_other_file [OF bm(2,3)] by (simp add: single_inv_def)
  from single.write_all_reads [OF this assms(5)] obtain places s' d' where
    w: "single.write_all xs (s, d0) = (Ok places, (s', d'))" "single_inv n (s', d')"
      "list_all2 (\<lambda>(seg, data) (off, k). single_written n seg off k (s', d') \<and> single_read seg off k (s', d') = Ok (seg_image n seg data)) xs places"
    by auto
  from single.write_all_fixed [where P = "\<lambda>sd. (sf_BlockManager (fst sd), sf_file (fst sd), sf_closed (fst sd))",
      OF Single_WriteSegment_fixed w(1)] s
  have f: "sf_BlockManager s' = Some bm" "sf_file s' = p" "\<not> sf_closed s'" by simp_all
  obtain c where c: "d' p = Some c" "length c = sf_offset s'" "coherent bm d'" using w(2) f by (auto simp: single_inv_def)
  define s2 where "s2 = \<lparr>sf_file = p, sf_offset = 0, sf_BlockManager = None, sf_closed = False\<rparr>"
  have same: "single_read seg off k (Single_SetBlockManager bm s2, d') = Ok img"
    if "single_written n seg off k (s', d')" "single_read seg off k (s', d') = Ok img" for seg off k img
  proof -
    have "single_read seg off k (Single_SetBlockManager bm s2, d') = Ok (take k (drop off c))"
      using bm c that(1) by (intro single_read_content [of _ bm n]) (auto simp: s2_def Single_SetBlockManager_def single_written_def)
    moreover have "single_read seg off k (s', d') = Ok (take k (drop off c))"
      by (rule single_read_inside [OF w(2) that(1)]) (simp add: f c)
    ultimately show ?thesis using that(2) by simp
  qed
  have "list_all2 (\<lambda>(seg, data) (off, k). single_read seg off k (Single_SetBlockManager bm s2, d') = Ok (seg_image n seg data)) xs places"
    by (rule list_all2_weaken [OF w(3)]) (auto intro: same)
  moreover have "OpenSingleFileStorage p d' = Ok s2" using c by (simp add: OpenSingleFileStorage_def s2_def)
  ultimately show ?thesis using w(1) by blast
qed

lemma multi_reopened:
  assumes bm: "0 < bm_blockSize bm" "coherent bm d" "\<And>seg. uncached bm (p @ segment_extension seg)" "bm_blockSize bm = n"
    and "list_all (\<lambda>(seg, data). seg_fits n seg data) xs"
  shows "\<exists>places m' d'. multi.write_all xs (NewMultiFileStorage p (Some bm), d) = (Ok places, (m', d')) \<and>
    list_all2 (\<lambda>(seg, data) (off, k). multi_read seg off k (Multi_SetBlockManager bm (OpenMultiFileStorage p), d') = Ok (seg_image n seg data)) xs places"
proof -
  let ?m = "NewMultiFileStorage p (Some bm)" and ?m2 = "Multi_SetBlockManager bm (OpenMultiFileStorage p)"
  have "multi_inv n (?m, d)"
    using bm by (simp add: multi_inv_def segment_file_def NewMultiFileStorage_def getFilePath_def)
  from multi.write_all_reads [OF this assms(5)] obtain places m' d' where
    w: "multi.write_all xs (?m, d) = (Ok places, (m', d'))" "multi_inv n (m', d')"
      "list_all2 (\<lambda>(seg, data) (off, k). multi_written n seg off k (m', d') \<and> multi_read seg off k (m', d') = Ok (seg_image n seg data)) xs places"
    by auto
  from multi.write_all_fixed [where P = "\<lambda>md. (mf_BlockManager (fst md), mf_basePath (fst md))", OF Multi_WriteSegment_fixed w(1)]
  have f: "mf_BlockManager m' = Some bm" "mf_basePath m' = p" by (simp_all add: NewMultiFileStorage_def)
  from multi_invD [OF w(2)] f have co: "coherent bm d'" by auto
  have path: "getFilePath seg m' = p @ segment_extension seg" "getFilePath seg ?m2 = p @ segment_extension seg" for seg
    by (simp_all add: getFilePath_def f Multi_SetBlockManager_def OpenMultiFileStorage_def NewMultiFileStorage_def)
  have same: "multi_read seg off k (?m2, d') = Ok img"
    if wr: "multi_written n seg off k (m', d')" and rd: "multi_read seg off k (m', d') = Ok img" for seg off k img
  proof -
    from multi_invD [OF w(2)] have sf: "segment_file n m' d' seg" by metis
    have "mf_files m' seg \<noteq> None" using wr by (simp add: multi_written_def)
    from segment_fileD [OF sf this] obtain c where c: "d' (p @ segment_extension seg) = Some c" "length c = segment_offset seg m'"
      unfolding path by metis
    have "multi_read seg off k (?m2, d') = Ok (take k (drop off c))"
      using bm co c wr by (intro multi_read_content [of _ bm n])
        (auto simp: path multi_written_def, auto simp: Multi_SetBlockManager_def OpenMultiFileStorage_def NewMultiFileStorage_def)
    moreover have "multi_read seg off k (m', d') = Ok (take k (drop off c))"
      by (rule multi_read_inside [OF w(2) wr]) (simp add: path c)
    ultimately show ?thesis using rd by simp
  qed
  have "list_all2 (\<lambda>(seg, data) (off, k). multi_read seg off k (?m2, d') = Ok (seg_image n seg data)) xs places"
    by (rule list_all2_weaken [OF w(3)]) (auto intro: same)
  with w(1) show ?thesis by blast
qed

section \<open>Properties\<close>

text \<open>C18: In either format, segments that are written to a new storage are read back by a storage that is opened afterwards, each at
  the place its write returned: a segment of blocks padded to a block, any other as it is.\<close>

theorem segments_read_back:
  assumes "0 < bm_blockSize bm" "coherent bm d" "foreign_files bm p"
    and "list_all (\<lambda>(seg, data). seg_fits (bm_blockSize bm) seg data) xs" "CreateStorage format p bm d = (st, d0)"
  shows "\<exists>places st' d' st2. write_segments xs (st, d0) = (Ok places, (st', d')) \<and> OpenStorage format p d' = Ok st2 \<and>
    list_all2 (\<lambda>(seg, data) (off, k). fst (ReadSegment d' seg off k (SetBlockManager bm st2)) =
      Ok (seg_image (bm_blockSize bm) seg data)) xs places"
proof (cases "format = FormatSingleFile")
  case True
  obtain s where s: "NewSingleFileStorage p bm d = (s, d0)" "st = SingleStorage s"
    using assms(5) True by (auto simp: CreateStorage_def split: prod.splits)
  have "uncached bm p" using assms(3) by (simp add: foreign_files_def)
  from single_reopened [OF assms(1,2) this refl assms(4) s(1)] obtain places s' d' s2 where
    r: "single.write_all xs (s, d0) = (Ok places, (s', d'))" "OpenSingleFileStorage p d' = Ok s2"
      "list_all2 (\<lambda>(seg, data) (off, k). single_read seg off k (Single_SetBlockManager bm s2, d') = Ok (seg_image (bm_blockSize bm) seg data)) xs places"
    by blast
  then show ?thesis
    using write_segments_single [OF r(1)] True
    by (simp add: s(2) OpenStorage_def single_read_def case_prod_unfold)
next
  case False
  have u: "uncached bm (p @ segment_extension seg)" for seg using assms(3) by (simp add: foreign_files_def)
  from multi_reopened [OF assms(1,2) u refl assms(4)] obtain places m' d' where
    r: "multi.write_all xs (NewMultiFileStorage p (Some bm), d) = (Ok places, (m', d'))"
      "list_all2 (\<lambda>(seg, data) (off, k). multi_read seg off k (Multi_SetBlockManager bm (OpenMultiFileStorage p), d') = Ok (seg_image (bm_blockSize bm) seg data)) xs places"
    by blast
  then show ?thesis
    using write_segments_multi [OF r(1)] False assms(5)
    by (simp add: CreateStorage_def OpenStorage_def multi_read_def case_prod_unfold)
qed

theorem segments_read_back_witness:
  "\<exists>places st' d' st2. write_segments [(SegmentFilter, [1, 2, 3]), (SegmentIndex, [4]), (SegmentFooter, [5])]
      (CreateStorage FormatSingleFile ''t'' (NewBlockManager 4 2) Map.empty) = (Ok places, (st', d')) \<and>
    OpenStorage FormatSingleFile ''t'' d' = Ok st2 \<and> length places = 3"
proof -
  let ?bm = "NewBlockManager 4 2"
  let ?xs = "[(SegmentFilter, [1, 2, 3]), (SegmentIndex, [4]), (SegmentFooter, [5])] :: (SegmentType \<times> bytes) list"
  have "coherent ?bm Map.empty" "foreign_files ?bm ''t''"
    by (simp_all add: coherent_def foreign_files_def uncached_def NewBlockManager_def NewLRU_def lru_abs_def lru_inv_def)
  moreover have "0 < bm_blockSize ?bm" "list_all (\<lambda>(seg, data). seg_fits (bm_blockSize ?bm) seg data) ?xs"
    by (simp_all add: NewBlockManager_def seg_fits_def)
  moreover obtain st d0 where "CreateStorage FormatSingleFile ''t'' ?bm Map.empty = (st, d0)" by fastforce
  ultimately show ?thesis
    using segments_read_back [of ?bm Map.empty "''t''" ?xs FormatSingleFile st d0] by (auto dest: list_all2_lengthD)
qed

end
