(* ===== verification/Merkle.thy ===== *)
theory Merkle
  imports Footer
begin

unbundle bit_operations_syntax

text \<open>
  \<^verbatim>\<open>internal/sstable/merkle.go\<close>: the Merkle tree over the hashes of the data blocks, its binary format, the
  verification that looks for corrupted blocks, and inclusion proofs.

  A \<^verbatim>\<open>[32]byte\<close> is a list of bytes; all of them come from SHA-256 or from 32 bytes of a buffer. Nodes are values: the
  code shares them but never changes one. \<^verbatim>\<open>make\<close> of a slice of up to \<open>2 ^ 32\<close> pointers is taken to succeed.
\<close>

section \<open>SHA-256\<close>

text \<open>The function of \<^verbatim>\<open>crypto/sha256\<close>.\<close>

definition sha_Ch :: "u32 \<Rightarrow> u32 \<Rightarrow> u32 \<Rightarrow> u32" where
  "sha_Ch x y z = (x AND y) XOR (NOT x AND z)"

definition sha_Maj :: "u32 \<Rightarrow> u32 \<Rightarrow> u32 \<Rightarrow> u32" where
  "sha_Maj x y z = (x AND y) XOR (x AND z) XOR (y AND z)"

definition sha_Sigma :: "nat \<Rightarrow> nat \<Rightarrow> nat \<Rightarrow> u32 \<Rightarrow> u32" where
  "sha_Sigma i j k x = word_rotr i x XOR word_rotr j x XOR word_rotr k x"

definition sha_sigma :: "nat \<Rightarrow> nat \<Rightarrow> nat \<Rightarrow> u32 \<Rightarrow> u32" where
  "sha_sigma i j k x = word_rotr i x XOR word_rotr j x XOR drop_bit k x"

definition sha_K :: "u32 list" where
  "sha_K = concat [
    [0x428a2f98, 0x71374491, 0xb5c0fbcf, 0xe9b5dba5], [0x3956c25b, 0x59f111f1, 0x923f82a4, 0xab1c5ed5],
    [0xd807aa98, 0x12835b01, 0x243185be, 0x550c7dc3], [0x72be5d74, 0x80deb1fe, 0x9bdc06a7, 0xc19bf174],
    [0xe49b69c1, 0xefbe4786, 0x0fc19dc6, 0x240ca1cc], [0x2de92c6f, 0x4a7484aa, 0x5cb0a9dc, 0x76f988da],
    [0x983e5152, 0xa831c66d, 0xb00327c8, 0xbf597fc7], [0xc6e00bf3, 0xd5a79147, 0x06ca6351, 0x14292967],
    [0x27b70a85, 0x2e1b2138, 0x4d2c6dfc, 0x53380d13], [0x650a7354, 0x766a0abb, 0x81c2c92e, 0x92722c85],
    [0xa2bfe8a1, 0xa81a664b, 0xc24b8b70, 0xc76c51a3], [0xd192e819, 0xd6990624, 0xf40e3585, 0x106aa070],
    [0x19a4c116, 0x1e376c08, 0x2748774c, 0x34b0bcb5], [0x391c0cb3, 0x4ed8aa4a, 0x5b9cca4f, 0x682e6ff3],
    [0x748f82ee, 0x78a5636f, 0x84c87814, 0x8cc70208], [0x90befffa, 0xa4506ceb, 0xbef9a3f7, 0xc67178f2]]"

definition sha_H0 :: "u32 list" where
  "sha_H0 = [0x6a09e667, 0xbb67ae85, 0x3c6ef372, 0xa54ff53a, 0x510e527f, 0x9b05688c, 0x1f83d9ab, 0x5be0cd19]"

text \<open>Big-endian words, the padding, and the message schedule, which is built with the newest word in front.\<close>

definition put_be32 :: "u32 \<Rightarrow> bytes" where
  "put_be32 w = rev (put_u32 w)"

fun be_words :: "bytes \<Rightarrow> u32 list" where
  "be_words (a # b # c # d # bs) = get_le [d, c, b, a] # be_words bs"
| "be_words _ = []"

definition sha_pad :: "bytes \<Rightarrow> bytes" where
  "sha_pad msg = msg @ 0x80 # make_bytes ((119 - length msg mod 64) mod 64) @ rev (put_u64 (of_nat (8 * length msg)))"

fun sha_schedule :: "nat \<Rightarrow> u32 list \<Rightarrow> u32 list" where
  "sha_schedule 0 ws = ws"
| "sha_schedule (Suc n) ws =
     sha_schedule n ((sha_sigma 17 19 10 (ws ! 1) + ws ! 6 + sha_sigma 7 18 3 (ws ! 14) + ws ! 15) # ws)"

fun sha_round :: "u32 list \<Rightarrow> u32 \<times> u32 \<Rightarrow> u32 list" where
  "sha_round [a, b, c, d, e, f, g, h] (k, w) =
     (let t1 = h + sha_Sigma 6 11 25 e + sha_Ch e f g + k + w;
          t2 = sha_Sigma 2 13 22 a + sha_Maj a b c
      in [t1 + t2, a, b, c, d + t1, e, f, g])"
| "sha_round s _ = s"

definition sha_block :: "u32 list \<Rightarrow> u32 list \<Rightarrow> u32 list" where
  "sha_block hs block =
     map2 (+) hs (foldl sha_round hs (zip sha_K (rev (sha_schedule 48 (rev block)))))"

fun sha_blocks :: "nat \<Rightarrow> u32 list \<Rightarrow> u32 list \<Rightarrow> u32 list" where
  "sha_blocks 0 hs ws = hs"
| "sha_blocks (Suc n) hs ws = sha_blocks n (sha_block hs (take 16 ws)) (drop 16 ws)"

definition sha256_Sum256 :: "bytes \<Rightarrow> bytes" where
  "sha256_Sum256 msg =
     (let ws = be_words (sha_pad msg) in concat (map put_be32 (sha_blocks (length ws div 16) sha_H0 ws)))"

section \<open>The tree\<close>

datatype MerkleNode = LeafNode (Hash: bytes) | InnerNode (Hash: bytes) MerkleNode MerkleNode

fun IsLeaf :: "MerkleNode \<Rightarrow> bool" where
  "IsLeaf (LeafNode h) = True" | "IsLeaf (InnerNode h l r) = False"

record MerkleTree =
  mk_Root :: "MerkleNode option"
  mk_LeafNodes :: "MerkleNode list"
  mk_NumDataBlocks :: u32

definition NewMerkleTree :: MerkleTree where
  "NewMerkleTree = \<lparr>mk_Root = None, mk_LeafNodes = [], mk_NumDataBlocks = 0\<rparr>"

definition AddLeaf :: "bytes \<Rightarrow> MerkleTree \<Rightarrow> MerkleTree" where
  "AddLeaf blockHash mt = mt\<lparr>mk_LeafNodes := mk_LeafNodes mt @ [LeafNode blockHash], mk_NumDataBlocks := mk_NumDataBlocks mt + 1\<rparr>"

definition parent_node :: "MerkleNode \<Rightarrow> MerkleNode \<Rightarrow> MerkleNode" where
  "parent_node l r = InnerNode (sha256_Sum256 (Hash l @ Hash r)) l r"

text \<open>One pass of the outer loop: pairs are combined, and a last node without a pair is combined with itself.\<close>

fun next_level :: "MerkleNode list \<Rightarrow> MerkleNode list" where
  "next_level [] = []"
| "next_level [n] = [parent_node n n]"
| "next_level (l # r # ns) = parent_node l r # next_level ns"

lemma length_next_level [simp]: "length (next_level ns) = (length ns + 1) div 2"
  by (induction ns rule: next_level.induct) auto

function top_level :: "MerkleNode list \<Rightarrow> MerkleNode list" where
  "top_level ns = (if length ns \<le> 1 then ns else top_level (next_level ns))"
  by pat_completeness auto
termination by (relation "measure length") auto

declare top_level.simps [simp del]

definition Merkle_Build :: "MerkleTree \<Rightarrow> MerkleTree result" where
  "Merkle_Build mt =
     (if mk_LeafNodes mt = [] then Inl (Error ''no leaves to begin with'')
      else Ok (mt\<lparr>mk_Root := Some (hd (top_level (mk_LeafNodes mt)))\<rparr>))"

definition GetRootHash :: "MerkleTree \<Rightarrow> bytes" where
  "GetRootHash mt = (case mk_Root mt of None \<Rightarrow> make_bytes 32 | Some n \<Rightarrow> Hash n)"

definition HashDataBlock :: "bytes \<Rightarrow> bytes" where
  "HashDataBlock blockData = sha256_Sum256 blockData"

section \<open>The binary format\<close>

definition Merkle_encodedSize :: "MerkleTree \<Rightarrow> nat" where
  "Merkle_encodedSize mt = 4 + 4 + 32 * length (mk_LeafNodes mt) + 32 + 4"

definition Merkle_fields :: "MerkleTree \<Rightarrow> bytes list" where
  "Merkle_fields mt =
     [put_u32 (mk_NumDataBlocks mt), put_u32 (of_nat (length (mk_LeafNodes mt)))] @
     map Hash (mk_LeafNodes mt) @ [GetRootHash mt]"

definition Merkle_Encode :: "MerkleTree \<Rightarrow> bytes result" where
  "Merkle_Encode mt =
     bind_r (put_all (make_bytes (Merkle_encodedSize mt)) 0 (Merkle_fields mt)) (\<lambda>(buf, pos).
     bind_r (go_slice buf 0 (int pos)) (\<lambda>body.
     put_at buf pos (put_u32 (crc32_ChecksumIEEE body))))"

fun read_leaves :: "bytes \<Rightarrow> nat \<Rightarrow> nat \<Rightarrow> nat \<Rightarrow> MerkleNode list result" where
  "read_leaves buf crcPos 0 pos = Ok []"
| "read_leaves buf crcPos (Suc n) pos =
     (if crcPos < pos + 32 then Inl (Error ''buffer too small for leaf hashes'')
      else bind_r (read_leaves buf crcPos n (pos + 32)) (\<lambda>ns. Ok (LeafNode (take 32 (drop pos buf)) # ns)))"

definition Merkle_Decode :: "bytes \<Rightarrow> MerkleTree result" where
  "Merkle_Decode buf =
     (if length buf < 4 + 4 + 32 + 4 then Inl (Error ''buffer too small'')
      else
        let crcPos = length buf - 4 in
        bind_r (read_u32 buf crcPos) (\<lambda>expectedCRC.
        if crc32_ChecksumIEEE (take crcPos buf) \<noteq> expectedCRC then Inl (Error ''CRC mismatch right here'')
        else
        bind_r (read_u32 buf 0) (\<lambda>numDataBlocks.
        bind_r (read_u32 buf 4) (\<lambda>lenLeafNodes.
        bind_r (read_leaves buf crcPos (unat lenLeafNodes) 8) (\<lambda>leaves.
        let pos = 8 + 32 * unat lenLeafNodes;
            mt = \<lparr>mk_Root = None, mk_LeafNodes = leaves, mk_NumDataBlocks = numDataBlocks\<rparr>
        in if crcPos < pos + 32 then Inl (Error ''buffer too small for root hash'')
           else if leaves = [] then Ok mt
           else bind_r (Merkle_Build mt) (\<lambda>mt.
             if GetRootHash mt \<noteq> take 32 (drop pos buf) then Inl (Error ''root hash mismatch after rebuild'')
             else Ok mt))))))"

section \<open>Verification\<close>

record ValidationResult =
  vr_Valid :: bool
  vr_CorruptedBlocks :: "u32 list"
  vr_ExpectedRootHash :: bytes
  vr_ActualRootHash :: bytes
  vr_BlockHashes :: "u32 \<rightharpoonup> bytes"

fun findCorruptedBlocks :: "MerkleNode \<Rightarrow> MerkleNode \<Rightarrow> int \<Rightarrow> int \<Rightarrow> u32 list" where
  "findCorruptedBlocks (LeafNode h) actual startIdx endIdx = (if h \<noteq> Hash actual then [of_int startIdx] else [])"
| "findCorruptedBlocks (InnerNode h l r) actual startIdx endIdx =
     (if h = Hash actual then []
      else case actual of
          LeafNode _ \<Rightarrow> []
        | InnerNode _ l' r' \<Rightarrow>
            let mid = startIdx + (endIdx - startIdx) div 2 in
            findCorruptedBlocks l l' startIdx mid @
            (if mid < endIdx then findCorruptedBlocks r r' mid endIdx else []))"

fun note_hashes :: "bytes list \<Rightarrow> u32 list \<Rightarrow> (u32 \<rightharpoonup> bytes) \<Rightarrow> (u32 \<rightharpoonup> bytes) result" where
  "note_hashes hs [] m = Ok m"
| "note_hashes hs (i # js) m =
     (if unat i < length hs then note_hashes hs js (m(i \<mapsto> hs ! unat i)) else Inl (Panic ''index out of range''))"

definition Merkle_Verify :: "bytes list \<Rightarrow> MerkleTree \<Rightarrow> ValidationResult result" where
  "Merkle_Verify blockHashes mt =
     (if blockHashes = [] then Inl (Error ''block hashes is empty'')
      else if length blockHashes \<noteq> length (mk_LeafNodes mt) then Inl (Error ''block hashes length mismatch'')
      else if of_nat (length blockHashes) \<noteq> mk_NumDataBlocks mt then Inl (Error ''block hashes count != NumDataBlocks'')
      else
        bind_r (Merkle_Build (fold AddLeaf blockHashes NewMerkleTree)) (\<lambda>actualTree.
        case mk_Root actualTree of
          None \<Rightarrow> Inl (Error ''no root'')
        | Some actualRoot \<Rightarrow>
            let res = \<lparr>vr_Valid = True, vr_CorruptedBlocks = [], vr_ExpectedRootHash = GetRootHash mt,
                       vr_ActualRootHash = GetRootHash actualTree, vr_BlockHashes = Map.empty\<rparr>
            in if GetRootHash mt = GetRootHash actualTree then Ok res
               else case mk_Root mt of
                   None \<Rightarrow> Inl (Panic ''nil pointer dereference'')
                 | Some root \<Rightarrow>
                     let corrupted = findCorruptedBlocks root actualRoot 0 (int (length (mk_LeafNodes mt))) in
                     bind_r (note_hashes blockHashes corrupted Map.empty) (\<lambda>m.
                     Ok (res\<lparr>vr_Valid := False, vr_CorruptedBlocks := corrupted, vr_BlockHashes := m\<rparr>))))"

section \<open>Inclusion proofs\<close>

record ProofStep =
  ps_Hash :: bytes
  ps_IsLeft :: bool

record MerkleProof =
  mp_BlockIndex :: u32
  mp_BlockHash :: bytes
  mp_Steps :: "ProofStep list"
  mp_RootHash :: bytes

definition sibling_step :: "MerkleNode list \<Rightarrow> nat \<Rightarrow> ProofStep" where
  "sibling_step ns index =
     (let sibling = (if even index then index + 1 else index - 1);
          sibling = (if length ns \<le> sibling then index else sibling)
      in \<lparr>ps_Hash = Hash (ns ! sibling), ps_IsLeft = odd index\<rparr>)"

function proof_steps :: "MerkleNode list \<Rightarrow> nat \<Rightarrow> ProofStep list" where
  "proof_steps ns index =
     (if length ns \<le> 1 then [] else sibling_step ns index # proof_steps (next_level ns) (index div 2))"
  by pat_completeness auto
termination by (relation "measure (\<lambda>(ns, index). length ns)") auto

declare proof_steps.simps [simp del]

definition GetProof :: "u32 \<Rightarrow> MerkleTree \<Rightarrow> MerkleProof result" where
  "GetProof blockIndex mt =
     (if of_nat (length (mk_LeafNodes mt)) \<le> blockIndex then Inl (Error ''block index out of range'')
      else if mk_Root mt = None then Inl (Error ''merkle tree not built'')
      else if length (mk_LeafNodes mt) \<le> unat blockIndex then Inl (Panic ''index out of range'')
      else Ok \<lparr>mp_BlockIndex = blockIndex, mp_BlockHash = Hash (mk_LeafNodes mt ! unat blockIndex),
        mp_Steps = proof_steps (mk_LeafNodes mt) (unat blockIndex), mp_RootHash = GetRootHash mt\<rparr>)"

definition proof_hash :: "ProofStep \<Rightarrow> bytes \<Rightarrow> bytes" where
  "proof_hash step currentHash =
     sha256_Sum256 (if ps_IsLeft step then ps_Hash step @ currentHash else currentHash @ ps_Hash step)"

definition VerifyProof :: "MerkleProof \<Rightarrow> bool" where
  "VerifyProof p =
     (if mp_Steps p = [] then mp_BlockHash p = mp_RootHash p
      else fold proof_hash (mp_Steps p) (mp_BlockHash p) = mp_RootHash p)"

definition ValidateBlock :: "u32 \<Rightarrow> bytes \<Rightarrow> MerkleTree \<Rightarrow> bool" where
  "ValidateBlock blockIndex blockData mt =
     (case GetProof blockIndex mt of
        Inl e \<Rightarrow> False
      | Inr p \<Rightarrow> VerifyProof (p\<lparr>mp_BlockHash := HashDataBlock blockData\<rparr>))"

section \<open>Lemmas\<close>

lemma length_sha_round: "length (sha_round s kw) = length s"
  by (induction s kw rule: sha_round.induct) (simp_all add: Let_def)

lemma length_sha_rounds: "length (foldl sha_round s kws) = length s"
  by (induction kws arbitrary: s) (simp_all add: length_sha_round)

lemma length_sha_blocks: "length (sha_blocks n hs ws) = length hs"
  by (induction n hs ws rule: sha_blocks.induct) (simp_all add: sha_block_def length_sha_rounds)

lemma length_concat_same: "(\<And>x. x \<in> set xs \<Longrightarrow> length (f x) = n) \<Longrightarrow> length (concat (map f xs)) = n * length xs"
  by (induction xs) auto

lemma length_sha [simp]: "length (sha256_Sum256 msg) = 32"
  by (simp add: sha256_Sum256_def Let_def length_concat_same [of _ _ 4] put_be32_def length_sha_blocks sha_H0_def)

abbreviation root_of :: "MerkleNode list \<Rightarrow> MerkleNode" where
  "root_of ns \<equiv> hd (top_level ns)"

lemma top_level_simps:
  "top_level [n] = [n]" "2 \<le> length ns \<Longrightarrow> top_level ns = top_level (next_level ns)"
  using top_level.simps [of "[n]"] top_level.simps [of ns] by simp_all

lemma next_level_nonempty [simp]: "next_level ns = [] \<longleftrightarrow> ns = []"
  by (cases ns rule: next_level.cases) auto

lemma length_1: "length ns \<le> 1 \<Longrightarrow> ns \<noteq> [] \<Longrightarrow> \<exists>n. ns = [n]"
  by (cases ns) auto

lemma nth_next_level:
  "j < (length ns + 1) div 2 \<Longrightarrow>
   next_level ns ! j = parent_node (ns ! (2 * j)) (ns ! (if 2 * j + 1 < length ns then 2 * j + 1 else 2 * j))"
proof (induction ns arbitrary: j rule: next_level.induct)
  case (3 l r ns)
  show ?case
  proof (cases j)
    case (Suc i)
    with 3 show ?thesis by simp
  qed simp
qed auto

lemma Hash_parent: "Hash (parent_node l r) = sha256_Sum256 (Hash l @ Hash r)"
  by (simp add: parent_node_def)

lemma proof_hash_step:
  assumes "index < length ns" "2 \<le> length ns"
  shows "proof_hash (sibling_step ns index) (Hash (ns ! index)) = Hash (next_level ns ! (index div 2))"
proof (cases "even index")
  case True
  then have "2 * (index div 2) = index" by simp
  with True assms show ?thesis by (simp add: proof_hash_def sibling_step_def nth_next_level Hash_parent Let_def)
next
  case False
  then have "Suc (2 * (index div 2)) = index" by presburger
  with False assms show ?thesis
    by (auto simp: proof_hash_def sibling_step_def nth_next_level Hash_parent Let_def elim: oddE)
qed

lemma fold_proof_steps:
  "index < length ns \<Longrightarrow> fold proof_hash (proof_steps ns index) (Hash (ns ! index)) = Hash (root_of ns)"
proof (induction ns index rule: proof_steps.induct)
  case (1 ns index)
  show ?case
  proof (cases "length ns \<le> 1")
    case True
    with 1 length_1 [of ns] obtain n where "ns = [n]" by fastforce
    with 1 show ?thesis by (simp add: proof_steps.simps [of "[n]"] top_level_simps)
  next
    case False
    then have "index div 2 < length (next_level ns)" using 1(2) by simp
    with 1 False show ?thesis
      by (simp add: proof_steps.simps [of ns] proof_hash_step top_level_simps(2) [of ns])
  qed
qed

text \<open>The tree that is built from a list of hashes.\<close>

lemma AddLeaf_all: "fold AddLeaf hs mt = mt\<lparr>mk_LeafNodes := mk_LeafNodes mt @ map LeafNode hs,
  mk_NumDataBlocks := mk_NumDataBlocks mt + of_nat (length hs)\<rparr>"
  by (induction hs arbitrary: mt) (simp_all add: AddLeaf_def)

definition tree_of :: "bytes list \<Rightarrow> MerkleTree" where
  "tree_of hs = \<lparr>mk_Root = Some (root_of (map LeafNode hs)), mk_LeafNodes = map LeafNode hs,
     mk_NumDataBlocks = of_nat (length hs)\<rparr>"

lemma Build_tree: "hs \<noteq> [] \<Longrightarrow> Merkle_Build (fold AddLeaf hs NewMerkleTree) = Ok (tree_of hs)"
  by (simp add: Merkle_Build_def AddLeaf_all NewMerkleTree_def tree_of_def)

lemma tree_of_simps [simp]:
  "mk_Root (tree_of hs) = Some (root_of (map LeafNode hs))" "mk_LeafNodes (tree_of hs) = map LeafNode hs"
  "mk_NumDataBlocks (tree_of hs) = of_nat (length hs)" "GetRootHash (tree_of hs) = Hash (root_of (map LeafNode hs))"
  by (simp_all add: tree_of_def GetRootHash_def)

lemma length_root_hash:
  "ns \<noteq> [] \<Longrightarrow> \<forall>n \<in> set ns. length (Hash n) = 32 \<Longrightarrow> length (Hash (root_of ns)) = 32"
proof (induction ns rule: top_level.induct)
  case (1 ns)
  show ?case
  proof (cases "length ns \<le> 1")
    case True
    with 1 length_1 [of ns] obtain n where "ns = [n]" by fastforce
    with 1 show ?thesis by (simp add: top_level_simps)
  next
    case False
    have "\<forall>n \<in> set (next_level ns). length (Hash n) = 32"
      by (induction ns rule: next_level.induct) (auto simp: Hash_parent)
    with False 1 show ?thesis by (auto simp: top_level_simps(2) [of ns])
  qed
qed

text \<open>What is hashed when a proof is checked, and that a proof fits one hash only as long as these have no collision.\<close>

definition proof_message :: "ProofStep \<Rightarrow> bytes \<Rightarrow> bytes" where
  "proof_message step h = (if ps_IsLeft step then ps_Hash step @ h else h @ ps_Hash step)"

lemma proof_hash_message: "proof_hash step h = sha256_Sum256 (proof_message step h)"
  by (simp add: proof_hash_def proof_message_def)

fun hashed :: "ProofStep list \<Rightarrow> bytes \<Rightarrow> bytes list" where
  "hashed [] h = []"
| "hashed (s # ss) h = proof_message s h # hashed ss (proof_hash s h)"

lemma proof_hash_unique:
  "fold proof_hash ss h = fold proof_hash ss h' \<Longrightarrow> inj_on sha256_Sum256 (set (hashed ss h) \<union> set (hashed ss h')) \<Longrightarrow>
   length h = length h' \<Longrightarrow> h = h'"
proof (induction ss arbitrary: h h')
  case (Cons s ss)
  have "inj_on sha256_Sum256 (set (hashed ss (proof_hash s h)) \<union> set (hashed ss (proof_hash s h')))"
    by (rule inj_on_subset [OF Cons.prems(2)]) auto
  with Cons.IH [of "proof_hash s h" "proof_hash s h'"] Cons.prems(1) have "proof_hash s h = proof_hash s h'"
    by (simp add: proof_hash_message)
  then have "proof_message s h = proof_message s h'"
    unfolding proof_hash_message by (rule inj_onD [OF Cons.prems(2)]) simp_all
  with Cons.prems(3) show ?case by (simp add: proof_message_def split: if_splits)
qed simp

text \<open>Full trees: a list of \<open>2 ^ k\<close> nodes splits into the leaves of the two subtrees.\<close>

lemma next_level_append: "even (length xs) \<Longrightarrow> next_level (xs @ ys) = next_level xs @ next_level ys"
  by (induction xs rule: next_level.induct) auto

lemma root_append:
  "length xs = 2 ^ k \<Longrightarrow> length ys = 2 ^ k \<Longrightarrow> root_of (xs @ ys) = parent_node (root_of xs) (root_of ys)"
proof (induction k arbitrary: xs ys)
  case 0
  then obtain x y where "xs = [x]" "ys = [y]" by (auto simp: length_Suc_conv)
  then show ?case using top_level_simps(2) [of "[x, y]"] by (simp add: top_level_simps(1))
next
  case (Suc k)
  have two: "2 \<le> length xs" "2 \<le> length ys" using Suc.prems by simp_all
  have "root_of (xs @ ys) = root_of (next_level xs @ next_level ys)"
    using two Suc.prems by (simp add: top_level_simps(2) [of "xs @ ys"] next_level_append)
  also have "\<dots> = parent_node (root_of (next_level xs)) (root_of (next_level ys))"
    by (rule Suc.IH) (simp_all add: Suc.prems)
  finally show ?case using two by (simp add: top_level_simps(2) [of xs] top_level_simps(2) [of ys])
qed

lemma root_single: "root_of [n] = n"
  by (simp add: top_level_simps)

fun node_messages :: "MerkleNode \<Rightarrow> bytes list" where
  "node_messages (LeafNode h) = []"
| "node_messages (InnerNode h l r) = (Hash l @ Hash r) # node_messages l @ node_messages r"

abbreviation leaf_root :: "bytes list \<Rightarrow> MerkleNode" where
  "leaf_root hs \<equiv> root_of (map LeafNode hs)"

definition no_collisions :: "MerkleNode \<Rightarrow> MerkleNode \<Rightarrow> bool" where
  "no_collisions s t \<longleftrightarrow> inj_on sha256_Sum256 (set (node_messages s) \<union> set (node_messages t))"

lemma no_collisions_parents:
  assumes "no_collisions (parent_node l r) (parent_node l' r')"
  shows "no_collisions l l'" "no_collisions r r'"
    and "Hash (parent_node l r) = Hash (parent_node l' r') \<Longrightarrow> Hash l @ Hash r = Hash l' @ Hash r'"
proof -
  show "no_collisions l l'" "no_collisions r r'"
    using assms unfolding no_collisions_def by (auto simp: parent_node_def intro: inj_on_subset)
  assume "Hash (parent_node l r) = Hash (parent_node l' r')"
  then show "Hash l @ Hash r = Hash l' @ Hash r'"
    unfolding Hash_parent by (rule inj_onD [OF assms [unfolded no_collisions_def]]) (simp_all add: parent_node_def)
qed

lemma split_pow2: "length hs = 2 ^ Suc k \<Longrightarrow> \<exists>as bs. hs = as @ bs \<and> length as = 2 ^ k \<and> length bs = 2 ^ k"
  by (intro exI [of _ "take (2 ^ k) hs"] exI [of _ "drop (2 ^ k) hs"]) simp

abbreviation digests :: "bytes list \<Rightarrow> bool" where
  "digests hs \<equiv> list_all (\<lambda>h. length h = 32) hs"

lemma length_leaf_root: "hs \<noteq> [] \<Longrightarrow> digests hs \<Longrightarrow> length (Hash (leaf_root hs)) = 32"
  by (rule length_root_hash) (auto simp: list_all_iff)

lemma leaf_root_append:
  "length as = 2 ^ k \<Longrightarrow> length bs = 2 ^ k \<Longrightarrow> leaf_root (as @ bs) = parent_node (leaf_root as) (leaf_root bs)"
  using root_append [of "map LeafNode as" k "map LeafNode bs"] by simp

fun differing :: "int \<Rightarrow> bytes list \<Rightarrow> bytes list \<Rightarrow> u32 list" where
  "differing s (h # hs) (h' # hs') = (if h \<noteq> h' then [of_int s] else []) @ differing (s + 1) hs hs'"
| "differing s _ _ = []"

lemma differing_append:
  "length as = length as' \<Longrightarrow> differing s (as @ bs) (as' @ bs') = differing s as as' @ differing (s + int (length as)) bs bs'"
  by (induction s as as' rule: differing.induct) (auto simp: add.assoc add.commute)

lemma differing_same: "differing s hs hs = []"
  by (induction hs arbitrary: s) auto

lemma find_differing:
  "length hs = 2 ^ k \<Longrightarrow> length hs' = 2 ^ k \<Longrightarrow> digests hs \<Longrightarrow> digests hs' \<Longrightarrow>
   no_collisions (leaf_root hs) (leaf_root hs') \<Longrightarrow>
   findCorruptedBlocks (leaf_root hs) (leaf_root hs') s (s + 2 ^ k) = differing s hs hs' \<and>
   (Hash (leaf_root hs) = Hash (leaf_root hs') \<longrightarrow> hs = hs')"
proof (induction k arbitrary: hs hs' s)
  case 0
  then obtain x y where "hs = [x]" "hs' = [y]" by (auto simp: length_Suc_conv)
  then show ?case by (simp add: root_single)
next
  case (Suc k)
  obtain as bs where ab: "hs = as @ bs" "length as = 2 ^ k" "length bs = 2 ^ k" using split_pow2 [OF Suc.prems(1)] by blast
  obtain as' bs' where ab': "hs' = as' @ bs'" "length as' = 2 ^ k" "length bs' = 2 ^ k" using split_pow2 [OF Suc.prems(2)] by blast
  note root = leaf_root_append [OF ab(2,3), folded ab(1)] leaf_root_append [OF ab'(2,3), folded ab'(1)]
  have nc: "no_collisions (leaf_root as) (leaf_root as')" "no_collisions (leaf_root bs) (leaf_root bs')"
    and eq: "Hash (leaf_root hs) = Hash (leaf_root hs') \<Longrightarrow>
      Hash (leaf_root as) @ Hash (leaf_root bs) = Hash (leaf_root as') @ Hash (leaf_root bs')"
    using no_collisions_parents [OF Suc.prems(5) [unfolded root]] by (simp_all add: root)
  have dg: "digests as" "digests bs" "digests as'" "digests bs'" using Suc.prems(3,4) by (simp_all add: ab ab')
  have IHa: "findCorruptedBlocks (leaf_root as) (leaf_root as') s (s + 2 ^ k) = differing s as as'"
    "Hash (leaf_root as) = Hash (leaf_root as') \<Longrightarrow> as = as'" for s
    using Suc.IH [OF ab(2) ab'(2) dg(1,3) nc(1)] by blast+
  have IHb: "findCorruptedBlocks (leaf_root bs) (leaf_root bs') s (s + 2 ^ k) = differing s bs bs'"
    "Hash (leaf_root bs) = Hash (leaf_root bs') \<Longrightarrow> bs = bs'" for s
    using Suc.IH [OF ab(3) ab'(3) dg(2,4) nc(2)] by blast+
  have ne: "as \<noteq> []" "as' \<noteq> []" using ab(2) ab'(2) by auto
  have same: "hs = hs'" if "Hash (leaf_root hs) = Hash (leaf_root hs')"
  proof -
    have "Hash (leaf_root as) = Hash (leaf_root as') \<and> Hash (leaf_root bs) = Hash (leaf_root bs')"
      using eq [OF that] length_leaf_root [OF ne(1) dg(1)] length_leaf_root [OF ne(2) dg(3)]
      by (metis append_eq_append_conv)
    with IHa(2) IHb(2) show ?thesis by (simp add: ab ab')
  qed
  show ?case
  proof (cases "Hash (leaf_root hs) = Hash (leaf_root hs')")
    case True
    with same [OF True] show ?thesis by (simp add: differing_same root parent_node_def)
  next
    case False
    have mid: "s + (s + 2 ^ Suc k - s) div 2 = s + 2 ^ k" by simp
    have "findCorruptedBlocks (leaf_root hs) (leaf_root hs') s (s + 2 ^ Suc k) =
        differing s as as' @ findCorruptedBlocks (leaf_root bs) (leaf_root bs') (s + 2 ^ k) (s + 2 ^ Suc k)"
      using False IHa(1) [of s] unfolding root by (simp add: parent_node_def)
    also have "findCorruptedBlocks (leaf_root bs) (leaf_root bs') (s + 2 ^ k) (s + 2 ^ Suc k) = differing (s + 2 ^ k) bs bs'"
      using IHb(1) [of "s + 2 ^ k"] by (simp add: algebra_simps)
    finally show ?thesis using False ab(2) ab'(2) by (simp add: ab(1) ab'(1) differing_append)
  qed
qed

lemma differing_filter:
  "length hs = length hs' \<Longrightarrow>
   differing s hs hs' = map (\<lambda>i. of_int (s + int i)) (filter (\<lambda>i. hs ! i \<noteq> hs' ! i) [0..<length hs])"
proof (induction hs hs' arbitrary: s rule: list_induct2)
  case (Cons h hs h' hs')
  have "[0..<length (h # hs)] = 0 # map Suc [0..<length hs]"
    by (simp add: map_Suc_upt upt_conv_Cons del: upt_Suc)
  with Cons show ?case by (simp add: filter_map comp_def algebra_simps del: upt_Suc)
qed simp

lemma note_hashes_all:
  "\<forall>i \<in> set js. unat i < length hs \<Longrightarrow>
   note_hashes hs js m = Ok (\<lambda>i. if i \<in> set js then Some (hs ! unat i) else m i)"
proof (induction js arbitrary: m)
  case (Cons j js)
  then show ?case by (auto intro!: ext)
qed simp

lemma Merkle_Verify_tree:
  assumes "hs' \<noteq> []" "length hs' = length hs"
  defines "same \<equiv> Hash (leaf_root hs) = Hash (leaf_root hs')"
    and "corrupted \<equiv> findCorruptedBlocks (leaf_root hs) (leaf_root hs') 0 (int (length hs))"
  assumes "\<not> same \<Longrightarrow> \<forall>i \<in> set corrupted. unat i < length hs"
  shows "Merkle_Verify hs' (tree_of hs) = Ok \<lparr>vr_Valid = same, vr_CorruptedBlocks = (if same then [] else corrupted),
    vr_ExpectedRootHash = Hash (leaf_root hs), vr_ActualRootHash = Hash (leaf_root hs'),
    vr_BlockHashes = (\<lambda>i. if \<not> same \<and> i \<in> set corrupted then Some (hs' ! unat i) else None)\<rparr>"
proof (cases same)
  case True
  then show ?thesis using assms(1,2) by (simp add: Merkle_Verify_def Build_tree Let_def same_def)
next
  case False
  then have "note_hashes hs' corrupted Map.empty = Ok (\<lambda>i. if i \<in> set corrupted then Some (hs' ! unat i) else None)"
    using assms(2,5) by (simp add: note_hashes_all)
  with False show ?thesis
    using assms(1,2) by (simp add: Merkle_Verify_def Build_tree Let_def same_def corrupted_def)
qed

text \<open>The binary format.\<close>

lemma put_fields:
  "length (concat xs) + 4 \<le> n \<Longrightarrow> put_all (make_bytes n) 0 xs = Ok (concat xs @ make_bytes (n - length (concat xs)), length (concat xs))"
  using put_all_append [of xs n 0 "[]"] by simp

lemma length_hashes: "digests hs \<Longrightarrow> length (concat hs) = 32 * length hs"
  by (induction hs) auto

definition merkle_body :: "bytes list \<Rightarrow> bytes" where
  "merkle_body hs = put_u32 (of_nat (length hs)) @ put_u32 (of_nat (length hs)) @ concat hs @ Hash (leaf_root hs)"

lemma length_merkle_body: "hs \<noteq> [] \<Longrightarrow> digests hs \<Longrightarrow> length (merkle_body hs) = 40 + 32 * length hs"
  by (simp add: merkle_body_def length_hashes length_leaf_root)

lemma Merkle_Encode_tree:
  assumes "hs \<noteq> []" "digests hs"
  shows "Merkle_Encode (tree_of hs) = Ok (merkle_body hs @ put_u32 (crc32_ChecksumIEEE (merkle_body hs)))"
proof -
  have body: "concat (Merkle_fields (tree_of hs)) = merkle_body hs"
    by (simp add: Merkle_fields_def merkle_body_def comp_def)
  have len: "length (merkle_body hs) = 40 + 32 * length hs" by (rule length_merkle_body [OF assms])
  have "put_all (make_bytes (Merkle_encodedSize (tree_of hs))) 0 (Merkle_fields (tree_of hs)) =
      Ok (merkle_body hs @ make_bytes 4, length (merkle_body hs))"
    using put_fields [of "Merkle_fields (tree_of hs)" "Merkle_encodedSize (tree_of hs)"] len
    by (simp add: body Merkle_encodedSize_def)
  moreover have "go_slice (merkle_body hs @ make_bytes 4) 0 (int (length (merkle_body hs))) = Ok (merkle_body hs)"
    by (simp add: go_slice_def)
  moreover have "put_at (merkle_body hs @ make_bytes 4) (length (merkle_body hs)) (put_u32 w) = Ok (merkle_body hs @ put_u32 w)" for w
    using put_at_append [of "put_u32 w" 4 _ "merkle_body hs"] by simp
  ultimately show ?thesis by (simp add: Merkle_Encode_def)
qed

lemma read_leaves_hashes:
  "digests hs \<Longrightarrow> pos = length pre \<Longrightarrow> length pre + 32 * length hs \<le> crcPos \<Longrightarrow>
   read_leaves (pre @ concat hs @ post) crcPos (length hs) pos = Ok (map LeafNode hs)"
proof (induction hs arbitrary: pre pos)
  case (Cons h hs)
  with Cons.IH [of "pos + 32" "pre @ h"] show ?case by simp
qed simp

lemma Merkle_Decode_tree:
  assumes "hs \<noteq> []" "digests hs" "length hs < 2 ^ 32"
  shows "Merkle_Decode (merkle_body hs @ put_u32 (crc32_ChecksumIEEE (merkle_body hs))) = Ok (tree_of hs)"
proof -
  let ?crc = "put_u32 (crc32_ChecksumIEEE (merkle_body hs))"
  let ?buf = "merkle_body hs @ ?crc"
  have len: "length (merkle_body hs) = 40 + 32 * length hs" by (rule length_merkle_body [OF assms(1,2)])
  have n: "unat (of_nat (length hs) :: u32) = length hs" using assms(3) by (simp add: unat_of_nat take_bit_nat_eq_self)
  have rd: "read_u32 ?buf (length (merkle_body hs)) = Ok (crc32_ChecksumIEEE (merkle_body hs))"
    "read_u32 ?buf 0 = Ok (of_nat (length hs))" "read_u32 ?buf 4 = Ok (of_nat (length hs))"
    using read_put_u32 [of _ "merkle_body hs" "crc32_ChecksumIEEE (merkle_body hs)" "[]"]
      read_put_u32 [of 0 "[]" "of_nat (length hs)"] read_put_u32 [of 4 "put_u32 (of_nat (length hs))" "of_nat (length hs)"]
    by (simp_all add: merkle_body_def)
  have leaves: "read_leaves ?buf (length (merkle_body hs)) (length hs) 8 = Ok (map LeafNode hs)"
    using read_leaves_hashes [OF assms(2), of 8 "put_u32 (of_nat (length hs)) @ put_u32 (of_nat (length hs))"
        "length (merkle_body hs)" "Hash (leaf_root hs) @ ?crc"] len
    by (simp add: merkle_body_def)
  have root: "take 32 (drop (8 + 32 * length hs) ?buf) = Hash (leaf_root hs)"
    using length_hashes [OF assms(2)] length_leaf_root [OF assms(1,2)] by (simp add: merkle_body_def)
  have build: "Merkle_Build \<lparr>mk_Root = None, mk_LeafNodes = map LeafNode hs, mk_NumDataBlocks = of_nat (length hs)\<rparr> = Ok (tree_of hs)"
    using assms(1) by (simp add: Merkle_Build_def tree_of_def)
  show ?thesis
    unfolding Merkle_Decode_def Let_def
    using rd leaves root build assms(1) len length_leaf_root [OF assms(1,2)] by (simp add: n)
qed

lemma Merkle_Decode_Ok: "Merkle_Decode buf = Ok mt \<Longrightarrow>
  44 \<le> length buf \<and> get_le (drop (length buf - 4) buf) = crc32_ChecksumIEEE (take (length buf - 4) buf)"
  by (auto simp: Merkle_Decode_def read_le_def Let_def split: if_splits)

section \<open>Properties\<close>

text \<open>C20: For every data block the tree gives a proof, and the proof fits the hash of that block. Another hash does not fit
  it, unless SHA-256 has a collision among the messages that are hashed when the two are checked.\<close>

theorem merkle_proofs:
  assumes "digests hs" "length hs < 2 ^ 32" "i < length hs" "Merkle_Build (fold AddLeaf hs NewMerkleTree) = Ok mt"
    and "length h = 32"
  shows "\<exists>p. GetProof (of_nat i) mt = Ok p \<and> VerifyProof p \<and> mp_BlockHash p = hs ! i \<and>
    (inj_on sha256_Sum256 (set (hashed (mp_Steps p) h) \<union> set (hashed (mp_Steps p) (hs ! i))) \<longrightarrow>
       VerifyProof (p\<lparr>mp_BlockHash := h\<rparr>) = (h = hs ! i)) \<and>
    (\<forall>data. HashDataBlock data = hs ! i \<longrightarrow> ValidateBlock (of_nat i) data mt)"
proof -
  have ne: "hs \<noteq> []" using assms(3) by auto
  have mt: "mt = tree_of hs" using assms(4) Build_tree [OF ne] by simp
  have n: "unat (of_nat i :: u32) = i" "(of_nat (length hs) :: u32) \<le> of_nat i \<longleftrightarrow> False"
    using assms(2,3) by (simp_all add: unat_of_nat take_bit_nat_eq_self word_le_nat_alt)
  let ?p = "\<lparr>mp_BlockIndex = of_nat i, mp_BlockHash = hs ! i, mp_Steps = proof_steps (map LeafNode hs) i,
    mp_RootHash = Hash (leaf_root hs)\<rparr>"
  have p: "GetProof (of_nat i) mt = Ok ?p" using assms(3) n by (simp add: GetProof_def mt)
  have fits: "fold proof_hash (proof_steps (map LeafNode hs) i) (hs ! i) = Hash (leaf_root hs)"
    using fold_proof_steps [of i "map LeafNode hs"] assms(3) by simp
  have verify: "VerifyProof (?p\<lparr>mp_BlockHash := x\<rparr>) \<longleftrightarrow> fold proof_hash (proof_steps (map LeafNode hs) i) x = Hash (leaf_root hs)" for x
    by (simp add: VerifyProof_def)
  have len: "length (hs ! i) = 32" using assms(1,3) by (simp add: list_all_length)
  have other: "VerifyProof (?p\<lparr>mp_BlockHash := h\<rparr>) = (h = hs ! i)"
    if "inj_on sha256_Sum256 (set (hashed (mp_Steps ?p) h) \<union> set (hashed (mp_Steps ?p) (hs ! i)))"
    using proof_hash_unique [of "mp_Steps ?p" h "hs ! i"] that fits len assms(5) unfolding verify by auto
  have own: "VerifyProof ?p" using verify [of "hs ! i"] fits by simp
  have "ValidateBlock (of_nat i) data mt" if "HashDataBlock data = hs ! i" for data
    using own by (simp add: ValidateBlock_def p that)
  with p own other show ?thesis by (intro exI [of _ ?p]) simp
qed

theorem merkle_proofs_witness:
  "\<exists>mt p. Merkle_Build (fold AddLeaf [make_bytes 32, make_bytes 32, make_bytes 32] NewMerkleTree) = Ok mt \<and>
    GetProof 2 mt = Ok p \<and> VerifyProof p"
proof -
  let ?hs = "[make_bytes 32, make_bytes 32, make_bytes 32]"
  have "Merkle_Build (fold AddLeaf ?hs NewMerkleTree) = Ok (tree_of ?hs)" by (rule Build_tree) simp
  from merkle_proofs [OF _ _ _ this, of 2 "make_bytes 32"] Build_tree [of ?hs] show ?thesis by auto
qed

text \<open>C22: The tree is stored with its leaves and read back with all its nodes, and a stored tree that differs in one byte is
  rejected.\<close>

theorem merkle_roundtrip:
  assumes "digests hs" "length hs < 2 ^ 32" "Merkle_Build (fold AddLeaf hs NewMerkleTree) = Ok mt"
    and "Merkle_Encode mt = Ok buf" "i < length buf" "b \<noteq> buf ! i"
  shows "length buf = Merkle_encodedSize mt \<and> Merkle_Decode buf = Ok mt \<and> (\<forall>t. Merkle_Decode (buf[i := b]) \<noteq> Ok t)"
proof -
  have ne: "hs \<noteq> []" using assms(3) by (auto simp: Merkle_Build_def NewMerkleTree_def)
  have mt: "mt = tree_of hs" using assms(3) Build_tree [OF ne] by simp
  have buf: "buf = merkle_body hs @ put_u32 (crc32_ChecksumIEEE (merkle_body hs))"
    using assms(4) Merkle_Encode_tree [OF ne assms(1)] by (simp add: mt)
  have len: "length buf = Merkle_encodedSize mt"
    using length_merkle_body [OF ne assms(1)] by (simp add: buf mt Merkle_encodedSize_def)
  have "Merkle_Decode (buf[i := b]) \<noteq> Ok t" for t
  proof
    assume "Merkle_Decode (buf[i := b]) = Ok t"
    moreover have "length buf - 4 = length (merkle_body hs)" by (simp add: buf)
    ultimately show False using Merkle_Decode_Ok crc_trailer_detects [OF buf assms(5,6)] by fastforce
  qed
  with len Merkle_Decode_tree [OF ne assms(1,2)] show ?thesis by (simp add: buf mt)
qed

theorem merkle_roundtrip_witness:
  "\<exists>mt buf. Merkle_Build (fold AddLeaf [make_bytes 32] NewMerkleTree) = Ok mt \<and> Merkle_Encode mt = Ok buf \<and>
    Merkle_Decode buf = Ok mt \<and> Merkle_Decode (buf[0 := buf ! 0 + 1]) \<noteq> Ok mt"
proof -
  let ?hs = "[make_bytes 32]"
  have mt: "Merkle_Build (fold AddLeaf ?hs NewMerkleTree) = Ok (tree_of ?hs)" by (rule Build_tree) simp
  obtain buf where buf: "Merkle_Encode (tree_of ?hs) = Ok buf" "0 < length buf"
    using Merkle_Encode_tree [of ?hs] by (simp add: merkle_body_def del: length_greater_0_conv)
  have "digests ?hs" "length ?hs < 2 ^ 32" by simp_all
  from merkle_roundtrip [OF this mt buf(1,2), of "buf ! 0 + 1"] mt buf show ?thesis by auto
qed

text \<open>C21: When the table has \<open>2 ^ k\<close> data blocks, \<open>Verify\<close> accepts exactly the stored hashes and otherwise reports exactly the
  numbers of the blocks whose hashes differ, unless SHA-256 has a collision among the nodes of the two trees.\<close>

theorem merkle_verify_locates:
  assumes "digests hs" "digests hs'" "length hs = 2 ^ k" "length hs' = 2 ^ k" "k < 32"
    and "Merkle_Build (fold AddLeaf hs NewMerkleTree) = Ok mt" "no_collisions (leaf_root hs) (leaf_root hs')"
  shows "\<exists>r. Merkle_Verify hs' mt = Ok r \<and> vr_Valid r = (hs' = hs) \<and>
    vr_CorruptedBlocks r = map of_nat (filter (\<lambda>i. hs ! i \<noteq> hs' ! i) [0..<2 ^ k]) \<and>
    vr_BlockHashes r = (\<lambda>i. if i \<in> set (vr_CorruptedBlocks r) then Some (hs' ! unat i) else None)"
proof -
  have ne: "hs \<noteq> []" "hs' \<noteq> []" using assms(3,4) by auto
  have mt: "mt = tree_of hs" using assms(6) Build_tree [OF ne(1)] by simp
  have len: "length hs' = length hs" using assms(3,4) by simp
  let ?c = "map of_nat (filter (\<lambda>i. hs ! i \<noteq> hs' ! i) [0..<2 ^ k]) :: u32 list"
  have loc: "findCorruptedBlocks (leaf_root hs) (leaf_root hs') 0 (int (length hs)) = ?c"
    and same: "Hash (leaf_root hs) = Hash (leaf_root hs') \<longleftrightarrow> hs = hs'"
    using find_differing [OF assms(3,4,1,2,7), of 0] len assms(3) by (auto simp: differing_filter)
  have small: "\<forall>i \<in> set ?c. unat i < length hs"
  proof
    fix i assume "i \<in> set ?c"
    then obtain j where j: "i = of_nat j" "j < 2 ^ k" by auto
    moreover have "(2 :: nat) ^ k < 2 ^ 32" using power_strict_increasing [OF assms(5), of "2 :: nat"] by simp
    ultimately show "unat i < length hs"
      using assms(3) by (simp add: unat_of_nat take_bit_nat_eq_self)
  qed
  have "?c = []" if "hs = hs'" using that by simp
  with Merkle_Verify_tree [OF ne(2) len, unfolded loc, OF small] show ?thesis by (auto simp: mt same)
qed

theorem merkle_verify_locates_witness:
  "\<exists>mt r. Merkle_Build (fold AddLeaf [make_bytes 32] NewMerkleTree) = Ok mt \<and>
    Merkle_Verify [1 # make_bytes 31] mt = Ok r \<and> \<not> vr_Valid r \<and> vr_CorruptedBlocks r = [0]"
proof -
  let ?hs = "[make_bytes 32]" and ?hs' = "[1 # make_bytes 31]"
  have mt: "Merkle_Build (fold AddLeaf ?hs NewMerkleTree) = Ok (tree_of ?hs)" by (rule Build_tree) simp
  have ne: "?hs' \<noteq> ?hs" by (simp add: make_bytes_def numeral_eq_Suc)
  have "no_collisions (leaf_root ?hs) (leaf_root ?hs')" by (simp add: no_collisions_def root_single)
  from merkle_verify_locates [OF _ _ _ _ _ mt this, of 0] ne mt show ?thesis by auto
qed

text \<open>The search for corrupted blocks halves the range of blocks, which is not how the tree was built when the number of
  blocks is not a power of two. With three blocks, a change of the third is reported as a change of the second and the
  third.\<close>

theorem merkle_verify_mislocates:
  assumes "digests hs" "length hs = 3" "length h = 32" "h \<noteq> hs ! 2" "Merkle_Build (fold AddLeaf hs NewMerkleTree) = Ok mt"
    and "no_collisions (leaf_root hs) (leaf_root (hs[2 := h]))"
  shows "\<exists>r. Merkle_Verify (hs[2 := h]) mt = Ok r \<and> \<not> vr_Valid r \<and> vr_CorruptedBlocks r = [1, 2]"
proof -
  obtain a b c where hs: "hs = [a, b, c]" using assms(2) by (auto simp: length_Suc_conv numeral_3_eq_3)
  have mt: "mt = tree_of hs" using assms(5) Build_tree [of hs] by (simp add: hs)
  have root: "leaf_root [a, b, x] = parent_node (parent_node (LeafNode a) (LeafNode b)) (parent_node (LeafNode x) (LeafNode x))" for x
    by (simp add: top_level_simps)
  have "no_collisions (leaf_root [a, b, c]) (leaf_root [a, b, h])" using assms(6) by (simp add: hs)
  note top = no_collisions_parents [OF this [unfolded root]]
  have "length c = length h" using assms(1,3) by (simp add: hs)
  then have right: "Hash (parent_node (LeafNode c) (LeafNode c)) \<noteq> Hash (parent_node (LeafNode h) (LeafNode h))"
    using no_collisions_parents(3) [OF top(2)] assms(4) by (auto simp: hs)
  then have differ: "Hash (leaf_root [a, b, c]) \<noteq> Hash (leaf_root [a, b, h])"
    using top(3) unfolding root by auto
  then have "c \<noteq> h" by auto
  then have "findCorruptedBlocks (leaf_root [a, b, c]) (leaf_root [a, b, h]) 0 (int (length [a, b, c])) = [1, 2]"
    using differ right unfolding root by (auto simp: parent_node_def)
  with differ Merkle_Verify_tree [of "[a, b, h]" "[a, b, c]"] show ?thesis by (auto simp: mt hs)
qed

end
