(* ===== verification/Table_Writer.thy ===== *)
theory Table_Writer
  imports Segment_Storage Data_Block Summary Metadata Bloom_Filter Merkle
begin

text \<open>
  \<^verbatim>\<open>internal/sstable/writer.go\<close>: records go into data blocks, a full block is written, hashed and indexed, a record that fits
  in no block is cut into chunks, and \<^verbatim>\<open>Finalize\<close> writes all other segments and the footer.

  The state is the writer and the disk. The settings the code reads from the configuration are an argument; \<^verbatim>\<open>valueEncoder\<close> is
  the encoder the block builder shares (theory \<open>Data_Block\<close>). Copying an empty key gives nil, so the smallest and largest key
  may be nil. Sizes of segments are converted to \<^verbatim>\<open>uint32\<close> where the footer stores them.
\<close>

section \<open>The writer\<close>

record TableSettings =
  cf_Format :: byte
  cf_BlockSize :: int
  cf_RestartInterval :: int
  cf_Compression :: byte
  cf_FalsePositiveRate :: f64

record SSTableWriter =
  sw_storage :: SegmentStorage
  sw_blockManager :: BlockManager
  sw_filePath :: path
  sw_dataBlockBuilder :: DataBlockBuilder
  sw_indexSegment :: IndexSegment
  sw_ttlIndexSegment :: TTLIndexSegment
  sw_rangeDelIndexSegment :: RangeDelIndexSegment
  sw_currentIndexBlock :: IndexBlock
  sw_summarySegment :: SummarySegment
  sw_filterSegment :: "BloomFilter option"
  sw_merkleTree :: MerkleTree
  sw_metadataSegment :: "Metadata option"
  sw_footer :: Footer
  sw_currentBlockIndex :: u32
  sw_recordCount :: u64
  sw_minSeqId :: u64
  sw_maxSeqId :: u64
  sw_minKeyLength :: u32
  sw_maxKeyLength :: u32
  sw_minKey :: "bytes option"
  sw_maxKey :: "bytes option"
  sw_firstRecord :: bool
  sw_Layer :: int

type_synonym writer_state = "SSTableWriter \<times> disk"
type_synonym 'a writer_op = "(writer_state, 'a) op"

text \<open>\<open>filter_for\<close> is \<^verbatim>\<open>NewBloomFilterWithParams\<close> with the sizes and seeds it chooses.\<close>

definition NewSSTableWriter :: "TableSettings \<Rightarrow> (u64 \<Rightarrow> f64 \<Rightarrow> BloomFilter result) \<Rightarrow> path \<Rightarrow> BlockManager \<Rightarrow> u64 \<Rightarrow> int \<Rightarrow>
    disk \<Rightarrow> writer_state result" where
  "NewSSTableWriter cfg filter_for filePath bm expectedElements layer d =
     (case CreateStorage (cf_Format cfg) filePath bm d of (st, d) \<Rightarrow>
      let n = of_nat (bm_blockSize bm) in
      bind_r (if 0 < expectedElements then bind_r (filter_for expectedElements (cf_FalsePositiveRate cfg)) (\<lambda>f. Ok (Some f)) else Ok None)
        (\<lambda>filterSegment.
      bind_r (NewDataBlockBuilder PrefixCompression (cf_RestartInterval cfg) (int (bm_blockSize bm)) (NewAdaptiveDictEncoderFrequency 2 5))
        (\<lambda>builder.
      Ok (\<lparr>sw_storage = st, sw_blockManager = bm, sw_filePath = filePath, sw_dataBlockBuilder = builder,
            sw_indexSegment = NewIndexSegment n, sw_ttlIndexSegment = NewTTLIndexSegment n,
            sw_rangeDelIndexSegment = NewRangeDelIndexSegment n, sw_currentIndexBlock = NewIndexBlock,
            sw_summarySegment = NewSummarySegment 1, sw_filterSegment = filterSegment, sw_merkleTree = NewMerkleTree,
            sw_metadataSegment = None, sw_footer = NewFooter (cf_Format cfg), sw_currentBlockIndex = 0, sw_recordCount = 0,
            sw_minSeqId = 0, sw_maxSeqId = 0, sw_minKeyLength = -1, sw_maxKeyLength = 0, sw_minKey = None, sw_maxKey = None,
            sw_firstRecord = True, sw_Layer = layer\<rparr>, d))))"

section \<open>Blocks\<close>

definition with_builder :: "(DataBlockBuilder \<Rightarrow> ('a \<times> DataBlockBuilder) result) \<Rightarrow> 'a writer_op" where
  "with_builder f = (\<lambda>(w, d). case f (sw_dataBlockBuilder w) of
       Inl e \<Rightarrow> (Inl e, (w, d))
     | Inr (x, b) \<Rightarrow> (Ok x, (w\<lparr>sw_dataBlockBuilder := b\<rparr>, d)))"

definition update_writer :: "(SSTableWriter \<Rightarrow> SSTableWriter) \<Rightarrow> unit writer_op" where
  "update_writer f = (\<lambda>(w, d). (Ok (), (f w, d)))"

definition write_segment :: "SegmentType \<Rightarrow> bytes \<Rightarrow> (nat \<times> nat) writer_op" where
  "write_segment seg data = (\<lambda>(w, d). case WriteSegment seg data (sw_storage w, d) of
     (r, (st, d)) \<Rightarrow> (r, (w\<lparr>sw_storage := st\<rparr>, d)))"

text \<open>Steps 3 and 4 of \<^verbatim>\<open>flushDataBlock\<close>: the hash of the block, its index entry, and a new index block when this one is full.\<close>

definition note_block :: "TableSettings \<Rightarrow> bytes \<Rightarrow> SSTableWriter \<Rightarrow> SSTableWriter" where
  "note_block cfg blockData w =
     (let ib = IndexBlock_AddFromDataBlock (sw_currentIndexBlock w) (bb_firstKey (sw_dataBlockBuilder w)) (sw_currentBlockIndex w);
          w = w\<lparr>sw_merkleTree := AddLeaf (HashDataBlock blockData) (sw_merkleTree w), sw_currentIndexBlock := ib\<rparr>
      in if of_int (cf_BlockSize cfg) \<le> blk_RealSize ib
         then w\<lparr>sw_indexSegment := IndexSegment_AddBlock (sw_indexSegment w) ib, sw_currentIndexBlock := NewIndexBlock\<rparr>
         else w)"

definition flushDataBlock :: "TableSettings \<Rightarrow> unit writer_op" where
  "flushDataBlock cfg = (\<lambda>(w, d).
     if bb_recordCount (sw_dataBlockBuilder w) = 0 then (Ok (), (w, d))
     else bind_s (lift_s (Builder_Finish (cf_BlockSize cfg) (sw_dataBlockBuilder w))) (\<lambda>blockData.
          bind_s (write_segment SegmentData blockData) (\<lambda>_.
          bind_s (update_writer (note_block cfg blockData)) (\<lambda>_.
          bind_s (with_builder (\<lambda>b. bind_r (Builder_Reset b) (\<lambda>b. Ok ((), b)))) (\<lambda>_.
          update_writer (\<lambda>w. w\<lparr>sw_currentBlockIndex := sw_currentBlockIndex w + 1\<rparr>))))) (w, d))"

section \<open>Records in chunks\<close>

text \<open>The space left in the block when \<open>overhead\<close> is set aside.\<close>

definition available :: "int \<Rightarrow> SSTableWriter \<Rightarrow> int" where
  "available overhead w = int (bm_blockSize (sw_blockManager w)) - int (length (bb_data (sw_dataBlockBuilder w))) - overhead"

definition contOverhead :: int where
  "contOverhead = 1 + 10 + 60"

definition headerOverhead :: "DataRecord \<Rightarrow> int" where
  "headerOverhead rec = 1 + 10 + 8 + 1 + int (length (dr_Key rec)) * 2 + 10 + 60"

text \<open>A continuation chunk, in the current block or in a new one.\<close>

definition put_continuation :: "TableSettings \<Rightarrow> byte \<Rightarrow> bytes \<Rightarrow> unit writer_op" where
  "put_continuation cfg chunkType chunkData =
     bind_s (with_builder (Builder_AddContinuationChunk chunkType chunkData)) (\<lambda>added.
     if added then ret_s ()
     else bind_s (flushDataBlock cfg) (\<lambda>_.
          bind_s (with_builder (Builder_AddContinuationChunk chunkType chunkData)) (\<lambda>added.
          if added then ret_s () else fail_s (Error ''cannot write continuation chunk after flush''))))"

text \<open>One round of the loop: the room for the chunk, after a flush when there is none, the chunk, and what remains.\<close>

definition room_for_chunk :: "TableSettings \<Rightarrow> int writer_op" where
  "room_for_chunk cfg = (\<lambda>(w, d).
     if available contOverhead w \<le> 0
     then bind_s (flushDataBlock cfg) (\<lambda>_. ret_s (int (bm_blockSize (sw_blockManager w)) - contOverhead)) (w, d)
     else (Ok (available contOverhead w), (w, d)))"

definition chunk_round :: "TableSettings \<Rightarrow> bytes \<Rightarrow> bytes writer_op" where
  "chunk_round cfg remaining =
     bind_s (room_for_chunk cfg) (\<lambda>avail.
     if int (length remaining) \<le> avail
     then bind_s (put_continuation cfg ChunkTypeLast remaining) (\<lambda>_. ret_s [])
     else if avail < 0 then fail_s (Panic ''slice bounds out of range'')
     else bind_s (put_continuation cfg ChunkTypeMiddle (take (nat avail) remaining)) (\<lambda>_. ret_s (drop (nat avail) remaining)))"

partial_function (option) chunk_loop :: "TableSettings \<Rightarrow> bytes \<Rightarrow> writer_state \<Rightarrow> (unit result \<times> writer_state) option" where
  "chunk_loop cfg remaining s =
     (if remaining = [] then Some (Ok (), s)
      else case chunk_round cfg remaining s of
          (Inl e, s) \<Rightarrow> Some (Inl e, s)
        | (Inr remaining, s) \<Rightarrow> chunk_loop cfg remaining s)"

text \<open>\<^verbatim>\<open>addRecordChunked\<close>: the first chunk, then the loop.\<close>

definition first_chunk :: "DataRecord \<Rightarrow> bytes writer_op" where
  "first_chunk rec = (\<lambda>(w, d).
     let avail = available (headerOverhead rec) w in
     if avail \<le> 0 then (Inl (Error ''key too large for data block''), (w, d))
     else if int (length (dr_Value rec)) \<le> avail
     then bind_s (with_builder (Builder_AddRecord rec)) (\<lambda>added.
       if added then ret_s [] else fail_s (Error ''unexpected: record still doesn't fit'')) (w, d)
     else bind_s (with_builder (Builder_AddFirstChunk rec (take (nat avail) (dr_Value rec)))) (\<lambda>added.
       if added then ret_s (drop (nat avail) (dr_Value rec)) else fail_s (Error ''cannot write first chunk'')) (w, d))"

definition addRecordChunked :: "TableSettings \<Rightarrow> DataRecord \<Rightarrow> writer_state \<Rightarrow> (unit result \<times> writer_state) option" where
  "addRecordChunked cfg rec s =
     (case bind_s (if available (headerOverhead rec) (fst s) \<le> 0 then flushDataBlock cfg else ret_s ()) (\<lambda>_. first_chunk rec) s of
        (Inl e, s) \<Rightarrow> Some (Inl e, s)
      | (Inr remaining, s) \<Rightarrow> chunk_loop cfg remaining s)"

section \<open>Adding a record\<close>

definition copied_key :: "bytes \<Rightarrow> bytes option" where
  "copied_key k = (if k = [] then None else Some k)"

definition key_bytes :: "bytes option \<Rightarrow> bytes" where
  "key_bytes k = (case k of None \<Rightarrow> [] | Some k \<Rightarrow> k)"

text \<open>Steps 1 and 2: sequence numbers, keys and key lengths.\<close>

definition note_range :: "DataRecord \<Rightarrow> SSTableWriter \<Rightarrow> SSTableWriter" where
  "note_range rec w =
     (if sw_firstRecord w
      then w\<lparr>sw_minSeqId := dr_SeqId rec, sw_maxSeqId := dr_SeqId rec, sw_minKey := copied_key (dr_Key rec),
             sw_maxKey := copied_key (dr_Key rec), sw_firstRecord := False\<rparr>
      else w\<lparr>sw_minSeqId := min (dr_SeqId rec) (sw_minSeqId w), sw_maxSeqId := max (dr_SeqId rec) (sw_maxSeqId w),
             sw_minKey := (if bytes_Compare (dr_Key rec) (key_bytes (sw_minKey w)) < 0 then copied_key (dr_Key rec) else sw_minKey w),
             sw_maxKey := (if 0 < bytes_Compare (dr_Key rec) (key_bytes (sw_maxKey w)) then copied_key (dr_Key rec) else sw_maxKey w)\<rparr>)"

definition note_key_length :: "DataRecord \<Rightarrow> SSTableWriter \<Rightarrow> SSTableWriter" where
  "note_key_length rec w =
     (let keyLen = (of_nat (length (dr_Key rec)) :: u32)
      in w\<lparr>sw_minKeyLength := min keyLen (sw_minKeyLength w), sw_maxKeyLength := max keyLen (sw_maxKeyLength w)\<rparr>)"

definition add_to_filter :: "DataRecord \<Rightarrow> unit writer_op" where
  "add_to_filter rec = (\<lambda>(w, d). case sw_filterSegment w of
       None \<Rightarrow> (Ok (), (w, d))
     | Some f \<Rightarrow> (case Bloom_Add f (dr_Key rec) of
         Inl e \<Rightarrow> (Inl e, (w, d))
       | Inr f \<Rightarrow> (Ok (), (w\<lparr>sw_filterSegment := Some f\<rparr>, d))))"

definition add_to_ttl :: "TableSettings \<Rightarrow> DataRecord \<Rightarrow> SSTableWriter \<Rightarrow> SSTableWriter" where
  "add_to_ttl cfg rec w =
     (if dr_ExpiresAt rec = 0 then w
      else w\<lparr>sw_ttlIndexSegment := TTLIndexSegment_AddEntryToBlock (sw_ttlIndexSegment w)
             \<lparr>te_Key = dr_Key rec, te_ExpiresAt = dr_ExpiresAt rec\<rparr> (cf_BlockSize cfg)\<rparr>)"

text \<open>Whether the record has been added, after a flush when the block was full.\<close>

definition add_to_block :: "TableSettings \<Rightarrow> DataRecord \<Rightarrow> bool writer_op" where
  "add_to_block cfg rec =
     bind_s (with_builder (Builder_AddRecord rec)) (\<lambda>added.
     if added then ret_s True
     else bind_s (flushDataBlock cfg) (\<lambda>_. with_builder (Builder_AddRecord rec)))"

definition note_record :: "TableSettings \<Rightarrow> DataRecord \<Rightarrow> unit writer_op" where
  "note_record cfg rec =
     bind_s (update_writer (\<lambda>w. note_key_length rec (note_range rec (w\<lparr>sw_recordCount := sw_recordCount w + 1\<rparr>)))) (\<lambda>_.
     bind_s (add_to_filter rec) (\<lambda>_. update_writer (add_to_ttl cfg rec)))"

definition Writer_AddRecord :: "TableSettings \<Rightarrow> DataRecord \<Rightarrow> writer_state \<Rightarrow> (unit result \<times> writer_state) option" where
  "Writer_AddRecord cfg rec s =
     (case bind_s (note_record cfg rec) (\<lambda>_. add_to_block cfg rec) s of
        (Inl e, s) \<Rightarrow> Some (Inl e, s)
      | (Inr True, s) \<Rightarrow> Some (Ok (), s)
      | (Inr False, (w, d)) \<Rightarrow> addRecordChunked cfg rec (w\<lparr>sw_recordCount := sw_recordCount w - 1\<rparr>, d))"

definition AddToRangeDel :: "TableSettings \<Rightarrow> DataRecord \<Rightarrow> SSTableWriter \<Rightarrow> SSTableWriter" where
  "AddToRangeDel cfg rec w =
     w\<lparr>sw_rangeDelIndexSegment := RangeDelIndexSegment_AddEntryToBlock (sw_rangeDelIndexSegment w)
         \<lparr>rd_StartKey = dr_Key rec, rd_EndKey = dr_Value rec, rd_SeqId = dr_SeqId rec\<rparr> (cf_BlockSize cfg)\<rparr>"

section \<open>Finishing the table\<close>

definition finish_index :: "SSTableWriter \<Rightarrow> SSTableWriter" where
  "finish_index w = (if blk_Entries (sw_currentIndexBlock w) = [] then w
     else w\<lparr>sw_indexSegment := IndexSegment_AddBlock (sw_indexSegment w) (sw_currentIndexBlock w)\<rparr>)"

definition build_tree :: "unit writer_op" where
  "build_tree = (\<lambda>(w, d). case Merkle_Build (sw_merkleTree w) of
       Inl e \<Rightarrow> (Inl e, (w, d)) | Inr t \<Rightarrow> (Ok (), (w\<lparr>sw_merkleTree := t\<rparr>, d)))"

definition table_metadata :: "TableSettings \<Rightarrow> SSTableWriter \<Rightarrow> Metadata" where
  "table_metadata cfg w =
     (let m = \<lparr>md_Fields = Map.empty\<rparr>;
          m = SetUint64 m 6 (ucast (sw_currentBlockIndex w));
          m = SetUint64 m 7 (sw_recordCount w);
          m = SetUint64 m 5 (of_nat (bm_blockSize (sw_blockManager w)));
          m = SetUint64 m 8 (of_int (cf_RestartInterval cfg));
          m = SetBytes m 1 (sw_minKey w);
          m = SetBytes m 2 (sw_maxKey w);
          m = SetUint64 m 3 (sw_minSeqId w);
          m = SetUint64 m 4 (sw_maxSeqId w);
          m = SetUint64 m 12 (ucast (sw_minKeyLength w));
          m = SetUint64 m 13 (ucast (sw_maxKeyLength w));
          m = SetByte m 11 0
      in SetByte m 10 (cf_Compression cfg))"

definition set_metadata :: "TableSettings \<Rightarrow> SSTableWriter \<Rightarrow> SSTableWriter" where
  "set_metadata cfg w = w\<lparr>sw_metadataSegment := Some (table_metadata cfg w), sw_footer := (sw_footer w)\<lparr>ft_Format := cf_Format cfg\<rparr>\<rparr>"

definition handler_of :: "nat \<times> nat \<Rightarrow> SegmentHandler" where
  "handler_of place = \<lparr>sh_Offset = of_nat (fst place), sh_Size = of_nat (snd place)\<rparr>"

definition set_footer :: "(Footer \<Rightarrow> Footer) \<Rightarrow> unit writer_op" where
  "set_footer f = update_writer (\<lambda>w. w\<lparr>sw_footer := f (sw_footer w)\<rparr>)"

definition write_filter :: "unit writer_op" where
  "write_filter = (\<lambda>(w, d). case sw_filterSegment w of
       None \<Rightarrow> (Ok (), (w, d))
     | Some f \<Rightarrow> bind_s (write_segment SegmentFilter (FilterSegment_Encode f)) (\<lambda>place.
         set_footer (\<lambda>ft. ft\<lparr>ft_FilterHandler := handler_of place\<rparr>)) (w, d))"

text \<open>
  Steps 5, 7 and 8 write the blocks of an index one after the other; the handler spans from the first to the end of the last.
\<close>

fun write_blocks :: "SegmentType \<Rightarrow> ('b \<Rightarrow> bytes result) \<Rightarrow> 'b list \<Rightarrow> (nat \<times> nat) list writer_op" where
  "write_blocks seg encode [] = ret_s []"
| "write_blocks seg encode (b # bs) =
     bind_s (lift_s (encode b)) (\<lambda>data.
     bind_s (write_segment seg data) (\<lambda>place.
     bind_s (write_blocks seg encode bs) (\<lambda>places. ret_s (place # places))))"

definition handler_over :: "(nat \<times> nat) list \<Rightarrow> SegmentHandler" where
  "handler_over places =
     (if places = [] then zero_handler
      else \<lparr>sh_Offset = of_nat (fst (hd places)),
            sh_Size = of_nat (fst (last places) + snd (last places) - fst (hd places))\<rparr>)"

definition write_index :: "TableSettings \<Rightarrow> u64 list writer_op" where
  "write_index cfg = (\<lambda>(w, d).
     bind_s (write_blocks SegmentIndex (\<lambda>b. EncodeIndexBlock b (of_int (cf_BlockSize cfg))) (is_Blocks (sw_indexSegment w))) (\<lambda>places.
     bind_s (set_footer (\<lambda>ft. ft\<lparr>ft_IndexHandler := handler_over places\<rparr>)) (\<lambda>_.
     ret_s (map (\<lambda>p. of_nat (fst p)) places))) (w, d))"

definition write_summary :: "u64 list \<Rightarrow> writer_state \<Rightarrow> (unit result \<times> writer_state) option" where
  "write_summary indexOffsets = (\<lambda>(w, d).
     if indexOffsets = []
     then Some (bind_s (update_writer (\<lambda>w. w\<lparr>sw_summarySegment := NewSummarySegment 1\<rparr>)) (\<lambda>_.
        set_footer (\<lambda>ft. ft\<lparr>ft_SummaryHandler := zero_handler\<rparr>)) (w, d))
     else map_option (\<lambda>summary.
        bind_s (lift_s summary) (\<lambda>summary.
        bind_s (update_writer (\<lambda>w. w\<lparr>sw_summarySegment := summary\<rparr>)) (\<lambda>_.
        bind_s (lift_s (Summary_Encode summary)) (\<lambda>data.
        bind_s (write_segment SegmentSummary data) (\<lambda>place.
        set_footer (\<lambda>ft. ft\<lparr>ft_SummaryHandler := handler_of place\<rparr>))))) (w, d))
       (BuildSummaryFromIndex indexOffsets (is_Blocks (sw_indexSegment w)) 1))"

definition write_ttl :: "TableSettings \<Rightarrow> unit writer_op" where
  "write_ttl cfg = (\<lambda>(w, d).
     bind_s (write_blocks SegmentTTLIndex (\<lambda>b. TTLIndexBlock_Encode b (of_int (cf_BlockSize cfg))) (ts_Blocks (sw_ttlIndexSegment w))) (\<lambda>places.
     set_footer (\<lambda>ft. ft\<lparr>ft_TTLIndexHandler := handler_over places\<rparr>)) (w, d))"

definition write_rangedel :: "TableSettings \<Rightarrow> unit writer_op" where
  "write_rangedel cfg = (\<lambda>(w, d).
     bind_s (write_blocks SegmentRangeDelIndex (\<lambda>b. RangeDelIndexBlock_Encode b (of_int (cf_BlockSize cfg)))
       (rs_Blocks (sw_rangeDelIndexSegment w))) (\<lambda>places.
     set_footer (\<lambda>ft. ft\<lparr>ft_RangeDelIndexHandler := handler_over places\<rparr>)) (w, d))"

text \<open>Steps 9 and 10 write the tree, the metadata and the dictionary, each with its handler, and the footer.\<close>

definition write_tree :: "unit writer_op" where
  "write_tree = (\<lambda>(w, d).
     bind_s (lift_s (Merkle_Encode (sw_merkleTree w))) (\<lambda>data.
     bind_s (write_segment SegmentMerkleTree data) (\<lambda>place.
     set_footer (\<lambda>ft. ft\<lparr>ft_MerkleHandler := handler_of place\<rparr>))) (w, d))"

definition write_metadata :: "unit writer_op" where
  "write_metadata = (\<lambda>(w, d). case sw_metadataSegment w of
       None \<Rightarrow> (Inl nil_deref, (w, d))
     | Some m \<Rightarrow> bind_s (write_segment SegmentMetadata (Metadata_Encode m)) (\<lambda>place.
         set_footer (\<lambda>ft. ft\<lparr>ft_MetaDataHandler := handler_of place\<rparr>)) (w, d))"

definition write_dictionary :: "unit writer_op" where
  "write_dictionary = (\<lambda>(w, d).
     bind_s (write_segment SegmentDictionary (Adaptive_SaveDict (bb_valueEncoder (sw_dataBlockBuilder w)))) (\<lambda>place.
     set_footer (\<lambda>ft. ft\<lparr>ft_DictionaryHandler := handler_of place\<rparr>)) (w, d))"

definition Footer_WriteToStorage :: "unit writer_op" where
  "Footer_WriteToStorage = (\<lambda>(w, d).
     bind_s (lift_s (Footer_Encode (sw_footer w))) (\<lambda>data. bind_s (write_segment SegmentFooter data) (\<lambda>_. ret_s ())) (w, d))"

definition Writer_Close :: "unit writer_op" where
  "Writer_Close = update_writer (\<lambda>w. w\<lparr>sw_storage := CloseStorage (sw_storage w)\<rparr>)"

definition finish_data :: "TableSettings \<Rightarrow> u64 list writer_op" where
  "finish_data cfg =
     bind_s (flushDataBlock cfg) (\<lambda>_.
     bind_s (update_writer finish_index) (\<lambda>_.
     bind_s build_tree (\<lambda>_.
     bind_s (update_writer (set_metadata cfg)) (\<lambda>_.
     bind_s write_filter (\<lambda>_. write_index cfg)))))"

definition finish_table :: "TableSettings \<Rightarrow> unit writer_op" where
  "finish_table cfg =
     bind_s (write_ttl cfg) (\<lambda>_.
     bind_s (write_rangedel cfg) (\<lambda>_.
     bind_s write_tree (\<lambda>_.
     bind_s write_metadata (\<lambda>_.
     bind_s write_dictionary (\<lambda>_.
     bind_s Footer_WriteToStorage (\<lambda>_. Writer_Close))))))"

definition Finalize :: "TableSettings \<Rightarrow> writer_state \<Rightarrow> (unit result \<times> writer_state) option" where
  "Finalize cfg s =
     (case finish_data cfg s of
        (Inl e, s) \<Rightarrow> Some (Inl e, s)
      | (Inr indexOffsets, s) \<Rightarrow>
          map_option (\<lambda>(r, s). bind_s (lift_s r) (\<lambda>_. finish_table cfg) s) (write_summary indexOffsets s))"

end
