(* ===== verification/Table_Reader.thy ===== *)
theory Table_Reader
  imports Segment_Storage Block_Iterator Summary Metadata Bloom_Filter Fragmenter Merkle
begin

text \<open>
  \<^verbatim>\<open>internal/sstable/reader.go\<close> and the raw iterator of \<^verbatim>\<open>internal/sstable/iterator.go\<close>: opening a table, loading its
  segments, walking its data blocks with the chunks of long values put together, finding a key through summary and
  index, and checking the data blocks against the Merkle tree.

  A reader is a value; the iterator, which points to it in the code, carries it. The block cache is read through the
  reader's storage only. Messages for debugging are left out. Loading the footer's handlers uses exact 64-bit offsets.
\<close>

section \<open>The reader\<close>

abbreviation FieldMinKey :: MetadataFieldID where "FieldMinKey \<equiv> 1"
abbreviation FieldMaxKey :: MetadataFieldID where "FieldMaxKey \<equiv> 2"
abbreviation FieldMinSeqId :: MetadataFieldID where "FieldMinSeqId \<equiv> 3"
abbreviation FieldMaxSeqId :: MetadataFieldID where "FieldMaxSeqId \<equiv> 4"
abbreviation FieldBlockSize :: MetadataFieldID where "FieldBlockSize \<equiv> 5"
abbreviation FieldNumDataBlocks :: MetadataFieldID where "FieldNumDataBlocks \<equiv> 6"
abbreviation FieldTotalRecords :: MetadataFieldID where "FieldTotalRecords \<equiv> 7"
abbreviation FieldRestartInterval :: MetadataFieldID where "FieldRestartInterval \<equiv> 8"
abbreviation FieldCompressionType :: MetadataFieldID where "FieldCompressionType \<equiv> 10"
abbreviation FieldMergeStrategy :: MetadataFieldID where "FieldMergeStrategy \<equiv> 11"
abbreviation FieldMinKeyLength :: MetadataFieldID where "FieldMinKeyLength \<equiv> 12"
abbreviation FieldMaxKeyLength :: MetadataFieldID where "FieldMaxKeyLength \<equiv> 13"

record SSTableReader =
  sr_filePath :: path
  sr_Id :: int
  sr_Layer :: int
  sr_SizeBytes :: nat
  sr_storage :: SegmentStorage
  sr_blockManager :: BlockManager
  sr_footer :: Footer
  sr_Metadata :: Metadata
  sr_SummarySegment :: "SummarySegment option"
  sr_filterSegment :: "BloomFilter option"
  sr_merkleTree :: "MerkleTree option"
  sr_TTLIndexSegment :: TTLIndexSegment
  sr_valueDecoder :: AdaptiveEncoder
  sr_fragmentedRangeDels :: "RangeDelEntry list"
  sr_rangeDelLoaded :: bool

definition read_segment :: "disk \<Rightarrow> SegmentType \<Rightarrow> nat \<Rightarrow> nat \<Rightarrow> (SSTableReader, bytes) op" where
  "read_segment d seg off n r = (case ReadSegment d seg off n (sr_storage r) of (res, st) \<Rightarrow> (res, r\<lparr>sr_storage := st\<rparr>))"

definition read_handler :: "disk \<Rightarrow> SegmentType \<Rightarrow> SegmentHandler \<Rightarrow> (SSTableReader, bytes) op" where
  "read_handler d seg h = read_segment d seg (unat (sh_Offset h)) (unat (sh_Size h))"

definition set_reader :: "(SSTableReader \<Rightarrow> SSTableReader) \<Rightarrow> (SSTableReader, unit) op" where
  "set_reader f r = (Ok (), f r)"

definition get_reader :: "(SSTableReader \<Rightarrow> 'a) \<Rightarrow> (SSTableReader, 'a) op" where
  "get_reader f r = (Ok (f r), r)"

definition loadSummary :: "disk \<Rightarrow> (SSTableReader, unit) op" where
  "loadSummary d =
     bind_s (get_reader sr_footer) (\<lambda>footer.
     bind_s (read_handler d SegmentSummary (ft_SummaryHandler footer)) (\<lambda>data.
     bind_s (lift_s (DecodeSummarySegment data)) (\<lambda>s.
     set_reader (\<lambda>r. r\<lparr>sr_SummarySegment := Some s\<rparr>))))"

text \<open>The blocks of an index segment, one after the other; a block size of zero divides by zero in the storage.\<close>

definition segment_offsets :: "nat \<Rightarrow> nat \<Rightarrow> nat list" where
  "segment_offsets totalSize blockSize = map (\<lambda>i. i * blockSize) [0..<(totalSize + blockSize - 1) div blockSize]"

fun read_blocks :: "disk \<Rightarrow> SegmentType \<Rightarrow> (bytes \<Rightarrow> 'e entry_block result) \<Rightarrow> nat \<Rightarrow> u64 \<Rightarrow> nat list \<Rightarrow> (SSTableReader, 'e list) op" where
  "read_blocks d seg decode blockSize base [] = ret_s []"
| "read_blocks d seg decode blockSize base (off # offs) =
     bind_s (read_segment d seg (unat (base + of_nat off)) blockSize) (\<lambda>buf.
     bind_s (lift_s (decode buf)) (\<lambda>b.
     bind_s (read_blocks d seg decode blockSize base offs) (\<lambda>es.
     ret_s (blk_Entries b @ es))))"

definition read_entries_of :: "disk \<Rightarrow> SegmentType \<Rightarrow> (bytes \<Rightarrow> 'e entry_block result) \<Rightarrow> SegmentHandler \<Rightarrow> (SSTableReader, 'e list) op" where
  "read_entries_of d seg decode h =
     (if sh_Size h = 0 then ret_s []
      else bind_s (get_reader (\<lambda>r. bm_blockSize (sr_blockManager r))) (\<lambda>blockSize.
        if blockSize = 0 then fail_s (Panic ''integer divide by zero'')
        else read_blocks d seg decode blockSize (sh_Offset h) (segment_offsets (unat (sh_Size h)) blockSize)))"

definition GetTTLEntries :: "disk \<Rightarrow> (SSTableReader, TTLEntry list) op" where
  "GetTTLEntries d = bind_s (get_reader sr_footer) (\<lambda>footer.
     read_entries_of d SegmentTTLIndex DecodeTTLIndexBlock (ft_TTLIndexHandler footer))"

definition GetRangeDelEntries :: "disk \<Rightarrow> (SSTableReader, RangeDelEntry list) op" where
  "GetRangeDelEntries d = bind_s (get_reader sr_footer) (\<lambda>footer.
     read_entries_of d SegmentRangeDelIndex DecodeRangeDelIndexBlock (ft_RangeDelIndexHandler footer))"

definition LoadRangeDels :: "disk \<Rightarrow> (SSTableReader, unit) op" where
  "LoadRangeDels d =
     bind_s (get_reader (\<lambda>r. (sr_rangeDelLoaded r, sh_Size (ft_RangeDelIndexHandler (sr_footer r)) = 0))) (\<lambda>(loaded, none).
     if loaded then ret_s ()
     else bind_s (set_reader (\<lambda>r. r\<lparr>sr_rangeDelLoaded := True\<rparr>)) (\<lambda>_.
       if none then ret_s ()
       else bind_s (GetRangeDelEntries d) (\<lambda>es.
         set_reader (\<lambda>r. r\<lparr>sr_fragmentedRangeDels := FragmentRangeTombstones es\<rparr>))))"

definition Reader_IsCoveredByRangeDel :: "bytes \<Rightarrow> u64 \<Rightarrow> SSTableReader \<Rightarrow> bool" where
  "Reader_IsCoveredByRangeDel key keySeqId r = IsCoveredByRangeTombstone (sr_fragmentedRangeDels r) key keySeqId"

definition loadFilter :: "disk \<Rightarrow> (SSTableReader, unit) op" where
  "loadFilter d =
     bind_s (get_reader (\<lambda>r. ft_FilterHandler (sr_footer r))) (\<lambda>h.
     if sh_Size h = 0 then fail_s (Error ''no filter segment'')
     else bind_s (read_handler d SegmentFilter h) (\<lambda>data.
       bind_s (lift_s (DecodeFilterSegment data)) (\<lambda>f.
       set_reader (\<lambda>r. r\<lparr>sr_filterSegment := Some f\<rparr>))))"

definition loadMerkleTree :: "disk \<Rightarrow> (SSTableReader, unit) op" where
  "loadMerkleTree d =
     bind_s (get_reader (\<lambda>r. ft_MerkleHandler (sr_footer r))) (\<lambda>h.
     bind_s (read_handler d SegmentMerkleTree h) (\<lambda>data.
     bind_s (lift_s (Merkle_Decode data)) (\<lambda>t.
     set_reader (\<lambda>r. r\<lparr>sr_merkleTree := Some t\<rparr>))))"

definition loadIndexBlock :: "disk \<Rightarrow> int \<Rightarrow> (SSTableReader, IndexBlock) op" where
  "loadIndexBlock d blockNumber =
     bind_s (get_reader (\<lambda>r. (sh_Offset (ft_IndexHandler (sr_footer r)), bm_blockSize (sr_blockManager r)))) (\<lambda>(base, size).
     bind_s (read_segment d SegmentIndex (unat (base + of_int blockNumber * of_nat size)) size) (\<lambda>data.
     lift_s (DecodeIndexBlock data)))"

definition loadDictionary :: "disk \<Rightarrow> (SSTableReader, unit) op" where
  "loadDictionary d =
     bind_s (get_reader (\<lambda>r. ft_DictionaryHandler (sr_footer r))) (\<lambda>h.
     if sh_Size h = 0 then set_reader (\<lambda>r. r\<lparr>sr_valueDecoder := NewAdaptiveDictEncoderFrequency 2 5\<rparr>)
     else bind_s (read_handler d SegmentDictionary h) (\<lambda>data.
       case ReadDictionary data (NewAdaptiveDictEncoderFrequency 2 5) of
         (Inl e, _) \<Rightarrow> fail_s e
       | (Inr _, dec) \<Rightarrow> set_reader (\<lambda>r. r\<lparr>sr_valueDecoder := dec\<rparr>)))"

text \<open>
  \<^verbatim>\<open>NewSSTableReader\<close>. The error of \<^verbatim>\<open>footer.Decode\<close> is not looked at; the block manager is made for the size in the
  metadata, with the process-wide cache \<open>cache\<close>.
\<close>

definition table_size :: "disk \<Rightarrow> byte \<Rightarrow> path \<Rightarrow> nat result" where
  "table_size d format filePath =
     (case d (if format = FormatSingleFile then filePath else filePath @ ''.data'') of
        None \<Rightarrow> Inl (Error ''failed to stat file'')
      | Some c \<Rightarrow> Ok (length c))"

definition open_format :: "byte \<Rightarrow> path \<Rightarrow> disk \<Rightarrow> SegmentStorage result" where
  "open_format format filePath d =
     (if format = FormatSingleFile \<or> format = FormatMultiFile then OpenStorage format filePath d
      else Inl (Error ''unsupported format''))"

definition footer_offset :: "byte \<Rightarrow> nat \<Rightarrow> u64" where
  "footer_offset format fileSize = (if format = FormatSingleFile then of_nat fileSize - of_nat FooterSize else 0)"

definition NewSSTableReader :: "(BlockKey, bytes) lru \<Rightarrow> int \<Rightarrow> path \<Rightarrow> byte \<Rightarrow> int \<Rightarrow> disk \<Rightarrow> SSTableReader result" where
  "NewSSTableReader cache i filePath format layer d =
     bind_r (open_format format filePath d) (\<lambda>st.
     bind_r (table_size d format filePath) (\<lambda>fileSize.
     case ReadSegment d SegmentFooter (unat (footer_offset format fileSize)) FooterSize st of (footerData, st) \<Rightarrow>
     bind_r footerData (\<lambda>footerData.
     let footer = snd (Footer_Decode footerData ((NewFooter 0)\<lparr>ft_Version := 0, ft_MagicNumber := 0\<rparr>)) in
     bind_r (Footer_Validate footer) (\<lambda>_.
     case ReadSegment d SegmentMetadata (unat (sh_Offset (ft_MetaDataHandler footer))) (unat (sh_Size (ft_MetaDataHandler footer))) st of
       (metaData, st) \<Rightarrow>
     bind_r metaData (\<lambda>metaData.
     bind_r (Metadata_Decode metaData) (\<lambda>meta.
     let blockSize = fst (GetUint64 meta FieldBlockSize);
         bm = \<lparr>bm_blockSize = unat blockSize, bm_cache = cache\<rparr>;
         reader = \<lparr>sr_filePath = filePath, sr_Id = i, sr_Layer = layer, sr_SizeBytes = fileSize,
           sr_storage = SetBlockManager bm st, sr_blockManager = bm, sr_footer = footer, sr_Metadata = meta,
           sr_SummarySegment = None, sr_filterSegment = None, sr_merkleTree = None,
           sr_TTLIndexSegment = NewTTLIndexSegment blockSize, sr_valueDecoder = NewAdaptiveDictEncoderFrequency 2 5,
           sr_fragmentedRangeDels = [], sr_rangeDelLoaded = False\<rparr>
     in bind_r (caught (loadFilter d reader)) (\<lambda>(_, reader).
        case loadDictionary d reader of
          (Inl e, _) \<Rightarrow> Inl e
        | (Inr _, reader) \<Rightarrow> Ok reader)))))))"

definition OverlapsRange :: "bytes \<Rightarrow> bytes \<Rightarrow> SSTableReader \<Rightarrow> bool" where
  "OverlapsRange start stop r =
     (if sr_SummarySegment r = None then True
      else
        let key = (\<lambda>f. case GetBytes (sr_Metadata r) f of None \<Rightarrow> [] | Some k \<Rightarrow> k);
            minKey = key FieldMinKey; maxKey = key FieldMaxKey
        in if minKey = [] \<or> maxKey = [] then True
           else if stop \<noteq> [] \<and> 0 < bytes_Compare minKey stop then False
           else if start \<noteq> [] \<and> bytes_Compare maxKey start < 0 then False
           else True)"

section \<open>The data blocks\<close>

record sstableBlockSource =
  so_reader :: SSTableReader
  so_numBlocks :: int
  so_blockSize :: nat
  so_blockCache :: "int \<rightharpoonup> bytes"

definition newSSTableBlockSource :: "SSTableReader \<Rightarrow> sstableBlockSource" where
  "newSSTableBlockSource reader =
     \<lparr>so_reader = reader, so_numBlocks = u64_int (fst (GetUint64 (sr_Metadata reader) FieldNumDataBlocks)),
      so_blockSize = bm_blockSize (sr_blockManager reader), so_blockCache = Map.empty\<rparr>"

definition data_path :: "disk \<Rightarrow> SSTableReader \<Rightarrow> path" where
  "data_path d r = (if d (sr_filePath r @ ''.data'') \<noteq> None then sr_filePath r @ ''.data'' else sr_filePath r)"

definition loadBlock :: "disk \<Rightarrow> int \<Rightarrow> (sstableBlockSource, bytes) op" where
  "loadBlock d n s =
     (case so_blockCache s n of
        Some data \<Rightarrow> (Ok data, s)
      | None \<Rightarrow>
          let r = so_reader s in
          case ReadNoCache (sr_blockManager r) d (NewBlockKey (data_path d r) (unat (of_int n :: u32))) of
            Inl e \<Rightarrow> (Inl e, s)
          | Inr data \<Rightarrow> (Ok data, s\<lparr>so_blockCache := (so_blockCache s)(n \<mapsto> data)\<rparr>))"

definition blockIteratorRaw :: "disk \<Rightarrow> int \<Rightarrow> (sstableBlockSource, DataBlockIteratorRaw) op" where
  "blockIteratorRaw d n =
     bind_s (loadBlock d n) (\<lambda>data s.
       (NewDataBlockIteratorRaw data (u64_int (fst (GetUint64 (sr_Metadata (so_reader s)) FieldRestartInterval)))
          PrefixCompression (sr_valueDecoder (so_reader s)), s))"

section \<open>The raw iterator of a table\<close>

record SSTableIteratorRaw =
  ti_src :: sstableBlockSource
  ti_blockIdx :: int
  ti_blockIter :: "DataBlockIteratorRaw option"
  ti_current :: "DataRecord option"
  ti_valid :: bool

text \<open>The loop to the first block from \<open>idx\<close> on that has a record; a block that cannot be opened is skipped.\<close>

function first_block :: "disk \<Rightarrow> int \<Rightarrow> int \<Rightarrow> sstableBlockSource \<Rightarrow>
    (int \<times> DataBlockIteratorRaw option \<times> sstableBlockSource) result" where
  "first_block d n idx src =
     (if idx < n then
        bind_r (caught (blockIteratorRaw d idx src)) (\<lambda>(bi, src).
        case bi of
          None \<Rightarrow> first_block d n (idx + 1) src
        | Some bi \<Rightarrow> bind_r (Block_SeekToFirst bi) (\<lambda>bi.
            if bi_valid bi then Ok (idx, Some bi, src) else first_block d n (idx + 1) src))
      else Ok (idx, None, src))"
  by pat_completeness auto
termination by (relation "measure (\<lambda>(d, n, idx, src). nat (n - idx))") auto

declare first_block.simps [simp del]

definition from_block :: "disk \<Rightarrow> int \<Rightarrow> SSTableIteratorRaw \<Rightarrow> (DataBlockIteratorRaw option \<times> SSTableIteratorRaw) result" where
  "from_block d idx it =
     bind_r (first_block d (so_numBlocks (ti_src it)) idx (ti_src it)) (\<lambda>(idx, bi, src).
     Ok (bi, it\<lparr>ti_blockIdx := idx, ti_src := src, ti_blockIter := (if bi = None then ti_blockIter it else bi)\<rparr>))"

definition lost :: "SSTableIteratorRaw \<Rightarrow> SSTableIteratorRaw" where
  "lost it = it\<lparr>ti_current := None, ti_valid := False\<rparr>"

text \<open>One step of \<^verbatim>\<open>reassembleChunks\<close>: the next record of the table, or nothing at its end.\<close>

definition next_chunk :: "disk \<Rightarrow> SSTableIteratorRaw \<Rightarrow> (DataRecord option \<times> SSTableIteratorRaw) result" where
  "next_chunk d it =
     (case ti_blockIter it of
        None \<Rightarrow> Inl nil_deref
      | Some bi \<Rightarrow> bind_r (Block_Next bi) (\<lambda>bi.
          let it = it\<lparr>ti_blockIter := Some bi\<rparr> in
          bind_r (if bi_valid bi then Ok (Some bi, it) else from_block d (ti_blockIdx it + 1) it) (\<lambda>(bi, it).
          case bi of
            None \<Rightarrow> Ok (None, it)
          | Some bi \<Rightarrow> bind_r (Block_Key bi) (\<lambda>chunk. Ok (Some chunk, it)))))"

partial_function (option) assemble :: "disk \<Rightarrow> DataRecord \<Rightarrow> SSTableIteratorRaw \<Rightarrow> SSTableIteratorRaw result option" where
  "assemble d assembled it =
     (case next_chunk d it of
        Inl p \<Rightarrow> Some (Inl p)
      | Inr (None, it) \<Rightarrow> Some (Ok (lost it))
      | Inr (Some chunk, it) \<Rightarrow>
          let assembled = assembled\<lparr>dr_Value := dr_Value assembled @ dr_Value chunk\<rparr> in
          if dr_ChunkType chunk = ChunkTypeLast
          then Some (Ok (it\<lparr>ti_current := Some (assembled\<lparr>dr_ChunkType := ChunkTypeFull\<rparr>)\<rparr>))
          else if dr_ChunkType chunk \<noteq> ChunkTypeMiddle then Some (Ok (lost it))
          else assemble d assembled it)"

definition reassembleChunks :: "disk \<Rightarrow> SSTableIteratorRaw \<Rightarrow> SSTableIteratorRaw result option" where
  "reassembleChunks d it =
     (case ti_current it of
        None \<Rightarrow> Some (Ok it)
      | Some rec \<Rightarrow> if dr_ChunkType rec \<noteq> ChunkTypeFirst then Some (Ok it) else assemble d rec it)"

text \<open>Standing on the record of the block iterator.\<close>

definition take_current :: "disk \<Rightarrow> DataBlockIteratorRaw \<Rightarrow> SSTableIteratorRaw \<Rightarrow> SSTableIteratorRaw result option" where
  "take_current d bi it =
     (case Block_Key bi of
        Inl p \<Rightarrow> Some (Inl p)
      | Inr rec \<Rightarrow> reassembleChunks d (it\<lparr>ti_blockIter := Some bi, ti_current := Some rec, ti_valid := True\<rparr>))"

definition advanceBlock :: "disk \<Rightarrow> SSTableIteratorRaw \<Rightarrow> SSTableIteratorRaw result option" where
  "advanceBlock d it =
     (case from_block d (ti_blockIdx it) it of
        Inl p \<Rightarrow> Some (Inl p)
      | Inr (None, it) \<Rightarrow> Some (Ok (lost it))
      | Inr (Some bi, it) \<Rightarrow> take_current d bi it)"

definition Table_SeekToFirst :: "disk \<Rightarrow> SSTableIteratorRaw \<Rightarrow> SSTableIteratorRaw result option" where
  "Table_SeekToFirst d it = advanceBlock d (it\<lparr>ti_blockIdx := 0, ti_blockIter := None, ti_valid := False\<rparr>)"

definition NewSSTableIteratorRaw :: "disk \<Rightarrow> SSTableReader \<Rightarrow> SSTableIteratorRaw result option" where
  "NewSSTableIteratorRaw d reader =
     Table_SeekToFirst d \<lparr>ti_src = newSSTableBlockSource reader, ti_blockIdx = 0, ti_blockIter = None, ti_current = None,
       ti_valid = False\<rparr>"

definition Table_Next :: "disk \<Rightarrow> SSTableIteratorRaw \<Rightarrow> SSTableIteratorRaw result option" where
  "Table_Next d it =
     (if \<not> ti_valid it then Some (Ok it)
      else case ti_blockIter it of
          None \<Rightarrow> Some (Inl nil_deref)
        | Some bi \<Rightarrow>
            (case Block_Next bi of
               Inl p \<Rightarrow> Some (Inl p)
             | Inr bi \<Rightarrow>
                 if bi_valid bi then take_current d bi it
                 else case from_block d (ti_blockIdx it + 1) (it\<lparr>ti_blockIter := Some bi\<rparr>) of
                     Inl p \<Rightarrow> Some (Inl p)
                   | Inr (None, it) \<Rightarrow> Some (Ok ((lost it)\<lparr>ti_blockIter := None\<rparr>))
                   | Inr (Some bi, it) \<Rightarrow> take_current d bi it))"

definition Table_Key :: "SSTableIteratorRaw \<Rightarrow> DataRecord result" where
  "Table_Key it = (case ti_current it of None \<Rightarrow> Inl nil_deref | Some rec \<Rightarrow> Ok rec)"

definition invalid :: "SSTableIteratorRaw \<Rightarrow> SSTableIteratorRaw result option" where
  "invalid it = Some (Ok (it\<lparr>ti_valid := False\<rparr>))"

definition with_reader :: "SSTableReader \<Rightarrow> SSTableIteratorRaw \<Rightarrow> SSTableIteratorRaw" where
  "with_reader r it = it\<lparr>ti_src := (ti_src it)\<lparr>so_reader := r\<rparr>\<rparr>"

text \<open>The number of the data block that the summary and the index give for a key, or nothing when they cannot be read.\<close>

definition find_data_block :: "disk \<Rightarrow> bytes \<Rightarrow> (SSTableReader, u32) op" where
  "find_data_block d key =
     bind_s (get_reader sr_SummarySegment) (\<lambda>loaded.
     bind_s (if loaded = None then loadSummary d else ret_s ()) (\<lambda>_.
     bind_s (get_reader sr_SummarySegment) (\<lambda>s.
     case s of
       None \<Rightarrow> fail_s nil_deref
     | Some s \<Rightarrow>
         let indexBlockNum = FindIndexBlockNumber s key in
         if indexBlockNum < 0 then fail_s (Error ''no index block'')
         else bind_s (loadIndexBlock d indexBlockNum) (\<lambda>indexBlock.
           let entryIdx = FindBlock indexBlock key in
           if entryIdx < 0 then fail_s (Error ''no entry'')
           else if int (length (blk_Entries indexBlock)) \<le> entryIdx then fail_s (Panic ''index out of range'')
           else ret_s (ie_BlockIndex (blk_Entries indexBlock ! nat entryIdx))))))"

definition Table_Seek :: "disk \<Rightarrow> bytes \<Rightarrow> SSTableIteratorRaw \<Rightarrow> SSTableIteratorRaw result option" where
  "Table_Seek d key it =
     (case caught (find_data_block d key (so_reader (ti_src it))) of
        Inl p \<Rightarrow> Some (Inl p)
      | Inr (None, r) \<Rightarrow> invalid (with_reader r it)
      | Inr (Some dataBlockIdx, r) \<Rightarrow>
          let it = with_reader r it in
          case caught (blockIteratorRaw d (uint dataBlockIdx) (ti_src it)) of
            Inl p \<Rightarrow> Some (Inl p)
          | Inr (None, src) \<Rightarrow> invalid (it\<lparr>ti_src := src\<rparr>)
          | Inr (Some bi, src) \<Rightarrow>
              Option.bind (Block_Seek key bi) (\<lambda>res.
              case res of
                Inl p \<Rightarrow> Some (Inl p)
              | Inr bi \<Rightarrow>
                  let it = it\<lparr>ti_src := src, ti_blockIdx := uint dataBlockIdx, ti_blockIter := Some bi\<rparr> in
                  if bi_valid bi then take_current d bi it
                  else advanceBlock d (it\<lparr>ti_blockIdx := uint dataBlockIdx + 1\<rparr>)))"

text \<open>\<^verbatim>\<open>SeekToLast\<close> looks through the blocks from the last one; \<open>Suc n\<close> is the number of blocks left.\<close>

fun last_block :: "disk \<Rightarrow> nat \<Rightarrow> sstableBlockSource \<Rightarrow> ((nat \<times> DataBlockIteratorRaw) option \<times> sstableBlockSource) result option" where
  "last_block d 0 src = Some (Ok (None, src))"
| "last_block d (Suc n) src =
     (case caught (blockIteratorRaw d (int n) src) of
        Inl p \<Rightarrow> Some (Inl p)
      | Inr (None, src) \<Rightarrow> last_block d n src
      | Inr (Some bi, src) \<Rightarrow> Option.bind (Block_SeekToLast bi) (\<lambda>res.
          case res of
            Inl p \<Rightarrow> Some (Inl p)
          | Inr bi \<Rightarrow> if bi_valid bi then Some (Ok (Some (n, bi), src)) else last_block d n src))"

definition Table_SeekToLast :: "disk \<Rightarrow> SSTableIteratorRaw \<Rightarrow> SSTableIteratorRaw result option" where
  "Table_SeekToLast d it =
     Option.bind (last_block d (nat (so_numBlocks (ti_src it))) (ti_src it)) (\<lambda>res.
     case res of
       Inl p \<Rightarrow> Some (Inl p)
     | Inr (None, src) \<Rightarrow> invalid (it\<lparr>ti_src := src\<rparr>)
     | Inr (Some (n, bi), src) \<Rightarrow> take_current d bi (it\<lparr>ti_src := src, ti_blockIdx := int n\<rparr>))"

definition table_methods :: "disk \<Rightarrow> (SSTableIteratorRaw, DataRecord) Iterator" where
  "table_methods d = \<lparr>Valid = ti_valid, SeekToFirst = (\<lambda>it. returned (Table_SeekToFirst d it)),
     Seek = (\<lambda>target it. returned (Table_Seek d (dr_Key target) it)), Next = (\<lambda>it. returned (Table_Next d it)),
     Key = (\<lambda>it. the (ti_current it))\<rparr>"

section \<open>Reading a key, checking a table\<close>

definition stored_key :: "u16 \<Rightarrow> SSTableReader \<Rightarrow> bytes" where
  "stored_key f r = (case GetBytes (sr_Metadata r) f of None \<Rightarrow> [] | Some k \<Rightarrow> k)"

definition might_contain :: "bytes \<Rightarrow> SSTableReader \<Rightarrow> bool result" where
  "might_contain key r = (case sr_filterSegment r of None \<Rightarrow> Ok True | Some f \<Rightarrow> MightContain f key)"

definition load_for_get :: "disk \<Rightarrow> (SSTableReader, unit) op" where
  "load_for_get d = bind_s (loadSummary d) (\<lambda>_. bind_s (loadMerkleTree d) (\<lambda>_. loadDictionary d))"

definition found_record :: "disk \<Rightarrow> bytes \<Rightarrow> SSTableIteratorRaw \<Rightarrow> DataRecord option result \<times> SSTableReader" where
  "found_record d key it =
     (let r = so_reader (ti_src it) in
      if \<not> ti_valid it then (Ok None, r)
      else case Table_Key it of
          Inl p \<Rightarrow> (Inl p, r)
        | Inr rec \<Rightarrow>
            if dr_Key rec \<noteq> key then (Ok None, r)
            else bind_s (GetRangeDelEntries d) (\<lambda>es.
              bind_s (set_reader (\<lambda>r. r\<lparr>sr_fragmentedRangeDels := FragmentRangeTombstones es\<rparr>)) (\<lambda>_.
              bind_s (get_reader (Reader_IsCoveredByRangeDel key (dr_SeqId rec))) (\<lambda>covered.
              ret_s (if covered then None else Some (rec\<lparr>dr_ChunkType := 0\<rparr>))))) r)"

definition Table_Get :: "disk \<Rightarrow> bytes \<Rightarrow> SSTableReader \<Rightarrow> (DataRecord option result \<times> SSTableReader) option" where
  "Table_Get d key r =
     (case might_contain key r of
        Inl e \<Rightarrow> Some (Inl e, r)
      | Inr False \<Rightarrow> Some (Ok None, r)
      | Inr True \<Rightarrow>
          if 0 < bytes_Compare (stored_key FieldMinKey r) key \<or> bytes_Compare (stored_key FieldMaxKey r) key < 0
          then Some (Ok None, r)
          else case load_for_get d r of
              (Inl e, r) \<Rightarrow> Some (Inl e, r)
            | (Inr _, r) \<Rightarrow>
                Option.bind (NewSSTableIteratorRaw d r) (\<lambda>res.
                case res of
                  Inl p \<Rightarrow> Some (Inl p, r)
                | Inr it \<Rightarrow> Option.bind (Table_Seek d key it) (\<lambda>res.
                    case res of
                      Inl p \<Rightarrow> Some (Inl p, r)
                    | Inr it \<Rightarrow> Some (found_record d key it))))"

fun block_hashes :: "disk \<Rightarrow> nat \<Rightarrow> nat list \<Rightarrow> (SSTableReader, bytes list) op" where
  "block_hashes d blockSize [] = ret_s []"
| "block_hashes d blockSize (i # js) =
     bind_s (read_segment d SegmentData (i * blockSize) blockSize) (\<lambda>data.
     bind_s (block_hashes d blockSize js) (\<lambda>hs. ret_s (HashDataBlock data # hs)))"

definition Table_Validate :: "disk \<Rightarrow> (SSTableReader, ValidationResult) op" where
  "Table_Validate d =
     bind_s (loadMerkleTree d) (\<lambda>_.
     bind_s (get_reader sr_merkleTree) (\<lambda>t.
     case t of
       None \<Rightarrow> fail_s (Error ''no merkle tree in this SSTable'')
     | Some t \<Rightarrow>
         bind_s (get_reader (\<lambda>r. bm_blockSize (sr_blockManager r))) (\<lambda>blockSize.
         bind_s (block_hashes d blockSize [0..<unat (mk_NumDataBlocks t)]) (\<lambda>hs.
         lift_s (Merkle_Verify hs t)))))"

end
