(* ===== verification/Table_Iterator.thy ===== *)
theory Table_Iterator
  imports Table_Reader
begin

text \<open>
  The raw iterator of a table walks the items of its data blocks and puts the chunks of long values together: over a table
  whose blocks hold the chunks of a list of records it returns these records in order. \<open>source_over\<close> says that the blocks a
  source loads are the blocks \<open>T\<close>, \<open>stored_as\<close> that a list of items is what the writer makes of a list of records.
\<close>

section \<open>How records are stored\<close>

fun cont_items :: "bytes list \<Rightarrow> block_item list" where
  "cont_items [] = []"
| "cont_items [v] = [Cont ChunkTypeLast v]"
| "cont_items (v # w # vs) = Cont ChunkTypeMiddle v # cont_items (w # vs)"

lemma cont_items_Nil [simp]: "cont_items vs = [] \<longleftrightarrow> vs = []"
  by (cases vs rule: cont_items.cases) auto

definition full :: "DataRecord \<Rightarrow> DataRecord" where
  "full rec = rec\<lparr>dr_ChunkType := ChunkTypeFull\<rparr>"

text \<open>The items of one record: a whole one, or a first chunk and what follows it.\<close>

inductive record_items :: "DataRecord \<Rightarrow> block_item list \<Rightarrow> bool" where
  whole: "record_items rec [Keyed (full rec) stored flag]"
| chunks: "vs \<noteq> [] \<Longrightarrow> dr_Value rec = v @ concat vs \<Longrightarrow>
    record_items rec (Keyed (rec\<lparr>dr_ChunkType := ChunkTypeFirst, dr_Value := v\<rparr>) v False # cont_items vs)"

inductive stored_as :: "DataRecord list \<Rightarrow> block_item list \<Rightarrow> bool" where
  stored_Nil: "stored_as [] []"
| stored_Cons: "record_items r ys \<Longrightarrow> stored_as rs zs \<Longrightarrow> stored_as (r # rs) (ys @ zs)"

inductive_cases stored_ConsE: "stored_as (r # rs) zs"
inductive_cases stored_NilE: "stored_as [] zs"

lemma stored_as_append: "stored_as rs ys \<Longrightarrow> stored_as rs' zs \<Longrightarrow> stored_as (rs @ rs') (ys @ zs)"
  by (induction rs ys rule: stored_as.induct) (auto intro: stored_Cons)

lemma stored_as_single: "record_items r ys \<Longrightarrow> stored_as [r] ys"
  using stored_Cons [OF _ stored_Nil, of r ys] by simp

section \<open>The blocks a source loads\<close>

type_synonym table_blocks = "(DataBlockBuilder \<times> block_item list) list"

abbreviation source_interval :: "sstableBlockSource \<Rightarrow> int" where
  "source_interval src \<equiv> u64_int (fst (GetUint64 (sr_Metadata (so_reader src)) FieldRestartInterval))"

definition good_block :: "AdaptiveEncoder \<Rightarrow> DataBlockBuilder \<times> block_item list \<Rightarrow> bool" where
  "good_block dec = (\<lambda>(b, xs). complete b xs dec \<and> xs \<noteq> [])"

definition loads :: "disk \<Rightarrow> sstableBlockSource \<Rightarrow> nat \<Rightarrow> DataBlockBuilder \<times> block_item list \<Rightarrow> bool" where
  "loads d src i = (\<lambda>(b, xs). \<exists>data. fst (loadBlock d (int i) src) = Ok data \<and>
     NewDataBlockReader data (source_interval src) PrefixCompression (sr_valueDecoder (so_reader src)) =
       Ok (opened b xs (sr_valueDecoder (so_reader src))))"

definition source_over :: "disk \<Rightarrow> table_blocks \<Rightarrow> sstableBlockSource \<Rightarrow> bool" where
  "source_over d T src \<longleftrightarrow> so_numBlocks src = int (length T) \<and>
     list_all (good_block (sr_valueDecoder (so_reader src))) T \<and> (\<forall>i < length T. loads d src i (T ! i))"

abbreviation source_dec :: "sstableBlockSource \<Rightarrow> AdaptiveEncoder" where
  "source_dec src \<equiv> sr_valueDecoder (so_reader src)"

lemma loadBlock_keeps:
  assumes "loadBlock d j src = (r, src')"
  shows "so_reader src' = so_reader src" "so_numBlocks src' = so_numBlocks src" "fst (loadBlock d i src') = fst (loadBlock d i src)"
  using assms by (auto simp: loadBlock_def Let_def split: option.splits sum.splits if_splits)

lemma source_over_load:
  assumes "source_over d T src" "loadBlock d j src = (r, src')"
  shows "source_over d T src'" "source_dec src' = source_dec src"
proof -
  note k = loadBlock_keeps [OF assms(2)]
  show "source_dec src' = source_dec src" by (simp add: k(1))
  have "loads d src' i x = loads d src i x" for i x by (simp add: loads_def k(1,3))
  with assms(1) show "source_over d T src'" by (simp add: source_over_def k(1,2))
qed

lemma source_block:
  assumes s: "source_over d T src" and i: "i < length T" and T: "T ! i = (b, xs)"
  obtains bi src' where "blockIteratorRaw d (int i) src = (Ok bi, src')" "source_over d T src'" "source_dec src' = source_dec src"
    "complete b xs (source_dec src)" "xs \<noteq> []" "stands b xs (source_dec src) (length xs) bi"
proof -
  have g: "complete b xs (source_dec src)" "xs \<noteq> []"
    using s i T by (auto simp: source_over_def list_all_length good_block_def)
  have "loads d src i (b, xs)" using s i T by (auto simp: source_over_def)
  then obtain data where l: "fst (loadBlock d (int i) src) = Ok data"
    "NewDataBlockReader data (source_interval src) PrefixCompression (source_dec src) = Ok (opened b xs (source_dec src))"
    by (auto simp: loads_def)
  obtain src' where l': "loadBlock d (int i) src = (Ok data, src')" using l(1) by (cases "loadBlock d (int i) src") auto
  let ?bi = "\<lparr>bi_reader = opened b xs (source_dec src), bi_current = None, bi_valid = False\<rparr>"
  have "blockIteratorRaw d (int i) src = (Ok ?bi, src')"
    using l(2) l' loadBlock_keeps(1) [OF l'] by (simp add: blockIteratorRaw_def NewDataBlockIteratorRaw_def)
  moreover have "stands b xs (source_dec src) (length xs) ?bi"
    using ready_opened [OF g(1)] by (auto simp: stands_def)
  ultimately show thesis using that [of ?bi src'] g source_over_load [OF s l'] by simp
qed

section \<open>Positions\<close>

definition at_item :: "disk \<Rightarrow> table_blocks \<Rightarrow> SSTableIteratorRaw \<Rightarrow> nat \<Rightarrow> nat \<Rightarrow> bool" where
  "at_item d T it k m \<longleftrightarrow> source_over d T (ti_src it) \<and> k < length T \<and> ti_blockIdx it = int k \<and> m < length (snd (T ! k)) \<and>
     (\<exists>bi. ti_blockIter it = Some bi \<and> stands (fst (T ! k)) (snd (T ! k)) (source_dec (ti_src it)) m bi)"

definition on_item :: "disk \<Rightarrow> table_blocks \<Rightarrow> SSTableIteratorRaw \<Rightarrow> block_item \<Rightarrow> block_item list \<Rightarrow> bool" where
  "on_item d T it x ys \<longleftrightarrow> (\<exists>k m. at_item d T it k m \<and> x = snd (T ! k) ! m \<and>
     ys = drop (Suc m) (snd (T ! k)) @ concat (map snd (drop (Suc k) T)))"

lemma on_item_current:
  "on_item d T it x ys \<Longrightarrow> on_item d T (it\<lparr>ti_current := c, ti_valid := v\<rparr>) x ys"
  "on_item d T it x ys \<Longrightarrow> on_item d T (it\<lparr>ti_current := c\<rparr>) x ys"
  by (simp_all add: on_item_def at_item_def)

lemma on_item_source: "on_item d T it x ys \<Longrightarrow> source_over d T (ti_src it)"
  by (auto simp: on_item_def at_item_def)

text \<open>Going to the start of a block.\<close>

lemma from_block_at:
  assumes s: "source_over d T (ti_src it)" and k: "k \<le> length T"
  shows "k = length T \<Longrightarrow> from_block d (int k) it = Ok (None, it\<lparr>ti_blockIdx := int k\<rparr>)"
    and "k < length T \<Longrightarrow> \<exists>bi it'. from_block d (int k) it = Ok (Some bi, it') \<and> bi_valid bi \<and>
      bi_current bi = Some (item_record (hd (snd (T ! k)))) \<and> on_item d T it' (hd (snd (T ! k))) (tl (snd (T ! k)) @ concat (map snd (drop (Suc k) T))) \<and>
      ti_blockIter it' = Some bi \<and> ti_current it' = ti_current it \<and> ti_valid it' = ti_valid it"
proof -
  have n: "so_numBlocks (ti_src it) = int (length T)" using s by (simp add: source_over_def)
  show "k = length T \<Longrightarrow> from_block d (int k) it = Ok (None, it\<lparr>ti_blockIdx := int k\<rparr>)"
    by (simp add: from_block_def n first_block.simps [of d])
  assume k: "k < length T"
  obtain b xs where T: "T ! k = (b, xs)" by fastforce
  from source_block [OF s k T] obtain bi0 src where
    bi0: "blockIteratorRaw d (int k) (ti_src it) = (Ok bi0, src)" "source_over d T src" "source_dec src = source_dec (ti_src it)"
    and c: "complete b xs (source_dec (ti_src it))" and ne: "xs \<noteq> []"
    and st: "stands b xs (source_dec (ti_src it)) (length xs) bi0" by metis
  from SeekToFirst_stands [OF c st] obtain bi where bi: "Block_SeekToFirst bi0 = Ok bi" "stands b xs (source_dec (ti_src it)) 0 bi" by blast
  have v: "bi_valid bi" "bi_current bi = Some (item_record (xs ! 0))" using bi(2) ne by (simp_all add: stands_def)
  let ?it = "it\<lparr>ti_blockIdx := int k, ti_src := src, ti_blockIter := Some bi\<rparr>"
  have "first_block d (int (length T)) (int k) (ti_src it) = Ok (int k, Some bi, src)"
    using k bi0(1) bi(1) v(1) by (subst first_block.simps) (simp add: caught_def)
  then have "from_block d (int k) it = Ok (Some bi, ?it)" by (simp add: from_block_def n)
  moreover have "at_item d T ?it k 0" using bi0(2,3) k bi(2) ne by (simp add: at_item_def T)
  then have "on_item d T ?it (hd xs) (tl xs @ concat (map snd (drop (Suc k) T)))"
    unfolding on_item_def by (intro exI [of _ k] exI [of _ 0]) (simp add: T ne hd_conv_nth drop_Suc)
  ultimately show "\<exists>bi it'. from_block d (int k) it = Ok (Some bi, it') \<and> bi_valid bi \<and>
      bi_current bi = Some (item_record (hd (snd (T ! k)))) \<and> on_item d T it' (hd (snd (T ! k))) (tl (snd (T ! k)) @ concat (map snd (drop (Suc k) T))) \<and>
      ti_blockIter it' = Some bi \<and> ti_current it' = ti_current it \<and> ti_valid it' = ti_valid it"
    using v ne by (intro exI [of _ bi] exI [of _ ?it]) (simp add: T hd_conv_nth)
qed

text \<open>The move to the next item of the table, within the block or to the start of the next one.\<close>

lemma step_item:
  assumes "on_item d T it x ys"
  obtains bi0 bi where "ti_blockIter it = Some bi0" "Block_Next bi0 = Ok bi"
    "bi_valid bi \<Longrightarrow> ys \<noteq> [] \<and> bi_current bi = Some (item_record (hd ys)) \<and> on_item d T (it\<lparr>ti_blockIter := Some bi\<rparr>) (hd ys) (tl ys)"
    "\<not> bi_valid bi \<Longrightarrow> \<exists>k. ti_blockIdx it = int k \<and> Suc k \<le> length T \<and> ys = concat (map snd (drop (Suc k) T))"
proof -
  from assms obtain k m where at: "at_item d T it k m" and x: "x = snd (T ! k) ! m"
    and ys: "ys = drop (Suc m) (snd (T ! k)) @ concat (map snd (drop (Suc k) T))" by (auto simp: on_item_def)
  obtain b xs where T: "T ! k = (b, xs)" by fastforce
  from at obtain bi0 where s: "source_over d T (ti_src it)" and k: "k < length T" "ti_blockIdx it = int k"
    and m: "m < length xs" and bi0: "ti_blockIter it = Some bi0" "stands b xs (source_dec (ti_src it)) m bi0"
    by (auto simp: at_item_def T)
  have c: "complete b xs (source_dec (ti_src it))" using s k(1) T by (auto simp: source_over_def list_all_length good_block_def)
  from Next_stands [OF c bi0(2) m] obtain bi where bi: "Block_Next bi0 = Ok bi" "stands b xs (source_dec (ti_src it)) (Suc m) bi" by blast
  show thesis
  proof (rule that [OF bi0(1) bi(1)])
    assume "bi_valid bi"
    then have m': "Suc m < length xs" using bi(2) by (auto simp: stands_def split: if_splits)
    then have ys': "ys = xs ! Suc m # drop (Suc (Suc m)) xs @ concat (map snd (drop (Suc k) T))"
      by (simp add: ys T Cons_nth_drop_Suc)
    have "at_item d T (it\<lparr>ti_blockIter := Some bi\<rparr>) k (Suc m)" using s k m' bi(2) by (simp add: at_item_def T)
    then have "on_item d T (it\<lparr>ti_blockIter := Some bi\<rparr>) (hd ys) (tl ys)"
      unfolding ys' on_item_def by (intro exI [of _ k] exI [of _ "Suc m"]) (simp add: T)
    with m' bi(2) ys' show "ys \<noteq> [] \<and> bi_current bi = Some (item_record (hd ys)) \<and> on_item d T (it\<lparr>ti_blockIter := Some bi\<rparr>) (hd ys) (tl ys)"
      by (simp add: stands_def)
  next
    assume "\<not> bi_valid bi"
    then have "Suc m = length xs" using bi(2) m by (auto simp: stands_def split: if_splits)
    then show "\<exists>k. ti_blockIdx it = int k \<and> Suc k \<le> length T \<and> ys = concat (map snd (drop (Suc k) T))"
      using k by (intro exI [of _ k]) (simp add: ys T)
  qed
qed

lemma good_nonempty: "list_all (good_block dec) T \<Longrightarrow> k < length T \<Longrightarrow> snd (T ! k) \<noteq> []"
  by (cases "T ! k") (auto simp: list_all_length good_block_def)

lemma next_block_items:
  assumes "list_all (good_block dec) T" "Suc k \<le> length T" "ys = concat (map snd (drop (Suc k) T))"
  shows "ys = [] \<longleftrightarrow> Suc k = length T"
    and "Suc k < length T \<Longrightarrow> hd ys = hd (snd (T ! Suc k)) \<and> tl ys = tl (snd (T ! Suc k)) @ concat (map snd (drop (Suc (Suc k)) T))"
proof -
  have ne: "snd (T ! Suc k) \<noteq> []" if "Suc k < length T"
    using good_nonempty [OF assms(1) that] .
  have ys: "ys = snd (T ! Suc k) @ concat (map snd (drop (Suc (Suc k)) T))" if "Suc k < length T"
    using that by (simp add: assms(3) Cons_nth_drop_Suc [symmetric])
  show "ys = [] \<longleftrightarrow> Suc k = length T"
  proof (cases "Suc k < length T")
    case True
    with ys ne show ?thesis by simp
  next
    case False
    then show ?thesis using assms(2,3) by simp
  qed
  show "hd ys = hd (snd (T ! Suc k)) \<and> tl ys = tl (snd (T ! Suc k)) @ concat (map snd (drop (Suc (Suc k)) T))" if "Suc k < length T"
    using ys ne that by simp
qed

lemma next_chunk_item:
  assumes "on_item d T it x (y # ys)"
  obtains it' where "next_chunk d it = Ok (Some (item_record y), it')" "on_item d T it' y ys"
    "ti_current it' = ti_current it" "ti_valid it' = ti_valid it"
proof -
  from step_item [OF assms] obtain bi0 bi where bi: "ti_blockIter it = Some bi0" "Block_Next bi0 = Ok bi"
    and inside: "bi_valid bi \<Longrightarrow> bi_current bi = Some (item_record y) \<and> on_item d T (it\<lparr>ti_blockIter := Some bi\<rparr>) y ys"
    and beyond: "\<not> bi_valid bi \<Longrightarrow> \<exists>k. ti_blockIdx it = int k \<and> Suc k \<le> length T \<and> y # ys = concat (map snd (drop (Suc k) T))"
    by (metis list.sel(1,3))
  show thesis
  proof (cases "bi_valid bi")
    case True
    with inside bi show thesis by (intro that [of "it\<lparr>ti_blockIter := Some bi\<rparr>"]) (simp_all add: next_chunk_def Block_Key_def)
  next
    case False
    with beyond obtain k where k: "ti_blockIdx it = int k" "Suc k \<le> length T" "y # ys = concat (map snd (drop (Suc k) T))" by blast
    let ?it = "it\<lparr>ti_blockIter := Some bi\<rparr>"
    have s: "source_over d T (ti_src ?it)" using on_item_source [OF assms] by simp
    then have "list_all (good_block (source_dec (ti_src it))) T" by (simp add: source_over_def)
    from next_block_items [OF this k(2,3)] k(2) have k': "Suc k < length T"
      "y = hd (snd (T ! Suc k))" "ys = tl (snd (T ! Suc k)) @ concat (map snd (drop (Suc (Suc k)) T))" by auto
    from from_block_at(2) [OF s k(2) k'(1)] obtain bi1 it' where
      f: "from_block d (int (Suc k)) ?it = Ok (Some bi1, it')" "bi_valid bi1" "bi_current bi1 = Some (item_record y)" "on_item d T it' y ys"
        "ti_current it' = ti_current it" "ti_valid it' = ti_valid it" unfolding k'(2,3) by auto
    have "from_block d (ti_blockIdx ?it + 1) ?it = Ok (Some bi1, it')" using f(1) k(1) by (simp add: add.commute)
    with bi False f show thesis by (intro that [of it']) (simp_all add: next_chunk_def Block_Key_def Let_def)
  qed
qed

lemma assemble_items:
  "on_item d T it x (cont_items vs @ ys) \<Longrightarrow> vs \<noteq> [] \<Longrightarrow>
   \<exists>it' z. assemble d rec it = Some (Ok it') \<and> on_item d T it' z ys \<and>
     ti_current it' = Some (full (rec\<lparr>dr_Value := dr_Value rec @ concat vs\<rparr>)) \<and> ti_valid it' = ti_valid it"
proof (induction vs arbitrary: it x rec rule: cont_items.induct)
  case (2 v)
  from 2(1) have "on_item d T it x (Cont ChunkTypeLast v # ys)" by simp
  from next_chunk_item [OF this] obtain it' where n: "next_chunk d it = Ok (Some (item_record (Cont ChunkTypeLast v)), it')"
    "on_item d T it' (Cont ChunkTypeLast v) ys" "ti_valid it' = ti_valid it" by metis
  from n on_item_current(2) [OF n(2)] show ?case
    by (subst assemble.simps) (auto simp: full_def)
next
  case (3 v w vs)
  from 3(2) have "on_item d T it x (Cont ChunkTypeMiddle v # cont_items (w # vs) @ ys)" by simp
  from next_chunk_item [OF this] obtain it' where n: "next_chunk d it = Ok (Some (item_record (Cont ChunkTypeMiddle v)), it')"
    "on_item d T it' (Cont ChunkTypeMiddle v) (cont_items (w # vs) @ ys)" "ti_valid it' = ti_valid it" by metis
  from 3(1) [OF n(2), of "rec\<lparr>dr_Value := dr_Value rec @ v\<rparr>"] n show ?case
    by (subst assemble.simps) simp
qed simp

section \<open>Walking the records\<close>

definition on_record :: "disk \<Rightarrow> table_blocks \<Rightarrow> SSTableIteratorRaw \<Rightarrow> DataRecord list \<Rightarrow> bool" where
  "on_record d T it rs \<longleftrightarrow>
     (case rs of
        [] \<Rightarrow> \<not> ti_valid it \<and> source_over d T (ti_src it)
      | r # rs \<Rightarrow> ti_valid it \<and> ti_current it = Some (full r) \<and> (\<exists>x ys. on_item d T it x ys \<and> stored_as rs ys))"

lemma take_current_record:
  assumes "on_item d T it x ys" "ti_blockIter it = Some bi" "bi_current bi = Some (item_record x)" "stored_as (r # rs) (x # ys)"
  shows "\<exists>it'. take_current d bi it = Some (Ok it') \<and> on_record d T it' (r # rs)"
proof -
  let ?it = "it\<lparr>ti_blockIter := Some bi, ti_current := Some (item_record x), ti_valid := True\<rparr>"
  have same: "it\<lparr>ti_blockIter := Some bi\<rparr> = it" using assms(2) by simp
  have on: "on_item d T ?it x ys" using on_item_current(1) [OF assms(1)] by (simp add: same)
  have tc: "take_current d bi it = reassembleChunks d ?it" by (simp add: take_current_def Block_Key_def assms(3))
  from assms(4) obtain us zs where split: "x # ys = us @ zs" "record_items r us" "stored_as rs zs" by (rule stored_ConsE)
  from split(2) show ?thesis
  proof cases
    case (whole stored flag)
    then have x: "x = Keyed (full r) stored flag" "ys = zs" using split(1) by simp_all
    have "reassembleChunks d ?it = Some (Ok ?it)" by (simp add: reassembleChunks_def x full_def)
    with on split(3) x show ?thesis unfolding tc by (auto simp: on_record_def)
  next
    case (chunks vs v)
    let ?r = "r\<lparr>dr_ChunkType := ChunkTypeFirst, dr_Value := v\<rparr>"
    have x: "x = Keyed ?r v False" "ys = cont_items vs @ zs" using split(1) chunks(1) by simp_all
    from assemble_items [OF on [unfolded x(2)] chunks(2), of ?r] obtain it' z where
      a: "assemble d ?r ?it = Some (Ok it')" "on_item d T it' z zs"
        "ti_current it' = Some (full (?r\<lparr>dr_Value := dr_Value ?r @ concat vs\<rparr>))" "ti_valid it' = True" by auto
    have "full (?r\<lparr>dr_Value := dr_Value ?r @ concat vs\<rparr>) = full r"
      using chunks(3) by (cases r) (simp add: full_def)
    moreover have "reassembleChunks d ?it = assemble d ?r ?it" by (simp add: reassembleChunks_def x)
    ultimately show ?thesis using a split(3) unfolding tc by (auto simp: on_record_def)
  qed
qed

lemma stored_as_nonempty: "stored_as (r # rs) ys \<Longrightarrow> ys \<noteq> []"
  by (auto elim!: stored_ConsE simp: record_items.simps)

lemma stored_as_empty: "stored_as rs [] \<Longrightarrow> rs = []"
  by (cases rs) (auto dest: stored_as_nonempty)

lemma advance_record:
  assumes s: "source_over d T (ti_src it)" and k: "k \<le> length T" "ti_blockIdx it = int k"
    and st: "stored_as rs (concat (map snd (drop k T)))"
  shows "\<exists>it'. advanceBlock d it = Some (Ok it') \<and> on_record d T it' rs"
proof (cases "k = length T")
  case True
  then have "rs = []" using st by (auto dest: stored_as_empty)
  with from_block_at(1) [OF s k(1) True] k(2) s True show ?thesis by (simp add: advanceBlock_def on_record_def lost_def)
next
  case False
  then have k': "k < length T" using k(1) by simp
  have ne: "snd (T ! k) \<noteq> []"
    using s k' good_nonempty unfolding source_over_def by blast
  have items: "concat (map snd (drop k T)) = hd (snd (T ! k)) # tl (snd (T ! k)) @ concat (map snd (drop (Suc k) T))"
    using k' ne by (simp add: Cons_nth_drop_Suc [symmetric])
  obtain r rs' where rs: "rs = r # rs'" using st items by (cases rs) (auto elim!: stored_NilE)
  from from_block_at(2) [OF s k(1) k'] obtain bi it' where
    f: "from_block d (int k) it = Ok (Some bi, it')" "bi_valid bi" "bi_current bi = Some (item_record (hd (snd (T ! k))))"
      "on_item d T it' (hd (snd (T ! k))) (tl (snd (T ! k)) @ concat (map snd (drop (Suc k) T)))" "ti_blockIter it' = Some bi" by auto
  from take_current_record [OF f(4,5,3) st [unfolded rs items]] f(1) k(2) show ?thesis
    by (simp add: advanceBlock_def rs)
qed

lemma SeekToFirst_record:
  assumes "source_over d T (ti_src it)" "stored_as rs (concat (map snd T))"
  shows "\<exists>it'. Table_SeekToFirst d it = Some (Ok it') \<and> on_record d T it' rs"
  unfolding Table_SeekToFirst_def by (rule advance_record [where k = 0]) (simp_all add: assms)

lemma Next_record:
  assumes "on_record d T it (r # rs)"
  shows "\<exists>it'. Table_Next d it = Some (Ok it') \<and> on_record d T it' rs"
proof -
  from assms obtain x ys where v: "ti_valid it" "on_item d T it x ys" "stored_as rs ys" by (auto simp: on_record_def)
  from step_item [OF v(2)] obtain bi0 bi where bi: "ti_blockIter it = Some bi0" "Block_Next bi0 = Ok bi"
    and inside: "bi_valid bi \<Longrightarrow> ys \<noteq> [] \<and> bi_current bi = Some (item_record (hd ys)) \<and>
      on_item d T (it\<lparr>ti_blockIter := Some bi\<rparr>) (hd ys) (tl ys)"
    and beyond: "\<not> bi_valid bi \<Longrightarrow> \<exists>k. ti_blockIdx it = int k \<and> Suc k \<le> length T \<and> ys = concat (map snd (drop (Suc k) T))" by metis
  show ?thesis
  proof (cases "bi_valid bi")
    case True
    with inside have ys: "ys = hd ys # tl ys" "bi_current bi = Some (item_record (hd ys))"
      "on_item d T (it\<lparr>ti_blockIter := Some bi\<rparr>) (hd ys) (tl ys)" by auto
    then obtain r' rs' where rs: "rs = r' # rs'" using v(3) by (cases rs) (auto elim: stored_NilE)
    have st: "stored_as (r' # rs') (hd ys # tl ys)" using v(3) ys(1) rs by simp
    have "take_current d bi (it\<lparr>ti_blockIter := Some bi\<rparr>) = take_current d bi it"
      by (simp add: take_current_def split: sum.splits)
    with take_current_record [OF ys(3) _ ys(2) st] v(1) bi True show ?thesis by (simp add: Table_Next_def rs)
  next
    case False
    with beyond obtain k where k: "ti_blockIdx it = int k" "Suc k \<le> length T" "ys = concat (map snd (drop (Suc k) T))" by blast
    let ?it = "it\<lparr>ti_blockIter := Some bi\<rparr>"
    have s: "source_over d T (ti_src ?it)" using on_item_source [OF v(2)] by simp
    show ?thesis
    proof (cases "Suc k = length T")
      case True
      then have rs: "rs = []" using v(3) k(3) by (auto dest: stored_as_empty)
      have "from_block d (ti_blockIdx it + 1) ?it = Ok (None, ?it\<lparr>ti_blockIdx := int (Suc k)\<rparr>)"
        using from_block_at(1) [OF s k(2) True] k(1) by (simp add: add.commute)
      with v(1) bi False s rs show ?thesis
        by (simp add: Table_Next_def on_record_def lost_def)
    next
      case ne: False
      then have k': "Suc k < length T" using k(2) by simp
      have g: "list_all (good_block (source_dec (ti_src it))) T" using s by (simp add: source_over_def)
      from next_block_items [OF g k(2,3)] ne k' have
        ys: "ys = hd (snd (T ! Suc k)) # tl (snd (T ! Suc k)) @ concat (map snd (drop (Suc (Suc k)) T))" by (cases ys) auto
      then obtain r' rs' where rs: "rs = r' # rs'" using v(3) by (cases rs) (auto elim: stored_NilE)
      from from_block_at(2) [OF s k(2) k'] obtain bi1 it' where
        f: "from_block d (int (Suc k)) ?it = Ok (Some bi1, it')" "bi_current bi1 = Some (item_record (hd (snd (T ! Suc k))))"
          "on_item d T it' (hd (snd (T ! Suc k))) (tl (snd (T ! Suc k)) @ concat (map snd (drop (Suc (Suc k)) T)))" "ti_blockIter it' = Some bi1" by auto
      have "from_block d (ti_blockIdx it + 1) ?it = Ok (Some bi1, it')" using f(1) k(1) by (simp add: add.commute)
      with take_current_record [OF f(3,4,2) v(3) [unfolded rs ys]] v(1) bi False show ?thesis by (simp add: Table_Next_def rs)
    qed
  qed
qed

section \<open>The interface\<close>

lemma table_methods_simps [simp]:
  "Valid (table_methods d) it = ti_valid it" "Key (table_methods d) it = the (ti_current it)"
  "Next (table_methods d) it = returned (Table_Next d it)" "SeekToFirst (table_methods d) it = returned (Table_SeekToFirst d it)"
  by (simp_all add: table_methods_def)

lemma on_record_source: "on_record d T it rs \<Longrightarrow> source_over d T (ti_src it)"
  by (cases rs) (auto simp: on_record_def dest: on_item_source)

lemma on_record_valid: "on_record d T it rs \<Longrightarrow> ti_valid it \<longleftrightarrow> rs \<noteq> []"
  by (cases rs) (auto simp: on_record_def)

lemma collect_record: "on_record d T it rs \<Longrightarrow> collect (table_methods d) it = Some (map full rs)"
proof (induction rs arbitrary: it)
  case Nil
  then show ?case by (subst collect.simps) (simp add: on_record_def)
next
  case (Cons r rs)
  from Next_record [OF Cons.prems] obtain it' where it': "Table_Next d it = Some (Ok it')" "on_record d T it' rs" by blast
  have "ti_valid it" "ti_current it = Some (full r)" using Cons.prems by (simp_all add: on_record_def)
  with it'(1) Cons.IH [OF it'(2)] show ?case by (subst collect.simps) simp
qed

definition table_it :: "disk \<Rightarrow> SSTableIteratorRaw \<Rightarrow> bool" where
  "table_it d it \<longleftrightarrow> (\<exists>T all rs. stored_as all (concat (map snd T)) \<and> on_record d T it rs)"

definition table_ahead :: "disk \<Rightarrow> SSTableIteratorRaw \<Rightarrow> DataRecord list" where
  "table_ahead d it = the (collect (table_methods d) it)"

definition table_whole :: "disk \<Rightarrow> SSTableIteratorRaw \<Rightarrow> DataRecord list" where
  "table_whole d it = the (Option.bind (SeekToFirst (table_methods d) it) (collect (table_methods d)))"

lemma whole_record:
  assumes "source_over d T (ti_src it)" "stored_as all (concat (map snd T))"
  shows "table_whole d it = map full all"
  using SeekToFirst_record [OF assms] collect_record by (fastforce simp: table_whole_def)

interpretation table: rewindable_iterator "table_methods d" "table_it d" "table_ahead d" "table_whole d" for d
proof unfold_locales
  fix it
  assume "table_it d it"
  then obtain T all rs where st: "stored_as all (concat (map snd T))" and on: "on_record d T it rs" by (auto simp: table_it_def)
  have ahead: "table_ahead d i = map full xs" if "on_record d T i xs" for i xs
    using collect_record [OF that] by (simp add: table_ahead_def)
  have whole: "table_whole d i = map full all" if "on_record d T i xs" for i xs
    by (rule whole_record [OF on_record_source [OF that] st])
  show "Valid (table_methods d) it \<longleftrightarrow> table_ahead d it \<noteq> []" using on_record_valid [OF on] by (simp add: ahead [OF on])
  show "Key (table_methods d) it = hd (table_ahead d it)" if "Valid (table_methods d) it"
    using on that by (cases rs) (simp_all add: ahead [OF on], simp_all add: on_record_def)
  show "\<exists>it'. Next (table_methods d) it = Some it' \<and> table_it d it' \<and> table_ahead d it' = tl (table_ahead d it)"
    if v: "Valid (table_methods d) it"
  proof -
    obtain r rs' where rs: "rs = r # rs'" using v on_record_valid [OF on] by (cases rs) auto
    from Next_record [OF on [unfolded rs]] obtain it' where it': "Table_Next d it = Some (Ok it')" "on_record d T it' rs'" by blast
    then have "table_it d it'" using st unfolding table_it_def by blast
    with it' ahead [OF on] ahead [OF it'(2)] show ?thesis by (simp add: rs)
  qed
  show "table_whole d it' = table_whole d it" if v: "Valid (table_methods d) it" and n: "Next (table_methods d) it = Some it'" for it'
  proof -
    obtain r rs' where rs: "rs = r # rs'" using v on_record_valid [OF on] by (cases rs) auto
    from Next_record [OF on [unfolded rs]] n obtain "on_record d T it' rs'" by auto
    from whole [OF this] whole [OF on] show ?thesis by simp
  qed
  show "\<exists>it'. SeekToFirst (table_methods d) it = Some it' \<and> table_it d it' \<and> table_ahead d it' = table_whole d it \<and>
      table_whole d it' = table_whole d it"
  proof -
    from SeekToFirst_record [OF on_record_source [OF on] st] obtain it' where
      it': "Table_SeekToFirst d it = Some (Ok it')" "on_record d T it' all" by blast
    then have "table_it d it'" using st unfolding table_it_def by blast
    with it' ahead [OF it'(2)] whole [OF it'(2)] whole [OF on] show ?thesis by simp
  qed
qed

end
