(* ===== verification/Stored_Segments.thy ===== *)
theory Stored_Segments
  imports Segment_Storage
begin

text \<open>
  Both storages as one: the laws of \<open>segment_storage\<close> hold for the operations of the interface that \<^verbatim>\<open>writer.go\<close> and
  \<^verbatim>\<open>reader.go\<close> call, with the place at which a segment is written and what the disk holds there.
\<close>

fun storage_inv :: "nat \<Rightarrow> SegmentStorage \<times> disk \<Rightarrow> bool" where
  "storage_inv n (SingleStorage s, d) = single_inv n (s, d)"
| "storage_inv n (MultiStorage m, d) = multi_inv n (m, d)"

fun storage_read :: "SegmentType \<Rightarrow> nat \<Rightarrow> nat \<Rightarrow> SegmentStorage \<times> disk \<Rightarrow> bytes result" where
  "storage_read seg off k (SingleStorage s, d) = single_read seg off k (s, d)"
| "storage_read seg off k (MultiStorage m, d) = multi_read seg off k (m, d)"

fun storage_written :: "nat \<Rightarrow> SegmentType \<Rightarrow> nat \<Rightarrow> nat \<Rightarrow> SegmentStorage \<times> disk \<Rightarrow> bool" where
  "storage_written n seg off k (SingleStorage s, d) = single_written n seg off k (s, d)"
| "storage_written n seg off k (MultiStorage m, d) = multi_written n seg off k (m, d)"

interpretation storage: segment_storage WriteSegment storage_read "storage_inv n" "storage_written n" "seg_fits n" "seg_image n" for n
proof (unfold_locales, goal_cases)
  case (1 sd seg data)
  obtain st d where sd: "sd = (st, d)" by fastforce
  show ?case
  proof (cases st)
    case (SingleStorage s)
    with 1 sd have "single_inv n (s, d)" by simp
    from single.write_reads [OF this 1(2)] obtain off k s' d' where
      "Single_WriteSegment seg data (s, d) = (Ok (off, k), (s', d'))" "single_inv n (s', d')" "single_written n seg off k (s', d')"
      "single_read seg off k (s', d') = Ok (seg_image n seg data)" by auto
    then show ?thesis unfolding sd SingleStorage by (intro exI [of _ off] exI [of _ k] exI [of _ "(SingleStorage s', d')"]) simp
  next
    case (MultiStorage m)
    with 1 sd have "multi_inv n (m, d)" by simp
    from multi.write_reads [OF this 1(2)] obtain off k m' d' where
      "Multi_WriteSegment seg data (m, d) = (Ok (off, k), (m', d'))" "multi_inv n (m', d')" "multi_written n seg off k (m', d')"
      "multi_read seg off k (m', d') = Ok (seg_image n seg data)" by auto
    then show ?thesis unfolding sd MultiStorage by (intro exI [of _ off] exI [of _ k] exI [of _ "(MultiStorage m', d')"]) simp
  qed
next
  case (2 sd seg data r sd' seg' off k)
  obtain st d where sd: "sd = (st, d)" by fastforce
  show ?case
  proof (cases st)
    case (SingleStorage s)
    obtain r1 s' d' where w: "Single_WriteSegment seg data (s, d) = (r1, (s', d'))" by (metis prod.exhaust)
    then have "sd' = (SingleStorage s', d')" using 2(3) by (simp add: sd SingleStorage)
    with single.write_keeps [OF _ 2(2) w] 2(1,4) show ?thesis by (simp add: sd SingleStorage)
  next
    case (MultiStorage m)
    obtain r1 m' d' where w: "Multi_WriteSegment seg data (m, d) = (r1, (m', d'))" by (metis prod.exhaust)
    then have "sd' = (MultiStorage m', d')" using 2(3) by (simp add: sd MultiStorage)
    with multi.write_keeps [OF _ 2(2) w] 2(1,4) show ?thesis by (simp add: sd MultiStorage)
  qed
qed

section \<open>Places\<close>

fun segment_path :: "SegmentType \<Rightarrow> SegmentStorage \<Rightarrow> path" where
  "segment_path seg (SingleStorage s) = sf_file s"
| "segment_path seg (MultiStorage m) = getFilePath seg m"

text \<open>The end of what has been written for a kind of segment.\<close>

fun storage_end :: "SegmentType \<Rightarrow> SegmentStorage \<Rightarrow> nat" where
  "storage_end seg (SingleStorage s) = sf_offset s"
| "storage_end seg (MultiStorage m) = (if mf_files m seg = None then 0 else segment_offset seg m)"

fun single_file :: "SegmentStorage \<Rightarrow> bool" where
  "single_file (SingleStorage s) = True"
| "single_file (MultiStorage m) = False"

fun storage_manager :: "SegmentStorage \<Rightarrow> BlockManager option" where
  "storage_manager (SingleStorage s) = sf_BlockManager s"
| "storage_manager (MultiStorage m) = mf_BlockManager m"

lemma storage_content:
  assumes "storage_inv n (st, d)" "storage_written n seg off k (st, d)" "storage_read seg off k (st, d) = Ok x"
  obtains c where "d (segment_path seg st) = Some c" "length c = storage_end seg st" "off + k \<le> length c"
    "take k (drop off c) = x" "block_segment seg \<longrightarrow> n dvd off \<and> k = n"
proof (cases st)
  case (SingleStorage s)
  then obtain c where "d (sf_file s) = Some c" "length c = sf_offset s"
    using assms(1) by (auto simp: single_inv_def)
  with single_read_inside [of n s d seg off k c] assms SingleStorage show thesis
    by (intro that [of c]) (auto simp: single_written_def)
next
  case (MultiStorage m)
  then have inv: "multi_inv n (m, d)" using assms(1) by simp
  from multi_invD [OF this] have sf: "segment_file n m d seg" by metis
  have f: "mf_files m seg \<noteq> None" using assms(2) MultiStorage by (simp add: multi_written_def)
  from segment_fileD [OF sf f] obtain c where "d (getFilePath seg m) = Some c" "length c = segment_offset seg m" by metis
  with multi_read_inside [OF inv, of seg off k c] assms MultiStorage f show thesis
    by (intro that [of c]) (auto simp: multi_written_def)
qed

text \<open>A write changes the path of no segment, and the end of another kind only in one file.\<close>

lemma WriteSegment_fixed:
  assumes "WriteSegment seg data (st, d) = (r, (st', d'))"
  shows "segment_path x st' = segment_path x st" "single_file st' = single_file st" "storage_manager st' = storage_manager st"
    "\<not> single_file st \<Longrightarrow> x \<noteq> seg \<Longrightarrow> storage_end x st' = storage_end x st"
    "\<not> (\<exists>x. p = segment_path x st) \<Longrightarrow> d' p = d p"
proof -
  have "segment_path x st' = segment_path x st \<and> single_file st' = single_file st \<and> storage_manager st' = storage_manager st \<and>
      (\<not> single_file st \<longrightarrow> x \<noteq> seg \<longrightarrow> storage_end x st' = storage_end x st) \<and>
      (\<not> (\<exists>x. p = segment_path x st) \<longrightarrow> d' p = d p)"
  proof (cases st)
    case (SingleStorage s)
    obtain r1 s' d1 where w: "Single_WriteSegment seg data (s, d) = (r1, (s', d1))" by (metis prod.exhaust)
    then have e: "st' = SingleStorage s'" "d' = d1" using assms by (simp_all add: SingleStorage)
    have "d1 p = d p" if "p \<noteq> sf_file s"
      using w that by (auto simp: Single_WriteSegment_def Single_align_def Let_def bind_s_def write_handle_def WriteNoCache_def
          NewBlockKey_def split: option.splits if_splits sum.splits)
    with Single_WriteSegment_fixed [OF w] e show ?thesis by (simp add: SingleStorage)
  next
    case (MultiStorage m)
    obtain r1 m' d1 where w: "Multi_WriteSegment seg data (m, d) = (r1, (m', d1))" by (metis prod.exhaust)
    then have e: "st' = MultiStorage m'" "d' = d1" using assms by (simp_all add: MultiStorage)
    have "x \<noteq> seg \<longrightarrow> mf_files m' x = mf_files m x \<and> mf_offsets m' x = mf_offsets m x"
      using w by (auto simp: Multi_WriteSegment_def getOrCreateFile_def Let_def split: option.splits if_splits)
    moreover have "d1 p = d p" if "p \<noteq> getFilePath seg m"
      using w that by (auto simp: Multi_WriteSegment_def getOrCreateFile_def Let_def write_handle_def WriteNoCache_def
          NewBlockKey_def getFilePath_def split: option.splits if_splits)
    ultimately show ?thesis
      using Multi_WriteSegment_fixed [OF w] e by (auto simp: MultiStorage getFilePath_def segment_offset_def)
  qed
  then show "segment_path x st' = segment_path x st" "single_file st' = single_file st" "storage_manager st' = storage_manager st"
    "\<not> single_file st \<Longrightarrow> x \<noteq> seg \<Longrightarrow> storage_end x st' = storage_end x st"
    "\<not> (\<exists>x. p = segment_path x st) \<Longrightarrow> d' p = d p" by auto
qed

text \<open>A segment that is not padded, or that starts at a block, is put at the end.\<close>

lemma WriteSegment_place:
  assumes "storage_inv n (st, d)" "WriteSegment seg data (st, d) = (Ok (off, k), (st', d'))"
    and "block_segment seg \<longrightarrow> n dvd storage_end seg st \<and> length data = n"
  shows "off = storage_end seg st" "k = length data" "storage_end seg st' = off + k"
proof -
  have "off = storage_end seg st \<and> k = length data \<and> storage_end seg st' = off + k"
  proof (cases st)
    case (SingleStorage s)
    then have inv: "single_inv n (s, d)" using assms(1) by simp
    then obtain bm where bm: "sf_BlockManager s = Some bm" "bm_blockSize bm = n" "0 < n" "\<not> sf_closed s"
      by (auto simp: single_inv_def)
    obtain s' where w: "Single_WriteSegment seg data (s, d) = (Ok (off, k), (s', d'))" "st' = SingleStorage s'"
      using assms(2) by (auto simp: SingleStorage split: prod.splits)
    show ?thesis
      using w bm assms(3) by (auto simp: SingleStorage Single_WriteSegment_def Single_align_def Let_def bind_s_def padded_def split: if_splits)
  next
    case (MultiStorage m)
    then have inv: "multi_inv n (m, d)" using assms(1) by simp
    from multi_invD [OF this] obtain bm where bm: "mf_BlockManager m = Some bm" "bm_blockSize bm = n" "0 < n" by metis
    obtain m' where w: "Multi_WriteSegment seg data (m, d) = (Ok (off, k), (m', d'))" "st' = MultiStorage m'"
      using assms(2) by (auto simp: MultiStorage split: prod.splits)
    show ?thesis
      using w bm assms(3)
      by (auto simp: MultiStorage Multi_WriteSegment_def getOrCreateFile_def segment_offset_def Let_def padded_def split: if_splits)
  qed
  then show "off = storage_end seg st" "k = length data" "storage_end seg st' = off + k" by auto
qed

text \<open>A new storage.\<close>

lemma CreateStorage_inv:
  assumes "0 < bm_blockSize bm" "coherent bm d" "foreign_files bm p" "CreateStorage format p bm d = (st, d0)"
  shows "storage_inv (bm_blockSize bm) (st, d0)" "storage_end seg st = 0" "storage_manager st = Some bm"
    "single_file st \<longleftrightarrow> format = FormatSingleFile"
    "segment_path seg st = (if format = FormatSingleFile then p else p @ segment_extension seg)"
    "q \<noteq> p \<Longrightarrow> d0 q = d q"
proof -
  have u: "uncached bm p" "uncached bm (p @ segment_extension seg)" for seg using assms(3) by (simp_all add: foreign_files_def)
  show "storage_inv (bm_blockSize bm) (st, d0)"
    using assms(1,2,4) u coherent_other_file [OF assms(2) u(1)]
    by (auto simp: CreateStorage_def NewSingleFileStorage_def NewMultiFileStorage_def single_inv_def multi_inv_def segment_file_def
        getFilePath_def split: if_splits)
  show "storage_end seg st = 0" "storage_manager st = Some bm"
    "single_file st \<longleftrightarrow> format = FormatSingleFile"
    "segment_path seg st = (if format = FormatSingleFile then p else p @ segment_extension seg)"
    "q \<noteq> p \<Longrightarrow> d0 q = d q"
    using assms(4) by (auto simp: CreateStorage_def NewSingleFileStorage_def NewMultiFileStorage_def getFilePath_def split: if_splits)
qed

end
