(* ===== verification/Table_Written.thy ===== *)
theory Table_Written
  imports Table_Writer Table_Iterator Stored_Segments
begin

text \<open>
  What the writer of a table has written: the data blocks stand one after the other from the start of the data segment, and
  the items in them and in the block being built are those of the records added so far. \<open>writer_inv\<close> says so for the finished
  blocks \<open>T\<close> and the items \<open>xs\<close> of the current one; every step of \<^verbatim>\<open>AddRecord\<close> is shown to return and to keep it.
\<close>

section \<open>The invariant\<close>

definition block_good :: "nat \<Rightarrow> int \<Rightarrow> DataBlockBuilder \<times> block_item list \<Rightarrow> bool" where
  "block_good n ri = (\<lambda>(b, xs). built b xs \<and> builder_ok b \<and> has_room b xs \<and> xs \<noteq> [] \<and> bb_blockSize b = int n \<and> bb_restartInterval b = ri)"

definition block_stored :: "nat \<Rightarrow> SegmentStorage \<times> disk \<Rightarrow> nat \<Rightarrow> DataBlockBuilder \<Rightarrow> bool" where
  "block_stored n sd i b \<longleftrightarrow> (\<exists>data. Builder_Finish (int n) b = Ok data \<and> length data = n \<and>
     storage_written n SegmentData (i * n) n sd \<and> storage_read SegmentData (i * n) n sd = Ok data)"

text \<open>Items that are readable with every small dictionary that has grown out of the given one.\<close>

definition items_ok :: "AdaptiveEncoder \<Rightarrow> block_item list \<Rightarrow> bool" where
  "items_ok ve xs \<longleftrightarrow> (\<forall>dec. grown ve dec \<longrightarrow> length (a_keys dec) \<le> 256 \<longrightarrow> list_all (readable dec) xs)"

lemma items_ok_append [simp]: "items_ok ve (xs @ ys) \<longleftrightarrow> items_ok ve xs \<and> items_ok ve ys"
  by (auto simp: items_ok_def)

lemma items_ok_Nil [simp]: "items_ok ve []"
  by (simp add: items_ok_def)

lemma items_ok_grown: "items_ok ve xs \<Longrightarrow> grown ve ve' \<Longrightarrow> items_ok ve' xs"
  using grown_trans by (auto simp: items_ok_def)

definition current_ok :: "nat \<Rightarrow> int \<Rightarrow> DataBlockBuilder \<Rightarrow> block_item list \<Rightarrow> bool" where
  "current_ok n ri b xs \<longleftrightarrow> built b xs \<and> builder_ok b \<and> (xs = [] \<or> has_room b xs) \<and> bb_blockSize b = int n \<and> bb_restartInterval b = ri"

abbreviation writer_dict :: "SSTableWriter \<Rightarrow> AdaptiveEncoder" where
  "writer_dict w \<equiv> bb_valueEncoder (sw_dataBlockBuilder w)"

text \<open>The tree has the hashes of the finished blocks; a filter stays one that can be stored.\<close>

definition block_hash :: "nat \<Rightarrow> DataBlockBuilder \<times> block_item list \<Rightarrow> bytes" where
  "block_hash n = (\<lambda>(b, xs). HashDataBlock (projr (Builder_Finish (int n) b)))"

definition filter_ok :: "BloomFilter \<Rightarrow> bool" where
  "filter_ok f \<longleftrightarrow> bloom_wf f \<and> bloom_storable f \<and> length (Bloom_ToBytes f) < 2 ^ 32"

definition range_ok :: "SSTableWriter \<Rightarrow> bool" where
  "range_ok w \<longleftrightarrow> pred_option (\<lambda>k. length k < 2 ^ 32) (sw_minKey w) \<and> pred_option (\<lambda>k. length k < 2 ^ 32) (sw_maxKey w)"

definition writer_inv :: "nat \<Rightarrow> int \<Rightarrow> writer_state \<Rightarrow> table_blocks \<Rightarrow> block_item list \<Rightarrow> bool" where
  "writer_inv n ri = (\<lambda>(w, d) T xs.
     storage_inv n (sw_storage w, d) \<and> storage_end SegmentData (sw_storage w) = length T * n \<and>
     bm_blockSize (sw_blockManager w) = n \<and> sw_currentBlockIndex w = of_nat (length T) \<and>
     list_all (block_good n ri) T \<and> (\<forall>i < length T. block_stored n (sw_storage w, d) i (fst (T ! i))) \<and>
     current_ok n ri (sw_dataBlockBuilder w) xs \<and> items_ok (writer_dict w) (concat (map snd T) @ xs) \<and>
     sw_merkleTree w = fold AddLeaf (map (block_hash n) T) NewMerkleTree \<and> pred_option filter_ok (sw_filterSegment w) \<and>
     range_ok w)"

text \<open>What no step before \<^verbatim>\<open>Finalize\<close> changes.\<close>

definition same_files :: "writer_state \<Rightarrow> writer_state \<Rightarrow> bool" where
  "same_files = (\<lambda>(w, d) (w', d').
     (\<forall>x. segment_path x (sw_storage w') = segment_path x (sw_storage w)) \<and> single_file (sw_storage w') = single_file (sw_storage w) \<and>
     (\<forall>p. (\<forall>x. p \<noteq> segment_path x (sw_storage w)) \<longrightarrow> d' p = d p) \<and>
     storage_manager (sw_storage w') = storage_manager (sw_storage w) \<and> sw_blockManager w' = sw_blockManager w \<and>
     (\<not> single_file (sw_storage w) \<longrightarrow> storage_end SegmentFooter (sw_storage w') = storage_end SegmentFooter (sw_storage w)))"

text \<open>A filter only gains bits, so that a key it knows stays known.\<close>

definition filter_grows :: "BloomFilter option \<Rightarrow> BloomFilter option \<Rightarrow> bool" where
  "filter_grows a b \<longleftrightarrow> (case a of None \<Rightarrow> b = None | Some f \<Rightarrow> (\<exists>g. b = Some g \<and> positions g = positions f \<and>
     (\<forall>i. getBit (bf_bits f) i \<longrightarrow> getBit (bf_bits g) i)))"

definition knows :: "BloomFilter option \<Rightarrow> bytes \<Rightarrow> bool" where
  "knows a k \<longleftrightarrow> (case a of None \<Rightarrow> True | Some f \<Rightarrow> \<forall>i \<in> set (positions f k). getBit (bf_bits f) i)"

lemma filter_grows_refl [simp]: "filter_grows a a"
  by (simp add: filter_grows_def split: option.split)

lemma filter_grows_trans: "filter_grows a b \<Longrightarrow> filter_grows b c \<Longrightarrow> filter_grows a c"
  by (auto simp: filter_grows_def split: option.splits)

lemma knows_grows: "knows a k \<Longrightarrow> filter_grows a b \<Longrightarrow> knows b k"
  by (auto simp: filter_grows_def knows_def split: option.splits)

definition data_step :: "writer_state \<Rightarrow> writer_state \<Rightarrow> bool" where
  "data_step s s' \<longleftrightarrow> same_files s s' \<and> sw_footer (fst s') = sw_footer (fst s) \<and>
     filter_grows (sw_filterSegment (fst s)) (sw_filterSegment (fst s'))"

lemma same_files_refl [simp]: "same_files s s"
  by (cases s) (simp add: same_files_def)

lemma data_step_refl [simp]: "data_step s s"
  by (simp add: data_step_def)

lemma same_files_trans: "same_files s s' \<Longrightarrow> same_files s' s'' \<Longrightarrow> same_files s s''"
  by (cases s; cases s'; cases s'') (auto simp: same_files_def)

lemma data_step_trans: "data_step s s' \<Longrightarrow> data_step s' s'' \<Longrightarrow> data_step s s''"
  using same_files_trans [of s s' s''] filter_grows_trans by (auto simp: data_step_def)

lemma with_builder_step: "with_builder f (w, d) = (r, (w', d')) \<Longrightarrow> data_step (w, d) (w', d')"
  by (auto simp: with_builder_def data_step_def same_files_def split: sum.splits prod.splits)

text \<open>A new builder in the writer.\<close>

lemma writer_inv_builder:
  assumes "writer_inv n ri (w, d) T xs" "current_ok n ri b ys" "items_ok (bb_valueEncoder b) (concat (map snd T) @ ys)"
  shows "writer_inv n ri (w\<lparr>sw_dataBlockBuilder := b\<rparr>, d) T ys"
  using assms by (simp add: writer_inv_def range_ok_def)

section \<open>Flushing a block\<close>

lemma note_block_fields [simp]:
  "sw_merkleTree (note_block cfg data w) = AddLeaf (HashDataBlock data) (sw_merkleTree w)"
  "sw_storage (note_block cfg data w) = sw_storage w" "sw_blockManager (note_block cfg data w) = sw_blockManager w"
  "sw_dataBlockBuilder (note_block cfg data w) = sw_dataBlockBuilder w" "sw_currentBlockIndex (note_block cfg data w) = sw_currentBlockIndex w"
  "sw_minKey (note_block cfg data w) = sw_minKey w" "sw_maxKey (note_block cfg data w) = sw_maxKey w"
  "sw_filterSegment (note_block cfg data w) = sw_filterSegment w" "sw_footer (note_block cfg data w) = sw_footer w"
  by (simp_all add: note_block_def Let_def)

lemma write_segment_step:
  assumes "write_segment seg data (w, d) = (r, (w', d'))" "seg \<noteq> SegmentFooter"
  shows "data_step (w, d) (w', d')" "\<exists>st. w' = w\<lparr>sw_storage := st\<rparr>"
proof -
  obtain st where w: "WriteSegment seg data (sw_storage w, d) = (r, (st, d'))" "w' = w\<lparr>sw_storage := st\<rparr>"
    using assms(1) by (auto simp: write_segment_def split: prod.splits)
  from w(2) show "\<exists>st. w' = w\<lparr>sw_storage := st\<rparr>" by blast
  show "data_step (w, d) (w', d')"
    using WriteSegment_fixed [OF w(1)] assms(2) by (auto simp: data_step_def same_files_def w(2))
qed

lemma flush_empty: "writer_inv n ri (w, d) T [] \<Longrightarrow> flushDataBlock cfg (w, d) = (Ok (), (w, d))"
  by (simp add: writer_inv_def current_ok_def built_def flushDataBlock_def)

lemma flush_written:
  assumes inv: "writer_inv n ri (w, d) T xs" and ne: "xs \<noteq> []" and cfg: "cf_BlockSize cfg = int n"
  obtains w' d' where "flushDataBlock cfg (w, d) = (Ok (), (w', d'))" "writer_inv n ri (w', d') (T @ [(sw_dataBlockBuilder w, xs)]) []"
    "data_step (w, d) (w', d')" "writer_dict w' = writer_dict w"
proof -
  define b where "b = sw_dataBlockBuilder w"
  have b: "built b xs" "builder_ok b" "has_room b xs" "bb_blockSize b = int n" "bb_restartInterval b = ri"
    using inv ne by (simp_all add: writer_inv_def current_ok_def b_def)
  have sd: "storage_inv n (sw_storage w, d)" "storage_end SegmentData (sw_storage w) = length T * n"
    using inv by (simp_all add: writer_inv_def)
  obtain data where fin: "Builder_Finish (int n) b = Ok data" "length data = n"
    by (rule finished_block [OF b(1) ne b(3,2), unfolded b(4), where dec = undefined]) auto
  have fits: "seg_fits n SegmentData data" by (simp add: seg_fits_def fin(2))
  have img: "seg_image n SegmentData data = data" by (simp add: seg_image_def block_segment_def padded_def fin(2))
  from storage.write_reads [OF sd(1) fits] obtain off k st' d' where
    wr: "WriteSegment SegmentData data (sw_storage w, d) = (Ok (off, k), (st', d'))" "storage_inv n (st', d')"
      "storage_written n SegmentData off k (st', d')" "storage_read SegmentData off k (st', d') = Ok data"
    unfolding img by auto
  from WriteSegment_place [OF sd(1) wr(1)] sd(2) fin(2)
  have place: "off = length T * n" "k = n" "storage_end SegmentData st' = length (T @ [(b, xs)]) * n" by simp_all
  from Reset_built [OF b(1)] obtain b' where
    b': "Builder_Reset b = Ok b'" "built b' []" "same_settings b b'" "bb_valueEncoder b' = bb_valueEncoder b" by blast
  define w1 where "w1 = note_block cfg data (w\<lparr>sw_storage := st'\<rparr>)"
  define w' where "w' = w1\<lparr>sw_dataBlockBuilder := b', sw_currentBlockIndex := sw_currentBlockIndex w + 1\<rparr>"
  have "bb_recordCount b = length xs" using b(1) by (simp add: built_def)
  then have flush: "flushDataBlock cfg (w, d) = (Ok (), (w', d'))"
    using ne fin wr(1) b'(1) cfg
    by (simp add: flushDataBlock_def b_def write_segment_def update_writer_def with_builder_def w'_def w1_def)
  have stored: "block_stored n (st', d') i (fst ((T @ [(b, xs)]) ! i))" if i: "i < Suc (length T)" for i
  proof (cases "i < length T")
    case True
    then have "block_stored n (sw_storage w, d) i (fst (T ! i))" using inv by (simp add: writer_inv_def)
    with True storage.write_keeps [OF sd(1) fits wr(1)] show ?thesis by (auto simp: block_stored_def nth_append)
  next
    case False
    then have "i = length T" using i by simp
    with fin wr(3,4) place show ?thesis by (auto simp: block_stored_def nth_append)
  qed
  have "builder_ok b'" using b(2) b'(3,4) by (simp add: builder_ok_def same_settings_def)
  then have cur: "current_ok n ri b' []" using b b'(2,3) by (simp add: current_ok_def same_settings_def)
  have "writer_inv n ri (w', d') (T @ [(b, xs)]) []"
    using inv stored wr(2) place(3) cur b b'(4) ne
    by (simp add: writer_inv_def range_ok_def w'_def w1_def block_good_def block_hash_def fin(1) b_def [symmetric])
  moreover have "data_step (w, d) (w', d')"
    using WriteSegment_fixed [OF wr(1)] by (auto simp: data_step_def same_files_def w'_def w1_def)
  ultimately show thesis using that [of w' d'] flush b'(4) by (simp add: b_def w'_def)
qed

section \<open>Chunks\<close>

definition plain :: "block_item list \<Rightarrow> bool" where
  "plain xs \<longleftrightarrow> \<not> (\<exists>x \<in> set xs. item_flag x)"

lemma plain_simps [simp]: "plain []" "plain (xs @ [Cont c v]) \<longleftrightarrow> plain xs" "plain [Keyed r v False]"
  by (auto simp: plain_def)

abbreviation items_of :: "table_blocks \<Rightarrow> block_item list \<Rightarrow> block_item list" where
  "items_of T xs \<equiv> concat (map snd T) @ xs"

lemma current_room:
  assumes "current_ok n ri b xs"
  shows "chunk_space b = (int (length xs) div ri + 1) * 4" "0 < ri"
  using assms by (auto simp: current_ok_def chunk_space_def built_def builder_ok_def)

lemma continuation_cases:
  assumes "current_ok n ri b xs" "plain xs"
  obtains (added) b' where "Builder_AddContinuationChunk c v b = Ok (True, b')" "current_ok n ri b' (xs @ [Cont c v])"
      "bb_valueEncoder b' = bb_valueEncoder b"
  | (full) "Builder_AddContinuationChunk c v b = Ok (False, b)" "int n < int (length (bb_data b)) + 23 + int (length v) + chunk_space b"
proof (cases "int (length (bb_data b)) + 23 + int (length v) + chunk_space b \<le> bb_blockSize b")
  case True
  from AddContinuationChunk_added [OF _ _ _ True, of xs c] assms obtain b' where
    "Builder_AddContinuationChunk c v b = Ok (True, b')" "built b' (xs @ [Cont c v])" "has_room b' (xs @ [Cont c v])"
    "same_settings b b'" "builder_ok b'" "bb_valueEncoder b' = bb_valueEncoder b"
    by (auto simp: current_ok_def plain_def)
  with assms show thesis by (intro added [of b']) (auto simp: current_ok_def same_settings_def)
next
  case False
  with assms show thesis
    by (intro full) (auto simp: current_ok_def Builder_AddContinuationChunk_def spaces(3))
qed

lemma put_continuation_written:
  assumes inv: "writer_inv n ri (w, d) T xs" and pl: "plain xs" and cfg: "cf_BlockSize cfg = int n"
    and room: "int (length v) + 71 \<le> int n" and c: "c \<in> {ChunkTypeMiddle, ChunkTypeLast}"
  obtains w' d' T' xs' where "put_continuation cfg c v (w, d) = (Ok (), (w', d'))" "writer_inv n ri (w', d') T' xs'"
    "items_of T' xs' = items_of T xs @ [Cont c v]" "plain xs'" "data_step (w, d) (w', d')" "writer_dict w' = writer_dict w"
proof -
  let ?b = "sw_dataBlockBuilder w"
  have cur: "current_ok n ri ?b xs" and items: "items_ok (writer_dict w) (items_of T xs)" using inv by (simp_all add: writer_inv_def)
  have ok: "items_ok (writer_dict w) [Cont c v]" using c by (simp add: items_ok_def)
  show thesis
  proof (cases rule: continuation_cases [OF cur pl, of c v])
    case (1 b')
    let ?w = "w\<lparr>sw_dataBlockBuilder := b'\<rparr>"
    have "writer_inv n ri (?w, d) T (xs @ [Cont c v])"
      using items ok by (intro writer_inv_builder [OF inv 1(2)]) (simp add: 1(3))
    moreover have "put_continuation cfg c v (w, d) = (Ok (), (?w, d))" by (simp add: put_continuation_def with_builder_def 1(1))
    moreover have "data_step (w, d) (?w, d)" by (simp add: data_step_def same_files_def)
    ultimately show thesis using pl 1(3) by (intro that [of ?w d T "xs @ [Cont c v]"]) simp_all
  next
    case 2
    have ne: "xs \<noteq> []"
    proof
      assume "xs = []"
      with cur current_room [OF cur] have "chunk_space ?b = 4" "bb_data ?b = []" by (auto simp: current_ok_def built_def)
      with 2(2) room show False by simp
    qed
    obtain w1 d1 where
      w1: "flushDataBlock cfg (w, d) = (Ok (), (w1, d1))" "writer_inv n ri (w1, d1) (T @ [(?b, xs)]) []"
        "data_step (w, d) (w1, d1)" "writer_dict w1 = writer_dict w"
      by (rule flush_written [OF inv ne cfg])
    let ?b1 = "sw_dataBlockBuilder w1"
    have cur1: "current_ok n ri ?b1 []" using w1(2) by (simp add: writer_inv_def)
    have fits: "\<not> int n < int (length (bb_data ?b1)) + 23 + int (length v) + chunk_space ?b1"
      using cur1 current_room [OF cur1] room by (simp add: current_ok_def built_def)
    obtain b2 where b2: "Builder_AddContinuationChunk c v ?b1 = Ok (True, b2)" "current_ok n ri b2 [Cont c v]"
      "bb_valueEncoder b2 = writer_dict w1"
      by (rule continuation_cases [OF cur1, of c v]) (use fits in auto)
    let ?w = "w1\<lparr>sw_dataBlockBuilder := b2\<rparr>"
    have "writer_inv n ri (?w, d1) (T @ [(?b, xs)]) [Cont c v]"
      using items ok by (intro writer_inv_builder [OF w1(2) b2(2)]) (simp add: b2(3) w1(4))
    moreover have "with_builder (Builder_AddContinuationChunk c v) (w, d) = (Ok False, (w, d))"
      "with_builder (Builder_AddContinuationChunk c v) (w1, d1) = (Ok True, (?w, d1))"
      using 2(1) b2(1) by (simp_all add: with_builder_def)
    then have "put_continuation cfg c v (w, d) = (Ok (), (?w, d1))"
      by (simp add: put_continuation_def bind_s_def w1(1))
    moreover have "data_step (w, d) (?w, d1)"
      by (rule data_step_trans [OF w1(3)]) (simp add: data_step_def same_files_def)
    moreover have "plain [Cont c v]" by (simp add: plain_def)
    ultimately show thesis using b2(3) w1(4) by (intro that [of ?w d1 "T @ [(?b, xs)]" "[Cont c v]"]) simp_all
  qed
qed

text \<open>The room for a chunk is positive and leaves the overhead of a chunk in a new block.\<close>

lemma room_for_chunk_written:
  assumes inv: "writer_inv n ri (w, d) T xs" and pl: "plain xs" and cfg: "cf_BlockSize cfg = int n" and n: "71 < n"
  obtains w' d' T' xs' a where "room_for_chunk cfg (w, d) = (Ok a, (w', d'))" "writer_inv n ri (w', d') T' xs'"
    "items_of T' xs' = items_of T xs" "plain xs'" "data_step (w, d) (w', d')" "writer_dict w' = writer_dict w"
    "0 < a" "a + 71 \<le> int n"
proof (cases "available contOverhead w \<le> 0")
  case False
  moreover have "available contOverhead w + 71 \<le> int n"
    using inv by (simp add: available_def contOverhead_def writer_inv_def)
  ultimately show thesis
    using inv pl by (intro that [of "available contOverhead w" w d T xs]) (simp_all add: room_for_chunk_def)
next
  case True
  have bs: "bm_blockSize (sw_blockManager w) = n" using inv by (simp add: writer_inv_def)
  show thesis
  proof (cases "xs = []")
    case empty: True
    with inv have "bb_data (sw_dataBlockBuilder w) = []" by (simp add: writer_inv_def current_ok_def built_def)
    with True bs n show thesis by (simp add: available_def contOverhead_def)
  next
    case False
    obtain w1 d1 where
      w1: "flushDataBlock cfg (w, d) = (Ok (), (w1, d1))" "writer_inv n ri (w1, d1) (T @ [(sw_dataBlockBuilder w, xs)]) []"
        "data_step (w, d) (w1, d1)" "writer_dict w1 = writer_dict w"
      by (rule flush_written [OF inv False cfg])
    have "room_for_chunk cfg (w, d) = (Ok (int n - 71), (w1, d1))"
      using True w1(1) by (simp add: room_for_chunk_def bs contOverhead_def)
    with w1 n show thesis by (intro that [of "int n - 71" w1 d1 "T @ [(sw_dataBlockBuilder w, xs)]" "[]"]) simp_all
  qed
qed

text \<open>The loop ends, and what it leaves are the continuation chunks of the value.\<close>

lemma chunk_round_written:
  assumes inv: "writer_inv n ri (w, d) T xs" and pl: "plain xs" and cfg: "cf_BlockSize cfg = int n" and n: "71 < n"
  obtains w' d' T' xs' c v rest where "chunk_round cfg remaining (w, d) = (Ok rest, (w', d'))" "writer_inv n ri (w', d') T' xs'"
    "items_of T' xs' = items_of T xs @ [Cont c v]" "plain xs'" "data_step (w, d) (w', d')" "writer_dict w' = writer_dict w"
    "remaining = v @ rest" "c = (if rest = [] then ChunkTypeLast else ChunkTypeMiddle)" "remaining \<noteq> [] \<Longrightarrow> length rest < length remaining"
proof -
  obtain w1 d1 T1 xs1 a where
    r: "room_for_chunk cfg (w, d) = (Ok a, (w1, d1))" "writer_inv n ri (w1, d1) T1 xs1" "items_of T1 xs1 = items_of T xs" "plain xs1"
      "data_step (w, d) (w1, d1)" "writer_dict w1 = writer_dict w" "0 < a" "a + 71 \<le> int n"
    by (rule room_for_chunk_written [OF inv pl cfg n])
  define c v rest where "c = (if int (length remaining) \<le> a then ChunkTypeLast else ChunkTypeMiddle)"
    and "v = take (nat a) remaining" and "rest = drop (nat a) remaining"
  have small: "int (length v) + 71 \<le> int n" "c \<in> {ChunkTypeMiddle, ChunkTypeLast}" using r(7,8) by (auto simp: v_def c_def)
  obtain w2 d2 T2 xs2 where
    p: "put_continuation cfg c v (w1, d1) = (Ok (), (w2, d2))" "writer_inv n ri (w2, d2) T2 xs2"
      "items_of T2 xs2 = items_of T1 xs1 @ [Cont c v]" "plain xs2" "data_step (w1, d1) (w2, d2)" "writer_dict w2 = writer_dict w1"
    by (rule put_continuation_written [OF r(2,4) cfg small])
  have "int (length remaining) \<le> a \<Longrightarrow> v = remaining \<and> rest = []" by (simp add: v_def rest_def)
  then have "chunk_round cfg remaining (w, d) = (Ok rest, (w2, d2))"
    using r(1,7) p(1) by (auto simp: chunk_round_def c_def v_def rest_def)
  moreover have "rest = [] \<longleftrightarrow> int (length remaining) \<le> a" using r(7) by (auto simp: rest_def)
  ultimately show thesis
    using p r data_step_trans [OF r(5) p(5)]
    by (intro that [of rest w2 d2 T2 xs2 c v]) (auto simp: v_def rest_def c_def)
qed

lemma chunk_loop_written:
  assumes cfg: "cf_BlockSize cfg = int n" and n: "71 < n"
  shows "writer_inv n ri (w, d) T xs \<Longrightarrow> plain xs \<Longrightarrow>
    \<exists>w' d' T' xs' vs. chunk_loop cfg remaining (w, d) = Some (Ok (), (w', d')) \<and> writer_inv n ri (w', d') T' xs' \<and>
      items_of T' xs' = items_of T xs @ cont_items vs \<and> data_step (w, d) (w', d') \<and> writer_dict w' = writer_dict w \<and>
      concat vs = remaining \<and> (remaining \<noteq> [] \<longrightarrow> vs \<noteq> [])"
proof (induction remaining arbitrary: w d T xs rule: length_induct)
  case (1 remaining)
  show ?case
  proof (cases "remaining = []")
    case True
    with 1(2) show ?thesis
      by (intro exI [of _ w] exI [of _ d] exI [of _ T] exI [of _ xs] exI [of _ "[]"]) (subst chunk_loop.simps, simp)
  next
    case False
    obtain w1 d1 T1 xs1 c v rest where
      r: "chunk_round cfg remaining (w, d) = (Ok rest, (w1, d1))" "writer_inv n ri (w1, d1) T1 xs1"
        "items_of T1 xs1 = items_of T xs @ [Cont c v]" "plain xs1" "data_step (w, d) (w1, d1)" "writer_dict w1 = writer_dict w"
        "remaining = v @ rest" "c = (if rest = [] then ChunkTypeLast else ChunkTypeMiddle)" "remaining \<noteq> [] \<Longrightarrow> length rest < length remaining"
      by (rule chunk_round_written [OF 1(2,3) cfg n, of remaining]) (rule that)
    from 1(1) [rule_format, OF r(9) [OF False] r(2,4)] obtain w' d' T' xs' vs where
      l: "chunk_loop cfg rest (w1, d1) = Some (Ok (), (w', d'))" "writer_inv n ri (w', d') T' xs'"
        "items_of T' xs' = items_of T1 xs1 @ cont_items vs" "data_step (w1, d1) (w', d')" "writer_dict w' = writer_dict w1"
        "concat vs = rest" "rest \<noteq> [] \<longrightarrow> vs \<noteq> []" by (elim exE conjE) (rule that)
    have loop: "chunk_loop cfg remaining (w, d) = Some (Ok (), (w', d'))"
      using False r(1) l(1) by (subst chunk_loop.simps) simp
    show ?thesis
    proof (cases "rest = []")
      case True
      then have e: "w' = w1" "d' = d1" using l(1) by (subst (asm) chunk_loop.simps, simp)+
      show ?thesis
        using loop r True unfolding e
        by (intro exI [of _ w1] exI [of _ d1] exI [of _ T1] exI [of _ xs1] exI [of _ "[v]"]) simp
    next
      case False
      then obtain u us where vs: "vs = u # us" using l(7) by (cases vs) auto
      have "Cont c v # cont_items vs = cont_items (v # vs)" using r(8) False by (simp add: vs)
      with loop l r False data_step_trans [OF r(5) l(4)] show ?thesis
        by (intro exI [of _ w'] exI [of _ d'] exI [of _ T'] exI [of _ xs'] exI [of _ "v # vs"]) simp
    qed
  qed
qed

section \<open>Adding a record\<close>

definition record_ok :: "nat \<Rightarrow> DataRecord \<Rightarrow> bool" where
  "record_ok n rec \<longleftrightarrow> dr_OpType rec \<le> 3 \<and> slice_ok (dr_Key rec) \<and> 90 + 2 * length (dr_Key rec) < n"

lemma current_note_key [simp]: "current_ok n ri (note_key k b) xs = current_ok n ri b xs"
  by (simp add: current_ok_def)

lemma AddToDict_more: "length (a_keys (snd (Adaptive_AddToDict v ade))) \<le> Suc (length (a_keys ade))"
  by (auto simp: Adaptive_AddToDict_def Let_def split: option.splits)

lemma grown_encoder_after:
  assumes "builder_ok b" "length (a_keys (bb_valueEncoder b)) < 2 ^ 48"
  shows "length (a_keys (encoder_after rec b)) \<le> 2 ^ 48" "grown (bb_valueEncoder b) (encoder_after rec b)"
proof -
  show len: "length (a_keys (encoder_after rec b)) \<le> 2 ^ 48"
    using AddToDict_more [of "dr_Value rec" "bb_valueEncoder b"] assms(2) by linarith
  have "adaptive_inv (bb_valueEncoder b)" using assms(1) by (simp add: builder_ok_def)
  from grown_values [OF this, of "[dr_Value rec]"] len show "grown (bb_valueEncoder b) (encoder_after rec b)" by simp
qed

text \<open>The builder takes the record as a whole, or only notes its key.\<close>

lemma whole_items_ok:
  assumes "dr_OpType rec \<le> 3" "slice_ok (dr_Key rec)"
  shows "items_ok ade [whole_item ade rec]"
  using readable_whole_item [OF _ _ assms] by (simp add: items_ok_def)

lemma whole_item_record:
  assumes "adaptive_inv ade" "length (a_keys ade) \<le> 2 ^ 48"
  shows "record_items rec [whole_item ade rec]"
proof -
  obtain f stored where "Adaptive_Encode ade (dr_Value rec) = Ok (f # stored)"
    by (rule Adaptive_Encode_cases [OF assms, of "dr_Value rec"]) auto
  then have "whole_item ade rec = Keyed (full rec) stored (f = 1)" by (simp add: whole_item_def full_def)
  then show ?thesis by (simp add: record_items.whole)
qed

lemma record_cases:
  assumes cur: "current_ok n ri b xs" and keys: "length (a_keys (bb_valueEncoder b)) < 2 ^ 48"
    and rec: "dr_OpType rec \<le> 3" "slice_ok (dr_Key rec)"
  obtains (added) b' x where "Builder_AddRecord rec b = Ok (True, b')" "current_ok n ri b' (xs @ [x])" "record_items rec [x]"
      "items_ok (bb_valueEncoder b') [x]" "bb_valueEncoder b' = encoder_after rec b"
  | (full) "Builder_AddRecord rec b = Ok (False, note_key (dr_Key rec) b)" "int n < int (length (bb_data b)) + record_space rec b"
proof (cases "int (length (bb_data b)) + record_space rec b \<le> bb_blockSize b")
  case True
  have ok: "builder_ok b" "built b xs" using cur by (simp_all add: current_ok_def)
  note len = grown_encoder_after(1) [OF ok(1) keys, of rec]
  have inv: "adaptive_inv (encoder_after rec b)" using ok(1) by (simp add: builder_ok_def adaptive_inv_AddToDict)
  from AddRecord_added [OF ok True len] obtain b' where
    "Builder_AddRecord rec b = Ok (True, b')" "built b' (xs @ [whole_item (encoder_after rec b) rec])"
    "has_room b' (xs @ [whole_item (encoder_after rec b) rec])" "same_settings b b'" "builder_ok b'"
    "bb_valueEncoder b' = encoder_after rec b" by blast
  with cur whole_items_ok [OF rec, of "encoder_after rec b"] whole_item_record [OF inv len, of rec] show thesis
    by (intro added [of b' "whole_item (encoder_after rec b) rec"]) (auto simp: current_ok_def same_settings_def)
next
  case False
  with cur AddRecord_full [of b rec] show thesis by (intro full) (auto simp: current_ok_def)
qed

lemma add_to_block_written:
  assumes inv: "writer_inv n ri (w, d) T xs" and cfg: "cf_BlockSize cfg = int n" and rec: "record_ok n rec"
    and keys: "length (a_keys (writer_dict w)) < 2 ^ 48"
  obtains (added) w' d' T' xs' x where "add_to_block cfg rec (w, d) = (Ok True, (w', d'))" "writer_inv n ri (w', d') T' xs'"
      "items_of T' xs' = items_of T xs @ [x]" "record_items rec [x]" "data_step (w, d) (w', d')"
      "writer_dict w' = snd (Adaptive_AddToDict (dr_Value rec) (writer_dict w))"
  | (full) w' d' T' where "add_to_block cfg rec (w, d) = (Ok False, (w', d'))" "writer_inv n ri (w', d') T' []"
      "items_of T' [] = items_of T xs" "data_step (w, d) (w', d')" "writer_dict w' = writer_dict w"
      "int n < 58 + int (length (dr_Key rec)) * 2 + int (length (dr_Value rec))"
proof -
  let ?b = "sw_dataBlockBuilder w"
  have ok: "dr_OpType rec \<le> 3" "slice_ok (dr_Key rec)" using rec by (simp_all add: record_ok_def)
  have cur: "current_ok n ri ?b xs" and items: "items_ok (writer_dict w) (items_of T xs)" using inv by (simp_all add: writer_inv_def)
  have bok: "builder_ok ?b" using cur by (simp add: current_ok_def)
  note g = grown_encoder_after(2) [OF bok keys, of rec]
  show thesis
  proof (cases rule: record_cases [OF cur keys ok])
    case (1 b' x)
    let ?w = "w\<lparr>sw_dataBlockBuilder := b'\<rparr>"
    have "writer_inv n ri (?w, d) T (xs @ [x])"
      using items_ok_grown [OF items g] 1(4,5) by (intro writer_inv_builder [OF inv 1(2)]) simp
    moreover have "add_to_block cfg rec (w, d) = (Ok True, (?w, d))"
      by (simp add: add_to_block_def bind_s_def with_builder_def 1(1))
    moreover have "data_step (w, d) (?w, d)" by (simp add: data_step_def same_files_def)
    ultimately show thesis using 1(3,5) by (intro added [of ?w d T "xs @ [x]" x]) simp_all
  next
    case 2
    let ?b1 = "note_key (dr_Key rec) ?b"
    define w1 where "w1 = w\<lparr>sw_dataBlockBuilder := ?b1\<rparr>"
    have w1: "with_builder (Builder_AddRecord rec) (w, d) = (Ok False, (w1, d))" by (simp add: with_builder_def 2(1) w1_def)
    have inv1: "writer_inv n ri (w1, d) T xs"
      using items cur unfolding w1_def by (intro writer_inv_builder [OF inv]) simp_all
    have step1: "data_step (w, d) (w1, d)" and dict1: "writer_dict w1 = writer_dict w" by (simp_all add: data_step_def same_files_def w1_def)
    obtain w2 d2 T2 where w2: "flushDataBlock cfg (w1, d) = (Ok (), (w2, d2))" "writer_inv n ri (w2, d2) T2 []"
      "items_of T2 [] = items_of T xs" "data_step (w1, d) (w2, d2)" "writer_dict w2 = writer_dict w1"
    proof (cases "xs = []")
      case True
      with inv1 flush_empty [of n ri w1 d T cfg] show thesis by (intro that [of w1 d T]) simp_all
    next
      case False
      obtain w2 d2 where "flushDataBlock cfg (w1, d) = (Ok (), (w2, d2))" "writer_inv n ri (w2, d2) (T @ [(sw_dataBlockBuilder w1, xs)]) []"
        "data_step (w1, d) (w2, d2)" "writer_dict w2 = writer_dict w1"
        by (rule flush_written [OF inv1 False cfg])
      then show thesis by (intro that [of w2 d2 "T @ [(sw_dataBlockBuilder w1, xs)]"]) simp_all
    qed
    let ?b2 = "sw_dataBlockBuilder w2"
    have cur2: "current_ok n ri ?b2 []" and items2: "items_ok (writer_dict w2) (items_of T2 [])" using w2(2) by (simp_all add: writer_inv_def)
    have keys2: "length (a_keys (writer_dict w2)) < 2 ^ 48" using keys w2(5) dict1 by simp
    note step2 = data_step_trans [OF step1 w2(4)]
    have bok2: "builder_ok ?b2" using cur2 by (simp add: current_ok_def)
    note g2 = grown_encoder_after(2) [OF bok2 keys2, of rec]
    show thesis
    proof (cases rule: record_cases [OF cur2 keys2 ok])
      case (1 b3 x)
      let ?w = "w2\<lparr>sw_dataBlockBuilder := b3\<rparr>"
      have "writer_inv n ri (?w, d2) T2 ([] @ [x])"
        using items_ok_grown [OF items2 g2] 1(4,5) by (intro writer_inv_builder [OF w2(2) 1(2)]) simp
      moreover have "add_to_block cfg rec (w, d) = (Ok True, (?w, d2))"
        by (simp add: add_to_block_def bind_s_def w1 w2(1)) (simp add: with_builder_def 1(1))
      moreover have "data_step (w, d) (?w, d2)" by (rule data_step_trans [OF step2]) (simp add: data_step_def same_files_def)
      ultimately show thesis using 1(3,5) w2(3,5) dict1 by (intro added [of ?w d2 T2 "[x]" x]) simp_all
    next
      case 2
      let ?w = "w2\<lparr>sw_dataBlockBuilder := note_key (dr_Key rec) ?b2\<rparr>"
      have "writer_inv n ri (?w, d2) T2 []" using items2 cur2 by (intro writer_inv_builder [OF w2(2)]) simp_all
      moreover have "add_to_block cfg rec (w, d) = (Ok False, (?w, d2))"
        by (simp add: add_to_block_def bind_s_def w1 w2(1)) (simp add: with_builder_def 2(1))
      moreover have "data_step (w, d) (?w, d2)" by (rule data_step_trans [OF step2]) (simp add: data_step_def same_files_def)
      moreover have "int n < 58 + int (length (dr_Key rec)) * 2 + int (length (dr_Value rec))"
        using 2(2) cur2 current_room [OF cur2] by (simp add: current_ok_def built_def record_space_def)
      ultimately show thesis using w2(3,5) dict1 by (intro full [of ?w d2 T2]) simp_all
    qed
  qed
qed

text \<open>A record that fits in no block: its first chunk fills an empty one, and the loop writes the rest.\<close>

lemma first_chunk_written:
  assumes inv: "writer_inv n ri (w, d) T []" and rec: "record_ok n rec"
    and large: "int n < 58 + int (length (dr_Key rec)) * 2 + int (length (dr_Value rec))"
  obtains w' d' v rest where "first_chunk rec (w, d) = (Ok rest, (w', d'))"
    "writer_inv n ri (w', d') T [Keyed (rec\<lparr>dr_ChunkType := ChunkTypeFirst, dr_Value := v\<rparr>) v False]"
    "dr_Value rec = v @ rest" "rest \<noteq> []" "data_step (w, d) (w', d')" "writer_dict w' = writer_dict w"
proof -
  let ?b = "sw_dataBlockBuilder w"
  have cur: "current_ok n ri ?b []" and items: "items_ok (writer_dict w) (items_of T [])" and bs: "bm_blockSize (sw_blockManager w) = n"
    using inv by (simp_all add: writer_inv_def)
  have b: "builder_ok ?b" "built ?b []" "bb_data ?b = []" "bb_blockSize ?b = int n" "chunk_space ?b = 4"
    using cur current_room [OF cur] by (simp_all add: current_ok_def built_def)
  define a where "a = available (headerOverhead rec) w"
  have a: "a = int n - (90 + int (length (dr_Key rec)) * 2)" by (simp add: a_def available_def headerOverhead_def bs b(3))
  have pos: "0 < a" "\<not> int (length (dr_Value rec)) \<le> a" using rec large by (auto simp: a record_ok_def)
  define v where "v = take (nat a) (dr_Value rec)"
  let ?rec = "rec\<lparr>dr_Value := v\<rparr>"
  have "int (length (bb_data ?b)) + 53 + int (length (dr_Key ?rec)) * 2 + int (length v) + chunk_space ?b \<le> bb_blockSize ?b"
    using a pos by (simp add: b v_def)
  from AddFirstChunk_added [OF b(1,2) this] obtain b' where
    b': "Builder_AddFirstChunk ?rec v ?b = Ok (True, b')" "built b' [Keyed (?rec\<lparr>dr_ChunkType := ChunkTypeFirst\<rparr>) v False]"
      "has_room b' [Keyed (?rec\<lparr>dr_ChunkType := ChunkTypeFirst\<rparr>) v False]" "same_settings ?b b'" "builder_ok b'"
      "bb_valueEncoder b' = writer_dict w" by blast
  have hdr: "append_header ChunkTypeFirst ?rec = append_header ChunkTypeFirst rec" by (simp add: append_header_def fun_eq_iff)
  have "Builder_AddFirstChunk ?rec v ?b = Builder_AddFirstChunk rec v ?b"
    unfolding Builder_AddFirstChunk_def hdr by simp
  with b'(1) have add: "Builder_AddFirstChunk rec v ?b = Ok (True, b')" by simp
  let ?x = "Keyed (rec\<lparr>dr_ChunkType := ChunkTypeFirst, dr_Value := v\<rparr>) v False"
  have x: "Keyed (?rec\<lparr>dr_ChunkType := ChunkTypeFirst\<rparr>) v False = ?x" by simp
  have cur': "current_ok n ri b' [?x]"
    using b'(2,3) [unfolded x] b'(4,5) cur by (simp add: current_ok_def same_settings_def)
  have ok: "items_ok (writer_dict w) [?x]" using rec by (simp add: items_ok_def record_ok_def)
  let ?w = "w\<lparr>sw_dataBlockBuilder := b'\<rparr>"
  have "writer_inv n ri (?w, d) T [?x]"
    using items ok by (intro writer_inv_builder [OF inv cur']) (simp add: b'(6))
  moreover have "first_chunk rec (w, d) = (Ok (drop (nat a) (dr_Value rec)), (?w, d))"
    using pos by (simp add: first_chunk_def Let_def a_def [symmetric] v_def [symmetric] bind_s_def with_builder_def add)
  moreover have "data_step (w, d) (?w, d)" by (simp add: data_step_def same_files_def)
  moreover have "nat a < length (dr_Value rec)" using pos by linarith
  ultimately show thesis
    using b'(6) by (intro that [of "drop (nat a) (dr_Value rec)" ?w d v]) (simp_all add: v_def)
qed

lemma addRecordChunked_written:
  assumes inv: "writer_inv n ri (w, d) T []" and cfg: "cf_BlockSize cfg = int n" and rec: "record_ok n rec"
    and large: "int n < 58 + int (length (dr_Key rec)) * 2 + int (length (dr_Value rec))"
  obtains w' d' T' xs' ys where "addRecordChunked cfg rec (w, d) = Some (Ok (), (w', d'))" "writer_inv n ri (w', d') T' xs'"
    "items_of T' xs' = items_of T [] @ ys" "record_items rec ys" "data_step (w, d) (w', d')" "writer_dict w' = writer_dict w"
proof -
  obtain w1 d1 v rest where c: "first_chunk rec (w, d) = (Ok rest, (w1, d1))"
    "writer_inv n ri (w1, d1) T [Keyed (rec\<lparr>dr_ChunkType := ChunkTypeFirst, dr_Value := v\<rparr>) v False]"
    "dr_Value rec = v @ rest" "rest \<noteq> []" "data_step (w, d) (w1, d1)" "writer_dict w1 = writer_dict w"
    by (rule first_chunk_written [OF inv rec large]) (rule that)
  have n: "71 < n" using rec by (simp add: record_ok_def)
  from chunk_loop_written [OF cfg n c(2) plain_simps(3), of rest] obtain w' d' T' xs' vs where
    l: "chunk_loop cfg rest (w1, d1) = Some (Ok (), (w', d'))" "writer_inv n ri (w', d') T' xs'"
      "items_of T' xs' = items_of T [Keyed (rec\<lparr>dr_ChunkType := ChunkTypeFirst, dr_Value := v\<rparr>) v False] @ cont_items vs"
      "data_step (w1, d1) (w', d')" "writer_dict w' = writer_dict w1" "concat vs = rest" "rest \<noteq> [] \<longrightarrow> vs \<noteq> []"
    by (elim exE conjE) (rule that)
  have "bm_blockSize (sw_blockManager w) = n" "bb_data (sw_dataBlockBuilder w) = []"
    using inv by (simp_all add: writer_inv_def current_ok_def built_def)
  then have "\<not> available (headerOverhead rec) w \<le> 0" using rec by (simp add: available_def headerOverhead_def record_ok_def)
  then have "addRecordChunked cfg rec (w, d) = Some (Ok (), (w', d'))"
    by (simp add: addRecordChunked_def c(1) l(1))
  moreover have "record_items rec (Keyed (rec\<lparr>dr_ChunkType := ChunkTypeFirst, dr_Value := v\<rparr>) v False # cont_items vs)"
    using l(6,7) c(3,4) by (intro record_items.chunks) simp_all
  ultimately show thesis
    using l data_step_trans [OF c(5) l(4)] c(6) by (intro that [of w' d' T' xs' "_ # cont_items vs"]) simp_all
qed

lemma writer_inv_fields:
  assumes "writer_inv n ri (w, d) T xs" "sw_storage w' = sw_storage w" "sw_blockManager w' = sw_blockManager w"
    "sw_currentBlockIndex w' = sw_currentBlockIndex w" "sw_dataBlockBuilder w' = sw_dataBlockBuilder w"
    "sw_merkleTree w' = sw_merkleTree w" "pred_option filter_ok (sw_filterSegment w')" "range_ok w'"
  shows "writer_inv n ri (w', d) T xs"
  using assms by (simp add: writer_inv_def)

lemma filter_ok_Add:
  assumes "filter_ok f"
  obtains f' where "Bloom_Add f k = Ok f'" "filter_ok f'" "filter_grows (Some f) (Some f')" "knows (Some f') k"
proof -
  let ?f = "f\<lparr>bf_bits := foldl setBit (bf_bits f) (positions f k)\<rparr>"
  have "bloom_wf f" using assms by (simp add: filter_ok_def)
  then have "bloom_wf ?f" by (auto simp: bloom_wf_def)
  moreover have "bloom_storable ?f" using assms by (simp add: filter_ok_def bloom_storable_def slice_ok_def)
  moreover have "length (Bloom_ToBytes ?f) = length (Bloom_ToBytes f)" by (simp add: Bloom_ToBytes_def WriteSlice_def)
  moreover have "getBit (bf_bits ?f) i \<longleftrightarrow> i \<in> set (positions f k) \<or> getBit (bf_bits f) i" for i
    using position_in_range [OF \<open>bloom_wf f\<close>] by simp (intro fixed.get_set_all, blast)
  moreover have "positions ?f = positions f" by (simp add: positions_def fun_eq_iff)
  ultimately show thesis
    using Bloom_Add_eq [OF \<open>bloom_wf f\<close>, of k] assms
    by (intro that [of ?f]) (simp_all add: filter_ok_def filter_grows_def knows_def)
qed

lemma record_key_length:
  assumes "writer_inv n ri s T xs" "record_ok n rec"
  shows "length (dr_Key rec) < 2 ^ 32"
  using assms by (cases s) (auto simp: writer_inv_def current_ok_def builder_ok_def record_ok_def)

lemma range_ok_note: "range_ok w \<Longrightarrow> length (dr_Key rec) < 2 ^ 32 \<Longrightarrow> range_ok (note_range rec w)"
  by (simp add: range_ok_def note_range_def copied_key_def)

lemma note_record_written:
  assumes inv: "writer_inv n ri (w, d) T xs" and rec: "record_ok n rec"
  obtains w' where "note_record cfg rec (w, d) = (Ok (), (w', d))" "writer_inv n ri (w', d) T xs" "data_step (w, d) (w', d)"
    "sw_dataBlockBuilder w' = sw_dataBlockBuilder w" "knows (sw_filterSegment w') (dr_Key rec)"
proof -
  define w1 where "w1 = note_key_length rec (note_range rec (w\<lparr>sw_recordCount := sw_recordCount w + 1\<rparr>))"
  have w1: "sw_storage w1 = sw_storage w" "sw_blockManager w1 = sw_blockManager w" "sw_currentBlockIndex w1 = sw_currentBlockIndex w"
    "sw_dataBlockBuilder w1 = sw_dataBlockBuilder w" "sw_filterSegment w1 = sw_filterSegment w" "sw_footer w1 = sw_footer w" "sw_merkleTree w1 = sw_merkleTree w"
    by (simp_all add: w1_def note_key_length_def note_range_def Let_def)
  obtain f where f: "add_to_filter rec (w1, d) = (Ok (), (w1\<lparr>sw_filterSegment := f\<rparr>, d))" "pred_option filter_ok f"
    "filter_grows (sw_filterSegment w1) f" "knows f (dr_Key rec)"
  proof (cases "sw_filterSegment w1")
    case None
    then show thesis by (intro that [of None]) (simp_all add: add_to_filter_def knows_def)
  next
    case (Some f)
    then have "filter_ok f" using inv w1(5) by (simp add: writer_inv_def)
    from filter_ok_Add [OF this, of "dr_Key rec"] obtain f' where "Bloom_Add f (dr_Key rec) = Ok f'" "filter_ok f'"
      "filter_grows (Some f) (Some f')" "knows (Some f') (dr_Key rec)" .
    with Some show thesis by (intro that [of "Some f'"]) (simp_all add: add_to_filter_def)
  qed
  define w' where "w' = add_to_ttl cfg rec (w1\<lparr>sw_filterSegment := f\<rparr>)"
  have w': "sw_storage w' = sw_storage w" "sw_blockManager w' = sw_blockManager w" "sw_currentBlockIndex w' = sw_currentBlockIndex w"
    "sw_dataBlockBuilder w' = sw_dataBlockBuilder w" "sw_filterSegment w' = f" "sw_footer w' = sw_footer w" "sw_merkleTree w' = sw_merkleTree w"
    by (simp_all add: w'_def add_to_ttl_def w1)
  have "range_ok (w\<lparr>sw_recordCount := sw_recordCount w + 1\<rparr>)" using inv by (simp add: writer_inv_def range_ok_def)
  then have "range_ok w1"
    using range_ok_note record_key_length [OF inv rec] by (simp add: w1_def note_key_length_def Let_def range_ok_def)
  then have ok': "range_ok w'" by (simp add: w'_def add_to_ttl_def range_ok_def)
  have "note_record cfg rec (w, d) = (Ok (), (w', d))"
    by (simp add: note_record_def update_writer_def bind_s_def w1_def [symmetric] f(1) w'_def)
  moreover have "writer_inv n ri (w', d) T xs" using f(2) by (intro writer_inv_fields [OF inv]) (simp_all add: w' ok')
  moreover have "data_step (w, d) (w', d)" using f(3) w1(5) by (simp add: data_step_def same_files_def w')
  moreover have "knows (sw_filterSegment w') (dr_Key rec)" using f(4) by (simp add: w')
  ultimately show thesis using w'(4) by (intro that) simp_all
qed

text \<open>Adding a record returns, and the items of the table are extended by those of the record.\<close>

lemma AddRecord_written:
  assumes inv: "writer_inv n ri (w, d) T xs" and cfg: "cf_BlockSize cfg = int n" and rec: "record_ok n rec"
    and keys: "length (a_keys (writer_dict w)) < 2 ^ 48"
  obtains w' d' T' xs' ys where "Writer_AddRecord cfg rec (w, d) = Some (Ok (), (w', d'))" "writer_inv n ri (w', d') T' xs'"
    "items_of T' xs' = items_of T xs @ ys" "record_items rec ys" "data_step (w, d) (w', d')"
    "length (a_keys (writer_dict w')) \<le> Suc (length (a_keys (writer_dict w)))" "knows (sw_filterSegment w') (dr_Key rec)"
proof -
  obtain w1 where w1: "note_record cfg rec (w, d) = (Ok (), (w1, d))" "writer_inv n ri (w1, d) T xs" "data_step (w, d) (w1, d)"
    "sw_dataBlockBuilder w1 = sw_dataBlockBuilder w" "knows (sw_filterSegment w1) (dr_Key rec)" by (rule note_record_written [OF inv rec])
  have known: "knows (sw_filterSegment w') (dr_Key rec)" if "data_step (w1, d) (w', d')" for w' d'
    using knows_grows [OF w1(5)] that by (simp add: data_step_def)
  have keys1: "length (a_keys (writer_dict w1)) < 2 ^ 48" using keys w1(4) by simp
  show thesis
  proof (cases rule: add_to_block_written [OF w1(2) cfg rec keys1])
    case (1 w2 d2 T2 xs2 x)
    have "Writer_AddRecord cfg rec (w, d) = Some (Ok (), (w2, d2))"
      by (simp add: Writer_AddRecord_def bind_s_def w1(1) 1(1))
    moreover have "length (a_keys (writer_dict w2)) \<le> Suc (length (a_keys (writer_dict w)))"
      using AddToDict_more [of "dr_Value rec" "writer_dict w"] by (simp add: 1(6) w1(4))
    ultimately show thesis using that [of w2 d2 T2 xs2 "[x]"] 1(2-4) data_step_trans [OF w1(3) 1(5)] known [OF 1(5)] by simp
  next
    case (2 w2 d2 T2)
    define w3 where "w3 = w2\<lparr>sw_recordCount := sw_recordCount w2 - 1\<rparr>"
    have inv3: "writer_inv n ri (w3, d2) T2 []"
      using 2(2) by (intro writer_inv_fields [OF 2(2)]) (simp_all add: w3_def writer_inv_def range_ok_def)
    have step3: "data_step (w1, d) (w3, d2)"
      by (rule data_step_trans [OF 2(4)]) (simp add: data_step_def same_files_def w3_def)
    obtain w' d' T' xs' ys where c: "addRecordChunked cfg rec (w3, d2) = Some (Ok (), (w', d'))" "writer_inv n ri (w', d') T' xs'"
      "items_of T' xs' = items_of T2 [] @ ys" "record_items rec ys" "data_step (w3, d2) (w', d')" "writer_dict w' = writer_dict w3"
      by (rule addRecordChunked_written [OF inv3 cfg rec 2(6)])
    have "Writer_AddRecord cfg rec (w, d) = Some (Ok (), (w', d'))"
      using c(1) by (simp add: Writer_AddRecord_def bind_s_def w1(1) 2(1) w3_def)
    moreover have "writer_dict w' = writer_dict w" using c(6) 2(5) w1(4) by (simp add: w3_def)
    ultimately show thesis
      using that [of w' d' T' xs' ys] c(2-4) 2(3) data_step_trans [OF w1(3) data_step_trans [OF step3 c(5)]]
        known [OF data_step_trans [OF step3 c(5)]] by simp
  qed
qed

fun write_records :: "TableSettings \<Rightarrow> DataRecord list \<Rightarrow> writer_state \<Rightarrow> (unit result \<times> writer_state) option" where
  "write_records cfg [] s = Some (Ok (), s)"
| "write_records cfg (r # rs) s =
     Option.bind (Writer_AddRecord cfg r s) (\<lambda>(res, s). case res of Inl e \<Rightarrow> Some (Inl e, s) | Inr _ \<Rightarrow> write_records cfg rs s)"

lemma write_records_written:
  assumes cfg: "cf_BlockSize cfg = int n"
  shows "writer_inv n ri (w, d) T xs \<Longrightarrow> list_all (record_ok n) recs \<Longrightarrow> stored_as old (items_of T xs) \<Longrightarrow>
    length (a_keys (writer_dict w)) + length recs < 2 ^ 48 \<Longrightarrow>
    \<exists>w' d' T' xs'. write_records cfg recs (w, d) = Some (Ok (), (w', d')) \<and> writer_inv n ri (w', d') T' xs' \<and>
      stored_as (old @ recs) (items_of T' xs') \<and> data_step (w, d) (w', d') \<and> (\<forall>r \<in> set recs. knows (sw_filterSegment w') (dr_Key r))"
proof (induction recs arbitrary: w d T xs old)
  case Nil
  then show ?case by (intro exI [of _ w] exI [of _ d] exI [of _ T] exI [of _ xs]) simp
next
  case (Cons r recs)
  have r: "record_ok n r" "length (a_keys (writer_dict w)) < 2 ^ 48" using Cons.prems(2,4) by simp_all
  obtain w1 d1 T1 xs1 ys where a: "Writer_AddRecord cfg r (w, d) = Some (Ok (), (w1, d1))" "writer_inv n ri (w1, d1) T1 xs1"
    "items_of T1 xs1 = items_of T xs @ ys" "record_items r ys" "data_step (w, d) (w1, d1)"
    "length (a_keys (writer_dict w1)) \<le> Suc (length (a_keys (writer_dict w)))" "knows (sw_filterSegment w1) (dr_Key r)"
    by (rule AddRecord_written [OF Cons.prems(1) cfg r])
  have st: "stored_as (old @ [r]) (items_of T1 xs1)"
    unfolding a(3) by (rule stored_as_append [OF Cons.prems(3) stored_as_single [OF a(4)]])
  have "list_all (record_ok n) recs" "length (a_keys (writer_dict w1)) + length recs < 2 ^ 48" using Cons.prems(2,4) a(6) by simp_all
  from Cons.IH [OF a(2) this(1) st this(2)] obtain w' d' T' xs' where
    w': "write_records cfg recs (w1, d1) = Some (Ok (), (w', d'))" "writer_inv n ri (w', d') T' xs'"
      "stored_as ((old @ [r]) @ recs) (items_of T' xs')" "data_step (w1, d1) (w', d')"
      "\<forall>r \<in> set recs. knows (sw_filterSegment w') (dr_Key r)" by blast
  have "knows (sw_filterSegment w') (dr_Key r)" using knows_grows [OF a(7)] w'(4) by (simp add: data_step_def)
  with w' a(1) data_step_trans [OF a(5) w'(4)] show ?case
    by (intro exI [of _ w'] exI [of _ d'] exI [of _ T'] exI [of _ xs']) simp
qed

end
