(* ===== verification/Table_File.thy ===== *)
theory Table_File
  imports Table_Written
begin

text \<open>
  \<^verbatim>\<open>Finalize\<close> and what it leaves on disk: the data blocks stay where they are while the other segments are written, and the
  metadata, the dictionary and the footer can be read at the places the footer names.
\<close>

section \<open>Steps that keep what is written\<close>

text \<open>What stays in the footer once the filter is written.\<close>

definition footer_base :: "Footer \<Rightarrow> byte \<times> u32 \<times> byte \<times> SegmentHandler" where
  "footer_base f = (ft_Version f, ft_MagicNumber f, ft_Format f, ft_FilterHandler f)"

definition keeps_disk :: "nat \<Rightarrow> writer_state \<Rightarrow> writer_state \<Rightarrow> bool" where
  "keeps_disk n = (\<lambda>(w, d) (w', d').
     storage_inv n (sw_storage w, d) \<longrightarrow>
       storage_inv n (sw_storage w', d') \<and> same_files (w, d) (w', d') \<and>
       (\<forall>seg off k. storage_written n seg off k (sw_storage w, d) \<longrightarrow>
          storage_written n seg off k (sw_storage w', d') \<and>
          storage_read seg off k (sw_storage w', d') = storage_read seg off k (sw_storage w, d)))"

definition same_parts :: "SSTableWriter \<Rightarrow> SSTableWriter \<Rightarrow> bool" where
  "same_parts w w' \<longleftrightarrow> sw_dataBlockBuilder w' = sw_dataBlockBuilder w \<and> sw_metadataSegment w' = sw_metadataSegment w \<and>
     sw_filterSegment w' = sw_filterSegment w \<and> sw_merkleTree w' = sw_merkleTree w"

definition keeps :: "nat \<Rightarrow> writer_state \<Rightarrow> writer_state \<Rightarrow> bool" where
  "keeps n s s' \<longleftrightarrow> keeps_disk n s s' \<and> same_parts (fst s) (fst s') \<and> footer_base (sw_footer (fst s')) = footer_base (sw_footer (fst s))"

lemma keeps_disk_refl [simp]: "keeps_disk n s s"
  by (cases s) (simp add: keeps_disk_def)

lemma keeps_disk_trans:
  assumes "keeps_disk n s s'" "keeps_disk n s' s''"
  shows "keeps_disk n s s''"
proof -
  obtain w d w' d' w'' d'' where s: "s = (w, d)" "s' = (w', d')" "s'' = (w'', d'')" by (metis prod.exhaust)
  show ?thesis
    using assms same_files_trans [of "(w, d)" "(w', d')" "(w'', d'')"] by (simp add: keeps_disk_def s)
qed

lemma keeps_refl [simp]: "keeps n s s"
  by (simp add: keeps_def same_parts_def)

lemma keeps_trans: "keeps n s s' \<Longrightarrow> keeps n s' s'' \<Longrightarrow> keeps n s s''"
  using keeps_disk_trans [of n s s' s''] by (simp add: keeps_def same_parts_def)

definition safe :: "nat \<Rightarrow> 'a writer_op \<Rightarrow> bool" where
  "safe n m \<longleftrightarrow> (\<forall>s x s'. m s = (Ok x, s') \<longrightarrow> keeps n s s')"

lemma safeD: "safe n m \<Longrightarrow> m s = (Ok x, s') \<Longrightarrow> keeps n s s'"
  unfolding safe_def by blast

lemma safe_bind: "safe n m \<Longrightarrow> (\<And>x. safe n (f x)) \<Longrightarrow> safe n (bind_s m f)"
  unfolding safe_def bind_s_eq_Inr by (blast intro: keeps_trans)

lemma safe_ret: "safe n (ret_s x)" and safe_lift: "safe n (lift_s r)"
  by (auto simp: safe_def)

lemma safe_lift_bind: "(\<And>x. r = Ok x \<Longrightarrow> safe n (f x)) \<Longrightarrow> safe n (bind_s (lift_s r) f)"
  by (auto simp: safe_def bind_s_eq_Inr)

lemma safe_state: "(\<And>w. safe n (m w)) \<Longrightarrow> safe n (\<lambda>(w, d). m w (w, d))"
  by (auto simp: safe_def)

lemma write_keeps_disk:
  assumes "seg_fits n seg data" "seg \<noteq> SegmentFooter" "write_segment seg data (w, d) = (Ok x, (w', d'))"
  shows "keeps_disk n (w, d) (w', d')"
proof -
  obtain st where w: "WriteSegment seg data (sw_storage w, d) = (Ok x, (st, d'))" "w' = w\<lparr>sw_storage := st\<rparr>"
    using assms(3) by (auto simp: write_segment_def split: prod.splits)
  have "storage_inv n (st, d')" if "storage_inv n (sw_storage w, d)"
    using storage.write_reads [OF that assms(1)] w(1) by auto
  moreover have "data_step (w, d) (w', d')" using write_segment_step(1) assms(2,3) by blast
  ultimately show ?thesis
    using storage.write_keeps [OF _ assms(1) w(1)] by (simp add: keeps_disk_def w(2) data_step_def)
qed

lemma safe_write:
  assumes "seg_fits n seg data" "seg \<noteq> SegmentFooter"
  shows "safe n (write_segment seg data)"
  unfolding safe_def
proof (intro allI impI)
  fix s s' :: writer_state and x
  assume m: "write_segment seg data s = (Ok x, s')"
  obtain w d w' d' where s: "s = (w, d)" "s' = (w', d')" by (metis prod.exhaust)
  obtain st where "w' = w\<lparr>sw_storage := st\<rparr>"
    using write_segment_step(2) [of seg data w d "Ok x" w' d'] m assms(2) by (auto simp: s)
  with write_keeps_disk [OF assms m [unfolded s]] show "keeps n s s'" by (simp add: keeps_def same_parts_def s)
qed

lemma safe_update:
  assumes "\<And>w. sw_storage (f w) = sw_storage w" "\<And>w. sw_blockManager (f w) = sw_blockManager w"
    "\<And>w. sw_dataBlockBuilder (f w) = sw_dataBlockBuilder w" "\<And>w. sw_metadataSegment (f w) = sw_metadataSegment w"
    "\<And>w. sw_filterSegment (f w) = sw_filterSegment w" "\<And>w. sw_merkleTree (f w) = sw_merkleTree w"
    "\<And>w. footer_base (sw_footer (f w)) = footer_base (sw_footer w)"
  shows "safe n (update_writer f)"
  using assms by (auto simp: safe_def keeps_def keeps_disk_def same_parts_def update_writer_def same_files_def)

lemma safe_footer: "(\<And>ft. footer_base (f ft) = footer_base ft) \<Longrightarrow> safe n (set_footer f)"
  unfolding set_footer_def by (rule safe_update) simp_all

lemma safe_blocks:
  assumes "\<And>b data. encode b = Ok data \<Longrightarrow> seg_fits n seg data" "seg \<noteq> SegmentFooter"
  shows "safe n (write_blocks seg encode bs)"
proof (induction bs)
  case Nil
  show ?case by (simp only: write_blocks.simps safe_ret)
next
  case (Cons b bs)
  then show ?case unfolding write_blocks.simps by (intro safe_lift_bind safe_bind safe_write safe_ret assms) auto
qed

lemma plain_fits [simp]:
  "seg_fits n SegmentFilter data" "seg_fits n SegmentSummary data" "seg_fits n SegmentMerkleTree data"
  "seg_fits n SegmentMetadata data" "seg_fits n SegmentDictionary data" "seg_fits n SegmentFooter data"
  by (simp_all add: seg_fits_def block_segment_def)

lemma block_size_word:
  assumes "cf_BlockSize cfg = int n" "n < 2 ^ 19"
  shows "unat (of_int (cf_BlockSize cfg) :: u64) = n"
  using assms by (simp add: unat_of_nat take_bit_nat_eq_self)

text \<open>The parts of \<^verbatim>\<open>Finalize\<close> that only write segments and set handlers.\<close>

lemma handlers_base:
  "footer_base (ft\<lparr>ft_IndexHandler := h\<rparr>) = footer_base ft"
  "footer_base (ft\<lparr>ft_TTLIndexHandler := h\<rparr>) = footer_base ft" "footer_base (ft\<lparr>ft_RangeDelIndexHandler := h\<rparr>) = footer_base ft"
  "footer_base (ft\<lparr>ft_SummaryHandler := h\<rparr>) = footer_base ft" "footer_base (ft\<lparr>ft_MerkleHandler := h\<rparr>) = footer_base ft"
  "footer_base (ft\<lparr>ft_MetaDataHandler := h\<rparr>) = footer_base ft" "footer_base (ft\<lparr>ft_DictionaryHandler := h\<rparr>) = footer_base ft"
  by (simp_all add: footer_base_def)

lemma index_fits:
  assumes "cf_BlockSize cfg = int n" "n < 2 ^ 19"
  shows "EncodeIndexBlock ib (of_int (cf_BlockSize cfg)) = Ok data \<Longrightarrow> seg_fits n SegmentIndex data"
    "TTLIndexBlock_Encode tb (of_int (cf_BlockSize cfg)) = Ok data \<Longrightarrow> seg_fits n SegmentTTLIndex data"
    "RangeDelIndexBlock_Encode rb (of_int (cf_BlockSize cfg)) = Ok data \<Longrightarrow> seg_fits n SegmentRangeDelIndex data"
  using encoded_lengths block_size_word [OF assms] by (auto simp: seg_fits_def)

lemmas safe_rules = safe_ret safe_lift safe_bind safe_lift_bind safe_write safe_update safe_footer safe_blocks

lemma safe_index: "cf_BlockSize cfg = int n \<Longrightarrow> n < 2 ^ 19 \<Longrightarrow> safe n (write_index cfg)"
  unfolding write_index_def
  by (intro safe_state safe_rules) (auto intro: index_fits simp: handlers_base)

lemma safe_ttl: "cf_BlockSize cfg = int n \<Longrightarrow> n < 2 ^ 19 \<Longrightarrow> safe n (write_ttl cfg)"
  unfolding write_ttl_def
  by (intro safe_state safe_rules) (auto intro: index_fits simp: handlers_base)

lemma safe_rangedel: "cf_BlockSize cfg = int n \<Longrightarrow> n < 2 ^ 19 \<Longrightarrow> safe n (write_rangedel cfg)"
  unfolding write_rangedel_def
  by (intro safe_state safe_rules) (auto intro: index_fits simp: handlers_base)

lemma keeps_summary:
  assumes "write_summary offs s = Some (Ok (), s')"
  shows "keeps n s s'"
proof (cases "offs = []")
  case True
  have "safe n (bind_s (update_writer (\<lambda>w. w\<lparr>sw_summarySegment := NewSummarySegment 1\<rparr>)) (\<lambda>_.
      set_footer (\<lambda>ft. ft\<lparr>ft_SummaryHandler := zero_handler\<rparr>)))"
    by (intro safe_rules) (simp_all add: handlers_base)
  with assms True show ?thesis by (cases s) (auto simp: write_summary_def intro: safeD)
next
  case False
  have "safe n (bind_s (lift_s summary) (\<lambda>summary.
        bind_s (update_writer (\<lambda>w. w\<lparr>sw_summarySegment := summary\<rparr>)) (\<lambda>_.
        bind_s (lift_s (Summary_Encode summary)) (\<lambda>data.
        bind_s (write_segment SegmentSummary data) (\<lambda>place.
        set_footer (\<lambda>ft. ft\<lparr>ft_SummaryHandler := handler_of place\<rparr>))))))" for summary
    by (intro safe_rules) (simp_all add: handlers_base)
  with assms False show ?thesis by (cases s) (auto simp: write_summary_def intro: safeD)
qed

section \<open>Segments at their places\<close>

definition stored_at :: "nat \<Rightarrow> SegmentType \<Rightarrow> nat \<times> nat \<Rightarrow> bytes \<Rightarrow> writer_state \<Rightarrow> bool" where
  "stored_at n seg place data = (\<lambda>(w, d). snd place = length data \<and>
     storage_written n seg (fst place) (snd place) (sw_storage w, d) \<and>
     storage_read seg (fst place) (snd place) (sw_storage w, d) = Ok data)"

lemma stored_at_keeps:
  assumes "stored_at n seg place data s" "keeps_disk n s s'" "storage_inv n (sw_storage (fst s), snd s)"
  shows "stored_at n seg place data s'"
  using assms by (cases s; cases s') (auto simp: stored_at_def keeps_disk_def)

lemma stored_at_fields: "sw_storage w' = sw_storage w \<Longrightarrow> stored_at n seg place data (w', d) = stored_at n seg place data (w, d)"
  by (simp add: stored_at_def)

text \<open>Writing a segment that is not made of blocks and setting its handler.\<close>

lemma put_segment:
  assumes "bind_s (write_segment seg data) (\<lambda>place. set_footer (f place)) (w, d) = (Ok (), (w', d'))"
    and "\<not> block_segment seg" "seg \<noteq> SegmentFooter" "storage_inv n (sw_storage w, d)"
  obtains st place where "w' = w\<lparr>sw_storage := st, sw_footer := f place (sw_footer w)\<rparr>" "stored_at n seg place data (w', d')"
    "keeps_disk n (w, d) (w', d')" "storage_inv n (sw_storage w', d')"
proof -
  obtain place w1 d1 where w1: "write_segment seg data (w, d) = (Ok place, (w1, d1))" "set_footer (f place) (w1, d1) = (Ok (), (w', d'))"
    using assms(1) by (auto simp: bind_s_eq_Inr)
  have w': "w' = w1\<lparr>sw_footer := f place (sw_footer w1)\<rparr>" "d' = d1" using w1(2) by (auto simp: set_footer_def update_writer_def)
  obtain st where st: "WriteSegment seg data (sw_storage w, d) = (Ok place, (st, d1))" "w1 = w\<lparr>sw_storage := st\<rparr>"
    using w1(1) by (auto simp: write_segment_def split: prod.splits)
  obtain off k where place: "place = (off, k)" by fastforce
  have fits: "seg_fits n seg data" and img: "seg_image n seg data = data" using assms(2) by (simp_all add: seg_fits_def seg_image_def)
  from storage.write_reads [OF assms(4) fits] st(1) place have
    r: "storage_inv n (st, d1)" "storage_written n seg off k (st, d1)" "storage_read seg off k (st, d1) = Ok data"
    by (auto simp: img)
  have "k = length data" using WriteSegment_place(2) [OF assms(4) st(1) [unfolded place]] assms(2) by simp
  then have "stored_at n seg place data (w', d')" using r by (simp add: stored_at_def place w' st(2))
  moreover have "keeps_disk n (w, d) (w1, d1)" by (rule write_keeps_disk [OF fits assms(3) w1(1)])
  then have "keeps_disk n (w, d) (w', d')" by (simp add: keeps_disk_def same_files_def w')
  ultimately show thesis using r(1) by (intro that [of place st]) (simp_all add: w' st(2))
qed

text \<open>The footer is the last segment.\<close>

lemma put_footer:
  assumes "Footer_WriteToStorage (w, d) = (Ok (), (w', d'))" "storage_inv n (sw_storage w, d)"
  obtains st where "w' = w\<lparr>sw_storage := st\<rparr>" "storage_inv n (st, d')"
    "stored_at n SegmentFooter (storage_end SegmentFooter (sw_storage w), FooterSize)
       (footer_body (sw_footer w) @ put_u32 (crc32_ChecksumIEEE (footer_body (sw_footer w)))) (w', d')"
    "storage_end SegmentFooter st = storage_end SegmentFooter (sw_storage w) + FooterSize"
    "\<forall>x. segment_path x st = segment_path x (sw_storage w)" "single_file st = single_file (sw_storage w)"
    "\<forall>q. (\<forall>x. q \<noteq> segment_path x (sw_storage w)) \<longrightarrow> d' q = d q"
    "\<forall>seg place data. stored_at n seg place data (w, d) \<longrightarrow> stored_at n seg place data (w', d')"
    "\<forall>i b. block_stored n (sw_storage w, d) i b \<longrightarrow> block_stored n (st, d') i b"
proof -
  define data where "data = footer_body (sw_footer w) @ put_u32 (crc32_ChecksumIEEE (footer_body (sw_footer w)))"
  have len: "length data = FooterSize" by (simp add: data_def)
  obtain place st where st: "WriteSegment SegmentFooter data (sw_storage w, d) = (Ok place, (st, d'))" "w' = w\<lparr>sw_storage := st\<rparr>"
    using assms(1) by (auto simp: Footer_WriteToStorage_def bind_s_eq_Inr Footer_Encode_eq data_def write_segment_def split: prod.splits)
  obtain off k where place: "place = (off, k)" by fastforce
  have fits: "seg_fits n SegmentFooter data" and nb: "\<not> block_segment SegmentFooter" by (simp_all add: block_segment_def)
  have img: "seg_image n SegmentFooter data = data" using nb by (simp add: seg_image_def)
  from storage.write_reads [OF assms(2) fits] st(1) place have
    r: "storage_inv n (st, d')" "storage_written n SegmentFooter off k (st, d')" "storage_read SegmentFooter off k (st, d') = Ok data"
    by (auto simp: img)
  from WriteSegment_place [OF assms(2) st(1) [unfolded place]] nb len
  have e: "off = storage_end SegmentFooter (sw_storage w)" "k = FooterSize" "storage_end SegmentFooter st = off + FooterSize" by simp_all
  note keep = storage.write_keeps [OF assms(2) fits st(1)]
  note fixed = WriteSegment_fixed [OF st(1)]
  show thesis
  proof (rule that [of st])
    show "stored_at n SegmentFooter (storage_end SegmentFooter (sw_storage w), FooterSize)
       (footer_body (sw_footer w) @ put_u32 (crc32_ChecksumIEEE (footer_body (sw_footer w)))) (w', d')"
      using r(2,3) e len by (simp add: stored_at_def st(2) data_def [symmetric])
    show "\<forall>seg place data. stored_at n seg place data (w, d) \<longrightarrow> stored_at n seg place data (w', d')"
      using keep by (auto simp: stored_at_def st(2))
    show "\<forall>i b. block_stored n (sw_storage w, d) i b \<longrightarrow> block_stored n (st, d') i b"
      using keep by (auto simp: block_stored_def)
  qed (use st(2) r(1) e fixed in auto)
qed

section \<open>The steps of \<open>Finalize\<close>\<close>

definition blocks_in :: "nat \<Rightarrow> table_blocks \<Rightarrow> writer_state \<Rightarrow> bool" where
  "blocks_in n T = (\<lambda>(w, d). storage_inv n (sw_storage w, d) \<and> (\<forall>i < length T. block_stored n (sw_storage w, d) i (fst (T ! i))))"

lemma blocks_in_keeps:
  assumes "blocks_in n T s" "keeps_disk n s s'"
  shows "blocks_in n T s'"
  using assms by (cases s; cases s') (auto simp: blocks_in_def keeps_disk_def block_stored_def)

lemma blocks_in_inv: "blocks_in n T s \<Longrightarrow> storage_inv n (sw_storage (fst s), snd s)"
  by (cases s) (simp add: blocks_in_def)

text \<open>A segment at the place its handler names.\<close>

definition located :: "nat \<Rightarrow> SegmentType \<Rightarrow> SegmentHandler \<Rightarrow> bytes \<Rightarrow> writer_state \<Rightarrow> bool" where
  "located n seg h data s \<longleftrightarrow> (\<exists>place. h = handler_of place \<and> stored_at n seg place data s)"

lemma located_keeps:
  "located n seg h data s \<Longrightarrow> keeps_disk n s s' \<Longrightarrow> blocks_in n T s \<Longrightarrow> located n seg h data s'"
  using stored_at_keeps blocks_in_inv unfolding located_def by blast

definition filter_stored :: "nat \<Rightarrow> writer_state \<Rightarrow> bool" where
  "filter_stored n s \<longleftrightarrow> (case sw_filterSegment (fst s) of
       None \<Rightarrow> ft_FilterHandler (sw_footer (fst s)) = zero_handler
     | Some f \<Rightarrow> located n SegmentFilter (ft_FilterHandler (sw_footer (fst s))) (FilterSegment_Encode f) s)"

text \<open>The data blocks and the first segments: up to the metadata in memory.\<close>

definition data_finished :: "nat \<Rightarrow> TableSettings \<Rightarrow> table_blocks \<Rightarrow> writer_state \<Rightarrow> writer_state \<Rightarrow> bool" where
  "data_finished n cfg T = (\<lambda>(w, d) (w', d').
     blocks_in n T (w', d') \<and> same_files (w, d) (w', d') \<and> writer_dict w' = writer_dict w \<and>
     sw_filterSegment w' = sw_filterSegment w \<and>
     Merkle_Build (fold AddLeaf (map (block_hash n) T) NewMerkleTree) = Ok (sw_merkleTree w') \<and>
     footer_base (sw_footer w') = footer_base ((sw_footer w)\<lparr>ft_Format := cf_Format cfg\<rparr>) \<and>
     (\<exists>v. sw_metadataSegment w' = Some (table_metadata cfg v) \<and> sw_currentBlockIndex v = of_nat (length T) \<and>
        bm_blockSize (sw_blockManager v) = n \<and> sw_minKey v = sw_minKey w \<and> sw_maxKey v = sw_maxKey w))"

definition flushed :: "table_blocks \<Rightarrow> block_item list \<Rightarrow> DataBlockBuilder \<Rightarrow> table_blocks" where
  "flushed T xs b = (if xs = [] then T else T @ [(b, xs)])"

lemma items_flushed: "concat (map snd (flushed T xs b)) = items_of T xs"
  by (simp add: flushed_def)

lemma flush_range:
  assumes "flushDataBlock cfg (w, d) = (r, (w', d'))"
  shows "sw_filterSegment w' = sw_filterSegment w \<and> sw_minKey w' = sw_minKey w \<and> sw_maxKey w' = sw_maxKey w"
  using assms
  by (auto simp: flushDataBlock_def bind_s_def write_segment_def update_writer_def with_builder_def note_block_def Let_def
      split: sum.splits prod.splits if_splits)

lemma data_finished:
  assumes inv: "writer_inv n ri (w, d) T xs" and cfg: "cf_BlockSize cfg = int n"
    and run: "bind_s (flushDataBlock cfg) (\<lambda>_. bind_s (update_writer finish_index) (\<lambda>_. bind_s build_tree (\<lambda>_.
        update_writer (set_metadata cfg)))) (w, d) = (Ok (), (w', d'))"
  shows "data_finished n cfg (flushed T xs (sw_dataBlockBuilder w)) (w, d) (w', d')"
    "list_all (block_good n ri) (flushed T xs (sw_dataBlockBuilder w))"
proof -
  let ?T = "flushed T xs (sw_dataBlockBuilder w)"
  obtain w1 d1 where f: "flushDataBlock cfg (w, d) = (Ok (), (w1, d1))" "writer_inv n ri (w1, d1) ?T []"
    "data_step (w, d) (w1, d1)" "writer_dict w1 = writer_dict w"
  proof (cases "xs = []")
    case True
    then show thesis using that [of w d] inv flush_empty [of n ri w d T cfg] by (simp add: flushed_def)
  next
    case False
    from flush_written [OF inv False cfg] that show thesis by (auto simp: flushed_def False)
  qed
  define w2 where "w2 = finish_index w1"
  have w2: "sw_storage w2 = sw_storage w1" "sw_merkleTree w2 = sw_merkleTree w1" "sw_filterSegment w2 = sw_filterSegment w1"
    "sw_dataBlockBuilder w2 = sw_dataBlockBuilder w1" "sw_footer w2 = sw_footer w1" "sw_blockManager w2 = sw_blockManager w1"
    "sw_currentBlockIndex w2 = sw_currentBlockIndex w1" "sw_minKey w2 = sw_minKey w1" "sw_maxKey w2 = sw_maxKey w1"
    by (simp_all add: w2_def finish_index_def)
  from run f(1) obtain t where t: "Merkle_Build (sw_merkleTree w1) = Ok t"
    and w': "w' = set_metadata cfg (w2\<lparr>sw_merkleTree := t\<rparr>)" "d' = d1"
    by (auto simp: bind_s_def update_writer_def build_tree_def w2_def [symmetric] w2(2) split: sum.splits)
  have tree: "sw_merkleTree w1 = fold AddLeaf (map (block_hash n) ?T) NewMerkleTree" using f(2) by (simp add: writer_inv_def)
  have "blocks_in n ?T (w', d')"
    using f(2) by (simp add: blocks_in_def w' set_metadata_def w2 writer_inv_def)
  moreover have "same_files (w, d) (w', d')"
    using f(3) by (simp add: data_step_def same_files_def w' set_metadata_def w2)
  moreover have "footer_base (sw_footer w') = footer_base ((sw_footer w)\<lparr>ft_Format := cf_Format cfg\<rparr>)"
    using f(3) by (simp add: w' set_metadata_def w2 data_step_def footer_base_def)
  moreover have "\<exists>v. sw_metadataSegment w' = Some (table_metadata cfg v) \<and> sw_currentBlockIndex v = of_nat (length ?T) \<and>
      bm_blockSize (sw_blockManager v) = n \<and> sw_minKey v = sw_minKey w \<and> sw_maxKey v = sw_maxKey w"
    using f(2) flush_range [OF f(1)]
    by (intro exI [of _ "w2\<lparr>sw_merkleTree := t\<rparr>"]) (simp add: w' set_metadata_def w2 writer_inv_def)
  ultimately show "data_finished n cfg ?T (w, d) (w', d')"
    using t flush_range [OF f(1)] f(4) by (simp add: data_finished_def w' set_metadata_def w2 tree)
  show "list_all (block_good n ri) ?T" using f(2) by (simp add: writer_inv_def)
qed

text \<open>The filter.\<close>

lemma write_filter_stored:
  assumes "write_filter (w, d) = (Ok (), (w', d'))" "storage_inv n (sw_storage w, d)" "ft_FilterHandler (sw_footer w) = zero_handler"
  shows "keeps_disk n (w, d) (w', d')" "same_parts w w'" "filter_stored n (w', d')"
    "ft_Version (sw_footer w') = ft_Version (sw_footer w)" "ft_MagicNumber (sw_footer w') = ft_MagicNumber (sw_footer w)"
    "ft_Format (sw_footer w') = ft_Format (sw_footer w)"
proof -
  have "keeps_disk n (w, d) (w', d') \<and> same_parts w w' \<and> filter_stored n (w', d') \<and>
    ft_Version (sw_footer w') = ft_Version (sw_footer w) \<and> ft_MagicNumber (sw_footer w') = ft_MagicNumber (sw_footer w) \<and>
    ft_Format (sw_footer w') = ft_Format (sw_footer w)"
  proof (cases "sw_filterSegment w")
    case None
    with assms show ?thesis by (simp add: write_filter_def same_parts_def filter_stored_def)
  next
    case (Some f)
    have "bind_s (write_segment SegmentFilter (FilterSegment_Encode f)) (\<lambda>place.
         set_footer ((\<lambda>place ft. ft\<lparr>ft_FilterHandler := handler_of place\<rparr>) place)) (w, d) = (Ok (), (w', d'))"
      using assms(1) Some by (simp add: write_filter_def)
    note run = this
    have nb: "\<not> block_segment SegmentFilter" by (simp add: block_segment_def)
    obtain st place where
      p: "w' = w\<lparr>sw_storage := st, sw_footer := (sw_footer w)\<lparr>ft_FilterHandler := handler_of place\<rparr>\<rparr>"
        "stored_at n SegmentFilter place (FilterSegment_Encode f) (w', d')" "keeps_disk n (w, d) (w', d')" "storage_inv n (sw_storage w', d')"
      by (rule put_segment [OF run nb _ assms(2)]) simp_all
    from p(2) have "located n SegmentFilter (handler_of place) (FilterSegment_Encode f) (w', d')"
      unfolding located_def by blast
    with p(1,3) Some show ?thesis by (simp add: same_parts_def filter_stored_def)
  qed
  then show "keeps_disk n (w, d) (w', d')" "same_parts w w'" "filter_stored n (w', d')"
    "ft_Version (sw_footer w') = ft_Version (sw_footer w)" "ft_MagicNumber (sw_footer w') = ft_MagicNumber (sw_footer w)"
    "ft_Format (sw_footer w') = ft_Format (sw_footer w)" by auto
qed

lemma filter_stored_keeps:
  assumes "filter_stored n s" "keeps n s s'" "blocks_in n T s"
  shows "filter_stored n s'"
  using assms located_keeps [of n SegmentFilter _ _ s s' T]
  by (auto simp: filter_stored_def keeps_def same_parts_def footer_base_def split: option.splits)

text \<open>The tree, the metadata and the dictionary, one after the other.\<close>

definition segments_stored :: "nat \<Rightarrow> writer_state \<Rightarrow> bool" where
  "segments_stored n s \<longleftrightarrow> (let w = fst s; ft = sw_footer w in
     filter_stored n s \<and>
     (\<exists>data. Merkle_Encode (sw_merkleTree w) = Ok data \<and> located n SegmentMerkleTree (ft_MerkleHandler ft) data s) \<and>
     (\<exists>m. sw_metadataSegment w = Some m \<and> located n SegmentMetadata (ft_MetaDataHandler ft) (Metadata_Encode m) s) \<and>
     located n SegmentDictionary (ft_DictionaryHandler ft) (Adaptive_SaveDict (writer_dict w)) s)"

lemma put_located:
  assumes "bind_s (write_segment seg data) (\<lambda>place. set_footer (f (handler_of place))) (w, d) = (Ok (), (w', d'))"
    and "\<not> block_segment seg" "seg \<noteq> SegmentFooter" "blocks_in n T (w, d)"
  obtains st h where "w' = w\<lparr>sw_storage := st, sw_footer := f h (sw_footer w)\<rparr>" "located n seg h data (w', d')"
    "keeps_disk n (w, d) (w', d')" "blocks_in n T (w', d')" "same_parts w w'"
proof -
  have inv: "storage_inv n (sw_storage w, d)" using blocks_in_inv [OF assms(4)] by simp
  obtain st place where p: "w' = w\<lparr>sw_storage := st, sw_footer := f (handler_of place) (sw_footer w)\<rparr>"
    "stored_at n seg place data (w', d')" "keeps_disk n (w, d) (w', d')" "storage_inv n (sw_storage w', d')"
    by (rule put_segment [OF assms(1-3) inv])
  have "located n seg (handler_of place) data (w', d')" using p(2) unfolding located_def by blast
  moreover have "same_parts w w'" by (simp add: same_parts_def p(1))
  ultimately show thesis using p(1,3) blocks_in_keeps [OF assms(4) p(3)] by (intro that)
qed

lemma write_tail_stored:
  assumes "bind_s write_tree (\<lambda>_. bind_s write_metadata (\<lambda>_. write_dictionary)) (w, d) = (Ok (), (w', d'))"
    and in0: "blocks_in n T (w, d)" and flt: "filter_stored n (w, d)"
  shows "segments_stored n (w', d')" "blocks_in n T (w', d')" "keeps n (w, d) (w', d')"
proof -
  have nb: "\<not> block_segment SegmentMerkleTree" "\<not> block_segment SegmentMetadata" "\<not> block_segment SegmentDictionary"
    by (simp_all add: block_segment_def)
  from assms(1) obtain w1 d1 w2 d2 where run: "write_tree (w, d) = (Ok (), (w1, d1))"
    "write_metadata (w1, d1) = (Ok (), (w2, d2))" "write_dictionary (w2, d2) = (Ok (), (w', d'))" by (auto simp: bind_s_eq_Inr)
  obtain tree where tree: "Merkle_Encode (sw_merkleTree w) = Ok tree"
    and r1: "bind_s (write_segment SegmentMerkleTree tree) (\<lambda>place.
      set_footer ((\<lambda>h ft. ft\<lparr>ft_MerkleHandler := h\<rparr>) (handler_of place))) (w, d) = (Ok (), (w1, d1))"
    using run(1) by (auto simp: write_tree_def bind_s_eq_Inr)
  obtain st1 h1 where 1: "w1 = w\<lparr>sw_storage := st1, sw_footer := (sw_footer w)\<lparr>ft_MerkleHandler := h1\<rparr>\<rparr>"
    "located n SegmentMerkleTree h1 tree (w1, d1)" "keeps_disk n (w, d) (w1, d1)" "blocks_in n T (w1, d1)" "same_parts w w1"
    by (rule put_located [OF r1 nb(1) _ in0]) simp_all
  obtain m where m: "sw_metadataSegment w1 = Some m"
    and r2: "bind_s (write_segment SegmentMetadata (Metadata_Encode m)) (\<lambda>place.
      set_footer ((\<lambda>h ft. ft\<lparr>ft_MetaDataHandler := h\<rparr>) (handler_of place))) (w1, d1) = (Ok (), (w2, d2))"
    using run(2) by (auto simp: write_metadata_def split: option.splits)
  obtain st2 h2 where 2: "w2 = w1\<lparr>sw_storage := st2, sw_footer := (sw_footer w1)\<lparr>ft_MetaDataHandler := h2\<rparr>\<rparr>"
    "located n SegmentMetadata h2 (Metadata_Encode m) (w2, d2)" "keeps_disk n (w1, d1) (w2, d2)" "blocks_in n T (w2, d2)" "same_parts w1 w2"
    by (rule put_located [OF r2 nb(2) _ 1(4)]) simp_all
  have r3: "bind_s (write_segment SegmentDictionary (Adaptive_SaveDict (writer_dict w2))) (\<lambda>place.
      set_footer ((\<lambda>h ft. ft\<lparr>ft_DictionaryHandler := h\<rparr>) (handler_of place))) (w2, d2) = (Ok (), (w', d'))"
    using run(3) by (simp add: write_dictionary_def)
  obtain st3 h3 where 3: "w' = w2\<lparr>sw_storage := st3, sw_footer := (sw_footer w2)\<lparr>ft_DictionaryHandler := h3\<rparr>\<rparr>"
    "located n SegmentDictionary h3 (Adaptive_SaveDict (writer_dict w2)) (w', d')" "keeps_disk n (w2, d2) (w', d')"
    "blocks_in n T (w', d')" "same_parts w2 w'"
    by (rule put_located [OF r3 nb(3) _ 2(4)]) simp_all
  have base: "footer_base (sw_footer w') = footer_base (sw_footer w)"
    by (simp add: 3(1)) (simp add: 2(1) 1(1) footer_base_def)
  have parts: "same_parts w w'" using 1(5) 2(5) 3(5) by (simp add: same_parts_def)
  have disk: "keeps_disk n (w, d) (w', d')" by (rule keeps_disk_trans [OF keeps_disk_trans [OF 1(3) 2(3)] 3(3)])
  show k: "keeps n (w, d) (w', d')" using base parts disk by (simp add: keeps_def)
  have "filter_stored n (w', d')" by (rule filter_stored_keeps [OF flt k in0])
  moreover have "located n SegmentMerkleTree h1 tree (w', d')"
    by (rule located_keeps [OF 1(2) keeps_disk_trans [OF 2(3) 3(3)] 1(4)])
  moreover have "located n SegmentMetadata h2 (Metadata_Encode m) (w', d')" by (rule located_keeps [OF 2(2) 3(3) 2(4)])
  moreover have "ft_MerkleHandler (sw_footer w') = h1" "ft_MetaDataHandler (sw_footer w') = h2" "ft_DictionaryHandler (sw_footer w') = h3"
    by (simp_all add: 3(1)) (simp_all add: 2(1), simp add: 1(1))
  moreover have "sw_metadataSegment w' = Some m" "sw_merkleTree w' = sw_merkleTree w" "writer_dict w' = writer_dict w2"
    using m 2(5) 3(5) parts by (simp_all add: same_parts_def)
  ultimately show "segments_stored n (w', d')" using 3(2) tree by (simp add: segments_stored_def Let_def)
  show "blocks_in n T (w', d')" by (rule 3(4))
qed

section \<open>The file that is left\<close>

lemma blocks_in_same:
  assumes "blocks_in n T s" "keeps_disk n s s'"
  shows "same_files s s'"
  using assms by (cases s; cases s') (auto simp: blocks_in_def keeps_disk_def)

lemma finish_data_eq: "finish_data cfg =
    bind_s (bind_s (flushDataBlock cfg) (\<lambda>_. bind_s (update_writer finish_index) (\<lambda>_. bind_s build_tree (\<lambda>_.
      update_writer (set_metadata cfg))))) (\<lambda>_. bind_s write_filter (\<lambda>_. write_index cfg))"
  by (simp add: finish_data_def bind_s_def fun_eq_iff split: prod.split sum.split)

lemma finish_table_eq: "finish_table cfg =
    bind_s (bind_s (write_ttl cfg) (\<lambda>_. write_rangedel cfg)) (\<lambda>_.
    bind_s (bind_s write_tree (\<lambda>_. bind_s write_metadata (\<lambda>_. write_dictionary))) (\<lambda>_.
    bind_s Footer_WriteToStorage (\<lambda>_. Writer_Close)))"
  by (simp add: finish_table_def bind_s_def fun_eq_iff split: prod.split sum.split)

text \<open>Up to the footer.\<close>

lemma Finalize_steps:
  assumes inv: "writer_inv n ri (w, d) T xs" and cfg: "cf_BlockSize cfg = int n" "n < 2 ^ 19"
    and zero: "ft_FilterHandler (sw_footer w) = zero_handler" and run: "Finalize cfg (w, d) = Some (Ok (), (w', d'))"
  obtains v dv u du wf where "data_finished n cfg (flushed T xs (sw_dataBlockBuilder w)) (w, d) (v, dv)"
    "same_parts v u" "same_files (v, dv) (u, du)" "blocks_in n (flushed T xs (sw_dataBlockBuilder w)) (u, du)" "segments_stored n (u, du)"
    "ft_Version (sw_footer u) = ft_Version (sw_footer v)" "ft_MagicNumber (sw_footer u) = ft_MagicNumber (sw_footer v)"
    "ft_Format (sw_footer u) = ft_Format (sw_footer v)"
    "Footer_WriteToStorage (u, du) = (Ok (), (wf, d'))" "w' = wf\<lparr>sw_storage := CloseStorage (sw_storage wf)\<rparr>"
proof -
  let ?T = "flushed T xs (sw_dataBlockBuilder w)"
  from run obtain offs s1 s2 where fd: "finish_data cfg (w, d) = (Ok offs, s1)" and su: "write_summary offs s1 = Some (Ok (), s2)"
    and ft: "finish_table cfg s2 = (Ok (), (w', d'))"
    by (auto simp: Finalize_def bind_s_eq_Inr split: prod.splits sum.splits)
  obtain w1 d1 w2 d2 where s12: "s1 = (w1, d1)" "s2 = (w2, d2)" by (metis prod.exhaust)
  from fd obtain v dv vf df where
    a: "bind_s (flushDataBlock cfg) (\<lambda>_. bind_s (update_writer finish_index) (\<lambda>_. bind_s build_tree (\<lambda>_.
        update_writer (set_metadata cfg)))) (w, d) = (Ok (), (v, dv))"
    and b: "write_filter (v, dv) = (Ok (), (vf, df))" and c: "write_index cfg (vf, df) = (Ok offs, s1)"
    unfolding finish_data_eq by (auto simp: bind_s_eq_Inr [of "bind_s _ _"] bind_s_eq_Inr [of write_filter])
  note fin = data_finished(1) [OF inv cfg(1) a]
  have in0: "blocks_in n ?T (v, dv)" and base: "footer_base (sw_footer v) = footer_base ((sw_footer w)\<lparr>ft_Format := cf_Format cfg\<rparr>)"
    using fin by (simp_all add: data_finished_def)
  then have "ft_FilterHandler (sw_footer v) = zero_handler" using zero by (simp add: footer_base_def)
  note flt = write_filter_stored [OF b blocks_in_inv [OF in0, simplified] this]
  note in1 = blocks_in_keeps [OF in0 flt(1)]
  from ft obtain u1 e1 u du wf dw where
    e: "bind_s (write_ttl cfg) (\<lambda>_. write_rangedel cfg) s2 = (Ok (), (u1, e1))"
    and g: "bind_s write_tree (\<lambda>_. bind_s write_metadata (\<lambda>_. write_dictionary)) (u1, e1) = (Ok (), (u, du))"
    and h: "Footer_WriteToStorage (u, du) = (Ok (), (wf, dw))" and k: "Writer_Close (wf, dw) = (Ok (), (w', d'))"
    unfolding finish_table_eq by (auto simp: bind_s_eq_Inr [of "bind_s _ _"] bind_s_eq_Inr [of Footer_WriteToStorage])
  have "safe n (bind_s (write_ttl cfg) (\<lambda>_. write_rangedel cfg))"
    by (intro safe_bind safe_ttl safe_rangedel cfg)
  then have "keeps n s2 (u1, e1)" using e by (rule safeD)
  with keeps_trans [OF safeD [OF safe_index [OF cfg] c] keeps_summary [OF su]] have mid: "keeps n (vf, df) (u1, e1)"
    by (rule keeps_trans)
  have midd: "keeps_disk n (vf, df) (u1, e1)" using mid by (simp add: keeps_def)
  note in2 = blocks_in_keeps [OF in1 midd]
  note tail = write_tail_stored [OF g in2 filter_stored_keeps [OF flt(3) mid in1]]
  have "keeps n (vf, df) (u, du)" by (rule keeps_trans [OF mid tail(3)])
  then have "footer_base (sw_footer u) = footer_base (sw_footer vf)" "same_parts vf u" by (simp_all add: keeps_def)
  moreover have "same_files (v, dv) (u, du)"
    using blocks_in_same [OF in0 flt(1)] blocks_in_same [OF in1 midd] blocks_in_same [OF in2] tail(3) same_files_trans
    unfolding keeps_def by blast
  moreover have "dw = d'" "w' = wf\<lparr>sw_storage := CloseStorage (sw_storage wf)\<rparr>" using k by (simp_all add: Writer_Close_def update_writer_def)
  ultimately show thesis
    using fin tail(1,2) flt(2,4-6) h by (intro that [of v dv u du wf]) (simp_all add: footer_base_def same_parts_def)
qed

text \<open>The same on disk: where each segment of a table stands in the files of its format.\<close>

definition table_path :: "byte \<Rightarrow> path \<Rightarrow> SegmentType \<Rightarrow> path" where
  "table_path fmt p seg = (if fmt = FormatSingleFile then p else p @ segment_extension seg)"

definition holds_at :: "disk \<Rightarrow> path \<Rightarrow> nat \<Rightarrow> bytes \<Rightarrow> bool" where
  "holds_at d q off data \<longleftrightarrow> (\<exists>c. d q = Some c \<and> off + length data \<le> length c \<and> take (length data) (drop off c) = data)"

definition reached :: "disk \<Rightarrow> byte \<Rightarrow> path \<Rightarrow> SegmentType \<Rightarrow> SegmentHandler \<Rightarrow> bytes \<Rightarrow> bool" where
  "reached d fmt p seg h data \<longleftrightarrow> (\<exists>off. h = handler_of (off, length data) \<and> holds_at d (table_path fmt p seg) off data)"

definition footer_bytes :: "Footer \<Rightarrow> bytes" where
  "footer_bytes ft = footer_body ft @ put_u32 (crc32_ChecksumIEEE (footer_body ft))"

definition footer_stands :: "disk \<Rightarrow> byte \<Rightarrow> path \<Rightarrow> Footer \<Rightarrow> bool" where
  "footer_stands d fmt p ft \<longleftrightarrow> (\<exists>c. d (table_path fmt p SegmentFooter) = Some c \<and> FooterSize \<le> length c \<and>
     holds_at d (table_path fmt p SegmentFooter) (if fmt = FormatSingleFile then length c - FooterSize else 0) (footer_bytes ft)) \<and>
     ft_Version ft = 1 \<and> ft_MagicNumber ft = MagicNumber \<and> ft_Format ft = fmt"

definition table_file :: "nat \<Rightarrow> disk \<Rightarrow> byte \<Rightarrow> path \<Rightarrow> table_blocks \<Rightarrow> Footer \<Rightarrow> SSTableWriter \<Rightarrow> bool" where
  "table_file n d fmt p T ft w \<longleftrightarrow>
     (\<forall>i < length T. \<exists>data. Builder_Finish (int n) (fst (T ! i)) = Ok data \<and> length data = n \<and>
        holds_at d (table_path fmt p SegmentData) (i * n) data) \<and>
     footer_stands d fmt p ft \<and>
     (case sw_filterSegment w of
        None \<Rightarrow> ft_FilterHandler ft = zero_handler
      | Some f \<Rightarrow> reached d fmt p SegmentFilter (ft_FilterHandler ft) (FilterSegment_Encode f)) \<and>
     (\<exists>data. Merkle_Encode (sw_merkleTree w) = Ok data \<and> reached d fmt p SegmentMerkleTree (ft_MerkleHandler ft) data) \<and>
     (\<exists>m. sw_metadataSegment w = Some m \<and> reached d fmt p SegmentMetadata (ft_MetaDataHandler ft) (Metadata_Encode m)) \<and>
     reached d fmt p SegmentDictionary (ft_DictionaryHandler ft) (Adaptive_SaveDict (writer_dict w))"

definition files_at :: "byte \<Rightarrow> path \<Rightarrow> SegmentStorage \<Rightarrow> bool" where
  "files_at fmt p st \<longleftrightarrow> (\<forall>seg. segment_path seg st = table_path fmt p seg) \<and> (single_file st \<longleftrightarrow> fmt = FormatSingleFile)"

text \<open>No footer yet, where it has a file of its own.\<close>

definition footer_first :: "SegmentStorage \<Rightarrow> bool" where
  "footer_first st \<longleftrightarrow> single_file st \<or> storage_end SegmentFooter st = 0"

lemma files_at_same:
  "files_at fmt p (sw_storage w) \<Longrightarrow> same_files (w, d) (w', d') \<Longrightarrow> files_at fmt p (sw_storage w')"
  "footer_first (sw_storage w) \<Longrightarrow> same_files (w, d) (w', d') \<Longrightarrow> footer_first (sw_storage w')"
  by (auto simp: files_at_def footer_first_def same_files_def)

lemma stored_holds:
  assumes "stored_at n seg place data (w, d)" "storage_inv n (sw_storage w, d)" "files_at fmt p (sw_storage w)"
  shows "place = (fst place, length data)" "holds_at d (table_path fmt p seg) (fst place) data"
proof -
  have s: "snd place = length data" "storage_written n seg (fst place) (length data) (sw_storage w, d)"
    "storage_read seg (fst place) (length data) (sw_storage w, d) = Ok data" using assms(1) by (auto simp: stored_at_def)
  then show "place = (fst place, length data)" by (cases place) simp
  have q: "segment_path seg (sw_storage w) = table_path fmt p seg" using assms(3) by (simp add: files_at_def)
  obtain c where "d (segment_path seg (sw_storage w)) = Some c" "fst place + length data \<le> length c"
    "take (length data) (drop (fst place) c) = data" by (rule storage_content [OF assms(2) s(2,3)])
  then show "holds_at d (table_path fmt p seg) (fst place) data" by (auto simp: holds_at_def q)
qed

lemma located_reached:
  assumes "located n seg h data (w, d)" "storage_inv n (sw_storage w, d)" "files_at fmt p (sw_storage w)"
  shows "reached d fmt p seg h data"
proof -
  obtain place where h: "h = handler_of place" "stored_at n seg place data (w, d)" using assms(1) by (auto simp: located_def)
  from stored_holds [OF h(2) assms(2,3)] show ?thesis unfolding h(1) reached_def by metis
qed

lemma block_holds:
  assumes "block_stored n (sw_storage (w :: SSTableWriter), d) i b" "storage_inv n (sw_storage w, d)" "files_at fmt p (sw_storage w)"
  shows "\<exists>data. Builder_Finish (int n) b = Ok data \<and> length data = n \<and> holds_at d (table_path fmt p SegmentData) (i * n) data"
proof -
  obtain data where b: "Builder_Finish (int n) b = Ok data" "length data = n" "storage_written n SegmentData (i * n) n (sw_storage w, d)"
    "storage_read SegmentData (i * n) n (sw_storage w, d) = Ok data" using assms(1) by (auto simp: block_stored_def)
  have "stored_at n SegmentData (i * n, n) data (w, d)" using b by (simp add: stored_at_def)
  from stored_holds(2) [OF this assms(2,3)] b(1,2) show ?thesis by auto
qed

lemma footer_written:
  assumes run: "Footer_WriteToStorage (u, du) = (Ok (), (u', d'))" and inT: "blocks_in n T (u, du)" and seg: "segments_stored n (u, du)"
    and at: "files_at fmt p (sw_storage u)" "footer_first (sw_storage u)"
    and ft: "ft_Version (sw_footer u) = 1" "ft_MagicNumber (sw_footer u) = MagicNumber" "ft_Format (sw_footer u) = fmt"
  shows "table_file n d' fmt p T (sw_footer u) u" "(\<forall>x. q \<noteq> table_path fmt p x) \<Longrightarrow> d' q = du q"
proof -
  note inv = blocks_in_inv [OF inT, simplified]
  obtain st where st: "u' = u\<lparr>sw_storage := st\<rparr>" "storage_inv n (st, d')"
    "stored_at n SegmentFooter (storage_end SegmentFooter (sw_storage u), FooterSize) (footer_bytes (sw_footer u)) (u', d')"
    "storage_end SegmentFooter st = storage_end SegmentFooter (sw_storage u) + FooterSize"
    "\<forall>x. segment_path x st = segment_path x (sw_storage u)" "single_file st = single_file (sw_storage u)"
    "\<forall>q. (\<forall>x. q \<noteq> segment_path x (sw_storage u)) \<longrightarrow> d' q = du q"
    "\<forall>seg place data. stored_at n seg place data (u, du) \<longrightarrow> stored_at n seg place data (u', d')"
    "\<forall>i b. block_stored n (sw_storage u, du) i b \<longrightarrow> block_stored n (st, d') i b"
    unfolding footer_bytes_def by (rule put_footer [OF run inv])
  show "(\<forall>x. q \<noteq> table_path fmt p x) \<Longrightarrow> d' q = du q" using st(7) at by (simp add: files_at_def)
  have inv': "storage_inv n (sw_storage u', d')" and at': "files_at fmt p (sw_storage u')"
    using st(2,5,6) at(1) by (simp_all add: st(1) files_at_def)
  have path: "segment_path x st = table_path fmt p x" for x using st(5) at by (simp add: files_at_def)
  have loc: "reached d' fmt p seg h data" if l: "located n seg h data (u, du)" for seg h data
  proof -
    obtain place where h: "h = handler_of place" "stored_at n seg place data (u, du)" using l by (auto simp: located_def)
    have "located n seg h data (u', d')" using st(8) h unfolding located_def by blast
    then show ?thesis by (rule located_reached [OF _ inv' at'])
  qed
  have blocks: "\<exists>data. Builder_Finish (int n) (fst (T ! i)) = Ok data \<and> length data = n \<and>
      holds_at d' (table_path fmt p SegmentData) (i * n) data" if "i < length T" for i
  proof (rule block_holds [OF _ inv' at'])
    show "block_stored n (sw_storage u', d') i (fst (T ! i))"
      using inT that st(9) by (simp add: blocks_in_def st(1))
  qed
  have flen: "length (footer_bytes (sw_footer u)) = FooterSize" by (simp add: footer_bytes_def)
  have w: "storage_written n SegmentFooter (storage_end SegmentFooter (sw_storage u)) FooterSize (st, d')"
    "storage_read SegmentFooter (storage_end SegmentFooter (sw_storage u)) FooterSize (st, d') = Ok (footer_bytes (sw_footer u))"
    using st(3) by (auto simp: stored_at_def st(1))
  obtain c where c: "d' (segment_path SegmentFooter st) = Some c" "length c = storage_end SegmentFooter st"
    "take FooterSize (drop (storage_end SegmentFooter (sw_storage u)) c) = footer_bytes (sw_footer u)"
    by (rule storage_content [OF st(2) w])
  have len: "length c = storage_end SegmentFooter (sw_storage u) + FooterSize" using c(2) st(4) by simp
  have off: "storage_end SegmentFooter (sw_storage u) = (if fmt = FormatSingleFile then length c - FooterSize else 0)"
    using at len by (auto simp: files_at_def footer_first_def)
  have "footer_stands d' fmt p (sw_footer u)"
    unfolding footer_stands_def holds_at_def path [symmetric]
    using c(1,3) len flen ft by (auto simp: off [symmetric])
  with blocks loc seg show "table_file n d' fmt p T (sw_footer u) u"
    by (auto simp: table_file_def segments_stored_def filter_stored_def Let_def split: option.splits)
qed

text \<open>The file of a finalized table.\<close>

definition finished :: "nat \<Rightarrow> TableSettings \<Rightarrow> table_blocks \<Rightarrow> SSTableWriter \<Rightarrow> SSTableWriter \<Rightarrow> bool" where
  "finished n cfg T w u \<longleftrightarrow> writer_dict u = writer_dict w \<and> sw_filterSegment u = sw_filterSegment w \<and>
     Merkle_Build (fold AddLeaf (map (block_hash n) T) NewMerkleTree) = Ok (sw_merkleTree u) \<and>
     (\<exists>v. sw_metadataSegment u = Some (table_metadata cfg v) \<and> sw_currentBlockIndex v = of_nat (length T) \<and>
        bm_blockSize (sw_blockManager v) = n \<and> sw_minKey v = sw_minKey w \<and> sw_maxKey v = sw_maxKey w)"

definition fresh_footer :: "Footer \<Rightarrow> bool" where
  "fresh_footer ft \<longleftrightarrow> ft_FilterHandler ft = zero_handler \<and> ft_Version ft = 1 \<and> ft_MagicNumber ft = MagicNumber"

lemma Finalize_file:
  assumes inv: "writer_inv n ri (w, d) T xs" and cfg: "cf_BlockSize cfg = int n" "n < 2 ^ 19"
    and ft: "fresh_footer (sw_footer w)" and at: "files_at (cf_Format cfg) p (sw_storage w)" "footer_first (sw_storage w)"
    and run: "Finalize cfg (w, d) = Some (Ok (), (w', d'))"
  obtains u where "table_file n d' (cf_Format cfg) p (flushed T xs (sw_dataBlockBuilder w)) (sw_footer u) u"
    "finished n cfg (flushed T xs (sw_dataBlockBuilder w)) w u"
    "\<forall>q. (\<forall>x. q \<noteq> table_path (cf_Format cfg) p x) \<longrightarrow> d' q = d q"
proof -
  let ?T = "flushed T xs (sw_dataBlockBuilder w)"
  have zero: "ft_FilterHandler (sw_footer w) = zero_handler" using ft by (simp add: fresh_footer_def)
  obtain v dv u du u' where s: "data_finished n cfg ?T (w, d) (v, dv)"
    "same_parts v u" "same_files (v, dv) (u, du)" "blocks_in n ?T (u, du)" "segments_stored n (u, du)"
    "ft_Version (sw_footer u) = ft_Version (sw_footer v)" "ft_MagicNumber (sw_footer u) = ft_MagicNumber (sw_footer v)"
    "ft_Format (sw_footer u) = ft_Format (sw_footer v)"
    "Footer_WriteToStorage (u, du) = (Ok (), (u', d'))" "w' = u'\<lparr>sw_storage := CloseStorage (sw_storage u')\<rparr>"
    by (rule Finalize_steps [OF inv cfg zero run])
  have base: "footer_base (sw_footer v) = footer_base ((sw_footer w)\<lparr>ft_Format := cf_Format cfg\<rparr>)" and wv: "same_files (w, d) (v, dv)"
    using s(1) by (simp_all add: data_finished_def)
  have wu: "same_files (w, d) (u, du)" by (rule same_files_trans [OF wv s(3)])
  have "ft_Version (sw_footer u) = 1" "ft_MagicNumber (sw_footer u) = MagicNumber" "ft_Format (sw_footer u) = cf_Format cfg"
    using base ft s(6-8) by (simp_all add: footer_base_def fresh_footer_def)
  note f = footer_written [OF s(9) s(4,5) files_at_same(1) [OF at(1) wu] files_at_same(2) [OF at(2) wu] this]
  have "finished n cfg ?T w u" using s(1,2) by (simp add: data_finished_def finished_def same_parts_def)
  moreover have "d' q = d q" if "\<forall>x. q \<noteq> table_path (cf_Format cfg) p x" for q
    using f(2) [OF that] wu at(1) that by (simp add: same_files_def files_at_def)
  ultimately show thesis using f(1) by (intro that) auto
qed

section \<open>A new writer\<close>

lemma NewSSTableWriter_written:
  assumes new: "NewSSTableWriter cfg filter_for p bm expected layer d = Ok (w, d0)"
    and bm: "0 < bm_blockSize bm" "bm_blockSize bm < 2 ^ 19" "coherent bm d" "foreign_files bm p"
    and ri: "0 < cf_RestartInterval cfg" "cf_RestartInterval cfg < 2 ^ 31"
    and flt: "\<forall>k fp f. filter_for k fp = Ok f \<longrightarrow> filter_ok f"
  shows "writer_inv (bm_blockSize bm) (cf_RestartInterval cfg) (w, d0) [] []" "fresh_footer (sw_footer w)"
    "files_at (cf_Format cfg) p (sw_storage w)" "footer_first (sw_storage w)" "a_keys (writer_dict w) = []"
    "q \<noteq> p \<Longrightarrow> d0 q = d q"
proof -
  obtain st where st: "CreateStorage (cf_Format cfg) p bm d = (st, d0)"
    using new by (auto simp: NewSSTableWriter_def Let_def bind_r_eq_Inr split: prod.splits)
  obtain f b where b: "NewDataBlockBuilder PrefixCompression (cf_RestartInterval cfg) (int (bm_blockSize bm)) (NewAdaptiveDictEncoderFrequency 2 5) = Ok b"
    and fl: "(if 0 < expected then bind_r (filter_for expected (cf_FalsePositiveRate cfg)) (\<lambda>f. Ok (Some f)) else Ok None) = Ok f"
    and w: "sw_storage w = st" "sw_blockManager w = bm" "sw_dataBlockBuilder w = b" "sw_filterSegment w = f"
      "sw_footer w = NewFooter (cf_Format cfg)" "sw_currentBlockIndex w = 0" "sw_merkleTree w = NewMerkleTree"
      "sw_minKey w = None" "sw_maxKey w = None"
    using new unfolding NewSSTableWriter_def st Let_def prod.case by (simp only: bind_r_eq_Inr) auto
  have f: "pred_option filter_ok f" using fl flt by (auto split: if_splits)
  note inv = CreateStorage_inv [OF bm(1,3,4) st]
  have e: "adaptive_inv (NewAdaptiveDictEncoderFrequency 2 5)" by (rule adaptive_inv_New)
  have k: "a_keys (NewAdaptiveDictEncoderFrequency 2 5) = []" by (simp add: NewAdaptiveDictEncoderFrequency_def)
  have "current_ok (bm_blockSize bm) (cf_RestartInterval cfg) b []"
    using NewDataBlockBuilder_built [OF b] e k bm(2) ri by (simp add: current_ok_def builder_ok_def)
  then show "writer_inv (bm_blockSize bm) (cf_RestartInterval cfg) (w, d0) [] []"
    using inv f by (simp add: writer_inv_def w range_ok_def)
  show "a_keys (writer_dict w) = []" using NewDataBlockBuilder_built [OF b] k by (simp add: w)
  show "files_at (cf_Format cfg) p (sw_storage w)" "footer_first (sw_storage w)" "q \<noteq> p \<Longrightarrow> d0 q = d q"
    using inv by (simp_all add: w files_at_def footer_first_def table_path_def)
  show "fresh_footer (sw_footer w)" by (simp add: w fresh_footer_def NewFooter_def)
qed

end
