(* ===== verification/Table_Reopened.thy ===== *)
theory Table_Reopened
  imports Table_File
begin

text \<open>
  \<^verbatim>\<open>NewSSTableReader\<close> on the file of a finished table: the footer leads to the metadata, the filter and the dictionary that
  were written, and the data blocks it loads are those of the writer, so that the table's iterator returns the records.
\<close>

section \<open>Reading segments\<close>

text \<open>A storage that has been opened for reading.\<close>

fun opened_at :: "byte \<Rightarrow> path \<Rightarrow> SegmentStorage \<Rightarrow> bool" where
  "opened_at fmt p (SingleStorage s) \<longleftrightarrow> fmt = FormatSingleFile \<and> sf_file s = p \<and> \<not> sf_closed s"
| "opened_at fmt p (MultiStorage m) \<longleftrightarrow> fmt \<noteq> FormatSingleFile \<and> mf_basePath m = p \<and> (\<forall>seg. mf_files m seg \<noteq> Some False)"

definition small_files :: "disk \<Rightarrow> byte \<Rightarrow> path \<Rightarrow> bool" where
  "small_files d fmt p \<longleftrightarrow> (\<forall>seg c. d (table_path fmt p seg) = Some c \<longrightarrow> length c < 2 ^ 32)"

lemma read_handle_holds: "holds_at d q off data \<Longrightarrow> read_handle q off (length data) d = Ok data"
  by (auto simp: holds_at_def read_handle_def ReadNoBlock_def open_create_def)

lemma ReadSegment_holds:
  assumes "opened_at fmt p st" "\<not> block_segment seg" "holds_at d (table_path fmt p seg) off data"
  obtains st' where "ReadSegment d seg off (length data) st = (Ok data, st')" "opened_at fmt p st'"
proof (cases st)
  case (SingleStorage s)
  with assms read_handle_holds [OF assms(3)] show thesis
    by (intro that [of st]) (simp_all add: Single_ReadSegment_def table_path_def)
next
  case (MultiStorage m)
  have m: "fmt \<noteq> FormatSingleFile" "mf_basePath m = p" "\<forall>seg. mf_files m seg \<noteq> Some False" using assms(1) MultiStorage by simp_all
  then have q: "getFilePath seg m = table_path fmt p seg" by (simp add: getFilePath_def table_path_def)
  have e: "d (getFilePath seg m) \<noteq> None" using assms(3) unfolding q by (auto simp: holds_at_def)
  let ?m = "if mf_files m seg \<noteq> None then m else m\<lparr>mf_files := (mf_files m)(seg \<mapsto> True)\<rparr>"
  have open1: "getOrOpenFile d seg m = (Ok (), ?m)" using e by (auto simp: getOrOpenFile_def)
  have "getFilePath seg ?m = table_path fmt p seg" "mf_files ?m seg \<noteq> Some False" using q m(3) by (simp_all add: getFilePath_def)
  then have "Multi_ReadSegment d seg off (length data) m = (Ok data, ?m)"
    using assms(2) read_handle_holds [OF assms(3)] by (simp only: Multi_ReadSegment_def bind_s_def open1 prod.case sum.case Let_def) simp
  then show thesis using m MultiStorage by (intro that [of "MultiStorage ?m"]) auto
qed

lemma handler_sizes:
  assumes "small_files d fmt p" "holds_at d (table_path fmt p seg) off data"
  shows "unat (sh_Offset (handler_of (off, length data))) = off" "unat (sh_Size (handler_of (off, length data))) = length data"
proof -
  obtain c where c: "d (table_path fmt p seg) = Some c" "off + length data \<le> length c"
    using assms(2) by (auto simp: holds_at_def)
  moreover from c(1) have "length c < 2 ^ 32" using assms(1) unfolding small_files_def by blast
  ultimately show "unat (sh_Offset (handler_of (off, length data))) = off" "unat (sh_Size (handler_of (off, length data))) = length data"
    by (simp_all add: handler_of_def unat_of_nat take_bit_nat_eq_self)
qed

lemma ReadSegment_reached:
  assumes "opened_at fmt p st" "\<not> block_segment seg" "reached d fmt p seg h data" "small_files d fmt p"
  obtains st' where "ReadSegment d seg (unat (sh_Offset h)) (unat (sh_Size h)) st = (Ok data, st')" "opened_at fmt p st'"
    "unat (sh_Size h) = length data"
proof -
  obtain off where h: "h = handler_of (off, length data)" "holds_at d (table_path fmt p seg) off data"
    using assms(3) by (auto simp: reached_def)
  from ReadSegment_holds [OF assms(1,2) h(2)] obtain st' where
    "ReadSegment d seg off (length data) st = (Ok data, st')" "opened_at fmt p st'" .
  with that show thesis by (simp add: h(1) handler_sizes [OF assms(4) h(2)])
qed

lemma ReadSegment_manager:
  "ReadSegment d seg off k st = (r, st') \<Longrightarrow> \<not> block_segment seg \<Longrightarrow> storage_manager st' = storage_manager st"
  by (cases st) (auto simp: Single_ReadSegment_def Multi_ReadSegment_def getOrOpenFile_def bind_s_def Let_def split: if_splits)

lemma opened_SetBlockManager: "opened_at fmt p st \<Longrightarrow> opened_at fmt p (SetBlockManager bm st)"
  by (cases st) (simp_all add: Single_SetBlockManager_def Multi_SetBlockManager_def)

lemma manager_SetBlockManager: "storage_manager (SetBlockManager bm st) = Some bm"
  by (cases st) (simp_all add: Single_SetBlockManager_def Multi_SetBlockManager_def)

lemma OpenStorage_opened:
  assumes "fmt = FormatSingleFile \<longrightarrow> d p \<noteq> None"
  obtains st where "OpenStorage fmt p d = Ok st" "opened_at fmt p st"
  using assms by (cases "fmt = FormatSingleFile")
    (auto simp: OpenStorage_def OpenSingleFileStorage_def OpenMultiFileStorage_def NewMultiFileStorage_def intro: that)

section \<open>The metadata\<close>

definition metadata_ok :: "nat \<Rightarrow> int \<Rightarrow> nat \<Rightarrow> Metadata \<Rightarrow> bool" where
  "metadata_ok n ri k m \<longleftrightarrow> fst (GetUint64 m FieldBlockSize) = of_nat n \<and> fst (GetUint64 m FieldNumDataBlocks) = of_nat k \<and>
     fst (GetUint64 m FieldRestartInterval) = of_int ri"

lemma table_metadata_ok:
  assumes "sw_currentBlockIndex v = of_nat k" "k < 2 ^ 32" "bm_blockSize (sw_blockManager v) = n" "cf_RestartInterval cfg = ri"
  shows "metadata_ok n ri k (table_metadata cfg v)"
proof -
  have "ucast (of_nat k :: u32) = (of_nat k :: u64)"
    using assms(2) by (simp add: unsigned_of_nat take_bit_nat_eq_self)
  then show ?thesis
    using assms
    by (simp add: metadata_ok_def table_metadata_def Let_def GetUint64_def SetUint64_def SetBytes_def SetByte_def
        put_u64_def get_le_put_le take_bit_word_eq_self)
qed

lemma table_metadata_small:
  assumes "range_ok v"
  shows "\<forall>val \<in> ran (md_Fields (table_metadata cfg v)). length val < 2 ^ 32"
proof -
  have upd: "\<forall>val \<in> ran (f(i := x)). length val < 2 ^ 32" if "\<forall>val \<in> ran f. length val < 2 ^ 32" "pred_option (\<lambda>k. length k < 2 ^ 32) x"
    for f :: "u16 \<rightharpoonup> bytes" and i x
    using that by (auto simp: ran_def)
  have v: "pred_option (\<lambda>k. length k < 2 ^ 32) (sw_minKey v)" "pred_option (\<lambda>k. length k < 2 ^ 32) (sw_maxKey v)"
    using assms by (simp_all add: range_ok_def)
  show ?thesis
    unfolding table_metadata_def Let_def SetUint64_def SetBytes_def SetByte_def
    by (simp only: Metadata.simps) (intro upd v, simp_all)
qed

section \<open>Opening\<close>

lemma read_handler_reached:
  assumes "opened_at fmt p (sr_storage r)" "\<not> block_segment seg" "reached d fmt p seg h data" "small_files d fmt p"
  obtains st where "read_handler d seg h r = (Ok data, r\<lparr>sr_storage := st\<rparr>)" "opened_at fmt p st" "unat (sh_Size h) = length data"
    "storage_manager st = storage_manager (sr_storage r)"
proof -
  obtain st where "ReadSegment d seg (unat (sh_Offset h)) (unat (sh_Size h)) (sr_storage r) = (Ok data, st)" "opened_at fmt p st"
    "unat (sh_Size h) = length data" by (rule ReadSegment_reached [OF assms])
  then show thesis using ReadSegment_manager assms(2) by (intro that [of st]) (simp_all add: read_handler_def read_segment_def)
qed

lemma sized: "unat (sh_Size h) = length data \<Longrightarrow> data \<noteq> [] \<Longrightarrow> sh_Size h \<noteq> 0"
  by (auto simp: unat_eq_zero)

lemma loadFilter_reached:
  assumes "opened_at fmt p (sr_storage r)" "small_files d fmt p" "sr_filterSegment r = None" "pred_option filter_ok flt"
    and "case flt of None \<Rightarrow> ft_FilterHandler (sr_footer r) = zero_handler
      | Some f \<Rightarrow> reached d fmt p SegmentFilter (ft_FilterHandler (sr_footer r)) (FilterSegment_Encode f)"
  obtains st x where "caught (loadFilter d r) = Ok (x, r\<lparr>sr_storage := st, sr_filterSegment := flt\<rparr>)" "opened_at fmt p st"
    "storage_manager st = storage_manager (sr_storage r)"
proof (cases flt)
  case None
  then have "caught (loadFilter d r) = Ok (None, r)"
    using assms(5) by (simp add: loadFilter_def get_reader_def bind_s_def fail_s_def caught_def zero_handler_def)
  with assms(1,3) None show thesis by (intro that [of None "sr_storage r"]) simp_all
next
  case (Some f)
  then have f: "filter_ok f" and at: "reached d fmt p SegmentFilter (ft_FilterHandler (sr_footer r)) (FilterSegment_Encode f)"
    using assms(4,5) by simp_all
  have nb: "\<not> block_segment SegmentFilter" by (simp add: block_segment_def)
  obtain st where st: "read_handler d SegmentFilter (ft_FilterHandler (sr_footer r)) r = (Ok (FilterSegment_Encode f), r\<lparr>sr_storage := st\<rparr>)"
    "opened_at fmt p st" "unat (sh_Size (ft_FilterHandler (sr_footer r))) = length (FilterSegment_Encode f)"
    "storage_manager st = storage_manager (sr_storage r)"
    by (rule read_handler_reached [OF assms(1) nb at assms(2)])
  have "0 < length (FilterSegment_Encode f)" by (simp add: FilterSegment_Encode_def Let_def)
  then have "FilterSegment_Encode f \<noteq> []" by blast
  then have ne: "sh_Size (ft_FilterHandler (sr_footer r)) \<noteq> 0" by (rule sized [OF st(3)])
  have dec: "DecodeFilterSegment (FilterSegment_Encode f) = Ok f" using f by (intro DecodeFilterSegment_Encode) (simp_all add: filter_ok_def)
  have "caught (loadFilter d r) = Ok (Some (), r\<lparr>sr_storage := st, sr_filterSegment := flt\<rparr>)"
    using ne by (simp add: loadFilter_def get_reader_def bind_s_def st(1) dec set_reader_def caught_def Some lift_s_def)
  then show thesis using st(2,4) by (rule that)
qed

lemma loadDictionary_reached:
  assumes "opened_at fmt p (sr_storage r)" "small_files d fmt p"
    and "reached d fmt p SegmentDictionary (ft_DictionaryHandler (sr_footer r)) (Adaptive_SaveDict ve)"
    and "adaptive_inv ve" "list_all slice_ok (a_keys ve)" "length (a_keys ve) \<le> 2 ^ 48"
  obtains st dec where "loadDictionary d r = (Ok (), r\<lparr>sr_storage := st, sr_valueDecoder := dec\<rparr>)" "opened_at fmt p st"
    "grown ve dec" "a_keys dec = a_keys ve" "storage_manager st = storage_manager (sr_storage r)"
proof -
  let ?fresh = "NewAdaptiveDictEncoderFrequency 2 5"
  have nb: "\<not> block_segment SegmentDictionary" by (simp add: block_segment_def)
  obtain st where st: "read_handler d SegmentDictionary (ft_DictionaryHandler (sr_footer r)) r = (Ok (Adaptive_SaveDict ve), r\<lparr>sr_storage := st\<rparr>)"
    "opened_at fmt p st" "unat (sh_Size (ft_DictionaryHandler (sr_footer r))) = length (Adaptive_SaveDict ve)"
    "storage_manager st = storage_manager (sr_storage r)"
    by (rule read_handler_reached [OF assms(1) nb assms(3,2)])
  have "a_nextId ?fresh = 0" by (simp add: NewAdaptiveDictEncoderFrequency_def)
  from ReadDictionary_SaveDict [OF assms(4-6) this] obtain dec where
    dec: "ReadDictionary (Adaptive_SaveDict ve) ?fresh = (Ok (), dec)" "adaptive_inv dec" "a_keys dec = a_keys ve" .
  have "Adaptive_SaveDict ve \<noteq> []"
    by (metis Adaptive_SaveDict_def append_is_Nil_conv length_put_u(1) list.size(3) save_dict_concat zero_neq_numeral)
  then have ne: "sh_Size (ft_DictionaryHandler (sr_footer r)) \<noteq> 0" by (rule sized [OF st(3)])
  have "loadDictionary d r = (Ok (), r\<lparr>sr_storage := st, sr_valueDecoder := dec\<rparr>)"
    using ne by (simp add: loadDictionary_def get_reader_def bind_s_def st(1) dec(1) set_reader_def)
  moreover have "grown ve dec" using dec assms(4,6) by (simp add: grown_def)
  ultimately show thesis using st(2,4) dec(3) by (intro that)
qed

definition table_readable :: "SSTableWriter \<Rightarrow> bool" where
  "table_readable u \<longleftrightarrow> pred_option filter_ok (sw_filterSegment u) \<and> adaptive_inv (writer_dict u) \<and>
     list_all slice_ok (a_keys (writer_dict u)) \<and> length (a_keys (writer_dict u)) \<le> 256"

text \<open>What the reader of a finished table holds.\<close>

definition reader_of :: "nat \<Rightarrow> byte \<Rightarrow> path \<Rightarrow> Footer \<Rightarrow> Metadata \<Rightarrow> SSTableWriter \<Rightarrow> SSTableReader \<Rightarrow> bool" where
  "reader_of n fmt p ft m u r \<longleftrightarrow> sr_filePath r = p \<and> sr_Metadata r = m \<and> bm_blockSize (sr_blockManager r) = n \<and>
     opened_at fmt p (sr_storage r) \<and> storage_manager (sr_storage r) = Some (sr_blockManager r) \<and> (\<exists>crc. sr_footer r = ft\<lparr>ft_CRC := crc\<rparr>) \<and> sr_filterSegment r = sw_filterSegment u \<and>
     grown (writer_dict u) (sr_valueDecoder r) \<and> a_keys (sr_valueDecoder r) = a_keys (writer_dict u)"

lemma NewSSTableReader_finished:
  assumes tf: "table_file n d fmt p T ft u" and m: "sw_metadataSegment u = Some m" "Metadata_Decode (Metadata_Encode m) = Ok m"
    and ok: "metadata_ok n ri (length T) m" "n < 2 ^ 32" "fmt \<le> 1" "T \<noteq> []" and small: "small_files d fmt p" and rd: "table_readable u"
  obtains r where "NewSSTableReader cache i p fmt layer d = Ok r" "reader_of n fmt p ft m u r" "bm_cache (sr_blockManager r) = cache"
proof -
  obtain c where c: "d (table_path fmt p SegmentFooter) = Some c" "FooterSize \<le> length c"
    "holds_at d (table_path fmt p SegmentFooter) (if fmt = FormatSingleFile then length c - FooterSize else 0) (footer_bytes ft)"
    and ft: "ft_Version ft = 1" "ft_MagicNumber ft = MagicNumber" "ft_Format ft = fmt"
    using tf by (auto simp: table_file_def footer_stands_def)
  have fmt: "fmt = FormatSingleFile \<or> fmt = FormatMultiFile"
    using ok(3) unsigned_less [of fmt, where 'a = nat] by (auto simp: word_le_nat_alt word_unat_eq_iff)
  have nb: "\<not> block_segment SegmentFooter" "\<not> block_segment SegmentMetadata" by (simp_all add: block_segment_def)
  have single: "fmt = FormatSingleFile \<longrightarrow> d p \<noteq> None" using c(1) by (auto simp: table_path_def)
  obtain st where st: "OpenStorage fmt p d = Ok st" "opened_at fmt p st" by (rule OpenStorage_opened [of fmt d p, OF single])
  obtain data where "holds_at d (table_path fmt p SegmentData) 0 data"
    using tf ok(4) by (auto simp: table_file_def dest: spec [of _ 0])
  then obtain c' where c': "d (table_path fmt p SegmentData) = Some c'" by (auto simp: holds_at_def)
  have size: "table_size d fmt p = Ok (length (if fmt = FormatSingleFile then c else c'))"
    using c(1) c' by (cases "fmt = FormatSingleFile") (simp_all add: table_size_def table_path_def segment_extension_def)
  have flen: "length (footer_bytes ft) = FooterSize" by (simp add: footer_bytes_def)
  have "length c < 2 ^ 32" using small c(1) unfolding small_files_def by blast
  then have "(of_nat (length c) :: u64) - of_nat FooterSize = of_nat (length c - FooterSize)" using c(2) by (simp add: of_nat_diff)
  with \<open>length c < 2 ^ 32\<close> have off: "unat (footer_offset fmt (length (if fmt = FormatSingleFile then c else c'))) =
      (if fmt = FormatSingleFile then length c - FooterSize else 0)"
    by (simp add: footer_offset_def unat_of_nat take_bit_nat_eq_self)
  obtain st1 where st1: "ReadSegment d SegmentFooter (if fmt = FormatSingleFile then length c - FooterSize else 0) FooterSize st =
      (Ok (footer_bytes ft), st1)" "opened_at fmt p st1"
    using ReadSegment_holds [OF st(2) nb(1) c(3)] unfolding flen by blast
  define ft' where "ft' = ft\<lparr>ft_CRC := crc32_ChecksumIEEE (footer_body ft)\<rparr>"
  have dec: "Footer_Decode (footer_bytes ft) g = (Ok (), ft')" for g
    unfolding footer_bytes_def ft'_def by (rule Footer_Decode_body [OF ft(2)])
  have val: "Footer_Validate ft' = Ok ()" using ft ok(3) by (simp add: Footer_Validate_def ft'_def)
  have at: "reached d fmt p SegmentMetadata (ft_MetaDataHandler ft') (Metadata_Encode m)"
    "reached d fmt p SegmentDictionary (ft_DictionaryHandler ft') (Adaptive_SaveDict (writer_dict u))"
    "case sw_filterSegment u of None \<Rightarrow> ft_FilterHandler ft' = zero_handler
      | Some f \<Rightarrow> reached d fmt p SegmentFilter (ft_FilterHandler ft') (FilterSegment_Encode f)"
    using tf m(1) by (auto simp: table_file_def ft'_def split: option.splits)
  obtain st2 where st2: "ReadSegment d SegmentMetadata (unat (sh_Offset (ft_MetaDataHandler ft')))
      (unat (sh_Size (ft_MetaDataHandler ft'))) st1 = (Ok (Metadata_Encode m), st2)" "opened_at fmt p st2"
    by (rule ReadSegment_reached [OF st1(2) nb(2) at(1) small])
  define bm where "bm = \<lparr>bm_blockSize = n, bm_cache = cache\<rparr>"
  have n: "unat (fst (GetUint64 m FieldBlockSize)) = n"
    using ok(1,2) by (simp add: metadata_ok_def unat_of_nat take_bit_nat_eq_self)
  define r0 where "r0 = \<lparr>sr_filePath = p, sr_Id = i, sr_Layer = layer, sr_SizeBytes = length (if fmt = FormatSingleFile then c else c'),
           sr_storage = SetBlockManager bm st2, sr_blockManager = bm, sr_footer = ft', sr_Metadata = m,
           sr_SummarySegment = None, sr_filterSegment = None, sr_merkleTree = None,
           sr_TTLIndexSegment = NewTTLIndexSegment (fst (GetUint64 m FieldBlockSize)),
           sr_valueDecoder = NewAdaptiveDictEncoderFrequency 2 5, sr_fragmentedRangeDels = [], sr_rangeDelLoaded = False\<rparr>"
  have r0: "opened_at fmt p (sr_storage r0)" "sr_filterSegment r0 = None" "sr_footer r0 = ft'"
    using opened_SetBlockManager [OF st2(2), of bm] by (simp_all add: r0_def)
  have flt: "pred_option filter_ok (sw_filterSegment u)" using rd by (simp add: table_readable_def)
  obtain st3 x where st3: "caught (loadFilter d r0) = Ok (x, r0\<lparr>sr_storage := st3, sr_filterSegment := sw_filterSegment u\<rparr>)" "opened_at fmt p st3"
    "storage_manager st3 = storage_manager (sr_storage r0)"
    by (rule loadFilter_reached [OF r0(1) small r0(2) flt at(3) [folded r0(3)]])
  define r1 where "r1 = r0\<lparr>sr_storage := st3, sr_filterSegment := sw_filterSegment u\<rparr>"
  have r1: "opened_at fmt p (sr_storage r1)" "sr_footer r1 = ft'" "storage_manager (sr_storage r1) = Some bm"
    using st3(2,3) r0(3) manager_SetBlockManager by (simp_all add: r1_def) (simp add: r0_def manager_SetBlockManager)
  have ve: "adaptive_inv (writer_dict u)" "list_all slice_ok (a_keys (writer_dict u))" "length (a_keys (writer_dict u)) \<le> 2 ^ 48"
    using rd by (simp_all add: table_readable_def)
  obtain st4 dict where st4: "loadDictionary d r1 = (Ok (), r1\<lparr>sr_storage := st4, sr_valueDecoder := dict\<rparr>)" "opened_at fmt p st4"
    "grown (writer_dict u) dict" "a_keys dict = a_keys (writer_dict u)" "storage_manager st4 = storage_manager (sr_storage r1)"
    by (rule loadDictionary_reached [OF r1(1) small at(2) [folded r1(2)] ve])
  have "NewSSTableReader cache i p fmt layer d = Ok (r1\<lparr>sr_storage := st4, sr_valueDecoder := dict\<rparr>)"
    using fmt by (auto simp: NewSSTableReader_def open_format_def st(1) size off st1(1) dec val st2(1) m(2) n Let_def
        bm_def [symmetric] r0_def [symmetric] st3(1) r1_def [symmetric] st4(1))
  moreover have "reader_of n fmt p ft m u (r1\<lparr>sr_storage := st4, sr_valueDecoder := dict\<rparr>)"
    using st4(2-5) r1(3) by (auto simp: reader_of_def r1_def r0_def bm_def ft'_def)
  moreover have "bm_cache (sr_blockManager (r1\<lparr>sr_storage := st4, sr_valueDecoder := dict\<rparr>)) = cache" by (simp add: r1_def r0_def bm_def)
  ultimately show thesis by (rule that)
qed

section \<open>The data blocks\<close>

lemma holds_read:
  assumes "holds_at d q (n * i) data" "length data = bm_blockSize bm" "n = bm_blockSize bm"
  shows "ReadNoCache bm d (NewBlockKey q i) = Ok data"
  using assms by (auto simp: holds_at_def ReadNoCache_def NewBlockKey_def block_off_def file_read_def make_bytes_def)

lemma blocks_count:
  assumes "table_file n d fmt p T ft u" "small_files d fmt p" "0 < n"
  shows "length T < 2 ^ 32"
proof (cases "T = []")
  case False
  define k where "k = length T - 1"
  have k: "k < length T" "length T = Suc k" using False by (simp_all add: k_def)
  from assms(1) k(1) obtain data where "length data = n" "holds_at d (table_path fmt p SegmentData) (k * n) data"
    unfolding table_file_def by blast
  then obtain c where c: "d (table_path fmt p SegmentData) = Some c" "k * n + n \<le> length c" by (auto simp: holds_at_def)
  from c(1) have "length c < 2 ^ 32" using assms(2) unfolding small_files_def by blast
  with c(2) k(2) have "length T * n < 2 ^ 32" by (simp add: add.commute)
  moreover have "length T * 1 \<le> length T * n" using assms(3) by (intro mult_le_mono2) simp
  ultimately show ?thesis by linarith
qed simp

lemma source_over_finished:
  assumes tf: "table_file n d fmt p T ft u" and r: "reader_of n fmt p ft m u r" and m: "metadata_ok n ri (length T) m"
    and good: "list_all (block_good n ri) T" and items: "items_ok (writer_dict u) (concat (map snd T))"
    and small: "small_files d fmt p" "length (a_keys (writer_dict u)) \<le> 256"
    and n: "0 < n" "0 < ri" "ri < 2 ^ 31" and alone: "fmt = FormatSingleFile \<longrightarrow> d (p @ ''.data'') = None"
  shows "source_over d T (newSSTableBlockSource r)"
proof -
  let ?src = "newSSTableBlockSource r"
  have rd: "sr_filePath r = p" "sr_Metadata r = m" "bm_blockSize (sr_blockManager r) = n" "grown (writer_dict u) (sr_valueDecoder r)"
    "a_keys (sr_valueDecoder r) = a_keys (writer_dict u)" using r by (simp_all add: reader_of_def)
  have len: "length T < 2 ^ 32" by (rule blocks_count [OF tf small(1) n(1)])
  have ri: "source_interval ?src = ri"
    using m n u64_int_of_nat [of "nat ri"] by (simp add: metadata_ok_def newSSTableBlockSource_def rd(2))
  have "length (a_keys (sr_valueDecoder r)) \<le> 256" using rd(5) small(2) by simp
  with items rd(4) have readable: "list_all (readable (sr_valueDecoder r)) (concat (map snd T))" by (simp add: items_ok_def)
  have path: "data_path d r = table_path fmt p SegmentData" if "i < length T" for i
  proof -
    from tf that obtain data where "holds_at d (table_path fmt p SegmentData) (i * n) data" unfolding table_file_def by blast
    then have "d (table_path fmt p SegmentData) \<noteq> None" by (auto simp: holds_at_def)
    with alone show ?thesis by (cases "fmt = FormatSingleFile") (simp_all add: data_path_def rd(1) table_path_def segment_extension_def)
  qed
  have blocks: "good_block (sr_valueDecoder r) (T ! i) \<and> loads d ?src i (T ! i)" if i: "i < length T" for i
  proof -
    obtain b xs where T: "T ! i = (b, xs)" by fastforce
    have g: "built b xs" "builder_ok b" "has_room b xs" "xs \<noteq> []" "bb_blockSize b = int n" "bb_restartInterval b = ri"
      using good i T by (auto simp: list_all_length block_good_def)
    have "(b, xs) \<in> set T" using i T nth_mem by fastforce
    then have "list_all (readable (sr_valueDecoder r)) xs" using readable by (auto simp: list_all_iff)
    then have c: "good_block (sr_valueDecoder r) (T ! i)" using g by (simp add: T good_block_def complete_def)
    obtain block where block: "Builder_Finish (bb_blockSize b) b = Ok block"
      "NewDataBlockReader block (bb_restartInterval b) PrefixCompression (sr_valueDecoder r) = Ok (opened b xs (sr_valueDecoder r))"
      by (rule finished_block [OF g(1,4,3,2), where dec = "sr_valueDecoder r"])
    from tf i obtain data where data: "Builder_Finish (int n) (fst (T ! i)) = Ok data" "length data = n"
      "holds_at d (table_path fmt p SegmentData) (i * n) data" unfolding table_file_def by blast
    have same: "data = block" using data(1) block(1) g(5) by (simp add: T)
    have "unat (of_int (int i) :: u32) = i" using i len by (simp add: unat_of_nat take_bit_nat_eq_self)
    moreover have "ReadNoCache (sr_blockManager r) d (NewBlockKey (table_path fmt p SegmentData) i) = Ok data"
      using data(2,3) rd(3) by (intro holds_read [where n = n]) (simp_all add: mult.commute)
    ultimately have "fst (loadBlock d (int i) ?src) = Ok data"
      by (simp add: loadBlock_def newSSTableBlockSource_def path [OF i])
    then have "loads d ?src i (T ! i)"
      unfolding loads_def T prod.case using block(2) g(6) ri same by (intro exI [of _ data]) (simp add: newSSTableBlockSource_def)
    with c show ?thesis by blast
  qed
  have "so_numBlocks ?src = int (length T)"
    using m len u64_int_of_nat [of "length T"] by (simp add: newSSTableBlockSource_def metadata_ok_def rd(2))
  with blocks show ?thesis by (simp add: source_over_def list_all_length newSSTableBlockSource_def)
qed

section \<open>Writing, finishing, reading\<close>

lemma storage_positive: "storage_inv n (st, d) \<Longrightarrow> 0 < n"
  by (cases st) (auto simp: single_inv_def multi_inv_def)

lemma stored_nonempty: "stored_as rs ys \<Longrightarrow> rs \<noteq> [] \<Longrightarrow> ys \<noteq> []"
  by (auto dest: stored_as_empty)

definition dictionary_small :: "SSTableWriter \<Rightarrow> bool" where
  "dictionary_small w \<longleftrightarrow> length (a_keys (writer_dict w)) \<le> 256 \<and> list_all slice_ok (a_keys (writer_dict w))"

lemma finished_readable:
  assumes inv: "writer_inv n ri (w, d) T xs" and fin: "finished n cfg T' w u" and small: "dictionary_small w"
  shows "table_readable u"
proof -
  have "writer_dict u = writer_dict w" "sw_filterSegment u = sw_filterSegment w" using fin by (simp_all add: finished_def)
  moreover have "pred_option filter_ok (sw_filterSegment w)" "adaptive_inv (writer_dict w)"
    using inv by (simp_all add: writer_inv_def current_ok_def builder_ok_def)
  ultimately show ?thesis using small by (simp add: table_readable_def dictionary_small_def)
qed

lemma finished_metadata:
  assumes inv: "writer_inv n ri (w, d) T xs" and fin: "finished n cfg T' w u" and ri: "cf_RestartInterval cfg = ri" and len: "length T' < 2 ^ 32"
  obtains m where "sw_metadataSegment u = Some m" "Metadata_Decode (Metadata_Encode m) = Ok m" "metadata_ok n ri (length T') m"
proof -
  obtain v where v: "sw_metadataSegment u = Some (table_metadata cfg v)" "sw_currentBlockIndex v = of_nat (length T')"
    "bm_blockSize (sw_blockManager v) = n" "sw_minKey v = sw_minKey w" "sw_maxKey v = sw_maxKey w" using fin by (auto simp: finished_def)
  have "range_ok v" using inv v(4,5) by (simp add: writer_inv_def range_ok_def)
  from Metadata_Decode_Encode [OF table_metadata_small [OF this]] table_metadata_ok [OF v(2) len v(3) ri] v(1)
  show thesis by (intro that)
qed

lemma finished_table:
  assumes inv: "writer_inv n ri (w, d) T xs" and st: "stored_as recs (items_of T xs)" "recs \<noteq> []"
    and cfg: "cf_BlockSize cfg = int n" "n < 2 ^ 19" "cf_RestartInterval cfg = ri" "cf_Format cfg \<le> 1"
    and ft: "fresh_footer (sw_footer w)" and at: "files_at (cf_Format cfg) p (sw_storage w)" "footer_first (sw_storage w)"
    and run: "Finalize cfg (w, d) = Some (Ok (), (w', d'))" and alone: "cf_Format cfg = FormatSingleFile \<longrightarrow> d (p @ ''.data'') = None"
    and small: "small_files d' (cf_Format cfg) p" "dictionary_small w"
  obtains T' u m r where "table_file n d' (cf_Format cfg) p T' (sw_footer u) u" "finished n cfg T' w u" "T' \<noteq> []" "length T' < 2 ^ 32"
    "NewSSTableReader cache i p (cf_Format cfg) layer d' = Ok r" "reader_of n (cf_Format cfg) p (sw_footer u) m u r"
    "source_over d' T' (newSSTableBlockSource r)" "stored_as recs (concat (map snd T'))" "bm_cache (sr_blockManager r) = cache"
proof -
  let ?T = "flushed T xs (sw_dataBlockBuilder w)"
  have n: "0 < n" "0 < ri" "ri < 2 ^ 31" using inv storage_positive by (auto simp: writer_inv_def current_ok_def builder_ok_def)
  obtain u where f: "table_file n d' (cf_Format cfg) p ?T (sw_footer u) u" "finished n cfg ?T w u"
    "\<forall>q. (\<forall>x. q \<noteq> table_path (cf_Format cfg) p x) \<longrightarrow> d' q = d q"
    by (rule Finalize_file [OF inv cfg(1,2) ft at run])
  have st': "stored_as recs (concat (map snd ?T))" using st(1) by (simp add: items_flushed)
  then have ne: "?T \<noteq> []" using stored_nonempty [OF st' st(2)] by auto
  have len: "length ?T < 2 ^ 32" by (rule blocks_count [OF f(1) small(1) n(1)])
  have good: "list_all (block_good n ri) ?T"
    using inv by (auto simp: flushed_def writer_inv_def block_good_def current_ok_def)
  have rd: "table_readable u" by (rule finished_readable [OF inv f(2) small(2)])
  obtain m where m: "sw_metadataSegment u = Some m" "Metadata_Decode (Metadata_Encode m) = Ok m" "metadata_ok n ri (length ?T) m"
    by (rule finished_metadata [OF inv f(2) cfg(3) len])
  have "n < 2 ^ 32" using cfg(2) by simp
  from NewSSTableReader_finished [OF f(1) m this cfg(4) ne small(1) rd] obtain r where
    r: "NewSSTableReader cache i p (cf_Format cfg) layer d' = Ok r" "reader_of n (cf_Format cfg) p (sw_footer u) m u r"
      "bm_cache (sr_blockManager r) = cache" .
  have "items_ok (writer_dict u) (concat (map snd ?T))"
    using inv f(2) by (simp add: items_flushed writer_inv_def finished_def)
  moreover have "cf_Format cfg = FormatSingleFile \<longrightarrow> d' (p @ ''.data'') = None" using alone f(3) by (simp add: table_path_def)
  moreover have "length (a_keys (writer_dict u)) \<le> 256" using rd by (simp add: table_readable_def)
  ultimately have "source_over d' ?T (newSSTableBlockSource r)"
    using n small(1) by (intro source_over_finished [OF f(1) r(2) m(3) good])
  then show thesis using f(1,2) ne len r st' by (intro that)
qed

lemma table_walk:
  assumes "source_over d T (newSSTableBlockSource r)" "stored_as recs (concat (map snd T))"
  obtains it where "NewSSTableIteratorRaw d r = Some (Ok it)" "collect (table_methods d) it = Some (map full recs)"
proof -
  let ?it = "\<lparr>ti_src = newSSTableBlockSource r, ti_blockIdx = 0, ti_blockIter = None, ti_current = None, ti_valid = False\<rparr>"
  have "source_over d T (ti_src ?it)" using assms(1) by simp
  from SeekToFirst_record [OF this assms(2)] obtain it where "Table_SeekToFirst d ?it = Some (Ok it)" "on_record d T it recs" by blast
  then show thesis by (intro that [of it] collect_record) (simp_all add: NewSSTableIteratorRaw_def)
qed

section \<open>Validation\<close>

text \<open>Data blocks read through the block manager of the reader, whose cache is right for the disk.\<close>

lemma read_data_block:
  assumes r: "opened_at fmt p (sr_storage r)" "storage_manager (sr_storage r) = Some bm" "coherent bm d" "bm_blockSize bm = n" "0 < n"
    and data: "disk_read n d (table_path fmt p SegmentData) i = Some data"
  obtains st bm' where "read_segment d SegmentData (i * n) n r = (Ok data, r\<lparr>sr_storage := st\<rparr>)" "opened_at fmt p st"
    "storage_manager st = Some bm'" "coherent bm' d" "bm_blockSize bm' = n"
proof -
  let ?q = "table_path fmt p SegmentData"
  obtain res bm' where rd: "bm_Read bm d (NewBlockKey ?q i) = (res, bm')" by fastforce
  from bm_Read_coherent [OF r(3), of "NewBlockKey ?q i"] rd data r(4) have bm': "res = Ok data" "coherent bm' d"
    by (simp_all add: ReadNoCache_disk NewBlockKey_def)
  have size: "bm_blockSize bm' = n"
    using rd r(4) by (auto simp: bm_Read_def split: prod.splits option.splits sum.splits)
  have bs: "block_segment SegmentData" by (simp add: block_segment_def)
  show thesis
  proof (cases "sr_storage r")
    case (SingleStorage s)
    then have s: "sf_BlockManager s = Some bm" "sf_file s = ?q" using r(1,2) by (simp_all add: table_path_def)
    have "Single_ReadSegment d SegmentData (i * n) n s = (Ok data, s\<lparr>sf_BlockManager := Some bm'\<rparr>)"
      using s rd bm'(1) r(4,5) bs by (simp add: Single_ReadSegment_def)
    then show thesis using r(1) bm'(2) size SingleStorage
      by (intro that [of "SingleStorage (s\<lparr>sf_BlockManager := Some bm'\<rparr>)" bm']) (simp_all add: read_segment_def)
  next
    case (MultiStorage m)
    then have m: "mf_BlockManager m = Some bm" "getFilePath SegmentData m = ?q" "\<forall>seg. mf_files m seg \<noteq> Some False"
      using r(1,2) by (simp_all add: table_path_def getFilePath_def)
    let ?m = "if mf_files m SegmentData \<noteq> None then m else m\<lparr>mf_files := (mf_files m)(SegmentData \<mapsto> True)\<rparr>"
    have "d ?q \<noteq> None" using data by (auto simp: disk_read_def)
    then have open1: "getOrOpenFile d SegmentData m = (Ok (), ?m)" using m(2) by (auto simp: getOrOpenFile_def)
    have m': "mf_BlockManager ?m = Some bm" "getFilePath SegmentData ?m = ?q" using m(1,2) by (simp_all add: getFilePath_def)
    have "Multi_ReadSegment d SegmentData (i * n) n m = (Ok data, ?m\<lparr>mf_BlockManager := Some bm'\<rparr>)"
      using m' rd bm'(1) r(4,5) bs by (simp only: Multi_ReadSegment_def bind_s_def open1 prod.case sum.case Let_def) simp
    then show thesis using r(1) m(3) bm'(2) size MultiStorage
      by (intro that [of "MultiStorage (?m\<lparr>mf_BlockManager := Some bm'\<rparr>)" bm']) (auto simp: read_segment_def)
  qed
qed

lemma block_hashes_read:
  assumes "opened_at fmt p (sr_storage r)" "storage_manager (sr_storage r) = Some bm" "coherent bm d" "bm_blockSize bm = n" "0 < n"
    and "\<forall>i \<in> set js. disk_read n d (table_path fmt p SegmentData) i = Some (f i)"
  shows "\<exists>r'. block_hashes d n js r = (Ok (map (HashDataBlock \<circ> f) js), r')"
  using assms
proof (induction js arbitrary: r bm)
  case (Cons i js)
  have "disk_read n d (table_path fmt p SegmentData) i = Some (f i)" using Cons.prems(6) by simp
  from read_data_block [OF Cons.prems(1-5) this] obtain st bm' where
    st: "read_segment d SegmentData (i * n) n r = (Ok (f i), r\<lparr>sr_storage := st\<rparr>)" "opened_at fmt p st"
      "storage_manager st = Some bm'" "coherent bm' d" "bm_blockSize bm' = n" .
  have "\<exists>r'. block_hashes d n js (r\<lparr>sr_storage := st\<rparr>) = (Ok (map (HashDataBlock \<circ> f) js), r')"
    using st Cons.prems(5,6) by (intro Cons.IH [where bm = bm']) simp_all
  then show ?case using st(1) by (auto simp: bind_s_def ret_s_def)
qed simp

lemma Table_Validate_blocks:
  assumes r: "opened_at fmt p (sr_storage r)" "storage_manager (sr_storage r) = Some (sr_blockManager r)" "coherent (sr_blockManager r) d"
    "bm_blockSize (sr_blockManager r) = n" "0 < n"
    and tree: "reached d fmt p SegmentMerkleTree (ft_MerkleHandler (sr_footer r)) data" "Merkle_Decode data = Ok t" "small_files d fmt p"
    and blocks: "\<forall>i < unat (mk_NumDataBlocks t). disk_read n d (table_path fmt p SegmentData) i = Some (f i)"
  shows "fst (Table_Validate d r) = Merkle_Verify (map (HashDataBlock \<circ> f) [0..<unat (mk_NumDataBlocks t)]) t"
proof -
  have nb: "\<not> block_segment SegmentMerkleTree" by (simp add: block_segment_def)
  obtain st where st: "read_handler d SegmentMerkleTree (ft_MerkleHandler (sr_footer r)) r = (Ok data, r\<lparr>sr_storage := st\<rparr>)"
    "opened_at fmt p st" "unat (sh_Size (ft_MerkleHandler (sr_footer r))) = length data" "storage_manager st = storage_manager (sr_storage r)"
    by (rule read_handler_reached [OF r(1) nb tree(1,3)])
  define r1 where "r1 = r\<lparr>sr_storage := st, sr_merkleTree := Some t\<rparr>"
  have load: "loadMerkleTree d r = (Ok (), r1)"
    by (simp add: loadMerkleTree_def get_reader_def set_reader_def bind_s_def lift_s_def st(1) tree(2) r1_def)
  have "\<exists>r'. block_hashes d n [0..<unat (mk_NumDataBlocks t)] r1 = (Ok (map (HashDataBlock \<circ> f) [0..<unat (mk_NumDataBlocks t)]), r')"
    using st(2,4) r(2-5) blocks by (intro block_hashes_read [where bm = "sr_blockManager r"]) (auto simp: r1_def)
  then obtain r' where hs: "block_hashes d n [0..<unat (mk_NumDataBlocks t)] r1 = (Ok (map (HashDataBlock \<circ> f) [0..<unat (mk_NumDataBlocks t)]), r')" ..
  have "sr_merkleTree r1 = Some t" "bm_blockSize (sr_blockManager r1) = n" using r(4) by (simp_all add: r1_def)
  then show ?thesis by (simp add: Table_Validate_def bind_s_def load get_reader_def hs lift_s_def)
qed

lemma holds_disk_read: "holds_at d q (i * n) data \<Longrightarrow> length data = n \<Longrightarrow> disk_read n d q i = Some data"
  by (auto simp: holds_at_def disk_read_def file_read_def make_bytes_def mult.commute)

text \<open>The tree of a finished table is stored and read back, and the blocks it was built from are those on disk.\<close>

lemma finished_validates:
  assumes tf: "table_file n d fmt p T ft u" and fin: "finished n cfg T w u" and r: "reader_of n fmt p ft m u r"
    and T: "T \<noteq> []" "length T < 2 ^ 32" and small: "small_files d fmt p" and co: "coherent (sr_blockManager r) d" and n: "0 < n"
  shows "\<exists>res. fst (Table_Validate d r) = Ok res \<and> vr_Valid res"
proof -
  let ?hs = "map (block_hash n) T"
  let ?f = "\<lambda>i. projr (Builder_Finish (int n) (fst (T ! i)))"
  have hs: "?hs \<noteq> []" "digests ?hs" "length ?hs < 2 ^ 32" using T by (auto simp: list_all_iff block_hash_def HashDataBlock_def)
  have t: "sw_merkleTree u = tree_of ?hs" using fin Build_tree [OF hs(1)] by (simp add: finished_def)
  from tf obtain data where "Merkle_Encode (sw_merkleTree u) = Ok data" "reached d fmt p SegmentMerkleTree (ft_MerkleHandler ft) data"
    by (auto simp: table_file_def)
  with Merkle_Encode_tree [OF hs(1,2)] Merkle_Decode_tree [OF hs] have
    tree: "reached d fmt p SegmentMerkleTree (ft_MerkleHandler ft) data" "Merkle_Decode data = Ok (tree_of ?hs)" by (simp_all add: t)
  have rd: "opened_at fmt p (sr_storage r)" "storage_manager (sr_storage r) = Some (sr_blockManager r)"
    "bm_blockSize (sr_blockManager r) = n" "ft_MerkleHandler (sr_footer r) = ft_MerkleHandler ft"
    using r by (auto simp: reader_of_def)
  have k: "unat (mk_NumDataBlocks (tree_of ?hs)) = length T"
    using T(2) by (simp add: tree_of_def unat_of_nat take_bit_nat_eq_self)
  have blocks: "\<forall>i < length T. disk_read n d (table_path fmt p SegmentData) i = Some (?f i)"
  proof (intro allI impI)
    fix i assume "i < length T"
    with tf obtain data where data: "Builder_Finish (int n) (fst (T ! i)) = Ok data" "length data = n"
      "holds_at d (table_path fmt p SegmentData) (i * n) data" unfolding table_file_def by blast
    from holds_disk_read [OF data(3,2)] data(1) show "disk_read n d (table_path fmt p SegmentData) i = Some (?f i)" by simp
  qed
  have "map (HashDataBlock \<circ> ?f) [0..<length T] = ?hs"
    by (rule nth_equalityI) (simp_all add: block_hash_def case_prod_unfold)
  with Table_Validate_blocks [OF rd(1,2) co rd(3) n tree(1) [folded rd(4)] tree(2) small, unfolded k, OF blocks]
  have "fst (Table_Validate d r) = Merkle_Verify ?hs (tree_of ?hs)" by simp
  also have "\<dots> = Ok \<lparr>vr_Valid = True, vr_CorruptedBlocks = [], vr_ExpectedRootHash = Hash (leaf_root ?hs),
      vr_ActualRootHash = Hash (leaf_root ?hs), vr_BlockHashes = Map.empty\<rparr>"
    using Merkle_Verify_tree [OF hs(1) refl] by simp
  finally show ?thesis by simp
qed

end
