(* ===== verification/Table_Finalized.thy ===== *)
theory Table_Finalized
  imports Table_Reopened
begin

text \<open>
  \<^verbatim>\<open>Finalize\<close> returns whenever the blocks of the indices can be encoded. With the theories before: a table that has been
  written, finished and opened again gives back its records, its filter admits their keys, and its Merkle tree validates.
\<close>

section \<open>Steps that return\<close>

text \<open>What the steps after the flush read of the writer; they change the storage, the footer and the summary only.\<close>

definition parts :: "SSTableWriter \<Rightarrow> IndexSegment \<times> TTLIndexSegment \<times> RangeDelIndexSegment \<times> BloomFilter option \<times> MerkleTree \<times>
    Metadata option \<times> DataBlockBuilder" where
  "parts w = (sw_indexSegment w, sw_ttlIndexSegment w, sw_rangeDelIndexSegment w, sw_filterSegment w, sw_merkleTree w,
     sw_metadataSegment w, sw_dataBlockBuilder w)"

text \<open>The files grow by no more than \<open>k\<close> bytes.\<close>

definition moved :: "nat \<Rightarrow> SegmentStorage \<Rightarrow> SegmentStorage \<Rightarrow> bool" where
  "moved k st st' \<longleftrightarrow> (\<forall>x. segment_path x st' = segment_path x st) \<and> single_file st' = single_file st \<and>
     (\<forall>x. storage_end x st' \<le> storage_end x st + k)"

lemma moved_refl: "moved k st st"
  by (simp add: moved_def)

lemma moved_trans: "moved k st st' \<Longrightarrow> moved l st' st'' \<Longrightarrow> moved (k + l) st st''"
  by (force simp: moved_def intro: order_trans)

lemma WriteSegment_moved:
  assumes w: "WriteSegment seg data (st, d) = (Ok place, (st', d'))" and inv: "storage_inv n (st, d)"
  shows "moved (2 * n + length data) st st'"
proof -
  have pad: "length (padded n data) \<le> n + length data" by (simp add: padded_def)
  have "storage_end x st' \<le> storage_end x st + (2 * n + length data)" for x
  proof (cases st)
    case (SingleStorage s)
    obtain s' where s': "Single_WriteSegment seg data (s, d) = (Ok place, (s', d'))" "st' = SingleStorage s'"
      using w by (auto simp: SingleStorage split: prod.splits)
    have "sf_offset s' \<le> sf_offset s + (2 * n + length data)"
      using s'(1) inv pad unfolding SingleStorage
      by (auto simp: Single_WriteSegment_def Single_align_def Let_def bind_s_def single_inv_def split: if_splits option.splits)
    then show ?thesis by (simp add: SingleStorage s'(2))
  next
    case (MultiStorage m)
    obtain m' where m': "Multi_WriteSegment seg data (m, d) = (Ok place, (m', d'))" "st' = MultiStorage m'"
      using w by (auto simp: MultiStorage split: prod.splits)
    have inv': "multi_inv n (m, d)" using inv MultiStorage by simp
    obtain bm where bm: "mf_BlockManager m = Some bm" "bm_blockSize bm = n" using inv' by (auto simp: multi_inv_def)
    show ?thesis
    proof (cases "x = seg")
      case False
      then show ?thesis using WriteSegment_fixed(4) [OF w, of x] by (simp add: MultiStorage)
    next
      case True
      show ?thesis
        using m'(1) bm pad
        by (auto simp: MultiStorage m'(2) True Multi_WriteSegment_def getOrCreateFile_def segment_offset_def Let_def
            split: if_splits option.splits)
    qed
  qed
  then show ?thesis using WriteSegment_fixed(1,2) [OF w] by (simp add: moved_def)
qed

definition total :: "nat \<Rightarrow> SSTableWriter \<Rightarrow> nat \<Rightarrow> 'a writer_op \<Rightarrow> bool" where
  "total n v k m \<longleftrightarrow> (\<forall>w d. storage_inv n (sw_storage w, d) \<and> parts w = parts v \<longrightarrow>
     (\<exists>x w' d'. m (w, d) = (Ok x, (w', d')) \<and> storage_inv n (sw_storage w', d') \<and> parts w' = parts v \<and>
        moved k (sw_storage w) (sw_storage w')))"

lemma totalD:
  assumes "total n v k m" "storage_inv n (sw_storage w, d)" "parts w = parts v"
  obtains x w' d' where "m (w, d) = (Ok x, (w', d'))" "storage_inv n (sw_storage w', d')" "parts w' = parts v"
    "moved k (sw_storage w) (sw_storage w')"
  using assms unfolding total_def by blast

lemma totalI:
  assumes "\<And>w d. storage_inv n (sw_storage w, d) \<Longrightarrow> parts w = parts v \<Longrightarrow>
    \<exists>x w' d'. m (w, d) = (Ok x, (w', d')) \<and> storage_inv n (sw_storage w', d') \<and> parts w' = parts v \<and> moved k (sw_storage w) (sw_storage w')"
  shows "total n v k m"
  using assms unfolding total_def by blast

lemma total_ret: "total n v k (ret_s x)"
  by (auto simp: total_def moved_refl)

lemma total_bind:
  assumes m: "total n v k m" and f: "\<And>x. total n v l (f x)"
  shows "total n v (k + l) (bind_s m f)"
proof (rule totalI)
  fix w d
  assume s: "storage_inv n (sw_storage w, d)" "parts w = parts v"
  obtain x w1 d1 where 1: "m (w, d) = (Ok x, (w1, d1))" "storage_inv n (sw_storage w1, d1)" "parts w1 = parts v"
    "moved k (sw_storage w) (sw_storage w1)"
    by (rule totalD [OF m s])
  obtain y w' d' where 2: "f x (w1, d1) = (Ok y, (w', d'))" "storage_inv n (sw_storage w', d')" "parts w' = parts v"
    "moved l (sw_storage w1) (sw_storage w')"
    by (rule totalD [OF f 1(2,3)])
  show "\<exists>x w' d'. bind_s m f (w, d) = (Ok x, (w', d')) \<and> storage_inv n (sw_storage w', d') \<and> parts w' = parts v \<and>
      moved (k + l) (sw_storage w) (sw_storage w')"
    using 1(1) 2 moved_trans [OF 1(4) 2(4)] by (intro exI [of _ y] exI [of _ w'] exI [of _ d']) (simp add: bind_s_def)
qed

lemma total_lift: "r = Ok x \<Longrightarrow> total n v k (f x) \<Longrightarrow> total n v k (bind_s (lift_s r) f)"
  by (auto simp: total_def bind_s_def lift_s_def)

lemma total_state: "(\<And>w. parts w = parts v \<Longrightarrow> total n v k (m w)) \<Longrightarrow> total n v k (\<lambda>(w, d). m w (w, d))"
  by (simp add: total_def)

lemma total_update: "(\<And>w. sw_storage (f w) = sw_storage w \<and> parts (f w) = parts w) \<Longrightarrow> total n v 0 (update_writer f)"
  by (simp add: total_def update_writer_def moved_refl)

lemma parts_update [simp]:
  "parts (w\<lparr>sw_storage := st\<rparr>) = parts w" "parts (w\<lparr>sw_footer := ft\<rparr>) = parts w" "parts (w\<lparr>sw_summarySegment := ss\<rparr>) = parts w"
  by (simp_all add: parts_def)

lemma total_footer: "total n v 0 (set_footer f)"
  unfolding set_footer_def by (rule total_update) simp

lemma total_write:
  assumes fits: "seg_fits n seg data"
  shows "total n v (2 * n + length data) (write_segment seg data)"
proof (rule totalI)
  fix w d
  assume inv: "storage_inv n (sw_storage w, d)" and p: "parts w = parts v"
  from storage.write_reads [OF inv fits] obtain off k st d' where
    w: "WriteSegment seg data (sw_storage w, d) = (Ok (off, k), (st, d'))" "storage_inv n (st, d')" by auto
  then show "\<exists>x w' d'. write_segment seg data (w, d) = (Ok x, (w', d')) \<and> storage_inv n (sw_storage w', d') \<and> parts w' = parts v \<and>
      moved (2 * n + length data) (sw_storage w) (sw_storage w')"
    using p WriteSegment_moved [OF w(1) inv]
    by (intro exI [of _ "(off, k)"] exI [of _ "w\<lparr>sw_storage := st\<rparr>"] exI [of _ d']) (simp add: write_segment_def)
qed

text \<open>A segment and its handler.\<close>

lemma total_put: "seg_fits n seg data \<Longrightarrow> total n v (2 * n + length data) (bind_s (write_segment seg data) (\<lambda>place. set_footer (f place)))"
  using total_bind [OF total_write total_footer, of n seg data v f] by simp

text \<open>The blocks of an index.\<close>

definition encodable :: "('b \<Rightarrow> bytes result) \<Rightarrow> 'b list \<Rightarrow> bool" where
  "encodable encode bs \<longleftrightarrow> (\<forall>b \<in> set bs. \<exists>data. encode b = Ok data)"

lemma total_blocks:
  assumes "encodable encode bs" "\<And>b data. encode b = Ok data \<Longrightarrow> seg_fits n seg data \<and> length data = n"
  shows "total n v (3 * n * length bs) (write_blocks seg encode bs)"
  using assms(1)
proof (induction bs)
  case Nil
  show ?case by (simp only: write_blocks.simps total_ret)
next
  case (Cons b bs)
  then obtain data where data: "encode b = Ok data" and bs: "encodable encode bs" by (auto simp: encodable_def)
  have "seg_fits n seg data" "length data = n" using assms(2) [OF data] by simp_all
  then have w: "total n v (3 * n) (write_segment seg data)" using total_write [of n seg data v] by simp
  have "total n v (3 * n + (3 * n * length bs + 0)) (write_blocks seg encode (b # bs))"
    unfolding write_blocks.simps by (intro total_lift [OF data] total_bind w total_ret Cons.IH [OF bs])
  then show ?case by (simp add: algebra_simps)
qed

lemma write_blocks_length: "write_blocks seg encode bs s = (Ok places, s') \<Longrightarrow> length places = length bs"
  by (induction bs arbitrary: s places s') (auto simp: bind_s_eq_Inr)

section \<open>The steps of \<open>Finalize\<close>\<close>

definition final_index :: "TableSettings \<Rightarrow> SSTableWriter \<Rightarrow> IndexSegment" where
  "final_index cfg w = sw_indexSegment (finish_index
     (if bb_recordCount (sw_dataBlockBuilder w) = 0 then w else note_block cfg [] w))"

definition indices_encode :: "TableSettings \<Rightarrow> SSTableWriter \<Rightarrow> bool" where
  "indices_encode cfg w \<longleftrightarrow> (let n = of_int (cf_BlockSize cfg) in
     encodable (\<lambda>b. EncodeIndexBlock b n) (is_Blocks (final_index cfg w)) \<and>
     encodable (\<lambda>b. TTLIndexBlock_Encode b n) (ts_Blocks (sw_ttlIndexSegment w)) \<and>
     encodable (\<lambda>b. RangeDelIndexBlock_Encode b n) (rs_Blocks (sw_rangeDelIndexSegment w)))"

lemma note_block_index:
  "sw_indexSegment (finish_index (note_block cfg data w)) = sw_indexSegment (finish_index (note_block cfg [] w))"
  by (simp add: finish_index_def note_block_def Let_def)

lemma finish_index_cong:
  "sw_indexSegment w = sw_indexSegment v \<Longrightarrow> sw_currentIndexBlock w = sw_currentIndexBlock v \<Longrightarrow>
   sw_indexSegment (finish_index w) = sw_indexSegment (finish_index v)"
  by (simp add: finish_index_def)

lemma note_block_cong:
  assumes "sw_indexSegment w = sw_indexSegment v" "sw_currentIndexBlock w = sw_currentIndexBlock v"
    "sw_dataBlockBuilder w = sw_dataBlockBuilder v" "sw_currentBlockIndex w = sw_currentBlockIndex v"
  shows "sw_indexSegment (note_block cfg data w) = sw_indexSegment (note_block cfg data v)"
    "sw_currentIndexBlock (note_block cfg data w) = sw_currentIndexBlock (note_block cfg data v)"
  using assms by (simp_all add: note_block_def Let_def)

lemma note_block_others [simp]:
  "sw_ttlIndexSegment (note_block cfg data w) = sw_ttlIndexSegment w"
  "sw_rangeDelIndexSegment (note_block cfg data w) = sw_rangeDelIndexSegment w"
  by (simp_all add: note_block_def Let_def)

lemma flush_index:
  assumes "flushDataBlock cfg (w, d) = (Ok (), (w', d'))"
  shows "sw_indexSegment (finish_index w') = final_index cfg w" "sw_ttlIndexSegment w' = sw_ttlIndexSegment w"
    "sw_rangeDelIndexSegment w' = sw_rangeDelIndexSegment w"
proof -
  have "sw_indexSegment (finish_index w') = final_index cfg w \<and> sw_ttlIndexSegment w' = sw_ttlIndexSegment w \<and>
    sw_rangeDelIndexSegment w' = sw_rangeDelIndexSegment w"
  proof (cases "bb_recordCount (sw_dataBlockBuilder w) = 0")
    case True
    with assms show ?thesis by (simp add: flushDataBlock_def final_index_def)
  next
    case False
    with assms obtain data place w1 d1 w2 d2 where
      w1: "write_segment SegmentData data (w, d) = (Ok place, (w1, d1))"
      and w2: "with_builder (\<lambda>b. bind_r (Builder_Reset b) (\<lambda>b. Ok ((), b))) (note_block cfg data w1, d1) = (Ok (), (w2, d2))"
      and w': "w' = w2\<lparr>sw_currentBlockIndex := sw_currentBlockIndex w2 + 1\<rparr>"
      by (auto simp: flushDataBlock_def bind_s_eq_Inr update_writer_def)
    obtain st where st: "w1 = w\<lparr>sw_storage := st\<rparr>" using write_segment_step(2) [OF w1] by auto
    obtain b where "w2 = (note_block cfg data w1)\<lparr>sw_dataBlockBuilder := b\<rparr>"
      using w2 by (auto simp: with_builder_def split: sum.splits)
    note w' = w' [unfolded this st]
    let ?v = "note_block cfg data (w\<lparr>sw_storage := st\<rparr>)"
    have "sw_indexSegment (finish_index w') = sw_indexSegment (finish_index ?v)"
      by (rule finish_index_cong) (simp_all add: w')
    also have "\<dots> = sw_indexSegment (finish_index (note_block cfg data w))"
      by (rule finish_index_cong) (rule note_block_cong; simp)+
    also have "\<dots> = sw_indexSegment (finish_index (note_block cfg [] w))" by (rule note_block_index)
    finally show ?thesis using False by (simp add: final_index_def w')
  qed
  then show "sw_indexSegment (finish_index w') = final_index cfg w" "sw_ttlIndexSegment w' = sw_ttlIndexSegment w"
    "sw_rangeDelIndexSegment w' = sw_rangeDelIndexSegment w" by auto
qed

text \<open>How many bytes the segments take at most.\<close>

definition key_sizes :: "IndexBlock \<Rightarrow> nat" where
  "key_sizes b = sum_list (map (\<lambda>e. length (ie_Key e)) (blk_Entries b))"

definition summary_bytes :: "IndexBlock list \<Rightarrow> nat" where
  "summary_bytes blocks = 36 + 3 * sum_list (map (\<lambda>b. 18 + key_sizes b) blocks)"

definition finish_bytes :: "nat \<Rightarrow> nat \<Rightarrow> TableSettings \<Rightarrow> SSTableWriter \<Rightarrow> nat" where
  "finish_bytes n blocks cfg w = (let ix = is_Blocks (final_index cfg w) in
     3 * n + (case sw_filterSegment w of None \<Rightarrow> 0 | Some f \<Rightarrow> 2 * n + length (FilterSegment_Encode f)) + 3 * n * length ix +
     (2 * n + summary_bytes ix) + 3 * n * length (ts_Blocks (sw_ttlIndexSegment w)) + 3 * n * length (rs_Blocks (sw_rangeDelIndexSegment w)) +
     (2 * n + 44 + 32 * blocks) + (2 * n + 200 + length (key_bytes (sw_minKey w)) + length (key_bytes (sw_maxKey w))) +
     (2 * n + length (Adaptive_SaveDict (writer_dict w))) + (2 * n + FooterSize))"

lemma length_Metadata_Encode:
  "length (Metadata_Encode m) = (\<Sum>i \<in> dom (md_Fields m). 6 + length (the (md_Fields m i)))"
proof -
  let ?f = "\<lambda>i. case md_Fields m i of None \<Rightarrow> [] | Some val \<Rightarrow> field_bytes i val"
  have "Metadata_Encode m = concat (map ?f (sorted_ids (md_Fields m)))" by (simp add: Metadata_Encode_def encode_foldl)
  then have "length (Metadata_Encode m) = sum_list (map (\<lambda>i. length (?f i)) (sorted_ids (md_Fields m)))"
    by (simp add: length_concat comp_def)
  also have "\<dots> = (\<Sum>i \<in> dom (md_Fields m). length (?f i))"
    by (simp add: sum_list_distinct_conv_sum_set distinct_sorted_ids set_sorted_ids)
  also have "\<dots> = (\<Sum>i \<in> dom (md_Fields m). 6 + length (the (md_Fields m i)))"
    by (rule sum.cong) (auto simp: field_bytes_def)
  finally show ?thesis .
qed

lemma table_metadata_bytes:
  "length (Metadata_Encode (table_metadata cfg v)) \<le> 200 + length (key_bytes (sw_minKey v)) + length (key_bytes (sw_maxKey v))"
proof -
  let ?F = "md_Fields (table_metadata cfg v)"
  let ?g = "\<lambda>i. case ?F i of None \<Rightarrow> 0 | Some val \<Rightarrow> 6 + length val"
  let ?I = "{1, 2, 3, 4, 5, 6, 7, 8, 10, 11, 12, 13} :: u16 set"
  have "dom ?F \<subseteq> ?I"
    by (auto simp: table_metadata_def Let_def SetUint64_def SetBytes_def SetByte_def split: if_splits)
  then have "(\<Sum>i \<in> dom ?F. ?g i) \<le> (\<Sum>i \<in> ?I. ?g i)" by (intro sum_mono2) auto
  moreover have "(\<Sum>i \<in> dom ?F. 6 + length (the (?F i))) = (\<Sum>i \<in> dom ?F. ?g i)" by (rule sum.cong) auto
  moreover have "(\<Sum>i \<in> ?I. ?g i) \<le> 200 + length (key_bytes (sw_minKey v)) + length (key_bytes (sw_maxKey v))"
    by (simp add: table_metadata_def Let_def SetUint64_def SetBytes_def SetByte_def key_bytes_def split: option.split)
  ultimately show ?thesis by (simp add: length_Metadata_Encode)
qed

lemma build_loop_returns:
  "length blocks \<le> length offsets \<Longrightarrow> i \<le> length blocks \<Longrightarrow> \<exists>es. build_loop offsets blocks 1 i acc = Some (Ok (acc @ es)) \<and>
     sum_list (map (\<lambda>e. MaxVarintLen64 + length (se_Key e) + 8) es) \<le> sum_list (map (\<lambda>b. 18 + key_sizes b) (drop i blocks))"
proof (induction "length blocks - i" arbitrary: i acc)
  case 0
  then show ?case by (subst build_loop.simps) simp
next
  case (Suc k)
  then have i: "i < length blocks" "i < length offsets" "k = length blocks - (i + 1)" "i + 1 \<le> length blocks" by auto
  have d: "drop i blocks = blocks ! i # drop (i + 1) blocks" using i(1) by (simp add: Cons_nth_drop_Suc)
  note IH = Suc.hyps(1) [OF i(3) Suc.prems(1) i(4)]
  show ?case
  proof (cases "blk_Entries (blocks ! i)")
    case Nil
    from IH [of acc] obtain es where es: "build_loop offsets blocks 1 (i + 1) acc = Some (Ok (acc @ es))"
      "sum_list (map (\<lambda>e. MaxVarintLen64 + length (se_Key e) + 8) es) \<le> sum_list (map (\<lambda>b. 18 + key_sizes b) (drop (i + 1) blocks))"
      by blast
    have "build_loop offsets blocks 1 i acc = Some (Ok (acc @ es))" using es(1) i(1) Nil by (subst build_loop.simps) simp
    then show ?thesis using es(2) by (intro exI [of _ es]) (simp add: d)
  next
    case (Cons e rest)
    let ?e = "\<lparr>se_Key = ie_Key e, se_IndexBlockOffset = offsets ! i\<rparr>"
    from IH [of "acc @ [?e]"] obtain es where es: "build_loop offsets blocks 1 (i + 1) (acc @ [?e]) = Some (Ok ((acc @ [?e]) @ es))"
      "sum_list (map (\<lambda>e. MaxVarintLen64 + length (se_Key e) + 8) es) \<le> sum_list (map (\<lambda>b. 18 + key_sizes b) (drop (i + 1) blocks))"
      by blast
    have "build_loop offsets blocks 1 i acc = Some (Ok (acc @ (?e # es)))"
      using es(1) i(1,2) Cons by (subst build_loop.simps) (simp add: Let_def)
    moreover have "length (ie_Key e) \<le> key_sizes (blocks ! i)" by (simp add: key_sizes_def Cons)
    ultimately show ?thesis using es(2) by (intro exI [of _ "?e # es"]) (simp add: d)
  qed
qed

lemma key_in_sizes: "b \<in> set blocks \<Longrightarrow> e \<in> set (blk_Entries b) \<Longrightarrow> length (ie_Key e) \<le> sum_list (map (\<lambda>b. 18 + key_sizes b) blocks)"
proof -
  assume "b \<in> set blocks" "e \<in> set (blk_Entries b)"
  then have "length (ie_Key e) \<le> key_sizes b" unfolding key_sizes_def by (intro member_le_sum_list) auto
  also have "\<dots> \<le> 18 + key_sizes b" by simp
  also have "\<dots> \<le> sum_list (map (\<lambda>b. 18 + key_sizes b) blocks)" using \<open>b \<in> set blocks\<close> by (intro member_le_sum_list) auto
  finally show ?thesis .
qed

lemma BuildSummary_returns:
  assumes "length blocks \<le> length offsets"
  shows "\<exists>s. BuildSummaryFromIndex offsets blocks 1 = Some (Ok s) \<and> EstimatedSize s \<le> summary_bytes blocks"
proof (cases "blocks = []")
  case True
  then show ?thesis by (simp add: BuildSummaryFromIndex_def Let_def EstimatedSize_def NewSummarySegment_def summary_bytes_def)
next
  case False
  from build_loop_returns [OF assms, of 0 "[]"] obtain es where es: "build_loop offsets blocks 1 0 [] = Some (Ok es)"
    "sum_list (map (\<lambda>e. MaxVarintLen64 + length (se_Key e) + 8) es) \<le> sum_list (map (\<lambda>b. 18 + key_sizes b) blocks)" by auto
  let ?lo = "blk_Entries (hd blocks)" and ?hi = "blk_Entries (last blocks)"
  have lo: "length (if ?lo = [] then [] else ie_Key (hd ?lo)) \<le> sum_list (map (\<lambda>b. 18 + key_sizes b) blocks)"
    using key_in_sizes [of "hd blocks" blocks "hd ?lo"] False by auto
  have hi: "length (if ?hi = [] then [] else ie_Key (last ?hi)) \<le> sum_list (map (\<lambda>b. 18 + key_sizes b) blocks)"
    using key_in_sizes [of "last blocks" blocks "last ?hi"] False by auto
  obtain s where s: "BuildSummaryFromIndex offsets blocks 1 = Some (Ok s)" "ss_Entries s = es"
    "ss_MinKey s = (if ?lo = [] then [] else ie_Key (hd ?lo))" "ss_MaxKey s = (if ?hi = [] then [] else ie_Key (last ?hi))"
    using False es(1) by (auto simp: BuildSummaryFromIndex_def Let_def NewSummarySegment_def)
  have "EstimatedSize s \<le> summary_bytes blocks"
    using lo hi es(2) unfolding EstimatedSize_def summary_bytes_def s(2-4) by linarith
  with s(1) show ?thesis by blast
qed

lemma Summary_Encode_bytes: "Summary_Encode s = Ok (summary_body s @ put_u32 (crc32_ChecksumIEEE (summary_body s)))"
  "length (summary_body s @ put_u32 (crc32_ChecksumIEEE (summary_body s))) \<le> EstimatedSize s"
  using Summary_Encode_eq [of s] length_summary_chunks [of s] by (simp_all add: summary_body_def)

text \<open>The data and the tree.\<close>

lemma flush_moved:
  assumes "flushDataBlock cfg (w, d) = (Ok (), (w', d'))" "storage_inv n (sw_storage w, d)"
    and "\<And>data. bb_recordCount (sw_dataBlockBuilder w) \<noteq> 0 \<Longrightarrow> Builder_Finish (cf_BlockSize cfg) (sw_dataBlockBuilder w) = Ok data \<Longrightarrow> length data = n"
  shows "moved (3 * n) (sw_storage w) (sw_storage w')"
proof (cases "bb_recordCount (sw_dataBlockBuilder w) = 0")
  case True
  with assms(1) show ?thesis by (simp add: flushDataBlock_def moved_def)
next
  case False
  with assms(1) obtain data place w1 d1 w2 d2 where fin: "Builder_Finish (cf_BlockSize cfg) (sw_dataBlockBuilder w) = Ok data"
    and w1: "write_segment SegmentData data (w, d) = (Ok place, (w1, d1))"
    and w2: "with_builder (\<lambda>b. bind_r (Builder_Reset b) (\<lambda>b. Ok ((), b))) (note_block cfg data w1, d1) = (Ok (), (w2, d2))"
    and w': "w' = w2\<lparr>sw_currentBlockIndex := sw_currentBlockIndex w2 + 1\<rparr>"
    by (auto simp: flushDataBlock_def bind_s_eq_Inr update_writer_def lift_s_def)
  obtain st where st: "WriteSegment SegmentData data (sw_storage w, d) = (Ok place, (st, d1))" "w1 = w\<lparr>sw_storage := st\<rparr>"
    using w1 by (auto simp: write_segment_def split: prod.splits)
  have "sw_storage w' = st" using w2 by (auto simp: w' with_builder_def st(2) split: sum.splits)
  with WriteSegment_moved [OF st(1) assms(2)] assms(3) [OF False fin] show ?thesis by simp
qed

lemma data_finished_returns:
  assumes inv: "writer_inv n ri (w, d) T xs" and cfg: "cf_BlockSize cfg = int n" and ne: "flushed T xs (sw_dataBlockBuilder w) \<noteq> []"
  obtains v dv where "bind_s (flushDataBlock cfg) (\<lambda>_. bind_s (update_writer finish_index) (\<lambda>_. bind_s build_tree (\<lambda>_.
        update_writer (set_metadata cfg)))) (w, d) = (Ok (), (v, dv))"
    "storage_inv n (sw_storage v, dv)" "sw_indexSegment v = final_index cfg w" "sw_ttlIndexSegment v = sw_ttlIndexSegment w"
    "sw_rangeDelIndexSegment v = sw_rangeDelIndexSegment w"
    "\<exists>m. sw_metadataSegment v = Some m \<and> length (Metadata_Encode m) \<le> 200 + length (key_bytes (sw_minKey w)) + length (key_bytes (sw_maxKey w))"
    "\<exists>data. Merkle_Encode (sw_merkleTree v) = Ok data \<and> length data = 44 + 32 * length (flushed T xs (sw_dataBlockBuilder w))"
    "moved (3 * n) (sw_storage w) (sw_storage v)" "sw_filterSegment v = sw_filterSegment w" "writer_dict v = writer_dict w"
proof -
  let ?T = "flushed T xs (sw_dataBlockBuilder w)"
  obtain w1 d1 where f: "flushDataBlock cfg (w, d) = (Ok (), (w1, d1))" "writer_inv n ri (w1, d1) ?T []" "writer_dict w1 = writer_dict w"
  proof (cases "xs = []")
    case True
    then show thesis using that [of w d] inv flush_empty [of n ri w d T cfg] by (simp add: flushed_def)
  next
    case False
    from flush_written [OF inv False cfg] that show thesis by (auto simp: flushed_def False)
  qed
  let ?hs = "map (block_hash n) ?T"
  define t where "t = tree_of ?hs"
  have w1: "sw_merkleTree w1 = fold AddLeaf ?hs NewMerkleTree" "storage_inv n (sw_storage w1, d1)" using f(2) by (simp_all add: writer_inv_def)
  have hs: "?hs \<noteq> []" "digests ?hs" using ne by (auto simp: list_all_iff block_hash_def HashDataBlock_def)
  have build: "Merkle_Build (fold AddLeaf ?hs NewMerkleTree) = Ok t" unfolding t_def by (rule Build_tree [OF hs(1)])
  define w2 where "w2 = (finish_index w1)\<lparr>sw_merkleTree := t\<rparr>"
  have fi: "sw_merkleTree (finish_index w1) = sw_merkleTree w1" by (simp add: finish_index_def)
  have "build_tree (finish_index w1, d1) = (Ok (), (w2, d1))" by (simp add: build_tree_def fi w1(1) build w2_def)
  then have run: "bind_s (flushDataBlock cfg) (\<lambda>_. bind_s (update_writer finish_index) (\<lambda>_. bind_s build_tree (\<lambda>_.
        update_writer (set_metadata cfg)))) (w, d) = (Ok (), (set_metadata cfg w2, d1))"
    by (simp add: bind_s_def f(1) update_writer_def)
  have tree: "\<exists>data. Merkle_Encode (sw_merkleTree (set_metadata cfg w2)) = Ok data \<and> length data = 44 + 32 * length ?T"
    using Merkle_Encode_tree [OF hs] length_merkle_body [OF hs] by (simp add: set_metadata_def w2_def t_def)
  have w2: "sw_storage (finish_index w1) = sw_storage w1" "sw_ttlIndexSegment (finish_index w1) = sw_ttlIndexSegment w1"
    "sw_rangeDelIndexSegment (finish_index w1) = sw_rangeDelIndexSegment w1" "sw_minKey w2 = sw_minKey w1" "sw_maxKey w2 = sw_maxKey w1"
    "sw_filterSegment (finish_index w1) = sw_filterSegment w1" "writer_dict (finish_index w1) = writer_dict w1"
    by (simp_all add: finish_index_def w2_def)
  have "moved (3 * n) (sw_storage w) (sw_storage w1)"
  proof (rule flush_moved [OF f(1)])
    show "storage_inv n (sw_storage w, d)" using inv by (simp add: writer_inv_def)
    fix data
    assume "bb_recordCount (sw_dataBlockBuilder w) \<noteq> 0" and fin: "Builder_Finish (cf_BlockSize cfg) (sw_dataBlockBuilder w) = Ok data"
    then have b: "xs \<noteq> []" "built (sw_dataBlockBuilder w) xs" "has_room (sw_dataBlockBuilder w) xs" "builder_ok (sw_dataBlockBuilder w)"
      "bb_blockSize (sw_dataBlockBuilder w) = int n" using inv by (auto simp: writer_inv_def current_ok_def built_def)
    obtain block where "Builder_Finish (int n) (sw_dataBlockBuilder w) = Ok block" "length block = n"
      by (rule finished_block [OF b(2,1,3,4), unfolded b(5), where dec = undefined]) auto
    with fin cfg show "length data = n" by simp
  qed
  moreover note run tree w2 w1(2) f(3) flush_index [OF f(1)] flush_range [OF f(1)] table_metadata_bytes [of cfg w2]
  ultimately show thesis
    by (intro that [of "set_metadata cfg w2" d1]) (simp_all add: set_metadata_def w2_def)
qed

text \<open>The other segments.\<close>

lemma parts_eq: "parts w = parts v \<longleftrightarrow> sw_indexSegment w = sw_indexSegment v \<and> sw_ttlIndexSegment w = sw_ttlIndexSegment v \<and>
    sw_rangeDelIndexSegment w = sw_rangeDelIndexSegment v \<and> sw_filterSegment w = sw_filterSegment v \<and>
    sw_merkleTree w = sw_merkleTree v \<and> sw_metadataSegment w = sw_metadataSegment v \<and> sw_dataBlockBuilder w = sw_dataBlockBuilder v"
  by (auto simp: parts_def)

lemma total_filter:
  "total n v (case sw_filterSegment v of None \<Rightarrow> 0 | Some f \<Rightarrow> 2 * n + length (FilterSegment_Encode f)) write_filter"
proof (cases "sw_filterSegment v")
  case None
  then show ?thesis by (auto simp: total_def write_filter_def parts_eq moved_refl)
next
  case (Some f)
  have "total n v (2 * n + length (FilterSegment_Encode f)) (bind_s (write_segment SegmentFilter (FilterSegment_Encode f)) (\<lambda>place.
      set_footer (\<lambda>ft. ft\<lparr>ft_FilterHandler := handler_of place\<rparr>)))"
    by (rule total_put) simp
  with Some show ?thesis by (simp add: total_def write_filter_def parts_eq)
qed

lemma index_sizes:
  assumes "cf_BlockSize cfg = int n" "n < 2 ^ 19"
  shows "EncodeIndexBlock ib (of_int (cf_BlockSize cfg)) = Ok data \<Longrightarrow> seg_fits n SegmentIndex data \<and> length data = n"
    "TTLIndexBlock_Encode tb (of_int (cf_BlockSize cfg)) = Ok data \<Longrightarrow> seg_fits n SegmentTTLIndex data \<and> length data = n"
    "RangeDelIndexBlock_Encode rb (of_int (cf_BlockSize cfg)) = Ok data \<Longrightarrow> seg_fits n SegmentRangeDelIndex data \<and> length data = n"
  using index_fits [OF assms] encoded_lengths block_size_word [OF assms] by auto

lemma total_index:
  assumes "cf_BlockSize cfg = int n" "n < 2 ^ 19"
  shows "encodable (\<lambda>b. EncodeIndexBlock b (of_int (cf_BlockSize cfg))) (is_Blocks (sw_indexSegment v)) \<Longrightarrow>
      total n v (3 * n * length (is_Blocks (sw_indexSegment v))) (write_index cfg)"
    and "encodable (\<lambda>b. TTLIndexBlock_Encode b (of_int (cf_BlockSize cfg))) (ts_Blocks (sw_ttlIndexSegment v)) \<Longrightarrow>
      total n v (3 * n * length (ts_Blocks (sw_ttlIndexSegment v))) (write_ttl cfg)"
    and "encodable (\<lambda>b. RangeDelIndexBlock_Encode b (of_int (cf_BlockSize cfg))) (rs_Blocks (sw_rangeDelIndexSegment v)) \<Longrightarrow>
      total n v (3 * n * length (rs_Blocks (sw_rangeDelIndexSegment v))) (write_rangedel cfg)"
proof -
  let ?k = "3 * n * length (is_Blocks (sw_indexSegment v))"
  assume e: "encodable (\<lambda>b. EncodeIndexBlock b (of_int (cf_BlockSize cfg))) (is_Blocks (sw_indexSegment v))"
  have "total n v (?k + (0 + 0)) (bind_s (write_blocks SegmentIndex (\<lambda>b. EncodeIndexBlock b (of_int (cf_BlockSize cfg))) (is_Blocks (sw_indexSegment v)))
      (\<lambda>places. bind_s (set_footer (\<lambda>ft. ft\<lparr>ft_IndexHandler := handler_over places\<rparr>)) (\<lambda>_. ret_s (map (\<lambda>p. of_nat (fst p)) places))))"
    by (intro total_bind total_blocks [OF e] total_footer total_ret index_sizes [OF assms])
  then show "total n v ?k (write_index cfg)" by (simp add: total_def write_index_def parts_eq)
next
  let ?k = "3 * n * length (ts_Blocks (sw_ttlIndexSegment v))"
  assume e: "encodable (\<lambda>b. TTLIndexBlock_Encode b (of_int (cf_BlockSize cfg))) (ts_Blocks (sw_ttlIndexSegment v))"
  have "total n v (?k + 0) (bind_s (write_blocks SegmentTTLIndex (\<lambda>b. TTLIndexBlock_Encode b (of_int (cf_BlockSize cfg)))
      (ts_Blocks (sw_ttlIndexSegment v))) (\<lambda>places. set_footer (\<lambda>ft. ft\<lparr>ft_TTLIndexHandler := handler_over places\<rparr>)))"
    by (intro total_bind total_blocks [OF e] total_footer index_sizes [OF assms])
  then show "total n v ?k (write_ttl cfg)" by (simp add: total_def write_ttl_def parts_eq)
next
  let ?k = "3 * n * length (rs_Blocks (sw_rangeDelIndexSegment v))"
  assume e: "encodable (\<lambda>b. RangeDelIndexBlock_Encode b (of_int (cf_BlockSize cfg))) (rs_Blocks (sw_rangeDelIndexSegment v))"
  have "total n v (?k + 0) (bind_s (write_blocks SegmentRangeDelIndex (\<lambda>b. RangeDelIndexBlock_Encode b (of_int (cf_BlockSize cfg)))
      (rs_Blocks (sw_rangeDelIndexSegment v))) (\<lambda>places. set_footer (\<lambda>ft. ft\<lparr>ft_RangeDelIndexHandler := handler_over places\<rparr>)))"
    by (intro total_bind total_blocks [OF e] total_footer index_sizes [OF assms])
  then show "total n v ?k (write_rangedel cfg)" by (simp add: total_def write_rangedel_def parts_eq)
qed

lemma total_mono: "total n v k m \<Longrightarrow> k \<le> l \<Longrightarrow> total n v l m"
  unfolding total_def moved_def by (meson add_le_cancel_left le_trans)

lemma summary_returns:
  assumes inv: "storage_inv n (sw_storage w, d)" and p: "parts w = parts v" and len: "length (is_Blocks (sw_indexSegment v)) = length offs"
  obtains w' d' where "write_summary offs (w, d) = Some (Ok (), (w', d'))" "storage_inv n (sw_storage w', d')" "parts w' = parts v"
    "moved (2 * n + summary_bytes (is_Blocks (sw_indexSegment v))) (sw_storage w) (sw_storage w')"
proof (cases "offs = []")
  case True
  let ?k = "2 * n + summary_bytes (is_Blocks (sw_indexSegment v))"
  have "total n v (0 + 0) (bind_s (update_writer (\<lambda>w. w\<lparr>sw_summarySegment := NewSummarySegment 1\<rparr>)) (\<lambda>_.
      set_footer (\<lambda>ft. ft\<lparr>ft_SummaryHandler := zero_handler\<rparr>)))"
    by (intro total_bind total_update total_footer) simp
  then have "total n v ?k (bind_s (update_writer (\<lambda>w. w\<lparr>sw_summarySegment := NewSummarySegment 1\<rparr>)) (\<lambda>_.
      set_footer (\<lambda>ft. ft\<lparr>ft_SummaryHandler := zero_handler\<rparr>)))"
    by (rule total_mono) simp
  from totalD [OF this inv p] that True show thesis by (auto simp: write_summary_def)
next
  case False
  have ix: "is_Blocks (sw_indexSegment w) = is_Blocks (sw_indexSegment v)" using p by (simp add: parts_eq)
  have "length (is_Blocks (sw_indexSegment v)) \<le> length offs" using len by simp
  from BuildSummary_returns [OF this] obtain su where su: "BuildSummaryFromIndex offs (is_Blocks (sw_indexSegment v)) 1 = Some (Ok su)"
    "EstimatedSize su \<le> summary_bytes (is_Blocks (sw_indexSegment v))" by blast
  let ?data = "summary_body su @ put_u32 (crc32_ChecksumIEEE (summary_body su))"
  have "total n v (0 + (2 * n + length ?data)) (bind_s (lift_s (Ok su)) (\<lambda>summary.
        bind_s (update_writer (\<lambda>w. w\<lparr>sw_summarySegment := summary\<rparr>)) (\<lambda>_.
        bind_s (lift_s (Summary_Encode summary)) (\<lambda>data.
        bind_s (write_segment SegmentSummary data) (\<lambda>place.
        set_footer (\<lambda>ft. ft\<lparr>ft_SummaryHandler := handler_of place\<rparr>))))))"
    by (rule total_lift [OF refl], rule total_bind, rule total_update, simp, rule total_lift [OF Summary_Encode_eq],
        rule total_put, simp)
  then have "total n v (2 * n + summary_bytes (is_Blocks (sw_indexSegment v))) (bind_s (lift_s (Ok su)) (\<lambda>summary.
        bind_s (update_writer (\<lambda>w. w\<lparr>sw_summarySegment := summary\<rparr>)) (\<lambda>_.
        bind_s (lift_s (Summary_Encode summary)) (\<lambda>data.
        bind_s (write_segment SegmentSummary data) (\<lambda>place.
        set_footer (\<lambda>ft. ft\<lparr>ft_SummaryHandler := handler_of place\<rparr>))))))"
    using Summary_Encode_bytes(2) [of su] su(2) by (elim total_mono) linarith
  from totalD [OF this inv p] that False su(1) show thesis by (auto simp: write_summary_def ix)
qed

lemma total_tail:
  assumes "Merkle_Encode (sw_merkleTree v) = Ok data" "sw_metadataSegment v = Some m"
  shows "total n v (2 * n + length data) write_tree" "total n v (2 * n + length (Metadata_Encode m)) write_metadata"
    "total n v (2 * n + length (Adaptive_SaveDict (writer_dict v))) write_dictionary" "total n v (2 * n + FooterSize) Footer_WriteToStorage"
proof -
  have "total n v (2 * n + length data) (bind_s (lift_s (Ok data)) (\<lambda>data. bind_s (write_segment SegmentMerkleTree data) (\<lambda>place.
     set_footer (\<lambda>ft. ft\<lparr>ft_MerkleHandler := handler_of place\<rparr>))))"
    by (intro total_lift [OF refl] total_put) simp
  with assms(1) show "total n v (2 * n + length data) write_tree" by (simp add: total_def write_tree_def parts_eq)
  have "total n v (2 * n + length (Metadata_Encode m)) (bind_s (write_segment SegmentMetadata (Metadata_Encode m)) (\<lambda>place.
         set_footer (\<lambda>ft. ft\<lparr>ft_MetaDataHandler := handler_of place\<rparr>)))"
    by (rule total_put) simp
  with assms(2) show "total n v (2 * n + length (Metadata_Encode m)) write_metadata" by (simp add: total_def write_metadata_def parts_eq)
  have "total n v (2 * n + length (Adaptive_SaveDict (writer_dict v)))
     (bind_s (write_segment SegmentDictionary (Adaptive_SaveDict (writer_dict v))) (\<lambda>place.
     set_footer (\<lambda>ft. ft\<lparr>ft_DictionaryHandler := handler_of place\<rparr>)))"
    by (rule total_put) simp
  then show "total n v (2 * n + length (Adaptive_SaveDict (writer_dict v))) write_dictionary"
    by (simp add: total_def write_dictionary_def parts_eq)
  have "total n v (2 * n + FooterSize) (write_segment SegmentFooter (footer_body ft @ put_u32 (crc32_ChecksumIEEE (footer_body ft))))" for ft
    using total_write [of n SegmentFooter "footer_body ft @ put_u32 (crc32_ChecksumIEEE (footer_body ft))" v] by simp
  then have "total n v (2 * n + FooterSize + 0) (bind_s (lift_s (Footer_Encode ft)) (\<lambda>data. bind_s (write_segment SegmentFooter data) (\<lambda>_. ret_s ())))" for ft
    by (intro total_lift [OF Footer_Encode_eq] total_bind total_ret)
  then have "total n v (2 * n + FooterSize) (bind_s (lift_s (Footer_Encode ft)) (\<lambda>data. bind_s (write_segment SegmentFooter data) (\<lambda>_. ret_s ())))" for ft
    by (simp only: add_0_right)
  then show "total n v (2 * n + FooterSize) Footer_WriteToStorage" unfolding Footer_WriteToStorage_def by (intro total_state)
qed

lemma Finalize_returns:
  assumes inv: "writer_inv n ri (w, d) T xs" and cfg: "cf_BlockSize cfg = int n" "n < 2 ^ 19"
    and ne: "flushed T xs (sw_dataBlockBuilder w) \<noteq> []" and enc: "indices_encode cfg w"
  obtains w' d' u where "Finalize cfg (w, d) = Some (Ok (), (w', d'))" "w' = u\<lparr>sw_storage := CloseStorage (sw_storage u)\<rparr>"
    "storage_inv n (sw_storage u, d')" "moved (finish_bytes n (length (flushed T xs (sw_dataBlockBuilder w))) cfg w) (sw_storage w) (sw_storage u)"
proof -
  let ?T = "flushed T xs (sw_dataBlockBuilder w)"
  obtain v dv where v: "bind_s (flushDataBlock cfg) (\<lambda>_. bind_s (update_writer finish_index) (\<lambda>_. bind_s build_tree (\<lambda>_.
        update_writer (set_metadata cfg)))) (w, d) = (Ok (), (v, dv))"
    "storage_inv n (sw_storage v, dv)" "sw_indexSegment v = final_index cfg w" "sw_ttlIndexSegment v = sw_ttlIndexSegment w"
    "sw_rangeDelIndexSegment v = sw_rangeDelIndexSegment w"
    "\<exists>m. sw_metadataSegment v = Some m \<and> length (Metadata_Encode m) \<le> 200 + length (key_bytes (sw_minKey w)) + length (key_bytes (sw_maxKey w))"
    "\<exists>data. Merkle_Encode (sw_merkleTree v) = Ok data \<and> length data = 44 + 32 * length ?T"
    "moved (3 * n) (sw_storage w) (sw_storage v)" "sw_filterSegment v = sw_filterSegment w" "writer_dict v = writer_dict w"
    by (rule data_finished_returns [OF inv cfg(1) ne])
  obtain tree where tree: "Merkle_Encode (sw_merkleTree v) = Ok tree" "length tree = 44 + 32 * length ?T" using v(7) by blast
  obtain m where m: "sw_metadataSegment v = Some m"
    "length (Metadata_Encode m) \<le> 200 + length (key_bytes (sw_minKey w)) + length (key_bytes (sw_maxKey w))" using v(6) by blast
  note tail = total_tail [OF tree(1) m(1), of n]
  let ?ix = "is_Blocks (sw_indexSegment v)"
  have e: "encodable (\<lambda>b. EncodeIndexBlock b (of_int (cf_BlockSize cfg))) ?ix"
    "encodable (\<lambda>b. TTLIndexBlock_Encode b (of_int (cf_BlockSize cfg))) (ts_Blocks (sw_ttlIndexSegment v))"
    "encodable (\<lambda>b. RangeDelIndexBlock_Encode b (of_int (cf_BlockSize cfg))) (rs_Blocks (sw_rangeDelIndexSegment v))"
    using enc v(3-5) by (simp_all add: indices_encode_def Let_def)
  define kf where "kf = (case sw_filterSegment w of None \<Rightarrow> 0 | Some f \<Rightarrow> 2 * n + length (FilterSegment_Encode f))"
  have flt: "total n v kf write_filter" unfolding kf_def v(9) [symmetric] by (rule total_filter)
  obtain v1 d1 where 1: "write_filter (v, dv) = (Ok (), (v1, d1))" "storage_inv n (sw_storage v1, d1)" "parts v1 = parts v"
    "moved kf (sw_storage v) (sw_storage v1)"
    by (rule totalD [OF flt v(2) refl]) (metis old.unit.exhaust)
  obtain offs v2 d2 where 2: "write_index cfg (v1, d1) = (Ok offs, (v2, d2))" "storage_inv n (sw_storage v2, d2)" "parts v2 = parts v"
    "moved (3 * n * length ?ix) (sw_storage v1) (sw_storage v2)"
    by (rule totalD [OF total_index(1) [OF cfg e(1)] 1(2,3)])
  have "length (is_Blocks (sw_indexSegment v1)) = length offs"
    using 2(1) by (auto simp: write_index_def bind_s_eq_Inr dest: write_blocks_length)
  then have len: "length ?ix = length offs" using 1(3) by (simp add: parts_eq)
  obtain v3 d3 where 3: "write_summary offs (v2, d2) = Some (Ok (), (v3, d3))" "storage_inv n (sw_storage v3, d3)" "parts v3 = parts v"
    "moved (2 * n + summary_bytes ?ix) (sw_storage v2) (sw_storage v3)"
    by (rule summary_returns [OF 2(2,3) len])
  let ?t1 = "3 * n * length (ts_Blocks (sw_ttlIndexSegment v))" and ?t2 = "3 * n * length (rs_Blocks (sw_rangeDelIndexSegment v))"
  let ?k = "(?t1 + ?t2) + (((2 * n + length tree) + ((2 * n + length (Metadata_Encode m)) + (2 * n + length (Adaptive_SaveDict (writer_dict v))))) +
    (2 * n + FooterSize))"
  have "total n v ?k (bind_s (bind_s (write_ttl cfg) (\<lambda>_. write_rangedel cfg)) (\<lambda>_.
    bind_s (bind_s write_tree (\<lambda>_. bind_s write_metadata (\<lambda>_. write_dictionary))) (\<lambda>_. Footer_WriteToStorage)))"
    by (intro total_bind total_index(2) [OF cfg e(2)] total_index(3) [OF cfg e(3)] tail)
  from totalD [OF this 3(2,3)] obtain u d' where
    4: "bind_s (bind_s (write_ttl cfg) (\<lambda>_. write_rangedel cfg)) (\<lambda>_.
    bind_s (bind_s write_tree (\<lambda>_. bind_s write_metadata (\<lambda>_. write_dictionary))) (\<lambda>_. Footer_WriteToStorage)) (v3, d3) =
      (Ok (), (u, d'))" "storage_inv n (sw_storage u, d')" "moved ?k (sw_storage v3) (sw_storage u)" by (metis old.unit.exhaust)
  define w' where "w' = u\<lparr>sw_storage := CloseStorage (sw_storage u)\<rparr>"
  have "Writer_Close (u, d') = (Ok (), (w', d'))" by (simp add: Writer_Close_def update_writer_def w'_def)
  then have "finish_table cfg (v3, d3) = (Ok (), (w', d'))"
    using 4(1) unfolding finish_table_eq by (force simp: bind_s_eq_Inr)
  moreover have "finish_data cfg (w, d) = (Ok offs, (v2, d2))"
    unfolding finish_data_eq bind_s_def v(1) [unfolded bind_s_def] prod.case sum.case 1(1) 2(1) by simp
  ultimately have run: "Finalize cfg (w, d) = Some (Ok (), (w', d'))" by (simp add: Finalize_def 3(1))
  note all = moved_trans [OF moved_trans [OF moved_trans [OF moved_trans [OF v(8) 1(4)] 2(4)] 3(4)] 4(3)]
  have "3 * n + kf + 3 * n * length ?ix + (2 * n + summary_bytes ?ix) + ?k \<le> finish_bytes n (length ?T) cfg w"
    using m(2) by (simp add: finish_bytes_def Let_def kf_def tree(2) v(3-5,10))
  with all have "moved (finish_bytes n (length ?T) cfg w) (sw_storage w) (sw_storage u)"
    unfolding moved_def by (meson add_le_cancel_left le_trans)
  with run 4(2) show thesis by (intro that [of w' d' u]) (simp_all add: w'_def)
qed

section \<open>A table, from its first record to the scan of its file\<close>

definition settings_ok :: "TableSettings \<Rightarrow> BlockManager \<Rightarrow> path \<Rightarrow> disk \<Rightarrow> bool" where
  "settings_ok cfg bm p d \<longleftrightarrow> cf_BlockSize cfg = int (bm_blockSize bm) \<and> 0 < bm_blockSize bm \<and> bm_blockSize bm < 2 ^ 19 \<and>
     coherent bm d \<and> foreign_files bm p \<and> 0 < cf_RestartInterval cfg \<and> cf_RestartInterval cfg < 2 ^ 31 \<and> cf_Format cfg \<le> 1 \<and>
     (cf_Format cfg = FormatSingleFile \<longrightarrow> d (p @ ''.data'') = None)"

lemma written_table:
  assumes new: "NewSSTableWriter cfg filter_for p bm expected layer d = Ok (w0, d0)" and set: "settings_ok cfg bm p d"
    and flt: "\<forall>k fp f. filter_for k fp = Ok f \<longrightarrow> filter_ok f"
    and recs: "list_all (record_ok (bm_blockSize bm)) recs" "length recs < 2 ^ 48"
  obtains w d1 T xs where "write_records cfg recs (w0, d0) = Some (Ok (), (w, d1))"
    "writer_inv (bm_blockSize bm) (cf_RestartInterval cfg) (w, d1) T xs" "stored_as recs (items_of T xs)" "fresh_footer (sw_footer w)"
    "files_at (cf_Format cfg) p (sw_storage w)" "footer_first (sw_storage w)"
    "cf_Format cfg = FormatSingleFile \<longrightarrow> d1 (p @ ''.data'') = None" "\<forall>r \<in> set recs. knows (sw_filterSegment w) (dr_Key r)"
proof -
  have c: "cf_BlockSize cfg = int (bm_blockSize bm)" "0 < bm_blockSize bm" "bm_blockSize bm < 2 ^ 19" "coherent bm d" "foreign_files bm p"
    "0 < cf_RestartInterval cfg" "cf_RestartInterval cfg < 2 ^ 31" using set by (simp_all add: settings_ok_def)
  note w0 = NewSSTableWriter_written [OF new c(2-7) flt]
  have "stored_as [] (items_of [] [])" by (simp add: stored_Nil)
  from write_records_written [OF c(1) w0(1) recs(1) this] recs(2) w0(5) obtain w d1 T xs where
    w: "write_records cfg recs (w0, d0) = Some (Ok (), (w, d1))" "writer_inv (bm_blockSize bm) (cf_RestartInterval cfg) (w, d1) T xs"
      "stored_as recs (items_of T xs)" "data_step (w0, d0) (w, d1)" "\<forall>r \<in> set recs. knows (sw_filterSegment w) (dr_Key r)" by auto
  have sf: "same_files (w0, d0) (w, d1)" and ft: "sw_footer w = sw_footer w0" using w(4) by (simp_all add: data_step_def)
  have "d1 (p @ ''.data'') = None" if "cf_Format cfg = FormatSingleFile"
  proof -
    have "d0 (p @ ''.data'') = None" using set that w0(6) [of "p @ ''.data''"] by (simp add: settings_ok_def)
    moreover have "segment_path x (sw_storage w0) = p" for x using w0(3) that by (simp add: files_at_def table_path_def)
    ultimately show ?thesis using sf by (simp add: same_files_def)
  qed
  then show thesis using w(1-3,5) w0(2) ft files_at_same [OF _ sf] w0(3,4) by (intro that [of w d1 T xs]) simp_all
qed

lemma known_admitted:
  assumes "knows flt k" "pred_option filter_ok flt" "sr_filterSegment r = flt"
  shows "might_contain k r = Ok True"
  using assms by (cases flt) (auto simp: might_contain_def knows_def filter_ok_def MightContain_eq)

text \<open>
  What a reader finds in the file of a table: with any identifier and layer it opens, its raw iterator walks the records in
  their order, its filter admits their keys, and the table validates if the cache is right for the disk.
\<close>

definition gives_back :: "(BlockKey, bytes) lru \<Rightarrow> byte \<Rightarrow> path \<Rightarrow> nat \<Rightarrow> disk \<Rightarrow> DataRecord list \<Rightarrow> bool" where
  "gives_back cache format p n d recs \<longleftrightarrow> (\<forall>i layer. \<exists>r it.
     NewSSTableReader cache i p format layer d = Ok r \<and>
     NewSSTableIteratorRaw d r = Some (Ok it) \<and> collect (table_methods d) it = Some (map full recs) \<and>
     list_all (\<lambda>x. might_contain (dr_Key x) r = Ok True) recs \<and>
     (coherent \<lparr>bm_blockSize = n, bm_cache = cache\<rparr> d \<longrightarrow> (\<exists>res. fst (Table_Validate d r) = Ok res \<and> vr_Valid res)))"

lemma finished_gives_back:
  assumes inv: "writer_inv n ri (w, d) T xs" and st: "stored_as recs (items_of T xs)" "recs \<noteq> []"
    and cfg: "cf_BlockSize cfg = int n" "n < 2 ^ 19" "cf_RestartInterval cfg = ri" "cf_Format cfg \<le> 1"
    and ft: "fresh_footer (sw_footer w)" and at: "files_at (cf_Format cfg) p (sw_storage w)" "footer_first (sw_storage w)"
    and run: "Finalize cfg (w, d) = Some (Ok (), (w', d'))" and alone: "cf_Format cfg = FormatSingleFile \<longrightarrow> d (p @ ''.data'') = None"
    and small: "small_files d' (cf_Format cfg) p" "dictionary_small w"
    and known: "\<forall>r \<in> set recs. knows (sw_filterSegment w) (dr_Key r)"
  shows "gives_back cache (cf_Format cfg) p n d' recs"
  unfolding gives_back_def
proof (intro allI)
  fix i layer
  obtain T' u m r where t: "table_file n d' (cf_Format cfg) p T' (sw_footer u) u" "finished n cfg T' w u" "T' \<noteq> []" "length T' < 2 ^ 32"
    "NewSSTableReader cache i p (cf_Format cfg) layer d' = Ok r" "reader_of n (cf_Format cfg) p (sw_footer u) m u r"
    "source_over d' T' (newSSTableBlockSource r)" "stored_as recs (concat (map snd T'))" "bm_cache (sr_blockManager r) = cache"
    by (rule finished_table [OF inv st cfg ft at run alone small])
  obtain it where it: "NewSSTableIteratorRaw d' r = Some (Ok it)" "collect (table_methods d') it = Some (map full recs)"
    by (rule table_walk [OF t(7,8)])
  have "sr_filterSegment r = sw_filterSegment w" using t(2,6) by (simp add: finished_def reader_of_def)
  moreover have "pred_option filter_ok (sw_filterSegment w)" and n: "0 < n"
    using inv storage_positive by (auto simp: writer_inv_def)
  ultimately have "list_all (\<lambda>x. might_contain (dr_Key x) r = Ok True) recs"
    using known by (auto simp: list_all_iff intro: known_admitted)
  moreover have "sr_blockManager r = \<lparr>bm_blockSize = n, bm_cache = cache\<rparr>" using t(6,9) by (simp add: reader_of_def)
  then have "\<exists>res. fst (Table_Validate d' r) = Ok res \<and> vr_Valid res" if "coherent \<lparr>bm_blockSize = n, bm_cache = cache\<rparr> d'"
    using finished_validates [OF t(1,2,6,3,4) small(1) _ n] that by simp
  ultimately show "\<exists>r it. NewSSTableReader cache i p (cf_Format cfg) layer d' = Ok r \<and>
     NewSSTableIteratorRaw d' r = Some (Ok it) \<and> collect (table_methods d') it = Some (map full recs) \<and>
     list_all (\<lambda>x. might_contain (dr_Key x) r = Ok True) recs \<and>
     (coherent \<lparr>bm_blockSize = n, bm_cache = cache\<rparr> d' \<longrightarrow> (\<exists>res. fst (Table_Validate d' r) = Ok res \<and> vr_Valid res))"
    using t(5) it by blast
qed

text \<open>C19: A table survives the disk. Records that fit are all written without an error; if the blocks of the indices can be encoded,
  \<^verbatim>\<open>Finalize\<close> returns; and if the dictionary has at most 256 values and the files are smaller than 4 GiB, the table that is
  opened from them gives back the records in order, values in chunks put together again, with a filter that admits their keys and
  a Merkle tree that validates the blocks.\<close>

theorem table_write_read:
  assumes "NewSSTableWriter cfg filter_for p bm expected layer d = Ok (w0, d0)" "settings_ok cfg bm p d"
    and "\<forall>k fp f. filter_for k fp = Ok f \<longrightarrow> filter_ok f"
    and "recs \<noteq> []" "list_all (record_ok (bm_blockSize bm)) recs" "length recs < 2 ^ 48"
  shows "\<exists>w d1. write_records cfg recs (w0, d0) = Some (Ok (), (w, d1)) \<and> (indices_encode cfg w \<longrightarrow>
    (\<exists>w' d2. Finalize cfg (w, d1) = Some (Ok (), (w', d2)) \<and> (dictionary_small w \<and> small_files d2 (cf_Format cfg) p \<longrightarrow>
      gives_back cache (cf_Format cfg) p (bm_blockSize bm) d2 recs)))"
proof -
  let ?n = "bm_blockSize bm" and ?ri = "cf_RestartInterval cfg"
  have c: "cf_BlockSize cfg = int ?n" "?n < 2 ^ 19" "cf_Format cfg \<le> 1" using assms(2) by (simp_all add: settings_ok_def)
  obtain w d1 T xs where w: "write_records cfg recs (w0, d0) = Some (Ok (), (w, d1))" "writer_inv ?n ?ri (w, d1) T xs"
    "stored_as recs (items_of T xs)" "fresh_footer (sw_footer w)" "files_at (cf_Format cfg) p (sw_storage w)"
    "footer_first (sw_storage w)" "cf_Format cfg = FormatSingleFile \<longrightarrow> d1 (p @ ''.data'') = None"
    "\<forall>r \<in> set recs. knows (sw_filterSegment w) (dr_Key r)"
    by (rule written_table [OF assms(1,2,3,5,6)])
  have ne: "flushed T xs (sw_dataBlockBuilder w) \<noteq> []"
    using stored_nonempty [OF w(3) assms(4)] by (auto simp: flushed_def)
  show ?thesis
  proof (rule exI [of _ w], rule exI [of _ d1], rule conjI, rule w(1), rule impI)
    assume "indices_encode cfg w"
    from Finalize_returns [OF w(2) c(1,2) ne this] obtain w' d2 where run: "Finalize cfg (w, d1) = Some (Ok (), (w', d2))" by blast
    have "gives_back cache (cf_Format cfg) p ?n d2 recs" if "dictionary_small w \<and> small_files d2 (cf_Format cfg) p"
      using finished_gives_back [OF w(2,3) assms(4) c(1,2) refl c(3) w(4-6) run w(7) _ _ w(8)] that by blast
    with run show "\<exists>w' d2. Finalize cfg (w, d1) = Some (Ok (), (w', d2)) \<and> (dictionary_small w \<and> small_files d2 (cf_Format cfg) p \<longrightarrow>
      gives_back cache (cf_Format cfg) p ?n d2 recs)" by blast
  qed
qed

text \<open>A table of one record, in one file.\<close>

definition example_settings :: TableSettings where
  "example_settings = \<lparr>cf_Format = FormatSingleFile, cf_BlockSize = 128, cf_RestartInterval = 2, cf_Compression = 0, cf_FalsePositiveRate = 0\<rparr>"

definition example_filter :: BloomFilter where
  "example_filter = \<lparr>bf_n = 1, bf_p = 0, bf_m = 8, bf_k = 1, bf_bits = [0], bf_hashFunctions = [\<lparr>hs_Seed = [1]\<rparr>]\<rparr>"

definition example_record :: DataRecord where
  "example_record = \<lparr>dr_SeqId = 7, dr_OpType = OpTypePut, dr_ExpiresAt = 0, dr_Key = [1], dr_Value = [9], dr_ChunkType = 0\<rparr>"

definition example_block :: DataBlockBuilder where
  "example_block = \<lparr>bb_encoder = DeltaBytes (NewDeltaEncoderBytes 2), bb_valueEncoder = NewAdaptiveDictEncoderFrequency 2 5, bb_data = [],
     bb_restartInterval = 2, bb_blockSize = 128, bb_recordCount = 0, bb_firstKey = None, bb_lastKey = [], bb_isEncodedBits = NewBitSet 0\<rparr>"

lemma example_filter_ok: "filter_ok example_filter"
  by (simp add: filter_ok_def example_filter_def bloom_wf_def bloom_storable_def slice_ok_def max_alloc_def Bloom_ToBytes_def WriteSlice_def
      bloomFilterMagic_def)

lemma example_added: "\<exists>b. Builder_AddRecord example_record example_block = Ok (True, b) \<and> bb_firstKey b = Some [1] \<and> bb_recordCount b = 1 \<and>
    a_keys (bb_valueEncoder b) = []"
proof -
  have "case Builder_AddRecord example_record example_block of
      Inr (True, b) \<Rightarrow> bb_firstKey b = Some [1] \<and> bb_recordCount b = 1 \<and> a_keys (bb_valueEncoder b) = [] | _ \<Rightarrow> False" by code_simp
  then show ?thesis by (simp split: sum.splits prod.splits bool.splits)
qed

text \<open>The writer before and after the record.\<close>

lemma example_writer:
  obtains w0 d0 where "NewSSTableWriter example_settings (\<lambda>_ _. Ok example_filter) ''t'' (NewBlockManager 128 2) 1 0 Map.empty = Ok (w0, d0)"
    "sw_dataBlockBuilder w0 = example_block" "sw_filterSegment w0 = Some example_filter" "sw_currentIndexBlock w0 = NewIndexBlock"
    "is_Blocks (sw_indexSegment w0) = []" "ts_Blocks (sw_ttlIndexSegment w0) = []" "rs_Blocks (sw_rangeDelIndexSegment w0) = []"
    "sw_firstRecord w0" "sw_currentBlockIndex w0 = 0"
    "sw_storage w0 = SingleStorage \<lparr>sf_file = ''t'', sf_offset = 0, sf_BlockManager = Some (NewBlockManager 128 2), sf_closed = False\<rparr>"
proof -
  have b: "NewDataBlockBuilder PrefixCompression 2 128 ve = Ok (example_block\<lparr>bb_valueEncoder := ve\<rparr>)" for ve
    by (simp add: NewDataBlockBuilder_def max_alloc_def example_block_def)
  show thesis
    by (rule that) (simp_all add: NewSSTableWriter_def CreateStorage_def NewSingleFileStorage_def example_settings_def Let_def
        NewBlockManager_def b, simp_all add: example_block_def NewIndexSegment_def NewTTLIndexSegment_def NewRangeDelIndexSegment_def)
qed

lemma example_written:
  obtains w0 d0 w where "NewSSTableWriter example_settings (\<lambda>_ _. Ok example_filter) ''t'' (NewBlockManager 128 2) 1 0 Map.empty = Ok (w0, d0)"
    "write_records example_settings [example_record] (w0, d0) = Some (Ok (), (w, d0))"
    "sw_storage w = SingleStorage \<lparr>sf_file = ''t'', sf_offset = 0, sf_BlockManager = Some (NewBlockManager 128 2), sf_closed = False\<rparr>"
    "\<exists>k. is_Blocks (final_index example_settings w) = [\<lparr>blk_Entries = [\<lparr>ie_Key = [1], ie_BlockIndex = 0\<rparr>], blk_RealSize = k\<rparr>]"
    "ts_Blocks (sw_ttlIndexSegment w) = []" "rs_Blocks (sw_rangeDelIndexSegment w) = []" "a_keys (writer_dict w) = []"
    "sw_minKey w = Some [1]" "sw_maxKey w = Some [1]" "\<exists>f. sw_filterSegment w = Some f \<and> length (FilterSegment_Encode f) < 1000"
proof -
  obtain w0 d0 where w0: "NewSSTableWriter example_settings (\<lambda>_ _. Ok example_filter) ''t'' (NewBlockManager 128 2) 1 0 Map.empty = Ok (w0, d0)"
    "sw_dataBlockBuilder w0 = example_block" "sw_filterSegment w0 = Some example_filter" "sw_currentIndexBlock w0 = NewIndexBlock"
    "is_Blocks (sw_indexSegment w0) = []" "ts_Blocks (sw_ttlIndexSegment w0) = []" "rs_Blocks (sw_rangeDelIndexSegment w0) = []"
    "sw_firstRecord w0" "sw_currentBlockIndex w0 = 0"
    "sw_storage w0 = SingleStorage \<lparr>sf_file = ''t'', sf_offset = 0, sf_BlockManager = Some (NewBlockManager 128 2), sf_closed = False\<rparr>"
    by (rule example_writer)
  obtain b where b: "Builder_AddRecord example_record example_block = Ok (True, b)" "bb_firstKey b = Some [1]" "bb_recordCount b = 1"
    "a_keys (bb_valueEncoder b) = []" using example_added by blast
  define f where "f = example_filter\<lparr>bf_bits := foldl setBit (bf_bits example_filter) (positions example_filter [1])\<rparr>"
  have "bloom_wf example_filter" using example_filter_ok by (simp add: filter_ok_def)
  then have f: "Bloom_Add example_filter [1] = Ok f" by (simp add: Bloom_Add_eq f_def)
  define w1 where "w1 = note_key_length example_record (note_range example_record (w0\<lparr>sw_recordCount := sw_recordCount w0 + 1\<rparr>))"
  have w1: "sw_dataBlockBuilder w1 = example_block" "sw_filterSegment w1 = Some example_filter" "sw_currentIndexBlock w1 = NewIndexBlock"
    "is_Blocks (sw_indexSegment w1) = []" "ts_Blocks (sw_ttlIndexSegment w1) = []" "rs_Blocks (sw_rangeDelIndexSegment w1) = []"
    "sw_minKey w1 = Some [1]" "sw_maxKey w1 = Some [1]" "sw_currentBlockIndex w1 = 0" "sw_storage w1 = sw_storage w0"
    using w0(2-9) by (simp_all add: w1_def note_key_length_def note_range_def Let_def copied_key_def example_record_def)
  define w where "w = w1\<lparr>sw_filterSegment := Some f, sw_dataBlockBuilder := b\<rparr>"
  have "add_to_filter example_record (w1, d0) = (Ok (), (w1\<lparr>sw_filterSegment := Some f\<rparr>, d0))"
    using f w1(2) by (simp add: add_to_filter_def example_record_def)
  moreover have "add_to_ttl example_settings example_record v = v" for v by (simp add: add_to_ttl_def example_record_def)
  ultimately have "note_record example_settings example_record (w0, d0) = (Ok (), (w1\<lparr>sw_filterSegment := Some f\<rparr>, d0))"
    by (simp add: note_record_def update_writer_def bind_s_def w1_def [symmetric])
  moreover have "add_to_block example_settings example_record (w1\<lparr>sw_filterSegment := Some f\<rparr>, d0) = (Ok True, (w, d0))"
    using b(1) w1(1) by (simp add: add_to_block_def with_builder_def bind_s_def w_def)
  ultimately have "write_records example_settings [example_record] (w0, d0) = Some (Ok (), (w, d0))"
    by (simp add: Writer_AddRecord_def bind_s_def)
  moreover have "\<exists>k. is_Blocks (final_index example_settings w) = [\<lparr>blk_Entries = [\<lparr>ie_Key = [1], ie_BlockIndex = 0\<rparr>], blk_RealSize = k\<rparr>]"
    using b(2,3) w1 by (simp add: final_index_def w_def note_block_def Let_def IndexBlock_AddFromDataBlock_def IndexBlock_AddEntry_def
        add_entry_def NewIndexBlock_def new_block_def finish_index_def IndexSegment_AddBlock_def)
  moreover have "length (FilterSegment_Encode f) < 1000"
    by (simp add: FilterSegment_Encode_def Let_def Bloom_ToBytes_def f_def example_filter_def WriteSlice_def bloomFilterMagic_def)
  ultimately show thesis using w0(1,10) w1 b(4) by (intro that [of w0 d0 w]) (simp_all add: w_def)
qed

lemma single_small:
  assumes "storage_inv n (st, d)" "single_file st" "segment_path SegmentData st = p" "storage_end SegmentData st < 2 ^ 32"
  shows "small_files d FormatSingleFile p"
  using assms by (cases st) (auto simp: small_files_def table_path_def single_inv_def)

lemma example_index: "\<exists>data. EncodeIndexBlock \<lparr>blk_Entries = [\<lparr>ie_Key = [1], ie_BlockIndex = 0\<rparr>], blk_RealSize = k\<rparr> 128 = Ok data"
  unfolding EncodeIndexBlock_def
  by (rule exI, rule ie.encode_block_layout) (simp_all add: max_alloc_def ie_wire_def put_uvarint.simps)

theorem table_write_read_witness:
  "\<exists>w0 d0 w d1 w' d2. NewSSTableWriter example_settings (\<lambda>_ _. Ok example_filter) ''t'' (NewBlockManager 128 2) 1 0 Map.empty = Ok (w0, d0) \<and>
     write_records example_settings [example_record] (w0, d0) = Some (Ok (), (w, d1)) \<and>
     Finalize example_settings (w, d1) = Some (Ok (), (w', d2)) \<and>
     gives_back (NewLRU 2) FormatSingleFile ''t'' 128 d2 [example_record]"
proof -
  let ?bm = "NewBlockManager 128 2" and ?fl = "\<lambda>_ _. Ok example_filter"
  obtain w0 d0 w where ex: "NewSSTableWriter example_settings ?fl ''t'' ?bm 1 0 Map.empty = Ok (w0, d0)"
    "write_records example_settings [example_record] (w0, d0) = Some (Ok (), (w, d0))"
    "sw_storage w = SingleStorage \<lparr>sf_file = ''t'', sf_offset = 0, sf_BlockManager = Some ?bm, sf_closed = False\<rparr>"
    "\<exists>k. is_Blocks (final_index example_settings w) = [\<lparr>blk_Entries = [\<lparr>ie_Key = [1], ie_BlockIndex = 0\<rparr>], blk_RealSize = k\<rparr>]"
    "ts_Blocks (sw_ttlIndexSegment w) = []" "rs_Blocks (sw_rangeDelIndexSegment w) = []" "a_keys (writer_dict w) = []"
    "sw_minKey w = Some [1]" "sw_maxKey w = Some [1]" "\<exists>f. sw_filterSegment w = Some f \<and> length (FilterSegment_Encode f) < 1000"
    by (rule example_written)
  have "coherent ?bm Map.empty" "foreign_files ?bm ''t''"
    by (simp_all add: coherent_def foreign_files_def uncached_def NewBlockManager_def NewLRU_def lru_abs_def lru_inv_def)
  then have set: "settings_ok example_settings ?bm ''t'' Map.empty" by (simp add: settings_ok_def example_settings_def NewBlockManager_def)
  have flt: "\<forall>k fp f. ?fl k fp = Ok f \<longrightarrow> filter_ok f" using example_filter_ok by simp
  have n: "bm_blockSize ?bm = 128" by (simp add: NewBlockManager_def)
  have recs: "[example_record] \<noteq> []" "list_all (record_ok (bm_blockSize ?bm)) [example_record]" "length [example_record] < 2 ^ 48"
    by (simp_all add: record_ok_def example_record_def slice_ok_def max_alloc_def n)
  have enc: "indices_encode example_settings w"
    using ex(4-6) example_index by (auto simp: indices_encode_def encodable_def Let_def example_settings_def)
  have dict: "dictionary_small w" using ex(7) by (simp add: dictionary_small_def)
  obtain v e T xs where wr: "write_records example_settings [example_record] (w0, d0) = Some (Ok (), (v, e))"
    "writer_inv (bm_blockSize ?bm) (cf_RestartInterval example_settings) (v, e) T xs" "stored_as [example_record] (items_of T xs)"
    by (rule written_table [OF ex(1) set flt recs(2,3)])
  have inv: "writer_inv 128 2 (w, d0) T xs" using wr(1,2) ex(2) n by (simp add: example_settings_def)
  have cfg: "cf_BlockSize example_settings = int 128" "(128::nat) < 2 ^ 19" by (simp_all add: example_settings_def)
  have T: "T = []" using inv ex(3) by (simp add: writer_inv_def)
  have ne: "flushed T xs (sw_dataBlockBuilder w) \<noteq> []" using stored_nonempty [OF wr(3) recs(1)] by (auto simp: flushed_def)
  obtain w' d2 u where fin: "Finalize example_settings (w, d0) = Some (Ok (), (w', d2))" "w' = u\<lparr>sw_storage := CloseStorage (sw_storage u)\<rparr>"
    "storage_inv 128 (sw_storage u, d2)"
    "moved (finish_bytes 128 (length (flushed T xs (sw_dataBlockBuilder w))) example_settings w) (sw_storage w) (sw_storage u)"
    by (rule Finalize_returns [OF inv cfg ne enc])
  have "finish_bytes 128 (length (flushed T xs (sw_dataBlockBuilder w))) example_settings w < 2 ^ 32"
    using ex(4-10) T by (auto simp: finish_bytes_def Let_def summary_bytes_def key_sizes_def key_bytes_def flushed_def
        Adaptive_SaveDict_def save_dict_concat)
  then have "small_files d2 FormatSingleFile ''t''"
    using fin(4) ex(3) by (intro single_small [OF fin(3)]) (auto simp: moved_def dest: spec [of _ SegmentData])
  with table_write_read [OF ex(1) set flt recs, of "NewLRU 2"] ex(1,2) enc dict fin(1) n show ?thesis
    by (auto simp: example_settings_def [THEN arg_cong [of _ _ cf_Format]])
qed

end
