(* ===== verification/Spec2Isabelle.thy ===== *)
theory Spec2Isabelle
  imports Wal_Recovery Adaptive_Encoder Token_Bucket Footer Summary Metadata Merge_Operator Paged_Scan Block_Iterator Table_Finalized
begin

text \<open>
  Verification library of a log-structured key-value engine written in Go. All file names below are
  relative to \<^verbatim>\<open>src/internal\<close>.

  \<^bold>\<open>The program.\<close> A write is appended to the write-ahead log (\<^verbatim>\<open>wal\<close>) and inserted into the active
  memtable (\<^verbatim>\<open>memtable\<close>, over the stores of \<^verbatim>\<open>structures\<close>). A full memtable becomes immutable and is
  flushed to an SSTable (\<^verbatim>\<open>sstable\<close>): data blocks, an index, a sampled summary of the index, Bloom
  filter, range-tombstone and TTL indices, metadata and a footer, with keys compressed by the encoders
  (\<^verbatim>\<open>encoders\<close>) and blocks read through a block manager (\<^verbatim>\<open>block\<close>) with an LRU cache (\<^verbatim>\<open>cache\<close>). After
  the flush the log is truncated; after a crash it is replayed. Reads and scans merge iterators over
  memtables and tables (\<^verbatim>\<open>iterator\<close>, \<^verbatim>\<open>structures\<close>) and hide what tombstones delete. Probabilistic types
  (\<^verbatim>\<open>probabilistics\<close>) are updated through merge operands (\<^verbatim>\<open>merge\<close>), and a token bucket
  (\<^verbatim>\<open>token_bucket\<close>) limits the rate of requests.

  \<^bold>\<open>Theories and the code they model.\<close>
  \<^item> \<^verbatim>\<open>Prelude\<close>, \<^verbatim>\<open>Go_Binary\<close>: results (\<^verbatim>\<open>Inl (Error _)\<close> for a returned error, \<^verbatim>\<open>Inl (Panic _)\<close> for a
    run-time panic, \<^verbatim>\<open>Ok\<close> otherwise), slices, \<^verbatim>\<open>bytes.Compare\<close>, searches, fixed-width and variable-length
    integers and CRC-32 of the standard library, with their round trips and error-detection lemmas.
  \<^item> \<^verbatim>\<open>Wal_Record\<close>, \<^verbatim>\<open>Wal_Segment\<close>, \<^verbatim>\<open>Wal_Manifest\<close>, \<^verbatim>\<open>Wal\<close>, \<^verbatim>\<open>Wal_Recovery\<close> (\<^verbatim>\<open>wal/\<close>): the record
    format, blocks and segments with fragmentation, the manifest, appending with rotation, batches,
    recovery and truncation. The invariant \<^verbatim>\<open>wal_inv\<close> relates the state to the list of fragments on disk.
  \<^item> \<^verbatim>\<open>Lru_Cache\<close>, \<^verbatim>\<open>Block_Manager\<close> (\<^verbatim>\<open>cache/lru.go\<close>, \<^verbatim>\<open>block/\<close>): refinement of the cache to an association
    list in recency order, and of the cached block store to the bare disk.
  \<^item> \<^verbatim>\<open>Entries\<close>, \<^verbatim>\<open>Fragmenter\<close>, \<^verbatim>\<open>Index_Blocks\<close>, \<^verbatim>\<open>Summary\<close>, \<^verbatim>\<open>Metadata\<close>, \<^verbatim>\<open>Footer\<close>, \<^verbatim>\<open>Bit_Set\<close>
    (\<^verbatim>\<open>shared/\<close>, \<^verbatim>\<open>utils/\<close>, \<^verbatim>\<open>sstable/\<close>): codecs and lookups of the parts of an SSTable.
  \<^item> \<^verbatim>\<open>Delta_Encoder\<close>, \<^verbatim>\<open>Dict_Encoder\<close>, \<^verbatim>\<open>Adaptive_Encoder\<close> (\<^verbatim>\<open>encoders/\<close>): key compression.
  \<^item> \<^verbatim>\<open>Hashing\<close>, \<^verbatim>\<open>Bloom_Filter\<close>, \<^verbatim>\<open>Count_Min_Sketch\<close>, \<^verbatim>\<open>Hyperloglog\<close>, \<^verbatim>\<open>Merge_Operator\<close>
    (\<^verbatim>\<open>probabilistics/\<close>, \<^verbatim>\<open>merge/\<close>): the sketches, their storage and their merge operands.
  \<^item> \<^verbatim>\<open>Token_Bucket\<close> (\<^verbatim>\<open>token_bucket/\<close>): the limiter and its storage.
  \<^item> \<^verbatim>\<open>Iterators\<close>, \<^verbatim>\<open>Avl_Tree\<close>, \<^verbatim>\<open>Hack_Map\<close>, \<^verbatim>\<open>Winner_Tree\<close> (\<^verbatim>\<open>iterator/iterator.go\<close>, \<^verbatim>\<open>structures/\<close>): the
    iterator interface as a record of methods, the two ordered stores with their iterators, and the
    tournament tree that merges iterators.
  \<^item> \<^verbatim>\<open>Memtable_Iterator\<close>, \<^verbatim>\<open>Memtable\<close> (\<^verbatim>\<open>memtable/\<close>): the filtering iterator and the memtable over either
    store.
  \<^item> \<^verbatim>\<open>Merge_Structure\<close>, \<^verbatim>\<open>Min_Heap\<close>, \<^verbatim>\<open>Merged_Iterator\<close> (\<^verbatim>\<open>structures/min_heap.go\<close>,
    \<^verbatim>\<open>structures/merge_structure.go\<close>, \<^verbatim>\<open>memtable/memtable_iterator.go\<close>): the interface of merge structures, the heap,
    and the iterators over several memtables.
  \<^item> \<^verbatim>\<open>Memtable_Manager\<close> (\<^verbatim>\<open>memtable/manager.go\<close>): the active and the rotated memtables, the channel to the flush
    worker, the condition variable and the worker, as a step relation whose steps are what one goroutine does while it
    holds the mutex. A goroutine that waits for room sleeps until a signal wakes it; \<^verbatim>\<open>accounted\<close> says where every write
    is, and \<^verbatim>\<open>no_lost_wakeup\<close> that whoever sleeps will be woken.
  \<^item> \<^verbatim>\<open>Db_Iterator\<close>, \<^verbatim>\<open>Scan\<close> (\<^verbatim>\<open>iterator/\<close>, \<^verbatim>\<open>lsm/lsm.go\<close>): the merge of memory and tables, range and prefix
    iterators, and the scans the tree opens.
  \<^item> \<^verbatim>\<open>Notifier\<close>, \<^verbatim>\<open>Paged_Scan\<close> (\<^verbatim>\<open>notifier/\<close>, \<^verbatim>\<open>core/scan.go\<close>, \<^verbatim>\<open>core/paged_scan.go\<close>): subscriptions with buffered
    channels, and the paged sessions with the goroutine that watches their channel, again as a step relation.
  \<^item> \<^verbatim>\<open>Encoders\<close>, \<^verbatim>\<open>Data_Block\<close>, \<^verbatim>\<open>Block_Iterator\<close> (\<^verbatim>\<open>encoders/factory.go\<close>, \<^verbatim>\<open>sstable/data.go\<close>): the choice of an
    encoder and growing dictionaries; the builder and the reader of data blocks with the chunks of long values; the
    iterator over a block with its binary search. \<^verbatim>\<open>built\<close> relates the bytes of a block to the list of its items.
  \<^item> \<^verbatim>\<open>Merkle\<close>, \<^verbatim>\<open>Segment_Storage\<close>, \<^verbatim>\<open>Stored_Segments\<close> (\<^verbatim>\<open>sstable/merkle.go\<close>, \<^verbatim>\<open>sstable/segment_storage.go\<close>): the tree of
    block hashes with SHA-256 written out, and the two storages of segments with what the disk holds at every place.
  \<^item> \<^verbatim>\<open>Table_Reader\<close>, \<^verbatim>\<open>Table_Iterator\<close>, \<^verbatim>\<open>Table_Writer\<close>, \<^verbatim>\<open>Table_Written\<close> (\<^verbatim>\<open>sstable/reader.go\<close>, \<^verbatim>\<open>sstable/iterator.go\<close>,
    \<^verbatim>\<open>sstable/writer.go\<close>): whole tables. \<^verbatim>\<open>stored_as\<close> relates a list of records to the items in the blocks of a table,
    \<^verbatim>\<open>writer_inv\<close> the state of the writer to the blocks it has written.
  \<^item> \<^verbatim>\<open>Table_File\<close>, \<^verbatim>\<open>Table_Reopened\<close>, \<^verbatim>\<open>Table_Finalized\<close> (the same files): what \<^verbatim>\<open>Finalize\<close> leaves on disk, what
    \<^verbatim>\<open>NewSSTableReader\<close> finds there, and that a table written, finished and opened again gives back its records, admits
    their keys and validates. \<^verbatim>\<open>settings_ok\<close>, \<^verbatim>\<open>record_ok\<close>, \<^verbatim>\<open>indices_encode\<close>, \<^verbatim>\<open>dictionary_small\<close> and \<^verbatim>\<open>small_files\<close> name the
    conditions: records that fit a block, index blocks that \<^verbatim>\<open>Encode\<close> does not overrun, at most 256 dictionary values,
    and files below 4 GiB.

  \<^bold>\<open>Interfaces.\<close> The laws a client relies on are locales, interpreted on the model's own definitions by
  the theory that provides them: \<^verbatim>\<open>forward_iterator\<close> and \<^verbatim>\<open>rewindable_iterator\<close> for the AVL tree, the
  hash map and the tables, \<^verbatim>\<open>segment_storage\<close> for the storages of one and of many files, \<^verbatim>\<open>seekable_iterator\<close> for the hash map and the data blocks, \<^verbatim>\<open>entry_iterator\<close> for the iterators of memtables,
  \<^verbatim>\<open>memtable_store\<close> for the two stores, \<^verbatim>\<open>merge_structure\<close> and \<^verbatim>\<open>seekable_merge_structure\<close> for the heap and the tournament
  tree, \<^verbatim>\<open>entry_source\<close>, \<^verbatim>\<open>db_sources\<close> and \<^verbatim>\<open>seekable_entries\<close> for what a scan merges,
  \<^verbatim>\<open>cmp_order\<close> for the comparators, and the codec locales of \<^verbatim>\<open>Entries\<close> and \<^verbatim>\<open>Index_Blocks\<close> for the three
  kinds of entries.

  \<^bold>\<open>Modelling.\<close> Go's fixed-width integers are words, so arithmetic wraps; slices are lists, with the panics
  of indexing as results; maps are partial functions; pointers are identities only where the code
  depends on sharing (elements of the LRU list). A loop that may run on is given the fuel its data
  bounds, or is a partial function whose value \<^verbatim>\<open>None\<close> is a loop that does not return, and the theorems show that it
  returns. The clock, the random seeds and the file
  system's contents are arguments. A mutex makes the operations it protects atomic steps.

  \<^bold>\<open>Bounds.\<close> The theorems on data blocks are for blocks smaller than 512 KiB, where the size of the bitmap fits
  its 16 bits, and restart intervals below \<open>2 ^ 31\<close>; slices are shorter than \<open>2 ^ 48\<close> bytes, which is the address space
  of the platform.

  \<^bold>\<open>Not modelled.\<close> The command line, configuration, flags and the copying of files for backups are input and
  output. The engine, the reads of the tree through its cache and the compaction
  strategies, the manager of the tables with its manifest, the filtering and merging iterators over tables, SimHash, the stores other than the AVL tree and the hash map, and the removal of expired
  entries are left out; the manifest of the development lists every part with its state.
\<close>

end
